(* ===== verification/Prelude.thy ===== *)
theory Prelude
  imports Main "HOL-Library.Word"
begin

unbundle bit_operations_syntax

text \<open>
  What every theory of the development shares: the names of Rust's machine integers, the exit
  codes and the result type of fallible code (\<open>lepton_error.rs\<close>), the bit counting operations of
  Rust's integers, and generic facts on words, bit lengths and byte strings.

  A panic (failed \<open>assert!\<close>, index out of range, \<open>unwrap\<close> of nothing) is the error value
  \<open>Panic\<close>, so that the absence of panics is a statement about the result. The release profile of
  the crate has no overflow checks: arithmetic on the machine integers wraps around, and so do the
  words of the model. The text of an error message is not modelled, its exit code is.
\<close>

section \<open>Machine integers\<close>

type_synonym u8 = "8 word"
type_synonym u16 = "16 word"
type_synonym u32 = "32 word"
type_synonym u64 = "64 word"
type_synonym i16 = "16 word"
type_synonym i32 = "32 word"
type_synonym usize = nat
type_synonym bytes = "u8 list"

section \<open>Error values\<close>

datatype ExitCode =
    AssertionFailure
  | ShortRead
  | Unsupported4Colors
  | CoefficientOutOfRange
  | StreamInconsistent
  | ProgressiveUnsupported
  | SamplingBeyondTwoUnsupported
  | VersionUnsupported
  | OsError
  | UnsupportedJpeg
  | UnsupportedJpegWithZeroIdct0
  | InvalidResetCode
  | InvalidPadding
  | BadLeptonFile
  | ChannelFailure
  | IntegerCastOverflow
  | VerificationLengthMismatch
  | VerificationContentMismatch
  | SyntaxError
  | FileNotFound
  | ExternalVerificationFailed
  | OutOfMemory

fun as_integer_error_code :: "ExitCode \<Rightarrow> i32" where
  "as_integer_error_code AssertionFailure = 1"
| "as_integer_error_code ShortRead = 3"
| "as_integer_error_code Unsupported4Colors = 4"
| "as_integer_error_code CoefficientOutOfRange = 6"
| "as_integer_error_code StreamInconsistent = 7"
| "as_integer_error_code ProgressiveUnsupported = 8"
| "as_integer_error_code SamplingBeyondTwoUnsupported = 10"
| "as_integer_error_code VersionUnsupported = 13"
| "as_integer_error_code OsError = 33"
| "as_integer_error_code UnsupportedJpeg = 42"
| "as_integer_error_code UnsupportedJpegWithZeroIdct0 = 43"
| "as_integer_error_code InvalidResetCode = 44"
| "as_integer_error_code InvalidPadding = 45"
| "as_integer_error_code BadLeptonFile = 102"
| "as_integer_error_code ChannelFailure = 103"
| "as_integer_error_code IntegerCastOverflow = 1000"
| "as_integer_error_code VerificationLengthMismatch = 1004"
| "as_integer_error_code VerificationContentMismatch = 1005"
| "as_integer_error_code SyntaxError = 1006"
| "as_integer_error_code FileNotFound = 1007"
| "as_integer_error_code ExternalVerificationFailed = 1008"
| "as_integer_error_code OutOfMemory = 2000"

datatype failure = LeptonError ExitCode | Panic

type_synonym 'a result = "failure + 'a"

abbreviation Ok :: "'a \<Rightarrow> 'a result" where
  "Ok x \<equiv> Inr x"

abbreviation err_exit_code :: "ExitCode \<Rightarrow> 'a result" where
  "err_exit_code e \<equiv> Inl (LeptonError e)"

abbreviation panic :: "'a result" where
  "panic \<equiv> Inl Panic"

text \<open>The \<open>?\<close> operator: the rest of the function on success, the early return on failure.\<close>

fun bindR :: "'a result \<Rightarrow> ('a \<Rightarrow> 'b result) \<Rightarrow> 'b result" where
  "bindR (Inl e) f = Inl e"
| "bindR (Inr x) f = f x"

definition assertR :: "bool \<Rightarrow> unit result" where
  "assertR b = (if b then Ok () else panic)"

text \<open>\<open>xs[i]\<close> and \<open>xs[i] = v\<close> of a slice: a panic out of range.\<close>

definition idx :: "'a list \<Rightarrow> nat \<Rightarrow> 'a result" where
  "idx xs i = (if i < length xs then Ok (xs ! i) else panic)"

definition set_idx :: "'a list \<Rightarrow> nat \<Rightarrow> 'a \<Rightarrow> 'a list result" where
  "set_idx xs i v = (if i < length xs then Ok (xs[i := v]) else panic)"

lemma bindR_eq_Inr [simp]: "bindR m f = Inr y \<longleftrightarrow> (\<exists>x. m = Inr x \<and> f x = Inr y)"
  by (cases m) auto

lemma bindR_Inr [simp]: "bindR m Inr = m"
  by (cases m) simp_all

lemma bindR_cong [fundef_cong]: "m = m' \<Longrightarrow> (\<And>x. m' = Inr x \<Longrightarrow> f x = g x) \<Longrightarrow> bindR m f = bindR m' g"
  by (cases m') auto

lemma bindR_assoc: "bindR (bindR m f) g = bindR m (\<lambda>x. bindR (f x) g)"
  by (cases m) auto

lemma assertR_eq_Inr [simp]: "assertR b = Inr x \<longleftrightarrow> b"
  by (simp add: assertR_def)

lemma assertR_True [simp]: "assertR True = Inr ()"
  by (simp add: assertR_def)

lemma idx_eq_Inr [simp]: "idx xs i = Inr v \<longleftrightarrow> i < length xs \<and> xs ! i = v"
  by (auto simp: idx_def)

lemma idx_in_range: "i < length xs \<Longrightarrow> idx xs i = Inr (xs ! i)"
  by (simp add: idx_def)

lemma set_idx_in_range: "i < length xs \<Longrightarrow> set_idx xs i v = Inr (xs[i := v])"
  by (simp add: set_idx_def)

lemma set_idx_eq_Inr [simp]: "set_idx xs i v = Inr ys \<longleftrightarrow> i < length xs \<and> ys = xs[i := v]"
  by (auto simp: set_idx_def)

text \<open>Loops without a bound in their head run on fuel: \<open>None\<close> is a loop that has not ended yet, and
  \<open>ended\<close> takes that for a failure when it cannot happen.\<close>

definition bindF :: "'a result option \<Rightarrow> ('a \<Rightarrow> 'b result option) \<Rightarrow> 'b result option" where
  "bindF m f = (case m of None \<Rightarrow> None | Some (Inl e) \<Rightarrow> Some (Inl e) | Some (Inr x) \<Rightarrow> f x)"

definition ended :: "'a result option \<Rightarrow> 'a result" where
  "ended m = (case m of None \<Rightarrow> panic | Some r \<Rightarrow> r)"

lemma bindF_simps [simp]:
  "bindF None f = None" "bindF (Some (Inl e)) f = Some (Inl e)" "bindF (Some (Inr x)) f = f x"
  by (simp_all add: bindF_def)

lemma bindF_eq_None: "bindF m f = None \<longleftrightarrow> m = None \<or> (\<exists>x. m = Some (Inr x) \<and> f x = None)"
  by (auto simp: bindF_def split: option.splits sum.splits)

lemma bindF_eq_Inr: "bindF m f = Some (Inr y) \<longleftrightarrow> (\<exists>x. m = Some (Inr x) \<and> f x = Some (Inr y))"
  by (auto simp: bindF_def split: option.splits sum.splits)

lemma ended_simps [simp]: "ended None = panic" "ended (Some r) = r"
  by (simp_all add: ended_def)

lemma ended_bindF: "ended (bindF m f) = bindR (ended m) (\<lambda>x. ended (f x))"
  by (auto simp: bindF_def split: option.splits sum.splits)

lemma ended_eq_Inr [simp]: "ended m = Inr x \<longleftrightarrow> m = Some (Inr x)"
  by (cases m) auto

text \<open>\<open>catch_unwind_result\<close> of \<open>helpers.rs\<close>: a panic of the callback becomes an error of the
  library.\<close>

fun catch_unwind_result :: "'a result \<Rightarrow> 'a result" where
  "catch_unwind_result (Inl Panic) = err_exit_code AssertionFailure"
| "catch_unwind_result (Inl (LeptonError e)) = err_exit_code e"
| "catch_unwind_result (Inr r) = Ok r"

section \<open>Counting bits\<close>

text \<open>The number of binary digits of a number; \<open>leading_zeros\<close> and \<open>trailing_zeros\<close> are Rust's
  methods of the same names.\<close>

fun bit_len :: "nat \<Rightarrow> nat" where
  "bit_len n = (if n = 0 then 0 else Suc (bit_len (n div 2)))"

declare bit_len.simps [simp del]

definition leading_zeros :: "'a::len word \<Rightarrow> nat" where
  "leading_zeros w = LENGTH('a) - bit_len (unat w)"

fun tz :: "nat \<Rightarrow> nat" where
  "tz n = (if n = 0 \<or> odd n then 0 else Suc (tz (n div 2)))"

declare tz.simps [simp del]

definition trailing_zeros :: "'a::len word \<Rightarrow> nat" where
  "trailing_zeros w = (if w = 0 then LENGTH('a) else tz (unat w))"

lemma bit_len_0 [simp]: "bit_len 0 = 0"
  by (simp add: bit_len.simps)

lemma bit_len_pos: "0 < n \<Longrightarrow> bit_len n = Suc (bit_len (n div 2))"
  by (simp add: bit_len.simps)

lemma bit_len_upper: "n < 2 ^ bit_len n"
proof (induction n rule: bit_len.induct)
  case (1 n)
  show ?case
  proof (cases "n = 0")
    case False
    with 1 have "n div 2 < 2 ^ bit_len (n div 2)" by simp
    then have "n < 2 * 2 ^ bit_len (n div 2)" by linarith
    with False show ?thesis by (simp add: bit_len_pos)
  qed simp
qed

lemma bit_len_lower: "0 < n \<Longrightarrow> 2 ^ (bit_len n - Suc 0) \<le> n"
proof (induction n rule: bit_len.induct)
  case (1 n)
  show ?case
  proof (cases "n div 2 = 0")
    case True
    with 1(2) have "n = 1" by linarith
    then show ?thesis by (simp add: bit_len_pos)
  next
    case False
    with 1 have "2 ^ (bit_len (n div 2) - Suc 0) \<le> n div 2" by simp
    moreover have "bit_len (n div 2) = Suc (bit_len (n div 2) - Suc 0)"
      using False by (simp add: bit_len_pos)
    ultimately have "(2::nat) ^ bit_len (n div 2) \<le> 2 * (n div 2)"
      by (metis mult_le_mono2 power_Suc)
    then have "2 ^ bit_len (n div 2) \<le> n" by linarith
    with 1(2) show ?thesis by (simp add: bit_len_pos)
  qed
qed

lemma bit_len_unique: "2 ^ k \<le> n \<Longrightarrow> n < 2 ^ Suc k \<Longrightarrow> bit_len n = Suc k"
proof -
  assume a: "2 ^ k \<le> n" and b: "n < 2 ^ Suc k"
  have "0 < n" using a by (rule less_le_trans [rotated]) simp
  then have l: "2 ^ (bit_len n - Suc 0) \<le> n" and p: "0 < bit_len n"
    by (rule bit_len_lower) (simp add: bit_len_pos \<open>0 < n\<close>)
  have u: "n < 2 ^ bit_len n" by (rule bit_len_upper)
  have "(2::nat) ^ k < 2 ^ bit_len n" using a u by linarith
  then have "k < bit_len n" by (simp add: power_strict_increasing_iff)
  moreover have "(2::nat) ^ (bit_len n - Suc 0) < 2 ^ Suc k" using l b by linarith
  then have "bit_len n - Suc 0 < Suc k" by (rule power_less_imp_less_exp [rotated]) simp
  ultimately show ?thesis using p by linarith
qed

lemma bit_len_le_iff: "bit_len n \<le> k \<longleftrightarrow> n < 2 ^ k"
proof
  assume "bit_len n \<le> k"
  then have "(2::nat) ^ bit_len n \<le> 2 ^ k" by (rule power_increasing) simp
  with bit_len_upper [of n] show "n < 2 ^ k" by linarith
next
  assume a: "n < 2 ^ k"
  show "bit_len n \<le> k"
  proof (cases "n = 0")
    case False
    then have "2 ^ (bit_len n - Suc 0) \<le> n" by (simp add: bit_len_lower)
    with a have "(2::nat) ^ (bit_len n - Suc 0) < 2 ^ k" by linarith
    then have "bit_len n - Suc 0 < k" by (simp add: power_strict_increasing_iff)
    then show ?thesis by linarith
  qed simp
qed

lemma leading_zeros_unique:
  fixes w :: "'a::len word"
  assumes "2 ^ k \<le> unat w" "unat w < 2 ^ Suc k"
  shows "leading_zeros w = LENGTH('a) - Suc k"
  using bit_len_unique [OF assms] by (simp add: leading_zeros_def)

lemma leading_zeros_le: "leading_zeros (w :: 'a::len word) \<le> LENGTH('a)"
  by (simp add: leading_zeros_def)

section \<open>Word operations of Rust\<close>

definition rotate_left :: "nat \<Rightarrow> 'a::len word \<Rightarrow> 'a word" where
  "rotate_left n w = (let k = n mod LENGTH('a) in push_bit k w OR drop_bit (LENGTH('a) - k) w)"

definition overflowing_add :: "'a::len word \<Rightarrow> 'a word \<Rightarrow> 'a word \<times> bool" where
  "overflowing_add a b = (a + b, 2 ^ LENGTH('a) \<le> unat a + unat b)"

text \<open>\<open>u64::to_be_bytes\<close>, \<open>u32::to_le_bytes\<close> and their inverses are lists of bytes.\<close>

definition be_bytes :: "nat \<Rightarrow> 'a::len word \<Rightarrow> bytes" where
  "be_bytes n w = map (\<lambda>i. ucast (drop_bit (8 * (n - 1 - i)) w)) [0..<n]"

definition le_bytes :: "nat \<Rightarrow> 'a::len word \<Rightarrow> bytes" where
  "le_bytes n w = map (\<lambda>i. ucast (drop_bit (8 * i) w)) [0..<n]"

fun from_le_bytes :: "bytes \<Rightarrow> nat" where
  "from_le_bytes [] = 0"
| "from_le_bytes (b # bs) = unat b + 256 * from_le_bytes bs"

text \<open>The number a big-endian string of bytes denotes.\<close>

definition be_val :: "bytes \<Rightarrow> nat" where
  "be_val bs = foldl (\<lambda>a b. a * 256 + unat b) 0 bs"

section \<open>Word facts\<close>

text \<open>\<open>word_nat\<close> turns an equation of words into one of natural numbers.\<close>

named_theorems word_nat \<open>natural number readings of the word operations\<close>

lemmas [word_nat] = unat_word_ariths unsigned_or_eq unsigned_and_eq unsigned_xor_eq
  unsigned_drop_bit_eq unsigned_push_bit_eq unsigned_take_bit_eq unsigned_ucast_eq

lemma unat_lt2p: "unat (w :: 'a::len word) < 2 ^ LENGTH('a)"
  by (rule unsigned_less)

lemma nat_or_disjoint:
  fixes a b :: nat
  assumes "b < 2 ^ n"
  shows "(a * 2 ^ n) OR b = a * 2 ^ n + b"
proof -
  have "(a * 2 ^ n) AND b = 0"
  proof (rule bit_eqI)
    fix k
    show "bit ((a * 2 ^ n) AND b) k \<longleftrightarrow> bit (0 :: nat) k"
    proof (cases "k < n")
      case True
      then have "\<not> bit (push_bit n a) k" by (simp add: bit_push_bit_iff_nat)
      then show ?thesis by (simp add: bit_and_iff push_bit_eq_mult)
    next
      case False
      then have "(2::nat) ^ n \<le> 2 ^ k" by (intro power_increasing) simp_all
      with assms have "b < 2 ^ k" by linarith
      then have "\<not> bit b k" by (simp add: bit_iff_odd)
      then show ?thesis by (simp add: bit_and_iff)
    qed
  qed
  then show ?thesis by (simp add: disjunctive_add_eq_or)
qed

lemma of_nat_append_bits:
  "b < 2 ^ n \<Longrightarrow> push_bit n (of_nat x) OR of_nat b = (of_nat (x * 2 ^ n + b) :: 'a::len word)"
  by (metis nat_or_disjoint of_nat_or_eq push_bit_eq_mult push_bit_of_nat)

lemma nat_xor_top:
  fixes a :: nat
  assumes "a < 2 ^ n"
  shows "(2 ^ n + a) XOR 2 ^ n = a"
proof -
  have "\<not> bit a n" using assms by (simp add: bit_iff_odd)
  then have "(2 ^ n OR a) XOR 2 ^ n = a"
    by (intro bit_eqI) (auto simp: bit_simps)
  then show ?thesis using nat_or_disjoint [OF assms, of 1] by simp
qed

lemma unat_push_bit_small:
  fixes w :: "'a::len word"
  assumes "unat w * 2 ^ n < 2 ^ LENGTH('a)"
  shows "unat (push_bit n w) = unat w * 2 ^ n"
  using assms
  by (simp add: unsigned_push_bit_eq take_bit_eq_mod push_bit_eq_mult [where 'a = nat])

lemma unat_push_bit:
  "unat (push_bit n (w :: 'a::len word)) = unat w * 2 ^ n mod 2 ^ LENGTH('a)"
  by (simp add: unsigned_push_bit_eq take_bit_eq_mod push_bit_eq_mult [where 'a = nat])

lemma unat_drop_bit: "unat (drop_bit n (w :: 'a::len word)) = unat w div 2 ^ n"
  by (simp add: unsigned_drop_bit_eq take_bit_eq_mod drop_bit_eq_div [where 'a = nat])

lemma unat_ucast: "unat (ucast (w :: 'a::len word) :: 'b::len word) = unat w mod 2 ^ LENGTH('b)"
  by (simp add: unsigned_ucast_eq take_bit_eq_mod)

lemma unat_mod_len: "unat (w :: 'a::len word) mod 2 ^ LENGTH('a) = unat w"
  by (rule mod_less) (rule unat_lt2p)

lemma unat_or: "unat (v OR w) = unat v OR unat w"
  by (simp add: unsigned_or_eq)

lemma unat_and_mask: "unat (w AND mask n) = unat (w :: 'a::len word) mod 2 ^ n"
proof -
  have "unat (take_bit n w) = unat w mod 2 ^ n" unfolding unsigned_take_bit_eq by (rule take_bit_eq_mod)
  then show ?thesis by (simp only: take_bit_eq_mask)
qed

lemma unat_or_disjoint:
  assumes "unat a = x * 2 ^ n" "unat b < 2 ^ n"
  shows "unat (a OR b) = unat a + unat b"
  using nat_or_disjoint [OF assms(2), of x] assms(1) by (simp add: unat_or)

lemma unat_rotate_left:
  fixes w :: "'a::len word"
  assumes "n < LENGTH('a)"
  shows "unat (rotate_left n w)
    = unat w mod 2 ^ (LENGTH('a) - n) * 2 ^ n + unat w div 2 ^ (LENGTH('a) - n)"
proof -
  let ?k = "LENGTH('a) - n"
  have L: "(2::nat) ^ LENGTH('a) = 2 ^ ?k * 2 ^ n"
    using assms by (simp flip: power_add)
  have p: "unat (push_bit n w) = unat w mod 2 ^ ?k * 2 ^ n"
    by (simp add: unat_push_bit L mult_mod_left)
  have "unat w < 2 ^ ?k * 2 ^ n" using unat_lt2p [of w] L by simp
  then have d: "unat (drop_bit ?k w) < 2 ^ n"
    by (simp add: unat_drop_bit less_mult_imp_div_less mult.commute)
  have "unat (rotate_left n w) = unat (push_bit n w) + unat (drop_bit ?k w)"
    using unat_or_disjoint [OF p d] assms by (simp add: rotate_left_def)
  then show ?thesis by (simp add: p unat_drop_bit)
qed

lemma sint_of_int_small:
  assumes "- (2 ^ (LENGTH('a) - 1)) \<le> i" "i < 2 ^ (LENGTH('a) - 1)"
  shows "sint (of_int i :: 'a::len word) = i"
  using assms by (simp add: sint_sbintrunc' signed_take_bit_int_eq_self)

lemma sint_unat_small:
  fixes w :: "'a::len word"
  assumes "unat w < 2 ^ (LENGTH('a) - 1)"
  shows "sint w = int (unat w)"
proof -
  have "int (unat w) < 2 ^ (LENGTH('a) - 1)" using assms by (metis of_nat_less_iff of_nat_numeral of_nat_power)
  then have "sint (of_int (int (unat w)) :: 'a word) = int (unat w)"
    by (intro sint_of_int_small) (auto intro: order_trans [of _ 0])
  then show ?thesis by simp
qed

lemma unat_pow2: "n < LENGTH('a) \<Longrightarrow> unat (push_bit n 1 :: 'a::len word) = 2 ^ n"
  by (rule trans [OF unat_push_bit_small]) simp_all

lemma and_pow2_ne_0:
  fixes w :: "'a::len word"
  assumes "n < LENGTH('a)"
  shows "w AND push_bit n 1 \<noteq> 0 \<longleftrightarrow> odd (unat w div 2 ^ n)"
proof -
  have "bit w n \<longleftrightarrow> odd (unat w div 2 ^ n)"
    using assms by (metis bit_iff_odd bit_unsigned_iff possible_bit_nat)
  then show ?thesis by (simp add: push_bit_eq_mult and_exp_eq_0_iff_not_bit)
qed

lemma pow256: "(256 :: nat) ^ n = 2 ^ (8 * n)"
  by (simp add: power_mult)

lemma nat_and_pow2_ne_0: "(v :: nat) AND push_bit n 1 \<noteq> 0 \<longleftrightarrow> odd (v div 2 ^ n)"
  by (simp add: push_bit_eq_mult and_exp_eq_0_iff_not_bit bit_iff_odd)

lemma length_be_bytes [simp]: "length (be_bytes n w) = n"
  by (simp add: be_bytes_def)

lemma length_le_bytes [simp]: "length (le_bytes n w) = n"
  by (simp add: le_bytes_def)

lemma le_bytes_Suc: "le_bytes (Suc n) w = ucast w # le_bytes n (drop_bit 8 w)"
  unfolding le_bytes_def by (subst upt_conv_Cons) (simp_all add: map_Suc_upt [symmetric] comp_def add.commute del: upt_Suc)

lemma be_val_Nil [simp]: "be_val [] = 0"
  by (simp add: be_val_def)

lemma be_val_snoc [simp]: "be_val (bs @ [b]) = be_val bs * 256 + unat b"
  by (simp add: be_val_def)

lemma be_val_append: "be_val (bs @ cs) = be_val bs * 256 ^ length cs + be_val cs"
proof (induction cs rule: rev_induct)
  case (snoc c cs)
  have "be_val (bs @ cs @ [c]) = be_val ((bs @ cs) @ [c])" by simp
  also have "\<dots> = be_val (bs @ cs) * 256 + unat c" by (rule be_val_snoc)
  finally show ?case using snoc by (simp add: algebra_simps)
qed simp

lemma be_val_Cons: "be_val (b # bs) = unat b * 256 ^ length bs + be_val bs"
  using be_val_append [of "[b]" bs] be_val_snoc [of "[]" b] by simp

lemma be_val_upper: "be_val bs < 256 ^ length bs"
proof (induction bs rule: rev_induct)
  case (snoc b bs)
  have "unat b < 256" using unat_lt2p [of b] by simp
  moreover have "be_val bs + 1 \<le> 256 ^ length bs" using snoc by simp
  then have "(be_val bs + 1) * 256 \<le> 256 ^ length bs * 256" by (rule mult_le_mono1)
  ultimately show ?case by (simp add: algebra_simps)
qed simp

lemma be_bytes_Suc: "be_bytes (Suc n) w = be_bytes n (drop_bit 8 w) @ [ucast w]"
proof (rule nth_equalityI)
  fix i
  assume "i < length (be_bytes (Suc n) w)"
  then consider "i < n" | "i = n" by fastforce
  then show "be_bytes (Suc n) w ! i = (be_bytes n (drop_bit 8 w) @ [ucast w]) ! i"
  proof cases
    case 1
    then have "8 * (Suc n - 1 - i) = 8 * (n - 1 - i) + 8" by simp
    with 1 show ?thesis by (simp add: be_bytes_def nth_append)
  qed (simp add: be_bytes_def nth_append)
qed simp

lemma be_val_be_bytes: "be_val (be_bytes n w) = unat w mod 256 ^ n"
proof (induction n arbitrary: w)
  case (Suc n)
  have "be_val (be_bytes (Suc n) w) = unat w div 256 mod 256 ^ n * 256 + unat w mod 256"
    using Suc by (simp add: be_bytes_Suc unat_drop_bit unat_ucast)
  then show ?case by (simp add: mod_mult2_eq)
qed (simp add: be_bytes_def)

lemma unat_and_top:
  fixes v :: "'a::len word"
  shows "unat (v AND push_bit n (- 1)) = unat v div 2 ^ n * 2 ^ n"
proof -
  have e: "v AND push_bit n (- 1) = push_bit n (drop_bit n v)"
    by (simp add: bit_eq_iff bit_simps) auto
  have "unat v div 2 ^ n * 2 ^ n \<le> unat v" by (rule div_times_less_eq_dividend)
  then have "unat (drop_bit n v) * 2 ^ n < 2 ^ LENGTH('a)"
    unfolding unat_drop_bit using unat_lt2p [of v] by linarith
  then show ?thesis unfolding e by (simp add: unat_push_bit_small unat_drop_bit)
qed

lemma bit_len_mult_pow2: "0 < n \<Longrightarrow> bit_len (n * 2 ^ k) = bit_len n + k"
proof (induction k)
  case (Suc k)
  then have "bit_len (n * 2 ^ Suc k) = Suc (bit_len (n * 2 ^ Suc k div 2))"
    by (intro bit_len_pos) simp
  also have "n * 2 ^ Suc k div 2 = n * 2 ^ k" by simp
  finally show ?case using Suc by simp
qed simp

text \<open>The lowest set bit of a number.\<close>

lemma tz_odd_mult: "odd a \<Longrightarrow> tz (a * 2 ^ g) = g"
proof (induction g)
  case (Suc g)
  have "a * 2 ^ Suc g div 2 = a * 2 ^ g" by simp
  moreover have "a * 2 ^ Suc g \<noteq> 0" "even (a * 2 ^ Suc g)" using Suc.prems by (auto simp: odd_pos)
  ultimately show ?case using Suc by (subst tz.simps) simp
qed (simp add: tz.simps)

lemma and_minus_1_nat:
  fixes a :: nat
  assumes "odd a"
  shows "(a * 2 ^ g) AND (a * 2 ^ g - 1) = (a - 1) * 2 ^ g"
proof (induction g)
  case 0
  from assms obtain y where "a = 2 * y + 1" by (rule oddE)
  then show ?case by (simp add: and_rec [of "Suc (2 * y)"])
next
  case (Suc g)
  define b where "b = a * 2 ^ g"
  have "1 \<le> b" using assms by (simp add: b_def odd_pos Suc_le_eq)
  then have "2 * b - 1 = 1 + 2 * (b - 1)" by simp
  moreover have "(2 * b) AND (1 + 2 * (b - 1)) = 2 * (b AND (b - 1))"
    by (subst and_rec) simp
  ultimately show ?case using Suc by (simp add: b_def mult_ac)
qed

section \<open>Arrays\<close>

text \<open>A list that stands for an array of \<open>n\<close> elements with the property \<open>P\<close>.\<close>

definition list_ok :: "nat \<Rightarrow> ('a \<Rightarrow> bool) \<Rightarrow> 'a list \<Rightarrow> bool" where
  "list_ok n P xs \<longleftrightarrow> length xs = n \<and> (\<forall>x \<in> set xs. P x)"

lemma list_ok_length: "list_ok n P xs \<Longrightarrow> length xs = n"
  by (simp add: list_ok_def)

lemma list_ok_nth: "list_ok n P xs \<Longrightarrow> i < n \<Longrightarrow> P (xs ! i)"
  by (simp add: list_ok_def)

lemma list_ok_idx: "list_ok n P xs \<Longrightarrow> i < n \<Longrightarrow> idx xs i = Inr (xs ! i)"
  by (simp add: list_ok_def idx_in_range)

lemma list_ok_update [intro]: "list_ok n P xs \<Longrightarrow> P x \<Longrightarrow> list_ok n P (xs[i := x])"
  by (auto simp: list_ok_def dest!: set_mp [OF set_update_subset_insert])

lemma list_ok_replicate [simp]: "list_ok n P (replicate m x) \<longleftrightarrow> n = m \<and> (n = 0 \<or> P x)"
  by (auto simp: list_ok_def)

end
