(* ===== verification/Helpers.thy ===== *)
theory Helpers
  imports Prelude
begin

unbundle bit_operations_syntax

text \<open>
  The pure functions of \<open>helpers.rs\<close>: bit lengths, the branch-free test for an 0xFF byte in eight
  bytes at once, JPEG's signed value of an \<open>s\<close>-bit code (\<open>devli\<close>), nibbles and bits. A shift by
  at least the width of the operand is masked, as it is without overflow checks.
\<close>

definition u16_bit_length :: "u16 \<Rightarrow> u8" where
  "u16_bit_length v = 16 - of_nat (leading_zeros v)"

definition u32_bit_length :: "u32 \<Rightarrow> u8" where
  "u32_bit_length v = 32 - of_nat (leading_zeros v)"

fun buffer_prefix_matches_marker :: "bytes \<Rightarrow> bytes \<Rightarrow> bool result" where
  "buffer_prefix_matches_marker buffer [] = Ok True"
| "buffer_prefix_matches_marker [] (m # marker) = panic"
| "buffer_prefix_matches_marker (b # buffer) (m # marker) =
    (if b \<noteq> m then Ok False else buffer_prefix_matches_marker buffer marker)"

definition has_ff :: "u64 \<Rightarrow> bool" where
  "has_ff v \<longleftrightarrow>
    v AND 0x8080808080808080 AND NOT (v + 0x0101010101010101) \<noteq> 0"

definition devli :: "u8 \<Rightarrow> u16 \<Rightarrow> i16" where
  "devli s value =
    (let shifted = push_bit (unat s mod 16) 1
     in if value AND drop_bit 1 shifted \<noteq> 0 then value else value + 2 + NOT shifted)"

definition b_short :: "u8 \<Rightarrow> u8 \<Rightarrow> u16" where
  "b_short v1 v2 = push_bit 8 (ucast v1) + ucast v2"

definition rbits :: "u8 \<Rightarrow> usize \<Rightarrow> u8" where
  "rbits c n = c AND drop_bit (nat ((8 - int n) mod 8)) 0xFF"

definition lbits :: "u8 \<Rightarrow> usize \<Rightarrow> u8" where
  "lbits c n = drop_bit (nat ((8 - int n) mod 8)) c"

definition bitn :: "u16 \<Rightarrow> u16 \<Rightarrow> u8" where
  "bitn c n = ucast (drop_bit (unat n mod 16) c AND 1)"

definition calc_sign_index :: "i16 \<Rightarrow> usize" where
  "calc_sign_index val = (if val = 0 then 0 else if 0 < sint val then 1 else 2)"

section \<open>Bit lengths\<close>

lemma unat_u16_bit_length: "unat (u16_bit_length v) = bit_len (unat v)"
proof -
  have "bit_len (unat v) \<le> 16" using unat_lt2p [of v] by (simp add: bit_len_le_iff)
  then have "u16_bit_length v = of_nat (bit_len (unat v))"
    by (simp add: u16_bit_length_def leading_zeros_def of_nat_diff)
  with \<open>bit_len (unat v) \<le> 16\<close> show ?thesis by (simp add: unat_of_nat)
qed

lemma unat_u32_bit_length: "unat (u32_bit_length v) = bit_len (unat v)"
proof -
  have "bit_len (unat v) \<le> 32" using unat_lt2p [of v] by (simp add: bit_len_le_iff)
  then have "u32_bit_length v = of_nat (bit_len (unat v))"
    by (simp add: u32_bit_length_def leading_zeros_def of_nat_diff)
  with \<open>bit_len (unat v) \<le> 32\<close> show ?thesis by (simp add: unat_of_nat)
qed

section \<open>The test for an 0xFF byte\<close>

text \<open>The bit trick on numbers: adding 1 to every byte clears the top bit of a byte that has it
  set only at 255, as long as no lower byte carries; the lowest 0xFF byte is always detected.\<close>

fun ones :: "nat \<Rightarrow> nat" where
  "ones 0 = 0"
| "ones (Suc n) = 1 + 256 * ones n"

lemma byte_flip:
  fixes b :: nat
  assumes "b < 256"
  shows "odd (b div 128) \<and> even ((b + 1) div 128) \<longleftrightarrow> b = 255"
proof (cases "b < 128")
  case False
  then have d: "b div 128 = 1" using assms by simp
  show ?thesis
  proof (cases "b = 255")
    case False
    with \<open>\<not> b < 128\<close> assms have "(b + 1) div 128 = 1" by simp
    with False show ?thesis by simp
  qed (simp add: d)
qed simp

lemma ff_trick:
  "(\<exists>i<n. odd (v div 2 ^ (8 * i + 7)) \<and> even ((v + ones n) div 2 ^ (8 * i + 7)))
    \<longleftrightarrow> (\<exists>i<n. v div 256 ^ i mod 256 = 255)"
proof (induction n arbitrary: v)
  case (Suc n)
  define b v' where bv: "b = v mod 256" "v' = v div 256"
  then have v: "v = 256 * v' + b" and b: "b < 256" by simp_all
  have e: "x div 2 ^ (8 * Suc i + 7) = x div 256 div 2 ^ (8 * i + 7)" for x i :: nat
  proof -
    have "8 * Suc i + 7 = 8 + (8 * i + 7)" by simp
    then have "(2::nat) ^ (8 * Suc i + 7) = 2 ^ 8 * 2 ^ (8 * i + 7)" by (simp only: power_add)
    also have "(2::nat) ^ 8 = 256" by simp
    finally have q: "(2::nat) ^ (8 * Suc i + 7) = 256 * 2 ^ (8 * i + 7)" .
    show ?thesis unfolding q by (rule div_mult2_eq)
  qed
  have e': "x div 256 ^ Suc i = x div 256 div 256 ^ i" for x i :: nat
    by (simp add: div_mult2_eq)
  have split: "(\<exists>i<Suc n. P i) \<longleftrightarrow> P 0 \<or> (\<exists>i<n. P (Suc i))" for P
    by (auto simp: less_Suc_eq_0_disj)
  have p7: "odd (v div 128) \<longleftrightarrow> odd (b div 128)"
  proof -
    have "v div 128 = (b + 2 * v' * 128) div 128" by (simp add: v)
    also have "\<dots> = 2 * v' + b div 128" by simp
    finally show ?thesis by simp
  qed
  show ?case
  proof (cases "b = 255")
    case True
    have "odd (v div 128)" using p7 True by simp
    moreover have "v + ones (Suc n) = 128 * (2 * (v' + ones n + 1))" using True by (simp add: v)
    then have "even ((v + ones (Suc n)) div 128)" by simp
    ultimately show ?thesis using True bv by (auto simp: split)
  next
    case False
    have d: "(v + ones (Suc n)) div 256 = v' + ones n" using False b by (simp add: v)
    have "(v + ones (Suc n)) div 128 = (b + 1 + 2 * (v' + ones n) * 128) div 128"
      by (simp add: v algebra_simps)
    also have "\<dots> = 2 * (v' + ones n) + (b + 1) div 128" by simp
    finally have "\<not> (odd (v div 128) \<and> even ((v + ones (Suc n)) div 128))"
      using byte_flip [OF b] False p7 by simp
    then show ?thesis
      using Suc.IH [of v'] False
      by (auto simp: split e e' d simp flip: bv simp del: ones.simps power_Suc mult_Suc_right)
  qed
qed simp

lemma bit_0x80s: "n < 64 \<Longrightarrow> bit (0x8080808080808080 :: u64) n \<longleftrightarrow> n mod 8 = 7"
proof -
  assume "n < 64"
  then have "n \<in> set [0..<64]" by simp
  moreover have "list_all (\<lambda>n. bit (0x8080808080808080 :: u64) n \<longleftrightarrow> n mod 8 = 7) [0..<64]"
    by code_simp
  ultimately show ?thesis by (simp only: list_all_iff)
qed

lemma has_ff_bits:
  "has_ff v \<longleftrightarrow> (\<exists>i<8. bit v (8 * i + 7) \<and> \<not> bit (v + 0x0101010101010101) (8 * i + 7))"
proof
  assume "has_ff v"
  then obtain n where n: "n < 64"
    "bit (v AND 0x8080808080808080 AND NOT (v + 0x0101010101010101)) n"
    by (auto simp: has_ff_def bit_eq_iff simp del: bit_0 dest: bit_imp_le_length)
  then have "n mod 8 = 7" using bit_0x80s [OF n(1)] by (simp only: bit_and_iff)
  then have "n = 8 * (n div 8) + 7" using mult_div_mod_eq [of 8 n] by simp
  moreover have "n div 8 < 8" using n by simp
  ultimately show "\<exists>i<8. bit v (8 * i + 7) \<and> \<not> bit (v + 0x0101010101010101) (8 * i + 7)"
    using n by (metis bit_and_iff bit_not_iff)
next
  assume "\<exists>i<8. bit v (8 * i + 7) \<and> \<not> bit (v + 0x0101010101010101) (8 * i + 7)"
  then obtain i where i: "i < 8" "bit v (8 * i + 7)" "\<not> bit (v + 0x0101010101010101) (8 * i + 7)"
    by blast
  then have "bit (v AND 0x8080808080808080 AND NOT (v + 0x0101010101010101)) (8 * i + 7)"
    using bit_0x80s [of "8 * i + 7"] by (simp only: bit_and_iff bit_not_iff) simp
  then show "has_ff v" by (auto simp: has_ff_def)
qed

lemma has_ff_nat: "has_ff v \<longleftrightarrow> (\<exists>i<8. unat v div 256 ^ i mod 256 = 255)"
proof -
  have "8 = Suc (Suc (Suc (Suc (Suc (Suc (Suc (Suc 0)))))))" by simp
  then have o: "ones 8 = 0x0101010101010101" by (simp only: ones.simps) simp
  have b: "bit (w :: u64) (8 * i + 7) \<longleftrightarrow> odd (unat w div 2 ^ (8 * i + 7))" for w i
  proof -
    have "bit (unat w) (8 * i + 7) \<longleftrightarrow> bit w (8 * i + 7)" by (simp add: bit_unsigned_iff)
    then show ?thesis by (simp only: bit_iff_odd [of "unat w"])
  qed
  have m: "odd (x mod 2 ^ 64 div 2 ^ (8 * i + 7)) \<longleftrightarrow> odd (x div 2 ^ (8 * i + 7))"
    if "i < 8" for x i :: nat
  proof -
    have "bit (take_bit 64 x) (8 * i + 7) \<longleftrightarrow> bit x (8 * i + 7)"
      using that by (simp add: bit_take_bit_iff)
    then show ?thesis by (simp add: bit_iff_odd take_bit_eq_mod)
  qed
  have "has_ff v \<longleftrightarrow> (\<exists>i<8. odd (unat v div 2 ^ (8 * i + 7))
      \<and> even ((unat v + ones 8) div 2 ^ (8 * i + 7)))"
    unfolding has_ff_bits b using m by (auto simp: unat_word_ariths o)
  then show ?thesis by (simp only: ff_trick)
qed

lemma be_bytes_nth_8:
  fixes v :: u64
  assumes "i < 8"
  shows "unat (be_bytes 8 v ! i) = unat v div 256 ^ (7 - i) mod 256"
proof -
  have "(2::nat) ^ (8 * (7 - i)) = 256 ^ (7 - i)" by (simp add: power_mult)
  then show ?thesis using assms by (simp add: be_bytes_def unat_ucast unat_drop_bit)
qed

text \<open>The trick finds an 0xFF byte exactly when one of the eight bytes is 0xFF.\<close>

lemma has_ff_iff: "has_ff v \<longleftrightarrow> 0xFF \<in> set (be_bytes 8 v)"
proof -
  have r: "(\<exists>i<8. P i) \<longleftrightarrow> (\<exists>i<8. P (7 - i))" for P :: "nat \<Rightarrow> bool"
  proof
    assume "\<exists>i<8. P i"
    then obtain i where "i < 8" "P i" by blast
    then have "7 - i < 8 \<and> P (7 - (7 - i))" by simp
    then show "\<exists>i<8. P (7 - i)" by blast
  next
    assume "\<exists>i<8. P (7 - i)"
    then obtain i where "i < 8" "P (7 - i)" by blast
    then have "7 - i < 8 \<and> P (7 - i)" by simp
    then show "\<exists>i<8. P i" by blast
  qed
  have "0xFF \<in> set (be_bytes 8 v) \<longleftrightarrow> (\<exists>i<8. unat (be_bytes 8 v ! i) = 255)"
    by (auto simp: in_set_conv_nth word_unat_eq_iff)
  also have "\<dots> \<longleftrightarrow> (\<exists>i<8. unat v div 256 ^ (7 - i) mod 256 = 255)"
    using be_bytes_nth_8 by auto
  also have "\<dots> \<longleftrightarrow> (\<exists>i<8. unat v div 256 ^ i mod 256 = 255)" by (rule r [symmetric])
  finally show ?thesis by (simp only: has_ff_nat)
qed

section \<open>Signed values of bit codes\<close>

text \<open>\<open>devli\<close> against the value the JPEG standard gives to an \<open>s\<close>-bit code.\<close>

lemma devli_signed:
  assumes s: "unat s \<le> 15" and v: "unat value < 2 ^ unat s"
  shows "sint (devli s value) =
    (if unat s = 0 then int (unat value)
     else if unat value < 2 ^ (unat s - 1) then int (unat value) - 2 ^ unat s + 1
     else int (unat value))"
proof (cases "unat s")
  case 0
  then have "value = 0" using v by (simp add: unat_eq_0)
  with 0 show ?thesis by (simp add: devli_def)
next
  case (Suc k)
  then have k: "k < 15" using s by simp
  define sh where "sh = (push_bit (Suc k) 1 :: u16)"
  have sh: "unat sh = 2 ^ Suc k" unfolding sh_def by (rule unat_pow2) (use k in simp)
  have half: "drop_bit 1 sh = push_bit k 1"
    using k sh unat_pow2 [of k, where 'a = 16]
    by (simp only: word_unat_eq_iff unat_drop_bit) simp
  have sm: "unat value < 2 ^ 15"
    using v Suc power_increasing [of "Suc k" 15 "2 :: nat"] k by simp
  have odd: "odd (unat value div 2 ^ k) \<longleftrightarrow> 2 ^ k \<le> unat value"
  proof -
    have "unat value div 2 ^ k < 2" using v Suc by (simp add: less_mult_imp_div_less)
    then have "odd (unat value div 2 ^ k) \<longleftrightarrow> unat value div 2 ^ k \<noteq> 0" by (auto simp: less_Suc_eq numeral_2_eq_2)
    then show ?thesis by (simp add: div_eq_0_iff not_less)
  qed
  have dev: "devli s value =
    (if 2 ^ k \<le> unat value then value else value + 2 + NOT sh)"
  proof -
    have m: "push_bit (unat s mod 16) 1 = sh" using Suc k by (simp add: sh_def)
    show ?thesis using and_pow2_ne_0 [of k "value"] odd k
      unfolding devli_def Let_def m half by simp
  qed
  show ?thesis
  proof (cases "2 ^ k \<le> unat value")
    case True
    with Suc sm show ?thesis by (simp add: dev sint_unat_small)
  next
    case False
    have e: "value + 2 + NOT sh = of_int (int (unat value) + 1 - 2 ^ Suc k)"
      by (simp add: sh_def not_eq_complement)
    have "(2::int) ^ Suc k \<le> 2 ^ 15" using k by (intro power_increasing) simp_all
    moreover have "int (unat value) < 2 ^ 15" using sm by (metis of_nat_less_iff of_nat_numeral of_nat_power)
    moreover have "0 < (2::int) ^ Suc k" by (rule zero_less_power) simp
    ultimately have "- (2 ^ 15) \<le> int (unat value) + 1 - 2 ^ Suc k"
      "int (unat value) + 1 - 2 ^ Suc k < 2 ^ 15" by linarith+
    then have "sint (value + 2 + NOT sh) = int (unat value) + 1 - 2 ^ Suc k"
      unfolding e by (intro sint_of_int_small) (simp_all del: power_Suc)
    with False Suc show ?thesis by (simp add: dev)
  qed
qed

end
