(* ===== verification/Branch.thy ===== *)
theory Branch
  imports Prelude
begin

unbundle bit_operations_syntax

text \<open>
  The adaptive probability of one binary decision (\<open>structs/branch.rs\<close>): both counters packed into
  one 16-bit value, the probability looked up in a table indexed by it, the update by a rotation
  instead of a branch. The reference is the two-counter update of the documentation comment
  (\<open>counter_update\<close>) and the original C++ routine that the tests of the source compare against
  (\<open>record_obs_and_update\<close>).
\<close>

record Branch =
  counts :: u16

definition Branch_new :: Branch where
  "Branch_new = \<lparr>counts = 0x0101\<rparr>"

text \<open>Entry \<open>i\<close> of the table \<open>PROB_LOOKUP\<close>, as its initialising loop computes it.\<close>

definition problookup :: "u16 \<Rightarrow> u8" where
  "problookup i =
    (if i = 0 then 0
     else (let a = unat (drop_bit 8 i); b = unat (i AND 0xff) in of_nat ((a * 2 ^ 8) div (a + b))))"

definition get_u64 :: "Branch \<Rightarrow> u64" where
  "get_u64 b = push_bit 16 (ucast (problookup (counts b))) + ucast (counts b)"

definition get_probability :: "Branch \<Rightarrow> u8" where
  "get_probability b = problookup (counts b)"

definition record_and_update_bit :: "bool \<Rightarrow> Branch \<Rightarrow> Branch" where
  "record_and_update_bit bt b =
    (let orig = rotate_left (of_bool bt * 8) (counts b);
         (sum, carry_out) = overflowing_add orig 0x100;
         sum = (if carry_out
                then drop_bit 1 (1 + sum) OR (if orig = 0xff01 then 0xff00 else 0x8100)
                else sum)
     in b\<lparr>counts := rotate_left (of_bool bt * 8) sum\<rparr>)"

section \<open>The counters\<close>

definition false_count :: "Branch \<Rightarrow> nat" where
  "false_count b = unat (counts b) div 256"

definition true_count :: "Branch \<Rightarrow> nat" where
  "true_count b = unat (counts b) mod 256"

text \<open>Neither counter is ever below 1.\<close>

definition branch_ok :: "Branch \<Rightarrow> bool" where
  "branch_ok b \<longleftrightarrow> 1 \<le> false_count b \<and> 1 \<le> true_count b"

text \<open>The update of the documentation comment, on the counter of the bit seen and the other one.\<close>

fun counter_update :: "nat \<times> nat \<Rightarrow> nat \<times> nat" where
  "counter_update (s, t) =
    (if s < 255 then (s + 1, t) else if t \<noteq> 1 then (129, (t + 1) div 2) else (255, 1))"

definition branch_abs :: "Branch \<Rightarrow> nat \<times> nat" where
  "branch_abs b = (false_count b, true_count b)"

definition ref_update :: "bool \<Rightarrow> nat \<times> nat \<Rightarrow> nat \<times> nat" where
  "ref_update bt c =
    (if bt then prod.swap (counter_update (prod.swap c)) else counter_update c)"

lemma false_count_less: "false_count b < 256"
  using unat_lt2p [of "counts b"] by (simp add: false_count_def less_mult_imp_div_less)

lemma true_count_less: "true_count b < 256"
  by (simp add: true_count_def)

lemma counts_split: "unat (counts b) = false_count b * 256 + true_count b"
  by (simp add: false_count_def true_count_def)

lemma branch_abs_eqI:
  assumes "unat (counts b) = f * 256 + t" "t < 256"
  shows "branch_abs b = (f, t)"
  using assms by (simp add: branch_abs_def false_count_def true_count_def)

lemma branch_abs_inject: "branch_abs b = branch_abs c \<longleftrightarrow> b = c"
proof
  assume "branch_abs b = branch_abs c"
  then have "unat (counts b) = unat (counts c)" by (simp add: counts_split branch_abs_def)
  then show "b = c" by (cases b, cases c) (simp add: word_unat_eq_iff)
qed simp

lemma unat_rotate_16_8:
  "unat (rotate_left 8 (w :: u16)) = unat w mod 256 * 256 + unat w div 256"
  by (subst unat_rotate_left) simp_all

lemma rotate_left_0 [simp]: "rotate_left 0 (w :: 'a::len word) = w"
  by (simp add: rotate_left_def)

text \<open>The un-rotated update acts on the top counter.\<close>

lemma counter_update_word:
  fixes orig :: u16
  assumes "unat orig = s * 256 + t" "s < 256" "t < 256"
  defines "upd \<equiv> (let (sum, carry_out) = overflowing_add orig 0x100
     in if carry_out then drop_bit 1 (1 + sum) OR (if orig = 0xff01 then 0xff00 else 0x8100)
        else sum)"
  shows "unat upd = fst (counter_update (s, t)) * 256 + snd (counter_update (s, t))"
    and "fst (counter_update (s, t)) < 256" and "snd (counter_update (s, t)) < 256"
proof -
  show "unat upd = fst (counter_update (s, t)) * 256 + snd (counter_update (s, t))"
  proof (cases "s < 255")
    case True
    then have "unat orig + 256 < 2 ^ 16" using assms by simp
    with True show ?thesis using assms
      by (simp add: overflowing_add_def unat_word_ariths)
  next
    case False
    with assms have s: "s = 255" by simp
    then have u: "unat orig = 65280 + t" using assms by simp
    have sum: "unat (orig + 0x100) = t" using u \<open>t < 256\<close> by (simp add: unat_word_ariths)
    then have inc: "unat (drop_bit 1 (1 + (orig + 0x100))) = (t + 1) div 2"
    proof -
      have "unat (1 + (orig + 0x100)) = (1 + unat (orig + 0x100)) mod 2 ^ 16"
        by (simp only: unat_word_ariths(1) [of 1]) simp
      then show ?thesis using sum \<open>t < 256\<close> by (simp add: unat_drop_bit)
    qed
    have one: "orig = 0xff01 \<longleftrightarrow> t = 1" using u by (simp add: word_unat_eq_iff)
    have or: "unat (drop_bit 1 (1 + (orig + 0x100)) OR m) = (t + 1) div 2 + k * 256"
      if "unat m = k * 256" for m :: u16 and k
      using unat_or_disjoint [of m k 8 "drop_bit 1 (1 + (orig + 0x100))"] that inc \<open>t < 256\<close>
      by (simp add: or.commute add.commute)
    have "2 ^ 16 \<le> unat orig + unat (0x100 :: u16)" using u by simp
    then show ?thesis using s one or [of "0xff00" 255] or [of "0x8100" 129]
      by (simp add: upd_def overflowing_add_def)
  qed
qed (use assms in auto)

lemma record_and_update_bit_refines:
  "branch_abs (record_and_update_bit bt b) = ref_update bt (branch_abs b)"
proof -
  define orig where "orig = rotate_left (of_bool bt * 8) (counts b)"
  define st where "st = (if bt then prod.swap (branch_abs b) else branch_abs b)"
  obtain s t where st': "st = (s, t)" by (cases st)
  have b: "false_count b < 256" "true_count b < 256"
    by (rule false_count_less true_count_less)+
  have o: "unat orig = s * 256 + t" "s < 256" "t < 256"
    using st' b counts_split [of b]
    by (cases bt; simp add: orig_def st_def branch_abs_def unat_rotate_16_8)+
  define upd where "upd = (let (sum, carry_out) = overflowing_add orig 0x100
     in if carry_out then drop_bit 1 (1 + sum) OR (if orig = 0xff01 then 0xff00 else 0x8100)
        else sum)"
  obtain s' t' where u: "counter_update (s, t) = (s', t')" by (cases "counter_update (s, t)")
  from counter_update_word [OF o] u
  have upd: "unat upd = s' * 256 + t'" "s' < 256" "t' < 256"
    unfolding upd_def by (simp_all del: counter_update.simps)
  have "counts (record_and_update_bit bt b) = rotate_left (of_bool bt * 8) upd"
    by (simp add: record_and_update_bit_def orig_def upd_def Let_def split: prod.split)
  then have "unat (counts (record_and_update_bit bt b))
    = (if bt then t' * 256 + s' else s' * 256 + t')"
    using upd by (simp add: unat_rotate_16_8)
  then have "branch_abs (record_and_update_bit bt b) = (if bt then (t', s') else (s', t'))"
    using upd by (cases bt) (auto intro: branch_abs_eqI)
  then show ?thesis
    using st' u by (simp add: ref_update_def st_def split: if_splits del: counter_update.simps)
qed

section \<open>Invariant and probability\<close>

lemma branch_ok_new [simp]: "branch_ok Branch_new"
  by (simp add: branch_ok_def Branch_new_def false_count_def true_count_def)

lemma branch_ok_update [simp]: "branch_ok b \<Longrightarrow> branch_ok (record_and_update_bit bt b)"
  using record_and_update_bit_refines [of bt b]
  by (auto simp: branch_ok_def branch_abs_def ref_update_def split: if_splits)

lemma prob_bounds:
  fixes f t :: nat
  assumes "1 \<le> f" "1 \<le> t" "f < 256" "t < 256"
  shows "1 \<le> f * 256 div (f + t)" "f * 256 div (f + t) \<le> 255"
proof -
  have "f + t \<le> f * 256"
  proof -
    have "t \<le> 255 * 1" using assms by simp
    also have "\<dots> \<le> 255 * f" using assms(1) by simp
    finally show ?thesis by simp
  qed
  then show "1 \<le> f * 256 div (f + t)" using assms by (simp add: Suc_le_eq div_greater_zero_iff)
  have "f * 256 < 256 * (f + t)" using assms by simp
  then show "f * 256 div (f + t) \<le> 255"
    by (metis less_Suc_eq_le less_mult_imp_div_less numeral_eq_Suc pred_numeral_simps(2)
        semiring_norm(26) semiring_norm(27) semiring_norm(28))
qed

lemma unat_problookup:
  assumes "branch_ok b"
  shows "unat (get_probability b) = false_count b * 256 div (false_count b + true_count b)"
proof -
  have ok: "1 \<le> false_count b" "1 \<le> true_count b" using assms by (simp_all add: branch_ok_def)
  note p = prob_bounds [OF ok false_count_less true_count_less]
  have "counts b \<noteq> 0" using ok by (auto simp: false_count_def)
  moreover have "unat (drop_bit 8 (counts b)) = false_count b"
    by (simp add: unat_drop_bit false_count_def)
  moreover have "unat (counts b AND 0xff) = true_count b"
  proof -
    have "(0xff :: u16) = mask 8" by (simp add: mask_eq_exp_minus_1)
    then show ?thesis using unat_and_mask [of "counts b" 8] by (simp add: true_count_def)
  qed
  ultimately show ?thesis using p by (simp add: get_probability_def problookup_def Let_def unat_of_nat)
qed

lemma get_probability_bounds:
  assumes "branch_ok b"
  shows "1 \<le> unat (get_probability b)" "unat (get_probability b) \<le> 255"
  using assms prob_bounds [OF _ _ false_count_less true_count_less, of b b]
  by (simp_all add: unat_problookup branch_ok_def)

section \<open>The original two-counter routine\<close>

text \<open>
  \<open>record_obs_and_update\<close> of the original implementation, which the source keeps in its tests: the
  counters \<open>(false, true)\<close> and the probability it stores.
\<close>

definition optimize :: "nat \<Rightarrow> nat \<Rightarrow> nat" where
  "optimize f n = f * 2 ^ 8 div n"

fun record_obs_and_update :: "bool \<Rightarrow> nat \<times> nat \<Rightarrow> (nat \<times> nat) \<times> nat" where
  "record_obs_and_update obs (f, t) =
    (if (if obs then t else f) = 0xff then
       if (if obs then f else t) = 1 then
         ((if obs then (f, 0xff) else (0xff, t)), if obs then 0 else 255)
       else
         (let f' = (1 + f) div 2; t' = (1 + t) div 2;
              c = (if obs then (f', 129) else (129, t'))
          in (c, optimize (fst c) (fst c + snd c)))
     else
       (let c = (if obs then (f, t + 1) else (f + 1, t)) in (c, optimize (fst c) (f + t + 1))))"

text \<open>The point at which a probability splits a range, in both coders.\<close>

definition split_point :: "nat \<Rightarrow> nat \<Rightarrow> nat" where
  "split_point r p = 1 + (r - 1) * p div 256"

lemma record_obs_counts:
  "f < 256 \<Longrightarrow> t < 256 \<Longrightarrow> fst (record_obs_and_update obs (f, t)) = ref_update obs (f, t)"
  by (auto simp: ref_update_def Let_def)

lemma record_obs_probability:
  assumes "1 \<le> f" "1 \<le> t" "f < 256" "t < 256" "ref_update obs (f, t) = (f', t')" "r \<le> 256"
  shows "split_point r (snd (record_obs_and_update obs (f, t))) = split_point r (f' * 256 div (f' + t'))"
proof (cases "obs \<and> t = 255 \<and> f = 1")
  case True
  then have "f' = 1" "t' = 255" using assms by (auto simp: ref_update_def)
  moreover have "(r - 1) * 1 div 256 = 0" using assms by simp
  ultimately show ?thesis using True by (simp add: split_point_def)
next
  case False
  then have "snd (record_obs_and_update obs (f, t)) = f' * 256 div (f' + t')"
    using assms by (auto simp: ref_update_def optimize_def Let_def split: if_splits)
  then show ?thesis by simp
qed

lemma split_point_bounds:
  assumes "1 \<le> p" "p \<le> 255" "2 \<le> r" "r \<le> 256"
  shows "1 \<le> split_point r p" "split_point r p < r"
proof -
  show "1 \<le> split_point r p" by (simp add: split_point_def)
  have "(r - 1) * p \<le> (r - 1) * 255" using assms by (intro mult_le_mono2) simp
  also have "\<dots> < (r - 1) * 256" using assms by simp
  finally have "(r - 1) * p div 256 < r - 1" by (simp add: less_mult_imp_div_less mult.commute)
  then show "split_point r p < r" using assms by (simp add: split_point_def)
qed

end
