(* ===== verification/Arith_Coder.thy ===== *)
theory Arith_Coder
  imports Branch
begin

text \<open>
  The abstract arithmetic coder that both \<open>vpx_bool_writer.rs\<close> and \<open>vpx_bool_reader.rs\<close> implement:
  an interval of numbers of unbounded precision, narrowed by every decision. \<open>low\<close> and \<open>width\<close> are
  in units of \<open>2 ^ - (shifts + 8)\<close>; a code string lies in the interval when the number its first
  \<open>shifts + 8\<close> bits denote does (bits behind the end of the string are 0).
\<close>

record interval =
  low :: nat
  width :: nat
  shifts :: nat

definition initial_interval :: interval where
  "initial_interval = \<lparr>low = 0, width = 255, shifts = 0\<rparr>"

definition normalize_shift :: "nat \<Rightarrow> nat" where
  "normalize_shift r = 8 - bit_len r"

text \<open>The part of the interval that a decision keeps, before it is scaled up again.\<close>

definition kept_low :: "bool \<Rightarrow> nat \<Rightarrow> interval \<Rightarrow> nat" where
  "kept_low d p i = (if d then low i + split_point (width i) p else low i)"

definition kept_width :: "bool \<Rightarrow> nat \<Rightarrow> interval \<Rightarrow> nat" where
  "kept_width d p i = (if d then width i - split_point (width i) p else split_point (width i) p)"

definition narrow :: "bool \<Rightarrow> nat \<Rightarrow> interval \<Rightarrow> interval" where
  "narrow d p i =
    (let s = normalize_shift (kept_width d p i)
     in \<lparr>low = kept_low d p i * 2 ^ s, width = kept_width d p i * 2 ^ s, shifts = shifts i + s\<rparr>)"

definition interval_ok :: "interval \<Rightarrow> bool" where
  "interval_ok i \<longleftrightarrow> 128 \<le> width i \<and> width i \<le> 255"

text \<open>The number denoted by the first \<open>k\<close> bits of a code string.\<close>

definition prefix_val :: "bytes \<Rightarrow> nat \<Rightarrow> nat" where
  "prefix_val c k = be_val c * 2 ^ k div 256 ^ length c"

definition inside :: "interval \<Rightarrow> bytes \<Rightarrow> bool" where
  "inside i c \<longleftrightarrow>
    low i \<le> prefix_val c (shifts i + 8) \<and> prefix_val c (shifts i + 8) < low i + width i"

lemma prefix_val_div: "prefix_val c (k + j) div 2 ^ j = prefix_val c k"
proof -
  have "prefix_val c (k + j) div 2 ^ j = be_val c * 2 ^ k * 2 ^ j div (256 ^ length c * 2 ^ j)"
    by (simp add: prefix_val_def power_add div_mult2_eq mult.assoc)
  also have "\<dots> = prefix_val c k" by (simp add: prefix_val_def)
  finally show ?thesis .
qed

lemma prefix_val_0 [simp]: "prefix_val c 0 = 0"
  using be_val_upper [of c] by (simp add: prefix_val_def)

lemma prefix_val_scale:
  "a \<le> prefix_val c k \<longleftrightarrow> a * 2 ^ j \<le> prefix_val c (k + j)"
  "prefix_val c k < b \<longleftrightarrow> prefix_val c (k + j) < b * 2 ^ j"
proof -
  have "prefix_val c (k + j) div 2 ^ j = prefix_val c k" by (rule prefix_val_div)
  then show "a \<le> prefix_val c k \<longleftrightarrow> a * 2 ^ j \<le> prefix_val c (k + j)"
    by (metis less_eq_div_iff_mult_less_eq zero_less_numeral zero_less_power)
  from \<open>prefix_val c (k + j) div 2 ^ j = _\<close>
  show "prefix_val c k < b \<longleftrightarrow> prefix_val c (k + j) < b * 2 ^ j"
    by (metis div_less_iff_less_mult zero_less_numeral zero_less_power)
qed

text \<open>The next byte of the string.\<close>

lemma prefix_val_byte:
  assumes "k < length c"
  shows "prefix_val c (8 * k + 8) = prefix_val c (8 * k) * 256 + unat (c ! k)"
proof -
  have P: "prefix_val c (8 * j) = be_val (take j c)" if "j \<le> length c" for j
  proof -
    have "be_val c = be_val (take j c) * 256 ^ (length c - j) + be_val (drop j c)"
      by (metis append_take_drop_id be_val_append length_drop)
    moreover have "be_val (drop j c) < 256 ^ (length c - j)"
      using be_val_upper [of "drop j c"] by simp
    ultimately have "be_val c div 256 ^ (length c - j) = be_val (take j c)" by simp
    moreover have "prefix_val c (8 * j) = be_val c * 256 ^ j div (256 ^ (length c - j) * 256 ^ j)"
    proof -
      have "(2::nat) ^ (8 * j) = 256 ^ j" by (simp add: power_mult)
      moreover have "(256::nat) ^ (length c - j) * 256 ^ j = 256 ^ length c"
        using that by (simp flip: power_add)
      ultimately show ?thesis by (simp add: prefix_val_def)
    qed
    ultimately show ?thesis by simp
  qed
  have "prefix_val c (8 * k + 8) = be_val (take (Suc k) c)" using P [of "Suc k"] assms by (simp add: add.commute)
  also have "\<dots> = be_val (take k c) * 256 + unat (c ! k)"
    using assms by (simp add: take_Suc_conv_app_nth)
  finally show ?thesis using P [of k] assms by simp
qed

lemma prefix_val_eof:
  assumes "length c \<le> k"
  shows "prefix_val c (8 * k + j) = prefix_val c (8 * k) * 2 ^ j"
proof -
  let ?M = "256 ^ (k - length c) :: nat" and ?L = "256 ^ length c :: nat"
  have "(2::nat) ^ (8 * k) = ?M * ?L" using assms by (simp add: power_mult flip: power_add)
  then have "be_val c * 2 ^ (8 * k + i) = be_val c * ?M * 2 ^ i * ?L" for i
    by (simp add: power_add)
  then have e: "prefix_val c (8 * k + i) = be_val c * ?M * 2 ^ i" for i
    unfolding prefix_val_def by (simp only:) simp
  show ?thesis using e [of j] e [of 0] by simp
qed

lemma normalize_shift:
  assumes "1 \<le> r" "r \<le> 255"
  shows "128 \<le> r * 2 ^ normalize_shift r" "r * 2 ^ normalize_shift r \<le> 255" "normalize_shift r \<le> 7"
proof -
  let ?b = "bit_len r"
  have b: "?b \<le> 8" using assms by (simp add: bit_len_le_iff)
  have b1: "1 \<le> ?b" using assms by (simp add: bit_len_pos)
  have lo: "2 ^ (?b - 1) \<le> r" using bit_len_lower [of r] assms by simp
  have hi: "r < 2 ^ ?b" by (rule bit_len_upper)
  have "(2::nat) ^ (?b - 1) * 2 ^ (8 - ?b) = 2 ^ 7" using b b1 by (simp flip: power_add)
  then show "128 \<le> r * 2 ^ normalize_shift r"
    using mult_le_mono1 [OF lo, of "2 ^ (8 - ?b)"] by (simp add: normalize_shift_def)
  have "(2::nat) ^ ?b * 2 ^ (8 - ?b) = 256" using b by (simp flip: power_add)
  with hi have "r * 2 ^ normalize_shift r < 256"
    by (metis mult_less_mono1 normalize_shift_def zero_less_numeral zero_less_power)
  then show "r * 2 ^ normalize_shift r \<le> 255" by simp
  show "normalize_shift r \<le> 7" using b1 by (simp add: normalize_shift_def)
qed

lemma kept_width:
  assumes "interval_ok i" "1 \<le> p" "p \<le> 255"
  shows "1 \<le> kept_width d p i" "kept_width d p i \<le> 255"
    "kept_low d p i + kept_width d p i \<le> low i + width i" "low i \<le> kept_low d p i"
  using split_point_bounds [OF assms(2,3), of "width i"] assms(1)
  by (auto simp: interval_ok_def kept_width_def kept_low_def)

lemma narrow_ok:
  assumes "interval_ok i" "1 \<le> p" "p \<le> 255"
  shows "interval_ok (narrow d p i)"
  using normalize_shift [OF kept_width(1,2) [OF assms, of d]] by (simp add: interval_ok_def narrow_def Let_def)

text \<open>A string inside a narrowed interval was inside it before, and decides as the encoder did.\<close>

lemma inside_narrow:
  assumes ok: "interval_ok i" "1 \<le> p" "p \<le> 255" and c: "inside (narrow d p i) c"
  shows "inside i c"
    and "d \<longleftrightarrow> low i + split_point (width i) p \<le> prefix_val c (shifts i + 8)"
proof -
  let ?x = "prefix_val c (shifts i + 8)"
  define n where "n = normalize_shift (kept_width d p i)"
  have "kept_low d p i * 2 ^ n \<le> prefix_val c (shifts i + 8 + n)"
    "prefix_val c (shifts i + 8 + n) < (kept_low d p i + kept_width d p i) * 2 ^ n"
    using c
    by (simp_all add: inside_def narrow_def Let_def add_mult_distrib add.assoc add.commute [of 8]
        flip: n_def)
  then have x: "kept_low d p i \<le> ?x" "?x < kept_low d p i + kept_width d p i"
    by (simp_all only: prefix_val_scale(1) [of "kept_low d p i" c "shifts i + 8" n]
        prefix_val_scale(2) [of c "shifts i + 8" "kept_low d p i + kept_width d p i" n])
  then show "inside i c" using kept_width(3,4) [OF ok, of d] by (simp add: inside_def)
  show "d \<longleftrightarrow> low i + split_point (width i) p \<le> ?x"
    using x by (auto simp: kept_low_def kept_width_def split: if_splits)
qed

section \<open>Sequences of decisions\<close>

text \<open>A decision with the probability it is coded with; the interval after a sequence of them.\<close>

type_synonym decision = "bool \<times> nat"

definition narrows :: "decision list \<Rightarrow> interval \<Rightarrow> interval" where
  "narrows ds i = fold (\<lambda>(d, p) i. narrow d p i) ds i"

definition probs_ok :: "decision list \<Rightarrow> bool" where
  "probs_ok ds \<longleftrightarrow> (\<forall>(d, p) \<in> set ds. 1 \<le> p \<and> p \<le> 255)"

lemma narrows_simps [simp]:
  "narrows [] i = i"
  "narrows ((d, p) # ds) i = narrows ds (narrow d p i)"
  "narrows (ds @ es) i = narrows es (narrows ds i)"
  by (simp_all add: narrows_def)

lemma probs_ok_simps [simp]:
  "probs_ok []"
  "probs_ok ((d, p) # ds) \<longleftrightarrow> 1 \<le> p \<and> p \<le> 255 \<and> probs_ok ds"
  "probs_ok (ds @ es) \<longleftrightarrow> probs_ok ds \<and> probs_ok es"
  by (auto simp: probs_ok_def)

lemma narrows_ok: "interval_ok i \<Longrightarrow> probs_ok ds \<Longrightarrow> interval_ok (narrows ds i)"
  by (induction ds arbitrary: i) (auto simp: narrow_ok)

lemma inside_narrows:
  "interval_ok i \<Longrightarrow> probs_ok ds \<Longrightarrow> inside (narrows ds i) c \<Longrightarrow> inside i c"
proof (induction ds arbitrary: i)
  case (Cons e ds)
  obtain d p where e: "e = (d, p)" by (cases e)
  have p: "1 \<le> p" "p \<le> 255" "probs_ok ds" using Cons.prems(2) e by simp_all
  have "inside (narrow d p i) c"
    using Cons.IH [OF narrow_ok [OF Cons.prems(1) p(1,2)] p(3)] Cons.prems(3) e by simp
  then show ?case by (rule inside_narrow(1) [OF Cons.prems(1) p(1,2)])
qed simp

text \<open>
  A path through an array of branches: which branch decides, and how. Running it collects the
  decisions with the probabilities of the branches at the time, and updates the branches.
\<close>

type_synonym path = "(nat \<times> bool) list"

fun run_path :: "path \<Rightarrow> Branch list \<Rightarrow> decision list \<times> Branch list" where
  "run_path [] bs = ([], bs)"
| "run_path ((j, d) # path) bs =
    (let (ds, bs') = run_path path (bs[j := record_and_update_bit d (bs ! j)])
     in ((d, unat (get_probability (bs ! j))) # ds, bs'))"

definition path_ok :: "path \<Rightarrow> Branch list \<Rightarrow> bool" where
  "path_ok path bs \<longleftrightarrow> (\<forall>(j, d) \<in> set path. j < length bs)"

definition branches_ok :: "Branch list \<Rightarrow> bool" where
  "branches_ok bs \<longleftrightarrow> (\<forall>b \<in> set bs. branch_ok b)"

lemma branches_ok_nth: "branches_ok bs \<Longrightarrow> j < length bs \<Longrightarrow> branch_ok (bs ! j)"
  by (simp add: branches_ok_def)

lemma branches_ok_update [simp]:
  "branches_ok bs \<Longrightarrow> branch_ok b \<Longrightarrow> branches_ok (bs[j := b])"
  by (auto simp: branches_ok_def dest!: set_mp [OF set_update_subset_insert])

lemma path_ok_simps [simp]:
  "path_ok [] bs"
  "path_ok ((j, d) # path) bs \<longleftrightarrow> j < length bs \<and> path_ok path bs"
  "path_ok path (bs[j := b]) \<longleftrightarrow> path_ok path bs"
  by (auto simp: path_ok_def)

lemma run_path_ok:
  "path_ok path bs \<Longrightarrow> branches_ok bs \<Longrightarrow> run_path path bs = (ds, bs') \<Longrightarrow>
    probs_ok ds \<and> branches_ok bs' \<and> length bs' = length bs"
proof (induction path arbitrary: bs ds bs')
  case (Cons e path)
  obtain j d where e: "e = (j, d)" by (cases e)
  obtain ds' bs'' where r: "run_path path (bs[j := record_and_update_bit d (bs ! j)]) = (ds', bs'')"
    by (cases "run_path path (bs[j := record_and_update_bit d (bs ! j)])")
  have b: "branch_ok (bs ! j)" using Cons.prems e by (simp add: branches_ok_nth)
  then have "probs_ok ds' \<and> branches_ok bs'' \<and> length bs'' = length bs"
    using Cons.IH [OF _ _ r] Cons.prems e by simp
  then show ?case using Cons.prems e r b get_probability_bounds [OF b] by auto
qed auto

text \<open>The first step of a path whose decisions leave an interval with \<open>c\<close> in it.\<close>

lemma run_path_first:
  assumes ok: "path_ok ((j, d) # path) bs" "branches_ok bs"
    and run: "run_path ((j, d) # path) bs = (ds, bs')"
    and i: "interval_ok i" "inside (narrows ds i) c"
  obtains es where
    "run_path path (bs[j := record_and_update_bit d (bs ! j)]) = (es, bs')"
    "ds = (d, unat (get_probability (bs ! j))) # es"
    "j < length bs" "branch_ok (bs ! j)"
    "path_ok path (bs[j := record_and_update_bit d (bs ! j)])"
    "branches_ok (bs[j := record_and_update_bit d (bs ! j)])"
    "inside (narrow d (unat (get_probability (bs ! j))) i) c"
    "inside (narrows es (narrow d (unat (get_probability (bs ! j))) i)) c"
proof -
  let ?bs = "bs[j := record_and_update_bit d (bs ! j)]"
  obtain es where es: "run_path path ?bs = (es, bs')"
    "ds = (d, unat (get_probability (bs ! j))) # es"
    using run by (auto split: prod.splits)
  have j: "j < length bs" and b: "branch_ok (bs ! j)" using ok branches_ok_nth by simp_all
  have p: "path_ok path ?bs" "branches_ok ?bs" using ok b by simp_all
  have ins: "inside (narrows es (narrow d (unat (get_probability (bs ! j))) i)) c"
    using i(2) es(2) by simp
  have "probs_ok es" using run_path_ok [OF p es(1)] by simp
  from inside_narrows [OF narrow_ok [OF i(1) get_probability_bounds [OF b]] this ins]
  show ?thesis using that [OF es j b p _ ins] by simp
qed

text \<open>The paths of the three codes for numbers.\<close>

fun grid_path :: "nat \<Rightarrow> nat \<Rightarrow> nat \<Rightarrow> path" where
  "grid_path v 0 so_far = []"
| "grid_path v (Suc n) so_far =
    (so_far, odd (v div 2 ^ n)) # grid_path v n (2 * so_far + of_bool (odd (v div 2 ^ n)))"

fun n_bits_path :: "nat \<Rightarrow> nat \<Rightarrow> path" where
  "n_bits_path v 0 = []"
| "n_bits_path v (Suc n) = (n, odd (v div 2 ^ n)) # n_bits_path v n"

fun unary_path :: "nat \<Rightarrow> nat \<Rightarrow> nat \<Rightarrow> path" where
  "unary_path v i 0 = []"
| "unary_path v i (Suc n) = (i, v \<noteq> i) # (if v \<noteq> i then unary_path v (Suc i) n else [])"

lemma grid_path_ok:
  "so_far < 2 ^ k \<Longrightarrow> 2 ^ (k + n) \<le> length bs * 2 \<Longrightarrow> path_ok (grid_path v n so_far) bs"
proof (induction n arbitrary: so_far k)
  case (Suc n)
  have "(2::nat) ^ (k + Suc n) = 2 ^ k * 2 ^ n * 2" by (simp add: power_add)
  moreover have "(2::nat) ^ k * 1 \<le> 2 ^ k * 2 ^ n" by (intro mult_le_mono2) simp
  ultimately have "2 ^ k \<le> length bs" using Suc.prems(2) by linarith
  moreover have "2 * so_far + of_bool b < 2 ^ Suc k" for b using Suc.prems(1) by (cases b) simp_all
  ultimately show ?case using Suc.IH [of "2 * so_far + of_bool _" "Suc k"] Suc.prems by simp
qed simp

lemma n_bits_path_ok: "n \<le> length bs \<Longrightarrow> path_ok (n_bits_path v n) bs"
  by (induction n) auto

lemma unary_path_ok: "i + n \<le> length bs \<Longrightarrow> path_ok (unary_path v i n) bs"
  by (induction n arbitrary: i) auto

end
