(* ===== verification/Bool_Writer.thy ===== *)
theory Bool_Writer
  imports Arith_Coder
begin

unbundle bit_operations_syntax

text \<open>
  The arithmetic encoder (\<open>structs/vpx_bool_writer.rs\<close>). \<open>low_value\<close> holds the low bound of the
  interval behind a marker bit; bytes leave it six at a time into \<open>buffer\<close>, where a later carry can
  still change them; \<open>writer\<close> is what has gone to the output. The refinement: every reachable state
  stands for an interval of \<open>Arith_Coder\<close>, \<open>put\<close> narrows that interval, neither an index nor an
  \<open>assert!\<close> of \<open>carry\<close> and \<open>flush_non_final_data\<close> ever fails, and the bytes \<open>finish\<close> writes lie in
  the final interval. Metrics and the debugging hash are off in the build that is modelled.
\<close>

record VPXBoolWriter =
  low_value :: u64
  wrange :: u32
  writer :: bytes
  buffer :: bytes

section \<open>The code\<close>

fun carry_loop :: "nat \<Rightarrow> bytes \<Rightarrow> bytes result" where
  "carry_loop x buf =
    bindR (idx buf x) (\<lambda>b.
      if b = 0xFF then
        (let buf = buf[x := 0] in case x of 0 \<Rightarrow> panic | Suc y \<Rightarrow> carry_loop y buf)
      else Ok (buf[x := b + 1]))"

declare carry_loop.simps [simp del]

definition carry :: "VPXBoolWriter \<Rightarrow> VPXBoolWriter result" where
  "carry w =
    (if buffer w = [] then panic
     else bindR (carry_loop (length (buffer w) - 1) (buffer w)) (\<lambda>buf. Ok (w\<lparr>buffer := buf\<rparr>)))"

definition put_6bytes :: "bytes \<Rightarrow> u64 \<Rightarrow> bytes" where
  "put_6bytes buf v = buf @ take 6 (be_bytes 8 v)"

definition put ::
  "bool \<Rightarrow> Branch \<Rightarrow> VPXBoolWriter \<Rightarrow> u64 \<Rightarrow> u32 \<Rightarrow> (Branch \<times> VPXBoolWriter \<times> u64 \<times> u32) result"
where
  "put d branch w tmp_value tmp_range =
    (let probability = ucast (get_probability branch) :: u32;
         split = 1 + drop_bit 8 ((tmp_range - 1) * probability);
         branch = record_and_update_bit d branch;
         (tmp_value, tmp_range) =
           (if d then (tmp_value + ucast split, tmp_range - split) else (tmp_value, split));
         shift = leading_zeros (ucast tmp_range :: u8);
         tmp_range = push_bit shift tmp_range;
         tmp_value = push_bit shift tmp_value
     in if tmp_value AND push_bit 57 (- 1) \<noteq> 0 then
          (let leftover_bits = leading_zeros tmp_value + 2;
               v_aligned = rotate_left leftover_bits tmp_value
           in bindR (if v_aligned AND 1 \<noteq> 0 then carry w else Ok w) (\<lambda>w.
              let w = w\<lparr>buffer := put_6bytes (buffer w) v_aligned\<rparr>;
                  tmp_value = drop_bit leftover_bits ((v_aligned AND 0xffff) OR 0x20000)
              in Ok (branch, w, tmp_value, tmp_range)))
        else Ok (branch, w, tmp_value, tmp_range))"

definition put_bit :: "bool \<Rightarrow> Branch \<Rightarrow> VPXBoolWriter \<Rightarrow> (Branch \<times> VPXBoolWriter) result" where
  "put_bit d branch w =
    bindR (put d branch w (low_value w) (wrange w)) (\<lambda>(branch, w, tmp_value, tmp_range).
      Ok (branch, w\<lparr>low_value := tmp_value, wrange := tmp_range\<rparr>))"

definition VPXBoolWriter_new :: "VPXBoolWriter result" where
  "VPXBoolWriter_new =
    bindR (put_bit False Branch_new
        \<lparr>low_value = push_bit 9 1, wrange = 255, writer = [], buffer = []\<rparr>) (\<lambda>(dummy, w).
      Ok w)"

text \<open>\<open>put_grid\<close>: the bits of \<open>v\<close> from the top, each with the branch of the prefix so far.\<close>

fun put_grid_loop ::
  "u8 \<Rightarrow> nat \<Rightarrow> nat \<Rightarrow> Branch list \<Rightarrow> VPXBoolWriter \<Rightarrow> u64 \<Rightarrow> u32
    \<Rightarrow> (Branch list \<times> VPXBoolWriter \<times> u64 \<times> u32) result"
where
  "put_grid_loop v index so_far branches w tmp_value tmp_range =
    (let cur_bit = v AND push_bit (index mod 8) 1 \<noteq> 0
     in bindR (idx branches so_far) (\<lambda>b.
        bindR (put cur_bit b w tmp_value tmp_range) (\<lambda>(b, w, tmp_value, tmp_range).
          let branches = branches[so_far := b]
          in case index of
               0 \<Rightarrow> Ok (branches, w, tmp_value, tmp_range)
             | Suc index' \<Rightarrow>
                 put_grid_loop v index' (2 * so_far + of_bool cur_bit) branches w
                   tmp_value tmp_range)))"

declare put_grid_loop.simps [simp del]

definition put_grid ::
  "u8 \<Rightarrow> Branch list \<Rightarrow> VPXBoolWriter \<Rightarrow> (Branch list \<times> VPXBoolWriter) result"
where
  "put_grid v branches w =
    (let A = length branches
     in bindR (assertR (A AND (A - 1) = 0)) (\<lambda>_.
        bindR (put_grid_loop v (bit_len A - 2) 1 branches w (low_value w) (wrange w))
          (\<lambda>(branches, w, tmp_value, tmp_range).
            Ok (branches, w\<lparr>low_value := tmp_value, wrange := tmp_range\<rparr>))))"

text \<open>\<open>put_n_bits\<close>: bits \<open>num_bits - 1\<close> down to 0.\<close>

fun put_n_bits_loop ::
  "nat \<Rightarrow> nat \<Rightarrow> Branch list \<Rightarrow> VPXBoolWriter \<Rightarrow> u64 \<Rightarrow> u32
    \<Rightarrow> (Branch list \<times> VPXBoolWriter \<times> u64 \<times> u32) result"
where
  "put_n_bits_loop bits 0 branches w tmp_value tmp_range = Ok (branches, w, tmp_value, tmp_range)"
| "put_n_bits_loop bits (Suc i) branches w tmp_value tmp_range =
    bindR (idx branches i) (\<lambda>b.
      bindR (put (bits AND push_bit i 1 \<noteq> 0) b w tmp_value tmp_range)
        (\<lambda>(b, w, tmp_value, tmp_range).
          put_n_bits_loop bits i (branches[i := b]) w tmp_value tmp_range))"

definition put_n_bits ::
  "nat \<Rightarrow> nat \<Rightarrow> Branch list \<Rightarrow> VPXBoolWriter \<Rightarrow> (Branch list \<times> VPXBoolWriter) result"
where
  "put_n_bits bits num_bits branches w =
    bindR (put_n_bits_loop bits num_bits branches w (low_value w) (wrange w))
      (\<lambda>(branches, w, tmp_value, tmp_range).
        Ok (branches, w\<lparr>low_value := tmp_value, wrange := tmp_range\<rparr>))"

text \<open>\<open>put_unary_encoded\<close>: \<open>v\<close> true bits and a false one, which the largest value does without.
  The loop counts \<open>n = A - i\<close> iterations to go.\<close>

fun put_unary_loop ::
  "nat \<Rightarrow> nat \<Rightarrow> nat \<Rightarrow> Branch list \<Rightarrow> VPXBoolWriter \<Rightarrow> u64 \<Rightarrow> u32
    \<Rightarrow> (Branch list \<times> VPXBoolWriter \<times> u64 \<times> u32) result"
where
  "put_unary_loop v i 0 branches w tmp_value tmp_range = Ok (branches, w, tmp_value, tmp_range)"
| "put_unary_loop v i (Suc n) branches w tmp_value tmp_range =
    (let cur_bit = v \<noteq> i
     in bindR (idx branches i) (\<lambda>b.
        bindR (put cur_bit b w tmp_value tmp_range) (\<lambda>(b, w, tmp_value, tmp_range).
          let branches = branches[i := b]
          in if \<not> cur_bit then Ok (branches, w, tmp_value, tmp_range)
             else put_unary_loop v (Suc i) n branches w tmp_value tmp_range)))"

definition put_unary_encoded ::
  "nat \<Rightarrow> Branch list \<Rightarrow> VPXBoolWriter \<Rightarrow> (Branch list \<times> VPXBoolWriter) result"
where
  "put_unary_encoded v branches w =
    (let A = length branches
     in bindR (assertR (v \<le> A)) (\<lambda>_.
        bindR (put_unary_loop v 0 A branches w (low_value w) (wrange w))
          (\<lambda>(branches, w, tmp_value, tmp_range).
            Ok (branches, w\<lparr>low_value := tmp_value, wrange := tmp_range\<rparr>))))"

text \<open>\<open>finish\<close> appends the last bytes of the stream and writes everything out.\<close>

fun finish_loop :: "nat \<Rightarrow> nat \<Rightarrow> u64 \<Rightarrow> bytes \<Rightarrow> bytes" where
  "finish_loop 0 shift tmp_value buf = buf"
| "finish_loop (Suc n) shift tmp_value buf =
    (let shift = shift - 8
     in finish_loop n shift tmp_value (buf @ [ucast (drop_bit shift tmp_value)]))"

definition finish :: "VPXBoolWriter \<Rightarrow> VPXBoolWriter result" where
  "finish w =
    (let stream_bits = 64 - leading_zeros (low_value w) - 2;
         tmp_value = push_bit (63 - stream_bits) (low_value w)
     in bindR (if tmp_value AND push_bit 63 1 \<noteq> 0 then carry w else Ok w) (\<lambda>w.
        let buf = finish_loop ((stream_bits + 7) div 8) 63 tmp_value (buffer w)
        in Ok (w\<lparr>buffer := buf, writer := writer w @ buf\<rparr>)))"

text \<open>\<open>flush_non_final_data\<close> keeps the last byte that is not 0xFF, and what follows it.\<close>

fun non_final_loop :: "nat \<Rightarrow> bytes \<Rightarrow> nat result" where
  "non_final_loop i buf =
    bindR (idx buf i) (\<lambda>b.
      if b = 0xFF then (case i of 0 \<Rightarrow> panic | Suc j \<Rightarrow> non_final_loop j buf) else Ok i)"

declare non_final_loop.simps [simp del]

definition flush_non_final_data :: "VPXBoolWriter \<Rightarrow> VPXBoolWriter result" where
  "flush_non_final_data w =
    (let i = length (buffer w)
     in if 1 < i then
          bindR (non_final_loop (i - 1) (buffer w)) (\<lambda>i.
            Ok (w\<lparr>writer := writer w @ take i (buffer w), buffer := drop i (buffer w)\<rparr>))
        else Ok w)"

text \<open>The fast path appends all eight bytes and drops two again; it is the same.\<close>

lemma put_6bytes_fast:
  "take (length (buf @ be_bytes 8 v) - 2) (buf @ be_bytes 8 v) = put_6bytes buf v"
  by (simp add: put_6bytes_def)

section \<open>Refinement of the interval coder\<close>

text \<open>
  Writer \<open>w\<close> with the working copies \<open>v\<close> and \<open>r\<close> stands for the interval \<open>i\<close>: \<open>s\<close> stream bits and
  the carry bit \<open>l\<close> are behind the marker bit. The last bound says that whatever is still encoded,
  the carry ends inside the buffer.
\<close>

definition stands_for :: "nat \<Rightarrow> nat \<Rightarrow> VPXBoolWriter \<Rightarrow> u64 \<Rightarrow> u32 \<Rightarrow> interval \<Rightarrow> bool" where
  "stands_for s l w v r i \<longleftrightarrow>
    unat v = 2 ^ (s + 1) + l \<and> unat r = width i \<and> interval_ok i \<and> 8 \<le> s \<and>
    l + width i + 2 ^ (s - 7) \<le> 2 ^ (s + 1) \<and>
    shifts i + 8 = s + 8 * (length (writer w) + length (buffer w)) \<and>
    low i = be_val (writer w @ buffer w) * 2 ^ s + l \<and>
    low i + width i + (if 2 \<le> length (buffer w) then 2 ^ s else 2 ^ (s - 7))
      \<le> (be_val (writer w) + 1) * 256 ^ length (buffer w) * 2 ^ s \<and>
    (buffer w = [] \<longrightarrow> writer w = [])"

definition represents :: "VPXBoolWriter \<Rightarrow> u64 \<Rightarrow> u32 \<Rightarrow> interval \<Rightarrow> bool" where
  "represents w v r i \<longleftrightarrow> (\<exists>s l. stands_for s l w v r i \<and> s \<le> 55)"

text \<open>The carry adds 1 to the big-endian number in the buffer.\<close>

lemma carry_loop_adds_1:
  "be_val (bs @ [b]) + 1 < 256 ^ Suc (length bs) \<Longrightarrow>
    \<exists>ds. carry_loop (length bs) (bs @ b # cs) = Ok (ds @ cs) \<and> length ds = Suc (length bs)
      \<and> be_val ds = be_val (bs @ [b]) + 1"
proof (induction bs arbitrary: b cs rule: rev_induct)
  case Nil
  then have "b \<noteq> 0xFF" by (auto simp: be_val_def)
  moreover from this have "unat (b + 1) = unat b + 1"
    using unat_lt2p [of b] by (simp add: unat_word_ariths word_unat_eq_iff)
  ultimately show ?case
    by (subst carry_loop.simps) (auto simp: idx_def be_val_def intro!: exI [of _ "[b + 1]"])
next
  case (snoc a bs)
  show ?case
  proof (cases "b = 0xFF")
    case True
    have "be_val (bs @ [a]) + 1 < 256 ^ Suc (length bs)"
      using snoc.prems True be_val_snoc [of "bs @ [a]" b] by (simp del: be_val_snoc)
    then obtain ds where ds: "carry_loop (length bs) (bs @ a # 0 # cs) = Ok (ds @ 0 # cs)"
      "length ds = Suc (length bs)" "be_val ds = be_val (bs @ [a]) + 1"
      using snoc.IH [of a "0 # cs"] by blast
    have "carry_loop (length (bs @ [a])) ((bs @ [a]) @ b # cs) = Ok ((ds @ [0]) @ cs)"
      using True ds(1) by (subst carry_loop.simps) (simp add: idx_def nth_append list_update_append)
    moreover have "be_val (ds @ [0]) = be_val ((bs @ [a]) @ [b]) + 1"
      using ds(3) True be_val_snoc [of "bs @ [a]" b] by simp
    ultimately show ?thesis using ds(2) by (metis length_append_singleton)
  next
    case False
    have "unat (b + 1) = unat b + 1"
      using False unat_lt2p [of b] by (simp add: unat_word_ariths word_unat_eq_iff)
    then have "be_val (bs @ [a, b + 1]) = be_val (bs @ [a, b]) + 1"
      using be_val_append [of "bs @ [a]" "[b]"] be_val_append [of "bs @ [a]" "[b + 1]"]
      by (simp add: be_val_def)
    moreover have "carry_loop (length (bs @ [a])) ((bs @ [a]) @ b # cs) = Ok ((bs @ [a, b + 1]) @ cs)"
      using False by (subst carry_loop.simps) (simp add: idx_def nth_append list_update_append)
    ultimately show ?thesis by (intro exI [of _ "bs @ [a, b + 1]"]) simp
  qed
qed

lemma carry_adds_1:
  assumes "be_val (buffer w) + 1 < 256 ^ length (buffer w)"
  shows "\<exists>buf. carry w = Ok (w\<lparr>buffer := buf\<rparr>) \<and> length buf = length (buffer w)
    \<and> be_val buf = be_val (buffer w) + 1"
proof (cases "buffer w" rule: rev_cases)
  case Nil
  with assms show ?thesis by simp
next
  case (snoc bs b)
  with carry_loop_adds_1 [of bs b "[]"] assms show ?thesis by (auto simp: carry_def)
qed

lemma and_top_ne_0:
  fixes v :: u64
  shows "v AND push_bit 57 (- 1) \<noteq> 0 \<longleftrightarrow> 2 ^ 57 \<le> unat v"
  using unat_and_top [of v 57] unfolding unat_eq_0 [symmetric] by (simp add: div_eq_0_iff not_less)

lemma unat_and_1: "(w :: 'a::len word) AND 1 \<noteq> 0 \<longleftrightarrow> odd (unat w)"
  using and_pow2_ne_0 [of 0 w] by simp

text \<open>What the flush of six bytes does to the number in the working copy.\<close>

lemma flush_word:
  fixes v :: u64
  assumes v: "unat v = 2 ^ (s + 1) + l" "l < 2 ^ (s + 1)" and s: "56 \<le> s" "s \<le> 62"
  defines "n \<equiv> leading_zeros v + 2"
  defines "a \<equiv> rotate_left n v"
  shows "a AND 1 \<noteq> 0 \<longleftrightarrow> 2 ^ s \<le> l"
    and "be_val (take 6 (be_bytes 8 a)) = l mod 2 ^ s div 2 ^ (s - 48)"
    and "unat (drop_bit n ((a AND 0xffff) OR 0x20000)) = 2 ^ (s - 48 + 1) + l mod 2 ^ (s - 48)"
proof -
  have n: "n = 64 - s" using v s leading_zeros_unique [of "s + 1" v] by (simp add: n_def)
  have l2: "l < 2 ^ s * 2" using v by simp
  define c where "c = l div 2 ^ s"
  define k where "k = l mod 2 ^ s"
  have c: "c < 2" using l2 by (simp add: c_def less_mult_imp_div_less)
  have k: "k < 2 ^ s" by (simp add: k_def)
  define e where "e = 2 + c"
  have "unat v = k + e * 2 ^ s" using v by (simp add: c_def k_def e_def algebra_simps)
  then have dm: "unat v mod 2 ^ s = k" "unat v div 2 ^ s = e"
    using k by simp_all
  then have a: "unat a = e + k * 2 ^ n"
    using s unat_rotate_left [of n v] by (simp add: a_def n)
  have small: "e < 2 ^ n"
  proof -
    have "(2::nat) ^ 2 \<le> 2 ^ n" using s n by (intro power_increasing) simp_all
    with c show ?thesis by (simp add: e_def)
  qed
  have dv: "unat a div 2 ^ n = k" using a small by simp
  have ev: "even ((2::nat) ^ n)" using s n by simp
  show "a AND 1 \<noteq> 0 \<longleftrightarrow> 2 ^ s \<le> l"
  proof -
    have "c = 0 \<or> c = 1" using c by linarith
    then have "odd (unat a) \<longleftrightarrow> c \<noteq> 0" using ev s n by (elim disjE) (simp_all add: a e_def)
    moreover have "c = 0 \<longleftrightarrow> l < 2 ^ s" by (simp add: c_def div_eq_0_iff)
    ultimately show ?thesis by (simp add: unat_and_1 not_less)
  qed
  have p16: "(2::nat) ^ 16 = 2 ^ n * 2 ^ (s - 48)" using s n by (simp flip: power_add)
  then have d16: "unat a div 2 ^ 16 = k div 2 ^ (s - 48)"
    using dv by (simp only: div_mult2_eq)
  have "be_val (take 6 (be_bytes 8 a)) = be_val (be_bytes 6 (drop_bit 16 a))"
  proof -
    have "be_bytes 8 a = be_bytes 6 (drop_bit 8 (drop_bit 8 a)) @ [ucast (drop_bit 8 a), ucast a]"
      using be_bytes_Suc [of 7 a] be_bytes_Suc [of 6 "drop_bit 8 a"] by (simp add: numeral_eq_Suc)
    then show ?thesis by simp
  qed
  also have "\<dots> = unat a div 2 ^ 16"
  proof -
    have "unat a div 2 ^ 16 < 2 ^ 48" using unat_lt2p [of a] by (simp add: less_mult_imp_div_less)
    then show ?thesis by (simp add: be_val_be_bytes unat_drop_bit)
  qed
  finally show "be_val (take 6 (be_bytes 8 a)) = l mod 2 ^ s div 2 ^ (s - 48)"
    by (simp only: d16 k_def)
  have m: "unat (a AND 0xffff) = unat a mod 2 ^ 16"
  proof -
    have "(0xffff :: u64) = mask 16" by (simp add: mask_eq_exp_minus_1)
    then show ?thesis using unat_and_mask [of a 16] by simp
  qed
  have "unat ((0x20000 :: u64) OR (a AND 0xffff)) = 2 ^ 17 + unat a mod 2 ^ 16"
    using unat_or_disjoint [of "0x20000 :: u64" 1 17 "a AND 0xffff"] m
      mod_less_divisor [of "2 ^ 16" "unat a"] by simp
  then have o: "unat ((a AND 0xffff) OR 0x20000) = 2 ^ 17 + unat a mod 2 ^ 16"
    by (simp only: or.commute)
  have p17: "(2::nat) ^ 17 = 2 ^ (s - 48 + 1) * 2 ^ n" using s n by (simp flip: power_add)
  have "(2 ^ 17 + unat a mod 2 ^ 16) div 2 ^ n = 2 ^ (s - 48 + 1) + unat a mod 2 ^ 16 div 2 ^ n"
    unfolding p17 by simp
  also have "unat a mod 2 ^ 16 div 2 ^ n = k mod 2 ^ (s - 48)"
    unfolding p16 by (simp add: mod_mult2_eq dv)
  also have "k mod 2 ^ (s - 48) = l mod 2 ^ (s - 48)"
    by (simp add: k_def mod_mod_cancel le_imp_power_dvd)
  finally show "unat (drop_bit n ((a AND 0xffff) OR 0x20000)) = 2 ^ (s - 48 + 1) + l mod 2 ^ (s - 48)"
    by (simp only: unat_drop_bit o)
qed

text \<open>A carry out of the working copy always ends inside the buffer.\<close>

lemma carry_if:
  assumes st: "stands_for s l w v r i" and cond: "cond \<longleftrightarrow> 2 ^ s \<le> l"
  shows "\<exists>buf. (if cond then carry w else Ok w) = Ok (w\<lparr>buffer := buf\<rparr>)
    \<and> length buf = length (buffer w) \<and> be_val buf = be_val (buffer w) + l div 2 ^ s"
proof -
  let ?W = "be_val (writer w)" and ?B = "be_val (buffer w)" and ?n = "length (buffer w)"
  have R: "128 \<le> width i" and lw: "l + width i + 2 ^ (s - 7) \<le> 2 ^ (s + 1)"
    and lo: "low i = be_val (writer w @ buffer w) * 2 ^ s + l"
    and "low i + width i + (if 2 \<le> ?n then 2 ^ s else 2 ^ (s - 7)) \<le> (?W + 1) * 256 ^ ?n * 2 ^ s"
    using st by (simp_all add: stands_for_def interval_ok_def)
  from this(4) have safe: "low i + width i \<le> (?W + 1) * 256 ^ ?n * 2 ^ s" by (rule add_leD1)
  show ?thesis
  proof (cases "2 ^ s \<le> l")
    case True
    have "l < 2 ^ s * 2" using lw R by simp
    then have "l div 2 ^ s < 2" by (simp add: less_mult_imp_div_less)
    moreover have "l div 2 ^ s \<noteq> 0" using True by (simp add: div_eq_0_iff)
    ultimately have c: "l div 2 ^ s = 1" by linarith
    have "(?W * 256 ^ ?n + ?B + 1) * 2 ^ s \<le> low i"
      using True by (simp add: lo be_val_append algebra_simps)
    then have "(?W * 256 ^ ?n + ?B + 1) * 2 ^ s < (?W + 1) * 256 ^ ?n * 2 ^ s"
      using safe R by linarith
    then have "?W * 256 ^ ?n + ?B + 1 < (?W + 1) * 256 ^ ?n" by (simp only: mult_less_cancel2)
    then have "?B + 1 < 256 ^ ?n" by (simp add: add_mult_distrib)
    from carry_adds_1 [OF this] True cond c show ?thesis by auto
  next
    case False
    then show ?thesis using cond by (intro exI [of _ "buffer w"]) simp
  qed
qed

text \<open>The flush of \<open>put\<close>: six bytes leave the working copy, the interval stays.\<close>

lemma flush_represents:
  assumes st: "stands_for s l w v r i" and s: "56 \<le> s" "s \<le> 62"
  defines "n \<equiv> leading_zeros v + 2"
  defines "a \<equiv> rotate_left n v"
  shows "\<exists>w'. (if a AND 1 \<noteq> 0 then carry w else Ok w) = Ok w' \<and>
    represents (w'\<lparr>buffer := put_6bytes (buffer w') a\<rparr>)
      (drop_bit n ((a AND 0xffff) OR 0x20000)) r i"
proof -
  let ?W = "be_val (writer w)" and ?B = "be_val (buffer w)" and ?n = "length (buffer w)"
  have v: "unat v = 2 ^ (s + 1) + l" and wd: "unat r = width i" "interval_ok i"
    and lw: "l + width i + 2 ^ (s - 7) \<le> 2 ^ (s + 1)"
    and sh: "shifts i + 8 = s + 8 * (length (writer w) + ?n)"
    and lo: "low i = be_val (writer w @ buffer w) * 2 ^ s + l"
    and safe: "low i + width i + (if 2 \<le> ?n then 2 ^ s else 2 ^ (s - 7)) \<le> (?W + 1) * 256 ^ ?n * 2 ^ s"
    and emp: "buffer w = [] \<longrightarrow> writer w = []"
    using st by (simp_all add: stands_for_def)
  have R: "128 \<le> width i" "width i \<le> 255" using wd(2) by (simp_all add: interval_ok_def)
  have l: "l < 2 ^ (s + 1)" using lw R by linarith
  note fw = flush_word [OF v l s, folded n_def, folded a_def]
  define c where "c = l div 2 ^ s"
  define k where "k = l mod 2 ^ s"
  have lc: "l = c * 2 ^ s + k" using div_mult_mod_eq [of l "2 ^ s"] by (simp add: c_def k_def)
  have B: "be_val (writer w @ buffer w) = ?W * 256 ^ ?n + ?B" by (simp add: be_val_append)
  from carry_if [OF st fw(1)] obtain w' buf where
    w': "(if a AND 1 \<noteq> 0 then carry w else Ok w) = Ok w'"
    "w' = w\<lparr>buffer := buf\<rparr>" "length buf = ?n" "be_val buf = ?B + c" by (auto simp: c_def)
  define s' where "s' = s - 48"
  have s': "s = s' + 48" "8 \<le> s'" "s' \<le> 55" using s by (simp_all add: s'_def)
  define q where "q = k div 2 ^ s'"
  define l' where "l' = l mod 2 ^ s'"
  have kq: "k = q * 2 ^ s' + l'"
  proof -
    have "k mod 2 ^ s' = l'" by (simp add: k_def l'_def s'(1) mod_mod_cancel le_imp_power_dvd)
    then show ?thesis using div_mult_mod_eq [of k "2 ^ s'"] by (simp add: q_def)
  qed
  have l': "l' < 2 ^ s'" by (simp add: l'_def)
  let ?u = "w'\<lparr>buffer := put_6bytes (buffer w') a\<rparr>"
  have six: "be_val (take 6 (be_bytes 8 a)) = q" using fw(2) by (simp add: q_def k_def s'_def)
  have valU: "be_val (writer ?u @ buffer ?u) = (?W * 256 ^ ?n + ?B + c) * 2 ^ 48 + q"
    using six w' be_val_append [of "writer w @ buf" "take 6 (be_bytes 8 a)"] be_val_append [of "writer w" buf]
    by (simp add: put_6bytes_def)
  have lowU: "low i = be_val (writer ?u @ buffer ?u) * 2 ^ s' + l'"
    unfolding valU by (simp add: lo B lc kq s'(1) power_add algebra_simps)
  have "stands_for s' l' ?u (drop_bit n ((a AND 0xffff) OR 0x20000)) r i"
    unfolding stands_for_def
  proof (intro conjI)
    show "unat (drop_bit n ((a AND 0xffff) OR 0x20000)) = 2 ^ (s' + 1) + l'"
      using fw(3) by (simp add: s'_def l'_def)
    show "l' + width i + 2 ^ (s' - 7) \<le> 2 ^ (s' + 1)"
    proof -
      obtain j where j: "s' = j + 8" using s'(2) by (metis add.commute le_Suc_ex)
      define P where "P = (2::nat) ^ j"
      have "1 \<le> P" by (simp add: P_def)
      moreover have "2 ^ s' = 256 * P" "2 ^ (s' + 1) = 512 * P" "2 ^ (s' - 7) = 2 * P"
        by (simp_all add: j P_def power_add)
      ultimately show ?thesis using l' R by linarith
    qed
    show "low i + width i + (if 2 \<le> length (buffer ?u) then 2 ^ s' else 2 ^ (s' - 7))
      \<le> (be_val (writer ?u) + 1) * 256 ^ length (buffer ?u) * 2 ^ s'"
    proof -
      have "(2::nat) ^ s' \<le> 2 ^ (s - 7)" using s'(1) by (intro power_increasing) simp_all
      moreover have "(2::nat) ^ (s - 7) \<le> 2 ^ s" by (intro power_increasing) simp_all
      ultimately have "2 ^ s' \<le> (if 2 \<le> ?n then 2 ^ s else 2 ^ (s - 7) :: nat)"
        by (cases "2 \<le> ?n") (simp_all only: if_True if_False)
      then have "low i + width i + 2 ^ s' \<le> (?W + 1) * 256 ^ ?n * 2 ^ s"
        using safe by linarith
      also have "\<dots> = (?W + 1) * 256 ^ (?n + 6) * 2 ^ s'"
        by (simp add: s'(1) power_add)
      finally have "low i + width i + 2 ^ s' \<le> (?W + 1) * 256 ^ (?n + 6) * 2 ^ s'" .
      moreover have "length (buffer ?u) = ?n + 6" "writer ?u = writer w" "2 \<le> ?n + 6"
        using w' by (simp_all add: put_6bytes_def)
      ultimately show ?thesis by (simp only: if_True)
    qed
    show "buffer ?u = [] \<longrightarrow> writer ?u = []"
      using emp w'(2,3) by (auto simp: put_6bytes_def)
  qed (use wd s' sh w' lowU in \<open>simp_all add: put_6bytes_def\<close>)
  then show ?thesis using w'(1) s'(3) by (auto simp: represents_def)
qed

text \<open>The arithmetic of \<open>put\<close> on the working copies narrows the interval.\<close>

lemma put_split:
  fixes r :: u32
  assumes r: "unat r = rr" "2 \<le> rr" "rr \<le> 256" and p: "1 \<le> unat p" "unat p \<le> 255"
  shows "unat (1 + drop_bit 8 ((r - 1) * ucast (p :: u8))) = split_point rr (unat p)"
proof -
  have m: "unat (r - 1) = rr - 1"
  proof -
    have "r \<noteq> 0" using r by auto
    then show ?thesis using r by (simp add: unat_minus_one)
  qed
  have pp: "unat (ucast p :: u32) = unat p"
    using unat_lt2p [of p] by (simp add: unat_ucast)
  have b: "(rr - 1) * unat p \<le> 255 * 255" using r p by (intro mult_mono) simp_all
  have prod: "unat ((r - 1) * ucast p) = (rr - 1) * unat p"
    using b by (subst unat_word_ariths) (simp add: m pp)
  have "(rr - 1) * unat p div 256 \<le> 255 * 255 div 256" using b by (rule div_le_mono)
  then have "unat (1 + drop_bit 8 ((r - 1) * ucast p)) = 1 + (rr - 1) * unat p div 256"
    by (subst unat_word_ariths) (simp add: unat_drop_bit prod)
  then show ?thesis by (simp add: split_point_def)
qed

lemma narrow_stands_for:
  assumes st: "stands_for s l w v r i" and s: "s \<le> 55" and p: "1 \<le> p" "p \<le> 255"
    and v': "unat v' = 2 ^ (s + n + 1) + (l + kept_low d p i - low i) * 2 ^ n"
    and r': "unat r' = kept_width d p i * 2 ^ n"
    and n: "n = normalize_shift (kept_width d p i)"
  shows "stands_for (s + n) ((l + kept_low d p i - low i) * 2 ^ n) w v' r' (narrow d p i)"
proof -
  have ok: "interval_ok i" using st by (simp add: stands_for_def)
  note k = kept_width [OF ok p, of d]
  let ?B = "be_val (writer w @ buffer w)"
  let ?l = "l + kept_low d p i - low i"
  have l: "low i = ?B * 2 ^ s + l" and s8: "8 \<le> s" using st by (simp_all add: stands_for_def)
  have kl: "kept_low d p i = ?B * 2 ^ s + ?l" using k(4) l by simp
  have scale: "x + y + z \<le> c \<Longrightarrow> x * 2 ^ n + y * 2 ^ n + z * 2 ^ n \<le> c * 2 ^ n" for x y z c :: nat
    using mult_le_mono1 [of "x + y + z" c "2 ^ n"] by (simp add: add_mult_distrib)
  have p7: "(2::nat) ^ (s + n - 7) = 2 ^ (s - 7) * 2 ^ n" using s8 by (simp flip: power_add)
  show ?thesis
    unfolding stands_for_def
  proof (intro conjI)
    show "interval_ok (narrow d p i)" by (rule narrow_ok [OF ok p])
    have "l + width i + 2 ^ (s - 7) \<le> 2 ^ (s + 1)" using st by (simp only: stands_for_def)
    moreover have "?l + low i = l + kept_low d p i" using k(4) by simp
    ultimately have "?l + kept_width d p i + 2 ^ (s - 7) \<le> 2 ^ (s + 1)" using k(3) by linarith
    from scale [OF this]
    show "?l * 2 ^ n + width (narrow d p i) + 2 ^ (s + n - 7) \<le> 2 ^ (s + n + 1)"
      by (simp add: narrow_def Let_def p7 power_add mult_ac flip: n)
    have "kept_low d p i + kept_width d p i + (if 2 \<le> length (buffer w) then 2 ^ s else 2 ^ (s - 7))
        \<le> (be_val (writer w) + 1) * 256 ^ length (buffer w) * 2 ^ s"
      using st k(3,4) unfolding stands_for_def by linarith
    from scale [OF this]
    show "low (narrow d p i) + width (narrow d p i)
        + (if 2 \<le> length (buffer w) then 2 ^ (s + n) else 2 ^ (s + n - 7))
      \<le> (be_val (writer w) + 1) * 256 ^ length (buffer w) * 2 ^ (s + n)"
      by (auto simp: narrow_def Let_def p7 power_add mult_ac simp flip: n split: if_splits)
    have "kept_low d p i * 2 ^ n = (?B * 2 ^ s + ?l) * 2 ^ n" using kl by simp
    then show "low (narrow d p i) = ?B * 2 ^ (s + n) + ?l * 2 ^ n"
      by (simp add: narrow_def Let_def power_add algebra_simps flip: n)
  qed (use st v' r' n in \<open>simp_all add: stands_for_def narrow_def Let_def\<close>)
qed

text \<open>\<open>put\<close> never fails on a state that stands for an interval, and narrows it.\<close>

lemma put_represents:
  assumes rep: "represents w v r i" and b: "branch_ok b"
  shows "\<exists>w' v' r'. put d b w v r = Ok (record_and_update_bit d b, w', v', r')
    \<and> represents w' v' r' (narrow d (unat (get_probability b)) i)"
proof -
  let ?p = "unat (get_probability b)"
  obtain s l where st: "stands_for s l w v r i" and s: "s \<le> 55"
    using rep by (auto simp: represents_def)
  then have v: "unat v = 2 ^ (s + 1) + l" and r: "unat r = width i" and ok: "interval_ok i"
    and s8: "8 \<le> s" and lw: "l + width i + 2 ^ (s - 7) \<le> 2 ^ (s + 1)"
    by (simp_all add: stands_for_def)
  have R: "128 \<le> width i" "width i \<le> 255" using ok by (simp_all add: interval_ok_def)
  note p = get_probability_bounds [OF b]
  note k = kept_width [OF ok p, of d]
  define sp where "sp = 1 + drop_bit 8 ((r - 1) * ucast (get_probability b) :: u32)"
  have sp: "unat sp = split_point (width i) ?p"
    unfolding sp_def using r R p by (intro put_split) simp_all
  have sp_less: "unat sp < width i"
    using split_point_bounds [OF p, of "width i"] R by (simp add: sp)
  define r1 where "r1 = (if d then r - sp else sp)"
  define v1 where "v1 = (if d then v + ucast sp else v)"
  have r1: "unat r1 = kept_width d ?p i"
    using sp_less by (simp add: r1_def kept_width_def sp r unat_sub word_le_nat_alt)
  have sB: "(2::nat) ^ (s + 1) \<le> 2 ^ 56" using s by (intro power_increasing) simp_all
  have v1: "unat v1 = 2 ^ (s + 1) + (l + kept_low d ?p i - low i)"
  proof (cases d)
    case True
    have "unat (ucast sp :: u64) = unat sp" using unat_lt2p [of sp] by (simp add: unat_ucast)
    then have "unat v1 = (2 ^ (s + 1) + l + split_point (width i) ?p) mod 2 ^ 64"
      using True sp by (simp add: v1_def unat_word_ariths v del: power_Suc)
    also have "\<dots> = 2 ^ (s + 1) + l + split_point (width i) ?p"
    proof (rule mod_less)
      have "(2::nat) ^ 56 + 2 ^ 56 < 2 ^ 64" by simp
      then show "2 ^ (s + 1) + l + split_point (width i) ?p < 2 ^ 64"
        using lw sp sp_less sB by linarith
    qed
    finally show ?thesis using True by (simp add: kept_low_def)
  qed (simp add: v1_def v kept_low_def)
  define n where "n = leading_zeros (ucast r1 :: u8)"
  have n: "n = normalize_shift (kept_width d ?p i)"
    using k(1,2) by (simp add: n_def leading_zeros_def normalize_shift_def unat_ucast r1)
  note ns = normalize_shift [OF k(1,2), folded n]
  have r2: "unat (push_bit n r1) = kept_width d ?p i * 2 ^ n"
    using ns(2) r1 by (subst unat_push_bit_small) simp_all
  have l1: "l + kept_low d ?p i - low i < 2 ^ (s + 1)" using lw k by linarith
  have v2: "unat (push_bit n v1) = 2 ^ (s + n + 1) + (l + kept_low d ?p i - low i) * 2 ^ n"
  proof -
    have "unat v1 < 2 ^ 57" using l1 using v1 sB by simp
    moreover have "(2::nat) ^ n \<le> 2 ^ 7" using ns(3) by (intro power_increasing) simp_all
    ultimately have "unat v1 * 2 ^ n < 2 ^ 57 * 2 ^ 7"
      by (rule mult_less_le_imp_less) simp_all
    then have "unat (push_bit n v1) = unat v1 * 2 ^ n"
      by (intro unat_push_bit_small) simp
    then show ?thesis by (simp add: v1 add_mult_distrib power_add)
  qed
  have st2: "stands_for (s + n) ((l + kept_low d ?p i - low i) * 2 ^ n) w
      (push_bit n v1) (push_bit n r1) (narrow d ?p i)"
    by (rule narrow_stands_for [OF st s p v2 r2 n])
  have big: "push_bit n v1 AND push_bit 57 (- 1) \<noteq> 0 \<longleftrightarrow> 56 \<le> s + n"
  proof
    assume "push_bit n v1 AND push_bit 57 (- 1) \<noteq> 0"
    then have "2 ^ 57 \<le> unat (push_bit n v1)" by (simp only: and_top_ne_0)
    moreover have "unat (push_bit n v1) < 2 ^ (s + n + 2)"
    proof -
      have "(l + kept_low d ?p i - low i) * 2 ^ n < 2 ^ (s + 1) * 2 ^ n" using l1 by simp
      then show ?thesis unfolding v2 by (simp add: power_add)
    qed
    ultimately have "(2::nat) ^ 57 < 2 ^ (s + n + 2)" by linarith
    then have "57 < s + n + 2" by (rule power_less_imp_less_exp [rotated]) simp
    then show "56 \<le> s + n" by simp
  next
    assume "56 \<le> s + n"
    then have "(2::nat) ^ 57 \<le> 2 ^ (s + n + 1)" by (intro power_increasing) simp_all
    then show "push_bit n v1 AND push_bit 57 (- 1) \<noteq> 0"
      unfolding and_top_ne_0 v2 by linarith
  qed
  have put: "put d b w v r =
    (if push_bit n v1 AND push_bit 57 (- 1) \<noteq> 0 then
       (let m = leading_zeros (push_bit n v1) + 2; a = rotate_left m (push_bit n v1)
        in bindR (if a AND 1 \<noteq> 0 then carry w else Ok w) (\<lambda>w.
           Ok (record_and_update_bit d b, w\<lparr>buffer := put_6bytes (buffer w) a\<rparr>,
               drop_bit m ((a AND 0xffff) OR 0x20000), push_bit n r1)))
     else Ok (record_and_update_bit d b, w, push_bit n v1, push_bit n r1))"
    by (simp add: put_def Let_def r1_def v1_def n_def sp_def)
  show ?thesis
  proof (cases "56 \<le> s + n")
    case True
    have "s + n \<le> 62" using s ns(3) by simp
    from flush_represents [OF st2 True this] obtain w' where
      "(if rotate_left (leading_zeros (push_bit n v1) + 2) (push_bit n v1) AND 1 \<noteq> 0
        then carry w else Ok w) = Ok w'"
      and "represents (w'\<lparr>buffer := put_6bytes (buffer w')
              (rotate_left (leading_zeros (push_bit n v1) + 2) (push_bit n v1))\<rparr>)
        (drop_bit (leading_zeros (push_bit n v1) + 2)
          ((rotate_left (leading_zeros (push_bit n v1) + 2) (push_bit n v1) AND 0xffff) OR 0x20000))
        (push_bit n r1) (narrow d ?p i)"
      by blast
    then show ?thesis using True big by (simp add: put Let_def)
  next
    case False
    then have "represents w (push_bit n v1) (push_bit n r1) (narrow d ?p i)"
      using st2 by (auto simp: represents_def)
    then show ?thesis using False big by (simp add: put)
  qed
qed

section \<open>What the operations of the encoder emit\<close>

definition writer_rep :: "VPXBoolWriter \<Rightarrow> interval \<Rightarrow> bool" where
  "writer_rep w i \<longleftrightarrow> represents w (low_value w) (wrange w) i"

text \<open>An operation emits the decisions \<open>ds\<close> and returns \<open>x\<close>: from every state that stands for an
  interval, without a failure.\<close>

definition emits ::
  "(VPXBoolWriter \<Rightarrow> ('a \<times> VPXBoolWriter) result) \<Rightarrow> decision list \<Rightarrow> 'a \<Rightarrow> bool"
where
  "emits W ds x \<longleftrightarrow> (\<forall>w i. writer_rep w i \<longrightarrow>
    (\<exists>w'. W w = Ok (x, w') \<and> writer_rep w' (narrows ds i)))"

definition emits_tmp ::
  "(VPXBoolWriter \<Rightarrow> u64 \<Rightarrow> u32 \<Rightarrow> ('a \<times> VPXBoolWriter \<times> u64 \<times> u32) result)
    \<Rightarrow> decision list \<Rightarrow> 'a \<Rightarrow> bool"
where
  "emits_tmp W ds x \<longleftrightarrow> (\<forall>w v r i. represents w v r i \<longrightarrow>
    (\<exists>w' v' r'. W w v r = Ok (x, w', v', r') \<and> represents w' v' r' (narrows ds i)))"

lemma represents_update [simp]:
  "represents (w\<lparr>low_value := a, wrange := b\<rparr>) v r i = represents w v r i"
  by (simp add: represents_def stands_for_def)

lemma emits_tmpD:
  assumes "emits_tmp W ds x"
  shows "emits (\<lambda>w. bindR (W w (low_value w) (wrange w)) (\<lambda>(x, w, v, r).
    Ok (x, w\<lparr>low_value := v, wrange := r\<rparr>))) ds x"
  unfolding emits_def writer_rep_def
proof (intro allI impI)
  fix w i
  assume "represents w (low_value w) (wrange w) i"
  then obtain w' v' r' where "W w (low_value w) (wrange w) = Ok (x, w', v', r')"
    "represents w' v' r' (narrows ds i)"
    using assms unfolding emits_tmp_def by blast
  then show "\<exists>w'. bindR (W w (low_value w) (wrange w)) (\<lambda>(x, w, v, r).
      Ok (x, w\<lparr>low_value := v, wrange := r\<rparr>)) = Ok (x, w') \<and>
    represents w' (low_value w') (wrange w') (narrows ds i)" by simp
qed

lemma emits_put:
  "branch_ok b \<Longrightarrow>
    emits_tmp (put d b) [(d, unat (get_probability b))] (record_and_update_bit d b)"
  unfolding emits_tmp_def using put_represents by simp

lemma emits_put_bit:
  "branch_ok b \<Longrightarrow>
    emits (put_bit d b) [(d, unat (get_probability b))] (record_and_update_bit d b)"
  using emits_tmpD [OF emits_put] unfolding put_bit_def [abs_def] by simp

lemma emits_Ok: "emits (\<lambda>w. Ok (x, w)) [] x"
  by (simp add: emits_def)

lemma emits_tmp_Ok: "emits_tmp (\<lambda>w v r. Ok (x, w, v, r)) [] x"
  by (simp add: emits_tmp_def)

lemma emits_bind:
  assumes "emits W1 ds x" "emits (W2 x) es y"
  shows "emits (\<lambda>w. bindR (W1 w) (\<lambda>(x, w). W2 x w)) (ds @ es) y"
  unfolding emits_def
proof (intro allI impI)
  fix w i
  assume "writer_rep w i"
  then obtain w' where "W1 w = Ok (x, w')" "writer_rep w' (narrows ds i)"
    using assms(1) unfolding emits_def by blast
  then show "\<exists>w''. bindR (W1 w) (\<lambda>(x, w). W2 x w) = Ok (y, w'') \<and> writer_rep w'' (narrows (ds @ es) i)"
    using assms(2) unfolding emits_def by simp
qed

lemma emits_tmp_bind:
  assumes "emits_tmp W1 ds x" "emits_tmp (W2 x) es y"
  shows "emits_tmp (\<lambda>w v r. bindR (W1 w v r) (\<lambda>(x, w, v, r). W2 x w v r)) (ds @ es) y"
  unfolding emits_tmp_def
proof (intro allI impI)
  fix w v r i
  assume "represents w v r i"
  then obtain w' v' r' where "W1 w v r = Ok (x, w', v', r')" "represents w' v' r' (narrows ds i)"
    using assms(1) unfolding emits_tmp_def by blast
  then show "\<exists>w'' v'' r''. bindR (W1 w v r) (\<lambda>(x, w, v, r). W2 x w v r) = Ok (y, w'', v'', r'')
      \<and> represents w'' v'' r'' (narrows (ds @ es) i)"
    using assms(2) unfolding emits_tmp_def by simp
qed

lemma emits_tmp_path_step:
  assumes "j < length bs" "branches_ok bs"
    and "emits_tmp (K (bs[j := record_and_update_bit d (bs ! j)])) es y"
  shows "emits_tmp (\<lambda>w v r. bindR (idx bs j) (\<lambda>b.
      bindR (put d b w v r) (\<lambda>(b, w, v, r). K (bs[j := b]) w v r)))
    ((d, unat (get_probability (bs ! j))) # es) y"
  using emits_tmp_bind [where ?W2.0 = "\<lambda>b. K (bs[j := b])",
      OF emits_put [OF branches_ok_nth [OF assms(2,1)]] assms(3)]
    assms(1) by (simp add: idx_in_range)

text \<open>Each of the three loops emits the decisions of its path.\<close>

lemma emits_n_bits_loop:
  "n \<le> length bs \<Longrightarrow> branches_ok bs \<Longrightarrow> run_path (n_bits_path v n) bs = (ds, bs') \<Longrightarrow>
    emits_tmp (put_n_bits_loop v n bs) ds bs'"
proof (induction n arbitrary: bs ds)
  case 0
  then show ?case using emits_tmp_Ok [of bs'] by (simp add: emits_tmp_def)
next
  case (Suc n)
  let ?d = "odd (v div 2 ^ n)"
  let ?bs = "bs[n := record_and_update_bit ?d (bs ! n)]"
  obtain es where es: "run_path (n_bits_path v n) ?bs = (es, bs')"
    "ds = (?d, unat (get_probability (bs ! n))) # es"
    using Suc.prems(3) by (auto split: prod.splits)
  have "emits_tmp (put_n_bits_loop v n ?bs) es bs'"
    using Suc.prems branches_ok_nth [of bs n] by (intro Suc.IH es) simp_all
  from emits_tmp_path_step [where K = "put_n_bits_loop v n", OF _ Suc.prems(2) this] Suc.prems(1)
  show ?case unfolding es(2) put_n_bits_loop.simps [abs_def] nat_and_pow2_ne_0 by simp
qed

lemma emits_unary_loop:
  "i + n \<le> length bs \<Longrightarrow> branches_ok bs \<Longrightarrow> run_path (unary_path v i n) bs = (ds, bs') \<Longrightarrow>
    emits_tmp (put_unary_loop v i n bs) ds bs'"
proof (induction n arbitrary: i bs ds)
  case 0
  then show ?case using emits_tmp_Ok [of bs'] by (simp add: emits_tmp_def)
next
  case (Suc n)
  let ?bs = "bs[i := record_and_update_bit (v \<noteq> i) (bs ! i)]"
  obtain es where es: "run_path (if v \<noteq> i then unary_path v (Suc i) n else []) ?bs = (es, bs')"
    "ds = (v \<noteq> i, unat (get_probability (bs ! i))) # es"
    using Suc.prems(3) by (auto split: prod.splits)
  define K where "K = (\<lambda>bs w tv tr. if \<not> (v \<noteq> i) then Ok (bs, w, tv, tr)
    else put_unary_loop v (Suc i) n bs w tv tr)"
  have "emits_tmp (K ?bs) es bs'"
  proof (cases "v = i")
    case True
    then show ?thesis using es emits_tmp_Ok [of ?bs] by (simp add: K_def emits_tmp_def)
  next
    case False
    then have "emits_tmp (put_unary_loop v (Suc i) n ?bs) es bs'"
      using Suc.prems branches_ok_nth [of bs i] es by (intro Suc.IH) simp_all
    with False show ?thesis by (simp add: K_def emits_tmp_def)
  qed
  from emits_tmp_path_step [where K = K, OF _ Suc.prems(2) this] Suc.prems(1)
  show ?case unfolding es(2) put_unary_loop.simps [abs_def] Let_def K_def by simp
qed

lemma put_grid_loop_0:
  "put_grid_loop v 0 so_far bs = (\<lambda>w tv tr. bindR (idx bs so_far) (\<lambda>b.
    bindR (put (odd (unat v)) b w tv tr) (\<lambda>(b, w, tv, tr). Ok (bs[so_far := b], w, tv, tr))))"
  using and_pow2_ne_0 [of 0 v] by (intro ext) (simp add: put_grid_loop.simps [of _ 0] Let_def)

lemma put_grid_loop_Suc:
  assumes "Suc n < 8"
  shows "put_grid_loop v (Suc n) so_far bs = (\<lambda>w tv tr. bindR (idx bs so_far) (\<lambda>b.
    bindR (put (odd (unat v div 2 ^ Suc n)) b w tv tr) (\<lambda>(b, w, tv, tr).
      put_grid_loop v n (2 * so_far + of_bool (odd (unat v div 2 ^ Suc n))) (bs[so_far := b]) w tv tr)))"
proof -
  have "v AND push_bit (Suc n mod 8) 1 \<noteq> 0 \<longleftrightarrow> odd (unat v div 2 ^ Suc n)"
    using assms and_pow2_ne_0 [of "Suc n" v] by simp
  then show ?thesis by (intro ext) (simp only: put_grid_loop.simps [of _ "Suc n"] Let_def nat.case)
qed

lemma emits_grid_loop:
  assumes "n < 8"
  shows "path_ok (grid_path (unat v) (Suc n) so_far) bs \<Longrightarrow> branches_ok bs \<Longrightarrow>
    run_path (grid_path (unat v) (Suc n) so_far) bs = (ds, bs') \<Longrightarrow>
    emits_tmp (put_grid_loop v n so_far bs) ds bs'"
  using assms
proof (induction n arbitrary: so_far bs ds)
  case 0
  then show ?case
    using emits_tmp_path_step [where K = "\<lambda>bs w v r. Ok (bs, w, v, r)", OF _ _ emits_tmp_Ok,
        of so_far bs "odd (unat v)"]
    by (auto simp: put_grid_loop_0)
next
  case (Suc n)
  let ?d = "odd (unat v div 2 ^ Suc n)"
  let ?bs = "bs[so_far := record_and_update_bit ?d (bs ! so_far)]"
  obtain es where es: "run_path (grid_path (unat v) (Suc n) (2 * so_far + of_bool ?d)) ?bs = (es, bs')"
    "ds = (?d, unat (get_probability (bs ! so_far))) # es"
    using Suc.prems(3) by (auto split: prod.splits)
  have "emits_tmp (put_grid_loop v n (2 * so_far + of_bool ?d) ?bs) es bs'"
    using Suc.prems branches_ok_nth [of bs so_far] by (intro Suc.IH es) simp_all
  from emits_tmp_path_step [where K = "put_grid_loop v n (2 * so_far + of_bool ?d)", OF _ Suc.prems(2) this]
    Suc.prems(1)
  show ?case unfolding es(2) put_grid_loop_Suc [OF Suc.prems(4)] by simp
qed

lemma emits_put_n_bits:
  assumes "n \<le> length bs" "branches_ok bs" "run_path (n_bits_path v n) bs = (ds, bs')"
  shows "emits (put_n_bits v n bs) ds bs'"
  using emits_tmpD [OF emits_n_bits_loop [OF assms]] unfolding put_n_bits_def [abs_def] .

lemma emits_put_unary:
  assumes "v \<le> length bs" "branches_ok bs" "run_path (unary_path v 0 (length bs)) bs = (ds, bs')"
  shows "emits (put_unary_encoded v bs) ds bs'"
  using emits_tmpD [OF emits_unary_loop [OF _ assms(2,3)]] assms(1)
  unfolding put_unary_encoded_def [abs_def] Let_def by simp

lemma bit_len_pow2: "bit_len (2 ^ n) = Suc n"
  by (rule bit_len_unique) simp_all

lemma emits_put_grid:
  assumes "length bs = 2 ^ Suc n" "n < 8" "branches_ok bs"
    "run_path (grid_path (unat v) (Suc n) 1) bs = (ds, bs')"
  shows "emits (put_grid v bs) ds bs'"
proof -
  have "path_ok (grid_path (unat v) (Suc n) 1) bs"
    by (rule grid_path_ok [of _ 1]) (simp_all add: assms(1))
  then have e: "emits_tmp (put_grid_loop v n 1 bs) ds bs'"
    using assms by (intro emits_grid_loop)
  have "(2::nat) ^ Suc n AND (2 ^ Suc n - 1) = 0"
    using take_bit_eq_mask [of "Suc n" "2 ^ Suc n :: nat"]
    by (simp only: mask_eq_exp_minus_1 take_bit_eq_mod) simp
  then show ?thesis
    using emits_tmpD [OF e] unfolding put_grid_def [abs_def] Let_def assms(1) bit_len_pow2 by simp
qed

section \<open>Start, flush and finish\<close>

definition start_interval :: interval where
  "start_interval = narrow False 128 initial_interval"

lemma start_interval: "start_interval = \<lparr>low = 0, width = 128, shifts = 0\<rparr>"
  by (simp add: start_interval_def narrow_def initial_interval_def kept_low_def kept_width_def
      split_point_def normalize_shift_def bit_len.simps)

lemma interval_ok_start [simp]: "interval_ok start_interval"
  by (simp add: start_interval interval_ok_def)

text \<open>The initial false bit leaves room for every carry.\<close>

lemma VPXBoolWriter_new:
  "\<exists>w. VPXBoolWriter_new = Ok w \<and> writer_rep w start_interval \<and> writer w = [] \<and> buffer w = []"
proof -
  have "VPXBoolWriter_new = Ok \<lparr>low_value = 512, wrange = 128, writer = [], buffer = []\<rparr>"
  proof -
    have p: "get_probability Branch_new = 128"
      by (simp add: get_probability_def problookup_def Branch_new_def Let_def flip: numeral_2_eq_2)
    have f: "(512 :: u64) AND push_bit 57 (- 1) = 0" using and_top_ne_0 [of 512] by simp
    have n: "leading_zeros (128 :: u8) = 0" by (simp add: leading_zeros_def bit_len.simps)
    show ?thesis using f by (simp add: VPXBoolWriter_new_def put_bit_def put_def Let_def p n)
  qed
  moreover have "stands_for 8 0 \<lparr>low_value = 512, wrange = 128, writer = [], buffer = []\<rparr> 512 128 start_interval"
    by (simp add: stands_for_def start_interval interval_ok_def)
  then have "writer_rep \<lparr>low_value = 512, wrange = 128, writer = [], buffer = []\<rparr> start_interval"
    unfolding writer_rep_def represents_def by (intro exI [of _ 8] exI [of _ 0]) simp
  ultimately show ?thesis
    apply -
    apply (rule exI [of _ "\<lparr>low_value = 512, wrange = 128, writer = [], buffer = []\<rparr>"])
    apply (intro conjI)
    apply assumption+
    apply simp_all
    done
qed

lemma finish_loop_val:
  "8 * n \<le> sh \<Longrightarrow> length (finish_loop n sh t buf) = length buf + n \<and>
    be_val (finish_loop n sh t buf) = be_val buf * 256 ^ n + unat t mod 2 ^ sh div 2 ^ (sh - 8 * n)"
proof (induction n arbitrary: sh buf)
  case (Suc n)
  define m where "m = sh - 8"
  have sh: "sh = m + 8" using Suc.prems by (simp add: m_def)
  define k where "k = m - 8 * n"
  have m: "m = k + 8 * n" using Suc.prems sh by (simp add: k_def)
  have p: "(2::nat) ^ m = 256 ^ n * 2 ^ k" by (simp add: m power_add power_mult)
  have b: "unat (ucast (drop_bit m t) :: u8) = unat t div 2 ^ m mod 256"
    by (simp add: unat_ucast unat_drop_bit)
  have "unat t mod 2 ^ sh = unat t div 2 ^ m mod 256 * 2 ^ m + unat t mod 2 ^ m"
    unfolding sh power_add by (simp add: mod_mult2_eq mult.commute)
  also have "\<dots> div 2 ^ k = unat t div 2 ^ m mod 256 * 256 ^ n + unat t mod 2 ^ m div 2 ^ k"
    unfolding p by (simp flip: mult.assoc)
  finally have "unat t mod 2 ^ sh div 2 ^ k = unat t div 2 ^ m mod 256 * 256 ^ n + unat t mod 2 ^ m div 2 ^ k" .
  then show ?case using Suc.IH [of m "buf @ [ucast (drop_bit m t)]"] b
    by (simp add: sh m Let_def algebra_simps)
qed (simp add: Let_def)

lemma emits_start:
  assumes "emits W ds x"
  shows "\<exists>w'. bindR VPXBoolWriter_new W = Ok (x, w') \<and> writer_rep w' (narrows ds start_interval)"
  using assms VPXBoolWriter_new unfolding emits_def by fastforce

text \<open>The first bits of a code string are its own when it is long enough, whatever comes behind it.\<close>

lemma prefix_val_append:
  assumes "k \<le> 8 * length c"
  shows "prefix_val (c @ d) k = prefix_val c k"
proof -
  obtain q where q: "(256::nat) ^ length c = 2 ^ k * 2 ^ q"
    using assms by (metis le_Suc_ex pow256 power_add)
  have "be_val (c @ d) div 256 ^ length d = be_val c"
    using be_val_upper [of d] by (simp add: be_val_append)
  then have "be_val (c @ d) div (256 ^ length d * 2 ^ q) = be_val c div 2 ^ q"
    by (simp add: div_mult2_eq)
  moreover have "prefix_val (c @ d) k = be_val (c @ d) div (256 ^ length d * 2 ^ q)"
    by (simp add: prefix_val_def power_add q mult.assoc mult.left_commute [of "2 ^ k"] mult.commute [of "be_val _"])
      (simp add: mult.commute)
  moreover have "prefix_val c k = be_val c div 2 ^ q" by (simp add: prefix_val_def q mult.commute)
  ultimately show ?thesis by simp
qed

text \<open>\<open>finish\<close> writes what is in the buffer and pads the low bound of the interval with zero bits to whole
  bytes: all bits of the bound are there, so that bytes behind them change nothing.\<close>

lemma finish_exact:
  assumes rep: "writer_rep w i"
  shows "\<exists>w' added. finish w = Ok w' \<and> writer w' = writer w @ added \<and> shifts i + 8 \<le> 8 * length (writer w')
    \<and> prefix_val (writer w') (shifts i + 8) = low i"
proof -
  let ?W = "be_val (writer w)" and ?B = "be_val (buffer w)" and ?n = "length (buffer w)"
  obtain s l where st: "stands_for s l w (low_value w) (wrange w) i" and s55: "s \<le> 55"
    using rep by (auto simp: writer_rep_def represents_def)
  then have v: "unat (low_value w) = 2 ^ (s + 1) + l" and wd: "interval_ok i" and s8: "8 \<le> s"
    and lw: "l + width i + 2 ^ (s - 7) \<le> 2 ^ (s + 1)"
    and sh: "shifts i + 8 = s + 8 * (length (writer w) + ?n)"
    and lo: "low i = be_val (writer w @ buffer w) * 2 ^ s + l"
    and safe: "low i + width i + (if 2 \<le> ?n then 2 ^ s else 2 ^ (s - 7)) \<le> (?W + 1) * 256 ^ ?n * 2 ^ s"
    by (simp_all add: stands_for_def)
  have R: "128 \<le> width i" using wd by (simp add: interval_ok_def)
  have l: "l < 2 ^ (s + 1)" using lw R by linarith
  have bits: "64 - leading_zeros (low_value w) - 2 = s"
    using leading_zeros_unique [of "s + 1" "low_value w"] v l s55 by simp
  define t where "t = push_bit (63 - s) (low_value w)"
  have t: "unat t = l * 2 ^ (63 - s)"
  proof -
    have "(2::nat) ^ (s + 1) * 2 ^ (63 - s) = 2 ^ 64" using s55 by (simp flip: power_add)
    moreover from this have "l * 2 ^ (63 - s) < 2 ^ 64"
      using l by (metis mult_less_mono1 zero_less_numeral zero_less_power)
    ultimately show ?thesis by (simp add: t_def unat_push_bit v add_mult_distrib del: power_Suc)
  qed
  have p63: "(2::nat) ^ 63 = 2 ^ s * 2 ^ (63 - s)" using s55 by (simp flip: power_add)
  define c where "c = l div 2 ^ s"
  define k where "k = l mod 2 ^ s"
  have lc: "l = c * 2 ^ s + k" using div_mult_mod_eq [of l "2 ^ s"] by (simp add: c_def k_def)
  have c2: "c < 2" using l by (simp add: c_def less_mult_imp_div_less)
  have c0: "c = 0 \<longleftrightarrow> l < 2 ^ s" by (simp add: c_def div_eq_0_iff)
  have "unat t div 2 ^ 63 = c" unfolding p63 t c_def by simp
  then have "t AND push_bit 63 1 \<noteq> 0 \<longleftrightarrow> odd c" using and_pow2_ne_0 [of 63 t] by simp
  also have "\<dots> \<longleftrightarrow> 2 ^ s \<le> l" using c2 c0 by (cases "c = 0") (auto simp: not_less [symmetric] elim: oddE)
  finally have "t AND push_bit 63 1 \<noteq> 0 \<longleftrightarrow> 2 ^ s \<le> l" .
  from carry_if [OF st this] obtain w' buf where
    w': "(if t AND push_bit 63 1 \<noteq> 0 then carry w else Ok w) = Ok w'"
    "w' = w\<lparr>buffer := buf\<rparr>" "length buf = ?n" "be_val buf = ?B + c" by (auto simp: c_def)
  define m where "m = (s + 7) div 8"
  define q where "q = 8 * m - s"
  have m8: "8 * m = s + q" "8 * m \<le> 63" using s55 by (auto simp: m_def q_def)
  define fb where "fb = finish_loop m 63 t buf"
  have fb: "length fb = ?n + m" "be_val fb = be_val buf * 256 ^ m + k * 2 ^ q"
  proof -
    have "unat t mod 2 ^ 63 = k * 2 ^ (63 - s)" unfolding p63 t k_def by (simp add: mult_mod_left)
    moreover have "(2::nat) ^ (63 - s) = 2 ^ q * 2 ^ (63 - 8 * m)" using m8 by (simp flip: power_add)
    ultimately have "unat t mod 2 ^ 63 div 2 ^ (63 - 8 * m) = k * 2 ^ q" by simp
    with finish_loop_val [OF m8(2), of t buf] w'(3)
    show "length fb = ?n + m" "be_val fb = be_val buf * 256 ^ m + k * 2 ^ q"
      by (simp_all add: fb_def)
  qed
  have fin: "finish w = Ok (w\<lparr>buffer := fb, writer := writer w @ fb\<rparr>)"
    using w'(1,2) unfolding finish_def Let_def bits t_def [symmetric] m_def [symmetric]
    by (simp add: fb_def)
  have "(256::nat) ^ m = 2 ^ s * 2 ^ q" proof -
    have "(256::nat) ^ m = 2 ^ (8 * m)" by (simp add: power_mult)
    then show ?thesis by (simp add: m8(1) power_add)
  qed
  then have val: "be_val (writer w @ fb) = low i * 2 ^ q"
    using fb w'(4) by (simp add: be_val_append lo lc power_add algebra_simps)
  have all: "8 * length (writer w @ fb) = shifts i + 8 + q" using fb(1) sh m8(1) by simp
  have len: "(256::nat) ^ length (writer w @ fb) = 2 ^ (shifts i + 8) * 2 ^ q"
    unfolding pow256 all power_add by simp
  have "prefix_val (writer w @ fb) (shifts i + 8) = low i"
    unfolding prefix_val_def val len by simp
  with fin all show ?thesis by simp
qed

lemma finish_inside_any:
  assumes "writer_rep w i"
  shows "\<exists>w' added. finish w = Ok w' \<and> writer w' = writer w @ added \<and> (\<forall>more. inside i (writer w' @ more))"
proof -
  obtain s l where "stands_for s l w (low_value w) (wrange w) i"
    using assms by (auto simp: writer_rep_def represents_def)
  then have "0 < width i" by (simp add: stands_for_def interval_ok_def)
  moreover obtain w' added where f: "finish w = Ok w'" "writer w' = writer w @ added"
    "shifts i + 8 \<le> 8 * length (writer w')" "prefix_val (writer w') (shifts i + 8) = low i"
    using finish_exact [OF assms] by blast
  ultimately have "inside i (writer w' @ more)" for more
    unfolding inside_def prefix_val_append [OF f(3)] f(4) by simp
  with f(1,2) show ?thesis by blast
qed

lemma finish_value:
  assumes "writer_rep w i"
  shows "\<exists>w'. finish w = Ok w' \<and> inside i (writer w')"
  using finish_inside_any [OF assms] by (metis append_Nil2)

text \<open>\<open>flush_non_final_data\<close> finds a byte that is not 0xFF, and moves bytes only.\<close>

lemma non_final_loop:
  "x < length buf \<Longrightarrow> \<exists>j \<le> x. buf ! j \<noteq> 0xFF \<Longrightarrow>
    \<exists>j. non_final_loop x buf = Ok j \<and> j \<le> x \<and> buf ! j \<noteq> 0xFF \<and> (\<forall>k. j < k \<and> k \<le> x \<longrightarrow> buf ! k = 0xFF)"
proof (induction x)
  case 0
  then show ?case by (subst non_final_loop.simps) (auto simp: idx_def)
next
  case (Suc x)
  show ?case
  proof (cases "buf ! Suc x = 0xFF")
    case True
    with Suc.prems have "\<exists>j \<le> x. buf ! j \<noteq> 0xFF" by (metis le_SucE)
    then obtain j where j: "non_final_loop x buf = Ok j" "j \<le> x" "buf ! j \<noteq> 0xFF"
      "\<forall>k. j < k \<and> k \<le> x \<longrightarrow> buf ! k = 0xFF"
      using Suc.IH Suc.prems(1) by auto
    have "non_final_loop (Suc x) buf = Ok j"
      using True j Suc.prems(1) by (subst non_final_loop.simps) (simp add: idx_def)
    with j True show ?thesis by (auto simp: le_Suc_eq)
  next
    case False
    with Suc.prems show ?thesis by (subst non_final_loop.simps) (auto simp: idx_def)
  qed
qed

lemma be_val_replicate_FF: "be_val (replicate n 0xFF) + 1 = 256 ^ n"
proof (induction n)
  case (Suc n)
  have "be_val (replicate (Suc n) 0xFF) = 255 * 256 ^ n + be_val (replicate n 0xFF)"
    by (simp add: be_val_Cons)
  with Suc show ?case by simp
qed simp

lemma flush_represents_same:
  assumes rep: "writer_rep w i"
  shows "\<exists>w'. flush_non_final_data w = Ok w' \<and> writer_rep w' i
    \<and> writer w' @ buffer w' = writer w @ buffer w"
proof (cases "1 < length (buffer w)")
  case False
  then show ?thesis using rep by (simp add: flush_non_final_data_def)
next
  case True
  let ?W = "be_val (writer w)" and ?n = "length (buffer w)"
  obtain s l where st: "stands_for s l w (low_value w) (wrange w) i" and s55: "s \<le> 55"
    using rep by (auto simp: writer_rep_def represents_def)
  then have wd: "interval_ok i" and lw: "l + width i + 2 ^ (s - 7) \<le> 2 ^ (s + 1)"
    and lo: "low i = be_val (writer w @ buffer w) * 2 ^ s + l"
    and safe: "low i + width i + 2 ^ s \<le> (?W + 1) * 256 ^ ?n * 2 ^ s"
    using True by (simp_all add: stands_for_def)
  have R: "128 \<le> width i" using wd by (simp add: interval_ok_def)
  have B: "be_val (writer w @ buffer w) = ?W * 256 ^ ?n + be_val (buffer w)" by (rule be_val_append)
  have "\<exists>j \<le> ?n - 1. buffer w ! j \<noteq> 0xFF"
  proof (rule ccontr)
    assume "\<not> ?thesis"
    then have "buffer w = replicate ?n 0xFF"
      using True by (intro nth_equalityI) auto
    then have "be_val (buffer w) + 1 = 256 ^ ?n" by (metis be_val_replicate_FF)
    then have "(?W + 1) * 256 ^ ?n * 2 ^ s = low i + 2 ^ s - l"
      by (simp add: lo B algebra_simps flip: \<open>be_val (buffer w) + 1 = 256 ^ ?n\<close>)
    then show False using safe R by linarith
  qed
  then obtain j where j: "non_final_loop (?n - 1) (buffer w) = Ok j" "j \<le> ?n - 1" "buffer w ! j \<noteq> 0xFF"
    "\<forall>k. j < k \<and> k \<le> ?n - 1 \<longrightarrow> buffer w ! k = 0xFF"
    using non_final_loop [of "?n - 1" "buffer w"] True by (meson diff_less less_trans zero_less_one)
  let ?w = "w\<lparr>writer := writer w @ take j (buffer w), buffer := drop j (buffer w)\<rparr>"
  have fl: "flush_non_final_data w = Ok ?w" using True j(1) by (simp add: flush_non_final_data_def)
  have same: "writer ?w @ buffer ?w = writer w @ buffer w" by simp
  define n' where "n' = ?n - j"
  define rest where "rest = be_val (drop j (buffer w))"
  have n': "1 \<le> n'" "n' = length (buffer ?w)" using j(2) True by (auto simp: n'_def)
  have rest: "rest + 1 \<le> 255 * 256 ^ (n' - 1)"
  proof -
    have jl: "j < ?n" using j(2) True by linarith
    have "drop j (buffer w) = buffer w ! j # drop (Suc j) (buffer w)" using jl by (simp add: Cons_nth_drop_Suc)
    then have "rest = unat (buffer w ! j) * 256 ^ (n' - 1) + be_val (drop (Suc j) (buffer w))"
      using jl by (simp add: rest_def be_val_Cons n'_def)
    moreover have "be_val (drop (Suc j) (buffer w)) + 1 \<le> 256 ^ (n' - 1)"
      using be_val_upper [of "drop (Suc j) (buffer w)"] jl by (simp add: n'_def Suc_le_eq)
    moreover have "unat (buffer w ! j) \<le> 254"
      using j(3) unat_lt2p [of "buffer w ! j"] by (simp add: word_unat_eq_iff)
    then have "unat (buffer w ! j) * 256 ^ (n' - 1) \<le> 254 * 256 ^ (n' - 1)" by (rule mult_le_mono1)
    ultimately show ?thesis by linarith
  qed
  have W': "be_val (writer w @ buffer w) = be_val (writer ?w) * 256 ^ n' + rest"
    using same be_val_append [of "writer ?w" "buffer ?w"] n'(2) by (simp add: rest_def)
  have "stands_for s l ?w (low_value ?w) (wrange ?w) i"
    unfolding stands_for_def
  proof (intro conjI)
    show "shifts i + 8 = s + 8 * (length (writer ?w) + length (buffer ?w))"
      using st j(2) True by (simp add: stands_for_def)
    show "low i = be_val (writer ?w @ buffer ?w) * 2 ^ s + l" using lo same by simp
    show "low i + width i + (if 2 \<le> length (buffer ?w) then 2 ^ s else 2 ^ (s - 7))
      \<le> (be_val (writer ?w) + 1) * 256 ^ length (buffer ?w) * 2 ^ s"
    proof (cases "2 \<le> n'")
      case False
      then have "n' = 1" using n' by linarith
      then have "be_val (writer w @ buffer w) + 2 \<le> (be_val (writer ?w) + 1) * 256 ^ n'"
        using W' rest by simp
      then have "(be_val (writer w @ buffer w) + 2) * 2 ^ s \<le> (be_val (writer ?w) + 1) * 256 ^ n' * 2 ^ s"
        by (rule mult_le_mono1)
      then have "low i + width i + 2 ^ (s - 7) \<le> (be_val (writer ?w) + 1) * 256 ^ n' * 2 ^ s"
        using lo lw by (simp add: add_mult_distrib)
      then show ?thesis using False n'(2) by (simp only: if_False)
    next
      case True
      have "(256::nat) ^ 1 \<le> 256 ^ (n' - 1)" using True by (intro power_increasing) simp_all
      moreover have "(256::nat) ^ n' = 256 * 256 ^ (n' - 1)" using n'(1) by (simp flip: power_Suc)
      ultimately have "be_val (writer w @ buffer w) + 3 \<le> (be_val (writer ?w) + 1) * 256 ^ n'"
        using W' rest by (simp add: add_mult_distrib)
      then have "(be_val (writer w @ buffer w) + 3) * 2 ^ s \<le> (be_val (writer ?w) + 1) * 256 ^ n' * 2 ^ s"
        by (rule mult_le_mono1)
      then have "low i + width i + 2 ^ s \<le> (be_val (writer ?w) + 1) * 256 ^ n' * 2 ^ s"
        using lo lw by (simp add: add_mult_distrib)
      then show ?thesis using True n'(2) by (simp only: if_True)
    qed
    show "buffer ?w = [] \<longrightarrow> writer ?w = []" using n' by auto
  qed (use st in \<open>simp_all add: stands_for_def\<close>)
  with s55 have "writer_rep ?w i" by (auto simp: writer_rep_def represents_def)
  with fl same show ?thesis by blast
qed

end
