(* ===== verification/Bool_Reader.thy ===== *)
theory Bool_Reader
  imports Arith_Coder
begin

unbundle bit_operations_syntax

text \<open>
  The arithmetic decoder (\<open>structs/vpx_bool_reader.rs\<close>). \<open>rvalue\<close> holds the distance of the code
  string from the low bound of the interval, with a guard bit behind the last stream bit that has
  been read; bytes are read only when the guard bit comes too high. The refinement: on a string
  inside the interval that a sequence of decisions leaves, the decoder returns those decisions. The
  underlying reader is the list of bytes that are left, and reading behind its end gives nothing,
  as \<open>Read::read\<close> of a buffer does.
\<close>

record VPXBoolReader =
  rvalue :: u64
  rrange :: u64
  upstream_reader :: bytes

section \<open>The code\<close>

definition BITS_IN_VALUE_MINUS_LAST_BYTE :: nat where
  "BITS_IN_VALUE_MINUS_LAST_BYTE = 64 - 8"

definition VALUE_MASK :: u64 where
  "VALUE_MASK = push_bit BITS_IN_VALUE_MINUS_LAST_BYTE 1 - 1"

definition mul_prob :: "u64 \<Rightarrow> u64 \<Rightarrow> u64" where
  "mul_prob tmp_range probability =
    ((drop_bit 8 (tmp_range - push_bit BITS_IN_VALUE_MINUS_LAST_BYTE 1) * probability)
      AND push_bit BITS_IN_VALUE_MINUS_LAST_BYTE 0xFF)
    + push_bit BITS_IN_VALUE_MINUS_LAST_BYTE 1"

text \<open>\<open>get\<close>; its assertion is compiled on processors without \<open>lzcnt\<close>.\<close>

definition get :: "Branch \<Rightarrow> u64 \<Rightarrow> u64 \<Rightarrow> (bool \<times> Branch \<times> u64 \<times> u64) result" where
  "get branch tmp_value tmp_range =
    (let probability = ucast (get_probability branch) :: u64;
         split = mul_prob tmp_range probability
     in bindR (assertR (0 < tmp_range - split)) (\<lambda>_.
        let d = (split \<le> tmp_value);
            branch = record_and_update_bit d branch;
            (tmp_range, tmp_value) =
              (if d then (tmp_range - split, tmp_value - split) else (split, tmp_value));
            shift = leading_zeros tmp_range;
            tmp_value = push_bit shift tmp_value;
            tmp_range = push_bit shift tmp_range
        in Ok (d, branch, tmp_value, tmp_range)))"

text \<open>\<open>vpx_reader_fill\<close>: the guard bit moves down as far as whole bytes allow.\<close>

fun fill_loop :: "nat \<Rightarrow> u64 \<Rightarrow> bytes \<Rightarrow> u64 \<times> bytes" where
  "fill_loop shift tmp_value [] = (tmp_value, [])"
| "fill_loop shift tmp_value (v # up) =
    (if 0 < shift then fill_loop (shift - 8) (tmp_value OR push_bit shift (ucast v)) up
     else (tmp_value, v # up))"

definition vpx_reader_fill :: "u64 \<Rightarrow> bytes \<Rightarrow> u64 \<times> bytes" where
  "vpx_reader_fill tmp_value up =
    (if tmp_value AND 0xFF = 0 then
       (let shift = trailing_zeros tmp_value;
            tmp_value = tmp_value AND (tmp_value - 1);
            tmp_value = tmp_value OR push_bit (shift mod 8) 1
        in fill_loop (shift - 7) tmp_value up)
     else (tmp_value, up))"

definition fill_if_needed :: "u64 \<Rightarrow> bytes \<Rightarrow> u64 \<times> bytes" where
  "fill_if_needed tmp_value up =
    (if tmp_value AND VALUE_MASK = 0 then vpx_reader_fill tmp_value up else (tmp_value, up))"

definition get_bit :: "Branch \<Rightarrow> VPXBoolReader \<Rightarrow> (bool \<times> Branch \<times> VPXBoolReader) result" where
  "get_bit branch r =
    (let (tmp_value, up) = fill_if_needed (rvalue r) (upstream_reader r)
     in bindR (get branch tmp_value (rrange r)) (\<lambda>(d, branch, tmp_value, tmp_range).
        Ok (d, branch, r\<lparr>rvalue := tmp_value, rrange := tmp_range, upstream_reader := up\<rparr>)))"

definition VPXBoolReader_new :: "bytes \<Rightarrow> VPXBoolReader result" where
  "VPXBoolReader_new reader =
    bindR (get_bit Branch_new
        \<lparr>rvalue = push_bit (64 - 1) 1, rrange = push_bit BITS_IN_VALUE_MINUS_LAST_BYTE 255,
         upstream_reader = reader\<rparr>) (\<lambda>(d, dummy, r).
      if d then err_exit_code StreamInconsistent else Ok r)"

fun get_grid_loop ::
  "nat \<Rightarrow> nat \<Rightarrow> Branch list \<Rightarrow> u64 \<Rightarrow> u64 \<Rightarrow> (nat \<times> Branch list \<times> u64 \<times> u64) result"
where
  "get_grid_loop 0 decoded_so_far branches tmp_value tmp_range =
    Ok (decoded_so_far, branches, tmp_value, tmp_range)"
| "get_grid_loop (Suc n) decoded_so_far branches tmp_value tmp_range =
    bindR (idx branches decoded_so_far) (\<lambda>b.
    bindR (get b tmp_value tmp_range) (\<lambda>(cur_bit, b, tmp_value, tmp_range).
      get_grid_loop n (2 * decoded_so_far + of_bool cur_bit) (branches[decoded_so_far := b])
        tmp_value tmp_range))"

definition get_grid ::
  "Branch list \<Rightarrow> VPXBoolReader \<Rightarrow> (nat \<times> Branch list \<times> VPXBoolReader) result"
where
  "get_grid branches r =
    (let A = length branches;
         (tmp_value, up) = vpx_reader_fill (rvalue r) (upstream_reader r)
     in bindR (assertR (0 < A)) (\<lambda>_.
        bindR (get_grid_loop (bit_len A - 1) 1 branches tmp_value (rrange r))
          (\<lambda>(decoded_so_far, branches, tmp_value, tmp_range).
            Ok (decoded_so_far XOR A, branches,
                r\<lparr>rvalue := tmp_value, rrange := tmp_range, upstream_reader := up\<rparr>))))"

text \<open>\<open>get_unary_encoded\<close>, with \<open>n = A - value\<close> iterations to go.\<close>

fun get_unary_loop ::
  "nat \<Rightarrow> nat \<Rightarrow> Branch list \<Rightarrow> u64 \<Rightarrow> u64 \<Rightarrow> bytes
    \<Rightarrow> (nat \<times> Branch list \<times> u64 \<times> u64 \<times> bytes) result"
where
  "get_unary_loop i 0 branches tmp_value tmp_range up = Ok (i, branches, tmp_value, tmp_range, up)"
| "get_unary_loop i (Suc n) branches tmp_value tmp_range up =
    bindR (idx branches i) (\<lambda>b.
      let split = mul_prob tmp_range (ucast (get_probability b));
          (tmp_value, up) =
            (if i = 0 \<or> i = 7 then vpx_reader_fill tmp_value up else (tmp_value, up))
      in if split \<le> tmp_value then
           (let branches = branches[i := record_and_update_bit True b];
                tmp_range = tmp_range - split;
                tmp_value = tmp_value - split;
                shift = leading_zeros tmp_range;
                tmp_value = push_bit shift tmp_value;
                tmp_range = push_bit shift tmp_range
            in get_unary_loop (Suc i) n branches tmp_value tmp_range up)
         else
           (let branches = branches[i := record_and_update_bit False b];
                tmp_range = split;
                shift = leading_zeros tmp_range;
                tmp_value = push_bit shift tmp_value;
                tmp_range = push_bit shift tmp_range
            in Ok (i, branches, tmp_value, tmp_range, up)))"

definition get_unary_encoded ::
  "Branch list \<Rightarrow> VPXBoolReader \<Rightarrow> (nat \<times> Branch list \<times> VPXBoolReader) result"
where
  "get_unary_encoded branches r =
    bindR (get_unary_loop 0 (length branches) branches (rvalue r) (rrange r) (upstream_reader r))
      (\<lambda>(v, branches, tmp_value, tmp_range, up).
        Ok (v, branches, r\<lparr>rvalue := tmp_value, rrange := tmp_range, upstream_reader := up\<rparr>))"

fun get_n_bits_loop ::
  "nat \<Rightarrow> nat \<Rightarrow> Branch list \<Rightarrow> u64 \<Rightarrow> u64 \<Rightarrow> bytes
    \<Rightarrow> (nat \<times> Branch list \<times> u64 \<times> u64 \<times> bytes) result"
where
  "get_n_bits_loop 0 coef branches tmp_value tmp_range up =
    Ok (coef, branches, tmp_value, tmp_range, up)"
| "get_n_bits_loop (Suc i) coef branches tmp_value tmp_range up =
    (let (tmp_value, up) = fill_if_needed tmp_value up
     in bindR (idx branches i) (\<lambda>b.
        bindR (get b tmp_value tmp_range) (\<lambda>(d, b, tmp_value, tmp_range).
          get_n_bits_loop i (coef OR push_bit i (of_bool d)) (branches[i := b])
            tmp_value tmp_range up)))"

definition get_n_bits ::
  "nat \<Rightarrow> Branch list \<Rightarrow> VPXBoolReader \<Rightarrow> (nat \<times> Branch list \<times> VPXBoolReader) result"
where
  "get_n_bits n branches r =
    bindR (assertR (n \<le> length branches)) (\<lambda>_.
    bindR (get_n_bits_loop n 0 branches (rvalue r) (rrange r) (upstream_reader r))
      (\<lambda>(coef, branches, tmp_value, tmp_range, up).
        Ok (coef, branches, r\<lparr>rvalue := tmp_value, rrange := tmp_range, upstream_reader := up\<rparr>)))"

section \<open>Refinement of the interval coder\<close>

text \<open>
  The decoder of the code string \<open>c\<close> is in step with the interval \<open>i\<close>: \<open>k\<close> bytes have been read
  (zeros behind the end), the guard bit is bit \<open>g\<close>.
\<close>

definition in_step :: "bytes \<Rightarrow> nat \<Rightarrow> nat \<Rightarrow> u64 \<Rightarrow> u64 \<Rightarrow> bytes \<Rightarrow> interval \<Rightarrow> bool" where
  "in_step c k g v r up i \<longleftrightarrow>
    interval_ok i \<and> unat r = width i * 2 ^ 56 \<and> g \<le> 63 \<and>
    shifts i + 63 = 8 * k + g \<and> up = drop k c \<and>
    unat v + low i * 2 ^ 56 = prefix_val c (8 * k) * 2 ^ (g + 1) + 2 ^ g \<and>
    2 ^ (g + 1) dvd low i * 2 ^ 56"

lemma in_step_value:
  assumes "in_step c k g v r up i"
  obtains y where "unat v = (2 * y + 1) * 2 ^ g"
proof -
  obtain z where z: "low i * 2 ^ 56 = 2 ^ (g + 1) * z"
    using assms by (auto simp: in_step_def elim: dvdE)
  let ?x = "prefix_val c (8 * k)"
  have e: "unat v + 2 ^ (g + 1) * z = ?x * 2 ^ (g + 1) + 2 ^ g"
    using assms unfolding in_step_def z by blast
  have "2 ^ (g + 1) * z \<le> ?x * 2 ^ (g + 1) + 2 ^ g" using e by linarith
  also have "\<dots> < (?x + 1) * 2 ^ (g + 1)" by (simp add: add_mult_distrib)
  finally have "z * 2 ^ (g + 1) < (?x + 1) * 2 ^ (g + 1)" by (simp only: mult.commute)
  then have "z < ?x + 1" by (simp only: mult_less_cancel2)
  then obtain y where "?x = z + y" by (metis le_Suc_ex less_Suc_eq_le Suc_eq_plus1)
  with e have "unat v = (2 * y + 1) * 2 ^ g" by (simp add: algebra_simps)
  then show ?thesis by (rule that)
qed

lemma in_step_low_byte:
  assumes "in_step c k g v r up i"
  shows "v AND 0xFF = 0 \<longleftrightarrow> 8 \<le> g" and "v AND VALUE_MASK = 0 \<longleftrightarrow> 56 \<le> g"
proof -
  obtain y where y: "unat v = (2 * y + 1) * 2 ^ g" by (rule in_step_value [OF assms])
  have m: "v AND mask n = 0 \<longleftrightarrow> n \<le> g" if "n \<le> 63" for n
  proof -
    have "v AND mask n = 0 \<longleftrightarrow> unat v mod 2 ^ n = 0"
      by (simp add: unat_eq_0 [symmetric] unat_and_mask)
    also have "\<dots> \<longleftrightarrow> n \<le> g"
    proof
      assume "unat v mod 2 ^ n = 0"
      show "n \<le> g"
      proof (rule ccontr)
        assume "\<not> n \<le> g"
        then have "2 ^ Suc g dvd (2::nat) ^ n" by (intro le_imp_power_dvd) simp
        then have "2 ^ Suc g dvd unat v"
          using \<open>unat v mod 2 ^ n = 0\<close> by (metis dvd_trans mod_eq_0_iff_dvd)
        then have "2 ^ g * 2 dvd 2 ^ g * (2 * y + 1)" unfolding y by (simp only: power_Suc2 mult.commute)
        then have "2 dvd 2 * y + 1" by (subst (asm) dvd_times_left_cancel_iff) simp_all
        then show False by simp
      qed
    next
      assume "n \<le> g"
      then have "2 ^ n dvd (2::nat) ^ g" by (simp add: le_imp_power_dvd)
      then show "unat v mod 2 ^ n = 0" by (simp add: y)
    qed
    finally show ?thesis .
  qed
  have "(0xFF :: u64) = mask 8" "VALUE_MASK = mask 56"
    by (simp_all add: VALUE_MASK_def BITS_IN_VALUE_MINUS_LAST_BYTE_def mask_eq_exp_minus_1)
  then show "v AND 0xFF = 0 \<longleftrightarrow> 8 \<le> g" "v AND VALUE_MASK = 0 \<longleftrightarrow> 56 \<le> g"
    using m [of 8] m [of 56] by simp_all
qed

text \<open>Filling: the bytes go between the guard bit and the bits that are there.\<close>

lemma fill_byte_word:
  fixes v :: u64
  assumes v: "unat v = y * 2 ^ (n + 8) + 2 ^ g" "g < n" "n \<le> 56"
  shows "unat (v OR push_bit n (ucast (b :: u8))) = (y * 256 + unat b) * 2 ^ n + 2 ^ g"
proof -
  have b: "unat b < 256" using unat_lt2p [of b] by simp
  have bb: "unat (ucast b :: u64) = unat b" using b by (simp add: unat_ucast)
  have small: "unat b * 2 ^ n + 2 ^ g < 2 ^ (n + 8)"
  proof -
    have "(2::nat) ^ g < 2 ^ n" using v(2) by simp
    moreover have "(unat b + 1) * 2 ^ n \<le> 256 * 2 ^ n" using b by (intro mult_le_mono1) simp
    moreover have "(2::nat) ^ (n + 8) = 256 * 2 ^ n" by (simp add: power_add)
    ultimately show ?thesis unfolding add_mult_distrib by linarith
  qed
  have "unat b * 2 ^ n < 2 ^ 64"
  proof -
    have "unat b * (2::nat) ^ n \<le> 255 * 2 ^ 56"
      using b v(3) by (intro mult_mono power_increasing) simp_all
    then show ?thesis by simp
  qed
  then have p: "unat (push_bit n (ucast b :: u64)) = unat b * 2 ^ n"
    by (subst unat_push_bit_small) (simp_all add: bb)
  have g: "(2::nat) ^ g < 2 ^ n" using v(2) by simp
  have "unat (v OR push_bit n (ucast b)) = (y * 2 ^ (n + 8) + 2 ^ g) OR (unat b * 2 ^ n)"
    by (simp only: unat_or v(1) p)
  also have "y * 2 ^ (n + 8) + 2 ^ g = (y * 2 ^ (n + 8)) OR 2 ^ g"
    using small by (intro nat_or_disjoint [symmetric]) linarith
  also have "\<dots> OR (unat b * 2 ^ n) = (y * 2 ^ (n + 8)) OR ((unat b * 2 ^ n) OR 2 ^ g)"
    by (simp only: or.assoc or.commute [of "2 ^ g"])
  also have "(unat b * 2 ^ n) OR 2 ^ g = unat b * 2 ^ n + 2 ^ g" by (rule nat_or_disjoint [OF g])
  also have "(y * 2 ^ (n + 8)) OR (unat b * 2 ^ n + 2 ^ g) = y * 2 ^ (n + 8) + (unat b * 2 ^ n + 2 ^ g)"
    by (rule nat_or_disjoint [OF small])
  finally show ?thesis by (simp add: power_add algebra_simps)
qed

text \<open>\<open>j\<close> bytes to read, down to a guard bit below bit 8.\<close>

lemma fill_loop_bytes:
  assumes "unat v + z * 2 ^ (8 * j + g + 1) = prefix_val c (8 * k) * 2 ^ (8 * j + g + 1) + 2 ^ g"
    and "g \<le> 7" "8 * j + g \<le> 63"
  shows "\<exists>v'. fill_loop (8 * j + g - 7) v (drop k c) = (v', drop (k + j) c) \<and>
    unat v' + z * 2 ^ (8 * j + g + 1) = prefix_val c (8 * (k + j)) * 2 ^ (g + 1) + 2 ^ g"
  using assms
proof (induction j arbitrary: v z k)
  case 0
  have "fill_loop (8 * 0 + g - 7) v (drop k c) = (v, drop k c)"
    using 0 by (cases "drop k c") simp_all
  then show ?case using 0 by simp
next
  case (Suc j)
  let ?n = "8 * j + g + 1"
  have sh: "8 * Suc j + g - 7 = ?n" "8 * Suc j + g + 1 = ?n + 8" "?n - 8 = 8 * j + g - 7" by simp_all
  show ?case
  proof (cases "k < length c")
    case False
    then have "prefix_val c (8 * (k + Suc j)) = prefix_val c (8 * k) * 2 ^ (8 * Suc j)"
      using prefix_val_eof [of c k "8 * Suc j"] by (simp add: algebra_simps)
    then show ?thesis
      using Suc.prems(1) False by (simp add: power_add algebra_simps)
  next
    case True
    have d: "drop k c = c ! k # drop (Suc k) c" using True by (simp add: Cons_nth_drop_Suc)
    have e: "unat v + z * 2 ^ (?n + 8) = prefix_val c (8 * k) * 2 ^ (?n + 8) + 2 ^ g"
      using Suc.prems(1) by (simp only: sh)
    have "z * 2 ^ (?n + 8) < (prefix_val c (8 * k) + 1) * 2 ^ (?n + 8)"
    proof -
      have "(2::nat) ^ g < 2 ^ (?n + 8)" by simp
      then show ?thesis using e unfolding add_mult_distrib by linarith
    qed
    then have "z < prefix_val c (8 * k) + 1" by (simp only: mult_less_cancel2)
    then obtain y where y: "prefix_val c (8 * k) = z + y" by (metis le_Suc_ex less_Suc_eq_le Suc_eq_plus1)
    define v1 where "v1 = v OR push_bit ?n (ucast (c ! k))"
    have "unat v = y * 2 ^ (?n + 8) + 2 ^ g" using e by (simp add: y add_mult_distrib)
    then have v1: "unat v1 = (y * 256 + unat (c ! k)) * 2 ^ ?n + 2 ^ g"
      unfolding v1_def using Suc.prems by (intro fill_byte_word) simp_all
    have pv: "prefix_val c (8 * Suc k) = (z + y) * 256 + unat (c ! k)"
      using prefix_val_byte [OF True] y by (simp add: add.commute)
    have "unat v1 + z * 256 * 2 ^ ?n = prefix_val c (8 * Suc k) * 2 ^ ?n + 2 ^ g"
      unfolding v1 pv by (simp add: algebra_simps)
    from Suc.IH [OF this Suc.prems(2)] Suc.prems(3) obtain v' where
      v': "fill_loop (8 * j + g - 7) v1 (drop (Suc k) c) = (v', drop (Suc k + j) c)"
        "unat v' + z * 256 * 2 ^ ?n = prefix_val c (8 * (Suc k + j)) * 2 ^ (g + 1) + 2 ^ g"
      by auto
    have "fill_loop (8 * Suc j + g - 7) v (drop k c) = (v', drop (k + Suc j) c)"
      using v'(1) unfolding d sh(1) by (simp only: fill_loop.simps sh(3) flip: v1_def) simp
    moreover have "z * 2 ^ (8 * Suc j + g + 1) = z * 256 * 2 ^ ?n"
      unfolding sh(2) by (simp add: power_add)
    moreover have "Suc k + j = k + Suc j" by simp
    ultimately show ?thesis using v'(2) by (intro exI [of _ v'] conjI) (simp_all only:)
  qed
qed

lemma fill_in_step:
  assumes st: "in_step c k g v r up i"
  shows "\<exists>v' up' k'. vpx_reader_fill v up = (v', up') \<and> in_step c k' (g mod 8) v' r up' i"
proof (cases "8 \<le> g")
  case False
  then show ?thesis using st in_step_low_byte(1) [OF st] by (auto simp: vpx_reader_fill_def)
next
  case True
  obtain y where y: "unat v = (2 * y + 1) * 2 ^ g" by (rule in_step_value [OF st])
  have v0: "v \<noteq> 0" using y by auto
  have tz: "trailing_zeros v = g"
    using v0 y tz_odd_mult [of "2 * y + 1" g] by (simp add: trailing_zeros_def)
  define j where "j = g div 8"
  define h where "h = g mod 8"
  have g: "g = 8 * j + h" "h \<le> 7" "g \<le> 63" using st by (auto simp: j_def h_def in_step_def)
  define v1 where "v1 = (v AND (v - 1)) OR push_bit (g mod 8) 1"
  have "unat (v - 1) = unat v - 1" using v0 by (simp add: unat_minus_one)
  then have "unat (v AND (v - 1)) = y * 2 ^ (g + 1)"
    using and_minus_1_nat [of "2 * y + 1" g] y by (simp add: unsigned_and_eq)
  moreover have "unat (push_bit (g mod 8) 1 :: u64) = 2 ^ h"
    unfolding h_def by (rule unat_pow2) (simp add: less_trans [OF mod_less_divisor])
  moreover have "(2::nat) ^ h < 2 ^ (g + 1)" using g by (intro power_strict_increasing) simp_all
  ultimately have v1: "unat v1 = y * 2 ^ (g + 1) + 2 ^ h"
    unfolding v1_def by (metis unat_or_disjoint)
  obtain z where z: "low i * 2 ^ 56 = z * 2 ^ (g + 1)"
    using st by (auto simp: in_step_def elim!: dvdE simp: mult.commute)
  have "unat v + z * 2 ^ (g + 1) = prefix_val c (8 * k) * 2 ^ (g + 1) + 2 ^ g"
    using st unfolding in_step_def z by blast
  then have "unat v1 + z * 2 ^ (8 * j + h + 1) = prefix_val c (8 * k) * 2 ^ (8 * j + h + 1) + 2 ^ h"
    using g(1) by (simp add: v1 y algebra_simps)
  from fill_loop_bytes [OF this g(2)] g obtain v' where
    v': "fill_loop (g - 7) v1 (drop k c) = (v', drop (k + j) c)"
      "unat v' + z * 2 ^ (g + 1) = prefix_val c (8 * (k + j)) * 2 ^ (h + 1) + 2 ^ h"
    by auto
  have "vpx_reader_fill v up = (v', drop (k + j) c)"
    using st True v'(1) in_step_low_byte(1) [OF st] tz
    by (simp add: vpx_reader_fill_def Let_def in_step_def v1_def)
  moreover have "2 ^ (h + 1) dvd low i * 2 ^ 56"
  proof (rule dvd_trans)
    show "2 ^ (g + 1) dvd low i * 2 ^ 56" using st by (simp only: in_step_def)
    show "2 ^ (h + 1) dvd (2::nat) ^ (g + 1)" using g(1) by (intro le_imp_power_dvd) simp
  qed
  then have "in_step c (k + j) (g mod 8) v' r (drop (k + j) c) i"
    using st v'(2) z g by (simp add: in_step_def flip: h_def)
  ultimately show ?thesis by blast
qed

text \<open>One decision: the comparison with the split point finds what the encoder put.\<close>

lemma diff_64_8: "64 - 8 = (56 :: nat)"
  by simp

lemma mul_prob_split:
  assumes r: "unat r = w * 2 ^ 56" "2 \<le> w" "w \<le> 255" and p: "1 \<le> unat p" "unat p \<le> 255"
  shows "unat (mul_prob r (ucast (p :: u8))) = split_point w (unat p) * 2 ^ 56"
proof -
  let ?q = "(w - 1) * unat p"
  have one: "unat (push_bit 56 1 :: u64) = 2 ^ 56" by (rule unat_pow2) simp
  have le: "(push_bit 56 1 :: u64) \<le> r" using r one by (simp only: word_le_nat_alt) simp
  have "unat (r - push_bit 56 1) = (w - 1) * 2 ^ 56"
    unfolding unat_sub [OF le] one r(1) by (simp add: diff_mult_distrib)
  then have d: "unat (drop_bit 8 (r - push_bit 56 1)) = (w - 1) * 2 ^ 48"
    by (simp add: unat_drop_bit)
  have pp: "unat (ucast p :: u64) = unat p" using unat_lt2p [of p] by (simp add: unat_ucast)
  have q: "?q \<le> 255 * 255" using r p by (intro mult_mono) simp_all
  have "unat (drop_bit 8 (r - push_bit 56 1) * ucast p) = ?q * 2 ^ 48"
  proof -
    have "unat (drop_bit 8 (r - push_bit 56 1) * ucast p) = ((w - 1) * 2 ^ 48 * unat p) mod 2 ^ 64"
      unfolding unat_word_ariths(2) d pp by simp
    also have "(w - 1) * 2 ^ 48 * unat p = ?q * 2 ^ 48" by (simp add: mult_ac)
    also have "?q * 2 ^ 48 mod 2 ^ 64 = ?q * 2 ^ 48" using q by (intro mod_less) (simp add: mult.commute)
    finally show ?thesis .
  qed
  moreover have "(push_bit 56 0xFF :: u64) = push_bit 56 (- 1)"
    by (simp add: mask_eq_exp_minus_1 not_eq_complement)
  ultimately have a: "unat (drop_bit 8 (r - push_bit 56 1) * ucast p AND push_bit 56 0xFF)
      = ?q div 256 * 2 ^ 56"
    using unat_and_top [of "drop_bit 8 (r - push_bit 56 1) * ucast p" 56]
    by (simp add: mult.commute [of "unat p"])
  have "?q div 256 \<le> 255 * 255 div 256" using q by (rule div_le_mono)
  then have "?q div 256 * 2 ^ 56 + 2 ^ 56 < 2 ^ 64" by simp
  then show ?thesis
    unfolding mul_prob_def BITS_IN_VALUE_MINUS_LAST_BYTE_def diff_64_8 unat_word_ariths(1) a one
    by (simp add: split_point_def)
qed

lemma in_step_compare:
  assumes st: "in_step c k g v r up i" and g: "g \<le> 55"
  shows "a * 2 ^ 56 \<le> unat v + low i * 2 ^ 56 \<longleftrightarrow> a \<le> prefix_val c (shifts i + 8)"
proof -
  let ?x = "prefix_val c (shifts i + 8)"
  have k: "8 * k = shifts i + 8 + (55 - g)" using st g by (auto simp: in_step_def)
  define e where "e = prefix_val c (8 * k) mod 2 ^ (55 - g)"
  have x: "prefix_val c (8 * k) = ?x * 2 ^ (55 - g) + e"
    using prefix_val_div [of c "shifts i + 8" "55 - g"] div_mult_mod_eq [of "prefix_val c (8 * k)" "2 ^ (55 - g)"]
    by (simp add: e_def k)
  have p: "(2::nat) ^ (55 - g) * 2 ^ (g + 1) = 2 ^ 56" using g by (simp flip: power_add)
  have e: "e * 2 ^ (g + 1) + 2 ^ g < 2 ^ 56"
  proof -
    have "e + 1 \<le> 2 ^ (55 - g)" by (simp add: e_def Suc_le_eq)
    then have "(e + 1) * 2 ^ (g + 1) \<le> 2 ^ 56" unfolding p [symmetric] by (rule mult_le_mono1)
    moreover have "(2::nat) ^ g < 2 ^ (g + 1)" by simp
    ultimately show ?thesis unfolding add_mult_distrib by linarith
  qed
  have "unat v + low i * 2 ^ 56 = prefix_val c (8 * k) * 2 ^ (g + 1) + 2 ^ g"
    using st by (simp only: in_step_def)
  also have "prefix_val c (8 * k) * 2 ^ (g + 1) = ?x * 2 ^ 56 + e * 2 ^ (g + 1)"
    unfolding x add_mult_distrib mult.assoc p ..
  finally have "unat v + low i * 2 ^ 56 = ?x * 2 ^ 56 + (e * 2 ^ (g + 1) + 2 ^ g)" by simp
  then have "(unat v + low i * 2 ^ 56) div 2 ^ 56 = ?x" using e by simp
  then show ?thesis by (metis less_eq_div_iff_mult_less_eq zero_less_numeral zero_less_power)
qed

lemma narrow_in_step:
  assumes st: "in_step c k g v r up i" and g: "g \<le> 55" and p: "1 \<le> p" "p \<le> 255"
    and ins: "inside (narrow d p i) c"
    and v': "unat v' + kept_low d p i * 2 ^ 56 = unat v + low i * 2 ^ 56"
    and r': "unat r' = kept_width d p i * 2 ^ 56"
  shows "in_step c k (g + normalize_shift (kept_width d p i))
    (push_bit (leading_zeros r') v') (push_bit (leading_zeros r') r') up (narrow d p i)"
    and "normalize_shift (kept_width d p i) \<le> 7"
proof -
  have ok: "interval_ok i" using st by (simp only: in_step_def)
  note kw = kept_width [OF ok p, of d]
  define n where "n = normalize_shift (kept_width d p i)"
  note ns = normalize_shift [OF kw(1,2), folded n_def]
  have n: "leading_zeros r' = n"
    unfolding leading_zeros_def r' using kw(1) bit_len_mult_pow2 [of "kept_width d p i" 56]
    by (simp add: n_def normalize_shift_def)
  have x: "prefix_val c (shifts i + 8) < kept_low d p i + kept_width d p i"
    using ins inside_narrow(2) [OF ok p ins] inside_narrow(1) [OF ok p ins]
    by (auto simp: kept_low_def kept_width_def inside_def split: if_splits)
  then have "unat v' + kept_low d p i * 2 ^ 56 < (kept_low d p i + kept_width d p i) * 2 ^ 56"
    using in_step_compare [OF st g, of "kept_low d p i + kept_width d p i"] v' by simp
  then have "unat v' < kept_width d p i * 2 ^ 56" by (simp add: add_mult_distrib)
  then have le: "unat v' * 2 ^ n \<le> kept_width d p i * 2 ^ 56 * 2 ^ n"
    by (rule mult_le_mono1 [OF less_imp_le])
  have kn: "kept_width d p i * 2 ^ 56 * 2 ^ n < 2 ^ 64"
  proof -
    have "kept_width d p i * 2 ^ n * 2 ^ 56 \<le> 255 * 2 ^ 56" using ns(2) by (rule mult_le_mono1)
    then show ?thesis by (simp add: mult_ac)
  qed
  have v2: "unat (push_bit n v') = unat v' * 2 ^ n"
    using le_less_trans [OF le kn] by (intro unat_push_bit_small) simp
  have r2: "unat (push_bit n r') = kept_width d p i * 2 ^ 56 * 2 ^ n"
    using kn by (subst unat_push_bit_small) (simp_all add: r')
  show "normalize_shift (kept_width d p i) \<le> 7" using ns(3) by (simp add: n_def)
  have "unat v + low i * 2 ^ 56 = prefix_val c (8 * k) * 2 ^ (g + 1) + 2 ^ g"
    using st by (simp only: in_step_def)
  then have "(unat v' + kept_low d p i * 2 ^ 56) * 2 ^ n
      = (prefix_val c (8 * k) * 2 ^ (g + 1) + 2 ^ g) * 2 ^ n"
    by (simp only: v')
  then have "unat v' * 2 ^ n + kept_low d p i * 2 ^ n * 2 ^ 56
      = prefix_val c (8 * k) * 2 ^ (g + n + 1) + 2 ^ (g + n)"
    by (simp add: power_add algebra_simps)
  moreover have "2 ^ (g + n + 1) dvd kept_low d p i * 2 ^ n * 2 ^ 56"
  proof -
    have "(2::nat) ^ (g + 1) dvd 2 ^ 56" using g by (intro le_imp_power_dvd) simp
    then have "(2::nat) ^ (g + 1) * 2 ^ n dvd 2 ^ 56 * 2 ^ n" by (rule mult_dvd_mono) simp
    then have "2 ^ (g + n + 1) dvd (2::nat) ^ n * 2 ^ 56" by (simp add: power_add mult_ac)
    then show ?thesis by (simp add: dvd_mult mult.assoc)
  qed
  ultimately show "in_step c k (g + normalize_shift (kept_width d p i))
      (push_bit (leading_zeros r') v') (push_bit (leading_zeros r') r') up (narrow d p i)"
    using st narrow_ok [OF ok p, of d] ns(3) g
    unfolding in_step_def n n_def [symmetric] v2 r2
    by (simp add: narrow_def Let_def mult_ac flip: n_def)
qed

lemma get_in_step:
  assumes st: "in_step c k g v r up i" and g: "g \<le> 55" and b: "branch_ok b"
    and ins: "inside (narrow d (unat (get_probability b)) i) c"
  shows "\<exists>v' r' g'. get b v r = Ok (d, record_and_update_bit d b, v', r')
    \<and> in_step c k g' v' r' up (narrow d (unat (get_probability b)) i) \<and> g' \<le> g + 7"
    and "mul_prob r (ucast (get_probability b)) \<le> v \<longleftrightarrow> d"
    and "d \<Longrightarrow> r' = r - mul_prob r (ucast (get_probability b)) \<Longrightarrow>
      v' = v - mul_prob r (ucast (get_probability b)) \<Longrightarrow>
      \<exists>g'. in_step c k g' (push_bit (leading_zeros r') v') (push_bit (leading_zeros r') r') up
        (narrow d (unat (get_probability b)) i) \<and> g' \<le> g + 7"
    and "\<not> d \<Longrightarrow> r' = mul_prob r (ucast (get_probability b)) \<Longrightarrow>
      \<exists>g'. in_step c k g' (push_bit (leading_zeros r') v) (push_bit (leading_zeros r') r') up
        (narrow d (unat (get_probability b)) i) \<and> g' \<le> g + 7"
proof -
  let ?p = "unat (get_probability b)"
  note p = get_probability_bounds [OF b]
  have ok: "interval_ok i" and r: "unat r = width i * 2 ^ 56" using st by (simp_all only: in_step_def)
  have R: "2 \<le> width i" "width i \<le> 255" using ok by (simp_all add: interval_ok_def)
  define sp where "sp = mul_prob r (ucast (get_probability b))"
  have sp: "unat sp = split_point (width i) ?p * 2 ^ 56"
    unfolding sp_def by (rule mul_prob_split [OF r R p])
  have "width i \<le> 256" using R by simp
  note spb = split_point_bounds [OF p R(1) this]
  have "split_point (width i) ?p * 2 ^ 56 < width i * 2 ^ 56" using spb(2) by (rule mult_strict_right_mono) simp
  then have less: "unat sp < unat r" by (simp only: sp r)
  then have rs: "unat (r - sp) = (width i - split_point (width i) ?p) * 2 ^ 56"
    by (simp add: unat_sub word_le_nat_alt sp r diff_mult_distrib)
  have cmp: "sp \<le> v \<longleftrightarrow> d"
  proof -
    have "sp \<le> v \<longleftrightarrow> (low i + split_point (width i) ?p) * 2 ^ 56 \<le> unat v + low i * 2 ^ 56"
      by (simp add: word_le_nat_alt sp add_mult_distrib)
    also have "\<dots> \<longleftrightarrow> low i + split_point (width i) ?p \<le> prefix_val c (shifts i + 8)"
      by (rule in_step_compare [OF st g])
    also have "\<dots> \<longleftrightarrow> d" by (rule inside_narrow(2) [OF ok p ins, symmetric])
    finally show ?thesis .
  qed
  then show "mul_prob r (ucast (get_probability b)) \<le> v \<longleftrightarrow> d" by (simp only: sp_def)
  have step1: "\<exists>g'. in_step c k g' (push_bit (leading_zeros (r - sp)) (v - sp))
      (push_bit (leading_zeros (r - sp)) (r - sp)) up (narrow d ?p i) \<and> g' \<le> g + 7" if d
  proof -
    have "unat (v - sp) + kept_low d ?p i * 2 ^ 56 = unat v + low i * 2 ^ 56"
      using that cmp by (simp add: unat_sub word_le_nat_alt kept_low_def sp add_mult_distrib)
    moreover have "unat (r - sp) = kept_width d ?p i * 2 ^ 56" using that rs by (simp add: kept_width_def)
    ultimately show ?thesis using narrow_in_step [OF st g p ins] by (meson add_left_mono)
  qed
  have step0: "\<exists>g'. in_step c k g' (push_bit (leading_zeros sp) v)
      (push_bit (leading_zeros sp) sp) up (narrow d ?p i) \<and> g' \<le> g + 7" if "\<not> d"
  proof -
    have "unat v + kept_low d ?p i * 2 ^ 56 = unat v + low i * 2 ^ 56"
      using that by (simp add: kept_low_def)
    moreover have "unat sp = kept_width d ?p i * 2 ^ 56" using that sp by (simp add: kept_width_def)
    ultimately show ?thesis using narrow_in_step [OF st g p ins] by (meson add_left_mono)
  qed
  show "d \<Longrightarrow> r' = r - mul_prob r (ucast (get_probability b)) \<Longrightarrow>
      v' = v - mul_prob r (ucast (get_probability b)) \<Longrightarrow>
      \<exists>g'. in_step c k g' (push_bit (leading_zeros r') v') (push_bit (leading_zeros r') r') up
        (narrow d ?p i) \<and> g' \<le> g + 7"
    using step1 by (simp only: sp_def)
  show "\<not> d \<Longrightarrow> r' = mul_prob r (ucast (get_probability b)) \<Longrightarrow>
      \<exists>g'. in_step c k g' (push_bit (leading_zeros r') v) (push_bit (leading_zeros r') r') up
        (narrow d ?p i) \<and> g' \<le> g + 7"
    using step0 by (simp add: sp_def)
  have pos: "0 < r - sp" using rs spb(2) by (simp add: word_less_nat_alt)
  show "\<exists>v' r' g'. get b v r = Ok (d, record_and_update_bit d b, v', r')
    \<and> in_step c k g' v' r' up (narrow d ?p i) \<and> g' \<le> g + 7"
    using step1 step0 pos cmp
    unfolding get_def Let_def sp_def [symmetric]
    by (cases d) auto
qed

section \<open>What the operations of the decoder absorb\<close>

definition reader_rep :: "bytes \<Rightarrow> VPXBoolReader \<Rightarrow> interval \<Rightarrow> bool" where
  "reader_rep c r i \<longleftrightarrow> (\<exists>k g. in_step c k g (rvalue r) (rrange r) (upstream_reader r) i)"

text \<open>An operation absorbs the decisions \<open>ds\<close> and returns \<open>x\<close> and \<open>y\<close>: on every code string inside
  the interval that the decisions leave, without a failure.\<close>

definition absorbs ::
  "(VPXBoolReader \<Rightarrow> ('a \<times> 'b \<times> VPXBoolReader) result) \<Rightarrow> decision list \<Rightarrow> 'a \<Rightarrow> 'b \<Rightarrow> bool"
where
  "absorbs R ds x y \<longleftrightarrow> (\<forall>r i c. reader_rep c r i \<longrightarrow> interval_ok i \<longrightarrow> inside (narrows ds i) c \<longrightarrow>
    (\<exists>r'. R r = Ok (x, y, r') \<and> reader_rep c r' (narrows ds i)))"

lemma absorbs_Ok: "absorbs (\<lambda>r. Ok (x, y, r)) [] x y"
  by (simp add: absorbs_def)

lemma absorbs_bind:
  assumes "absorbs R1 ds x y" "absorbs (R2 x y) es x' y'" "probs_ok ds" "probs_ok es"
  shows "absorbs (\<lambda>r. bindR (R1 r) (\<lambda>(x, y, r). R2 x y r)) (ds @ es) x' y'"
  unfolding absorbs_def
proof (intro allI impI)
  fix r i c
  assume r: "reader_rep c r i" "interval_ok i" and ins: "inside (narrows (ds @ es) i) c"
  have ok: "interval_ok (narrows ds i)" using assms(3) r(2) by (simp add: narrows_ok)
  have "inside (narrows ds i) c" using ins inside_narrows [OF ok assms(4)] by simp
  then obtain r' where "R1 r = Ok (x, y, r')" "reader_rep c r' (narrows ds i)"
    using assms(1) r unfolding absorbs_def by blast
  then show "\<exists>r''. bindR (R1 r) (\<lambda>(x, y, r). R2 x y r) = Ok (x', y', r'')
      \<and> reader_rep c r'' (narrows (ds @ es) i)"
    using assms(2) ok ins unfolding absorbs_def by simp
qed

lemma fill_if_needed_in_step:
  assumes st: "in_step c k g v r up i"
  shows "\<exists>v' up' k' g'. fill_if_needed v up = (v', up') \<and> in_step c k' g' v' r up' i \<and> g' \<le> 55"
proof (cases "56 \<le> g")
  case True
  then show ?thesis
    using fill_in_step [OF st] in_step_low_byte(2) [OF st] mod_less_divisor [of 8 g]
    unfolding fill_if_needed_def by fastforce
next
  case False
  then show ?thesis using st in_step_low_byte(2) [OF st] by (fastforce simp: fill_if_needed_def)
qed

lemma absorbs_get_bit:
  assumes b: "branch_ok b"
  shows "absorbs (get_bit b) [(d, unat (get_probability b))] d (record_and_update_bit d b)"
  unfolding absorbs_def
proof (intro allI impI)
  fix r i c
  assume rep: "reader_rep c r i" and ins: "inside (narrows [(d, unat (get_probability b))] i) c"
  obtain k g where "in_step c k g (rvalue r) (rrange r) (upstream_reader r) i"
    using rep by (auto simp: reader_rep_def)
  then obtain v up k' g' where f: "fill_if_needed (rvalue r) (upstream_reader r) = (v, up)"
    "in_step c k' g' v (rrange r) up i" "g' \<le> 55"
    using fill_if_needed_in_step by blast
  from get_in_step(1) [OF f(2,3) b, of d] ins obtain v' r' g'' where
    "get b v (rrange r) = Ok (d, record_and_update_bit d b, v', r')"
    "in_step c k' g'' v' r' up (narrow d (unat (get_probability b)) i)"
    by auto
  then show "\<exists>r'. get_bit b r = Ok (d, record_and_update_bit d b, r')
      \<and> reader_rep c r' (narrows [(d, unat (get_probability b))] i)"
    using f(1) by (auto simp: get_bit_def reader_rep_def)
qed

lemma mod_pow2_step:
  "(2 * q + of_bool (odd (a div 2 ^ n))) * 2 ^ n + a mod 2 ^ n = q * 2 ^ Suc n + a mod 2 ^ Suc n"
  for q a :: nat
proof -
  have "a mod 2 ^ Suc n = a mod (2 ^ n * 2)" by (simp only: power_Suc2)
  also have "\<dots> = 2 ^ n * (a div 2 ^ n mod 2) + a mod 2 ^ n" by (rule mod_mult2_eq)
  also have "a div 2 ^ n mod 2 = of_bool (odd (a div 2 ^ n))" by (simp add: mod_2_eq_odd)
  finally show ?thesis by (simp add: algebra_simps)
qed

text \<open>The grid: one filling is enough for seven decisions.\<close>

lemma get_grid_loop_step:
  assumes st: "in_step c k g v r up i" and g: "g + 7 * n \<le> 62"
    and ok: "path_ok (grid_path a n so_far) bs" "branches_ok bs"
    and run: "run_path (grid_path a n so_far) bs = (ds, bs')"
    and ins: "inside (narrows ds i) c"
  shows "\<exists>v' r' g'. get_grid_loop n so_far bs v r = Ok (so_far * 2 ^ n + a mod 2 ^ n, bs', v', r')
    \<and> in_step c k g' v' r' up (narrows ds i)"
  using assms
proof (induction n arbitrary: so_far bs ds i v r g)
  case 0
  then show ?case by auto
next
  case (Suc n)
  let ?d = "odd (a div 2 ^ n)"
  let ?b = "bs ! so_far"
  let ?bs = "bs[so_far := record_and_update_bit ?d ?b]"
  have iok: "interval_ok i" using Suc.prems(1) by (simp only: in_step_def)
  from Suc.prems(3-6) obtain es where es:
    "run_path (grid_path a n (2 * so_far + of_bool ?d)) ?bs = (es, bs')"
    "ds = (?d, unat (get_probability ?b)) # es" and j: "so_far < length bs" and b: "branch_ok ?b"
    and pes: "path_ok (grid_path a n (2 * so_far + of_bool ?d)) ?bs" "branches_ok ?bs"
    and ins1: "inside (narrow ?d (unat (get_probability ?b)) i) c"
    and ins2: "inside (narrows es (narrow ?d (unat (get_probability ?b)) i)) c"
    unfolding grid_path.simps by (elim run_path_first [OF _ _ _ iok])
  obtain v1 r1 g1 where g1: "get ?b v r = Ok (?d, record_and_update_bit ?d ?b, v1, r1)"
    "in_step c k g1 v1 r1 up (narrow ?d (unat (get_probability ?b)) i)" "g1 \<le> g + 7"
    using get_in_step(1) [OF Suc.prems(1) _ b ins1] Suc.prems(2) by auto
  note val = mod_pow2_step [of so_far a n]
  have "g1 + 7 * n \<le> 62" using g1(3) Suc.prems(2) by simp
  from Suc.IH [OF g1(2) this pes es(1) ins2] show ?case
    using g1(1) j es(2) val by (auto simp: idx_in_range)
qed

lemma absorbs_get_grid:
  assumes len: "length bs = 2 ^ n" "1 \<le> n" "n \<le> 7" and a: "a < 2 ^ n" and ok: "branches_ok bs"
    and run: "run_path (grid_path a n 1) bs = (ds, bs')"
  shows "absorbs (get_grid bs) ds a bs'"
  unfolding absorbs_def
proof (intro allI impI)
  fix r i c
  assume rep: "reader_rep c r i" and ins: "inside (narrows ds i) c"
  obtain k g where "in_step c k g (rvalue r) (rrange r) (upstream_reader r) i"
    using rep by (auto simp: reader_rep_def)
  then obtain v up k' where f: "vpx_reader_fill (rvalue r) (upstream_reader r) = (v, up)"
    "in_step c k' (g mod 8) v (rrange r) up i"
    using fill_in_step by blast
  have p: "path_ok (grid_path a n 1) bs" by (rule grid_path_ok [of _ 1]) (simp_all add: len(1))
  have "g mod 8 \<le> 7" using mod_less_divisor [of 8 g] by simp
  then have "g mod 8 + 7 * n \<le> 62" using len by simp
  from get_grid_loop_step [OF f(2) this p ok run ins] obtain v' r' g' where
    l: "get_grid_loop n 1 bs v (rrange r) = Ok (2 ^ n + a, bs', v', r')"
    "in_step c k' g' v' r' up (narrows ds i)"
    using a by auto
  have len2: "bit_len (2 ^ n) - 1 = n" using bit_len_unique [of n "2 ^ n"] by simp
  have "(2 ^ n + a) XOR 2 ^ n = a" by (rule nat_xor_top [OF a])
  then show "\<exists>r'. get_grid bs r = Ok (a, bs', r') \<and> reader_rep c r' (narrows ds i)"
    using l f(1) len unfolding get_grid_def Let_def len(1) len2
    by (auto simp: reader_rep_def)
qed

text \<open>Bit by bit numbers: filled when needed.\<close>

lemma get_n_bits_loop_step:
  assumes st: "in_step c k g v r up i"
    and ok: "path_ok (n_bits_path a n) bs" "branches_ok bs"
    and run: "run_path (n_bits_path a n) bs = (ds, bs')"
    and ins: "inside (narrows ds i) c"
  shows "\<exists>v' r' up' k' g'. get_n_bits_loop n (q * 2 ^ n) bs v r up
      = Ok (q * 2 ^ n + a mod 2 ^ n, bs', v', r', up')
    \<and> in_step c k' g' v' r' up' (narrows ds i)"
  using assms
proof (induction n arbitrary: q bs ds i v r up k g)
  case 0
  then show ?case by auto
next
  case (Suc n)
  let ?d = "odd (a div 2 ^ n)"
  let ?b = "bs ! n"
  let ?bs = "bs[n := record_and_update_bit ?d ?b]"
  obtain v0 up0 k0 g0 where f: "fill_if_needed v up = (v0, up0)" "in_step c k0 g0 v0 r up0 i" "g0 \<le> 55"
    using fill_if_needed_in_step [OF Suc.prems(1)] by blast
  have iok: "interval_ok i" using Suc.prems(1) by (simp only: in_step_def)
  from Suc.prems(2-5) obtain es where es:
    "run_path (n_bits_path a n) ?bs = (es, bs')" "ds = (?d, unat (get_probability ?b)) # es"
    and j: "n < length bs" and b: "branch_ok ?b"
    and pes: "path_ok (n_bits_path a n) ?bs" "branches_ok ?bs"
    and ins1: "inside (narrow ?d (unat (get_probability ?b)) i) c"
    and ins2: "inside (narrows es (narrow ?d (unat (get_probability ?b)) i)) c"
    unfolding n_bits_path.simps by (elim run_path_first [OF _ _ _ iok])
  obtain v1 r1 g1 where g1: "get ?b v0 r = Ok (?d, record_and_update_bit ?d ?b, v1, r1)"
    "in_step c k0 g1 v1 r1 up0 (narrow ?d (unat (get_probability ?b)) i)"
    using get_in_step(1) [OF f(2,3) b ins1] by auto
  have q: "q * 2 ^ Suc n OR push_bit n (of_bool ?d) = (2 * q + of_bool ?d) * 2 ^ n"
    using nat_or_disjoint [of "2 ^ n * of_bool ?d" "Suc n" q]
    by (cases ?d) (simp_all add: push_bit_eq_mult algebra_simps)
  have "(2 * q + of_bool ?d) * 2 ^ n + a mod 2 ^ n = q * 2 ^ Suc n + a mod 2 ^ Suc n"
    by (rule mod_pow2_step)
  then show ?case
    using Suc.IH [OF g1(2) pes es(1) ins2, of "2 * q + of_bool ?d"] f(1) g1(1) j es(2)
    by (auto simp: idx_in_range q simp del: power_Suc)
qed

lemma absorbs_get_n_bits:
  assumes n: "n \<le> length bs" and a: "a < 2 ^ n" and ok: "branches_ok bs"
    and run: "run_path (n_bits_path a n) bs = (ds, bs')"
  shows "absorbs (get_n_bits n bs) ds a bs'"
  unfolding absorbs_def
proof (intro allI impI)
  fix r i c
  assume rep: "reader_rep c r i" and ins: "inside (narrows ds i) c"
  obtain k g where st: "in_step c k g (rvalue r) (rrange r) (upstream_reader r) i"
    using rep by (auto simp: reader_rep_def)
  from get_n_bits_loop_step [OF st n_bits_path_ok [OF n] ok run ins, of 0] a n
  show "\<exists>r'. get_n_bits n bs r = Ok (a, bs', r') \<and> reader_rep c r' (narrows ds i)"
    by (fastforce simp: get_n_bits_def reader_rep_def)
qed

text \<open>Unary numbers: filled before decisions 0 and 7, which is enough for 14.\<close>

definition unary_budget :: "nat \<Rightarrow> nat \<Rightarrow> bool" where
  "unary_budget i g \<longleftrightarrow> i = 0 \<or> i = 7 \<or> (i < 7 \<and> g + 7 * (7 - i) \<le> 62)
    \<or> (7 < i \<and> g + 7 * (14 - i) \<le> 62)"

lemma get_unary_loop_step:
  assumes st: "in_step c k g v r up i" and bud: "unary_budget m g" and m: "m + n \<le> 14"
    and a: "m \<le> a" "a \<le> m + n"
    and ok: "path_ok (unary_path a m n) bs" "branches_ok bs"
    and run: "run_path (unary_path a m n) bs = (ds, bs')"
    and ins: "inside (narrows ds i) c"
  shows "\<exists>v' r' up' k' g'. get_unary_loop m n bs v r up = Ok (a, bs', v', r', up')
    \<and> in_step c k' g' v' r' up' (narrows ds i)"
  using assms
proof (induction n arbitrary: m bs ds i v r up k g)
  case 0
  then show ?case by auto
next
  case (Suc n)
  let ?d = "a \<noteq> m"
  let ?b = "bs ! m"
  let ?p = "unat (get_probability ?b)"
  let ?bs = "bs[m := record_and_update_bit ?d ?b]"
  let ?rest = "if ?d then unary_path a (Suc m) n else []"
  obtain v0 up0 k0 g0 where
    f: "(if m = 0 \<or> m = 7 then vpx_reader_fill v up else (v, up)) = (v0, up0)"
      "in_step c k0 g0 v0 r up0 i" "g0 \<le> 55" "unary_budget (Suc m) (g0 + 7)"
  proof (cases "m = 0 \<or> m = 7")
    case True
    have "g mod 8 \<le> 7" using mod_less_divisor [of 8 g] by simp
    then show ?thesis using fill_in_step [OF Suc.prems(1)] True that by (auto simp: unary_budget_def)
  next
    case False
    then have "(m < 7 \<and> g + 7 * (7 - m) \<le> 62) \<or> (7 < m \<and> m \<le> 13 \<and> g + 7 * (14 - m) \<le> 62)"
      using Suc.prems(2,3) by (auto simp: unary_budget_def)
    then have "g \<le> 55 \<and> unary_budget (Suc m) (g + 7)"
    proof
      assume "m < 7 \<and> g + 7 * (7 - m) \<le> 62"
      moreover from this have "7 - m = Suc (7 - Suc m)" by linarith
      ultimately show ?thesis unfolding unary_budget_def by linarith
    next
      assume "7 < m \<and> m \<le> 13 \<and> g + 7 * (14 - m) \<le> 62"
      moreover from this have "14 - m = Suc (14 - Suc m)" by linarith
      ultimately show ?thesis unfolding unary_budget_def by linarith
    qed
    with False Suc.prems(1) show ?thesis by (intro that [of v up k g]) simp_all
  qed
  have iok: "interval_ok i" using Suc.prems(1) by (simp only: in_step_def)
  from Suc.prems(6-9) obtain es where es: "run_path ?rest ?bs = (es, bs')" "ds = (?d, ?p) # es"
    and j: "m < length bs" and b: "branch_ok ?b"
    and pes: "path_ok ?rest ?bs" "branches_ok ?bs"
    and ins1: "inside (narrow ?d ?p i) c" and ins2: "inside (narrows es (narrow ?d ?p i)) c"
    unfolding unary_path.simps by (elim run_path_first [OF _ _ _ iok])
  note get = get_in_step [OF f(2,3) b ins1]
  show ?case
  proof (cases "a = m")
    case True
    then obtain g' where "in_step c k0 g'
        (push_bit (leading_zeros (mul_prob r (ucast (get_probability ?b)))) v0)
        (push_bit (leading_zeros (mul_prob r (ucast (get_probability ?b))))
          (mul_prob r (ucast (get_probability ?b)))) up0 (narrow ?d ?p i)"
      using get(4) [OF _ refl] by auto
    then show ?thesis using True get(2) es j f(1) by (auto simp: idx_in_range Let_def)
  next
    case False
    define r1 where "r1 = r - mul_prob r (ucast (get_probability ?b))"
    define v1 where "v1 = v0 - mul_prob r (ucast (get_probability ?b))"
    obtain g' where g': "in_step c k0 g' (push_bit (leading_zeros r1) v1)
        (push_bit (leading_zeros r1) r1) up0 (narrow ?d ?p i)" "g' \<le> g0 + 7"
      using get(3) [OF False r1_def v1_def] by blast
    have bud: "unary_budget (Suc m) g'" using f(4) g'(2) by (auto simp: unary_budget_def)
    have pr: "path_ok (unary_path a (Suc m) n) ?bs" "run_path (unary_path a (Suc m) n) ?bs = (es, bs')"
      using False pes(1) es(1) by simp_all
    have rng: "Suc m + n \<le> 14" "Suc m \<le> a" "a \<le> Suc m + n" using False Suc.prems(3-5) by simp_all
    obtain v' r' up' k' g'' where
      "get_unary_loop (Suc m) n ?bs (push_bit (leading_zeros r1) v1) (push_bit (leading_zeros r1) r1) up0
        = Ok (a, bs', v', r', up')"
      "in_step c k' g'' v' r' up' (narrows es (narrow ?d ?p i))"
      using Suc.IH [OF g'(1) bud rng pr(1) pes(2) pr(2) ins2] by blast
    then show ?thesis
      using False get(2) es(2) j f(1) by (auto simp: idx_in_range Let_def r1_def v1_def)
  qed
qed

lemma absorbs_get_unary:
  assumes len: "length bs \<le> 14" and a: "a \<le> length bs" and ok: "branches_ok bs"
    and run: "run_path (unary_path a 0 (length bs)) bs = (ds, bs')"
  shows "absorbs (get_unary_encoded bs) ds a bs'"
  unfolding absorbs_def
proof (intro allI impI)
  fix r i c
  assume rep: "reader_rep c r i" and ins: "inside (narrows ds i) c"
  obtain k g where st: "in_step c k g (rvalue r) (rrange r) (upstream_reader r) i"
    using rep by (auto simp: reader_rep_def)
  have "path_ok (unary_path a 0 (length bs)) bs" by (rule unary_path_ok) simp
  from get_unary_loop_step [OF st _ _ _ _ this ok run ins] len a
  show "\<exists>r'. get_unary_encoded bs r = Ok (a, bs', r') \<and> reader_rep c r' (narrows ds i)"
    by (fastforce simp: get_unary_encoded_def reader_rep_def unary_budget_def)
qed

section \<open>Start\<close>

lemma VPXBoolReader_new:
  assumes "inside (narrow False 128 initial_interval) c"
  shows "\<exists>r. VPXBoolReader_new c = Ok r \<and> reader_rep c r (narrow False 128 initial_interval)"
proof -
  let ?r = "\<lparr>rvalue = push_bit (64 - 1) 1, rrange = push_bit BITS_IN_VALUE_MINUS_LAST_BYTE 255,
         upstream_reader = c\<rparr>"
  have p: "unat (get_probability Branch_new) = 128"
    by (simp add: get_probability_def problookup_def Branch_new_def Let_def flip: numeral_2_eq_2)
  have ok: "interval_ok initial_interval" by (simp add: interval_ok_def initial_interval_def)
  have "in_step c 0 63 (rvalue ?r) (rrange ?r) (upstream_reader ?r) initial_interval"
    by (simp add: in_step_def ok) (simp add: initial_interval_def BITS_IN_VALUE_MINUS_LAST_BYTE_def)
  then have "reader_rep c ?r initial_interval" unfolding reader_rep_def by blast
  then obtain r where "get_bit Branch_new ?r = Ok (False, record_and_update_bit False Branch_new, r)"
    "reader_rep c r (narrow False 128 initial_interval)"
    using absorbs_get_bit [OF branch_ok_new, of False] assms ok
    unfolding absorbs_def p narrows_simps by blast
  then show ?thesis unfolding VPXBoolReader_new_def by simp
qed

end
