(* ===== verification/Bool_Coder.thy ===== *)
theory Bool_Coder
  imports Bool_Writer Bool_Reader
begin

text \<open>
  Encoder and decoder together. \<open>codes W R v s\<close>: the encoding operation \<open>W\<close> and the decoding
  operation \<open>R\<close> stand for the same decisions, both end in the state \<open>s\<close> of the branches, and \<open>R\<close>
  returns \<open>v\<close>. The predicate composes along the binds of the code, so that a round trip of a whole
  structure follows from those of its parts. The locale \<open>value_codec\<close> is the contract a coder of
  one kind of values meets; in it the coding of sequences and the round trip through a finished
  stream are proved once.
\<close>

definition codes ::
  "(VPXBoolWriter \<Rightarrow> ('s \<times> VPXBoolWriter) result)
    \<Rightarrow> (VPXBoolReader \<Rightarrow> ('v \<times> 's \<times> VPXBoolReader) result) \<Rightarrow> 'v \<Rightarrow> 's \<Rightarrow> bool"
where
  "codes W R v s \<longleftrightarrow> (\<exists>ds. probs_ok ds \<and> emits W ds s \<and> absorbs R ds v s)"

section \<open>Composition\<close>

lemma codes_Ok: "codes (\<lambda>w. Ok (s, w)) (\<lambda>r. Ok (v, s, r)) v s"
  unfolding codes_def by (intro exI [of _ "[]"]) (simp add: emits_Ok absorbs_Ok)

lemma codes_bind:
  assumes "codes W1 R1 v s" "codes (W2 s) (R2 v s) v' s'"
  shows "codes (\<lambda>w. bindR (W1 w) (\<lambda>(s, w). W2 s w)) (\<lambda>r. bindR (R1 r) (\<lambda>(v, s, r). R2 v s r)) v' s'"
proof -
  obtain ds es where d: "probs_ok ds" "emits W1 ds s" "absorbs R1 ds v s"
    and e: "probs_ok es" "emits (W2 s) es s'" "absorbs (R2 v s) es v' s'"
    using assms by (auto simp: codes_def)
  have "emits (\<lambda>w. bindR (W1 w) (\<lambda>(s, w). W2 s w)) (ds @ es) s'"
    by (rule emits_bind [of W1 ds s W2, OF d(2) e(2)])
  moreover have "absorbs (\<lambda>r. bindR (R1 r) (\<lambda>(v, s, r). R2 v s r)) (ds @ es) v' s'"
    by (rule absorbs_bind [of R1 ds v s R2, OF d(3) e(3) d(1) e(1)])
  ultimately show ?thesis using d(1) e(1) unfolding codes_def by (intro exI [of _ "ds @ es"]) simp
qed

text \<open>A result that is only rearranged.\<close>

lemma codes_map:
  assumes "codes W R v s"
  shows "codes (\<lambda>w. bindR (W w) (\<lambda>(s, w). Ok (g s, w)))
    (\<lambda>r. bindR (R r) (\<lambda>(v, s, r). Ok (f v s, g s, r))) (f v s) (g s)"
  by (rule codes_bind [OF assms codes_Ok])

text \<open>The same with a condition in place of the final state, in the form proofs compose.\<close>

definition codes_to ::
  "(VPXBoolWriter \<Rightarrow> ('s \<times> VPXBoolWriter) result)
    \<Rightarrow> (VPXBoolReader \<Rightarrow> ('v \<times> 's \<times> VPXBoolReader) result) \<Rightarrow> 'v \<Rightarrow> ('s \<Rightarrow> bool) \<Rightarrow> bool"
where
  "codes_to W R v P \<longleftrightarrow> (\<exists>s. codes W R v s \<and> P s)"

lemma codes_toI: "codes W R v s \<Longrightarrow> P s \<Longrightarrow> codes_to W R v P"
  by (auto simp: codes_to_def)

lemma codes_to_Ok: "P s \<Longrightarrow> codes_to (\<lambda>w. Ok (s, w)) (\<lambda>r. Ok (v, s, r)) v P"
  by (rule codes_toI [OF codes_Ok])

lemma codes_to_bind:
  assumes "codes_to W1 R1 v P" "\<And>s. P s \<Longrightarrow> codes_to (W2 s) (R2 v s) v' Q"
  shows "codes_to (\<lambda>w. bindR (W1 w) (\<lambda>(s, w). W2 s w)) (\<lambda>r. bindR (R1 r) (\<lambda>(v, s, r). R2 v s r)) v' Q"
  using assms codes_bind [of W1 R1 v _ W2 R2 v'] unfolding codes_to_def by blast

lemma codes_to_conseq: "codes_to W R v P \<Longrightarrow> (\<And>s. P s \<Longrightarrow> Q s) \<Longrightarrow> codes_to W R v Q"
  by (auto simp: codes_to_def)

text \<open>The last operation, its results only put together.\<close>

lemma codes_to_map:
  assumes "codes_to W R v P" "\<And>s. P s \<Longrightarrow> Q (g s)" "\<And>s. P s \<Longrightarrow> f v s = u"
  shows "codes_to (\<lambda>w. bindR (W w) (\<lambda>(s, w). Ok (g s, w)))
    (\<lambda>r. bindR (R r) (\<lambda>(v, s, r). Ok (f v s, g s, r))) u Q"
proof (rule codes_to_bind [OF assms(1)])
  fix s
  assume "P s"
  then show "codes_to (\<lambda>w. Ok (g s, w)) (\<lambda>r. Ok (f v s, g s, r)) u Q"
    using assms(2,3) [of s] codes_to_Ok [of Q "g s" u] by simp
qed

lemma codes_to_value:
  assumes "codes_to W R v P"
  shows "codes_to W (\<lambda>r. bindR (R r) (\<lambda>(v, s, r). Ok (f v, s, r))) (f v) P"
  using codes_to_map [of W R v P P "\<lambda>s. s" "\<lambda>v s. f v" "f v", OF assms] by simp

text \<open>The same element of a list on both sides.\<close>

lemma codes_to_idx:
  "i < length xs \<Longrightarrow> codes_to (W (xs ! i)) (R (xs ! i)) v Q \<Longrightarrow>
    codes_to (\<lambda>w. bindR (idx xs i) (\<lambda>x. W x w)) (\<lambda>r. bindR (idx xs i) (\<lambda>x. R x r)) v Q"
  by (simp add: idx_in_range)

text \<open>A check that holds, in front of one of the two.\<close>

lemma codes_idx:
  "i < length xs \<Longrightarrow> codes (\<lambda>w. W (xs ! i) w) (\<lambda>r. R (xs ! i) r) v s \<Longrightarrow>
    codes (\<lambda>w. bindR (idx xs i) (\<lambda>x. W x w)) (\<lambda>r. bindR (idx xs i) (\<lambda>x. R x r)) v s"
  by (simp add: idx_in_range)

lemma codes_assert:
  "b \<Longrightarrow> c \<Longrightarrow> codes W R v s \<Longrightarrow>
    codes (\<lambda>w. bindR (assertR b) (\<lambda>_. W w)) (\<lambda>r. bindR (assertR c) (\<lambda>_. R r)) v s"
  by simp

text \<open>
  Encoders that may refuse: either the two sides code the same value, or the encoder fails on every
  writer; with the guarantee \<open>g\<close> it does not fail.
\<close>

definition codes_if ::
  "bool \<Rightarrow> (VPXBoolWriter \<Rightarrow> ('s \<times> VPXBoolWriter) result)
    \<Rightarrow> (VPXBoolReader \<Rightarrow> ('v \<times> 's \<times> VPXBoolReader) result) \<Rightarrow> 'v \<Rightarrow> ('s \<Rightarrow> bool) \<Rightarrow> bool"
where
  "codes_if g W R v P \<longleftrightarrow> codes_to W R v P \<or> (\<not> g \<and> (\<forall>w i. writer_rep w i \<longrightarrow> (\<exists>e. W w = Inl e)))"

lemma codes_if_to: "codes_to W R v P \<Longrightarrow> codes_if g W R v P"
  by (simp add: codes_if_def)

lemma codes_if_True: "codes_if True W R v P \<longleftrightarrow> codes_to W R v P"
  by (simp add: codes_if_def)

lemma codes_if_fails: "\<not> g \<Longrightarrow> (\<And>w. W w = Inl e) \<Longrightarrow> codes_if g W R v P"
  by (auto simp: codes_if_def)

lemma codes_if_conseq: "codes_if g W R v P \<Longrightarrow> (\<And>s. P s \<Longrightarrow> Q s) \<Longrightarrow> codes_if g W R v Q"
  unfolding codes_if_def using codes_to_conseq by metis

lemma codes_if_bind:
  assumes "codes_if g W1 R1 v P" "\<And>s. P s \<Longrightarrow> codes_if g (W2 s) (R2 v s) v' Q"
  shows "codes_if g (\<lambda>w. bindR (W1 w) (\<lambda>(s, w). W2 s w)) (\<lambda>r. bindR (R1 r) (\<lambda>(v, s, r). R2 v s r)) v' Q"
proof (cases "codes_to W1 R1 v P")
  case False
  then have "\<not> g" "\<exists>e. W1 w = Inl e" if "writer_rep w i" for w i
    using assms(1) that by (auto simp: codes_if_def)
  moreover have "\<not> g" using False assms(1) by (auto simp: codes_if_def)
  ultimately show ?thesis by (fastforce simp: codes_if_def)
next
  case True
  then obtain s where s: "codes W1 R1 v s" "P s" by (auto simp: codes_to_def)
  show ?thesis
  proof (cases "codes_to (W2 s) (R2 v s) v' Q")
    case True
    then obtain s' where "codes (W2 s) (R2 v s) v' s'" "Q s'" by (auto simp: codes_to_def)
    then show ?thesis using codes_bind [of W1 R1 v s W2 R2 v' s', OF s(1)] by (auto intro: codes_if_to codes_toI)
  next
    case False
    then have f: "\<not> g" "\<And>w i. writer_rep w i \<Longrightarrow> \<exists>e. W2 s w = Inl e"
      using assms(2) [OF s(2)] by (auto simp: codes_if_def)
    obtain ds where "emits W1 ds s" using s(1) by (auto simp: codes_def)
    then have "\<exists>w'. W1 w = Ok (s, w') \<and> writer_rep w' (narrows ds i)" if "writer_rep w i" for w i
      using that by (auto simp: emits_def)
    then have "\<exists>e. bindR (W1 w) (\<lambda>(s, w). W2 s w) = Inl e" if "writer_rep w i" for w i
      using f(2) that by fastforce
    then show ?thesis using f(1) by (auto simp: codes_if_def)
  qed
qed

text \<open>The same for results that are nested tuples.\<close>

lemma codes_if_bind':
  assumes "codes_if g W1 R1 v P" "\<And>s. P s \<Longrightarrow> codes_if g (\<lambda>w. F (s, w)) (\<lambda>r. G (v, s, r)) v' Q"
  shows "codes_if g (\<lambda>w. bindR (W1 w) F) (\<lambda>r. bindR (R1 r) G) v' Q"
  using codes_if_bind [of g W1 R1 v P "\<lambda>s w. F (s, w)" "\<lambda>v s r. G (v, s, r)" v' Q] assms by simp

lemma codes_if_map:
  assumes "codes_if g W R v P" "\<And>s. P s \<Longrightarrow> Q (h s)" "\<And>s. P s \<Longrightarrow> f v s = u"
  shows "codes_if g (\<lambda>w. bindR (W w) (\<lambda>(s, w). Ok (h s, w)))
    (\<lambda>r. bindR (R r) (\<lambda>(v, s, r). Ok (f v s, h s, r))) u Q"
proof (rule codes_if_bind [OF assms(1)])
  fix s
  assume "P s"
  then show "codes_if g (\<lambda>w. Ok (h s, w)) (\<lambda>r. Ok (f v s, h s, r)) u Q"
    using assms(2,3) [of s] codes_to_Ok [of Q "h s" u] by (simp add: codes_if_to)
qed

text \<open>What the decoder alone does to the value.\<close>

lemma codes_if_value:
  assumes "codes_if g W R v P" "\<And>s r. P s \<Longrightarrow> G (v, s, r) = Ok (u, s, r)"
  shows "codes_if g W (\<lambda>r. bindR (R r) G) u P"
proof -
  have "codes_if g (\<lambda>w. bindR (W w) (\<lambda>(s, w). Ok (s, w))) (\<lambda>r. bindR (R r) G) u P"
    by (rule codes_if_bind' [OF assms(1)]) (simp add: assms(2) codes_if_to codes_to_Ok)
  then show ?thesis by simp
qed

text \<open>The same computation on both sides.\<close>

lemma codes_if_pure:
  assumes "g \<Longrightarrow> \<exists>x. X = Ok x" "\<And>x. X = Ok x \<Longrightarrow> codes_if g (W x) (R x) v Q"
  shows "codes_if g (\<lambda>w. bindR X (\<lambda>x. W x w)) (\<lambda>r. bindR X (\<lambda>x. R x r)) v Q"
proof (cases X)
  case (Inl e)
  then have "\<not> g" using assms(1) by auto
  then show ?thesis using Inl by (intro codes_if_fails) simp_all
next
  case (Inr x)
  then show ?thesis using assms(2) by simp
qed

text \<open>A check of the encoder alone.\<close>

lemma codes_if_check:
  assumes "g \<Longrightarrow> \<not> b" "\<not> b \<Longrightarrow> codes_if g W R v Q"
  shows "codes_if g (\<lambda>w. if b then Inl e else W w) R v Q"
  using assms by (cases b) (auto simp: codes_if_def)

text \<open>Flushing the encoder's buffer in between changes nothing.\<close>

lemma codes_flush:
  assumes "codes W R v s"
  shows "codes (\<lambda>w. bindR (W w) (\<lambda>(s, w). bindR (flush_non_final_data w) (\<lambda>w. Ok (s, w)))) R v s"
proof -
  obtain ds where d: "probs_ok ds" "emits W ds s" "absorbs R ds v s" using assms by (auto simp: codes_def)
  have "emits (\<lambda>w. bindR (W w) (\<lambda>(s, w). bindR (flush_non_final_data w) (\<lambda>w. Ok (s, w)))) ds s"
    unfolding emits_def
  proof (intro allI impI)
    fix w i
    assume "writer_rep w i"
    then obtain w1 where w1: "W w = Ok (s, w1)" "writer_rep w1 (narrows ds i)"
      using d(2) unfolding emits_def by blast
    from flush_represents_same [OF w1(2)] w1(1)
    show "\<exists>w'. bindR (W w) (\<lambda>(s, w). bindR (flush_non_final_data w) (\<lambda>w. Ok (s, w))) = Ok (s, w')
      \<and> writer_rep w' (narrows ds i)" by auto
  qed
  with d show ?thesis unfolding codes_def by blast
qed

lemma codes_if_flush:
  assumes "codes_if g W R v P" "\<And>s. P s \<Longrightarrow> Q (h s)" "\<And>s r. P s \<Longrightarrow> G (v, s, r) = Ok (u, h s, r)"
  shows "codes_if g (\<lambda>w. bindR (W w) (\<lambda>(s, w). bindR (flush_non_final_data w) (\<lambda>w. Ok (h s, w))))
    (\<lambda>r. bindR (R r) G) u Q"
proof -
  have "codes_if g (\<lambda>w. bindR (W w) (\<lambda>(s, w). bindR (flush_non_final_data w) (\<lambda>w. Ok (s, w)))) R v P"
    using assms(1) codes_flush [of W R v] unfolding codes_if_def codes_to_def by fastforce
  then have "codes_if g (\<lambda>w. bindR (bindR (W w) (\<lambda>(s, w). bindR (flush_non_final_data w) (\<lambda>w. Ok (s, w))))
      (\<lambda>(s, w). Ok (h s, w))) (\<lambda>r. bindR (R r) G) u Q"
    by (rule codes_if_bind') (simp add: assms(2,3) codes_if_to codes_to_Ok)
  then show ?thesis by (simp add: bindR_assoc case_prod_beta')
qed

section \<open>The primitive codes\<close>

lemma codes_bit:
  assumes "branch_ok b"
  shows "codes (put_bit d b) (get_bit b) d (record_and_update_bit d b)"
  unfolding codes_def
  using emits_put_bit [OF assms] absorbs_get_bit [OF assms] get_probability_bounds [OF assms]
  by (intro exI [of _ "[(d, unat (get_probability b))]"]) simp

definition branches_like :: "Branch list \<Rightarrow> Branch list \<Rightarrow> bool" where
  "branches_like bs bs' \<longleftrightarrow> branches_ok bs' \<and> length bs' = length bs"

lemma n_bits_path_mod: "n_bits_path (v mod 2 ^ m) n = n_bits_path v n" if "n \<le> m"
  using that
proof (induction n)
  case (Suc n)
  have "v mod 2 ^ m div 2 ^ n mod 2 = v div 2 ^ n mod 2"
  proof -
    obtain k where k: "m = n + Suc k" using Suc.prems by (metis add_Suc_right less_eqE add_Suc)
    have "v mod 2 ^ m = 2 ^ n * (v div 2 ^ n mod 2 ^ Suc k) + v mod 2 ^ n"
      unfolding k power_add by (rule mod_mult2_eq)
    then have "v mod 2 ^ m div 2 ^ n = v div 2 ^ n mod 2 ^ Suc k" by simp
    then show ?thesis by (simp add: mod_mod_cancel)
  qed
  then have "odd (v mod 2 ^ m div 2 ^ n) \<longleftrightarrow> odd (v div 2 ^ n)" by (simp only: odd_iff_mod_2_eq_one)
  then show ?case using Suc by simp
qed simp

lemma codes_n_bits:
  assumes "n \<le> length bs" "branches_ok bs"
  shows "\<exists>bs'. codes (put_n_bits v n bs) (get_n_bits n bs) (v mod 2 ^ n) bs' \<and> branches_like bs bs'"
proof -
  obtain ds bs' where run: "run_path (n_bits_path v n) bs = (ds, bs')" by fastforce
  then have run': "run_path (n_bits_path (v mod 2 ^ n) n) bs = (ds, bs')"
    by (simp add: n_bits_path_mod)
  have ok: "probs_ok ds \<and> branches_ok bs' \<and> length bs' = length bs"
    by (rule run_path_ok [OF n_bits_path_ok [OF assms(1)] assms(2) run])
  have "absorbs (get_n_bits n bs) ds (v mod 2 ^ n) bs'"
    using assms run' by (intro absorbs_get_n_bits) simp_all
  with emits_put_n_bits [OF assms run] ok show ?thesis
    unfolding codes_def branches_like_def by blast
qed

lemma codes_unary:
  assumes "length bs \<le> 14" "v \<le> length bs" "branches_ok bs"
  shows "\<exists>bs'. codes (put_unary_encoded v bs) (get_unary_encoded bs) v bs' \<and> branches_like bs bs'"
proof -
  obtain ds bs' where run: "run_path (unary_path v 0 (length bs)) bs = (ds, bs')" by fastforce
  have ok: "probs_ok ds \<and> branches_ok bs' \<and> length bs' = length bs"
    by (rule run_path_ok [OF _ assms(3) run]) (simp add: unary_path_ok)
  with emits_put_unary [OF assms(2,3) run] absorbs_get_unary [OF assms run]
  show ?thesis unfolding codes_def branches_like_def by blast
qed

lemma codes_grid:
  assumes "length bs = 2 ^ n" "1 \<le> n" "n \<le> 7" "unat v < 2 ^ n" "branches_ok bs"
  shows "\<exists>bs'. codes (put_grid v bs) (get_grid bs) (unat v) bs' \<and> branches_like bs bs'"
proof -
  obtain m where m: "n = Suc m" using assms(2) by (metis Suc_le_D One_nat_def)
  obtain ds bs' where run: "run_path (grid_path (unat v) n 1) bs = (ds, bs')" by fastforce
  have ok: "probs_ok ds \<and> branches_ok bs' \<and> length bs' = length bs"
    by (rule run_path_ok [OF _ assms(5) run], rule grid_path_ok [of _ 1]) (simp_all add: assms(1))
  have "emits (put_grid v bs) ds bs'"
    using assms run m by (intro emits_put_grid [of bs m]) simp_all
  with absorbs_get_grid [OF assms run] ok show ?thesis
    unfolding codes_def branches_like_def by blast
qed

lemma codes_to_bit:
  "branch_ok b \<Longrightarrow> codes_to (put_bit d b) (get_bit b) d branch_ok"
  unfolding codes_to_def using codes_bit branch_ok_update by blast

lemma codes_to_n_bits:
  "n \<le> length bs \<Longrightarrow> branches_ok bs \<Longrightarrow>
    codes_to (put_n_bits v n bs) (get_n_bits n bs) (v mod 2 ^ n) (branches_like bs)"
  using codes_n_bits unfolding codes_to_def by blast

lemma codes_to_unary:
  "length bs \<le> 14 \<Longrightarrow> v \<le> length bs \<Longrightarrow> branches_ok bs \<Longrightarrow>
    codes_to (put_unary_encoded v bs) (get_unary_encoded bs) v (branches_like bs)"
  using codes_unary unfolding codes_to_def by blast

lemma codes_to_grid:
  "length bs = 2 ^ n \<Longrightarrow> 1 \<le> n \<Longrightarrow> n \<le> 7 \<Longrightarrow> unat v < 2 ^ n \<Longrightarrow> branches_ok bs \<Longrightarrow>
    codes_to (put_grid v bs) (get_grid bs) (unat v) (branches_like bs)"
  using codes_grid unfolding codes_to_def by blast

section \<open>A whole stream\<close>

text \<open>An encoder from \<open>new\<close> to \<open>finish\<close>, and the decoder of its bytes.\<close>

definition encode_stream :: "(VPXBoolWriter \<Rightarrow> ('s \<times> VPXBoolWriter) result) \<Rightarrow> ('s \<times> bytes) result" where
  "encode_stream W =
    bindR VPXBoolWriter_new (\<lambda>w. bindR (W w) (\<lambda>(s, w). bindR (finish w) (\<lambda>w. Ok (s, writer w))))"

definition decode_stream ::
  "(VPXBoolReader \<Rightarrow> ('v \<times> 's \<times> VPXBoolReader) result) \<Rightarrow> bytes \<Rightarrow> ('v \<times> 's) result"
where
  "decode_stream R c =
    bindR (VPXBoolReader_new c) (\<lambda>r. bindR (R r) (\<lambda>(v, s, r). Ok (v, s)))"

lemma codes_stream:
  assumes "codes W R v s"
  shows "\<exists>c. encode_stream W = Ok (s, c) \<and> decode_stream R c = Ok (v, s)"
proof -
  obtain ds where d: "probs_ok ds" "emits W ds s" "absorbs R ds v s" using assms by (auto simp: codes_def)
  obtain w where w: "VPXBoolWriter_new = Ok w" "writer_rep w start_interval"
    using VPXBoolWriter_new by blast
  then obtain w1 where w1: "W w = Ok (s, w1)" "writer_rep w1 (narrows ds start_interval)"
    using d(2) unfolding emits_def by blast
  obtain w2 where w2: "finish w1 = Ok w2" "inside (narrows ds start_interval) (writer w2)"
    using finish_value [OF w1(2)] by blast
  have "inside start_interval (writer w2)" using inside_narrows [OF interval_ok_start d(1) w2(2)] .
  then obtain r where r: "VPXBoolReader_new (writer w2) = Ok r" "reader_rep (writer w2) r start_interval"
    using VPXBoolReader_new unfolding start_interval_def by blast
  then obtain r' where "R r = Ok (v, s, r')"
    using d(3) w2(2) interval_ok_start unfolding absorbs_def by blast
  then show ?thesis
    using w1(1) w2(1) r(1)
    by (intro exI [of _ "writer w2"]) (simp add: encode_stream_def decode_stream_def w(1) [THEN eq_reflection])
qed

text \<open>An encoder that succeeds is undone by its decoder.\<close>

lemma codes_if_stream:
  assumes c: "codes_if g W R v P"
  shows "encode_stream W = Ok (s, c) \<Longrightarrow> decode_stream R c = Ok (v, s) \<and> P s"
    and "g \<Longrightarrow> \<exists>s c. encode_stream W = Ok (s, c)"
proof -
  obtain w where w: "VPXBoolWriter_new = Ok w" "writer_rep w start_interval"
    using VPXBoolWriter_new by blast
  have enc: "encode_stream W = bindR (W w) (\<lambda>(s, w). bindR (finish w) (\<lambda>w. Ok (s, writer w)))"
    by (simp add: encode_stream_def w(1) [THEN eq_reflection])
  show "\<exists>s c. encode_stream W = Ok (s, c)" if g: g
  proof -
    obtain s where "codes W R v s" using c g by (auto simp: codes_if_def codes_to_def)
    from codes_stream [OF this] show ?thesis by auto
  qed
  assume e: "encode_stream W = Ok (s, c)"
  then have "\<nexists>e. W w = Inl e" using enc by auto
  then obtain s' where s': "codes W R v s'" "P s'"
    using c w(2) unfolding codes_if_def codes_to_def by blast
  from codes_stream [OF s'(1)] s'(2) e show "decode_stream R c = Ok (v, s) \<and> P s" by auto
qed

text \<open>Coding the elements of a list one after the other, the state passed along.\<close>

fun encode_all ::
  "('v \<Rightarrow> 's \<Rightarrow> VPXBoolWriter \<Rightarrow> ('s \<times> VPXBoolWriter) result) \<Rightarrow> 'v list \<Rightarrow> 's
    \<Rightarrow> VPXBoolWriter \<Rightarrow> ('s \<times> VPXBoolWriter) result"
where
  "encode_all enc [] s w = Ok (s, w)"
| "encode_all enc (v # vs) s w = bindR (enc v s w) (\<lambda>(s, w). encode_all enc vs s w)"

fun decode_all ::
  "('s \<Rightarrow> VPXBoolReader \<Rightarrow> ('v \<times> 's \<times> VPXBoolReader) result) \<Rightarrow> nat \<Rightarrow> 's
    \<Rightarrow> VPXBoolReader \<Rightarrow> ('v list \<times> 's \<times> VPXBoolReader) result"
where
  "decode_all dec 0 s r = Ok ([], s, r)"
| "decode_all dec (Suc n) s r =
    bindR (dec s r) (\<lambda>(v, s, r). bindR (decode_all dec n s r) (\<lambda>(vs, s, r). Ok (v # vs, s, r)))"

locale value_codec =
  fixes enc :: "'v \<Rightarrow> 's \<Rightarrow> VPXBoolWriter \<Rightarrow> ('s \<times> VPXBoolWriter) result"
    and dec :: "'s \<Rightarrow> VPXBoolReader \<Rightarrow> ('v \<times> 's \<times> VPXBoolReader) result"
    and valid :: "'v \<Rightarrow> bool"
    and state_ok :: "'s \<Rightarrow> bool"
  assumes code: "valid v \<Longrightarrow> state_ok s \<Longrightarrow> \<exists>s'. codes (enc v s) (dec s) v s' \<and> state_ok s'"
begin

lemma all_codes:
  "list_all valid vs \<Longrightarrow> state_ok s \<Longrightarrow>
    \<exists>s'. codes (encode_all enc vs s) (decode_all dec (length vs) s) vs s' \<and> state_ok s'"
proof (induction vs arbitrary: s)
  case Nil
  have "encode_all enc [] s = (\<lambda>w. Ok (s, w))" "decode_all dec (length []) s = (\<lambda>r. Ok ([], s, r))"
    by (intro ext, simp)+
  with Nil show ?case using codes_Ok [of s "[]"] by auto
next
  case (Cons v vs)
  then obtain s1 where s1: "codes (enc v s) (dec s) v s1" "state_ok s1" using code [of v s] by auto
  then obtain s2 where s2: "codes (encode_all enc vs s1) (decode_all dec (length vs) s1) vs s2" "state_ok s2"
    using Cons by auto
  have rest: "codes (encode_all enc vs s1)
      (\<lambda>r. bindR (decode_all dec (length vs) s1 r) (\<lambda>(vs, s, r). Ok (v # vs, s, r))) (v # vs) s2"
  proof -
    have "codes (\<lambda>w. bindR (encode_all enc vs s1 w) (\<lambda>(s, w). Ok (s, w)))
      (\<lambda>r. bindR (decode_all dec (length vs) s1 r) (\<lambda>(vs, s, r). Ok (v # vs, s, r))) (v # vs) s2"
      by (rule codes_bind [OF s2(1) codes_Ok])
    moreover have "bindR m (\<lambda>(s, w). Ok (s, w)) = m" for m :: "('s \<times> VPXBoolWriter) result"
      by (cases m) auto
    ultimately show ?thesis by simp
  qed
  from codes_bind [OF s1(1), of "encode_all enc vs"
      "\<lambda>v s r. bindR (decode_all dec (length vs) s r) (\<lambda>(vs, s, r). Ok (v # vs, s, r))", OF rest] s2(2)
  show ?case by (intro exI [of _ s2] conjI) (simp_all add: fun_eq_iff encode_all.simps [abs_def] decode_all.simps [abs_def])
qed

lemma stream:
  assumes "list_all valid vs" "state_ok s"
  shows "\<exists>s' c. encode_stream (encode_all enc vs s) = Ok (s', c)
    \<and> decode_stream (decode_all dec (length vs) s) c = Ok (vs, s') \<and> state_ok s'"
proof -
  obtain s' where s': "codes (encode_all enc vs s) (decode_all dec (length vs) s) vs s'" "state_ok s'"
    using all_codes [OF assms] by blast
  from codes_stream [OF s'(1)] s'(2) show ?thesis by blast
qed

end

interpretation bit_codec: value_codec put_bit get_bit "\<lambda>_. True" branch_ok
  using codes_bit branch_ok_update by unfold_locales blast

interpretation grid_codec: value_codec put_grid
    "\<lambda>bs r. bindR (get_grid bs r) (\<lambda>(v, bs, r). Ok (of_nat v, bs, r))"
    "\<lambda>v. unat v < 2 ^ n" "\<lambda>bs. length bs = 2 ^ n \<and> 1 \<le> n \<and> n \<le> 7 \<and> branches_ok bs" for n
proof
  fix v :: u8 and bs :: "Branch list"
  assume v: "unat v < 2 ^ n" and s: "length bs = 2 ^ n \<and> 1 \<le> n \<and> n \<le> 7 \<and> branches_ok bs"
  then obtain bs' where c: "codes (put_grid v bs) (get_grid bs) (unat v) bs'" "branches_like bs bs'"
    using codes_grid by blast
  have "codes (\<lambda>w. bindR (put_grid v bs w) (\<lambda>(s, w). Ok (s, w)))
      (\<lambda>r. bindR (get_grid bs r) (\<lambda>(v, bs, r). Ok (of_nat v :: u8, bs, r))) (of_nat (unat v)) bs'"
    by (rule codes_bind [OF c(1) codes_Ok])
  moreover have "bindR m (\<lambda>(s, w). Ok (s, w)) = m" for m :: "(Branch list \<times> VPXBoolWriter) result"
    by (cases m) auto
  ultimately show "\<exists>s'. codes (put_grid v bs)
      (\<lambda>r. bindR (get_grid bs r) (\<lambda>(v, bs, r). Ok (of_nat v, bs, r))) v s'
    \<and> length s' = 2 ^ n \<and> 1 \<le> n \<and> n \<le> 7 \<and> branches_ok s'"
    using c(2) s by (auto simp: branches_like_def)
qed

interpretation unary_codec: value_codec put_unary_encoded get_unary_encoded
    "\<lambda>v. v \<le> n" "\<lambda>bs. length bs = n \<and> n \<le> 14 \<and> branches_ok bs" for n
  using codes_unary by unfold_locales (fastforce simp: branches_like_def)

interpretation n_bits_codec: value_codec "\<lambda>v. put_n_bits v n" "get_n_bits n"
    "\<lambda>v. v < 2 ^ n" "\<lambda>bs. n \<le> length bs \<and> branches_ok bs" for n
proof
  fix v :: nat and bs :: "Branch list"
  assume "v < 2 ^ n" "n \<le> length bs \<and> branches_ok bs"
  with codes_n_bits [of n bs v]
  show "\<exists>s'. codes (put_n_bits v n bs) (get_n_bits n bs) v s' \<and> n \<le> length s' \<and> branches_ok s'"
    by (auto simp: branches_like_def)
qed

end
