(* ===== verification/Quantization.thy ===== *)
theory Quantization
  imports Helpers
begin

text \<open>
  Constants of \<open>consts.rs\<close> and the tables derived from a quantization table
  (\<open>structs/quantization_tables.rs\<close>): the table in raster and in transposed raster order, and for
  each of the 14 edge coefficients the number of low bits that are coded as noise. The arrays have a
  fixed length in the source; every index used here is within it, as the lemmas show.
\<close>

section \<open>Constants\<close>

definition RASTER_TO_ZIGZAG :: "nat list" where
  "RASTER_TO_ZIGZAG = [
    0, 1, 5, 6, 14, 15, 27, 28, 2, 4, 7, 13, 16, 26, 29, 42, 3, 8, 12, 17, 25, 30, 41, 43, 9, 11,
    18, 24, 31, 40, 44, 53, 10, 19, 23, 32, 39, 45, 52, 54, 20, 22, 33, 38, 46, 51, 55, 60, 21, 34,
    37, 47, 50, 56, 59, 61, 35, 36, 48, 49, 57, 58, 62, 63]"

definition ZIGZAG_TO_TRANSPOSED :: "nat list" where
  "ZIGZAG_TO_TRANSPOSED = [
    0, 8, 1, 2, 9, 16, 24, 17, 10, 3, 4, 11, 18, 25, 32, 40, 33, 26, 19, 12, 5, 6, 13, 20, 27, 34,
    41, 48, 56, 49, 42, 35, 28, 21, 14, 7, 15, 22, 29, 36, 43, 50, 57, 58, 51, 44, 37, 30, 23, 31,
    38, 45, 52, 59, 60, 53, 46, 39, 47, 54, 61, 62, 55, 63]"

definition UNZIGZAG_49_TR :: "nat list" where
  "UNZIGZAG_49_TR = [
    9, 17, 10, 11, 18, 25, 33, 26, 19, 12, 13, 20, 27, 34, 41, 49, 42, 35, 28, 21, 14, 15, 22, 29,
    36, 43, 50, 57, 58, 51, 44, 37, 30, 23, 31, 38, 45, 52, 59, 60, 53, 46, 39, 47, 54, 61, 62, 55,
    63]"

definition ICOS_BASED_8192_SCALED :: "i32 list" where
  "ICOS_BASED_8192_SCALED = [0, 11363, 10703, 9633, 8192, 6436, 4433, 2260]"

definition ICOS_BASED_8192_SCALED_PM :: "i32 list" where
  "ICOS_BASED_8192_SCALED_PM = [8192, -11363, 10703, -9633, 8192, -6436, 4433, -2260]"

definition FREQ_MAX :: "u16 list" where
  "FREQ_MAX = [931, 985, 968, 1020, 968, 1020, 1020, 932, 985, 967, 1020, 969, 1020, 1020]"

definition NON_ZERO_TO_BIN :: "nat list" where
  "NON_ZERO_TO_BIN = [
    0, 1, 2, 3, 4, 4, 5, 5, 5, 6, 6, 6, 6, 7, 7, 7, 7, 7, 7, 7, 7, 8, 8, 8, 8, 8]"

definition NON_ZERO_TO_BIN_7X7 :: "nat list" where
  "NON_ZERO_TO_BIN_7X7 = [
    0, 0, 1, 2, 3, 3, 4, 4, 4, 5, 5, 5, 5, 6, 6, 6, 6, 6, 6, 6, 6, 7, 7, 7, 7, 7, 7, 7, 7, 7, 7, 7,
    8, 8, 8, 8, 8, 8, 8, 8, 8, 8, 8, 8, 8, 8, 8, 8, 8, 8]"

definition RESIDUAL_NOISE_FLOOR :: nat where
  "RESIDUAL_NOISE_FLOOR = 7"

section \<open>Tables\<close>

record QuantizationTables =
  quantization_table :: "u16 list"
  quantization_table_transposed :: "u16 list"
  min_noise_threshold :: "u8 list"

text \<open>The threshold of edge coefficient \<open>i\<close>, whose table entry is \<open>q\<close>.\<close>

definition noise_threshold :: "nat \<Rightarrow> u16 \<Rightarrow> u8" where
  "noise_threshold i q =
    (if q < 9 then
       (let freq_max = FREQ_MAX ! i + q - 1;
            freq_max = (if q \<noteq> 0 then freq_max div q else freq_max);
            max_len = u16_bit_length freq_max
        in if of_nat RESIDUAL_NOISE_FLOOR < max_len then max_len - of_nat RESIDUAL_NOISE_FLOOR else 0)
     else 0)"

definition new_from_table :: "u16 list \<Rightarrow> QuantizationTables" where
  "new_from_table table =
    (let qt = map (\<lambda>coord. table ! (RASTER_TO_ZIGZAG ! coord)) [0..<64]
     in \<lparr>quantization_table = qt,
         quantization_table_transposed =
           map (\<lambda>coord_tr. qt ! (coord_tr mod 8 * 8 + coord_tr div 8)) [0..<64],
         min_noise_threshold =
           map (\<lambda>i. noise_threshold i (qt ! (if i < 7 then i + 1 else (i - 6) * 8))) [0..<14]\<rparr>)"

definition get_quantization_table :: "QuantizationTables \<Rightarrow> u16 list" where
  "get_quantization_table qt = quantization_table qt"

definition get_quantization_table_transposed :: "QuantizationTables \<Rightarrow> u16 list" where
  "get_quantization_table_transposed qt = quantization_table_transposed qt"

definition get_min_noise_threshold :: "QuantizationTables \<Rightarrow> nat \<Rightarrow> u8 result" where
  "get_min_noise_threshold qt coef = idx (min_noise_threshold qt) coef"

text \<open>What the coders of the coefficients need of the tables.\<close>

definition tables_ok :: "QuantizationTables \<Rightarrow> bool" where
  "tables_ok qt \<longleftrightarrow>
    length (quantization_table qt) = 64 \<and> length (quantization_table_transposed qt) = 64 \<and>
    length (min_noise_threshold qt) = 14 \<and> (\<forall>t \<in> set (min_noise_threshold qt). unat t \<le> 3)"

lemma FREQ_MAX_le: "i < 14 \<Longrightarrow> unat (FREQ_MAX ! i) \<le> 1020 \<and> 1 \<le> unat (FREQ_MAX ! i)"
proof -
  have "list_all (\<lambda>f. unat f \<le> 1020 \<and> 1 \<le> unat f) FREQ_MAX" by (simp add: FREQ_MAX_def)
  moreover assume "i < 14"
  then have "i < length FREQ_MAX" by (simp add: FREQ_MAX_def)
  ultimately show ?thesis by (simp add: list_all_length)
qed

text \<open>The number of noise bits never exceeds the three branches there are for them.\<close>

lemma noise_threshold_le:
  assumes "i < 14"
  shows "unat (noise_threshold i q) \<le> 3"
proof (cases "q < 9")
  case False
  then show ?thesis by (simp add: noise_threshold_def)
next
  case True
  define m where "m = FREQ_MAX ! i + q - 1"
  define f where "f = (if q \<noteq> 0 then m div q else m)"
  have q: "unat q < 9" using True by (simp add: word_less_nat_alt)
  note F = FREQ_MAX_le [OF assms]
  have "unat (FREQ_MAX ! i + q) = unat (FREQ_MAX ! i) + unat q"
    using F q by (simp add: unat_word_ariths)
  moreover from this have "FREQ_MAX ! i + q \<noteq> 0" using F by (auto simp: unat_eq_0 [symmetric] simp del: unat_eq_0)
  ultimately have m: "unat m = unat (FREQ_MAX ! i) + unat q - 1"
    by (simp add: m_def unat_minus_one)
  have "unat f < 1024"
  proof (cases "q = 0")
    case True
    then have "unat f = unat (FREQ_MAX ! i) - 1" using m by (simp add: f_def)
    then show ?thesis using F by linarith
  next
    case False
    then have q1: "1 \<le> unat q" by (simp add: Suc_le_eq unat_gt_0)
    have "unat f = (unat (FREQ_MAX ! i) + unat q - 1) div unat q" using False m by (simp add: f_def unat_div)
    also have "\<dots> \<le> (1020 * unat q) div unat q"
    proof (rule div_le_mono)
      have "unat (FREQ_MAX ! i) + unat q - 1 \<le> 1020 + (unat q - 1) * 1" using F q1 by linarith
      also have "\<dots> \<le> 1020 + (unat q - 1) * 1020" by simp
      also have "\<dots> = 1020 * unat q" using q1 by (simp add: algebra_simps flip: mult_Suc_right)
      finally show "unat (FREQ_MAX ! i) + unat q - 1 \<le> 1020 * unat q" .
    qed
    finally show ?thesis using q1 by simp
  qed
  then have len: "unat (u16_bit_length f) \<le> 10" by (simp add: unat_u16_bit_length bit_len_le_iff)
  have "unat (u16_bit_length f - 7) \<le> 3" if "7 < u16_bit_length f"
  proof -
    have "unat (u16_bit_length f - 7) = unat (u16_bit_length f) - unat (7 :: u8)"
      using that by (intro unat_sub) simp
    then show ?thesis using len by simp
  qed
  then show ?thesis
    using True by (simp add: noise_threshold_def RESIDUAL_NOISE_FLOOR_def Let_def flip: m_def f_def)
qed

lemma tables_ok_new: "tables_ok (new_from_table table)"
  by (auto simp: tables_ok_def new_from_table_def Let_def noise_threshold_le)

lemma transposed_entry:
  assumes "r < 8" "c < 8"
  shows "quantization_table_transposed (new_from_table table) ! (c * 8 + r)
    = quantization_table (new_from_table table) ! (r * 8 + c)"
proof -
  have "c * 8 + r < 64" "(c * 8 + r) mod 8 = r" "(c * 8 + r) div 8 = c" using assms by auto
  then show ?thesis by (simp add: new_from_table_def Let_def)
qed

end
