(* ===== verification/Coef_Model.thy ===== *)
theory Coef_Model
  imports Bool_Coder Quantization
begin

unbundle bit_operations_syntax

text \<open>
  The statistical model (\<open>structs/model.rs\<close>): the branches of every decision, and the coding of
  coefficients by them. A coefficient is its bit length in unary, its sign, and the bits below the
  top one; an edge coefficient has the upper of these bits coded in the context of each other, and
  the lower ones as noise. Every reading operation is proved to be the inverse of its writing
  operation, with the same update of the model.

  The arrays of the source have fixed lengths; here they are lists of the lengths that
  \<open>model_ok\<close> states, and every index is checked as Rust checks it. The structs \<open>Counts7x7\<close>,
  \<open>CountsEdge\<close> and \<open>CountsDC\<close> have the same two fields and differ in their lengths only.
\<close>

section \<open>State\<close>

record Counts =
  exponent_counts :: "Branch list list"
  residual_noise_counts :: "Branch list"

record ModelPerColor =
  num_non_zeros_counts7x7 :: "Branch list list"
  counts7x7 :: "Counts list list"
  num_non_zeros_counts1x8 :: "Branch list list list"
  num_non_zeros_counts8x1 :: "Branch list list list"
  counts_x :: "Counts list list"
  residual_threshold_counts :: "Branch list list list"
  sign_counts :: "Branch list list"

record Model =
  per_color :: "ModelPerColor list"
  counts_dc :: "Counts list"

definition BLOCK_TYPES :: nat where "BLOCK_TYPES = 2"
definition NUMERIC_LENGTH_MAX :: nat where "NUMERIC_LENGTH_MAX = 12"
definition MAX_EXPONENT :: nat where "MAX_EXPONENT = 11"
definition COEF_BITS :: nat where "COEF_BITS = MAX_EXPONENT - 1"
definition NON_ZERO_7X7_COUNT_BITS :: nat where "NON_ZERO_7X7_COUNT_BITS = 6"
definition NON_ZERO_EDGE_COUNT_BITS :: nat where "NON_ZERO_EDGE_COUNT_BITS = 3"
definition NUM_NON_ZERO_7X7_BINS :: nat where "NUM_NON_ZERO_7X7_BINS = 9"
definition NUM_NON_ZERO_EDGE_BINS :: nat where "NUM_NON_ZERO_EDGE_BINS = 7"
definition RESIDUAL_THRESHOLD_COUNTS_D1 :: nat where
  "RESIDUAL_THRESHOLD_COUNTS_D1 = 2 ^ (1 + RESIDUAL_NOISE_FLOOR)"
definition RESIDUAL_THRESHOLD_COUNTS_D2 :: nat where
  "RESIDUAL_THRESHOLD_COUNTS_D2 = 1 + RESIDUAL_NOISE_FLOOR - 2"
definition RESIDUAL_THRESHOLD_COUNTS_D3 :: nat where
  "RESIDUAL_THRESHOLD_COUNTS_D3 = 2 ^ RESIDUAL_NOISE_FLOOR"

lemmas size_defs = BLOCK_TYPES_def NUMERIC_LENGTH_MAX_def MAX_EXPONENT_def COEF_BITS_def
  NON_ZERO_7X7_COUNT_BITS_def NON_ZERO_EDGE_COUNT_BITS_def NUM_NON_ZERO_7X7_BINS_def
  NUM_NON_ZERO_EDGE_BINS_def RESIDUAL_THRESHOLD_COUNTS_D1_def RESIDUAL_THRESHOLD_COUNTS_D2_def
  RESIDUAL_THRESHOLD_COUNTS_D3_def RESIDUAL_NOISE_FLOOR_def

definition Counts7x7_default :: Counts where
  "Counts7x7_default =
    \<lparr>exponent_counts = replicate NUMERIC_LENGTH_MAX (replicate MAX_EXPONENT Branch_new),
     residual_noise_counts = replicate COEF_BITS Branch_new\<rparr>"

definition CountsEdge_default :: Counts where
  "CountsEdge_default =
    \<lparr>exponent_counts = replicate MAX_EXPONENT (replicate MAX_EXPONENT Branch_new),
     residual_noise_counts = replicate 3 Branch_new\<rparr>"

definition CountsDC_default :: Counts where
  "CountsDC_default =
    \<lparr>exponent_counts = replicate 17 (replicate MAX_EXPONENT Branch_new),
     residual_noise_counts = replicate COEF_BITS Branch_new\<rparr>"

definition ModelPerColor_default :: ModelPerColor where
  "ModelPerColor_default =
    \<lparr>num_non_zeros_counts7x7 =
       replicate (1 + NON_ZERO_TO_BIN ! 25) (replicate (2 ^ NON_ZERO_7X7_COUNT_BITS) Branch_new),
     counts7x7 = replicate NUM_NON_ZERO_7X7_BINS (replicate 49 Counts7x7_default),
     num_non_zeros_counts1x8 =
       replicate 8 (replicate 8 (replicate (2 ^ NON_ZERO_EDGE_COUNT_BITS) Branch_new)),
     num_non_zeros_counts8x1 =
       replicate 8 (replicate 8 (replicate (2 ^ NON_ZERO_EDGE_COUNT_BITS) Branch_new)),
     counts_x = replicate NUM_NON_ZERO_EDGE_BINS (replicate 14 CountsEdge_default),
     residual_threshold_counts =
       replicate RESIDUAL_THRESHOLD_COUNTS_D1
         (replicate RESIDUAL_THRESHOLD_COUNTS_D2 (replicate RESIDUAL_THRESHOLD_COUNTS_D3 Branch_new)),
     sign_counts = replicate 3 (replicate NUMERIC_LENGTH_MAX Branch_new)\<rparr>"

definition Model_default :: Model where
  "Model_default =
    \<lparr>per_color = replicate BLOCK_TYPES ModelPerColor_default,
     counts_dc = replicate NUMERIC_LENGTH_MAX CountsDC_default\<rparr>"

text \<open>\<open>unsigned_abs\<close> of Rust's signed integers.\<close>

definition unsigned_abs :: "'a::len word \<Rightarrow> 'a word" where
  "unsigned_abs w = (if sint w < 0 then - w else w)"

section \<open>Length, sign, bits\<close>

definition write_length_sign_coef ::
  "i16 \<Rightarrow> Branch list \<Rightarrow> Branch \<Rightarrow> Branch list \<Rightarrow> VPXBoolWriter
    \<Rightarrow> ((Branch list \<times> Branch \<times> Branch list) \<times> VPXBoolWriter) result"
where
  "write_length_sign_coef coef magnitude_branches sign_branch bits_branch w =
    (let abs_coef = unsigned_abs coef;
         coef_bit_len = u16_bit_length abs_coef
     in if of_nat (length magnitude_branches) < coef_bit_len then err_exit_code CoefficientOutOfRange
        else
          bindR (put_unary_encoded (unat coef_bit_len) magnitude_branches w) (\<lambda>(mag, w).
          bindR (if coef \<noteq> 0 then put_bit (0 < sint coef) sign_branch w else Ok (sign_branch, w))
            (\<lambda>(sign, w).
          bindR (if 1 < coef_bit_len
                 then put_n_bits (unat abs_coef) (unat coef_bit_len - 1) bits_branch w
                 else Ok (bits_branch, w)) (\<lambda>(bits, w).
            Ok ((mag, sign, bits), w)))))"

definition read_length_sign_coef ::
  "Branch list \<Rightarrow> Branch \<Rightarrow> Branch list \<Rightarrow> VPXBoolReader
    \<Rightarrow> (i16 \<times> (Branch list \<times> Branch \<times> Branch list) \<times> VPXBoolReader) result"
where
  "read_length_sign_coef magnitude_branches sign_branch bits_branch r =
    bindR (get_unary_encoded magnitude_branches r) (\<lambda>(len, mag, r).
      if len \<noteq> 0 then
        bindR (get_bit sign_branch r) (\<lambda>(b, sign, r).
        bindR (if 1 < len
               then bindR (get_n_bits (len - 1) bits_branch r) (\<lambda>(n, bits, r). Ok (of_nat n, bits, r))
               else Ok (0, bits_branch, r)) (\<lambda>(coef, bits, r).
          let neg = \<not> b;
              coef = coef OR push_bit (len - 1) 1;
              coef = (if neg then - coef else coef)
          in Ok (coef, (mag, sign, bits), r)))
      else Ok (0, (mag, sign_branch, bits_branch), r))"

section \<open>Coefficients of the 7x7 block\<close>

definition get_coef_branches ::
  "ModelPerColor \<Rightarrow> nat \<Rightarrow> nat \<Rightarrow> nat \<Rightarrow> (Branch list \<times> Branch \<times> Branch list) result"
where
  "get_coef_branches m num_non_zeros_bin zig49 best_prior_bit_len =
    bindR (assertR (num_non_zeros_bin < NUM_NON_ZERO_7X7_BINS)) (\<lambda>_.
    bindR (assertR (zig49 < 49)) (\<lambda>_.
    bindR (assertR (best_prior_bit_len < NUMERIC_LENGTH_MAX)) (\<lambda>_.
    bindR (idx (counts7x7 m) num_non_zeros_bin) (\<lambda>cs.
    bindR (idx cs zig49) (\<lambda>c.
    bindR (idx (exponent_counts c) best_prior_bit_len) (\<lambda>exponent.
    bindR (idx (sign_counts m) 0) (\<lambda>signs.
    bindR (idx signs 0) (\<lambda>sign.
      Ok (exponent, sign, residual_noise_counts c)))))))))"

text \<open>The borrowed branches, written back.\<close>

definition set_coef_branches ::
  "ModelPerColor \<Rightarrow> nat \<Rightarrow> nat \<Rightarrow> nat \<Rightarrow> Branch list \<times> Branch \<times> Branch list \<Rightarrow> ModelPerColor"
where
  "set_coef_branches m num_non_zeros_bin zig49 best_prior_bit_len = (\<lambda>(exponent, sign, bits).
    (let cs = counts7x7 m ! num_non_zeros_bin;
         c = cs ! zig49;
         c = c\<lparr>exponent_counts := (exponent_counts c)[best_prior_bit_len := exponent],
               residual_noise_counts := bits\<rparr>
     in m\<lparr>counts7x7 := (counts7x7 m)[num_non_zeros_bin := cs[zig49 := c]],
          sign_counts := (sign_counts m)[0 := (sign_counts m ! 0)[0 := sign]]\<rparr>))"

definition read_coef ::
  "nat \<Rightarrow> nat \<Rightarrow> nat \<Rightarrow> ModelPerColor \<Rightarrow> VPXBoolReader
    \<Rightarrow> (i16 \<times> ModelPerColor \<times> VPXBoolReader) result"
where
  "read_coef zig49 num_non_zeros_bin best_prior_bit_len m r =
    bindR (get_coef_branches m num_non_zeros_bin zig49 best_prior_bit_len)
      (\<lambda>(exponent, sign, bits).
    bindR (read_length_sign_coef exponent sign bits r) (\<lambda>(coef, bs, r).
      Ok (coef, set_coef_branches m num_non_zeros_bin zig49 best_prior_bit_len bs, r)))"

definition write_coef ::
  "i16 \<Rightarrow> nat \<Rightarrow> nat \<Rightarrow> nat \<Rightarrow> ModelPerColor \<Rightarrow> VPXBoolWriter
    \<Rightarrow> (ModelPerColor \<times> VPXBoolWriter) result"
where
  "write_coef coef zig49 num_non_zeros_bin best_prior_bit_len m w =
    bindR (get_coef_branches m num_non_zeros_bin zig49 best_prior_bit_len)
      (\<lambda>(exponent, sign, bits).
    bindR (write_length_sign_coef coef exponent sign bits w) (\<lambda>(bs, w).
      Ok (set_coef_branches m num_non_zeros_bin zig49 best_prior_bit_len bs, w)))"

section \<open>Numbers of nonzero coefficients\<close>

definition write_non_zero_7x7_count ::
  "u8 \<Rightarrow> u8 \<Rightarrow> ModelPerColor \<Rightarrow> VPXBoolWriter \<Rightarrow> (ModelPerColor \<times> VPXBoolWriter) result"
where
  "write_non_zero_7x7_count context_bin num_non_zeros_7x7 m w =
    bindR (idx (num_non_zeros_counts7x7 m) (unat context_bin)) (\<lambda>prob.
    bindR (put_grid num_non_zeros_7x7 prob w) (\<lambda>(prob, w).
      Ok (m\<lparr>num_non_zeros_counts7x7 := (num_non_zeros_counts7x7 m)[unat context_bin := prob]\<rparr>, w)))"

definition read_non_zero_7x7_count ::
  "u8 \<Rightarrow> ModelPerColor \<Rightarrow> VPXBoolReader \<Rightarrow> (u8 \<times> ModelPerColor \<times> VPXBoolReader) result"
where
  "read_non_zero_7x7_count context_bin m r =
    bindR (idx (num_non_zeros_counts7x7 m) (unat context_bin)) (\<lambda>prob.
    bindR (get_grid prob r) (\<lambda>(n, prob, r).
      Ok (of_nat n,
          m\<lparr>num_non_zeros_counts7x7 := (num_non_zeros_counts7x7 m)[unat context_bin := prob]\<rparr>, r)))"

definition get_non_zero_counts_edge ::
  "bool \<Rightarrow> u8 \<Rightarrow> u8 \<Rightarrow> ModelPerColor \<Rightarrow> Branch list result"
where
  "get_non_zero_counts_edge horizontal est_eob num_nonzeros_bin m =
    (let counts = (if horizontal then num_non_zeros_counts8x1 m else num_non_zeros_counts1x8 m)
     in bindR (idx counts (unat est_eob)) (\<lambda>cs. idx cs (unat num_nonzeros_bin)))"

definition set_non_zero_counts_edge ::
  "bool \<Rightarrow> u8 \<Rightarrow> u8 \<Rightarrow> Branch list \<Rightarrow> ModelPerColor \<Rightarrow> ModelPerColor"
where
  "set_non_zero_counts_edge horizontal est_eob num_nonzeros_bin bs m =
    (let counts = (if horizontal then num_non_zeros_counts8x1 m else num_non_zeros_counts1x8 m);
         counts = counts[unat est_eob := (counts ! unat est_eob)[unat num_nonzeros_bin := bs]]
     in if horizontal then m\<lparr>num_non_zeros_counts8x1 := counts\<rparr>
        else m\<lparr>num_non_zeros_counts1x8 := counts\<rparr>)"

definition write_non_zero_edge_count ::
  "bool \<Rightarrow> u8 \<Rightarrow> u8 \<Rightarrow> u8 \<Rightarrow> ModelPerColor \<Rightarrow> VPXBoolWriter
    \<Rightarrow> (ModelPerColor \<times> VPXBoolWriter) result"
where
  "write_non_zero_edge_count horizontal est_eob num_non_zeros_bin num_non_zeros_edge m w =
    bindR (get_non_zero_counts_edge horizontal est_eob num_non_zeros_bin m) (\<lambda>prob.
    bindR (put_grid num_non_zeros_edge prob w) (\<lambda>(prob, w).
      Ok (set_non_zero_counts_edge horizontal est_eob num_non_zeros_bin prob m, w)))"

definition read_non_zero_edge_count ::
  "bool \<Rightarrow> u8 \<Rightarrow> u8 \<Rightarrow> ModelPerColor \<Rightarrow> VPXBoolReader
    \<Rightarrow> (u8 \<times> ModelPerColor \<times> VPXBoolReader) result"
where
  "read_non_zero_edge_count horizontal est_eob num_non_zeros_bin m r =
    bindR (get_non_zero_counts_edge horizontal est_eob num_non_zeros_bin m) (\<lambda>prob.
    bindR (get_grid prob r) (\<lambda>(n, prob, r).
      Ok (of_nat n, set_non_zero_counts_edge horizontal est_eob num_non_zeros_bin prob m, r)))"

section \<open>Edge coefficients\<close>

text \<open>The branches of the upper bits, by the prediction and the number of bits.\<close>

definition residual_threshold_index :: "ModelPerColor \<Rightarrow> u32 \<Rightarrow> nat \<Rightarrow> nat \<Rightarrow> nat \<times> nat" where
  "residual_threshold_index m best_prior_abs min_threshold len =
    (min (unat (drop_bit min_threshold (best_prior_abs AND 0xffff)))
         (length (residual_threshold_counts m) - 1),
     min (len - min_threshold - 2) (length (residual_threshold_counts m ! 0) - 1))"

definition get_residual_threshold_counts ::
  "ModelPerColor \<Rightarrow> u32 \<Rightarrow> nat \<Rightarrow> nat \<Rightarrow> Branch list result"
where
  "get_residual_threshold_counts m best_prior_abs min_threshold len =
    (let (i, j) = residual_threshold_index m best_prior_abs min_threshold len
     in bindR (idx (residual_threshold_counts m) i) (\<lambda>cs. idx cs j))"

definition set_residual_threshold_counts ::
  "ModelPerColor \<Rightarrow> u32 \<Rightarrow> nat \<Rightarrow> nat \<Rightarrow> Branch list \<Rightarrow> ModelPerColor"
where
  "set_residual_threshold_counts m best_prior_abs min_threshold len bs =
    (let (i, j) = residual_threshold_index m best_prior_abs min_threshold len;
         cs = residual_threshold_counts m
     in m\<lparr>residual_threshold_counts := cs[i := (cs ! i)[j := bs]]\<rparr>)"

text \<open>The loops over the upper bits, from bit \<open>n - 1\<close> down to bit \<open>min_threshold\<close>; \<open>n\<close> is one more
  than \<open>i\<close> of the source, which is -1 at the end of the last bit.\<close>

fun write_residual_loop ::
  "u16 \<Rightarrow> nat \<Rightarrow> nat \<Rightarrow> nat \<Rightarrow> Branch list \<Rightarrow> VPXBoolWriter \<Rightarrow> (Branch list \<times> VPXBoolWriter) result"
where
  "write_residual_loop abs_coef min_threshold 0 encoded_so_far thresh_prob w = Ok (thresh_prob, w)"
| "write_residual_loop abs_coef min_threshold (Suc i) encoded_so_far thresh_prob w =
    (if min_threshold \<le> i then
       (let cur_bit = abs_coef AND push_bit i 1 \<noteq> 0
        in bindR (idx thresh_prob encoded_so_far) (\<lambda>b.
           bindR (put_bit cur_bit b w) (\<lambda>(b, w).
             write_residual_loop abs_coef min_threshold i
               (min (2 * encoded_so_far + of_bool cur_bit) (length thresh_prob - 1))
               (thresh_prob[encoded_so_far := b]) w)))
     else Ok (thresh_prob, w))"

fun read_residual_loop ::
  "nat \<Rightarrow> nat \<Rightarrow> i16 \<Rightarrow> nat \<Rightarrow> Branch list \<Rightarrow> VPXBoolReader
    \<Rightarrow> (i16 \<times> Branch list \<times> VPXBoolReader) result"
where
  "read_residual_loop min_threshold 0 coef decoded_so_far thresh_prob r = Ok (coef, thresh_prob, r)"
| "read_residual_loop min_threshold (Suc i) coef decoded_so_far thresh_prob r =
    (if min_threshold \<le> i then
       bindR (idx thresh_prob decoded_so_far) (\<lambda>b.
       bindR (get_bit b r) (\<lambda>(cur_bit, b, r).
         let coef = push_bit 1 coef OR of_bool cur_bit
         in read_residual_loop min_threshold i coef
              (min (unat coef) (length thresh_prob - 1)) (thresh_prob[decoded_so_far := b]) r))
     else Ok (coef, thresh_prob, r))"

definition get_edge_counts :: "ModelPerColor \<Rightarrow> nat \<Rightarrow> nat \<Rightarrow> Counts result" where
  "get_edge_counts m num_non_zeros_edge_bin zig15offset =
    bindR (idx (counts_x m) num_non_zeros_edge_bin) (\<lambda>cs. idx cs zig15offset)"

definition set_edge_counts :: "ModelPerColor \<Rightarrow> nat \<Rightarrow> nat \<Rightarrow> Counts \<Rightarrow> ModelPerColor" where
  "set_edge_counts m num_non_zeros_edge_bin zig15offset c =
    m\<lparr>counts_x := (counts_x m)
        [num_non_zeros_edge_bin := (counts_x m ! num_non_zeros_edge_bin)[zig15offset := c]]\<rparr>"

definition get_edge_sign :: "ModelPerColor \<Rightarrow> nat \<Rightarrow> nat \<Rightarrow> Branch result" where
  "get_edge_sign m i j = bindR (idx (sign_counts m) i) (\<lambda>bs. idx bs j)"

definition set_edge_sign :: "ModelPerColor \<Rightarrow> nat \<Rightarrow> nat \<Rightarrow> Branch \<Rightarrow> ModelPerColor" where
  "set_edge_sign m i j b = m\<lparr>sign_counts := (sign_counts m)[i := (sign_counts m ! i)[j := b]]\<rparr>"

definition edge_prior_bit_len :: "i32 \<Rightarrow> nat" where
  "edge_prior_bit_len best_prior =
    min (MAX_EXPONENT - 1) (unat (u32_bit_length (unsigned_abs best_prior)))"

text \<open>The bits below the top one.\<close>

definition write_edge_bits ::
  "QuantizationTables \<Rightarrow> u16 \<Rightarrow> nat \<Rightarrow> nat \<Rightarrow> nat \<Rightarrow> i32 \<Rightarrow> ModelPerColor \<Rightarrow> VPXBoolWriter
    \<Rightarrow> (ModelPerColor \<times> VPXBoolWriter) result"
where
  "write_edge_bits qt abs_coef len zig15offset num_non_zeros_edge_bin best_prior m w =
    bindR (get_min_noise_threshold qt zig15offset) (\<lambda>min_threshold.
    let min_threshold = unat min_threshold;
        i = len - 1
    in bindR
         (if min_threshold < i then
            bindR (get_residual_threshold_counts m (unsigned_abs best_prior) min_threshold len) (\<lambda>bs.
            bindR (write_residual_loop abs_coef min_threshold i 1 bs w) (\<lambda>(bs, w).
              Ok (set_residual_threshold_counts m (unsigned_abs best_prior) min_threshold len bs, w)))
          else Ok (m, w)) (\<lambda>(m, w).
       let i = min i min_threshold
       in if 0 < i then
            bindR (get_edge_counts m num_non_zeros_edge_bin zig15offset) (\<lambda>c.
            bindR (put_n_bits (unat abs_coef) i (residual_noise_counts c) w) (\<lambda>(bs, w).
              Ok (set_edge_counts m num_non_zeros_edge_bin zig15offset
                    (c\<lparr>residual_noise_counts := bs\<rparr>), w)))
          else Ok (m, w)))"

definition read_edge_bits ::
  "QuantizationTables \<Rightarrow> nat \<Rightarrow> nat \<Rightarrow> nat \<Rightarrow> i32 \<Rightarrow> ModelPerColor \<Rightarrow> VPXBoolReader
    \<Rightarrow> (i16 \<times> ModelPerColor \<times> VPXBoolReader) result"
where
  "read_edge_bits qt len zig15offset num_non_zeros_edge_bin best_prior m r =
    bindR (get_min_noise_threshold qt zig15offset) (\<lambda>min_threshold.
    let min_threshold = unat min_threshold;
        i = len - 1
    in bindR
         (if min_threshold < i then
            bindR (get_residual_threshold_counts m (unsigned_abs best_prior) min_threshold len) (\<lambda>bs.
            bindR (read_residual_loop min_threshold i 1 1 bs r) (\<lambda>(coef, bs, r).
              Ok (coef, set_residual_threshold_counts m (unsigned_abs best_prior) min_threshold len bs, r)))
          else Ok (1, m, r)) (\<lambda>(coef, m, r).
       let i = min i min_threshold
       in if 0 < i then
            bindR (get_edge_counts m num_non_zeros_edge_bin zig15offset) (\<lambda>c.
            bindR (get_n_bits i (residual_noise_counts c) r) (\<lambda>(n, bs, r).
              Ok (push_bit i coef OR of_nat n,
                  set_edge_counts m num_non_zeros_edge_bin zig15offset
                    (c\<lparr>residual_noise_counts := bs\<rparr>), r)))
          else Ok (coef, m, r)))"

definition write_edge_coefficient ::
  "QuantizationTables \<Rightarrow> i16 \<Rightarrow> nat \<Rightarrow> u8 \<Rightarrow> i32 \<Rightarrow> ModelPerColor \<Rightarrow> VPXBoolWriter
    \<Rightarrow> (ModelPerColor \<times> VPXBoolWriter) result"
where
  "write_edge_coefficient qt coef zig15offset num_non_zeros_edge best_prior m w =
    bindR (assertR (num_non_zeros_edge \<noteq> 0 \<and> unat num_non_zeros_edge - 1 < NUM_NON_ZERO_EDGE_BINS)) (\<lambda>_.
    bindR (assertR (zig15offset < 14)) (\<lambda>_.
    let bin = unat num_non_zeros_edge - 1;
        best_prior_bit_len = edge_prior_bit_len best_prior;
        abs_coef = unsigned_abs coef;
        len = unat (u16_bit_length abs_coef)
    in bindR (get_edge_counts m bin zig15offset) (\<lambda>c.
       bindR (idx (exponent_counts c) best_prior_bit_len) (\<lambda>exp_array.
       if MAX_EXPONENT < len then err_exit_code CoefficientOutOfRange
       else
         bindR (put_unary_encoded len exp_array w) (\<lambda>(exp_array, w).
         let m = set_edge_counts m bin zig15offset
               (c\<lparr>exponent_counts := (exponent_counts c)[best_prior_bit_len := exp_array]\<rparr>)
         in if coef \<noteq> 0 then
              (let si = calc_sign_index (ucast best_prior)
               in bindR (get_edge_sign m si best_prior_bit_len) (\<lambda>sign.
                  bindR (put_bit (0 \<le> sint coef) sign w) (\<lambda>(sign, w).
                  let m = set_edge_sign m si best_prior_bit_len sign
                  in if 1 < len then write_edge_bits qt abs_coef len zig15offset bin best_prior m w
                     else Ok (m, w))))
            else Ok (m, w))))))"

definition read_edge_coefficient ::
  "QuantizationTables \<Rightarrow> nat \<Rightarrow> u8 \<Rightarrow> i32 \<Rightarrow> ModelPerColor \<Rightarrow> VPXBoolReader
    \<Rightarrow> (i16 \<times> ModelPerColor \<times> VPXBoolReader) result"
where
  "read_edge_coefficient qt zig15offset num_non_zeros_edge best_prior m r =
    bindR (assertR (num_non_zeros_edge \<noteq> 0 \<and> unat num_non_zeros_edge - 1 < NUM_NON_ZERO_EDGE_BINS)) (\<lambda>_.
    bindR (assertR (zig15offset < 14)) (\<lambda>_.
    let bin = unat num_non_zeros_edge - 1;
        best_prior_bit_len = edge_prior_bit_len best_prior
    in bindR (get_edge_counts m bin zig15offset) (\<lambda>c.
       bindR (idx (exponent_counts c) best_prior_bit_len) (\<lambda>length_branches.
       bindR (get_unary_encoded length_branches r) (\<lambda>(len, length_branches, r).
       let m = set_edge_counts m bin zig15offset
             (c\<lparr>exponent_counts := (exponent_counts c)[best_prior_bit_len := length_branches]\<rparr>)
       in if len \<noteq> 0 then
            (let si = calc_sign_index (ucast best_prior)
             in bindR (get_edge_sign m si best_prior_bit_len) (\<lambda>sign.
                bindR (get_bit sign r) (\<lambda>(b, sign, r).
                let m = set_edge_sign m si best_prior_bit_len sign;
                    neg = \<not> b
                in bindR
                     (if 1 < len then read_edge_bits qt len zig15offset bin best_prior m r
                      else Ok (1, m, r)) (\<lambda>(coef, m, r).
                   Ok (if neg then - coef else coef, m, r)))))
          else Ok (0, m, r))))))"

section \<open>DC coefficients\<close>

definition get_dc_branches ::
  "Model \<Rightarrow> i16 \<Rightarrow> i16 \<Rightarrow> nat \<Rightarrow> (Branch list \<times> Branch \<times> Branch list) result"
where
  "get_dc_branches m uncertainty uncertainty2 color_index =
    (let len_abs_mxm = u16_bit_length (unsigned_abs uncertainty);
         len_abs_offset_to_closest_edge = u16_bit_length (unsigned_abs uncertainty2);
         len_abs_mxm_clamp = min (unat len_abs_mxm) (length (counts_dc m) - 1)
     in bindR (idx (counts_dc m) len_abs_mxm_clamp) (\<lambda>c.
        bindR (idx (exponent_counts c) (unat len_abs_offset_to_closest_edge)) (\<lambda>exponent.
        bindR (idx (per_color m) color_index) (\<lambda>pc.
        bindR (idx (sign_counts pc) 0) (\<lambda>signs.
        bindR (idx signs (calc_sign_index uncertainty2 + 1)) (\<lambda>sign.
          Ok (exponent, sign, residual_noise_counts c)))))))"

definition set_dc_branches ::
  "Model \<Rightarrow> i16 \<Rightarrow> i16 \<Rightarrow> nat \<Rightarrow> Branch list \<times> Branch \<times> Branch list \<Rightarrow> Model"
where
  "set_dc_branches m uncertainty uncertainty2 color_index = (\<lambda>(exponent, sign, bits).
    (let i = min (unat (u16_bit_length (unsigned_abs uncertainty))) (length (counts_dc m) - 1);
         j = unat (u16_bit_length (unsigned_abs uncertainty2));
         c = counts_dc m ! i;
         c = c\<lparr>exponent_counts := (exponent_counts c)[j := exponent], residual_noise_counts := bits\<rparr>;
         pc = per_color m ! color_index;
         signs = (sign_counts pc ! 0)[calc_sign_index uncertainty2 + 1 := sign]
     in m\<lparr>counts_dc := (counts_dc m)[i := c],
          per_color := (per_color m)[color_index := pc\<lparr>sign_counts := (sign_counts pc)[0 := signs]\<rparr>]\<rparr>))"

definition read_dc ::
  "nat \<Rightarrow> i16 \<Rightarrow> i16 \<Rightarrow> Model \<Rightarrow> VPXBoolReader \<Rightarrow> (i16 \<times> Model \<times> VPXBoolReader) result"
where
  "read_dc color_index uncertainty uncertainty2 m r =
    bindR (get_dc_branches m uncertainty uncertainty2 color_index) (\<lambda>(exponent, sign, bits).
    bindR (read_length_sign_coef exponent sign bits r) (\<lambda>(coef, bs, r).
      Ok (coef, set_dc_branches m uncertainty uncertainty2 color_index bs, r)))"

definition write_dc ::
  "nat \<Rightarrow> i16 \<Rightarrow> i16 \<Rightarrow> i16 \<Rightarrow> Model \<Rightarrow> VPXBoolWriter \<Rightarrow> (Model \<times> VPXBoolWriter) result"
where
  "write_dc color_index coef uncertainty uncertainty2 m w =
    bindR (get_dc_branches m uncertainty uncertainty2 color_index) (\<lambda>(exponent, sign, bits).
    bindR (write_length_sign_coef coef exponent sign bits w) (\<lambda>(bs, w).
      Ok (set_dc_branches m uncertainty uncertainty2 color_index bs, w)))"

definition get_per_color :: "Model \<Rightarrow> nat \<Rightarrow> ModelPerColor result" where
  "get_per_color m color_index = idx (per_color m) color_index"

section \<open>The invariant\<close>

definition branches_n :: "nat \<Rightarrow> Branch list \<Rightarrow> bool" where
  "branches_n n bs \<longleftrightarrow> length bs = n \<and> branches_ok bs"

definition counts_ok :: "nat \<Rightarrow> nat \<Rightarrow> Counts \<Rightarrow> bool" where
  "counts_ok n k c \<longleftrightarrow>
    list_ok n (branches_n MAX_EXPONENT) (exponent_counts c) \<and> branches_n k (residual_noise_counts c)"

definition per_color_ok :: "ModelPerColor \<Rightarrow> bool" where
  "per_color_ok m \<longleftrightarrow>
    list_ok 9 (branches_n 64) (num_non_zeros_counts7x7 m) \<and>
    list_ok 9 (list_ok 49 (counts_ok 12 10)) (counts7x7 m) \<and>
    list_ok 8 (list_ok 8 (branches_n 8)) (num_non_zeros_counts1x8 m) \<and>
    list_ok 8 (list_ok 8 (branches_n 8)) (num_non_zeros_counts8x1 m) \<and>
    list_ok 7 (list_ok 14 (counts_ok 11 3)) (counts_x m) \<and>
    list_ok 256 (list_ok 6 (branches_n 128)) (residual_threshold_counts m) \<and>
    list_ok 3 (branches_n 12) (sign_counts m)"

definition model_ok :: "Model \<Rightarrow> bool" where
  "model_ok m \<longleftrightarrow> list_ok 2 per_color_ok (per_color m) \<and> list_ok 12 (counts_ok 17 10) (counts_dc m)"

lemma branches_n_replicate [simp]: "branches_n n (replicate n Branch_new)"
  by (simp add: branches_n_def branches_ok_def)

lemma branches_n_nth: "branches_n n bs \<Longrightarrow> i < n \<Longrightarrow> branch_ok (bs ! i)"
  by (simp add: branches_n_def branches_ok_nth)

lemma branches_n_idx: "branches_n n bs \<Longrightarrow> i < n \<Longrightarrow> idx bs i = Inr (bs ! i)"
  by (simp add: branches_n_def idx_in_range)

lemma branches_n_update [intro]: "branches_n n bs \<Longrightarrow> branch_ok b \<Longrightarrow> branches_n n (bs[i := b])"
  by (simp add: branches_n_def)

lemma branches_n_like: "branches_n n bs \<Longrightarrow> branches_like bs bs' \<Longrightarrow> branches_n n bs'"
  by (simp add: branches_n_def branches_like_def)

lemma model_ok_default: "model_ok Model_default"
  by (simp add: model_ok_def Model_default_def per_color_ok_def ModelPerColor_default_def
      counts_ok_def Counts7x7_default_def CountsEdge_default_def CountsDC_default_def size_defs
      NON_ZERO_TO_BIN_def)

section \<open>Round trip of length, sign, bits\<close>

lemma unat_of_int_small: "0 \<le> i \<Longrightarrow> i < 2 ^ LENGTH('a) \<Longrightarrow> unat (of_int i :: 'a::len word) = nat i"
  by (simp add: unat_eq_nat_uint unsigned_of_int take_bit_int_eq_self)

lemma unat_unsigned_abs: "unat (unsigned_abs (w :: 'a::len word)) = nat \<bar>sint w\<bar>"
proof -
  have b: "- (2 ^ (LENGTH('a) - 1)) \<le> sint w" "sint w < 2 ^ (LENGTH('a) - 1)"
    using sint_ge [of w] sint_lt [of w] by simp_all
  have "(2::int) ^ LENGTH('a) = 2 ^ (LENGTH('a) - 1) * 2" by (metis Suc_pred' len_gt_0 power_Suc2)
  moreover have "0 < (2::int) ^ (LENGTH('a) - 1)" by simp
  ultimately have "\<bar>sint w\<bar> < 2 ^ LENGTH('a)" using b by linarith
  then have "unat (of_int \<bar>sint w\<bar> :: 'a word) = nat \<bar>sint w\<bar>" by (intro unat_of_int_small) simp_all
  moreover have "of_int \<bar>sint w\<bar> = unsigned_abs w" by (simp add: unsigned_abs_def abs_if)
  ultimately show ?thesis by simp
qed

lemma length_sign_value:
  fixes coef :: i16
  assumes "coef \<noteq> 0"
  shows "(if 0 < sint coef then unsigned_abs coef else - unsigned_abs coef) = coef"
proof -
  have "sint coef \<noteq> 0" using assms signed_eq_0_iff by blast
  then show ?thesis by (auto simp: unsigned_abs_def)
qed

lemma or_top_bit:
  assumes "bit_len a = Suc n"
  shows "(of_nat (a mod 2 ^ n) OR push_bit n 1 :: i16) = of_nat a"
proof -
  have lo: "2 ^ n \<le> a" and hi: "a < 2 ^ Suc n" using bit_len_lower [of a] bit_len_upper [of a] assms
    by (cases "a = 0"; simp)+
  have "a - 2 ^ n < 2 ^ n" using lo hi by simp
  then have "a mod 2 ^ n = a - 2 ^ n" using lo by (simp add: le_mod_geq)
  then have "a = 1 * 2 ^ n + a mod 2 ^ n" using lo by simp
  then have "(of_nat a :: i16) = push_bit n (of_nat 1) OR of_nat (a mod 2 ^ n)"
    using of_nat_append_bits [of "a mod 2 ^ n" n 1, where 'a = 16] by simp
  then show ?thesis by (simp add: or.commute)
qed

lemma branches_n_codes:
  "branches_n n bs \<Longrightarrow> n \<le> 14 \<Longrightarrow> v \<le> n \<Longrightarrow>
    codes_to (put_unary_encoded v bs) (get_unary_encoded bs) v (branches_n n)"
  "branches_n n bs \<Longrightarrow> k \<le> n \<Longrightarrow>
    codes_to (put_n_bits u k bs) (get_n_bits k bs) (u mod 2 ^ k) (branches_n n)"
  by (rule codes_to_conseq [OF codes_to_unary [of bs v]] codes_to_conseq [OF codes_to_n_bits [of k bs]],
      (simp_all add: branches_n_def branches_like_def))+

lemma codes_length_sign_coef:
  assumes n: "n \<le> 14" "n \<le> Suc k" and mag: "branches_n n mag" and sign: "branch_ok sign"
    and bits: "branches_n k bits" and coef: "bit_len (nat \<bar>sint coef\<bar>) \<le> n"
  shows "codes_to (write_length_sign_coef coef mag sign bits) (read_length_sign_coef mag sign bits) coef
    (\<lambda>(mag', sign', bits'). branches_n n mag' \<and> branch_ok sign' \<and> branches_n k bits')"
    (is "codes_to _ _ _ ?ok")
proof -
  let ?a = "unsigned_abs coef"
  define l where "l = bit_len (unat ?a)"
  have a: "unat ?a = nat \<bar>sint coef\<bar>" by (rule unat_unsigned_abs)
  have l: "l \<le> n" using coef by (simp add: l_def a)
  have len: "unat (u16_bit_length ?a) = l" by (simp add: unat_u16_bit_length l_def)
  have fits: "\<not> of_nat (length mag) < u16_bit_length ?a"
  proof -
    have "unat (of_nat n :: u8) = n" using n(1) by (simp add: unat_of_nat)
    then show ?thesis using l len mag by (simp add: word_less_nat_alt branches_n_def)
  qed
  have one: "1 < u16_bit_length ?a \<longleftrightarrow> 1 < l" using len by (simp add: word_less_nat_alt)
  have z: "coef = 0 \<longleftrightarrow> l = 0"
  proof
    assume "coef = 0"
    then show "l = 0" by (simp add: l_def unsigned_abs_def)
  next
    assume "l = 0"
    then have "unat ?a = 0" using bit_len_pos [of "unat ?a"] by (cases "unat ?a = 0") (simp_all add: l_def)
    then have "sint coef = 0" using a by simp
    then show "coef = 0" by (simp only: signed_eq_0_iff)
  qed
  have m: "codes_to (put_unary_encoded l mag) (get_unary_encoded mag) l (branches_n n)"
    by (rule branches_n_codes(1) [OF mag n(1) l])
  have W: "write_length_sign_coef coef mag sign bits = (\<lambda>w.
      bindR (put_unary_encoded l mag w) (\<lambda>(mag, w).
      bindR (if l \<noteq> 0 then put_bit (0 < sint coef) sign w else Ok (sign, w)) (\<lambda>(sign, w).
      bindR (if 1 < l then put_n_bits (unat ?a) (l - 1) bits w else Ok (bits, w)) (\<lambda>(bits, w).
        Ok ((mag, sign, bits), w)))))"
    unfolding write_length_sign_coef_def [abs_def] Let_def len one using fits z by simp
  show ?thesis
    unfolding W read_length_sign_coef_def [abs_def] Let_def
  proof (rule codes_to_bind [OF m])
    fix mag'
    assume mag': "branches_n n mag'"
    show "codes_to (\<lambda>w. bindR (if l \<noteq> 0 then put_bit (0 < sint coef) sign w else Ok (sign, w)) (\<lambda>(sign, w).
        bindR (if 1 < l then put_n_bits (unat ?a) (l - 1) bits w else Ok (bits, w)) (\<lambda>(bits, w).
          Ok ((mag', sign, bits), w))))
      (\<lambda>r. if l \<noteq> 0 then
          bindR (get_bit sign r) (\<lambda>(b, sign, r).
          bindR (if 1 < l then bindR (get_n_bits (l - 1) bits r) (\<lambda>(n, bits, r). Ok (of_nat n, bits, r))
                 else Ok (0, bits, r)) (\<lambda>(coef, bits, r).
            Ok (if \<not> b then - (coef OR push_bit (l - 1) 1) else coef OR push_bit (l - 1) 1,
                (mag', sign, bits), r)))
        else Ok (0, (mag', sign, bits), r)) coef ?ok"
    proof (cases "l = 0")
      case True
      then show ?thesis using z mag' sign bits by (simp add: codes_to_Ok)
    next
      case False
      then have nz: "coef \<noteq> 0" using z by simp
      obtain j where j: "l = Suc j" using False by (cases l) simp_all
      have top: "(of_nat (unat ?a mod 2 ^ j) OR push_bit j 1 :: i16) = ?a"
        using or_top_bit [of "unat ?a" j] j by (simp add: l_def)
      have bits_step: "codes_to (\<lambda>w. if 1 < l then put_n_bits (unat ?a) (l - 1) bits w else Ok (bits, w))
          (\<lambda>r. if 1 < l then bindR (get_n_bits (l - 1) bits r) (\<lambda>(n, bits, r). Ok (of_nat n, bits, r))
                 else Ok (0, bits, r)) (of_nat (unat ?a mod 2 ^ j) :: i16) (branches_n k)"
      proof (cases "1 < l")
        case True
        show ?thesis using True j codes_to_value [OF branches_n_codes(2) [OF bits, of j]] n(2) l by simp
      next
        case False
        then have "j = 0" using j by simp
        then show ?thesis using False bits by (simp add: codes_to_Ok)
      qed
      show ?thesis
        unfolding if_P [OF False]
      proof (rule codes_to_bind [OF codes_to_bit [OF sign]])
        fix s
        assume "branch_ok s"
        then show "codes_to (\<lambda>w. bindR (if 1 < l then put_n_bits (unat ?a) (l - 1) bits w else Ok (bits, w))
            (\<lambda>(bits, w). Ok ((mag', s, bits), w)))
          (\<lambda>r. bindR (if 1 < l then bindR (get_n_bits (l - 1) bits r) (\<lambda>(n, bits, r). Ok (of_nat n, bits, r))
                 else Ok (0, bits, r)) (\<lambda>(c, bits, r).
            Ok (if \<not> 0 < sint coef then - (c OR push_bit (l - 1) 1) else c OR push_bit (l - 1) 1,
                (mag', s, bits), r))) coef ?ok"
          using mag' length_sign_value [OF nz] top j by (intro codes_to_map [OF bits_step]) auto
      qed
    qed
  qed
qed

text \<open>Coefficients of the 7x7 block and DC differences: below 2^11 in absolute value.\<close>

lemma abs_below: "\<bar>i\<bar> < 2 ^ k \<Longrightarrow> bit_len (nat \<bar>i\<bar>) \<le> k" for i :: int
  by (simp add: bit_len_le_iff nat_less_iff)

lemma per_color_okD:
  assumes "per_color_ok m"
  shows "list_ok 9 (branches_n 64) (num_non_zeros_counts7x7 m)"
    "list_ok 9 (list_ok 49 (counts_ok 12 10)) (counts7x7 m)"
    "list_ok 7 (list_ok 14 (counts_ok 11 3)) (counts_x m)"
    "list_ok 256 (list_ok 6 (branches_n 128)) (residual_threshold_counts m)"
    "list_ok 3 (branches_n 12) (sign_counts m)"
  using assms by (simp_all add: per_color_ok_def)

lemma per_color_ok_sign: "per_color_ok m \<Longrightarrow> i < 3 \<Longrightarrow> branches_n 12 (sign_counts m ! i)"
  using list_ok_nth [OF per_color_okD(5)] by blast

lemma per_color_ok_set_sign:
  "per_color_ok m \<Longrightarrow> branches_n 12 bs \<Longrightarrow> per_color_ok (m\<lparr>sign_counts := (sign_counts m)[i := bs]\<rparr>)"
  by (auto simp: per_color_ok_def)

lemma counts_ok_fields:
  assumes "counts_ok n k c"
  shows "list_ok n (branches_n 11) (exponent_counts c)" "branches_n k (residual_noise_counts c)"
  using assms by (simp_all add: counts_ok_def MAX_EXPONENT_def)

lemma counts_ok_set:
  "counts_ok n k c \<Longrightarrow> branches_n 11 e \<Longrightarrow> branches_n k bs \<Longrightarrow>
    counts_ok n k (c\<lparr>exponent_counts := (exponent_counts c)[j := e], residual_noise_counts := bs\<rparr>)"
  by (auto simp: counts_ok_def MAX_EXPONENT_def)

lemma get_coef_branches_ok:
  assumes m: "per_color_ok m" and ix: "num_non_zeros_bin < 9" "zig49 < 49" "len < 12"
  obtains e s b where "get_coef_branches m num_non_zeros_bin zig49 len = Ok (e, s, b)"
    "branches_n 11 e" "branch_ok s" "branches_n 10 b"
proof -
  let ?c = "counts7x7 m ! num_non_zeros_bin ! zig49"
  have cs: "list_ok 9 (list_ok 49 (counts_ok 12 10)) (counts7x7 m)"
    "list_ok 3 (branches_n 12) (sign_counts m)"
    using m by (simp_all add: per_color_ok_def)
  have row: "list_ok 49 (counts_ok 12 10) (counts7x7 m ! num_non_zeros_bin)"
    using cs(1) ix(1) by (rule list_ok_nth)
  have c: "counts_ok 12 10 ?c" using row ix(2) by (rule list_ok_nth)
  note f = counts_ok_fields [OF c]
  have sg: "branches_n 12 (sign_counts m ! 0)" using per_color_ok_sign [OF m] by simp
  show ?thesis
  proof (rule that)
    show "get_coef_branches m num_non_zeros_bin zig49 len =
        Ok (exponent_counts ?c ! len, sign_counts m ! 0 ! 0, residual_noise_counts ?c)"
      using ix by (simp add: get_coef_branches_def size_defs list_ok_idx [OF cs(1)] list_ok_idx [OF row]
          list_ok_idx [OF f(1)] list_ok_idx [OF cs(2)] branches_n_idx [OF sg])
    show "branches_n 11 (exponent_counts ?c ! len)" using f(1) ix(3) by (rule list_ok_nth)
    show "branch_ok (sign_counts m ! 0 ! 0)" using sg by (rule branches_n_nth) simp
  qed (rule f(2))
qed

lemma set_coef_branches_ok:
  assumes m: "per_color_ok m" and ix: "num_non_zeros_bin < 9" "zig49 < 49"
    and bs: "branches_n 11 e" "branch_ok s" "branches_n 10 b"
  shows "per_color_ok (set_coef_branches m num_non_zeros_bin zig49 len (e, s, b))"
proof -
  let ?cs = "counts7x7 m ! num_non_zeros_bin"
  have row: "list_ok 49 (counts_ok 12 10) ?cs"
    using per_color_okD(2) [OF m] ix(1) by (rule list_ok_nth)
  have c: "counts_ok 12 10 (?cs ! zig49)" using row ix(2) by (rule list_ok_nth)
  have "branches_n 12 ((sign_counts m ! 0)[0 := s])" using per_color_ok_sign [OF m] bs by auto
  then show ?thesis
    using m list_ok_update [OF row counts_ok_set [OF c bs(1,3)]]
    by (auto simp: set_coef_branches_def per_color_ok_def Let_def)
qed

lemma codes_coef:
  assumes m: "per_color_ok m" and ix: "num_non_zeros_bin < 9" "zig49 < 49" "len < 12"
    and coef: "\<bar>sint coef\<bar> < 2 ^ 11"
  shows "codes_to (write_coef coef zig49 num_non_zeros_bin len m) (read_coef zig49 num_non_zeros_bin len m)
    coef per_color_ok"
proof -
  obtain e s b where g: "get_coef_branches m num_non_zeros_bin zig49 len = Ok (e, s, b)"
    and ok: "branches_n 11 e" "branch_ok s" "branches_n 10 b"
    by (rule get_coef_branches_ok [OF m ix])
  have "codes_to (write_length_sign_coef coef e s b) (read_length_sign_coef e s b) coef
      (\<lambda>(e, s, b). branches_n 11 e \<and> branch_ok s \<and> branches_n 10 b)"
    using ok by (intro codes_length_sign_coef abs_below [OF coef]) simp_all
  then show ?thesis
    unfolding write_coef_def [abs_def] read_coef_def [abs_def] g bindR.simps prod.case
    by (rule codes_to_map) (auto simp: set_coef_branches_ok [OF m ix(1,2)])
qed

lemma get_dc_branches_ok:
  assumes m: "model_ok m" and ix: "color_index < 2"
  obtains e s b where "get_dc_branches m uncertainty uncertainty2 color_index = Ok (e, s, b)"
    "branches_n 11 e" "branch_ok s" "branches_n 10 b"
proof -
  let ?i = "min (unat (u16_bit_length (unsigned_abs uncertainty))) (length (counts_dc m) - 1)"
  let ?j = "unat (u16_bit_length (unsigned_abs uncertainty2))"
  let ?c = "counts_dc m ! ?i" let ?pc = "per_color m ! color_index"
  let ?k = "calc_sign_index uncertainty2 + 1"
  have k: "?k < 12" by (simp add: calc_sign_index_def)
  have cs: "list_ok 12 (counts_ok 17 10) (counts_dc m)" "list_ok 2 per_color_ok (per_color m)"
    using m by (simp_all add: model_ok_def)
  have i: "?i < 12" using list_ok_length [OF cs(1)] by simp
  have j: "?j < 17" using bit_len_le_iff [of "unat (unsigned_abs uncertainty2)" 16] unat_lt2p [of "unsigned_abs uncertainty2"]
    by (simp add: unat_u16_bit_length)
  have c: "counts_ok 17 10 ?c" using cs(1) i by (rule list_ok_nth)
  have pc: "per_color_ok ?pc" using cs(2) ix by (rule list_ok_nth)
  note f = counts_ok_fields [OF c]
  have sc: "list_ok 3 (branches_n 12) (sign_counts ?pc)" using pc by (simp add: per_color_ok_def)
  have sg: "branches_n 12 (sign_counts ?pc ! 0)" using per_color_ok_sign [OF pc] by simp
  show ?thesis
  proof (rule that)
    show "get_dc_branches m uncertainty uncertainty2 color_index =
        Ok (exponent_counts ?c ! ?j, sign_counts ?pc ! 0 ! ?k, residual_noise_counts ?c)"
      unfolding get_dc_branches_def Let_def list_ok_idx [OF cs(1) i] bindR.simps list_ok_idx [OF f(1) j]
        list_ok_idx [OF cs(2) ix] list_ok_idx [OF sc zero_less_numeral] branches_n_idx [OF sg k] by simp
    show "branches_n 11 (exponent_counts ?c ! ?j)" using f(1) j by (rule list_ok_nth)
    show "branch_ok (sign_counts ?pc ! 0 ! ?k)" using sg k by (rule branches_n_nth)
  qed (rule f(2))
qed

lemma set_dc_branches_ok:
  assumes m: "model_ok m" and ix: "color_index < 2"
    and bs: "branches_n 11 e" "branch_ok s" "branches_n 10 b"
  shows "model_ok (set_dc_branches m uncertainty uncertainty2 color_index (e, s, b))"
proof -
  let ?i = "min (unat (u16_bit_length (unsigned_abs uncertainty))) (length (counts_dc m) - 1)"
  let ?pc = "per_color m ! color_index"
  have cs: "list_ok 12 (counts_ok 17 10) (counts_dc m)" "list_ok 2 per_color_ok (per_color m)"
    using m by (simp_all add: model_ok_def)
  have "?i < 12" using list_ok_length [OF cs(1)] by simp
  then have c: "counts_ok 17 10 (counts_dc m ! ?i)" using list_ok_nth [OF cs(1)] by blast
  have pc: "per_color_ok ?pc" using cs(2) ix by (rule list_ok_nth)
  have "branches_n 12 ((sign_counts ?pc ! 0)[i := s])" for i using per_color_ok_sign [OF pc] bs by auto
  from per_color_ok_set_sign [OF pc this] show ?thesis
    using cs list_ok_update [OF cs(1) counts_ok_set [OF c bs(1,3)]]
    by (auto simp: set_dc_branches_def model_ok_def Let_def)
qed

lemma codes_dc:
  assumes m: "model_ok m" and ix: "color_index < 2" and coef: "\<bar>sint coef\<bar> < 2 ^ 11"
  shows "codes_to (write_dc color_index coef uncertainty uncertainty2 m)
    (read_dc color_index uncertainty uncertainty2 m) coef model_ok"
proof -
  obtain e s b where g: "get_dc_branches m uncertainty uncertainty2 color_index = Ok (e, s, b)"
    and ok: "branches_n 11 e" "branch_ok s" "branches_n 10 b"
    by (rule get_dc_branches_ok [OF m ix])
  have "codes_to (write_length_sign_coef coef e s b) (read_length_sign_coef e s b) coef
      (\<lambda>(e, s, b). branches_n 11 e \<and> branch_ok s \<and> branches_n 10 b)"
    using ok by (intro codes_length_sign_coef abs_below [OF coef]) simp_all
  then show ?thesis
    unfolding write_dc_def [abs_def] read_dc_def [abs_def] g bindR.simps prod.case
    by (rule codes_to_map) (auto simp: set_dc_branches_ok [OF m ix])
qed

text \<open>A coefficient that is out of range is refused.\<close>

lemma write_length_sign_coef_error:
  assumes "length mag \<le> 14" "2 ^ length mag \<le> \<bar>sint coef\<bar>"
  shows "write_length_sign_coef coef mag sign bits w = err_exit_code CoefficientOutOfRange"
proof -
  let ?a = "unsigned_abs coef"
  have "\<not> bit_len (unat ?a) \<le> length mag"
    using assms(2) by (simp add: unat_unsigned_abs bit_len_le_iff nat_less_iff)
  moreover have "unat (of_nat (length mag) :: u8) = length mag" using assms(1) by (simp add: unat_of_nat)
  ultimately have "of_nat (length mag) < u16_bit_length ?a"
    by (simp add: word_less_nat_alt unat_u16_bit_length)
  then show ?thesis by (simp add: write_length_sign_coef_def Let_def)
qed

text \<open>The counts of nonzero coefficients.\<close>

lemma codes_non_zero_7x7_count:
  assumes m: "per_color_ok m" and ctx: "unat context_bin < 9" and n: "unat n < 64"
  shows "codes_to (write_non_zero_7x7_count context_bin n m) (read_non_zero_7x7_count context_bin m)
    n per_color_ok"
proof -
  have cs: "list_ok 9 (branches_n 64) (num_non_zeros_counts7x7 m)" using m by (simp add: per_color_ok_def)
  let ?bs = "num_non_zeros_counts7x7 m ! unat context_bin"
  have bs: "branches_n 64 ?bs" using cs ctx by (rule list_ok_nth)
  have "codes_to (put_grid n ?bs) (get_grid ?bs) (unat n) (branches_like ?bs)"
    using bs n by (intro codes_to_grid [where n = 6]) (simp_all add: branches_n_def)
  then show ?thesis
    unfolding write_non_zero_7x7_count_def [abs_def] read_non_zero_7x7_count_def [abs_def]
      list_ok_idx [OF cs ctx] bindR.simps
    by (rule codes_to_map) (use m branches_n_like [OF bs] in \<open>auto simp: per_color_ok_def\<close>)
qed

lemma codes_non_zero_edge_count:
  assumes m: "per_color_ok m" and ix: "unat est_eob < 8" "unat bin < 8" and n: "unat n < 8"
  shows "codes_to (write_non_zero_edge_count horizontal est_eob bin n m)
    (read_non_zero_edge_count horizontal est_eob bin m) n per_color_ok"
proof -
  let ?cs = "if horizontal then num_non_zeros_counts8x1 m else num_non_zeros_counts1x8 m"
  let ?bs = "?cs ! unat est_eob ! unat bin"
  have cs: "list_ok 8 (list_ok 8 (branches_n 8)) ?cs" using m by (simp add: per_color_ok_def)
  have row: "list_ok 8 (branches_n 8) (?cs ! unat est_eob)" using cs ix(1) by (rule list_ok_nth)
  have bs: "branches_n 8 ?bs" using row ix(2) by (rule list_ok_nth)
  have g: "get_non_zero_counts_edge horizontal est_eob bin m = Ok ?bs"
    unfolding get_non_zero_counts_edge_def Let_def list_ok_idx [OF cs ix(1)] bindR.simps
      list_ok_idx [OF row ix(2)] by simp
  have "codes_to (put_grid n ?bs) (get_grid ?bs) (unat n) (branches_like ?bs)"
    using bs n by (intro codes_to_grid [where n = 3]) (simp_all add: branches_n_def)
  moreover have "per_color_ok (set_non_zero_counts_edge horizontal est_eob bin bs' m)"
    if "branches_like ?bs bs'" for bs'
  proof -
    have "list_ok 8 (list_ok 8 (branches_n 8)) (?cs[unat est_eob := (?cs ! unat est_eob)[unat bin := bs']])"
      using cs row branches_n_like [OF bs that] by blast
    then show ?thesis using m by (auto simp: set_non_zero_counts_edge_def per_color_ok_def Let_def split: if_splits)
  qed
  ultimately show ?thesis
    unfolding write_non_zero_edge_count_def [abs_def] read_non_zero_edge_count_def [abs_def] g bindR.simps
    by (rule codes_to_map) simp_all
qed

text \<open>
  The upper bits of an edge coefficient: what is coded so far is the context of the next bit, capped
  by the number of branches; encoder and decoder hold the same prefix of the bits.
\<close>

lemma edge_context_step:
  assumes "c' = 2 * c + of_bool b"
  shows "min (2 * min c 127 + of_bool b) 127 = min c' (127 :: nat)"
  unfolding assms by (cases b) (simp_all add: min_def)

lemma div_pow2_bit: "(a :: nat) div 2 ^ i = 2 * (a div 2 ^ Suc i) + of_bool (odd (a div 2 ^ i))"
proof -
  have "a div 2 ^ Suc i = a div 2 ^ i div 2" by (simp only: power_Suc2 div_mult2_eq)
  moreover have "x = 2 * (x div 2) + of_bool (odd x)" for x :: nat by (cases "odd x") simp_all
  ultimately show ?thesis by metis
qed

lemma codes_residual_loop:
  assumes a: "unat abs_coef < 2 ^ 15" and mt: "mt \<le> n" and bs: "branches_n 128 bs" and n: "n < 16"
  shows "codes_to (write_residual_loop abs_coef mt n (min (unat abs_coef div 2 ^ n) 127) bs)
    (read_residual_loop mt n (of_nat (unat abs_coef div 2 ^ n)) (min (unat abs_coef div 2 ^ n) 127) bs)
    (of_nat (unat abs_coef div 2 ^ mt)) (branches_n 128)"
  using mt bs n
proof (induction n arbitrary: bs)
  case 0
  then show ?case by (simp add: codes_to_Ok write_residual_loop.simps [abs_def] read_residual_loop.simps [abs_def])
next
  case (Suc i)
  let ?a = "unat abs_coef"
  let ?c = "min (?a div 2 ^ Suc i) 127" let ?b = "bs ! ?c"
  let ?bit = "abs_coef AND push_bit i 1 \<noteq> 0"
  show ?case
  proof (cases "mt \<le> i")
    case False
    then have "mt = Suc i" using Suc.prems by simp
    then show ?thesis using Suc.prems
      by (simp add: codes_to_Ok write_residual_loop.simps [abs_def] read_residual_loop.simps [abs_def])
  next
    case True
    have c: "?c < 128" by simp
    have len: "length bs = 128" using Suc.prems by (simp add: branches_n_def)
    have bit: "?bit \<longleftrightarrow> odd (?a div 2 ^ i)"
      using Suc.prems(3) by (intro and_pow2_ne_0) simp
    have step: "?a div 2 ^ i = 2 * (?a div 2 ^ Suc i) + of_bool ?bit"
      unfolding bit by (rule div_pow2_bit)
    have enc: "min (2 * ?c + of_bool ?bit) (length bs - 1) = min (?a div 2 ^ i) 127"
      using edge_context_step [OF step] len by simp
    have dec: "push_bit 1 (of_nat (?a div 2 ^ Suc i)) OR of_bool ?bit = (of_nat (?a div 2 ^ i) :: i16)"
      using of_nat_append_bits [of "of_bool ?bit" 1 "?a div 2 ^ Suc i", where 'a = 16] step
      by (simp add: mult.commute)
    have "?a div 2 ^ i < 2 ^ 15" using a by (rule order_le_less_trans [OF div_le_dividend])
    then have ctx: "min (unat (of_nat (?a div 2 ^ i) :: i16)) (length bs - 1) = min (?a div 2 ^ i) 127"
      using len by (simp add: unat_of_nat)
    have W: "write_residual_loop abs_coef mt (Suc i) ?c bs = (\<lambda>w. bindR (put_bit ?bit ?b w) (\<lambda>(b, w).
        write_residual_loop abs_coef mt i (min (?a div 2 ^ i) 127) (bs[?c := b]) w))"
      by (simp only: write_residual_loop.simps [abs_def] Let_def if_P [OF True]
          branches_n_idx [OF Suc.prems(2) c] bindR.simps enc)
    have R: "read_residual_loop mt (Suc i) (of_nat (?a div 2 ^ Suc i)) ?c bs = (\<lambda>r.
        bindR (get_bit ?b r) (\<lambda>(d, b, r).
          read_residual_loop mt i (push_bit 1 (of_nat (?a div 2 ^ Suc i)) OR of_bool d)
            (min (unat (push_bit 1 (of_nat (?a div 2 ^ Suc i)) OR of_bool d :: i16)) (length bs - 1))
            (bs[?c := b]) r))"
      by (simp only: read_residual_loop.simps [abs_def] Let_def if_P [OF True]
          branches_n_idx [OF Suc.prems(2) c] bindR.simps)
    show ?thesis
      unfolding W R
    proof (rule codes_to_bind [OF codes_to_bit [OF branches_n_nth [OF Suc.prems(2) c]]])
      fix b
      assume "branch_ok b"
      then have "branches_n 128 (bs[?c := b])" using Suc.prems(2) by auto
      from Suc.IH [OF True this] Suc.prems(3)
      show "codes_to (write_residual_loop abs_coef mt i (min (?a div 2 ^ i) 127) (bs[?c := b]))
        (read_residual_loop mt i (push_bit 1 (of_nat (?a div 2 ^ Suc i)) OR of_bool ?bit)
          (min (unat (push_bit 1 (of_nat (?a div 2 ^ Suc i)) OR of_bool ?bit :: i16)) (length bs - 1))
          (bs[?c := b])) (of_nat (?a div 2 ^ mt)) (branches_n 128)"
        unfolding dec ctx by simp
    qed
  qed
qed

lemma get_residual_ok:
  assumes m: "per_color_ok m"
  obtains bs where "get_residual_threshold_counts m p t len = Ok bs" "branches_n 128 bs"
    "\<And>bs'. branches_n 128 bs' \<Longrightarrow> per_color_ok (set_residual_threshold_counts m p t len bs')"
proof -
  let ?cs = "residual_threshold_counts m"
  have cs: "list_ok 256 (list_ok 6 (branches_n 128)) ?cs" by (rule per_color_okD(4) [OF m])
  have "list_ok 6 (branches_n 128) (?cs ! 0)" using cs by (rule list_ok_nth) simp
  note len = list_ok_length [OF cs] list_ok_length [OF this]
  obtain i j where ij: "residual_threshold_index m p t len = (i, j)" "i < 256" "j < 6"
    using len by (simp add: residual_threshold_index_def)
  have row: "list_ok 6 (branches_n 128) (?cs ! i)" using cs ij(2) by (rule list_ok_nth)
  have bs: "branches_n 128 (?cs ! i ! j)" using row ij(3) by (rule list_ok_nth)
  show ?thesis
  proof (rule that)
    show "get_residual_threshold_counts m p t len = Ok (?cs ! i ! j)"
      by (simp add: get_residual_threshold_counts_def ij list_ok_idx [OF cs] list_ok_idx [OF row])
    show "branches_n 128 (?cs ! i ! j)" by (rule bs)
    fix bs'
    assume "branches_n 128 bs'"
    then have "list_ok 256 (list_ok 6 (branches_n 128)) (?cs[i := (?cs ! i)[j := bs']])"
      using cs row by blast
    then show "per_color_ok (set_residual_threshold_counts m p t len bs')"
      using m by (simp add: set_residual_threshold_counts_def ij per_color_ok_def Let_def)
  qed
qed

lemma get_edge_counts_ok:
  assumes m: "per_color_ok m" and ix: "bin < 7" "zig15 < 14"
  obtains c where "get_edge_counts m bin zig15 = Ok c" "counts_ok 11 3 c"
    "\<And>c'. counts_ok 11 3 c' \<Longrightarrow> per_color_ok (set_edge_counts m bin zig15 c')"
proof -
  let ?cs = "counts_x m"
  have cs: "list_ok 7 (list_ok 14 (counts_ok 11 3)) ?cs" by (rule per_color_okD(3) [OF m])
  have row: "list_ok 14 (counts_ok 11 3) (?cs ! bin)" using cs ix(1) by (rule list_ok_nth)
  show ?thesis
  proof (rule that)
    show "get_edge_counts m bin zig15 = Ok (?cs ! bin ! zig15)"
      by (simp add: get_edge_counts_def list_ok_idx [OF cs ix(1)] list_ok_idx [OF row ix(2)])
    show "counts_ok 11 3 (?cs ! bin ! zig15)" using row ix(2) by (rule list_ok_nth)
    fix c'
    assume "counts_ok 11 3 c'"
    then have "list_ok 7 (list_ok 14 (counts_ok 11 3)) (?cs[bin := (?cs ! bin)[zig15 := c']])"
      using cs row by blast
    then show "per_color_ok (set_edge_counts m bin zig15 c')"
      using m by (simp add: set_edge_counts_def per_color_ok_def)
  qed
qed

lemma edge_bits_join:
  assumes "bit_len a = Suc i" "j = min i t"
  shows "push_bit j (of_nat (if t < i then a div 2 ^ t else 1)) OR of_nat (a mod 2 ^ j) = (of_nat a :: i16)"
proof -
  have "a div 2 ^ i = 1"
  proof -
    have "0 < a" using assms(1) by (cases "a = 0") simp_all
    with bit_len_lower [of a] bit_len_upper [of a] assms(1) have "2 ^ i \<le> a" "a < 2 * 2 ^ i" by simp_all
    then show ?thesis by (simp add: div_nat_eqI)
  qed
  then have "(if t < i then a div 2 ^ t else 1) = a div 2 ^ j" using assms(2) by simp
  then show ?thesis
    using of_nat_append_bits [of "a mod 2 ^ j" j "a div 2 ^ j", where 'a = 16] by (simp only: div_mult_mod_eq) simp
qed

lemma codes_edge_bits:
  assumes m: "per_color_ok m" and qt: "tables_ok qt" and ix: "bin < 7" "zig15 < 14"
    and len: "bit_len (unat a) = len" "1 < len" "len \<le> 11"
  shows "codes_to (write_edge_bits qt a len zig15 bin best_prior m)
    (read_edge_bits qt len zig15 bin best_prior m) (of_nat (unat a)) per_color_ok"
proof -
  obtain i where i: "len = Suc i" using len(2) by (cases len) simp_all
  have small: "unat a < 2 ^ 11" using len bit_len_le_iff [of "unat a" 11] by simp
  have one: "unat a div 2 ^ i = 1"
  proof -
    have "0 < unat a" using len by (cases "unat a = 0") simp_all
    with bit_len_lower [of "unat a"] bit_len_upper [of "unat a"] len(1) i
    have "2 ^ i \<le> unat a" "unat a < 2 * 2 ^ i" by simp_all
    then show ?thesis by (simp add: div_nat_eqI)
  qed
  obtain t where t: "get_min_noise_threshold qt zig15 = Ok t" "unat t \<le> 3"
    using qt ix(2) by (simp add: get_min_noise_threshold_def tables_ok_def idx_in_range)
  let ?p = "unsigned_abs best_prior"
  let ?c = "of_nat (if unat t < i then unat a div 2 ^ unat t else 1) :: i16"
  have upper: "codes_to (\<lambda>w. if unat t < i then
        bindR (get_residual_threshold_counts m ?p (unat t) len) (\<lambda>bs.
        bindR (write_residual_loop a (unat t) i 1 bs w) (\<lambda>(bs, w).
          Ok (set_residual_threshold_counts m ?p (unat t) len bs, w)))
      else Ok (m, w))
    (\<lambda>r. if unat t < i then
        bindR (get_residual_threshold_counts m ?p (unat t) len) (\<lambda>bs.
        bindR (read_residual_loop (unat t) i 1 1 bs r) (\<lambda>(coef, bs, r).
          Ok (coef, set_residual_threshold_counts m ?p (unat t) len bs, r)))
      else Ok (1, m, r)) ?c per_color_ok"
  proof (cases "unat t < i")
    case True
    obtain bs where bs: "get_residual_threshold_counts m ?p (unat t) len = Ok bs" "branches_n 128 bs"
      "\<And>bs'. branches_n 128 bs' \<Longrightarrow> per_color_ok (set_residual_threshold_counts m ?p (unat t) len bs')"
      using get_residual_ok [OF m, of ?p "unat t" len] by blast
    have loop: "codes_to (write_residual_loop a (unat t) i 1 bs) (read_residual_loop (unat t) i 1 1 bs)
        (of_nat (unat a div 2 ^ unat t)) (branches_n 128)"
      using codes_residual_loop [of a "unat t" i bs] small True bs(2) i len(3) one by simp
    show ?thesis using True unfolding bs(1) bindR.simps if_P [OF True]
      by (intro codes_to_map [OF loop]) (simp_all add: bs(3))
  next
    case False
    then show ?thesis using m by (simp add: codes_to_Ok)
  qed
  let ?j = "min i (unat t)"
  have join: "push_bit ?j ?c OR of_nat (unat a mod 2 ^ ?j) = (of_nat (unat a) :: i16)"
    by (rule edge_bits_join) (simp_all add: len(1) i)
  have lower: "codes_to (\<lambda>w. if 0 < ?j then
        bindR (get_edge_counts m bin zig15) (\<lambda>c.
        bindR (put_n_bits (unat a) ?j (residual_noise_counts c) w) (\<lambda>(bs, w).
          Ok (set_edge_counts m bin zig15 (c\<lparr>residual_noise_counts := bs\<rparr>), w)))
      else Ok (m, w))
    (\<lambda>r. if 0 < ?j then
        bindR (get_edge_counts m bin zig15) (\<lambda>c.
        bindR (get_n_bits ?j (residual_noise_counts c) r) (\<lambda>(n, bs, r).
          Ok (push_bit ?j ?c OR of_nat n, set_edge_counts m bin zig15 (c\<lparr>residual_noise_counts := bs\<rparr>), r)))
      else Ok (?c, m, r)) (of_nat (unat a)) per_color_ok"
    if m: "per_color_ok m" for m
  proof (cases "0 < ?j")
    case True
    obtain c where c: "get_edge_counts m bin zig15 = Ok c" "counts_ok 11 3 c"
      "\<And>c'. counts_ok 11 3 c' \<Longrightarrow> per_color_ok (set_edge_counts m bin zig15 c')"
      using get_edge_counts_ok [OF m ix] by blast
    have "branches_n 3 (residual_noise_counts c)" by (rule counts_ok_fields(2) [OF c(2)])
    from branches_n_codes(2) [OF this, of ?j "unat a"] t(2)
    have "codes_to (put_n_bits (unat a) ?j (residual_noise_counts c)) (get_n_bits ?j (residual_noise_counts c))
      (unat a mod 2 ^ ?j) (branches_n 3)" by simp
    moreover have "per_color_ok (set_edge_counts m bin zig15 (c\<lparr>residual_noise_counts := bs\<rparr>))"
      if "branches_n 3 bs" for bs
      using c(2) that by (intro c(3)) (simp add: counts_ok_def)
    ultimately show ?thesis unfolding c(1) bindR.simps if_P [OF True]
      by (rule codes_to_map) (simp_all only: join)
  next
    case False
    then have j0: "?j = 0" by (simp only: not_gr_zero)
    have "?c = of_nat (unat a)" using join [unfolded j0] by simp
    then show ?thesis unfolding if_not_P [OF False] using m by (simp add: codes_to_Ok)
  qed
  show ?thesis
    unfolding write_edge_bits_def [abs_def] read_edge_bits_def [abs_def] t(1) bindR.simps Let_def i diff_Suc_1
    by (rule codes_to_bind [OF upper [unfolded i]]) (rule lower)
qed

lemma edge_prior_bit_len_less: "edge_prior_bit_len p < 11"
  by (simp add: edge_prior_bit_len_def MAX_EXPONENT_def)

lemma codes_edge_coefficient:
  assumes m: "per_color_ok m" and qt: "tables_ok qt" and zig15: "zig15 < 14"
    and n: "n \<noteq> 0" "unat n \<le> 7" and coef: "\<bar>sint coef\<bar> < 2 ^ 11"
  shows "codes_to (write_edge_coefficient qt coef zig15 n best_prior m)
    (read_edge_coefficient qt zig15 n best_prior m) coef per_color_ok"
proof -
  let ?a = "unsigned_abs coef" let ?bin = "unat n - 1" let ?l = "edge_prior_bit_len best_prior"
  let ?si = "calc_sign_index (ucast best_prior :: i16)"
  define len where "len = bit_len (unat ?a)"
  have len': "unat (u16_bit_length ?a) = len" by (simp add: unat_u16_bit_length len_def)
  have len11: "len \<le> 11" using abs_below [OF coef] by (simp add: len_def unat_unsigned_abs)
  have z: "coef = 0 \<longleftrightarrow> len = 0"
  proof
    assume "len = 0"
    then have "unat ?a = 0" using bit_len_pos [of "unat ?a"] by (cases "unat ?a = 0") (simp_all add: len_def)
    then have "sint coef = 0" using unat_unsigned_abs [of coef] by simp
    then show "coef = 0" by (simp only: signed_eq_0_iff)
  qed (simp add: len_def unsigned_abs_def)
  have bin: "?bin < 7" using n by (simp add: unat_gt_0 [symmetric])
  obtain c where c: "get_edge_counts m ?bin zig15 = Ok c" "counts_ok 11 3 c"
    "\<And>c'. counts_ok 11 3 c' \<Longrightarrow> per_color_ok (set_edge_counts m ?bin zig15 c')"
    using get_edge_counts_ok [OF m bin zig15] by blast
  note f = counts_ok_fields [OF c(2)]
  have e: "branches_n 11 (exponent_counts c ! ?l)" using f(1) edge_prior_bit_len_less by (rule list_ok_nth)
  have unary: "codes_to (put_unary_encoded len (exponent_counts c ! ?l)) (get_unary_encoded (exponent_counts c ! ?l))
      len (branches_n 11)"
    by (rule branches_n_codes(1) [OF e _ len11]) simp
  let ?m1 = "\<lambda>ea. set_edge_counts m ?bin zig15 (c\<lparr>exponent_counts := (exponent_counts c)[?l := ea]\<rparr>)"
  have m1: "per_color_ok (?m1 ea)" if "branches_n 11 ea" for ea
    using c(2) that by (intro c(3)) (auto simp: counts_ok_def MAX_EXPONENT_def)
  have asserts: "n \<noteq> 0 \<and> unat n - 1 < NUM_NON_ZERO_EDGE_BINS"
    using n bin by (simp add: NUM_NON_ZERO_EDGE_BINS_def)
  have fits: "\<not> MAX_EXPONENT < len" using len11 by (simp add: MAX_EXPONENT_def)
  have expo: "idx (exponent_counts c) ?l = Ok (exponent_counts c ! ?l)"
    by (rule list_ok_idx [OF f(1) edge_prior_bit_len_less])
  have W: "write_edge_coefficient qt coef zig15 n best_prior m = (\<lambda>w.
      bindR (put_unary_encoded len (exponent_counts c ! ?l) w) (\<lambda>(ea, w).
        if len \<noteq> 0 then
          bindR (get_edge_sign (?m1 ea) ?si ?l) (\<lambda>sign.
          bindR (put_bit (0 \<le> sint coef) sign w) (\<lambda>(sign, w).
            if 1 < len then write_edge_bits qt ?a len zig15 ?bin best_prior (set_edge_sign (?m1 ea) ?si ?l sign) w
            else Ok (set_edge_sign (?m1 ea) ?si ?l sign, w)))
        else Ok (?m1 ea, w)))"
    unfolding write_edge_coefficient_def [abs_def] Let_def len' by (simp only: asserts zig15 fits z c(1) expo
        assertR_True bindR.simps if_False not_False_eq_True simp_thms)
  have R: "read_edge_coefficient qt zig15 n best_prior m = (\<lambda>r.
      bindR (get_unary_encoded (exponent_counts c ! ?l) r) (\<lambda>(len, ea, r).
        if len \<noteq> 0 then
          bindR (get_edge_sign (?m1 ea) ?si ?l) (\<lambda>sign.
          bindR (get_bit sign r) (\<lambda>(b, sign, r).
          bindR (if 1 < len then read_edge_bits qt len zig15 ?bin best_prior (set_edge_sign (?m1 ea) ?si ?l sign) r
                 else Ok (1, set_edge_sign (?m1 ea) ?si ?l sign, r)) (\<lambda>(coef, m, r).
            Ok (if \<not> b then - coef else coef, m, r))))
        else Ok (0, ?m1 ea, r)))"
    unfolding read_edge_coefficient_def [abs_def] Let_def by (simp only: asserts zig15 c(1) expo
        assertR_True bindR.simps simp_thms)
  show ?thesis
    unfolding W R
  proof (rule codes_to_bind [OF unary])
    fix ea
    assume ea: "branches_n 11 ea"
    define m1 where "m1 = ?m1 ea"
    have m1': "per_color_ok m1" using m1 [OF ea] by (simp add: m1_def)
    show "codes_to (\<lambda>w. if len \<noteq> 0 then
          bindR (get_edge_sign (?m1 ea) ?si ?l) (\<lambda>sign.
          bindR (put_bit (0 \<le> sint coef) sign w) (\<lambda>(sign, w).
            if 1 < len then write_edge_bits qt ?a len zig15 ?bin best_prior (set_edge_sign (?m1 ea) ?si ?l sign) w
            else Ok (set_edge_sign (?m1 ea) ?si ?l sign, w)))
        else Ok (?m1 ea, w))
      (\<lambda>r. if len \<noteq> 0 then
          bindR (get_edge_sign (?m1 ea) ?si ?l) (\<lambda>sign.
          bindR (get_bit sign r) (\<lambda>(b, sign, r).
          bindR (if 1 < len then read_edge_bits qt len zig15 ?bin best_prior (set_edge_sign (?m1 ea) ?si ?l sign) r
                 else Ok (1, set_edge_sign (?m1 ea) ?si ?l sign, r)) (\<lambda>(coef, m, r).
            Ok (if \<not> b then - coef else coef, m, r))))
        else Ok (0, ?m1 ea, r)) coef per_color_ok"
    proof (cases "len = 0")
      case True
      then show ?thesis using z m1 [OF ea] by (simp add: codes_to_Ok)
    next
      case False
      then have nz: "coef \<noteq> 0" using z by simp
      have nz': "sint coef \<noteq> 0" using nz signed_eq_0_iff by blast
      have si: "?si < 3" by (simp add: calc_sign_index_def)
      have sc: "list_ok 3 (branches_n 12) (sign_counts m1)" by (rule per_color_okD(5) [OF m1'])
      have sb: "branches_n 12 (sign_counts m1 ! ?si)" using sc si by (rule list_ok_nth)
      have l12: "?l < 12" using edge_prior_bit_len_less [of best_prior] by simp
      have g: "get_edge_sign m1 ?si ?l = Ok (sign_counts m1 ! ?si ! ?l)"
        by (simp add: get_edge_sign_def list_ok_idx [OF sc si] branches_n_idx [OF sb l12])
      have bits: "codes_to (\<lambda>w. if 1 < len then write_edge_bits qt ?a len zig15 ?bin best_prior m2 w else Ok (m2, w))
          (\<lambda>r. if 1 < len then read_edge_bits qt len zig15 ?bin best_prior m2 r else Ok (1, m2, r))
          (of_nat (unat ?a) :: i16) per_color_ok" if m2: "per_color_ok m2" for m2
      proof (cases "1 < len")
        case True
        then show ?thesis using codes_edge_bits [OF m2 qt bin zig15 len_def [symmetric] True len11] by simp
      next
        case one: False
        with False have "len = 1" by simp
        then have "unat ?a = 1"
          using bit_len_lower [of "unat ?a"] bit_len_upper [of "unat ?a"] by (cases "unat ?a = 0") (simp_all add: len_def)
        then show ?thesis using one m2 by (simp add: codes_to_Ok)
      qed
      show ?thesis
        unfolding if_P [OF False] m1_def [symmetric] g bindR.simps
      proof (rule codes_to_bind [OF codes_to_bit [OF branches_n_nth [OF sb l12]]])
        fix s
        assume s: "branch_ok s"
        have m2: "per_color_ok (set_edge_sign m1 ?si ?l s)"
          unfolding set_edge_sign_def using branches_n_update [OF sb s] by (rule per_color_ok_set_sign [OF m1'])
        have "(if \<not> 0 \<le> sint coef then - of_nat (unat ?a) else of_nat (unat ?a)) = coef"
          using length_sign_value [OF nz] nz' by (auto split: if_splits)
        then show "codes_to (\<lambda>w. if 1 < len then write_edge_bits qt ?a len zig15 ?bin best_prior (set_edge_sign m1 ?si ?l s) w
            else Ok (set_edge_sign m1 ?si ?l s, w))
          (\<lambda>r. bindR (if 1 < len then read_edge_bits qt len zig15 ?bin best_prior (set_edge_sign m1 ?si ?l s) r
                 else Ok (1, set_edge_sign m1 ?si ?l s, r)) (\<lambda>(c, m, r).
            Ok (if \<not> 0 \<le> sint coef then - c else c, m, r))) coef per_color_ok"
          using codes_to_value [OF bits [OF m2], of "\<lambda>c. if \<not> 0 \<le> sint coef then - c else c"] by simp
      qed
    qed
  qed
qed

lemma write_edge_coefficient_error:
  assumes m: "per_color_ok m" and zig15: "zig15 < 14" and n: "n \<noteq> 0" "unat n \<le> 7"
    and coef: "2 ^ 11 \<le> \<bar>sint coef\<bar>"
  shows "write_edge_coefficient qt coef zig15 n best_prior m w = err_exit_code CoefficientOutOfRange"
proof -
  have bin: "unat n - 1 < 7" using n by (simp add: unat_gt_0 [symmetric])
  obtain c where c: "get_edge_counts m (unat n - 1) zig15 = Ok c" "counts_ok 11 3 c"
    using get_edge_counts_ok [OF m bin zig15] by blast
  have expo: "idx (exponent_counts c) (edge_prior_bit_len best_prior)
      = Ok (exponent_counts c ! edge_prior_bit_len best_prior)"
    by (rule list_ok_idx [OF counts_ok_fields(1) [OF c(2)] edge_prior_bit_len_less])
  have "\<not> bit_len (nat \<bar>sint coef\<bar>) \<le> 11" using coef by (simp add: bit_len_le_iff nat_less_iff)
  then have "MAX_EXPONENT < unat (u16_bit_length (unsigned_abs coef))"
    by (simp add: unat_u16_bit_length unat_unsigned_abs MAX_EXPONENT_def)
  moreover have "n \<noteq> 0 \<and> unat n - 1 < NUM_NON_ZERO_EDGE_BINS" using n bin by (simp add: NUM_NON_ZERO_EDGE_BINS_def)
  ultimately show ?thesis
    unfolding write_edge_coefficient_def Let_def c(1) by (simp only: zig15 expo assertR_True bindR.simps if_True simp_thms)
qed

section \<open>The contracts\<close>

interpretation coef_codec: value_codec "\<lambda>coef. write_coef coef zig49 bin len" "read_coef zig49 bin len"
    "\<lambda>coef. \<bar>sint coef\<bar> < 2 ^ 11" "\<lambda>m. per_color_ok m \<and> zig49 < 49 \<and> bin < 9 \<and> len < 12" for zig49 bin len
  using codes_coef by unfold_locales (fastforce simp: codes_to_def)

interpretation edge_codec: value_codec "\<lambda>coef. write_edge_coefficient qt coef zig15 n best_prior"
    "read_edge_coefficient qt zig15 n best_prior" "\<lambda>coef. \<bar>sint coef\<bar> < 2 ^ 11"
    "\<lambda>m. per_color_ok m \<and> tables_ok qt \<and> zig15 < 14 \<and> n \<noteq> 0 \<and> unat n \<le> 7" for qt zig15 n best_prior
  using codes_edge_coefficient by unfold_locales (fastforce simp: codes_to_def)

interpretation dc_codec: value_codec "\<lambda>coef. write_dc color_index coef u u2" "read_dc color_index u u2"
    "\<lambda>coef. \<bar>sint coef\<bar> < 2 ^ 11" "\<lambda>m. model_ok m \<and> color_index < 2" for color_index u u2
  using codes_dc by unfold_locales (fastforce simp: codes_to_def)

interpretation count7x7_codec: value_codec "\<lambda>n. write_non_zero_7x7_count ctx n" "read_non_zero_7x7_count ctx"
    "\<lambda>n. unat n < 64" "\<lambda>m. per_color_ok m \<and> unat ctx < 9" for ctx
  using codes_non_zero_7x7_count by unfold_locales (fastforce simp: codes_to_def)

interpretation edge_count_codec: value_codec "\<lambda>n. write_non_zero_edge_count horizontal est_eob bin n"
    "read_non_zero_edge_count horizontal est_eob bin"
    "\<lambda>n. unat n < 8" "\<lambda>m. per_color_ok m \<and> unat est_eob < 8 \<and> unat bin < 8" for horizontal est_eob bin
  using codes_non_zero_edge_count by unfold_locales (fastforce simp: codes_to_def)

end
