(* ===== verification/Simd.thy ===== *)
theory Simd
  imports Prelude "HOL-Library.Signed_Division"
begin

text \<open>
  The vector operations of the crate \<open>wide\<close>, which the predictors use and which is not part of the
  repository. A vector of eight lanes is the list of its lanes (\<open>to_array\<close>, \<open>new\<close> and the casts of
  \<open>bytemuck\<close> only reinterpret it); the operations are the fields of the record \<open>simd\<close>, a parameter of
  every definition that uses them. The locale \<open>simd_laws\<close> states what their documentation promises:
  every operation works lane by lane in wrapping arithmetic. \<open>lane_ops\<close> is an instance that computes.
\<close>

type_synonym i16x8 = "i16 list"
type_synonym u16x8 = "u16 list"
type_synonym i32x8 = "i32 list"

record simd =
  add_i16 :: "i16x8 \<Rightarrow> i16x8 \<Rightarrow> i16x8"
  sub_i16 :: "i16x8 \<Rightarrow> i16x8 \<Rightarrow> i16x8"
  shr_i16 :: "i16x8 \<Rightarrow> nat \<Rightarrow> i16x8"
  min_i16 :: "i16x8 \<Rightarrow> i16x8 \<Rightarrow> i16x8"
  max_i16 :: "i16x8 \<Rightarrow> i16x8 \<Rightarrow> i16x8"
  reduce_min_i16 :: "i16x8 \<Rightarrow> i16"
  reduce_max_i16 :: "i16x8 \<Rightarrow> i16"
  reduce_add_i16 :: "i16x8 \<Rightarrow> i16"
  simd_eq_i16 :: "i16x8 \<Rightarrow> i16x8 \<Rightarrow> i16x8"
  not_i16 :: "i16x8 \<Rightarrow> i16x8"
  and_i16 :: "i16x8 \<Rightarrow> i16x8 \<Rightarrow> i16x8"
  unsigned_abs_i16 :: "i16x8 \<Rightarrow> u16x8"
  add_u16 :: "u16x8 \<Rightarrow> u16x8 \<Rightarrow> u16x8"
  mul_u16 :: "u16x8 \<Rightarrow> u16x8 \<Rightarrow> u16x8"
  shr_u16 :: "u16x8 \<Rightarrow> nat \<Rightarrow> u16x8"
  add_i32 :: "i32x8 \<Rightarrow> i32x8 \<Rightarrow> i32x8"
  sub_i32 :: "i32x8 \<Rightarrow> i32x8 \<Rightarrow> i32x8"
  mul_i32 :: "i32x8 \<Rightarrow> i32x8 \<Rightarrow> i32x8"
  shl_i32 :: "i32x8 \<Rightarrow> nat \<Rightarrow> i32x8"
  shr_i32 :: "i32x8 \<Rightarrow> nat \<Rightarrow> i32x8"
  reduce_add_i32 :: "i32x8 \<Rightarrow> i32"
  from_i16x8 :: "i16x8 \<Rightarrow> i32x8"
  from_i32x8_truncate :: "i32x8 \<Rightarrow> i16x8"
  transpose_i32 :: "i32x8 list \<Rightarrow> i32x8 list"

text \<open>A scalar operand of a vector operation is broadcast to all lanes.\<close>

definition splat :: "'a \<Rightarrow> 'a list" where
  "splat c = replicate 8 c"

text \<open>Arithmetic shift to the right.\<close>

definition sshr :: "'a::len word \<Rightarrow> nat \<Rightarrow> 'a word" where
  "sshr w n = of_int (sint w div 2 ^ n)"

definition smin :: "i16 \<Rightarrow> i16 \<Rightarrow> i16" where
  "smin a b = (if sint a \<le> sint b then a else b)"

definition smax :: "i16 \<Rightarrow> i16 \<Rightarrow> i16" where
  "smax a b = (if sint a \<le> sint b then b else a)"

definition abs_u16 :: "i16 \<Rightarrow> u16" where
  "abs_u16 a = (if sint a < 0 then - a else a)"

definition lane_ops :: simd where
  "lane_ops = \<lparr>
    add_i16 = map2 (+), sub_i16 = map2 (-), shr_i16 = (\<lambda>v n. map (\<lambda>a. sshr a n) v),
    min_i16 = map2 smin, max_i16 = map2 smax,
    reduce_min_i16 = (\<lambda>v. fold smin (tl v) (hd v)), reduce_max_i16 = (\<lambda>v. fold smax (tl v) (hd v)),
    reduce_add_i16 = sum_list,
    simd_eq_i16 = map2 (\<lambda>a b. if a = b then - 1 else 0), not_i16 = map not, and_i16 = map2 and,
    unsigned_abs_i16 = map abs_u16,
    add_u16 = map2 (+), mul_u16 = map2 (*), shr_u16 = (\<lambda>v n. map (drop_bit n) v),
    add_i32 = map2 (+), sub_i32 = map2 (-), mul_i32 = map2 (*),
    shl_i32 = (\<lambda>v n. map (push_bit n) v), shr_i32 = (\<lambda>v n. map (\<lambda>a. sshr a n) v),
    reduce_add_i32 = sum_list, from_i16x8 = map scast, from_i32x8_truncate = map ucast,
    transpose_i32 = (\<lambda>rows. map (\<lambda>j. map (\<lambda>row. row ! j) rows) [0..<8])\<rparr>"

locale simd_laws =
  fixes S :: simd
  assumes add_i16: "length v = 8 \<Longrightarrow> length w = 8 \<Longrightarrow> add_i16 S v w = map2 (+) v w"
    and sub_i16: "length v = 8 \<Longrightarrow> length w = 8 \<Longrightarrow> sub_i16 S v w = map2 (-) v w"
    and reduce_add_i16: "length v = 8 \<Longrightarrow> reduce_add_i16 S v = sum_list v"
    and simd_eq_i16: "length v = 8 \<Longrightarrow> length w = 8 \<Longrightarrow>
      simd_eq_i16 S v w = map2 (\<lambda>a b. if a = b then - 1 else 0) v w"
    and not_i16: "length v = 8 \<Longrightarrow> not_i16 S v = map not v"
    and and_i16: "length v = 8 \<Longrightarrow> length w = 8 \<Longrightarrow> and_i16 S v w = map2 and v w"
    and unsigned_abs_i16: "length v = 8 \<Longrightarrow> unsigned_abs_i16 S v = map abs_u16 v"
    and add_u16: "length p = 8 \<Longrightarrow> length q = 8 \<Longrightarrow> add_u16 S p q = map2 (+) p q"
    and mul_u16: "length p = 8 \<Longrightarrow> length q = 8 \<Longrightarrow> mul_u16 S p q = map2 (*) p q"
    and shr_u16: "length p = 8 \<Longrightarrow> shr_u16 S p n = map (drop_bit n) p"
    and add_i32: "length a = 8 \<Longrightarrow> length b = 8 \<Longrightarrow> add_i32 S a b = map2 (+) a b"
    and sub_i32: "length a = 8 \<Longrightarrow> length b = 8 \<Longrightarrow> sub_i32 S a b = map2 (-) a b"
    and mul_i32: "length a = 8 \<Longrightarrow> length b = 8 \<Longrightarrow> mul_i32 S a b = map2 (*) a b"
    and reduce_add_i32: "length a = 8 \<Longrightarrow> reduce_add_i32 S a = sum_list a"
begin

text \<open>Lanes are independent: what a lane of the result is, and how many lanes there are.\<close>

lemmas laws = add_i16 sub_i16 reduce_add_i16 simd_eq_i16 not_i16 and_i16 unsigned_abs_i16 add_u16
  mul_u16 shr_u16 add_i32 sub_i32 mul_i32 reduce_add_i32

lemma lane_i32:
  assumes "length a = 8" "length b = 8"
  shows "length (add_i32 S a b) = 8" "length (sub_i32 S a b) = 8" "length (mul_i32 S a b) = 8"
    "i < 8 \<Longrightarrow> add_i32 S a b ! i = a ! i + b ! i"
    "i < 8 \<Longrightarrow> sub_i32 S a b ! i = a ! i - b ! i"
    "i < 8 \<Longrightarrow> mul_i32 S a b ! i = a ! i * b ! i"
  using assms by (simp_all add: laws)

lemma lane_u16:
  assumes "length a = 8" "length b = 8"
  shows "length (add_u16 S a b) = 8" "length (mul_u16 S a b) = 8"
    "i < 8 \<Longrightarrow> add_u16 S a b ! i = a ! i + b ! i"
    "i < 8 \<Longrightarrow> mul_u16 S a b ! i = a ! i * b ! i"
  using assms by (simp_all add: laws)

lemma lane_shr_u16:
  assumes "length a = 8"
  shows "length (shr_u16 S a n) = 8" "i < 8 \<Longrightarrow> shr_u16 S a n ! i = drop_bit n (a ! i)"
  using assms by (simp_all add: laws)

text \<open>A dot product does not depend on a lane whose factor is 0.\<close>

lemma dot_cong:
  assumes "length a = 8" "length b = 8" "length c = 8" "\<And>i. i < 8 \<Longrightarrow> a ! i \<noteq> b ! i \<Longrightarrow> c ! i = 0"
  shows "reduce_add_i32 S (mul_i32 S a c) = reduce_add_i32 S (mul_i32 S b c)"
proof -
  have "map2 (*) a c = map2 (*) b c"
  proof (rule nth_equalityI)
    fix i
    assume "i < length (map2 (*) a c)"
    then show "map2 (*) a c ! i = map2 (*) b c ! i" using assms by (cases "a ! i = b ! i") auto
  qed (simp add: assms)
  then show ?thesis using assms by (simp add: laws)
qed

end

interpretation lane_ops: simd_laws lane_ops
  by unfold_locales (simp_all add: lane_ops_def)

end
