(* ===== verification/Aligned_Block.thy ===== *)
theory Aligned_Block
  imports Simd Quantization
begin

unbundle bit_operations_syntax

text \<open>
  A block of 64 coefficients (\<open>AlignedBlock\<close> of \<open>jpeg/block_based_image.rs\<close>). The array is the
  transposed raster: the coefficient of column \<open>c\<close> and row \<open>r\<close> is entry \<open>8 * c + r\<close>, the DC is entry
  0, the horizontal edge the entries 8, 16, ..., 56, the vertical edge the entries 1, ..., 7. The
  arrays have 64 entries (\<open>block_ok\<close>) and every index the callers use is below 64.
\<close>

record AlignedBlock =
  raw_data :: "i16 list"

definition EMPTY_BLOCK :: AlignedBlock where
  "EMPTY_BLOCK = \<lparr>raw_data = replicate 64 0\<rparr>"

definition AlignedBlock_new :: "i16 list \<Rightarrow> AlignedBlock" where
  "AlignedBlock_new block = \<lparr>raw_data = block\<rparr>"

text \<open>The cast of an array of 64 entries to 8 vectors.\<close>

definition row8 :: "'a list \<Rightarrow> nat \<Rightarrow> 'a list" where
  "row8 xs i = take 8 (drop (8 * i) xs)"

definition rows8 :: "'a list \<Rightarrow> 'a list list" where
  "rows8 xs = map (row8 xs) [0..<8]"

definition as_i16x8 :: "AlignedBlock \<Rightarrow> nat \<Rightarrow> i16x8" where
  "as_i16x8 b index = row8 (raw_data b) index"

definition get_dc :: "AlignedBlock \<Rightarrow> i16" where
  "get_dc b = raw_data b ! 0"

definition set_dc :: "i16 \<Rightarrow> AlignedBlock \<Rightarrow> AlignedBlock" where
  "set_dc v b = b\<lparr>raw_data := (raw_data b)[0 := v]\<rparr>"

definition zigzag_to_transposed :: "i16 list \<Rightarrow> AlignedBlock" where
  "zigzag_to_transposed a = \<lparr>raw_data = map (\<lambda>i. a ! i) [
    0, 2, 3, 9, 10, 20, 21, 35, 1, 4, 8, 11, 19, 22, 34, 36, 5, 7, 12, 18, 23, 33, 37, 48, 6,
    13, 17, 24, 32, 38, 47, 49, 14, 16, 25, 31, 39, 46, 50, 57, 15, 26, 30, 40, 45, 51, 56, 58,
    27, 29, 41, 44, 52, 55, 59, 62, 28, 42, 43, 53, 54, 60, 61, 63]\<rparr>"

definition zigzag_from_transposed :: "AlignedBlock \<Rightarrow> AlignedBlock" where
  "zigzag_from_transposed b = \<lparr>raw_data = map (\<lambda>i. raw_data b ! i) [
    0, 8, 1, 2, 9, 16, 24, 17, 10, 3, 4, 11, 18, 25, 32, 40, 33, 26, 19, 12, 5, 6, 13, 20, 27,
    34, 41, 48, 56, 49, 42, 35, 28, 21, 14, 7, 15, 22, 29, 36, 43, 50, 57, 58, 51, 44, 37, 30,
    23, 31, 38, 45, 52, 59, 60, 53, 46, 39, 47, 54, 61, 62, 55, 63]\<rparr>"

definition get_block :: "AlignedBlock \<Rightarrow> i16 list" where
  "get_block b = raw_data b"

definition get_hash :: "AlignedBlock \<Rightarrow> i32" where
  "get_hash b = fold (\<lambda>i sum. sum + scast (raw_data b ! i)) [0..<64] 0"

definition count_non_zeros_7x7_row :: "simd \<Rightarrow> i16x8 \<Rightarrow> i16x8" where
  "count_non_zeros_7x7_row S v =
    and_i16 S (not_i16 S (simd_eq_i16 S v (splat 0))) [0, 1, 1, 1, 1, 1, 1, 1]"

definition get_count_of_non_zeros_7x7 :: "simd \<Rightarrow> AlignedBlock \<Rightarrow> u8" where
  "get_count_of_non_zeros_7x7 S b =
    ucast (reduce_add_i16 S
      (fold (\<lambda>i sum. add_i16 S sum (count_non_zeros_7x7_row S (as_i16x8 b i))) [1..<8] (splat 0)))"

definition get_coefficient :: "AlignedBlock \<Rightarrow> nat \<Rightarrow> i16" where
  "get_coefficient b index = raw_data b ! index"

definition set_coefficient :: "nat \<Rightarrow> i16 \<Rightarrow> AlignedBlock \<Rightarrow> AlignedBlock" where
  "set_coefficient index v b = b\<lparr>raw_data := (raw_data b)[index := v]\<rparr>"

definition set_transposed_from_zigzag :: "nat \<Rightarrow> i16 \<Rightarrow> AlignedBlock \<Rightarrow> AlignedBlock" where
  "set_transposed_from_zigzag index v b =
    b\<lparr>raw_data := (raw_data b)[ZIGZAG_TO_TRANSPOSED ! index := v]\<rparr>"

definition get_transposed_from_zigzag :: "AlignedBlock \<Rightarrow> nat \<Rightarrow> i16" where
  "get_transposed_from_zigzag b index = raw_data b ! (ZIGZAG_TO_TRANSPOSED ! index)"

definition from_stride :: "AlignedBlock \<Rightarrow> nat \<Rightarrow> nat \<Rightarrow> i16x8" where
  "from_stride b offset stride = map (\<lambda>k. raw_data b ! (offset + k * stride)) [0..<8]"

section \<open>Lemmas\<close>

definition block_ok :: "AlignedBlock \<Rightarrow> bool" where
  "block_ok b \<longleftrightarrow> length (raw_data b) = 64"

lemma block_ok_simps [simp]:
  "block_ok EMPTY_BLOCK" "block_ok (set_dc v b) \<longleftrightarrow> block_ok b"
  "block_ok (set_coefficient i v b) \<longleftrightarrow> block_ok b"
  "block_ok (zigzag_to_transposed a)" "block_ok (zigzag_from_transposed b)"
  by (simp_all add: block_ok_def EMPTY_BLOCK_def set_dc_def set_coefficient_def
      zigzag_to_transposed_def zigzag_from_transposed_def)

lemma length_row8 [simp]: "length xs = 64 \<Longrightarrow> i < 8 \<Longrightarrow> length (row8 xs i) = 8"
  by (simp add: row8_def)

lemma nth_row8: "length xs = 64 \<Longrightarrow> i < 8 \<Longrightarrow> j < 8 \<Longrightarrow> row8 xs i ! j = xs ! (8 * i + j)"
  by (simp add: row8_def)

lemma rows8_simps [simp]: "length (rows8 xs) = 8" "i < 8 \<Longrightarrow> rows8 xs ! i = row8 xs i"
  by (simp_all add: rows8_def)

lemma upt_8: "[0..<8] = [0, 1, 2, 3, 4, 5, 6, 7 :: nat]" "[1..<8] = [1, 2, 3, 4, 5, 6, 7 :: nat]"
  by code_simp+

lemma upt_64: "[0..<64] = [
    0, 1, 2, 3, 4, 5, 6, 7, 8, 9, 10, 11, 12, 13, 14, 15, 16, 17, 18, 19, 20, 21, 22, 23, 24,
    25, 26, 27, 28, 29, 30, 31, 32, 33, 34, 35, 36, 37, 38, 39, 40, 41, 42, 43, 44, 45, 46, 47,
    48, 49, 50, 51, 52, 53, 54, 55, 56, 57, 58, 59, 60, 61, 62, 63 :: nat]"
  by code_simp

text \<open>Reading and writing at zigzag positions: the two permutations are inverse to each other.\<close>

lemma zigzag_from_to:
  assumes "length a = 64"
  shows "raw_data (zigzag_from_transposed (zigzag_to_transposed a)) = a"
proof -
  have "map (\<lambda>i. a ! i) [0..<64] = a" using assms map_nth [of a] by simp
  then show ?thesis by (simp add: zigzag_from_transposed_def zigzag_to_transposed_def upt_64)
qed

lemma zigzag_to_from:
  assumes "block_ok b"
  shows "zigzag_to_transposed (raw_data (zigzag_from_transposed b)) = b"
proof -
  have "map (\<lambda>i. raw_data b ! i) [0..<64] = raw_data b" using assms map_nth [of "raw_data b"] by (simp add: block_ok_def)
  then have "raw_data (zigzag_to_transposed (raw_data (zigzag_from_transposed b))) = raw_data b"
    by (simp add: zigzag_from_transposed_def zigzag_to_transposed_def upt_64)
  then show ?thesis by (cases b) (simp add: zigzag_to_transposed_def)
qed

lemma zigzag_from_transposed_nth:
  assumes "i < 64"
  shows "raw_data (zigzag_from_transposed b) ! i = get_transposed_from_zigzag b i"
proof -
  have "raw_data (zigzag_from_transposed b) = map (\<lambda>i. raw_data b ! i) ZIGZAG_TO_TRANSPOSED"
    by (simp only: zigzag_from_transposed_def ZIGZAG_TO_TRANSPOSED_def AlignedBlock.simps)
  moreover have "length ZIGZAG_TO_TRANSPOSED = 64" by (simp add: ZIGZAG_TO_TRANSPOSED_def)
  ultimately show ?thesis using assms by (simp add: get_transposed_from_zigzag_def)
qed

text \<open>The inner coefficients, in the order the coder visits them, are the entries with row and column
  above 0.\<close>

definition nonzeros_at :: "AlignedBlock \<Rightarrow> nat list \<Rightarrow> nat" where
  "nonzeros_at b cs = length (filter (\<lambda>c. raw_data b ! c \<noteq> 0) cs)"

lemma nonzeros_at_simps [simp]:
  "nonzeros_at b [] = 0"
  "nonzeros_at b (c # cs) = of_bool (get_coefficient b c \<noteq> 0) + nonzeros_at b cs"
  by (simp_all add: nonzeros_at_def get_coefficient_def)

lemma nonzeros_at_le: "nonzeros_at b cs \<le> length cs"
  by (simp add: nonzeros_at_def)

lemma UNZIGZAG_49_TR_inner: "c \<in> set UNZIGZAG_49_TR \<longleftrightarrow> c < 64 \<and> 0 < c mod 8 \<and> 0 < c div 8"
proof -
  have "sort UNZIGZAG_49_TR = filter (\<lambda>c. 0 < c mod 8 \<and> 0 < c div 8) [0..<64]"
    by code_simp
  then have "set (sort UNZIGZAG_49_TR) = {c. c < 64 \<and> 0 < c mod 8 \<and> 0 < c div 8}" by auto
  then show ?thesis by auto
qed

lemma distinct_UNZIGZAG_49_TR: "distinct UNZIGZAG_49_TR"
  by (simp add: UNZIGZAG_49_TR_def)

lemma length_UNZIGZAG_49_TR [simp]: "length UNZIGZAG_49_TR = 49"
  by (simp add: UNZIGZAG_49_TR_def)

context simd_laws
begin

lemma count_row:
  assumes "length v = 8"
  shows "length (count_non_zeros_7x7_row S v) = 8"
    "j < 8 \<Longrightarrow> count_non_zeros_7x7_row S v ! j = of_bool (0 < j \<and> v ! j \<noteq> 0)"
proof -
  have r: "count_non_zeros_7x7_row S v =
      map2 and (map not (map2 (\<lambda>a b. if a = b then - 1 else 0) v (splat 0))) [0, 1, 1, 1, 1, 1, 1, 1]"
    using assms by (simp add: count_non_zeros_7x7_row_def laws splat_def)
  show "length (count_non_zeros_7x7_row S v) = 8" by (simp add: r assms splat_def)
  assume j: "j < 8"
  have ones: "[0, 1, 1, 1, 1, 1, 1, 1] ! j = (of_bool (0 < j) :: i16)"
  proof -
    have "\<forall>j \<in> {0..<8}. [0, 1, 1, 1, 1, 1, 1, 1] ! j = (of_bool (0 < j) :: i16)"
      by (simp add: atLeastLessThanSuc numeral_eq_Suc)
    then show ?thesis using j by simp
  qed
  have "count_non_zeros_7x7_row S v ! j = not (if v ! j = 0 then - 1 else 0) AND of_bool (0 < j)"
    using j assms ones by (simp add: r splat_def)
  then show "count_non_zeros_7x7_row S v ! j = of_bool (0 < j \<and> v ! j \<noteq> 0)" by (cases "v ! j = 0") simp_all
qed

lemma fold_add_lanes:
  assumes "length v = 8" "\<And>i. i \<in> set xs \<Longrightarrow> length (r i) = 8"
  shows "length (fold (\<lambda>i s. add_i16 S s (r i)) xs v) = 8 \<and>
    (\<forall>j < 8. fold (\<lambda>i s. add_i16 S s (r i)) xs v ! j = v ! j + (\<Sum>i\<leftarrow>xs. r i ! j))"
  using assms
proof (induction xs arbitrary: v)
  case (Cons i xs)
  have "add_i16 S v (r i) = map2 (+) v (r i)" using Cons.prems by (simp add: laws)
  then show ?case using Cons.IH [of "map2 (+) v (r i)"] Cons.prems by (simp add: add.assoc)
qed simp

lemma get_count_of_non_zeros_7x7:
  assumes "block_ok b"
  shows "unat (get_count_of_non_zeros_7x7 S b) = nonzeros_at b UNZIGZAG_49_TR"
proof -
  let ?r = "\<lambda>i. count_non_zeros_7x7_row S (as_i16x8 b i)"
  let ?f = "\<lambda>c. of_bool (raw_data b ! c \<noteq> 0)"
  let ?sum = "fold (\<lambda>i s. add_i16 S s (?r i)) [1..<8] (splat 0)"
  have len: "length (raw_data b) = 64" using assms by (simp add: block_ok_def)
  have r: "length (?r i) = 8" "j < 8 \<Longrightarrow> ?r i ! j = of_bool (0 < j) * ?f (8 * i + j)" if "i < 8" for i j
    using count_row [of "as_i16x8 b i"] that len by (simp_all add: as_i16x8_def nth_row8)
  have F: "length ?sum = 8" "\<And>j. j < 8 \<Longrightarrow> ?sum ! j = (\<Sum>i\<leftarrow>[1..<8]. ?r i ! j)"
    using fold_add_lanes [of "splat 0" "[1..<8]" ?r] r by (simp_all add: splat_def)
  have lane: "?sum ! j = (\<Sum>i\<leftarrow>[1..<8]. of_bool (0 < j) * ?f (8 * i + j))" if "j < 8" for j
    unfolding F(2) [OF that] using that by (intro arg_cong [of _ _ sum_list] map_cong refl) (simp add: r)
  have "sum_list ?sum = (\<Sum>j\<leftarrow>[0..<8]. ?sum ! j)"
    using F(1) map_nth [of ?sum] by simp
  also have "\<dots> = (\<Sum>j\<leftarrow>[0..<8]. \<Sum>i\<leftarrow>[1..<8]. of_bool (0 < j) * ?f (8 * i + j))"
    by (intro arg_cong [of _ _ sum_list] map_cong refl lane) simp
  also have "\<dots> = (\<Sum>c\<leftarrow>UNZIGZAG_49_TR. ?f c)"
    unfolding upt_8 UNZIGZAG_49_TR_def by (simp add: add.assoc add.commute add.left_commute)
  also have "\<dots> = of_nat (nonzeros_at b cs)" if "cs = UNZIGZAG_49_TR" for cs
    unfolding that [symmetric] by (induction cs) (simp_all add: get_coefficient_def)
  finally have sum: "sum_list ?sum = of_nat (nonzeros_at b UNZIGZAG_49_TR)" by blast
  have "nonzeros_at b UNZIGZAG_49_TR \<le> 49" using nonzeros_at_le [of b UNZIGZAG_49_TR] by simp
  then show ?thesis
    unfolding get_count_of_non_zeros_7x7_def reduce_add_i16 [OF F(1)] sum
    by (simp add: unat_ucast unat_of_nat)
qed

end

end
