(* ===== verification/Predict.thy ===== *)
theory Predict
  imports Aligned_Block Coef_Model
begin

unbundle bit_operations_syntax

text \<open>
  What a block is predicted from (\<open>enabled_features.rs\<close>, \<open>structs/neighbor_summary.rs\<close>,
  \<open>structs/probability_tables.rs\<close>, \<open>structs/idct.rs\<close>): the context of the number of nonzero
  coefficients, the priors of the inner coefficients, the predictions of the edges and of the DC.
  The const generic \<open>ALL_PRESENT\<close> is the argument \<open>all_p\<close>; the rows of a raster are a list of eight
  vectors.

  The lemmas show what the block coder needs: indices stay in range, and the encoder, which knows
  the whole block, and the decoder, which knows the inner coefficients only, predict the same edges.
\<close>

section \<open>Features\<close>

record EnabledFeatures =
  progressive :: bool
  reject_dqts_with_zeros :: bool
  max_jpeg_width :: u32
  max_jpeg_height :: u32
  use_16bit_dc_estimate :: bool
  use_16bit_adv_predict :: bool
  accept_invalid_dht :: bool
  max_partitions :: u32
  max_processor_threads :: u32
  max_jpeg_file_size :: u32
  stop_reading_at_eoi :: bool

definition compat_lepton_vector_write :: EnabledFeatures where
  "compat_lepton_vector_write =
    \<lparr>progressive = True, reject_dqts_with_zeros = True, max_jpeg_width = 16386,
     max_jpeg_height = 16386, use_16bit_dc_estimate = True, use_16bit_adv_predict = True,
     accept_invalid_dht = False, max_partitions = 8, max_processor_threads = 8,
     max_jpeg_file_size = 128 * 1024 * 1024, stop_reading_at_eoi = False\<rparr>"

definition compat_lepton_scalar_read :: EnabledFeatures where
  "compat_lepton_scalar_read =
    \<lparr>progressive = True, reject_dqts_with_zeros = False, max_jpeg_width = - 1,
     max_jpeg_height = - 1, use_16bit_dc_estimate = False, use_16bit_adv_predict = False,
     accept_invalid_dht = True, max_partitions = 8, max_processor_threads = 8,
     max_jpeg_file_size = 128 * 1024 * 1024, stop_reading_at_eoi = False\<rparr>"

definition compat_lepton_vector_read :: EnabledFeatures where
  "compat_lepton_vector_read =
    \<lparr>progressive = True, reject_dqts_with_zeros = False, max_jpeg_width = - 1,
     max_jpeg_height = - 1, use_16bit_dc_estimate = True, use_16bit_adv_predict = True,
     accept_invalid_dht = True, max_partitions = 8, max_processor_threads = 8,
     max_jpeg_file_size = 128 * 1024 * 1024, stop_reading_at_eoi = False\<rparr>"

section \<open>Summary of a coded block\<close>

record NeighborSummary =
  edge_pixels_h :: i16x8
  edge_pixels_v :: i16x8
  edge_coefs_h :: i32x8
  edge_coefs_v :: i32x8
  num_non_zeros :: u8

definition NEIGHBOR_DATA_EMPTY :: NeighborSummary where
  "NEIGHBOR_DATA_EMPTY =
    \<lparr>edge_pixels_h = splat 0, edge_pixels_v = splat 0, edge_coefs_h = splat 0, edge_coefs_v = splat 0,
     num_non_zeros = 0\<rparr>"

definition NeighborSummary_new ::
  "simd \<Rightarrow> i16x8 \<Rightarrow> i16x8 \<Rightarrow> i32 \<Rightarrow> u8 \<Rightarrow> i32x8 \<Rightarrow> i32x8 \<Rightarrow> NeighborSummary"
where
  "NeighborSummary_new S pixels_h pixels_v dc_deq num_non_zeros_7x7 horiz_pred vert_pred =
    \<lparr>edge_pixels_h = add_i16 S pixels_h (splat (ucast dc_deq)),
     edge_pixels_v = add_i16 S pixels_v (splat (ucast dc_deq)),
     edge_coefs_h = horiz_pred, edge_coefs_v = vert_pred, num_non_zeros = num_non_zeros_7x7\<rparr>"

definition get_num_non_zeros :: "NeighborSummary \<Rightarrow> u8" where
  "get_num_non_zeros s = num_non_zeros s"

definition get_vertical_pix :: "NeighborSummary \<Rightarrow> i16x8" where
  "get_vertical_pix s = edge_pixels_v s"

definition get_horizontal_pix :: "NeighborSummary \<Rightarrow> i16x8" where
  "get_horizontal_pix s = edge_pixels_h s"

definition get_vertical_coef :: "NeighborSummary \<Rightarrow> i32x8" where
  "get_vertical_coef s = edge_coefs_v s"

definition get_horizontal_coef :: "NeighborSummary \<Rightarrow> i32x8" where
  "get_horizontal_coef s = edge_coefs_h s"

definition checksum :: "simd \<Rightarrow> NeighborSummary \<Rightarrow> u32" where
  "checksum S s =
    reduce_add_i32 S (from_i16x8 S (edge_pixels_h s)) + reduce_add_i32 S (from_i16x8 S (edge_pixels_v s))
      + ucast (num_non_zeros s)"

record NeighborData =
  above :: AlignedBlock
  left :: AlignedBlock
  above_left :: AlignedBlock
  neighbor_context_above :: NeighborSummary
  neighbor_context_left :: NeighborSummary

section \<open>Inverse DCT\<close>

definition W1PW7 :: i32 where "W1PW7 = 2841 + 565"
definition W1MW7 :: i32 where "W1MW7 = 2841 - 565"
definition W2PW6 :: i32 where "W2PW6 = 2676 + 1108"
definition W2MW6 :: i32 where "W2MW6 = 2676 - 1108"
definition W3PW5 :: i32 where "W3PW5 = 2408 + 1609"
definition W3MW5 :: i32 where "W3MW5 = 2408 - 1609"
definition W3 :: i32 where "W3 = 2408"
definition W6 :: i32 where "W6 = 1108"
definition W7 :: i32 where "W7 = 565"
definition R2 :: i32 where "R2 = 181"

definition idct_rows :: "simd \<Rightarrow> i32x8 list \<Rightarrow> i32x8 list" where
  "idct_rows S t =
    (let add = add_i32 S; sub = sub_i32 S; mul = (\<lambda>c. mul_i32 S (splat c)); shr = shr_i32 S;
         xv0 = add (shl_i32 S (t ! 0) 11) (splat 128);
         xv1 = t ! 1; xv2 = t ! 2; xv3 = t ! 3;
         xv4 = shl_i32 S (t ! 4) 11;
         xv5 = t ! 5; xv6 = t ! 6; xv7 = t ! 7;
         xv8 = mul W7 (add xv1 xv7);
         xv1 = add xv8 (mul W1MW7 xv1);
         xv7 = sub xv8 (mul W1PW7 xv7);
         xv8 = mul W3 (add xv5 xv3);
         xv5 = sub xv8 (mul W3MW5 xv5);
         xv3 = sub xv8 (mul W3PW5 xv3);
         xv8 = add xv0 xv4;
         xv0 = sub xv0 xv4;
         xv4 = mul W6 (add xv2 xv6);
         xv6 = sub xv4 (mul W2PW6 xv6);
         xv2 = add xv4 (mul W2MW6 xv2);
         xv4 = add xv1 xv5;
         xv1 = sub xv1 xv5;
         xv5 = add xv7 xv3;
         xv7 = sub xv7 xv3;
         xv3 = add xv8 xv2;
         xv8 = sub xv8 xv2;
         xv2 = add xv0 xv6;
         xv0 = sub xv0 xv6;
         xv6 = shr (add (mul R2 (add xv1 xv7)) (splat 128)) 8;
         xv1 = shr (add (mul R2 (sub xv1 xv7)) (splat 128)) 8
     in [shr (add xv3 xv4) 8, shr (add xv2 xv6) 8, shr (add xv0 xv1) 8, shr (add xv8 xv5) 8,
         shr (sub xv8 xv5) 8, shr (sub xv0 xv1) 8, shr (sub xv2 xv6) 8, shr (sub xv3 xv4) 8])"

definition idct_cols :: "simd \<Rightarrow> i32x8 list \<Rightarrow> i32x8 list" where
  "idct_cols S t =
    (let add = add_i32 S; sub = sub_i32 S; mul = (\<lambda>c. mul_i32 S (splat c)); shr = shr_i32 S;
         yv0 = add (shl_i32 S (t ! 0) 8) (splat 8192);
         yv1 = t ! 1; yv2 = t ! 2; yv3 = t ! 3;
         yv4 = shl_i32 S (t ! 4) 8;
         yv5 = t ! 5; yv6 = t ! 6; yv7 = t ! 7;
         yv8 = add (mul W7 (add yv1 yv7)) (splat 4);
         yv1 = shr (add yv8 (mul W1MW7 yv1)) 3;
         yv7 = shr (sub yv8 (mul W1PW7 yv7)) 3;
         yv8 = add (mul W3 (add yv5 yv3)) (splat 4);
         yv5 = shr (sub yv8 (mul W3MW5 yv5)) 3;
         yv3 = shr (sub yv8 (mul W3PW5 yv3)) 3;
         yv8 = add yv0 yv4;
         yv0 = sub yv0 yv4;
         yv4 = add (mul W6 (add yv2 yv6)) (splat 4);
         yv6 = shr (sub yv4 (mul W2PW6 yv6)) 3;
         yv2 = shr (add yv4 (mul W2MW6 yv2)) 3;
         yv4 = add yv1 yv5;
         yv1 = sub yv1 yv5;
         yv5 = add yv7 yv3;
         yv7 = sub yv7 yv3;
         yv3 = add yv8 yv2;
         yv8 = sub yv8 yv2;
         yv2 = add yv0 yv6;
         yv0 = sub yv0 yv6;
         yv6 = shr (add (mul R2 (add yv1 yv7)) (splat 128)) 8;
         yv1 = shr (add (mul R2 (sub yv1 yv7)) (splat 128)) 8
     in [shr (add yv3 yv4) 11, shr (add yv2 yv6) 11, shr (add yv0 yv1) 11, shr (add yv8 yv5) 11,
         shr (sub yv8 yv5) 11, shr (sub yv0 yv1) 11, shr (sub yv2 yv6) 11, shr (sub yv3 yv4) 11])"

definition run_idct :: "simd \<Rightarrow> i32x8 list \<Rightarrow> AlignedBlock" where
  "run_idct S block =
    AlignedBlock_new (concat (map (from_i32x8_truncate S) (idct_cols S (transpose_i32 S (idct_rows S block)))))"

section \<open>Predictors\<close>

record ProbabilityTables =
  left_present :: bool
  above_present :: bool
  all_present :: bool

definition ProbabilityTables_new :: "bool \<Rightarrow> bool \<Rightarrow> ProbabilityTables" where
  "ProbabilityTables_new in_left_present in_above_present =
    \<lparr>left_present = in_left_present, above_present = in_above_present,
     all_present = in_left_present \<and> in_above_present\<rparr>"

definition NO_NEIGHBORS :: ProbabilityTables where "NO_NEIGHBORS = ProbabilityTables_new False False"
definition TOP_ONLY :: ProbabilityTables where "TOP_ONLY = ProbabilityTables_new False True"
definition LEFT_ONLY :: ProbabilityTables where "LEFT_ONLY = ProbabilityTables_new True False"
definition ALL_NEIGHBORS :: ProbabilityTables where "ALL_NEIGHBORS = ProbabilityTables_new True True"

definition is_all_present :: "ProbabilityTables \<Rightarrow> bool" where "is_all_present pt = all_present pt"
definition is_left_present :: "ProbabilityTables \<Rightarrow> bool" where "is_left_present pt = left_present pt"
definition is_above_present :: "ProbabilityTables \<Rightarrow> bool" where "is_above_present pt = above_present pt"

record PredictDCResult =
  predicted_dc :: i32
  uncertainty :: i16
  uncertainty2 :: i16
  next_edge_pixels_h :: i16x8
  next_edge_pixels_v :: i16x8

definition adv_predict_or_unpredict_dc :: "i16 \<Rightarrow> bool \<Rightarrow> i32 \<Rightarrow> i32" where
  "adv_predict_or_unpredict_dc saved_dc recover_original predicted_val =
    (let max_value = push_bit (MAX_EXPONENT - 1) 1;
         min_value = - max_value;
         adjustment_factor = 2 * max_value + 1;
         retval = scast saved_dc + (if recover_original then predicted_val else - predicted_val);
         retval = (if sint retval < sint min_value then retval + adjustment_factor else retval)
     in if sint max_value < sint retval then retval - adjustment_factor else retval)"

definition get_color_index :: "nat \<Rightarrow> nat" where
  "get_color_index component = (if component = 0 then 0 else 1)"

definition num_non_zeros_to_bin_7x7 :: "nat \<Rightarrow> nat result" where
  "num_non_zeros_to_bin_7x7 n = idx NON_ZERO_TO_BIN_7X7 n"

definition calc_num_non_zeros_7x7_context_bin ::
  "bool \<Rightarrow> ProbabilityTables \<Rightarrow> NeighborData \<Rightarrow> u8 result"
where
  "calc_num_non_zeros_7x7_context_bin all_p pt nd =
    (let num_non_zeros_above =
           (if all_p \<or> above_present pt then get_num_non_zeros (neighbor_context_above nd) else 0);
         num_non_zeros_left =
           (if all_p \<or> left_present pt then get_num_non_zeros (neighbor_context_left nd) else 0);
         num_non_zeros_context =
           (if \<not> all_p \<and> above_present pt \<and> \<not> left_present pt then (num_non_zeros_above + 1) div 2
            else if \<not> all_p \<and> left_present pt \<and> \<not> above_present pt then (num_non_zeros_left + 1) div 2
            else if all_p \<or> (left_present pt \<and> above_present pt)
              then (num_non_zeros_above + num_non_zeros_left + 2) div 4
            else 0)
     in bindR (idx NON_ZERO_TO_BIN (unat num_non_zeros_context)) (\<lambda>n. Ok (of_nat n)))"

definition aavg_row :: "simd \<Rightarrow> i16x8 \<Rightarrow> i16x8 \<Rightarrow> i16x8 \<Rightarrow> u16x8" where
  "aavg_row S l a al =
    shr_u16 S
      (add_u16 S (mul_u16 S (add_u16 S (unsigned_abs_i16 S l) (unsigned_abs_i16 S a)) (splat 13))
        (mul_u16 S (unsigned_abs_i16 S al) (splat 6))) 5"

definition calc_coefficient_context_7x7_aavg_block ::
  "simd \<Rightarrow> bool \<Rightarrow> ProbabilityTables \<Rightarrow> AlignedBlock \<Rightarrow> AlignedBlock \<Rightarrow> AlignedBlock \<Rightarrow> u16 list"
where
  "calc_coefficient_context_7x7_aavg_block S all_p pt l a al =
    (let best_prior =
       (if all_p then
          splat 0 # map (\<lambda>i. aavg_row S (as_i16x8 l i) (as_i16x8 a i) (as_i16x8 al i)) [1..<8]
        else if left_present pt then splat 0 # map (\<lambda>i. unsigned_abs_i16 S (as_i16x8 l i)) [1..<8]
        else if above_present pt then splat 0 # map (\<lambda>i. unsigned_abs_i16 S (as_i16x8 a i)) [1..<8]
        else replicate 8 (splat 0))
     in concat best_prior)"

definition predict_current_edges :: "simd \<Rightarrow> NeighborData \<Rightarrow> i32x8 list \<Rightarrow> i32x8 \<times> i32x8" where
  "predict_current_edges S neighbors_data raster =
    fold (\<lambda>col (horiz_pred, vert_pred).
        (horiz_pred[col := horiz_pred ! col
            - reduce_add_i32 S (mul_i32 S (raster ! col) ICOS_BASED_8192_SCALED)],
         sub_i32 S vert_pred (mul_i32 S (raster ! col) (splat (ICOS_BASED_8192_SCALED ! col)))))
      [1..<8]
      (get_horizontal_coef (neighbor_context_above neighbors_data),
       get_vertical_coef (neighbor_context_left neighbors_data))"

definition predict_next_edges :: "simd \<Rightarrow> i32x8 list \<Rightarrow> i32x8 \<times> i32x8" where
  "predict_next_edges S raster =
    fold (\<lambda>col (horiz_pred, vert_pred).
        (horiz_pred[col := reduce_add_i32 S (mul_i32 S ICOS_BASED_8192_SCALED_PM (raster ! col))],
         add_i32 S vert_pred (mul_i32 S (splat (ICOS_BASED_8192_SCALED_PM ! col)) (raster ! col))))
      [1..<8]
      (replicate 8 0, mul_i32 S (splat (ICOS_BASED_8192_SCALED_PM ! 0)) (raster ! 0))"

text \<open>\<open>i32::checked_div\<close>.\<close>

definition checked_div :: "i32 \<Rightarrow> i32 \<Rightarrow> i32 option" where
  "checked_div a b =
    (if b = 0 \<or> (sint a = - (2 ^ 31) \<and> sint b = - 1) then None else Some (of_int (sint a sdiv sint b)))"

definition calc_coefficient_context8_lak ::
  "bool \<Rightarrow> bool \<Rightarrow> ProbabilityTables \<Rightarrow> QuantizationTables \<Rightarrow> nat \<Rightarrow> i32 list \<Rightarrow> i32 result"
where
  "calc_coefficient_context8_lak all_p horizontal pt qt coefficient_tr pred =
    (if \<not> all_p \<and> ((horizontal \<and> \<not> above_present pt) \<or> (\<not> horizontal \<and> \<not> left_present pt)) then Ok 0
     else
       (let best_prior = pred ! (if horizontal then drop_bit 3 coefficient_tr else coefficient_tr);
            d = push_bit 13 (ucast (get_quantization_table_transposed qt ! coefficient_tr))
        in case checked_div best_prior d of
             Some x \<Rightarrow> Ok x
           | None \<Rightarrow> err_exit_code UnsupportedJpegWithZeroIdct0))"

text \<open>The pixels of a border, from the two rows next to it.\<close>

definition calc_pred :: "simd \<Rightarrow> i16x8 \<Rightarrow> i16x8 \<Rightarrow> bool \<Rightarrow> i16x8" where
  "calc_pred S a1 a2 is_16_bit =
    (if is_16_bit then
       (let pixel_delta = sub_i16 S a1 a2;
            half_delta = shr_i16 S (sub_i16 S pixel_delta (shr_i16 S pixel_delta 15)) 1
        in add_i16 S a1 half_delta)
     else
       (let a1 = from_i16x8 S a1;
            a2 = from_i16x8 S a2;
            pixel_delta = sub_i32 S a1 a2;
            half_delta = shr_i32 S (sub_i32 S pixel_delta (shr_i32 S pixel_delta 31)) 1
        in from_i32x8_truncate S (add_i32 S a1 half_delta)))"

text \<open>Bounds and sums of the border differences, \<open>None\<close> without neighbors:
  (\<open>min_dc\<close>, \<open>max_dc\<close>, \<open>avg_horizontal\<close>, \<open>avg_vertical\<close>).\<close>

definition dc_estimates ::
  "simd \<Rightarrow> bool \<Rightarrow> ProbabilityTables \<Rightarrow> NeighborData \<Rightarrow> i16x8 \<Rightarrow> i16x8 \<Rightarrow> (i16 \<times> i16 \<times> i32 \<times> i32) option"
where
  "dc_estimates S all_p pt nd h_pred v_pred =
    (let horiz = sub_i16 S (get_horizontal_pix (neighbor_context_left nd)) h_pred;
         vert = sub_i16 S (get_vertical_pix (neighbor_context_above nd)) v_pred;
         sum_h = reduce_add_i32 S (from_i16x8 S horiz);
         sum_v = reduce_add_i32 S (from_i16x8 S vert)
     in if all_p then
          Some (reduce_min_i16 S (min_i16 S horiz vert), reduce_max_i16 S (max_i16 S horiz vert), sum_h, sum_v)
        else if left_present pt then Some (reduce_min_i16 S horiz, reduce_max_i16 S horiz, sum_h, sum_h)
        else if above_present pt then Some (reduce_min_i16 S vert, reduce_max_i16 S vert, sum_v, sum_v)
        else None)"

definition adv_predict_dc_pix ::
  "simd \<Rightarrow> bool \<Rightarrow> ProbabilityTables \<Rightarrow> i32x8 list \<Rightarrow> i32 \<Rightarrow> NeighborData \<Rightarrow> EnabledFeatures
    \<Rightarrow> PredictDCResult result"
where
  "adv_predict_dc_pix S all_p pt raster_cols q0 neighbor_data features =
    (let pixels_sans_dc = run_idct S raster_cols;
         v_pred = calc_pred S (as_i16x8 pixels_sans_dc 0) (as_i16x8 pixels_sans_dc 1)
           (use_16bit_adv_predict features);
         h_pred = calc_pred S (from_stride pixels_sans_dc 0 8) (from_stride pixels_sans_dc 1 8)
           (use_16bit_adv_predict features);
         next_v = calc_pred S (as_i16x8 pixels_sans_dc 7) (as_i16x8 pixels_sans_dc 6)
           (use_16bit_dc_estimate features);
         next_h = calc_pred S (from_stride pixels_sans_dc 7 8) (from_stride pixels_sans_dc 6 8)
           (use_16bit_dc_estimate features)
     in case dc_estimates S all_p pt neighbor_data h_pred v_pred of
          None \<Rightarrow> Ok \<lparr>predicted_dc = 0, uncertainty = 0, uncertainty2 = 0,
                      next_edge_pixels_h = next_h, next_edge_pixels_v = next_v\<rparr>
        | Some (min_dc, max_dc, avg_horizontal, avg_vertical) \<Rightarrow>
            (let avgmed = sshr (avg_vertical + avg_horizontal) 1;
                 uncertainty_val = ucast (sshr (scast max_dc - scast min_dc :: i32) 3);
                 avg_horizontal = avg_horizontal - avgmed;
                 avg_vertical = avg_vertical - avgmed;
                 far_afield_value =
                   (if \<bar>sint avg_horizontal\<bar> < \<bar>sint avg_vertical\<bar> then avg_horizontal else avg_vertical);
                 uncertainty2_val = ucast (sshr far_afield_value 3)
             in case checked_div avgmed q0 of
                  None \<Rightarrow> panic
                | Some d \<Rightarrow> Ok \<lparr>predicted_dc = sshr (d + 4) 3, uncertainty = uncertainty_val,
                      uncertainty2 = uncertainty2_val,
                      next_edge_pixels_h = next_h, next_edge_pixels_v = next_v\<rparr>))"

section \<open>Indices and bounds\<close>

lemma num_non_zeros_to_bin_ok:
  assumes "n \<le> 49"
  obtains b where "num_non_zeros_to_bin_7x7 n = Ok b" "b < 9"
proof -
  have "list_all (\<lambda>b. b < 9) NON_ZERO_TO_BIN_7X7" by (simp add: NON_ZERO_TO_BIN_7X7_def)
  moreover have "n < length NON_ZERO_TO_BIN_7X7" using assms by (simp add: NON_ZERO_TO_BIN_7X7_def)
  ultimately show ?thesis using that by (simp add: num_non_zeros_to_bin_7x7_def idx_in_range list_all_length)
qed

lemma context_bin_ok:
  assumes "unat (num_non_zeros (neighbor_context_above nd)) \<le> 49"
    "unat (num_non_zeros (neighbor_context_left nd)) \<le> 49"
  obtains c where "calc_num_non_zeros_7x7_context_bin all_p pt nd = Ok c" "unat c < 9"
proof -
  define n where "n = (let a = (if all_p \<or> above_present pt then get_num_non_zeros (neighbor_context_above nd) else 0);
         l = (if all_p \<or> left_present pt then get_num_non_zeros (neighbor_context_left nd) else 0)
     in (if \<not> all_p \<and> above_present pt \<and> \<not> left_present pt then (a + 1) div 2
         else if \<not> all_p \<and> left_present pt \<and> \<not> above_present pt then (l + 1) div 2
         else if all_p \<or> (left_present pt \<and> above_present pt) then (a + l + 2) div 4
         else 0))"
  have half: "unat ((a + 1) div 2) \<le> 25" if "unat a \<le> 49" for a :: u8
    using that by (simp add: unat_div unat_word_ariths)
  have quarter: "unat ((a + l + 2) div 4) \<le> 25" if "unat a \<le> 49" "unat l \<le> 49" for a l :: u8
    using that by (simp add: unat_div unat_word_ariths)
  have "unat n \<le> 25"
    unfolding n_def Let_def get_num_non_zeros_def using assms by (auto intro!: half quarter)
  then have n: "unat n < length NON_ZERO_TO_BIN" by (simp add: NON_ZERO_TO_BIN_def)
  have "list_all (\<lambda>b. b < 9) NON_ZERO_TO_BIN" by (simp add: NON_ZERO_TO_BIN_def)
  then have "NON_ZERO_TO_BIN ! unat n < 9" using n by (simp add: list_all_length)
  then have "unat (of_nat (NON_ZERO_TO_BIN ! unat n) :: u8) < 9" by (simp add: unat_of_nat)
  moreover have "calc_num_non_zeros_7x7_context_bin all_p pt nd = Ok (of_nat (NON_ZERO_TO_BIN ! unat n))"
    unfolding calc_num_non_zeros_7x7_context_bin_def Let_def n_def [unfolded Let_def, symmetric]
    by (simp add: idx_in_range [OF n])
  ultimately show ?thesis by (rule that [rotated])
qed

text \<open>Coefficients the model can code.\<close>

definition ac_ok :: "AlignedBlock \<Rightarrow> bool" where
  "ac_ok b \<longleftrightarrow> block_ok b \<and> (\<forall>i. 0 < i \<and> i < 64 \<longrightarrow> \<bar>sint (raw_data b ! i)\<bar> < 2 ^ 11)"

lemma ac_ok_coefficient: "ac_ok b \<Longrightarrow> 0 < i \<Longrightarrow> i < 64 \<Longrightarrow> \<bar>sint (get_coefficient b i)\<bar> < 2 ^ 11"
  by (simp add: ac_ok_def get_coefficient_def)

lemma unat_abs_u16: "unat (abs_u16 a) = nat \<bar>sint a\<bar>"
  using unat_unsigned_abs [of a] by (simp add: abs_u16_def unsigned_abs_def)

lemma ac_ok_abs: "ac_ok b \<Longrightarrow> 0 < i \<Longrightarrow> i < 64 \<Longrightarrow> unat (abs_u16 (raw_data b ! i)) \<le> 2047"
  unfolding unat_abs_u16 ac_ok_def by (auto simp: nat_le_iff)

lemma weighted_average_bound:
  fixes l a al :: u16
  assumes "unat l \<le> 2047" "unat a \<le> 2047" "unat al \<le> 2047"
  shows "unat (drop_bit 5 ((l + a) * 13 + al * 6)) \<le> 2047"
proof -
  have s: "unat (l + a) = unat l + unat a" using assms by (simp add: unat_word_ariths)
  have p: "unat ((l + a) * 13) = (unat l + unat a) * 13" using assms by (simp add: unat_word_ariths s)
  have q: "unat (al * 6) = unat al * 6" using assms by (simp add: unat_word_ariths)
  have t: "unat ((l + a) * 13 + al * 6) = (unat l + unat a) * 13 + unat al * 6"
    unfolding unat_word_ariths(1) p q using assms by simp
  have "(unat l + unat a) * 13 + unat al * 6 \<le> 65504" using assms by simp
  then have "((unat l + unat a) * 13 + unat al * 6) div 32 \<le> 65504 div 32" by (rule div_le_mono)
  then show ?thesis unfolding unat_drop_bit t by simp
qed

text \<open>Entry \<open>8 * i + j\<close> of eight vectors laid out one after the other.\<close>

lemma nth_concat8:
  assumes "\<forall>v \<in> set vs. length v = 8" "i < length vs" "j < 8"
  shows "concat vs ! (8 * i + j) = vs ! i ! j"
  using assms
proof (induction vs arbitrary: i)
  case (Cons v vs)
  show ?case
  proof (cases i)
    case 0
    then show ?thesis using Cons.prems by (simp add: nth_append)
  next
    case (Suc k)
    have "concat (v # vs) ! (8 * i + j) = concat vs ! (8 * k + j)"
      using Cons.prems Suc by (simp add: nth_append)
    then show ?thesis using Cons.IH [of k] Cons.prems Suc by simp
  qed
qed simp

lemma length_concat8: "\<forall>v \<in> set vs. length v = 8 \<Longrightarrow> length (concat vs) = 8 * length vs"
  by (induction vs) simp_all

definition summary_ok :: "NeighborSummary \<Rightarrow> bool" where
  "summary_ok s \<longleftrightarrow> unat (num_non_zeros s) \<le> 49 \<and> length (edge_coefs_h s) = 8 \<and> length (edge_coefs_v s) = 8"

definition neighbors_ok :: "NeighborData \<Rightarrow> bool" where
  "neighbors_ok nd \<longleftrightarrow> ac_ok (left nd) \<and> ac_ok (above nd) \<and> ac_ok (above_left nd) \<and>
    summary_ok (neighbor_context_above nd) \<and> summary_ok (neighbor_context_left nd)"

lemma summary_ok_empty: "summary_ok NEIGHBOR_DATA_EMPTY"
  by (simp add: summary_ok_def NEIGHBOR_DATA_EMPTY_def splat_def)

lemma ac_ok_empty: "ac_ok EMPTY_BLOCK"
  by (simp add: ac_ok_def EMPTY_BLOCK_def block_ok_def)

section \<open>The two sides predict the same\<close>

context simd_laws
begin

lemma row_abs_bound:
  assumes "ac_ok b" "1 \<le> i" "i < 8"
  shows "length (unsigned_abs_i16 S (as_i16x8 b i)) = 8"
    "\<And>j. j < 8 \<Longrightarrow> unat (unsigned_abs_i16 S (as_i16x8 b i) ! j) \<le> 2047"
proof -
  have len: "length (raw_data b) = 64" using assms(1) by (simp add: ac_ok_def block_ok_def)
  then have l: "length (as_i16x8 b i) = 8" using assms by (simp add: as_i16x8_def)
  then show "length (unsigned_abs_i16 S (as_i16x8 b i)) = 8" by (simp add: laws)
  fix j :: nat
  assume j: "j < 8"
  then have "unsigned_abs_i16 S (as_i16x8 b i) ! j = abs_u16 (raw_data b ! (8 * i + j))"
    using l len assms by (simp add: laws as_i16x8_def nth_row8)
  then show "unat (unsigned_abs_i16 S (as_i16x8 b i) ! j) \<le> 2047" using ac_ok_abs [OF assms(1)] assms j by simp
qed

lemma aavg_row_bound:
  assumes "ac_ok l" "ac_ok a" "ac_ok al" "1 \<le> i" "i < 8"
  shows "length (aavg_row S (as_i16x8 l i) (as_i16x8 a i) (as_i16x8 al i)) = 8"
    "\<And>j. j < 8 \<Longrightarrow> unat (aavg_row S (as_i16x8 l i) (as_i16x8 a i) (as_i16x8 al i) ! j) \<le> 2047"
proof -
  note L = row_abs_bound [OF assms(1,4,5)] and A = row_abs_bound [OF assms(2,4,5)]
    and AL = row_abs_bound [OF assms(3,4,5)]
  have sp: "length (splat c) = 8" "j < 8 \<Longrightarrow> splat c ! j = c" for c :: u16 and j by (simp_all add: splat_def)
  show "length (aavg_row S (as_i16x8 l i) (as_i16x8 a i) (as_i16x8 al i)) = 8"
    by (simp add: aavg_row_def lane_u16 lane_shr_u16 L A AL sp)
  fix j :: nat
  assume j: "j < 8"
  have "aavg_row S (as_i16x8 l i) (as_i16x8 a i) (as_i16x8 al i) ! j =
      drop_bit 5 ((unsigned_abs_i16 S (as_i16x8 l i) ! j + unsigned_abs_i16 S (as_i16x8 a i) ! j) * 13
        + unsigned_abs_i16 S (as_i16x8 al i) ! j * 6)"
    using j by (simp add: aavg_row_def lane_u16 lane_shr_u16 L A AL sp)
  then show "unat (aavg_row S (as_i16x8 l i) (as_i16x8 a i) (as_i16x8 al i) ! j) \<le> 2047"
    using weighted_average_bound [OF L(2) A(2) AL(2), OF j j j] by simp
qed

lemma best_priors_bound:
  assumes "ac_ok l" "ac_ok a" "ac_ok al" "c < 64"
  shows "unat (calc_coefficient_context_7x7_aavg_block S all_p pt l a al ! c) \<le> 2047"
proof -
  define vs where "vs =
       (if all_p then
          splat 0 # map (\<lambda>i. aavg_row S (as_i16x8 l i) (as_i16x8 a i) (as_i16x8 al i)) [1..<8]
        else if left_present pt then splat 0 # map (\<lambda>i. unsigned_abs_i16 S (as_i16x8 l i)) [1..<8]
        else if above_present pt then splat 0 # map (\<lambda>i. unsigned_abs_i16 S (as_i16x8 a i)) [1..<8]
        else replicate 8 (splat 0))"
  have rows: "(length (vs ! i) = 8 \<and> (\<forall>j < 8. unat (vs ! i ! j) \<le> 2047))" if "i < 8" for i
  proof (cases i)
    case 0
    then show ?thesis by (simp add: vs_def splat_def)
  next
    case (Suc k)
    have k: "1 \<le> Suc k" "Suc k < 8" using Suc that by simp_all
    show ?thesis
      using k row_abs_bound [OF assms(1) k] row_abs_bound [OF assms(2) k]
        aavg_row_bound [OF assms(1,2,3) k]
      by (simp add: vs_def Suc splat_def)
  qed
  have len: "length vs = 8" by (simp add: vs_def)
  then have all: "\<forall>v \<in> set vs. length v = 8" using rows by (auto simp: in_set_conv_nth)
  have "concat vs ! (8 * (c div 8) + c mod 8) = vs ! (c div 8) ! (c mod 8)"
    using assms(4) len by (intro nth_concat8 [OF all]) simp_all
  moreover have "c div 8 < 8" using assms(4) by simp
  ultimately show ?thesis
    using rows [of "c div 8"] by (simp add: calc_coefficient_context_7x7_aavg_block_def Let_def flip: vs_def)
qed

text \<open>Rasters that agree on the inner coefficients.\<close>

lemma predict_current_edges_cong:
  assumes r: "length r = 64" "length r' = 64"
    and agree: "\<And>c. c < 64 \<Longrightarrow> 0 < c mod 8 \<Longrightarrow> 0 < c div 8 \<Longrightarrow> r ! c = r' ! c"
    and v: "length (edge_coefs_v (neighbor_context_left nd)) = 8"
  shows "fst (predict_current_edges S nd (rows8 r)) = fst (predict_current_edges S nd (rows8 r'))
    \<and> (\<forall>j. 1 \<le> j \<and> j < 8 \<longrightarrow>
        snd (predict_current_edges S nd (rows8 r)) ! j = snd (predict_current_edges S nd (rows8 r')) ! j)"
proof -
  define step where "step = (\<lambda>raster col (h, v).
        (h[col := h ! col - reduce_add_i32 S (mul_i32 S (raster ! col) ICOS_BASED_8192_SCALED)],
         sub_i32 S v (mul_i32 S (raster ! col) (splat (ICOS_BASED_8192_SCALED ! col)))))"
  have len8: "length (splat x) = 8" "j < 8 \<Longrightarrow> splat x ! j = x" for x :: i32 and j by (simp_all add: splat_def)
  have lane: "row8 r col ! j = row8 r' col ! j" if "1 \<le> col" "col < 8" "1 \<le> j" "j < 8" for col j
    using that by (simp add: nth_row8 r agree)
  have "fst (fold (step (rows8 r)) cs (h, v)) = fst (fold (step (rows8 r')) cs (h, v'))
      \<and> (\<forall>j. 1 \<le> j \<and> j < 8 \<longrightarrow> snd (fold (step (rows8 r)) cs (h, v)) ! j = snd (fold (step (rows8 r')) cs (h, v')) ! j)"
    if "\<forall>c \<in> set cs. 1 \<le> c \<and> c < 8" "length v = 8" "length v' = 8" "\<forall>j. 1 \<le> j \<and> j < 8 \<longrightarrow> v ! j = v' ! j" for cs h v v'
    using that
  proof (induction cs arbitrary: h v v')
    case (Cons c cs)
    then have c: "1 \<le> c" "c < 8" by simp_all
    have l: "length (row8 r c) = 8" "length (row8 r' c) = 8" using c r by simp_all
    have dot: "reduce_add_i32 S (mul_i32 S (row8 r c) ICOS_BASED_8192_SCALED)
        = reduce_add_i32 S (mul_i32 S (row8 r' c) ICOS_BASED_8192_SCALED)"
    proof (rule dot_cong [OF l])
      fix i :: nat
      assume "i < 8" "row8 r c ! i \<noteq> row8 r' c ! i"
      then have "i = 0" using lane [OF c, of i] by (cases i) auto
      then show "ICOS_BASED_8192_SCALED ! i = 0" by (simp add: ICOS_BASED_8192_SCALED_def)
    qed (simp add: ICOS_BASED_8192_SCALED_def)
    let ?w = "\<lambda>r v. sub_i32 S v (mul_i32 S (row8 r c) (splat (ICOS_BASED_8192_SCALED ! c)))"
    have lw: "length (?w r v) = 8" "length (?w r' v') = 8"
      using Cons.prems(2,3) l len8 by (simp_all add: lane_i32)
    have "\<forall>j. 1 \<le> j \<and> j < 8 \<longrightarrow> ?w r v ! j = ?w r' v' ! j"
      using Cons.prems l len8 lane [OF c] by (simp add: lane_i32)
    from Cons.IH [OF _ lw this, of "h[c := h ! c - reduce_add_i32 S (mul_i32 S (row8 r c) ICOS_BASED_8192_SCALED)]"]
    show ?case using Cons.prems(1) c dot by (simp add: step_def)
  qed simp
  from this [of "[1..<8]"] show ?thesis
    using v unfolding predict_current_edges_def get_vertical_coef_def step_def by simp
qed

end

text \<open>The context of an edge coefficient exists if the quantization factor is not 0.\<close>

lemma lak_ok:
  assumes "quantization_table_transposed qt ! c \<noteq> 0"
  obtains x where "calc_coefficient_context8_lak all_p horizontal pt qt c pred = Ok x"
proof -
  let ?q = "quantization_table_transposed qt ! c"
  let ?d = "push_bit 13 (ucast ?q) :: i32"
  have q: "unat ?q < 2 ^ 16" using unat_lt2p [of ?q] by simp
  have "unat (ucast ?q :: i32) = unat ?q" using q by (simp add: unat_ucast)
  then have d: "unat ?d = unat ?q * 2 ^ 13" using q by (subst unat_push_bit_small) simp_all
  then have "unat ?d < 2 ^ (LENGTH(32) - 1)" using q by simp
  then have "sint ?d = int (unat ?d)" by (rule sint_unat_small)
  then have "0 \<le> sint ?d" by linarith
  then have "sint ?d \<noteq> - 1" by linarith
  moreover have "?d \<noteq> 0" using d assms by (metis mult_eq_0_iff power_not_zero unat_0 unat_eq_0 zero_neq_numeral)
  ultimately have "checked_div (pred ! j) ?d = Some (of_int (sint (pred ! j) sdiv sint ?d))" for j
    by (simp add: checked_div_def)
  then show ?thesis
    using that by (cases "\<not> all_p \<and> ((horizontal \<and> \<not> above_present pt) \<or> (\<not> horizontal \<and> \<not> left_present pt))")
      (auto simp: calc_coefficient_context8_lak_def get_quantization_table_transposed_def Let_def)
qed

lemma lak_cong:
  assumes "\<And>j. 1 \<le> j \<Longrightarrow> j < 8 \<Longrightarrow> pred ! j = pred' ! j" "c = (if horizontal then 8 * k else k)" "1 \<le> k" "k < 8"
  shows "calc_coefficient_context8_lak all_p horizontal pt qt c pred
    = calc_coefficient_context8_lak all_p horizontal pt qt c pred'"
proof -
  have "(if horizontal then drop_bit 3 c else c) = k" using assms(2) by (simp add: drop_bit_eq_div)
  then show ?thesis unfolding calc_coefficient_context8_lak_def Let_def by (simp only: assms(1) [OF assms(3,4)])
qed

section \<open>The DC residual\<close>

text \<open>The difference to the prediction wraps around modulo 2049, so that it stays in range.\<close>

definition wrap_dc :: "int \<Rightarrow> int" where
  "wrap_dc i = (let i = (if i < - 1024 then i + 2049 else i) in if 1024 < i then i - 2049 else i)"

lemma wrap_dc_range: "- 3073 \<le> i \<Longrightarrow> i \<le> 3073 \<Longrightarrow> \<bar>wrap_dc i\<bar> \<le> 1024"
  by (auto simp: wrap_dc_def Let_def)

lemma wrap_dc_inverse: "\<bar>d\<bar> \<le> 1024 \<Longrightarrow> \<bar>p\<bar> \<le> 1024 \<Longrightarrow> wrap_dc (wrap_dc (d - p) + p) = d"
  by (auto simp: wrap_dc_def Let_def)

lemma sint_scast_up: "sint (scast (w :: i16) :: i32) = sint w"
  using sint_ge [of w] sint_lt [of w] sint_of_int_small [of "sint w", where 'a = 32]
  by (simp add: of_int_sint)

lemma adv_predict_wrap:
  assumes "\<bar>sint p\<bar> < 2 ^ 20"
  shows "sint (adv_predict_or_unpredict_dc dc recover p)
    = wrap_dc (sint dc + (if recover then sint p else - sint p))"
proof -
  let ?i = "sint dc + (if recover then sint p else - sint p)"
  have dc: "- 32768 \<le> sint dc" "sint dc < 32768" using sint_ge [of dc] sint_lt [of dc] by simp_all
  have b: "\<bar>?i\<bar> < 2 ^ 21" using dc assms by auto
  have r: "scast dc + (if recover then p else - p) = (of_int ?i :: i32)"
    by (simp add: of_int_sint)
  have S: "sint (of_int j :: i32) = j" if "\<bar>j\<bar> < 2 ^ 30" for j
    using that by (intro sint_of_int_small) auto
  define m :: i32 where "m = push_bit (MAX_EXPONENT - 1) 1"
  have m: "sint m = 1024" "sint (- m) = - 1024" "2 * m + 1 = 2049" by (simp_all add: m_def MAX_EXPONENT_def)
  define i where "i = ?i"
  define i1 where "i1 = (if i < - 1024 then i + 2049 else i)"
  have bi: "\<bar>i\<bar> < 2 ^ 21" using b by (simp add: i_def)
  have s1: "(if sint (of_int i :: i32) < sint (- m) then of_int i + 2049 else of_int i) = (of_int i1 :: i32)"
    using S [of i] bi by (simp add: i1_def m)
  have s2: "(if sint m < sint (of_int i1 :: i32) then of_int i1 - 2049 else of_int i1) = (of_int (wrap_dc i) :: i32)"
  proof -
    have "\<bar>i1\<bar> < 2 ^ 30" using bi by (auto simp: i1_def)
    moreover have "wrap_dc i = (if 1024 < i1 then i1 - 2049 else i1)" by (simp add: wrap_dc_def i1_def Let_def)
    ultimately show ?thesis using S [of i1] by (simp add: m)
  qed
  have "adv_predict_or_unpredict_dc dc recover p = of_int (wrap_dc i)"
    unfolding adv_predict_or_unpredict_dc_def Let_def m_def [symmetric] r i_def [symmetric] m(3) s1 s2 by (rule refl)
  moreover have "\<bar>wrap_dc i\<bar> < 2 ^ 30" using bi by (auto simp: wrap_dc_def Let_def)
  ultimately show ?thesis using S by (simp add: i_def)
qed

text \<open>Adding the prediction back gives the DC, whenever both are in the range of a JPEG.\<close>

lemma adv_predict_roundtrip:
  assumes dc: "\<bar>sint dc\<bar> \<le> 1024" and p: "\<bar>sint p\<bar> \<le> 1024"
  shows "\<bar>sint (adv_predict_or_unpredict_dc dc False p)\<bar> \<le> 1024"
    and "adv_predict_or_unpredict_dc (ucast (adv_predict_or_unpredict_dc dc False p)) True p = scast dc"
proof -
  let ?a = "adv_predict_or_unpredict_dc dc False p"
  have p20: "\<bar>sint p\<bar> < 2 ^ 20" using p by simp
  have a: "sint ?a = wrap_dc (sint dc - sint p)" using adv_predict_wrap [OF p20, of dc False] by simp
  show range: "\<bar>sint ?a\<bar> \<le> 1024" unfolding a using dc p by (intro wrap_dc_range) auto
  have u: "sint (ucast ?a :: i16) = sint ?a"
  proof -
    have "is_down (ucast :: i32 \<Rightarrow> i16)" by (simp add: is_down)
    from down_cast_same [OF this] have "ucast ?a = (scast ?a :: i16)" by (rule fun_cong)
    then have "ucast ?a = (of_int (sint ?a) :: i16)" by (simp add: of_int_sint)
    then show ?thesis using range sint_of_int_small [of "sint ?a", where 'a = 16] by auto
  qed
  have "sint (adv_predict_or_unpredict_dc (ucast ?a) True p) = wrap_dc (wrap_dc (sint dc - sint p) + sint p)"
    using adv_predict_wrap [OF p20, of "ucast ?a" True] by (simp add: u a)
  also have "\<dots> = sint dc" by (rule wrap_dc_inverse [OF dc p])
  finally show "adv_predict_or_unpredict_dc (ucast ?a) True p = scast dc"
    by (metis sint_scast_up signed_word_eqI)
qed

end
