(* ===== verification/Block_Codec.thy ===== *)
theory Block_Codec
  imports Predict
begin

unbundle bit_operations_syntax

text \<open>
  Coding a block (\<open>structs/lepton_encoder.rs\<close>, \<open>structs/lepton_decoder.rs\<close>): first the inner 49
  coefficients in zigzag order until the last nonzero one, then the two edges, then the DC as the
  difference to its prediction. The theorem of this theory: whatever the block, the neighbors and
  the tables, the encoder either refuses the block or the decoder restores it, and both end with the
  same model and the same summary of the block.

  A raster is kept as the 64 entries the source casts it to.
\<close>

section \<open>Inner coefficients\<close>

fun write_7x7_loop ::
  "AlignedBlock \<Rightarrow> u16 list \<Rightarrow> (nat \<times> nat) list \<Rightarrow> nat \<Rightarrow> nat \<Rightarrow> nat \<times> nat \<times> ModelPerColor
    \<Rightarrow> VPXBoolWriter \<Rightarrow> ((nat \<times> nat \<times> ModelPerColor) \<times> VPXBoolWriter) result"
where
  "write_7x7_loop here_tr best_priors [] remaining bin s w = Ok (s, w)"
| "write_7x7_loop here_tr best_priors ((zig49, coord_tr) # rest) remaining bin (eob_x, eob_y, m) w =
    (let best_prior_bit_length = unat (u16_bit_length (best_priors ! coord_tr));
         coef = get_coefficient here_tr coord_tr
     in bindR (write_coef coef zig49 bin best_prior_bit_length m w) (\<lambda>(m, w).
          if coef \<noteq> 0 then
            (let b_y = coord_tr AND 7;
                 b_x = drop_bit 3 coord_tr;
                 eob_x = max eob_x b_x;
                 eob_y = max eob_y b_y;
                 remaining = remaining - 1
             in if remaining = 0 then Ok ((eob_x, eob_y, m), w)
                else bindR (num_non_zeros_to_bin_7x7 remaining) (\<lambda>bin.
                       write_7x7_loop here_tr best_priors rest remaining bin (eob_x, eob_y, m) w))
          else write_7x7_loop here_tr best_priors rest remaining bin (eob_x, eob_y, m) w))"

fun read_7x7_loop ::
  "QuantizationTables \<Rightarrow> u16 list \<Rightarrow> (nat \<times> nat) list \<Rightarrow> AlignedBlock \<times> i32 list \<times> nat \<Rightarrow> nat
    \<Rightarrow> nat \<times> nat \<times> ModelPerColor \<Rightarrow> VPXBoolReader
    \<Rightarrow> ((AlignedBlock \<times> i32 list \<times> nat) \<times> (nat \<times> nat \<times> ModelPerColor) \<times> VPXBoolReader) result"
where
  "read_7x7_loop qt best_priors [] v bin s r = Ok (v, s, r)"
| "read_7x7_loop qt best_priors ((zig49, coord_tr) # rest) (output, raster_col, remaining) bin
      (eob_x, eob_y, m) r =
    (let best_prior_bit_length = unat (u16_bit_length (best_priors ! coord_tr))
     in bindR (read_coef zig49 bin best_prior_bit_length m r) (\<lambda>(coef, m, r).
          if coef \<noteq> 0 then
            (let b_y = coord_tr AND 7;
                 b_x = drop_bit 3 coord_tr;
                 eob_x = max eob_x b_x;
                 eob_y = max eob_y b_y;
                 output = set_coefficient coord_tr coef output;
                 raster_col = raster_col[coord_tr :=
                   scast coef * ucast (get_quantization_table_transposed qt ! coord_tr)];
                 remaining = remaining - 1
             in if remaining = 0 then Ok ((output, raster_col, remaining), (eob_x, eob_y, m), r)
                else bindR (num_non_zeros_to_bin_7x7 remaining) (\<lambda>bin.
                       read_7x7_loop qt best_priors rest (output, raster_col, remaining) bin
                         (eob_x, eob_y, m) r))
          else read_7x7_loop qt best_priors rest (output, raster_col, remaining) bin (eob_x, eob_y, m) r))"

section \<open>Edges\<close>

definition count_non_zero :: "i16 \<Rightarrow> u8" where
  "count_non_zero v = (if v = 0 then 0 else 1)"

definition edge_delta :: "bool \<Rightarrow> nat" where
  "edge_delta horizontal = (if horizontal then 8 else 1)"

text \<open>The loops over the lanes; \<open>lanes\<close> counts down from 7.\<close>

fun encode_edge_loop ::
  "bool \<Rightarrow> bool \<Rightarrow> AlignedBlock \<Rightarrow> i32 list \<Rightarrow> QuantizationTables \<Rightarrow> ProbabilityTables
    \<Rightarrow> nat \<Rightarrow> nat \<Rightarrow> nat \<Rightarrow> u8 \<Rightarrow> ModelPerColor \<Rightarrow> VPXBoolWriter \<Rightarrow> (ModelPerColor \<times> VPXBoolWriter) result"
where
  "encode_edge_loop all_p horizontal block pred qt pt 0 coord_tr zig15offset num m w = Ok (m, w)"
| "encode_edge_loop all_p horizontal block pred qt pt (Suc lanes) coord_tr zig15offset num m w =
    (if num = 0 then Ok (m, w)
     else
       bindR (calc_coefficient_context8_lak all_p horizontal pt qt coord_tr pred) (\<lambda>best_prior.
       let coef = get_coefficient block coord_tr
       in bindR (write_edge_coefficient qt coef zig15offset num best_prior m w) (\<lambda>(m, w).
            encode_edge_loop all_p horizontal block pred qt pt lanes (coord_tr + edge_delta horizontal)
              (zig15offset + 1) (if coef \<noteq> 0 then num - 1 else num) m w)))"

definition encode_one_edge ::
  "bool \<Rightarrow> bool \<Rightarrow> AlignedBlock \<Rightarrow> i32 list \<Rightarrow> QuantizationTables \<Rightarrow> ProbabilityTables \<Rightarrow> u8 \<Rightarrow> u8
    \<Rightarrow> ModelPerColor \<Rightarrow> VPXBoolWriter \<Rightarrow> (ModelPerColor \<times> VPXBoolWriter) result"
where
  "encode_one_edge all_p horizontal block pred qt pt num_non_zeros_bin est_eob m w =
    (let nz = (\<lambda>i. count_non_zero (get_coefficient block i));
         num_non_zeros_edge =
           (if \<not> horizontal then nz 1 + nz 2 + nz 3 + nz 4 + nz 5 + nz 6 + nz 7
            else nz 8 + nz 16 + nz 24 + nz 32 + nz 40 + nz 48 + nz 56)
     in bindR (write_non_zero_edge_count horizontal est_eob num_non_zeros_bin num_non_zeros_edge m w)
          (\<lambda>(m, w).
        encode_edge_loop all_p horizontal block pred qt pt 7 (edge_delta horizontal)
          (if horizontal then 0 else 7) num_non_zeros_edge m w))"

fun decode_edge_loop ::
  "bool \<Rightarrow> bool \<Rightarrow> i32 list \<Rightarrow> QuantizationTables \<Rightarrow> ProbabilityTables \<Rightarrow> nat \<Rightarrow> nat \<Rightarrow> nat
    \<Rightarrow> AlignedBlock \<times> i32 list \<times> u8 \<Rightarrow> ModelPerColor \<Rightarrow> VPXBoolReader
    \<Rightarrow> ((AlignedBlock \<times> i32 list \<times> u8) \<times> ModelPerColor \<times> VPXBoolReader) result"
where
  "decode_edge_loop all_p horizontal pred qt pt 0 coord_tr zig15offset v m r = Ok (v, m, r)"
| "decode_edge_loop all_p horizontal pred qt pt (Suc lanes) coord_tr zig15offset (here, raster, num) m r =
    (if num = 0 then Ok ((here, raster, num), m, r)
     else
       bindR (calc_coefficient_context8_lak all_p horizontal pt qt coord_tr pred) (\<lambda>best_prior.
       bindR (read_edge_coefficient qt zig15offset num best_prior m r) (\<lambda>(coef, m, r).
         decode_edge_loop all_p horizontal pred qt pt lanes (coord_tr + edge_delta horizontal)
           (zig15offset + 1)
           (if coef \<noteq> 0 then
              (set_coefficient coord_tr coef here,
               raster[coord_tr := scast coef * ucast (get_quantization_table_transposed qt ! coord_tr)],
               num - 1)
            else (here, raster, num)) m r)))"

definition decode_one_edge ::
  "bool \<Rightarrow> bool \<Rightarrow> i32 list \<Rightarrow> AlignedBlock \<Rightarrow> QuantizationTables \<Rightarrow> ProbabilityTables \<Rightarrow> u8 \<Rightarrow> u8
    \<Rightarrow> i32 list \<Rightarrow> ModelPerColor \<Rightarrow> VPXBoolReader
    \<Rightarrow> ((AlignedBlock \<times> i32 list) \<times> ModelPerColor \<times> VPXBoolReader) result"
where
  "decode_one_edge all_p horizontal pred here_mut qt pt num_non_zeros_bin est_eob raster m r =
    bindR (read_non_zero_edge_count horizontal est_eob num_non_zeros_bin m r) (\<lambda>(num, m, r).
    bindR (decode_edge_loop all_p horizontal pred qt pt 7 (edge_delta horizontal)
        (if horizontal then 0 else 7) (here_mut, raster, num) m r) (\<lambda>((here, raster, num), m, r).
      if num \<noteq> 0 then err_exit_code StreamInconsistent else Ok ((here, raster), m, r)))"

text \<open>The edges of a block: the raster of the dequantized coefficients with 0 for the DC, and the
  predictions for the blocks below and to the right.\<close>

definition encode_edge ::
  "simd \<Rightarrow> bool \<Rightarrow> NeighborData \<Rightarrow> AlignedBlock \<Rightarrow> QuantizationTables \<Rightarrow> ProbabilityTables
    \<Rightarrow> u8 \<Rightarrow> u8 \<Rightarrow> u8 \<Rightarrow> ModelPerColor \<Rightarrow> VPXBoolWriter
    \<Rightarrow> ((i32 list \<times> i32x8 \<times> i32x8 \<times> ModelPerColor) \<times> VPXBoolWriter) result"
where
  "encode_edge S all_p nd here_tr qt pt num_non_zeros_7x7 eob_x eob_y m w =
    (let q_tr = get_quantization_table_transposed qt;
         raster = 0 # map (\<lambda>i. scast (get_coefficient here_tr i) * ucast (q_tr ! i)) [1..<64];
         (curr_horiz_pred, curr_vert_pred) = predict_current_edges S nd (rows8 raster);
         num_non_zeros_bin = (num_non_zeros_7x7 + 3) div 7
     in bindR (encode_one_edge all_p True here_tr curr_horiz_pred qt pt num_non_zeros_bin eob_x m w)
          (\<lambda>(m, w).
        bindR (encode_one_edge all_p False here_tr curr_vert_pred qt pt num_non_zeros_bin eob_y m w)
          (\<lambda>(m, w).
        let (next_horiz_pred, next_vert_pred) = predict_next_edges S (rows8 raster)
        in Ok ((raster, next_horiz_pred, next_vert_pred, m), w))))"

definition decode_edge ::
  "simd \<Rightarrow> bool \<Rightarrow> NeighborData \<Rightarrow> AlignedBlock \<Rightarrow> QuantizationTables \<Rightarrow> ProbabilityTables
    \<Rightarrow> u8 \<Rightarrow> i32 list \<Rightarrow> u8 \<Rightarrow> u8 \<Rightarrow> ModelPerColor \<Rightarrow> VPXBoolReader
    \<Rightarrow> (AlignedBlock \<times> (i32 list \<times> i32x8 \<times> i32x8 \<times> ModelPerColor) \<times> VPXBoolReader) result"
where
  "decode_edge S all_p nd here_mut qt pt num_non_zeros_7x7 raster eob_x eob_y m r =
    (let num_non_zeros_bin = (num_non_zeros_7x7 + 3) div 7;
         (curr_horiz_pred, curr_vert_pred) = predict_current_edges S nd (rows8 raster)
     in bindR (decode_one_edge all_p True curr_horiz_pred here_mut qt pt num_non_zeros_bin eob_x raster m r)
          (\<lambda>((here, raster), m, r).
        bindR (decode_one_edge all_p False curr_vert_pred here qt pt num_non_zeros_bin eob_y raster m r)
          (\<lambda>((here, raster), m, r).
        let (next_horiz_pred, next_vert_pred) = predict_next_edges S (rows8 raster)
        in Ok (here, (raster, next_horiz_pred, next_vert_pred, m), r))))"

section \<open>Blocks\<close>

text \<open>The borrowed model of a color, written back.\<close>

definition set_per_color :: "Model \<Rightarrow> nat \<Rightarrow> ModelPerColor \<Rightarrow> Model" where
  "set_per_color m color_index pc = m\<lparr>per_color := (per_color m)[color_index := pc]\<rparr>"

definition write_coefficient_block ::
  "simd \<Rightarrow> bool \<Rightarrow> ProbabilityTables \<Rightarrow> nat \<Rightarrow> NeighborData \<Rightarrow> AlignedBlock \<Rightarrow> QuantizationTables
    \<Rightarrow> EnabledFeatures \<Rightarrow> Model \<Rightarrow> VPXBoolWriter \<Rightarrow> ((NeighborSummary \<times> Model) \<times> VPXBoolWriter) result"
where
  "write_coefficient_block S all_p pt color_index nd here_tr qt features m w =
    bindR (get_per_color m color_index) (\<lambda>pc.
    bindR (calc_num_non_zeros_7x7_context_bin all_p pt nd) (\<lambda>context_bin.
    let num_non_zeros_7x7 = get_count_of_non_zeros_7x7 S here_tr
    in bindR (write_non_zero_7x7_count context_bin num_non_zeros_7x7 pc w) (\<lambda>(pc, w).
       bindR
         (if 0 < unat num_non_zeros_7x7 then
            (let best_priors =
               calc_coefficient_context_7x7_aavg_block S all_p pt (left nd) (above nd) (above_left nd)
             in bindR (num_non_zeros_to_bin_7x7 (unat num_non_zeros_7x7)) (\<lambda>bin.
                  write_7x7_loop here_tr best_priors (enumerate 0 UNZIGZAG_49_TR)
                    (unat num_non_zeros_7x7) bin (0, 0, pc) w))
          else Ok ((0, 0, pc), w)) (\<lambda>((eob_x, eob_y, pc), w).
       bindR (encode_edge S all_p nd here_tr qt pt num_non_zeros_7x7 (of_nat eob_x) (of_nat eob_y) pc w)
         (\<lambda>((raster, horiz_pred, vert_pred, pc), w).
       let m = set_per_color m color_index pc;
           q0 = ucast (get_quantization_table qt ! 0)
       in bindR (adv_predict_dc_pix S all_p pt (rows8 raster) q0 nd features) (\<lambda>predicted_val.
          let avg_predicted_dc =
                adv_predict_or_unpredict_dc (get_dc here_tr) False (predicted_dc predicted_val)
          in if scast (get_dc here_tr)
                \<noteq> adv_predict_or_unpredict_dc (ucast avg_predicted_dc) True (predicted_dc predicted_val)
             then err_exit_code CoefficientOutOfRange
             else
               bindR (write_dc color_index (ucast avg_predicted_dc) (uncertainty predicted_val)
                   (uncertainty2 predicted_val) m w) (\<lambda>(m, w).
               let neighbor_summary =
                 NeighborSummary_new S (next_edge_pixels_h predicted_val)
                   (next_edge_pixels_v predicted_val) (scast (get_dc here_tr) * q0) num_non_zeros_7x7
                   horiz_pred vert_pred
               in Ok ((neighbor_summary, m), w))))))))"

definition read_coefficient_block ::
  "simd \<Rightarrow> bool \<Rightarrow> ProbabilityTables \<Rightarrow> nat \<Rightarrow> NeighborData \<Rightarrow> QuantizationTables
    \<Rightarrow> EnabledFeatures \<Rightarrow> Model \<Rightarrow> VPXBoolReader
    \<Rightarrow> (AlignedBlock \<times> (NeighborSummary \<times> Model) \<times> VPXBoolReader) result"
where
  "read_coefficient_block S all_p pt color_index nd qt features m r =
    bindR (get_per_color m color_index) (\<lambda>pc.
    bindR (calc_num_non_zeros_7x7_context_bin all_p pt nd) (\<lambda>context_bin.
    bindR (read_non_zero_7x7_count context_bin pc r) (\<lambda>(num_non_zeros_7x7, pc, r).
    if 49 < num_non_zeros_7x7 then err_exit_code StreamInconsistent
    else
      bindR
        (if 0 < unat num_non_zeros_7x7 then
           (let best_priors =
              calc_coefficient_context_7x7_aavg_block S all_p pt (left nd) (above nd) (above_left nd)
            in bindR (num_non_zeros_to_bin_7x7 (unat num_non_zeros_7x7)) (\<lambda>bin.
                 read_7x7_loop qt best_priors (enumerate 0 UNZIGZAG_49_TR)
                   (EMPTY_BLOCK, replicate 64 0, unat num_non_zeros_7x7) bin (0, 0, pc) r))
         else Ok ((EMPTY_BLOCK, replicate 64 0, unat num_non_zeros_7x7), (0, 0, pc), r))
        (\<lambda>((output, raster, remaining), (eob_x, eob_y, pc), r).
      if 0 < remaining then err_exit_code StreamInconsistent
      else
        bindR (decode_edge S all_p nd output qt pt num_non_zeros_7x7 raster (of_nat eob_x) (of_nat eob_y) pc r)
          (\<lambda>(output, (raster, horiz_pred, vert_pred, pc), r).
        let m = set_per_color m color_index pc;
            q0 = ucast (get_quantization_table qt ! 0)
        in bindR (adv_predict_dc_pix S all_p pt (rows8 raster) q0 nd features) (\<lambda>predicted_val.
           bindR (read_dc color_index (uncertainty predicted_val) (uncertainty2 predicted_val) m r)
             (\<lambda>(coef, m, r).
           let output =
                 set_dc (ucast (adv_predict_or_unpredict_dc coef True (predicted_dc predicted_val))) output;
               neighbor_summary =
                 NeighborSummary_new S (next_edge_pixels_h predicted_val)
                   (next_edge_pixels_v predicted_val) (scast (get_dc output) * q0) num_non_zeros_7x7
                   horiz_pred vert_pred
           in Ok (output, (neighbor_summary, m), r))))))))"

section \<open>What the decoder has so far\<close>

definition dequantize :: "i16 list \<Rightarrow> u16 list \<Rightarrow> i32 list" where
  "dequantize xs q = map (\<lambda>i. scast (xs ! i) * ucast (q ! i)) [0..<64]"

lemma length_dequantize [simp]: "length (dequantize xs q) = 64"
  by (simp add: dequantize_def)

lemma dequantize_update:
  assumes "c < 64" "length xs = 64"
  shows "(dequantize xs q)[c := scast v * ucast (q ! c)] = dequantize (xs[c := v]) q"
proof (rule nth_equalityI)
  fix i
  assume "i < length ((dequantize xs q)[c := scast v * ucast (q ! c)])"
  then show "(dequantize xs q)[c := scast v * ucast (q ! c)] ! i = dequantize (xs[c := v]) q ! i"
    using assms by (cases "i = c") (simp_all add: dequantize_def)
qed simp

lemma encoder_raster:
  "0 # map (\<lambda>i. scast (get_coefficient b i) * ucast (q ! i)) [1..<64] = dequantize ((raw_data b)[0 := 0]) q"
  if "block_ok b"
proof (rule nth_equalityI)
  fix i
  assume "i < length (0 # map (\<lambda>i. scast (get_coefficient b i) * ucast (q ! i) :: i32) [1..<64])"
  then show "(0 # map (\<lambda>i. scast (get_coefficient b i) * ucast (q ! i)) [1..<64]) ! i
      = dequantize ((raw_data b)[0 := 0]) q ! i"
    using that by (cases i) (simp_all add: dequantize_def get_coefficient_def block_ok_def)
qed simp

text \<open>The output once the coefficients at \<open>cs\<close> are decoded: the nonzero ones are set.\<close>

fun copy_at :: "AlignedBlock \<Rightarrow> nat list \<Rightarrow> AlignedBlock \<Rightarrow> AlignedBlock" where
  "copy_at b [] out = out"
| "copy_at b (c # cs) out =
    copy_at b cs (if get_coefficient b c \<noteq> 0 then set_coefficient c (get_coefficient b c) out else out)"

lemma copy_at_zero: "nonzeros_at b cs = 0 \<Longrightarrow> copy_at b cs out = out"
  by (induction cs arbitrary: out) (auto split: if_splits)

lemma block_ok_copy_at [simp]: "block_ok (copy_at b cs out) \<longleftrightarrow> block_ok out"
  by (induction cs arbitrary: out) simp_all

lemma nth_copy_at:
  assumes "block_ok out" "i < 64" "\<forall>c \<in> set cs. c < 64"
  shows "raw_data (copy_at b cs out) ! i = (if i \<in> set cs \<and> raw_data b ! i \<noteq> 0 then raw_data b ! i else raw_data out ! i)"
  using assms
proof (induction cs arbitrary: out)
  case (Cons c cs)
  let ?out = "if get_coefficient b c \<noteq> 0 then set_coefficient c (get_coefficient b c) out else out"
  have "raw_data ?out ! i = (if i = c \<and> raw_data b ! i \<noteq> 0 then raw_data b ! i else raw_data out ! i)"
    using Cons.prems by (auto simp: get_coefficient_def set_coefficient_def block_ok_def)
  then show ?case using Cons.IH [of ?out] Cons.prems by auto
qed simp

definition in_range_at :: "AlignedBlock \<Rightarrow> nat list \<Rightarrow> bool" where
  "in_range_at b cs \<longleftrightarrow> (\<forall>c \<in> set cs. \<bar>sint (get_coefficient b c)\<bar> < 2 ^ 11)"

lemma in_range_at_simps [simp]:
  "in_range_at b []"
  "in_range_at b (c # cs) \<longleftrightarrow> \<bar>sint (get_coefficient b c)\<bar> < 2 ^ 11 \<and> in_range_at b cs"
  by (simp_all add: in_range_at_def)

lemma in_range_at_zero: "nonzeros_at b cs = 0 \<Longrightarrow> in_range_at b cs"
  by (induction cs) (auto split: if_splits)

section \<open>Inner coefficients restored\<close>

lemma codes_if_coef:
  assumes m: "per_color_ok m" and ix: "bin < 9" "zig49 < 49" "len < 12"
    and g: "g \<Longrightarrow> \<bar>sint coef\<bar> < 2 ^ 11"
  shows "codes_if g (write_coef coef zig49 bin len m) (read_coef zig49 bin len m) coef
    (\<lambda>m. per_color_ok m \<and> \<bar>sint coef\<bar> < 2 ^ 11)"
proof (cases "\<bar>sint coef\<bar> < 2 ^ 11")
  case True
  then show ?thesis using codes_to_conseq [OF codes_coef [OF m ix True]] by (simp add: codes_if_to)
next
  case False
  obtain e s b where e: "get_coef_branches m bin zig49 len = Ok (e, s, b)" "branches_n 11 e"
    by (rule get_coef_branches_ok [OF m ix])
  have "write_length_sign_coef coef e s b w = err_exit_code CoefficientOutOfRange" for w
    using False e(2) by (intro write_length_sign_coef_error) (simp_all add: branches_n_def)
  then have "write_coef coef zig49 bin len m w = err_exit_code CoefficientOutOfRange" for w
    by (simp add: write_coef_def e)
  moreover have "\<not> g" using g False by blast
  ultimately show ?thesis by (rule codes_if_fails [rotated])
qed

lemma and_7: "c AND 7 = c mod 8" for c :: nat
  using take_bit_eq_mask [of 3 c] by (simp add: take_bit_eq_mod mask_eq_exp_minus_1)

lemma codes_7x7_loop:
  fixes here_tr :: AlignedBlock
  assumes qt: "length (quantization_table_transposed qt) = 64"
    and priors: "\<And>c. c < 64 \<Longrightarrow> unat (best_priors ! c) \<le> 2047"
    and g: "g \<Longrightarrow> ac_ok here_tr"
    and cs: "\<forall>(z, c) \<in> set cs. z < 49 \<and> 0 < c \<and> c < 64"
    and m: "per_color_ok m" and eob: "eob_x \<le> 7" "eob_y \<le> 7"
    and out: "block_ok out" "raster = dequantize (raw_data out) (quantization_table_transposed qt)"
    and n: "remaining = nonzeros_at here_tr (map snd cs)" "0 < remaining" "remaining \<le> 49"
    and bin: "bin < 9"
  shows "codes_if g (write_7x7_loop here_tr best_priors cs remaining bin (eob_x, eob_y, m))
    (read_7x7_loop qt best_priors cs (out, raster, remaining) bin (eob_x, eob_y, m))
    (copy_at here_tr (map snd cs) out,
     dequantize (raw_data (copy_at here_tr (map snd cs) out)) (quantization_table_transposed qt), 0)
    (\<lambda>(eob_x, eob_y, m). eob_x \<le> 7 \<and> eob_y \<le> 7 \<and> per_color_ok m \<and> in_range_at here_tr (map snd cs))"
    (is "codes_if g _ _ _ (?P cs)")
  using cs m eob out n bin
proof (induction cs arbitrary: m eob_x eob_y out raster remaining bin)
  case Nil
  then show ?case by simp
next
  case (Cons zc cs)
  obtain z c where zc: "zc = (z, c)" by (cases zc)
  have c: "z < 49" "0 < c" "c < 64" using Cons.prems(1) zc by auto
  let ?q = "quantization_table_transposed qt"
  let ?coef = "get_coefficient here_tr c"
  let ?len = "unat (u16_bit_length (best_priors ! c))"
  have len: "?len < 12"
    using priors [OF c(3)] bit_len_le_iff [of "unat (best_priors ! c)" 11] by (simp add: unat_u16_bit_length)
  have gc: "g \<Longrightarrow> \<bar>sint ?coef\<bar> < 2 ^ 11" using g ac_ok_coefficient c by blast
  note coef = codes_if_coef [OF Cons.prems(2) Cons.prems(10) c(1) len gc]
  show ?case
    unfolding zc write_7x7_loop.simps [abs_def] read_7x7_loop.simps [abs_def] Let_def
  proof (rule codes_if_bind [OF coef])
    fix m
    assume m: "per_color_ok m \<and> \<bar>sint ?coef\<bar> < 2 ^ 11"
    let ?n = "nonzeros_at here_tr (map snd cs)"
    let ?out = "set_coefficient c ?coef out"
    let ?ex = "max eob_x (drop_bit 3 c)" and ?ey = "max eob_y (c AND 7)"
    have eob: "?ex \<le> 7" "?ey \<le> 7"
      using c Cons.prems(3,4) by (simp_all add: and_7 drop_bit_eq_div)
    have out: "block_ok ?out"
      "raster[c := scast ?coef * ucast (?q ! c)] = dequantize (raw_data ?out) ?q"
      using Cons.prems(5,6) c dequantize_update [of c "raw_data out" ?q ?coef]
      by (simp_all add: block_ok_def set_coefficient_def)
    have cs: "\<forall>(z, c) \<in> set cs. z < 49 \<and> 0 < c \<and> c < 64" using Cons.prems(1) by simp
    show "codes_if g (\<lambda>w. if ?coef \<noteq> 0 then
          (if remaining - 1 = 0 then Ok ((?ex, ?ey, m), w)
           else bindR (num_non_zeros_to_bin_7x7 (remaining - 1)) (\<lambda>bin.
             write_7x7_loop here_tr best_priors cs (remaining - 1) bin (?ex, ?ey, m) w))
        else write_7x7_loop here_tr best_priors cs remaining bin (eob_x, eob_y, m) w)
      (\<lambda>r. if ?coef \<noteq> 0 then
          (if remaining - 1 = 0 then Ok ((?out, raster[c := scast ?coef * ucast (get_quantization_table_transposed qt ! c)],
             remaining - 1), (?ex, ?ey, m), r)
           else bindR (num_non_zeros_to_bin_7x7 (remaining - 1)) (\<lambda>bin.
             read_7x7_loop qt best_priors cs (?out, raster[c := scast ?coef * ucast (get_quantization_table_transposed qt ! c)],
               remaining - 1) bin (?ex, ?ey, m) r))
        else read_7x7_loop qt best_priors cs (out, raster, remaining) bin (eob_x, eob_y, m) r)
      (copy_at here_tr (map snd ((z, c) # cs)) out,
       dequantize (raw_data (copy_at here_tr (map snd ((z, c) # cs)) out)) ?q, 0) (?P ((z, c) # cs))"
    proof (cases "?coef = 0")
      case True
      then have n: "remaining = ?n" using Cons.prems(7) zc by simp
      show ?thesis
        using Cons.IH [OF cs conjunct1 [OF m] Cons.prems(3-6) n Cons.prems(8-10)] True m by simp
    next
      case False
      then have n: "remaining - 1 = ?n" using Cons.prems(7) zc by simp
      show ?thesis
      proof (cases "?n = 0")
        case True
        then show ?thesis
          using False n eob out m copy_at_zero [OF True] in_range_at_zero [OF True]
          by (simp add: get_quantization_table_transposed_def codes_if_to codes_to_Ok)
      next
        case nz: False
        have le: "remaining - 1 \<le> 49" using Cons.prems(9) by simp
        have pos: "0 < remaining - 1" using n nz by simp
        obtain bin' where bin': "num_non_zeros_to_bin_7x7 (remaining - 1) = Ok bin'" "bin' < 9"
          by (rule num_non_zeros_to_bin_ok [OF le])
        show ?thesis
          using Cons.IH [OF cs conjunct1 [OF m] eob out n pos le bin'(2)] False bin'(1) pos m
          by (simp add: get_quantization_table_transposed_def)
      qed
    qed
  qed
qed

section \<open>Edges restored\<close>

lemma codes_if_edge_coefficient:
  assumes m: "per_color_ok m" and qt: "tables_ok qt" and zig15: "zig15 < 14"
    and n: "n \<noteq> 0" "unat n \<le> 7" and g: "g \<Longrightarrow> \<bar>sint coef\<bar> < 2 ^ 11"
  shows "codes_if g (write_edge_coefficient qt coef zig15 n best_prior m)
    (read_edge_coefficient qt zig15 n best_prior m) coef (\<lambda>m. per_color_ok m \<and> \<bar>sint coef\<bar> < 2 ^ 11)"
proof (cases "\<bar>sint coef\<bar> < 2 ^ 11")
  case True
  then show ?thesis using codes_to_conseq [OF codes_edge_coefficient [OF m qt zig15 n True]] by (simp add: codes_if_to)
next
  case False
  then have "2 ^ 11 \<le> \<bar>sint coef\<bar>" by simp
  moreover have "\<not> g" using g False by blast
  ultimately show ?thesis
    using write_edge_coefficient_error [OF m zig15 n] by (intro codes_if_fails) blast+
qed

definition edge_coords :: "bool \<Rightarrow> nat \<Rightarrow> nat \<Rightarrow> nat list" where
  "edge_coords horizontal k n = map (\<lambda>i. edge_delta horizontal * i) [k..<k + n]"

lemma edge_coords_simps [simp]:
  "edge_coords horizontal k 0 = []"
  "edge_coords horizontal k (Suc n) = edge_delta horizontal * k # edge_coords horizontal (Suc k) n"
  by (simp_all add: edge_coords_def upt_conv_Cons)

lemma codes_edge_loop:
  assumes qt: "tables_ok qt" "g \<Longrightarrow> \<forall>c. 0 < c \<and> c < 64 \<longrightarrow> quantization_table_transposed qt ! c \<noteq> 0"
    and g: "g \<Longrightarrow> ac_ok here_tr"
    and pred: "\<And>j. 1 \<le> j \<Longrightarrow> j < 8 \<Longrightarrow> pred ! j = pred' ! j"
    and k: "1 \<le> k" "k + lanes = 8" "zig15 + lanes \<le> 14"
    and num: "unat num = nonzeros_at here_tr (edge_coords horizontal k lanes)" "unat num \<le> 7"
    and m: "per_color_ok m"
    and out: "block_ok out" "raster = dequantize (raw_data out) (quantization_table_transposed qt)"
  shows "codes_if g
    (encode_edge_loop all_p horizontal here_tr pred qt pt lanes (edge_delta horizontal * k) zig15 num m)
    (decode_edge_loop all_p horizontal pred' qt pt lanes (edge_delta horizontal * k) zig15 (out, raster, num) m)
    (copy_at here_tr (edge_coords horizontal k lanes) out,
     dequantize (raw_data (copy_at here_tr (edge_coords horizontal k lanes) out)) (quantization_table_transposed qt), 0)
    (\<lambda>m. per_color_ok m \<and> in_range_at here_tr (edge_coords horizontal k lanes))"
  using k num m out
proof (induction lanes arbitrary: k zig15 num m out raster)
  case 0
  then show ?case
    by (simp add: encode_edge_loop.simps [abs_def] decode_edge_loop.simps [abs_def] codes_if_to codes_to_Ok unat_eq_0)
next
  case (Suc lanes)
  let ?c = "edge_delta horizontal * k"
  let ?coef = "get_coefficient here_tr ?c"
  let ?q = "quantization_table_transposed qt"
  let ?cs = "edge_coords horizontal (Suc k) lanes"
  have c: "0 < ?c" "?c < 64" using Suc.prems(1,2) by (auto simp: edge_delta_def)
  have next_c: "?c + edge_delta horizontal = edge_delta horizontal * Suc k" by simp
  show ?case
  proof (cases "num = 0")
    case True
    then have "nonzeros_at here_tr (edge_coords horizontal k (Suc lanes)) = 0" using Suc.prems(4) by simp
    then show ?thesis using True Suc.prems(6-8) copy_at_zero [of here_tr "edge_coords horizontal k (Suc lanes)"]
        in_range_at_zero [of here_tr "edge_coords horizontal k (Suc lanes)"]
      by (simp only: encode_edge_loop.simps [abs_def] decode_edge_loop.simps [abs_def] if_True codes_if_to codes_to_Ok simp_thms)
  next
    case False
    have lak: "calc_coefficient_context8_lak all_p horizontal pt qt ?c pred
      = calc_coefficient_context8_lak all_p horizontal pt qt ?c pred'"
      using Suc.prems(1,2) by (intro lak_cong [OF pred, of _ _ k]) (auto simp: edge_delta_def)
    have lak_g: "\<exists>x. calc_coefficient_context8_lak all_p horizontal pt qt ?c pred' = Ok x" if g
      using lak_ok [of qt ?c all_p horizontal pt pred'] qt(2) [OF that] c by blast
    have gc: "g \<Longrightarrow> \<bar>sint ?coef\<bar> < 2 ^ 11" using g ac_ok_coefficient c by blast
    have zig: "zig15 < 14" using Suc.prems(3) by simp
    show ?thesis
      unfolding encode_edge_loop.simps [abs_def] decode_edge_loop.simps [abs_def] if_not_P [OF False] lak Let_def
    proof (rule codes_if_pure [OF lak_g], assumption,
        rule codes_if_bind [OF codes_if_edge_coefficient [OF Suc.prems(6) qt(1) zig False Suc.prems(5) gc]])
      fix x m
      assume m: "per_color_ok m \<and> \<bar>sint ?coef\<bar> < 2 ^ 11"
      let ?out = "set_coefficient ?c ?coef out"
      have out: "block_ok ?out"
        "raster[?c := scast ?coef * ucast (?q ! ?c)] = dequantize (raw_data ?out) ?q"
        using Suc.prems(7,8) c dequantize_update [of ?c "raw_data out" ?q ?coef]
        by (simp_all add: block_ok_def set_coefficient_def)
      have k: "1 \<le> Suc k" "Suc k + lanes = 8" "Suc zig15 + lanes \<le> 14" using Suc.prems(1-3) by simp_all
      show "codes_if g
        (encode_edge_loop all_p horizontal here_tr pred qt pt lanes (?c + edge_delta horizontal) (zig15 + 1)
          (if ?coef \<noteq> 0 then num - 1 else num) m)
        (decode_edge_loop all_p horizontal pred' qt pt lanes (?c + edge_delta horizontal) (zig15 + 1)
          (if ?coef \<noteq> 0 then (?out, raster[?c := scast ?coef * ucast (get_quantization_table_transposed qt ! ?c)], num - 1)
           else (out, raster, num)) m)
        (copy_at here_tr (edge_coords horizontal k (Suc lanes)) out,
         dequantize (raw_data (copy_at here_tr (edge_coords horizontal k (Suc lanes)) out)) ?q, 0)
        (\<lambda>m. per_color_ok m \<and> in_range_at here_tr (edge_coords horizontal k (Suc lanes)))"
      proof (cases "?coef = 0")
        case True
        then have n: "unat num = nonzeros_at here_tr ?cs" using Suc.prems(4) by simp
        show ?thesis unfolding next_c
          using Suc.IH [OF k n Suc.prems(5) conjunct1 [OF m] Suc.prems(7,8)] True by simp
      next
        case nz: False
        have "unat (num - 1) = unat num - 1" using False by (simp add: unat_minus_one)
        then have n: "unat (num - 1) = nonzeros_at here_tr ?cs" "unat (num - 1) \<le> 7"
          using Suc.prems(4,5) nz by simp_all
        show ?thesis unfolding next_c
          using Suc.IH [OF k n conjunct1 [OF m] out] nz m by (simp add: get_quantization_table_transposed_def)
      qed
    qed
  qed
qed

lemma codes_one_edge:
  assumes qt: "tables_ok qt" "g \<Longrightarrow> \<forall>c. 0 < c \<and> c < 64 \<longrightarrow> quantization_table_transposed qt ! c \<noteq> 0"
    and g: "g \<Longrightarrow> ac_ok here_tr"
    and pred: "\<And>j. 1 \<le> j \<Longrightarrow> j < 8 \<Longrightarrow> pred ! j = pred' ! j"
    and ix: "unat bin < 8" "unat est_eob < 8"
    and m: "per_color_ok m"
    and out: "block_ok out" "raster = dequantize (raw_data out) (quantization_table_transposed qt)"
  shows "codes_if g
    (encode_one_edge all_p horizontal here_tr pred qt pt bin est_eob m)
    (decode_one_edge all_p horizontal pred' out qt pt bin est_eob raster m)
    (copy_at here_tr (edge_coords horizontal 1 7) out,
     dequantize (raw_data (copy_at here_tr (edge_coords horizontal 1 7) out)) (quantization_table_transposed qt))
    (\<lambda>m. per_color_ok m \<and> in_range_at here_tr (edge_coords horizontal 1 7))"
proof -
  let ?cs = "edge_coords horizontal 1 7"
  let ?nz = "\<lambda>i. count_non_zero (get_coefficient here_tr i)"
  define num where "num = (if \<not> horizontal then ?nz 1 + ?nz 2 + ?nz 3 + ?nz 4 + ?nz 5 + ?nz 6 + ?nz 7
            else ?nz 8 + ?nz 16 + ?nz 24 + ?nz 32 + ?nz 40 + ?nz 48 + ?nz 56)"
  have cs: "?cs = (if horizontal then [8, 16, 24, 32, 40, 48, 56] else [1, 2, 3, 4, 5, 6, 7])"
    using upt_8(2) by (simp add: edge_coords_def edge_delta_def)
  have nz: "?nz i = of_nat (of_bool (get_coefficient here_tr i \<noteq> 0))" for i by (simp add: count_non_zero_def)
  have "num = of_nat (nonzeros_at here_tr ?cs)"
    unfolding num_def cs nz by (cases horizontal) (simp_all only: nonzeros_at_simps if_True if_False not_True_eq_False
      not_False_eq_True of_nat_add of_nat_0 add_0_right add.assoc)
  moreover have le: "nonzeros_at here_tr ?cs \<le> 7"
    using nonzeros_at_le [of here_tr ?cs] by (simp add: edge_coords_def)
  ultimately have num: "unat num = nonzeros_at here_tr ?cs" by (simp add: unat_of_nat)
  then have num7: "unat num \<le> 7" using le by simp
  have W: "encode_one_edge all_p horizontal here_tr pred qt pt bin est_eob m = (\<lambda>w.
      bindR (write_non_zero_edge_count horizontal est_eob bin num m w) (\<lambda>(m, w).
        encode_edge_loop all_p horizontal here_tr pred qt pt 7 (edge_delta horizontal)
          (if horizontal then 0 else 7) num m w))"
    by (simp add: encode_one_edge_def [abs_def] Let_def num_def)
  have count: "codes_to (write_non_zero_edge_count horizontal est_eob bin num m)
      (read_non_zero_edge_count horizontal est_eob bin m) num per_color_ok"
    using num7 by (intro codes_non_zero_edge_count [OF m ix(2,1)]) simp
  show ?thesis
    unfolding W decode_one_edge_def [abs_def]
  proof (rule codes_if_bind [OF codes_if_to [OF count]])
    fix m
    assume m: "per_color_ok m"
    have loop: "codes_if g
        (encode_edge_loop all_p horizontal here_tr pred qt pt 7 (edge_delta horizontal)
          (if horizontal then 0 else 7) num m)
        (decode_edge_loop all_p horizontal pred' qt pt 7 (edge_delta horizontal)
          (if horizontal then 0 else 7) (out, raster, num) m)
        (copy_at here_tr ?cs out, dequantize (raw_data (copy_at here_tr ?cs out)) (quantization_table_transposed qt), 0)
        (\<lambda>m. per_color_ok m \<and> in_range_at here_tr ?cs)"
      using codes_edge_loop [of qt g here_tr pred pred' 1 7 "if horizontal then 0 else 7" num horizontal m out raster,
          OF qt g pred _ _ _ num num7 m out] by simp
    show "codes_if g (encode_edge_loop all_p horizontal here_tr pred qt pt 7 (edge_delta horizontal)
          (if horizontal then 0 else 7) num m)
      (\<lambda>r. bindR (decode_edge_loop all_p horizontal pred' qt pt 7 (edge_delta horizontal)
          (if horizontal then 0 else 7) (out, raster, num) m r) (\<lambda>((here, raster, num), m, r).
          if num \<noteq> 0 then err_exit_code StreamInconsistent else Ok ((here, raster), m, r)))
      (copy_at here_tr ?cs out, dequantize (raw_data (copy_at here_tr ?cs out)) (quantization_table_transposed qt))
      (\<lambda>m. per_color_ok m \<and> in_range_at here_tr ?cs)"
      by (rule codes_if_value [OF loop]) simp
  qed
qed

section \<open>All edges\<close>

lemma set_edge_coords:
  "c \<in> set (edge_coords True 1 7) \<longleftrightarrow> c < 64 \<and> c mod 8 = 0 \<and> 0 < c div 8"
  "c \<in> set (edge_coords False 1 7) \<longleftrightarrow> 0 < c \<and> c < 8"
  by (auto simp: edge_coords_def edge_delta_def image_iff)

lemma coords_cover:
  assumes "0 < c" "c < 64"
  shows "c \<in> set UNZIGZAG_49_TR \<or> c \<in> set (edge_coords True 1 7) \<or> c \<in> set (edge_coords False 1 7)"
  using assms unfolding set_edge_coords UNZIGZAG_49_TR_inner by auto

lemma copy_at_all:
  assumes "block_ok b"
  shows "copy_at b (edge_coords False 1 7) (copy_at b (edge_coords True 1 7) (copy_at b UNZIGZAG_49_TR EMPTY_BLOCK))
    = set_dc 0 b" (is "?out = _")
proof -
  have lt: "\<forall>c \<in> set UNZIGZAG_49_TR. c < 64" "\<forall>c \<in> set (edge_coords True 1 7). c < 64"
    "\<forall>c \<in> set (edge_coords False 1 7). c < 64"
    by (auto simp: set_edge_coords UNZIGZAG_49_TR_inner simp del: One_nat_def)
  have nth: "raw_data ?out ! i = raw_data (set_dc 0 b) ! i" if i: "i < 64" for i
  proof (cases "i = 0")
    case True
    have "raw_data EMPTY_BLOCK ! 0 = 0" "raw_data (set_dc 0 b) ! 0 = 0"
      using assms by (simp_all add: EMPTY_BLOCK_def set_dc_def block_ok_def)
    then show ?thesis using True lt
      by (simp add: nth_copy_at set_edge_coords UNZIGZAG_49_TR_inner del: One_nat_def)
  next
    case False
    have "raw_data EMPTY_BLOCK ! i = 0" using i by (simp add: EMPTY_BLOCK_def)
    moreover have "raw_data (set_dc 0 b) ! i = raw_data b ! i" using False by (simp add: set_dc_def)
    ultimately show ?thesis using coords_cover [of i] False i lt by (auto simp: nth_copy_at simp del: One_nat_def)
  qed
  have "block_ok ?out" "block_ok (set_dc 0 b)" using assms by simp_all
  then have "raw_data ?out = raw_data (set_dc 0 b)"
    using nth by (intro nth_equalityI) (simp_all add: block_ok_def)
  then show ?thesis by simp
qed

lemma ac_ok_cover:
  assumes "block_ok b" "in_range_at b UNZIGZAG_49_TR" "in_range_at b (edge_coords True 1 7)"
    "in_range_at b (edge_coords False 1 7)"
  shows "ac_ok b"
  unfolding ac_ok_def
proof (intro conjI allI impI)
  fix i :: nat
  assume "0 < i \<and> i < 64"
  then show "\<bar>sint (raw_data b ! i)\<bar> < 2 ^ 11"
    using coords_cover [of i] assms(2-4) by (auto simp: in_range_at_def get_coefficient_def)
qed (rule assms(1))

context simd_laws
begin

lemma predict_next_edges_length:
  assumes "length r = 64"
  shows "length (fst (predict_next_edges S (rows8 r))) = 8" "length (snd (predict_next_edges S (rows8 r))) = 8"
proof -
  define step where "step = (\<lambda>col (h, v).
        (h[col := reduce_add_i32 S (mul_i32 S ICOS_BASED_8192_SCALED_PM (rows8 r ! col))],
         add_i32 S v (mul_i32 S (splat (ICOS_BASED_8192_SCALED_PM ! col)) (rows8 r ! col))))"
  have sp: "length (splat x) = 8" for x :: i32 by (simp add: splat_def)
  have "length (fst (fold step cs (h, v))) = 8 \<and> length (snd (fold step cs (h, v))) = 8"
    if "\<forall>c \<in> set cs. c < 8" "length h = 8" "length v = 8" for cs h v
    using that
  proof (induction cs arbitrary: h v)
    case (Cons c cs)
    then show ?case using assms sp by (simp add: step_def lane_i32)
  qed simp
  from this [of "[1..<8]" "replicate 8 0" "mul_i32 S (splat (ICOS_BASED_8192_SCALED_PM ! 0)) (rows8 r ! 0)"]
  show "length (fst (predict_next_edges S (rows8 r))) = 8" "length (snd (predict_next_edges S (rows8 r))) = 8"
    unfolding predict_next_edges_def step_def using assms sp by (simp_all add: lane_i32)
qed

lemma codes_edge:
  assumes qt: "tables_ok qt" "g \<Longrightarrow> \<forall>c. 0 < c \<and> c < 64 \<longrightarrow> quantization_table_transposed qt ! c \<noteq> 0"
    and here: "block_ok here_tr" "g \<Longrightarrow> ac_ok here_tr"
    and nd: "summary_ok (neighbor_context_left nd)"
    and ix: "unat n \<le> 49" "unat eob_x < 8" "unat eob_y < 8"
    and m: "per_color_ok m"
  shows "codes_if g (encode_edge S all_p nd here_tr qt pt n eob_x eob_y m)
    (decode_edge S all_p nd (copy_at here_tr UNZIGZAG_49_TR EMPTY_BLOCK) qt pt n
      (dequantize (raw_data (copy_at here_tr UNZIGZAG_49_TR EMPTY_BLOCK)) (quantization_table_transposed qt))
      eob_x eob_y m)
    (set_dc 0 here_tr)
    (\<lambda>(raster, h, v, m). raster = dequantize ((raw_data here_tr)[0 := 0]) (quantization_table_transposed qt) \<and>
      length h = 8 \<and> length v = 8 \<and> per_color_ok m \<and>
      in_range_at here_tr (edge_coords True 1 7) \<and> in_range_at here_tr (edge_coords False 1 7))"
proof -
  let ?q = "quantization_table_transposed qt"
  let ?out = "copy_at here_tr UNZIGZAG_49_TR EMPTY_BLOCK"
  let ?out2 = "copy_at here_tr (edge_coords True 1 7) ?out"
  let ?R = "dequantize ((raw_data here_tr)[0 := 0]) ?q"
  let ?r = "dequantize (raw_data ?out) ?q"
  have bin: "unat ((n + 3) div 7) < 8" using ix(1) by (simp add: unat_div unat_word_ariths)
  obtain h v where enc: "predict_current_edges S nd (rows8 ?R) = (h, v)" by fastforce
  obtain h' v' where dec: "predict_current_edges S nd (rows8 ?r) = (h', v')" by fastforce
  have agree: "?R ! c = ?r ! c" if "c < 64" "0 < c mod 8" "0 < c div 8" for c
  proof -
    have "raw_data ?out ! c = raw_data here_tr ! c"
    proof -
      have "raw_data EMPTY_BLOCK ! c = 0" using that by (simp add: EMPTY_BLOCK_def)
      then show ?thesis using that by (auto simp: nth_copy_at UNZIGZAG_49_TR_inner)
    qed
    moreover have "c \<noteq> 0" using that by (cases c) simp_all
    ultimately show ?thesis using that by (simp add: dequantize_def)
  qed
  have lv: "length (edge_coefs_v (neighbor_context_left nd)) = 8" using nd by (simp add: summary_ok_def)
  have P: "h = h'" "\<And>j. 1 \<le> j \<Longrightarrow> j < 8 \<Longrightarrow> v ! j = v' ! j"
    using predict_current_edges_cong [of ?R ?r nd, OF length_dequantize length_dequantize agree lv]
    by (simp_all add: enc dec)
  obtain nh nv where nx: "predict_next_edges S (rows8 ?R) = (nh, nv)" by fastforce
  have len: "length nh = 8" "length nv = 8" using predict_next_edges_length [of ?R] nx by simp_all
  have H: "codes_if g (encode_one_edge all_p True here_tr h qt pt ((n + 3) div 7) eob_x m)
      (decode_one_edge all_p True h' ?out qt pt ((n + 3) div 7) eob_x ?r m)
      (?out2, dequantize (raw_data ?out2) ?q)
      (\<lambda>m. per_color_ok m \<and> in_range_at here_tr (edge_coords True 1 7))"
    using P(1) by (intro codes_one_edge [OF qt here(2) _ bin ix(2) m]) simp_all
  have raster: "0 # map (\<lambda>i. scast (get_coefficient here_tr i) * ucast (?q ! i)) [1..<64] = ?R"
    using encoder_raster [OF here(1)] .
  have out3: "copy_at here_tr (edge_coords False 1 7) ?out2 = set_dc 0 here_tr" by (rule copy_at_all [OF here(1)])
  show ?thesis
    unfolding encode_edge_def [abs_def] decode_edge_def [abs_def] Let_def get_quantization_table_transposed_def raster enc dec prod.case
  proof (rule codes_if_bind' [OF H], unfold prod.case)
    fix m
    assume m: "per_color_ok m \<and> in_range_at here_tr (edge_coords True 1 7)"
    have V: "codes_if g (encode_one_edge all_p False here_tr v qt pt ((n + 3) div 7) eob_y m)
        (decode_one_edge all_p False v' ?out2 qt pt ((n + 3) div 7) eob_y (dequantize (raw_data ?out2) ?q) m)
        (set_dc 0 here_tr, ?R) (\<lambda>m. per_color_ok m \<and> in_range_at here_tr (edge_coords False 1 7))"
      using codes_one_edge [where horizontal = False and pt = pt and all_p = all_p and out = ?out2,
          OF qt here(2) P(2) bin ix(3) conjunct1 [OF m]] out3
      by (simp add: set_dc_def)
    show "codes_if g (\<lambda>w. bindR (encode_one_edge all_p False here_tr v qt pt ((n + 3) div 7) eob_y m w) (\<lambda>(m, w).
          case predict_next_edges S (rows8 ?R) of (nh, nv) \<Rightarrow> Ok ((?R, nh, nv, m), w)))
      (\<lambda>r. bindR (decode_one_edge all_p False v' ?out2 qt pt ((n + 3) div 7) eob_y (dequantize (raw_data ?out2) ?q) m r)
        (\<lambda>((here, raster), m, r). case predict_next_edges S (rows8 raster) of
          (nh, nv) \<Rightarrow> Ok (here, (raster, nh, nv, m), r)))
      (set_dc 0 here_tr)
      (\<lambda>(raster, h, v, m). raster = ?R \<and> length h = 8 \<and> length v = 8 \<and> per_color_ok m \<and>
        in_range_at here_tr (edge_coords True 1 7) \<and> in_range_at here_tr (edge_coords False 1 7))"
      by (rule codes_if_bind' [OF V]) (use m in \<open>simp add: nx len codes_if_to codes_to_Ok\<close>)
  qed
qed

section \<open>The block restored\<close>

end

lemma codes_if_dc:
  assumes m: "model_ok m" and ix: "color_index < 2" and g: "g \<Longrightarrow> \<bar>sint coef\<bar> < 2 ^ 11"
  shows "codes_if g (write_dc color_index coef u u2 m) (read_dc color_index u u2 m) coef model_ok"
proof (cases "\<bar>sint coef\<bar> < 2 ^ 11")
  case True
  then show ?thesis using codes_dc [OF m ix] by (simp add: codes_if_to)
next
  case False
  obtain e s b where e: "get_dc_branches m u u2 color_index = Ok (e, s, b)" "branches_n 11 e"
    by (rule get_dc_branches_ok [OF m ix])
  have "write_length_sign_coef coef e s b w = err_exit_code CoefficientOutOfRange" for w
    using False e(2) by (intro write_length_sign_coef_error) (simp_all add: branches_n_def)
  then have "write_dc color_index coef u u2 m w = err_exit_code CoefficientOutOfRange" for w
    by (simp add: write_dc_def e)
  moreover have "\<not> g" using g False by blast
  ultimately show ?thesis by (rule codes_if_fails [rotated])
qed

text \<open>The DCs the encoder accepts: the residual gives the DC back and has at most 11 bits.\<close>

definition dc_codable ::
  "simd \<Rightarrow> bool \<Rightarrow> ProbabilityTables \<Rightarrow> NeighborData \<Rightarrow> AlignedBlock \<Rightarrow> QuantizationTables \<Rightarrow> EnabledFeatures \<Rightarrow> bool"
where
  "dc_codable S all_p pt nd b qt features =
    (case adv_predict_dc_pix S all_p pt
        (rows8 (dequantize ((raw_data b)[0 := 0]) (quantization_table_transposed qt)))
        (ucast (quantization_table qt ! 0)) nd features of
       Inl e \<Rightarrow> False
     | Inr p \<Rightarrow>
        (let avg = adv_predict_or_unpredict_dc (get_dc b) False (predicted_dc p)
         in adv_predict_or_unpredict_dc (ucast avg) True (predicted_dc p) = scast (get_dc b) \<and>
            \<bar>sint (ucast avg :: i16)\<bar> < 2 ^ 11))"

lemma ucast_scast_i16: "ucast (scast (w :: i16) :: i32) = w"
  by (rule bit_word_eqI) (auto simp: bit_simps)

lemma set_dc_set_dc: "block_ok b \<Longrightarrow> set_dc (get_dc b) (set_dc 0 b) = b"
  by (cases b) (simp add: set_dc_def get_dc_def block_ok_def)

context simd_laws
begin

lemma codes_inner:
  assumes qt: "tables_ok qt" and g: "g \<Longrightarrow> ac_ok here_tr"
    and nd: "neighbors_ok nd" and n: "n = nonzeros_at here_tr UNZIGZAG_49_TR"
    and m: "per_color_ok m"
  shows "codes_if g
    (\<lambda>w. if 0 < n then
           bindR (num_non_zeros_to_bin_7x7 n) (\<lambda>bin.
             write_7x7_loop here_tr
               (calc_coefficient_context_7x7_aavg_block S all_p pt (left nd) (above nd) (above_left nd))
               (enumerate 0 UNZIGZAG_49_TR) n bin (0, 0, m) w)
         else Ok ((0, 0, m), w))
    (\<lambda>r. if 0 < n then
           bindR (num_non_zeros_to_bin_7x7 n) (\<lambda>bin.
             read_7x7_loop qt
               (calc_coefficient_context_7x7_aavg_block S all_p pt (left nd) (above nd) (above_left nd))
               (enumerate 0 UNZIGZAG_49_TR) (EMPTY_BLOCK, replicate 64 0, n) bin (0, 0, m) r)
         else Ok ((EMPTY_BLOCK, replicate 64 0, n), (0, 0, m), r))
    (copy_at here_tr UNZIGZAG_49_TR EMPTY_BLOCK,
     dequantize (raw_data (copy_at here_tr UNZIGZAG_49_TR EMPTY_BLOCK)) (quantization_table_transposed qt), 0)
    (\<lambda>(eob_x, eob_y, m). eob_x \<le> 7 \<and> eob_y \<le> 7 \<and> per_color_ok m \<and> in_range_at here_tr UNZIGZAG_49_TR)"
proof -
  let ?q = "quantization_table_transposed qt"
  have zero: "replicate 64 0 = dequantize (raw_data EMPTY_BLOCK) ?q"
    by (rule nth_equalityI) (simp_all add: dequantize_def EMPTY_BLOCK_def)
  have snd: "map snd (enumerate 0 UNZIGZAG_49_TR) = UNZIGZAG_49_TR" by simp
  show ?thesis
  proof (cases "0 < n")
    case False
    then have "nonzeros_at here_tr UNZIGZAG_49_TR = 0" using n by simp
    from copy_at_zero [OF this] in_range_at_zero [OF this] show ?thesis
      using False m zero by (simp add: codes_if_to codes_to_Ok)
  next
    case True
    have n49: "n \<le> 49" using n nonzeros_at_le [of here_tr UNZIGZAG_49_TR] by simp
    obtain bin where bin: "num_non_zeros_to_bin_7x7 n = Ok bin" "bin < 9" by (rule num_non_zeros_to_bin_ok [OF n49])
    have cs: "\<forall>(z, c) \<in> set (enumerate 0 UNZIGZAG_49_TR). z < 49 \<and> 0 < c \<and> c < 64"
    proof (clarify, intro conjI)
      fix z c
      assume "(z, c) \<in> set (enumerate 0 UNZIGZAG_49_TR)"
      then have "z < 49" "c \<in> set UNZIGZAG_49_TR" by (auto simp: in_set_enumerate_eq)
      then show "z < 49" "0 < c" "c < 64" using UNZIGZAG_49_TR_inner [of c] by (auto intro: gr0I)
    qed
    let ?p = "calc_coefficient_context_7x7_aavg_block S all_p pt (left nd) (above nd) (above_left nd)"
    have priors: "\<And>c. c < 64 \<Longrightarrow> unat (?p ! c) \<le> 2047"
      using nd best_priors_bound unfolding neighbors_ok_def by blast
    have len: "length ?q = 64" using qt by (simp add: tables_ok_def)
    from codes_7x7_loop [of qt ?p g here_tr "enumerate 0 UNZIGZAG_49_TR" m 0 0 EMPTY_BLOCK "replicate 64 0" n bin,
        OF len priors g cs m _ _ _ zero _ True n49 bin(2)] n
    show ?thesis unfolding if_P [OF True] bin(1) bindR.simps snd by simp
  qed
qed

lemma codes_block_dc:
  assumes m: "model_ok m" and ix: "color_index < 2" and here: "block_ok here_tr" and len: "length h = 8" "length v = 8"
    and n: "unat n \<le> 49" and q0: "q0 = ucast (quantization_table qt ! 0)"
    and R: "raster = dequantize ((raw_data here_tr)[0 := 0]) (quantization_table_transposed qt)"
    and g: "g \<Longrightarrow> dc_codable S all_p pt nd here_tr qt features"
  shows "codes_if g
    (\<lambda>w. bindR (adv_predict_dc_pix S all_p pt (rows8 raster) q0 nd features) (\<lambda>p.
       if scast (get_dc here_tr) \<noteq> adv_predict_or_unpredict_dc
            (ucast (adv_predict_or_unpredict_dc (get_dc here_tr) False (predicted_dc p))) True (predicted_dc p)
       then err_exit_code CoefficientOutOfRange
       else bindR (write_dc color_index (ucast (adv_predict_or_unpredict_dc (get_dc here_tr) False (predicted_dc p)))
              (uncertainty p) (uncertainty2 p) m w) (\<lambda>(m, w).
            Ok ((NeighborSummary_new S (next_edge_pixels_h p) (next_edge_pixels_v p)
                   (scast (get_dc here_tr) * q0) n h v, m), w))))
    (\<lambda>r. bindR (adv_predict_dc_pix S all_p pt (rows8 raster) q0 nd features) (\<lambda>p.
       bindR (read_dc color_index (uncertainty p) (uncertainty2 p) m r) (\<lambda>(coef, m, r).
         Ok (set_dc (ucast (adv_predict_or_unpredict_dc coef True (predicted_dc p))) (set_dc 0 here_tr),
             (NeighborSummary_new S (next_edge_pixels_h p) (next_edge_pixels_v p)
                (scast (get_dc (set_dc (ucast (adv_predict_or_unpredict_dc coef True (predicted_dc p)))
                   (set_dc 0 here_tr))) * q0) n h v, m), r))))
    here_tr (\<lambda>(ns, m). summary_ok ns \<and> model_ok m)"
proof (rule codes_if_pure)
  show "\<exists>p. adv_predict_dc_pix S all_p pt (rows8 raster) q0 nd features = Ok p" if g
    using g [OF that] by (auto simp: dc_codable_def R q0 split: sum.splits)
  fix p
  assume p: "adv_predict_dc_pix S all_p pt (rows8 raster) q0 nd features = Ok p"
  let ?avg = "adv_predict_or_unpredict_dc (get_dc here_tr) False (predicted_dc p)"
  let ?un = "adv_predict_or_unpredict_dc (ucast ?avg) True (predicted_dc p)"
  have gp: "?un = scast (get_dc here_tr) \<and> \<bar>sint (ucast ?avg :: i16)\<bar> < 2 ^ 11" if g
    using g [OF that] p by (simp add: dc_codable_def R q0 Let_def)
  have sum: "summary_ok (NeighborSummary_new S a b d n h v)" for a b d
    using n len by (simp add: summary_ok_def NeighborSummary_new_def)
  show "codes_if g
    (\<lambda>w. if scast (get_dc here_tr) \<noteq> ?un then err_exit_code CoefficientOutOfRange
       else bindR (write_dc color_index (ucast ?avg) (uncertainty p) (uncertainty2 p) m w) (\<lambda>(m, w).
            Ok ((NeighborSummary_new S (next_edge_pixels_h p) (next_edge_pixels_v p)
                   (scast (get_dc here_tr) * q0) n h v, m), w)))
    (\<lambda>r. bindR (read_dc color_index (uncertainty p) (uncertainty2 p) m r) (\<lambda>(coef, m, r).
         Ok (set_dc (ucast (adv_predict_or_unpredict_dc coef True (predicted_dc p))) (set_dc 0 here_tr),
             (NeighborSummary_new S (next_edge_pixels_h p) (next_edge_pixels_v p)
                (scast (get_dc (set_dc (ucast (adv_predict_or_unpredict_dc coef True (predicted_dc p)))
                   (set_dc 0 here_tr))) * q0) n h v, m), r)))
    here_tr (\<lambda>(ns, m). summary_ok ns \<and> model_ok m)"
  proof (rule codes_if_check)
    show "\<not> scast (get_dc here_tr) \<noteq> ?un" if g using gp [OF that] by simp
    assume "\<not> scast (get_dc here_tr) \<noteq> ?un"
    then have "ucast ?un = get_dc here_tr" by (metis ucast_scast_i16)
    then have out: "set_dc (ucast ?un) (set_dc 0 here_tr) = here_tr" using set_dc_set_dc [OF here] by simp
    have dc: "codes_if g (write_dc color_index (ucast ?avg) (uncertainty p) (uncertainty2 p) m)
        (read_dc color_index (uncertainty p) (uncertainty2 p) m) (ucast ?avg) model_ok"
      using gp by (intro codes_if_dc [OF m ix]) blast
    show "codes_if g
      (\<lambda>w. bindR (write_dc color_index (ucast ?avg) (uncertainty p) (uncertainty2 p) m w) (\<lambda>(m, w).
            Ok ((NeighborSummary_new S (next_edge_pixels_h p) (next_edge_pixels_v p)
                   (scast (get_dc here_tr) * q0) n h v, m), w)))
      (\<lambda>r. bindR (read_dc color_index (uncertainty p) (uncertainty2 p) m r) (\<lambda>(coef, m, r).
         Ok (set_dc (ucast (adv_predict_or_unpredict_dc coef True (predicted_dc p))) (set_dc 0 here_tr),
             (NeighborSummary_new S (next_edge_pixels_h p) (next_edge_pixels_v p)
                (scast (get_dc (set_dc (ucast (adv_predict_or_unpredict_dc coef True (predicted_dc p)))
                   (set_dc 0 here_tr))) * q0) n h v, m), r)))
      here_tr (\<lambda>(ns, m). summary_ok ns \<and> model_ok m)"
      by (rule codes_if_bind' [OF dc]) (simp add: out sum codes_if_to codes_to_Ok)
  qed
qed

lemma codes_coefficient_block:
  assumes m: "model_ok m" and ix: "color_index < 2" and nd: "neighbors_ok nd" and here: "block_ok here_tr"
    and qt: "tables_ok qt"
    and g: "g \<Longrightarrow> ac_ok here_tr" "g \<Longrightarrow> \<forall>c. 0 < c \<and> c < 64 \<longrightarrow> quantization_table_transposed qt ! c \<noteq> 0"
      "g \<Longrightarrow> dc_codable S all_p pt nd here_tr qt features"
  shows "codes_if g (write_coefficient_block S all_p pt color_index nd here_tr qt features m)
    (read_coefficient_block S all_p pt color_index nd qt features m) here_tr
    (\<lambda>(ns, m). summary_ok ns \<and> model_ok m \<and> ac_ok here_tr)"
proof -
  let ?q = "quantization_table_transposed qt"
  let ?n = "get_count_of_non_zeros_7x7 S here_tr"
  have pcs: "list_ok 2 per_color_ok (per_color m)" using m by (simp add: model_ok_def)
  have pc: "per_color_ok (per_color m ! color_index)" using pcs ix by (rule list_ok_nth)
  have get: "get_per_color m color_index = Ok (per_color m ! color_index)"
    unfolding get_per_color_def by (rule list_ok_idx [OF pcs ix])
  have n: "unat ?n = nonzeros_at here_tr UNZIGZAG_49_TR" by (rule get_count_of_non_zeros_7x7 [OF here])
  then have n49: "unat ?n \<le> 49" using nonzeros_at_le [of here_tr UNZIGZAG_49_TR] by simp
  then have n49': "\<not> 49 < ?n" by (simp add: word_less_nat_alt)
  obtain ctx where ctx: "calc_num_non_zeros_7x7_context_bin all_p pt nd = Ok ctx" "unat ctx < 9"
    using context_bin_ok [of nd all_p pt] nd by (auto simp: neighbors_ok_def summary_ok_def)
  have count: "codes_to (write_non_zero_7x7_count ctx ?n (per_color m ! color_index))
      (read_non_zero_7x7_count ctx (per_color m ! color_index)) ?n per_color_ok"
    using n49 by (intro codes_non_zero_7x7_count [OF pc ctx(2)]) simp
  have ndl: "summary_ok (neighbor_context_left nd)" using nd by (simp add: neighbors_ok_def)
  show ?thesis
    unfolding write_coefficient_block_def [abs_def] read_coefficient_block_def [abs_def] get ctx(1) bindR.simps Let_def
  proof (rule codes_if_bind [OF codes_if_to [OF count]], unfold if_not_P [OF n49'],
      rule codes_if_bind' [OF codes_inner [OF qt g(1) nd n]], assumption, assumption, goal_cases)
    case (1 pc s)
    then obtain eob_x eob_y pc where s: "s = (eob_x, eob_y, pc)" "eob_x \<le> 7" "eob_y \<le> 7" "per_color_ok pc"
      "in_range_at here_tr UNZIGZAG_49_TR" by (cases s) auto
    have eob: "unat (of_nat eob_x :: u8) < 8" "unat (of_nat eob_y :: u8) < 8" using s by (simp_all add: unat_of_nat)
    note edge = codes_edge [where pt = pt and all_p = all_p, OF qt g(2) here g(1) ndl n49 eob s(4)]
    show ?case
      unfolding s(1) prod.case if_not_P [OF less_irrefl]
    proof (rule codes_if_bind' [OF edge], assumption, assumption, goal_cases)
      case (1 t)
      then obtain raster h v pc where t: "t = (raster, h, v, pc)" "raster = dequantize ((raw_data here_tr)[0 := 0]) ?q"
        "length h = 8" "length v = 8" "per_color_ok pc" and r: "in_range_at here_tr (edge_coords True 1 7)"
        "in_range_at here_tr (edge_coords False 1 7)" by (cases t) auto
      have "model_ok (set_per_color m color_index pc)"
        using m t(5) by (auto simp: model_ok_def set_per_color_def)
      note dc = codes_block_dc [OF this ix here t(3,4) n49 refl t(2) g(3)]
      show ?case
        unfolding t(1) prod.case get_quantization_table_def
        by (rule codes_if_conseq [OF dc]) (use ac_ok_cover [OF here s(5) r] in auto)
    qed
  qed
qed

end

end
