(* ===== verification/Block_Image.thy ===== *)
theory Block_Image
  imports Predict
begin

text \<open>
  The coefficients of a component (\<open>jpeg/block_based_image.rs\<close>, \<open>jpeg/component_info.rs\<close>): a vector of
  blocks in raster order, of which a thread may hold the part that starts at block \<open>dpos_offset\<close>.
  \<open>get_block\<close> reads an empty block past the end. \<open>capacity\<close> is the capacity reserved for the vector,
  which the source asserts is never exceeded; that the allocation itself succeeds is the argument
  \<open>alloc\<close> of the constructors (they fail with \<open>OutOfMemory\<close> otherwise).

  \<open>BlockContext\<close> (\<open>structs/block_context.rs\<close>) is the position in a component: it finds the blocks
  above, left and above left, and the summaries of the two rows kept in the cache.
\<close>

record ComponentInfo =
  q_table_index :: u8
  huff_dc :: u8
  huff_ac :: u8
  sfv :: u32
  sfh :: u32
  mbs :: u32
  bcv :: u32
  bch :: u32
  bc :: u32
  ncv :: u32
  nch :: u32
  nc :: u32
  sid :: u32
  jid :: u8

definition ComponentInfo_default :: ComponentInfo where
  "ComponentInfo_default =
    \<lparr>q_table_index = 0xff, huff_dc = 0xff, huff_ac = 0xff, sfv = - 1, sfh = - 1, mbs = - 1, bcv = - 1,
     bch = - 1, bc = - 1, ncv = - 1, nch = - 1, nc = - 1, sid = - 1, jid = 0xff\<rparr>"

record BlockBasedImage =
  block_width :: u32
  original_height :: u32
  dpos_offset :: u32
  image :: "AlignedBlock list"
  capacity :: nat

definition BlockBasedImage_new ::
  "(nat \<Rightarrow> bool) \<Rightarrow> ComponentInfo list \<Rightarrow> nat \<Rightarrow> u32 \<Rightarrow> u32 \<Rightarrow> BlockBasedImage result"
where
  "BlockBasedImage_new alloc cmp_info component luma_y_start luma_y_end =
    bindR (idx cmp_info component) (\<lambda>ci.
    bindR (idx cmp_info 0) (\<lambda>c0.
    let max_size = bch ci * bcv ci
    in bindR (assertR (bcv c0 \<noteq> 0)) (\<lambda>_.
       let image_capacity =
             unat ((ucast max_size * ucast (luma_y_end - luma_y_start) + ucast (bcv c0 - 1)) div ucast (bcv c0) :: u64);
           offset = (ucast max_size * ucast luma_y_start) div ucast (bcv c0) :: u64
       in bindR (assertR (unat offset < 2 ^ 32)) (\<lambda>_.
          if \<not> alloc image_capacity then err_exit_code OutOfMemory
          else Ok \<lparr>block_width = bch ci, original_height = bcv ci, dpos_offset = ucast offset,
                   image = [], capacity = image_capacity\<rparr>))))"

definition get_block_width :: "BlockBasedImage \<Rightarrow> u32" where
  "get_block_width im = block_width im"

definition get_original_height :: "BlockBasedImage \<Rightarrow> u32" where
  "get_original_height im = original_height im"

text \<open>\<open>merge\<close>: the images of a component, one of every thread, put together. The source moves the
  blocks out of the parts and checks that each begins where the previous ended.\<close>

fun merge_parts :: "BlockBasedImage list \<Rightarrow> AlignedBlock list \<Rightarrow> (u32 \<times> u32) option
    \<Rightarrow> (AlignedBlock list \<times> (u32 \<times> u32) option) result" where
  "merge_parts [] contents dims = Ok (contents, dims)"
| "merge_parts (v # vs) contents dims =
    bindR (assertR (dpos_offset v = of_nat (length contents))) (\<lambda>_.
    bindR (assertR (case dims of None \<Rightarrow> True
        | Some (w, h) \<Rightarrow> w = block_width v \<and> h = original_height v)) (\<lambda>_.
      merge_parts vs (contents @ image v)
        (case dims of None \<Rightarrow> Some (block_width v, original_height v) | Some d \<Rightarrow> Some d)))"

definition merge :: "(nat \<Rightarrow> bool) \<Rightarrow> BlockBasedImage list \<Rightarrow> BlockBasedImage result" where
  "merge alloc images =
    (let total_size = sum_list (map (\<lambda>x. length (image x)) images)
     in if \<not> alloc total_size then err_exit_code OutOfMemory
        else bindR (merge_parts images [] None) (\<lambda>(contents, dims).
          case dims of None \<Rightarrow> panic
          | Some (w, h) \<Rightarrow> Ok \<lparr>block_width = w, original_height = h, dpos_offset = 0,
                              image = contents, capacity = total_size\<rparr>))"

definition fill_up_to_dpos :: "u32 \<Rightarrow> AlignedBlock option \<Rightarrow> BlockBasedImage \<Rightarrow> BlockBasedImage result" where
  "fill_up_to_dpos dpos block_to_write im =
    bindR (assertR (unat (dpos_offset im) \<le> unat dpos)) (\<lambda>_.
    let relative_offset = unat dpos - unat (dpos_offset im)
    in if relative_offset < length (image im) then
         (case block_to_write of
            Some b \<Rightarrow> Ok (im\<lparr>image := (image im)[relative_offset := b]\<rparr>)
          | None \<Rightarrow> Ok im)
       else
         bindR (assertR (relative_offset < capacity im)) (\<lambda>_.
           Ok (im\<lparr>image := image im @ replicate (relative_offset - length (image im)) EMPTY_BLOCK
                 @ [case block_to_write of Some b \<Rightarrow> b | None \<Rightarrow> EMPTY_BLOCK]\<rparr>)))"

definition set_block_data :: "u32 \<Rightarrow> AlignedBlock \<Rightarrow> BlockBasedImage \<Rightarrow> BlockBasedImage result" where
  "set_block_data dpos block_data im = fill_up_to_dpos dpos (Some block_data) im"

definition get_block_at :: "BlockBasedImage \<Rightarrow> u32 \<Rightarrow> AlignedBlock" where
  "get_block_at im dpos =
    (if length (image im) \<le> unat (dpos - dpos_offset im) then EMPTY_BLOCK
     else image im ! unat (dpos - dpos_offset im))"

definition append_block :: "AlignedBlock \<Rightarrow> BlockBasedImage \<Rightarrow> BlockBasedImage result" where
  "append_block block im =
    bindR (assertR (length (image im) < capacity im)) (\<lambda>_. Ok (im\<lparr>image := image im @ [block]\<rparr>))"

text \<open>\<open>get_block_mut\<close> hands out the block for modification; here the modification is an argument.\<close>

definition get_block_mut :: "u32 \<Rightarrow> (AlignedBlock \<Rightarrow> AlignedBlock) \<Rightarrow> BlockBasedImage \<Rightarrow> BlockBasedImage result" where
  "get_block_mut dpos f im =
    bindR (fill_up_to_dpos dpos None im) (\<lambda>im.
    let relative_offset = unat dpos - unat (dpos_offset im)
    in Ok (im\<lparr>image := (image im)[relative_offset := f (image im ! relative_offset)]\<rparr>))"

section \<open>Position in a component\<close>

record BlockContext =
  ctx_block_width :: u32
  cur_block_index :: u32
  cur_neighbor_summary_index :: u32
  above_neighbor_summary_index :: u32

definition off_y :: "u32 \<Rightarrow> BlockBasedImage \<Rightarrow> BlockContext" where
  "off_y y image_data =
    (let width = get_block_width image_data
     in \<lparr>ctx_block_width = width, cur_block_index = width * y,
         cur_neighbor_summary_index = (if and y 1 \<noteq> 0 then width else 0),
         above_neighbor_summary_index = (if and y 1 \<noteq> 0 then 0 else width)\<rparr>)"

definition get_here_index :: "BlockContext \<Rightarrow> u32" where
  "get_here_index c = cur_block_index c"

definition next_block :: "BlockContext \<Rightarrow> u32 \<times> BlockContext" where
  "next_block c =
    (let c = c\<lparr>cur_block_index := cur_block_index c + 1,
               cur_neighbor_summary_index := cur_neighbor_summary_index c + 1,
               above_neighbor_summary_index := above_neighbor_summary_index c + 1\<rparr>
     in (cur_block_index c, c))"

definition here :: "BlockContext \<Rightarrow> BlockBasedImage \<Rightarrow> AlignedBlock" where
  "here c image_data = get_block_at image_data (cur_block_index c)"

definition get_neighbor_data ::
  "bool \<Rightarrow> BlockContext \<Rightarrow> BlockBasedImage \<Rightarrow> NeighborSummary list \<Rightarrow> ProbabilityTables \<Rightarrow> NeighborData result"
where
  "get_neighbor_data all_p c image_data neighbor_summary pt =
    bindR (if all_p \<or> is_above_present pt
           then idx neighbor_summary (unat (above_neighbor_summary_index c))
           else Ok NEIGHBOR_DATA_EMPTY) (\<lambda>ns_above.
    bindR (if all_p \<or> is_left_present pt
           then idx neighbor_summary (unat (cur_neighbor_summary_index c - 1))
           else Ok NEIGHBOR_DATA_EMPTY) (\<lambda>ns_left.
      Ok \<lparr>above = (if all_p \<or> is_above_present pt
                   then get_block_at image_data (cur_block_index c - ctx_block_width c) else EMPTY_BLOCK),
          left = (if all_p \<or> is_left_present pt
                  then get_block_at image_data (cur_block_index c - 1) else EMPTY_BLOCK),
          above_left = (if all_p
                        then get_block_at image_data (cur_block_index c - ctx_block_width c - 1) else EMPTY_BLOCK),
          neighbor_context_above = ns_above, neighbor_context_left = ns_left\<rparr>))"

definition set_neighbor_summary_here ::
  "BlockContext \<Rightarrow> NeighborSummary \<Rightarrow> NeighborSummary list \<Rightarrow> NeighborSummary list result"
where
  "set_neighbor_summary_here c ns cache = set_idx cache (unat (cur_neighbor_summary_index c)) ns"

section \<open>Reading and writing blocks\<close>

text \<open>An abstract image: what is read at every position.\<close>

definition blocks_of :: "BlockBasedImage \<Rightarrow> nat \<Rightarrow> AlignedBlock" where
  "blocks_of im p = (if p < length (image im) then image im ! p else EMPTY_BLOCK)"

lemma get_block_at_blocks_of:
  assumes "unat (dpos_offset im) \<le> unat dpos"
  shows "get_block_at im dpos = blocks_of im (unat dpos - unat (dpos_offset im))"
proof -
  have "unat (dpos - dpos_offset im) = unat dpos - unat (dpos_offset im)"
    using assms by (simp add: unat_sub word_le_nat_alt)
  then show ?thesis by (simp add: get_block_at_def blocks_of_def)
qed

text \<open>The same by absolute position, and the position after the last block.\<close>

definition block_no :: "BlockBasedImage \<Rightarrow> nat \<Rightarrow> AlignedBlock" where
  "block_no im p = blocks_of im (p - unat (dpos_offset im))"

definition end_pos :: "BlockBasedImage \<Rightarrow> nat" where
  "end_pos im = unat (dpos_offset im) + length (image im)"

lemma get_block_at_block_no:
  "unat (dpos_offset im) \<le> unat dpos \<Longrightarrow> get_block_at im dpos = block_no im (unat dpos)"
  by (simp add: get_block_at_blocks_of block_no_def)

lemma append_block_blocks_of:
  assumes "append_block b im = Ok im'"
  shows "blocks_of im' = (blocks_of im)(length (image im) := b)" "length (image im') = Suc (length (image im))"
  using assms by (auto simp: append_block_def blocks_of_def nth_append fun_eq_iff)

text \<open>Writing a block changes what is read there and nothing else, even when the vector is extended.\<close>

lemma set_block_data_blocks_of:
  assumes "set_block_data dpos b im = Ok im'"
  shows "blocks_of im' = (blocks_of im)(unat dpos - unat (dpos_offset im) := b)"
    and "dpos_offset im' = dpos_offset im" and "block_width im' = block_width im"
    and "capacity im' = capacity im" and "length (image im) \<le> capacity im \<Longrightarrow> length (image im') \<le> capacity im'"
proof -
  let ?i = "unat dpos - unat (dpos_offset im)"
  have "blocks_of im' = (blocks_of im)(?i := b) \<and> dpos_offset im' = dpos_offset im \<and>
    block_width im' = block_width im \<and> capacity im' = capacity im \<and>
    (length (image im) \<le> capacity im \<longrightarrow> length (image im') \<le> capacity im')"
  proof (cases "?i < length (image im)")
    case True
    then show ?thesis
      using assms by (auto simp: set_block_data_def fill_up_to_dpos_def blocks_of_def fun_eq_iff Let_def)
  next
    case False
    then show ?thesis
      using assms
      by (auto simp: set_block_data_def fill_up_to_dpos_def blocks_of_def fun_eq_iff Let_def nth_append)
  qed
  then show "blocks_of im' = (blocks_of im)(?i := b)" "dpos_offset im' = dpos_offset im"
    "block_width im' = block_width im" "capacity im' = capacity im"
    "length (image im) \<le> capacity im \<Longrightarrow> length (image im') \<le> capacity im'" by auto
qed

lemma set_block_data_total:
  assumes "unat (dpos_offset im) \<le> unat dpos" "unat dpos - unat (dpos_offset im) < capacity im"
  shows "\<exists>im'. set_block_data dpos b im = Ok im'"
  using assms by (simp add: set_block_data_def fill_up_to_dpos_def Let_def)

lemma merge_parts_contents:
  assumes "merge_parts vs contents dims = Ok (out, dims')"
  shows "out = contents @ concat (map image vs)"
    and "\<And>k. k < length vs \<Longrightarrow>
      dpos_offset (vs ! k) = of_nat (length contents + length (concat (map image (take k vs))))"
  using assms
proof (induction vs arbitrary: contents dims)
  case (Cons v vs)
  {
    case 1
    then show ?case by (auto dest: Cons.IH(1))
  next
    case (2 k)
    then show ?case
    proof (cases k)
      case (Suc j)
      obtain d where d: "dpos_offset v = of_nat (length contents)" "merge_parts vs (contents @ image v) d = Ok (out, dims')"
        using 2(2) by auto
      then show ?thesis using Cons.IH(2) [OF _ d(2), of j] "2" Suc by (simp add: add.assoc)
    qed auto
  }
qed simp_all

end
