(* ===== verification/Row_Codec.thy ===== *)
theory Row_Codec
  imports Block_Codec Block_Image
begin

text \<open>
  Coding a row of blocks (\<open>process_row\<close> and \<open>serialize_tokens\<close> of \<open>structs/lepton_encoder.rs\<close>,
  \<open>decode_row_wrapper\<close> and \<open>parse_token\<close> of \<open>structs/lepton_decoder.rs\<close>). The encoder reads the blocks
  of an image; the decoder appends the blocks to an image that holds those decoded so far, and takes
  the neighbors from there. The theorem: if the encoder does not refuse the row, the decoder appends
  the blocks of the row, and both sides end with the same cache of summaries and the same model.
\<close>

section \<open>Operations\<close>

definition serialize_tokens ::
  "simd \<Rightarrow> bool \<Rightarrow> BlockContext \<Rightarrow> QuantizationTables \<Rightarrow> ProbabilityTables \<Rightarrow> nat \<Rightarrow> BlockBasedImage
    \<Rightarrow> EnabledFeatures \<Rightarrow> NeighborSummary list \<times> Model \<Rightarrow> VPXBoolWriter
    \<Rightarrow> ((NeighborSummary list \<times> Model) \<times> VPXBoolWriter) result"
where
  "serialize_tokens S all_p c qt pt color_index image_data features = (\<lambda>(cache, m) w.
    bindR (get_neighbor_data all_p c image_data cache pt) (\<lambda>neighbors.
    bindR (write_coefficient_block S all_p pt color_index neighbors (here c image_data) qt features m w)
      (\<lambda>((ns, m), w).
    bindR (set_neighbor_summary_here c ns cache) (\<lambda>cache.
      Ok ((cache, m), w)))))"

definition parse_token ::
  "simd \<Rightarrow> bool \<Rightarrow> BlockContext \<Rightarrow> QuantizationTables \<Rightarrow> ProbabilityTables \<Rightarrow> nat \<Rightarrow> EnabledFeatures
    \<Rightarrow> BlockBasedImage \<Rightarrow> NeighborSummary list \<times> Model \<Rightarrow> VPXBoolReader
    \<Rightarrow> (BlockBasedImage \<times> (NeighborSummary list \<times> Model) \<times> VPXBoolReader) result"
where
  "parse_token S all_p c qt pt color_index features image_data = (\<lambda>(cache, m) r.
    bindR (get_neighbor_data all_p c image_data cache pt) (\<lambda>neighbors.
    bindR (read_coefficient_block S all_p pt color_index neighbors qt features m r)
      (\<lambda>(output, (ns, m), r).
    bindR (set_neighbor_summary_here c ns cache) (\<lambda>cache.
    bindR (append_block output image_data) (\<lambda>image_data.
      Ok (image_data, (cache, m), r))))))"

text \<open>The loops over the columns; the last argument but the states counts the remaining columns.\<close>

fun process_row_loop ::
  "simd \<Rightarrow> ProbabilityTables \<Rightarrow> ProbabilityTables \<Rightarrow> nat \<Rightarrow> BlockBasedImage \<Rightarrow> QuantizationTables \<Rightarrow> u32
    \<Rightarrow> EnabledFeatures \<Rightarrow> nat \<Rightarrow> nat \<Rightarrow> BlockContext \<Rightarrow> NeighborSummary list \<times> Model \<Rightarrow> VPXBoolWriter
    \<Rightarrow> ((NeighborSummary list \<times> Model) \<times> VPXBoolWriter) result"
where
  "process_row_loop S left_model middle_model color_index image_data qt size_in_block features jpeg_x 0 c s w =
    Ok (s, w)"
| "process_row_loop S left_model middle_model color_index image_data qt size_in_block features jpeg_x (Suc n) c s w =
    (let pt = (if jpeg_x = 0 then left_model else middle_model)
     in bindR (serialize_tokens S (is_all_present pt) c qt pt color_index image_data features s w) (\<lambda>(s, w).
        let (offset, c) = next_block c
        in if size_in_block \<le> offset then Ok (s, w)
           else process_row_loop S left_model middle_model color_index image_data qt size_in_block features
                  (jpeg_x + 1) n c s w))"

definition process_row ::
  "simd \<Rightarrow> ProbabilityTables \<Rightarrow> ProbabilityTables \<Rightarrow> nat \<Rightarrow> BlockBasedImage \<Rightarrow> QuantizationTables \<Rightarrow> u32
    \<Rightarrow> u32 \<Rightarrow> EnabledFeatures \<Rightarrow> NeighborSummary list \<times> Model \<Rightarrow> VPXBoolWriter
    \<Rightarrow> ((NeighborSummary list \<times> Model) \<times> VPXBoolWriter) result"
where
  "process_row S left_model middle_model color_index image_data qt curr_y component_size_in_block features s w =
    process_row_loop S left_model middle_model color_index image_data qt component_size_in_block features
      0 (unat (get_block_width image_data)) (off_y curr_y image_data) s w"

fun decode_row_loop ::
  "simd \<Rightarrow> ProbabilityTables \<Rightarrow> ProbabilityTables \<Rightarrow> nat \<Rightarrow> QuantizationTables \<Rightarrow> u32
    \<Rightarrow> EnabledFeatures \<Rightarrow> nat \<Rightarrow> nat \<Rightarrow> BlockContext \<Rightarrow> BlockBasedImage \<Rightarrow> NeighborSummary list \<times> Model
    \<Rightarrow> VPXBoolReader \<Rightarrow> (BlockBasedImage \<times> (NeighborSummary list \<times> Model) \<times> VPXBoolReader) result"
where
  "decode_row_loop S left_model middle_model color_index qt size_in_blocks features jpeg_x 0 c image_data s r =
    Ok (image_data, s, r)"
| "decode_row_loop S left_model middle_model color_index qt size_in_blocks features jpeg_x (Suc n) c image_data s r =
    (let pt = (if jpeg_x = 0 then left_model else middle_model)
     in bindR (parse_token S (is_all_present pt) c qt pt color_index features image_data s r)
          (\<lambda>(image_data, s, r).
        let (offset, c) = next_block c
        in if size_in_blocks \<le> offset then Ok (image_data, s, r)
           else decode_row_loop S left_model middle_model color_index qt size_in_blocks features
                  (jpeg_x + 1) n c image_data s r))"

definition decode_row_wrapper ::
  "simd \<Rightarrow> ProbabilityTables \<Rightarrow> ProbabilityTables \<Rightarrow> nat \<Rightarrow> QuantizationTables \<Rightarrow> u32
    \<Rightarrow> u32 \<Rightarrow> EnabledFeatures \<Rightarrow> BlockBasedImage \<Rightarrow> NeighborSummary list \<times> Model
    \<Rightarrow> VPXBoolReader \<Rightarrow> (BlockBasedImage \<times> (NeighborSummary list \<times> Model) \<times> VPXBoolReader) result"
where
  "decode_row_wrapper S left_model middle_model color_index qt curr_y component_size_in_blocks features
      image_data s r =
    decode_row_loop S left_model middle_model color_index qt component_size_in_blocks features
      0 (unat (get_block_width image_data)) (off_y curr_y image_data) image_data s r"

section \<open>The decoder's image\<close>

text \<open>The blocks decoded so far are those of the encoder's image, and within the range of the model. The
  decoder's image may begin later than the encoder's, in a segment of a thread.\<close>

definition decoded_of :: "BlockBasedImage \<Rightarrow> BlockBasedImage \<Rightarrow> bool" where
  "decoded_of e d \<longleftrightarrow> block_width d = block_width e \<and> unat (dpos_offset e) \<le> unat (dpos_offset d) \<and>
    (\<forall>i < length (image d). image d ! i = block_no e (unat (dpos_offset d) + i) \<and>
      ac_ok (block_no e (unat (dpos_offset d) + i)))"

definition image_ok :: "BlockBasedImage \<Rightarrow> bool" where
  "image_ok im \<longleftrightarrow> (\<forall>b \<in> set (image im). block_ok b)"

lemma block_no_ok: "image_ok im \<Longrightarrow> block_ok (block_no im p)"
  by (simp add: image_ok_def block_no_def blocks_of_def)

definition cache_ok :: "nat \<Rightarrow> NeighborSummary list \<Rightarrow> bool" where
  "cache_ok n cache \<longleftrightarrow> length cache = 2 * n \<and> (\<forall>s \<in> set cache. summary_ok s)"

text \<open>Where the coders are in a row: column \<open>x\<close> of \<open>cols\<close>, \<open>d\<close> holding the blocks before.\<close>

definition row_at :: "nat \<Rightarrow> BlockBasedImage \<Rightarrow> nat \<Rightarrow> BlockContext \<Rightarrow> bool" where
  "row_at cols d x c \<longleftrightarrow>
    unat (ctx_block_width c) = cols \<and> x \<le> cols \<and> 2 * cols < 2 ^ 32 \<and>
    end_pos d + (cols - x) < 2 ^ 32 \<and>
    unat (cur_block_index c) = end_pos d \<and> x \<le> length (image d) \<and>
    (unat (cur_neighbor_summary_index c) = x \<and> unat (above_neighbor_summary_index c) = cols + x \<or>
     unat (cur_neighbor_summary_index c) = cols + x \<and> unat (above_neighbor_summary_index c) = x)"

text \<open>The predictors of the top row and of the others, which have a row of blocks above.\<close>

definition models_for :: "bool \<Rightarrow> ProbabilityTables \<Rightarrow> ProbabilityTables \<Rightarrow> bool" where
  "models_for is_top l m \<longleftrightarrow> (if is_top then l = NO_NEIGHBORS \<and> m = LEFT_ONLY else l = TOP_ONLY \<and> m = ALL_NEIGHBORS)"

lemma get_block_at_decoded:
  assumes d: "decoded_of e d" and p: "unat p = end_pos d" "1 \<le> k" "k \<le> length (image d)"
    and q: "unat q = unat p - k"
  shows "get_block_at d q = get_block_at e q" "ac_ok (get_block_at e q)"
proof -
  have le: "unat (dpos_offset d) \<le> unat q" "unat (dpos_offset e) \<le> unat q"
    using d p q unfolding decoded_of_def end_pos_def by linarith+
  define i where "i = unat q - unat (dpos_offset d)"
  have i: "i < length (image d)" "unat q = unat (dpos_offset d) + i"
    using p q le(1) unfolding i_def end_pos_def by linarith+
  have "block_no d (unat q) = image d ! i" using i by (simp add: block_no_def blocks_of_def)
  moreover have "image d ! i = block_no e (unat q) \<and> ac_ok (block_no e (unat q))"
    using d i by (simp add: decoded_of_def)
  ultimately show "get_block_at d q = get_block_at e q" "ac_ok (get_block_at e q)"
    by (simp_all add: get_block_at_block_no le)
qed

lemma unat_minus_nat: "k \<le> unat p \<Longrightarrow> k < 2 ^ 32 \<Longrightarrow> unat (p - of_nat k :: u32) = unat p - k"
  by (simp add: unat_sub word_le_nat_alt unat_of_nat)

lemma neighbors_agree:
  assumes d: "decoded_of e d" and r: "row_at cols d x c" "x < cols" and cache: "cache_ok cols cache"
    and pt: "models_for is_top l m" "pt = (if x = 0 then l else m)" and above: "\<not> is_top \<Longrightarrow> cols + x \<le> length (image d)"
  obtains nd where "get_neighbor_data (is_all_present pt) c e cache pt = Ok nd"
    "get_neighbor_data (is_all_present pt) c d cache pt = Ok nd" "neighbors_ok nd"
proof -
  note R = r(1) [unfolded row_at_def]
  have len: "length (image d) \<le> end_pos d" by (simp add: end_pos_def)
  let ?p = "cur_block_index c"
  have W: "ctx_block_width c = of_nat cols" using R by auto
  have flags: "is_above_present pt \<longleftrightarrow> \<not> is_top" "is_left_present pt \<longleftrightarrow> 0 < x" "is_all_present pt \<longleftrightarrow> \<not> is_top \<and> 0 < x"
    using pt by (auto simp: models_for_def NO_NEIGHBORS_def LEFT_ONLY_def TOP_ONLY_def ALL_NEIGHBORS_def
        ProbabilityTables_new_def is_above_present_def is_left_present_def is_all_present_def split: if_splits)
  have sum: "summary_ok (cache ! i)" "i < length cache" if "i < 2 * cols" for i
    using cache that by (auto simp: cache_ok_def)
  have lefti: "unat (cur_neighbor_summary_index c - 1) < 2 * cols" if "0 < x"
    using R r(2) that unat_minus_nat [of 1 "cur_neighbor_summary_index c"] by auto
  have abovei: "unat (above_neighbor_summary_index c) < 2 * cols" using R r(2) by auto
  have L: "get_block_at d (?p - 1) = get_block_at e (?p - 1)" "ac_ok (get_block_at e (?p - 1))" if "0 < x"
  proof -
    have "unat (?p - 1) = unat ?p - 1" using unat_minus_nat [of 1 ?p] R len that by simp
    with get_block_at_decoded [OF d, of ?p 1] R that
    show "get_block_at d (?p - 1) = get_block_at e (?p - 1)" "ac_ok (get_block_at e (?p - 1))" by simp_all
  qed
  have A: "get_block_at d (?p - ctx_block_width c) = get_block_at e (?p - ctx_block_width c)"
    "ac_ok (get_block_at e (?p - ctx_block_width c))" if "\<not> is_top"
  proof -
    have "unat (?p - of_nat cols) = unat ?p - cols" using unat_minus_nat [of cols ?p] R len above [OF that] by simp
    with get_block_at_decoded [OF d, of ?p cols] R above [OF that] r(2)
    show "get_block_at d (?p - ctx_block_width c) = get_block_at e (?p - ctx_block_width c)"
      "ac_ok (get_block_at e (?p - ctx_block_width c))" by (simp_all add: W)
  qed
  have AL: "get_block_at d (?p - ctx_block_width c - 1) = get_block_at e (?p - ctx_block_width c - 1)"
    "ac_ok (get_block_at e (?p - ctx_block_width c - 1))" if "\<not> is_top" "0 < x"
  proof -
    have e: "?p - ctx_block_width c - 1 = ?p - of_nat (cols + 1)" by (simp add: W)
    have "unat (?p - of_nat (cols + 1)) = unat ?p - (cols + 1)"
      using R len above [OF that(1)] that(2) r(2) by (intro unat_minus_nat) linarith+
    with get_block_at_decoded [OF d, of ?p "cols + 1"] R above [OF that(1)] that(2)
    show "get_block_at d (?p - ctx_block_width c - 1) = get_block_at e (?p - ctx_block_width c - 1)"
      "ac_ok (get_block_at e (?p - ctx_block_width c - 1))" unfolding e by simp_all
  qed
  let ?nd = "\<lparr>above = (if \<not> is_top then get_block_at e (?p - ctx_block_width c) else EMPTY_BLOCK),
      left = (if 0 < x then get_block_at e (?p - 1) else EMPTY_BLOCK),
      above_left = (if \<not> is_top \<and> 0 < x then get_block_at e (?p - ctx_block_width c - 1) else EMPTY_BLOCK),
      neighbor_context_above = (if \<not> is_top then cache ! unat (above_neighbor_summary_index c) else NEIGHBOR_DATA_EMPTY),
      neighbor_context_left = (if 0 < x then cache ! unat (cur_neighbor_summary_index c - 1) else NEIGHBOR_DATA_EMPTY)\<rparr>"
  show ?thesis
  proof (rule that)
    show "get_neighbor_data (is_all_present pt) c e cache pt = Ok ?nd"
      unfolding get_neighbor_data_def flags using sum(2) [OF abovei] sum(2) [OF lefti] by (auto simp: idx_in_range)
    show "get_neighbor_data (is_all_present pt) c d cache pt = Ok ?nd"
      unfolding get_neighbor_data_def flags using sum(2) [OF abovei] sum(2) [OF lefti] L A AL by (auto simp: idx_in_range)
    show "neighbors_ok ?nd"
      using L A AL sum(1) [OF abovei] sum(1) [OF lefti]
      by (simp add: neighbors_ok_def ac_ok_empty summary_ok_empty)
  qed
qed

definition append_blocks :: "BlockBasedImage \<Rightarrow> AlignedBlock list \<Rightarrow> BlockBasedImage" where
  "append_blocks d bs = d\<lparr>image := image d @ bs\<rparr>"

lemma append_blocks_simps [simp]:
  "block_width (append_blocks d bs) = block_width d" "dpos_offset (append_blocks d bs) = dpos_offset d"
  "capacity (append_blocks d bs) = capacity d" "image (append_blocks d bs) = image d @ bs"
  "append_blocks d [] = d" "append_blocks (append_blocks d bs) cs = append_blocks d (bs @ cs)"
  by (simp_all add: append_blocks_def)

lemma decoded_of_append:
  "decoded_of e d \<Longrightarrow> ac_ok (block_no e (end_pos d)) \<Longrightarrow> decoded_of e (append_blocks d [block_no e (end_pos d)])"
  by (auto simp: decoded_of_def end_pos_def nth_append less_Suc_eq)

lemma decoded_of_append_blocks:
  assumes "decoded_of e d" "\<forall>k < n. ac_ok (block_no e (end_pos d + k))"
  shows "decoded_of e (append_blocks d (map (block_no e) [end_pos d..<end_pos d + n]))"
proof -
  have "(image d @ map (block_no e) [end_pos d..<end_pos d + n]) ! i = block_no e (unat (dpos_offset d) + i) \<and>
      ac_ok (block_no e (unat (dpos_offset d) + i))" if "i < length (image d) + n" for i
  proof (cases "i < length (image d)")
    case False
    then have "end_pos d + (i - length (image d)) = unat (dpos_offset d) + i" "i - length (image d) < n"
      using that by (auto simp: end_pos_def)
    then show ?thesis using assms(2) False that by (auto simp: nth_append dest: spec)
  qed (use assms(1) in \<open>simp add: decoded_of_def nth_append\<close>)
  then show ?thesis using assms(1) by (simp add: decoded_of_def)
qed

lemma end_pos_append [simp]: "end_pos (append_blocks d bs) = end_pos d + length bs"
  by (simp add: end_pos_def)

lemma here_block_no:
  assumes "decoded_of e d" "row_at cols d x c"
  shows "here c e = block_no e (end_pos d)"
  using get_block_at_block_no [of e "cur_block_index c"] assms by (simp add: here_def row_at_def decoded_of_def end_pos_def)

text \<open>One step to the right, past the block just decoded.\<close>

lemma row_at_next:
  assumes r: "row_at cols d x c" "x < cols" and d': "length (image d') = Suc (length (image d))" "dpos_offset d' = dpos_offset d"
    and n: "next_block c = (offset, c')"
  shows "row_at cols d' (Suc x) c'" "unat offset = end_pos d + 1"
proof -
  note R = r(1) [unfolded row_at_def]
  have inc: "unat (p + 1 :: u32) = unat p + 1" if "unat p + 1 < 2 ^ 32" for p
    using that by (simp add: unat_word_ariths)
  have i: "unat (cur_block_index c + 1) = unat (cur_block_index c) + 1"
    "unat (cur_neighbor_summary_index c + 1) = unat (cur_neighbor_summary_index c) + 1"
    "unat (above_neighbor_summary_index c + 1) = unat (above_neighbor_summary_index c) + 1"
    using R r(2) by (intro inc; linarith)+
  have o: "offset = cur_block_index c + 1" and c': "c' = c\<lparr>cur_block_index := cur_block_index c + 1,
               cur_neighbor_summary_index := cur_neighbor_summary_index c + 1,
               above_neighbor_summary_index := above_neighbor_summary_index c + 1\<rparr>"
    using n by (auto simp: next_block_def Let_def)
  show "unat offset = end_pos d + 1" using i R by (simp add: o)
  have "cols - x = Suc (cols - Suc x)" using r(2) by simp
  then show "row_at cols d' (Suc x) c'"
    using i R r(2) d' by (simp add: row_at_def c' end_pos_def)
qed

text \<open>How many blocks of a row are coded: the loop ends early at the limit of the component.\<close>

fun row_count :: "nat \<Rightarrow> nat \<Rightarrow> nat \<Rightarrow> nat" where
  "row_count 0 p limit = 0"
| "row_count (Suc n) p limit = (if limit \<le> p + 1 then 1 else Suc (row_count n (p + 1) limit))"

lemma row_count_le: "row_count n p limit \<le> n"
  by (induction n arbitrary: p) simp_all

lemma row_count_full: "p + n \<le> limit \<Longrightarrow> row_count n p limit = n"
  by (induction n arbitrary: p) (auto simp: not_less_eq_eq)

context simd_laws
begin

lemma codes_token:
  assumes d: "decoded_of e d" "image_ok e" "length (image d) < capacity d"
    and r: "row_at cols d x c" "x < cols" and cache: "cache_ok cols cache"
    and pt: "models_for is_top l md" "pt = (if x = 0 then l else md)" and above: "\<not> is_top \<Longrightarrow> cols + x \<le> length (image d)"
    and qt: "tables_ok qt" and m: "model_ok m" and ix: "color_index < 2"
  shows "codes_if False (serialize_tokens S (is_all_present pt) c qt pt color_index e features (cache, m))
    (parse_token S (is_all_present pt) c qt pt color_index features d (cache, m))
    (append_blocks d [block_no e (end_pos d)])
    (\<lambda>(cache, m). cache_ok cols cache \<and> model_ok m \<and> ac_ok (block_no e (end_pos d)))"
proof -
  obtain nd where nd: "get_neighbor_data (is_all_present pt) c e cache pt = Ok nd"
    "get_neighbor_data (is_all_present pt) c d cache pt = Ok nd" "neighbors_ok nd"
    by (rule neighbors_agree [OF d(1) r cache pt above])
  have here: "here c e = block_no e (end_pos d)" by (rule here_block_no [OF d(1) r(1)])
  have ok: "block_ok (here c e)" unfolding here by (rule block_no_ok [OF d(2)])
  have block: "codes_if False
      (write_coefficient_block S (is_all_present pt) pt color_index nd (here c e) qt features m)
      (read_coefficient_block S (is_all_present pt) pt color_index nd qt features m) (here c e)
      (\<lambda>(ns, m). summary_ok ns \<and> model_ok m \<and> ac_ok (here c e))"
    by (rule codes_coefficient_block [OF m ix nd(3) ok qt]) simp_all
  have i: "unat (cur_neighbor_summary_index c) < length cache"
    using r cache by (auto simp: row_at_def cache_ok_def)
  have set: "set_neighbor_summary_here c ns cache = Ok (cache[unat (cur_neighbor_summary_index c) := ns])" for ns
    unfolding set_neighbor_summary_here_def by (rule set_idx_in_range [OF i])
  have cache': "cache_ok cols (cache[k := ns])" if "summary_ok ns" for k ns
    using cache that set_update_subset_insert [of cache k ns] by (auto simp: cache_ok_def)
  have app: "append_block b d = Ok (append_blocks d [b])" for b
    using d(3) by (simp add: append_block_def append_blocks_def)
  show ?thesis
    unfolding serialize_tokens_def parse_token_def prod.case nd(1,2) bindR.simps set app
    by (rule codes_if_bind' [OF block]) (auto simp: here cache' intro!: codes_if_to codes_to_Ok)
qed

lemma codes_row_loop:
  assumes im: "image_ok e" and pt: "models_for is_top l md" and qt: "tables_ok qt" and ix: "color_index < 2"
    and d: "decoded_of e d" "length (image d) + n \<le> capacity d"
    and r: "row_at cols d x c" "x + n = cols" and cache: "cache_ok cols cache" and m: "model_ok m"
    and above: "\<not> is_top \<Longrightarrow> cols + x \<le> length (image d)"
  shows "codes_if False
    (process_row_loop S l md color_index e qt limit features x n c (cache, m))
    (decode_row_loop S l md color_index qt limit features x n c d (cache, m))
    (append_blocks d (map (block_no e)
      [end_pos d..<end_pos d + row_count n (end_pos d) (unat limit)]))
    (\<lambda>(cache, m). cache_ok cols cache \<and> model_ok m \<and>
      (\<forall>i < row_count n (end_pos d) (unat limit). ac_ok (block_no e (end_pos d + i))))"
  using d r cache m above
proof (induction n arbitrary: d x c cache m)
  case 0
  then show ?case by (simp add: codes_if_to codes_to_Ok)
next
  case (Suc n)
  let ?pt = "if x = 0 then l else md"
  let ?b = "block_no e (end_pos d)"
  let ?d = "append_blocks d [?b]"
  let ?p = "end_pos d"
  have x: "x < cols" using Suc.prems(4) by simp
  have cap: "length (image d) < capacity d" using Suc.prems(2) by simp
  note tok = codes_token [OF Suc.prems(1) im cap Suc.prems(3) x Suc.prems(5) pt refl Suc.prems(7) qt Suc.prems(6) ix, of features]
  obtain offset c' where nx: "next_block c = (offset, c')" by fastforce
  have r': "row_at cols ?d (Suc x) c'" and off: "unat offset = ?p + 1"
    using row_at_next [OF Suc.prems(3) x _ _ nx, of ?d] by simp_all
  have le: "limit \<le> offset \<longleftrightarrow> unat limit \<le> ?p + 1" by (simp add: word_le_nat_alt off)
  show ?case
    unfolding process_row_loop.simps [abs_def] decode_row_loop.simps [abs_def] Let_def nx prod.case
  proof (rule codes_if_bind' [OF tok], assumption, goal_cases)
    case (1 s)
    then obtain cache' m' where s: "s = (cache', m')" "cache_ok cols cache'" "model_ok m'" "ac_ok ?b" by (cases s) auto
    have dec: "decoded_of e ?d" by (rule decoded_of_append [OF Suc.prems(1) s(4)])
    show ?case
    proof (cases "limit \<le> offset")
      case True
      then show ?thesis using s le by (simp add: codes_if_to codes_to_Ok)
    next
      case False
      have "length (image ?d) + n \<le> capacity ?d" "Suc x + n = cols" using Suc.prems(2,4) by simp_all
      moreover have "cols + Suc x \<le> length (image ?d)" if "\<not> is_top" using Suc.prems(7) [OF that] by simp
      ultimately have ih: "codes_if False
          (process_row_loop S l md color_index e qt limit features (Suc x) n c' (cache', m'))
          (decode_row_loop S l md color_index qt limit features (Suc x) n c' ?d (cache', m'))
          (append_blocks ?d (map (block_no e) [end_pos ?d..<end_pos ?d + row_count n (end_pos ?d) (unat limit)]))
          (\<lambda>(cache, m). cache_ok cols cache \<and> model_ok m \<and>
            (\<forall>i < row_count n (end_pos ?d) (unat limit). ac_ok (block_no e (end_pos ?d + i))))"
        using Suc.IH [OF dec _ r' _ s(2,3)] by blast
      let ?k = "row_count n (Suc ?p) (unat limit)"
      have count: "row_count (Suc n) ?p (unat limit) = Suc ?k" using False le by simp
      have ih': "codes_if False
          (process_row_loop S l md color_index e qt limit features (Suc x) n c' (cache', m'))
          (decode_row_loop S l md color_index qt limit features (Suc x) n c' ?d (cache', m'))
          (append_blocks d (?b # map (block_no e) [Suc ?p..<Suc ?p + ?k]))
          (\<lambda>(cache, m). cache_ok cols cache \<and> model_ok m \<and> (\<forall>i < ?k. ac_ok (block_no e (Suc ?p + i))))"
        using ih by simp
      have list: "?b # map (block_no e) [Suc ?p..<Suc ?p + ?k] = map (block_no e) [?p..<?p + Suc ?k]"
        by (simp add: upt_conv_Cons del: upt_Suc)
      show ?thesis
        unfolding prod.case if_not_P [OF False] count list [symmetric] Suc_eq_plus1 [symmetric] s(1)
        by (rule codes_if_conseq [OF ih']) (use s(4) in \<open>auto simp: less_Suc_eq_0_disj\<close>)
    qed
  qed
qed

lemma codes_row:
  fixes limit :: u32
  assumes im: "image_ok e" and pt: "models_for is_top l md" and qt: "tables_ok qt" and ix: "color_index < 2"
    and d: "decoded_of e d" and cap: "length (image d) + unat (block_width e) \<le> capacity d"
    and y: "end_pos d = unat (block_width e) * unat y"
    and top: "\<not> is_top \<Longrightarrow> unat (block_width e) \<le> length (image d)"
    and bounds: "2 * unat (block_width e) < 2 ^ 32" "unat (block_width e) * (unat y + 1) < 2 ^ 32"
    and cache: "cache_ok (unat (block_width e)) cache" and m: "model_ok m"
    and k: "k = row_count (unat (block_width e)) (unat (block_width e) * unat y) (unat limit)"
  shows "codes_if False
    (process_row S l md color_index e qt y limit features (cache, m))
    (decode_row_wrapper S l md color_index qt y limit features d (cache, m))
    (append_blocks d (map (block_no e) [unat (block_width e) * unat y..<unat (block_width e) * unat y + k]))
    (\<lambda>(cache, m). cache_ok (unat (block_width e)) cache \<and> model_ok m \<and>
      (\<forall>i < k. ac_ok (block_no e (unat (block_width e) * unat y + i))))"
proof -
  let ?W = "unat (block_width e)"
  have w: "block_width d = block_width e" using d by (simp add: decoded_of_def)
  have c: "off_y y e = off_y y d" by (simp add: off_y_def get_block_width_def w)
  have cur: "unat (block_width e * y) = ?W * unat y" using bounds(2) by (simp add: unat_word_ariths)
  have "row_at ?W d 0 (off_y y d)"
    using bounds y cur by (simp add: row_at_def off_y_def get_block_width_def w Let_def)
  from codes_row_loop [OF im pt qt ix d cap this _ cache m] top
  show ?thesis
    unfolding process_row_def [abs_def] decode_row_wrapper_def [abs_def] c get_block_width_def w k y by simp
qed

end

end
