(* ===== verification/Row_Spec.thy ===== *)
theory Row_Spec
  imports Block_Image
begin

text \<open>
  The order of the rows of blocks (\<open>jpeg/row_spec.rs\<close>) and the part of a truncated image that is
  coded (\<open>jpeg/truncate_components.rs\<close>). Row number \<open>decode_index\<close> of the image is found by counting
  through the rows of an MCU row, the last component first. The vectors and loops over the components
  are lists; a division by 0 and an index out of range are panics.
\<close>

section \<open>Rows\<close>

record RowSpec =
  luma_y :: u32
  rs_component :: nat
  curr_y :: u32
  mcu_row_index :: u32
  last_row_to_complete_mcu :: bool
  skip :: bool
  done_rows :: bool

text \<open>The loop over the components from \<open>i\<close> down to 0; \<open>mult\<close> are the rows of an MCU row.\<close>

fun find_component :: "u32 list \<Rightarrow> u32 list \<Rightarrow> u32 \<Rightarrow> nat \<Rightarrow> u32 \<Rightarrow> RowSpec \<Rightarrow> RowSpec result" where
  "find_component mult max_coded_heights mcu_row i place r =
    bindR (idx mult i) (\<lambda>mi.
    if place < mi then
      (let y = mcu_row * mi + place;
           r = r\<lparr>rs_component := i, curr_y := y, last_row_to_complete_mcu := (place + 1 = mi \<and> i = 0)\<rparr>
       in bindR (idx max_coded_heights i) (\<lambda>h.
          bindR
            (if h \<le> y then
               (if length max_coded_heights < length mult - 1 then panic
                else Ok (r\<lparr>skip := True,
                  done_rows := list_all (\<lambda>j. \<not> mcu_row * mult ! j < max_coded_heights ! j) [0..<length mult - 1]\<rparr>))
             else Ok r) (\<lambda>r.
          Ok (if i = 0 then r\<lparr>luma_y := y\<rparr> else r))))
    else if i = 0 then Ok (r\<lparr>skip := True, done_rows := True\<rparr>)
    else find_component mult max_coded_heights mcu_row (i - 1) (place - mi) r)"

definition get_row_spec_from_index ::
  "u32 \<Rightarrow> BlockBasedImage list \<Rightarrow> u32 \<Rightarrow> u32 list \<Rightarrow> RowSpec result"
where
  "get_row_spec_from_index decode_index image_data mcuv max_coded_heights =
    bindR (assertR (length image_data \<le> 3)) (\<lambda>_.
    let heights = map get_original_height image_data
    in bindR (assertR (heights = [] \<or> mcuv \<noteq> 0)) (\<lambda>_.
       let component_multiple = map (\<lambda>h. h div mcuv) heights;
           mcu_multiple = sum_list component_multiple
       in bindR (assertR (mcu_multiple \<noteq> 0)) (\<lambda>_.
          let mcu_row = decode_index div mcu_multiple
          in find_component component_multiple max_coded_heights mcu_row (length image_data - 1)
               (decode_index - mcu_row * mcu_multiple)
               \<lparr>luma_y = mcu_row * component_multiple ! 0, rs_component = length image_data, curr_y = 0,
                mcu_row_index = mcu_row, last_row_to_complete_mcu = False, skip = False,
                done_rows = False\<rparr>)))"

section \<open>Truncation\<close>

record TrucateComponentsInfo =
  trunc_bcv :: u32
  trunc_bc :: u32

record TruncateComponents =
  trunc_info :: "TrucateComponentsInfo list"
  components_count :: nat
  mcu_count_horizontal :: u32
  mcu_count_vertical :: u32

definition TruncateComponents_default :: TruncateComponents where
  "TruncateComponents_default =
    \<lparr>trunc_info = [], components_count = 0, mcu_count_horizontal = 0, mcu_count_vertical = 0\<rparr>"

text \<open>\<open>init\<close>, with the fields of the header it reads: \<open>mcuh\<close>, \<open>mcuv\<close>, \<open>cmp_info\<close> and \<open>cmpc\<close>.\<close>

definition TruncateComponents_init ::
  "u32 \<Rightarrow> u32 \<Rightarrow> ComponentInfo list \<Rightarrow> nat \<Rightarrow> TruncateComponents \<Rightarrow> TruncateComponents result"
where
  "TruncateComponents_init mcuh mcuv cmp_info cmpc t =
    (if length cmp_info < cmpc then panic
     else Ok (t\<lparr>mcu_count_horizontal := mcuh, mcu_count_vertical := mcuv, components_count := cmpc,
        trunc_info := trunc_info t @
          map (\<lambda>ci. \<lparr>trunc_bcv = bcv ci, trunc_bc = bc ci\<rparr>) (take cmpc cmp_info)\<rparr>))"

definition get_max_coded_heights :: "TruncateComponents \<Rightarrow> u32 list result" where
  "get_max_coded_heights t =
    (if length (trunc_info t) < components_count t then panic
     else Ok (map trunc_bcv (take (components_count t) (trunc_info t))))"

definition get_min_vertical_extcmp_multiple :: "ComponentInfo \<Rightarrow> u32 \<Rightarrow> u32 result" where
  "get_min_vertical_extcmp_multiple cmp_info n =
    bindR (assertR (n \<noteq> 0)) (\<lambda>_. Ok (bcv cmp_info div n))"

text \<open>\<open>while lines % ratio != 0 && lines + 1 <= bcv\<close>: the lines count up, and 0 (also when the largest
  \<open>u32\<close> wraps) is a multiple of every ratio.\<close>

function round_up_lines :: "u32 \<Rightarrow> u32 \<Rightarrow> u32 \<Rightarrow> u32" where
  "round_up_lines ratio limit lines =
    (if lines mod ratio \<noteq> 0 \<and> lines + 1 \<le> limit then round_up_lines ratio limit (lines + 1) else lines)"
  by pat_completeness auto

termination
proof (relation "measure (\<lambda>(ratio, limit, lines). if lines = 0 then 0 else 2 ^ 32 - unat lines)")
  fix ratio limit lines :: u32
  assume "lines mod ratio \<noteq> 0 \<and> lines + 1 \<le> limit"
  then have nz: "lines \<noteq> 0" by auto
  have "lines + 1 = 0 \<or> unat (lines + 1) = unat lines + 1"
    using unat_lt2p [of "lines + 1"] by (metis add.commute add_0 nz unatSuc Suc_eq_plus1)
  then show "((ratio, limit, lines + 1), ratio, limit, lines)
      \<in> measure (\<lambda>(ratio, limit, lines). if lines = 0 then 0 else 2 ^ 32 - unat lines)"
    using nz unat_lt2p [of lines] by (auto simp: diff_less_mono2)
qed simp

definition set_block_count_d_pos ::
  "TrucateComponentsInfo \<Rightarrow> ComponentInfo \<Rightarrow> u32 \<Rightarrow> u32 \<Rightarrow> TrucateComponentsInfo result"
where
  "set_block_count_d_pos ti ci n mcu_count =
    bindR (assertR (bch ci \<noteq> 0)) (\<lambda>_.
    bindR (assertR (bcv ci = bc ci div bch ci + (if bc ci mod bch ci \<noteq> 0 then 1 else 0))) (\<lambda>_.
    let vertical_scan_lines = min (n div bch ci + (if n mod bch ci \<noteq> 0 then 1 else 0)) (bcv ci)
    in bindR (get_min_vertical_extcmp_multiple ci mcu_count) (\<lambda>ratio.
       bindR (assertR (ratio \<noteq> 0)) (\<lambda>_.
       let vertical_scan_lines = round_up_lines ratio (bcv ci) vertical_scan_lines
       in bindR (assertR (vertical_scan_lines \<le> bcv ci)) (\<lambda>_.
          Ok (ti\<lparr>trunc_bcv := vertical_scan_lines, trunc_bc := n\<rparr>))))))"

fun set_bounds_loop ::
  "TrucateComponentsInfo list \<Rightarrow> ComponentInfo list \<Rightarrow> u32 list \<Rightarrow> u32 \<Rightarrow> nat \<Rightarrow> TrucateComponentsInfo list result"
where
  "set_bounds_loop (t # ts) (c # cs) (d # ds) mcu_count (Suc n) =
    bindR (set_block_count_d_pos t c (d + 1) mcu_count) (\<lambda>t.
    bindR (set_bounds_loop ts cs ds mcu_count n) (\<lambda>ts. Ok (t # ts)))"
| "set_bounds_loop ts cs ds mcu_count 0 = Ok ts"
| "set_bounds_loop _ _ _ _ _ = panic"

definition set_truncation_bounds ::
  "ComponentInfo list \<Rightarrow> u32 list \<Rightarrow> TruncateComponents \<Rightarrow> TruncateComponents result"
where
  "set_truncation_bounds cmp_info max_d_pos t =
    bindR (set_bounds_loop (trunc_info t) cmp_info max_d_pos (mcu_count_vertical t) (components_count t))
      (\<lambda>ts. Ok (t\<lparr>trunc_info := ts\<rparr>))"

definition get_block_height :: "TruncateComponents \<Rightarrow> nat \<Rightarrow> u32 result" where
  "get_block_height t cmp = bindR (idx (trunc_info t) cmp) (\<lambda>ti. Ok (trunc_bcv ti))"

definition get_component_sizes_in_blocks :: "TruncateComponents \<Rightarrow> u32 list result" where
  "get_component_sizes_in_blocks t =
    (if length (trunc_info t) < components_count t then panic
     else Ok (map trunc_bc (take (components_count t) (trunc_info t))))"

section \<open>The rows come in order\<close>

declare find_component.simps [simp del]

text \<open>The row spec found for row \<open>p\<close> of component \<open>i\<close> in an MCU row.\<close>

definition row_spec_for :: "u32 list \<Rightarrow> u32 list \<Rightarrow> u32 \<Rightarrow> nat \<Rightarrow> u32 \<Rightarrow> RowSpec \<Rightarrow> RowSpec" where
  "row_spec_for mult max_coded_heights mcu_row i p r =
    (let y = mcu_row * mult ! i + p;
         r = r\<lparr>rs_component := i, curr_y := y, last_row_to_complete_mcu := (p + 1 = mult ! i \<and> i = 0)\<rparr>;
         r = (if max_coded_heights ! i \<le> y
              then r\<lparr>skip := True,
                done_rows := list_all (\<lambda>j. \<not> mcu_row * mult ! j < max_coded_heights ! j) [0..<length mult - 1]\<rparr>
              else r)
     in if i = 0 then r\<lparr>luma_y := y\<rparr> else r)"

lemma find_component_at:
  assumes len: "length mult = n" "length mch = n" and i: "i \<le> k" "k < n" and p: "p < mult ! i"
    and place: "unat place = (\<Sum>j\<in>{i<..k}. unat (mult ! j)) + unat p"
  shows "find_component mult mch mcu_row k place r = Ok (row_spec_for mult mch mcu_row i p r)"
  using i place
proof (induction k arbitrary: place)
  have nn: "\<not> n < n - Suc 0" by simp
  case 0
  then have "place = p" "i = 0" by (simp_all add: word_unat_eq_iff)
  then show ?case using p len 0 nn by (simp add: find_component.simps [of mult mch _ 0] idx_in_range row_spec_for_def Let_def)
next
  have nn: "\<not> n < n - Suc 0" by simp
  case (Suc k)
  show ?case
  proof (cases "i = Suc k")
    case True
    then have "place = p" using Suc.prems by (simp add: word_unat_eq_iff)
    then show ?thesis using True p len Suc.prems nn
      by (simp add: find_component.simps [of mult mch _ "Suc k"] idx_in_range row_spec_for_def Let_def)
  next
    case False
    then have ik: "i \<le> k" using Suc.prems by simp
    have split: "{i<..Suc k} = insert (Suc k) {i<..k}" using ik by auto
    have sum: "unat place = unat (mult ! Suc k) + ((\<Sum>j\<in>{i<..k}. unat (mult ! j)) + unat p)"
      unfolding Suc.prems(3) split by simp
    then have ge: "\<not> place < mult ! Suc k" by (simp add: word_less_nat_alt)
    have "unat (place - mult ! Suc k) = (\<Sum>j\<in>{i<..k}. unat (mult ! j)) + unat p"
      using sum by (simp add: unat_sub word_le_nat_alt)
    from Suc.IH [OF ik _ this] Suc.prems(2) ge len show ?thesis
      by (simp add: find_component.simps [of mult mch _ "Suc k"] idx_in_range)
  qed
qed

lemma unat_sum_list: "(\<Sum>x\<leftarrow>xs. unat x) < 2 ^ LENGTH('a) \<Longrightarrow> unat (sum_list xs) = (\<Sum>x\<leftarrow>xs. unat x)" for xs :: "'a::len word list"
proof (induction xs)
  case (Cons x xs)
  then have "unat (sum_list xs) = (\<Sum>x\<leftarrow>xs. unat x)" by simp
  then show ?case using Cons.prems by (simp add: unat_word_ariths)
qed simp

lemma get_row_spec_at:
  assumes n: "length image_data = n" "0 < n" "n \<le> 3" and mcuv: "mcuv \<noteq> 0"
    and mult: "mult = map (\<lambda>im. original_height im div mcuv) image_data" and M: "M = (\<Sum>x\<leftarrow>mult. unat x)"
    and mch: "length mch = n" and i: "i < n" and p: "p < mult ! i"
    and range: "(unat mcu_row + 1) * M < 2 ^ 32"
    and d: "unat d = unat mcu_row * M + ((\<Sum>j\<in>{i<..<n}. unat (mult ! j)) + unat p)"
  shows "get_row_spec_from_index d image_data mcuv mch =
    Ok (row_spec_for mult mch mcu_row i p
      \<lparr>luma_y = mcu_row * mult ! 0, rs_component = n, curr_y = 0, mcu_row_index = mcu_row,
       last_row_to_complete_mcu = False, skip = False, done_rows = False\<rparr>)"
proof -
  have len: "length mult = n" by (simp add: mult n)
  have M': "M = (\<Sum>j<n. unat (mult ! j))"
    unfolding M by (simp add: sum_list_sum_nth len atLeast0LessThan)
  have "M < 2 ^ 32" using range by simp
  then have uM: "unat (sum_list mult) = M" using unat_sum_list [of mult] by (simp add: M)
  have part: "(\<Sum>j\<in>{i<..<n}. unat (mult ! j)) + unat p < M"
  proof -
    have "{..<n} = {..<i} \<union> insert i {i<..<n}" using i by auto
    then have "M = sum (\<lambda>j. unat (mult ! j)) ({..<i} \<union> insert i {i<..<n})" unfolding M' by (rule arg_cong)
    also have "\<dots> = (\<Sum>j<i. unat (mult ! j)) + (unat (mult ! i) + (\<Sum>j\<in>{i<..<n}. unat (mult ! j)))"
      by (subst sum.union_disjoint) auto
    finally have "M = (\<Sum>j<i. unat (mult ! j)) + (unat (mult ! i) + (\<Sum>j\<in>{i<..<n}. unat (mult ! j)))" .
    then show ?thesis using p by (simp add: word_less_nat_alt)
  qed
  then have M0: "0 < M" by simp
  then have sum0: "sum_list mult \<noteq> 0" using uM by (metis less_irrefl unat_0)
  have row: "d div sum_list mult = mcu_row"
  proof -
    have "unat d div M = unat mcu_row" using d part M0 by simp
    then show ?thesis by (simp add: word_unat_eq_iff unat_div uM)
  qed
  have rM: "unat (mcu_row * sum_list mult) = unat mcu_row * M" using range by (simp add: unat_word_ariths uM)
  have place: "unat (d - mcu_row * sum_list mult) = (\<Sum>j\<in>{i<..n - 1}. unat (mult ! j)) + unat p"
  proof -
    have "{i<..n - 1} = {i<..<n}" using n(2) by auto
    then show ?thesis using d rM by (simp add: unat_sub word_le_nat_alt)
  qed
  have "find_component mult mch mcu_row (n - 1) (d - mcu_row * sum_list mult) r = Ok (row_spec_for mult mch mcu_row i p r)" for r
    using find_component_at [OF len mch _ _ p place] i by simp
  moreover have "map (\<lambda>h. h div mcuv) (map get_original_height image_data) = mult"
    by (simp add: mult get_original_height_def)
  moreover have "image_data \<noteq> []" using n by auto
  ultimately show ?thesis
    using n mcuv sum0 row by (simp add: get_row_spec_from_index_def Let_def)
qed

text \<open>Rounding up to whole MCU rows.\<close>

declare round_up_lines.simps [simp del]

lemma round_up_lines_bounds:
  assumes "lines \<le> limit"
  shows "round_up_lines ratio limit lines \<le> limit"
    "round_up_lines ratio limit lines mod ratio = 0 \<or> round_up_lines ratio limit lines = limit"
proof -
  have "round_up_lines ratio limit lines \<le> limit \<and>
    (round_up_lines ratio limit lines mod ratio = 0 \<or> round_up_lines ratio limit lines = limit)"
    using assms
  proof (induction ratio limit lines rule: round_up_lines.induct)
    case (1 ratio limit lines)
    show ?case
    proof (cases "lines mod ratio \<noteq> 0 \<and> lines + 1 \<le> limit")
      case True
      then show ?thesis using 1(1) [OF True] by (simp add: round_up_lines.simps [of ratio limit lines])
    next
      case False
      have "lines = limit" if "\<not> lines + 1 \<le> limit"
        using that 1(2) unat_lt2p [of limit]
        by (auto simp: word_le_nat_alt unat_word_ariths word_unat_eq_iff mod_if split: if_splits)
      moreover have "round_up_lines ratio limit lines = lines"
        using False by (subst round_up_lines.simps) (simp only: if_False)
      ultimately show ?thesis using False 1(2) by metis
    qed
  qed
  then show "round_up_lines ratio limit lines \<le> limit"
    "round_up_lines ratio limit lines mod ratio = 0 \<or> round_up_lines ratio limit lines = limit" by auto
qed

text \<open>The heights to which a component of \<open>full\<close> block rows of \<open>w\<close> blocks can be cut when its first \<open>n\<close> blocks are
  there and an MCU row has \<open>r\<close> rows of it: whole MCU rows that hold all of these blocks, or the whole component.\<close>

definition height_fits :: "nat \<Rightarrow> nat \<Rightarrow> nat \<Rightarrow> nat \<Rightarrow> nat \<Rightarrow> bool" where
  "height_fits full w r n h \<longleftrightarrow> h = full \<or> h \<le> full \<and> r dvd h \<and> n \<le> h * w"

lemma round_up_lines_least:
  assumes "lines \<le> limit" "limit \<noteq> - 1"
  shows "lines \<le> round_up_lines ratio limit lines"
    "\<And>h. lines \<le> h \<Longrightarrow> h \<le> limit \<Longrightarrow> h mod ratio = 0 \<or> h = limit \<Longrightarrow> round_up_lines ratio limit lines \<le> h"
proof -
  have least: "lines \<le> round_up_lines ratio limit lines
    \<and> (\<forall>h. lines \<le> h \<longrightarrow> h \<le> limit \<longrightarrow> h mod ratio = 0 \<or> h = limit \<longrightarrow> round_up_lines ratio limit lines \<le> h)"
    using assms
  proof (induction ratio limit lines rule: round_up_lines.induct)
    case (1 ratio limit lines)
    show ?case
    proof (cases "lines mod ratio \<noteq> 0 \<and> lines + 1 \<le> limit")
      case True
      have "lines \<noteq> - 1" using "1.prems" by (metis word_n1_ge word_order.extremum_uniqueI)
      then have "1 + lines \<noteq> 0" by (metis add.commute add_eq_0_iff)
      then have up: "unat (lines + 1) = unat lines + 1" using unatSuc [of lines] by (simp add: add.commute)
      have eq: "round_up_lines ratio limit lines = round_up_lines ratio limit (lines + 1)"
        using True by (subst round_up_lines.simps) simp
      note I = "1.IH" [OF True conjunct2 [OF True] "1.prems"(2)]
      show ?thesis unfolding eq
      proof (intro conjI allI impI)
        show "lines \<le> round_up_lines ratio limit (lines + 1)" using I up by (auto simp: word_le_nat_alt)
        fix h assume h: "lines \<le> h" "h \<le> limit" "h mod ratio = 0 \<or> h = limit"
        have "h \<noteq> lines" using True h(3) up by (auto simp: word_le_nat_alt)
        then have "lines + 1 \<le> h" using h(1) up by (simp add: word_le_nat_alt word_unat_eq_iff)
        with I show "round_up_lines ratio limit (lines + 1) \<le> h" using h(2,3) by iprover
      qed
    next
      case False
      then have "round_up_lines ratio limit lines = lines" by (subst round_up_lines.simps) (simp only: if_False)
      then show ?thesis by simp
    qed
  qed
  show "lines \<le> round_up_lines ratio limit lines" by (rule conjunct1 [OF least])
  show "round_up_lines ratio limit lines \<le> h" if "lines \<le> h" "h \<le> limit" "h mod ratio = 0 \<or> h = limit" for h
    using conjunct2 [OF least] that by iprover
qed

text \<open>The lines that are needed for \<open>n\<close> blocks.\<close>

lemma lines_needed:
  fixes n w :: u32
  assumes "w \<noteq> 0"
  shows "unat (n div w + (if n mod w \<noteq> 0 then 1 else 0)) \<le> h \<longleftrightarrow> unat n \<le> h * unat w"
proof -
  let ?n = "unat n" and ?w = "unat w"
  have w: "0 < ?w" using assms by (simp add: unat_gt_0)
  have m: "n mod w \<noteq> 0 \<longleftrightarrow> ?n mod ?w \<noteq> 0" by (simp add: word_unat_eq_iff unat_mod)
  have "?n div ?w + 1 < 2 ^ 32" if "?n mod ?w \<noteq> 0"
  proof -
    have "2 \<le> ?w" using that w by (cases "?w = 1") simp_all
    then have "?n div ?w \<le> ?n div 2" by (simp add: div_le_mono2)
    also have "\<dots> < 2 ^ 31" using unat_lt2p [of n] by simp
    finally show ?thesis by simp
  qed
  moreover have "?n div ?w < 2 ^ 32" using le_less_trans [OF div_le_dividend] unat_lt2p [of n] by simp
  ultimately have "unat (n div w + (if n mod w \<noteq> 0 then 1 else 0)) = ?n div ?w + (if ?n mod ?w \<noteq> 0 then 1 else 0)"
    unfolding m by (cases "?n mod ?w = 0") (simp_all add: unat_word_ariths unat_div)
  moreover have "?n div ?w + (if ?n mod ?w \<noteq> 0 then 1 else 0) \<le> h \<longleftrightarrow> ?n \<le> h * ?w"
  proof
    assume "?n div ?w + (if ?n mod ?w \<noteq> 0 then 1 else 0) \<le> h"
    then have "(?n div ?w + (if ?n mod ?w \<noteq> 0 then 1 else 0)) * ?w \<le> h * ?w" by (rule mult_le_mono1)
    moreover have "?n \<le> (?n div ?w + (if ?n mod ?w \<noteq> 0 then 1 else 0)) * ?w"
      using div_mult_mod_eq [of ?n ?w] mod_less_divisor [OF w, of ?n]
      by (cases "?n mod ?w = 0"; simp add: add_mult_distrib; linarith)
    ultimately show "?n \<le> h * ?w" by (rule order_trans [rotated])
  next
    assume n: "?n \<le> h * ?w"
    have "?n div ?w \<le> h" using div_le_mono [OF n, of ?w] w by simp
    moreover have "?n mod ?w = 0" if "?n div ?w = h" using n div_mult_mod_eq [of ?n ?w] that by simp
    ultimately show "?n div ?w + (if ?n mod ?w \<noteq> 0 then 1 else 0) \<le> h" by (cases "?n div ?w = h") auto
  qed
  ultimately show ?thesis by simp
qed

lemma set_block_count_least:
  fixes n :: u32
  assumes "bch ci \<noteq> 0" "bcv ci = bc ci div bch ci + (if bc ci mod bch ci \<noteq> 0 then 1 else 0)"
    and "mcu_count \<noteq> 0" "mcu_count \<le> bcv ci" "bcv ci \<noteq> - 1"
  defines "fits \<equiv> \<lambda>h. height_fits (unat (bcv ci)) (unat (bch ci)) (unat (bcv ci) div unat mcu_count) (unat n) h"
  shows "\<exists>h. set_block_count_d_pos ti ci n mcu_count = Ok (ti\<lparr>trunc_bcv := h, trunc_bc := n\<rparr>)
    \<and> fits (unat h) \<and> (\<forall>h'. fits h' \<longrightarrow> unat h \<le> h')"
proof -
  define need where "need = n div bch ci + (if n mod bch ci \<noteq> 0 then 1 else 0)"
  define lines where "lines = min need (bcv ci)"
  define r where "r = bcv ci div mcu_count"
  define h where "h = round_up_lines r (bcv ci) lines"
  have le: "lines \<le> bcv ci" by (simp add: lines_def)
  note up = round_up_lines_bounds [OF le, of r, folded h_def] round_up_lines_least [OF le assms(5), where ratio = r, folded h_def]
  have "0 < unat mcu_count" "unat mcu_count \<le> unat (bcv ci)" using assms(3,4) by (simp_all add: unat_gt_0 word_le_nat_alt)
  then have "unat r \<noteq> 0" by (simp add: r_def unat_div div_eq_0_iff)
  then have r: "r \<noteq> 0" by auto
  have ok: "set_block_count_d_pos ti ci n mcu_count = Ok (ti\<lparr>trunc_bcv := h, trunc_bc := n\<rparr>)"
    unfolding set_block_count_d_pos_def get_min_vertical_extcmp_multiple_def Let_def
      need_def [symmetric] lines_def [symmetric] r_def [symmetric]
    using assms(1-3) r up(1) by (simp add: h_def)
  have dvd: "v mod r = 0 \<longleftrightarrow> unat r dvd unat v" for v :: u32
    by (simp add: word_unat_eq_iff unat_mod mod_eq_0_iff_dvd)
  have need: "unat need \<le> k \<longleftrightarrow> unat n \<le> k * unat (bch ci)" for k
    unfolding need_def by (rule lines_needed [OF assms(1)])
  have ur: "unat (bcv ci) div unat mcu_count = unat r" by (simp add: r_def unat_div)
  have "fits (unat h)"
  proof (cases "h = bcv ci")
    case False
    then have "need \<le> h" using up(1,3) by (auto simp: lines_def min_def split: if_splits)
    with False up(1,2) show ?thesis
      by (simp add: fits_def height_fits_def ur need [symmetric] dvd word_le_nat_alt)
  qed (simp add: fits_def height_fits_def)
  moreover have "unat h \<le> h'" if "fits h'" for h'
  proof -
    have h': "h' \<le> unat (bcv ci)" using that by (auto simp: fits_def height_fits_def)
    then have u: "unat (of_nat h' :: u32) = h'"
      using unat_lt2p [of "bcv ci"] by (simp add: unat_of_nat take_bit_eq_mod)
    have "lines \<le> of_nat h'" "of_nat h' \<le> bcv ci"
      using that h' u by (auto simp: fits_def height_fits_def ur need [symmetric] word_le_nat_alt lines_def min_def)
    moreover have "of_nat h' mod r = 0 \<or> of_nat h' = bcv ci"
      unfolding dvd using that u by (auto simp: fits_def height_fits_def ur)
    ultimately have "h \<le> of_nat h'" by (rule up(4))
    then show ?thesis using u by (simp add: word_le_nat_alt)
  qed
  ultimately show ?thesis using ok by blast
qed

end
