(* ===== verification/Row_Range.thy ===== *)
theory Row_Range
  imports Row_Codec Row_Spec
begin

text \<open>
  Coding the rows of a thread's segment (\<open>lepton_encode_row_range\<close> of \<open>structs/lepton_encoder.rs\<close>,
  \<open>lepton_decode_row_range\<close> of \<open>structs/lepton_decoder.rs\<close>): a loop over the row numbers from 0, which
  skips the rows before the segment, codes its rows, one component after the other, and ends behind it.
  The loops run on fuel. For a segment of whole MCU rows the decoder restores every block of the
  segment, announces every MCU row when its blocks are complete, and both loops end.
\<close>

section \<open>Operations\<close>

text \<open>What is kept from row to row: which components are still at their first row, the summaries of the
  last two rows of each, and the model.\<close>

type_synonym row_state = "bool list \<times> NeighborSummary list list \<times> Model"

definition models_of_row :: "bool \<Rightarrow> ProbabilityTables \<times> ProbabilityTables" where
  "models_of_row is_top = (if is_top then (NO_NEIGHBORS, LEFT_ONLY) else (TOP_ONLY, ALL_NEIGHBORS))"

definition encode_row_step ::
  "simd \<Rightarrow> QuantizationTables list \<Rightarrow> BlockBasedImage list \<Rightarrow> u32 list \<Rightarrow> EnabledFeatures \<Rightarrow> RowSpec
    \<Rightarrow> row_state \<Rightarrow> VPXBoolWriter \<Rightarrow> (row_state \<times> VPXBoolWriter) result"
where
  "encode_row_step S qts images sizes features cur_row = (\<lambda>(is_top_row, caches, m) w.
    let component = rs_component cur_row
    in bindR (idx is_top_row component) (\<lambda>top.
       let (left_model, middle_model) = models_of_row top
       in bindR (idx images component) (\<lambda>im.
          bindR (idx qts component) (\<lambda>qt.
          bindR (idx caches component) (\<lambda>cache.
          bindR (idx sizes component) (\<lambda>size.
          bindR (process_row S left_model middle_model (get_color_index component) im qt
                  (curr_y cur_row) size features (cache, m) w) (\<lambda>((cache, m), w).
          bindR (flush_non_final_data w) (\<lambda>w.
            Ok ((is_top_row[component := False], caches[component := cache], m), w)))))))))"

definition decode_row_step ::
  "simd \<Rightarrow> QuantizationTables list \<Rightarrow> u32 list \<Rightarrow> EnabledFeatures
    \<Rightarrow> (RowSpec \<Rightarrow> BlockBasedImage list \<Rightarrow> 'u \<Rightarrow> 'u result) \<Rightarrow> RowSpec
    \<Rightarrow> BlockBasedImage list \<times> 'u \<Rightarrow> row_state \<Rightarrow> VPXBoolReader
    \<Rightarrow> ((BlockBasedImage list \<times> 'u) \<times> row_state \<times> VPXBoolReader) result"
where
  "decode_row_step S qts sizes features row_callback cur_row = (\<lambda>(images, u) (is_top_row, caches, m) r.
    let component = rs_component cur_row
    in bindR (idx is_top_row component) (\<lambda>top.
       let (left_model, middle_model) = models_of_row top
       in bindR (idx images component) (\<lambda>im.
          bindR (idx qts component) (\<lambda>qt.
          bindR (idx caches component) (\<lambda>cache.
          bindR (idx sizes component) (\<lambda>size.
          bindR (decode_row_wrapper S left_model middle_model (get_color_index component) qt
                  (curr_y cur_row) size features im (cache, m) r) (\<lambda>(im, (cache, m), r).
            let images = images[component := im]
            in bindR (if last_row_to_complete_mcu cur_row then row_callback cur_row images u else Ok u) (\<lambda>u.
                 Ok ((images, u), (is_top_row[component := False], caches[component := cache], m), r)))))))))"

fun encode_rows ::
  "nat \<Rightarrow> simd \<Rightarrow> QuantizationTables list \<Rightarrow> BlockBasedImage list \<Rightarrow> u32 \<Rightarrow> u32 list \<Rightarrow> u32 list
    \<Rightarrow> u32 \<Rightarrow> u32 \<Rightarrow> bool \<Rightarrow> EnabledFeatures \<Rightarrow> u32 \<Rightarrow> row_state \<Rightarrow> VPXBoolWriter
    \<Rightarrow> ((u32 \<times> row_state) \<times> VPXBoolWriter) result option"
where
  "encode_rows 0 S qts images mcuv sizes heights min_y max_y whole features encode_index s w = None"
| "encode_rows (Suc n) S qts images mcuv sizes heights min_y max_y whole features encode_index s w =
    bindF (Some (get_row_spec_from_index encode_index images mcuv heights)) (\<lambda>cur_row.
      let encode_index = encode_index + 1
      in if done_rows cur_row \<or> max_y \<le> luma_y cur_row \<and> \<not> whole then Some (Ok ((encode_index, s), w))
         else if skip cur_row \<or> luma_y cur_row < min_y then
           encode_rows n S qts images mcuv sizes heights min_y max_y whole features encode_index s w
         else
           bindF (Some (encode_row_step S qts images sizes features cur_row s w)) (\<lambda>(s, w).
             encode_rows n S qts images mcuv sizes heights min_y max_y whole features encode_index s w))"

fun decode_rows ::
  "nat \<Rightarrow> simd \<Rightarrow> QuantizationTables list \<Rightarrow> u32 \<Rightarrow> u32 list \<Rightarrow> u32 list
    \<Rightarrow> u32 \<Rightarrow> u32 \<Rightarrow> bool \<Rightarrow> EnabledFeatures \<Rightarrow> (RowSpec \<Rightarrow> BlockBasedImage list \<Rightarrow> 'u \<Rightarrow> 'u result) \<Rightarrow> u32
    \<Rightarrow> BlockBasedImage list \<times> 'u \<Rightarrow> row_state \<Rightarrow> VPXBoolReader
    \<Rightarrow> ((BlockBasedImage list \<times> 'u) \<times> (u32 \<times> row_state) \<times> VPXBoolReader) result option"
where
  "decode_rows 0 S qts mcuv sizes heights min_y max_y whole features row_callback decode_index v s r = None"
| "decode_rows (Suc n) S qts mcuv sizes heights min_y max_y whole features row_callback decode_index v s r =
    bindF (Some (get_row_spec_from_index decode_index (fst v) mcuv heights)) (\<lambda>cur_row.
      let decode_index = decode_index + 1
      in if done_rows cur_row \<or> max_y \<le> luma_y cur_row \<and> \<not> whole then Some (Ok (v, (decode_index, s), r))
         else if skip cur_row \<or> luma_y cur_row < min_y then
           decode_rows n S qts mcuv sizes heights min_y max_y whole features row_callback decode_index v s r
         else
           bindF (Some (decode_row_step S qts sizes features row_callback cur_row v s r)) (\<lambda>(v, s, r).
             decode_rows n S qts mcuv sizes heights min_y max_y whole features row_callback decode_index v s r))"

definition initial_row_state :: "BlockBasedImage list \<Rightarrow> row_state" where
  "initial_row_state images =
    (map (\<lambda>_. True) images,
     map (\<lambda>im. replicate (unat (push_bit 1 (get_block_width im))) NEIGHBOR_DATA_EMPTY) images,
     Model_default)"

definition lepton_encode_row_range ::
  "nat \<Rightarrow> simd \<Rightarrow> QuantizationTables list \<Rightarrow> BlockBasedImage list \<Rightarrow> TruncateComponents \<Rightarrow> u32 \<Rightarrow> u32
    \<Rightarrow> bool \<Rightarrow> bool \<Rightarrow> EnabledFeatures \<Rightarrow> bytes result option"
where
  "lepton_encode_row_range fuel S qts images colldata min_y max_y is_last_thread full_file_compression features =
    (let whole = (is_last_thread \<and> full_file_compression)
     in bindF (Some VPXBoolWriter_new) (\<lambda>w.
        bindF (Some (get_component_sizes_in_blocks colldata)) (\<lambda>sizes.
        bindF (Some (get_max_coded_heights colldata)) (\<lambda>heights.
        bindF (encode_rows fuel S qts images (mcu_count_vertical colldata) sizes heights min_y max_y whole
                features 0 (initial_row_state images) w) (\<lambda>((encode_index, s), w).
        bindF (Some (if whole
               then bindR (get_row_spec_from_index encode_index images (mcu_count_vertical colldata) heights)
                      (\<lambda>test. assertR (skip test \<and> done_rows test))
               else Ok ())) (\<lambda>_.
        bindF (Some (finish w)) (\<lambda>w. Some (Ok (writer w)))))))))"

text \<open>The images of the decoder, one for each component.\<close>

fun new_images ::
  "(nat \<Rightarrow> bool) \<Rightarrow> ComponentInfo list \<Rightarrow> nat list \<Rightarrow> u32 \<Rightarrow> u32 \<Rightarrow> BlockBasedImage list result"
where
  "new_images alloc cmp_info [] min_y end_y = Ok []"
| "new_images alloc cmp_info (i # is) min_y end_y =
    bindR (BlockBasedImage_new alloc cmp_info i min_y end_y) (\<lambda>im.
    bindR (new_images alloc cmp_info is min_y end_y) (\<lambda>ims. Ok (im # ims)))"

definition lepton_decode_row_range ::
  "nat \<Rightarrow> simd \<Rightarrow> (nat \<Rightarrow> bool) \<Rightarrow> QuantizationTables list \<Rightarrow> ComponentInfo list \<Rightarrow> nat \<Rightarrow> TruncateComponents \<Rightarrow> bytes
    \<Rightarrow> u32 \<Rightarrow> u32 \<Rightarrow> bool \<Rightarrow> bool \<Rightarrow> EnabledFeatures
    \<Rightarrow> (RowSpec \<Rightarrow> BlockBasedImage list \<Rightarrow> 'u \<Rightarrow> 'u result) \<Rightarrow> 'u \<Rightarrow> (BlockBasedImage list \<times> 'u) result option"
where
  "lepton_decode_row_range fuel S alloc qts cmp_info cmpc trunc reader min_y max_y is_last_thread
      full_file_compression features row_callback u =
    bindF (Some (get_component_sizes_in_blocks trunc)) (\<lambda>sizes.
    bindF (Some (get_max_coded_heights trunc)) (\<lambda>heights.
    bindF (Some (bindR (if cmpc = 0 then Ok max_y
                  else if is_last_thread then bindR (idx cmp_info 0) (\<lambda>c0. Ok (bcv c0)) else Ok max_y) (\<lambda>end_y.
           new_images alloc cmp_info [0..<cmpc] min_y end_y))) (\<lambda>images.
    bindF (Some (VPXBoolReader_new reader)) (\<lambda>r.
    bindF (decode_rows fuel S qts (mcu_count_vertical trunc) sizes heights min_y max_y
            (is_last_thread \<and> full_file_compression) features row_callback 0 (images, u)
            (initial_row_state images) r) (\<lambda>(v, s, r).
      Some (Ok v))))))"

section \<open>The rows of an MCU row\<close>

text \<open>With \<open>mult i\<close> rows of component \<open>i\<close> in an MCU row: the rows before those of component \<open>i\<close>, and the
  rows of component \<open>i\<close> among the first \<open>d\<close> rows of all components.\<close>

definition rows_ahead :: "(nat \<Rightarrow> nat) \<Rightarrow> nat \<Rightarrow> nat \<Rightarrow> nat" where
  "rows_ahead mult n i = (\<Sum>j\<in>{i<..<n}. mult j)"

definition rows_done :: "(nat \<Rightarrow> nat) \<Rightarrow> nat \<Rightarrow> nat \<Rightarrow> nat \<Rightarrow> nat" where
  "rows_done mult n d i =
    d div (\<Sum>j<n. mult j) * mult i + min (mult i) (d mod (\<Sum>j<n. mult j) - rows_ahead mult n i)"

lemma row_in_mcu:
  assumes "k < (\<Sum>j<n. mult j)"
  obtains i p where "i < n" "p < mult i" "k = rows_ahead mult n i + p"
proof -
  have "\<exists>i p. i < n \<and> p < mult i \<and> k = rows_ahead mult n i + p"
    using assms
  proof (induction n arbitrary: k)
    case (Suc n)
    show ?case
    proof (cases "k < mult n")
      case True
      then show ?thesis by (intro exI [of _ n] exI [of _ k]) (simp add: rows_ahead_def)
    next
      case False
      then have "k - mult n < sum mult {..<n}" using Suc.prems by simp
      from Suc.IH [OF this] obtain i p where ip: "i < n" "p < mult i" "k - mult n = rows_ahead mult n i + p"
        by blast
      moreover have "{i<..<Suc n} = insert n {i<..<n}" using ip(1) by auto
      ultimately show ?thesis using False
        by (intro exI [of _ i] exI [of _ p]) (simp add: rows_ahead_def)
    qed
  qed simp
  then show ?thesis using that by blast
qed

lemma rows_ahead_less: "j < i \<Longrightarrow> i < n \<Longrightarrow> rows_ahead mult n i + mult i \<le> rows_ahead mult n j"
proof -
  assume ji: "j < i" "i < n"
  have "rows_ahead mult n i + mult i = sum mult (insert i {i<..<n})" by (simp add: rows_ahead_def)
  also have "\<dots> \<le> rows_ahead mult n j" unfolding rows_ahead_def using ji by (intro sum_mono2) auto
  finally show ?thesis .
qed

lemma rows_ahead_total: "i < n \<Longrightarrow> rows_ahead mult n i + mult i \<le> (\<Sum>j<n. mult j)"
proof -
  assume i: "i < n"
  have "rows_ahead mult n i + mult i = sum mult (insert i {i<..<n})" by (simp add: rows_ahead_def)
  also have "\<dots> \<le> (\<Sum>j<n. mult j)" using i by (intro sum_mono2) auto
  finally show ?thesis .
qed

lemma rows_done_at:
  assumes "i < n" "k \<le> (\<Sum>j<n. mult j)" "0 < (\<Sum>j<n. mult j)"
  shows "rows_done mult n (r * (\<Sum>j<n. mult j) + k) i = r * mult i + min (mult i) (k - rows_ahead mult n i)"
proof (cases "k = (\<Sum>j<n. mult j)")
  case True
  let ?M = "\<Sum>j<n. mult j"
  have "r * ?M + k = Suc r * ?M" using True by simp
  moreover have "rows_done mult n (Suc r * ?M) i = Suc r * mult i"
    unfolding rows_done_def using assms(3) by (simp del: mult_Suc)
  moreover have "mult i \<le> k - rows_ahead mult n i" using rows_ahead_total [OF assms(1), of mult] True by simp
  ultimately show ?thesis by (simp only: min_absorb1 mult_Suc add.commute)
next
  case False
  then have k: "k < (\<Sum>j<n. mult j)" using assms(2) by simp
  then have "(r * (\<Sum>j<n. mult j) + k) div (\<Sum>j<n. mult j) = r" using div_mult_self3 [of "\<Sum>j<n. mult j" r k] div_less [OF k] by linarith
  then show ?thesis using k by (simp add: rows_done_def)
qed

lemma rows_done_step:
  assumes "i < n" "p < mult i" "j < n" and d_def: "d = r * (\<Sum>j<n. mult j) + (rows_ahead mult n i + p)"
  shows "rows_done mult n (Suc d) j = rows_done mult n d j + of_bool (j = i)"
    and "rows_done mult n d i = r * mult i + p"
proof -
  let ?M = "\<Sum>j<n. mult j" and ?k = "rows_ahead mult n i + p"
  have k: "Suc ?k \<le> ?M" "0 < ?M" using rows_ahead_total [OF assms(1), of mult] assms(2) by linarith+
  have suc: "Suc d = r * ?M + Suc ?k" by (simp add: d_def)
  note at = rows_done_at [OF assms(3) k, of r] rows_done_at [OF assms(3) Suc_leD [OF k(1)] k(2), of r]
  have "min (mult j) (Suc ?k - rows_ahead mult n j) = min (mult j) (?k - rows_ahead mult n j) + of_bool (j = i)"
  proof (cases j i rule: linorder_cases)
    case less
    then show ?thesis using rows_ahead_less [OF less assms(1), of mult] assms(2) by simp
  next
    case equal
    then show ?thesis using assms(2) by (simp add: min_def)
  next
    case greater
    then show ?thesis using rows_ahead_less [OF greater assms(3), of mult] by simp
  qed
  then show "rows_done mult n (Suc d) j = rows_done mult n d j + of_bool (j = i)"
    unfolding suc unfolding d_def at by simp
  show "rows_done mult n d i = r * mult i + p"
    unfolding d_def using rows_done_at [OF assms(1) Suc_leD [OF k(1)] k(2), of r] assms(2) by simp
qed

lemma rows_done_mcu: "i < n \<Longrightarrow> 0 < (\<Sum>j<n. mult j) \<Longrightarrow> rows_done mult n (r * (\<Sum>j<n. mult j)) i = r * mult i"
  by (simp add: rows_done_def)

section \<open>Segments\<close>

definition mcu_rows :: "BlockBasedImage list \<Rightarrow> u32 \<Rightarrow> nat \<Rightarrow> nat" where
  "mcu_rows es mcuv i = unat (original_height (es ! i) div mcuv)"

text \<open>A segment of the MCU rows from \<open>r0\<close> up to \<open>r1\<close> of an image with \<open>rows\<close> coded MCU rows, which is what
  the threads get. Every component has whole MCU rows, and its sizes are in the range of the counters.\<close>

definition component_fits ::
  "BlockBasedImage \<Rightarrow> QuantizationTables \<Rightarrow> TrucateComponentsInfo \<Rightarrow> u32 \<Rightarrow> nat \<Rightarrow> nat \<Rightarrow> nat \<Rightarrow> bool"
where
  "component_fits e qt t mcuv mult rows r0 \<longleftrightarrow>
    unat (original_height e) = mult * unat mcuv \<and> unat (trunc_bcv t) = mult * rows \<and>
    unat (block_width e) * (mult * rows) \<le> unat (trunc_bc t) \<and> 2 * unat (block_width e) < 2 ^ 32 \<and>
    unat (block_width e) * unat (original_height e) < 2 ^ 32 \<and>
    unat (dpos_offset e) \<le> unat (block_width e) * (mult * r0) \<and> image_ok e \<and> tables_ok qt"

definition segment_ok ::
  "BlockBasedImage list \<Rightarrow> QuantizationTables list \<Rightarrow> TruncateComponents \<Rightarrow> nat \<Rightarrow> nat \<Rightarrow> nat \<Rightarrow> u32 \<Rightarrow> u32 \<Rightarrow> bool \<Rightarrow> bool"
where
  "segment_ok es qts coll rows r0 r1 min_y max_y whole \<longleftrightarrow>
    (let n = length es; mcuv = mcu_count_vertical coll; mult = mcu_rows es mcuv
     in 0 < n \<and> n \<le> 3 \<and> components_count coll = n \<and> n \<le> length (trunc_info coll) \<and> n \<le> length qts \<and>
        mcuv \<noteq> 0 \<and> 0 < mult 0 \<and> r0 \<le> r1 \<and> r1 \<le> rows \<and> rows \<le> unat mcuv \<and>
        (rows + 3) * (\<Sum>i<n. mult i) < 2 ^ 32 \<and> unat min_y = r0 * mult 0 \<and>
        (if whole then r1 = rows else unat max_y = r1 * mult 0) \<and>
        (\<forall>i<n. component_fits (es ! i) (qts ! i) (trunc_info coll ! i) mcuv (mult i) rows r0))"

definition mcu_row_spec :: "(nat \<Rightarrow> nat) \<Rightarrow> nat \<Rightarrow> nat \<Rightarrow> nat \<Rightarrow> RowSpec" where
  "mcu_row_spec mult r i p =
    \<lparr>luma_y = of_nat (r * mult 0 + (if i = 0 then p else 0)), rs_component = i, curr_y = of_nat (r * mult i + p),
     mcu_row_index = of_nat r, last_row_to_complete_mcu = (i = 0 \<and> Suc p = mult 0), skip = False, done_rows = False\<rparr>"

lemma unat_of_nat_u32: "x < 2 ^ 32 \<Longrightarrow> unat (of_nat x :: u32) = x"
  by (simp add: unat_of_nat)

lemma segment_spec:
  assumes seg: "segment_ok es qts coll rows r0 r1 min_y max_y whole"
    and ims: "map original_height ims = map original_height es"
    and heights: "heights = map trunc_bcv (take (components_count coll) (trunc_info coll))"
  defines "mult \<equiv> mcu_rows es (mcu_count_vertical coll)" and "M \<equiv> (\<Sum>j<length es. mcu_rows es (mcu_count_vertical coll) j)"
  assumes i: "i < length es" "p < mult i" and r: "r < rows + 2" and d: "d = r * M + (rows_ahead mult (length es) i + p)"
  shows "\<exists>spec. get_row_spec_from_index (of_nat d) ims (mcu_count_vertical coll) heights = Ok spec \<and>
    (if r < rows then spec = mcu_row_spec mult r i p else skip spec \<and> done_rows spec)"
proof -
  let ?n = "length es" and ?mcuv = "mcu_count_vertical coll"
  note S = seg [unfolded segment_ok_def Let_def, folded mult_def M_def]
  define mw where "mw = map (\<lambda>im. original_height im div ?mcuv) es"
  have len: "length ims = ?n" using ims by (metis length_map)
  have mw: "mw = map (\<lambda>im. original_height im div ?mcuv) ims"
    using ims unfolding mw_def by (metis (mono_tags, lifting) length_map nth_equalityI nth_map)
  have mwi: "mw ! j = of_nat (mult j)" "unat (mw ! j) = mult j" if "j < ?n" for j
    using that by (simp_all add: mw_def mult_def mcu_rows_def)
  have M': "M = (\<Sum>x\<leftarrow>mw. unat x)"
    unfolding M_def mult_def [symmetric] using mwi(2) by (simp add: sum_list_sum_nth mw_def atLeast0LessThan)
  have bound: "(rows + 3) * M < 2 ^ 32" using S by simp
  have Mi: "mult j \<le> M" if "j < ?n" for j
    unfolding M_def mult_def [symmetric] using that by (simp add: member_le_sum)
  have small: "(r + 1) * M < 2 ^ 32" using r bound by (metis (no_types, lifting) add_less_cancel_right
        le_less_trans less_or_eq_imp_le mult_le_mono1 nat_less_le numeral_2_eq_2 numeral_3_eq_3 add_Suc_right Suc_leI Suc_eq_plus1)
  have pos: "0 < M" using S i(1) Mi [of 0] by (simp add: mult_def)
  have rs: "r < 2 ^ 32" using small pos by (metis add.commute add_lessD1 less_le_trans mult.commute mult_le_mono1 nat_mult_1
        One_nat_def Suc_leI plus_1_eq_Suc less_imp_le_nat linorder_not_less lessI)
  have row: "r * mult j + q < 2 ^ 32" if "j < ?n" "q \<le> mult j" for j q
  proof -
    have "r * mult j + q \<le> (r + 1) * M" using that Mi [of j] mult_le_mono2 [of "mult j" M r] unfolding add_mult_distrib by linarith
    then show ?thesis using small by linarith
  qed
  have hl: "length heights = ?n" using S by (simp add: heights)
  have hj: "unat (heights ! j) = mult j * rows" if "j < ?n" for j
  proof -
    have "component_fits (es ! j) (qts ! j) (trunc_info coll ! j) ?mcuv (mult j) rows r0" using S that by blast
    then show ?thesis using S that by (simp add: heights component_fits_def)
  qed
  have ur: "unat (of_nat r :: u32) = r" by (rule unat_of_nat_u32 [OF rs])
  have up: "unat (of_nat p :: u32) = p" using row [OF i(1), of p] i(2) by (simp add: unat_of_nat_u32)
  have ud: "unat (of_nat d :: u32) = d"
  proof (rule unat_of_nat_u32)
    have "rows_ahead mult ?n i + mult i \<le> M" using rows_ahead_total [OF i(1), of mult] by (simp add: M_def mult_def)
    then have "d \<le> (r + 1) * M" using i(2) by (simp add: d)
    then show "d < 2 ^ 32" using small by linarith
  qed
  let ?base = "\<lparr>luma_y = of_nat r * mw ! 0, rs_component = ?n, curr_y = 0, mcu_row_index = of_nat r,
       last_row_to_complete_mcu = False, skip = False, done_rows = False\<rparr>"
  have n: "0 < ?n" "?n \<le> 3" "?mcuv \<noteq> 0" using S by auto
  have "get_row_spec_from_index (of_nat d) ims ?mcuv heights =
      Ok (row_spec_for mw heights (of_nat r) i (of_nat p) ?base)"
  proof (rule get_row_spec_at [OF len n(1,2,3) mw M' hl i(1)])
    show "of_nat p < mw ! i" unfolding word_less_nat_alt mwi(2) [OF i(1)] up by (rule i(2))
    show "(unat (of_nat r :: u32) + 1) * M < 2 ^ 32" using small by (simp add: ur)
    show "unat (of_nat d :: u32) = unat (of_nat r :: u32) * M + ((\<Sum>j\<in>{i<..<?n}. unat (mw ! j)) + unat (of_nat p :: u32))"
      unfolding ur up ud unfolding d rows_ahead_def by (simp add: mwi(2))
  qed
  moreover have y: "of_nat r * mw ! i + of_nat p = (of_nat (r * mult i + p) :: u32)" by (simp add: mwi(1) i(1))
  moreover have y0: "of_nat r * mw ! 0 = (of_nat (r * mult 0) :: u32)" unfolding mwi(1) [OF n(1)] by simp
  moreover have le: "heights ! i \<le> of_nat (r * mult i + p) \<longleftrightarrow> rows \<le> r"
  proof -
    have "mult i * rows \<le> r * mult i + p \<longleftrightarrow> rows \<le> r"
    proof
      assume "mult i * rows \<le> r * mult i + p"
      also have "\<dots> < mult i * Suc r" using i(2) by simp
      finally show "rows \<le> r" by (metis less_Suc_eq_le mult_less_cancel1)
    qed (simp add: mult.commute trans_le_add1)
    moreover have "unat (of_nat (r * mult i + p) :: u32) = r * mult i + p"
      using row [OF i(1), of p] i(2) by (simp only: unat_of_nat_u32 less_imp_le)
    ultimately show ?thesis unfolding word_le_nat_alt hj [OF i(1)] by simp
  qed
  moreover have "(of_nat p + 1 = mw ! i) \<longleftrightarrow> Suc p = mult i"
  proof -
    have "of_nat p + 1 = mw ! i \<longleftrightarrow> (of_nat (Suc p) :: u32) = of_nat (mult i)" by (simp add: mwi(1) i(1) add.commute)
    also have "\<dots> \<longleftrightarrow> Suc p = mult i"
      using row [OF i(1), of "Suc p"] row [OF i(1), of "mult i"] i(2)
      by (metis Suc_leI add_leD2 le_add2 le_less_trans le_refl unat_of_nat_u32)
    finally show ?thesis .
  qed
  moreover have "\<not> of_nat r * mw ! j < heights ! j" if "j < ?n" "rows \<le> r" for j
  proof -
    have "unat (of_nat (r * mult j) :: u32) = r * mult j" using row [OF that(1), of 0] by (intro unat_of_nat_u32) simp
    then show ?thesis using that by (simp add: word_less_nat_alt hj mwi(1) mult.commute)
  qed
  moreover have "length mw = ?n" by (simp add: mw_def)
  ultimately show ?thesis
    by (auto simp: row_spec_for_def Let_def mcu_row_spec_def list_all_iff)
qed

section \<open>The images of the decoder\<close>

text \<open>After the first \<open>d\<close> rows of all components; \<open>caps\<close> are the capacities.\<close>

definition segment_image ::
  "BlockBasedImage \<Rightarrow> nat \<Rightarrow> nat \<Rightarrow> nat \<Rightarrow> BlockBasedImage"
where
  "segment_image e y0 y1 cap =
    \<lparr>block_width = block_width e, original_height = original_height e,
     dpos_offset = of_nat (unat (block_width e) * y0),
     image = map (block_no e) [unat (block_width e) * y0..<unat (block_width e) * y1], capacity = cap\<rparr>"

definition segment_images ::
  "BlockBasedImage list \<Rightarrow> (nat \<Rightarrow> nat) \<Rightarrow> nat \<Rightarrow> (nat \<Rightarrow> nat) \<Rightarrow> nat \<Rightarrow> BlockBasedImage list"
where
  "segment_images es mult r0 caps d =
    map (\<lambda>i. segment_image (es ! i) (r0 * mult i) (max (r0 * mult i) (rows_done mult (length es) d i)) (caps i))
      [0..<length es]"

lemma segment_images_nth:
  "i < length es \<Longrightarrow> segment_images es mult r0 caps d ! i =
    segment_image (es ! i) (r0 * mult i) (max (r0 * mult i) (rows_done mult (length es) d i)) (caps i)"
  by (simp add: segment_images_def)

lemma segment_images_heights:
  "map original_height (segment_images es mult r0 caps d) = map original_height es"
  by (rule nth_equalityI) (simp_all add: segment_images_def segment_image_def)

lemma segment_component:
  assumes "segment_ok es qts coll rows r0 r1 min_y max_y whole" "i < length es"
  shows "component_fits (es ! i) (qts ! i) (trunc_info coll ! i) (mcu_count_vertical coll)
    (mcu_rows es (mcu_count_vertical coll) i) rows r0"
  using assms by (simp add: segment_ok_def Let_def)

lemma component_fits_row:
  assumes "component_fits e qt t mcuv mult rows r0" "y \<le> mult * rows" "rows \<le> unat mcuv"
  shows "unat (block_width e) * y < 2 ^ 32" "unat (block_width e) * y \<le> unat (trunc_bc t)"
proof -
  have "unat (block_width e) * y \<le> unat (block_width e) * (mult * rows)" using assms(2) by simp
  moreover have "unat (block_width e) * (mult * rows) \<le> unat (block_width e) * unat (original_height e)"
    using assms by (simp add: component_fits_def)
  ultimately show "unat (block_width e) * y < 2 ^ 32" "unat (block_width e) * y \<le> unat (trunc_bc t)"
    using assms(1) unfolding component_fits_def by linarith+
qed

definition same_layout :: "BlockBasedImage list \<Rightarrow> ComponentInfo list \<Rightarrow> bool" where
  "same_layout es cmp_info \<longleftrightarrow> length es \<le> length cmp_info \<and>
    (\<forall>i < length es. bch (cmp_info ! i) = block_width (es ! i) \<and> bcv (cmp_info ! i) = original_height (es ! i))"

lemma unat_ucast_u64: "unat (ucast a :: u64) = unat a" for a :: u32
  using unat_lt2p [of a] by (simp add: unat_ucast)

lemma ucast_mult_u64: "unat (ucast a * ucast b :: u64) = unat a * unat b" for a b :: u32
proof -
  have "unat a * unat b < 2 ^ 32 * 2 ^ 32" using unat_lt2p [of a] unat_lt2p [of b] by (intro mult_strict_mono) auto
  then show ?thesis by (simp add: unat_word_ariths unat_ucast_u64)
qed

lemma image_of_segment:
  assumes seg: "segment_ok es qts coll rows r0 r1 min_y max_y whole" and lay: "same_layout es cmp_info"
    and i: "i < length es" and end_y: "r1 * mcu_rows es (mcu_count_vertical coll) 0 \<le> unat end_y"
    and alloc: "\<forall>k. alloc k"
  defines "m \<equiv> mcu_rows es (mcu_count_vertical coll) i"
  shows "\<exists>cap. BlockBasedImage_new alloc cmp_info i min_y end_y = Ok (segment_image (es ! i) (r0 * m) (r0 * m) cap)
    \<and> unat (block_width (es ! i)) * ((r1 - r0) * m) \<le> cap"
proof -
  let ?mcuv = "mcu_count_vertical coll"
  define m0 where "m0 = mcu_rows es ?mcuv 0"
  note S = seg [unfolded segment_ok_def Let_def, folded m0_def]
  let ?W = "block_width (es ! i)" and ?H = "original_height (es ! i)" and ?G = "original_height (es ! 0)"
  have n: "0 < length es" using S by simp
  have fits: "component_fits (es ! i) (qts ! i) (trunc_info coll ! i) ?mcuv m rows r0"
    using segment_component [OF seg i] by (simp add: m_def)
  have H: "unat ?H = m * unat ?mcuv" "unat ?W * unat ?H < 2 ^ 32" using fits unfolding component_fits_def by blast+
  have H0: "unat ?G = m0 * unat ?mcuv"
    using segment_component [OF seg n] by (simp add: component_fits_def m0_def)
  have mcuv: "0 < unat ?mcuv" "0 < m0" "r1 \<le> unat ?mcuv" "r0 \<le> r1" "unat min_y = r0 * m0"
    using S by (auto simp: unat_gt_0)
  have q: "0 < unat ?G" using H0 mcuv by simp
  have size: "unat (?W * ?H) = unat ?W * (m * unat ?mcuv)" using H by (simp add: unat_word_ariths)
  have off: "unat (ucast (?W * ?H) * ucast min_y :: u64) div unat ?G = unat ?W * (r0 * m)"
  proof -
    have "unat (ucast (?W * ?H) * ucast min_y :: u64) = unat ?W * (r0 * m) * unat ?G"
      unfolding ucast_mult_u64 size mcuv(5) H0 by (simp add: ac_simps)
    then show ?thesis using q by simp
  qed
  have off_small: "unat ?W * (r0 * m) < 2 ^ 32"
    using component_fits_row(1) [OF fits, of "r0 * m"] S mult_le_mono1 [of r0 rows m] by (simp add: mult.commute)
  have le: "min_y \<le> end_y" using order_trans [OF mult_le_mono1 [OF mcuv(4), of m0] end_y [folded m0_def]] by (simp add: word_le_nat_alt mcuv(5))
  have len: "(r1 - r0) * m0 \<le> unat (end_y - min_y)"
    using end_y mcuv(5) le by (simp add: unat_sub m0_def [symmetric] diff_mult_distrib)
  let ?x = "unat (ucast (?W * ?H) * ucast (end_y - min_y) :: u64)"
  have x: "?x = unat (?W * ?H) * unat (end_y - min_y)" by (rule ucast_mult_u64)
  have "?x \<le> (2 ^ 32 - 1) * (2 ^ 32 - 1)"
    unfolding x using unat_lt2p [of "?W * ?H"] unat_lt2p [of "end_y - min_y"] by (intro mult_le_mono) auto
  moreover have "unat (?G - 1) \<le> 2 ^ 32 - 1" using unat_lt2p [of "?G - 1"] by simp
  ultimately have "?x + unat (?G - 1) < 2 ^ 64" by simp
  then have sum: "unat (ucast (?W * ?H) * ucast (end_y - min_y) + ucast (?G - 1) :: u64) = ?x + unat (?G - 1)"
    by (simp add: unat_word_ariths unat_ucast_u64)
  define cap where "cap = unat ((ucast (?W * ?H) * ucast (end_y - min_y) + ucast (?G - 1)) div ucast ?G :: u64)"
  have "unat ?W * ((r1 - r0) * m) * unat ?G \<le> ?x"
    unfolding x size H0 using mult_le_mono2 [OF len, of "unat ?W * (m * unat ?mcuv)"] by (simp add: ac_simps)
  then have "unat ?W * ((r1 - r0) * m) * unat ?G \<le> ?x + unat (?G - 1)" by linarith
  from div_le_mono [OF this, of "unat ?G"]
  have "unat ?W * ((r1 - r0) * m) * unat ?G div unat ?G \<le> cap"
    unfolding cap_def unat_div sum unat_ucast_u64 .
  then have cap: "unat ?W * ((r1 - r0) * m) \<le> cap" using q by simp
  have ci: "i < length cmp_info" "0 < length cmp_info" "bch (cmp_info ! i) = ?W" "bcv (cmp_info ! i) = ?H" "bcv (cmp_info ! 0) = ?G"
    using lay i n by (auto simp: same_layout_def)
  have "?G \<noteq> 0" using q by auto
  moreover have "unat ((ucast (?W * ?H) * ucast min_y) div ucast ?G :: u64) = unat ?W * (r0 * m)"
    unfolding unat_div off [symmetric] by (simp add: unat_ucast_u64)
  moreover from this have "(ucast ((ucast (?W * ?H) * ucast min_y) div ucast ?G :: u64) :: u32) = of_nat (unat ?W * (r0 * m))"
    by (simp only: word_unat_eq_iff unat_ucast unat_of_nat)
  ultimately have "BlockBasedImage_new alloc cmp_info i min_y end_y = Ok (segment_image (es ! i) (r0 * m) (r0 * m) cap)"
    using off_small alloc
    by (simp add: BlockBasedImage_new_def idx_in_range [OF ci(1)] idx_in_range [OF ci(2)] ci(3-5)
        Let_def segment_image_def cap_def)
  then show ?thesis using cap by blast
qed

lemma new_images_of:
  assumes "\<And>i. i \<in> set is \<Longrightarrow> BlockBasedImage_new alloc cmp_info i min_y end_y = Ok (f i)"
  shows "new_images alloc cmp_info is min_y end_y = Ok (map f is)"
  using assms by (induction "is") simp_all

section \<open>Rows of a segment\<close>

text \<open>What the callback is told: each MCU row \<open>r\<close>, with all images up to the end of it.\<close>

fun run_callbacks ::
  "(RowSpec \<Rightarrow> BlockBasedImage list \<Rightarrow> 'u \<Rightarrow> 'u result) \<Rightarrow> BlockBasedImage list \<Rightarrow> (nat \<Rightarrow> nat) \<Rightarrow> nat
    \<Rightarrow> (nat \<Rightarrow> nat) \<Rightarrow> nat list \<Rightarrow> 'u \<Rightarrow> 'u result"
where
  "run_callbacks cb es mult r0 caps [] u = Ok u"
| "run_callbacks cb es mult r0 caps (r # rs) u =
    bindR (cb (mcu_row_spec mult r 0 (mult 0 - 1))
            (segment_images es mult r0 caps (Suc r * (\<Sum>j<length es. mult j))) u)
      (run_callbacks cb es mult r0 caps rs)"

text \<open>The state of both coders after \<open>d\<close> rows.\<close>

definition row_state_ok ::
  "BlockBasedImage list \<Rightarrow> (nat \<Rightarrow> nat) \<Rightarrow> nat \<Rightarrow> (nat \<Rightarrow> nat) \<Rightarrow> nat \<Rightarrow> row_state \<Rightarrow> bool"
where
  "row_state_ok es mult r0 caps d = (\<lambda>(is_top, caches, m).
    is_top = map (\<lambda>j. rows_done mult (length es) d j \<le> r0 * mult j) [0..<length es] \<and>
    length caches = length es \<and> (\<forall>j<length es. cache_ok (unat (block_width (es ! j))) (caches ! j)) \<and> model_ok m \<and>
    (\<forall>j<length es. decoded_of (es ! j) (segment_images es mult r0 caps d ! j)))"

lemma segment_image_simps [simp]:
  "block_width (segment_image e y0 y1 cap) = block_width e"
  "capacity (segment_image e y0 y1 cap) = cap"
  "length (image (segment_image e y0 y1 cap)) = unat (block_width e) * y1 - unat (block_width e) * y0"
  by (simp_all add: segment_image_def)

lemma segment_image_end:
  assumes "y0 \<le> y1" "unat (block_width e) * y0 < 2 ^ 32"
  shows "unat (dpos_offset (segment_image e y0 y1 cap)) = unat (block_width e) * y0"
    "end_pos (segment_image e y0 y1 cap) = unat (block_width e) * y1"
proof -
  show off: "unat (dpos_offset (segment_image e y0 y1 cap)) = unat (block_width e) * y0"
    unfolding segment_image_def by (simp only: BlockBasedImage.simps unat_of_nat_u32 [OF assms(2)])
  have "unat (block_width e) * y0 \<le> unat (block_width e) * y1" using assms(1) by simp
  then show "end_pos (segment_image e y0 y1 cap) = unat (block_width e) * y1"
    unfolding end_pos_def off by simp
qed

lemma segment_image_append:
  assumes "y0 \<le> y1"
  shows "append_blocks (segment_image e y0 y1 cap)
      (map (block_no e) [unat (block_width e) * y1..<unat (block_width e) * y1 + unat (block_width e)])
    = segment_image e y0 (Suc y1) cap"
proof -
  let ?W = "unat (block_width e)"
  have "?W * y0 \<le> ?W * y1" using assms by simp
  then have "[?W * y0..<?W * Suc y1] = [?W * y0..<?W * y1] @ [?W * y1..<?W * y1 + ?W]"
    using upt_add_eq_append [of "?W * y0" "?W * y1" ?W] by (simp add: add.commute)
  then show ?thesis by (simp add: append_blocks_def segment_image_def)
qed

lemma rows_done_bound:
  assumes "j < n" "k \<le> (\<Sum>j<n. mult j)" "0 < (\<Sum>j<n. mult j)"
  shows "rows_done mult n (r * (\<Sum>j<n. mult j) + k) j \<le> Suc r * mult j"
  using rows_done_at [OF assms, of r] by simp

lemma row_state_ok_skip:
  assumes "\<forall>j<length es. rows_done mult (length es) d j \<le> r0 * mult j \<and> rows_done mult (length es) d' j \<le> r0 * mult j"
  shows "segment_images es mult r0 caps d' = segment_images es mult r0 caps d"
    "row_state_ok es mult r0 caps d' = row_state_ok es mult r0 caps d"
proof -
  show i: "segment_images es mult r0 caps d' = segment_images es mult r0 caps d"
    using assms by (simp add: segment_images_def max_absorb1)
  have "map (\<lambda>j. rows_done mult (length es) d' j \<le> r0 * mult j) [0..<length es]
    = map (\<lambda>j. rows_done mult (length es) d j \<le> r0 * mult j) [0..<length es]"
    using assms by simp
  then show "row_state_ok es mult r0 caps d' = row_state_ok es mult r0 caps d"
    unfolding row_state_ok_def i by presburger
qed

lemma mcu_row_spec_simps [simp]:
  "done_rows (mcu_row_spec mult r i p) = False" "skip (mcu_row_spec mult r i p) = False"
  by (simp_all add: mcu_row_spec_def)

lemma segment_luma:
  assumes "segment_ok es qts coll rows r0 r1 min_y max_y whole" "mult = mcu_rows es (mcu_count_vertical coll)"
    "r \<le> rows" "i < length es" "p < mult i"
  shows "unat (luma_y (mcu_row_spec mult r i p)) = r * mult 0 + (if i = 0 then p else 0)"
proof -
  note S = assms(1) [unfolded segment_ok_def Let_def, folded assms(2)]
  have "mult 0 \<le> (\<Sum>j<length es. mult j)" using assms(4) by (intro member_le_sum) auto
  then have "(rows + 3) * mult 0 < 2 ^ 32" using S mult_le_mono2 [of "mult 0" _ "rows + 3"] by (metis le_less_trans)
  moreover have "r * mult 0 \<le> rows * mult 0" using assms(3) by simp
  moreover have "(if i = 0 then p else 0) \<le> mult 0" using assms(5) by auto
  ultimately have "r * mult 0 + (if i = 0 then p else 0) < 2 ^ 32" unfolding add_mult_distrib by linarith
  then show ?thesis unfolding mcu_row_spec_def RowSpec.simps by (rule unat_of_nat_u32)
qed

text \<open>The order of the rows depends on the heights of the images only.\<close>

lemma get_row_spec_cong:
  assumes "map original_height a = map original_height b"
  shows "get_row_spec_from_index d a mcuv heights = get_row_spec_from_index d b mcuv heights"
proof -
  have "length a = length b" using assms by (metis length_map)
  moreover have "map get_original_height a = map get_original_height b"
    using assms by (simp add: get_original_height_def [abs_def])
  ultimately show ?thesis by (simp add: get_row_spec_from_index_def)
qed

text \<open>Where the loops stand: what they do with row \<open>d\<close>.\<close>

lemma segment_step:
  assumes seg: "segment_ok es qts coll rows r0 r1 min_y max_y whole"
    and m: "mult = mcu_rows es (mcu_count_vertical coll)" and M: "M = (\<Sum>j<length es. mult j)"
    and heights: "heights = map trunc_bcv (take (components_count coll) (trunc_info coll))"
    and ims: "map original_height ims = map original_height es"
    and d: "d \<le> r1 * M"
  shows "if d = r1 * M then
      \<exists>spec. get_row_spec_from_index (of_nat d) ims (mcu_count_vertical coll) heights = Ok spec \<and>
        (done_rows spec \<or> max_y \<le> luma_y spec \<and> \<not> whole)
    else \<exists>r i p. r < r1 \<and> i < length es \<and> p < mult i \<and> d = r * M + (rows_ahead mult (length es) i + p) \<and>
      get_row_spec_from_index (of_nat d) ims (mcu_count_vertical coll) heights = Ok (mcu_row_spec mult r i p) \<and>
      \<not> (max_y \<le> luma_y (mcu_row_spec mult r i p) \<and> \<not> whole) \<and>
      (luma_y (mcu_row_spec mult r i p) < min_y \<longleftrightarrow> r < r0)"
proof -
  note S = seg [unfolded segment_ok_def Let_def, folded m]
  have n: "0 < length es" "0 < mult 0" "r1 \<le> rows" "unat min_y = r0 * mult 0" using S by auto
  have pos: "0 < M" using n(1,2) member_le_sum [of 0 "{..<length es}" mult] by (auto simp: M)
  have max: "unat max_y = r1 * mult 0" if "\<not> whole" using S that by simp
  note spec = segment_spec [OF seg ims heights, folded m, folded M]
  note luma = segment_luma [OF seg m]
  show ?thesis
  proof (cases "d = r1 * M")
    case True
    obtain i p where ip: "i < length es" "p < mult i" "0 = rows_ahead mult (length es) i + p"
      using row_in_mcu [of 0 mult "length es"] pos by (auto simp: M)
    then have "d = r1 * M + (rows_ahead mult (length es) i + p)" using True by simp
    from spec [OF ip(1,2) _ this] n(3) obtain sp where
      sp: "get_row_spec_from_index (of_nat d) ims (mcu_count_vertical coll) heights = Ok sp"
      "if r1 < rows then sp = mcu_row_spec mult r1 i p else skip sp \<and> done_rows sp" by auto
    have "done_rows sp \<or> max_y \<le> luma_y sp \<and> \<not> whole"
    proof (cases "r1 < rows")
      case True
      then have "\<not> whole" using S by auto
      then show ?thesis using sp(2) True luma [OF n(3) ip(1,2)] max by (simp add: word_le_nat_alt)
    qed (use sp(2) in auto)
    then show ?thesis using True sp(1) by auto
  next
    case False
    then have "d < r1 * M" using d by simp
    then have r: "d div M < r1" using pos by (simp add: div_less_iff_less_mult)
    obtain i p where ip: "i < length es" "p < mult i" "d mod M = rows_ahead mult (length es) i + p"
      using row_in_mcu [of "d mod M" mult "length es"] pos by (auto simp: M)
    have dd: "d = d div M * M + (rows_ahead mult (length es) i + p)" using ip(3) by (metis div_mult_mod_eq)
    have rr: "d div M < rows + 2" "d div M < rows" "d div M \<le> rows" using r n(3) by auto
    have lu: "unat (luma_y (mcu_row_spec mult (d div M) i p)) < Suc (d div M) * mult 0"
      "d div M * mult 0 \<le> unat (luma_y (mcu_row_spec mult (d div M) i p))"
      using luma [OF rr(3) ip(1,2)] ip(2) n(2) by (simp_all split: if_splits)
    have "\<not> (max_y \<le> luma_y (mcu_row_spec mult (d div M) i p) \<and> \<not> whole)"
    proof
      assume "max_y \<le> luma_y (mcu_row_spec mult (d div M) i p) \<and> \<not> whole"
      then have "r1 * mult 0 \<le> unat (luma_y (mcu_row_spec mult (d div M) i p))" using max by (simp add: word_le_nat_alt)
      moreover have "Suc (d div M) * mult 0 \<le> r1 * mult 0" using r by (intro mult_le_mono1) simp
      ultimately show False using lu(1) by linarith
    qed
    moreover have "luma_y (mcu_row_spec mult (d div M) i p) < min_y \<longleftrightarrow> d div M < r0"
    proof
      assume "luma_y (mcu_row_spec mult (d div M) i p) < min_y"
      then have "d div M * mult 0 < r0 * mult 0" using lu(2) n(4) unfolding word_less_nat_alt by linarith
      then show "d div M < r0" by simp
    next
      assume "d div M < r0"
      then have "Suc (d div M) * mult 0 \<le> r0 * mult 0" by (intro mult_le_mono1) simp
      then show "luma_y (mcu_row_spec mult (d div M) i p) < min_y" using lu(1) n(4) by (simp add: word_less_nat_alt)
    qed
    ultimately show ?thesis using False spec [OF ip(1,2) rr(1) dd] rr(2) r ip dd by auto
  qed
qed

text \<open>The start.\<close>

lemma initial_row_state_ok:
  assumes seg: "segment_ok es qts coll rows r0 r1 min_y max_y whole"
    and m: "mult = mcu_rows es (mcu_count_vertical coll)"
  shows "row_state_ok es mult r0 caps 0 (initial_row_state es)"
    "initial_row_state (segment_images es mult r0 caps d) = initial_row_state es"
    "segment_images es mult r0 caps 0 = map (\<lambda>i. segment_image (es ! i) (r0 * mult i) (r0 * mult i) (caps i)) [0..<length es]"
proof -
  note S = seg [unfolded segment_ok_def Let_def, folded m]
  have none: "rows_done mult (length es) 0 j = 0" for j by (simp add: rows_done_def)
  show imgs: "segment_images es mult r0 caps 0 = map (\<lambda>i. segment_image (es ! i) (r0 * mult i) (r0 * mult i) (caps i)) [0..<length es]"
    by (simp add: segment_images_def none)
  have widths: "map block_width (segment_images es mult r0 caps d) = map block_width es"
    by (rule nth_equalityI) (simp_all add: segment_images_def)
  have len: "length (segment_images es mult r0 caps d) = length es" by (simp add: segment_images_def)
  show "initial_row_state (segment_images es mult r0 caps d) = initial_row_state es"
  proof -
    have "map (\<lambda>im. replicate (unat (push_bit 1 (block_width im))) NEIGHBOR_DATA_EMPTY) ims
      = map (\<lambda>w. replicate (unat (push_bit 1 w)) NEIGHBOR_DATA_EMPTY) (map block_width ims)" for ims
      by simp
    then show ?thesis using widths len unfolding initial_row_state_def get_block_width_def
      by (metis map_replicate_const)
  qed
  have comp: "cache_ok (unat (block_width (es ! j))) (replicate (unat (push_bit 1 (block_width (es ! j)))) NEIGHBOR_DATA_EMPTY)"
    "decoded_of (es ! j) (segment_images es mult r0 caps 0 ! j)" if j: "j < length es" for j
  proof -
    have fits: "component_fits (es ! j) (qts ! j) (trunc_info coll ! j) (mcu_count_vertical coll) (mult j) rows r0"
      using segment_component [OF seg j] by (simp add: m)
    then have "2 * unat (block_width (es ! j)) < 2 ^ 32" unfolding component_fits_def by blast
    then show "cache_ok (unat (block_width (es ! j))) (replicate (unat (push_bit 1 (block_width (es ! j)))) NEIGHBOR_DATA_EMPTY)"
      by (simp add: cache_ok_def summary_ok_empty push_bit_eq_mult unat_word_ariths)
    have "unat (block_width (es ! j)) * (r0 * mult j) < 2 ^ 32"
      by (rule component_fits_row(1) [OF fits]) (use S in \<open>auto simp: mult.commute\<close>)
    from segment_image_end(1) [OF order_refl this, of "caps j"] fits
    show "decoded_of (es ! j) (segment_images es mult r0 caps 0 ! j)"
      using j by (simp add: imgs decoded_of_def component_fits_def mult.commute)
  qed
  show "row_state_ok es mult r0 caps 0 (initial_row_state es)"
    using comp by (simp add: row_state_ok_def initial_row_state_def none model_ok_default get_block_width_def map_replicate_const)
qed

definition segment_caps :: "(nat \<Rightarrow> bool) \<Rightarrow> ComponentInfo list \<Rightarrow> u32 \<Rightarrow> u32 \<Rightarrow> nat \<Rightarrow> nat" where
  "segment_caps alloc cmp_info min_y end_y i =
    (case BlockBasedImage_new alloc cmp_info i min_y end_y of Inl e \<Rightarrow> 0 | Inr im \<Rightarrow> capacity im)"

context simd_laws
begin

lemma codes_row_step:
  assumes seg: "segment_ok es qts coll rows r0 r1 min_y max_y whole"
    and sizes: "sizes = map trunc_bc (take (components_count coll) (trunc_info coll))"
    and m: "mult = mcu_rows es (mcu_count_vertical coll)"
    and i: "i < length es" "p < mult i" and r: "r0 \<le> r" "r < r1"
    and d: "d = r * (\<Sum>j<length es. mult j) + (rows_ahead mult (length es) i + p)"
    and caps: "\<forall>j<length es. unat (block_width (es ! j)) * ((r1 - r0) * mult j) \<le> caps j"
    and st: "row_state_ok es mult r0 caps d (is_top, caches, md)"
    and cb: "(if i = 0 \<and> Suc p = mult 0
              then cb (mcu_row_spec mult r i p) (segment_images es mult r0 caps (Suc d)) u else Ok u) = Ok u1"
  shows "codes_if False
    (encode_row_step S qts es sizes features (mcu_row_spec mult r i p) (is_top, caches, md))
    (decode_row_step S qts sizes features cb (mcu_row_spec mult r i p)
      (segment_images es mult r0 caps d, u) (is_top, caches, md))
    (segment_images es mult r0 caps (Suc d), u1) (row_state_ok es mult r0 caps (Suc d))"
proof -
  let ?n = "length es" and ?e = "es ! i" and ?W = "unat (block_width (es ! i))"
  let ?ims = "segment_images es mult r0 caps d"
  define y where "y = r * mult i + p"
  note S = seg [unfolded segment_ok_def Let_def, folded m]
  note T = st [unfolded row_state_ok_def prod.case]
  have Sr: "r1 \<le> rows" "rows \<le> unat (mcu_count_vertical coll)" "components_count coll = ?n"
    "?n \<le> length (trunc_info coll)" "?n \<le> length qts" using S by auto
  have fits: "component_fits ?e (qts ! i) (trunc_info coll ! i) (mcu_count_vertical coll) (mult i) rows r0"
    using segment_component [OF seg i(1)] by (simp add: m)
  have done_i: "rows_done mult ?n d i = y" "rows_done mult ?n (Suc d) i = Suc y"
    and done_j: "\<And>j. j < ?n \<Longrightarrow> j \<noteq> i \<Longrightarrow> rows_done mult ?n (Suc d) j = rows_done mult ?n d j"
    using rows_done_step [OF i(1,2) _ d] i(1) by (simp_all add: y_def)
  have le: "r0 * mult i \<le> y" using mult_le_mono1 [OF r(1), of "mult i"] unfolding y_def by linarith
  have last: "Suc y \<le> r1 * mult i"
  proof -
    have "Suc r * mult i \<le> r1 * mult i" using r(2) by (intro mult_le_mono1) simp
    then show ?thesis using i(2) by (simp add: y_def)
  qed
  have rows: "Suc y \<le> mult i * rows"
    using order_trans [OF last mult_le_mono1 [OF Sr(1), of "mult i"]] by (simp only: mult.commute)
  have ims_i: "?ims ! i = segment_image ?e (r0 * mult i) y (caps i)"
    "segment_images es mult r0 caps (Suc d) ! i = segment_image ?e (r0 * mult i) (Suc y) (caps i)"
    using le i(1) by (simp_all add: segment_images_nth done_i max_def)
  have ims_j: "segment_images es mult r0 caps (Suc d) = ?ims[i := segment_image ?e (r0 * mult i) (Suc y) (caps i)]"
  proof (rule nth_equalityI)
    fix j
    assume "j < length (segment_images es mult r0 caps (Suc d))"
    then have "j < ?n" by (simp add: segment_images_def)
    then show "segment_images es mult r0 caps (Suc d) ! j = ?ims[i := segment_image ?e (r0 * mult i) (Suc y) (caps i)] ! j"
      using ims_i(2) by (cases "j = i") (simp_all add: segment_images_nth done_j, simp add: segment_images_def)
  qed (simp add: segment_images_def)
  have small: "?W * y < 2 ^ 32" "?W * Suc y < 2 ^ 32" "?W * Suc y \<le> unat (trunc_bc (trunc_info coll ! i))"
    "?W * (r0 * mult i) < 2 ^ 32"
    using component_fits_row [OF fits _ Sr(2)] rows Suc_leD [OF rows] order_trans [OF le Suc_leD [OF rows]] by blast+
  have y32: "unat (of_nat y :: u32) = y"
  proof (rule unat_of_nat_u32)
    have "Suc y \<le> mult i * unat (mcu_count_vertical coll)"
      by (rule order_trans [OF rows mult_le_mono2 [OF Sr(2)]])
    also have "\<dots> = unat (original_height ?e)" using fits by (simp add: component_fits_def)
    finally show "y < 2 ^ 32" using unat_lt2p [of "original_height ?e"] by simp
  qed
  have top_i: "is_top ! i \<longleftrightarrow> y = r0 * mult i" using T i(1) le by (simp add: done_i)
  have len: "length is_top = ?n" "length caches = ?n" "i < length qts" "i < length sizes" "length ?ims = ?n"
    using T Sr i(1) by (simp_all add: sizes segment_images_def)
  have size_i: "sizes ! i = trunc_bc (trunc_info coll ! i)" using Sr i(1) by (simp add: sizes)
  have img: "unat (dpos_offset (?ims ! i)) = ?W * (r0 * mult i)" "end_pos (?ims ! i) = ?W * y"
    using segment_image_end [OF le small(4), of "caps i"] by (simp_all add: ims_i)
  have lenimg: "length (image (?ims ! i)) = ?W * y - ?W * (r0 * mult i)" by (simp add: ims_i)
  obtain l mid where lm: "models_of_row (is_top ! i) = (l, mid)" by fastforce
  have models: "models_for (is_top ! i) l mid"
    using lm by (auto simp: models_of_row_def models_for_def split: if_splits)
  let ?k = "row_count ?W (?W * unat (of_nat y :: u32)) (unat (sizes ! i))"
  have k: "?k = ?W" unfolding y32 size_i by (rule row_count_full) (use small(3) in \<open>simp add: add.commute\<close>)
  have cap: "length (image (?ims ! i)) + ?W \<le> capacity (?ims ! i)"
  proof -
    have "?W * Suc y - ?W * (r0 * mult i) \<le> ?W * ((r1 - r0) * mult i)"
    proof -
      have "Suc y - r0 * mult i \<le> (r1 - r0) * mult i" using last by (simp add: diff_mult_distrib)
      from mult_le_mono2 [OF this, of ?W] show ?thesis by (simp only: diff_mult_distrib2)
    qed
    moreover have "?W * (r0 * mult i) \<le> ?W * y" using le by simp
    ultimately have "?W * y - ?W * (r0 * mult i) + ?W \<le> ?W * ((r1 - r0) * mult i)"
      unfolding mult_Suc_right by linarith
    then show ?thesis using caps i(1) unfolding lenimg by (simp add: ims_i) (meson order_trans)
  qed
  have row: "codes_if False
      (process_row S l mid (get_color_index i) ?e (qts ! i) (of_nat y) (sizes ! i) features (caches ! i, md))
      (decode_row_wrapper S l mid (get_color_index i) (qts ! i) (of_nat y) (sizes ! i) features (?ims ! i) (caches ! i, md))
      (append_blocks (?ims ! i) (map (block_no ?e) [?W * y..<?W * y + ?W]))
      (\<lambda>(cache, md). cache_ok ?W cache \<and> model_ok md \<and> (\<forall>k < ?W. ac_ok (block_no ?e (?W * y + k))))"
  proof -
    have "image_ok ?e" "tables_ok (qts ! i)" "2 * ?W < 2 ^ 32" using fits unfolding component_fits_def by blast+
    moreover have "get_color_index i < 2" by (simp add: get_color_index_def)
    moreover have "decoded_of ?e (?ims ! i)" "cache_ok ?W (caches ! i)" "model_ok md" using T i(1) by auto
    moreover have "\<not> is_top ! i \<Longrightarrow> ?W \<le> length (image (?ims ! i))"
    proof -
      assume "\<not> is_top ! i"
      then have "Suc (r0 * mult i) \<le> y" using top_i le by simp
      then have "?W * Suc (r0 * mult i) \<le> ?W * y" by (intro mult_le_mono2)
      then show "?W \<le> length (image (?ims ! i))" unfolding lenimg by simp
    qed
    ultimately show ?thesis
      using codes_row [OF _ models _ _ _ cap, of "qts ! i" "get_color_index i" "of_nat y" "caches ! i" md ?k "sizes ! i" features]
        img small unfolding y32 k [unfolded y32] by (simp add: add.commute)
  qed
  have app: "append_blocks (?ims ! i) (map (block_no ?e) [?W * y..<?W * y + ?W]) = segment_image ?e (r0 * mult i) (Suc y) (caps i)"
    using segment_image_append [OF le, of ?e "caps i"] by (simp add: ims_i)
  have spec: "rs_component (mcu_row_spec mult r i p) = i" "curr_y (mcu_row_spec mult r i p) = of_nat y"
    "last_row_to_complete_mcu (mcu_row_spec mult r i p) = (i = 0 \<and> Suc p = mult 0)"
    by (simp_all add: mcu_row_spec_def y_def)
  let ?G = "\<lambda>(im, s, rd :: VPXBoolReader). bindR (if i = 0 \<and> Suc p = mult 0 then cb (mcu_row_spec mult r i p) (?ims[i := im]) u else Ok u)
      (\<lambda>u. Ok ((?ims[i := im], u), (is_top[i := False], caches[i := fst s], snd s), rd))"
  have "codes_if False
      (\<lambda>w. bindR (process_row S l mid (get_color_index i) ?e (qts ! i) (of_nat y) (sizes ! i) features (caches ! i, md) w)
        (\<lambda>(s, w). bindR (flush_non_final_data w) (\<lambda>w. Ok ((is_top[i := False], caches[i := fst s], snd s), w))))
      (\<lambda>r. bindR (decode_row_wrapper S l mid (get_color_index i) (qts ! i) (of_nat y) (sizes ! i) features (?ims ! i) (caches ! i, md) r) ?G)
      (segment_images es mult r0 caps (Suc d), u1) (row_state_ok es mult r0 caps (Suc d))"
  proof (rule codes_if_flush [OF row], goal_cases)
    case (1 s)
    have "is_top[i := False] = map (\<lambda>j. rows_done mult ?n (Suc d) j \<le> r0 * mult j) [0..<?n]"
    proof (rule nth_equalityI)
      fix j
      assume "j < length (is_top[i := False])"
      then have "j < ?n" by (simp add: len)
      then show "is_top[i := False] ! j = map (\<lambda>j. rows_done mult ?n (Suc d) j \<le> r0 * mult j) [0..<?n] ! j"
        using T le by (cases "j = i") (simp_all add: done_i done_j)
    qed (simp add: len)
    moreover have "decoded_of ?e (segment_images es mult r0 caps (Suc d) ! i)"
      using decoded_of_append_blocks [of ?e "?ims ! i" ?W] T i(1) 1 unfolding img(2) app ims_i(2) by (auto simp: case_prod_beta')
    moreover have "decoded_of (es ! j) (segment_images es mult r0 caps (Suc d) ! j)" if "j < ?n" "j \<noteq> i" for j
      using T that by (simp add: segment_images_nth done_j)
    moreover have "cache_ok (unat (block_width (es ! j))) (caches[i := fst s] ! j)" if "j < ?n" for j
      using T 1 that len by (cases "j = i") (simp_all add: case_prod_beta')
    ultimately show ?case
      using T 1 unfolding row_state_ok_def by (auto simp: case_prod_beta' len)
  next
    case (2 s r)
    show ?case unfolding prod.case app ims_j [symmetric] cb bindR.simps by (rule refl)
  qed
  then show ?thesis
    unfolding encode_row_step_def decode_row_step_def prod.case Let_def spec
      idx_in_range [OF i(1)] idx_in_range [of i is_top, unfolded len, OF i(1)] idx_in_range [of i caches, unfolded len, OF i(1)]
      idx_in_range [OF len(3)] idx_in_range [OF len(4)] idx_in_range [of i ?ims, unfolded len, OF i(1)] bindR.simps lm
    by (simp add: case_prod_beta')
qed

lemma codes_rows:
  assumes seg: "segment_ok es qts coll rows r0 r1 min_y max_y whole"
    and m: "mult = mcu_rows es (mcu_count_vertical coll)" and M: "M = (\<Sum>j<length es. mult j)"
    and heights: "heights = map trunc_bcv (take (components_count coll) (trunc_info coll))"
    and sizes: "sizes = map trunc_bc (take (components_count coll) (trunc_info coll))"
    and caps: "\<forall>j<length es. unat (block_width (es ! j)) * ((r1 - r0) * mult j) \<le> caps j"
    and d: "d \<le> r1 * M" and st: "row_state_ok es mult r0 caps d s"
    and cb: "run_callbacks cb es mult r0 caps [max r0 (d div M)..<r1] u = Ok u'"
  shows "codes_if False
    (\<lambda>w. ended (encode_rows f S qts es (mcu_count_vertical coll) sizes heights min_y max_y whole features (of_nat d) s w))
    (\<lambda>r. ended (decode_rows f S qts (mcu_count_vertical coll) sizes heights min_y max_y whole features cb (of_nat d)
      (segment_images es mult r0 caps d, u) s r))
    (segment_images es mult r0 caps (r1 * M), u') (\<lambda>(index, s). index = of_nat (Suc (r1 * M)))"
  using d st cb
proof (induction f arbitrary: d s u)
  case 0
  then show ?case by (intro codes_if_fails) simp_all
next
  case (Suc f)
  note S = seg [unfolded segment_ok_def Let_def, folded m]
  have r0r1: "r0 \<le> r1" using S by simp
  have pos: "0 < M" using S member_le_sum [of 0 "{..<length es}" mult] by (auto simp: M)
  note step = segment_step [OF seg m M heights refl Suc.prems(1)]
  note same_spec = get_row_spec_cong [OF segment_images_heights, of _ es mult r0 caps d]
  have one: "of_nat d + 1 = (of_nat (Suc d) :: u32)" by simp
  show ?case
  proof (cases "d = r1 * M")
    case True
    obtain a where a: "get_row_spec_from_index (of_nat d) es (mcu_count_vertical coll) heights = Ok a"
      "done_rows a \<or> max_y \<le> luma_y a \<and> \<not> whole"
      using step True by auto
    have "max r0 (d div M) = r1" using True pos r0r1 by simp
    then have "u' = u" using Suc.prems(3) by simp
    then show ?thesis
      unfolding encode_rows.simps decode_rows.simps fst_conv same_spec a(1) bindF_simps Let_def if_P [OF a(2)] ended_simps one
      using True by (simp add: codes_if_to codes_to_Ok)
  next
    case False
    then obtain r i p where rip: "r < r1" "i < length es" "p < mult i" "d = r * M + (rows_ahead mult (length es) i + p)"
      and e: "get_row_spec_from_index (of_nat d) es (mcu_count_vertical coll) heights = Ok (mcu_row_spec mult r i p)"
      and go: "\<not> (max_y \<le> luma_y (mcu_row_spec mult r i p) \<and> \<not> whole)"
        "luma_y (mcu_row_spec mult r i p) < min_y \<longleftrightarrow> r < r0"
      using step by auto
    have k: "rows_ahead mult (length es) i + p < M" using rows_ahead_total [OF rip(2), of mult] rip(3) by (simp add: M)
    then have div: "d div M = r" unfolding rip(4) by simp
    have next_le: "Suc d \<le> r1 * M"
      using Suc.prems(1) False by simp
    note enc = encode_rows.simps(2) and dec = decode_rows.simps(2)
    have go': "\<not> (done_rows (mcu_row_spec mult r i p) \<or> max_y \<le> luma_y (mcu_row_spec mult r i p) \<and> \<not> whole)"
      using go(1) by simp
    show ?thesis
    proof (cases "r < r0")
      case True
      then have sk: "skip (mcu_row_spec mult r i p) \<or> luma_y (mcu_row_spec mult r i p) < min_y" using go(2) by simp
      have "\<forall>j<length es. rows_done mult (length es) d j \<le> r0 * mult j \<and> rows_done mult (length es) (Suc d) j \<le> r0 * mult j"
      proof (intro allI impI)
        fix j
        assume j: "j < length es"
        have "rows_done mult (length es) (r * M + k) j \<le> r0 * mult j" if "k \<le> M" for k
          using rows_done_bound [OF j, of k mult r] that pos mult_le_mono1 [of "Suc r" r0 "mult j"] True unfolding M by simp
        from this [of "rows_ahead mult (length es) i + p"] this [of "Suc (rows_ahead mult (length es) i + p)"] k
        show "rows_done mult (length es) d j \<le> r0 * mult j \<and> rows_done mult (length es) (Suc d) j \<le> r0 * mult j"
          unfolding rip(4) by simp
      qed
      note same = row_state_ok_skip [OF this, where caps = caps]
      have "Suc d \<le> Suc r * M" using k unfolding rip(4) by simp
      also have "\<dots> \<le> r0 * M" using True by (intro mult_le_mono1) simp
      finally have "Suc d div M \<le> r0" using div_le_mono [of "Suc d" "r0 * M" M] pos by simp
      then have "max r0 (Suc d div M) = max r0 (d div M)" using True div by simp
      then have "run_callbacks cb es mult r0 caps [max r0 (Suc d div M)..<r1] u = Ok u'" using Suc.prems(3) by simp
      from Suc.IH [OF next_le _ this, of s] Suc.prems(2)
      show ?thesis
        unfolding enc dec fst_conv same_spec e bindF_simps Let_def if_not_P [OF go'] if_P [OF sk] one same .
    next
      case False
      then have sk: "\<not> (skip (mcu_row_spec mult r i p) \<or> luma_y (mcu_row_spec mult r i p) < min_y)" using go(2) by simp
      let ?last = "i = 0 \<and> Suc p = mult 0"
      have "\<exists>u1. (if ?last then cb (mcu_row_spec mult r i p) (segment_images es mult r0 caps (Suc d)) u else Ok u) = Ok u1
        \<and> run_callbacks cb es mult r0 caps [max r0 (Suc d div M)..<r1] u1 = Ok u'"
      proof (cases ?last)
        case True
        have "{..<length es} = insert 0 {0<..<length es}" using rip(2) True by auto
        then have "M = sum mult (insert 0 {0<..<length es})" by (simp only: M)
        then have "rows_ahead mult (length es) 0 + mult 0 = M" by (simp add: rows_ahead_def)
        then have eol: "Suc d = Suc r * M" using True unfolding rip(4) by simp
        then have "max r0 (Suc d div M) = Suc r" using False pos by (simp del: mult_Suc)
        moreover have "[max r0 (d div M)..<r1] = r # [Suc r..<r1]" using False rip(1) by (simp add: div upt_conv_Cons)
        moreover have "p = mult 0 - 1" using True by arith
        ultimately show ?thesis using Suc.prems(3) True eol by (auto simp: M [symmetric] simp del: mult_Suc)
      next
        case not_last: False
        have "Suc (rows_ahead mult (length es) i + p) < M"
        proof (cases "i = 0")
          case True
          then show ?thesis using rows_ahead_total [OF rip(2), of mult] rip(3) not_last by (simp add: M)
        next
          case False
          then have "rows_ahead mult (length es) i + mult i \<le> rows_ahead mult (length es) 0"
            using rows_ahead_less [of 0 i "length es" mult] rip(2) by simp
          moreover have "rows_ahead mult (length es) 0 + mult 0 \<le> M"
            unfolding M by (rule rows_ahead_total) (use rip(2) in linarith)
          ultimately show ?thesis using rip(3) S by linarith
        qed
        then have "Suc d div M = r" using div_mult_self3 [of M r "Suc (rows_ahead mult (length es) i + p)"] pos
          by (simp add: rip(4))
        then show ?thesis using Suc.prems(3) not_last div by auto
      qed
      then obtain u1 where u1: "(if ?last then cb (mcu_row_spec mult r i p) (segment_images es mult r0 caps (Suc d)) u else Ok u) = Ok u1"
        "run_callbacks cb es mult r0 caps [max r0 (Suc d div M)..<r1] u1 = Ok u'" by blast
      obtain is_top caches md where s: "s = (is_top, caches, md)" by (cases s) auto
      have r: "r0 \<le> r" using False by simp
      note row = codes_row_step [where cb = cb and u = u, OF seg sizes m rip(2,3) r rip(1) rip(4) [unfolded M] caps Suc.prems(2) [unfolded s] u1(1), of features]
      show ?thesis
        unfolding enc dec fst_conv same_spec e bindF_simps Let_def if_not_P [OF go'] if_not_P [OF sk] one ended_bindF ended_simps s
      proof (rule codes_if_bind' [OF row], goal_cases)
        case (1 s)
        show ?case unfolding prod.case by (rule Suc.IH [OF next_le 1 u1(2)])
      qed
    qed
  qed
qed

lemma range_decodes:
  assumes seg: "segment_ok es qts coll rows r0 r1 min_y max_y (is_last \<and> full)"
    and lay: "same_layout es cmp_info" and alloc: "\<forall>k. alloc k"
    and m: "mult = mcu_rows es (mcu_count_vertical coll)"
    and caps: "caps = segment_caps alloc cmp_info min_y (if is_last then bcv (cmp_info ! 0) else max_y)"
    and cb: "run_callbacks cb es mult r0 caps [r0..<r1] u = Ok u'"
    and enc: "lepton_encode_row_range fuel S qts es coll min_y max_y is_last full features = Some (Ok c)"
  shows "lepton_decode_row_range fuel S alloc qts cmp_info (length es) coll c min_y max_y is_last full features cb u
    = Some (Ok (segment_images es mult r0 caps (r1 * (\<Sum>j<length es. mult j)), u'))"
proof -
  note S = seg [unfolded segment_ok_def Let_def, folded m]
  let ?whole = "is_last \<and> full"
  define M where "M = (\<Sum>j<length es. mult j)"
  define heights where "heights = map trunc_bcv (take (components_count coll) (trunc_info coll))"
  define sizes where "sizes = map trunc_bc (take (components_count coll) (trunc_info coll))"
  let ?bottom = "if is_last then bcv (cmp_info ! 0) else max_y"
  have n: "0 < length es" "0 < length cmp_info" using S lay by (auto simp: same_layout_def)
  have "r1 * mult 0 \<le> unat ?bottom"
  proof (cases is_last)
    case True
    have "unat (bcv (cmp_info ! 0)) = mult 0 * unat (mcu_count_vertical coll)"
      using lay n S by (auto simp: same_layout_def component_fits_def)
    moreover have "r1 \<le> unat (mcu_count_vertical coll)" using S by simp
    ultimately show ?thesis using True by simp
  qed (use S in simp)
  then have new: "\<exists>cap. BlockBasedImage_new alloc cmp_info i min_y ?bottom = Ok (segment_image (es ! i) (r0 * mult i) (r0 * mult i) cap)
      \<and> unat (block_width (es ! i)) * ((r1 - r0) * mult i) \<le> cap" if "i < length es" for i
    using image_of_segment [OF seg lay that _ alloc, of ?bottom] by (simp add: m)
  have new': "BlockBasedImage_new alloc cmp_info i min_y ?bottom = Ok (segment_image (es ! i) (r0 * mult i) (r0 * mult i) (caps i))"
    "unat (block_width (es ! i)) * ((r1 - r0) * mult i) \<le> caps i" if "i < length es" for i
    using new [OF that] by (auto simp: caps segment_caps_def)
  note init = initial_row_state_ok [OF seg m]
  have images: "new_images alloc cmp_info [0..<length es] min_y ?bottom = Ok (segment_images es mult r0 caps 0)"
    unfolding init(3) by (rule new_images_of) (use new'(1) in simp)
  have hs: "get_max_coded_heights coll = Ok heights" "get_component_sizes_in_blocks coll = Ok sizes"
    using S by (simp_all add: get_max_coded_heights_def get_component_sizes_in_blocks_def heights_def sizes_def)
  have "run_callbacks cb es mult r0 caps [max r0 (0 div M)..<r1] u = Ok u'" using cb by simp
  from codes_rows [OF seg m M_def heights_def sizes_def _ _ init(1) this, of fuel features] new'(2)
  have codes: "codes_if False
    (\<lambda>w. ended (encode_rows fuel S qts es (mcu_count_vertical coll) sizes heights min_y max_y ?whole features 0 (initial_row_state es) w))
    (\<lambda>r. ended (decode_rows fuel S qts (mcu_count_vertical coll) sizes heights min_y max_y ?whole features cb 0
      (segment_images es mult r0 caps 0, u) (initial_row_state es) r))
    (segment_images es mult r0 caps (r1 * M), u') (\<lambda>(index, s). index = of_nat (Suc (r1 * M)))"
    by simp
  from enc obtain w i s w1 w2 where w: "VPXBoolWriter_new = Ok w"
      "encode_rows fuel S qts es (mcu_count_vertical coll) sizes heights min_y max_y ?whole features 0 (initial_row_state es) w
        = Some (Ok ((i, s), w1))" "finish w1 = Ok w2" "writer w2 = c"
    unfolding lepton_encode_row_range_def Let_def hs by (auto simp: bindF_eq_Inr)
  have "encode_stream (\<lambda>w. ended (encode_rows fuel S qts es (mcu_count_vertical coll) sizes heights min_y max_y ?whole features
      0 (initial_row_state es) w)) = Ok ((i, s), c)"
    by (simp only: encode_stream_def w bindR.simps ended_simps prod.case)
  from codes_if_stream(1) [OF codes this] obtain r r' where "VPXBoolReader_new c = Ok r"
    "decode_rows fuel S qts (mcu_count_vertical coll) sizes heights min_y max_y ?whole features cb 0
      (segment_images es mult r0 caps 0, u) (initial_row_state es) r = Some (Ok ((segment_images es mult r0 caps (r1 * M), u'), (i, s), r'))"
    by (auto simp: decode_stream_def)
  then show ?thesis
    using n images unfolding lepton_decode_row_range_def hs
    by (simp add: idx_in_range init(2) M_def split: if_splits)
qed

end

section \<open>The loops end\<close>

lemma parse_token_height:
  "parse_token S all_p c qt pt color_index features im s r = Ok (im', s', r') \<Longrightarrow> original_height im' = original_height im"
  by (auto simp: parse_token_def append_block_def split: prod.splits if_splits)

lemma decode_row_loop_height:
  "decode_row_loop S l md color_index qt limit features x n c im s r = Ok (im', s', r') \<Longrightarrow>
    original_height im' = original_height im"
proof (induction n arbitrary: x c im s r)
  case (Suc n)
  from Suc.prems obtain im1 s1 r1 where
    t: "parse_token S (is_all_present (if x = 0 then l else md)) c qt (if x = 0 then l else md) color_index features im s r
      = Ok (im1, s1, r1)"
    and rest: "(let (offset, c) = next_block c in if limit \<le> offset then Ok (im1, s1, r1)
        else decode_row_loop S l md color_index qt limit features (x + 1) n c im1 s1 r1) = Ok (im', s', r')"
    by (auto simp: Let_def)
  have "original_height im' = original_height im1"
    using rest Suc.IH by (auto simp: Let_def split: prod.splits if_splits)
  then show ?case using parse_token_height [OF t] by simp
qed simp

lemma decode_row_step_heights:
  assumes "decode_row_step S qts sizes features cb spec (ims, u) s r = Ok ((ims', u'), s', r')"
  shows "map original_height ims' = map original_height ims"
proof -
  obtain is_top caches md where s: "s = (is_top, caches, md)" by (cases s) auto
  let ?i = "rs_component spec"
  obtain l mid where lm: "models_of_row (is_top ! ?i) = (l, mid)" by fastforce
  from assms obtain im s1 r1 where im: "?i < length ims" "ims' = ims[?i := im]"
    and row: "decode_row_wrapper S l mid (get_color_index ?i) (qts ! ?i) (curr_y spec) (sizes ! ?i) features (ims ! ?i)
      (caches ! ?i, md) r = Ok (im, s1, r1)"
    by (auto simp: decode_row_step_def s Let_def lm)
  have "original_height im = original_height (ims ! ?i)"
    using decode_row_loop_height row unfolding decode_row_wrapper_def by blast
  then show ?thesis using im by (simp add: map_update list_update_same_conv)
qed

lemma bindF_ends: "(\<And>x. m = Inr x \<Longrightarrow> f x \<noteq> None) \<Longrightarrow> bindF (Some m) f \<noteq> None"
  by (cases m) auto

lemma encode_rows_end:
  assumes seg: "segment_ok es qts coll rows r0 r1 min_y max_y whole"
    and M: "M = (\<Sum>j<length es. mcu_rows es (mcu_count_vertical coll) j)"
    and heights: "heights = map trunc_bcv (take (components_count coll) (trunc_info coll))"
    and d: "d \<le> r1 * M" "r1 * M < d + f"
  shows "encode_rows f S qts es (mcu_count_vertical coll) sizes heights min_y max_y whole features (of_nat d) s w \<noteq> None"
  using d
proof (induction f arbitrary: d s w)
  case (Suc f)
  note step = segment_step [OF seg refl M heights refl Suc.prems(1)]
  have one: "of_nat d + 1 = (of_nat (Suc d) :: u32)" by simp
  show ?case
  proof (cases "d = r1 * M")
    case True
    then show ?thesis using step by (auto simp: Let_def)
  next
    case False
    then have "Suc d \<le> r1 * M" "r1 * M < Suc d + f" using Suc.prems by simp_all
    note ih = Suc.IH [OF this]
    from False step obtain spec where
      "get_row_spec_from_index (of_nat d) es (mcu_count_vertical coll) heights = Ok spec" by auto
    moreover have "bindF (Some (encode_row_step S qts es sizes features spec s w)) (\<lambda>(s, w).
      encode_rows f S qts es (mcu_count_vertical coll) sizes heights min_y max_y whole features (of_nat (Suc d)) s w) \<noteq> None"
      for spec by (rule bindF_ends) (simp only: split_beta ih not_False_eq_True)
    ultimately show ?thesis
      using ih unfolding encode_rows.simps one by (simp only: bindF_simps Let_def split: if_split) blast
  qed
qed simp

lemma decode_rows_end:
  assumes seg: "segment_ok es qts coll rows r0 r1 min_y max_y whole"
    and M: "M = (\<Sum>j<length es. mcu_rows es (mcu_count_vertical coll) j)"
    and heights: "heights = map trunc_bcv (take (components_count coll) (trunc_info coll))"
    and d: "d \<le> r1 * M" "r1 * M < d + f" and ims: "map original_height (fst v) = map original_height es"
  shows "decode_rows f S qts' (mcu_count_vertical coll) sizes heights min_y max_y whole features cb (of_nat d) v s r \<noteq> None"
  using d ims
proof (induction f arbitrary: d v s r)
  case (Suc f)
  note step = segment_step [OF seg refl M heights Suc.prems(3,1)]
  have one: "of_nat d + 1 = (of_nat (Suc d) :: u32)" by simp
  show ?case
  proof (cases "d = r1 * M")
    case True
    then show ?thesis using step by (auto simp: Let_def)
  next
    case False
    then have "Suc d \<le> r1 * M" "r1 * M < Suc d + f" using Suc.prems by simp_all
    note ih = Suc.IH [OF this]
    from False step obtain spec where
      spec: "get_row_spec_from_index (of_nat d) (fst v) (mcu_count_vertical coll) heights = Ok spec" by auto
    have "decode_rows f S qts' (mcu_count_vertical coll) sizes heights min_y max_y whole features cb (of_nat (Suc d)) v' s' r' \<noteq> None"
      if "decode_row_step S qts' sizes features cb spec v s r = Ok (v', s', r')" for v' s' r'
    proof (rule ih)
      show "map original_height (fst v') = map original_height es"
        using that decode_row_step_heights [of S qts' sizes features cb spec "fst v" "snd v" s r "fst v'" "snd v'" s' r'] Suc.prems(3)
        by simp
    qed
    then have "bindF (Some (decode_row_step S qts' sizes features cb spec v s r)) (\<lambda>(v, s, r).
      decode_rows f S qts' (mcu_count_vertical coll) sizes heights min_y max_y whole features cb (of_nat (Suc d)) v s r) \<noteq> None"
      by (intro bindF_ends) auto
    then show ?thesis
      using ih [OF Suc.prems(3)] unfolding decode_rows.simps spec one by (simp only: bindF_simps Let_def split: if_split) blast
  qed
qed simp

lemma new_images_heights:
  assumes "new_images alloc cmp_info is min_y end_y = Ok ims" "same_layout es cmp_info" "\<forall>i \<in> set is. i < length es"
  shows "map original_height ims = map (\<lambda>i. original_height (es ! i)) is"
  using assms
proof (induction "is" arbitrary: ims)
  case (Cons i "is")
  then obtain im ims1 where im: "BlockBasedImage_new alloc cmp_info i min_y end_y = Ok im"
    "new_images alloc cmp_info is min_y end_y = Ok ims1" "ims = im # ims1" by auto
  have "original_height im = bcv (cmp_info ! i)"
    using im(1) by (auto simp: BlockBasedImage_new_def Let_def split: if_splits)
  then show ?case using Cons.IH [OF im(2)] Cons.prems im(3) by (simp add: same_layout_def)
qed simp

lemma range_ends_enc:
  assumes seg: "segment_ok es qts coll rows r0 r1 min_y max_y (is_last \<and> full)"
    and fuel: "r1 * (\<Sum>j<length es. mcu_rows es (mcu_count_vertical coll) j) < fuel"
  shows "lepton_encode_row_range fuel S qts es coll min_y max_y is_last full features \<noteq> None"
proof -
  note S = seg [unfolded segment_ok_def Let_def]
  have hs: "get_max_coded_heights coll = Ok (map trunc_bcv (take (components_count coll) (trunc_info coll)))"
    using S by (simp add: get_max_coded_heights_def)
  have "encode_rows fuel S qts es (mcu_count_vertical coll) sizes (map trunc_bcv (take (components_count coll) (trunc_info coll)))
      min_y max_y (is_last \<and> full) features 0 s w \<noteq> None" for sizes s w
    using encode_rows_end [OF seg refl refl, of 0 fuel S] fuel by simp
  then show ?thesis
    by (simp only: lepton_encode_row_range_def Let_def bindF_eq_None hs split_beta option.distinct
        option.inject sum.inject simp_thms ex_simps)
qed

lemma range_ends_dec:
  assumes seg: "segment_ok es qts coll rows r0 r1 min_y max_y (is_last \<and> full)" and lay: "same_layout es cmp_info"
    and fuel: "r1 * (\<Sum>j<length es. mcu_rows es (mcu_count_vertical coll) j) < fuel"
  shows "lepton_decode_row_range fuel S alloc qts' cmp_info (length es) coll c min_y max_y is_last full features cb u \<noteq> None"
proof -
  note S = seg [unfolded segment_ok_def Let_def]
  have hs: "get_max_coded_heights coll = Ok (map trunc_bcv (take (components_count coll) (trunc_info coll)))"
    using S by (simp add: get_max_coded_heights_def)
  have heights: "map original_height ims = map original_height es"
    if "new_images alloc cmp_info [0..<length es] min_y end_y = Ok ims" for end_y ims
  proof -
    have "map original_height ims = map (\<lambda>i. original_height (es ! i)) [0..<length es]"
      using new_images_heights [OF that lay] by simp
    also have "\<dots> = map original_height es" by (rule nth_equalityI) simp_all
    finally show ?thesis .
  qed
  have rows: "decode_rows fuel S qts' (mcu_count_vertical coll) sizes (map trunc_bcv (take (components_count coll) (trunc_info coll)))
      min_y max_y (is_last \<and> full) features cb 0 (ims, u) s r \<noteq> None"
    if "new_images alloc cmp_info [0..<length es] min_y end_y = Ok ims" for sizes ims end_y s r
    using decode_rows_end [OF seg refl refl le0, of fuel "(ims, u)" S qts' sizes features cb s r] fuel heights [OF that]
    unfolding add_0 fst_conv by simp
  have imgs: "\<exists>end_y. new_images alloc cmp_info [0..<length es] min_y end_y = Ok ims"
    if "bindR X (\<lambda>end_y. new_images alloc cmp_info [0..<length es] min_y end_y) = Ok ims" for X ims
    using that by (cases X) auto
  show ?thesis
    unfolding lepton_decode_row_range_def hs
    by (simp only: bindF_eq_None split_beta option.distinct option.inject sum.inject simp_thms ex_simps)
      (use rows imgs in blast)
qed

end
