(* ===== verification/Coded_Length.thy ===== *)
theory Coded_Length
  imports Row_Range
begin

unbundle bit_operations_syntax

text \<open>
  How long the code of a segment can become: every decision adds at most six bytes to what the writer holds, and an
  operation takes a bounded number of decisions. The bounds are generous; they are linear in the number of blocks.
\<close>

section \<open>What an operation adds\<close>

definition out_len :: "VPXBoolWriter \<Rightarrow> nat" where
  "out_len w = length (writer w) + length (buffer w)"

lemma out_len_update [simp]: "out_len (w\<lparr>low_value := a, wrange := b\<rparr>) = out_len w"
  by (simp add: out_len_def)

text \<open>A writing operation that succeeds adds at most \<open>k\<close> bytes, and its result satisfies \<open>Q\<close>.\<close>

definition grows :: "nat \<Rightarrow> (VPXBoolWriter \<Rightarrow> ('a \<times> VPXBoolWriter) result) \<Rightarrow> ('a \<Rightarrow> bool) \<Rightarrow> bool" where
  "grows k W Q \<longleftrightarrow> (\<forall>w x w'. W w = Ok (x, w') \<longrightarrow> Q x \<and> out_len w' \<le> out_len w + k)"

definition grows_tmp ::
  "nat \<Rightarrow> (VPXBoolWriter \<Rightarrow> u64 \<Rightarrow> u32 \<Rightarrow> ('a \<times> VPXBoolWriter \<times> u64 \<times> u32) result) \<Rightarrow> ('a \<Rightarrow> bool) \<Rightarrow> bool"
where
  "grows_tmp k W Q \<longleftrightarrow> (\<forall>w v r x w' v' r'. W w v r = Ok (x, w', v', r') \<longrightarrow> Q x \<and> out_len w' \<le> out_len w + k)"

lemma growsD: "grows k W Q \<Longrightarrow> W w = Ok (x, w') \<Longrightarrow> Q x \<and> out_len w' \<le> out_len w + k"
  by (simp add: grows_def)

lemma grows_Ok: "Q x \<Longrightarrow> grows k (\<lambda>w. Ok (x, w)) Q"
  by (simp add: grows_def)

lemma grows_Err: "grows k (\<lambda>w. Inl e) Q"
  by (simp add: grows_def)

lemma grows_mono: "grows j W P \<Longrightarrow> j \<le> k \<Longrightarrow> (\<And>x. P x \<Longrightarrow> Q x) \<Longrightarrow> grows k W Q"
  unfolding grows_def by (meson add_left_mono order_trans)

lemma grows_bind:
  assumes "grows j W P" "\<And>x. P x \<Longrightarrow> grows k (F x) Q"
  shows "grows (j + k) (\<lambda>w. bindR (W w) (\<lambda>(x, w). F x w)) Q"
  unfolding grows_def
proof (intro allI impI)
  fix w y w'
  assume "bindR (W w) (\<lambda>(x, w). F x w) = Ok (y, w')"
  then obtain x w1 where "W w = Ok (x, w1)" "F x w1 = Ok (y, w')" by auto
  with growsD [OF assms(1)] growsD [OF assms(2)] show "Q y \<and> out_len w' \<le> out_len w + (j + k)"
    by (metis add.assoc add_le_mono1 order_trans)
qed

lemma grows_pure: "(\<And>x. e = Ok x \<Longrightarrow> grows k (F x) Q) \<Longrightarrow> grows k (\<lambda>w. bindR e (\<lambda>x. F x w)) Q"
  by (cases e) (simp_all add: grows_def)

lemma grows_if: "(b \<Longrightarrow> grows k V Q) \<Longrightarrow> (\<not> b \<Longrightarrow> grows k W Q) \<Longrightarrow> grows k (\<lambda>w. if b then V w else W w) Q"
  by (cases b) simp_all

lemma grows_tmp_Ok: "Q x \<Longrightarrow> grows_tmp k (\<lambda>w v r. Ok (x, w, v, r)) Q"
  by (simp add: grows_tmp_def)

lemma grows_tmp_bind:
  assumes "grows_tmp j W P" "\<And>x. P x \<Longrightarrow> grows_tmp k (F x) Q"
  shows "grows_tmp (j + k) (\<lambda>w v r. bindR (W w v r) (\<lambda>(x, w, v, r). F x w v r)) Q"
  unfolding grows_tmp_def
proof (intro allI impI)
  fix w v r y w' v' r'
  assume "bindR (W w v r) (\<lambda>(x, w, v, r). F x w v r) = Ok (y, w', v', r')"
  then obtain x w1 v1 r1 where "W w v r = Ok (x, w1, v1, r1)" "F x w1 v1 r1 = Ok (y, w', v', r')" by auto
  moreover from this have "P x" "out_len w1 \<le> out_len w + j" using assms(1) unfolding grows_tmp_def by blast+
  moreover from calculation have "Q y" "out_len w' \<le> out_len w1 + k" using assms(2) unfolding grows_tmp_def by blast+
  ultimately show "Q y \<and> out_len w' \<le> out_len w + (j + k)" by simp
qed

lemma grows_tmpD:
  "grows_tmp k W Q \<Longrightarrow>
    grows k (\<lambda>w. bindR (W w (low_value w) (wrange w)) (\<lambda>(x, w, v, r). Ok (x, w\<lparr>low_value := v, wrange := r\<rparr>))) Q"
  by (fastforce simp: grows_def grows_tmp_def)

section \<open>The operations of the coder\<close>

lemma carry_loop_length: "carry_loop x buf = Ok buf' \<Longrightarrow> length buf' = length buf"
  by (induction x buf arbitrary: buf' rule: carry_loop.induct)
    (subst (asm) carry_loop.simps, auto simp: Let_def split: if_splits nat.splits)

lemma carry_len: "carry w = Ok w' \<Longrightarrow> out_len w' = out_len w"
  by (auto simp: carry_def out_len_def dest: carry_loop_length split: if_splits)

lemma grows_put: "branch_ok b \<Longrightarrow> grows_tmp 6 (put d b) branch_ok"
  unfolding grows_tmp_def
proof (intro allI impI)
  fix w v r b' w' v' r'
  assume b: "branch_ok b" and put: "put d b w v r = Ok (b', w', v', r')"
  have b': "b' = record_and_update_bit d b" using put by (auto simp: put_def Let_def split: if_splits)
  have "w' = w \<or> (\<exists>w1 x. (carry w = Ok w1 \<or> w1 = w) \<and> w' = w1\<lparr>buffer := put_6bytes (buffer w1) x\<rparr>)"
    using put unfolding put_def Let_def by (auto split: if_splits)
  then have "out_len w' \<le> out_len w + 6"
    by (auto simp: put_6bytes_def out_len_def dest!: carry_len)
  then show "branch_ok b' \<and> out_len w' \<le> out_len w + 6" using b b' by simp
qed

lemma grows_put_bit: "branch_ok b \<Longrightarrow> grows 6 (put_bit d b) branch_ok"
  using grows_tmpD [OF grows_put] unfolding put_bit_def [abs_def] by simp

text \<open>A decision by one of the branches of a list.\<close>

lemma grows_tmp_step:
  assumes "branches_n n bs" "\<And>bs'. branches_n n bs' \<Longrightarrow> grows_tmp k (K bs') Q"
  shows "grows_tmp (6 + k) (\<lambda>w v r. bindR (idx bs j) (\<lambda>b. bindR (put d b w v r) (\<lambda>(b, w, v, r). K (bs[j := b]) w v r))) Q"
proof (cases "j < length bs")
  case True
  then have "branch_ok (bs ! j)" using assms(1) by (simp add: branches_n_def branches_ok_nth)
  from grows_tmp_bind [OF grows_put [OF this] assms(2) [OF branches_n_update [OF assms(1)]]]
  show ?thesis using True by (simp add: idx_in_range)
next
  case False
  then show ?thesis by (simp add: grows_tmp_def idx_def)
qed

lemma grows_put_grid:
  assumes bs: "branches_n n bs" and n: "n < 256"
  shows "grows 48 (put_grid v bs) (branches_n n)"
proof -
  have loop: "grows_tmp (6 * Suc i) (put_grid_loop v i so_far bs) (branches_n n)" if "branches_n n bs" for i so_far bs
    using that
  proof (induction i arbitrary: so_far bs)
    case 0
    have "grows_tmp (6 + 0) (put_grid_loop v 0 so_far bs) (branches_n n)"
      by (subst put_grid_loop.simps [abs_def]) (simp add: Let_def, rule grows_tmp_step [OF 0, where k = 0, simplified], erule grows_tmp_Ok)
    then show ?case by simp
  next
    case (Suc i)
    have "6 * Suc (Suc i) = 6 + 6 * Suc i" by simp
    then show ?case
      unfolding put_grid_loop.simps [of v "Suc i", abs_def] Let_def nat.case
      by (simp only:) (rule grows_tmp_step [OF Suc.prems Suc.IH])
  qed
  have "bit_len n \<le> 8" using n by (simp add: bit_len_le_iff)
  then have "6 * Suc (bit_len n - 2) \<le> 48" by simp
  moreover have "length bs = n" using bs by (simp add: branches_n_def)
  ultimately show ?thesis
    using grows_mono [OF grows_tmpD [OF loop [OF bs]]] by (simp add: put_grid_def [abs_def] Let_def) (intro grows_pure, simp)
qed

lemma grows_put_n_bits:
  assumes "branches_n n bs"
  shows "grows (6 * k) (put_n_bits u k bs) (branches_n n)"
proof -
  have "grows_tmp (6 * k) (put_n_bits_loop u k bs) (branches_n n)" using assms
  proof (induction k arbitrary: bs)
    case 0
    then show ?case by (simp add: grows_tmp_def)
  next
    case (Suc i)
    from grows_tmp_step [OF Suc.prems Suc.IH] show ?case by (simp add: put_n_bits_loop.simps [abs_def])
  qed
  from grows_tmpD [OF this] show ?thesis by (simp add: put_n_bits_def [abs_def])
qed

lemma grows_put_unary:
  assumes "branches_n n bs"
  shows "grows (6 * n) (put_unary_encoded v bs) (branches_n n)"
proof -
  have loop: "grows_tmp (6 * k) (put_unary_loop v i k bs) (branches_n n)" if "branches_n n bs" for i k bs
    using that
  proof (induction k arbitrary: i bs)
    case 0
    then show ?case by (simp add: grows_tmp_def)
  next
    case (Suc k)
    have "grows_tmp (6 * k) (\<lambda>w x r. if \<not> v \<noteq> i then Ok (bs', w, x, r) else put_unary_loop v (Suc i) k bs' w x r) (branches_n n)"
      if "branches_n n bs'" for bs'
      using Suc.IH [OF that] that by (cases "v = i") (simp_all add: grows_tmp_def)
    from grows_tmp_step [OF Suc.prems this] show ?case by (simp add: put_unary_loop.simps [abs_def] Let_def)
  qed
  have "length bs = n" using assms by (simp add: branches_n_def)
  with grows_tmpD [OF loop [OF assms]] show ?thesis
    by (simp add: put_unary_encoded_def [abs_def] Let_def) (intro grows_pure, simp)
qed

section \<open>Coefficients and counts\<close>

lemma list_ok_get: "list_ok n P xs \<Longrightarrow> idx xs i = Ok x \<Longrightarrow> P x"
  by (auto simp: list_ok_def)

lemma branches_n_get: "branches_n n bs \<Longrightarrow> idx bs i = Ok b \<Longrightarrow> branch_ok b"
  by (auto simp: branches_n_def branches_ok_nth)

lemma grows_length_sign_coef:
  assumes mag: "branches_n 11 mag" and sign: "branch_ok sign" and bits: "branches_n 10 bits"
  shows "grows 200 (write_length_sign_coef coef mag sign bits)
    (\<lambda>(mag, sign, bits). branches_n 11 mag \<and> branch_ok sign \<and> branches_n 10 bits)"
proof -
  let ?l = "u16_bit_length (unsigned_abs coef)"
  have l: "unat ?l \<le> 16"
    using bit_len_le_iff [of "unat (unsigned_abs coef)" 16] unat_lt2p [of "unsigned_abs coef"]
    by (simp add: unat_u16_bit_length)
  have S: "grows 6 (\<lambda>w. if coef \<noteq> 0 then put_bit (0 < sint coef) sign w else Ok (sign, w)) branch_ok"
    using sign by (intro grows_if grows_put_bit grows_Ok)
  have "6 * (unat ?l - 1) \<le> 96" using l by simp
  then have N: "grows 96 (\<lambda>w. if 1 < ?l then put_n_bits (unat (unsigned_abs coef)) (unat ?l - 1) bits w else Ok (bits, w)) (branches_n 10)"
    using bits by (intro grows_if grows_mono [OF grows_put_n_bits [OF bits]] grows_Ok)
  have "grows (66 + (6 + (96 + 0))) (\<lambda>w. bindR (put_unary_encoded (unat ?l) mag w) (\<lambda>(mag, w).
      bindR (if coef \<noteq> 0 then put_bit (0 < sint coef) sign w else Ok (sign, w)) (\<lambda>(sign, w).
      bindR (if 1 < ?l then put_n_bits (unat (unsigned_abs coef)) (unat ?l - 1) bits w else Ok (bits, w)) (\<lambda>(bits, w).
        Ok ((mag, sign, bits), w))))) (\<lambda>(mag, sign, bits). branches_n 11 mag \<and> branch_ok sign \<and> branches_n 10 bits)"
    using grows_put_unary [OF mag] by (intro grows_bind [OF _ grows_bind [OF S grows_bind [OF N]]] grows_Ok) auto
  then have "grows 200 (\<lambda>w. bindR (put_unary_encoded (unat ?l) mag w) (\<lambda>(mag, w).
      bindR (if coef \<noteq> 0 then put_bit (0 < sint coef) sign w else Ok (sign, w)) (\<lambda>(sign, w).
      bindR (if 1 < ?l then put_n_bits (unat (unsigned_abs coef)) (unat ?l - 1) bits w else Ok (bits, w)) (\<lambda>(bits, w).
        Ok ((mag, sign, bits), w))))) (\<lambda>(mag, sign, bits). branches_n 11 mag \<and> branch_ok sign \<and> branches_n 10 bits)"
    by (rule grows_mono) simp_all
  then show ?thesis
    unfolding write_length_sign_coef_def [abs_def] Let_def by (intro grows_if grows_Err)
qed

lemma grows_coef:
  assumes m: "per_color_ok m"
  shows "grows 200 (write_coef coef zig49 bin len m) per_color_ok"
  unfolding write_coef_def [abs_def]
proof (rule grows_pure, clarify)
  fix e s b
  assume g: "get_coef_branches m bin zig49 len = Ok (e, s, b)"
  then have ix: "bin < 9" "zig49 < 49" "len < 12" by (simp_all add: get_coef_branches_def size_defs)
  from get_coef_branches_ok [OF m ix] g have ok: "branches_n 11 e" "branch_ok s" "branches_n 10 b" by auto
  show "grows 200 (\<lambda>w. bindR (write_length_sign_coef coef e s b w) (\<lambda>(bs, w). Ok (set_coef_branches m bin zig49 len bs, w))) per_color_ok"
    using grows_bind [OF grows_length_sign_coef [OF ok] grows_Ok, where k = 0, of per_color_ok "\<lambda>bs. set_coef_branches m bin zig49 len bs"]
      set_coef_branches_ok [OF m ix(1,2)] by auto
qed

lemma grows_dc:
  assumes m: "model_ok m"
  shows "grows 200 (write_dc color_index coef u u2 m) model_ok"
  unfolding write_dc_def [abs_def]
proof (rule grows_pure, clarify)
  fix e s b
  assume g: "get_dc_branches m u u2 color_index = Ok (e, s, b)"
  then have ix: "color_index < 2" using m by (auto simp: get_dc_branches_def Let_def model_ok_def list_ok_def)
  from get_dc_branches_ok [OF m ix, of u u2] g have ok: "branches_n 11 e" "branch_ok s" "branches_n 10 b" by auto
  show "grows 200 (\<lambda>w. bindR (write_length_sign_coef coef e s b w) (\<lambda>(bs, w). Ok (set_dc_branches m u u2 color_index bs, w))) model_ok"
    using grows_bind [OF grows_length_sign_coef [OF ok] grows_Ok, where k = 0, of model_ok "\<lambda>bs. set_dc_branches m u u2 color_index bs"]
      set_dc_branches_ok [OF m ix] by auto
qed

lemma grows_non_zero_7x7_count:
  assumes m: "per_color_ok m"
  shows "grows 48 (write_non_zero_7x7_count context_bin n m) per_color_ok"
  unfolding write_non_zero_7x7_count_def [abs_def]
proof (rule grows_pure)
  fix bs
  have cs: "list_ok 9 (branches_n 64) (num_non_zeros_counts7x7 m)" using m by (simp add: per_color_ok_def)
  assume "idx (num_non_zeros_counts7x7 m) (unat context_bin) = Ok bs"
  with cs have bs: "branches_n 64 bs" by (rule list_ok_get)
  have "per_color_ok (m\<lparr>num_non_zeros_counts7x7 := (num_non_zeros_counts7x7 m)[unat context_bin := bs']\<rparr>)"
    if "branches_n 64 bs'" for bs'
    using m that by (auto simp: per_color_ok_def)
  with grows_bind [OF grows_put_grid [OF bs] grows_Ok, where k = 0, of per_color_ok]
  show "grows 48 (\<lambda>w. bindR (put_grid n bs w) (\<lambda>(bs, w).
      Ok (m\<lparr>num_non_zeros_counts7x7 := (num_non_zeros_counts7x7 m)[unat context_bin := bs]\<rparr>, w))) per_color_ok" by simp
qed

lemma grows_non_zero_edge_count:
  assumes m: "per_color_ok m"
  shows "grows 48 (write_non_zero_edge_count horizontal est_eob bin n m) per_color_ok"
  unfolding write_non_zero_edge_count_def [abs_def]
proof (rule grows_pure)
  let ?cs = "if horizontal then num_non_zeros_counts8x1 m else num_non_zeros_counts1x8 m"
  fix bs
  have cs: "list_ok 8 (list_ok 8 (branches_n 8)) ?cs" using m by (simp add: per_color_ok_def)
  assume "get_non_zero_counts_edge horizontal est_eob bin m = Ok bs"
  then have row: "unat est_eob < 8" "idx (?cs ! unat est_eob) (unat bin) = Ok bs"
    using list_ok_length [OF cs] by (auto simp: get_non_zero_counts_edge_def Let_def)
  have r: "list_ok 8 (branches_n 8) (?cs ! unat est_eob)" using cs row(1) by (rule list_ok_nth)
  have bs: "branches_n 8 bs" using r row(2) by (rule list_ok_get)
  have "per_color_ok (set_non_zero_counts_edge horizontal est_eob bin bs' m)" if "branches_n 8 bs'" for bs'
  proof -
    have "list_ok 8 (list_ok 8 (branches_n 8)) (?cs[unat est_eob := (?cs ! unat est_eob)[unat bin := bs']])"
      using cs r that by blast
    then show ?thesis using m by (auto simp: set_non_zero_counts_edge_def per_color_ok_def Let_def split: if_splits)
  qed
  with grows_bind [OF grows_put_grid [OF bs] grows_Ok, where k = 0, of per_color_ok]
  show "grows 48 (\<lambda>w. bindR (put_grid n bs w) (\<lambda>(bs, w). Ok (set_non_zero_counts_edge horizontal est_eob bin bs m, w))) per_color_ok"
    by simp
qed

section \<open>Edge coefficients\<close>

lemma grows_residual_loop:
  "branches_n n bs \<Longrightarrow> grows (6 * k) (write_residual_loop a mt k c bs) (branches_n n)"
proof (induction k arbitrary: c bs)
  case 0
  then show ?case by (simp add: grows_def)
next
  case (Suc i)
  have "grows (6 + 6 * i) (\<lambda>w. bindR (idx bs c) (\<lambda>b. bindR (put_bit d b w) (\<lambda>(b, w).
      write_residual_loop a mt i c' (bs[c := b]) w))) (branches_n n)" for d c'
    using branches_n_get [OF Suc.prems] Suc.prems by (intro grows_pure grows_bind [OF grows_put_bit Suc.IH]) auto
  then show ?case using Suc.prems
    by (cases "mt \<le> i") (simp_all add: write_residual_loop.simps [abs_def] Let_def grows_Ok)
qed

lemma grows_edge_bits:
  assumes m: "per_color_ok m" and ix: "bin < 7" "zig15 < 14" and len: "len \<le> 11"
  shows "grows 120 (write_edge_bits qt a len zig15 bin best_prior m) per_color_ok"
proof -
  have upper: "grows 60 (\<lambda>w. if unat t < len - 1 then
        bindR (get_residual_threshold_counts m p (unat t) len) (\<lambda>bs.
        bindR (write_residual_loop a (unat t) (len - 1) 1 bs w) (\<lambda>(bs, w).
          Ok (set_residual_threshold_counts m p (unat t) len bs, w)))
      else Ok (m, w)) per_color_ok" for t :: u8 and p
  proof (rule grows_if)
    obtain bs where bs: "get_residual_threshold_counts m p (unat t) len = Ok bs" "branches_n 128 bs"
      "\<And>bs'. branches_n 128 bs' \<Longrightarrow> per_color_ok (set_residual_threshold_counts m p (unat t) len bs')"
      using get_residual_ok [OF m, of p "unat t" len] by blast
    have "grows (6 * (len - 1) + 0) (\<lambda>w. bindR (write_residual_loop a (unat t) (len - 1) 1 bs w) (\<lambda>(bs, w).
          Ok (set_residual_threshold_counts m p (unat t) len bs, w))) per_color_ok"
      by (rule grows_bind [OF grows_residual_loop [OF bs(2)]]) (rule grows_Ok, erule bs(3))
    then show "grows 60 (\<lambda>w. bindR (get_residual_threshold_counts m p (unat t) len) (\<lambda>bs.
        bindR (write_residual_loop a (unat t) (len - 1) 1 bs w) (\<lambda>(bs, w).
          Ok (set_residual_threshold_counts m p (unat t) len bs, w)))) per_color_ok"
      using len by (simp add: bs(1)) (erule grows_mono, simp_all)
  qed (rule grows_Ok, rule m)
  have lower: "grows 60 (\<lambda>w. if 0 < j then
        bindR (get_edge_counts m bin zig15) (\<lambda>c.
        bindR (put_n_bits (unat a) j (residual_noise_counts c) w) (\<lambda>(bs, w).
          Ok (set_edge_counts m bin zig15 (c\<lparr>residual_noise_counts := bs\<rparr>), w)))
      else Ok (m, w)) per_color_ok" if m: "per_color_ok m" and j: "j \<le> 10" for m j
  proof (rule grows_if)
    obtain c where c: "get_edge_counts m bin zig15 = Ok c" "counts_ok 11 3 c"
      "\<And>c'. counts_ok 11 3 c' \<Longrightarrow> per_color_ok (set_edge_counts m bin zig15 c')"
      using get_edge_counts_ok [OF m ix] by blast
    have "per_color_ok (set_edge_counts m bin zig15 (c\<lparr>residual_noise_counts := bs\<rparr>))"
      if "branches_n 3 bs" for bs
      using c(2) that by (intro c(3)) (simp add: counts_ok_def)
    then have "grows (6 * j + 0) (\<lambda>w. bindR (put_n_bits (unat a) j (residual_noise_counts c) w) (\<lambda>(bs, w).
          Ok (set_edge_counts m bin zig15 (c\<lparr>residual_noise_counts := bs\<rparr>), w))) per_color_ok"
      by (intro grows_bind [OF grows_put_n_bits [OF counts_ok_fields(2) [OF c(2)]]] grows_Ok)
    then show "grows 60 (\<lambda>w. bindR (get_edge_counts m bin zig15) (\<lambda>c.
        bindR (put_n_bits (unat a) j (residual_noise_counts c) w) (\<lambda>(bs, w).
          Ok (set_edge_counts m bin zig15 (c\<lparr>residual_noise_counts := bs\<rparr>), w)))) per_color_ok"
      using j by (simp add: c(1)) (erule grows_mono, simp_all)
  qed (rule grows_Ok, rule m)
  have "grows (60 + 60) (\<lambda>w. bindR (if unat t < len - 1 then
        bindR (get_residual_threshold_counts m p (unat t) len) (\<lambda>bs.
        bindR (write_residual_loop a (unat t) (len - 1) 1 bs w) (\<lambda>(bs, w).
          Ok (set_residual_threshold_counts m p (unat t) len bs, w)))
      else Ok (m, w)) (\<lambda>(m, w). if 0 < min (len - 1) (unat t) then
        bindR (get_edge_counts m bin zig15) (\<lambda>c.
        bindR (put_n_bits (unat a) (min (len - 1) (unat t)) (residual_noise_counts c) w) (\<lambda>(bs, w).
          Ok (set_edge_counts m bin zig15 (c\<lparr>residual_noise_counts := bs\<rparr>), w)))
      else Ok (m, w))) per_color_ok" for t :: u8 and p
    by (rule grows_bind [OF upper lower]) (use len in simp_all)
  then show ?thesis unfolding write_edge_bits_def [abs_def] Let_def by (intro grows_pure) simp
qed

lemma grows_edge_coefficient:
  assumes m: "per_color_ok m"
  shows "grows 200 (write_edge_coefficient qt coef zig15 n best_prior m) per_color_ok"
proof (cases "n \<noteq> 0 \<and> unat n - 1 < NUM_NON_ZERO_EDGE_BINS \<and> zig15 < 14")
  case False
  then show ?thesis by (auto simp: grows_def write_edge_coefficient_def)
next
  case True
  let ?bin = "unat n - 1" let ?l = "edge_prior_bit_len best_prior" let ?a = "unsigned_abs coef"
  let ?len = "unat (u16_bit_length ?a)" let ?si = "calc_sign_index (ucast best_prior :: i16)"
  have ix: "?bin < 7" "zig15 < 14" using True by (simp_all add: NUM_NON_ZERO_EDGE_BINS_def)
  obtain c where c: "get_edge_counts m ?bin zig15 = Ok c" "counts_ok 11 3 c"
    "\<And>c'. counts_ok 11 3 c' \<Longrightarrow> per_color_ok (set_edge_counts m ?bin zig15 c')"
    using get_edge_counts_ok [OF m ix] by blast
  let ?m1 = "\<lambda>ea. set_edge_counts m ?bin zig15 (c\<lparr>exponent_counts := (exponent_counts c)[?l := ea]\<rparr>)"
  have m1: "per_color_ok (?m1 ea)" if "branches_n 11 ea" for ea
    using c(2) that by (intro c(3)) (auto simp: counts_ok_def MAX_EXPONENT_def)
  have rest: "grows 126 (\<lambda>w. if coef \<noteq> 0 then
      bindR (get_edge_sign m ?si ?l) (\<lambda>sign.
      bindR (put_bit (0 \<le> sint coef) sign w) (\<lambda>(sign, w).
        if 1 < ?len then write_edge_bits qt ?a ?len zig15 ?bin best_prior (set_edge_sign m ?si ?l sign) w
        else Ok (set_edge_sign m ?si ?l sign, w)))
    else Ok (m, w)) per_color_ok" if m: "per_color_ok m" and len: "?len \<le> 11" for m
  proof (rule grows_if)
    have "grows (6 + 120) (\<lambda>w. bindR (put_bit (0 \<le> sint coef) sign w) (\<lambda>(sign, w).
        if 1 < ?len then write_edge_bits qt ?a ?len zig15 ?bin best_prior (set_edge_sign m ?si ?l sign) w
        else Ok (set_edge_sign m ?si ?l sign, w))) per_color_ok" if "get_edge_sign m ?si ?l = Ok sign" for sign
    proof (rule grows_bind [OF grows_put_bit])
      have si: "?si < 3" by (simp add: calc_sign_index_def)
      have sb: "branches_n 12 (sign_counts m ! ?si)" by (rule per_color_ok_sign [OF m si])
      show "branch_ok sign" using that branches_n_get [OF sb] by (auto simp: get_edge_sign_def)
      fix s
      assume s: "branch_ok s"
      have "per_color_ok (set_edge_sign m ?si ?l s)"
        unfolding set_edge_sign_def using branches_n_update [OF sb s] by (rule per_color_ok_set_sign [OF m])
      then show "grows 120 (\<lambda>w. if 1 < ?len then write_edge_bits qt ?a ?len zig15 ?bin best_prior (set_edge_sign m ?si ?l s) w
          else Ok (set_edge_sign m ?si ?l s, w)) per_color_ok"
        using ix len by (intro grows_if grows_edge_bits grows_Ok)
    qed
    then show "grows 126 (\<lambda>w. bindR (get_edge_sign m ?si ?l) (\<lambda>sign.
      bindR (put_bit (0 \<le> sint coef) sign w) (\<lambda>(sign, w).
        if 1 < ?len then write_edge_bits qt ?a ?len zig15 ?bin best_prior (set_edge_sign m ?si ?l sign) w
        else Ok (set_edge_sign m ?si ?l sign, w)))) per_color_ok" by (intro grows_pure) simp
  qed (rule grows_Ok, rule m)
  have "grows 200 (\<lambda>w. if MAX_EXPONENT < ?len then err_exit_code CoefficientOutOfRange
      else bindR (put_unary_encoded ?len ea w) (\<lambda>(ea, w).
        if coef \<noteq> 0 then
          bindR (get_edge_sign (?m1 ea) ?si ?l) (\<lambda>sign.
          bindR (put_bit (0 \<le> sint coef) sign w) (\<lambda>(sign, w).
            if 1 < ?len then write_edge_bits qt ?a ?len zig15 ?bin best_prior (set_edge_sign (?m1 ea) ?si ?l sign) w
            else Ok (set_edge_sign (?m1 ea) ?si ?l sign, w)))
        else Ok (?m1 ea, w))) per_color_ok" if "branches_n 11 ea" for ea
  proof (rule grows_if)
    assume "\<not> MAX_EXPONENT < ?len"
    then have "?len \<le> 11" by (simp add: MAX_EXPONENT_def)
    from grows_bind [OF grows_put_unary [OF that] rest [OF m1 this]]
    show "grows 200 (\<lambda>w. bindR (put_unary_encoded ?len ea w) (\<lambda>(ea, w).
        if coef \<noteq> 0 then
          bindR (get_edge_sign (?m1 ea) ?si ?l) (\<lambda>sign.
          bindR (put_bit (0 \<le> sint coef) sign w) (\<lambda>(sign, w).
            if 1 < ?len then write_edge_bits qt ?a ?len zig15 ?bin best_prior (set_edge_sign (?m1 ea) ?si ?l sign) w
            else Ok (set_edge_sign (?m1 ea) ?si ?l sign, w)))
        else Ok (?m1 ea, w))) per_color_ok" by (rule grows_mono) simp_all
  qed (rule grows_Err)
  moreover have "branches_n 11 ea" if "idx (exponent_counts c) ?l = Ok ea" for ea
    using list_ok_get [OF counts_ok_fields(1) [OF c(2)] that] .
  ultimately show ?thesis
    unfolding write_edge_coefficient_def [abs_def] Let_def using True by (simp only: c(1) assertR_True bindR.simps simp_thms) (intro grows_pure, blast)
qed

section \<open>Blocks\<close>

lemma grows_7x7_loop:
  "per_color_ok m \<Longrightarrow>
    grows (200 * length cs) (write_7x7_loop b priors cs remaining bin (eob_x, eob_y, m)) (\<lambda>(eob_x, eob_y, m). per_color_ok m)"
proof (induction cs arbitrary: remaining bin eob_x eob_y m)
  case Nil
  then show ?case by (simp add: grows_def)
next
  case (Cons zc cs)
  obtain z c where zc: "zc = (z, c)" by (cases zc)
  have "grows (200 + 200 * length cs) (write_7x7_loop b priors ((z, c) # cs) remaining bin (eob_x, eob_y, m)) (\<lambda>(eob_x, eob_y, m). per_color_ok m)"
    unfolding write_7x7_loop.simps [abs_def] Let_def
    by (rule grows_bind [OF grows_coef [OF Cons.prems]]) (intro grows_if grows_pure grows_Ok Cons.IH, simp_all)
  then show ?case unfolding zc by (simp only: length_Cons mult_Suc_right)
qed

lemma grows_edge_loop:
  "per_color_ok m \<Longrightarrow>
    grows (200 * lanes) (encode_edge_loop all_p horizontal b pred qt pt lanes c zig15 num m) per_color_ok"
proof (induction lanes arbitrary: c zig15 num m)
  case 0
  then show ?case by (simp add: grows_def)
next
  case (Suc lanes)
  have "grows (200 + 200 * lanes) (encode_edge_loop all_p horizontal b pred qt pt (Suc lanes) c zig15 num m) per_color_ok"
    unfolding encode_edge_loop.simps [abs_def] Let_def
    by (intro grows_if grows_pure grows_bind [OF grows_edge_coefficient] grows_Ok Suc.IH Suc.prems)
  then show ?case by (simp only: mult_Suc_right)
qed

lemma grows_one_edge:
  "per_color_ok m \<Longrightarrow> grows 1448 (encode_one_edge all_p horizontal b pred qt pt bin est_eob m) per_color_ok"
  unfolding encode_one_edge_def [abs_def] Let_def
  using grows_bind [OF grows_non_zero_edge_count grows_edge_loop [where lanes = 7]] by simp

lemma grows_edge:
  assumes "per_color_ok m"
  shows "grows 2896 (encode_edge S all_p nd b qt pt n eob_x eob_y m) (\<lambda>(raster, h, v, m). per_color_ok m)"
proof -
  let ?r = "0 # map (\<lambda>i. scast (get_coefficient b i) * ucast (get_quantization_table_transposed qt ! i)) [1..<64]"
  obtain h v where hv: "predict_current_edges S nd (rows8 ?r) = (h, v)" by fastforce
  obtain nh nv where n: "predict_next_edges S (rows8 ?r) = (nh, nv)" by fastforce
  have "grows (1448 + (1448 + 0)) (encode_edge S all_p nd b qt pt n eob_x eob_y m) (\<lambda>(raster, h, v, m). per_color_ok m)"
    unfolding encode_edge_def [abs_def] Let_def hv n prod.case
    by (intro grows_bind [OF grows_one_edge] grows_Ok assms) simp_all
  then show ?thesis by simp
qed

text \<open>A block adds at most 13000 bytes.\<close>

lemma grows_block:
  assumes m: "model_ok m"
  shows "grows 13000 (write_coefficient_block S all_p pt color_index nd b qt features m) (\<lambda>(ns, m). model_ok m)"
proof -
  let ?n = "get_count_of_non_zeros_7x7 S b"
  have set_m: "model_ok (set_per_color m color_index pc)" if "per_color_ok pc" for pc
    using m that by (auto simp: model_ok_def set_per_color_def)
  have pc: "per_color_ok pc" if "get_per_color m color_index = Ok pc" for pc
    using m that list_ok_get by (fastforce simp: model_ok_def get_per_color_def)
  have inner: "grows 9800 (\<lambda>w. if 0 < unat ?n then bindR (num_non_zeros_to_bin_7x7 (unat ?n)) (\<lambda>bin.
        write_7x7_loop b priors (enumerate 0 UNZIGZAG_49_TR) (unat ?n) bin (0, 0, pc) w)
      else Ok ((0, 0, pc), w)) (\<lambda>(eob_x, eob_y, m). per_color_ok m)" if "per_color_ok pc" for pc priors
  proof (intro grows_if grows_pure grows_Ok)
    have "200 * length (enumerate 0 UNZIGZAG_49_TR) = 9800" by (simp add: UNZIGZAG_49_TR_def)
    then show "grows 9800 (write_7x7_loop b priors (enumerate 0 UNZIGZAG_49_TR) (unat ?n) bin (0, 0, pc)) (\<lambda>(eob_x, eob_y, m). per_color_ok m)" for bin
      using grows_7x7_loop [OF that, of "enumerate 0 UNZIGZAG_49_TR"] by (simp only:)
  qed (simp add: that)
  have dc: "grows 200 (\<lambda>w. bindR (adv_predict_dc_pix S all_p pt (rows8 raster) q0 nd features) (\<lambda>p.
      if scast (get_dc b) \<noteq> adv_predict_or_unpredict_dc (ucast (avg p)) True (predicted_dc p)
      then err_exit_code CoefficientOutOfRange
      else bindR (write_dc color_index (ucast (avg p)) (uncertainty p) (uncertainty2 p) m w) (\<lambda>(m, w).
        Ok ((ns p, m), w)))) (\<lambda>(ns, m). model_ok m)"
    if "model_ok m" for raster q0 avg m and ns :: "_ \<Rightarrow> NeighborSummary"
  proof (intro grows_pure grows_if grows_Err)
    show "grows 200 (\<lambda>w. bindR (write_dc color_index (ucast (avg p)) (uncertainty p) (uncertainty2 p) m w) (\<lambda>(m, w).
        Ok ((ns p, m), w))) (\<lambda>(ns, m). model_ok m)" for p
      using grows_bind [OF grows_dc [OF that] grows_Ok, where k = 0, of "\<lambda>(ns, m). model_ok m" "\<lambda>m. (ns p, m)"] by simp
  qed
  have "grows (48 + (9800 + (2896 + 200))) (write_coefficient_block S all_p pt color_index nd b qt features m) (\<lambda>(ns, m). model_ok m)"
    unfolding write_coefficient_block_def [abs_def] Let_def
    by (intro grows_pure grows_bind [OF grows_non_zero_7x7_count] pc, assumption)
      (rule grows_bind [OF inner], assumption, clarify, rule grows_bind [OF grows_edge], assumption, clarify, rule dc, rule set_m)
  then show ?thesis by (rule grows_mono) simp_all
qed

section \<open>Rows and segments\<close>

lemma grows_row:
  assumes "model_ok m"
  shows "grows (13000 * unat (get_block_width im))
    (process_row S left_model middle_model color_index im qt y size_in_block features (cache, m)) (\<lambda>(cache, m). model_ok m)"
proof -
  have token: "grows 13000 (serialize_tokens S all_p c qt pt color_index im features (cache, m)) (\<lambda>(cache, m). model_ok m)"
    if "model_ok m" for all_p c pt cache m
  proof -
    have "grows (13000 + 0) (serialize_tokens S all_p c qt pt color_index im features (cache, m)) (\<lambda>(cache, m). model_ok m)"
      unfolding serialize_tokens_def prod.case
      by (intro grows_pure grows_bind [OF grows_block [OF that]]) (clarify, intro grows_pure grows_Ok, simp)
    then show ?thesis by simp
  qed
  have loop: "grows (13000 * n) (process_row_loop S left_model middle_model color_index im qt size_in_block features x n c s) (\<lambda>(cache, m). model_ok m)"
    if "model_ok (snd s)" for n x c s
    using that
  proof (induction n arbitrary: x c s)
    case 0
    then show ?case by (cases s) (simp add: grows_def)
  next
    case (Suc n)
    obtain cache m where s: "s = (cache, m)" by (cases s)
    obtain offset c' where nx: "next_block c = (offset, c')" by fastforce
    have "grows (13000 + 13000 * n) (process_row_loop S left_model middle_model color_index im qt size_in_block features x (Suc n) c s) (\<lambda>(cache, m). model_ok m)"
      unfolding process_row_loop.simps [abs_def] Let_def nx prod.case s
      by (rule grows_bind [OF token], use Suc.prems s in simp, intro grows_if grows_Ok Suc.IH) auto
    then show ?case by (simp only: mult_Suc_right)
  qed
  show ?thesis unfolding process_row_def [abs_def] using assms by (intro loop) simp
qed

lemma flush_len: "flush_non_final_data w = Ok w' \<Longrightarrow> out_len w' = out_len w"
  by (auto simp: flush_non_final_data_def out_len_def Let_def split: if_splits)

lemma finish_len:
  assumes "finish w = Ok w'"
  shows "length (writer w') \<le> out_len w + 8"
proof -
  have loop: "length (finish_loop n sh t buf) = length buf + n" for n sh t buf
    by (induction n arbitrary: sh buf) (simp_all add: Let_def)
  let ?bits = "64 - leading_zeros (low_value w) - 2"
  from assms obtain w1 t where w1: "out_len w1 = out_len w"
    "writer w' = writer w1 @ finish_loop ((?bits + 7) div 8) 63 t (buffer w1)"
    by (auto simp: finish_def Let_def dest: carry_len split: if_splits)
  have "(?bits + 7) div 8 \<le> 8" by simp
  then show ?thesis using w1 by (simp add: loop out_len_def)
qed

end
