(* ===== verification/Sample_Inputs.thy ===== *)
theory Sample_Inputs
  imports Coded_Length
begin

text \<open>
  Small concrete inputs at which the witnesses of the properties evaluate the model: a block without
  neighbors, tables of ones, an image of one block and the segment that consists of it.
\<close>

section \<open>Concrete inputs for the witnesses\<close>

text \<open>A block without neighbors, the empty model, and tables of ones.\<close>

definition no_neighbors :: NeighborData where
  "no_neighbors =
    \<lparr>above = EMPTY_BLOCK, left = EMPTY_BLOCK, above_left = EMPTY_BLOCK,
     neighbor_context_above = NEIGHBOR_DATA_EMPTY, neighbor_context_left = NEIGHBOR_DATA_EMPTY\<rparr>"

definition tables_of_ones :: QuantizationTables where
  "tables_of_ones = new_from_table (replicate 64 1)"

definition empty_image :: BlockBasedImage where
  "empty_image = \<lparr>block_width = 1, original_height = 1, dpos_offset = 0, image = [], capacity = 1\<rparr>"

lemma no_neighbors_ok: "neighbors_ok no_neighbors"
  by (simp add: neighbors_ok_def no_neighbors_def ac_ok_empty summary_ok_empty)

lemma per_color_ok_default: "per_color_ok ModelPerColor_default"
  using list_ok_nth [of 2 per_color_ok "per_color Model_default" 0] model_ok_default
  by (simp add: model_ok_def Model_default_def BLOCK_TYPES_def)

lemma tables_of_ones_transposed: "c < 64 \<Longrightarrow> quantization_table_transposed tables_of_ones ! c = 1"
proof -
  assume c: "c < 64"
  have "list_all (\<lambda>i. i < 64) RASTER_TO_ZIGZAG" by (simp add: RASTER_TO_ZIGZAG_def)
  moreover have "length RASTER_TO_ZIGZAG = 64" by (simp add: RASTER_TO_ZIGZAG_def)
  ultimately have "RASTER_TO_ZIGZAG ! i < 64" if "i < 64" for i using that by (simp add: list_all_length)
  moreover have "c mod 8 * 8 + c div 8 < 64" using c by simp
  ultimately show ?thesis using c by (simp add: tables_of_ones_def new_from_table_def Let_def)
qed

text \<open>Without neighbors the DC is predicted as 0, and any DC in the range of JPEG is coded.\<close>

lemma single_block_codable:
  assumes "\<bar>sint (get_dc b)\<bar> \<le> 1024"
  shows "dc_codable S False NO_NEIGHBORS nd b tables_of_ones features"
proof -
  let ?raster = "rows8 (dequantize ((raw_data b)[0 := 0]) (quantization_table_transposed tables_of_ones))"
  obtain p where p: "adv_predict_dc_pix S False NO_NEIGHBORS ?raster (ucast (quantization_table tables_of_ones ! 0)) nd features = Ok p"
    "predicted_dc p = 0"
    by (simp add: adv_predict_dc_pix_def dc_estimates_def Let_def NO_NEIGHBORS_def ProbabilityTables_new_def)
  let ?r = "adv_predict_or_unpredict_dc (get_dc b) False 0"
  note A = adv_predict_roundtrip [OF assms, of 0, simplified]
  have "sint (ucast ?r :: i16) = sint ?r"
  proof -
    have "is_down (ucast :: i32 \<Rightarrow> i16)" by (simp add: is_down)
    from down_cast_same [OF this] have "ucast ?r = (scast ?r :: i16)" by (rule fun_cong)
    then have "ucast ?r = (of_int (sint ?r) :: i16)" by (simp add: of_int_sint)
    then show ?thesis using A(1) sint_of_int_small [of "sint ?r", where 'a = 16] by auto
  qed
  then show ?thesis unfolding dc_codable_def p(1) sum.case Let_def p(2) using A by simp
qed

lemma empty_block_codable:
  "dc_codable S False NO_NEIGHBORS nd EMPTY_BLOCK tables_of_ones features"
  by (rule single_block_codable) (simp add: get_dc_def EMPTY_BLOCK_def)

lemma codes_single_block:
  assumes "ac_ok b" "\<bar>sint (get_dc b)\<bar> \<le> 1024"
  shows "codes_if True
    (write_coefficient_block lane_ops False NO_NEIGHBORS 0 no_neighbors b tables_of_ones features Model_default)
    (read_coefficient_block lane_ops False NO_NEIGHBORS 0 no_neighbors tables_of_ones features Model_default)
    b (\<lambda>(ns, m). summary_ok ns \<and> model_ok m \<and> ac_ok b)"
  using assms(1) by (intro lane_ops.codes_coefficient_block [OF model_ok_default])
    (simp_all add: no_neighbors_ok tables_ok_new tables_of_ones_def [THEN arg_cong [of _ _ tables_ok]]
      tables_of_ones_transposed single_block_codable assms(2), simp add: ac_ok_def)

lemma codes_empty_block:
  "codes_if True
    (write_coefficient_block lane_ops False NO_NEIGHBORS 0 no_neighbors EMPTY_BLOCK tables_of_ones features Model_default)
    (read_coefficient_block lane_ops False NO_NEIGHBORS 0 no_neighbors tables_of_ones features Model_default)
    EMPTY_BLOCK (\<lambda>(ns, m). summary_ok ns \<and> model_ok m \<and> ac_ok EMPTY_BLOCK)"
  by (rule codes_single_block [OF ac_ok_empty]) (simp add: get_dc_def EMPTY_BLOCK_def)

text \<open>An image of one block.\<close>

definition single_image :: "BlockBasedImage \<Rightarrow> bool" where
  "single_image im \<longleftrightarrow> block_width im = 1 \<and> original_height im = 1 \<and> dpos_offset im = 0
    \<and> ac_ok (blocks_of im 0) \<and> \<bar>sint (get_dc (blocks_of im 0))\<bar> \<le> 1024"

lemma empty_image_single: "single_image empty_image"
  using ac_ok_empty by (simp add: single_image_def empty_image_def blocks_of_def get_dc_def) (simp add: EMPTY_BLOCK_def)

lemma codes_single_row:
  assumes im: "single_image im"
  shows "\<exists>R s. codes (process_row lane_ops NO_NEIGHBORS LEFT_ONLY 0 im tables_of_ones 0 1 features
    ([NEIGHBOR_DATA_EMPTY, NEIGHBOR_DATA_EMPTY], Model_default)) R (blocks_of im 0) s"
proof -
  let ?b = "blocks_of im 0"
  note I = im [unfolded single_image_def]
  have nd: "get_neighbor_data False (off_y 0 im) im cache NO_NEIGHBORS = Ok no_neighbors" for cache
    by (simp add: get_neighbor_data_def NO_NEIGHBORS_def ProbabilityTables_new_def is_above_present_def
        is_left_present_def no_neighbors_def)
  have here: "here (off_y 0 im) im = ?b"
    using I by (simp add: here_def off_y_def Let_def get_block_at_def blocks_of_def)
  have ctx: "cur_neighbor_summary_index (off_y 0 im) = 0" "cur_block_index (off_y 0 im) = 0"
    by (simp_all add: off_y_def Let_def)
  have row: "process_row lane_ops NO_NEIGHBORS LEFT_ONLY 0 im tables_of_ones 0 1 features
      ([NEIGHBOR_DATA_EMPTY, NEIGHBOR_DATA_EMPTY], Model_default) =
    (\<lambda>w. bindR (write_coefficient_block lane_ops False NO_NEIGHBORS 0 no_neighbors ?b tables_of_ones features
        Model_default w) (\<lambda>(s, w). Ok (case s of (ns, m) \<Rightarrow> ([ns, NEIGHBOR_DATA_EMPTY], m), w)))"
  proof
    fix w
    have one: "unat (get_block_width im) = Suc 0" using I by (simp add: get_block_width_def)
    have np: "is_all_present NO_NEIGHBORS = False"
      by (simp add: is_all_present_def NO_NEIGHBORS_def ProbabilityTables_new_def)
    show "process_row lane_ops NO_NEIGHBORS LEFT_ONLY 0 im tables_of_ones 0 1 features
        ([NEIGHBOR_DATA_EMPTY, NEIGHBOR_DATA_EMPTY], Model_default) w =
      bindR (write_coefficient_block lane_ops False NO_NEIGHBORS 0 no_neighbors ?b tables_of_ones features
        Model_default w) (\<lambda>(s, w). Ok (case s of (ns, m) \<Rightarrow> ([ns, NEIGHBOR_DATA_EMPTY], m), w))"
      by (cases "write_coefficient_block lane_ops False NO_NEIGHBORS 0 no_neighbors ?b tables_of_ones features
          Model_default w")
        (auto simp: process_row_def one serialize_tokens_def np nd here next_block_def Let_def ctx
          set_neighbor_summary_here_def set_idx_def)
  qed
  have "codes_if True (\<lambda>w. bindR (write_coefficient_block lane_ops False NO_NEIGHBORS 0 no_neighbors ?b
        tables_of_ones features Model_default w) (\<lambda>(s, w). Ok (case s of (ns, m) \<Rightarrow> ([ns, NEIGHBOR_DATA_EMPTY], m), w)))
    (\<lambda>r. bindR (read_coefficient_block lane_ops False NO_NEIGHBORS 0 no_neighbors tables_of_ones features Model_default r)
      (\<lambda>(v, s, r). Ok (v, case s of (ns, m) \<Rightarrow> ([ns, NEIGHBOR_DATA_EMPTY], m), r)))
    ?b (\<lambda>_. True)"
    by (rule codes_if_map [OF codes_single_block]) (use I in simp_all)
  then show ?thesis unfolding row codes_if_True codes_to_def by blast
qed

lemma empty_row_accepted:
  "\<exists>s c. encode_stream (process_row lane_ops NO_NEIGHBORS LEFT_ONLY 0 empty_image tables_of_ones 0 1 features
    ([NEIGHBOR_DATA_EMPTY, NEIGHBOR_DATA_EMPTY], Model_default)) = Ok (s, c)"
proof -
  obtain R s where "codes (process_row lane_ops NO_NEIGHBORS LEFT_ONLY 0 empty_image tables_of_ones 0 1 features
      ([NEIGHBOR_DATA_EMPTY, NEIGHBOR_DATA_EMPTY], Model_default)) R (blocks_of empty_image 0) s"
    using codes_single_row [OF empty_image_single] by blast
  from codes_stream [OF this] show ?thesis by blast
qed

text \<open>The image of one block as a segment.\<close>

definition one_block_truncation :: TruncateComponents where
  "one_block_truncation =
    \<lparr>trunc_info = [\<lparr>trunc_bcv = 1, trunc_bc = 1\<rparr>], components_count = 1,
     mcu_count_horizontal = 1, mcu_count_vertical = 1\<rparr>"

definition one_block_component :: ComponentInfo where
  "one_block_component = ComponentInfo_default\<lparr>bcv := 1, bch := 1, bc := 1\<rparr>"

lemma one_block_segment:
  "segment_ok [empty_image] [tables_of_ones] one_block_truncation 1 0 1 0 1 True"
  by (simp add: segment_ok_def one_block_truncation_def mcu_rows_def empty_image_def component_fits_def image_ok_def
      tables_of_ones_def tables_ok_new)

lemma one_block_layout: "same_layout [empty_image] [one_block_component]"
  by (simp add: same_layout_def one_block_component_def empty_image_def)

lemma one_block_rows:
  assumes "single_image im"
  shows "get_row_spec_from_index 0 [im] 1 [1] = Ok (mcu_row_spec (\<lambda>_. 1) 0 0 0)"
  "\<exists>r. get_row_spec_from_index 1 [im] 1 [1] = Ok r \<and> skip r \<and> done_rows r"
  "\<exists>r. get_row_spec_from_index 2 [im] 1 [1] = Ok r \<and> skip r \<and> done_rows r"
  using assms by (simp_all add: get_row_spec_from_index_def get_original_height_def single_image_def Let_def find_component.simps
      idx_def mcu_row_spec_def)

lemma single_image_encoded:
  assumes im: "single_image im" and coll: "mcu_count_vertical coll = 1" "get_component_sizes_in_blocks coll = Ok [1]"
    "get_max_coded_heights coll = Ok [1]"
  shows "\<exists>c. lepton_encode_row_range 2 lane_ops [tables_of_ones] [im] coll 0 1 True True features
    = Some (Ok c) \<and> length c \<le> 13008"
proof -
  define sp where "sp = mcu_row_spec (\<lambda>_. 1) 0 0 0"
  obtain w where w: "VPXBoolWriter_new = Ok w" "writer_rep w start_interval" "out_len w = 0"
    using VPXBoolWriter_new by (auto simp: out_len_def)
  obtain ds s where "emits (process_row lane_ops NO_NEIGHBORS LEFT_ONLY 0 im tables_of_ones 0 1 features
      ([NEIGHBOR_DATA_EMPTY, NEIGHBOR_DATA_EMPTY], Model_default)) ds s"
    using codes_single_row [OF im] unfolding codes_def by blast
  with w(2) obtain w1 where w1: "process_row lane_ops NO_NEIGHBORS LEFT_ONLY 0 im tables_of_ones 0 1 features
      ([NEIGHBOR_DATA_EMPTY, NEIGHBOR_DATA_EMPTY], Model_default) w = Ok (s, w1)" "writer_rep w1 (narrows ds start_interval)"
    unfolding emits_def by blast
  obtain w2 where w2: "flush_non_final_data w1 = Ok w2" "writer_rep w2 (narrows ds start_interval)"
    using flush_represents_same [OF w1(2)] by blast
  obtain w3 where w3: "finish w2 = Ok w3" using finish_value [OF w2(2)] by blast
  have "unat (get_block_width im) = 1" using im by (simp add: get_block_width_def single_image_def)
  then have "out_len w1 \<le> 13000" using growsD [OF grows_row w1(1)] model_ok_default w(3) by simp
  then have short: "length (writer w3) \<le> 13008" using finish_len [OF w3] flush_len [OF w2(1)] by simp
  obtain cache m where s: "s = (cache, m)" by (cases s)
  have start: "initial_row_state [im] = ([True], [[NEIGHBOR_DATA_EMPTY, NEIGHBOR_DATA_EMPTY]], Model_default)"
  proof -
    have "unat (push_bit 1 (get_block_width im)) = Suc (Suc 0)" using im by (simp add: get_block_width_def single_image_def)
    then show ?thesis by (simp add: initial_row_state_def)
  qed
  have step: "encode_row_step lane_ops [tables_of_ones] [im] [1] features sp
      ([True], [[NEIGHBOR_DATA_EMPTY, NEIGHBOR_DATA_EMPTY]], Model_default) w = Ok (([False], [cache], m), w2)"
    using w1(1) w2(1) by (simp add: encode_row_step_def sp_def mcu_row_spec_def models_of_row_def get_color_index_def idx_def s)
  note fields = coll
  obtain r1 r2 where r: "get_row_spec_from_index 1 [im] 1 [1] = Ok r1" "done_rows r1"
    "get_row_spec_from_index 2 [im] 1 [1] = Ok r2" "skip r2 \<and> done_rows r2"
    using one_block_rows [OF im] by blast
  have spec0: "\<not> luma_y sp < 0" "\<not> 1 \<le> luma_y sp" "\<not> skip sp" "\<not> done_rows sp"
    by (simp_all add: sp_def mcu_row_spec_def)
  have "encode_rows 2 lane_ops [tables_of_ones] [im] 1 [1] [1] 0 1 True features 0
      ([True], [[NEIGHBOR_DATA_EMPTY, NEIGHBOR_DATA_EMPTY]], Model_default) w = Some (Ok ((2, [False], [cache], m), w2))"
    by (simp add: numeral_2_eq_2 one_block_rows(1) [OF im, folded sp_def] spec0 step r Let_def)
  then show ?thesis
    by (simp add: lepton_encode_row_range_def Let_def w(1) [THEN eq_reflection] fields start r w3 short)
qed

lemma one_block_encoded:
  "\<exists>c. lepton_encode_row_range 2 lane_ops [tables_of_ones] [empty_image] one_block_truncation 0 1 True True features
    = Some (Ok c)"
  using single_image_encoded [OF empty_image_single, of one_block_truncation features]
  by (auto simp: one_block_truncation_def get_component_sizes_in_blocks_def get_max_coded_heights_def)

end
