(* ===== verification/Bits.thy ===== *)
theory Bits
  imports Helpers
begin

unbundle bit_operations_syntax

text \<open>
  Strings of bits, which is what the bit reader and the bit writer of the JPEG code stand for: the bits
  of a number, most significant first, the bits of a string of bytes, and the byte stuffing of JPEG scans,
  which follows every 0xFF by a zero byte.
\<close>

section \<open>Bits of numbers\<close>

definition bits_of :: "nat \<Rightarrow> nat \<Rightarrow> bool list" where
  "bits_of n v = map (\<lambda>i. odd (v div 2 ^ (n - 1 - i))) [0..<n]"

definition of_bits :: "bool list \<Rightarrow> nat" where
  "of_bits bs = foldl (\<lambda>a b. 2 * a + of_bool b) 0 bs"

lemma pow_split: "k \<le> n \<Longrightarrow> (2::nat) ^ n = 2 ^ k * 2 ^ (n - k)"
  by (metis le_add_diff_inverse power_add)

lemma length_bits_of [simp]: "length (bits_of n v) = n"
  by (simp add: bits_of_def)

lemma bits_of_0 [simp]: "bits_of 0 v = []"
  by (simp add: bits_of_def)

lemma nth_bits_of: "i < n \<Longrightarrow> bits_of n v ! i = odd (v div 2 ^ (n - 1 - i))"
  by (simp add: bits_of_def)

lemma bits_of_Suc: "bits_of (Suc n) v = bits_of n (v div 2) @ [odd v]"
proof (rule nth_equalityI)
  fix i
  assume "i < length (bits_of (Suc n) v)"
  then consider "i < n" | "i = n" by fastforce
  then show "bits_of (Suc n) v ! i = (bits_of n (v div 2) @ [odd v]) ! i"
  proof cases
    case 1
    then have "2 ^ (Suc n - 1 - i) = 2 * (2::nat) ^ (n - 1 - i)"
      by (simp flip: power_Suc add: Suc_diff_Suc)
    with 1 show ?thesis by (simp add: nth_bits_of nth_append div_mult2_eq)
  qed (simp add: nth_bits_of nth_append)
qed simp

lemma bits_of_Cons: "bits_of (Suc n) v = odd (v div 2 ^ n) # bits_of n v"
proof (rule nth_equalityI)
  fix i
  assume "i < length (bits_of (Suc n) v)"
  then show "bits_of (Suc n) v ! i = (odd (v div 2 ^ n) # bits_of n v) ! i"
    by (cases i) (simp_all add: nth_bits_of)
qed simp

lemma of_bits_Nil [simp]: "of_bits [] = 0"
  by (simp add: of_bits_def)

lemma of_bits_snoc [simp]: "of_bits (bs @ [b]) = 2 * of_bits bs + of_bool b"
  by (simp add: of_bits_def)

lemma of_bits_append: "of_bits (bs @ cs) = of_bits bs * 2 ^ length cs + of_bits cs"
proof (induction cs rule: rev_induct)
  case (snoc c cs)
  have "of_bits (bs @ cs @ [c]) = of_bits ((bs @ cs) @ [c])" by simp
  also have "\<dots> = 2 * of_bits (bs @ cs) + of_bool c" by (rule of_bits_snoc)
  finally show ?case using snoc by (simp add: algebra_simps)
qed simp

lemma of_bits_less: "of_bits bs < 2 ^ length bs"
proof (induction bs rule: rev_induct)
  case (snoc b bs)
  then have "of_bits bs + 1 \<le> 2 ^ length bs" by simp
  then have "2 * (of_bits bs + 1) \<le> 2 * 2 ^ length bs" by (rule mult_le_mono2)
  then show ?case by (cases b) simp_all
qed simp

lemma bits_of_of_bits [simp]: "bits_of (length bs) (of_bits bs) = bs"
  by (induction bs rule: rev_induct) (simp_all add: bits_of_Suc)

lemma of_bits_bits_of: "of_bits (bits_of n v) = v mod 2 ^ n"
proof (induction n arbitrary: v)
  case (Suc n)
  have "v mod 2 ^ Suc n = 2 * (v div 2 mod 2 ^ n) + v mod 2" by (simp add: mod_mult2_eq)
  then show ?case by (simp add: bits_of_Suc Suc mod2_eq_if)
qed simp

lemma bits_of_eq_iff: "bits_of n v = bits_of n w \<longleftrightarrow> v mod 2 ^ n = w mod 2 ^ n"
  using of_bits_bits_of [of n] bits_of_of_bits [of "bits_of n v"] bits_of_of_bits [of "bits_of n w"]
  by (metis length_bits_of)

lemma bits_of_mod [simp]: "n \<le> k \<Longrightarrow> bits_of n (v mod 2 ^ k) = bits_of n v"
  by (simp add: bits_of_eq_iff mod_mod_cancel le_imp_power_dvd)

lemma bits_of_append: "bits_of (m + n) v = bits_of m (v div 2 ^ n) @ bits_of n v"
proof (induction n arbitrary: v)
  case (Suc n)
  then show ?case by (simp add: bits_of_Suc div_mult2_eq)
qed simp

lemma bits_of_join: "b < 2 ^ n \<Longrightarrow> bits_of (m + n) (a * 2 ^ n + b) = bits_of m a @ bits_of n b"
  unfolding bits_of_append by (simp add: bits_of_eq_iff)

lemma take_bits_of: "k \<le> n \<Longrightarrow> take k (bits_of n v) = bits_of k (v div 2 ^ (n - k))"
  using bits_of_append [of k "n - k" v] by simp

lemma drop_bits_of: "k \<le> n \<Longrightarrow> drop k (bits_of n v) = bits_of (n - k) v"
  using bits_of_append [of k "n - k" v] by simp

lemma of_bits_take_drop:
  assumes "k \<le> n"
  shows "of_bits (take k (bits_of n v)) = v div 2 ^ (n - k) mod 2 ^ k"
  using assms by (simp add: take_bits_of of_bits_bits_of)

lemma bits_of_zero: "bits_of n 0 = replicate n False"
  by (rule nth_equalityI) (simp_all add: nth_bits_of)

lemma bits_of_ones: "bits_of n (2 ^ n - 1) = replicate n True"
proof (induction n)
  case (Suc n)
  have "(2 ^ Suc n - 1) div 2 = (2::nat) ^ n - 1" by simp
  moreover have "odd ((2::nat) ^ Suc n - 1)" by (simp add: even_diff_nat)
  ultimately show ?case by (simp only: bits_of_Suc Suc replicate_Suc replicate_append_same not_False_eq_True)
qed simp

text \<open>Shifting bits into a register.\<close>

lemma unat_shift_in:
  fixes v w :: "'a::len word"
  assumes w: "unat w < 2 ^ n" and j: "n + j \<le> LENGTH('a)"
  shows "unat (push_bit n v OR w) mod 2 ^ (n + j) = unat v mod 2 ^ j * 2 ^ n + unat w"
proof -
  let ?L = "LENGTH('a)"
  have "(2::nat) ^ ?L = 2 ^ (?L - n) * 2 ^ n" using pow_split [of n ?L] j by (simp add: mult.commute)
  then have p: "unat (push_bit n v) = unat v mod 2 ^ (?L - n) * 2 ^ n"
    unfolding unat_push_bit by (simp only: mult_mod_left)
  then have or: "unat (push_bit n v OR w) = unat v mod 2 ^ (?L - n) * 2 ^ n + unat w"
    using unat_or_disjoint [OF p w] by simp
  have "(x * 2 ^ n + y) mod (2 ^ n * k) = x mod k * 2 ^ n + y" if "y < 2 ^ n" for x y k :: nat
    using that by (simp add: mod_mult2_eq)
  then have "unat (push_bit n v OR w) mod (2 ^ n * 2 ^ j) = unat v mod 2 ^ (?L - n) mod 2 ^ j * 2 ^ n + unat w"
    unfolding or using w by blast
  also have "unat v mod 2 ^ (?L - n) mod 2 ^ j = unat v mod 2 ^ j"
    using j by (subst mod_mod_cancel) (simp_all add: le_imp_power_dvd)
  finally show ?thesis by (simp only: power_add)
qed

section \<open>Bits of bytes\<close>

definition byte_bits :: "u8 \<Rightarrow> bool list" where
  "byte_bits b = bits_of 8 (unat b)"

definition bytes_bits :: "bytes \<Rightarrow> bool list" where
  "bytes_bits bs = concat (map byte_bits bs)"

lemma length_byte_bits [simp]: "length (byte_bits b) = 8"
  by (simp add: byte_bits_def)

lemma bytes_bits_simps [simp]:
  "bytes_bits [] = []" "bytes_bits (b # bs) = byte_bits b @ bytes_bits bs"
  "bytes_bits (bs @ cs) = bytes_bits bs @ bytes_bits cs"
  by (simp_all add: bytes_bits_def)

lemma length_bytes_bits [simp]: "length (bytes_bits bs) = 8 * length bs"
  by (induction bs) simp_all

lemma bytes_bits_take: "bytes_bits (take n bs) = take (8 * n) (bytes_bits bs)"
proof (induction bs arbitrary: n)
  case (Cons b bs)
  then show ?case by (cases n) simp_all
qed simp

lemma bytes_bits_drop: "bytes_bits (drop n bs) = drop (8 * n) (bytes_bits bs)"
proof (induction bs arbitrary: n)
  case (Cons b bs)
  then show ?case by (cases n) simp_all
qed simp

lemma bytes_bits_be_val: "bytes_bits bs = bits_of (8 * length bs) (be_val bs)"
proof (induction bs rule: rev_induct)
  case (snoc b bs)
  have "bits_of (8 * length bs + 8) (be_val bs * 2 ^ 8 + unat b) = bits_of (8 * length bs) (be_val bs) @ byte_bits b"
    using unat_lt2p [of b] by (subst bits_of_join) (simp_all add: byte_bits_def)
  then show ?case using snoc by (simp add: add.commute)
qed simp

lemma byte_bits_ucast: "byte_bits (ucast w) = bits_of 8 (unat w)"
  unfolding byte_bits_def unat_ucast using bits_of_mod [of 8 8 "unat w"] by simp

lemma bytes_bits_be_bytes: "bytes_bits (be_bytes n w) = bits_of (8 * n) (unat w)"
  by (simp add: bytes_bits_be_val be_val_be_bytes pow256)

lemma byte_bits_inject: "byte_bits a = byte_bits b \<longleftrightarrow> a = b"
proof -
  have "unat a < 2 ^ 8" "unat b < 2 ^ 8" using unat_lt2p [of a] unat_lt2p [of b] by simp_all
  then show ?thesis by (simp add: byte_bits_def bits_of_eq_iff word_unat_eq_iff)
qed

lemma bytes_bits_inject: "bytes_bits as = bytes_bits bs \<longleftrightarrow> as = bs"
proof
  assume "bytes_bits as = bytes_bits bs"
  then show "as = bs"
  proof (induction as arbitrary: bs)
    case Nil
    then have "8 * length bs = 0" by (metis length_bytes_bits list.size(3) mult_0_right)
    then show ?case by simp
  next
    case (Cons a as)
    then have "8 * length bs = 8 * Suc (length as)" by (metis length_bytes_bits length_Cons)
    then obtain b cs where bs: "bs = b # cs" by (cases bs) auto
    from Cons.prems [unfolded bs] have "byte_bits a = byte_bits b" "bytes_bits as = bytes_bits cs" by simp_all
    then show ?case using Cons.IH bs by (simp add: byte_bits_inject)
  qed
qed simp

text \<open>Bytes that are partly used.\<close>

lemma byte_gap: "x + y = 8 * k \<Longrightarrow> y < 8 \<Longrightarrow> y = (8 - x mod 8) mod 8 \<and> k = (x + 7) div (8 :: nat)"
proof
  assume xy: "x + y = 8 * k" and y: "y < 8"
  have "(x mod 8 + y) mod 8 = 0" using xy by (metis mod_add_left_eq mod_mult_self1_is_0)
  moreover have "list_all (\<lambda>r. list_all (\<lambda>y. (r + y) mod 8 = 0 \<longrightarrow> y = (8 - r) mod 8) [0..<8]) [0..<8]" by code_simp
  then have "(r + y) mod 8 = 0 \<longrightarrow> y = (8 - r) mod 8" if "r < 8" for r
    using that y unfolding list_all_iff by simp
  ultimately show "y = (8 - x mod 8) mod 8" by simp
  have "x + 7 = 8 * k + (7 - y)" using xy y by linarith
  then show "k = (x + 7) div 8" using y by simp
qed

lemma byte_round: "(d + 7) div 8 = (if d mod 8 = 0 then d div 8 else Suc (d div (8 :: nat)))"
proof -
  have "(d + 7) div 8 = d div 8 + (d mod 8 + 7) div 8"
    using div_mult_self3 [of 8 "d div 8" "d mod 8 + 7"] by (simp add: add.assoc [symmetric])
  moreover have "list_all (\<lambda>r. (r + 7) div 8 = (if r = 0 then 0 else 1 :: nat)) [0..<8]" by code_simp
  then have "(d mod 8 + 7) div 8 = (if d mod 8 = 0 then 0 else 1)" unfolding list_all_iff by simp
  ultimately show ?thesis by simp
qed

lemma byte_left: "0 < d mod 8 \<Longrightarrow> 0 < (8 - d mod 8) mod (8 :: nat) \<and> ((8 - d mod 8) mod 8 + 7) div 8 = 1"
proof -
  have "list_all (\<lambda>r. 0 < r \<longrightarrow> 0 < (8 - r) mod (8 :: nat) \<and> ((8 - r) mod 8 + 7) div 8 = 1) [0..<8]" by code_simp
  then show "0 < d mod 8 \<Longrightarrow> 0 < (8 - d mod 8) mod (8 :: nat) \<and> ((8 - d mod 8) mod 8 + 7) div 8 = 1"
    unfolding list_all_iff by simp
qed

section \<open>Byte stuffing\<close>

fun stuff :: "bytes \<Rightarrow> bytes" where
  "stuff [] = []"
| "stuff (b # bs) = (if b = 0xFF then 0xFF # 0 # stuff bs else b # stuff bs)"

lemma stuff_append [simp]: "stuff (bs @ cs) = stuff bs @ stuff cs"
  by (induction bs) simp_all

lemma stuff_no_ff: "0xFF \<notin> set bs \<Longrightarrow> stuff bs = bs"
  by (induction bs) auto

lemma stuff_inject: "stuff as = stuff bs \<longleftrightarrow> as = bs"
proof
  show "stuff as = stuff bs \<Longrightarrow> as = bs"
  proof (induction as arbitrary: bs)
    case Nil
    then show ?case by (cases bs) (auto split: if_splits)
  next
    case (Cons a as)
    then show ?case by (cases bs) (auto split: if_splits)
  qed
qed simp

text \<open>What follows the stuffed bytes of a scan: nothing, a lone 0xFF at the end of the file, or a
  marker. Every string of bytes is stuffed bytes with such a rest.\<close>

definition scan_end :: "bytes \<Rightarrow> bool" where
  "scan_end tail \<longleftrightarrow> tail = [] \<or> tail = [0xFF] \<or> (\<exists>m rest. tail = 0xFF # m # rest \<and> m \<noteq> 0)"

lemma scan_split: "\<exists>zs tail. bs = stuff zs @ tail \<and> scan_end tail"
proof (induction bs rule: stuff.induct)
  case (2 b bs)
  show ?case
  proof (cases "b = 0xFF")
    case False
    with 2 obtain zs tail where "bs = stuff zs @ tail \<and> scan_end tail" by blast
    with False have "b # bs = stuff (b # zs) @ tail \<and> scan_end tail" by simp
    then show ?thesis by blast
  next
    case True
    show ?thesis
    proof (cases bs)
      case Nil
      with True show ?thesis by (intro exI [of _ "[]"] exI [of _ "b # bs"]) (simp add: scan_end_def)
    next
      case (Cons m cs)
      show ?thesis
      proof (cases "m = 0")
        case m: False
        with True Cons show ?thesis
          by (intro exI [of _ "[]"] exI [of _ "b # bs"]) (simp add: scan_end_def)
      next
        case m: True
        have "\<exists>zs tail. cs = stuff zs @ tail \<and> scan_end tail"
        proof -
          from 2 True obtain zs tail where z: "bs = stuff zs @ tail" "scan_end tail" by auto
          with Cons m have "zs \<noteq> []" by (auto simp: scan_end_def)
          then obtain z ys where "zs = z # ys" by (cases zs) auto
          with z Cons m have "cs = stuff ys @ tail" by (auto split: if_splits)
          with z show ?thesis by blast
        qed
        then obtain zs tail where "cs = stuff zs @ tail \<and> scan_end tail" by blast
        then have "b # bs = stuff (0xFF # zs) @ tail \<and> scan_end tail" using True Cons m by simp
        then show ?thesis by blast
      qed
    qed
  qed
qed (intro exI [of _ "[]"], simp add: scan_end_def)

lemma stuff_prefix_no_ff:
  assumes "scan_end tail" "n \<le> length (stuff zs @ tail)" "0xFF \<notin> set (take n (stuff zs @ tail))"
  shows "n \<le> length zs \<and> take n (stuff zs @ tail) = take n zs \<and> drop n (stuff zs @ tail) = stuff (drop n zs) @ tail"
  using assms(2,3)
proof (induction zs arbitrary: n)
  case Nil
  then show ?case using assms(1) by (cases n) (auto simp: scan_end_def)
next
  case (Cons z zs)
  show ?case
  proof (cases n)
    case (Suc k)
    with Cons.prems have "z \<noteq> 0xFF" by (auto split: if_splits)
    with Cons Suc show ?thesis by simp
  qed simp
qed

end
