(* ===== verification/Bit_Writer.thy ===== *)
theory Bit_Writer
  imports Bits
begin

unbundle bit_operations_syntax

text \<open>
  The bit writer of the JPEG encoder (\<open>jpeg/bit_writer.rs\<close>): a 64-bit register that is filled from the
  top, and a buffer of bytes in which every 0xFF is followed by a zero byte. The relation \<open>wrote\<close> states
  which bits have been written since the last marker; every operation appends to them.
\<close>

section \<open>Operations\<close>

text \<open>The capacity of the buffer selects between two ways to append 8 bytes. It is a field of its own,
  and so is the choice of the allocator for a buffer that has to grow (\<open>grow\<close>, from the old capacity and
  the length that is needed).\<close>

record BitWriter =
  data_buffer :: bytes
  buf_capacity :: usize
  grow :: "usize \<Rightarrow> usize \<Rightarrow> usize"
  fill_register :: u64
  current_bit :: u32

definition BitWriter_new :: "bytes \<Rightarrow> usize \<Rightarrow> (usize \<Rightarrow> usize \<Rightarrow> usize) \<Rightarrow> BitWriter" where
  "BitWriter_new buf cap alloc =
    \<lparr>data_buffer = buf, buf_capacity = cap, grow = alloc, fill_register = 0, current_bit = 64\<rparr>"

definition reserve_to :: "usize \<Rightarrow> BitWriter \<Rightarrow> BitWriter" where
  "reserve_to needed w =
    (if needed \<le> buf_capacity w then w else w\<lparr>buf_capacity := max needed (grow w (buf_capacity w) needed)\<rparr>)"

definition append_data :: "bytes \<Rightarrow> BitWriter \<Rightarrow> BitWriter" where
  "append_data bs w =
    (let w = reserve_to (length (data_buffer w) + length bs) w in w\<lparr>data_buffer := data_buffer w @ bs\<rparr>)"

text \<open>One byte with its escape, \<open>if b != 0xff \<dots> else \<dots>\<close>.\<close>

definition push_escaped :: "u8 \<Rightarrow> BitWriter \<Rightarrow> BitWriter" where
  "push_escaped b w = (if b \<noteq> 0xFF then append_data [b] w else append_data [0xFF, 0] w)"

function flush_whole_bytes :: "BitWriter \<Rightarrow> BitWriter" where
  "flush_whole_bytes w =
    (if current_bit w \<le> 56
     then let b = ucast (drop_bit 56 (fill_register w))
          in flush_whole_bytes ((push_escaped b w)\<lparr>fill_register := push_bit 8 (fill_register w),
               current_bit := current_bit w + 8\<rparr>)
     else w)"
  by pat_completeness auto

lemma current_bit_append_data [simp]:
  "current_bit (append_data bs w) = current_bit w" "fill_register (append_data bs w) = fill_register w"
  "data_buffer (append_data bs w) = data_buffer w @ bs"
  by (simp_all add: append_data_def reserve_to_def Let_def)

lemma push_escaped_simps [simp]:
  "current_bit (push_escaped b w) = current_bit w" "fill_register (push_escaped b w) = fill_register w"
  "data_buffer (push_escaped b w) = data_buffer w @ stuff [b]"
  by (simp_all add: push_escaped_def)

termination flush_whole_bytes
  by (relation "measure (\<lambda>w. 64 - unat (current_bit w))")
    (auto simp: word_le_nat_alt unat_word_ariths)

declare flush_whole_bytes.simps [simp del]

definition write_byte_unescaped :: "u8 \<Rightarrow> BitWriter \<Rightarrow> BitWriter result" where
  "write_byte_unescaped b w = bindR (assertR (current_bit w = 64)) (\<lambda>_. Ok (append_data [b] w))"

definition write_ff_encoded :: "u64 \<Rightarrow> BitWriter \<Rightarrow> BitWriter" where
  "write_ff_encoded fill w = fold (\<lambda>i w. push_escaped (ucast (drop_bit (56 - i * 8) fill)) w) [0..<8] w"

text \<open>A shift by the width of the operand or more is masked (\<open>wrapping_shl\<close>, \<open>wrapping_shr\<close>).\<close>

definition write_bits :: "u32 \<Rightarrow> u32 \<Rightarrow> BitWriter \<Rightarrow> BitWriter" where
  "write_bits val new_bits w =
    (if new_bits \<le> current_bit w
     then w\<lparr>fill_register := fill_register w OR push_bit (unat (current_bit w - new_bits) mod 64) (ucast val),
            current_bit := current_bit w - new_bits\<rparr>
     else
       let fill = fill_register w OR drop_bit (unat (new_bits - current_bit w) mod 64) (ucast val);
           leftover_new_bits = new_bits - current_bit w;
           leftover_val = val AND (push_bit (unat leftover_new_bits mod 32) 1 - 1);
           w = (if has_ff fill \<or> nat ((int (buf_capacity w) - int (length (data_buffer w))) mod 2 ^ 64) < 8
                then write_ff_encoded fill w
                else append_data (be_bytes 8 fill) w)
       in w\<lparr>fill_register := push_bit (unat (64 - leftover_new_bits) mod 64) (ucast leftover_val),
            current_bit := 64 - leftover_new_bits\<rparr>)"

text \<open>The loop of \<open>pad\<close> runs at most seven times.\<close>

fun pad_loop :: "nat \<Rightarrow> u8 \<Rightarrow> u8 \<Rightarrow> BitWriter \<Rightarrow> BitWriter" where
  "pad_loop 0 fillbit offset w = w"
| "pad_loop (Suc n) fillbit offset w =
    (if current_bit w AND 7 \<noteq> 0
     then pad_loop n fillbit (push_bit 1 offset) (write_bits (if fillbit AND offset \<noteq> 0 then 1 else 0) 1 w)
     else w)"

definition pad :: "u8 \<Rightarrow> BitWriter \<Rightarrow> BitWriter" where
  "pad fillbit w = flush_whole_bytes (pad_loop 7 fillbit 1 w)"

definition detach_buffer :: "BitWriter \<Rightarrow> bytes \<times> BitWriter" where
  "detach_buffer w = (let w = flush_whole_bytes w in (data_buffer w, w\<lparr>data_buffer := [], buf_capacity := 0\<rparr>))"

definition ensure_space :: "usize \<Rightarrow> BitWriter \<Rightarrow> BitWriter" where
  "ensure_space amount w =
    (if buf_capacity w < amount then reserve_to (length (data_buffer w) + (amount - length (data_buffer w))) w else w)"

definition reset_from_overhang_byte_and_num_bits :: "u8 \<Rightarrow> u32 \<Rightarrow> BitWriter \<Rightarrow> BitWriter" where
  "reset_from_overhang_byte_and_num_bits overhang_byte num_bits w =
    w\<lparr>data_buffer := [], fill_register := push_bit 56 (ucast overhang_byte), current_bit := 64 - num_bits\<rparr>"

definition has_no_remainder :: "BitWriter \<Rightarrow> bool" where
  "has_no_remainder w \<longleftrightarrow> current_bit w = 64"

definition amount_buffered :: "BitWriter \<Rightarrow> usize" where
  "amount_buffered w = length (data_buffer w)"

section \<open>What has been written\<close>

text \<open>Behind the bytes \<open>pre\<close> (which end with a marker, or are empty) the bits \<open>bs\<close> have been written.\<close>

definition wrote :: "BitWriter \<Rightarrow> bytes \<Rightarrow> bool list \<Rightarrow> bool" where
  "wrote w pre bs \<longleftrightarrow> (\<exists>ys. data_buffer w = pre @ stuff ys \<and>
     bs = bytes_bits ys @ bits_of (64 - unat (current_bit w)) (unat (fill_register w) div 2 ^ unat (current_bit w)) \<and>
     unat (current_bit w) \<le> 64 \<and> unat (fill_register w) mod 2 ^ unat (current_bit w) = 0)"

lemma wroteI:
  assumes "data_buffer w = pre @ stuff ys" "unat (current_bit w) = k" "unat (fill_register w) = a * 2 ^ k"
    and "k \<le> 64" "bs = bytes_bits ys @ bits_of (64 - k) a"
  shows "wrote w pre bs"
  using assms by (auto simp: wrote_def)

lemma wroteE:
  assumes "wrote w pre bs"
  obtains ys k a where "data_buffer w = pre @ stuff ys" "unat (current_bit w) = k" "k \<le> 64"
    "unat (fill_register w) = a * 2 ^ k" "a < 2 ^ (64 - k)" "bs = bytes_bits ys @ bits_of (64 - k) a"
proof -
  from assms obtain ys where w: "data_buffer w = pre @ stuff ys"
    "bs = bytes_bits ys @ bits_of (64 - unat (current_bit w)) (unat (fill_register w) div 2 ^ unat (current_bit w))"
    "unat (current_bit w) \<le> 64" "unat (fill_register w) mod 2 ^ unat (current_bit w) = 0"
    by (auto simp: wrote_def)
  define k a where ka: "k = unat (current_bit w)" "a = unat (fill_register w) div 2 ^ k"
  have a: "unat (fill_register w) = a * 2 ^ k" using w(4) ka by (metis div_mult_mod_eq add.right_neutral)
  have "(2::nat) ^ 64 = 2 ^ (64 - k) * 2 ^ k" using pow_split [of k 64] w(3) ka(1) by (simp only: mult.commute)
  moreover have "a * 2 ^ k < 2 ^ 64" using unat_lt2p [of "fill_register w"] by (simp only: flip: a) simp
  ultimately have "a < 2 ^ (64 - k)" by (simp only: mult_less_cancel2)
  with that w ka a show ?thesis by blast
qed

lemma wrote_new: "wrote (BitWriter_new buf cap alloc) buf []"
  by (rule wroteI [of _ _ "[]" 64 0]) (simp_all add: BitWriter_new_def)

lemma wrote_reset:
  assumes "unat num_bits \<le> 8" "unat overhang_byte mod 2 ^ (8 - unat num_bits) = 0"
  shows "wrote (reset_from_overhang_byte_and_num_bits overhang_byte num_bits w) []
    (take (unat num_bits) (byte_bits overhang_byte))"
proof (rule wroteI [of _ _ "[]" "64 - unat num_bits" "unat overhang_byte div 2 ^ (8 - unat num_bits)"])
  let ?n = "unat num_bits"
  have cb: "unat (64 - num_bits) = 64 - ?n" using assms(1) by (simp add: unat_sub word_le_nat_alt)
  then show "unat (current_bit (reset_from_overhang_byte_and_num_bits overhang_byte num_bits w)) = 64 - ?n"
    by (simp add: reset_from_overhang_byte_and_num_bits_def)
  have b: "unat overhang_byte < 2 ^ 8" using unat_lt2p [of overhang_byte] by simp
  have "unat (push_bit 56 (ucast overhang_byte) :: u64) = unat overhang_byte * 2 ^ 56"
    using b by (subst unat_push_bit_small) (simp_all add: unat_ucast)
  also have "\<dots> = unat overhang_byte div 2 ^ (8 - ?n) * 2 ^ (8 - ?n) * 2 ^ 56"
    using assms(2) by (metis div_mult_mod_eq add.right_neutral)
  also have "\<dots> = unat overhang_byte div 2 ^ (8 - ?n) * 2 ^ (64 - ?n)"
  proof -
    have "64 - ?n = (8 - ?n) + 56" using assms(1) by simp
    then show ?thesis by (simp only: power_add mult.assoc)
  qed
  finally show "unat (fill_register (reset_from_overhang_byte_and_num_bits overhang_byte num_bits w)) = \<dots>"
    by (simp add: reset_from_overhang_byte_and_num_bits_def)
  have "64 - (64 - ?n) = ?n" using assms(1) by simp
  then show "take ?n (byte_bits overhang_byte) = bytes_bits [] @ bits_of (64 - (64 - ?n)) (unat overhang_byte div 2 ^ (8 - ?n))"
    using assms(1) by (simp add: byte_bits_def take_bits_of)
qed (simp_all add: reset_from_overhang_byte_and_num_bits_def)

section \<open>Writing bits\<close>

lemma fold_push_escaped:
  "data_buffer (fold (\<lambda>i. push_escaped (f i)) xs w) = data_buffer w @ stuff (map f xs)"
  "current_bit (fold (\<lambda>i. push_escaped (f i)) xs w) = current_bit w"
  "fill_register (fold (\<lambda>i. push_escaped (f i)) xs w) = fill_register w"
  by (induction xs arbitrary: w) simp_all

lemma write_ff_encoded_simps [simp]:
  "data_buffer (write_ff_encoded fill w) = data_buffer w @ stuff (be_bytes 8 fill)"
  "current_bit (write_ff_encoded fill w) = current_bit w"
  "fill_register (write_ff_encoded fill w) = fill_register w"
proof -
  have "map (\<lambda>i. ucast (drop_bit (56 - i * 8) fill)) [0..<8] = be_bytes 8 fill"
    by (simp add: be_bytes_def upt_rec)
  then show "data_buffer (write_ff_encoded fill w) = data_buffer w @ stuff (be_bytes 8 fill)"
    by (simp only: write_ff_encoded_def fold_push_escaped)
qed (simp_all only: write_ff_encoded_def fold_push_escaped)

lemma write_wrote:
  assumes w: "wrote w pre bs" and val: "unat val < 2 ^ unat new_bits" and n: "unat new_bits \<le> 31"
  shows "wrote (write_bits val new_bits w) pre (bs @ bits_of (unat new_bits) (unat val))"
proof -
  let ?n = "unat new_bits" and ?v = "unat val"
  obtain ys k a where data: "data_buffer w = pre @ stuff ys" "bs = bytes_bits ys @ bits_of (64 - k) a"
    and k: "unat (current_bit w) = k" "k \<le> 64" and a: "unat (fill_register w) = a * 2 ^ k" "a < 2 ^ (64 - k)"
    using w by (rule wroteE)
  have v64: "unat (ucast val :: u64) = ?v" using unat_lt2p [of val] by (simp add: unat_ucast)
  show ?thesis
  proof (cases "?n \<le> k")
    case True
    then have cb: "unat (current_bit w - new_bits) = k - ?n"
      using k by (simp add: unat_sub word_le_nat_alt)
    note pk = pow_split [OF True]
    have less: "?v * 2 ^ (k - ?n) < 2 ^ k" using val pk by simp
    have small: "?v * 2 ^ (k - ?n) < 2 ^ 64"
      using less power_increasing [OF k(2), of "2 :: nat"] by linarith
    have shift: "unat (push_bit ((k - ?n) mod 64) (ucast val) :: u64) = ?v * 2 ^ (k - ?n)"
    proof (cases "k - ?n = 64")
      case True
      then have "?n = 0" using k by simp
      then show ?thesis using val True v64 by simp
    next
      case False
      then have "(k - ?n) mod 64 = k - ?n" using k by simp
      then show ?thesis using small by (simp add: unat_push_bit_small v64)
    qed
    have "unat (fill_register w OR push_bit ((k - ?n) mod 64) (ucast val)) = a * 2 ^ k + ?v * 2 ^ (k - ?n)"
      using unat_or_disjoint [OF a(1), of "push_bit ((k - ?n) mod 64) (ucast val)"] less shift a(1) by simp
    also have "\<dots> = (a * 2 ^ ?n + ?v) * 2 ^ (k - ?n)" by (simp add: pk algebra_simps)
    finally have fr: "unat (fill_register w OR push_bit ((k - ?n) mod 64) (ucast val)) = (a * 2 ^ ?n + ?v) * 2 ^ (k - ?n)" .
    have "64 - (k - ?n) = (64 - k) + ?n" using True k by simp
    then have bits: "bits_of (64 - (k - ?n)) (a * 2 ^ ?n + ?v) = bits_of (64 - k) a @ bits_of ?n ?v"
      using val by (simp only: bits_of_join)
    have "write_bits val new_bits w = w\<lparr>fill_register := fill_register w OR push_bit ((k - ?n) mod 64) (ucast val),
        current_bit := current_bit w - new_bits\<rparr>"
      using True k(1) by (simp add: write_bits_def word_le_nat_alt cb)
    then show ?thesis
      using data k(2) by (intro wroteI [OF _ _ _ _ _, of _ _ ys "k - ?n" "a * 2 ^ ?n + ?v"]) (simp_all add: cb fr bits)
  next
    case False
    define l where "l = ?n - k"
    have l: "0 < l" "l \<le> 31" "?n = k + l" using False n by (simp_all add: l_def)
    have cb: "unat (new_bits - current_bit w) = l"
      unfolding l_def using k(1) False by (subst unat_sub) (simp_all add: word_le_nat_alt)
    define fill where "fill = (fill_register w OR drop_bit (l mod 64) (ucast val) :: u64)"
    have "?v div 2 ^ l < 2 ^ k" using val l(3) by (simp add: power_add less_mult_imp_div_less)
    moreover have "unat (drop_bit (l mod 64) (ucast val) :: u64) = ?v div 2 ^ l"
      using l by (simp add: unat_drop_bit v64)
    ultimately have fill: "unat fill = a * 2 ^ k + ?v div 2 ^ l" "?v div 2 ^ l < 2 ^ k"
      using unat_or_disjoint [OF a(1), of "drop_bit (l mod 64) (ucast val)"] a(1) by (simp_all add: fill_def)
    define left where "left = val AND (push_bit (l mod 32) 1 - 1)"
    have "push_bit l 1 - 1 = (mask l :: u32)" by (simp add: mask_eq_exp_minus_1 push_bit_eq_mult)
    then have left: "unat left = ?v mod 2 ^ l" using l by (simp add: left_def unat_and_mask)
    then have left64: "unat (ucast left :: u64) = ?v mod 2 ^ l" using unat_lt2p [of left] by (simp add: unat_ucast)
    define w1 where "w1 = (if has_ff fill \<or> nat ((int (buf_capacity w) - int (length (data_buffer w))) mod 2 ^ 64) < 8
      then write_ff_encoded fill w else append_data (be_bytes 8 fill) w)"
    have w1: "data_buffer w1 = pre @ stuff (ys @ be_bytes 8 fill)"
      using data(1) by (auto simp: w1_def has_ff_iff stuff_no_ff)
    have eq: "write_bits val new_bits w = w1\<lparr>fill_register := push_bit (unat (64 - (new_bits - current_bit w)) mod 64) (ucast left),
        current_bit := 64 - (new_bits - current_bit w)\<rparr>"
      using False k(1) unfolding write_bits_def Let_def cb by (simp add: word_le_nat_alt fill_def left_def w1_def)
    have cb': "unat (64 - (new_bits - current_bit w)) = 64 - l"
      using cb l by (simp add: unat_sub word_le_nat_alt)
    have "?v mod 2 ^ l * 2 ^ (64 - l) < 2 ^ l * 2 ^ (64 - l)" by simp
    also have "\<dots> = 2 ^ 64" using pow_split [of l 64] l(2) by linarith
    finally have fr: "unat (push_bit ((64 - l) mod 64) (ucast left) :: u64) = ?v mod 2 ^ l * 2 ^ (64 - l)"
      using l left64 by (simp add: unat_push_bit_small)
    have "(64 - k) + k = 64" using k by simp
    then have "bits_of 64 (unat fill) = bits_of (64 - k) a @ bits_of k (?v div 2 ^ l)"
      using bits_of_join [OF fill(2), of "64 - k" a] by (simp only: fill(1))
    moreover have "bits_of ?n ?v = bits_of k (?v div 2 ^ l) @ bits_of l (?v mod 2 ^ l)"
      by (simp add: l(3) bits_of_append)
    ultimately have bits: "bs @ bits_of ?n ?v = bytes_bits (ys @ be_bytes 8 fill) @ bits_of l (?v mod 2 ^ l)"
      by (simp add: data(2) bytes_bits_be_bytes)
    have "64 - (64 - l) = l" using l by simp
    then show ?thesis
      using w1 by (intro wroteI [OF _ _ _ _ _, of _ _ "ys @ be_bytes 8 fill" "64 - l" "?v mod 2 ^ l"])
        (simp_all add: eq cb' fr bits)
  qed
qed

section \<open>Flushing and padding\<close>

lemma flush_wrote:
  assumes "wrote w pre bs"
  shows "wrote (flush_whole_bytes w) pre bs \<and> 56 < unat (current_bit (flush_whole_bytes w))
    \<and> unat (current_bit (flush_whole_bytes w)) mod 8 = unat (current_bit w) mod 8"
  using assms
proof (induction w rule: flush_whole_bytes.induct)
  case (1 w)
  show ?case
  proof (cases "current_bit w \<le> 56")
    case False
    then show ?thesis using 1(2) by (subst (1 2 3) flush_whole_bytes.simps) (simp add: word_le_nat_alt)
  next
    case True
    obtain ys k a where data: "data_buffer w = pre @ stuff ys" "bs = bytes_bits ys @ bits_of (64 - k) a"
      and k: "unat (current_bit w) = k" "k \<le> 64" and a: "unat (fill_register w) = a * 2 ^ k" "a < 2 ^ (64 - k)"
      using 1(2) by (rule wroteE)
    have k56: "k \<le> 56" using True k by (simp add: word_le_nat_alt)
    define b where "b = (ucast (drop_bit 56 (fill_register w)) :: u8)"
    define w1 where "w1 = (push_escaped b w)\<lparr>fill_register := push_bit 8 (fill_register w), current_bit := current_bit w + 8\<rparr>"
    note p56 = pow_split [OF k56]
    have "a * 2 ^ k div 2 ^ 56 = a div 2 ^ (56 - k)"
      unfolding p56 mult.commute [of a] by (rule div_mult_mult1) simp
    moreover have "64 - k = 8 + (56 - k)" using k56 by simp
    then have q: "(2::nat) ^ (64 - k) = 2 ^ 8 * 2 ^ (56 - k)" by (simp only: power_add)
    then have "a div 2 ^ (56 - k) < 2 ^ 8" using a(2) by (simp only: less_mult_imp_div_less)
    ultimately have b: "unat b = a div 2 ^ (56 - k)" by (simp add: b_def unat_ucast unat_drop_bit a(1))
    have "a * 2 ^ k * 2 ^ 8 = a * 2 ^ (k + 8)" by (simp add: power_add)
    moreover have "(2::nat) ^ 64 = 2 ^ (56 - k) * 2 ^ (k + 8)" using pow_split [of "56 - k" 64] k56 by (simp add: add.commute)
    moreover have len64: "LENGTH(64) = 64" by simp
    ultimately have fr: "unat (push_bit 8 (fill_register w)) = a mod 2 ^ (56 - k) * 2 ^ (k + 8)"
      unfolding unat_push_bit a(1) len64 by (simp only: mult_mod_left)
    have cb: "unat (current_bit w + 8) = k + 8" using k56 by (simp only: unat_word_ariths k(1)) simp
    have "bits_of (64 - k) a = byte_bits b @ bits_of (56 - k) a"
      using bits_of_append [of 8 "56 - k" a] k56 by (simp add: byte_bits_def b)
    then have "wrote w1 pre bs"
      using data fr k56 by (intro wroteI [OF _ _ _ _ _, of _ _ "ys @ [b]" "k + 8" "a mod 2 ^ (56 - k)"]) (simp_all add: w1_def cb)
    moreover have "unat (current_bit w1) = k + 8" by (simp add: w1_def cb)
    moreover have "flush_whole_bytes w = flush_whole_bytes w1"
      using True by (subst flush_whole_bytes.simps) (simp add: b_def w1_def Let_def)
    ultimately show ?thesis using 1(1) [OF True refl] k by (simp add: b_def w1_def)
  qed
qed

text \<open>The bits \<open>pad\<close> appends to \<open>n\<close> bits: the bits of \<open>fillbit\<close> up to the next byte.\<close>

definition pad_bits :: "u8 \<Rightarrow> nat \<Rightarrow> bool list" where
  "pad_bits fillbit n = map (bit fillbit) [0..<(8 - n mod 8) mod 8]"

lemma word_and_7: "w AND 7 \<noteq> 0 \<longleftrightarrow> unat (w :: u32) mod 8 \<noteq> 0"
  using unat_and_mask [of w 3] by (simp add: mask_eq_exp_minus_1 unat_eq_0 [symmetric])

lemma pad_loop_wrote:
  assumes "wrote w pre bs" "unat (current_bit w) mod 8 \<le> n"
  shows "wrote (pad_loop n fillbit (push_bit i 1) w) pre (bs @ map (bit fillbit) [i..<i + unat (current_bit w) mod 8])
    \<and> unat (current_bit (pad_loop n fillbit (push_bit i 1) w)) mod 8 = 0"
  using assms
proof (induction n arbitrary: w bs i)
  case (Suc n)
  show ?case
  proof (cases "unat (current_bit w) mod 8 = 0")
    case True
    then show ?thesis using Suc.prems by (simp add: word_and_7)
  next
    case False
    define c where "c = unat (current_bit w)"
    define v where "v = (if fillbit AND push_bit i 1 \<noteq> 0 then 1 else 0 :: u32)"
    have "c mod 8 \<noteq> 0" unfolding c_def by (rule False)
    then have c: "c mod 8 = Suc ((c - 1) mod 8)" "1 \<le> c"
      by (cases c; simp add: mod_Suc split: if_splits)+
    have "fillbit AND push_bit i 1 \<noteq> 0 \<longleftrightarrow> bit fillbit i"
      by (simp add: push_bit_eq_mult and_exp_eq_0_iff_not_bit)
    then have vb: "unat v = of_bool (bit fillbit i)" by (simp add: v_def)
    have v: "unat v < 2 ^ unat (1 :: u32)" "bits_of (unat (1 :: u32)) (unat v) = [bit fillbit i]"
      unfolding vb by (simp_all add: bits_of_Suc [of 0, simplified])
    have w1: "wrote (write_bits v 1 w) pre (bs @ [bit fillbit i])"
      using write_wrote [OF Suc.prems(1) v(1)] v(2) by simp
    have cb: "unat (current_bit (write_bits v 1 w)) = c - 1"
    proof -
      have "(1 :: u32) \<le> current_bit w" using c(2) by (simp add: word_le_nat_alt c_def)
      then show ?thesis by (simp add: write_bits_def c_def unat_sub)
    qed
    then have "unat (current_bit (write_bits v 1 w)) mod 8 \<le> n" using Suc.prems(2) c c_def by simp
    from Suc.IH [OF w1 this, of "Suc i"] have ih:
      "wrote (pad_loop n fillbit (push_bit (Suc i) 1) (write_bits v 1 w)) pre
        ((bs @ [bit fillbit i]) @ map (bit fillbit) [Suc i..<Suc i + (c - 1) mod 8])
       \<and> unat (current_bit (pad_loop n fillbit (push_bit (Suc i) 1) (write_bits v 1 w))) mod 8 = 0"
      by (simp only: cb)
    have "push_bit 1 (push_bit i (1 :: u8)) = push_bit (Suc i) 1" by (simp only: push_bit_push_bit) simp
    then have "pad_loop (Suc n) fillbit (push_bit i 1) w = pad_loop n fillbit (push_bit (Suc i) 1) (write_bits v 1 w)"
      using False by (simp only: pad_loop.simps word_and_7 v_def) simp
    moreover have "[i..<i + c mod 8] = i # [Suc i..<Suc i + (c - 1) mod 8]"
      unfolding c(1) by (simp only: add_Suc_right add_Suc upt_conv_Cons less_Suc_eq_le le_add1)
    ultimately show ?thesis
      using ih by (simp only: c_def [symmetric] list.map append_assoc append.simps)
  qed
qed simp

lemma wrote_length: "wrote w pre bs \<Longrightarrow> (8 - length bs mod 8) mod 8 = unat (current_bit w) mod 8"
proof -
  assume "wrote w pre bs"
  then obtain ys :: bytes and k a :: nat where "unat (current_bit w) = k" "k \<le> 64" "bs = bytes_bits ys @ bits_of (64 - k) a"
    by (rule wroteE)
  moreover have "list_all (\<lambda>k. (8 - (64 - k) mod 8) mod 8 = k mod 8) [0..<Suc 64]" by code_simp
  then have "(8 - (64 - k) mod 8) mod 8 = k mod 8" if "k \<le> 64" for k :: nat
    using that unfolding list_all_iff by (simp del: upt_Suc)
  moreover have "(8 * n + (64 - k)) mod 8 = (64 - k) mod 8" for n k :: nat by simp
  ultimately show ?thesis by (simp only: length_append length_bytes_bits length_bits_of)
qed

lemma pad_wrote:
  assumes "wrote w pre bs"
  shows "wrote (pad fillbit w) pre (bs @ pad_bits fillbit (length bs))" "current_bit (pad fillbit w) = 64"
proof -
  have "unat (current_bit w) mod 8 \<le> 7" by simp
  from pad_loop_wrote [OF assms this, of fillbit 0]
  have loop: "wrote (pad_loop 7 fillbit 1 w) pre (bs @ pad_bits fillbit (length bs))"
    "unat (current_bit (pad_loop 7 fillbit 1 w)) mod 8 = 0"
    by (simp_all add: pad_bits_def wrote_length [OF assms])
  from flush_wrote [OF loop(1)] loop(2)
  show p: "wrote (pad fillbit w) pre (bs @ pad_bits fillbit (length bs))"
    and "current_bit (pad fillbit w) = 64"
  proof -
    assume f: "wrote (flush_whole_bytes (pad_loop 7 fillbit 1 w)) pre (bs @ pad_bits fillbit (length bs))
      \<and> 56 < unat (current_bit (flush_whole_bytes (pad_loop 7 fillbit 1 w)))
      \<and> unat (current_bit (flush_whole_bytes (pad_loop 7 fillbit 1 w))) mod 8 = unat (current_bit (pad_loop 7 fillbit 1 w)) mod 8"
    show "wrote (pad fillbit w) pre (bs @ pad_bits fillbit (length bs))" using f by (simp add: pad_def)
    have "unat (current_bit (pad fillbit w)) \<le> 64" using f by (auto simp: pad_def elim: wroteE)
    moreover have "56 < unat (current_bit (pad fillbit w))" "unat (current_bit (pad fillbit w)) mod 8 = 0"
      using f loop(2) by (simp_all add: pad_def)
    ultimately have "unat (current_bit (pad fillbit w)) = 64" by presburger
    then show "current_bit (pad fillbit w) = 64" by (simp add: word_unat_eq_iff)
  qed
qed

text \<open>A writer on a byte boundary holds only whole bytes: its buffer is the stuffed bytes of the bits.\<close>

lemma wrote_aligned:
  assumes "wrote w pre bs" "current_bit w = 64"
  obtains ys where "data_buffer w = pre @ stuff ys" "bytes_bits ys = bs" "fill_register w = 0"
proof -
  from assms(1) obtain ys :: bytes and k a where w: "data_buffer w = pre @ stuff ys" "unat (current_bit w) = k"
    "unat (fill_register w) = a * 2 ^ k" "a < 2 ^ (64 - k)" "bs = bytes_bits ys @ bits_of (64 - k) a"
    by (rule wroteE)
  moreover have "k = 64" using w(2) assms(2) by simp
  ultimately show ?thesis using that by (simp add: unat_eq_0)
qed

lemma wrote_marker:
  assumes "wrote w pre bs" "current_bit w = 64"
  shows "wrote (append_data m w) (data_buffer w @ m) []"
proof (rule wroteI [of _ _ "[]" 64 0])
  from assms obtain ys where "fill_register w = 0" by (metis wrote_aligned)
  then show "unat (fill_register (append_data m w)) = 0 * 2 ^ 64" by simp
qed (simp_all add: assms(2))

end
