(* ===== verification/Bit_Reader.thy ===== *)
theory Bit_Reader
  imports Bits
begin

unbundle bit_operations_syntax

text \<open>
  The bit reader of the JPEG decoder (\<open>jpeg/bit_reader.rs\<close>): a 64-bit register that is filled from a
  buffered stream, eight bytes at a time where none of them is 0xFF, byte by byte otherwise, with the
  stuffing of 0xFF removed. The relation \<open>reads\<close> states how many bits of the current interval between two
  markers have been read, wherever the reader has put the bytes it has read ahead.
\<close>

section \<open>The buffered stream\<close>

text \<open>\<open>std::io::BufRead\<close> over a stream of bytes that does not fail: the position, the bytes that have not
  been consumed, how many of them are in the buffer, and how many bytes a refill at a position asks
  for. Nothing below depends on the sizes of the refills.\<close>

record BufRead =
  position :: u64
  unread :: bytes
  buffered :: usize
  refill :: "u64 \<Rightarrow> usize"

definition fill_buf :: "BufRead \<Rightarrow> bytes \<times> BufRead" where
  "fill_buf i =
    (let i = (if buffered i = 0 then i\<lparr>buffered := min (length (unread i)) (max 1 (refill i (position i)))\<rparr> else i)
     in (take (buffered i) (unread i), i))"

definition consume :: "usize \<Rightarrow> BufRead \<Rightarrow> BufRead" where
  "consume n i =
    i\<lparr>position := position i + of_nat n, unread := drop n (unread i), buffered := buffered i - n\<rparr>"

text \<open>\<open>read\<close> into an array of one byte, and \<open>read_exact\<close>.\<close>

definition read_byte :: "BufRead \<Rightarrow> u8 option \<times> BufRead" where
  "read_byte i = (case fill_buf i of (b # _, i) \<Rightarrow> (Some b, consume 1 i) | ([], i) \<Rightarrow> (None, i))"

fun read_exact :: "nat \<Rightarrow> BufRead \<Rightarrow> (bytes \<times> BufRead) result" where
  "read_exact 0 i = Ok ([], i)"
| "read_exact (Suc n) i =
    (case read_byte i of
       (None, i) \<Rightarrow> err_exit_code ShortRead
     | (Some b, i) \<Rightarrow> bindR (read_exact n i) (\<lambda>(bs, i). Ok (b # bs, i)))"

section \<open>Operations\<close>

record BitReader =
  inner :: BufRead
  bits :: u64
  bits_left :: u32
  cpos :: u32
  eof :: bool
  truncated_ff :: bool
  read_ahead_bytes :: u32

definition BitReader_new :: "BufRead \<Rightarrow> BitReader" where
  "BitReader_new i = \<lparr>inner = i, bits = 0, bits_left = 0, cpos = 0, eof = False, truncated_ff = False,
     read_ahead_bytes = 0\<rparr>"

definition push_byte :: "u8 \<Rightarrow> BitReader \<Rightarrow> BitReader" where
  "push_byte b r = r\<lparr>bits := push_bit 8 (bits r) OR ucast b, bits_left := bits_left r + 8\<rparr>"

definition slow_step :: "BitReader \<Rightarrow> BitReader result" where
  "slow_step r =
    (case read_byte (inner r) of
       (None, i) \<Rightarrow> Ok (push_byte 0 (r\<lparr>inner := i, eof := True\<rparr>))
     | (Some b, i) \<Rightarrow>
         if b = 0xFF
         then (case read_byte i of
                 (None, i) \<Rightarrow> Ok ((push_byte 0xFF r)\<lparr>inner := i, truncated_ff := True\<rparr>)
               | (Some m, i) \<Rightarrow>
                   if m = 0 then Ok ((push_byte 0xFF r)\<lparr>inner := i\<rparr>)
                   else err_exit_code InvalidResetCode)
         else Ok ((push_byte b r)\<lparr>inner := i\<rparr>))"

text \<open>The loop adds 8 bits each time; the bound on its steps is not reached (\<open>slow_reads\<close>).\<close>

fun slow_loop :: "nat \<Rightarrow> u32 \<Rightarrow> BitReader \<Rightarrow> BitReader result" where
  "slow_loop 0 bits_to_read r = panic"
| "slow_loop (Suc n) bits_to_read r =
    bindR (slow_step r) (\<lambda>r. if bits_to_read \<le> bits_left r then Ok r else slow_loop n bits_to_read r)"

definition fill_register_slow :: "u32 \<Rightarrow> BitReader \<Rightarrow> BitReader result" where
  "fill_register_slow bits_to_read r = slow_loop (Suc (unat bits_to_read)) bits_to_read r"

text \<open>\<open>u64::to_be\<close> on a little-endian machine.\<close>

definition to_be :: "u64 \<Rightarrow> u64" where
  "to_be v = of_nat (be_val (le_bytes 8 v))"

definition reader_fill_register :: "u32 \<Rightarrow> BitReader \<Rightarrow> BitReader result" where
  "reader_fill_register bits_to_read r =
    (let (fb, i) = fill_buf (consume (unat (read_ahead_bytes r)) (inner r));
         v = of_nat (from_le_bytes (take 8 fb))
     in if length fb < 8 \<or> has_ff v
        then fill_register_slow bits_to_read (r\<lparr>inner := i, read_ahead_bytes := 0\<rparr>)
        else
          let bytes_to_read = (63 - bits_left r) div 8;
              left = bits_left r + bytes_to_read * 8;
              ahead = (left - bits_to_read) div 8
          in Ok (r\<lparr>inner := consume (unat (bytes_to_read - ahead)) i,
                   bits := push_bit (unat (bytes_to_read * 8) mod 64) (bits r)
                     OR drop_bit (unat (64 - bytes_to_read * 8) mod 64) (to_be v),
                   bits_left := left, read_ahead_bytes := ahead\<rparr>))"

definition read :: "u32 \<Rightarrow> BitReader \<Rightarrow> (u16 \<times> BitReader) result" where
  "read bits_to_read r =
    (if bits_to_read = 0 then Ok (0, r)
     else bindR (if bits_left r < bits_to_read then reader_fill_register bits_to_read r else Ok r) (\<lambda>r.
       Ok (ucast (drop_bit (unat (bits_left r - bits_to_read) mod 64) (bits r)
             AND (push_bit (unat bits_to_read mod 64) 1 - 1)),
           r\<lparr>bits_left := bits_left r - bits_to_read\<rparr>)))"

definition peek :: "BitReader \<Rightarrow> u8 \<times> u32" where
  "peek r = (ucast (drop_bit 56 (push_bit (unat (64 - bits_left r) mod 64) (bits r))), bits_left r)"

definition advance :: "u32 \<Rightarrow> BitReader \<Rightarrow> BitReader" where
  "advance n r = r\<lparr>bits_left := bits_left r - n\<rparr>"

definition is_eof :: "BitReader \<Rightarrow> bool" where
  "is_eof r = eof r"

function put_back :: "BitReader \<Rightarrow> BitReader" where
  "put_back r =
    (if 8 \<le> bits_left r \<and> 0 < read_ahead_bytes r
     then put_back (r\<lparr>bits_left := bits_left r - 8, bits := drop_bit 8 (bits r),
                      read_ahead_bytes := read_ahead_bytes r - 1\<rparr>)
     else r)"
  by pat_completeness auto

termination put_back
  by (relation "measure (\<lambda>r. unat (bits_left r))") (auto simp: word_le_nat_alt unat_sub)

declare put_back.simps [simp del]

definition undo_read_ahead :: "BitReader \<Rightarrow> BitReader" where
  "undo_read_ahead r =
    (let r = put_back r
     in if 0 < read_ahead_bytes r
        then r\<lparr>inner := consume (unat (read_ahead_bytes r)) (inner r), read_ahead_bytes := 0\<rparr> else r)"

definition stream_position :: "BitReader \<Rightarrow> u64 \<times> BitReader" where
  "stream_position r =
    (let r = undo_read_ahead r; pos = position (inner r)
     in (if 0 < bits_left r \<and> \<not> eof r
         then (if ucast (bits r) = (0xFF :: u8) \<and> \<not> truncated_ff r then pos - 2 else pos - 1)
         else pos, r))"

definition read_and_verify_fill_bits :: "u8 option \<Rightarrow> BitReader \<Rightarrow> (u8 option \<times> BitReader) result" where
  "read_and_verify_fill_bits pad_bit r =
    (let r = undo_read_ahead r
     in if 0 < bits_left r \<and> \<not> eof r
        then bindR (read (bits_left r) r) (\<lambda>(actual, r').
          let all_one = push_bit (unat (bits_left r) mod 16) 1 - 1
          in case pad_bit of
               None \<Rightarrow>
                 if actual = 0 then Ok (Some 0, r')
                 else if actual = all_one then Ok (Some 0xFF, r')
                 else err_exit_code InvalidPadding
             | Some x \<Rightarrow>
                 if actual \<noteq> ucast x AND all_one then err_exit_code InvalidPadding else Ok (pad_bit, r'))
        else Ok (pad_bit, r))"

definition RST0 :: u8 where
  "RST0 = 0xD0"

definition verify_reset_code :: "BitReader \<Rightarrow> BitReader result" where
  "verify_reset_code r =
    (let r = undo_read_ahead r
     in bindR (read_exact 2 (inner r)) (\<lambda>(h, i).
          if h ! 0 \<noteq> 0xFF \<or> h ! 1 \<noteq> RST0 + (ucast (cpos r) AND 7) then err_exit_code InvalidResetCode
          else Ok (r\<lparr>inner := i, cpos := cpos r + 1, bits := 0, bits_left := 0\<rparr>)))"

definition overhang :: "BitReader \<Rightarrow> (u8 \<times> u8) \<times> BitReader" where
  "overhang r =
    (let r = undo_read_ahead r;
         bits_already_read = ucast ((64 - bits_left r) AND 7) :: u8;
         m = ucast (push_bit (unat (8 - bits_already_read)) (push_bit (unat bits_already_read) (1 :: i32) - 1)) :: u8
     in ((bits_already_read, ucast (bits r) AND m), r))"

section \<open>What has been read\<close>

text \<open>The interval starts at position \<open>p\<close>, has the bytes \<open>xs\<close> without their stuffing and ends with
  \<open>tail\<close>; \<open>d\<close> of its bits have been read. The reader has consumed \<open>m\<close> of the bytes, has
  \<open>read_ahead_bytes\<close> more in its register, and \<open>bits_left\<close> bits of the register are unread.\<close>

definition window :: "bytes \<Rightarrow> nat \<Rightarrow> nat \<Rightarrow> bytes" where
  "window xs n c = drop (n - c) (take n xs)"

definition reads_at :: "BitReader \<Rightarrow> u64 \<Rightarrow> bytes \<Rightarrow> bytes \<Rightarrow> nat \<Rightarrow> nat \<Rightarrow> bool" where
  "reads_at r p xs tail d m \<longleftrightarrow>
    (let a = unat (read_ahead_bytes r); l = unat (bits_left r); n = m + a; c = (l + 7) div 8
     in unread (inner r) = stuff (drop m xs) @ tail \<and> scan_end tail \<and>
        position (inner r) = p + of_nat (length (stuff (take m xs))) \<and>
        n \<le> length xs \<and> 0xFF \<notin> set (take a (drop m xs)) \<and> a \<le> buffered (inner r) \<and>
        d + l = 8 * n \<and> l \<le> 63 \<and> \<not> eof r \<and> \<not> truncated_ff r \<and>
        unat (bits r) mod 2 ^ (8 * c) = be_val (window xs n c))"

definition reads :: "BitReader \<Rightarrow> u64 \<Rightarrow> bytes \<Rightarrow> bytes \<Rightarrow> nat \<Rightarrow> bool" where
  "reads r p xs tail d \<longleftrightarrow> (\<exists>m. reads_at r p xs tail d m)"

text \<open>Less than a byte of the register has been consumed from the stream but not been read
  (\<open>settled\<close>). This is so between the operations of the decoder, and what \<open>undo_read_ahead\<close> relies
  on. While a code is being read it may be so only after \<open>e\<close> more bits (\<open>slack\<close>).\<close>

definition slack :: "nat \<Rightarrow> BitReader \<Rightarrow> bool" where
  "slack e r \<longleftrightarrow> unat (bits_left r) < 8 * (unat (read_ahead_bytes r) + 1) + e"

definition settled :: "BitReader \<Rightarrow> bool" where
  "settled r \<longleftrightarrow> unat (bits_left r) < 8 * (unat (read_ahead_bytes r) + 1)"

lemma settled_slack: "settled r \<longleftrightarrow> slack 0 r"
  by (simp add: settled_def slack_def)

lemma length_window: "c \<le> n \<Longrightarrow> n \<le> length xs \<Longrightarrow> length (window xs n c) = c"
  by (simp add: window_def)

lemma window_extend:
  assumes "c \<le> n" "n + k \<le> length xs"
  shows "window xs (n + k) (c + k) = window xs n c @ take k (drop n xs)"
  using assms by (simp add: window_def take_add)

lemma window_shrink:
  assumes "c' \<le> c" "c \<le> n" "n \<le> length xs"
  shows "be_val (window xs n c') = be_val (window xs n c) mod 2 ^ (8 * c')"
proof -
  have "window xs n c = take (c - c') (window xs n c) @ window xs n c'"
  proof -
    have "drop (c - c') (window xs n c) = window xs n c'"
      using assms by (simp add: window_def)
    then show ?thesis by (metis append_take_drop_id)
  qed
  then have "be_val (window xs n c) = be_val (take (c - c') (window xs n c)) * 256 ^ length (window xs n c') + be_val (window xs n c')"
    by (metis be_val_append)
  moreover have "length (window xs n c') = c'" using assms by (simp add: length_window)
  moreover have "be_val (window xs n c') < 256 ^ length (window xs n c')" by (rule be_val_upper)
  ultimately show ?thesis by (simp add: pow256)
qed

lemma reads_atD:
  assumes "reads_at r p xs tail d m"
  shows "unread (inner r) = stuff (drop m xs) @ tail" "scan_end tail"
    "position (inner r) = p + of_nat (length (stuff (take m xs)))"
    "m + unat (read_ahead_bytes r) \<le> length xs"
    "0xFF \<notin> set (take (unat (read_ahead_bytes r)) (drop m xs))"
    "unat (read_ahead_bytes r) \<le> buffered (inner r)"
    "d + unat (bits_left r) = 8 * (m + unat (read_ahead_bytes r))" "unat (bits_left r) \<le> 63"
    "\<not> eof r" "\<not> truncated_ff r"
    "unat (bits r) mod 2 ^ (8 * ((unat (bits_left r) + 7) div 8))
      = be_val (window xs (m + unat (read_ahead_bytes r)) ((unat (bits_left r) + 7) div 8))"
    "(unat (bits_left r) + 7) div 8 \<le> m + unat (read_ahead_bytes r)"
proof -
  note * = assms [unfolded reads_at_def Let_def]
  from * show "unread (inner r) = stuff (drop m xs) @ tail" "scan_end tail"
    "position (inner r) = p + of_nat (length (stuff (take m xs)))"
    "m + unat (read_ahead_bytes r) \<le> length xs"
    "0xFF \<notin> set (take (unat (read_ahead_bytes r)) (drop m xs))"
    "unat (read_ahead_bytes r) \<le> buffered (inner r)"
    "unat (bits_left r) \<le> 63" "\<not> eof r" "\<not> truncated_ff r"
    "unat (bits r) mod 2 ^ (8 * ((unat (bits_left r) + 7) div 8))
      = be_val (window xs (m + unat (read_ahead_bytes r)) ((unat (bits_left r) + 7) div 8))" by blast+
  from * show "d + unat (bits_left r) = 8 * (m + unat (read_ahead_bytes r))" by blast
  then have "unat (bits_left r) + 7 < 8 * Suc (m + unat (read_ahead_bytes r))" by simp
  then show "(unat (bits_left r) + 7) div 8 \<le> m + unat (read_ahead_bytes r)"
    using less_mult_imp_div_less [of _ "Suc (m + unat (read_ahead_bytes r))" 8] by (simp add: mult.commute less_Suc_eq_le)
qed

lemma reads_atI:
  assumes "unat (read_ahead_bytes r) = a" "unat (bits_left r) = l" "c = (l + 7) div 8" "n = m + a"
    and "unread (inner r) = stuff (drop m xs) @ tail" "scan_end tail"
    and "position (inner r) = p + of_nat (length (stuff (take m xs)))"
    and "n \<le> length xs" "0xFF \<notin> set (take a (drop m xs))" "a \<le> buffered (inner r)"
    and "d + l = 8 * n" "l \<le> 63" "\<not> eof r" "\<not> truncated_ff r"
    and "unat (bits r) mod 2 ^ (8 * c) = be_val (window xs n c)"
  shows "reads_at r p xs tail d m"
  using assms unfolding reads_at_def Let_def by (simp only:) simp

lemma reads_new:
  assumes "unread i = stuff xs @ tail" "scan_end tail"
  shows "reads (BitReader_new i) (position i) xs tail 0" "settled (BitReader_new i)"
proof -
  have "reads_at (BitReader_new i) (position i) xs tail 0 0"
    using assms by (simp add: reads_at_def BitReader_new_def window_def)
  then show "reads (BitReader_new i) (position i) xs tail 0" by (auto simp: reads_def)
qed (simp add: settled_def BitReader_new_def)

text \<open>The unread bits of the register are the next bits of the interval.\<close>

lemma register_bits:
  assumes "reads_at r p xs tail d m"
  shows "bits_of (unat (bits_left r)) (unat (bits r)) = take (unat (bits_left r)) (drop d (bytes_bits xs))"
proof -
  let ?l = "unat (bits_left r)" and ?n = "m + unat (read_ahead_bytes r)"
  note D = reads_atD [OF assms]
  define c where "c = (?l + 7) div 8"
  have c: "?l \<le> 8 * c" "c \<le> ?n" using D(12) by (simp_all add: c_def)
  have "bits_of ?l (unat (bits r)) = drop (8 * c - ?l) (bits_of (8 * c) (unat (bits r)))"
    using c(1) by (simp add: drop_bits_of)
  also have "bits_of (8 * c) (unat (bits r)) = bits_of (8 * c) (unat (bits r) mod 2 ^ (8 * c))" by simp
  also have "\<dots> = bits_of (8 * length (window xs ?n c)) (be_val (window xs ?n c))"
    using D(11) c(2) D(4) by (simp only: c_def [symmetric] length_window)
  also have "\<dots> = bytes_bits (window xs ?n c)" by (rule bytes_bits_be_val [symmetric])
  also have "\<dots> = drop (8 * (?n - c)) (take (8 * ?n) (bytes_bits xs))"
    by (simp only: window_def bytes_bits_drop bytes_bits_take)
  also have "drop (8 * c - ?l) \<dots> = drop (8 * ?n - ?l) (take (8 * ?n) (bytes_bits xs))"
    using c by (simp add: diff_mult_distrib2 algebra_simps)
  also have "8 * ?n - ?l = d" using D(7) by simp
  also have "drop d (take (8 * ?n) (bytes_bits xs)) = take ?l (drop d (bytes_bits xs))"
    by (simp only: drop_take flip: D(7)) simp
  finally show ?thesis .
qed

lemma reads_length: "reads r p xs tail d \<Longrightarrow> d \<le> 8 * length xs"
proof -
  assume "reads r p xs tail d"
  then obtain m where "reads_at r p xs tail d m" by (auto simp: reads_def)
  note D = reads_atD(4,7) [OF this]
  have "d \<le> 8 * (m + unat (read_ahead_bytes r))" unfolding D(2) [symmetric] by simp
  also have "\<dots> \<le> 8 * length xs" using D(1) by (rule mult_le_mono2)
  finally show ?thesis .
qed

lemma reads_at_advance:
  assumes R: "reads_at r p xs tail d m" and k: "unat k \<le> unat (bits_left r)"
  shows "reads_at (advance k r) p xs tail (d + unat k) m"
proof -
  note D = reads_atD [OF R]
  let ?l = "unat (bits_left r)" and ?l' = "unat (bits_left r) - unat k" and ?n = "m + unat (read_ahead_bytes r)"
  have l: "unat (bits_left r - k) = ?l'" using k by (simp add: unat_sub word_le_nat_alt)
  have c: "(?l' + 7) div 8 \<le> (?l + 7) div 8" by simp
  have "unat (bits r) mod 2 ^ (8 * ((?l' + 7) div 8))
    = unat (bits r) mod 2 ^ (8 * ((?l + 7) div 8)) mod 2 ^ (8 * ((?l' + 7) div 8))"
    using c by (subst mod_mod_cancel) (simp_all add: le_imp_power_dvd)
  also have "\<dots> = be_val (window xs ?n ((?l' + 7) div 8))"
    unfolding D(11) using window_shrink [OF c D(12) D(4)] by simp
  finally have "unat (bits r) mod 2 ^ (8 * ((?l' + 7) div 8)) = be_val (window xs ?n ((?l' + 7) div 8))" .
  then show ?thesis
    using D k unfolding reads_at_def Let_def advance_def by (simp add: l)
qed

section \<open>Refilling the register\<close>

text \<open>The bytes that were read ahead have all been read: they are consumed.\<close>

lemma reads_at_consume:
  assumes R: "reads_at r p xs tail d m"
  defines "a \<equiv> unat (read_ahead_bytes r)"
  shows "reads_at (r\<lparr>inner := consume a (inner r), read_ahead_bytes := 0\<rparr>) p xs tail d (m + a)"
proof -
  note D = reads_atD [OF R]
  have nf: "0xFF \<notin> set (take a (drop m xs))" and a: "m + a \<le> length xs" using D by (simp_all add: a_def)
  have split: "drop m xs = take a (drop m xs) @ drop (m + a) xs"
    by (metis append_take_drop_id drop_drop add.commute)
  have "stuff (drop m xs) = take a (drop m xs) @ stuff (drop (m + a) xs)"
    using nf by (subst split) (simp add: stuff_no_ff)
  moreover have "length (take a (drop m xs)) = a" using a by simp
  ultimately have "drop a (stuff (drop m xs) @ tail) = stuff (drop (m + a) xs) @ tail" by simp
  moreover have "stuff (take (m + a) xs) = stuff (take m xs) @ take a (drop m xs)"
    using nf by (simp add: take_add stuff_no_ff)
  ultimately show ?thesis
    using D a unfolding reads_at_def Let_def by (simp add: consume_def a_def)
qed

lemma unread_fill_buf [simp]: "unread (snd (fill_buf i)) = unread i" "position (snd (fill_buf i)) = position i"
  by (simp_all add: fill_buf_def Let_def)

lemma read_byte_Cons:
  "unread i = b # bs \<Longrightarrow> \<exists>j. read_byte i = (Some b, j) \<and> unread j = bs \<and> position j = position i + 1"
  by (cases "buffered i"; auto simp: read_byte_def fill_buf_def consume_def Let_def take_Cons' split: list.splits)

lemma read_byte_Nil: "unread i = [] \<Longrightarrow> \<exists>j. read_byte i = (None, j) \<and> unread j = [] \<and> position j = position i"
  by (auto simp: read_byte_def fill_buf_def Let_def)

text \<open>One byte moves from the stream to the register.\<close>

lemma reads_at_push:
  assumes R: "reads_at r p xs tail d m" and a: "read_ahead_bytes r = 0" and m: "m < length xs"
    and l: "unat (bits_left r) \<le> 55"
    and i: "unread i = stuff (drop (Suc m) xs) @ tail" "position i = p + of_nat (length (stuff (take (Suc m) xs)))"
  shows "reads_at ((push_byte (xs ! m) r)\<lparr>inner := i\<rparr>) p xs tail d (Suc m)"
proof -
  note D = reads_atD [OF R]
  define c where "c = (unat (bits_left r) + 7) div 8"
  have left: "unat (bits_left r + 8) = unat (bits_left r) + 8"
    using l by (simp only: unat_word_ariths) simp
  then have c: "(unat (bits_left r + 8) + 7) div 8 = c + 1" by (simp add: c_def)
  have b: "unat (ucast (xs ! m) :: u64) = unat (xs ! m)" "unat (xs ! m) < 2 ^ 8"
    using unat_lt2p [of "xs ! m"] by (simp_all add: unat_ucast)
  have c7: "c \<le> 7" using l by (simp add: c_def)
  have "unat (push_bit 8 (bits r) OR ucast (xs ! m)) mod 2 ^ (8 + 8 * c) = unat (bits r) mod 2 ^ (8 * c) * 2 ^ 8 + unat (xs ! m)"
    using unat_shift_in [of "ucast (xs ! m) :: u64" 8 "8 * c" "bits r"] b c7 by simp
  also have "\<dots> = be_val (window xs m c @ [xs ! m])" using D(11) a by (simp add: c_def)
  also have "window xs m c @ [xs ! m] = window xs (m + 1) (c + 1)"
    using window_extend [of c m 1 xs] m D(12) a by (simp add: c_def take_Suc_conv_app_nth hd_drop_conv_nth take_Suc)
  finally have "unat (push_bit 8 (bits r) OR ucast (xs ! m)) mod 2 ^ (8 + 8 * c) = be_val (window xs (m + 1) (c + 1))" .
  then show ?thesis
    using D a m l i c unfolding reads_at_def Let_def by (simp add: push_byte_def left)
qed

lemma slow_step_reads:
  assumes R: "reads_at r p xs tail d m" and a: "read_ahead_bytes r = 0" and m: "m < length xs"
    and l: "unat (bits_left r) \<le> 55"
  shows "\<exists>r'. slow_step r = Ok r' \<and> reads_at r' p xs tail d (Suc m) \<and> read_ahead_bytes r' = 0
    \<and> unat (bits_left r') = unat (bits_left r) + 8 \<and> cpos r' = cpos r"
proof -
  note D = reads_atD [OF R]
  have split: "drop m xs = xs ! m # drop (Suc m) xs" using m by (simp add: Cons_nth_drop_Suc)
  have take: "stuff (take (Suc m) xs) = stuff (take m xs) @ stuff [xs ! m]" using m by (simp add: take_Suc_conv_app_nth)
  have left: "unat (bits_left r + 8) = unat (bits_left r) + 8"
    using l by (simp only: unat_word_ariths) simp
  show ?thesis
  proof (cases "xs ! m = 0xFF")
    case True
    then have "unread (inner r) = 0xFF # 0 # stuff (drop (Suc m) xs) @ tail" using D(1) split by simp
    then obtain i j where "read_byte (inner r) = (Some 0xFF, i)" "read_byte i = (Some 0, j)"
      and j: "unread j = stuff (drop (Suc m) xs) @ tail" "position j = position (inner r) + 1 + 1"
      using read_byte_Cons by metis
    then have "slow_step r = Ok ((push_byte (xs ! m) r)\<lparr>inner := j\<rparr>)" by (simp add: slow_step_def True)
    moreover have "position j = p + of_nat (length (stuff (take (Suc m) xs)))"
      using j(2) D(3) True by (simp add: take)
    ultimately show ?thesis using reads_at_push [OF R a m l j(1)] a by (auto simp: push_byte_def left)
  next
    case False
    then have "unread (inner r) = xs ! m # stuff (drop (Suc m) xs) @ tail" using D(1) split by simp
    then obtain i where i: "read_byte (inner r) = (Some (xs ! m), i)"
      "unread i = stuff (drop (Suc m) xs) @ tail" "position i = position (inner r) + 1"
      using read_byte_Cons by metis
    then have "slow_step r = Ok ((push_byte (xs ! m) r)\<lparr>inner := i\<rparr>)" by (simp add: slow_step_def False)
    moreover have "position i = p + of_nat (length (stuff (take (Suc m) xs)))"
      using i(3) D(3) False by (simp add: take)
    ultimately show ?thesis using reads_at_push [OF R a m l i(2)] a by (auto simp: push_byte_def left)
  qed
qed

text \<open>A marker in the way is an error, and nothing but an error.\<close>

lemma slow_step_marker:
  assumes R: "reads_at r p xs (0xFF # k # rest) d m" and a: "read_ahead_bytes r = 0" and m: "m = length xs" and k: "k \<noteq> 0"
  shows "slow_step r = err_exit_code InvalidResetCode"
proof -
  have "unread (inner r) = 0xFF # k # rest" using reads_atD(1) [OF R] m by simp
  then obtain i j where "read_byte (inner r) = (Some 0xFF, i)" "read_byte i = (Some k, j)"
    using read_byte_Cons by metis
  then show ?thesis using k by (simp add: slow_step_def)
qed

lemma slow_loop_reads:
  assumes "reads_at r p xs tail d m" "read_ahead_bytes r = 0" "unat (bits_left r) < unat n" "unat n \<le> 16"
    and "d + unat n \<le> 8 * length xs" "unat n \<le> unat (bits_left r) + 8 * f"
  shows "\<exists>r' m'. slow_loop f n r = Ok r' \<and> reads_at r' p xs tail d m' \<and> read_ahead_bytes r' = 0
    \<and> unat n \<le> unat (bits_left r') \<and> unat (bits_left r') < unat n + 8 \<and> cpos r' = cpos r"
  using assms
proof (induction f arbitrary: r m)
  case (Suc f)
  note D = reads_atD [OF Suc.prems(1)]
  have "8 * m < 8 * length xs" using D(7) Suc.prems(2,3,5) by simp
  then obtain r1 where r1: "slow_step r = Ok r1" "reads_at r1 p xs tail d (Suc m)" "read_ahead_bytes r1 = 0"
    "unat (bits_left r1) = unat (bits_left r) + 8" "cpos r1 = cpos r"
    using slow_step_reads [OF Suc.prems(1,2)] Suc.prems(3,4) by auto
  show ?case
  proof (cases "n \<le> bits_left r1")
    case True
    then show ?thesis using r1 Suc.prems(3) by (auto simp: word_le_nat_alt)
  next
    case False
    then have "unat (bits_left r1) < unat n" by (simp add: word_le_nat_alt)
    moreover have "unat n \<le> unat (bits_left r1) + 8 * f" using Suc.prems(6) r1(4) by simp
    ultimately show ?thesis using Suc.IH [OF r1(2,3)] Suc.prems(4,5) r1 False by simp
  qed
qed simp

lemma slow_reads:
  assumes "reads_at r p xs tail d m" "read_ahead_bytes r = 0" "unat (bits_left r) < unat n" "unat n \<le> 16"
    and "d + unat n \<le> 8 * length xs"
  shows "\<exists>r' m'. fill_register_slow n r = Ok r' \<and> reads_at r' p xs tail d m' \<and> read_ahead_bytes r' = 0
    \<and> unat n \<le> unat (bits_left r') \<and> unat (bits_left r') < unat n + 8 \<and> cpos r' = cpos r"
  unfolding fill_register_slow_def by (rule slow_loop_reads [OF assms]) simp

lemma slow_loop_marker:
  assumes "reads_at r p xs (0xFF # k # rest) d m" "read_ahead_bytes r = 0" "unat (bits_left r) < unat n" "unat n \<le> 16"
    and "8 * length xs < d + unat n" "unat n \<le> unat (bits_left r) + 8 * f" "k \<noteq> 0"
  shows "slow_loop f n r = err_exit_code InvalidResetCode"
  using assms
proof (induction f arbitrary: r m)
  case (Suc f)
  note D = reads_atD [OF Suc.prems(1)]
  show ?case
  proof (cases "m = length xs")
    case True
    show ?thesis using slow_step_marker [OF Suc.prems(1,2) True Suc.prems(7)] by simp
  next
    case False
    then have "m < length xs" using D(4) Suc.prems(2) by simp
    then obtain r1 where r1: "slow_step r = Ok r1" "reads_at r1 p xs (0xFF # k # rest) d (Suc m)" "read_ahead_bytes r1 = 0"
      "unat (bits_left r1) = unat (bits_left r) + 8"
      using slow_step_reads [OF Suc.prems(1,2)] Suc.prems(3,4) by auto
    have "unat (bits_left r1) < unat n"
    proof -
      note D1 = reads_atD(4,7) [OF r1(2)]
      have "8 * Suc m \<le> 8 * length xs" using D1(1) r1(3) by simp
      then show ?thesis using D1(2) r1(3) Suc.prems(5) by simp
    qed
    moreover have "unat n \<le> unat (bits_left r1) + 8 * f" using Suc.prems(6) r1(4) by simp
    ultimately show ?thesis
      using Suc.IH [OF r1(2,3)] Suc.prems(4,5,7) r1(1) by (simp add: word_le_nat_alt)
  qed
qed simp

text \<open>Eight bytes at once.\<close>

lemma le_bytes_from_le_bytes:
  "8 * length bs \<le> LENGTH('a) \<Longrightarrow> le_bytes (length bs) (of_nat (from_le_bytes bs) :: 'a::len word) = bs"
proof -
  have less: "from_le_bytes bs < 256 ^ length bs" for bs
  proof (induction bs)
    case (Cons b bs)
    then have "256 * (from_le_bytes bs + 1) \<le> 256 * 256 ^ length bs" by (intro mult_le_mono2) simp
    then show ?case using unat_lt2p [of b] by simp
  qed simp
  have small: "unat (of_nat (from_le_bytes bs) :: 'a word) = from_le_bytes bs" if "8 * length bs \<le> LENGTH('a)" for bs
  proof -
    have "from_le_bytes bs < 2 ^ (8 * length bs)" using less [of bs] by (simp only: pow256)
    also have "\<dots> \<le> 2 ^ LENGTH('a)" using that by (intro power_increasing) simp_all
    finally show ?thesis by (simp add: unat_of_nat)
  qed
  show "8 * length bs \<le> LENGTH('a) \<Longrightarrow> le_bytes (length bs) (of_nat (from_le_bytes bs) :: 'a word) = bs"
  proof (induction bs)
    case (Cons b bs)
    define w where "w = (of_nat (from_le_bytes (b # bs)) :: 'a word)"
    have w: "unat w = unat b + 256 * from_le_bytes bs"
      using small [OF Cons.prems] unfolding w_def by (simp only: from_le_bytes.simps)
    have "ucast w = b" using unat_lt2p [of b] by (simp add: word_unat_eq_iff unat_ucast w)
    moreover have "drop_bit 8 w = of_nat (from_le_bytes bs)"
      using small [of bs] Cons.prems unat_lt2p [of b] by (simp add: word_unat_eq_iff unat_drop_bit w)
    ultimately show ?case using Cons unfolding w_def [symmetric] by (simp add: le_bytes_Suc)
  qed (simp add: le_bytes_def)
qed

lemma be_bytes_rev_le: "be_bytes n w = rev (le_bytes n w)"
  by (rule nth_equalityI) (simp_all add: be_bytes_def le_bytes_def rev_nth)

lemma eight_bytes:
  assumes "length bs = 8"
  defines "v \<equiv> of_nat (from_le_bytes bs) :: u64"
  shows "has_ff v \<longleftrightarrow> 0xFF \<in> set bs" "unat (to_be v) = be_val bs"
proof -
  have le: "le_bytes 8 v = bs"
    using le_bytes_from_le_bytes [of bs, where 'a = 64] assms(1) by (simp add: v_def)
  then show "has_ff v \<longleftrightarrow> 0xFF \<in> set bs" by (simp add: has_ff_iff be_bytes_rev_le)
  have "be_val bs < 2 ^ 64" using be_val_upper [of bs] assms(1) by simp
  then show "unat (to_be v) = be_val bs" by (simp add: to_be_def le unat_of_nat)
qed

lemma fast_reads:
  assumes R: "reads_at r p xs tail d m" and a0: "read_ahead_bytes r = 0" and l: "unat (bits_left r) < unat n" and n: "unat n \<le> 16"
    and b8: "8 \<le> length (take (buffered (inner r)) (unread (inner r)))" and nf: "0xFF \<notin> set (take 8 (unread (inner r)))"
  defines "k \<equiv> (63 - bits_left r) div 8"
  defines "left \<equiv> bits_left r + k * 8"
  defines "ahead \<equiv> (left - n) div 8"
  defines "r' \<equiv> r\<lparr>inner := consume (unat (k - ahead)) (inner r),
      bits := push_bit (unat (k * 8) mod 64) (bits r)
        OR drop_bit (unat (64 - k * 8) mod 64) (to_be (of_nat (from_le_bytes (take 8 (unread (inner r)))))),
      bits_left := left, read_ahead_bytes := ahead\<rparr>"
  shows "\<exists>m'. reads_at r' p xs tail d m' \<and> unat n \<le> unat (bits_left r')
    \<and> unat (bits_left r') < unat n + 8 * unat (read_ahead_bytes r') + 8"
proof -
  note D = reads_atD [OF R]
  let ?l = "unat (bits_left r)"
  define K where "K = (63 - ?l) div 8"
  have k: "unat k = K" using D(8) by (simp add: k_def K_def unat_div unat_sub word_le_nat_alt)
  have K: "5 \<le> K" "K \<le> 7" "?l + 8 * K \<le> 63" using l n by (auto simp: K_def)
  have k8: "unat (k * 8) = 8 * K" using K by (simp add: unat_word_ariths k)
  have left: "unat left = ?l + 8 * K" using K by (simp add: left_def unat_word_ariths k)
  have nl: "unat n \<le> ?l + 8 * K" using n K(1) by simp
  define A where "A = (?l + 8 * K - unat n) div 8"
  have A: "unat ahead = A" using nl left by (simp add: ahead_def A_def unat_div unat_sub word_le_nat_alt)
  have AK: "A < K" using l K(1) nl by (simp add: A_def div_less_iff_less_mult)
  then have ka: "unat (k - ahead) = K - A" by (simp add: unat_sub word_le_nat_alt k A)
  let ?u = "stuff (drop m xs) @ tail"
  have u: "unread (inner r) = ?u" by (rule D(1))
  have "8 \<le> length ?u" using b8 u by simp
  from stuff_prefix_no_ff [OF D(2) this] nf u have pre: "8 \<le> length (drop m xs)" "take 8 ?u = take 8 (drop m xs)" by simp_all
  have preK: "j \<le> 8 \<Longrightarrow> take j ?u = take j (drop m xs) \<and> drop j ?u = stuff (drop (m + j) xs) @ tail" for j
  proof -
    assume j: "j \<le> 8"
    have "set (take j ?u) \<subseteq> set (take 8 ?u)" using j by (rule set_take_subset_set_take)
    then have "0xFF \<notin> set (take j ?u)" using nf u by auto
    moreover have "j \<le> length ?u" using \<open>8 \<le> length ?u\<close> j by simp
    ultimately show ?thesis using stuff_prefix_no_ff [OF D(2)] by (simp add: add.commute)
  qed
  have nf8: "0xFF \<notin> set (take 8 (drop m xs))" using nf unfolding u pre(2) .
  have m': "reads_at r' p xs tail d (m + (K - A))"
  proof -
    define c where "c = (?l + 7) div 8"
    have c: "(?l + 8 * K + 7) div 8 = K + c" by (simp add: c_def)
    have c2: "c \<le> 2" "c \<le> m" using l n D(12) a0 by (simp_all add: c_def)
    have "8 * length (take 8 (drop m xs)) = 64" using pre(1) by simp
    define V where "V = to_be (of_nat (from_le_bytes (take 8 (unread (inner r)))))"
    have v: "unat V = be_val (take 8 (drop m xs))"
      using eight_bytes(2) [of "take 8 (drop m xs)"] pre(1) unfolding V_def u pre(2) by simp
    have t8: "take 8 (drop m xs) = take K (drop m xs) @ take (8 - K) (drop (m + K) xs)"
      using K take_add [of K "8 - K" "drop m xs"] by (simp add: add.commute)
    have len: "length (take (8 - K) (drop (m + K) xs)) = 8 - K" using pre(1) K by simp
    have "unat (64 - k * 8) = 64 - 8 * K" using K k8 by (simp add: unat_sub word_le_nat_alt)
    then have "unat (drop_bit (unat (64 - k * 8) mod 64) V)
      = be_val (take 8 (drop m xs)) div 2 ^ (64 - 8 * K)"
      using K by (simp add: unat_drop_bit v)
    also have "\<dots> = be_val (take K (drop m xs))"
    proof -
      have e: "(2::nat) ^ (64 - 8 * K) = 256 ^ (8 - K)" using K by (simp add: pow256 diff_mult_distrib2)
      have "be_val (take (8 - K) (drop (m + K) xs)) < 256 ^ (8 - K)"
        using be_val_upper [of "take (8 - K) (drop (m + K) xs)"] len by simp
      then show ?thesis unfolding e t8 be_val_append len by simp
    qed
    finally have w: "unat (drop_bit (unat (64 - k * 8) mod 64) V) = be_val (take K (drop m xs))" .
    have "be_val (take K (drop m xs)) < 2 ^ (8 * K)"
      using be_val_upper [of "take K (drop m xs)"] pre(1) K by (simp add: pow256)
    moreover have "8 * K + 8 * c \<le> 64"
    proof -
      have "8 * K + 8 * ((l + 7) div 8) \<le> 64" if "l + 8 * K \<le> 63" for l using that by presburger
      then show ?thesis unfolding c_def using K(3) .
    qed
    moreover have "unat (k * 8) mod 64 = 8 * K" using K k8 by simp
    ultimately have "unat (bits r') mod 2 ^ (8 * K + 8 * c) = unat (bits r) mod 2 ^ (8 * c) * 2 ^ (8 * K) + be_val (take K (drop m xs))"
      using unat_shift_in [of "drop_bit (unat (64 - k * 8) mod 64) V" "8 * K" "8 * c" "bits r"] w
      by (simp add: r'_def V_def)
    also have "\<dots> = be_val (window xs m c @ take K (drop m xs))"
      using D(11) a0 pre(1) K by (simp add: be_val_append pow256 c_def)
    also have "window xs m c @ take K (drop m xs) = window xs (m + K) (c + K)"
      using window_extend [OF c2(2), of K xs] pre(1) K by simp
    finally have reg: "unat (bits r') mod 2 ^ (8 * (K + c)) = be_val (window xs (m + K) (K + c))"
      by (simp add: add_mult_distrib2 add.commute)
    have "set (take A (drop (m + (K - A)) xs)) \<subseteq> set (take K (drop m xs))"
    proof -
      have "take K (drop m xs) = take (K - A) (drop m xs) @ take A (drop (m + (K - A)) xs)"
        using AK take_add [of "K - A" A "drop m xs"] by (simp add: add.commute)
      then show ?thesis by simp
    qed
    moreover have "set (take K (drop m xs)) \<subseteq> set (take 8 (drop m xs))" using K by (intro set_take_subset_set_take) simp
    ultimately have nfA: "0xFF \<notin> set (take A (drop (m + (K - A)) xs))" using nf8 by auto
    have "0xFF \<notin> set (take (K - A) (drop m xs))"
      using nf8 set_take_subset_set_take [of "K - A" 8 "drop m xs"] K(2) by fastforce
    then have "stuff (take (m + (K - A)) xs) = stuff (take m xs) @ take (K - A) (drop m xs)"
      by (simp add: take_add stuff_no_ff)
    then have pos: "length (stuff (take (m + (K - A)) xs)) = length (stuff (take m xs)) + (K - A)"
      using pre(1) K by simp
    have mK: "m + K = m + (K - A) + A" using AK by simp
    have "A \<le> buffered (inner r) - (K - A)"
    proof -
      have "8 \<le> buffered (inner r)" using b8 by simp
      then show ?thesis using K(2) AK by linarith
    qed
    then have buf: "A \<le> buffered (inner r')" by (simp add: r'_def consume_def ka)
    have rest: "unread (inner r') = stuff (drop (m + (K - A)) xs) @ tail"
      using preK [of "K - A"] K(2) by (simp add: r'_def consume_def ka u)
    have pos': "position (inner r') = p + of_nat (length (stuff (take (m + (K - A)) xs)))"
      using D(3) by (simp add: r'_def consume_def ka pos)
    have len': "m + K \<le> length xs" using pre(1) K by simp
    have d: "d + (?l + 8 * K) = 8 * (m + K)" using D(7) a0 by simp
    have fields: "unat (read_ahead_bytes r') = A" "unat (bits_left r') = ?l + 8 * K" "\<not> eof r'" "\<not> truncated_ff r'"
      using D(9,10) by (simp_all add: r'_def A left)
    show ?thesis
      by (rule reads_atI [OF fields(1,2) c [symmetric] mK rest D(2) pos' len' nfA buf d K(3) fields(3,4) reg])
  qed
  have "?l + 8 * K < unat n + 8 * A + 8"
  proof -
    have "x < y + 8 * ((x - y) div 8) + 8" if "y \<le> x" for x y :: nat using that by presburger
    then show ?thesis unfolding A_def using nl .
  qed
  then show ?thesis using m' nl by (auto simp: r'_def left A)
qed

lemma fill_register_reads:
  assumes R: "reads_at r p xs tail d m" and l: "unat (bits_left r) < unat n" and n: "unat n \<le> 16"
    and enough: "d + unat n \<le> 8 * length xs"
  shows "\<exists>r' m'. reader_fill_register n r = Ok r' \<and> reads_at r' p xs tail d m' \<and> unat n \<le> unat (bits_left r')
    \<and> unat (bits_left r') < unat n + 8 * unat (read_ahead_bytes r') + 8 \<and> cpos r' = cpos r"
proof -
  obtain fb i where fb: "fill_buf (consume (unat (read_ahead_bytes r)) (inner r)) = (fb, i)" by fastforce
  then have i: "unread i = unread (consume (unat (read_ahead_bytes r)) (inner r))"
    "position i = position (consume (unat (read_ahead_bytes r)) (inner r))" "fb = take (buffered i) (unread i)"
    unfolding fill_buf_def Let_def by auto
  define r1 where "r1 = r\<lparr>inner := i, read_ahead_bytes := 0\<rparr>"
  have R1: "reads_at r1 p xs tail d (m + unat (read_ahead_bytes r))"
    using reads_at_consume [OF R] i unfolding reads_at_def Let_def by (simp add: r1_def)
  have l1: "unat (bits_left r1) < unat n" "read_ahead_bytes r1 = 0" "inner r1 = i" "cpos r1 = cpos r"
    using l by (simp_all add: r1_def)
  show ?thesis
  proof (cases "length fb < 8 \<or> has_ff (of_nat (from_le_bytes (take 8 fb)))")
    case True
    then have "reader_fill_register n r = fill_register_slow n r1"
      by (simp add: reader_fill_register_def fb r1_def)
    then show ?thesis using slow_reads [OF R1 l1(2,1) n enough] l1(4) by fastforce
  next
    case False
    then have b8: "8 \<le> length (take (buffered (inner r1)) (unread (inner r1)))"
      by (simp only: l1(3) i(3) [symmetric] de_Morgan_disj not_less)
    have "8 \<le> buffered i" using False i(3) by (simp add: min_less_iff_disj)
    then have t8: "take 8 fb = take 8 (unread i)" using i(3) by simp
    then have "0xFF \<notin> set (take 8 (unread (inner r1)))"
    proof -
      have "length (take 8 fb) = 8" using False by (simp add: not_less)
      from eight_bytes(1) [OF this] show ?thesis using False by (simp add: t8 l1(3))
    qed
    from fast_reads [OF R1 l1(2,1) n b8 this] show ?thesis
      using False unfolding reader_fill_register_def fb Let_def by (auto simp: l1(3) r1_def t8)
  qed
qed

lemma fill_register_marker:
  assumes R: "reads_at r p xs (0xFF # k # rest) d m" and l: "unat (bits_left r) < unat n" and n: "unat n \<le> 16"
    and short: "8 * length xs < d + unat n" and k: "k \<noteq> 0"
  shows "reader_fill_register n r = err_exit_code InvalidResetCode"
proof -
  obtain fb i where fb: "fill_buf (consume (unat (read_ahead_bytes r)) (inner r)) = (fb, i)" by fastforce
  then have i: "unread i = unread (consume (unat (read_ahead_bytes r)) (inner r))"
    "position i = position (consume (unat (read_ahead_bytes r)) (inner r))" "fb = take (buffered i) (unread i)"
    unfolding fill_buf_def Let_def by auto
  define r1 where "r1 = r\<lparr>inner := i, read_ahead_bytes := 0\<rparr>"
  have R1: "reads_at r1 p xs (0xFF # k # rest) d (m + unat (read_ahead_bytes r))"
    using reads_at_consume [OF R] i unfolding reads_at_def Let_def by (simp add: r1_def)
  note D = reads_atD [OF R1]
  have l1: "unat (bits_left r1) < unat n" "read_ahead_bytes r1 = 0" using l by (simp_all add: r1_def)
  have "length fb < 8 \<or> has_ff (of_nat (from_le_bytes (take 8 fb)))"
  proof (rule ccontr)
    assume "\<not> ?thesis"
    then have f: "8 \<le> length fb" "0xFF \<notin> set (take 8 fb)" using eight_bytes(1) [of "take 8 fb"] by simp_all
    moreover have "take 8 fb = take 8 (unread i)" "8 \<le> length (unread i)" using f(1) i(3) by simp_all
    moreover have "unread i = stuff (drop (m + unat (read_ahead_bytes r)) xs) @ 0xFF # k # rest"
      using D(1) by (simp add: r1_def)
    ultimately have "8 \<le> length (stuff (drop (m + unat (read_ahead_bytes r)) xs) @ 0xFF # k # rest)"
      "0xFF \<notin> set (take 8 (stuff (drop (m + unat (read_ahead_bytes r)) xs) @ 0xFF # k # rest))" by simp_all
    from stuff_prefix_no_ff [OF D(2) this] have "8 \<le> length (drop (m + unat (read_ahead_bytes r)) xs)" ..
    then show False using D(7) l1 short n by simp
  qed
  then have "reader_fill_register n r = fill_register_slow n r1"
    by (simp add: reader_fill_register_def fb r1_def)
  also have "\<dots> = err_exit_code InvalidResetCode"
    unfolding fill_register_slow_def by (rule slow_loop_marker [OF R1 l1(2,1) n short _ k]) simp
  finally show ?thesis .
qed

section \<open>Reading bits\<close>

lemma read_reads:
  assumes R: "reads r p xs tail d" and s: "slack e r" and n: "unat n \<le> 16" and enough: "d + unat n \<le> 8 * length xs"
  shows "\<exists>v r'. read n r = Ok (v, r') \<and> unat v = of_bits (take (unat n) (drop d (bytes_bits xs)))
    \<and> reads r' p xs tail (d + unat n) \<and> slack (e - unat n) r' \<and> cpos r' = cpos r"
proof (cases "n = 0")
  case True
  then show ?thesis using R s by (simp add: read_def)
next
  case False
  from R obtain m where Rm: "reads_at r p xs tail d m" by (auto simp: reads_def)
  obtain r1 m1 where r1: "(if bits_left r < n then reader_fill_register n r else Ok r) = Ok r1"
    "reads_at r1 p xs tail d m1" "unat n \<le> unat (bits_left r1)"
    "unat (bits_left r1) < max e (unat n) + 8 * unat (read_ahead_bytes r1) + 8" "cpos r1 = cpos r"
  proof (cases "bits_left r < n")
    case True
    then have "unat (bits_left r) < unat n" by (simp add: word_less_nat_alt)
    from fill_register_reads [OF Rm this n enough] obtain r1 m1 where f: "reader_fill_register n r = Ok r1"
      "reads_at r1 p xs tail d m1" "unat n \<le> unat (bits_left r1)"
      "unat (bits_left r1) < unat n + 8 * unat (read_ahead_bytes r1) + 8" "cpos r1 = cpos r" by blast
    show ?thesis using True f(4) by (intro that [OF _ f(2,3) _ f(5)]) (simp_all add: f(1))
  next
    case False
    then show ?thesis using that [of r m] Rm s by (simp add: word_less_nat_alt slack_def not_less)
  qed
  let ?l = "unat (bits_left r1)"
  have l: "?l \<le> 63" using reads_atD [OF r1(2)] by simp
  have sub: "unat (bits_left r1 - n) = ?l - unat n" using r1(3) by (simp add: unat_sub word_le_nat_alt)
  define v where "v = drop_bit (unat (bits_left r1 - n) mod 64) (bits r1) AND (push_bit (unat n mod 64) 1 - 1)"
  have "push_bit (unat n mod 64) 1 - 1 = (mask (unat n) :: u64)"
    using n by (simp add: mask_eq_exp_minus_1 push_bit_eq_mult)
  then have "unat v = unat (bits r1) div 2 ^ (?l - unat n) mod 2 ^ unat n"
    using l by (simp add: v_def unat_and_mask unat_drop_bit sub)
  also have "\<dots> = of_bits (take (unat n) (bits_of ?l (unat (bits r1))))"
    using r1(3) by (simp add: of_bits_take_drop)
  also have "\<dots> = of_bits (take (unat n) (drop d (bytes_bits xs)))"
    unfolding register_bits [OF r1(2)] using r1(3) by (simp add: min_def)
  finally have v: "unat v = of_bits (take (unat n) (drop d (bytes_bits xs)))" .
  have "of_bits (take (unat n) (drop d (bytes_bits xs))) < 2 ^ length (take (unat n) (drop d (bytes_bits xs)))"
    by (rule of_bits_less)
  also have "\<dots> \<le> 2 ^ 16" using n by (intro power_increasing) simp_all
  finally have "unat (ucast v :: u16) = unat v" by (simp add: unat_ucast v)
  moreover have "read n r = Ok (ucast v, advance n r1)"
    using False r1(1) by (simp add: read_def v_def advance_def)
  moreover have "reads (advance n r1) p xs tail (d + unat n)"
    using reads_at_advance [OF r1(2,3)] by (auto simp: reads_def)
  moreover have "slack (e - unat n) (advance n r1)" using r1(3,4) by (auto simp: slack_def advance_def sub max_def split: if_splits)
  ultimately show ?thesis using v r1(5) by (simp add: advance_def)
qed

lemma read_marker:
  assumes R: "reads r p xs (0xFF # k # rest) d" and n: "unat n \<le> 16"
    and short: "8 * length xs < d + unat n" and k: "k \<noteq> 0"
  shows "read n r = err_exit_code InvalidResetCode"
proof -
  from R obtain m where Rm: "reads_at r p xs (0xFF # k # rest) d m" by (auto simp: reads_def)
  have "n \<noteq> 0" using reads_length [OF R] short by auto
  moreover have l: "unat (bits_left r) < unat n"
  proof -
    note D = reads_atD(4,7) [OF Rm]
    have "d + unat (bits_left r) \<le> 8 * length xs" unfolding D(2) using D(1) by (rule mult_le_mono2)
    then show ?thesis using short by simp
  qed
  ultimately show ?thesis
    using fill_register_marker [OF Rm l n short k] by (simp add: read_def word_less_nat_alt)
qed

text \<open>\<open>peek\<close>: the number of bits in the register and, of the byte it returns, that many bits from the top.\<close>

lemma peek_reads:
  assumes R: "reads r p xs tail d" and "peek r = (b, k)"
  shows "k = bits_left r" "take (unat k) (byte_bits b) = take (min 8 (unat k)) (drop d (bytes_bits xs))"
proof -
  from R obtain m where Rm: "reads_at r p xs tail d m" by (auto simp: reads_def)
  note D = reads_atD [OF Rm]
  let ?l = "unat (bits_left r)"
  show k: "k = bits_left r" using assms(2) by (simp add: peek_def)
  have b: "b = ucast (drop_bit 56 (push_bit (unat (64 - bits_left r) mod 64) (bits r)))"
    using assms(2) by (auto simp: peek_def)
  show "take (unat k) (byte_bits b) = take (min 8 (unat k)) (drop d (bytes_bits xs))"
  proof (cases "?l = 0")
    case False
    have s: "unat (64 - bits_left r) mod 64 = 64 - ?l"
      using D(8) False by (simp add: unat_sub word_le_nat_alt)
    have "(2::nat) ^ 64 = 2 ^ (64 - ?l) * 2 ^ ?l" using pow_split [of ?l 64] D(8) by (simp add: mult.commute)
    then have "unat (push_bit (64 - ?l) (bits r)) = unat (bits r) mod 2 ^ ?l * 2 ^ (64 - ?l)"
      by (simp add: unat_push_bit mult_mod_left mult.commute)
    then have top: "bits_of 64 (unat (push_bit (64 - ?l) (bits r))) = bits_of ?l (unat (bits r)) @ replicate (64 - ?l) False"
      using bits_of_join [of 0 "64 - ?l" ?l "unat (bits r) mod 2 ^ ?l"] D(8) by (simp add: bits_of_zero)
    have "byte_bits b = bits_of 8 (unat (push_bit (64 - ?l) (bits r)) div 2 ^ 56)"
      unfolding b s byte_bits_ucast unat_drop_bit ..
    also have "\<dots> = take 8 (bits_of 64 (unat (push_bit (64 - ?l) (bits r))))" by (simp add: take_bits_of)
    finally have "byte_bits b = take 8 (take ?l (drop d (bytes_bits xs)) @ replicate (64 - ?l) False)"
      by (simp only: top register_bits [OF Rm])
    moreover have "length (take ?l (drop d (bytes_bits xs))) = ?l"
      using register_bits [OF Rm] by (metis length_bits_of)
    ultimately show ?thesis by (simp add: k min.commute)
  qed (simp add: k)
qed

section \<open>Putting bytes back\<close>

lemma put_back_reads:
  assumes "reads_at r p xs tail d m" "settled r"
  shows "reads_at (put_back r) p xs tail d m \<and> settled (put_back r)
    \<and> unat (bits_left (put_back r)) < 8 \<and> cpos (put_back r) = cpos r"
  using assms
proof (induction r rule: put_back.induct)
  case (1 r)
  note D = reads_atD [OF 1(2)]
  let ?l = "unat (bits_left r)" and ?a = "unat (read_ahead_bytes r)"
  show ?case
  proof (cases "8 \<le> bits_left r \<and> 0 < read_ahead_bytes r")
    case False
    then have "?l < 8 \<or> ?a = 0" by (auto simp: word_le_nat_alt word_less_nat_alt)
    then have "?l < 8" using 1(3) by (auto simp: settled_def)
    moreover have "put_back r = r" by (subst put_back.simps) (rule if_not_P [OF False])
    ultimately show ?thesis using 1(2,3) by simp
  next
    case True
    define r1 where "r1 = r\<lparr>bits_left := bits_left r - 8, bits := drop_bit 8 (bits r), read_ahead_bytes := read_ahead_bytes r - 1\<rparr>"
    have la: "8 \<le> ?l" "0 < ?a" using True by (simp_all add: word_le_nat_alt word_less_nat_alt)
    have l1: "unat (bits_left r1) = ?l - 8" using la by (simp add: r1_def unat_sub word_le_nat_alt)
    have a1: "unat (read_ahead_bytes r1) = ?a - 1" using la by (simp add: r1_def unat_sub word_le_nat_alt)
    define c where "c = (?l - 8 + 7) div 8"
    have c: "(?l + 7) div 8 = Suc c" using la by (simp add: c_def)
    define n where "n = m + (?a - 1)"
    have n: "m + ?a = Suc n" "n < length xs" using la D(4) by (simp_all add: n_def)
    have cn: "c \<le> n" using D(12) c n by simp
    have w: "window xs (Suc n) (Suc c) = window xs n c @ [xs ! n]"
      using window_extend [OF cn, of 1 xs] n(2) by (simp add: take_Suc hd_drop_conv_nth)
    have "unat (bits r) mod 2 ^ (8 * Suc c) div 2 ^ 8 = be_val (window xs n c)"
      using D(11) unat_lt2p [of "xs ! n"] unfolding c n w by simp
    moreover have "x mod 2 ^ (8 * Suc c) div 2 ^ 8 = x div 2 ^ 8 mod 2 ^ (8 * c)" for x :: nat
      by (simp add: mod_mult2_eq power_add)
    ultimately have reg: "unat (bits r1) mod 2 ^ (8 * c) = be_val (window xs n c)"
      by (simp add: r1_def unat_drop_bit)
    have sub: "set (take (?a - 1) (drop m xs)) \<subseteq> set (take ?a (drop m xs))" by (rule set_take_subset_set_take) simp
    have R1: "reads_at r1 p xs tail d m"
    proof (rule reads_atI [OF a1 l1 c_def n_def])
      show "unread (inner r1) = stuff (drop m xs) @ tail" "scan_end tail"
        "position (inner r1) = p + of_nat (length (stuff (take m xs)))" "\<not> eof r1" "\<not> truncated_ff r1"
        using D by (simp_all add: r1_def)
      show "0xFF \<notin> set (take (?a - 1) (drop m xs))" using D(5) sub by blast
      show "?a - 1 \<le> buffered (inner r1)" using D(6) by (simp add: r1_def)
      show "d + (?l - 8) = 8 * n" using D(7) la n by simp
      show "?l - 8 \<le> 63" using D(8) by simp
    qed (use n reg in simp_all)
    moreover have "settled r1" using 1(3) la by (simp add: settled_def l1 a1)
    moreover have "put_back r = put_back r1" using True by (subst put_back.simps) (simp add: r1_def)
    ultimately show ?thesis using 1(1) [OF True] by (simp add: r1_def)
  qed
qed

lemma undo_reads:
  assumes R: "reads r p xs tail d" and s: "settled r"
  shows "reads_at (undo_read_ahead r) p xs tail d ((d + 7) div 8)"
    "read_ahead_bytes (undo_read_ahead r) = 0" "unat (bits_left (undo_read_ahead r)) = (8 - d mod 8) mod 8"
    "settled (undo_read_ahead r)" "cpos (undo_read_ahead r) = cpos r"
proof -
  from R obtain m where "reads_at r p xs tail d m" by (auto simp: reads_def)
  from put_back_reads [OF this s] have P: "reads_at (put_back r) p xs tail d m"
    "unat (bits_left (put_back r)) < 8" "cpos (put_back r) = cpos r" by blast+
  have "\<exists>m. reads_at (undo_read_ahead r) p xs tail d m"
  proof (cases "0 < read_ahead_bytes (put_back r)")
    case True
    then show ?thesis using reads_at_consume [OF P(1)] by (auto simp: undo_read_ahead_def Let_def)
  next
    case False
    then show ?thesis using P(1) by (auto simp: undo_read_ahead_def Let_def)
  qed
  then obtain m where U: "reads_at (undo_read_ahead r) p xs tail d m" by blast
  show a: "read_ahead_bytes (undo_read_ahead r) = 0" "cpos (undo_read_ahead r) = cpos r"
    using P(3) by (simp_all add: undo_read_ahead_def Let_def word_gt_0)
  have l: "unat (bits_left (undo_read_ahead r)) < 8" using P(2) by (simp add: undo_read_ahead_def Let_def)
  have d: "d + unat (bits_left (undo_read_ahead r)) = 8 * m" using reads_atD(7) [OF U] a by simp
  from byte_gap [OF d l] U show "reads_at (undo_read_ahead r) p xs tail d ((d + 7) div 8)"
    "unat (bits_left (undo_read_ahead r)) = (8 - d mod 8) mod 8" by simp_all
  show "settled (undo_read_ahead r)" using l by (simp add: settled_def a)
qed

text \<open>The position a partition of the scan starts at, and the bits of its first byte that belong to the
  partition before it.\<close>

lemma stream_position_reads:
  assumes R: "reads r p xs tail d" and s: "settled r"
  shows "fst (stream_position r) = p + of_nat (length (stuff (take (d div 8) xs)))"
proof -
  note U = undo_reads [OF R s]
  note D = reads_atD [OF U(1)]
  let ?r = "undo_read_ahead r"
  show ?thesis
  proof (cases "d mod 8 = 0")
    case True
    then have "unat (bits_left ?r) = 0" "(d + 7) div 8 = d div 8" using U(3) by (simp_all add: byte_round)
    then show ?thesis using D(3) by (simp add: stream_position_def Let_def word_less_nat_alt)
  next
    case False
    then have m: "(d + 7) div 8 = Suc (d div 8)" by (simp add: byte_round)
    have l: "0 < unat (bits_left ?r)" "(unat (bits_left ?r) + 7) div 8 = 1"
      unfolding U(3) using byte_left [of d] False by simp_all
    have len: "d div 8 < length xs" using D(4) U(2) m by simp
    have "unat (bits ?r) mod 2 ^ 8 = be_val (window xs (Suc (d div 8)) 1)" using D(11) U(2) l(2) m by simp
    also have "window xs (Suc (d div 8)) 1 = [xs ! (d div 8)]"
      using len by (simp add: window_def take_Suc_conv_app_nth)
    finally have "(ucast (bits ?r) :: u8) = xs ! (d div 8)" by (simp add: word_unat_eq_iff unat_ucast be_val_def)
    moreover have "stuff (take (Suc (d div 8)) xs) = stuff (take (d div 8) xs) @ stuff [xs ! (d div 8)]"
      using len by (simp add: take_Suc_conv_app_nth)
    ultimately show ?thesis
      using D(3,9,10) l(1) m by (simp add: stream_position_def Let_def word_less_nat_alt)
  qed
qed

lemma overhang_reads:
  assumes R: "reads r p xs tail d" and s: "settled r"
  shows "\<exists>b r'. overhang r = ((of_nat (d mod 8), b), r') \<and> r' = undo_read_ahead r
    \<and> take (d mod 8) (byte_bits b) = drop (8 * (d div 8)) (take d (bytes_bits xs)) \<and> unat b mod 2 ^ (8 - d mod 8) = 0"
proof -
  note U = undo_reads [OF R s]
  note D = reads_atD [OF U(1)]
  let ?r = "undo_read_ahead r" and ?k = "d mod 8"
  have k: "?k < 8" by simp
  have "unat (64 - bits_left ?r) = 64 - unat (bits_left ?r)" using D(8) by (simp add: unat_sub word_le_nat_alt)
  then have "unat ((64 - bits_left ?r) AND mask 3) = (64 - (8 - ?k) mod 8) mod 8"
    by (simp add: unat_and_mask U(3))
  also have "\<dots> = ?k"
  proof -
    have "list_all (\<lambda>k. (64 - (8 - k) mod 8) mod 8 = k) [0..<8]" by code_simp
    then show ?thesis using k unfolding list_all_iff by simp
  qed
  finally have bar: "unat (ucast ((64 - bits_left ?r) AND 7) :: u8) = ?k"
    by (simp add: unat_ucast mask_eq_exp_minus_1)
  define M where "M = (ucast (push_bit (8 - ?k) (push_bit ?k (1 :: i32) - 1)) :: u8)"
  define b where "b = ucast (bits ?r) AND M"
  have "push_bit ?k (1 :: i32) - 1 = mask ?k" by (simp add: mask_eq_exp_minus_1 push_bit_eq_mult)
  then have M: "M = push_bit (8 - ?k) (- 1)"
    unfolding M_def by (intro bit_word_eqI) (auto simp: bit_simps)
  have b: "unat b = unat (ucast (bits ?r) :: u8) div 2 ^ (8 - ?k) * 2 ^ (8 - ?k)"
    unfolding b_def M by (rule unat_and_top)
  have bar': "ucast ((64 - bits_left ?r) AND 7) = (of_nat ?k :: u8)"
    using bar k by (simp add: word_unat_eq_iff unat_of_nat)
  have "unat (8 - (of_nat ?k :: u8)) = 8 - ?k" using k by (simp add: unat_sub word_le_nat_alt unat_of_nat)
  then have "overhang r = ((of_nat ?k, b), ?r)"
    using k unfolding overhang_def Let_def bar' by (simp add: b_def M_def unat_of_nat)
  moreover have "take ?k (byte_bits b) = drop (8 * (d div 8)) (take d (bytes_bits xs))"
  proof (cases "?k = 0")
    case True
    then have "8 * (d div 8) = d" using mult_div_mod_eq [of 8 d] by linarith
    then show ?thesis using True by simp
  next
    case False
    then have m: "(d + 7) div 8 = Suc (d div 8)" by (simp add: byte_round)
    have l: "(unat (bits_left ?r) + 7) div 8 = 1" unfolding U(3) using byte_left [of d] False by simp
    have len: "d div 8 < length xs" using D(4) U(2) m by simp
    have "unat (bits ?r) mod 2 ^ 8 = be_val (window xs (Suc (d div 8)) 1)" using D(11) U(2) l m by simp
    also have "window xs (Suc (d div 8)) 1 = [xs ! (d div 8)]"
      using len by (simp add: window_def take_Suc_conv_app_nth)
    finally have "(ucast (bits ?r) :: u8) = xs ! (d div 8)" by (simp add: word_unat_eq_iff unat_ucast be_val_def)
    then have "take ?k (byte_bits b) = take ?k (byte_bits (xs ! (d div 8)))"
      using k by (simp add: byte_bits_def take_bits_of b)
    also have "\<dots> = take ?k (drop (8 * (d div 8)) (bytes_bits xs))"
    proof -
      have "drop (8 * (d div 8)) (bytes_bits xs) = bytes_bits (drop (d div 8) xs)" by (rule bytes_bits_drop [symmetric])
      also have "\<dots> = byte_bits (xs ! (d div 8)) @ bytes_bits (drop (Suc (d div 8)) xs)"
        using len by (simp flip: Cons_nth_drop_Suc)
      finally show ?thesis using k by simp
    qed
    finally show ?thesis by (simp only: drop_take minus_mult_div_eq_mod)
  qed
  ultimately show ?thesis using b by auto
qed

section \<open>The end of an interval\<close>

text \<open>The bits that are left in the last byte, all of them, must be the bits of the pad byte.\<close>

lemma fill_bits_reads:
  assumes R: "reads r p xs tail d" and s: "settled r" and n: "n = (d + 7) div 8"
    and ok: "read_and_verify_fill_bits pad_bit r = Ok (pad_bit', r')"
  shows "reads r' p xs tail (8 * n) \<and> settled r' \<and> cpos r' = cpos r \<and> read_ahead_bytes r' = 0 \<and> n \<le> length xs \<and>
      (d = 8 * n \<and> pad_bit' = pad_bit \<or>
      (\<exists>x. pad_bit' = Some x \<and> (pad_bit = None \<and> (x = 0 \<or> x = 0xFF) \<or> pad_bit = Some x)
        \<and> take (8 * n - d) (drop d (bytes_bits xs)) = bits_of (8 * n - d) (unat x)))"
proof -
  note U = undo_reads [OF R s]
  note D = reads_atD [OF U(1)]
  let ?r = "undo_read_ahead r"
  let ?l = "unat (bits_left ?r)"
  have Ru: "reads ?r p xs tail d" using U(1) by (auto simp: reads_def)
  have dl: "d + ?l = 8 * n" using D(7) U(2) n by simp
  have nl: "n \<le> length xs" using D(4) U(2) n by simp
  have l8: "?l < 8" unfolding U(3) by simp
  show ?thesis
  proof (cases "?l = 0")
    case True
    then have "r' = ?r" "pad_bit' = pad_bit" using ok by (simp_all add: read_and_verify_fill_bits_def Let_def word_less_nat_alt)
    then show ?thesis
      using Ru U(2,4,5) dl True nl by simp
  next
    case False
    let ?bs = "take ?l (drop d (bytes_bits xs))"
    have le: "d + ?l \<le> 8 * length xs" unfolding dl using nl by simp
    have len: "length ?bs = ?l" using le by simp
    have "?l \<le> 16" using l8 by simp
    from read_reads [OF Ru U(4) [unfolded settled_slack] this le] obtain v r1 where r1: "read (bits_left ?r) ?r = Ok (v, r1)"
      "unat v = of_bits ?bs" "reads r1 p xs tail (8 * n)" "settled r1" "cpos r1 = cpos ?r"
      using dl by (auto simp: settled_slack)
    have ahead: "read_ahead_bytes r1 = 0" using r1(1) U(2) by (auto simp: read_def split: if_splits)
    define A where "A = (push_bit (?l mod 16) 1 - 1 :: u16)"
    have A: "A = mask ?l" using l8 by (simp add: A_def mask_eq_exp_minus_1 push_bit_eq_mult)
    have bs: "?bs = bits_of ?l (unat v)" using len r1(2) bits_of_of_bits [of ?bs] by simp
    have ones: "bits_of ?l (unat A) = bits_of ?l (unat (0xFF :: u8))"
    proof -
      have "list_all (\<lambda>l. bits_of l (unat (mask l :: u16)) = bits_of l 255) [0..<8]" by code_simp
      then show ?thesis using l8 unfolding list_all_iff by (simp add: A)
    qed
    have anded: "bits_of ?l (unat (ucast x AND A)) = bits_of ?l (unat x)" for x :: u8
      using unat_lt2p [of x] by (simp add: A unat_and_mask unat_ucast)
    have ok': "(case pad_bit of
          None \<Rightarrow> if v = 0 then Ok (Some 0, r1) else if v = A then Ok (Some 0xFF, r1) else err_exit_code InvalidPadding
        | Some x \<Rightarrow> if v \<noteq> ucast x AND A then err_exit_code InvalidPadding else Ok (pad_bit, r1)) = Ok (pad_bit', r')"
      using ok False D(9) unfolding read_and_verify_fill_bits_def Let_def A_def [symmetric]
      by (simp add: word_less_nat_alt r1(1))
    have "8 * n - d = ?l" using dl by simp
    then show ?thesis
      using ok' r1(3,4,5) ahead U(5) bs ones anded nl by (auto split: option.splits if_splits)
  qed
qed

text \<open>After the marker the next interval is read from its start.\<close>

text \<open>The stream behind the bytes that have been read.\<close>

lemma reads_behind:
  assumes "reads r p xs tail (8 * n)" "settled r" "read_ahead_bytes r = 0"
  shows "unread (inner r) = stuff (drop n xs) @ tail" "position (inner r) = p + of_nat (length (stuff (take n xs)))"
proof -
  from assms(1) obtain m where R: "reads_at r p xs tail (8 * n) m" by (auto simp: reads_def)
  note D = reads_atD [OF R]
  have "unat (bits_left r) < 8" using assms(2,3) by (simp add: settled_def)
  moreover have "8 * n + unat (bits_left r) = 8 * m" using D(7) assms(3) by simp
  ultimately have "m = n" by presburger
  then show "unread (inner r) = stuff (drop n xs) @ tail" "position (inner r) = p + of_nat (length (stuff (take n xs)))"
    using D(1,3) by simp_all
qed

lemma reset_code_at_end:
  assumes R: "reads r p xs tail (8 * n)" and s: "settled r" and ok: "verify_reset_code r = Ok r'"
  shows "n = length xs"
proof (rule ccontr)
  assume "n \<noteq> length xs"
  moreover note U = undo_reads [OF R s]
  moreover note D = reads_atD [OF U(1)]
  ultimately have m: "(8 * n + 7) div 8 = n" "n < length xs" by simp_all
  let ?r = "undo_read_ahead r"
  have u: "unread (inner ?r) = stuff (drop n xs) @ tail" using D(1) by (simp only: m(1))
  have nth: "drop n xs = xs ! n # drop (Suc n) xs" using m(2) by (simp add: Cons_nth_drop_Suc)
  obtain h i where h: "read_exact 2 (inner ?r) = Ok (h, i)" "h ! 0 = 0xFF" "h ! 1 = RST0 + (ucast (cpos ?r) AND 7)"
    using ok by (auto simp: verify_reset_code_def Let_def split: if_splits)
  from read_byte_Cons obtain i1 where i1: "read_byte (inner ?r) = (Some (hd (stuff (drop n xs))), i1)" "unread i1 = tl (stuff (drop n xs)) @ tail"
    using u nth by (cases "xs ! n = 0xFF") force+
  then have "h ! 0 = hd (stuff (drop n xs))" using h(1) by (auto simp: numeral_2_eq_2 split: option.splits prod.splits)
  then have ff: "xs ! n = 0xFF" using h(2) nth by (auto split: if_splits)
  then have "unread i1 = 0 # stuff (drop (Suc n) xs) @ tail" using i1(2) nth by simp
  from read_byte_Cons [OF this] obtain i2 where "read_byte i1 = (Some 0, i2)" by blast
  then have "h ! 1 = 0" using h(1) i1(1) by (auto simp: numeral_2_eq_2 split: option.splits prod.splits)
  moreover have "RST0 + (x AND 7) \<noteq> 0" for x :: u8
  proof -
    have "x AND 7 \<le> 7" by (rule word_and_le1)
    then have "unat (x AND 7) \<le> 7" by (simp add: word_le_nat_alt)
    then have "unat (RST0 + (x AND 7)) = 208 + unat (x AND 7)" by (simp add: RST0_def unat_word_ariths)
    then show ?thesis by auto
  qed
  ultimately show False using h(3) by simp
qed

lemma reset_code_reads:
  assumes R: "reads r p xs tail (8 * length xs)" and s: "settled r"
    and ok: "verify_reset_code r = Ok r'" and tail: "tail = 0xFF # k # stuff ys @ tail'" "scan_end tail'"
  shows "k = RST0 + (ucast (cpos r) AND 7)" "reads r' (p + of_nat (length (stuff xs)) + 2) ys tail' 0" "settled r'"
    "cpos r' = cpos r + 1"
proof -
  note U = undo_reads [OF R s]
  note D = reads_atD [OF U(1)]
  let ?r = "undo_read_ahead r"
  have m: "(8 * length xs + 7) div 8 = length xs" by simp
  have u: "unread (inner ?r) = 0xFF # k # stuff ys @ tail'" using D(1) m tail(1) by simp
  then obtain i j where i: "read_byte (inner ?r) = (Some 0xFF, i)" "position i = position (inner ?r) + 1"
    and j: "read_byte i = (Some k, j)" "unread j = stuff ys @ tail'" "position j = position i + 1"
    using read_byte_Cons by metis
  then have "read_exact 2 (inner ?r) = Ok ([0xFF, k], j)" by (simp add: numeral_2_eq_2)
  with ok have ok': "k = RST0 + (ucast (cpos ?r) AND 7)" "r' = ?r\<lparr>inner := j, cpos := cpos ?r + 1, bits := 0, bits_left := 0\<rparr>"
    by (auto simp: verify_reset_code_def Let_def split: if_splits)
  then show "k = RST0 + (ucast (cpos r) AND 7)" "cpos r' = cpos r + 1" using U(5) by simp_all
  have "position j = p + of_nat (length (stuff xs)) + 2" using i(2) j(3) D(3) m by simp
  then have "reads_at r' (p + of_nat (length (stuff xs)) + 2) ys tail' 0 0"
    using j(2) tail(2) D(9,10) U(2) by (simp add: reads_at_def ok'(2) window_def)
  then show "reads r' (p + of_nat (length (stuff xs)) + 2) ys tail' 0" by (auto simp: reads_def)
  show "settled r'" using U(2) by (simp add: ok'(2) settled_def)
qed

section \<open>Readers in front of bits\<close>

text \<open>The reader has the bits \<open>bs\<close> of the interval \<open>xs\<close> in front of it, and \<open>k\<close> intervals behind it.\<close>

definition rd :: "u64 \<Rightarrow> bytes \<Rightarrow> bytes \<Rightarrow> u32 \<Rightarrow> nat \<Rightarrow> BitReader \<Rightarrow> bool list \<Rightarrow> bool" where
  "rd p xs tail k e r bs \<longleftrightarrow> (\<exists>d. reads r p xs tail d \<and> slack e r \<and> bs = drop d (bytes_bits xs) \<and> cpos r = k)"

definition marker :: "bytes \<Rightarrow> bool" where
  "marker tail \<longleftrightarrow> (\<exists>m rest. tail = 0xFF # m # rest \<and> m \<noteq> 0)"

lemma marker_scan_end: "marker tail \<Longrightarrow> scan_end tail"
  by (simp add: marker_def scan_end_def)

lemma read_rd:
  assumes "rd p xs tail k e r bs" "unat n \<le> 16" "unat n \<le> length bs"
  shows "\<exists>v r'. read n r = Ok (v, r') \<and> unat v = of_bits (take (unat n) bs) \<and> rd p xs tail k (e - unat n) r' (drop (unat n) bs)"
proof -
  from assms(1) obtain d where d: "reads r p xs tail d" "slack e r" "bs = drop d (bytes_bits xs)" "cpos r = k"
    by (auto simp: rd_def)
  have "d + unat n \<le> 8 * length xs"
  proof (cases "n = 0")
    case True
    then show ?thesis using reads_length [OF d(1)] by simp
  next
    case False
    then have "0 < unat n" by (simp add: unat_gt_0)
    then show ?thesis using assms(3) d(3) by simp
  qed
  from read_reads [OF d(1,2) assms(2) this] show ?thesis
    using d(3,4) by (fastforce simp: rd_def add.commute)
qed

lemma read_rd_sound:
  assumes rd: "rd p xs tail k e r bs" and n: "unat n \<le> 16" and ok: "read n r = Ok (v, r')" and m: "marker tail"
  shows "\<exists>bs'. bs = bits_of (unat n) (unat v) @ bs' \<and> rd p xs tail k (e - unat n) r' bs' \<and> unat v < 2 ^ unat n"
proof -
  have len: "unat n \<le> length bs"
  proof (rule ccontr)
    assume short: "\<not> unat n \<le> length bs"
    from rd obtain d where d: "reads r p xs tail d" "bs = drop d (bytes_bits xs)" by (auto simp: rd_def)
    have "8 * length xs < d + unat n" using short d(2) by simp
    moreover from m obtain j rest where "tail = 0xFF # j # rest" "j \<noteq> 0" by (auto simp: marker_def)
    ultimately have "read n r = err_exit_code InvalidResetCode" using read_marker d(1) n by blast
    then show False using ok by simp
  qed
  from read_rd [OF rd n this] ok have v: "unat v = of_bits (take (unat n) bs)" "rd p xs tail k (e - unat n) r' (drop (unat n) bs)"
    by auto
  have l: "length (take (unat n) bs) = unat n" using len by simp
  then have "bits_of (unat n) (unat v) = take (unat n) bs" using v(1) bits_of_of_bits [of "take (unat n) bs"] by simp
  moreover have "unat v < 2 ^ unat n" using of_bits_less [of "take (unat n) bs"] l v(1) by simp
  ultimately show ?thesis using v(2) by (intro exI [of _ "drop (unat n) bs"]) simp
qed

lemma peek_rd:
  assumes "rd p xs tail k e r bs" "peek r = (b, l)"
  shows "l = bits_left r" "unat l \<le> length bs" "take (unat l) (byte_bits b) = take (min 8 (unat l)) bs"
proof -
  from assms(1) obtain d where d: "reads r p xs tail d" "bs = drop d (bytes_bits xs)" by (auto simp: rd_def)
  show l: "l = bits_left r" "take (unat l) (byte_bits b) = take (min 8 (unat l)) bs"
    using peek_reads [OF d(1) assms(2)] d(2) by simp_all
  from d(1) obtain m where "reads_at r p xs tail d m" by (auto simp: reads_def)
  from register_bits [OF this] show "unat l \<le> length bs"
    unfolding l(1) d(2) by (metis length_bits_of length_take min.cobounded1 length_drop)
qed

lemma advance_rd:
  assumes "rd p xs tail k e r bs" "unat n \<le> unat (bits_left r)"
  shows "rd p xs tail k (e - unat n) (advance n r) (drop (unat n) bs)"
proof -
  from assms(1) obtain d m where d: "reads_at r p xs tail d m" "slack e r" "bs = drop d (bytes_bits xs)" "cpos r = k"
    by (auto simp: rd_def reads_def)
  have "unat (bits_left r - n) = unat (bits_left r) - unat n" using assms(2) by (simp add: unat_sub word_le_nat_alt)
  then have "slack (e - unat n) (advance n r)" using d(2) assms(2) by (auto simp: slack_def advance_def)
  then show ?thesis
    using reads_at_advance [OF d(1) assms(2)] d(3,4) by (auto simp: rd_def reads_def advance_def add.commute)
qed

text \<open>A refill for a code when fewer than 8 bits are left: enough bits, if any byte is left, but the
  reader is settled only when more bits than were left before have been read.\<close>

lemma fill_rd:
  assumes rd: "rd p xs tail k 0 r bs" and l: "unat (bits_left r) < 8" and more: "unat (bits_left r) < length bs"
  shows "\<exists>r'. reader_fill_register 8 r = Ok r' \<and> rd p xs tail k (unat (bits_left r) + 1) r' bs \<and> 8 \<le> unat (bits_left r')"
proof -
  from rd obtain d m where d: "reads_at r p xs tail d m" "bs = drop d (bytes_bits xs)" "cpos r = k"
    by (auto simp: rd_def reads_def)
  note D = reads_atD [OF d(1)]
  have "d + unat (bits_left r) < 8 * length xs" using more d(2) by simp
  then have "m + unat (read_ahead_bytes r) < length xs" unfolding D(7) by simp
  then have "8 * (m + unat (read_ahead_bytes r) + 1) \<le> 8 * length xs" by simp
  then have "d + unat (8 :: u32) \<le> 8 * length xs" using D(7) by simp
  from fill_register_reads [OF d(1) _ _ this] l obtain r' m' where r': "reader_fill_register 8 r = Ok r'"
    "reads_at r' p xs tail d m'" "8 \<le> unat (bits_left r')"
    "unat (bits_left r') < 8 + 8 * unat (read_ahead_bytes r') + 8" "cpos r' = cpos r" by auto
  have "slack (unat (bits_left r) + 1) r'"
  proof -
    have gap: "x mod 8 = (8 - d mod 8) mod 8" if "d + x = 8 * a" for x a :: nat
    proof -
      have "8 * (x div 8) \<le> 8 * a" using that mult_div_mod_eq [of 8 x] by linarith
      then have "d + x mod 8 = 8 * (a - x div 8)"
        using that mult_div_mod_eq [of 8 x] unfolding diff_mult_distrib2 by linarith
      then show ?thesis using byte_gap [of d "x mod 8"] by simp
    qed
    have "unat (bits_left r') mod 8 = unat (bits_left r) mod 8"
      using gap [OF D(7)] gap [OF reads_atD(7) [OF r'(2)]] by simp
    then have q: "unat (bits_left r') = 8 * (unat (bits_left r') div 8) + unat (bits_left r)"
      using l mult_div_mod_eq [of 8 "unat (bits_left r')"] by simp
    then have "unat (bits_left r') div 8 < unat (read_ahead_bytes r') + 2" using r'(4) by linarith
    then have "8 * (unat (bits_left r') div 8) \<le> 8 * (unat (read_ahead_bytes r') + 1)" by simp
    then show ?thesis unfolding slack_def by (subst q) simp
  qed
  then show ?thesis using r' d by (auto simp: rd_def reads_def)
qed

lemma fill_rd_sound:
  assumes rd: "rd p xs tail k 0 r bs" and l: "unat (bits_left r) < 8" and ok: "reader_fill_register 8 r = Ok r'" and m: "marker tail"
  shows "rd p xs tail k (unat (bits_left r) + 1) r' bs \<and> 8 \<le> unat (bits_left r')"
proof (cases "unat (bits_left r) < length bs")
  case True
  then show ?thesis using fill_rd [OF rd l] ok by auto
next
  case False
  from rd obtain d j where d: "reads_at r p xs tail d j" "bs = drop d (bytes_bits xs)" by (auto simp: rd_def reads_def)
  have "8 * length xs < d + unat (8 :: u32)" using False d(2) l by simp
  moreover from m obtain i rest where "tail = 0xFF # i # rest" "i \<noteq> 0" by (auto simp: marker_def)
  ultimately have "reader_fill_register 8 r = err_exit_code InvalidResetCode"
    using fill_register_marker [of r p xs i rest d j 8] d(1) l by simp
  then show ?thesis using ok by simp
qed

end
