(* ===== verification/Huffman.thy ===== *)
theory Huffman
  imports Bits "HOL-Library.Sublist"
begin

unbundle bit_operations_syntax

text \<open>
  The Huffman tables of a JPEG (\<open>HuffCodes\<close> and \<open>HuffTree\<close> of \<open>jpeg/jpeg_header.rs\<close>): the codes of a
  DHT segment, the tables the encoder derives from them, the decoding tree in an array of nodes and the
  table of the codes of up to 8 bits.
\<close>

section \<open>Codes\<close>

record HuffCodes =
  c_val :: "u16 list"
  c_len :: "u16 list"
  c_len_plus_s :: "u8 list"
  c_val_shift_s :: "u32 list"
  max_eob_run :: u16

definition HuffCodes_default :: HuffCodes where
  "HuffCodes_default = \<lparr>c_val = replicate 256 0, c_len = replicate 256 0, c_len_plus_s = replicate 256 0,
     c_val_shift_s = replicate 512 0, max_eob_run = 0\<rparr>"

definition ensure_segment_space :: "bytes \<Rightarrow> usize \<Rightarrow> usize \<Rightarrow> unit result" where
  "ensure_segment_space segment hpos amount =
    (if length segment < hpos + amount then err_exit_code UnsupportedJpeg else Ok ())"

text \<open>The largest run of blocks the codes \<open>0x00\<close>, \<open>0x10\<close>, ..., \<open>0xE0\<close> that exist can express.\<close>

fun find_eob_run :: "nat \<Rightarrow> u16 list \<Rightarrow> u16" where
  "find_eob_run 0 lens = 0"
| "find_eob_run (Suc i) lens = (if 0 < lens ! (push_bit 4 i AND 0xFF) then push_bit i 2 - 1 else find_eob_run i lens)"

definition post_initialize :: "HuffCodes \<Rightarrow> HuffCodes" where
  "post_initialize hc =
    hc\<lparr>c_len_plus_s := map (\<lambda>i. ucast (c_len hc ! i + of_nat (i AND 0xF))) [0..<256],
       c_val_shift_s :=
         map (\<lambda>i. push_bit (i AND 0xF) (ucast (c_val hc ! i))) [0..<256] @
         map (\<lambda>i. push_bit (i AND 0xF) (ucast (c_val hc ! i)) OR (push_bit (i AND 0xF) 1 - 1)) [0..<256],
       max_eob_run := find_eob_run 15 (c_len hc)\<rparr>"

text \<open>The codes of length \<open>i + 1\<close>, \<open>n\<close> of them, to the symbols from position \<open>k\<close> of the segment.\<close>

fun code_loop :: "nat \<Rightarrow> bytes \<Rightarrow> usize \<Rightarrow> usize \<Rightarrow> u16 \<Rightarrow> HuffCodes \<Rightarrow> (usize \<times> u16 \<times> HuffCodes) result" where
  "code_loop 0 segment i k code hc = Ok (k, code, hc)"
| "code_loop (Suc n) segment i k code hc =
    bindR (ensure_segment_space segment 16 (k + 1)) (\<lambda>_.
      let len = of_nat (1 + i)
      in if push_bit (unat len mod 32) 1 \<le> (ucast code :: u32) then err_exit_code UnsupportedJpeg
         else bindR (idx segment (16 + (k AND 0xFF))) (\<lambda>symbol.
           let hc = hc\<lparr>c_len := (c_len hc)[unat symbol := len], c_val := (c_val hc)[unat symbol := code]\<rparr>
           in if code = 65535 then err_exit_code UnsupportedJpeg
              else code_loop n segment i (k + 1) (code + 1) hc))"

fun length_loop :: "usize list \<Rightarrow> bytes \<Rightarrow> usize \<Rightarrow> u16 \<Rightarrow> HuffCodes \<Rightarrow> HuffCodes result" where
  "length_loop [] segment k code hc = Ok hc"
| "length_loop (i # is) segment k code hc =
    bindR (ensure_segment_space segment 0 (i + 1)) (\<lambda>_.
    bindR (idx segment (0 + (i AND 0xFF))) (\<lambda>n.
    bindR (code_loop (unat n) segment i k code hc) (\<lambda>(k, code, hc).
      length_loop is segment k (push_bit 1 code) hc)))"

definition construct_from_segment :: "bytes \<Rightarrow> HuffCodes result" where
  "construct_from_segment segment =
    bindR (length_loop [0..<16] segment 0 0 HuffCodes_default) (\<lambda>hc. Ok (post_initialize hc))"

section \<open>The decoding tree\<close>

type_synonym nodes = "(u16 \<times> u16) list"

record HuffTree =
  node :: nodes
  peek_code :: "(u8 \<times> u8) list"

definition child :: "nodes \<Rightarrow> nat \<Rightarrow> bool \<Rightarrow> u16" where
  "child ns v b = (if b then snd (ns ! v) else fst (ns ! v))"

definition set_child :: "nat \<Rightarrow> bool \<Rightarrow> u16 \<Rightarrow> nodes \<Rightarrow> nodes" where
  "set_child v b x ns = ns[v := (if b then (fst (ns ! v), x) else (x, snd (ns ! v)))]"

text \<open>The path to the last link of a code: bits \<open>j\<close> to 1 of its value.\<close>

fun insert_path :: "bool \<Rightarrow> u16 \<Rightarrow> nat \<Rightarrow> nat \<Rightarrow> nodes \<times> u16 \<Rightarrow> (nat \<times> nodes \<times> u16) result" where
  "insert_path accept_invalid_dht cval 0 v t = Ok (v, t)"
| "insert_path accept_invalid_dht cval (Suc j) v (ns, nextfree) =
    (if v \<le> 0xFF
     then let b = (bitn cval (of_nat (Suc j)) = 1);
              (ns, nextfree) = (if child ns v b = 0 then (set_child v b nextfree ns, nextfree + 1) else (ns, nextfree))
          in insert_path accept_invalid_dht cval j (unat (child ns v b)) (ns, nextfree)
     else if \<not> accept_invalid_dht then err_exit_code UnsupportedJpeg
     else insert_path accept_invalid_dht cval j v (ns, nextfree))"

definition insert_code :: "bool \<Rightarrow> HuffCodes \<Rightarrow> nat \<Rightarrow> nodes \<times> u16 \<Rightarrow> (nodes \<times> u16) result" where
  "insert_code accept_invalid_dht hc i t =
    bindR (if 0 < c_len hc ! i then insert_path accept_invalid_dht (c_val hc ! i) (unat (c_len hc ! i) - 1) 0 t
           else Ok (0, t)) (\<lambda>(v, ns, nextfree).
      if v \<le> 0xFF
      then Ok (if 0 < c_len hc ! i then set_child v (bitn (c_val hc ! i) 0 = 1) (of_nat (i + 256)) ns else ns, nextfree)
      else if \<not> accept_invalid_dht then err_exit_code UnsupportedJpeg
      else Ok (ns, nextfree))"

fun insert_codes :: "bool \<Rightarrow> HuffCodes \<Rightarrow> nat list \<Rightarrow> nodes \<times> u16 \<Rightarrow> (nodes \<times> u16) result" where
  "insert_codes accept_invalid_dht hc [] t = Ok t"
| "insert_codes accept_invalid_dht hc (i # is) t =
    bindR (insert_code accept_invalid_dht hc i t) (insert_codes accept_invalid_dht hc is)"

definition mark_illegal :: "u16 \<times> u16 \<Rightarrow> u16 \<times> u16" where
  "mark_illegal x = (if fst x = 0 then 0xFFFF else fst x, if snd x = 0 then 0xFFFF else snd x)"

text \<open>Following the top bits of a byte through the tree, up to \<open>n\<close> more of them.\<close>

fun peek_walk :: "nodes \<Rightarrow> nat \<Rightarrow> nat \<Rightarrow> u16 \<Rightarrow> u8 \<Rightarrow> u16 \<times> u8" where
  "peek_walk ns peekbyte 0 v len = (v, len)"
| "peek_walk ns peekbyte (Suc n) v len =
    (if v < 256
     then peek_walk ns peekbyte n (child ns (unat v) (drop_bit (unat (7 - len)) peekbyte AND 1 = 1)) (len + 1)
     else (v, len))"

definition peek_entry :: "nodes \<Rightarrow> nat \<Rightarrow> u8 \<times> u8" where
  "peek_entry ns peekbyte =
    (let (v, len) = peek_walk ns peekbyte 8 0 0
     in if v = 0xFFFF \<or> v < 256 then (0, 0xFF) else (ucast (v - 256), len))"

definition construct_hufftree :: "HuffCodes \<Rightarrow> bool \<Rightarrow> HuffTree result" where
  "construct_hufftree hc accept_invalid_dht =
    bindR (insert_codes accept_invalid_dht hc [0..<256] (replicate 256 (0, 0), 1)) (\<lambda>(ns, nextfree).
      let ns = map mark_illegal ns
      in Ok \<lparr>node = ns, peek_code = map (peek_entry ns) [0..<256]\<rparr>)"

section \<open>What a table promises\<close>

text \<open>The code of a symbol, as a string of bits.\<close>

definition code_bits :: "HuffCodes \<Rightarrow> nat \<Rightarrow> bool list" where
  "code_bits hc i = bits_of (unat (c_len hc ! i)) (unat (c_val hc ! i))"

definition has_code :: "HuffCodes \<Rightarrow> nat \<Rightarrow> bool" where
  "has_code hc i \<longleftrightarrow> i < 256 \<and> 0 < c_len hc ! i"

definition codes_fit :: "HuffCodes \<Rightarrow> bool" where
  "codes_fit hc \<longleftrightarrow> length (c_len hc) = 256 \<and> length (c_val hc) = 256 \<and>
    (\<forall>i < 256. unat (c_len hc ! i) \<le> 16 \<and> unat (c_val hc ! i) < 2 ^ unat (c_len hc ! i))"

definition codes_ok :: "HuffCodes \<Rightarrow> bool" where
  "codes_ok hc \<longleftrightarrow> codes_fit hc \<and> (\<exists>hc0. codes_fit hc0 \<and> hc = post_initialize hc0)"

definition prefix_free :: "HuffCodes \<Rightarrow> bool" where
  "prefix_free hc \<longleftrightarrow> (\<forall>i j. has_code hc i \<longrightarrow> has_code hc j \<longrightarrow> i \<noteq> j \<longrightarrow> \<not> prefix (code_bits hc i) (code_bits hc j))"

section \<open>The tree decodes the codes\<close>

text \<open>With \<open>p v\<close> the path to node \<open>v\<close>: every link of an allocated node is free, or leads to an
  allocated node or to the symbol whose code is the path.\<close>

definition tree_inv :: "u16 \<Rightarrow> HuffCodes \<Rightarrow> nodes \<Rightarrow> nat \<Rightarrow> (nat \<Rightarrow> bool list) \<Rightarrow> bool" where
  "tree_inv free hc ns nf p \<longleftrightarrow> length ns = 256 \<and> 0 < nf \<and> nf \<le> 256 \<and> p 0 = [] \<and>
    (\<forall>v b. v < nf \<longrightarrow> child ns v b = free
      \<or> (0 < unat (child ns v b) \<and> unat (child ns v b) < nf \<and> p (unat (child ns v b)) = p v @ [b])
      \<or> (\<exists>i. has_code hc i \<and> unat (child ns v b) = 256 + i \<and> code_bits hc i = p v @ [b])) \<and>
    (\<forall>v. nf \<le> v \<longrightarrow> v < 256 \<longrightarrow> ns ! v = (free, free))"

lemma tree_invD:
  assumes "tree_inv free hc ns nf p" "v < nf"
  shows "child ns v b = free
      \<or> (0 < unat (child ns v b) \<and> unat (child ns v b) < nf \<and> p (unat (child ns v b)) = p v @ [b])
      \<or> (\<exists>i. has_code hc i \<and> unat (child ns v b) = 256 + i \<and> code_bits hc i = p v @ [b])"
  using assms by (simp add: tree_inv_def)

lemma child_set_child:
  "v < length ns \<Longrightarrow> child (set_child v b x ns) u c = (if u = v \<and> c = b then x else child ns u c)"
  by (cases "u = v") (auto simp: child_def set_child_def)

lemma length_set_child [simp]: "length (set_child v b x ns) = length ns"
  by (simp add: set_child_def)

lemma nth_set_child: "u \<noteq> v \<Longrightarrow> set_child v b x ns ! u = ns ! u"
  by (simp add: set_child_def)

lemma tree_inv_leaf:
  assumes "tree_inv free hc ns nf p" "v < nf" "has_code hc i" "code_bits hc i = p v @ [b]"
  shows "tree_inv free hc (set_child v b (of_nat (i + 256)) ns) nf p"
proof -
  have i: "i < 256" using assms(3) by (simp add: has_code_def)
  have "unat (of_nat (i + 256) :: u16) = i + 256" using i by (simp add: unat_of_nat del: of_nat_add)
  then show ?thesis using assms by (auto simp: tree_inv_def child_set_child nth_set_child)
qed

lemma tree_inv_node:
  assumes "tree_inv 0 hc ns nf p" "v < nf" "nf < 256"
  shows "tree_inv 0 hc (set_child v b (of_nat nf) ns) (Suc nf) (p(nf := p v @ [b]))"
proof -
  have nf: "unat (of_nat nf :: u16) = nf" using assms(3) by (simp add: unat_of_nat)
  have fresh: "child ns nf c = 0" for c using assms by (auto simp: tree_inv_def child_def)
  have old: "child (set_child v b (of_nat nf) ns) u c = (if u = v \<and> c = b then of_nat nf else child ns u c)" for u c
    using assms by (intro child_set_child) (auto simp: tree_inv_def)
  have "child (set_child v b (of_nat nf) ns) u c = 0
      \<or> (0 < unat (child (set_child v b (of_nat nf) ns) u c) \<and> unat (child (set_child v b (of_nat nf) ns) u c) < Suc nf
          \<and> (p(nf := p v @ [b])) (unat (child (set_child v b (of_nat nf) ns) u c)) = (p(nf := p v @ [b])) u @ [c])
      \<or> (\<exists>i. has_code hc i \<and> unat (child (set_child v b (of_nat nf) ns) u c) = 256 + i
          \<and> code_bits hc i = (p(nf := p v @ [b])) u @ [c])" if "u < Suc nf" for u c
  proof (cases "u = nf")
    case True
    then show ?thesis using assms(2) fresh by (simp add: old)
  next
    case False
    then have u: "u < nf" using that by simp
    have "0 < nf" using assms(1) by (simp add: tree_inv_def)
    then show ?thesis using tree_invD [OF assms(1) u, of c] u nf by (auto simp: old)
  qed
  moreover have "set_child v b (of_nat nf) ns ! u = (0, 0)" if "Suc nf \<le> u" "u < 256" for u
    using that assms by (simp add: nth_set_child tree_inv_def)
  ultimately show ?thesis using assms unfolding tree_inv_def by auto
qed

lemma bitn_odd: "n < 16 \<Longrightarrow> bitn c (of_nat n) = 1 \<longleftrightarrow> odd (unat c div 2 ^ n)"
proof -
  assume n: "n < 16"
  have "odd (drop_bit n c) \<longleftrightarrow> odd (unat c div 2 ^ n)" 
  proof -
    have "bit (unat c) n \<longleftrightarrow> bit (drop_bit n c) 0" by (simp add: bit_unsigned_iff bit_drop_bit_eq del: bit_0)
    then show ?thesis by (simp only: bit_0 bit_iff_odd [of "unat c"])
  qed
  then have "bitn c (of_nat n) = of_bool (odd (unat c div 2 ^ n))"
    using n by (simp add: bitn_def unat_of_nat and_one_eq mod2_eq_if)
  then show ?thesis by simp
qed

lemma insert_path_full:
  "255 < v \<Longrightarrow> insert_path False cval j v t = Ok (v', t') \<Longrightarrow> v' = v"
  by (cases j; cases t) auto

lemma insert_path_inv:
  assumes "tree_inv 0 hc ns (unat nf) p" "v < unat nf" "j < 16"
    and "insert_path False cval j v (ns, nf) = Ok (v', ns', nf')" "v' \<le> 255"
  shows "\<exists>p'. tree_inv 0 hc ns' (unat nf') p' \<and> v' < unat nf' \<and> p' v' = p v @ bits_of j (unat cval div 2)"
  using assms
proof (induction j arbitrary: v ns nf p)
  case (Suc j)
  define b where "b = odd (unat cval div 2 ^ Suc j)"
  have bb: "(bitn cval (of_nat (Suc j)) = 1) = b" using Suc.prems(3) by (simp add: b_def bitn_odd del: of_nat_Suc)
  have bits: "bits_of (Suc j) (unat cval div 2) = b # bits_of j (unat cval div 2)"
    by (simp add: bits_of_Cons b_def div_mult2_eq)
  have nf: "unat nf \<le> 256" "length ns = 256" using Suc.prems(1) by (simp_all add: tree_inv_def)
  have v: "v \<le> 0xFF" using nf Suc.prems(2) by simp
  show ?case
  proof (cases "child ns v b = 0")
    case True
    define ns1 where "ns1 = set_child v b nf ns"
    have c1: "child ns1 v b = nf" using v nf(2) by (simp add: ns1_def child_set_child)
    have rec: "insert_path False cval j (unat nf) (ns1, nf + 1) = Ok (v', ns', nf')"
      using Suc.prems(4) v c1 by (simp add: bb True Let_def flip: ns1_def del: of_nat_Suc)
    show ?thesis
    proof (cases "unat nf = 256")
      case True
      then show ?thesis using insert_path_full [OF _ rec] Suc.prems(5) by simp
    next
      case False
      then have less: "unat nf < 256" using nf by simp
      then have suc: "unat (nf + 1) = Suc (unat nf)" by (simp add: unat_word_ariths)
      have "tree_inv 0 hc ns1 (unat (nf + 1)) (p(unat nf := p v @ [b]))"
        using tree_inv_node [OF Suc.prems(1,2) less, of b] by (simp add: suc ns1_def)
      from Suc.IH [OF this _ _ rec Suc.prems(5)] Suc.prems(3) suc bits show ?thesis by simp
    qed
  next
    case False
    have rec: "insert_path False cval j (unat (child ns v b)) (ns, nf) = Ok (v', ns', nf')"
      using Suc.prems(4) v False by (simp add: bb Let_def del: of_nat_Suc)
    from tree_invD [OF Suc.prems(1,2), of b] False show ?thesis
    proof (elim disjE exE conjE)
      assume "unat (child ns v b) < unat nf" "p (unat (child ns v b)) = p v @ [b]"
      with Suc.IH [OF Suc.prems(1) _ _ rec Suc.prems(5)] Suc.prems(3) bits show ?thesis by simp
    next
      fix i
      assume "unat (child ns v b) = 256 + i"
      then show ?thesis using insert_path_full [OF _ rec] Suc.prems(5) by simp
    qed simp
  qed
qed auto

lemma insert_code_inv:
  assumes "tree_inv 0 hc ns (unat nf) p" "codes_fit hc" "i < 256"
    and "insert_code False hc i (ns, nf) = Ok (ns', nf')"
  shows "\<exists>p'. tree_inv 0 hc ns' (unat nf') p'"
proof (cases "0 < c_len hc ! i")
  case False
  then show ?thesis using assms by (auto simp: insert_code_def)
next
  case True
  let ?l = "unat (c_len hc ! i)"
  have l: "0 < ?l" "?l \<le> 16" using True assms(2,3) by (simp_all add: word_less_nat_alt codes_fit_def)
  from assms(4) True obtain v ns1 where path: "insert_path False (c_val hc ! i) (?l - 1) 0 (ns, nf) = Ok (v, ns1, nf')"
    and v: "v \<le> 255" and ns': "ns' = set_child v (bitn (c_val hc ! i) 0 = 1) (of_nat (i + 256)) ns1"
    by (auto simp: insert_code_def split: if_splits)
  have "0 < unat nf" using assms(1) by (simp add: tree_inv_def)
  have "?l - 1 < 16" "p 0 = []" using l(2) assms(1) by (simp_all add: tree_inv_def)
  with insert_path_inv [OF assms(1) \<open>0 < unat nf\<close> _ path v] obtain p' where
    p': "tree_inv 0 hc ns1 (unat nf') p'" "v < unat nf'" "p' v = bits_of (?l - 1) (unat (c_val hc ! i) div 2)"
    by auto
  have "code_bits hc i = bits_of (Suc (?l - 1)) (unat (c_val hc ! i))" using l by (simp add: code_bits_def)
  then have "code_bits hc i = p' v @ [bitn (c_val hc ! i) 0 = 1]"
    using bitn_odd [of 0 "c_val hc ! i"] by (simp add: bits_of_Suc p'(3))
  moreover have "has_code hc i" using True assms(3) by (simp add: has_code_def)
  ultimately show ?thesis using tree_inv_leaf [OF p'(1,2)] unfolding ns' by blast
qed

lemma insert_codes_inv:
  assumes "tree_inv 0 hc ns (unat nf) p" "codes_fit hc" "\<forall>i \<in> set is. i < 256"
    and "insert_codes False hc is (ns, nf) = Ok (ns', nf')"
  shows "\<exists>p'. tree_inv 0 hc ns' (unat nf') p'"
  using assms
proof (induction "is" arbitrary: ns nf p)
  case (Cons i "is")
  then obtain ns1 nf1 where 1: "insert_code False hc i (ns, nf) = Ok (ns1, nf1)"
    "insert_codes False hc is (ns1, nf1) = Ok (ns', nf')" by auto
  from insert_code_inv [OF Cons.prems(1,2) _ 1(1)] Cons.prems(3) obtain p1 where "tree_inv 0 hc ns1 (unat nf1) p1" by auto
  from Cons.IH [OF this Cons.prems(2) _ 1(2)] Cons.prems(3) show ?case by simp
qed auto

text \<open>The finished tree.\<close>

definition tree_ok :: "HuffCodes \<Rightarrow> HuffTree \<Rightarrow> nat \<Rightarrow> (nat \<Rightarrow> bool list) \<Rightarrow> bool" where
  "tree_ok hc ht nf p \<longleftrightarrow> tree_inv 0xFFFF hc (node ht) nf p \<and> peek_code ht = map (peek_entry (node ht)) [0..<256]"

lemma child_mark_illegal:
  "v < length ns \<Longrightarrow> child (map mark_illegal ns) v b = (if child ns v b = 0 then 0xFFFF else child ns v b)"
  by (simp add: child_def mark_illegal_def)

lemma construct_tree_ok:
  assumes "construct_hufftree hc False = Ok ht" "codes_fit hc"
  shows "\<exists>nf p. tree_ok hc ht nf p"
proof -
  from assms(1) obtain ns nf where ns: "insert_codes False hc [0..<256] (replicate 256 (0, 0), 1) = Ok (ns, nf)"
    and ht: "ht = \<lparr>node = map mark_illegal ns, peek_code = map (peek_entry (map mark_illegal ns)) [0..<256]\<rparr>"
    by (auto simp: construct_hufftree_def Let_def simp del: upt_Suc)
  have "tree_inv 0 hc (replicate 256 (0, 0)) (unat (1 :: u16)) (\<lambda>_. [])"
    by (auto simp: tree_inv_def child_def)
  from insert_codes_inv [OF this assms(2) _ ns] obtain p where p: "tree_inv 0 hc ns (unat nf) p" by auto
  have len: "length ns = 256" "unat nf \<le> 256" using p by (simp_all add: tree_inv_def)
  have "tree_inv 0xFFFF hc (map mark_illegal ns) (unat nf) p"
    unfolding tree_inv_def
  proof (intro conjI allI impI)
    fix v b
    assume v: "v < unat nf"
    then have "child (map mark_illegal ns) v b = (if child ns v b = 0 then 0xFFFF else child ns v b)"
      using len by (intro child_mark_illegal) simp
    with tree_invD [OF p v, of b] show "child (map mark_illegal ns) v b = 0xFFFF
      \<or> (0 < unat (child (map mark_illegal ns) v b) \<and> unat (child (map mark_illegal ns) v b) < unat nf
          \<and> p (unat (child (map mark_illegal ns) v b)) = p v @ [b])
      \<or> (\<exists>i. has_code hc i \<and> unat (child (map mark_illegal ns) v b) = 256 + i \<and> code_bits hc i = p v @ [b])"
      by auto
  next
    fix v
    assume "unat nf \<le> v" "v < 256"
    then show "map mark_illegal ns ! v = (0xFFFF, 0xFFFF)" using p len by (simp add: tree_inv_def mark_illegal_def)
  qed (use p in \<open>simp_all add: tree_inv_def\<close>)
  then show ?thesis by (auto simp: tree_ok_def ht)
qed

text \<open>Every code leads to its symbol when no code is a prefix of another.\<close>

fun leads :: "nodes \<Rightarrow> nat \<Rightarrow> bool list \<Rightarrow> nat \<Rightarrow> bool" where
  "leads ns v [] x \<longleftrightarrow> v = x"
| "leads ns v (b # bs) x \<longleftrightarrow> v < 256 \<and> child ns v b \<noteq> 0 \<and> leads ns (unat (child ns v b)) bs x"

lemma leads_append: "leads ns v (bs @ cs) x \<longleftrightarrow> (\<exists>y. leads ns v bs y \<and> leads ns y cs x)"
  by (induction bs arbitrary: v) auto

lemma leads_alloc:
  assumes "child ns v b = 0" "length ns = 256" "v < 256"
  shows "leads ns u bs x \<Longrightarrow> leads (set_child v b y ns) u bs x"
proof (induction bs arbitrary: u)
  case (Cons c bs)
  have "\<not> (u = v \<and> c = b)"
  proof
    assume "u = v \<and> c = b"
    then show False using Cons.prems assms(1) by simp
  qed
  then have "child (set_child v b y ns) u c = child ns u c" using assms by (auto simp: child_set_child)
  with Cons show ?case by simp
qed simp

lemma leads_leaf:
  assumes inv: "tree_inv 0 hc ns nf p" and v: "v < 256" and x: "x < nf \<or> 256 \<le> x"
  shows "leads ns u bs x \<Longrightarrow> u < nf \<Longrightarrow> \<not> prefix (p v @ [b]) (p u @ bs) \<Longrightarrow> leads (set_child v b y ns) u bs x"
proof (induction bs arbitrary: u)
  case (Cons c bs)
  have len: "length ns = 256" using inv by (simp add: tree_inv_def)
  have "\<not> (u = v \<and> c = b)" using Cons.prems(3) by (auto simp: prefix_def)
  then have same: "child (set_child v b y ns) u c = child ns u c" using v len by (auto simp: child_set_child)
  show ?case
  proof (cases bs)
    case Nil
    then show ?thesis using Cons.prems(1) same by simp
  next
    case (Cons d ds)
    have "unat (child ns u c) < 256" using Cons.prems(1) Cons by simp
    with tree_invD [OF inv Cons.prems(2), of c] Cons.prems(1)
    have "unat (child ns u c) < nf" "p (unat (child ns u c)) = p u @ [c]" by auto
    with Cons.IH [of "unat (child ns u c)"] Cons.prems same show ?thesis by simp
  qed
qed simp

lemma insert_path_leads:
  assumes "length ns = 256" "0 < nf" "unat nf \<le> 256" "j < 16"
    and "insert_path False cval j v (ns, nf) = Ok (v', ns', nf')" "v' \<le> 255"
  shows "(\<forall>u bs x. leads ns u bs x \<longrightarrow> leads ns' u bs x) \<and> leads ns' v (bits_of j (unat cval div 2)) v'"
  using assms
proof (induction j arbitrary: v ns nf)
  case (Suc j)
  define b where "b = odd (unat cval div 2 ^ Suc j)"
  have bb: "(bitn cval (of_nat (Suc j)) = 1) = b" using Suc.prems(4) by (simp add: b_def bitn_odd del: of_nat_Suc)
  have bits: "bits_of (Suc j) (unat cval div 2) = b # bits_of j (unat cval div 2)"
    by (simp add: bits_of_Cons b_def div_mult2_eq)
  have v: "v \<le> 0xFF"
  proof (rule ccontr)
    assume "\<not> v \<le> 0xFF"
    then show False using Suc.prems(5) by simp
  qed
  show ?case
  proof (cases "child ns v b = 0")
    case True
    define ns1 where "ns1 = set_child v b nf ns"
    have c1: "child ns1 v b = nf" using v Suc.prems(1) by (simp add: ns1_def child_set_child)
    have rec: "insert_path False cval j (unat nf) (ns1, nf + 1) = Ok (v', ns', nf')"
      using Suc.prems(5) v c1 by (simp add: bb True Let_def flip: ns1_def del: of_nat_Suc)
    show ?thesis
    proof (cases "unat nf = 256")
      case True
      then show ?thesis using insert_path_full [OF _ rec] Suc.prems(6) by simp
    next
      case False
      then have suc: "unat (nf + 1) = Suc (unat nf)" using Suc.prems(3) by (simp add: unat_word_ariths)
      then have "0 < nf + 1" "unat (nf + 1) \<le> 256" using False Suc.prems(3) by (simp_all add: word_less_nat_alt)
      from Suc.IH [OF _ this _ rec Suc.prems(6)] Suc.prems(1,4)
      have ih: "\<forall>u bs x. leads ns1 u bs x \<longrightarrow> leads ns' u bs x" "leads ns' (unat nf) (bits_of j (unat cval div 2)) v'"
        by (simp_all add: ns1_def)
      have "leads ns1 v [b] (unat nf)" using v c1 Suc.prems(2) by (simp add: word_less_nat_alt unat_eq_0 [symmetric])
      then have "leads ns' v [b] (unat nf)" using ih(1) by blast
      then have "leads ns' v ([b] @ bits_of j (unat cval div 2)) v'" unfolding leads_append using ih(2) by blast
      moreover have "leads ns u bs x \<Longrightarrow> leads ns' u bs x" for u bs x
        using leads_alloc [OF True Suc.prems(1), of u bs x nf] v ih(1) by (simp add: ns1_def)
      ultimately show ?thesis by (simp add: bits)
    qed
  next
    case False
    have rec: "insert_path False cval j (unat (child ns v b)) (ns, nf) = Ok (v', ns', nf')"
      using Suc.prems(5) v False by (simp add: bb Let_def del: of_nat_Suc)
    from Suc.IH [OF Suc.prems(1,2,3) _ rec Suc.prems(6)] Suc.prems(4)
    have ih: "\<forall>u bs x. leads ns u bs x \<longrightarrow> leads ns' u bs x" "leads ns' (unat (child ns v b)) (bits_of j (unat cval div 2)) v'"
      by simp_all
    have "leads ns v [b] (unat (child ns v b))" using v False by simp
    then have "leads ns' v [b] (unat (child ns v b))" using ih(1) by blast
    then have "leads ns' v ([b] @ bits_of j (unat cval div 2)) v'" unfolding leads_append using ih(2) by blast
    then show ?thesis using ih(1) by (simp add: bits)
  qed
qed auto

lemma insert_code_leads:
  assumes inv: "tree_inv 0 hc ns (unat nf) p" and fit: "codes_fit hc" and i: "i < 256" and pf: "prefix_free hc"
    and ok: "insert_code False hc i (ns, nf) = Ok (ns', nf')"
    and old: "\<forall>j \<in> D. has_code hc j \<longrightarrow> leads ns 0 (code_bits hc j) (256 + j)" and new: "i \<notin> D"
  shows "\<forall>j \<in> insert i D. has_code hc j \<longrightarrow> leads ns' 0 (code_bits hc j) (256 + j)"
proof (cases "0 < c_len hc ! i")
  case False
  then show ?thesis using ok old by (auto simp: insert_code_def has_code_def)
next
  case True
  let ?l = "unat (c_len hc ! i)"
  have l: "0 < ?l" "?l \<le> 16" using True fit i by (simp_all add: word_less_nat_alt codes_fit_def)
  from ok True obtain v ns1 where path: "insert_path False (c_val hc ! i) (?l - 1) 0 (ns, nf) = Ok (v, ns1, nf')"
    and v: "v \<le> 255" and ns': "ns' = set_child v (bitn (c_val hc ! i) 0 = 1) (of_nat (i + 256)) ns1"
    by (auto simp: insert_code_def split: if_splits)
  have nf: "0 < unat nf" "unat nf \<le> 256" "length ns = 256" "p 0 = []" using inv by (simp_all add: tree_inv_def)
  have "?l - 1 < 16" using l(2) by simp
  with insert_path_inv [OF inv nf(1) _ path v] nf(4) obtain p' where
    p': "tree_inv 0 hc ns1 (unat nf') p'" "v < unat nf'" "p' v = bits_of (?l - 1) (unat (c_val hc ! i) div 2)"
    by auto
  define b where "b = (bitn (c_val hc ! i) 0 = 1)"
  have "code_bits hc i = bits_of (Suc (?l - 1)) (unat (c_val hc ! i))" using l by (simp add: code_bits_def)
  then have code: "code_bits hc i = p' v @ [b]"
    using bitn_odd [of 0 "c_val hc ! i"] by (simp add: bits_of_Suc p'(3) b_def)
  have "0 < nf" using nf by (simp add: word_less_nat_alt)
  from insert_path_leads [OF nf(3) this nf(2) \<open>?l - 1 < 16\<close> path v]
  have mono: "\<And>u bs x. leads ns u bs x \<Longrightarrow> leads ns1 u bs x" and lv: "leads ns1 0 (p' v) v"
    by (simp_all add: p'(3))
  have p0: "p' 0 = []" "0 < unat nf'" "length ns1 = 256" using p'(1) by (simp_all add: tree_inv_def)
  have v256: "v < 256" using v by simp
  have hi: "has_code hc i" using True i by (simp add: has_code_def)
  have "leads ns' 0 (code_bits hc i) (256 + i)"
  proof -
    have "\<not> prefix (p' v @ [b]) (p' 0 @ p' v)" unfolding p0(1) by (auto dest!: prefix_length_le)
    with leads_leaf [OF p'(1) v256 _ lv p0(2)] p'(2) have "leads ns' 0 (p' v) v" by (simp add: ns' b_def)
    moreover have "child ns' v b = of_nat (i + 256)" using v256 p0(3) by (simp add: ns' b_def child_set_child)
    moreover have "unat (of_nat (i + 256) :: u16) = 256 + i" using i by (simp add: unat_of_nat del: of_nat_add)
    ultimately show ?thesis
      using v256 by (auto simp: code leads_append unat_eq_0 [symmetric] simp del: of_nat_add)
  qed
  moreover have "leads ns' 0 (code_bits hc j) (256 + j)" if j: "j \<in> D" "has_code hc j" for j
  proof -
    have "\<not> prefix (code_bits hc i) (code_bits hc j)" using pf hi j new by (auto simp: prefix_free_def)
    then have "\<not> prefix (p' v @ [b]) (p' 0 @ code_bits hc j)" by (simp add: code p0(1))
    with leads_leaf [OF p'(1) v256 _ mono p0(2)] old j show ?thesis by (simp add: ns' b_def)
  qed
  ultimately show ?thesis by auto
qed

lemma insert_codes_leads:
  assumes "tree_inv 0 hc ns (unat nf) p" "codes_fit hc" "prefix_free hc" "\<forall>i \<in> set is. i < 256" "distinct is"
    and "insert_codes False hc is (ns, nf) = Ok (ns', nf')" "set is \<inter> D = {}"
    and "\<forall>j \<in> D. has_code hc j \<longrightarrow> leads ns 0 (code_bits hc j) (256 + j)"
  shows "\<forall>j \<in> set is \<union> D. has_code hc j \<longrightarrow> leads ns' 0 (code_bits hc j) (256 + j)"
  using assms
proof (induction "is" arbitrary: ns nf p D)
  case (Cons i "is")
  then obtain ns1 nf1 where 1: "insert_code False hc i (ns, nf) = Ok (ns1, nf1)"
    "insert_codes False hc is (ns1, nf1) = Ok (ns', nf')" by auto
  from insert_code_inv [OF Cons.prems(1,2) _ 1(1)] Cons.prems(4) obtain p1 where p1: "tree_inv 0 hc ns1 (unat nf1) p1" by auto
  have "\<forall>j \<in> insert i D. has_code hc j \<longrightarrow> leads ns1 0 (code_bits hc j) (256 + j)"
    using insert_code_leads [OF Cons.prems(1,2) _ Cons.prems(3) 1(1) Cons.prems(8)] Cons.prems(4,7) by auto
  from Cons.IH [OF p1 Cons.prems(2,3) _ _ 1(2) _ this] Cons.prems(4,5,7) show ?case by auto
qed auto

lemma construct_leads:
  assumes "construct_hufftree hc False = Ok ht" "codes_fit hc" "prefix_free hc" "has_code hc i"
  shows "leads (node ht) 0 (code_bits hc i) (256 + i)"
proof -
  from assms(1) obtain ns nf where ns: "insert_codes False hc [0..<256] (replicate 256 (0, 0), 1) = Ok (ns, nf)"
    and ht: "node ht = map mark_illegal ns"
    by (auto simp: construct_hufftree_def Let_def simp del: upt_Suc)
  have inv: "tree_inv 0 hc (replicate 256 (0, 0)) (unat (1 :: u16)) (\<lambda>_. [])"
    by (auto simp: tree_inv_def child_def)
  from insert_codes_inv [OF this assms(2) _ ns] have len: "length ns = 256" by (auto simp: tree_inv_def)
  have "leads ns 0 (code_bits hc i) (256 + i)"
    using insert_codes_leads [OF inv assms(2,3) _ _ ns, of "{}"] assms(4) by (simp add: has_code_def)
  moreover have "leads ns v bs x \<Longrightarrow> leads (map mark_illegal ns) v bs x" for v bs x
    by (induction bs arbitrary: v) (simp_all add: len child_mark_illegal)
  ultimately show ?thesis by (simp add: ht)
qed

section \<open>The codes of a segment\<close>

lemma codes_fit_default: "codes_fit HuffCodes_default"
  by (simp add: codes_fit_def HuffCodes_default_def)

lemma codes_fit_post_initialize [simp]: "codes_fit (post_initialize hc) \<longleftrightarrow> codes_fit hc"
  by (simp add: codes_fit_def post_initialize_def)

lemma code_bits_post_initialize [simp]:
  "code_bits (post_initialize hc) i = code_bits hc i" "has_code (post_initialize hc) i = has_code hc i"
  by (simp_all add: code_bits_def has_code_def post_initialize_def)

lemma codes_ok_fit: "codes_ok hc \<Longrightarrow> codes_fit hc"
  by (auto simp: codes_ok_def)

text \<open>The next code of length \<open>l\<close> is \<open>c\<close>: all codes so far are to the left of it, and none is a prefix of
  another.\<close>

definition codes_left :: "HuffCodes \<Rightarrow> nat \<Rightarrow> nat \<Rightarrow> bool" where
  "codes_left hc l c \<longleftrightarrow> codes_fit hc \<and> prefix_free hc \<and>
    (\<forall>i. has_code hc i \<longrightarrow> unat (c_len hc ! i) \<le> l
       \<and> (unat (c_val hc ! i) + 1) * 2 ^ (l - unat (c_len hc ! i)) \<le> c)"

lemma prefix_bits_of:
  assumes "v < 2 ^ k" "c < 2 ^ l"
  shows "prefix (bits_of k v) (bits_of l c) \<longleftrightarrow> k \<le> l \<and> c div 2 ^ (l - k) = v"
proof (cases "k \<le> l")
  case True
  then have "prefix (bits_of k v) (bits_of l c) \<longleftrightarrow> bits_of k v = bits_of k (c div 2 ^ (l - k))"
    using take_bits_of [OF True, of c] by (metis append_eq_conv_conj length_bits_of prefix_def take_is_prefix)
  moreover have "c div 2 ^ (l - k) < 2 ^ k"
    using assms(2) pow_split [OF True] by (simp add: less_mult_imp_div_less)
  ultimately show ?thesis using assms(1) True by (auto simp: bits_of_eq_iff)
qed (auto dest: prefix_length_le)

lemma codes_left_add:
  assumes left: "codes_left hc l c" and l: "0 < l" "l \<le> 16" and c: "c < 2 ^ l" and sym: "s < 256"
  shows "codes_left (hc\<lparr>c_len := (c_len hc)[s := of_nat l], c_val := (c_val hc)[s := of_nat c]\<rparr>) l (Suc c)"
proof -
  define hc' where "hc' = hc\<lparr>c_len := (c_len hc)[s := of_nat l], c_val := (c_val hc)[s := of_nat c]\<rparr>"
  have len: "length (c_len hc) = 256" "length (c_val hc) = 256" using left by (simp_all add: codes_left_def codes_fit_def)
  have "(2::nat) ^ l \<le> 2 ^ 16" using l by (intro power_increasing) simp_all
  then have "c < 2 ^ 16" using c by linarith
  then have new: "unat (c_len hc' ! s) = l" "unat (c_val hc' ! s) = c"
    using sym len l by (simp_all add: hc'_def unat_of_nat)
  have old: "c_len hc' ! i = c_len hc ! i" "c_val hc' ! i = c_val hc ! i" if "i \<noteq> s" for i
    using that by (simp_all add: hc'_def)
  have fit: "codes_fit hc'"
    unfolding codes_fit_def
  proof (intro conjI allI impI)
    fix i :: nat
    assume "i < 256"
    then show "unat (c_len hc' ! i) \<le> 16" "unat (c_val hc' ! i) < 2 ^ unat (c_len hc' ! i)"
      using left l c by (cases "i = s"; simp add: new old codes_left_def codes_fit_def)+
  qed (simp_all add: hc'_def len)
  have has: "has_code hc i" if "has_code hc' i" "i \<noteq> s" for i using that by (simp add: has_code_def old)
  have code: "code_bits hc' s = bits_of l c" by (simp add: code_bits_def new)
  have clash: "\<not> prefix (code_bits hc' i) (code_bits hc' s) \<and> \<not> prefix (code_bits hc' s) (code_bits hc' i)"
    if i: "has_code hc' i" "i \<noteq> s" for i
  proof -
    let ?k = "unat (c_len hc ! i)" and ?v = "unat (c_val hc ! i)"
    from left has [OF i] have k: "?k \<le> l" "(?v + 1) * 2 ^ (l - ?k) \<le> c" "?v < 2 ^ ?k"
      by (auto simp: codes_left_def codes_fit_def has_code_def)
    have ci: "code_bits hc' i = bits_of ?k ?v" using i by (simp add: code_bits_def old)
    have "?v + 1 \<le> c div 2 ^ (l - ?k)" using div_le_mono [OF k(2), of "2 ^ (l - ?k)"] by simp
    then have "\<not> prefix (code_bits hc' i) (code_bits hc' s)"
      unfolding ci code using prefix_bits_of [OF k(3) c] by simp
    moreover have "\<not> prefix (code_bits hc' s) (code_bits hc' i)"
    proof
      assume p: "prefix (code_bits hc' s) (code_bits hc' i)"
      then have "l \<le> ?k \<and> ?v div 2 ^ (?k - l) = c" unfolding ci code using prefix_bits_of [OF c k(3)] by simp
      then have "?k = l" "?v = c" using k(1) by auto
      with k(2) show False by simp
    qed
    ultimately show ?thesis ..
  qed
  have "prefix_free hc'"
    unfolding prefix_free_def
  proof (intro allI impI)
    fix i j
    assume ij: "has_code hc' i" "has_code hc' j" "i \<noteq> j"
    consider "i = s" | "j = s" | "i \<noteq> s" "j \<noteq> s" by blast
    then show "\<not> prefix (code_bits hc' i) (code_bits hc' j)"
    proof cases
      case 3
      then have "prefix_free hc" "code_bits hc' i = code_bits hc i" "code_bits hc' j = code_bits hc j"
        using left by (simp_all add: codes_left_def code_bits_def old)
      then show ?thesis using ij 3 has by (auto simp: prefix_free_def)
    qed (use ij clash in blast)+
  qed
  moreover have "unat (c_len hc' ! i) \<le> l \<and> (unat (c_val hc' ! i) + 1) * 2 ^ (l - unat (c_len hc' ! i)) \<le> Suc c"
    if "has_code hc' i" for i
  proof (cases "i = s")
    case False
    then show ?thesis using left has [OF that False] by (force simp: codes_left_def old)
  qed (simp add: new)
  ultimately show ?thesis using fit by (simp add: codes_left_def flip: hc'_def)
qed

lemma codes_left_shift: "codes_left hc l c \<Longrightarrow> codes_left hc (Suc l) (2 * c)"
  unfolding codes_left_def by (auto simp: Suc_diff_le)

lemma code_loop_left:
  assumes "codes_left hc (Suc i) (unat code)" "i < 16" "unat code \<le> 2 ^ Suc i"
    and "code_loop n segment i k code hc = Ok (k', code', hc')"
  shows "codes_left hc' (Suc i) (unat code') \<and> unat code' = unat code + n \<and> unat code' \<le> 2 ^ Suc i"
  using assms
proof (induction n arbitrary: k code hc)
  case (Suc n)
  let ?len = "of_nat (1 + i) :: u16"
  have len: "unat ?len = Suc i" using Suc.prems(2) by (simp add: unat_of_nat del: of_nat_Suc of_nat_add)
  have "Suc i mod 32 = Suc i" using Suc.prems(2) by simp
  then have "unat (push_bit (unat ?len mod 32) 1 :: u32) = 2 ^ Suc i"
    unfolding len by (simp only:) (rule unat_pow2, use Suc.prems(2) in simp)
  moreover have "unat (ucast code :: u32) = unat code" using unat_lt2p [of code] by (simp add: unat_ucast)
  ultimately have fits: "\<not> push_bit (unat ?len mod 32) 1 \<le> (ucast code :: u32) \<longleftrightarrow> unat code < 2 ^ Suc i"
    by (simp add: word_le_nat_alt not_le del: of_nat_Suc of_nat_add power_Suc push_bit_of_1)
  define s where "s = unat (segment ! (16 + (k AND 0xFF)))"
  define hc1 where "hc1 = hc\<lparr>c_len := (c_len hc)[s := ?len], c_val := (c_val hc)[s := code]\<rparr>"
  from Suc.prems(4) have ok: "unat code < 2 ^ Suc i" "code \<noteq> 65535"
    "code_loop n segment i (k + 1) (code + 1) hc1 = Ok (k', code', hc')"
    using fits by (auto simp: Let_def hc1_def s_def split: if_splits simp del: of_nat_Suc of_nat_add power_Suc push_bit_of_1)
  have next_code: "unat (code + 1) = Suc (unat code)"
  proof -
    have "code + 1 \<noteq> 0"
    proof
      assume "code + 1 = 0"
      then have "code = - 1" by (simp add: eq_neg_iff_add_eq_0)
      with ok(2) show False by simp
    qed
    then show ?thesis by (simp add: unatSuc add.commute [of _ 1])
  qed
  have "s < 256" using unat_lt2p [of "segment ! (16 + (k AND 0xFF))"] by (simp add: s_def)
  from codes_left_add [OF Suc.prems(1) _ _ ok(1) this] Suc.prems(2)
  have "codes_left hc1 (Suc i) (unat (code + 1))" by (simp add: hc1_def next_code)
  moreover have "unat (code + 1) \<le> 2 ^ Suc i" using ok(1) next_code by simp
  ultimately show ?case using Suc.IH [OF _ Suc.prems(2) _ ok(3)] next_code by auto
qed simp

lemma code_loop_fit:
  assumes "codes_fit hc" "i < 16" "code_loop n segment i k code hc = Ok (k', code', hc')"
  shows "codes_fit hc'"
  using assms
proof (induction n arbitrary: k code hc)
  case (Suc n)
  let ?len = "of_nat (1 + i) :: u16"
  have len: "unat ?len = Suc i" using Suc.prems(2) by (simp add: unat_of_nat del: of_nat_Suc of_nat_add)
  have "Suc i mod 32 = Suc i" using Suc.prems(2) by simp
  then have "unat (push_bit (unat ?len mod 32) 1 :: u32) = 2 ^ Suc i"
    unfolding len by (simp only:) (rule unat_pow2, use Suc.prems(2) in simp)
  moreover have "unat (ucast code :: u32) = unat code" using unat_lt2p [of code] by (simp add: unat_ucast)
  ultimately have fits: "\<not> push_bit (unat ?len mod 32) 1 \<le> (ucast code :: u32) \<longleftrightarrow> unat code < 2 ^ Suc i"
    by (simp add: word_le_nat_alt not_le del: of_nat_Suc of_nat_add power_Suc push_bit_of_1)
  define s where "s = unat (segment ! (16 + (k AND 0xFF)))"
  define hc1 where "hc1 = hc\<lparr>c_len := (c_len hc)[s := ?len], c_val := (c_val hc)[s := code]\<rparr>"
  from Suc.prems(3) have ok: "unat code < 2 ^ Suc i" "code_loop n segment i (k + 1) (code + 1) hc1 = Ok (k', code', hc')"
    using fits by (auto simp: Let_def hc1_def s_def split: if_splits simp del: of_nat_Suc of_nat_add power_Suc push_bit_of_1)
  have "codes_fit hc1"
    unfolding codes_fit_def
  proof (intro conjI allI impI)
    fix j :: nat
    assume "j < 256"
    then show "unat (c_len hc1 ! j) \<le> 16" "unat (c_val hc1 ! j) < 2 ^ unat (c_len hc1 ! j)"
      using Suc.prems(1,2) ok(1) len
      by (cases "j = s"; simp add: hc1_def codes_fit_def del: of_nat_Suc of_nat_add power_Suc)+
  qed (use Suc.prems(1) in \<open>simp_all add: hc1_def codes_fit_def\<close>)
  then show ?case using Suc.IH [OF _ Suc.prems(2) ok(2)] by simp
qed simp

lemma length_loop_fit:
  "codes_fit hc \<Longrightarrow> \<forall>i \<in> set is. i < 16 \<Longrightarrow> length_loop is segment k code hc = Ok hc' \<Longrightarrow> codes_fit hc'"
proof (induction "is" arbitrary: k code hc)
  case (Cons i "is")
  from Cons.prems(3) obtain n k1 code1 hc1 where
    1: "code_loop n segment i k code hc = Ok (k1, code1, hc1)" "length_loop is segment k1 (push_bit 1 code1) hc1 = Ok hc'"
    by auto
  from code_loop_fit [OF Cons.prems(1) _ 1(1)] Cons.prems(2) have "codes_fit hc1" by simp
  from Cons.IH [OF this _ 1(2)] Cons.prems(2) show ?case by simp
qed simp

lemma construct_codes_ok: "construct_from_segment segment = Ok hc \<Longrightarrow> codes_ok hc"
proof -
  assume "construct_from_segment segment = Ok hc"
  then obtain hc0 where "length_loop [0..<16] segment 0 0 HuffCodes_default = Ok hc0" "hc = post_initialize hc0"
    by (auto simp: construct_from_segment_def simp del: upt_Suc)
  moreover from this have "codes_fit hc0" by (intro length_loop_fit [OF codes_fit_default]) simp_all
  ultimately show ?thesis by (auto simp: codes_ok_def)
qed

text \<open>The number of codes of up to \<open>i\<close> bits, each counted with the codes of \<open>i\<close> bits below it.\<close>

definition code_space :: "bytes \<Rightarrow> nat \<Rightarrow> nat" where
  "code_space segment i = (\<Sum>j<i. unat (segment ! j) * 2 ^ (i - 1 - j))"

lemma code_space_Suc: "code_space segment (Suc i) = 2 * code_space segment i + unat (segment ! i)"
proof -
  have "unat (segment ! j) * 2 ^ (Suc i - 1 - j) = 2 * (unat (segment ! j) * 2 ^ (i - 1 - j))" if "j < i" for j
  proof -
    have "Suc i - 1 - j = Suc (i - 1 - j)" using that by simp
    then show ?thesis by (simp only: power_Suc mult.left_commute)
  qed
  then have "(\<Sum>j<i. unat (segment ! j) * 2 ^ (Suc i - 1 - j)) = (\<Sum>j<i. 2 * (unat (segment ! j) * 2 ^ (i - 1 - j)))"
    by (intro sum.cong) simp_all
  then show ?thesis unfolding code_space_def sum.lessThan_Suc by (simp add: sum_distrib_left)
qed

lemma length_loop_left:
  assumes "i + n = 16" "i \<le> 15" "codes_left hc (Suc i) (unat code)" "unat code = 2 * code_space segment i"
    and "unat code \<le> 2 ^ Suc i" "segment ! 15 = 0 \<or> code_space segment 15 < 2 ^ 15"
    and "length_loop [i..<16] segment k code hc = Ok hc'"
  shows "prefix_free hc'"
  using assms
proof (induction n arbitrary: i k code hc)
  case (Suc n)
  have i16: "i AND 0xFF = i"
  proof -
    have "list_all (\<lambda>i. i AND 0xFF = (i :: nat)) [0..<16]" by code_simp
    then show ?thesis using Suc.prems(2) unfolding list_all_iff by simp
  qed
  have "[i..<16] = i # [Suc i..<16]" using Suc.prems(2) by (simp add: upt_conv_Cons)
  with Suc.prems(7) obtain k1 code1 hc1 where
    1: "code_loop (unat (segment ! i)) segment i k code hc = Ok (k1, code1, hc1)"
    "length_loop [Suc i..<16] segment k1 (push_bit 1 code1) hc1 = Ok hc'"
    by (auto simp: i16 simp del: upt_Suc)
  have i: "i < 16" using Suc.prems(2) by simp
  from code_loop_left [OF Suc.prems(3) i Suc.prems(5) 1(1)] Suc.prems(4)
  have left: "codes_left hc1 (Suc i) (unat code1)" and c1: "unat code1 = code_space segment (Suc i)" "unat code1 \<le> 2 ^ Suc i"
    unfolding code_space_Suc by auto
  show ?case
  proof (cases "i = 15")
    case True
    then show ?thesis using 1(2) left by (simp add: codes_left_def)
  next
    case False
    show ?thesis
    proof (cases "i = 14 \<and> unat code1 = 2 ^ 15")
      case True
      then have "Suc i = 15" "unat code1 = 2 ^ 15" by simp_all
      then have "code_space segment 15 = 2 ^ 15" using c1(1) by (simp only:)
      then have "segment ! 15 = 0" using Suc.prems(6) by simp
      moreover have "[Suc i..<16] = [15]" using True upt_conv_Cons [of 15 16] by simp
      ultimately have "hc' = hc1" using 1(2) by auto
      then show ?thesis using left by (simp add: codes_left_def)
    next
      case no_wrap: False
      have "2 * unat code1 < 2 ^ 16"
      proof (cases "i = 14")
        case True
        then show ?thesis using no_wrap c1(2) by simp
      next
        case False
        then have "(2::nat) ^ Suc i \<le> 2 ^ 14" using \<open>i \<noteq> 15\<close> i by (intro power_increasing) simp_all
        then show ?thesis using c1(2) by simp
      qed
      then have shift: "unat (push_bit 1 code1) = 2 * unat code1"
        using unat_push_bit_small [of code1 1] by (simp add: mult.commute del: push_bit_of_1)
      have l: "codes_left hc1 (Suc (Suc i)) (unat (push_bit 1 code1))"
        unfolding shift by (rule codes_left_shift [OF left])
      have "unat (push_bit 1 code1) = 2 * code_space segment (Suc i)" unfolding shift c1(1) ..
      moreover have "unat (push_bit 1 code1) \<le> 2 ^ Suc (Suc i)" unfolding shift using c1(2) by simp
      moreover have "Suc i \<le> 15" "Suc i + n = 16" using False Suc.prems(1,2) by simp_all
      ultimately show ?thesis using Suc.IH [OF _ _ l _ _ Suc.prems(6) 1(2)] by blast
    qed
  qed
qed simp

lemma construct_prefix_free:
  assumes "construct_from_segment segment = Ok hc" "segment ! 15 = 0 \<or> code_space segment 15 < 2 ^ 15"
  shows "prefix_free hc"
proof -
  from assms(1) obtain hc0 where hc0: "length_loop [0..<16] segment 0 0 HuffCodes_default = Ok hc0" "hc = post_initialize hc0"
    by (auto simp: construct_from_segment_def simp del: upt_Suc)
  have "\<not> has_code HuffCodes_default i" for i by (simp add: has_code_def HuffCodes_default_def)
  then have "codes_left HuffCodes_default (Suc 0) (unat (0 :: u16))"
    using codes_fit_default by (simp add: codes_left_def prefix_free_def)
  from length_loop_left [OF _ _ this _ _ assms(2) hc0(1), of 16] have "prefix_free hc0"
    by (simp add: code_space_def)
  then show ?thesis by (simp add: prefix_free_def hc0(2))
qed

end
