(* ===== verification/Scan_Block.thy ===== *)
theory Scan_Block
  imports Bit_Writer Bit_Reader Huffman Predict
begin

unbundle bit_operations_syntax

text \<open>
  The Huffman coding of one block of a sequential scan (\<open>write_coef\<close>, \<open>encode_block_seq\<close> of
  \<open>jpeg/jpeg_write.rs\<close>; \<open>next_huff_code\<close>, \<open>read_coef\<close>, \<open>read_dc\<close>, \<open>decode_block_seq\<close> of
  \<open>jpeg/jpeg_read.rs\<close>), and the bits the JPEG standard gives to a block. What the decoder reads from a
  scan, the encoder writes again, bit for bit.
\<close>

section \<open>Reading\<close>

text \<open>Loops that follow what is read run on fuel; \<open>17\<close> is enough for a code, and \<open>81\<close> for a block.\<close>

fun huff_walk :: "nat \<Rightarrow> HuffTree \<Rightarrow> u16 \<Rightarrow> BitReader \<Rightarrow> (u16 \<times> BitReader) result option" where
  "huff_walk 0 ctree v r = None"
| "huff_walk (Suc n) ctree v r =
    (if v < 256
     then bindF (Some (read 1 r)) (\<lambda>(b, r). huff_walk n ctree (child (node ctree) (unat v) (b = 1)) r)
     else Some (Ok (v, r)))"

definition next_huff_code :: "nat \<Rightarrow> HuffTree \<Rightarrow> BitReader \<Rightarrow> (u8 \<times> BitReader) result option" where
  "next_huff_code n ctree r =
    bindF (huff_walk n ctree 0 r) (\<lambda>(v, r).
      Some (if v = 0xFFFF then err_exit_code UnsupportedJpeg else Ok (ucast (v - 256), r)))"

fun coef_code :: "nat \<Rightarrow> HuffTree \<Rightarrow> BitReader \<Rightarrow> (u8 \<times> BitReader) result option" where
  "coef_code 0 tree r = None"
| "coef_code (Suc n) tree r =
    (let (peek_value, peek_len) = peek r;
         (code, code_len) = peek_code tree ! unat peek_value
     in if ucast code_len \<le> peek_len then Some (Ok (code, advance (ucast code_len) r))
        else if peek_len < 8 then bindF (Some (reader_fill_register 8 r)) (coef_code n tree)
        else next_huff_code n tree r)"

definition read_coef_huff :: "nat \<Rightarrow> HuffTree \<Rightarrow> BitReader \<Rightarrow> ((usize \<times> i16) option \<times> BitReader) result option" where
  "read_coef_huff n tree r =
    bindF (coef_code n tree r) (\<lambda>(hc, r).
      if hc \<noteq> 0
      then let z = unat (lbits hc 4); literal_bits = rbits hc 4
           in bindF (Some (read (ucast literal_bits) r)) (\<lambda>(v, r). Some (Ok (Some (z, devli literal_bits v), r)))
      else Some (Ok (None, r)))"

definition read_dc_huff :: "nat \<Rightarrow> HuffTree \<Rightarrow> BitReader \<Rightarrow> (i16 \<times> BitReader) result option" where
  "read_dc_huff n tree r =
    bindF (read_coef_huff n tree r) (\<lambda>(c, r).
      let (z, coef) = (case c of Some zc \<Rightarrow> zc | None \<Rightarrow> (0, 0))
      in Some (if z \<noteq> 0 then err_exit_code UnsupportedJpeg else Ok (coef, r)))"

text \<open>The loop of \<open>decode_block_seq\<close>: the end of the block, whether a run went past it, the position, the block.\<close>

fun ac_loop ::
  "nat \<Rightarrow> HuffTree \<Rightarrow> usize \<Rightarrow> i16 list \<Rightarrow> BitReader \<Rightarrow> ((usize \<times> bool \<times> usize \<times> i16 list) \<times> BitReader) result option"
where
  "ac_loop 0 actree bpos block r = None"
| "ac_loop (Suc n) actree bpos block r =
    (if bpos < 64
     then bindF (read_coef_huff n actree r) (\<lambda>(c, r).
       case c of
         Some (z, coef) \<Rightarrow>
           if 64 \<le> z + bpos then Some (Ok ((64, True, bpos, block), r))
           else ac_loop n actree (bpos + z + 1) (block[bpos + z := coef]) r
       | None \<Rightarrow> Some (Ok ((bpos, False, bpos, block), r)))
     else Some (Ok ((64, False, bpos, block), r)))"

definition decode_block_seq ::
  "nat \<Rightarrow> HuffTree \<Rightarrow> HuffTree \<Rightarrow> i16 list \<Rightarrow> BitReader \<Rightarrow> ((usize \<times> i16 list) \<times> BitReader) result option"
where
  "decode_block_seq n dctree actree block r =
    bindF (read_dc_huff n dctree r) (\<lambda>(dc, r).
    bindF (ac_loop n actree 1 (block[0 := dc]) r) (\<lambda>((eob, eof_fixup, bpos, block), r).
      Some (if eof_fixup
            then if \<not> is_eof r then err_exit_code UnsupportedJpeg
                 else let block = fold (\<lambda>i b. b[i := 0]) [bpos..<eob] block;
                          block = (if 0 < eob then block[eob - 1 := 1] else block)
                      in Ok ((eob, block), r)
            else Ok ((eob, block), r))))"

section \<open>Writing\<close>

text \<open>The operations on vectors of 16 lanes of the crate \<open>wide\<close>, and what their documentation promises.\<close>

record simd16 =
  simd_eq_i16x16 :: "i16 list \<Rightarrow> i16 list \<Rightarrow> i16 list"
  to_bitmask_i16x16 :: "i16 list \<Rightarrow> u32"
  abs_i16x16 :: "i16 list \<Rightarrow> i16 list"
  shr_i16x16 :: "i16 list \<Rightarrow> nat \<Rightarrow> i16 list"

locale simd16_laws =
  fixes V :: simd16
  assumes simd_eq_i16x16: "length v = 16 \<Longrightarrow> length w = 16 \<Longrightarrow>
      simd_eq_i16x16 V v w = map2 (\<lambda>a b. if a = b then - 1 else 0) v w"
    and to_bitmask_i16x16: "length v = 16 \<Longrightarrow> to_bitmask_i16x16 V v = horner_sum of_bool 2 (map (\<lambda>a. sint a < 0) v)"
    and abs_i16x16: "length v = 16 \<Longrightarrow> abs_i16x16 V v = map abs_u16 v"
    and shr_i16x16: "length v = 16 \<Longrightarrow> shr_i16x16 V v n = map (\<lambda>a. sshr a n) v"

definition lane_ops16 :: simd16 where
  "lane_ops16 = \<lparr>simd_eq_i16x16 = map2 (\<lambda>a b. if a = b then - 1 else 0),
     to_bitmask_i16x16 = (\<lambda>v. horner_sum of_bool 2 (map (\<lambda>a. sint a < 0) v)),
     abs_i16x16 = map abs_u16, shr_i16x16 = (\<lambda>v n. map (\<lambda>a. sshr a n) v)\<rparr>"

interpretation lane_ops16: simd16_laws lane_ops16
  by unfold_locales (simp_all add: lane_ops16_def)

text \<open>The cast of a block to four vectors.\<close>

definition row16 :: "'a list \<Rightarrow> nat \<Rightarrow> 'a list" where
  "row16 xs i = take 16 (drop (16 * i) xs)"

definition write_coef_huff :: "bool \<Rightarrow> u16 \<Rightarrow> u32 \<Rightarrow> HuffCodes \<Rightarrow> BitWriter \<Rightarrow> BitWriter result" where
  "write_coef_huff is_neg abs_coef z tbl w =
    (let s = 32 - of_nat (leading_zeros (ucast abs_coef :: u32));
         hc = push_bit 4 z OR s
     in bindR (idx (c_val_shift_s tbl) (unat (hc OR push_bit 8 (of_bool is_neg)))) (\<lambda>v.
        let val = v XOR ucast abs_coef
        in bindR (idx (c_len_plus_s tbl) (unat hc)) (\<lambda>new_bits. Ok (write_bits val (ucast new_bits) w))))"

lemma drop_bit_less: "msk \<noteq> (0 :: u64) \<Longrightarrow> unat (drop_bit (Suc n) msk) < unat msk"
  unfolding unat_drop_bit by (rule div_less_dividend [OF one_less_power]) (simp_all add: unat_gt_0)

function ac_write_loop :: "u64 \<Rightarrow> usize \<Rightarrow> i16 list \<Rightarrow> u16 list \<Rightarrow> HuffCodes \<Rightarrow> BitWriter \<Rightarrow> BitWriter result" where
  "ac_write_loop msk bpos is_neg abs_value actbl w =
    (if msk \<noteq> 0
     then let zeros = trailing_zeros msk;
              zeros = (if 15 < zeros then 15 else zeros);
              bpos = bpos + (zeros + 1);
              msk = drop_bit (Suc zeros) msk
          in bindR (idx is_neg (bpos - 1)) (\<lambda>neg.
             bindR (idx abs_value (bpos - 1)) (\<lambda>a.
             bindR (write_coef_huff (neg AND 256 \<noteq> 0) a (of_nat zeros) actbl w) (\<lambda>w.
               if 64 \<le> bpos then Ok w else ac_write_loop msk bpos is_neg abs_value actbl w)))
     else bindR (idx (c_val actbl) 0) (\<lambda>val. bindR (idx (c_len actbl) 0) (\<lambda>len. Ok (write_bits (ucast val) (ucast len) w))))"
  by pat_completeness auto

termination ac_write_loop
  by (relation "measure (\<lambda>(msk, _). unat msk)") (auto simp: drop_bit_less)

declare ac_write_loop.simps [simp del]

definition encode_block_seq :: "simd16 \<Rightarrow> HuffCodes \<Rightarrow> HuffCodes \<Rightarrow> AlignedBlock \<Rightarrow> BitWriter \<Rightarrow> BitWriter result" where
  "encode_block_seq V dctbl actbl block w =
    (let block_simd = row16 (get_block block);
         zero_mask = (\<lambda>i. ucast (to_bitmask_i16x16 V (simd_eq_i16x16 V (block_simd i) (replicate 16 0))) :: u64);
         msk = zero_mask 0 OR push_bit 16 (zero_mask 1) OR push_bit 32 (zero_mask 2) OR push_bit 48 (zero_mask 3);
         abs_value = concat (map (\<lambda>i. abs_i16x16 V (block_simd i)) [0..<4]);
         is_neg = concat (map (\<lambda>i. shr_i16x16 V (block_simd i) 15) [0..<4])
     in bindR (idx is_neg 0) (\<lambda>neg.
        bindR (idx abs_value 0) (\<lambda>a.
        bindR (write_coef_huff (neg AND 256 \<noteq> 0) a 0 dctbl w) (\<lambda>w.
          ac_write_loop (drop_bit 1 (NOT msk)) 1 is_neg abs_value actbl w))))"

section \<open>The bits of a block\<close>

text \<open>The code of a run of \<open>z\<close> zeros and a coefficient \<open>c\<close>: the Huffman code of the run and the number
  \<open>s\<close> of bits of \<open>\<bar>c\<bar>\<close>, and \<open>s\<close> bits for \<open>c\<close>, where negative values are shifted up by \<open>2 ^ s - 1\<close>.\<close>

definition literal :: "nat \<Rightarrow> int \<Rightarrow> nat" where
  "literal s c = nat (if c < 0 then c + 2 ^ s - 1 else c)"

definition magnitude :: "int \<Rightarrow> nat" where
  "magnitude c = bit_len (nat \<bar>c\<bar>)"

definition coef_bits :: "HuffCodes \<Rightarrow> nat \<Rightarrow> int \<Rightarrow> bool list" where
  "coef_bits tbl z c = code_bits tbl (16 * z + magnitude c) @ bits_of (magnitude c) (literal (magnitude c) c)"

text \<open>The coefficients behind the DC, with \<open>z\<close> zeros before them: runs of 16 zeros have the code
  \<open>0xF0\<close>, trailing zeros the code \<open>0x00\<close>.\<close>

fun ac_bits :: "HuffCodes \<Rightarrow> nat \<Rightarrow> int list \<Rightarrow> bool list" where
  "ac_bits tbl z [] = (if z = 0 then [] else code_bits tbl 0)"
| "ac_bits tbl z (c # cs) =
    (if c = 0 then ac_bits tbl (Suc z) cs
     else concat (replicate (z div 16) (code_bits tbl 0xF0)) @ coef_bits tbl (z mod 16) c @ ac_bits tbl 0 cs)"

definition block_bits :: "HuffCodes \<Rightarrow> HuffCodes \<Rightarrow> i16 list \<Rightarrow> bool list" where
  "block_bits dctbl actbl block =
    coef_bits dctbl 0 (sint (block ! 0)) @ ac_bits actbl 0 (map sint (tl block))"

lemma magnitude_0 [simp]: "magnitude 0 = 0"
  by (simp add: magnitude_def)

lemma coef_bits_zrl: "coef_bits tbl 15 0 = code_bits tbl 0xF0"
  by (simp add: coef_bits_def)

lemma ac_bits_zeros: "ac_bits tbl z (replicate k 0 @ cs) = ac_bits tbl (z + k) cs"
  by (induction k arbitrary: z) simp_all

lemma literal_less:
  assumes "magnitude c = s"
  shows "literal s c < 2 ^ s"
proof -
  have "nat \<bar>c\<bar> < 2 ^ s" using bit_len_upper [of "nat \<bar>c\<bar>"] assms by (simp add: magnitude_def)
  then have "\<bar>c\<bar> < 2 ^ s" by (metis nat_less_iff abs_ge_zero of_nat_power of_nat_numeral)
  then have "literal s c < nat (2 ^ s)"
    unfolding literal_def by (subst nat_less_eq_zless) auto
  then show ?thesis by (simp add: nat_power_eq)
qed

text \<open>\<open>devli\<close> inverts the literal.\<close>

lemma devli_literal:
  assumes s: "unat s \<le> 15" "0 < unat s" and v: "unat v < 2 ^ unat s"
  shows "magnitude (sint (devli s v)) = unat s" "literal (unat s) (sint (devli s v)) = unat v"
proof -
  let ?s = "unat s" and ?c = "sint (devli s v)"
  have c: "?c = (if unat v < 2 ^ (?s - 1) then int (unat v) - 2 ^ ?s + 1 else int (unat v))"
    using devli_signed [OF s(1) v] s(2) by simp
  obtain k where k: "?s = Suc k" using s(2) by (cases ?s) auto
  define V where "V = int (unat v)"
  have V: "0 \<le> V" "V < 2 ^ ?s" using v unfolding V_def by (simp, metis of_nat_less_iff of_nat_numeral of_nat_power)
  have "unat v < 2 ^ k \<longleftrightarrow> V < 2 ^ k" unfolding V_def by (metis of_nat_less_iff of_nat_numeral of_nat_power)
  then have cV: "?c = (if V < 2 ^ k then V - 2 ^ ?s + 1 else V)" using c by (simp add: k V_def)
  have "2 ^ k \<le> \<bar>?c\<bar>" "\<bar>?c\<bar> < 2 ^ Suc k" using V unfolding cV k by auto
  then have "2 ^ k \<le> nat \<bar>?c\<bar>" "nat \<bar>?c\<bar> < 2 ^ Suc k" by (simp_all add: le_nat_iff nat_less_iff)
  from bit_len_unique [OF this] show "magnitude ?c = ?s" by (simp add: magnitude_def k)
  have "literal ?s ?c = nat V" using V by (auto simp: literal_def cV k)
  then show "literal ?s ?c = unat v" by (simp add: V_def)
qed

lemma nat_xor_disjoint:
  fixes a b :: nat
  assumes "b < 2 ^ n"
  shows "(a * 2 ^ n) XOR b = a * 2 ^ n + b"
    and "(a * 2 ^ n OR mask n) XOR b = a * 2 ^ n + (2 ^ n - 1 - b)"
proof -
  have b: "take_bit n b = b" using assms by (simp add: take_bit_nat_eq_self)
  have x: "(a * 2 ^ n) XOR c = (a * 2 ^ n) OR c" if "take_bit n c = c" for c
  proof (rule bit_eqI)
    fix i
    have "bit c i \<Longrightarrow> i < n" using that by (metis bit_take_bit_iff)
    then show "bit ((a * 2 ^ n) XOR c) i \<longleftrightarrow> bit ((a * 2 ^ n) OR c) i"
      by (auto simp: push_bit_eq_mult [symmetric] bit_simps)
  qed
  show "(a * 2 ^ n) XOR b = a * 2 ^ n + b" using x [OF b] nat_or_disjoint [OF assms] by simp
  have m: "b + (mask n XOR b) = mask n"
  proof -
    have "b AND (mask n XOR b) = 0"
      by (rule bit_eqI) (metis b bit_0_eq bit_and_iff bit_mask_iff bit_take_bit_iff bit_xor_iff possible_bit_nat bot_apply bot_bool_def)
    then have "b + (mask n XOR b) = b OR (mask n XOR b)" by (simp add: disjunctive_add_eq_or)
    also have "\<dots> = mask n"
      by (rule bit_eqI) (metis b bit_or_iff bit_mask_iff bit_take_bit_iff bit_xor_iff possible_bit_nat)
    finally show ?thesis .
  qed
  have t: "take_bit n (mask n XOR b) = mask n XOR b" using b by (simp add: take_bit_xor)
  have "(a * 2 ^ n OR mask n) XOR b = (a * 2 ^ n XOR mask n) XOR b" using x [of "mask n"] by simp
  also have "\<dots> = (a * 2 ^ n) XOR (mask n XOR b)" by (rule xor.assoc)
  also have "\<dots> = a * 2 ^ n + (mask n XOR b)"
    unfolding x [OF t] using nat_or_disjoint [of "mask n XOR b" n a] t by (metis take_bit_nat_less_exp)
  also have "mask n XOR b = 2 ^ n - 1 - b" using m by (simp add: mask_eq_exp_minus_1)
  finally show "(a * 2 ^ n OR mask n) XOR b = a * 2 ^ n + (2 ^ n - 1 - b)" .
qed

section \<open>Writing a coefficient\<close>

lemma tables_post_initialize:
  assumes "codes_fit hc0" "h < 256"
  defines "s \<equiv> h mod 16" and "tbl \<equiv> post_initialize hc0"
  shows "unat (c_len_plus_s tbl ! h) = unat (c_len tbl ! h) + s" "length (c_len_plus_s tbl) = 256"
    "unat (c_val_shift_s tbl ! h) = unat (c_val tbl ! h) * 2 ^ s"
    "unat (c_val_shift_s tbl ! (h + 256)) = unat (c_val tbl ! h) * 2 ^ s OR mask s" "length (c_val_shift_s tbl) = 512"
proof -
  have hs: "h AND 0xF = s"
    using take_bit_eq_mask [of 4 h] take_bit_eq_mod [of 4 h] by (simp add: s_def mask_eq_exp_minus_1)
  have s: "s \<le> 15" by (simp add: s_def)
  have fit: "unat (c_len hc0 ! h) \<le> 16" "unat (c_val hc0 ! h) < 2 ^ 16"
    using assms(1,2) unat_lt2p [of "c_val hc0 ! h"] by (simp_all add: codes_fit_def)
  have "unat (c_len hc0 ! h + of_nat s) = unat (c_len hc0 ! h) + s"
    using fit(1) s by (simp add: unat_word_ariths unat_of_nat)
  then show "unat (c_len_plus_s tbl ! h) = unat (c_len tbl ! h) + s" "length (c_len_plus_s tbl) = 256"
    using assms(2) fit(1) s by (simp_all add: tbl_def post_initialize_def hs unat_ucast)
  have "unat (c_val hc0 ! h) * 2 ^ s < 2 ^ 16 * 2 ^ s" using fit(2) by simp
  also have "\<dots> \<le> 2 ^ 16 * 2 ^ 15" using s by (intro mult_le_mono2 power_increasing) simp_all
  finally have v: "unat (push_bit s (ucast (c_val hc0 ! h)) :: u32) = unat (c_val hc0 ! h) * 2 ^ s"
    using fit(2) by (subst unat_push_bit_small) (simp_all add: unat_ucast)
  then show "unat (c_val_shift_s tbl ! h) = unat (c_val tbl ! h) * 2 ^ s" "length (c_val_shift_s tbl) = 512"
    using assms(2) by (simp_all add: tbl_def post_initialize_def hs nth_append)
  have "push_bit s 1 - 1 = (mask s :: u32)" by (simp add: mask_eq_exp_minus_1 push_bit_eq_mult)
  moreover have "unat (mask s :: u32) = mask s"
  proof -
    have "mask s < (2 :: nat) ^ s" by (simp add: mask_eq_exp_minus_1)
    also have "\<dots> \<le> 2 ^ 32" using s by (intro power_increasing) simp_all
    finally have "mask s mod 2 ^ LENGTH(32) = (mask s :: nat)" by simp
    moreover have "(mask s :: u32) = of_nat (mask s)" by (simp add: of_nat_mask_eq)
    ultimately show ?thesis by (simp only: unat_of_nat)
  qed
  ultimately show "unat (c_val_shift_s tbl ! (h + 256)) = unat (c_val tbl ! h) * 2 ^ s OR mask s"
    using assms(2) v by (simp add: tbl_def post_initialize_def hs nth_append unat_or)
qed

lemma write_coef_huff_wrote:
  assumes tbl: "codes_ok tbl" and z: "unat z \<le> 15" and c: "sint c \<noteq> - (2 ^ 15)" and w: "wrote w pre bs"
  shows "\<exists>w'. write_coef_huff (sint c < 0) (abs_u16 c) z tbl w = Ok w' \<and> wrote w' pre (bs @ coef_bits tbl (unat z) (sint c))"
proof -
  define A where "A = nat \<bar>sint c\<bar>"
  define s where "s = bit_len A"
  define h where "h = 16 * unat z + s"
  have a: "unat (abs_u16 c) = A" by (simp add: unat_abs_u16 A_def)
  have "\<bar>sint c\<bar> < 2 ^ 15" using sint_greater_eq [of c] sint_less [of c] c by (simp add: abs_less_iff)
  then have "A < 2 ^ 15" by (simp add: A_def nat_less_iff)
  then have s: "s \<le> 15" unfolding s_def bit_len_le_iff .
  have A: "A < 2 ^ s" unfolding s_def by (rule bit_len_upper)
  have h: "h < 256" "h mod 16 = s" "h div 16 = unat z" using z s by (simp_all add: h_def)
  have a32: "unat (ucast (abs_u16 c) :: u32) = A" using unat_lt2p [of "abs_u16 c"] a by (simp add: unat_ucast)
  have sw: "32 - of_nat (leading_zeros (ucast (abs_u16 c) :: u32)) = (of_nat s :: u32)"
    using s by (simp add: leading_zeros_def a32 s_def of_nat_diff)
  have us: "unat (of_nat s :: u32) = s" using s by (simp add: unat_of_nat)
  have "unat (push_bit 4 z) = unat z * 2 ^ 4" using z by (intro unat_push_bit_small) simp
  then have hc: "unat (push_bit 4 z OR of_nat s) = h"
    using unat_or_disjoint [of "push_bit 4 z" "unat z" 4 "of_nat s"] us s by (simp add: h_def)
  define neg where "neg = (sint c < 0)"
  have hn: "unat ((push_bit 4 z OR of_nat s) OR push_bit 8 (of_bool neg)) = h + 256 * of_bool neg"
  proof -
    have "unat (push_bit 8 (of_bool neg) :: u32) = of_bool neg * 2 ^ 8" by (cases neg) (simp_all add: unat_push_bit)
    from unat_or_disjoint [OF this, of "push_bit 4 z OR of_nat s"] hc h(1) show ?thesis
      by (simp add: or.commute)
  qed
  obtain hc0 where hc0: "codes_fit hc0" "tbl = post_initialize hc0" using tbl by (auto simp: codes_ok_def)
  note T = tables_post_initialize [OF hc0(1) h(1), folded hc0(2), unfolded h(2)]
  define v where "v = (c_val_shift_s tbl ! (h + 256 * of_bool neg)) XOR ucast (abs_u16 c)"
  have lit: "literal s (sint c) = (if neg then 2 ^ s - 1 - A else A)"
  proof (cases neg)
    case True
    then have "int A = - sint c" by (simp add: A_def neg_def)
    moreover have "int (2 ^ s - 1 - A) = 2 ^ s - 1 - int A" using A by (simp add: of_nat_diff)
    ultimately have "sint c + 2 ^ s - 1 = int (2 ^ s - 1 - A)" by simp
    then show ?thesis using True by (simp add: literal_def neg_def)
  qed (simp add: literal_def neg_def A_def)
  have v: "unat v = unat (c_val tbl ! h) * 2 ^ s + literal s (sint c)"
    unfolding v_def unsigned_xor_eq a32 lit using nat_xor_disjoint [OF A, of "unat (c_val tbl ! h)"] T(3,4) by (cases neg) simp_all
  define n where "n = (ucast (c_len_plus_s tbl ! h) :: u32)"
  have fit: "unat (c_len tbl ! h) \<le> 16" "unat (c_val tbl ! h) < 2 ^ unat (c_len tbl ! h)"
    using codes_ok_fit [OF tbl] h(1) by (simp_all add: codes_fit_def)
  have n: "unat n = unat (c_len tbl ! h) + s" unfolding n_def using T(1) fit(1) s by (simp add: unat_ucast)
  have mag: "magnitude (sint c) = s" by (simp add: magnitude_def s_def A_def)
  have ll: "literal s (sint c) < 2 ^ s" by (rule literal_less [OF mag])
  have "unat v < 2 ^ unat n"
  proof -
    have "unat v < (unat (c_val tbl ! h) + 1) * 2 ^ s" using v ll by simp
    also have "\<dots> \<le> 2 ^ unat (c_len tbl ! h) * 2 ^ s" using fit(2) by (intro mult_le_mono1) simp
    finally show ?thesis by (simp add: n power_add)
  qed
  moreover have "unat n \<le> 31" using n fit(1) s by simp
  ultimately have "wrote (write_bits v n w) pre (bs @ bits_of (unat n) (unat v))" by (rule write_wrote [OF w])
  moreover have "bits_of (unat n) (unat v) = coef_bits tbl (unat z) (sint c)"
    unfolding n v coef_bits_def mag using bits_of_join [OF ll] by (simp add: code_bits_def h_def)
  moreover have "write_coef_huff neg (abs_u16 c) z tbl w = Ok (write_bits v n w)"
    unfolding write_coef_huff_def sw Let_def using T(2,5) h(1) by (simp add: idx_def hc hn v_def n_def)
  ultimately show ?thesis by (simp add: neg_def)
qed

section \<open>Writing a block\<close>

lemma ac_bits_16: "\<exists>c \<in> set cs. c \<noteq> 0 \<Longrightarrow> ac_bits tbl (z + 16) cs = code_bits tbl 0xF0 @ ac_bits tbl z cs"
proof (induction cs arbitrary: z)
  case (Cons c cs)
  show ?case
  proof (cases "c = 0")
    case True
    then show ?thesis using Cons.IH [of "Suc z"] Cons.prems by simp
  next
    case False
    have "(z + 16) div 16 = Suc (z div 16)" "(z + 16) mod 16 = z mod 16" by simp_all
    with False show ?thesis by simp
  qed
qed simp

lemma tz_bits: "0 < n \<Longrightarrow> bit n (tz n) \<and> (\<forall>i < tz n. \<not> bit (n :: nat) i)"
proof (induction n rule: tz.induct)
  case (1 n)
  show ?case
  proof (cases "odd n")
    case True
    then show ?thesis by (subst (1 2) tz.simps) (simp add: bit_0)
  next
    case False
    then have "0 < n div 2" "tz n = Suc (tz (n div 2))" using 1(2) by (auto simp: tz.simps [of n] elim: evenE)
    moreover from this 1 False have "bit (n div 2) (tz (n div 2)) \<and> (\<forall>i < tz (n div 2). \<not> bit (n div 2) i)" by simp
    ultimately show ?thesis using False by (auto simp: bit_0 bit_Suc less_Suc_eq_0_disj)
  qed
qed

lemma trailing_zeros_bits:
  fixes w :: "'a::len word"
  assumes "w \<noteq> 0"
  shows "bit w (trailing_zeros w)" "i < trailing_zeros w \<Longrightarrow> \<not> bit w i"
proof -
  have b: "bit (unat w) i = bit w i" for i by (simp add: bit_unsigned_iff)
  have "0 < unat w" using assms by (simp add: unat_gt_0)
  from tz_bits [OF this] assms show "bit w (trailing_zeros w)" "i < trailing_zeros w \<Longrightarrow> \<not> bit w i"
    by (auto simp: b trailing_zeros_def)
qed

text \<open>The mask of the nonzero coefficients from \<open>bpos\<close> on.\<close>

definition mask_from :: "u64 \<Rightarrow> usize \<Rightarrow> i16 list \<Rightarrow> bool" where
  "mask_from msk bpos block \<longleftrightarrow> (\<forall>i. bit msk i \<longleftrightarrow> bpos + i < 64 \<and> block ! (bpos + i) \<noteq> 0)"

lemma mask_from_step: "mask_from msk bpos block \<Longrightarrow> mask_from (drop_bit k msk) (bpos + k) block"
  by (simp add: mask_from_def bit_drop_bit_eq add.assoc)

lemma int_div_neg1:
  fixes a d :: int
  assumes "- d \<le> a" "a < 0"
  shows "a div d = - 1"
proof -
  have "0 < d" using assms by simp
  have "(a + d) div d = 0" using assms by (intro div_pos_pos_trivial) simp_all
  then show ?thesis using div_add_self2 [of d a] \<open>0 < d\<close> by simp
qed

lemma sshr_sign: "sshr (c :: i16) 15 AND 256 \<noteq> 0 \<longleftrightarrow> sint c < 0"
proof -
  have "- (2 ^ 15) \<le> sint c" "sint c < 2 ^ 15" using sint_greater_eq [of c] sint_less [of c] by simp_all
  then have "sint c div 2 ^ 15 = (if sint c < 0 then - 1 else 0)" by (simp add: div_pos_pos_trivial int_div_neg1)
  then show ?thesis by (simp add: sshr_def)
qed

lemma ac_write_loop_wrote:
  assumes tbl: "codes_ok actbl" and len: "length block = 64"
    and neg: "length is_neg = 64" "\<forall>i < 64. (is_neg ! i AND 256 \<noteq> 0) = (sint (block ! i) < 0)"
    and av: "length abs_value = 64" "\<forall>i < 64. abs_value ! i = abs_u16 (block ! i)"
    and small: "\<forall>i < 64. sint (block ! i) \<noteq> - (2 ^ 15)"
    and msk: "mask_from msk bpos block" and bpos: "bpos < 64" and w: "wrote w pre bs"
  shows "\<exists>w'. ac_write_loop msk bpos is_neg abs_value actbl w = Ok w'
    \<and> wrote w' pre (bs @ ac_bits actbl 0 (map sint (drop bpos block)))"
  using msk bpos w
proof (induction "unat msk" arbitrary: msk bpos w bs rule: less_induct)
  case less
  show ?case
  proof (cases "msk = 0")
    case True
    have "map sint (drop bpos block) = replicate (64 - bpos) 0"
    proof (rule nth_equalityI)
      fix i
      assume "i < length (map sint (drop bpos block))"
      then have i: "bpos + i < 64" using len by simp
      then have "block ! (bpos + i) = 0" using less(2) True unfolding mask_from_def by (metis bit_0_eq bot_apply bot_bool_def)
      then show "map sint (drop bpos block) ! i = replicate (64 - bpos) 0 ! i" using i len by simp
    qed (simp add: len)
    then have bits: "ac_bits actbl 0 (map sint (drop bpos block)) = code_bits actbl 0"
      using ac_bits_zeros [of actbl 0 "64 - bpos" "[]"] less(3) by simp
    have fit: "length (c_len actbl) = 256" "length (c_val actbl) = 256" "unat (c_len actbl ! 0) \<le> 16"
      "unat (c_val actbl ! 0) < 2 ^ unat (c_len actbl ! 0)"
      using codes_ok_fit [OF tbl] by (simp_all add: codes_fit_def)
    have u: "unat (ucast x :: u32) = unat x" for x :: u16 using unat_lt2p [of x] by (simp add: unat_ucast)
    have "wrote (write_bits (ucast (c_val actbl ! 0)) (ucast (c_len actbl ! 0)) w) pre (bs @ code_bits actbl 0)"
      using write_wrote [OF less(4), of "ucast (c_val actbl ! 0)" "ucast (c_len actbl ! 0)"] fit by (simp add: u code_bits_def)
    then show ?thesis using True fit bits by (subst ac_write_loop.simps) (simp add: idx_in_range)
  next
    case False
    define zeros where "zeros = (if 15 < trailing_zeros msk then 15 else trailing_zeros msk)"
    define q where "q = bpos + zeros"
    have z15: "zeros \<le> 15" by (simp add: zeros_def)
    note tz = trailing_zeros_bits [OF False]
    have tzb: "bpos + trailing_zeros msk < 64" using tz(1) less(2) by (auto simp: mask_from_def)
    have "zeros \<le> trailing_zeros msk" by (simp add: zeros_def)
    then have q: "q < 64" using tzb by (simp add: q_def)
    have zero: "block ! (bpos + i) = 0" if "i < trailing_zeros msk" for i
      using tz(2) [OF that] less(2) tzb that by (auto simp: mask_from_def)
    have split: "map sint (drop bpos block) = replicate zeros 0 @ sint (block ! q) # map sint (drop (Suc q) block)"
    proof -
      have "drop bpos block = take zeros (drop bpos block) @ block ! q # drop (Suc q) block"
        using q len by (simp add: Cons_nth_drop_Suc q_def add.commute flip: drop_drop) (metis append_take_drop_id drop_drop add.commute)
      moreover have "map sint (take zeros (drop bpos block)) = replicate zeros (0 :: int)"
      proof (rule nth_equalityI)
        fix i
        assume "i < length (map sint (take zeros (drop bpos block)))"
        then have "i < zeros" "i < 64 - bpos" using len by simp_all
        then have i: "i < zeros" "bpos + i < 64" by linarith+
        then show "map sint (take zeros (drop bpos block)) ! i = replicate zeros (0 :: int) ! i"
          using zero [of i] \<open>zeros \<le> trailing_zeros msk\<close> len by simp
      qed (use q len in \<open>simp add: q_def\<close>)
      ultimately show ?thesis by (metis map_append list.simps(9))
    qed
    have zw: "unat (of_nat zeros :: u32) = zeros" using z15 by (simp add: unat_of_nat)
    from write_coef_huff_wrote [OF tbl _ _ less(4), of "of_nat zeros" "block ! q"] small q z15 obtain w1 where
      w1: "write_coef_huff (sint (block ! q) < 0) (abs_u16 (block ! q)) (of_nat zeros) actbl w = Ok w1"
      "wrote w1 pre (bs @ coef_bits actbl zeros (sint (block ! q)))" by (auto simp: zw)
    have step: "ac_write_loop msk bpos is_neg abs_value actbl w
      = (if 64 \<le> Suc q then Ok w1 else ac_write_loop (drop_bit (Suc zeros) msk) (Suc q) is_neg abs_value actbl w1)"
      using False neg av q w1(1)
      by (subst ac_write_loop.simps) (simp add: Let_def idx_in_range q_def flip: zeros_def)
    have bits: "ac_bits actbl 0 (map sint (drop bpos block))
      = coef_bits actbl zeros (sint (block ! q)) @ ac_bits actbl 0 (map sint (drop (Suc q) block))"
    proof (cases "sint (block ! q) = 0")
      case False
      then show ?thesis using z15 by (simp add: split ac_bits_zeros)
    next
      case True
      have "15 < trailing_zeros msk"
      proof (rule ccontr)
        assume "\<not> 15 < trailing_zeros msk"
        then have "q = bpos + trailing_zeros msk" by (simp add: q_def zeros_def)
        then have "block ! q \<noteq> 0" using tz(1) less(2) by (simp add: mask_from_def)
        then show False using True by (simp add: signed_eq_0_iff)
      qed
      then have z: "zeros = 15" by (simp add: zeros_def)
      let ?t = "bpos + trailing_zeros msk"
      have "block ! ?t \<noteq> 0" "Suc q \<le> ?t" using tz(1) less(2) \<open>15 < trailing_zeros msk\<close> by (simp_all add: mask_from_def q_def z)
      then have "Suc q + (?t - Suc q) = ?t" "?t - Suc q < length (drop (Suc q) block)"
        using tzb len by simp_all
      then have "drop (Suc q) block ! (?t - Suc q) = block ! ?t" "?t - Suc q < length (drop (Suc q) block)"
        using tzb len by (simp_all del: add_Suc)
      then have "block ! ?t \<in> set (drop (Suc q) block)" by (metis nth_mem)
      then have "sint (block ! ?t) \<in> set (map sint (drop (Suc q) block))" "sint (block ! ?t) \<noteq> 0"
        using \<open>block ! ?t \<noteq> 0\<close> by (auto simp: signed_eq_0_iff)
      then have "ac_bits actbl (0 + 16) (map sint (drop (Suc q) block)) = code_bits actbl 0xF0 @ ac_bits actbl 0 (map sint (drop (Suc q) block))"
        by (intro ac_bits_16) blast
      then show ?thesis using True by (simp add: split ac_bits_zeros z coef_bits_zrl)
    qed
    show ?thesis
    proof (cases "64 \<le> Suc q")
      case True
      then show ?thesis using step bits w1(2) len by simp
    next
      case not_end: False
      have "unat (drop_bit (Suc zeros) msk) < unat msk" by (rule drop_bit_less [OF False])
      moreover have "mask_from (drop_bit (Suc zeros) msk) (Suc q) block"
        using mask_from_step [OF less(2), of "Suc zeros"] by (simp add: q_def)
      ultimately show ?thesis using less(1) [OF _ _ _ w1(2), of "drop_bit (Suc zeros) msk" "Suc q"] not_end step bits by simp
    qed
  qed
qed

text \<open>The four vectors of a block, and the mask of its zeros.\<close>

lemma concat_row16:
  assumes "length xs = 64"
  shows "concat (map (\<lambda>i. map f (row16 xs i)) [0..<4]) = map f xs"
proof -
  have "take 16 (drop n xs) @ drop (16 + n) xs = drop n xs" for n
    using append_take_drop_id [of 16 "drop n xs"] by (simp add: add.commute)
  from this [of 0] this [of 16] this [of 32] this [of 48]
  have "take 16 xs @ take 16 (drop 16 xs) @ take 16 (drop 32 xs) @ take 16 (drop 48 xs) = xs"
    using assms by simp
  then have "map f (take 16 xs) @ map f (take 16 (drop 16 xs)) @ map f (take 16 (drop 32 xs)) @ map f (take 16 (drop 48 xs)) = map f xs"
    by (metis map_append)
  moreover have "[0..<4] = [0, 1, 2, 3 :: nat]" by (simp add: upt_conv_Cons)
  ultimately show ?thesis by (simp add: row16_def)
qed

context simd16_laws
begin

lemma bit_zero_mask:
  assumes "length block = 64" "i < 4"
  shows "bit (ucast (to_bitmask_i16x16 V (simd_eq_i16x16 V (row16 block i) (replicate 16 0))) :: u64) j
    \<longleftrightarrow> j < 16 \<and> block ! (16 * i + j) = 0"
proof -
  have len: "length (row16 block i) = 16" using assms by (simp add: row16_def)
  have sg: "sint (if P then - 1 else 0 :: i16) < 0 \<longleftrightarrow> P" for P by simp
  show ?thesis using assms
    by (auto simp: sg simd_eq_i16x16 to_bitmask_i16x16 len bit_unsigned_iff bit_horner_sum_bit_word_iff row16_def)
qed

end

text \<open>\<open>encode_block_seq\<close> writes the bits of the block.\<close>

lemma mask_from_first:
  assumes "\<And>i j. i < 4 \<Longrightarrow> bit (z i :: u64) j \<longleftrightarrow> j < 16 \<and> block ! (16 * i + j) = 0"
  shows "mask_from (drop_bit 1 (NOT (z 0 OR push_bit 16 (z 1) OR push_bit 32 (z 2) OR push_bit 48 (z 3)))) 1 block"
  unfolding mask_from_def
proof
  fix i
  define k where "k = Suc i"
  have z: "bit (z 0) j \<longleftrightarrow> j < 16 \<and> block ! j = 0" "bit (z 1) j \<longleftrightarrow> j < 16 \<and> block ! (16 + j) = 0"
    "bit (z 2) j \<longleftrightarrow> j < 16 \<and> block ! (32 + j) = 0" "bit (z 3) j \<longleftrightarrow> j < 16 \<and> block ! (48 + j) = 0" for j
    using assms [of 0 j] assms [of 1 j] assms [of 2 j] assms [of 3 j] by simp_all
  consider "k < 16" | "16 \<le> k" "k < 32" | "32 \<le> k" "k < 48" | "48 \<le> k" "k < 64" | "64 \<le> k" by linarith
  then have "bit (NOT (z 0 OR push_bit 16 (z 1) OR push_bit 32 (z 2) OR push_bit 48 (z 3))) k \<longleftrightarrow> k < 64 \<and> block ! k \<noteq> 0"
    by cases (auto simp: bit_simps z simp flip: One_nat_def)
  then show "bit (drop_bit 1 (NOT (z 0 OR push_bit 16 (z 1) OR push_bit 32 (z 2) OR push_bit 48 (z 3)))) i
    \<longleftrightarrow> 1 + i < 64 \<and> block ! (1 + i) \<noteq> 0"
    unfolding bit_drop_bit_eq comp_def k_def by simp
qed

context simd16_laws
begin

lemma encode_block_seq_wrote:
  assumes tbl: "codes_ok dctbl" "codes_ok actbl" and block: "block_ok b"
    and small: "\<forall>c \<in> set (get_block b). sint c \<noteq> - (2 ^ 15)" and w: "wrote w pre bs"
  shows "\<exists>w'. encode_block_seq V dctbl actbl b w = Ok w' \<and> wrote w' pre (bs @ block_bits dctbl actbl (get_block b))"
proof -
  let ?b = "get_block b"
  have len: "length ?b = 64" using block by (simp add: block_ok_def get_block_def)
  have row: "length (row16 ?b i) = 16" if "i < 4" for i using len that by (simp add: row16_def)
  have av: "concat (map (\<lambda>i. abs_i16x16 V (row16 ?b i)) [0..<4]) = map abs_u16 ?b"
    unfolding concat_row16 [OF len, symmetric] by (intro arg_cong [of _ _ concat] map_cong refl) (simp add: abs_i16x16 row)
  have neg: "concat (map (\<lambda>i. shr_i16x16 V (row16 ?b i) 15) [0..<4]) = map (\<lambda>a. sshr a 15) ?b"
    unfolding concat_row16 [OF len, symmetric] by (intro arg_cong [of _ _ concat] map_cong refl) (simp add: shr_i16x16 row)
  have s: "sint (?b ! i) \<noteq> - (2 ^ 15)" if "i < 64" for i using small len that by simp
  from write_coef_huff_wrote [OF tbl(1) _ s [of 0] w, of 0] obtain w1 where
    w1: "write_coef_huff (sint (?b ! 0) < 0) (abs_u16 (?b ! 0)) 0 dctbl w = Ok w1"
    "wrote w1 pre (bs @ coef_bits dctbl 0 (sint (?b ! 0)))" by auto
  define z where "z = (\<lambda>i. ucast (to_bitmask_i16x16 V (simd_eq_i16x16 V (row16 ?b i) (replicate 16 0))) :: u64)"
  define msk where "msk = drop_bit 1 (NOT (z 0 OR push_bit 16 (z 1) OR push_bit 32 (z 2) OR push_bit 48 (z 3)))"
  have "mask_from msk 1 ?b" unfolding msk_def by (rule mask_from_first) (simp add: z_def bit_zero_mask [OF len])
  from ac_write_loop_wrote [OF tbl(2) len _ _ _ _ _ this _ w1(2), of "map (\<lambda>a. sshr a 15) ?b" "map abs_u16 ?b"] s len obtain w2 where
    w2: "ac_write_loop msk 1 (map (\<lambda>a. sshr a 15) ?b) (map abs_u16 ?b) actbl w1 = Ok w2"
    "wrote w2 pre (bs @ block_bits dctbl actbl ?b)" by (auto simp: sshr_sign drop_Suc block_bits_def)
  have "encode_block_seq V dctbl actbl b w = ac_write_loop msk 1 (map (\<lambda>a. sshr a 15) ?b) (map abs_u16 ?b) actbl w1"
    unfolding encode_block_seq_def Let_def av neg msk_def z_def using len w1(1)
    by (simp add: idx_in_range sshr_sign del: bit.conj_disj_distribs bit.de_Morgan_disj)
  with w2 show ?thesis by simp
qed

end

end
