(* ===== verification/Block_Decode.thy ===== *)
theory Block_Decode
  imports Scan_Block
begin

text \<open>
  \<open>decode_block_seq\<close> reads exactly the blocks \<open>encode_block_seq\<close> writes: every bit string it accepts is
  that of the block it returns (\<open>decode_block_sound\<close>), and it returns a block from its bits
  (\<open>decode_block_complete\<close>).
\<close>

section \<open>Paths of the tree\<close>

lemma tree_child_nonzero:
  assumes "tree_inv 0xFFFF hc ns nf p" "v < 256"
  shows "child ns v b \<noteq> 0"
proof (cases "v < nf")
  case True
  from tree_invD [OF assms(1) this, of b] show ?thesis by auto
next
  case False
  then have "ns ! v = (0xFFFF, 0xFFFF)" using assms by (simp add: tree_inv_def)
  then show ?thesis by (simp add: child_def)
qed

text \<open>A path ends at a free link, at a node or at the symbol whose code it is.\<close>

lemma leads_path:
  assumes "tree_inv 0xFFFF hc ns nf p"
  shows "v < nf \<Longrightarrow> leads ns v bs x \<Longrightarrow> x = 0xFFFF \<or> (x < nf \<and> p x = p v @ bs)
    \<or> (\<exists>i. has_code hc i \<and> x = 256 + i \<and> code_bits hc i = p v @ bs)"
proof (induction bs arbitrary: v)
  case (Cons b bs)
  have l: "leads ns (unat (child ns v b)) bs x" using Cons.prems(2) by simp
  have leaf: "bs = [] \<and> x = unat (child ns v b)" if "256 \<le> unat (child ns v b)"
    using l that by (cases bs) auto
  from tree_invD [OF assms Cons.prems(1), of b] show ?case
  proof (elim disjE exE conjE)
    assume "child ns v b = 0xFFFF"
    then show ?thesis using leaf by simp
  next
    assume "unat (child ns v b) < nf" "p (unat (child ns v b)) = p v @ [b]"
    then show ?thesis using Cons.IH [OF _ l] by simp
  next
    fix i
    assume "has_code hc i" "unat (child ns v b) = 256 + i" "code_bits hc i = p v @ [b]"
    then show ?thesis using leaf by auto
  qed
qed simp

lemma leads_code:
  assumes "tree_inv 0xFFFF hc ns nf p" "leads ns 0 bs x" "256 \<le> x" "x \<noteq> 0xFFFF"
  shows "\<exists>i. has_code hc i \<and> x = 256 + i \<and> code_bits hc i = bs"
proof -
  have "0 < nf" "nf \<le> 256" "p 0 = []" using assms(1) by (simp_all add: tree_inv_def)
  then show ?thesis using leads_path [OF assms(1) _ assms(2)] assms(3,4) by auto
qed

lemma leads_unique:
  "leads ns v (bs @ cs) x \<Longrightarrow> leads ns v bs y \<Longrightarrow> 256 \<le> y \<Longrightarrow> cs = [] \<and> x = y"
proof (induction bs arbitrary: v)
  case Nil
  then show ?case by (cases cs) simp_all
next
  case (Cons b bs)
  then show ?case by (simp only: leads.simps append_Cons) blast
qed

text \<open>The table of the first bytes.\<close>

lemma nth_byte_bits: "i < 8 \<Longrightarrow> byte_bits b ! i = (drop_bit (7 - i) (unat b) AND 1 = 1)"
  by (simp add: byte_bits_def nth_bits_of and_one_eq odd_iff_mod_2_eq_one drop_bit_eq_div)

lemma peek_walk_leads:
  assumes "tree_inv 0xFFFF hc ns nf p"
  shows "unat len + n = 8 \<Longrightarrow> peek_walk ns (unat b) n v len = (v', len') \<Longrightarrow>
    unat len \<le> unat len' \<and> unat len' \<le> 8 \<and> leads ns (unat v) (drop (unat len) (take (unat len') (byte_bits b))) (unat v')
    \<and> (256 \<le> v' \<or> unat len' = 8)"
proof (induction n arbitrary: v len)
  case (Suc n)
  show ?case
  proof (cases "v < 256")
    case False
    then have "peek_walk ns (unat b) (Suc n) v len = (v, len)" "256 \<le> v" by simp_all
    then show ?thesis using Suc.prems by simp
  next
    case True
    have l: "unat len < 8" using Suc.prems(1) by simp
    have l1: "unat (len + 1) = Suc (unat len)" using l by (simp add: unat_word_ariths)
    have "unat (7 - len) = 7 - unat len" using l by (simp add: unat_sub word_le_nat_alt)
    then have c: "drop_bit (unat (7 - len)) (unat b) AND 1 = 1 \<longleftrightarrow> byte_bits b ! unat len" using l by (simp add: nth_byte_bits)
    have "peek_walk ns (unat b) n (child ns (unat v) (byte_bits b ! unat len)) (len + 1) = (v', len')"
      using Suc.prems(2) True unfolding peek_walk.simps c by simp
    from Suc.IH [OF _ this] Suc.prems(1) have IH: "Suc (unat len) \<le> unat len'" "unat len' \<le> 8"
      "leads ns (unat (child ns (unat v) (byte_bits b ! unat len))) (drop (Suc (unat len)) (take (unat len') (byte_bits b))) (unat v')"
      "256 \<le> v' \<or> unat len' = 8" by (simp_all add: l1)
    have "drop (unat len) (take (unat len') (byte_bits b)) = byte_bits b ! unat len # drop (Suc (unat len)) (take (unat len') (byte_bits b))"
      using IH(1,2) by (subst Cons_nth_drop_Suc [symmetric]) simp_all
    moreover have "unat v < 256" using True by (simp add: word_less_nat_alt)
    ultimately show ?thesis using IH tree_child_nonzero [OF assms] by simp
  qed
qed simp

lemma peek_entry_leads:
  assumes "tree_inv 0xFFFF hc ns nf p" "peek_entry ns (unat b) = (c, len)" "len \<noteq> 0xFF"
  shows "leads ns 0 (take (unat len) (byte_bits b)) (256 + unat c)" "unat len \<le> 8"
proof -
  obtain v l where w: "peek_walk ns (unat b) 8 0 0 = (v, l)" by force
  from peek_walk_leads [OF assms(1) _ w] have W: "unat l \<le> 8" "leads ns 0 (take (unat l) (byte_bits b)) (unat v)" by simp_all
  from assms(2,3) w have v: "v \<noteq> 0xFFFF" "256 \<le> v" "c = ucast (v - 256)" "len = l"
    by (auto simp: peek_entry_def split: if_splits)
  from v(2) have v256: "256 \<le> unat v" by (simp add: word_le_nat_alt)
  have "unat v \<noteq> 0xFFFF" using v(1) by (simp add: word_unat_eq_iff)
  from leads_code [OF assms(1) W(2) v256 this] obtain i where i: "has_code hc i" "unat v = 256 + i" by auto
  have "unat (v - 256) = unat v - 256" using v(2) by (simp add: unat_sub)
  then have "unat c = i" using i v(3) by (simp add: unat_ucast has_code_def)
  then show "leads ns 0 (take (unat len) (byte_bits b)) (256 + unat c)" "unat len \<le> 8" using W i v(4) by simp_all
qed

lemma peek_entry_code:
  assumes tree: "tree_inv 0xFFFF hc ns nf p" and l: "leads ns 0 cs (256 + unat c)" and b: "length cs \<le> 8" "take (length cs) (byte_bits b) = cs"
  shows "peek_entry ns (unat b) = (c, of_nat (length cs))"
proof -
  obtain v k where w: "peek_walk ns (unat b) 8 0 0 = (v, k)" by force
  from peek_walk_leads [OF tree _ w] have W: "unat k \<le> 8" "leads ns 0 (take (unat k) (byte_bits b)) (unat v)" "256 \<le> v \<or> unat k = 8"
    by simp_all
  let ?t = "take (unat k) (byte_bits b)"
  consider ds where "cs = ?t @ ds" "256 \<le> unat v \<or> ds = []" | ds where "?t = cs @ ds"
  proof (cases "unat k \<le> length cs")
    case True
    then have "cs = ?t @ drop (unat k) cs" by (subst (2) b(2) [symmetric]) (metis append_take_drop_id b(2) min.absorb1 take_take)
    moreover have "256 \<le> unat v \<or> drop (unat k) cs = []" using W(3) True b(1) by (auto simp: word_le_nat_alt)
    ultimately show thesis by (rule that(1))
  next
    case False
    then have "take (length cs) ?t = cs" using b(2) by (simp add: min_def)
    then have "?t = cs @ drop (length cs) ?t" by (metis append_take_drop_id)
    then show thesis by (rule that(2))
  qed
  then have "?t = cs \<and> unat v = 256 + unat c"
  proof cases
    case 1
    have "leads ns 0 (?t @ ds) (256 + unat c)" using l 1(1) by simp
    then show ?thesis
    proof (cases "ds = []")
      case True
      then show ?thesis using leads_unique [of ns 0 cs "[]" "unat v" "256 + unat c"] l W(2) 1(1) by simp
    next
      case False
      then show ?thesis using leads_unique [OF \<open>leads ns 0 (?t @ ds) (256 + unat c)\<close> W(2)] 1(2) by simp
    qed
  next
    case 2
    then show ?thesis using leads_unique [of ns 0 cs ds "unat v"] W(2) l by simp
  qed
  then have v: "unat v = 256 + unat c" "take (unat k) (byte_bits b) = cs" by simp_all
  have "unat k = length cs" using v(2) W(1) by auto
  then have "of_nat (unat k) = (of_nat (length cs) :: u8)" by simp
  then have k: "k = of_nat (length cs)" by simp
  have "256 \<le> v" "v \<noteq> 0xFFFF" using v(1) unat_lt2p [of c] by (auto simp: word_le_nat_alt)
  moreover from this have "ucast (v - 256) = c"
    using v(1) unat_lt2p [of c] by (intro word_unat_eq_iff [THEN iffD2]) (simp add: unat_ucast unat_sub)
  moreover have "\<not> v < 256" using v(1) by (simp add: word_less_nat_alt)
  ultimately show ?thesis using k by (simp add: peek_entry_def w)
qed

section \<open>Reading a code\<close>

lemma of_bits_single: "of_bits [b] = of_bool b"
  by (simp add: of_bits_def)

lemma bits_of_single: "bits_of (Suc 0) v = [odd v]"
  by (simp add: bits_of_Suc)

lemma huff_walk_complete:
  assumes "leads (node tree) (unat v) cs (unat x)" "256 \<le> unat x" "rd p xs tail k e r (cs @ rest)" "length cs < n"
  shows "\<exists>r'. huff_walk n tree v r = Some (Ok (x, r')) \<and> rd p xs tail k (e - length cs) r' rest"
  using assms
proof (induction cs arbitrary: v e r n)
  case Nil
  then obtain m where n: "n = Suc m" by (cases n) auto
  have "v = x" using Nil(1) by (simp add: word_unat_eq_iff)
  then show ?case using Nil by (auto simp: n word_less_nat_alt)
next
  case (Cons c cs)
  from Cons.prems(4) obtain m where n: "n = Suc m" by (cases n) auto
  have v: "v < 256" using Cons.prems(1) by (simp add: word_less_nat_alt)
  from read_rd [OF Cons.prems(3), of 1] obtain w r1 where
    r1: "read 1 r = Ok (w, r1)" "unat w = of_bool c" "rd p xs tail k (e - 1) r1 (cs @ rest)" by (auto simp: of_bits_single)
  have "(w = 1) = c" using r1(2) by (cases c) (simp_all add: word_unat_eq_iff)
  moreover have "leads (node tree) (unat (child (node tree) (unat v) c)) cs (unat x)" using Cons.prems(1) by simp
  ultimately show ?case using Cons.IH [OF _ Cons.prems(2) r1(3), of "child (node tree) (unat v) c" m] Cons.prems(4) v
    by (simp add: n r1(1))
qed

lemma huff_walk_sound:
  assumes tree: "tree_inv 0xFFFF hc (node tree) nf pth" and m: "marker tail"
  shows "rd p xs tail k e r bs \<Longrightarrow> huff_walk n tree v r = Some (Ok (x, r')) \<Longrightarrow>
    \<exists>cs rest. bs = cs @ rest \<and> leads (node tree) (unat v) cs (unat x) \<and> 256 \<le> unat x"
proof (induction n arbitrary: v r bs e)
  case (Suc n)
  show ?case
  proof (cases "v < 256")
    case False
    then show ?thesis using Suc.prems by (intro exI [of _ "[]"] exI [of _ bs]) (simp add: word_less_nat_alt)
  next
    case True
    from Suc.prems(2) True obtain w r1 where r1: "read 1 r = Ok (w, r1)"
      "huff_walk n tree (child (node tree) (unat v) (w = 1)) r1 = Some (Ok (x, r'))" by (auto simp: bindF_eq_Inr)
    from read_rd_sound [OF Suc.prems(1) _ r1(1) m] obtain bs1 where
      bs1: "bs = odd (unat w) # bs1" "rd p xs tail k (e - 1) r1 bs1" "unat w < 2" by (auto simp: bits_of_single)
    then have "unat w = 0 \<or> unat w = 1" by auto
    then have w: "odd (unat w) = (w = 1)" by (auto simp: word_unat_eq_iff)
    from Suc.IH [OF bs1(2) r1(2)] obtain cs rest where
      "bs1 = cs @ rest" "leads (node tree) (unat (child (node tree) (unat v) (w = 1))) cs (unat x)" "256 \<le> unat x" by auto
    then show ?thesis using bs1(1) w tree_child_nonzero [OF tree] True
      by (intro exI [of _ "odd (unat w) # cs"] exI [of _ rest]) (simp add: word_less_nat_alt)
  qed
qed simp

lemma next_huff_code_complete:
  assumes "leads (node tree) 0 cs (256 + unat c)" "rd p xs tail k e r (cs @ rest)" "length cs < n"
  shows "\<exists>r'. next_huff_code n tree r = Some (Ok (c, r')) \<and> rd p xs tail k (e - length cs) r' rest"
proof -
  define x :: u16 where "x = 256 + ucast c"
  have x: "unat x = 256 + unat c" using unat_lt2p [of c] by (simp add: x_def unat_word_ariths unat_ucast)
  from huff_walk_complete [of tree 0 cs x, OF _ _ assms(2,3)] assms(1) obtain r' where
    "huff_walk n tree 0 r = Some (Ok (x, r'))" "rd p xs tail k (e - length cs) r' rest" by (auto simp: x)
  moreover have "x \<noteq> 0xFFFF" using x unat_lt2p [of c] by auto
  moreover have "ucast (x - 256) = c" using unat_lt2p [of c] by (simp add: x_def word_unat_eq_iff unat_ucast)
  ultimately show ?thesis by (simp add: next_huff_code_def)
qed

lemma next_huff_code_sound:
  assumes tree: "tree_inv 0xFFFF hc (node tree) nf pth" and m: "marker tail"
    and rd: "rd p xs tail k e r bs" and ok: "next_huff_code n tree r = Some (Ok (c, r'))"
  shows "\<exists>cs rest. bs = cs @ rest \<and> leads (node tree) 0 cs (256 + unat c)"
proof -
  from ok obtain x r1 where x: "huff_walk n tree 0 r = Some (Ok (x, r1))" "x \<noteq> 0xFFFF" "c = ucast (x - 256)"
    by (auto simp: next_huff_code_def bindF_eq_Inr split: if_splits)
  from huff_walk_sound [OF tree m rd x(1)] obtain cs rest where
    cs: "bs = cs @ rest" "leads (node tree) 0 cs (unat x)" "256 \<le> unat x" by auto
  have "unat x \<noteq> 0xFFFF" using x(2) by (simp add: word_unat_eq_iff)
  from leads_code [OF tree cs(2,3) this] obtain i where i: "has_code hc i" "unat x = 256 + i" by auto
  have "unat (x - 256) = unat x - 256" using cs(3) by (simp add: unat_sub word_le_nat_alt)
  then have "unat c = i" using i x(3) by (simp add: unat_ucast has_code_def)
  then show ?thesis using cs i by auto
qed

text \<open>The whole of \<open>coef_code\<close>: by the table when the code is short and in the register, after a
  refill, or bit by bit.\<close>

lemma nth_peek_code: "tree_ok hc tree nf pth \<Longrightarrow> peek_code tree ! unat (b :: u8) = peek_entry (node tree) (unat b)"
  using unat_lt2p [of b] by (simp add: tree_ok_def)

lemma coef_code_step:
  assumes tree: "tree_ok hc tree nf pth" and cs: "leads (node tree) 0 cs (256 + unat c)" and rd: "rd p xs tail k e r (cs @ rest)"
  shows "if length cs \<le> 8 \<and> length cs \<le> unat (bits_left r)
    then \<exists>r'. coef_code (Suc n) tree r = Some (Ok (c, r')) \<and> rd p xs tail k (e - length cs) r' rest
    else coef_code (Suc n) tree r = (if unat (bits_left r) < 8 then bindF (Some (reader_fill_register 8 r)) (coef_code n tree)
           else next_huff_code n tree r)"
proof -
  have inv: "tree_inv 0xFFFF hc (node tree) nf pth" using tree by (simp add: tree_ok_def)
  obtain b l where pk: "peek r = (b, l)" by force
  note P = peek_rd [OF rd pk]
  have less: "l < 8 \<longleftrightarrow> unat (bits_left r) < 8" unfolding P(1) by (simp add: word_less_nat_alt)
  show ?thesis
  proof (cases "length cs \<le> 8 \<and> length cs \<le> unat l")
    case True
    have "take (length cs) (take (unat l) (byte_bits b)) = take (length cs) (take (min 8 (unat l)) (cs @ rest))"
      using P(3) by simp
    then have "take (length cs) (byte_bits b) = cs" using True by (simp add: min_def)
    from peek_entry_code [OF inv cs _ this] True have pc: "peek_code tree ! unat b = (c, of_nat (length cs))"
      by (simp add: nth_peek_code [OF tree])
    have n: "unat (ucast (of_nat (length cs) :: u8) :: u32) = length cs" using True by (simp add: unat_ucast unat_of_nat)
    then have "coef_code (Suc n) tree r = Some (Ok (c, advance (ucast (of_nat (length cs) :: u8)) r))"
      using True by (simp add: pk pc word_le_nat_alt)
    moreover have "rd p xs tail k (e - length cs) (advance (ucast (of_nat (length cs) :: u8)) r) rest"
      using advance_rd [OF rd, of "ucast (of_nat (length cs) :: u8)"] True unfolding n P(1) by simp
    ultimately show ?thesis using True P(1) by auto
  next
    case False
    obtain c' k' where pc: "peek_code tree ! unat b = (c', k')" by force
    have "\<not> ucast k' \<le> l"
    proof
      assume "ucast k' \<le> l"
      then have kl: "unat k' \<le> unat l" using unat_lt2p [of k'] by (simp add: word_le_nat_alt unat_ucast)
      have "unat l \<le> 63" using rd P(1) by (auto simp: rd_def reads_def reads_at_def Let_def)
      then have "k' \<noteq> 0xFF" using kl by auto
      from peek_entry_leads [OF inv _ this] pc have L: "leads (node tree) 0 (take (unat k') (byte_bits b)) (256 + unat c')" "unat k' \<le> 8"
        by (auto simp: nth_peek_code [OF tree])
      have "take (unat k') (take (unat l) (byte_bits b)) = take (unat k') (take (min 8 (unat l)) (cs @ rest))"
        using P(3) by simp
      then have t: "take (unat k') (byte_bits b) = take (unat k') (cs @ rest)" using L(2) kl by (simp add: min_def)
      show False
      proof (cases "unat k' \<le> length cs")
        case True
        then have "cs = take (unat k') (byte_bits b) @ drop (unat k') cs" by (simp add: t)
        then have "drop (unat k') cs = []" using leads_unique [OF _ L(1)] cs by (metis le_add1)
        then show False using False True L(2) kl by simp
      next
        case k: False
        then have "take (unat k') (byte_bits b) = cs @ take (unat k' - length cs) rest" by (simp add: t)
        then have "length cs \<le> 8" "length cs \<le> unat l" using k L(2) kl by simp_all
        then show False using False by simp
      qed
    qed
    then show ?thesis using False P(1) less by (auto simp: pk pc)
  qed
qed

lemma coef_code_complete:
  assumes tree: "tree_ok hc tree nf pth" and cs: "leads (node tree) 0 cs (256 + unat c)" and rd: "rd p xs tail k 0 r (cs @ rest)"
    and n: "length cs + 2 < n"
  shows "\<exists>r'. coef_code n tree r = Some (Ok (c, r')) \<and> rd p xs tail k 0 r' rest"
proof -
  have wide: "\<exists>r'. coef_code n tree r = Some (Ok (c, r')) \<and> rd p xs tail k (e - length cs) r' rest"
    if "rd p xs tail k e r (cs @ rest)" "8 \<le> unat (bits_left r)" "length cs + 1 < n" for e r n
  proof -
    from that(3) obtain m where m: "n = Suc m" "length cs < m" by (cases n) auto
    show ?thesis
      using coef_code_step [OF tree cs that(1), of m] next_huff_code_complete [OF cs that(1) m(2)] that(2)
      unfolding m(1) by (auto split: if_splits simp del: coef_code.simps)
  qed
  show ?thesis
  proof (cases "8 \<le> unat (bits_left r)")
    case True
    then show ?thesis using wide [OF rd True] n by simp
  next
    case False
    from n obtain m where m: "n = Suc m" "length cs + 1 < m" by (cases n) auto
    show ?thesis
    proof (cases "length cs \<le> unat (bits_left r)")
      case True
      then show ?thesis using coef_code_step [OF tree cs rd, of m] False unfolding m(1) by (simp del: coef_code.simps)
    next
      case long: False
      from fill_rd [OF rd] False long obtain r1 where r1: "reader_fill_register 8 r = Ok r1"
        "rd p xs tail k (unat (bits_left r) + 1) r1 (cs @ rest)" "8 \<le> unat (bits_left r1)" by auto
      then show ?thesis using coef_code_step [OF tree cs rd, of m] False long wide [OF r1(2,3) m(2)]
        unfolding m(1) by (simp del: coef_code.simps)
    qed
  qed
qed

lemma coef_code_sound:
  assumes tree: "tree_ok hc tree nf pth" and m: "marker tail" and rd: "rd p xs tail k 0 r bs"
    and ok: "coef_code n tree r = Some (Ok (c, r'))"
  shows "\<exists>cs rest. bs = cs @ rest \<and> leads (node tree) 0 cs (256 + unat c)"
proof -
  have inv: "tree_inv 0xFFFF hc (node tree) nf pth" using tree by (simp add: tree_ok_def)
  have short: "\<exists>cs rest. bs = cs @ rest \<and> leads (node tree) 0 cs (256 + unat c)"
    if "rd p xs tail k e r bs" "peek r = (b, l)" "peek_code tree ! unat b = (c, k')" "ucast k' \<le> l" for e r b l k'
  proof -
    note P = peek_rd [OF that(1,2)]
    have kl: "unat k' \<le> unat l" using that(4) unat_lt2p [of k'] by (simp add: word_le_nat_alt unat_ucast)
    have "unat l \<le> 63" using that(1) P(1) by (auto simp: rd_def reads_def reads_at_def Let_def)
    then have "k' \<noteq> 0xFF" using kl by auto
    from peek_entry_leads [OF inv _ this] that(3) have L: "leads (node tree) 0 (take (unat k') (byte_bits b)) (256 + unat c)" "unat k' \<le> 8"
      by (auto simp: nth_peek_code [OF tree])
    have "take (unat k') (take (unat l) (byte_bits b)) = take (unat k') (take (min 8 (unat l)) bs)" using P(3) by simp
    then have "take (unat k') (byte_bits b) = take (unat k') bs" using L(2) kl by (simp add: min_def)
    then show ?thesis using L(1) by (metis append_take_drop_id)
  qed
  have wide: "\<exists>cs rest. bs = cs @ rest \<and> leads (node tree) 0 cs (256 + unat c)"
    if rd: "rd p xs tail k e r bs" and l: "8 \<le> unat (bits_left r)" and ok: "coef_code n tree r = Some (Ok (c, r'))" for e r n
  proof -
    obtain b l where pk: "peek r = (b, l)" by force
    obtain c' k' where pc: "peek_code tree ! unat b = (c', k')" by force
    obtain n' where n': "n = Suc n'" using ok by (cases n) auto
    have "\<not> l < 8" using peek_rd(1) [OF rd pk] l by (simp add: word_less_nat_alt)
    then have "if ucast k' \<le> l then c' = c else next_huff_code n' tree r = Some (Ok (c, r'))"
      using ok by (simp add: n' pk pc split: if_splits)
    then show ?thesis using short [OF rd pk] pc next_huff_code_sound [OF inv m rd] by (auto split: if_splits)
  qed
  show ?thesis
  proof (cases "8 \<le> unat (bits_left r)")
    case True
    then show ?thesis using wide [OF rd _ ok] by simp
  next
    case False
    obtain b l where pk: "peek r = (b, l)" by force
    obtain c' k' where pc: "peek_code tree ! unat b = (c', k')" by force
    obtain n' where n': "n = Suc n'" using ok by (cases n) auto
    have "l < 8" using peek_rd(1) [OF rd pk] False by (simp add: word_less_nat_alt)
    then have "if ucast k' \<le> l then c' = c else \<exists>r1. reader_fill_register 8 r = Ok r1 \<and> coef_code n' tree r1 = Some (Ok (c, r'))"
      using ok by (auto simp: n' pk pc bindF_eq_Inr split: if_splits)
    then show ?thesis
    proof (cases "ucast k' \<le> l")
      case True
      then show ?thesis using short [OF rd pk, of k'] pc \<open>if _ then _ else _\<close> by simp
    next
      case slow: False
      then obtain r1 where r1: "reader_fill_register 8 r = Ok r1" "coef_code n' tree r1 = Some (Ok (c, r'))"
        using \<open>if _ then _ else _\<close> by auto
      from fill_rd_sound [OF rd _ r1(1) m] False show ?thesis by (intro wide [OF _ _ r1(2)]) auto
    qed
  qed
qed

section \<open>Reading a coefficient\<close>

text \<open>The tree of a table, and one that has all codes of the table.\<close>

definition tree_for :: "HuffCodes \<Rightarrow> HuffTree \<Rightarrow> bool" where
  "tree_for hc tree \<longleftrightarrow> codes_fit hc \<and> (\<exists>nf pth. tree_ok hc tree nf pth)"

definition all_codes :: "HuffCodes \<Rightarrow> HuffTree \<Rightarrow> bool" where
  "all_codes hc tree \<longleftrightarrow> (\<forall>i. has_code hc i \<longrightarrow> leads (node tree) 0 (code_bits hc i) (256 + i))"

lemma tree_for_construct: "construct_hufftree hc False = Ok tree \<Longrightarrow> codes_fit hc \<Longrightarrow> tree_for hc tree"
  using construct_tree_ok by (simp add: tree_for_def)

lemma all_codes_construct:
  "construct_hufftree hc False = Ok tree \<Longrightarrow> codes_fit hc \<Longrightarrow> prefix_free hc \<Longrightarrow> all_codes hc tree"
  using construct_leads by (simp add: all_codes_def)

lemma literal_inject:
  assumes "magnitude a = magnitude b" "literal (magnitude a) a = literal (magnitude b) b"
  shows "a = b"
proof (cases "magnitude a")
  case 0
  then have "nat \<bar>a\<bar> = 0" "nat \<bar>b\<bar> = 0" using assms(1) bit_len_le_iff [of _ 0] by (simp_all add: magnitude_def)
  then show ?thesis by simp
next
  case (Suc k)
  have range: "2 ^ k \<le> \<bar>c\<bar> \<and> \<bar>c\<bar> < 2 * 2 ^ k" if "magnitude c = Suc k" for c
  proof -
    have "\<not> bit_len (nat \<bar>c\<bar>) \<le> k" "bit_len (nat \<bar>c\<bar>) \<le> Suc k" using that by (simp_all add: magnitude_def)
    then show ?thesis unfolding bit_len_le_iff by (simp_all add: nat_less_iff not_less le_nat_iff)
  qed
  have "int (literal (Suc k) c) = (if c < 0 then c + 2 * 2 ^ k - 1 else c)" if "magnitude c = Suc k" for c
    using range [OF that] by (auto simp: literal_def)
  with assms Suc have "(if a < 0 then a + 2 * 2 ^ k - 1 else a) = (if b < 0 then b + 2 * 2 ^ k - 1 else b)" by metis
  then show ?thesis using range [of a] range [of b] assms(1) Suc by (auto split: if_splits)
qed

lemma nibbles:
  fixes h :: u8
  shows "unat (lbits h 4) = unat h div 16" "unat (rbits h 4) = unat h mod 16"
proof -
  show "unat (lbits h 4) = unat h div 16" by (simp add: lbits_def unat_drop_bit)
  have "rbits h 4 = h AND mask 4" by (simp add: rbits_def mask_eq_exp_minus_1 drop_bit_eq_div)
  then show "unat (rbits h 4) = unat h mod 16"
    by (simp add: unat_and_mask)
qed

lemma read_literal_sound:
  assumes rd: "rd p xs tail k 0 r bs" and m: "marker tail" and s: "unat s \<le> 15"
    and ok: "read (ucast (s :: u8)) r = Ok (v, r')"
  shows "\<exists>bs'. bs = bits_of (unat s) (literal (unat s) (sint (devli s v))) @ bs' \<and> rd p xs tail k 0 r' bs'
    \<and> magnitude (sint (devli s v)) = unat s"
proof -
  have n: "unat (ucast s :: u32) = unat s" using unat_lt2p [of s] by (simp add: unat_ucast)
  from read_rd_sound [OF rd _ ok m] s obtain bs' where
    b: "bs = bits_of (unat s) (unat v) @ bs'" "rd p xs tail k 0 r' bs'" "unat v < 2 ^ unat s" by (auto simp: n)
  show ?thesis
  proof (cases "unat s = 0")
    case True
    then have "v = 0" using b(3) by (simp add: unat_eq_0)
    then have "sint (devli s v) = 0" using devli_signed [OF s b(3)] True by simp
    then show ?thesis using b True by simp
  next
    case False
    then show ?thesis using b devli_literal [OF s _ b(3)] by simp
  qed
qed

lemma read_coef_sound:
  assumes tree: "tree_for hc tree" and m: "marker tail" and rd: "rd p xs tail k 0 r bs" and n: "18 < n"
    and ok: "read_coef_huff n tree r = Some (Ok (c, r'))"
  shows "\<exists>z coef bs'. bs = coef_bits hc z (sint coef) @ bs' \<and> rd p xs tail k 0 r' bs' \<and> z < 16
    \<and> magnitude (sint coef) \<le> 15 \<and> has_code hc (16 * z + magnitude (sint coef))
    \<and> c = (if z = 0 \<and> coef = 0 then None else Some (z, coef))"
proof -
  from tree obtain nf pth where t: "tree_ok hc tree nf pth" "codes_fit hc" by (auto simp: tree_for_def)
  have inv: "tree_inv 0xFFFF hc (node tree) nf pth" using t by (simp add: tree_ok_def)
  from ok obtain h r1 where h: "coef_code n tree r = Some (Ok (h, r1))"
    and c: "if h = 0 then c = None \<and> r' = r1
      else \<exists>v. read (ucast (rbits h 4)) r1 = Ok (v, r') \<and> c = Some (unat (lbits h 4), devli (rbits h 4) v)"
    by (auto simp: read_coef_huff_def bindF_eq_Inr Let_def split: if_splits)
  from coef_code_sound [OF t(1) m rd h] obtain cs bs1 where cs: "bs = cs @ bs1" "leads (node tree) 0 cs (256 + unat h)" by auto
  have "256 + unat h \<noteq> 0xFFFF" using unat_lt2p [of h] by simp
  from leads_code [OF inv cs(2) _ this] have i: "has_code hc (unat h)" "code_bits hc (unat h) = cs" by auto
  then have "length cs \<le> 16" using t(2) by (auto simp: code_bits_def codes_fit_def has_code_def)
  with coef_code_complete [OF t(1) cs(2) rd [unfolded cs(1)], of n] n h have r1: "rd p xs tail k 0 r1 bs1" by simp
  have h16: "16 * (unat h div 16) + unat h mod 16 = unat h" by simp
  have div16: "unat h div 16 < 16" using unat_lt2p [of h] by simp
  show ?thesis
  proof (cases "h = 0")
    case True
    then show ?thesis using c cs(1) i r1 by (intro exI [of _ 0] exI [of _ "0 :: i16"] exI [of _ bs1]) (simp add: coef_bits_def)
  next
    case False
    then obtain v where v: "read (ucast (rbits h 4)) r1 = Ok (v, r')" "c = Some (unat h div 16, devli (rbits h 4) v)"
      using c by (auto simp: nibbles)
    have "unat h mod 16 \<le> 15" using mod_less_divisor [of 16 "unat h"] by linarith
    with read_literal_sound [OF r1 m _ v(1)] obtain bs' where
      b: "bs1 = bits_of (unat h mod 16) (literal (unat h mod 16) (sint (devli (rbits h 4) v))) @ bs'" "rd p xs tail k 0 r' bs'"
        "magnitude (sint (devli (rbits h 4) v)) = unat h mod 16" by (auto simp: nibbles)
    have "\<not> (unat h div 16 = 0 \<and> devli (rbits h 4) v = 0)"
    proof
      assume z: "unat h div 16 = 0 \<and> devli (rbits h 4) v = 0"
      then have "unat h mod 16 = 0" using b(3) by simp
      with z h16 have "unat h = 0" by simp
      then show False using False by (simp add: unat_eq_0)
    qed
    then show ?thesis using cs(1) i b v(2) h16 div16
      by (intro exI [of _ "unat h div 16"] exI [of _ "devli (rbits h 4) v"] exI [of _ bs']) (simp add: coef_bits_def)
  qed
qed

lemma read_coef_complete:
  assumes tree: "tree_for hc tree" "all_codes hc tree" and n: "18 < n"
    and rd: "rd p xs tail k 0 r (coef_bits hc z (sint (coef :: i16)) @ bs')"
    and z: "z < 16" "magnitude (sint coef) \<le> 15" "has_code hc (16 * z + magnitude (sint coef))"
  shows "\<exists>r'. read_coef_huff n tree r = Some (Ok (if z = 0 \<and> coef = 0 then None else Some (z, coef), r')) \<and> rd p xs tail k 0 r' bs'"
proof -
  define s where "s = magnitude (sint coef)"
  define h :: u8 where "h = of_nat (16 * z + s)"
  have "16 * z + s < 256" using z by (simp add: s_def)
  then have "unat h = 16 * z + s" unfolding h_def unat_of_nat by simp
  moreover have "s < 16" using z(2) by (simp add: s_def)
  ultimately have h: "unat h = 16 * z + s" "unat h div 16 = z" "unat h mod 16 = s" by simp_all
  from tree(1) obtain nf pth where t: "tree_ok hc tree nf pth" "codes_fit hc" by (auto simp: tree_for_def)
  have l: "leads (node tree) 0 (code_bits hc (unat h)) (256 + unat h)" using tree(2) z(3) h by (simp add: all_codes_def s_def)
  have "length (code_bits hc (unat h)) \<le> 16" using t(2) z(3) h by (auto simp: code_bits_def codes_fit_def has_code_def s_def)
  with coef_code_complete [OF t(1) l, of p xs tail k r "bits_of s (literal s (sint coef)) @ bs'" n] rd n obtain r1 where
    r1: "coef_code n tree r = Some (Ok (h, r1))" "rd p xs tail k 0 r1 (bits_of s (literal s (sint coef)) @ bs')"
    by (auto simp: coef_bits_def h s_def)
  have s0: "s = 0 \<longleftrightarrow> coef = 0"
    using bit_len_le_iff [of "nat \<bar>sint coef\<bar>" 0] signed_eq_0_iff [of coef] by (auto simp: s_def magnitude_def)
  then have zero: "h = 0 \<longleftrightarrow> z = 0 \<and> coef = 0" using h(1) by (auto simp: word_unat_eq_iff)
  show ?thesis
  proof (cases "h = 0")
    case True
    then have "s = 0" using h(1) by simp
    then show ?thesis using True r1 zero by (simp add: read_coef_huff_def)
  next
    case False
    have n: "unat (ucast (rbits h 4) :: u32) = s" using unat_lt2p [of "rbits h 4"] h(3) by (simp add: unat_ucast nibbles)
    have "s \<le> 16" using z(2) by (simp add: s_def)
    then obtain v r2 where v: "read (ucast (rbits h 4)) r1 = Ok (v, r2)" "unat v = of_bits (bits_of s (literal s (sint coef)))"
      "rd p xs tail k 0 r2 bs'" using read_rd [OF r1(2), of "ucast (rbits h 4)"] by (auto simp: n)
    have "literal s (sint coef) < 2 ^ s" using literal_less [of "sint coef" s] by (simp add: s_def)
    then have uv: "unat v = literal s (sint coef)" "unat v < 2 ^ s" using v(2) by (simp_all add: of_bits_bits_of)
    have us: "unat (rbits h 4) = s" using h(3) by (simp add: nibbles)
    have "devli (rbits h 4) v = coef"
    proof (cases "s = 0")
      case True
      then have "sint (devli (rbits h 4) v) = 0" using devli_signed [of "rbits h 4" v] us uv s0 True by (simp add: literal_def unat_eq_0)
      then show ?thesis using True s0 by (simp add: signed_eq_0_iff)
    next
      case False
      note d = devli_literal [of "rbits h 4" v, unfolded us]
      have "sint (devli (rbits h 4) v) = sint coef"
        using d uv z(2) False by (intro literal_inject) (simp_all add: s_def)
      then show ?thesis by (rule signed_word_eqI)
    qed
    then show ?thesis using False v(1,3) r1(1) zero h by (auto simp: read_coef_huff_def Let_def nibbles)
  qed
qed

section \<open>Reading a block\<close>

text \<open>The table has no code for a run of less than 16 zeros without a coefficient. The decoder skips the
  zeros of such a code, but the encoder writes no such codes.\<close>

definition no_short_runs :: "HuffCodes \<Rightarrow> bool" where
  "no_short_runs hc \<longleftrightarrow> (\<forall>z \<in> {1..14}. \<not> has_code hc (16 * z))"

definition small_coefs :: "i16 list \<Rightarrow> bool" where
  "small_coefs block \<longleftrightarrow> (\<forall>c \<in> set block. magnitude (sint c) \<le> 15)"

text \<open>The runs and coefficients a block is written as.\<close>

fun ac_items :: "nat \<Rightarrow> i16 list \<Rightarrow> (nat \<times> i16) list" where
  "ac_items z [] = (if z = 0 then [] else [(0, 0)])"
| "ac_items z (c # cs) =
    (if c = 0 then ac_items (Suc z) cs else replicate (z div 16) (15, 0) @ (z mod 16, c) # ac_items 0 cs)"

lemma ac_bits_items: "ac_bits tbl z (map sint cs) = concat (map (\<lambda>(z, c). coef_bits tbl z (sint c)) (ac_items z cs))"
  by (induction cs arbitrary: z) (simp_all add: signed_eq_0_iff coef_bits_zrl, simp add: coef_bits_def)

definition items_coded :: "HuffCodes \<Rightarrow> i16 list \<Rightarrow> bool" where
  "items_coded actbl cs \<longleftrightarrow> (\<forall>(z, c) \<in> set (ac_items 0 cs). has_code actbl (16 * z + magnitude (sint c)))"

definition block_codable :: "HuffCodes \<Rightarrow> HuffCodes \<Rightarrow> i16 list \<Rightarrow> bool" where
  "block_codable dctbl actbl block \<longleftrightarrow> length block = 64 \<and> small_coefs block \<and> has_code dctbl (magnitude (sint (block ! 0)))
    \<and> items_coded actbl (tl block)"

lemma ac_items_zeros: "ac_items z (replicate k 0 @ cs) = ac_items (z + k) cs"
  by (induction k arbitrary: z) simp_all

lemma ac_items_16: "\<exists>c \<in> set cs. c \<noteq> 0 \<Longrightarrow> ac_items (z + 16) cs = (15, 0) # ac_items z cs"
proof (induction cs arbitrary: z)
  case (Cons c cs)
  show ?case
  proof (cases "c = 0")
    case True
    then show ?thesis using Cons.IH [of "Suc z"] Cons.prems by simp
  next
    case False
    have "(z + 16) div 16 = Suc (z div 16)" "(z + 16) mod 16 = z mod 16" by simp_all
    with False show ?thesis by simp
  qed
qed simp

lemma zeros_drop: "length block = 64 \<Longrightarrow> \<forall>i. a \<le> i \<and> i < 64 \<longrightarrow> block ! i = 0 \<Longrightarrow> drop a block = replicate (64 - a) 0"
  by (rule nth_equalityI) auto

lemma drop_run:
  assumes "length block = 64" "a + z < 64" "\<forall>i. a \<le> i \<and> i < a + z \<longrightarrow> block ! i = 0"
  shows "drop a block = replicate z 0 @ block ! (a + z) # drop (Suc (a + z)) block"
proof -
  have "drop (a + z) block = block ! (a + z) # drop (Suc (a + z)) block"
    using assms(1,2) by (intro Cons_nth_drop_Suc [symmetric]) simp
  moreover have "take z (drop a block) = replicate z 0"
    by (rule nth_equalityI) (use assms in auto)
  ultimately show ?thesis using append_take_drop_id [of z "drop a block"] by (simp add: add.commute)
qed

lemma ac_loop_sound:
  assumes tree: "tree_for actbl actree" and m: "marker tail" and short: "no_short_runs actbl"
  shows "ac_loop n actree bpos block r = Some (Ok ((eob, False, bpos', block'), r')) \<Longrightarrow> 18 + (64 - bpos) < n \<Longrightarrow>
    1 \<le> bpos \<Longrightarrow> bpos \<le> 64 \<Longrightarrow> length block = 64 \<Longrightarrow> \<forall>i. bpos \<le> i \<and> i < 64 \<longrightarrow> block ! i = 0 \<Longrightarrow> rd p xs tail k 0 r bs \<Longrightarrow>
    small_coefs block \<Longrightarrow>
    \<exists>bs'. rd p xs tail k 0 r' bs' \<and> length block' = 64 \<and> small_coefs block' \<and> (\<forall>i < bpos. block' ! i = block ! i)
      \<and> bpos \<le> eob \<and> eob \<le> 64 \<and> (\<forall>i. eob \<le> i \<and> i < 64 \<longrightarrow> block' ! i = 0)
      \<and> (eob \<le> bpos \<or> block' ! (eob - 1) \<noteq> 0 \<longrightarrow>
            bs = ac_bits actbl 0 (map sint (drop bpos block')) @ bs' \<and> items_coded actbl (drop bpos block'))"
proof (induction n arbitrary: bpos block r bs)
  case (Suc n)
  show ?case
  proof (cases "bpos < 64")
    case False
    then show ?thesis using Suc.prems by (intro exI [of _ bs]) (auto simp: items_coded_def)
  next
    case True
    from Suc.prems(1) True obtain c r1 where c: "read_coef_huff n actree r = Some (Ok (c, r1))"
      by (auto simp: bindF_eq_Inr)
    have nxt: "case c of Some (z, coef) \<Rightarrow>
           if 64 \<le> z + bpos then False
           else ac_loop n actree (bpos + z + 1) (block[bpos + z := coef]) r1 = Some (Ok ((eob, False, bpos', block'), r'))
         | None \<Rightarrow> eob = bpos \<and> block' = block \<and> r' = r1"
      using Suc.prems(1) True c by (auto split: option.splits if_splits)
    have "18 < n" using Suc.prems(2) True by simp
    from read_coef_sound [OF tree m Suc.prems(7) this c] obtain z coef bs1 where
      b: "bs = coef_bits actbl z (sint coef) @ bs1" "rd p xs tail k 0 r1 bs1" "z < 16" "magnitude (sint coef) \<le> 15"
      "has_code actbl (16 * z + magnitude (sint coef))" "c = (if z = 0 \<and> coef = 0 then None else Some (z, coef))" by blast
    show ?thesis
    proof (cases "z = 0 \<and> coef = 0")
      case last: True
      then have "eob = bpos" "block' = block" "r' = r1" using nxt b(6) by simp_all
      moreover have "ac_bits actbl 0 (map sint (drop bpos block)) = code_bits actbl 0"
        using ac_bits_zeros [of actbl 0 "64 - bpos" "[]"] True by (simp add: zeros_drop [OF Suc.prems(5,6)])
      moreover have "bs = code_bits actbl 0 @ bs1" using b(1) last by (simp add: coef_bits_def)
      moreover have "items_coded actbl (drop bpos block)"
        using b(5) last True by (simp add: zeros_drop [OF Suc.prems(5,6)] items_coded_def ac_items_zeros [of 0 _ "[]", simplified])
      ultimately show ?thesis using Suc.prems b(2) by (intro exI [of _ bs1]) simp
    next
      case item: False
      define q where "q = bpos + z"
      have q: "q < 64" and rest: "ac_loop n actree (Suc q) (block[q := coef]) r1 = Some (Ok ((eob, False, bpos', block'), r'))"
        using nxt b(6) item by (auto simp: q_def split: if_splits)
      have small: "small_coefs (block[q := coef])"
        using Suc.prems(8) b(4) set_update_subset_insert [of block q coef] by (auto simp: small_coefs_def)
      have fuel: "18 + (64 - Suc q) < n" using Suc.prems(2) q True q_def by linarith
      have pos: "1 \<le> Suc q" "Suc q \<le> 64" "length (block[q := coef]) = 64" using q Suc.prems(5) by simp_all
      have "\<forall>i. Suc q \<le> i \<and> i < 64 \<longrightarrow> block[q := coef] ! i = 0" using Suc.prems(6) by (simp add: q_def)
      from Suc.IH [OF rest fuel pos this b(2) small] obtain bs' where
        R: "rd p xs tail k 0 r' bs'" "length block' = 64" "small_coefs block'" "\<forall>i < Suc q. block' ! i = block[q := coef] ! i"
        "Suc q \<le> eob" "eob \<le> 64" "\<forall>i. eob \<le> i \<and> i < 64 \<longrightarrow> block' ! i = 0"
        "eob \<le> Suc q \<or> block' ! (eob - 1) \<noteq> 0 \<longrightarrow>
          bs1 = ac_bits actbl 0 (map sint (drop (Suc q) block')) @ bs' \<and> items_coded actbl (drop (Suc q) block')"
        by blast
      have before: "\<forall>i < bpos. block' ! i = block ! i" using R(4) by (simp add: q_def)
      have "\<forall>i. bpos \<le> i \<and> i < bpos + z \<longrightarrow> block' ! i = 0" using R(4) Suc.prems(6) q by (simp add: q_def)
      from drop_run [OF R(2) _ this] q R(4) Suc.prems(5) have
        parts: "drop bpos block' = replicate z 0 @ coef # drop (Suc q) block'" by (simp add: q_def)
      then have split: "map sint (drop bpos block') = replicate z 0 @ sint coef # map sint (drop (Suc q) block')" by simp
      have "bs = ac_bits actbl 0 (map sint (drop bpos block')) @ bs' \<and> items_coded actbl (drop bpos block')" if eob: "eob \<le> bpos \<or> block' ! (eob - 1) \<noteq> 0"
      proof -
        have nz: "block' ! (eob - 1) \<noteq> 0" using eob R(5) by (auto simp: q_def)
        then have bs1: "bs1 = ac_bits actbl 0 (map sint (drop (Suc q) block')) @ bs'" "items_coded actbl (drop (Suc q) block')"
          using R(8) by simp_all
        show ?thesis
        proof (cases "coef = 0")
          case False
          then have "sint coef \<noteq> 0" by (simp add: signed_eq_0_iff)
          then show ?thesis using b(1,3,5) bs1 False by (simp add: split parts ac_bits_zeros ac_items_zeros items_coded_def)
        next
          case True
          then have "has_code actbl (16 * z)" "z \<noteq> 0" using b(5) item by simp_all
          then have z: "z = 15" using short b(3) by (cases "z = 15") (auto simp: no_short_runs_def)
          have "block' ! q = 0" using R(4) q Suc.prems(5) True by simp
          then have "Suc q < eob" using nz R(5) by (cases "Suc q = eob") auto
          then obtain e where "eob = Suc (Suc q + e)" using less_iff_Suc_add by auto
          then have "drop (Suc q) block' ! e = block' ! (eob - 1)" "e < length (drop (Suc q) block')"
            using R(2,6) by auto
          then have "block' ! (eob - 1) \<in> set (drop (Suc q) block')" by (metis nth_mem)
          then have "\<exists>c \<in> set (drop (Suc q) block'). c \<noteq> 0" "\<exists>c \<in> set (map sint (drop (Suc q) block')). c \<noteq> (0 :: int)"
            using nz signed_eq_0_iff by auto
          from ac_items_16 [OF this(1), of 0] ac_bits_16 [OF this(2), of actbl 0] show ?thesis
            using b(1,5) bs1 True by (simp add: split parts ac_bits_zeros ac_items_zeros items_coded_def z coef_bits_zrl)
        qed
      qed
      then show ?thesis using R before by (intro exI [of _ bs']) (simp add: q_def)
    qed
  qed
qed simp

lemma not_eof: "rd p xs tail k e r bs \<Longrightarrow> \<not> is_eof r"
  by (auto simp: rd_def reads_def reads_at_def is_eof_def Let_def)

lemma ac_loop_rd:
  assumes tree: "tree_for actbl actree" and m: "marker tail"
  shows "ac_loop n actree bpos block r = Some (Ok (x, r')) \<Longrightarrow> 18 + (64 - bpos) < n \<Longrightarrow> rd p xs tail k 0 r bs \<Longrightarrow>
    \<exists>bs'. rd p xs tail k 0 r' bs'"
proof (induction n arbitrary: bpos block r bs)
  case (Suc n)
  show ?case
  proof (cases "bpos < 64")
    case True
    then obtain c r1 where c: "read_coef_huff n actree r = Some (Ok (c, r1))" using Suc.prems(1) by (auto simp: bindF_eq_Inr)
    have "18 < n" using Suc.prems(2) True by simp
    from read_coef_sound [OF tree m Suc.prems(3) this c] obtain bs1 where b: "rd p xs tail k 0 r1 bs1" by blast
    show ?thesis using Suc.prems(1,2) True c b Suc.IH [OF _ _ b] by (auto split: option.splits if_splits)
  qed (use Suc.prems in auto)
qed simp

text \<open>Every bit string that is accepted is the one of the block. The caller has to refuse blocks whose last
  coefficient before the end is zero.\<close>

lemma decode_block_sound:
  assumes tree: "tree_for dctbl dctree" "tree_for actbl actree" and m: "marker tail" and short: "no_short_runs actbl"
    and n: "81 < n" and rd: "rd p xs tail k 0 r bs"
    and ok: "decode_block_seq n dctree actree (replicate 64 0) r = Some (Ok ((eob, block), r'))"
    and canonical: "eob \<le> 1 \<or> block ! (eob - 1) \<noteq> 0"
  shows "\<exists>bs'. bs = block_bits dctbl actbl block @ bs' \<and> rd p xs tail k 0 r' bs'"
    "block_codable dctbl actbl block" "eob \<le> 64" "\<forall>i. eob \<le> i \<and> i < 64 \<longrightarrow> block ! i = 0"
proof -
  from ok obtain dc r1 where dc: "read_dc_huff n dctree r = Some (Ok (dc, r1))"
    by (auto simp: decode_block_seq_def bindF_eq_Inr)
  then obtain c r0 where c0: "read_coef_huff n dctree r = Some (Ok (c, r0))"
    by (auto simp: read_dc_huff_def bindF_eq_Inr)
  then have "r0 = r1" using dc by (cases c) (auto simp: read_dc_huff_def split: if_splits)
  with c0 have c1: "read_coef_huff n dctree r = Some (Ok (c, r1))" by simp
  then have c2: "(case c of Some zc \<Rightarrow> zc | None \<Rightarrow> (0, 0)) = (0, dc)"
    using dc by (cases c) (auto simp: read_dc_huff_def split: if_splits)
  have "18 < n" using n by simp
  from read_coef_sound [OF tree(1) m rd this c1] obtain z coef bs1 where
    b: "bs = coef_bits dctbl z (sint coef) @ bs1" "rd p xs tail k 0 r1 bs1" "magnitude (sint coef) \<le> 15"
    "has_code dctbl (16 * z + magnitude (sint coef))" "c = (if z = 0 \<and> coef = 0 then None else Some (z, coef))" by blast
  then have "z = 0" "coef = dc" using c2 by (auto split: if_splits)
  with b have dcb: "bs = coef_bits dctbl 0 (sint dc) @ bs1" "rd p xs tail k 0 r1 bs1" "magnitude (sint dc) \<le> 15"
    "has_code dctbl (magnitude (sint dc))" by simp_all
  let ?b = "(replicate 64 0)[0 := dc]"
  from ok dc obtain eob1 fixup bpos block1 r2 where ac: "ac_loop n actree 1 ?b r1 = Some (Ok ((eob1, fixup, bpos, block1), r2))"
    by (auto simp: decode_block_seq_def bindF_eq_Inr)
  have fuel: "18 + (64 - 1) < n" using n by simp
  from ac_loop_rd [OF tree(2) m ac fuel dcb(2)] not_eof have "\<not> is_eof r2" by blast
  then have res: "\<not> fixup" "eob1 = eob" "block1 = block" "r2 = r'"
    using ok dc ac by (auto simp: decode_block_seq_def split: if_splits)
  have init: "small_coefs ?b" "length ?b = 64" "\<forall>i. 1 \<le> i \<and> i < 64 \<longrightarrow> ?b ! i = 0"
    using dcb(3) set_update_subset_insert [of "replicate 64 0" 0 dc] by (auto simp: small_coefs_def nth_list_update)
  from ac have ac': "ac_loop n actree 1 ?b r1 = Some (Ok ((eob, False, bpos, block), r'))" using res by simp
  from ac_loop_sound [OF tree(2) m short ac' fuel _ _ init(2,3) dcb(2) init(1)] canonical obtain bs' where
    R: "rd p xs tail k 0 r' bs'" "length block = 64" "small_coefs block" "block ! 0 = dc" "eob \<le> 64"
    "\<forall>i. eob \<le> i \<and> i < 64 \<longrightarrow> block ! i = 0" "bs1 = ac_bits actbl 0 (map sint (drop 1 block)) @ bs'"
    "items_coded actbl (drop 1 block)" by auto
  show "\<exists>bs'. bs = block_bits dctbl actbl block @ bs' \<and> rd p xs tail k 0 r' bs'"
    using R dcb(1) by (auto simp: block_bits_def drop_Suc)
  show "block_codable dctbl actbl block" using R dcb(4) by (simp add: block_codable_def drop_Suc)
  show "eob \<le> 64" "\<forall>i. eob \<le> i \<and> i < 64 \<longrightarrow> block ! i = 0" by (fact R)+
qed

lemma ac_items_step:
  assumes "\<exists>c \<in> set cs. c \<noteq> 0"
  shows "\<exists>z. ac_items 0 cs = (z, cs ! z) # ac_items 0 (drop (Suc z) cs) \<and> z < 16 \<and> z < length cs \<and> (\<forall>i < z. cs ! i = 0)
    \<and> (z = 0 \<longrightarrow> cs ! z \<noteq> 0) \<and> (cs ! z = 0 \<longrightarrow> (\<exists>c \<in> set (drop (Suc z) cs). c \<noteq> 0))"
proof -
  from assms obtain c ys where c: "dropWhile ((=) 0) cs = c # ys" "c \<noteq> 0"
    by (metis (full_types) dropWhile_eq_Nil_conv hd_dropWhile list.exhaust list.sel(1))
  define z where "z = length (takeWhile ((=) 0) cs)"
  have "takeWhile ((=) 0) cs = replicate z 0" unfolding z_def
    by (intro replicate_eqI) (auto dest: set_takeWhileD)
  then have cs: "cs = replicate z 0 @ c # ys" using c(1) by (metis takeWhile_dropWhile_id)
  show ?thesis
  proof (cases "z < 16")
    case True
    then show ?thesis using c(2) by (intro exI [of _ z]) (simp add: cs ac_items_zeros nth_append)
  next
    case False
    then obtain k where k: "z = 16 + k" using nat_le_iff_add by (metis not_less)
    have d: "cs = replicate 15 0 @ 0 # replicate k 0 @ c # ys"
      by (simp add: cs k replicate_add numeral_eq_Suc)
    then have "drop 16 cs = replicate k 0 @ c # ys" by (simp add: cs k)
    then have "ac_items 0 cs = (15, 0) # ac_items 0 (drop 16 cs)"
      using ac_items_16 [of "c # ys" k] c(2) by (simp add: cs k ac_items_zeros add.commute)
    then show ?thesis using c(2) by (intro exI [of _ 15]) (simp add: cs k nth_append)
  qed
qed

text \<open>The block \<open>block\<close> is \<open>target\<close> up to \<open>bpos\<close>, and empty from there on.\<close>

definition block_upto :: "usize \<Rightarrow> i16 list \<Rightarrow> i16 list \<Rightarrow> bool" where
  "block_upto bpos target block \<longleftrightarrow> length target = 64 \<and> length block = 64
    \<and> (\<forall>i. i < 64 \<longrightarrow> block ! i = (if i < bpos then target ! i else 0))"

lemma block_upto_end: "block_upto bpos target block \<Longrightarrow> \<forall>i. bpos \<le> i \<and> i < 64 \<longrightarrow> target ! i = 0 \<Longrightarrow> block = target"
  by (rule nth_equalityI) (simp_all add: block_upto_def not_less)

lemma block_upto_item:
  assumes "block_upto bpos target block" "bpos + z < 64" "\<forall>i < z. target ! (bpos + i) = 0"
  shows "block_upto (Suc (bpos + z)) target (block[bpos + z := target ! (bpos + z)])"
  unfolding block_upto_def
proof (intro conjI allI impI)
  fix i :: nat
  assume i: "i < 64"
  have "target ! i = 0" if "bpos \<le> i" "i < bpos + z" using assms(3) that by (metis add_less_cancel_left le_add_diff_inverse)
  then show "block[bpos + z := target ! (bpos + z)] ! i = (if i < Suc (bpos + z) then target ! i else 0)"
    using assms(1,2) i by (auto simp: block_upto_def nth_list_update not_less less_Suc_eq)
qed (use assms(1) in \<open>simp_all add: block_upto_def\<close>)

lemma ac_loop_complete:
  assumes tree: "tree_for actbl actree" "all_codes actbl actree" and small: "small_coefs target"
  shows "block_upto bpos target block \<Longrightarrow> 18 + (64 - bpos) < n \<Longrightarrow> 1 \<le> bpos \<Longrightarrow> bpos \<le> 64 \<Longrightarrow>
    \<forall>(z, c) \<in> set (ac_items 0 (drop bpos target)). has_code actbl (16 * z + magnitude (sint c)) \<Longrightarrow>
    rd p xs tail k 0 r (concat (map (\<lambda>(z, c). coef_bits actbl z (sint c)) (ac_items 0 (drop bpos target))) @ bs') \<Longrightarrow>
    \<exists>eob bpos' r'. ac_loop n actree bpos block r = Some (Ok ((eob, False, bpos', target), r')) \<and> rd p xs tail k 0 r' bs'
      \<and> bpos \<le> eob \<and> eob \<le> 64 \<and> (\<forall>i. eob \<le> i \<and> i < 64 \<longrightarrow> target ! i = 0) \<and> (eob \<le> bpos \<or> target ! (eob - 1) \<noteq> 0)"
proof (induction n arbitrary: bpos block r)
  case (Suc n)
  have len: "length target = 64" using Suc.prems(1) by (simp add: block_upto_def)
  let ?cs = "drop bpos target"
  consider "bpos = 64" | "bpos < 64" "\<forall>c \<in> set ?cs. c = 0" | "bpos < 64" "\<exists>c \<in> set ?cs. c \<noteq> 0" using Suc.prems(4) by fastforce
  then show ?case
  proof cases
    case 1
    moreover have "block = target" by (rule block_upto_end [OF Suc.prems(1)]) (auto simp: 1)
    ultimately show ?thesis using Suc.prems(6) len by auto
  next
    case 2
    have zero: "\<forall>i. bpos \<le> i \<and> i < 64 \<longrightarrow> target ! i = 0"
    proof (intro allI impI)
      fix i
      assume "bpos \<le> i \<and> i < 64"
      then have "bpos \<le> i" "i - bpos < length ?cs" using len by simp_all linarith
      then have "target ! i \<in> set ?cs" using nth_mem [of "i - bpos" ?cs] len by simp
      then show "target ! i = 0" using 2 by blast
    qed
    from block_upto_end [OF Suc.prems(1) this] have "block = target" .
    have "?cs = replicate (64 - bpos) 0" using 2 len by (intro replicate_eqI) simp_all
    then have items: "ac_items 0 ?cs = [(0, 0)]" using ac_items_zeros [of 0 "64 - bpos" "[]"] 2 by simp
    then have rd: "rd p xs tail k 0 r (coef_bits actbl 0 (sint (0 :: i16)) @ bs')" using Suc.prems(6) by simp
    have "18 < n" using Suc.prems(2) 2 by simp
    from read_coef_complete [OF tree this rd] Suc.prems(5) items obtain r1 where
      "read_coef_huff n actree r = Some (Ok (None, r1))" "rd p xs tail k 0 r1 bs'" by auto
    then show ?thesis using 2 zero \<open>block = target\<close> by auto
  next
    case 3
    from ac_items_step [OF 3(2)] obtain z where z: "ac_items 0 ?cs = (z, ?cs ! z) # ac_items 0 (drop (Suc z) ?cs)" "z < 16" "z < length ?cs"
      "\<forall>i < z. ?cs ! i = 0" "z = 0 \<longrightarrow> ?cs ! z \<noteq> 0" "?cs ! z = 0 \<longrightarrow> (\<exists>c \<in> set (drop (Suc z) ?cs). c \<noteq> 0)" by blast
    define q where "q = bpos + z"
    have q: "q < 64" using z(3) len by (simp add: q_def)
    have nthq: "?cs ! z = target ! q" "drop (Suc z) ?cs = drop (Suc q) target" using len q by (simp_all add: q_def add.commute)
    have items: "ac_items 0 ?cs = (z, target ! q) # ac_items 0 (drop (Suc q) target)" using z(1) unfolding nthq .
    have "\<forall>i < z. target ! (bpos + i) = 0" using z(4) len q by (simp add: q_def)
    from block_upto_item [OF Suc.prems(1) _ this] q have upto: "block_upto (Suc q) target (block[q := target ! q])" by (simp add: q_def)
    have m: "magnitude (sint (target ! q)) \<le> 15" using small q len by (simp add: small_coefs_def)
    have rd: "rd p xs tail k 0 r (coef_bits actbl z (sint (target ! q)) @
        (concat (map (\<lambda>(z, c). coef_bits actbl z (sint c)) (ac_items 0 (drop (Suc q) target))) @ bs'))"
      using Suc.prems(6) items by simp
    have "18 < n" using Suc.prems(2) 3 by simp
    have "\<not> (z = 0 \<and> target ! q = 0)" using z(5) unfolding nthq by blast
    with read_coef_complete [OF tree \<open>18 < n\<close> rd z(2) m] Suc.prems(5) items obtain r1 where
      r1: "read_coef_huff n actree r = Some (Ok (Some (z, target ! q), r1))"
      "rd p xs tail k 0 r1 (concat (map (\<lambda>(z, c). coef_bits actbl z (sint c)) (ac_items 0 (drop (Suc q) target))) @ bs')" by auto
    have fuel: "18 + (64 - Suc q) < n" using Suc.prems(2) q 3(1) q_def by linarith
    have "1 \<le> Suc q" "Suc q \<le> 64" using q by simp_all
    from Suc.IH [OF upto fuel this _ r1(2)] Suc.prems(5) items obtain eob bpos' r' where
      R: "ac_loop n actree (Suc q) (block[q := target ! q]) r1 = Some (Ok ((eob, False, bpos', target), r'))"
      "rd p xs tail k 0 r' bs'" "Suc q \<le> eob" "eob \<le> 64" "\<forall>i. eob \<le> i \<and> i < 64 \<longrightarrow> target ! i = 0"
      "eob \<le> Suc q \<or> target ! (eob - 1) \<noteq> 0" by auto
    have "target ! (eob - 1) \<noteq> 0"
    proof (cases "eob = Suc q")
      case True
      have "target ! q \<noteq> 0"
      proof
        assume "target ! q = 0"
        then obtain c where "c \<in> set (drop (Suc q) target)" "c \<noteq> 0" using z(6) nthq by auto
        then show False using R(5) len True by (auto simp: in_set_conv_nth)
      qed
      then show ?thesis using True by simp
    qed (use R(3,6) in simp)
    moreover have "ac_loop (Suc n) actree bpos block r = Some (Ok ((eob, False, bpos', target), r'))"
      using 3(1) r1(1) q R(1) by (simp add: q_def add.commute)
    ultimately show ?thesis using R by (intro exI [of _ eob] exI [of _ bpos'] exI [of _ r']) (simp add: q_def)
  qed
qed simp

lemma decode_block_complete:
  assumes tree: "tree_for dctbl dctree" "all_codes dctbl dctree" "tree_for actbl actree" "all_codes actbl actree"
    and n: "81 < n" and block: "block_codable dctbl actbl block"
    and rd: "rd p xs tail k 0 r (block_bits dctbl actbl block @ bs')"
  shows "\<exists>eob r'. decode_block_seq n dctree actree (replicate 64 0) r = Some (Ok ((eob, block), r')) \<and> rd p xs tail k 0 r' bs'
    \<and> eob \<le> 64 \<and> (\<forall>i. eob \<le> i \<and> i < 64 \<longrightarrow> block ! i = 0) \<and> (eob \<le> 1 \<or> block ! (eob - 1) \<noteq> 0)"
proof -
  have B: "length block = 64" "small_coefs block" "has_code dctbl (16 * 0 + magnitude (sint (block ! 0)))"
    "\<forall>(z, c) \<in> set (ac_items 0 (drop 1 block)). has_code actbl (16 * z + magnitude (sint c))"
    using block by (simp_all add: block_codable_def items_coded_def drop_Suc)
  have "magnitude (sint (block ! 0)) \<le> 15" using B(1,2) by (simp add: small_coefs_def)
  moreover have "rd p xs tail k 0 r (coef_bits dctbl 0 (sint (block ! 0)) @ (ac_bits actbl 0 (map sint (drop 1 block)) @ bs'))"
    using rd by (simp add: block_bits_def drop_Suc map_tl)
  ultimately obtain r1 where r1: "read_coef_huff n dctree r = Some (Ok (if block ! 0 = 0 then None else Some (0, block ! 0), r1))"
    "rd p xs tail k 0 r1 (ac_bits actbl 0 (map sint (drop 1 block)) @ bs')"
    using read_coef_complete [OF tree(1,2) _ _ _ _ B(3), of n] n by fastforce
  then have dc: "read_dc_huff n dctree r = Some (Ok (block ! 0, r1))" by (simp add: read_dc_huff_def)
  have upto: "block_upto 1 block ((replicate 64 0)[0 := block ! 0])"
    using B(1) by (auto simp: block_upto_def nth_list_update)
  have fuel: "18 + (64 - 1) < n" using n by simp
  from ac_loop_complete [OF tree(3,4) B(2) upto fuel _ _ B(4) r1(2) [unfolded ac_bits_items]] obtain eob bpos' r' where
    R: "ac_loop n actree 1 ((replicate 64 0)[0 := block ! 0]) r1 = Some (Ok ((eob, False, bpos', block), r'))" "rd p xs tail k 0 r' bs'"
    "eob \<le> 64" "\<forall>i. eob \<le> i \<and> i < 64 \<longrightarrow> block ! i = 0" "eob \<le> 1 \<or> block ! (eob - 1) \<noteq> 0" by auto
  then show ?thesis using dc by (auto simp: decode_block_seq_def)
qed

end
