(* ===== verification/Sample_Tables.thy ===== *)
theory Sample_Tables
  imports Block_Decode
begin

definition sample_segment :: bytes where
  "sample_segment = [0, 3, 1, 0, 0, 0, 0, 0, 0, 0, 0, 0, 0, 0, 0, 0, 0x00, 0x01, 0x02, 0xF0]"

definition sample_codes :: HuffCodes where
  "sample_codes = post_initialize (HuffCodes_default
     \<lparr>c_len := (replicate 256 0)[0 := 2, 1 := 2, 2 := 2, 0xF0 := 3], c_val := (replicate 256 0)[0 := 0, 1 := 1, 2 := 2, 0xF0 := 6]\<rparr>)"

lemma length_loop_none:
  "\<forall>i \<in> set is. i < length segment \<and> i < 256 \<and> segment ! i = 0 \<Longrightarrow> length_loop is segment k code hc = Ok hc"
proof (induction "is" arbitrary: code)
  case (Cons i "is")
  have "i AND 0xFF = i" if "i < 256" using that take_bit_eq_mask [of 8 i] by (simp add: mask_eq_exp_minus_1 take_bit_nat_eq_self)
  with Cons show ?case by (simp add: ensure_segment_space_def idx_def)
qed simp

lemma and_255: "i < 256 \<Longrightarrow> i AND 0xFF = (i :: nat)"
  using take_bit_eq_mask [of 8 i] by (simp add: mask_eq_exp_minus_1 take_bit_nat_eq_self)

lemma code_loop_step:
  assumes "k + 17 \<le> length segment" "k < 256" "i < 16" "unat code < 2 ^ (1 + i)" "code \<noteq> 65535"
  shows "code_loop (Suc n) segment i k code hc = code_loop n segment i (k + 1) (code + 1)
    (hc\<lparr>c_len := (c_len hc)[unat (segment ! (16 + k)) := of_nat (1 + i)], c_val := (c_val hc)[unat (segment ! (16 + k)) := code]\<rparr>)"
proof -
  have "unat (of_nat (1 + i) :: u16) = 1 + i" unfolding unat_of_nat using assms(3) by simp
  moreover have "unat (push_bit (1 + i) 1 :: u32) = 2 ^ (1 + i)"
    using assms(3) power_strict_increasing [of "1 + i" 32 "2 :: nat"] unat_push_bit_small [of "1 :: u32" "1 + i"] by simp
  moreover have "unat (ucast code :: u32) = unat code" using unat_lt2p [of code] by (simp add: unat_ucast)
  ultimately have "\<not> push_bit (unat (of_nat (1 + i) :: u16) mod 32) 1 \<le> (ucast code :: u32)"
    using assms(3,4) unfolding word_le_nat_alt by simp
  then show ?thesis using assms(1,2,5)
    by (simp add: ensure_segment_space_def idx_def and_255 Let_def)
qed

lemma length_loop_step:
  assumes "i < length segment" "i < 256"
  shows "length_loop (i # is) segment k code hc =
    bindR (code_loop (unat (segment ! i)) segment i k code hc) (\<lambda>(k, code, hc). length_loop is segment k (push_bit 1 code) hc)"
  using assms by (simp add: ensure_segment_space_def idx_def and_255)

lemma length_loop_sample:
  "length_loop [0..<16] sample_segment 0 0 hc =
    Ok (hc\<lparr>c_len := (c_len hc)[0 := 2, 1 := 2, 2 := 2, 0xF0 := 3], c_val := (c_val hc)[0 := 0, 1 := 1, 2 := 2, 0xF0 := 6]\<rparr>)"
proof -
  define ls where "ls = [3..<16 :: nat]"
  have u: "[0..<16] = 0 # 1 # 2 # ls" by (simp add: upt_conv_Cons ls_def)
  have rest: "length_loop ls sample_segment k code hc = Ok hc" for k code hc
    unfolding ls_def by (rule length_loop_none) (auto simp: sample_segment_def nth_Cons' simp del: upt_rec_numeral)
  have len: "length sample_segment = 20" by (simp add: sample_segment_def)
  have s: "unat (sample_segment ! 0) = 0" "unat (sample_segment ! Suc 0) = Suc (Suc (Suc 0))" "unat (sample_segment ! 2) = Suc 0" "sample_segment ! 16 = 0"
    "sample_segment ! 17 = 1" "sample_segment ! 18 = 2" "sample_segment ! 19 = 0xF0" by (simp_all add: sample_segment_def)
  have "push_bit 1 3 = (6 :: u16)" by (simp add: push_bit_eq_mult)
  note step = this code_loop_step length_loop_step
  show ?thesis
    unfolding u by (simp add: step len s rest del: code_loop.simps(2) length_loop.simps)
qed
lemma construct_sample_codes: "construct_from_segment sample_segment = Ok sample_codes"
  unfolding construct_from_segment_def length_loop_sample sample_codes_def HuffCodes_default_def by simp

lemma insert_codes_filter:
  "insert_codes a hc is t = insert_codes a hc (filter (\<lambda>i. c_len hc ! i \<noteq> 0) is) t"
proof (induction "is" arbitrary: t)
  case (Cons i "is")
  have "insert_code a hc i t = Ok t" if "c_len hc ! i = 0" using that by (cases t) (simp add: insert_code_def)
  moreover have "insert_codes a hc is = insert_codes a hc (filter (\<lambda>i. c_len hc ! i \<noteq> 0) is)" using Cons by blast
  ultimately show ?case by simp
qed simp

lemma sample_symbols: "filter (\<lambda>i. c_len sample_codes ! i \<noteq> 0) [0..<256] = [0, 1, 2, 0xF0]"
proof -
  have "[0..<256] = [0, 1, 2] @ [3..<0xF0] @ [0xF0] @ [0xF1..<256 :: nat]" by (simp add: upt_conv_Cons flip: upt_add_eq_append)
  moreover have "filter (\<lambda>i. c_len sample_codes ! i \<noteq> 0) [3..<0xF0] = []" "filter (\<lambda>i. c_len sample_codes ! i \<noteq> 0) [0xF1..<256] = []"
    by (auto simp: filter_empty_conv sample_codes_def post_initialize_def nth_list_update)
  ultimately show ?thesis by (simp add: sample_codes_def post_initialize_def)
qed

lemma construct_sample_tree: "\<exists>t. construct_hufftree sample_codes False = Ok t"
proof -
  have 2: "insert_path a c 2 = insert_path a c (Suc (Suc 0))" for a c by (simp add: numeral_2_eq_2)
  have "\<exists>t. insert_codes False sample_codes [0, 1, 2, 0xF0] (replicate 256 (0, 0), 1) = Ok t"
    by (simp add: insert_code_def sample_codes_def post_initialize_def child_def set_child_def bitn_def 2)
  then show ?thesis
    by (auto simp: construct_hufftree_def insert_codes_filter [of _ _ "[0..<256]"] sample_symbols Let_def simp del: upt_Suc)
qed

end
