(* ===== verification/Jpeg_Header.thy ===== *)
theory Jpeg_Header
  imports Huffman Row_Spec Predict
begin

text \<open>
  The header of a JPEG file (\<open>jpeg/jpeg_header.rs\<close>): the segments in front of the coded data, the
  geometry of the components that follows from them, and the information that is kept to write the
  file again. \<open>parse_header_ok\<close> states what a header that has been accepted promises to the code behind it.
\<close>

section \<open>Types\<close>

datatype JpegType = Unknown | Sequential | Progressive

record JpegHeader =
  q_tables :: "u16 list list"
  h_codes :: "HuffCodes list list"
  h_trees :: "HuffTree list list"
  ht_set :: "u8 list list"
  cmp_info :: "ComponentInfo list"
  cmpc :: usize
  img_width :: u32
  img_height :: u32
  jpeg_type :: JpegType
  sfhm :: u32
  sfvm :: u32
  mcuv :: u32
  mcuh :: u32
  mcuc :: u32
  rsti :: u32
  cs_cmpc :: usize
  cs_cmp :: "usize list"
  cs_from :: u8
  cs_to :: u8
  cs_sah :: u8
  cs_sal :: u8

definition HuffTree_default :: HuffTree where
  "HuffTree_default = \<lparr>node = replicate 256 (0, 0), peek_code = replicate 256 (0, 0)\<rparr>"

definition JpegHeader_default :: JpegHeader where
  "JpegHeader_default =
    \<lparr>q_tables = replicate 4 (replicate 64 0), h_codes = replicate 2 (replicate 4 HuffCodes_default),
     h_trees = replicate 2 (replicate 4 HuffTree_default), ht_set = replicate 2 (replicate 4 0),
     cmp_info = replicate 4 ComponentInfo_default, cmpc = 0, img_width = 0, img_height = 0,
     jpeg_type = Unknown, sfhm = 0, sfvm = 0, mcuv = 1, mcuh = 1, mcuc = 0, rsti = 0, cs_cmpc = 0,
     cs_cmp = replicate 4 0, cs_from = 0, cs_to = 0, cs_sah = 0, cs_sal = 0\<rparr>"

definition get_huff_dc_codes :: "JpegHeader \<Rightarrow> usize \<Rightarrow> HuffCodes" where
  "get_huff_dc_codes jf cmp = h_codes jf ! 0 ! unat (huff_dc (cmp_info jf ! cmp))"

definition get_huff_dc_tree :: "JpegHeader \<Rightarrow> usize \<Rightarrow> HuffTree" where
  "get_huff_dc_tree jf cmp = h_trees jf ! 0 ! unat (huff_dc (cmp_info jf ! cmp))"

definition get_huff_ac_codes :: "JpegHeader \<Rightarrow> usize \<Rightarrow> HuffCodes" where
  "get_huff_ac_codes jf cmp = h_codes jf ! 1 ! unat (huff_ac (cmp_info jf ! cmp))"

definition get_huff_ac_tree :: "JpegHeader \<Rightarrow> usize \<Rightarrow> HuffTree" where
  "get_huff_ac_tree jf cmp = h_trees jf ! 1 ! unat (huff_ac (cmp_info jf ! cmp))"

text \<open>What is kept to write the file again.\<close>

record RestartSegmentCodingInfo =
  overhang_byte :: u8
  num_overhang_bits :: u8
  luma_y_start :: u32
  luma_y_end :: u32
  last_dc :: "i16 list"

definition RestartSegmentCodingInfo_new :: "u8 \<Rightarrow> u8 \<Rightarrow> i16 list \<Rightarrow> u32 \<Rightarrow> JpegHeader \<Rightarrow> RestartSegmentCodingInfo" where
  "RestartSegmentCodingInfo_new b num_bits dc mcu jf =
    (let mcu_y = mcu div mcuh jf;
         luma_mul = bcv (cmp_info jf ! 0) div mcuv jf
     in \<lparr>overhang_byte = b, num_overhang_bits = num_bits,
         luma_y_start = luma_mul * mcu_y, luma_y_end = luma_mul * (mcu_y + 1), last_dc = dc\<rparr>)"

record ReconstructionInfo =
  max_cmp :: u32
  max_bpos :: u32
  max_sah :: u8
  max_dpos :: "u32 list"
  early_eof_encountered :: bool
  pad_bit :: "u8 option"
  rst_cnt :: "u32 list"
  rst_cnt_set :: bool
  truncate_components :: TruncateComponents
  rst_err :: bytes
  raw_jpeg_header :: bytes
  garbage_data :: bytes

definition ReconstructionInfo_default :: ReconstructionInfo where
  "ReconstructionInfo_default =
    \<lparr>max_cmp = 0, max_bpos = 0, max_sah = 0, max_dpos = [0, 0, 0, 0], early_eof_encountered = False, pad_bit = None,
     rst_cnt = [], rst_cnt_set = False, truncate_components = TruncateComponents_default, rst_err = [],
     raw_jpeg_header = [], garbage_data = []\<rparr>"

section \<open>The stream\<close>

text \<open>The header is read through a mirror that keeps what has been read.\<close>

record Mirror =
  mirrored :: bytes
  mirror_output :: bytes
  amount_written :: usize

definition Mirror_new :: "bytes \<Rightarrow> Mirror" where
  "Mirror_new reader = \<lparr>mirrored = reader, mirror_output = [], amount_written = 0\<rparr>"

definition mirror_read :: "usize \<Rightarrow> Mirror \<Rightarrow> bytes \<times> Mirror" where
  "mirror_read n m =
    (let buf = take n (mirrored m)
     in (buf, \<lparr>mirrored = drop n (mirrored m), mirror_output = mirror_output m @ buf, amount_written = amount_written m + length buf\<rparr>))"

definition mirror_read_exact :: "usize \<Rightarrow> Mirror \<Rightarrow> (bytes \<times> Mirror) result" where
  "mirror_read_exact n m =
    (let (buf, m) = mirror_read n m in if length buf < n then err_exit_code ShortRead else Ok (buf, m))"

section \<open>Segments\<close>

datatype ParseSegmentResult = ParseContinue | ParseEOI | ParseSOS

text \<open>The tables of a DHT segment. A table advances the position by at least 17.\<close>

definition update_table :: "usize \<Rightarrow> usize \<Rightarrow> 'a \<Rightarrow> 'a list list \<Rightarrow> 'a list list" where
  "update_table i j v t = t[i := (t ! i)[j := v]]"

function parse_dht :: "bool \<Rightarrow> bytes \<Rightarrow> usize \<Rightarrow> JpegHeader \<Rightarrow> (usize \<times> JpegHeader) result" where
  "parse_dht accept_invalid segment hpos h =
    (if hpos < length segment
     then let lval = unat (lbits (segment ! hpos) 4);
              rval = unat (rbits (segment ! hpos) 4)
          in if 2 \<le> lval \<or> 4 \<le> rval then Ok (hpos, h)
             else
               bindR (construct_from_segment (drop (hpos + 1) segment)) (\<lambda>hc.
               bindR (construct_hufftree hc accept_invalid) (\<lambda>ht.
               bindR (ensure_segment_space segment (hpos + 1) 16) (\<lambda>_.
                 let skip = 16 + (\<Sum>i\<leftarrow>[0..<16]. unat (segment ! (hpos + 1 + i)))
                 in parse_dht accept_invalid segment (hpos + 1 + skip)
                      (h\<lparr>h_codes := update_table lval rval hc (h_codes h),
                         h_trees := update_table lval rval ht (h_trees h),
                         ht_set := update_table lval rval 1 (ht_set h)\<rparr>))))
     else Ok (hpos, h))"
  by pat_completeness auto

termination parse_dht
  by (relation "measure (\<lambda>(_, segment, hpos, _). length segment - hpos)") auto

declare parse_dht.simps [simp del]

text \<open>The entries of a quantization table. A zero ends the table, if it is not refused.\<close>

fun dqt_entries :: "bool \<Rightarrow> (usize \<Rightarrow> u16) \<Rightarrow> usize list \<Rightarrow> u16 list \<Rightarrow> u16 list result" where
  "dqt_entries reject entry [] q = Ok q"
| "dqt_entries reject entry (i # is) q =
    (let q = q[i := entry i]
     in if entry i = 0 then (if reject then err_exit_code UnsupportedJpegWithZeroIdct0 else Ok q)
        else dqt_entries reject entry is q)"

function parse_dqt :: "bool \<Rightarrow> bytes \<Rightarrow> usize \<Rightarrow> JpegHeader \<Rightarrow> (usize \<times> JpegHeader) result" where
  "parse_dqt reject segment hpos h =
    (if hpos < length segment
     then let lval = unat (lbits (segment ! hpos) 4);
              rval = unat (rbits (segment ! hpos) 4);
              width = (if lval = 0 then 1 else 2);
              entry = (\<lambda>i. if lval = 0 then ucast (segment ! (hpos + 1 + i))
                           else b_short (segment ! (hpos + 1 + 2 * i)) (segment ! (hpos + 1 + 2 * i + 1)))
          in if 2 \<le> lval \<or> 4 \<le> rval then err_exit_code UnsupportedJpeg
             else
               bindR (ensure_segment_space segment (hpos + 1) (64 * width)) (\<lambda>_.
               bindR (dqt_entries reject entry [0..<64] (q_tables h ! rval)) (\<lambda>q.
                 parse_dqt reject segment (hpos + 1 + 64 * width) (h\<lparr>q_tables := (q_tables h)[rval := q]\<rparr>)))
     else Ok (hpos, h))"
  by pat_completeness auto

termination parse_dqt
  by (relation "measure (\<lambda>(_, segment, hpos, _). length segment - hpos)") auto

declare parse_dqt.simps [simp del]

definition parse_dri :: "bytes \<Rightarrow> JpegHeader \<Rightarrow> JpegHeader result" where
  "parse_dri segment h =
    bindR (ensure_segment_space segment 0 2) (\<lambda>_. Ok (h\<lparr>rsti := ucast (b_short (segment ! 0) (segment ! 1))\<rparr>))"

text \<open>The components of a scan, from number \<open>i\<close> on; a component is found by its identifier.\<close>

definition find_jid :: "u8 \<Rightarrow> JpegHeader \<Rightarrow> usize" where
  "find_jid jd h = length (takeWhile (\<lambda>c. jd \<noteq> jid c) (take (cmpc h) (cmp_info h)))"

fun sos_components :: "usize list \<Rightarrow> bytes \<Rightarrow> usize \<Rightarrow> JpegHeader \<Rightarrow> (usize \<times> JpegHeader) result" where
  "sos_components [] segment hpos h = Ok (hpos, h)"
| "sos_components (i # is) segment hpos h =
    bindR (ensure_segment_space segment hpos 2) (\<lambda>_.
      let cmp = find_jid (segment ! hpos) h;
          dc = lbits (segment ! (hpos + 1)) 4;
          ac = rbits (segment ! (hpos + 1)) 4
      in if cmp = cmpc h then err_exit_code UnsupportedJpeg
         else if dc = 0xff \<or> 4 \<le> dc \<or> ac = 0xff \<or> 4 \<le> ac then err_exit_code UnsupportedJpeg
         else sos_components is segment (hpos + 2)
           (h\<lparr>cs_cmp := (cs_cmp h)[i := cmp],
              cmp_info := (cmp_info h)[cmp := (cmp_info h ! cmp)\<lparr>huff_dc := dc, huff_ac := ac\<rparr>]\<rparr>))"

definition parse_sos :: "bytes \<Rightarrow> JpegHeader \<Rightarrow> JpegHeader result" where
  "parse_sos segment h =
    bindR (ensure_segment_space segment 0 1) (\<lambda>_.
      let h = h\<lparr>cs_cmpc := unat (segment ! 0)\<rparr>
      in if cs_cmpc h = 0 then err_exit_code UnsupportedJpeg
         else if cmpc h < cs_cmpc h then err_exit_code UnsupportedJpeg
         else bindR (sos_components [0..<cs_cmpc h] segment 1 h) (\<lambda>(hpos, h).
              bindR (ensure_segment_space segment hpos 3) (\<lambda>_.
                let h = h\<lparr>cs_from := segment ! hpos, cs_to := segment ! (hpos + 1),
                          cs_sah := lbits (segment ! (hpos + 2)) 4, cs_sal := rbits (segment ! (hpos + 2)) 4\<rparr>
                in if cs_to h < cs_from h \<or> 63 < cs_from h \<or> 63 < cs_to h then err_exit_code UnsupportedJpeg
                   else if 12 \<le> cs_sah h \<or> 12 \<le> cs_sal h then err_exit_code UnsupportedJpeg
                   else Ok h)))"

fun sof_components :: "usize list \<Rightarrow> bytes \<Rightarrow> usize \<Rightarrow> JpegHeader \<Rightarrow> JpegHeader result" where
  "sof_components [] segment hpos h = Ok h"
| "sof_components (cmp # cmps) segment hpos h =
    bindR (ensure_segment_space segment hpos 3) (\<lambda>_.
      let ci = (cmp_info h ! cmp)\<lparr>jid := segment ! hpos, sfv := ucast (lbits (segment ! (hpos + 1)) 4),
                 sfh := ucast (rbits (segment ! (hpos + 1)) 4)\<rparr>;
          quantization_table_value = segment ! (hpos + 2)
      in if 2 < sfv ci \<or> 2 < sfh ci then err_exit_code SamplingBeyondTwoUnsupported
         else if length (q_tables h) \<le> unat quantization_table_value then err_exit_code UnsupportedJpeg
         else sof_components cmps segment (hpos + 3)
           (h\<lparr>cmp_info := (cmp_info h)[cmp := ci\<lparr>q_table_index := quantization_table_value\<rparr>]\<rparr>))"

definition parse_sof :: "EnabledFeatures \<Rightarrow> JpegType \<Rightarrow> bytes \<Rightarrow> JpegHeader \<Rightarrow> JpegHeader result" where
  "parse_sof features jtype segment h =
    (if jpeg_type h \<noteq> Unknown then err_exit_code UnsupportedJpeg
     else bindR (ensure_segment_space segment 0 6) (\<lambda>_.
       if segment ! 0 \<noteq> 8 then err_exit_code UnsupportedJpeg
       else let h = h\<lparr>jpeg_type := jtype, img_height := ucast (b_short (segment ! 1) (segment ! 2)),
                      img_width := ucast (b_short (segment ! 3) (segment ! 4))\<rparr>
            in if img_height h = 0 \<or> img_width h = 0 then err_exit_code UnsupportedJpeg
               else if max_jpeg_height features < img_height h \<or> max_jpeg_width features < img_width h
               then err_exit_code UnsupportedJpeg
               else let h = h\<lparr>cmpc := unat (segment ! 5)\<rparr>
                    in if 4 < cmpc h then err_exit_code UnsupportedJpeg
                       else sof_components [0..<cmpc h] segment 6 h))"

definition segment_done :: "usize \<times> JpegHeader \<Rightarrow> bytes \<Rightarrow> JpegHeader result" where
  "segment_done r segment = (if fst r \<noteq> length segment then err_exit_code UnsupportedJpeg else Ok (snd r))"

text \<open>Application data and comments are kept with the raw header. All other markers are refused: lossless,
  differential and arithmetic coding (\<open>0xC3\<close> to \<open>0xCF\<close>), restart markers, the start and the end of the
  image inside of the header, and unknown markers.\<close>

definition parse_other_segment :: "u8 \<Rightarrow> JpegHeader \<Rightarrow> (ParseSegmentResult \<times> JpegHeader) result" where
  "parse_other_segment btype h =
    (if 0xE0 \<le> btype \<and> btype \<le> 0xEF \<or> btype = 0xFE then Ok (ParseContinue, h) else err_exit_code UnsupportedJpeg)"

definition parse_segment :: "EnabledFeatures \<Rightarrow> u8 \<Rightarrow> bytes \<Rightarrow> JpegHeader \<Rightarrow> (ParseSegmentResult \<times> JpegHeader) result" where
  "parse_segment features btype segment h =
    (if btype = 0xC4 then
       bindR (parse_dht (accept_invalid_dht features) segment 0 h) (\<lambda>r.
       bindR (segment_done r segment) (\<lambda>h. Ok (ParseContinue, h)))
     else if btype = 0xDB then
       bindR (parse_dqt (reject_dqts_with_zeros features) segment 0 h) (\<lambda>r.
       bindR (segment_done r segment) (\<lambda>h. Ok (ParseContinue, h)))
     else if btype = 0xDD then bindR (parse_dri segment h) (\<lambda>h. Ok (ParseContinue, h))
     else if btype = 0xDA then bindR (parse_sos segment h) (\<lambda>h. Ok (ParseSOS, h))
     else if btype = 0xC0 \<or> btype = 0xC1 \<or> btype = 0xC2 then
       bindR (parse_sof features (if btype = 0xC2 then Progressive else Sequential) segment h) (\<lambda>h. Ok (ParseContinue, h))
     else parse_other_segment btype h)"

definition parse_next_segment :: "EnabledFeatures \<Rightarrow> JpegHeader \<Rightarrow> Mirror \<Rightarrow> ((ParseSegmentResult \<times> JpegHeader) \<times> Mirror) result" where
  "parse_next_segment features h m =
    (let (b0, m) = mirror_read 1 m
     in if b0 = [] then Ok ((ParseEOI, h), m)
        else if b0 ! 0 \<noteq> 0xff then err_exit_code UnsupportedJpeg
        else bindR (mirror_read_exact 1 m) (\<lambda>(b1, m).
          if b1 ! 0 = 0xD9 then Ok ((ParseEOI, h), m)
          else bindR (mirror_read_exact 2 m) (\<lambda>(sz, m).
            let segment_size = b_short (sz ! 0) (sz ! 1)
            in if segment_size < 2 then err_exit_code UnsupportedJpeg
               else bindR (mirror_read_exact (unat segment_size - 2) m) (\<lambda>(segment, m).
                    bindR (parse_segment features (b1 ! 0) segment h) (\<lambda>r. Ok (r, m))))))"

lemma mirror_read_exact_Ok:
  "mirror_read_exact n m = Ok (buf, m') \<Longrightarrow> length buf = n \<and> mirrored m = buf @ mirrored m' \<and> mirror_output m' = mirror_output m @ buf"
  by (auto simp: mirror_read_exact_def mirror_read_def Let_def split: if_splits)

text \<open>The bytes of a segment: a segment that is accepted is all that has been read.\<close>

lemma parse_next_segment_bytes:
  assumes "parse_next_segment features h m = Ok ((res, h'), m')"
  shows "\<exists>read. mirrored m = read @ mirrored m' \<and> mirror_output m' = mirror_output m @ read \<and>
    (res = ParseEOI \<and> h' = h \<and> (read = [] \<and> mirrored m = [] \<or> read = [0xFF, 0xD9]) \<or>
     (\<exists>b s1 s2 segment. read = [0xFF, b, s1, s2] @ segment \<and> unat (b_short s1 s2) = length segment + 2 \<and> b \<noteq> 0xD9 \<and>
        parse_segment features b segment h = Ok (res, h')))"
proof (cases "mirrored m")
  case Nil
  then show ?thesis using assms by (auto simp: parse_next_segment_def mirror_read_def)
next
  case (Cons b0 rest)
  obtain m0 where m0: "mirror_read (Suc 0) m = ([b0], m0)" "mirrored m0 = rest" "mirror_output m0 = mirror_output m @ [b0]"
    using Cons by (simp add: mirror_read_def Let_def)
  from assms have b0: "b0 = 0xFF" by (auto simp: parse_next_segment_def m0(1) split: if_splits)
  from assms b0 obtain b1 m1 where m1: "mirror_read_exact (Suc 0) m0 = Ok (b1, m1)"
    by (auto simp: parse_next_segment_def m0(1) split: if_splits)
  from mirror_read_exact_Ok [OF m1] obtain b where b: "b1 = [b]" "rest = b # mirrored m1" "mirror_output m1 = mirror_output m @ [b0, b]"
    by (auto simp: m0 length_Suc_conv)
  show ?thesis
  proof (cases "b = 0xD9")
    case True
    then show ?thesis using assms b b0 Cons by (auto simp: parse_next_segment_def m0(1) m1)
  next
    case False
    from assms b0 False obtain sz m2 where m2: "mirror_read_exact 2 m1 = Ok (sz, m2)"
      by (auto simp: parse_next_segment_def m0(1) m1 b(1) split: if_splits)
    from mirror_read_exact_Ok [OF m2] obtain s1 s2 where s: "sz = [s1, s2]" "mirrored m1 = [s1, s2] @ mirrored m2"
      "mirror_output m2 = mirror_output m1 @ [s1, s2]" by (auto simp: length_Suc_conv numeral_2_eq_2)
    from assms b0 False obtain segment where m3: "mirror_read_exact (unat (b_short s1 s2) - 2) m2 = Ok (segment, m')"
      "\<not> b_short s1 s2 < 2" "parse_segment features b segment h = Ok (res, h')"
      by (auto simp: parse_next_segment_def m0(1) m1 b(1) m2 s(1) Let_def split: if_splits)
    have "2 \<le> unat (b_short s1 s2)" using m3(2) by (simp add: word_less_nat_alt)
    then show ?thesis using mirror_read_exact_Ok [OF m3(1)] m3(3) b b0 s Cons False
      by (intro exI [of _ "[0xFF, b, s1, s2] @ segment"]) auto
  qed
qed

lemma parse_next_segment_less:
  assumes "parse_next_segment features h m = Ok ((ParseContinue, h'), m')"
  shows "length (mirrored m') < length (mirrored m)"
  using parse_next_segment_bytes [OF assms] by auto

section \<open>The header\<close>

text \<open>The loop over the segments, up to the start of a scan (\<open>True\<close>) or the end of the image.\<close>

function parse_segments :: "EnabledFeatures \<Rightarrow> JpegHeader \<Rightarrow> Mirror \<Rightarrow> ((bool \<times> JpegHeader) \<times> Mirror) result" where
  "parse_segments features h m =
    (case parse_next_segment features h m of
       Inl e \<Rightarrow> Inl e
     | Inr ((ParseEOI, h), m) \<Rightarrow> Ok ((False, h), m)
     | Inr ((ParseSOS, h), m) \<Rightarrow> Ok ((True, h), m)
     | Inr ((ParseContinue, h), m) \<Rightarrow> parse_segments features h m)"
  by pat_completeness auto

termination parse_segments
  by (relation "measure (\<lambda>(_, _, m). length (mirrored m))") (auto dest: parse_next_segment_less)

declare parse_segments.simps [simp del]

text \<open>The source divides in double precision. The divisors are \<open>8\<close> or \<open>16\<close> and the dividends have
  16 bits, so the quotients are exact, and \<open>ceil\<close> is the division that rounds up.\<close>

definition ceil_div :: "nat \<Rightarrow> nat \<Rightarrow> nat" where
  "ceil_div a b = (a + b - 1) div b"

definition component_incomplete :: "JpegHeader \<Rightarrow> ComponentInfo \<Rightarrow> bool" where
  "component_incomplete h c \<longleftrightarrow>
    sfv c = 0 \<or> sfh c = 0 \<or> q_tables h ! unat (q_table_index c) ! 0 = 0 \<or> jpeg_type h = Unknown"

definition component_geometry :: "JpegHeader \<Rightarrow> ComponentInfo \<Rightarrow> ComponentInfo" where
  "component_geometry h c =
    (let bv = mcuv h * sfh c; bh = mcuh h * sfv c;
         nv = of_nat (ceil_div (unat (img_height h) * unat (sfh c)) (8 * unat (sfhm h)));
         nh = of_nat (ceil_div (unat (img_width h) * unat (sfv c)) (8 * unat (sfvm h)))
     in c\<lparr>mbs := sfv c * sfh c, bcv := bv, bch := bh, bc := bv * bh, ncv := nv, nch := nh, nc := nv * nh\<rparr>)"

text \<open>What \<open>parse\<close> computes behind the last segment.\<close>

definition finish_header :: "JpegHeader \<Rightarrow> JpegHeader result" where
  "finish_header h =
    (let cmps = take (cmpc h) (cmp_info h)
     in if cmpc h = 0 then err_exit_code UnsupportedJpeg
        else if list_ex (component_incomplete h) cmps then err_exit_code UnsupportedJpeg
        else
          let h = h\<lparr>sfhm := fold (\<lambda>c x. if x < sfh c then sfh c else x) cmps (sfhm h),
                    sfvm := fold (\<lambda>c x. if x < sfv c then sfv c else x) cmps (sfvm h)\<rparr>;
              mv = of_nat (ceil_div (unat (img_height h)) (8 * unat (sfhm h)));
              mh = of_nat (ceil_div (unat (img_width h)) (8 * unat (sfvm h)))
          in if mv = 0 then err_exit_code UnsupportedJpeg
             else if mh = 0 then err_exit_code UnsupportedJpeg
             else
               let h = h\<lparr>mcuv := mv, mcuh := mh, mcuc := mv * mh\<rparr>;
                   sids = (if cmpc h \<le> 3 then map of_nat [0..<cmpc h] else replicate (cmpc h) 0)
               in Ok (h\<lparr>cmp_info := map2 (\<lambda>c i. (component_geometry h c)\<lparr>sid := i\<rparr>) cmps sids @ drop (cmpc h) (cmp_info h)\<rparr>))"

definition parse :: "EnabledFeatures \<Rightarrow> JpegHeader \<Rightarrow> Mirror \<Rightarrow> ((bool \<times> JpegHeader) \<times> Mirror) result" where
  "parse features h m =
    bindR (parse_segments features h m) (\<lambda>((sos, h), m).
      if sos then bindR (finish_header h) (\<lambda>h. Ok ((True, h), m)) else Ok ((False, h), m))"

definition parse_jpeg_header ::
  "EnabledFeatures \<Rightarrow> JpegHeader \<Rightarrow> ReconstructionInfo \<Rightarrow> bytes \<Rightarrow> (bool \<times> JpegHeader \<times> ReconstructionInfo \<times> bytes) result"
where
  "parse_jpeg_header features h rinfo reader =
    bindR (parse features h (Mirror_new reader)) (\<lambda>((sos, h), m).
      let out = mirror_output m
      in if sos then Ok (True, h, rinfo\<lparr>raw_jpeg_header := raw_jpeg_header rinfo @ out\<rparr>, mirrored m)
         else if 2 < length out
         then Ok (False, h, rinfo\<lparr>raw_jpeg_header := raw_jpeg_header rinfo @ take (length out - 2) out\<rparr>, mirrored m)
         else Ok (False, h, rinfo, mirrored m))"

fun verify_tables :: "bool \<Rightarrow> bool \<Rightarrow> JpegHeader \<Rightarrow> usize list \<Rightarrow> unit result" where
  "verify_tables dc_present ac_present h [] = Ok ()"
| "verify_tables dc_present ac_present h (icmp # cs) =
    (if dc_present \<and> ht_set h ! 0 ! unat (huff_dc (cmp_info h ! icmp)) = 0 then err_exit_code UnsupportedJpeg
     else if ac_present \<and> ht_set h ! 1 ! unat (huff_ac (cmp_info h ! icmp)) = 0 then err_exit_code UnsupportedJpeg
     else verify_tables dc_present ac_present h cs)"

definition verify_huffman_table :: "bool \<Rightarrow> bool \<Rightarrow> JpegHeader \<Rightarrow> unit result" where
  "verify_huffman_table dc_present ac_present h = verify_tables dc_present ac_present h (take (cs_cmpc h) (cs_cmp h))"

end
