(* ===== verification/Header_Inv.thy ===== *)
theory Header_Inv
  imports Jpeg_Header
begin

text \<open>
  What the rest of the program may rely on after \<open>parse\<close> has accepted a header: the tables have their
  dimensions and belong together, the components of the scan exist, and the counts of blocks
  are those of the image size and the sampling factors, without overflow.
\<close>

section \<open>The invariant of the segments\<close>

definition header_shape :: "JpegHeader \<Rightarrow> bool" where
  "header_shape h \<longleftrightarrow> length (q_tables h) = 4 \<and> length (cmp_info h) = 4 \<and> length (cs_cmp h) = 4
    \<and> length (h_codes h) = 2 \<and> length (h_trees h) = 2 \<and> length (ht_set h) = 2
    \<and> (\<forall>i < 2. length (h_codes h ! i) = 4 \<and> length (h_trees h ! i) = 4 \<and> length (ht_set h ! i) = 4)"

text \<open>A table that is set has valid codes, and its tree is that of the codes.\<close>

definition tables_belong :: "bool \<Rightarrow> JpegHeader \<Rightarrow> bool" where
  "tables_belong accept_invalid h \<longleftrightarrow> (\<forall>i < 2. \<forall>j < 4. ht_set h ! i ! j \<noteq> 0 \<longrightarrow>
    codes_ok (h_codes h ! i ! j) \<and> construct_hufftree (h_codes h ! i ! j) accept_invalid = Ok (h_trees h ! i ! j))"

definition frame_ok :: "JpegHeader \<Rightarrow> bool" where
  "frame_ok h \<longleftrightarrow> cmpc h \<le> 4 \<and> (jpeg_type h = Unknown \<longrightarrow> cmpc h = 0)
    \<and> (0 < cmpc h \<longrightarrow> 0 < unat (img_height h) \<and> unat (img_height h) < 2 ^ 16 \<and> 0 < unat (img_width h) \<and> unat (img_width h) < 2 ^ 16)
    \<and> sfhm h \<le> 2 \<and> sfvm h \<le> 2
    \<and> (\<forall>c < cmpc h. sfv (cmp_info h ! c) \<le> 2 \<and> sfh (cmp_info h ! c) \<le> 2 \<and> q_table_index (cmp_info h ! c) < 4)"

definition header_inv :: "bool \<Rightarrow> JpegHeader \<Rightarrow> bool" where
  "header_inv accept_invalid h \<longleftrightarrow> header_shape h \<and> tables_belong accept_invalid h \<and> frame_ok h"

lemma header_inv_default: "header_inv a JpegHeader_default"
  by (simp add: header_inv_def header_shape_def tables_belong_def frame_ok_def JpegHeader_default_def)

lemma length_update_table [simp]: "length (update_table i j v t) = length t"
  by (simp add: update_table_def)

lemma nth_update_table: "i < length t \<Longrightarrow> update_table i j v t ! k = (if k = i then (t ! i)[j := v] else t ! k)"
  by (auto simp: update_table_def)

lemma parse_dht_inv:
  "parse_dht a segment hpos h = Ok (hpos', h') \<Longrightarrow> header_inv a h \<Longrightarrow> header_inv a h'"
proof (induction a segment hpos h rule: parse_dht.induct)
  case (1 a segment hpos h)
  let ?l = "unat (lbits (segment ! hpos) 4)" and ?r = "unat (rbits (segment ! hpos) 4)"
  show ?case
  proof (cases "hpos < length segment \<and> \<not> (2 \<le> ?l \<or> 4 \<le> ?r)")
    case False
    then show ?thesis using "1.prems" by (subst (asm) parse_dht.simps) (auto simp: Let_def split: if_splits)
  next
    case True
    let ?skip = "16 + (\<Sum>i\<leftarrow>[0..<16]. unat (segment ! (hpos + 1 + i)))"
    from True "1.prems"(1) obtain hc ht where c: "construct_from_segment (drop (hpos + 1) segment) = Ok hc"
      "construct_hufftree hc a = Ok ht" "ensure_segment_space segment (hpos + 1) 16 = Ok ()"
      and next': "parse_dht a segment (hpos + 1 + ?skip)
          (h\<lparr>h_codes := update_table ?l ?r hc (h_codes h), h_trees := update_table ?l ?r ht (h_trees h),
             ht_set := update_table ?l ?r 1 (ht_set h)\<rparr>) = Ok (hpos', h')"
      by (subst (asm) parse_dht.simps) (auto simp: Let_def)
    have "header_inv a (h\<lparr>h_codes := update_table ?l ?r hc (h_codes h), h_trees := update_table ?l ?r ht (h_trees h),
             ht_set := update_table ?l ?r 1 (ht_set h)\<rparr>)"
      using "1.prems"(2) True c(2) construct_codes_ok [OF c(1)]
      by (auto simp: header_inv_def header_shape_def tables_belong_def frame_ok_def nth_update_table nth_list_update)
    from "1.IH" [OF _ refl refl _ c(1,2,3) refl next' this] True show ?thesis by simp
  qed
qed

lemma parse_dqt_inv:
  "parse_dqt reject segment hpos h = Ok (hpos', h') \<Longrightarrow> header_inv a h \<Longrightarrow> header_inv a h'"
proof (induction reject segment hpos h rule: parse_dqt.induct)
  case (1 reject segment hpos h)
  let ?l = "unat (lbits (segment ! hpos) 4)" and ?r = "unat (rbits (segment ! hpos) 4)"
  let ?w = "if ?l = 0 then 1 else 2"
  let ?entry = "\<lambda>i. if ?l = 0 then ucast (segment ! (hpos + 1 + i))
                     else b_short (segment ! (hpos + 1 + 2 * i)) (segment ! (hpos + 1 + 2 * i + 1))"
  show ?case
  proof (cases "hpos < length segment \<and> \<not> (2 \<le> ?l \<or> 4 \<le> ?r)")
    case False
    then show ?thesis using "1.prems" by (subst (asm) parse_dqt.simps) (auto simp: Let_def split: if_splits)
  next
    case True
    from True "1.prems"(1) obtain q where c: "ensure_segment_space segment (hpos + 1) (64 * ?w) = Ok ()"
      "dqt_entries reject ?entry [0..<64] (q_tables h ! ?r) = Ok q"
      and nxt: "parse_dqt reject segment (hpos + 1 + 64 * ?w) (h\<lparr>q_tables := (q_tables h)[?r := q]\<rparr>) = Ok (hpos', h')"
      by (subst (asm) parse_dqt.simps) (auto simp: Let_def simp del: upt_Suc upt_rec_numeral)
    have "header_inv a (h\<lparr>q_tables := (q_tables h)[?r := q]\<rparr>)"
      using "1.prems"(2) by (auto simp: header_inv_def header_shape_def tables_belong_def frame_ok_def)
    from "1.IH" [OF _ refl refl refl refl _ c nxt this] True show ?thesis by simp
  qed
qed

lemma parse_dri_inv: "parse_dri segment h = Ok h' \<Longrightarrow> header_inv a h \<Longrightarrow> header_inv a h'"
  by (auto simp: parse_dri_def header_inv_def header_shape_def tables_belong_def frame_ok_def)

text \<open>The first \<open>n\<close> components of a scan exist and name Huffman tables.\<close>

definition scan_components_ok :: "usize \<Rightarrow> JpegHeader \<Rightarrow> bool" where
  "scan_components_ok n h \<longleftrightarrow> (\<forall>i < n. cs_cmp h ! i < cmpc h
    \<and> unat (huff_dc (cmp_info h ! (cs_cmp h ! i))) < 4 \<and> unat (huff_ac (cmp_info h ! (cs_cmp h ! i))) < 4)"

lemma find_jid_le: "cmpc h \<le> length (cmp_info h) \<Longrightarrow> find_jid j h \<le> cmpc h"
  unfolding find_jid_def by (rule order_trans [OF length_takeWhile_le]) simp

lemma sos_components_inv:
  "sos_components is segment hpos h = Ok (hpos', h') \<Longrightarrow> header_inv a h \<Longrightarrow> is = [n..<m] \<Longrightarrow> m \<le> 4 \<Longrightarrow> n \<le> m \<Longrightarrow>
    scan_components_ok n h \<Longrightarrow> header_inv a h' \<and> scan_components_ok m h' \<and> cs_cmpc h' = cs_cmpc h \<and> cmpc h' = cmpc h
      \<and> jpeg_type h' = jpeg_type h"
proof (induction "is" segment hpos h arbitrary: n rule: sos_components.induct)
  case (1 segment hpos h)
  then have "n = m" using upt_eq_Nil_conv [of n m] by auto
  with 1 show ?case by simp
next
  case (2 i "is" segment hpos h)
  have n: "i = n" "n < m" "is = [Suc n..<m]" using "2.prems"(3) upt_eq_Cons_conv [of n m i "is"] by auto
  let ?cmp = "find_jid (segment ! hpos) h"
  let ?dc = "lbits (segment ! (hpos + 1)) 4" and ?ac = "rbits (segment ! (hpos + 1)) 4"
  let ?h = "h\<lparr>cs_cmp := (cs_cmp h)[i := ?cmp], cmp_info := (cmp_info h)[?cmp := (cmp_info h ! ?cmp)\<lparr>huff_dc := ?dc, huff_ac := ?ac\<rparr>]\<rparr>"
  from "2.prems"(1) have c: "ensure_segment_space segment hpos 2 = Ok ()" "?cmp \<noteq> cmpc h" "\<not> (?dc = 0xff \<or> 4 \<le> ?dc \<or> ?ac = 0xff \<or> 4 \<le> ?ac)"
    and nxt: "sos_components is segment (hpos + 2) ?h = Ok (hpos', h')" by (auto simp: Let_def split: if_splits)
  have len: "length (cmp_info h) = 4" "length (cs_cmp h) = 4" "cmpc h \<le> 4"
    using "2.prems"(2) by (simp_all add: header_inv_def header_shape_def frame_ok_def)
  then have cmp: "?cmp < cmpc h" "?cmp < 4" using find_jid_le [of h "segment ! hpos"] c(2) by simp_all
  have "unat ?dc < 4" "unat ?ac < 4" using c(3) by (simp_all add: word_le_nat_alt not_le)
  then have "scan_components_ok (Suc n) ?h"
    using "2.prems"(4,6) n len cmp by (auto simp: scan_components_ok_def nth_list_update less_Suc_eq)
  moreover have "header_inv a ?h"
    using "2.prems"(2) cmp by (auto simp: header_inv_def header_shape_def tables_belong_def frame_ok_def nth_list_update)
  ultimately show ?case
    using "2.IH" [OF c(1) refl refl refl c(2,3) nxt _ n(3) "2.prems"(4)] n(2) by simp
qed

definition scan_ok :: "JpegHeader \<Rightarrow> bool" where
  "scan_ok h \<longleftrightarrow> 0 < cs_cmpc h \<and> cs_cmpc h \<le> cmpc h \<and> scan_components_ok (cs_cmpc h) h
    \<and> cs_from h \<le> cs_to h \<and> cs_to h \<le> 63 \<and> cs_sah h < 12 \<and> cs_sal h < 12"

lemma parse_sos_inv: "parse_sos segment h = Ok h' \<Longrightarrow> header_inv a h \<Longrightarrow> header_inv a h' \<and> scan_ok h'"
proof -
  assume ok: "parse_sos segment h = Ok h'" and inv: "header_inv a h"
  let ?h = "h\<lparr>cs_cmpc := unat (segment ! 0)\<rparr>"
  from ok obtain hpos h1 where c: "sos_components [0..<cs_cmpc ?h] segment 1 ?h = Ok (hpos, h1)"
    "0 < cs_cmpc ?h" "cs_cmpc ?h \<le> cmpc ?h"
    and h': "h' = h1\<lparr>cs_from := segment ! hpos, cs_to := segment ! (hpos + 1),
       cs_sah := lbits (segment ! (hpos + 2)) 4, cs_sal := rbits (segment ! (hpos + 2)) 4\<rparr>"
    "\<not> (cs_to h' < cs_from h' \<or> 63 < cs_from h' \<or> 63 < cs_to h')" "\<not> (12 \<le> cs_sah h' \<or> 12 \<le> cs_sal h')"
    by (auto simp: parse_sos_def Let_def split: if_splits)
  have inv': "header_inv a ?h" using inv by (auto simp: header_inv_def header_shape_def tables_belong_def frame_ok_def)
  then have "cmpc h \<le> 4" by (simp add: header_inv_def frame_ok_def)
  with c(3) have "cs_cmpc ?h \<le> 4" by simp
  from sos_components_inv [OF c(1) inv' refl this] have s: "header_inv a h1" "scan_components_ok (cs_cmpc ?h) h1"
    "cs_cmpc h1 = cs_cmpc ?h" "cmpc h1 = cmpc ?h" by (auto simp: scan_components_ok_def)
  have "header_inv a h'" using s(1) by (auto simp: h'(1) header_inv_def header_shape_def tables_belong_def frame_ok_def)
  moreover have "scan_ok h'"
    using s(2-4) c(2,3) h'(2,3) by (simp add: scan_ok_def scan_components_ok_def h'(1) not_less not_le)
  ultimately show ?thesis by simp
qed

text \<open>The first \<open>n\<close> components of a frame.\<close>

definition components_ok :: "usize \<Rightarrow> JpegHeader \<Rightarrow> bool" where
  "components_ok n h \<longleftrightarrow> (\<forall>c < n. sfv (cmp_info h ! c) \<le> 2 \<and> sfh (cmp_info h ! c) \<le> 2 \<and> q_table_index (cmp_info h ! c) < 4)"

lemma sof_components_inv:
  "sof_components cmps segment hpos h = Ok h' \<Longrightarrow> header_shape h \<Longrightarrow> tables_belong a h \<Longrightarrow> cmps = [n..<m] \<Longrightarrow> m \<le> 4 \<Longrightarrow> n \<le> m \<Longrightarrow>
    components_ok n h \<Longrightarrow> header_shape h' \<and> tables_belong a h' \<and> components_ok m h'
      \<and> h' = h\<lparr>cmp_info := cmp_info h'\<rparr>"
proof (induction cmps segment hpos h arbitrary: n rule: sof_components.induct)
  case (1 segment hpos h)
  then have "n = m" using upt_eq_Nil_conv [of n m] by auto
  with 1 show ?case by simp
next
  case (2 i "is" segment hpos h)
  have n: "i = n" "n < m" "is = [Suc n..<m]" using "2.prems"(4) upt_eq_Cons_conv [of n m i "is"] by auto
  let ?ci = "(cmp_info h ! i)\<lparr>jid := segment ! hpos, sfv := ucast (lbits (segment ! (hpos + 1)) 4),
                 sfh := ucast (rbits (segment ! (hpos + 1)) 4)\<rparr>"
  let ?h = "h\<lparr>cmp_info := (cmp_info h)[i := ?ci\<lparr>q_table_index := segment ! (hpos + 2)\<rparr>]\<rparr>"
  from "2.prems"(1) have c: "ensure_segment_space segment hpos 3 = Ok ()" "\<not> (2 < sfv ?ci \<or> 2 < sfh ?ci)"
    "\<not> length (q_tables h) \<le> unat (segment ! (hpos + 2))"
    and nxt: "sof_components is segment (hpos + 3) ?h = Ok h'" by (auto simp: Let_def split: if_splits)
  have len: "length (cmp_info h) = 4" "length (q_tables h) = 4" using "2.prems"(2) by (simp_all add: header_shape_def)
  have "segment ! (hpos + 2) < 4" using c(3) len(2) by (simp add: word_less_nat_alt)
  then have "components_ok (Suc n) ?h"
    using "2.prems"(5,7) n len(1) c(2) by (auto simp: components_ok_def nth_list_update less_Suc_eq)
  moreover have "header_shape ?h" "tables_belong a ?h" using "2.prems"(2,3) by (auto simp: header_shape_def tables_belong_def)
  ultimately have "header_shape h' \<and> tables_belong a h' \<and> components_ok m h' \<and> h' = ?h\<lparr>cmp_info := cmp_info h'\<rparr>"
    using "2.IH" [OF c(1) refl refl c(2,3) nxt _ _ n(3) "2.prems"(5)] n(2) by simp
  then show ?case by simp
qed

lemma unat_ucast_u16_u32: "unat (ucast (v :: u16) :: u32) = unat v"
  using unat_lt2p [of v] by (simp add: unat_ucast)

lemma parse_sof_inv: "parse_sof features jtype segment h = Ok h' \<Longrightarrow> jtype \<noteq> Unknown \<Longrightarrow> header_inv a h \<Longrightarrow> header_inv a h'"
proof -
  assume ok: "parse_sof features jtype segment h = Ok h'" and t: "jtype \<noteq> Unknown" and inv: "header_inv a h"
  let ?h = "h\<lparr>jpeg_type := jtype, img_height := ucast (b_short (segment ! 1) (segment ! 2)),
              img_width := ucast (b_short (segment ! 3) (segment ! 4)), cmpc := unat (segment ! 5)\<rparr>"
  from ok have c: "sof_components [0..<cmpc ?h] segment 6 ?h = Ok h'" "img_height ?h \<noteq> 0" "img_width ?h \<noteq> 0" "cmpc ?h \<le> 4"
    by (auto simp: parse_sof_def Let_def split: if_splits)
  have sh: "header_shape ?h" "tables_belong a ?h" "sfhm ?h \<le> 2" "sfvm ?h \<le> 2"
    using inv by (auto simp: header_inv_def header_shape_def tables_belong_def frame_ok_def)
  have "components_ok 0 ?h" by (simp add: components_ok_def)
  from sof_components_inv [OF c(1) sh(1,2) refl c(4) _ this] have
    R: "header_shape h'" "tables_belong a h'" "components_ok (cmpc ?h) h'" and h': "h' = ?h\<lparr>cmp_info := cmp_info h'\<rparr>" by auto
  have f: "cmpc h' = cmpc ?h" "jpeg_type h' = jtype" "img_height h' = img_height ?h" "img_width h' = img_width ?h"
    "sfhm h' = sfhm h" "sfvm h' = sfvm h" by (subst h', simp)+
  have "unat (img_height ?h) < 2 ^ 16" "unat (img_width ?h) < 2 ^ 16"
    using unat_lt2p [of "b_short (segment ! 1) (segment ! 2)"] unat_lt2p [of "b_short (segment ! 3) (segment ! 4)"]
    by (simp_all add: unat_ucast_u16_u32)
  then have "frame_ok h'"
    using R(3) f t c(2-4) sh(3,4) by (simp add: frame_ok_def components_ok_def unat_gt_0)
  then show "header_inv a h'" using R(1,2) by (simp add: header_inv_def)
qed

lemma parse_segment_inv:
  assumes "parse_segment features b segment h = Ok (res, h')" "header_inv (accept_invalid_dht features) h"
  shows "header_inv (accept_invalid_dht features) h' \<and> (res = ParseSOS \<longrightarrow> scan_ok h')"
  using assms
  by (auto simp: parse_segment_def parse_other_segment_def segment_done_def split: if_splits
      dest: parse_dht_inv parse_dqt_inv parse_dri_inv parse_sos_inv parse_sof_inv)

lemma parse_segments_inv:
  "parse_segments features h m = Ok ((sos, h'), m') \<Longrightarrow> header_inv (accept_invalid_dht features) h \<Longrightarrow>
    header_inv (accept_invalid_dht features) h' \<and> (sos \<longrightarrow> scan_ok h')"
proof (induction features h m rule: parse_segments.induct)
  case (1 features h m)
  from "1.prems"(1) obtain res h1 m1 where n: "parse_next_segment features h m = Ok ((res, h1), m1)"
    by (subst (asm) parse_segments.simps) (auto split: sum.splits)
  have inv: "header_inv (accept_invalid_dht features) h1 \<and> (res = ParseSOS \<longrightarrow> scan_ok h1)"
    using parse_next_segment_bytes [OF n] parse_segment_inv "1.prems"(2) by blast
  show ?case
  proof (cases res)
    case ParseContinue
    then have "parse_segments features h1 m1 = Ok ((sos, h'), m')"
      using "1.prems"(1) n by (subst (asm) parse_segments.simps) simp
    with "1.IH" [OF n refl refl ParseContinue] inv show ?thesis by simp
  qed (use inv "1.prems"(1) n in \<open>(subst (asm) parse_segments.simps, simp)+\<close>)
qed

section \<open>The geometry\<close>

lemma ceil_div_bounds:
  assumes "0 < b"
  shows "a \<le> b * ceil_div a b" "b * ceil_div a b < a + b"
proof -
  have "b * ceil_div a b + (a + b - 1) mod b = a + b - 1" by (simp add: ceil_div_def)
  moreover have "(a + b - 1) mod b < b" using assms by simp
  ultimately show "a \<le> b * ceil_div a b" "b * ceil_div a b < a + b" using assms by linarith+
qed

lemma ceil_div_unique: "0 < b \<Longrightarrow> a \<le> b * n \<Longrightarrow> b * n < a + b \<Longrightarrow> ceil_div a b = n"
proof -
  assume b: "0 < b" and n: "a \<le> b * n" "b * n < a + b"
  note c = ceil_div_bounds [OF b, of a]
  have "b * n < b * (ceil_div a b + 1)" "b * ceil_div a b < b * (n + 1)" using n c unfolding distrib_left mult_1_right by linarith+
  then have "n < ceil_div a b + 1" "ceil_div a b < n + 1" unfolding mult_less_cancel1 by simp_all
  then show ?thesis by simp
qed

text \<open>The counts of a component whose sampling factors are \<open>f\<close> (of the component) and \<open>F\<close> (the largest):
  the blocks of whole MCUs cover those of the image, and the last MCU is needed.\<close>

lemma ceil_div_component:
  assumes "0 < f" "f \<le> F" "F \<le> 2" "0 < a"
  shows "0 < ceil_div (a * f) (8 * F)" "ceil_div (a * f) (8 * F) \<le> ceil_div a (8 * F) * f"
    "ceil_div a (8 * F) * f < ceil_div (a * f) (8 * F) + f"
proof -
  define M N where "M = ceil_div a (8 * F)" and "N = ceil_div (a * f) (8 * F)"
  have F: "0 < 8 * F" using assms by simp
  have M: "a \<le> 8 * F * M" "8 * F * M < a + 8 * F" unfolding M_def by (rule ceil_div_bounds [OF F])+
  have N: "a * f \<le> 8 * F * N" "8 * F * N < a * f + 8 * F" unfolding N_def by (rule ceil_div_bounds [OF F])+
  have "0 < a * f" using assms by simp
  then show "0 < N" using N(1) by (cases N) auto
  have "a * f \<le> 8 * F * (M * f)" using M(1) mult_le_mono1 [of a "8 * F * M" f] by (simp add: ac_simps)
  then have "8 * F * N < 8 * F * (M * f + 1)" using N(2) unfolding distrib_left mult_1_right by linarith
  then have "N < M * f + 1" unfolding mult_less_cancel1 by simp
  then show "N \<le> M * f" by simp
  have "8 * F * (M * f) < (a + 8 * F) * f" using M(2) assms(1) mult_less_mono1 [of "8 * F * M" "a + 8 * F" f] by (simp add: ac_simps)
  also have "\<dots> \<le> 8 * F * (N + f)" using N(1) unfolding distrib_left distrib_right by linarith
  finally show "M * f < N + f" unfolding mult_less_cancel1 by simp
qed

definition component_ok :: "JpegHeader \<Rightarrow> ComponentInfo \<Rightarrow> bool" where
  "component_ok h c \<longleftrightarrow> 0 < sfv c \<and> 0 < sfh c \<and> sfv c \<le> sfvm h \<and> sfh c \<le> sfhm h
    \<and> unat (mbs c) = unat (sfv c) * unat (sfh c)
    \<and> unat (bcv c) = unat (mcuv h) * unat (sfh c) \<and> unat (bch c) = unat (mcuh h) * unat (sfv c)
    \<and> unat (bc c) = unat (bcv c) * unat (bch c)
    \<and> 0 < ncv c \<and> ncv c \<le> bcv c \<and> unat (bcv c) < unat (ncv c) + unat (sfh c)
    \<and> 0 < nch c \<and> nch c \<le> bch c \<and> unat (bch c) < unat (nch c) + unat (sfv c)
    \<and> unat (nc c) = unat (ncv c) * unat (nch c)"

definition geometry_ok :: "JpegHeader \<Rightarrow> bool" where
  "geometry_ok h \<longleftrightarrow> 0 < mcuv h \<and> mcuv h \<le> 8192 \<and> 0 < mcuh h \<and> mcuh h \<le> 8192
    \<and> unat (mcuc h) = unat (mcuv h) * unat (mcuh h)
    \<and> (\<forall>c < cmpc h. component_ok h (cmp_info h ! c) \<and> sid (cmp_info h ! c) = (if cmpc h \<le> 3 then of_nat c else 0))"

definition header_ok :: "bool \<Rightarrow> JpegHeader \<Rightarrow> bool" where
  "header_ok accept_invalid h \<longleftrightarrow> header_inv accept_invalid h \<and> scan_ok h \<and> geometry_ok h \<and> jpeg_type h \<noteq> Unknown"

lemma fold_max:
  fixes x :: u32
  shows "x \<le> fold (\<lambda>c x. if x < f c then f c else x) cs x \<and> (\<forall>c \<in> set cs. f c \<le> fold (\<lambda>c x. if x < f c then f c else x) cs x)
    \<and> (x \<le> m \<longrightarrow> (\<forall>c \<in> set cs. f c \<le> m) \<longrightarrow> fold (\<lambda>c x. if x < f c then f c else x) cs x \<le> m)"
proof (induction cs arbitrary: x)
  case (Cons c cs)
  from Cons [of "if x < f c then f c else x"] show ?case by (auto split: if_splits)
qed simp

lemma unat_mult_small: "unat a * unat b < 2 ^ 32 \<Longrightarrow> unat (a * b :: u32) = unat a * unat b"
  by (simp add: unat_word_ariths)

lemma component_geometry_ok:
  assumes h: "0 < sfhm h" "sfhm h \<le> 2" "0 < sfvm h" "sfvm h \<le> 2"
    and img: "0 < unat (img_height h)" "unat (img_height h) < 2 ^ 16" "0 < unat (img_width h)" "unat (img_width h) < 2 ^ 16"
    and m: "unat (mcuv h) = ceil_div (unat (img_height h)) (8 * unat (sfhm h))"
      "unat (mcuh h) = ceil_div (unat (img_width h)) (8 * unat (sfvm h))" "unat (mcuv h) \<le> 8192" "unat (mcuh h) \<le> 8192"
    and c: "0 < sfv c" "sfv c \<le> sfvm h" "0 < sfh c" "sfh c \<le> sfhm h"
  shows "component_ok h (component_geometry h c)"
proof -
  have F: "0 < unat (sfh c)" "unat (sfh c) \<le> unat (sfhm h)" "unat (sfhm h) \<le> 2"
    "0 < unat (sfv c)" "unat (sfv c) \<le> unat (sfvm h)" "unat (sfvm h) \<le> 2"
    using c h(2,4) by (simp_all add: word_le_nat_alt word_less_nat_alt)
  note V = ceil_div_component [OF F(1-3) img(1)] and H = ceil_div_component [OF F(4-6) img(3)]
  let ?nv = "ceil_div (unat (img_height h) * unat (sfh c)) (8 * unat (sfhm h))"
  let ?nh = "ceil_div (unat (img_width h) * unat (sfv c)) (8 * unat (sfvm h))"
  have "unat (mcuv h) * unat (sfh c) \<le> 8192 * 2" "unat (mcuh h) * unat (sfv c) \<le> 8192 * 2"
    using mult_le_mono [of "unat (mcuv h)" 8192 "unat (sfh c)" 2] mult_le_mono [of "unat (mcuh h)" 8192 "unat (sfv c)" 2] m(3,4) F
    by simp_all
  then have b: "unat (mcuv h) * unat (sfh c) \<le> 2 ^ 14" "unat (mcuh h) * unat (sfv c) \<le> 2 ^ 14" by simp_all
  then have bv: "unat (mcuv h * sfh c) = unat (mcuv h) * unat (sfh c)" "unat (mcuh h * sfv c) = unat (mcuh h) * unat (sfv c)"
    by (simp_all add: unat_mult_small)
  have n: "?nv \<le> 2 ^ 14" "?nh \<le> 2 ^ 14" using V(2) H(2) b m(1,2) by simp_all
  then have nv: "unat (of_nat ?nv :: u32) = ?nv" "unat (of_nat ?nh :: u32) = ?nh" by (simp_all add: unat_of_nat)
  have sq: "x * y < 2 ^ 32" if "x \<le> 2 ^ 14" "y \<le> 2 ^ 14" for x y :: nat
    using mult_le_mono [OF that] by simp
  have bc: "unat (mcuv h * sfh c * (mcuh h * sfv c)) = unat (mcuv h * sfh c) * unat (mcuh h * sfv c)"
    using sq [OF b] unfolding bv [symmetric] by (rule unat_mult_small)
  have nc: "unat (of_nat ?nv * of_nat ?nh :: u32) = ?nv * ?nh"
    using sq [OF n] unat_mult_small [of "of_nat ?nv" "of_nat ?nh"] by (simp only: nv)
  have "unat (sfv c) * unat (sfh c) \<le> 2 * 2" using F by (intro mult_le_mono) simp_all
  then have mb: "unat (sfv c * sfh c) = unat (sfv c) * unat (sfh c)" by (simp add: unat_mult_small)
  show ?thesis
    using V H c m(1,2) by (simp add: component_ok_def component_geometry_def Let_def bv nv bc nc mb word_le_nat_alt word_less_nat_alt)
qed

text \<open>\<open>finish_header\<close> establishes the geometry.\<close>

lemma finish_header_geometry:
  assumes inv: "header_inv a h" and ok: "finish_header h = Ok h'"
  shows "geometry_ok h' \<and> header_inv a h' \<and> jpeg_type h' \<noteq> Unknown \<and> (scan_ok h \<longrightarrow> scan_ok h')"
proof -
  let ?cmps = "take (cmpc h) (cmp_info h)"
  define fh fv where "fh = fold (\<lambda>c x. if x < sfh c then sfh c else x) ?cmps (sfhm h)"
    and "fv = fold (\<lambda>c x. if x < sfv c then sfv c else x) ?cmps (sfvm h)"
  define mv mh :: u32 where "mv = of_nat (ceil_div (unat (img_height h)) (8 * unat fh))"
    and "mh = of_nat (ceil_div (unat (img_width h)) (8 * unat fv))"
  define h1 where "h1 = h\<lparr>sfhm := fh, sfvm := fv, mcuv := mv, mcuh := mh, mcuc := mv * mh\<rparr>"
  define sids :: "u32 list" where "sids = (if cmpc h \<le> 3 then map of_nat [0..<cmpc h] else replicate (cmpc h) 0)"
  from ok have c: "cmpc h \<noteq> 0" "\<not> list_ex (component_incomplete h) ?cmps" "mv \<noteq> 0" "mh \<noteq> 0"
    and h': "h' = h1\<lparr>cmp_info := map2 (\<lambda>c i. (component_geometry h1 c)\<lparr>sid := i\<rparr>) ?cmps sids @ drop (cmpc h) (cmp_info h)\<rparr>"
    by (auto simp: finish_header_def Let_def h1_def fh_def fv_def mv_def mh_def sids_def split: if_splits)
  have fr: "cmpc h \<le> 4" "jpeg_type h \<noteq> Unknown" "0 < unat (img_height h)" "unat (img_height h) < 2 ^ 16"
    "0 < unat (img_width h)" "unat (img_width h) < 2 ^ 16" "sfhm h \<le> 2" "sfvm h \<le> 2"
    "\<forall>c < cmpc h. sfv (cmp_info h ! c) \<le> 2 \<and> sfh (cmp_info h ! c) \<le> 2 \<and> q_table_index (cmp_info h ! c) < 4"
    using inv c(1) by (auto simp: header_inv_def frame_ok_def)
  have len: "length (cmp_info h) = 4" using inv by (simp add: header_inv_def header_shape_def)
  have set: "\<forall>c \<in> set ?cmps. sfv c \<le> 2 \<and> sfh c \<le> 2 \<and> 0 < sfv c \<and> 0 < sfh c"
  proof
    fix ci
    assume "ci \<in> set ?cmps"
    then obtain k where k: "k < cmpc h" "ci = cmp_info h ! k" using len fr(1) by (auto simp: in_set_conv_nth)
    have "\<not> component_incomplete h ci" using c(2) \<open>ci \<in> set ?cmps\<close> by (auto simp: list_ex_iff)
    then show "sfv ci \<le> 2 \<and> sfh ci \<le> 2 \<and> 0 < sfv ci \<and> 0 < sfh ci"
      using fr(9) k by (simp add: component_incomplete_def word_gt_0)
  qed
  have first: "cmp_info h ! 0 \<in> set ?cmps" using c(1) len by (auto simp: in_set_conv_nth intro!: exI [of _ 0])
  have fh: "fh \<le> 2" "\<forall>c \<in> set ?cmps. sfh c \<le> fh" "0 < fh"
    using fold_max [of "sfhm h" sfh ?cmps 2] set fr(7) first unfolding fh_def by (blast intro: less_le_trans)+
  have fv: "fv \<le> 2" "\<forall>c \<in> set ?cmps. sfv c \<le> fv" "0 < fv"
    using fold_max [of "sfvm h" sfv ?cmps 2] set fr(8) first unfolding fv_def by (blast intro: less_le_trans)+
  have bound: "ceil_div x (8 * unat f) \<le> 8192 \<and> 0 < ceil_div x (8 * unat f)" if "x < 2 ^ 16" "0 < x" "0 < f" for x and f :: u32
  proof -
    have f: "0 < 8 * unat f" using that(3) by (simp add: word_less_nat_alt)
    have "8 * unat f * ceil_div x (8 * unat f) < x + 8 * unat f" by (rule ceil_div_bounds [OF f])
    also have "\<dots> \<le> 8 * unat f * 8193"
    proof -
      have "1 * 65536 \<le> unat f * 65536" using f by (intro mult_le_mono1) simp
      then show ?thesis using that(1) by simp
    qed
    finally have "ceil_div x (8 * unat f) < 8193" unfolding mult_less_cancel1 by simp
    moreover have "0 < ceil_div x (8 * unat f)" using ceil_div_bounds(1) [OF f, of x] that(2) by (cases "ceil_div x (8 * unat f)") auto
    ultimately show ?thesis by simp
  qed
  have m: "unat mv = ceil_div (unat (img_height h)) (8 * unat fh)" "unat mh = ceil_div (unat (img_width h)) (8 * unat fv)"
    "unat mv \<le> 8192" "unat mh \<le> 8192"
    using bound [OF fr(4,3) fh(3)] bound [OF fr(6,5) fv(3)] by (simp_all add: mv_def mh_def unat_of_nat)
  have "unat mv * unat mh \<le> 8192 * 8192" using m(3,4) by (rule mult_le_mono)
  then have mc: "unat (mv * mh) = unat mv * unat mh" by (simp add: unat_mult_small)
  have cg: "component_ok h1 (component_geometry h1 ci)" if "ci \<in> set ?cmps" for ci
    using set fh fv m fr that by (intro component_geometry_ok) (simp_all add: h1_def)
  have nth: "cmp_info h' ! k = (component_geometry h1 (cmp_info h ! k))\<lparr>sid := sids ! k\<rparr>" if "k < cmpc h" for k
    using that len fr(1) by (simp add: h' nth_append sids_def)
  have f': "cmpc h' = cmpc h" "mcuv h' = mv" "mcuh h' = mh" "mcuc h' = mv * mh" "jpeg_type h' = jpeg_type h" "sfhm h' = fh" "sfvm h' = fv"
    by (simp_all add: h' h1_def)
  have "geometry_ok h'"
    unfolding geometry_ok_def f'
  proof (intro conjI allI impI)
    fix k
    assume k: "k < cmpc h"
    then have "cmp_info h ! k \<in> set ?cmps" using len fr(1) by (auto simp: in_set_conv_nth)
    from cg [OF this] show "component_ok h' (cmp_info h' ! k)"
      unfolding nth [OF k] component_ok_def f' by (simp add: h1_def)
    show "sid (cmp_info h' ! k) = (if cmpc h \<le> 3 then of_nat k else 0)" using k by (simp add: nth sids_def)
  qed (use c(3,4) m mc in \<open>simp_all add: word_gt_0 word_le_nat_alt\<close>)
  moreover have "header_inv a h'"
  proof -
    have "sfv (cmp_info h' ! k) = sfv (cmp_info h ! k) \<and> sfh (cmp_info h' ! k) = sfh (cmp_info h ! k)
      \<and> q_table_index (cmp_info h' ! k) = q_table_index (cmp_info h ! k)" if "k < cmpc h" for k
      using that by (simp add: nth component_geometry_def Let_def)
    moreover have "length (cmp_info h') = 4" using len fr(1) by (simp add: h' sids_def)
    ultimately show ?thesis
      using inv fr fh(1) fv(1) by (simp add: header_inv_def header_shape_def tables_belong_def frame_ok_def f') (simp add: h' h1_def)
  qed
  moreover have "scan_ok h \<longrightarrow> scan_ok h'"
  proof -
    have "huff_dc (cmp_info h' ! k) = huff_dc (cmp_info h ! k) \<and> huff_ac (cmp_info h' ! k) = huff_ac (cmp_info h ! k)" if "k < cmpc h" for k
      using that by (simp add: nth component_geometry_def Let_def)
    moreover have "cs_cmpc h' = cs_cmpc h" "cs_cmp h' = cs_cmp h" "cs_from h' = cs_from h" "cs_to h' = cs_to h"
      "cs_sah h' = cs_sah h" "cs_sal h' = cs_sal h" by (simp_all add: h' h1_def)
    ultimately show ?thesis by (auto simp: scan_ok_def scan_components_ok_def f')
  qed
  ultimately show ?thesis using fr(2) f' by simp
qed

text \<open>What \<open>parse\<close> promises when it has found a scan.\<close>

lemma parse_ok:
  assumes "parse features h m = Ok ((True, h'), m')" "header_inv (accept_invalid_dht features) h"
  shows "header_ok (accept_invalid_dht features) h'"
proof -
  from assms(1) obtain h1 where h1: "parse_segments features h m = Ok ((True, h1), m')" "finish_header h1 = Ok h'"
    by (auto simp: parse_def split: if_splits)
  from parse_segments_inv [OF h1(1) assms(2)] have "header_inv (accept_invalid_dht features) h1" "scan_ok h1" by simp_all
  with finish_header_geometry [OF _ h1(2)] show ?thesis by (simp add: header_ok_def)
qed

section \<open>The bytes of the header\<close>

text \<open>The mirror has what has been read. The end of the image is the last thing that is read, but a stream
  that ends without it counts as the end of the image, too.\<close>

lemma parse_segments_bytes:
  "parse_segments features h m = Ok ((sos, h'), m') \<Longrightarrow>
    \<exists>read. mirrored m = read @ mirrored m' \<and> mirror_output m' = mirror_output m @ read
      \<and> (\<not> sos \<longrightarrow> mirrored m' = [] \<or> (\<exists>hd. read = hd @ [0xFF, 0xD9]))"
proof (induction features h m rule: parse_segments.induct)
  case (1 features h m)
  from "1.prems"(1) obtain res h1 m1 where n: "parse_next_segment features h m = Ok ((res, h1), m1)"
    by (subst (asm) parse_segments.simps) (auto split: sum.splits)
  from parse_next_segment_bytes [OF n] obtain read1 where
    r1: "mirrored m = read1 @ mirrored m1" "mirror_output m1 = mirror_output m @ read1" by blast
  show ?case
  proof (cases res)
    case ParseContinue
    then have "parse_segments features h1 m1 = Ok ((sos, h'), m')"
      using "1.prems"(1) n by (subst (asm) parse_segments.simps) simp
    from "1.IH" [OF n refl refl ParseContinue this] obtain read2 where
      r2: "mirrored m1 = read2 @ mirrored m'" "mirror_output m' = mirror_output m1 @ read2"
      "\<not> sos \<longrightarrow> mirrored m' = [] \<or> (\<exists>hd. read2 = hd @ [0xFF, 0xD9])" by blast
    then show ?thesis using r1 by (intro exI [of _ "read1 @ read2"]) auto
  next
    case ParseEOI
    then have e: "sos = False" "m' = m1" using "1.prems"(1) n by (subst (asm) parse_segments.simps, simp)+
    have "read1 = [] \<and> mirrored m = [] \<or> read1 = [0xFF, 0xD9] \<or> parse_segment features (read1 ! 1) (drop 4 read1) h = Ok (res, h1)"
      using parse_next_segment_bytes [OF n] r1(1) by auto
    moreover have "parse_segment features b sg h \<noteq> Ok (ParseEOI, h1)" for b sg
      by (auto simp: parse_segment_def parse_other_segment_def)
    ultimately show ?thesis using ParseEOI e r1 by (intro exI [of _ read1]) auto
  next
    case ParseSOS
    then have "sos = True" "m' = m1" using "1.prems"(1) n by (subst (asm) parse_segments.simps, simp)+
    then show ?thesis using r1 by auto
  qed
qed

lemma parse_jpeg_header_bytes:
  assumes "parse_jpeg_header features h rinfo reader = Ok (sos, h', rinfo', rest)"
  shows "\<exists>read. reader = read @ rest \<and>
    (if sos then raw_jpeg_header rinfo' = raw_jpeg_header rinfo @ read
     else (\<exists>hd. read = hd @ [0xFF, 0xD9] \<and> raw_jpeg_header rinfo' = raw_jpeg_header rinfo @ hd)
       \<or> (rest = [] \<and> raw_jpeg_header rinfo' = raw_jpeg_header rinfo @ take (length read - 2) read))"
proof -
  from assms obtain h1 m1 where p: "parse_segments features h (Mirror_new reader) = Ok ((sos, h1), m1)" "mirrored m1 = rest"
    and raw: "raw_jpeg_header rinfo' = raw_jpeg_header rinfo @
      (if sos then mirror_output m1 else take (length (mirror_output m1) - 2) (mirror_output m1))"
    by (auto simp: parse_jpeg_header_def parse_def Let_def split: if_splits)
  from parse_segments_bytes [OF p(1)] p(2) obtain read where
    r: "reader = read @ rest" "mirror_output m1 = read" "\<not> sos \<longrightarrow> rest = [] \<or> (\<exists>hd. read = hd @ [0xFF, 0xD9])"
    by (auto simp: Mirror_new_def)
  then show ?thesis using raw by (intro exI [of _ read]) auto
qed

section \<open>The header alone\<close>

text \<open>The parser looks at what it consumes and at four of the features only: the header of a scan parses alone, and in
  front of anything, to the same result.\<close>

definition mirror_at :: "bytes \<Rightarrow> bytes \<Rightarrow> Mirror" where
  "mirror_at out rest = \<lparr>mirrored = rest, mirror_output = out, amount_written = length out\<rparr>"

lemma next_segment:
  assumes "parse_segment features b segment h = Ok (res, h')" "b \<noteq> 0xD9" "unat (b_short s1 s2) = length segment + 2"
  shows "parse_next_segment features h (mirror_at out ([0xFF, b, s1, s2] @ segment @ rest)) =
    Ok ((res, h'), mirror_at (out @ [0xFF, b, s1, s2] @ segment) rest)"
proof -
  have "\<not> b_short s1 s2 < 2" using assms(3) by (simp add: word_less_nat_alt)
  then show ?thesis
    using assms by (simp add: parse_next_segment_def mirror_at_def mirror_read_def mirror_read_exact_def Let_def)
qed

lemma parse_continue:
  "parse_next_segment features h m = Ok ((ParseContinue, h'), m') \<Longrightarrow> parse_segments features h m = parse_segments features h' m'"
  by (subst parse_segments.simps) simp

lemma parse_scan_found:
  "parse_next_segment features h m = Ok ((ParseSOS, h'), m') \<Longrightarrow> parse_segments features h m = Ok ((True, h'), m')"
  by (subst parse_segments.simps) simp

definition same_limits :: "EnabledFeatures \<Rightarrow> EnabledFeatures \<Rightarrow> bool" where
  "same_limits f f' \<longleftrightarrow> accept_invalid_dht f' = accept_invalid_dht f \<and> reject_dqts_with_zeros f' = reject_dqts_with_zeros f
    \<and> max_jpeg_width f' = max_jpeg_width f \<and> max_jpeg_height f' = max_jpeg_height f"

lemma parse_segment_limits: "same_limits f f' \<Longrightarrow> parse_segment f' = parse_segment f"
  by (intro ext) (simp add: same_limits_def parse_segment_def parse_sof_def Let_def)

lemma parse_segments_alone:
  "parse_segments f h m = Ok ((True, h'), m') \<Longrightarrow> same_limits f f' \<Longrightarrow>
    \<exists>hd. mirrored m = hd @ mirrored m' \<and> mirror_output m' = mirror_output m @ hd
      \<and> (\<forall>out rest. parse_segments f' h (mirror_at out (hd @ rest)) = Ok ((True, h'), mirror_at (out @ hd) rest))"
proof (induction f h m rule: parse_segments.induct)
  case (1 f h m)
  from "1.prems"(1) obtain res h1 m1 where n: "parse_next_segment f h m = Ok ((res, h1), m1)" "res \<noteq> ParseEOI"
    by (subst (asm) parse_segments.simps) (auto split: sum.splits ParseSegmentResult.splits)
  from parse_next_segment_bytes [OF n(1)] n(2) obtain b s1 s2 segment where
    r1: "mirrored m = ([0xFF, b, s1, s2] @ segment) @ mirrored m1" "mirror_output m1 = mirror_output m @ [0xFF, b, s1, s2] @ segment"
    and sg: "unat (b_short s1 s2) = length segment + 2" "b \<noteq> 0xD9" "parse_segment f b segment h = Ok (res, h1)" by auto
  have "parse_segment f' b segment h = Ok (res, h1)" using sg(3) parse_segment_limits [OF "1.prems"(2)] by simp
  note step = next_segment [OF this sg(2,1)]
  show ?case
  proof (cases res)
    case ParseContinue
    then have "parse_segments f h1 m1 = Ok ((True, h'), m')"
      using "1.prems"(1) n by (subst (asm) parse_segments.simps) simp
    from "1.IH" [OF n(1) refl refl ParseContinue this "1.prems"(2)] obtain hd where
      r2: "mirrored m1 = hd @ mirrored m'" "mirror_output m' = mirror_output m1 @ hd"
      and later: "\<And>out rest. parse_segments f' h1 (mirror_at out (hd @ rest)) = Ok ((True, h'), mirror_at (out @ hd) rest)" by blast
    show ?thesis
      using r1 r2 later parse_continue [OF step [of _ "hd @ _", unfolded ParseContinue]]
      by (intro exI [of _ "[0xFF, b, s1, s2] @ segment @ hd"]) simp
  next
    case ParseSOS
    then have "h' = h1" "m' = m1" using "1.prems"(1) n by (subst (asm) parse_segments.simps, simp)+
    then show ?thesis
      using r1 parse_scan_found [OF step [unfolded ParseSOS]]
      by (intro exI [of _ "[0xFF, b, s1, s2] @ segment"]) simp
  qed (use n(2) in simp)
qed

lemma parse_alone:
  assumes "parse_jpeg_header f h rinfo reader = Ok (True, jf, rinfo', rest)" "same_limits f f'"
  obtains hd where "reader = hd @ rest" "raw_jpeg_header rinfo' = raw_jpeg_header rinfo @ hd"
    "\<And>more. parse f' h (Mirror_new (hd @ more)) = Ok ((True, jf), mirror_at hd more)"
proof -
  from assms(1) obtain h1 m1 where p: "parse_segments f h (Mirror_new reader) = Ok ((True, h1), m1)" "mirrored m1 = rest"
    and fin: "finish_header h1 = Ok jf" and raw: "raw_jpeg_header rinfo' = raw_jpeg_header rinfo @ mirror_output m1"
    by (auto simp: parse_jpeg_header_def parse_def Let_def split: if_splits)
  from parse_segments_alone [OF p(1) assms(2)] obtain hd where
    hd: "reader = hd @ rest" "mirror_output m1 = hd"
      "\<And>out more. parse_segments f' h (mirror_at out (hd @ more)) = Ok ((True, h1), mirror_at (out @ hd) more)"
    using p(2) by (auto simp: Mirror_new_def)
  have "parse f' h (Mirror_new (hd @ more)) = Ok ((True, jf), mirror_at hd more)" for more
  proof -
    have "Mirror_new (hd @ more) = mirror_at [] (hd @ more)" by (simp add: Mirror_new_def mirror_at_def)
    then show ?thesis using hd(3) [of "[]" more] fin by (simp add: parse_def)
  qed
  with that hd raw show ?thesis by blast
qed

end
