(* ===== verification/Scan_Position.thy ===== *)
theory Scan_Position
  imports Header_Inv
begin

text \<open>
  The position in a scan (\<open>jpeg/jpeg_position_state.rs\<close>): the component, the MCU, the block in the MCU
  and the block in the image, the blocks left in the restart interval, and the run of empty blocks of
  progressive scans. \<open>block_pos\<close> is where the standard puts a block of an MCU; \<open>next_mcu_pos\<close>, which has
  three formulas for it and one for scans of a single component, visits the blocks in this order.
  Headers are those \<open>header_ok\<close> describes, so that no divisor is zero.
\<close>

datatype JpegDecodeStatus = DecodeInProgress | RestartIntervalExpired | ScanCompleted

record JpegPositionState =
  cmp :: usize
  mcu :: u32
  csc :: usize
  sub :: u32
  dpos :: u32
  rstw :: u32
  eobrun :: u16
  prev_eobrun :: u16

definition JpegPositionState_new :: "JpegHeader \<Rightarrow> u32 \<Rightarrow> JpegPositionState" where
  "JpegPositionState_new jf m =
    (let c = cs_cmp jf ! 0; mcumul = sfv (cmp_info jf ! c) * sfh (cmp_info jf ! c)
     in \<lparr>cmp = c, mcu = m, csc = 0, sub = 0, dpos = m * mcumul,
         rstw = (if rsti jf \<noteq> 0 then rsti jf - m mod rsti jf else 0), eobrun = 0, prev_eobrun = 0\<rparr>)"

definition get_cumulative_reset_markers :: "JpegHeader \<Rightarrow> JpegPositionState \<Rightarrow> u32" where
  "get_cumulative_reset_markers jf s = (if rstw s \<noteq> 0 then mcu s div rsti jf else 0)"

definition reset_rstw :: "JpegHeader \<Rightarrow> JpegPositionState \<Rightarrow> JpegPositionState" where
  "reset_rstw jf s = s\<lparr>rstw := rsti jf, prev_eobrun := 0\<rparr>"

definition next_mcu_pos_noninterleaved :: "JpegHeader \<Rightarrow> JpegPositionState \<Rightarrow> JpegDecodeStatus \<times> JpegPositionState" where
  "next_mcu_pos_noninterleaved jf s =
    (let s = s\<lparr>dpos := dpos s + 1\<rparr>;
         ci = cmp_info jf ! cmp s;
         s = (if bch ci \<noteq> nch ci \<and> dpos s mod bch ci = nch ci then s\<lparr>dpos := dpos s + (bch ci - nch ci)\<rparr> else s);
         s = (if bcv ci \<noteq> ncv ci \<and> dpos s div bch ci = ncv ci then s\<lparr>dpos := bc ci\<rparr> else s);
         s = (if jpeg_type jf = Sequential then s\<lparr>mcu := dpos s div (sfv ci * sfh ci)\<rparr> else s)
     in if bc ci \<le> dpos s then (ScanCompleted, s)
        else if 0 < rsti jf
        then let s = s\<lparr>rstw := rstw s - 1\<rparr> in (if rstw s = 0 then RestartIntervalExpired else DecodeInProgress, s)
        else (DecodeInProgress, s))"

text \<open>The position of a block of an MCU, the way \<open>next_mcu_pos\<close> computes it.\<close>

definition mcu_dpos :: "JpegHeader \<Rightarrow> usize \<Rightarrow> u32 \<Rightarrow> u32 \<Rightarrow> u32" where
  "mcu_dpos jf c m sb =
    (let ci = cmp_info jf ! c
     in if 1 < sfh ci then
          let mcu_over_mcuh = m div mcuh jf;
              sub_over_sfv = sb div sfv ci;
              mcu_mod_mcuh = m - mcu_over_mcuh * mcuh jf;
              sub_mod_sfv = sb - sub_over_sfv * sfv ci
          in (mcu_over_mcuh * sfh ci + sub_over_sfv) * bch ci + (mcu_mod_mcuh * sfv ci + sub_mod_sfv)
        else if 1 < sfv ci then m * mbs ci + sb
        else m)"

definition next_mcu_pos :: "JpegHeader \<Rightarrow> JpegPositionState \<Rightarrow> JpegDecodeStatus \<times> JpegPositionState" where
  "next_mcu_pos jf s =
    (if cs_cmpc jf = 1 then next_mcu_pos_noninterleaved jf s
     else
       let s = s\<lparr>sub := sub s + 1\<rparr>;
           (sta, s) =
             (if mbs (cmp_info jf ! cmp s) \<le> sub s
              then let s = s\<lparr>sub := 0, csc := csc s + 1\<rparr>
                   in if cs_cmpc jf \<le> csc s
                      then let s = s\<lparr>csc := 0, cmp := cs_cmp jf ! 0, mcu := mcu s + 1\<rparr>
                           in if mcuc jf \<le> mcu s then (ScanCompleted, s)
                              else if 0 < rsti jf
                              then let s = s\<lparr>rstw := rstw s - 1\<rparr>
                                   in (if rstw s = 0 then RestartIntervalExpired else DecodeInProgress, s)
                              else (DecodeInProgress, s)
                      else (DecodeInProgress, s\<lparr>cmp := cs_cmp jf ! csc s\<rparr>)
              else (DecodeInProgress, s))
       in (sta, s\<lparr>dpos := mcu_dpos jf (cmp s) (mcu s) (sub s)\<rparr>))"

definition checked_add :: "u32 \<Rightarrow> u32 \<Rightarrow> u32 result" where
  "checked_add a b = (if 2 ^ 32 \<le> unat a + unat b then err_exit_code UnsupportedJpeg else Ok (a + b))"

definition skip_eobrun :: "JpegHeader \<Rightarrow> JpegPositionState \<Rightarrow> (JpegDecodeStatus \<times> JpegPositionState) result" where
  "skip_eobrun jf s =
    bindR (assertR (cs_cmpc jf = 1)) (\<lambda>_.
      if eobrun s = 0 then Ok (DecodeInProgress, s)
      else bindR (if 0 < rsti jf
                  then if rstw s < ucast (eobrun s) then err_exit_code UnsupportedJpeg
                       else Ok (s\<lparr>rstw := rstw s - ucast (eobrun s)\<rparr>)
                  else Ok s) (\<lambda>s.
        let ci = cmp_info jf ! cmp s
        in bindR (if bch ci \<noteq> nch ci
                  then checked_add (dpos s) ((dpos s mod bch ci + ucast (eobrun s)) div nch ci * (bch ci - nch ci))
                  else Ok (dpos s)) (\<lambda>d.
           bindR (if bcv ci \<noteq> ncv ci \<and> ncv ci \<le> d div bch ci
                  then checked_add d ((bcv ci - ncv ci) * bch ci) else Ok d) (\<lambda>d.
           bindR (checked_add d (ucast (eobrun s))) (\<lambda>d.
           let s = s\<lparr>dpos := d, eobrun := 0\<rparr>
           in if dpos s = bc ci then Ok (ScanCompleted, s)
              else if bc ci < dpos s then err_exit_code UnsupportedJpeg
              else if 0 < rsti jf \<and> rstw s = 0 then Ok (RestartIntervalExpired, s)
              else Ok (DecodeInProgress, s))))))"

definition check_optimal_eobrun :: "bool \<Rightarrow> HuffCodes \<Rightarrow> JpegPositionState \<Rightarrow> JpegPositionState result" where
  "check_optimal_eobrun is_current_block_empty hc s =
    (if is_current_block_empty \<and> 0 < prev_eobrun s \<and> prev_eobrun s < max_eob_run hc - 1
     then err_exit_code UnsupportedJpeg
     else Ok (s\<lparr>prev_eobrun := eobrun s\<rparr>))"

section \<open>The order of the blocks\<close>

text \<open>Block \<open>k\<close> of MCU \<open>m\<close>: the MCUs and the blocks in an MCU are in raster order.\<close>

definition block_pos :: "JpegHeader \<Rightarrow> usize \<Rightarrow> nat \<Rightarrow> nat \<Rightarrow> nat" where
  "block_pos jf c m k =
    (let ci = cmp_info jf ! c; h = unat (sfv ci); v = unat (sfh ci); w = unat (mcuh jf)
     in (m div w * v + k div h) * (w * h) + (m mod w * h + k mod h))"

text \<open>Scans whose MCUs are those of the frame: of several components, or of one without subsampling.\<close>

definition regular_scan :: "JpegHeader \<Rightarrow> bool" where
  "regular_scan jf \<longleftrightarrow> jpeg_type jf = Sequential \<and> distinct (take (cs_cmpc jf) (cs_cmp jf)) \<and>
    (cs_cmpc jf = 1 \<longrightarrow> mbs (cmp_info jf ! (cs_cmp jf ! 0)) = 1)"

definition at_block :: "JpegHeader \<Rightarrow> JpegPositionState \<Rightarrow> nat \<Rightarrow> nat \<Rightarrow> nat \<Rightarrow> bool" where
  "at_block jf s m c k \<longleftrightarrow> m < unat (mcuc jf) \<and> c < cs_cmpc jf \<and> k < unat (mbs (cmp_info jf ! (cs_cmp jf ! c)))
    \<and> unat (mcu s) = m \<and> csc s = c \<and> unat (sub s) = k \<and> cmp s = cs_cmp jf ! c
    \<and> unat (dpos s) = block_pos jf (cs_cmp jf ! c) m k"

text \<open>A block of an MCU as row and column of the component.\<close>

lemma block_cell:
  fixes w h v m k :: nat
  assumes "0 < w" "k < v * h" "m < r * w"
  defines "y \<equiv> m div w * v + k div h" and "x \<equiv> m mod w * h + k mod h"
  shows "x < w * h" "y < r * v" "y div v = m div w" "y mod v = k div h" "x div h = m mod w" "x mod h = k mod h"
proof -
  have h: "0 < h" using assms(2) by (cases h) auto
  have kh: "k div h < v" using assms(2) by (simp add: less_mult_imp_div_less)
  have kmod: "k mod h < h" using h by simp
  have mw: "m mod w < w" using assms(1) by simp
  have mr: "m div w < r" using assms(3) by (simp add: less_mult_imp_div_less)
  have "x < (m mod w + 1) * h" using kmod by (simp add: x_def)
  also have "\<dots> \<le> w * h" using mw by (intro mult_le_mono1) simp
  finally show "x < w * h" .
  have "y < (m div w + 1) * v" using kh by (simp add: y_def)
  also have "\<dots> \<le> r * v" using mr by (intro mult_le_mono1) simp
  finally show "y < r * v" .
  show "y div v = m div w" "y mod v = k div h" using kh by (simp_all add: y_def)
  show "x div h = m mod w" "x mod h = k mod h" using kmod h by (simp_all add: x_def)
qed

lemma row_col_inject:
  fixes x n y :: nat
  assumes "x < n" "x' < n" "y * n + x = y' * n + x'"
  shows "y = y' \<and> x = x'"
proof -
  have "(y * n + x) div n = y" "(y * n + x) mod n = x" using assms(1) by simp_all
  moreover have "(y' * n + x') div n = y'" "(y' * n + x') mod n = x'" using assms(2) by simp_all
  ultimately show ?thesis using assms(3) by metis
qed

lemma block_pos_cell:
  fixes w h v m k :: nat
  assumes "0 < w" "k < v * h" "m < r * w" "0 < w" "k' < v * h" "m' < r * w"
    and eq: "(m div w * v + k div h) * (w * h) + (m mod w * h + k mod h) = (m' div w * v + k' div h) * (w * h) + (m' mod w * h + k' mod h)"
  shows "m = m' \<and> k = k'"
proof -
  let ?y = "m div w * v + k div h" and ?x = "m mod w * h + k mod h"
  let ?y' = "m' div w * v + k' div h" and ?x' = "m' mod w * h + k' mod h"
  note C = block_cell [OF assms(1-3)] and C' = block_cell [OF assms(4-6)]
  have yx: "?y = ?y'" "?x = ?x'" using row_col_inject [OF C(1) C'(1) eq] by blast+
  have "m div w = m' div w" "k div h = k' div h" using yx(1) C(3,4) C'(3,4) by metis+
  moreover have "m mod w = m' mod w" "k mod h = k' mod h" using yx(2) C(5,6) C'(5,6) by metis+
  ultimately show ?thesis by (metis div_mult_mod_eq)
qed

text \<open>The numbers of a header in \<open>nat\<close>.\<close>

lemma header_component:
  assumes "header_ok a jf" "c < cs_cmpc jf"
  defines "ci \<equiv> cmp_info jf ! (cs_cmp jf ! c)"
  shows "0 < unat (sfv ci)" "0 < unat (sfh ci)" "unat (sfv ci) \<le> 2" "unat (sfh ci) \<le> 2" "0 < unat (mcuh jf)"
    "unat (mcuc jf) = unat (mcuv jf) * unat (mcuh jf)" "unat (mbs ci) = unat (sfh ci) * unat (sfv ci)"
    "unat (bch ci) = unat (mcuh jf) * unat (sfv ci)" "unat (bcv ci) = unat (mcuv jf) * unat (sfh ci)"
    "unat (bc ci) = unat (bcv ci) * unat (bch ci)" "unat (mcuh jf) \<le> 8192" "unat (mcuv jf) \<le> 8192" "cs_cmp jf ! c < cmpc jf"
proof -
  have G: "geometry_ok jf" "scan_ok jf" "frame_ok jf" using assms(1) by (simp_all add: header_ok_def header_inv_def)
  show c: "cs_cmp jf ! c < cmpc jf" using G(2) assms(2) by (simp add: scan_ok_def scan_components_ok_def)
  have ok: "component_ok jf ci" using G(1) c by (simp add: geometry_ok_def ci_def)
  have f: "sfhm jf \<le> 2" "sfvm jf \<le> 2" using G(3) by (simp_all add: frame_ok_def)
  show "0 < unat (sfv ci)" "0 < unat (sfh ci)" using ok by (simp_all add: component_ok_def word_less_nat_alt)
  have "sfv ci \<le> 2" "sfh ci \<le> 2" using ok f by (auto simp: component_ok_def intro: order_trans)
  then show "unat (sfv ci) \<le> 2" "unat (sfh ci) \<le> 2" by (simp_all add: word_le_nat_alt)
  show "0 < unat (mcuh jf)" "unat (mcuc jf) = unat (mcuv jf) * unat (mcuh jf)" "unat (mcuh jf) \<le> 8192" "unat (mcuv jf) \<le> 8192"
    using G(1) by (simp_all add: geometry_ok_def word_less_nat_alt word_le_nat_alt)
  show "unat (mbs ci) = unat (sfh ci) * unat (sfv ci)" "unat (bch ci) = unat (mcuh jf) * unat (sfv ci)"
    "unat (bcv ci) = unat (mcuv jf) * unat (sfh ci)" "unat (bc ci) = unat (bcv ci) * unat (bch ci)"
    using ok by (simp_all add: component_ok_def)
qed

lemma block_pos_less:
  assumes "header_ok a jf" "c < cs_cmpc jf" "m < unat (mcuc jf)" "k < unat (mbs (cmp_info jf ! (cs_cmp jf ! c)))"
  shows "block_pos jf (cs_cmp jf ! c) m k < unat (bc (cmp_info jf ! (cs_cmp jf ! c)))"
proof -
  note H = header_component [OF assms(1,2)]
  let ?ci = "cmp_info jf ! (cs_cmp jf ! c)"
  note C = block_cell [OF H(5) assms(4) [unfolded H(7)] assms(3) [unfolded H(6)]]
  let ?y = "m div unat (mcuh jf) * unat (sfh ?ci) + k div unat (sfv ?ci)"
  have "block_pos jf (cs_cmp jf ! c) m k < (?y + 1) * (unat (mcuh jf) * unat (sfv ?ci))"
    using C(1) by (simp add: block_pos_def Let_def)
  also have "\<dots> \<le> (unat (mcuv jf) * unat (sfh ?ci)) * (unat (mcuh jf) * unat (sfv ?ci))"
    using C(2) by (intro mult_le_mono1) simp
  finally show ?thesis by (simp add: H(8-10))
qed

lemma block_pos_inject:
  assumes "header_ok a jf" "c < cs_cmpc jf" "m < unat (mcuc jf)" "k < unat (mbs (cmp_info jf ! (cs_cmp jf ! c)))"
    and "m' < unat (mcuc jf)" "k' < unat (mbs (cmp_info jf ! (cs_cmp jf ! c)))"
    and eq: "block_pos jf (cs_cmp jf ! c) m k = block_pos jf (cs_cmp jf ! c) m' k'"
  shows "m = m' \<and> k = k'"
proof -
  note H = header_component [OF assms(1,2)]
  show ?thesis
    using block_pos_cell [OF H(5) assms(4) [unfolded H(7)] assms(3) [unfolded H(6)] H(5) assms(6) [unfolded H(7)] assms(5) [unfolded H(6)]]
      eq by (simp add: block_pos_def Let_def)
qed

text \<open>The three formulas of the source are the one of the standard.\<close>

lemma mcu_dpos_pos:
  assumes "header_ok a jf" "c < cs_cmpc jf" and m: "unat m < unat (mcuc jf)"
    and k: "unat sb < unat (mbs (cmp_info jf ! (cs_cmp jf ! c)))"
  shows "unat (mcu_dpos jf (cs_cmp jf ! c) m sb) = block_pos jf (cs_cmp jf ! c) (unat m) (unat sb)"
proof -
  note H = header_component [OF assms(1,2)]
  define ci where "ci = cmp_info jf ! (cs_cmp jf ! c)"
  define w h v M K where "w = unat (mcuh jf)" and "h = unat (sfv ci)" and "v = unat (sfh ci)" and "M = unat m" and "K = unat sb"
  have small: "block_pos jf (cs_cmp jf ! c) M K < 2 ^ 32"
    using block_pos_less [OF assms] unat_lt2p [of "bc ci"] by (simp add: M_def K_def ci_def)
  have pos: "block_pos jf (cs_cmp jf ! c) M K = (M div w * v + K div h) * (w * h) + (M mod w * h + K mod h)"
    by (simp add: block_pos_def Let_def ci_def w_def h_def v_def)
  have f: "0 < h" "0 < v" "h \<le> 2" "v \<le> 2" "K < v * h" "0 < w" "unat (bch ci) = w * h" "unat (mbs ci) = v * h"
    using H k by (simp_all add: ci_def w_def h_def v_def K_def)
  show ?thesis
  proof (cases "1 < sfh ci")
    case True
    have "m - m div mcuh jf * mcuh jf = m mod mcuh jf" "sb - sb div sfv ci * sfv ci = sb mod sfv ci"
      by (simp_all add: minus_div_mult_eq_mod)
    then have "mcu_dpos jf (cs_cmp jf ! c) m sb
      = (m div mcuh jf * sfh ci + sb div sfv ci) * bch ci + (m mod mcuh jf * sfv ci + sb mod sfv ci)"
      using True by (simp add: mcu_dpos_def Let_def ci_def)
    also have "unat \<dots> = ((M div w * v + K div h) * (w * h) + (M mod w * h + K mod h)) mod 2 ^ 32"
      by (simp add: unat_word_ariths unat_div unat_mod_distrib mod_simps f(7) flip: w_def h_def v_def M_def K_def)
    also have "\<dots> = block_pos jf (cs_cmp jf ! c) M K" using small pos by simp
    finally show ?thesis by (simp add: M_def K_def)
  next
    case False
    then have v: "v = 1" using f(2) by (simp add: v_def word_less_nat_alt)
    then have kh: "K < h" using f(5) by simp
    have "M div w * (w * h) + M mod w * h = M * h"
      by (metis distrib_right mult.assoc div_mult_mod_eq)
    then have pos': "block_pos jf (cs_cmp jf ! c) M K = M * h + K"
      unfolding pos v using kh by simp
    show ?thesis
    proof (cases "1 < sfv ci")
      case True
      have "unat (m * mbs ci + sb) = (M * h + K) mod 2 ^ 32"
        by (simp add: unat_word_ariths mod_simps f(8) v flip: M_def K_def)
      then show ?thesis using False True pos' small by (simp add: mcu_dpos_def Let_def ci_def M_def K_def)
    next
      case one: False
      then have "h = 1" using f(1) by (simp add: h_def word_less_nat_alt)
      then show ?thesis using False one pos' kh by (simp add: mcu_dpos_def Let_def ci_def M_def K_def)
    qed
  qed
qed

text \<open>The order: MCU by MCU, in an MCU component by component, and the blocks of a component.\<close>

fun block_after :: "JpegHeader \<Rightarrow> nat \<times> nat \<times> nat \<Rightarrow> nat \<times> nat \<times> nat" where
  "block_after jf (m, c, k) =
    (if Suc k < unat (mbs (cmp_info jf ! (cs_cmp jf ! c))) then (m, c, Suc k)
     else if Suc c < cs_cmpc jf then (m, Suc c, 0) else (Suc m, 0, 0))"

text \<open>The blocks left in the restart interval are known from the MCU.\<close>

definition rst_synced :: "JpegHeader \<Rightarrow> JpegPositionState \<Rightarrow> bool" where
  "rst_synced jf s \<longleftrightarrow> 0 < rsti jf \<longrightarrow> unat (rstw s) = unat (rsti jf) - unat (mcu s) mod unat (rsti jf)"

definition status_after :: "JpegHeader \<Rightarrow> nat \<Rightarrow> nat \<Rightarrow> JpegDecodeStatus" where
  "status_after jf m m' =
    (if unat (mcuc jf) \<le> m' then ScanCompleted
     else if m' \<noteq> m \<and> 0 < rsti jf \<and> m' mod unat (rsti jf) = 0 then RestartIntervalExpired else DecodeInProgress)"

lemma rst_step:
  fixes R m w :: nat
  assumes "0 < R" "w = R - m mod R"
  shows "0 < w" "w - 1 = 0 \<longleftrightarrow> Suc m mod R = 0" "w - 1 \<noteq> 0 \<Longrightarrow> w - 1 = R - Suc m mod R"
proof -
  have m: "m mod R < R" using assms(1) by simp
  then show "0 < w" using assms(2) by simp
  show "w - 1 = 0 \<longleftrightarrow> Suc m mod R = 0" using assms m by (simp add: mod_Suc)
  show "w - 1 \<noteq> 0 \<Longrightarrow> w - 1 = R - Suc m mod R" using assms m by (simp add: mod_Suc)
qed

lemma at_block_reset [simp]: "at_block jf (reset_rstw jf s) m c k \<longleftrightarrow> at_block jf s m c k"
  by (simp add: at_block_def reset_rstw_def)

lemma rst_synced_reset:
  "status_after jf m (unat (mcu s)) = RestartIntervalExpired \<Longrightarrow> rst_synced jf (reset_rstw jf s)"
  by (auto simp: rst_synced_def reset_rstw_def status_after_def split: if_splits)

text \<open>The counter of the restart interval when the next MCU is entered.\<close>

lemma rstw_step:
  assumes "rst_synced jf s" "0 < rsti jf" "unat (mcu s) = m" "t = s\<lparr>mcu := i, rstw := rstw s - 1, csc := j, cmp := c, sub := k, dpos := d\<rparr>"
    and "unat i = Suc m"
  shows "rstw s - 1 = 0 \<longleftrightarrow> Suc m mod unat (rsti jf) = 0" "rstw s - 1 \<noteq> 0 \<Longrightarrow> rst_synced jf t"
proof -
  have R: "0 < unat (rsti jf)" "unat (rstw s) = unat (rsti jf) - m mod unat (rsti jf)"
    using assms(1-3) by (simp_all add: rst_synced_def word_less_nat_alt)
  note S = rst_step [OF R]
  have u: "unat (rstw s - 1) = unat (rstw s) - 1" using S(1) by (simp add: unat_sub word_le_nat_alt)
  show "rstw s - 1 = 0 \<longleftrightarrow> Suc m mod unat (rsti jf) = 0" using S(2) u by (simp add: word_unat_eq_iff)
  assume "rstw s - 1 \<noteq> 0"
  then have "unat (rstw s) - 1 \<noteq> 0" using u by (metis unat_eq_zero)
  then show "rst_synced jf t" using S(3) u assms(4,5) by (simp add: rst_synced_def)
qed

lemma rst_synced_other:
  "rst_synced jf s \<Longrightarrow> mcu t = mcu s \<Longrightarrow> rstw t = rstw s \<Longrightarrow> rst_synced jf t"
  by (simp add: rst_synced_def)

lemma rst_synced_no: "\<not> 0 < rsti jf \<Longrightarrow> rst_synced jf t"
  by (simp add: rst_synced_def)

lemma next_mcu_pos_single:
  assumes ok: "header_ok a jf" and reg: "regular_scan jf" and at: "at_block jf s m c k" and rst: "rst_synced jf s"
    and one: "cs_cmpc jf = 1"
  shows "\<exists>s'. next_mcu_pos jf s = (status_after jf m (Suc m), s') \<and> unat (mcu s') = Suc m
    \<and> (Suc m < unat (mcuc jf) \<longrightarrow> at_block jf s' (Suc m) 0 0)
    \<and> (status_after jf m (Suc m) = DecodeInProgress \<longrightarrow> rst_synced jf s')"
proof -
  note A = at [unfolded at_block_def]
  have c: "c = 0" "0 < cs_cmpc jf" using A one by auto
  note H = header_component [OF ok c(2)]
  define ci where "ci = cmp_info jf ! (cs_cmp jf ! 0)"
  have mbs: "mbs ci = 1" using reg one by (simp add: regular_scan_def ci_def)
  then have "unat (sfh ci) * unat (sfv ci) = 1" using H(7) by (simp add: ci_def)
  then have one_one: "unat (sfh ci) = 1" "unat (sfv ci) = 1" by simp_all
  have g: "component_ok jf ci" using ok H(13) by (simp add: header_ok_def geometry_ok_def ci_def)
  then have "bch ci = nch ci" "bcv ci = ncv ci"
    using one_one by (auto simp: component_ok_def word_unat_eq_iff word_le_nat_alt)
  moreover have bc: "unat (bc ci) = unat (mcuc jf)" using H one_one by (simp add: ci_def)
  moreover have pos: "block_pos jf (cs_cmp jf ! 0) x 0 = x" for x
    using one_one by (simp add: block_pos_def ci_def Let_def)
  have d: "unat (dpos s) = m" "m < unat (mcuc jf)" "csc s = 0" "sub s = 0" "cmp s = cs_cmp jf ! 0" "unat (mcu s) = m"
    using A c mbs pos by (auto simp: ci_def unat_eq_zero)
  have d1: "unat (dpos s + 1) = Suc m"
    using d(1,2) unat_lt2p [of "mcuc jf"] by (simp only: unat_word_ariths) simp
  have "sfv ci = 1" "sfh ci = 1" using one_one by (simp_all add: word_unat_eq_iff)
  then have sf: "sfv ci * sfh ci = 1" by simp
  define s1 where "s1 = s\<lparr>dpos := dpos s + 1, mcu := dpos s + 1\<rparr>"
  define s2 where "s2 = s\<lparr>dpos := dpos s + 1, mcu := dpos s + 1, rstw := rstw s - 1\<rparr>"
  have seq: "jpeg_type jf = Sequential" using reg by (simp add: regular_scan_def)
  have run: "next_mcu_pos jf s =
    (if unat (mcuc jf) \<le> Suc m then (ScanCompleted, s1)
     else if 0 < rsti jf then (if rstw s - 1 = 0 then RestartIntervalExpired else DecodeInProgress, s2) else (DecodeInProgress, s1))"
    using calculation d(5) sf seq one
    by (simp add: next_mcu_pos_def next_mcu_pos_noninterleaved_def Let_def ci_def s1_def s2_def word_le_nat_alt d1 del: One_nat_def)
  have at': "at_block jf t (Suc m) 0 0" if "Suc m < unat (mcuc jf)" "t = s1 \<or> t = s2" for t
    using that d d1 c pos mbs by (auto simp: at_block_def s1_def s2_def ci_def)
  have s2': "s2 = s\<lparr>mcu := dpos s + 1, rstw := rstw s - 1, csc := csc s, cmp := cmp s, sub := sub s, dpos := dpos s + 1\<rparr>" by (simp add: s2_def)
  note R = rstw_step [OF rst _ d(6) s2' d1]
  show ?thesis
    using run at' R rst_synced_no [of jf] d1 by (auto simp: status_after_def s1_def s2_def)
qed

lemma block_after_at:
  assumes "header_ok a jf" "at_block jf s m c k" "block_after jf (m, c, k) = (m', c', k')" "m' < unat (mcuc jf)"
  shows "c' < cs_cmpc jf" "k' < unat (mbs (cmp_info jf ! (cs_cmp jf ! c')))"
proof -
  have A: "c < cs_cmpc jf" using assms(2) by (simp add: at_block_def)
  show c: "c' < cs_cmpc jf" using assms(3) A by (auto split: if_splits)
  have "0 < unat (mbs (cmp_info jf ! (cs_cmp jf ! c')))" using header_component [OF assms(1) c] by simp
  then show "k' < unat (mbs (cmp_info jf ! (cs_cmp jf ! c')))" using assms(3) by (auto split: if_splits)
qed

lemma next_mcu_pos_multi:
  assumes ok: "header_ok a jf" and at: "at_block jf s m c k" and rst: "rst_synced jf s"
    and several: "cs_cmpc jf \<noteq> 1" and nxt: "block_after jf (m, c, k) = (m', c', k')"
  shows "\<exists>s'. next_mcu_pos jf s = (status_after jf m m', s') \<and> unat (mcu s') = m'
    \<and> (m' < unat (mcuc jf) \<longrightarrow> at_block jf s' m' c' k')
    \<and> (status_after jf m m' = DecodeInProgress \<longrightarrow> rst_synced jf s')"
proof -
  note A = at [unfolded at_block_def]
  have c: "c < cs_cmpc jf" using A by simp
  let ?mbs = "\<lambda>c. unat (mbs (cmp_info jf ! (cs_cmp jf ! c)))"
  have d: "unat (mcu s) = m" "m < unat (mcuc jf)" "csc s = c" "unat (sub s) = k" "cmp s = cs_cmp jf ! c" "k < ?mbs c"
    using A by auto
  have k1: "unat (sub s + 1) = Suc k"
    using d(4,6) unat_lt2p [of "mbs (cmp_info jf ! (cs_cmp jf ! c))"] by (simp only: unat_word_ariths) simp
  have m1: "unat (mcu s + 1) = Suc m"
    using d(1,2) unat_lt2p [of "mcuc jf"] by (simp only: unat_word_ariths) simp
  have at': "at_block jf (t\<lparr>dpos := mcu_dpos jf (cmp t) (mcu t) (sub t)\<rparr>) m' c' k'"
    if "m' < unat (mcuc jf)" "unat (mcu t) = m'" "csc t = c'" "unat (sub t) = k'" "cmp t = cs_cmp jf ! c'" for t
  proof -
    note B = block_after_at [OF ok at nxt that(1)]
    show ?thesis using mcu_dpos_pos [OF ok B(1), of "mcu t" "sub t"] that B by (simp add: at_block_def)
  qed
  have m: "status_after jf m m = DecodeInProgress" using d(2) by (simp add: status_after_def)
  show ?thesis
  proof (cases "Suc k < ?mbs c")
    case True
    then have n: "m' = m" "c' = c" "k' = Suc k" using nxt by simp_all
    define t where "t = s\<lparr>sub := sub s + 1\<rparr>"
    have "next_mcu_pos jf s = (DecodeInProgress, t\<lparr>dpos := mcu_dpos jf (cmp t) (mcu t) (sub t)\<rparr>)"
      using several True d(5) by (simp add: next_mcu_pos_def Let_def t_def word_le_nat_alt k1)
    then show ?thesis
      using at' [of t] n d k1 m rst_synced_other [OF rst] by (simp add: t_def)
  next
    case last: False
    show ?thesis
    proof (cases "Suc c < cs_cmpc jf")
      case True
      then have n: "m' = m" "c' = Suc c" "k' = 0" using nxt last by simp_all
      define t where "t = s\<lparr>sub := 0, csc := csc s + 1, cmp := cs_cmp jf ! (csc s + 1)\<rparr>"
      have "next_mcu_pos jf s = (DecodeInProgress, t\<lparr>dpos := mcu_dpos jf (cmp t) (mcu t) (sub t)\<rparr>)"
        using several True last d(3,5) by (simp add: next_mcu_pos_def Let_def t_def word_le_nat_alt k1)
      then show ?thesis
        using at' [of t] n d m rst_synced_other [OF rst] by (simp add: t_def)
    next
      case False
      then have n: "m' = Suc m" "c' = 0" "k' = 0" using nxt last by simp_all
      define i where "i = mcu s + 1"
      have i: "unat i = Suc m" using m1 by (simp add: i_def)
      define t where "t = s\<lparr>sub := 0, csc := 0, cmp := cs_cmp jf ! 0, mcu := i\<rparr>"
      define u where "u = s\<lparr>sub := 0, csc := 0, cmp := cs_cmp jf ! 0, mcu := i, rstw := rstw s - 1\<rparr>"
      have run: "next_mcu_pos jf s =
        (let (sta, t) = (if unat (mcuc jf) \<le> Suc m then (ScanCompleted, t)
           else if 0 < rsti jf then (if rstw s - 1 = 0 then RestartIntervalExpired else DecodeInProgress, u)
           else (DecodeInProgress, t)) in (sta, t\<lparr>dpos := mcu_dpos jf (cmp t) (mcu t) (sub t)\<rparr>))"
        using several False last d(3,5) i by (simp add: next_mcu_pos_def Let_def t_def u_def word_le_nat_alt k1 i_def)
      define u' where "u' = u\<lparr>dpos := mcu_dpos jf (cmp u) (mcu u) (sub u)\<rparr>"
      have u': "u' = s\<lparr>mcu := i, rstw := rstw s - 1, csc := 0, cmp := cs_cmp jf ! 0, sub := 0, dpos := mcu_dpos jf (cmp u) (mcu u) (sub u)\<rparr>"
        by (simp add: u'_def u_def)
      have mu: "unat (mcu u') = Suc m" using i by (simp add: u'_def u_def)
      note R = rstw_step [OF rst _ d(1) u' i]
      have au: "Suc m < unat (mcuc jf) \<longrightarrow> at_block jf u' m' c' k'" using at' [of u] n i by (simp add: u_def u'_def)
      have at: "Suc m < unat (mcuc jf) \<longrightarrow> at_block jf (t\<lparr>dpos := mcu_dpos jf (cmp t) (mcu t) (sub t)\<rparr>) m' c' k'"
        using at' [of t] n i by (simp add: t_def)
      show ?thesis
      proof (cases "unat (mcuc jf) \<le> Suc m \<or> \<not> 0 < rsti jf")
        case True
        then show ?thesis using run at n i rst_synced_no [of jf] by (auto simp: status_after_def t_def)
      next
        case False
        then have "next_mcu_pos jf s = (if rstw s - 1 = 0 then RestartIntervalExpired else DecodeInProgress, u')"
          using run by (simp add: u'_def)
        moreover have "status_after jf m m' = (if rstw s - 1 = 0 then RestartIntervalExpired else DecodeInProgress)"
          using R(1) False n by (simp add: status_after_def)
        ultimately show ?thesis using R au n mu False by auto
      qed
    qed
  qed
qed

text \<open>\<open>next_mcu_pos\<close> moves to the next block, and says when the interval and the scan end.\<close>

lemma next_mcu_pos_step:
  assumes "header_ok a jf" "regular_scan jf" "at_block jf s m c k" "rst_synced jf s" "block_after jf (m, c, k) = (m', c', k')"
  shows "\<exists>s'. next_mcu_pos jf s = (status_after jf m m', s') \<and> unat (mcu s') = m'
    \<and> (m' < unat (mcuc jf) \<longrightarrow> at_block jf s' m' c' k')
    \<and> (status_after jf m m' = DecodeInProgress \<longrightarrow> rst_synced jf s')"
proof (cases "cs_cmpc jf = 1")
  case True
  then have "c = 0" "k = 0" using assms(2,3) by (auto simp: at_block_def regular_scan_def)
  then have "m' = Suc m" "c' = 0" "k' = 0" using assms(2,5) True by (auto simp: regular_scan_def)
  then show ?thesis using next_mcu_pos_single [OF assms(1-4) True] by simp
next
  case False
  then show ?thesis using next_mcu_pos_multi [OF assms(1,3,4) False assms(5)] by blast
qed

text \<open>A scan, and every row of MCUs, is entered at its first block.\<close>

lemma at_block_new:
  assumes ok: "header_ok a jf" and m: "unat m < unat (mcuc jf)" "unat m mod unat (mcuh jf) = 0"
  shows "at_block jf (JpegPositionState_new jf m) (unat m) 0 0" "rst_synced jf (JpegPositionState_new jf m)"
proof -
  have "scan_ok jf" using ok by (simp add: header_ok_def)
  then have c: "0 < cs_cmpc jf" by (simp add: scan_ok_def)
  note H = header_component [OF ok c]
  define ci where "ci = cmp_info jf ! (cs_cmp jf ! 0)"
  have k: "0 < unat (mbs ci)" using H by (simp add: ci_def)
  have "block_pos jf (cs_cmp jf ! 0) (unat m) 0 = unat m div unat (mcuh jf) * unat (mcuh jf) * (unat (sfv ci) * unat (sfh ci))"
    using m(2) by (simp add: block_pos_def Let_def ci_def)
  also have "\<dots> = unat m * (unat (sfv ci) * unat (sfh ci))" using m(2) by auto
  finally have pos: "block_pos jf (cs_cmp jf ! 0) (unat m) 0 = unat m * (unat (sfv ci) * unat (sfh ci))" .
  have "block_pos jf (cs_cmp jf ! 0) (unat m) 0 < 2 ^ 32"
    using block_pos_less [OF ok c m(1), of 0] k unat_lt2p [of "bc ci"] by (simp add: ci_def)
  then have "unat (m * (sfv ci * sfh ci)) = block_pos jf (cs_cmp jf ! 0) (unat m) 0"
    unfolding pos by (simp add: unat_word_ariths mod_simps)
  then show "at_block jf (JpegPositionState_new jf m) (unat m) 0 0"
    using m k c by (simp add: at_block_def JpegPositionState_new_def Let_def ci_def)
  have "unat (rsti jf - m mod rsti jf) = unat (rsti jf) - unat m mod unat (rsti jf)" if "0 < rsti jf"
    using that word_mod_less_divisor [of "rsti jf" m] by (simp add: unat_sub unat_mod_distrib word_gt_0)
  then show "rst_synced jf (JpegPositionState_new jf m)"
    by (simp add: rst_synced_def JpegPositionState_new_def Let_def word_gt_0)
qed

end
