(* ===== verification/Prog_Block.thy ===== *)
theory Prog_Block
  imports Scan_Block Scan_Position
begin

unbundle bit_operations_syntax

text \<open>
  One block of a progressive scan (\<open>jpeg/jpeg_read.rs\<close> and \<open>jpeg/jpeg_write.rs\<close>): the first pass over a band
  of AC coefficients, the passes that refine it, and the runs of blocks without further coefficients
  (\<open>eobrun\<close>), which are kept in the position of the scan. The bits that correct known coefficients are
  collected by the writer until the code in front of them is known.
\<close>

section \<open>Reading\<close>

text \<open>\<open>decode_eobrun_bits\<close> adds the leading bit that the code leaves out.\<close>

definition decode_eobrun_bits :: "u8 \<Rightarrow> u16 \<Rightarrow> u16" where
  "decode_eobrun_bits s n = n + push_bit (unat s mod 16) 1"

fun zero_run :: "nat \<Rightarrow> usize \<Rightarrow> i16 list \<Rightarrow> i16 list result" where
  "zero_run 0 bpos block = Ok block"
| "zero_run (Suc z) bpos block = bindR (set_idx block bpos 0) (zero_run z (bpos + 1))"

fun prg_fs_loop ::
  "nat \<Rightarrow> HuffTree \<Rightarrow> u8 \<Rightarrow> u8 \<Rightarrow> i16 list \<Rightarrow> JpegPositionState \<Rightarrow> BitReader
    \<Rightarrow> ((u8 \<times> i16 list \<times> JpegPositionState) \<times> BitReader) result option"
where
  "prg_fs_loop 0 actree to bpos block st r = None"
| "prg_fs_loop (Suc k) actree to bpos block st r =
    (if bpos \<le> to
     then bindF (next_huff_code k actree r) (\<lambda>(hc, r).
       let l = lbits hc 4; s = rbits hc 4
       in if l = 15 \<or> 0 < s
          then bindF (Some (read (ucast s) r)) (\<lambda>(n, r).
            if to < l + bpos then Some (err_exit_code UnsupportedJpeg)
            else bindF (Some (zero_run (unat l) (unat bpos) block)) (\<lambda>block.
              let bpos = bpos + l
              in bindF (Some (set_idx block (unat bpos) (devli s n))) (\<lambda>block.
                 prg_fs_loop k actree to (bpos + 1) block st r)))
          else bindF (Some (read (ucast l) r)) (\<lambda>(n, r).
            Some (Ok ((bpos, block, st\<lparr>eobrun := decode_eobrun_bits l n - 1\<rparr>), r))))
     else Some (Ok ((bpos, block, st), r)))"

definition decode_ac_prg_fs ::
  "nat \<Rightarrow> HuffTree \<Rightarrow> i16 list \<Rightarrow> JpegPositionState \<Rightarrow> u8 \<Rightarrow> u8 \<Rightarrow> BitReader
    \<Rightarrow> ((u8 \<times> i16 list \<times> JpegPositionState) \<times> BitReader) result option"
where
  "decode_ac_prg_fs k actree block st from_pos to r = prg_fs_loop k actree to from_pos block st r"

text \<open>A correction bit, with the sign of the coefficient it belongs to.\<close>

definition correct :: "i16 \<Rightarrow> u16 \<Rightarrow> i16" where
  "correct c n = (if 0 < sint c then ucast n else - ucast n)"

fun eobrun_sa_loop :: "usize list \<Rightarrow> i16 list \<Rightarrow> BitReader \<Rightarrow> (i16 list \<times> BitReader) result" where
  "eobrun_sa_loop [] block r = Ok (block, r)"
| "eobrun_sa_loop (bpos # ps) block r =
    bindR (idx block bpos) (\<lambda>c.
      if c \<noteq> 0 then bindR (read 1 r) (\<lambda>(n, r). eobrun_sa_loop ps (block[bpos := correct c n]) r)
      else eobrun_sa_loop ps block r)"

definition decode_eobrun_sa ::
  "i16 list \<Rightarrow> JpegPositionState \<Rightarrow> u8 \<Rightarrow> u8 \<Rightarrow> BitReader \<Rightarrow> ((i16 list \<times> JpegPositionState) \<times> BitReader) result"
where
  "decode_eobrun_sa block st from_pos to r =
    bindR (eobrun_sa_loop [unat from_pos..<unat (to + 1)] block r) (\<lambda>(block, r).
      Ok ((block, st\<lparr>eobrun := eobrun st - 1\<rparr>), r))"

text \<open>The loop that skips \<open>z\<close> zeros, corrects the coefficients on its way, and sets the next zero to \<open>v\<close>.\<close>

function sa_run :: "u8 \<Rightarrow> i16 \<Rightarrow> u8 \<Rightarrow> u8 \<Rightarrow> i16 list \<Rightarrow> BitReader \<Rightarrow> ((u8 \<times> i16 list) \<times> BitReader) result" where
  "sa_run z v to bpos block r =
    bindR (idx block (unat bpos)) (\<lambda>c.
      if c = 0 \<and> z = 0 then Ok ((bpos + 1, block[unat bpos := v]), r)
      else bindR (if c = 0 then Ok (block, r)
                  else bindR (read 1 r) (\<lambda>(n, r). Ok (block[unat bpos := correct c n], r))) (\<lambda>(block, r).
        if to \<le> bpos then err_exit_code UnsupportedJpeg
        else sa_run (if c = 0 then z - 1 else z) v to (bpos + 1) block r))"
  by pat_completeness auto

termination sa_run
proof (relation "measure (\<lambda>(z, v, to, bpos, block, r). unat to - unat bpos)")
  fix to bpos :: u8 and z :: u8 and v :: i16 and block block' :: "i16 list" and r r' :: BitReader and c :: i16
  assume "\<not> to \<le> bpos"
  then have b: "unat bpos < unat to" by (simp add: word_le_nat_alt)
  then have "unat (bpos + 1) = unat bpos + 1" using unat_lt2p [of to] by (simp only: unat_word_ariths) simp
  then show "((if c = 0 then z - 1 else z, v, to, bpos + 1, block', r'), z, v, to, bpos, block, r)
    \<in> measure (\<lambda>(z, v, to, bpos, block, r). unat to - unat bpos)" using b by simp
qed simp

declare sa_run.simps [simp del]

fun prg_sa_loop ::
  "nat \<Rightarrow> HuffTree \<Rightarrow> u8 \<Rightarrow> u8 \<Rightarrow> i16 list \<Rightarrow> JpegPositionState \<Rightarrow> BitReader
    \<Rightarrow> ((u8 \<times> i16 list \<times> JpegPositionState) \<times> BitReader) result option"
where
  "prg_sa_loop 0 actree to bpos block st r = None"
| "prg_sa_loop (Suc k) actree to bpos block st r =
    (if bpos \<le> to
     then bindF (next_huff_code k actree r) (\<lambda>(hc, r).
       let l = lbits hc 4; s = rbits hc 4
       in if l = 15 \<or> 0 < s
          then bindF (Some (if s = 0 then Ok (0, r)
                            else if s = 1 then bindR (read 1 r) (\<lambda>(n, r). Ok (if n = 0 then - 1 else 1, r))
                            else err_exit_code UnsupportedJpeg)) (\<lambda>(v, r).
               bindF (Some (sa_run l v to bpos block r)) (\<lambda>((bpos, block), r).
                 prg_sa_loop k actree to bpos block st r))
          else bindF (Some (read (ucast l) r)) (\<lambda>(n, r).
               bindF (Some (decode_eobrun_sa block (st\<lparr>eobrun := decode_eobrun_bits l n\<rparr>) bpos to r)) (\<lambda>((block, st), r).
                 Some (Ok ((bpos, block, st), r)))))
     else Some (Ok ((to, block, st), r)))"

definition decode_ac_prg_sa ::
  "nat \<Rightarrow> HuffTree \<Rightarrow> i16 list \<Rightarrow> JpegPositionState \<Rightarrow> u8 \<Rightarrow> u8 \<Rightarrow> BitReader
    \<Rightarrow> ((u8 \<times> i16 list \<times> JpegPositionState) \<times> BitReader) result option"
where
  "decode_ac_prg_sa k actree block st from_pos to r = prg_sa_loop k actree to from_pos block st r"

section \<open>Writing\<close>

definition encode_eobrun_bits :: "u8 \<Rightarrow> u16 \<Rightarrow> u16" where
  "encode_eobrun_bits s v = v - push_bit (unat s mod 16) 1"

text \<open>\<open>huffw.write(actbl.c_val[hc].into(), actbl.c_len[hc].into())\<close>\<close>

definition write_code :: "HuffCodes \<Rightarrow> nat \<Rightarrow> BitWriter \<Rightarrow> BitWriter result" where
  "write_code actbl hc w =
    bindR (idx (c_val actbl) hc) (\<lambda>val. bindR (idx (c_len actbl) hc) (\<lambda>len. Ok (write_bits (ucast val) (ucast len) w)))"

definition encode_eobrun :: "HuffCodes \<Rightarrow> JpegPositionState \<Rightarrow> BitWriter \<Rightarrow> (JpegPositionState \<times> BitWriter) result" where
  "encode_eobrun actbl st w =
    (if 0 < eobrun st
     then let s = u16_bit_length (eobrun st) - 1;
              n = encode_eobrun_bits s (eobrun st);
              hc = push_bit 4 s
          in bindR (write_code actbl (unat hc) w) (\<lambda>w.
               Ok (st\<lparr>eobrun := 0\<rparr>, write_bits (ucast n) (ucast s) w))
     else Ok (st, w))"

definition encode_crbits :: "u8 list \<Rightarrow> BitWriter \<Rightarrow> BitWriter" where
  "encode_crbits correction_bits w = fold (\<lambda>x. write_bits (ucast x) 1) correction_bits w"

definition div_pow2 :: "i16 \<Rightarrow> u8 \<Rightarrow> i16" where
  "div_pow2 v p = sshr (if sint v < 0 then v + (push_bit (unat p mod 16) 1 - 1) else v) (unat p mod 16)"

function write_runs :: "u32 \<Rightarrow> HuffCodes \<Rightarrow> BitWriter \<Rightarrow> (u32 \<times> BitWriter) result" where
  "write_runs z actbl w =
    (if 16 \<le> z then bindR (write_code actbl 0xF0 w) (write_runs (z - 16) actbl) else Ok (z, w))"
  by pat_completeness auto

termination write_runs
  by (relation "measure (\<lambda>(z, _). unat z)") (auto simp: word_le_nat_alt unat_sub)

declare write_runs.simps [simp del]

fun prg_fs_write ::
  "usize list \<Rightarrow> HuffCodes \<Rightarrow> i16 list \<Rightarrow> u32 \<Rightarrow> JpegPositionState \<Rightarrow> BitWriter \<Rightarrow> (u32 \<times> JpegPositionState \<times> BitWriter) result"
where
  "prg_fs_write [] actbl block z st w = Ok (z, st, w)"
| "prg_fs_write (bpos # ps) actbl block z st w =
    bindR (idx block bpos) (\<lambda>tmp.
      if tmp \<noteq> 0
      then bindR (encode_eobrun actbl st w) (\<lambda>(st, w).
           bindR (write_runs z actbl w) (\<lambda>(z, w).
           bindR (write_coef_huff (sint tmp < 0) (abs_u16 tmp) z actbl w) (\<lambda>w.
             prg_fs_write ps actbl block 0 st w)))
      else prg_fs_write ps actbl block (z + 1) st w)"

text \<open>The run of empty blocks grows by one, and is written when it cannot grow further.\<close>

definition grow_eobrun ::
  "HuffCodes \<Rightarrow> u8 list \<Rightarrow> JpegPositionState \<Rightarrow> BitWriter \<Rightarrow> (u8 list \<times> JpegPositionState \<times> BitWriter) result"
where
  "grow_eobrun actbl correction_bits st w =
    (if max_eob_run actbl = 0 then err_exit_code UnsupportedJpeg
     else let st = st\<lparr>eobrun := eobrun st + 1\<rparr>
          in if eobrun st = max_eob_run actbl
             then bindR (encode_eobrun actbl st w) (\<lambda>(st, w). Ok ([], st, encode_crbits correction_bits w))
             else Ok (correction_bits, st, w))"

definition encode_ac_prg_fs ::
  "HuffCodes \<Rightarrow> i16 list \<Rightarrow> JpegPositionState \<Rightarrow> u8 \<Rightarrow> u8 \<Rightarrow> BitWriter \<Rightarrow> (JpegPositionState \<times> BitWriter) result"
where
  "encode_ac_prg_fs actbl block st from_pos to w =
    bindR (prg_fs_write [unat from_pos..<unat (to + 1)] actbl block 0 st w) (\<lambda>(z, st, w).
      if 0 < z then bindR (grow_eobrun actbl [] st w) (\<lambda>(_, st, w). Ok (st, w)) else Ok (st, w))"

text \<open>The search for the last coefficient that becomes nonzero. Below position 0 the index wraps, and the
  access to the block panics.\<close>

fun find_sa_eob :: "u8 list \<Rightarrow> i16 list \<Rightarrow> u8 \<Rightarrow> u8 result" where
  "find_sa_eob [] block from_pos = (if from_pos = 0 then panic else Ok from_pos)"
| "find_sa_eob (bpos # ps) block from_pos =
    bindR (idx block (unat bpos)) (\<lambda>c. if c = 1 \<or> c = - 1 then Ok (bpos + 1) else find_sa_eob ps block from_pos)"

fun prg_sa_write ::
  "usize list \<Rightarrow> HuffCodes \<Rightarrow> i16 list \<Rightarrow> u32 \<Rightarrow> u8 list \<Rightarrow> BitWriter \<Rightarrow> (u8 list \<times> BitWriter) result"
where
  "prg_sa_write [] actbl block z correction_bits w = Ok (correction_bits, w)"
| "prg_sa_write (bpos # ps) actbl block z correction_bits w =
    bindR (idx block bpos) (\<lambda>tmp.
      if tmp = 0
      then if z + 1 = 16
           then bindR (write_code actbl 0xF0 w) (\<lambda>w.
                prg_sa_write ps actbl block 0 [] (encode_crbits correction_bits w))
           else prg_sa_write ps actbl block (z + 1) correction_bits w
      else if tmp = 1 \<or> tmp = - 1
      then bindR (write_coef_huff (sint tmp < 0) (abs_u16 tmp) z actbl w) (\<lambda>w.
           prg_sa_write ps actbl block 0 [] (encode_crbits correction_bits w))
      else prg_sa_write ps actbl block z (correction_bits @ [ucast (tmp AND 1)]) w)"

fun late_bits :: "usize list \<Rightarrow> i16 list \<Rightarrow> u8 list result" where
  "late_bits [] block = Ok []"
| "late_bits (bpos # ps) block =
    bindR (idx block bpos) (\<lambda>c. bindR (late_bits ps block) (\<lambda>cs. Ok (if c \<noteq> 0 then ucast (c AND 1) # cs else cs)))"

definition encode_ac_prg_sa ::
  "HuffCodes \<Rightarrow> i16 list \<Rightarrow> JpegPositionState \<Rightarrow> u8 \<Rightarrow> u8 \<Rightarrow> u8 list \<Rightarrow> BitWriter
    \<Rightarrow> (u8 list \<times> JpegPositionState \<times> BitWriter) result"
where
  "encode_ac_prg_sa actbl block st from_pos to correction_bits w =
    bindR (find_sa_eob (map of_nat (rev [unat from_pos..<unat to + 1])) block from_pos) (\<lambda>eob.
    bindR (if from_pos < eob \<and> 0 < eobrun st
           then bindR (encode_eobrun actbl st w) (\<lambda>(st, w). Ok ([], st, encode_crbits correction_bits w))
           else Ok (correction_bits, st, w)) (\<lambda>(correction_bits, st, w).
    bindR (prg_sa_write [unat from_pos..<unat eob] actbl block 0 correction_bits w) (\<lambda>(correction_bits, w).
    bindR (late_bits [unat eob..<unat (to + 1)] block) (\<lambda>late.
      let correction_bits = correction_bits @ late
      in if eob \<le> to then grow_eobrun actbl correction_bits st w else Ok (correction_bits, st, w)))))"

end
