(* ===== verification/Scan_Writer.thy ===== *)
theory Scan_Writer
  imports Prog_Block
begin

unbundle bit_operations_syntax

text \<open>
  Writing the scans of a JPEG file (\<open>jpeg/jpeg_write.rs\<close>): the MCUs of a row with the padding and the markers of
  the restart intervals that end in it, the writer that takes the rows of a segment as they are decoded, and the
  function that writes a whole scan.
\<close>

text \<open>One block: where the scan goes on, the last DC values, the correction bits of progressive scans, the output.\<close>

definition sequential_block ::
  "simd16 \<Rightarrow> JpegHeader \<Rightarrow> AlignedBlock \<Rightarrow> JpegPositionState \<Rightarrow> i16 list \<Rightarrow> BitWriter
    \<Rightarrow> ((JpegDecodeStatus \<times> JpegPositionState) \<times> i16 list \<times> BitWriter) result"
where
  "sequential_block V jf current st lastdc w =
    (let block = zigzag_from_transposed current;
         c = cmp st;
         dc = get_block block ! 0
     in bindR (encode_block_seq V (get_huff_dc_codes jf c) (get_huff_ac_codes jf c)
                (AlignedBlock_new ((get_block block)[0 := dc - lastdc ! c])) w) (\<lambda>w.
          Ok (next_mcu_pos jf st, lastdc[c := dc], w)))"

definition progressive_dc_block ::
  "JpegHeader \<Rightarrow> AlignedBlock \<Rightarrow> JpegPositionState \<Rightarrow> i16 list \<Rightarrow> BitWriter
    \<Rightarrow> ((JpegDecodeStatus \<times> JpegPositionState) \<times> i16 list \<times> BitWriter) result"
where
  "progressive_dc_block jf current st lastdc w =
    (let c = cmp st; tmp = sshr (get_transposed_from_zigzag current 0) (unat (cs_sal jf) mod 16)
     in if cs_sah jf = 0
        then let v = tmp - lastdc ! c
             in bindR (write_coef_huff (sint v < 0) (abs_u16 v) 0 (get_huff_dc_codes jf c) w) (\<lambda>w.
                  Ok (next_mcu_pos jf st, lastdc[c := tmp], w))
        else Ok (next_mcu_pos jf st, lastdc, write_bits (scast (tmp AND 1)) 1 w))"

definition progressive_ac_block ::
  "JpegHeader \<Rightarrow> AlignedBlock \<Rightarrow> JpegPositionState \<Rightarrow> u8 list \<Rightarrow> BitWriter
    \<Rightarrow> ((JpegDecodeStatus \<times> JpegPositionState) \<times> u8 list \<times> BitWriter) result"
where
  "progressive_ac_block jf current st correction_bits w =
    (let c = cmp st; actbl = get_huff_ac_codes jf c;
         block = fold (\<lambda>bpos b. b[bpos := div_pow2 (get_transposed_from_zigzag current bpos) (cs_sal jf)])
           [unat (cs_from jf)..<unat (cs_to jf + 1)] (replicate 64 0)
     in if cs_sah jf = 0
        then bindR (encode_ac_prg_fs actbl block st (cs_from jf) (cs_to jf) w) (\<lambda>(st, w).
             let (sta, st) = next_mcu_pos jf st
             in if sta \<noteq> DecodeInProgress
                then bindR (encode_eobrun (get_huff_ac_codes jf (cmp st)) st w) (\<lambda>(st, w). Ok ((sta, st), correction_bits, w))
                else Ok ((sta, st), correction_bits, w))
        else bindR (encode_ac_prg_sa actbl block st (cs_from jf) (cs_to jf) correction_bits w) (\<lambda>(correction_bits, st, w).
             let (sta, st) = next_mcu_pos jf st
             in if sta \<noteq> DecodeInProgress
                then bindR (encode_eobrun (get_huff_ac_codes jf (cmp st)) st w) (\<lambda>(st, w).
                  Ok ((sta, st), [], encode_crbits correction_bits w))
                else Ok ((sta, st), correction_bits, w)))"

definition recode_block ::
  "simd16 \<Rightarrow> JpegHeader \<Rightarrow> BlockBasedImage list \<Rightarrow> JpegPositionState \<Rightarrow> i16 list \<Rightarrow> u8 list \<Rightarrow> BitWriter
    \<Rightarrow> ((JpegDecodeStatus \<times> JpegPositionState) \<times> i16 list \<times> u8 list \<times> BitWriter) result"
where
  "recode_block V jf framebuffer st lastdc correction_bits w =
    bindR (idx framebuffer (cmp st)) (\<lambda>im.
    let current = get_block_at im (dpos st)
    in if jpeg_type jf = Sequential
       then bindR (sequential_block V jf current st lastdc w) (\<lambda>(n, lastdc, w). Ok (n, lastdc, correction_bits, w))
       else if cs_to jf = 0
       then bindR (progressive_dc_block jf current st lastdc w) (\<lambda>(n, lastdc, w). Ok (n, lastdc, correction_bits, w))
       else bindR (progressive_ac_block jf current st correction_bits w) (\<lambda>(n, correction_bits, w).
              Ok (n, lastdc, correction_bits, w)))"

text \<open>The end of a restart interval or of the scan: padding, and the marker in front of the next interval.\<close>

definition write_rst :: "JpegHeader \<Rightarrow> ReconstructionInfo \<Rightarrow> nat \<Rightarrow> u32 \<Rightarrow> BitWriter \<Rightarrow> (u32 \<times> BitWriter) result" where
  "write_rst jf rinfo current_scan_index markers w =
    bindR (if rst_cnt rinfo = [] \<or> \<not> rst_cnt_set rinfo then Ok True
           else bindR (idx (rst_cnt rinfo) current_scan_index) (\<lambda>n. Ok (markers < n))) (\<lambda>more.
      if more
      then bindR (write_byte_unescaped 0xFF w) (\<lambda>w.
           bindR (write_byte_unescaped (RST0 + ucast (markers AND 7)) w) (\<lambda>w. Ok (markers + 1, w)))
      else Ok (markers, w))"

text \<open>The two nested loops of the source as one: \<open>end_of_row\<close> is set in the inner one, which is then left.\<close>

fun recode_loop ::
  "nat \<Rightarrow> simd16 \<Rightarrow> BlockBasedImage list \<Rightarrow> JpegHeader \<Rightarrow> ReconstructionInfo \<Rightarrow> nat
    \<Rightarrow> JpegPositionState \<Rightarrow> u32 \<Rightarrow> u8 list \<Rightarrow> i16 list \<Rightarrow> BitWriter \<Rightarrow> (bool \<times> i16 list \<times> BitWriter) result option"
where
  "recode_loop 0 V framebuffer jf rinfo current_scan_index st markers correction_bits lastdc w = None"
| "recode_loop (Suc n) V framebuffer jf rinfo current_scan_index st markers correction_bits lastdc w =
    bindF (Some (recode_block V jf framebuffer st lastdc correction_bits w)) (\<lambda>((sta, st'), lastdc, correction_bits, w).
      let end_of_row = (mcu st \<noteq> mcu st' \<and> mcu st' mod mcuh jf = 0)
      in if sta = DecodeInProgress
         then if end_of_row then Some (Ok (False, lastdc, w))
              else recode_loop n V framebuffer jf rinfo current_scan_index st' markers correction_bits lastdc w
         else
           let w = pad (case pad_bit rinfo of None \<Rightarrow> 0 | Some b \<Rightarrow> b) w
           in bindF (Some (assertR (has_no_remainder w))) (\<lambda>_.
              if sta = ScanCompleted then Some (Ok (True, lastdc, w))
              else if 0 < rsti jf
              then bindF (Some (write_rst jf rinfo current_scan_index markers w)) (\<lambda>(markers, w).
                   let st' = reset_rstw jf st'; lastdc = replicate (length lastdc) 0
                   in if end_of_row then Some (Ok (False, lastdc, w))
                      else recode_loop n V framebuffer jf rinfo current_scan_index st' markers correction_bits lastdc w)
              else if end_of_row then Some (Ok (False, lastdc, w))
              else recode_loop n V framebuffer jf rinfo current_scan_index st' markers correction_bits lastdc w))"

definition recode_one_mcu_row ::
  "nat \<Rightarrow> simd16 \<Rightarrow> u32 \<Rightarrow> i16 list \<Rightarrow> BlockBasedImage list \<Rightarrow> JpegHeader \<Rightarrow> ReconstructionInfo \<Rightarrow> nat \<Rightarrow> BitWriter
    \<Rightarrow> (bool \<times> i16 list \<times> BitWriter) result option"
where
  "recode_one_mcu_row n V m lastdc framebuffer jf rinfo current_scan_index w =
    (let st = JpegPositionState_new jf m
     in recode_loop n V framebuffer jf rinfo current_scan_index st (get_cumulative_reset_markers jf st) [] lastdc w)"

section \<open>The writer of a segment\<close>

record JpegIncrementalWriter =
  inc_last_dc :: "i16 list"
  huffw :: BitWriter
  inc_rinfo :: ReconstructionInfo
  inc_header :: JpegHeader
  inc_capacity :: usize
  inc_scan_index :: nat

definition JpegIncrementalWriter_new ::
  "usize \<Rightarrow> (usize \<Rightarrow> usize \<Rightarrow> usize) \<Rightarrow> ReconstructionInfo \<Rightarrow> RestartSegmentCodingInfo option \<Rightarrow> JpegHeader \<Rightarrow> nat
    \<Rightarrow> JpegIncrementalWriter"
where
  "JpegIncrementalWriter_new cap alloc reconstruction_info rinfo jf current_scan_index =
    (let w = BitWriter_new [] cap alloc;
         w = (case rinfo of
                Some r \<Rightarrow> reset_from_overhang_byte_and_num_bits (overhang_byte r) (ucast (num_overhang_bits r)) w
              | None \<Rightarrow> w)
     in \<lparr>inc_last_dc = (case rinfo of Some r \<Rightarrow> last_dc r | None \<Rightarrow> replicate 4 0), huffw = w,
         inc_rinfo = reconstruction_info, inc_header = jf, inc_capacity = cap, inc_scan_index = current_scan_index\<rparr>)"

definition inc_amount_buffered :: "JpegIncrementalWriter \<Rightarrow> usize" where
  "inc_amount_buffered iw = amount_buffered (huffw iw)"

definition inc_process_row ::
  "nat \<Rightarrow> simd16 \<Rightarrow> RowSpec \<Rightarrow> BlockBasedImage list \<Rightarrow> JpegIncrementalWriter \<Rightarrow> (bool \<times> JpegIncrementalWriter) result option"
where
  "inc_process_row n V cur_row images iw =
    (if last_row_to_complete_mcu cur_row
     then bindF (recode_one_mcu_row n V (mcu_row_index cur_row * mcuh (inc_header iw)) (inc_last_dc iw) images
                  (inc_header iw) (inc_rinfo iw) (inc_scan_index iw) (ensure_space (inc_capacity iw) (huffw iw))) (\<lambda>(finished, dc, w).
            Some (Ok (finished, iw\<lparr>inc_last_dc := dc, huffw := w\<rparr>)))
     else Some (Ok (False, iw)))"

definition inc_detach_buffer :: "JpegIncrementalWriter \<Rightarrow> bytes \<times> JpegIncrementalWriter" where
  "inc_detach_buffer iw = (let (bs, w) = detach_buffer (huffw iw) in (bs, iw\<lparr>huffw := w\<rparr>))"

fun write_rows ::
  "nat \<Rightarrow> nat \<Rightarrow> simd16 \<Rightarrow> BlockBasedImage list \<Rightarrow> JpegHeader \<Rightarrow> u32 list \<Rightarrow> u32 \<Rightarrow> JpegIncrementalWriter
    \<Rightarrow> JpegIncrementalWriter result option"
where
  "write_rows 0 n V images jf heights decode_index iw = None"
| "write_rows (Suc i) n V images jf heights decode_index iw =
    bindF (Some (get_row_spec_from_index decode_index images (mcuv jf) heights)) (\<lambda>cur_row.
      let decode_index = decode_index + 1
      in if done_rows cur_row then Some (Ok iw)
         else if skip cur_row then write_rows i n V images jf heights decode_index iw
         else bindF (inc_process_row n V cur_row images iw) (\<lambda>(finished, iw).
           if finished then Some (Ok iw) else write_rows i n V images jf heights decode_index iw))"

text \<open>The fuel \<open>i\<close> bounds the rows of the scan, and \<open>n\<close> the blocks of a row of MCUs.\<close>

definition jpeg_write_entire_scan ::
  "nat \<Rightarrow> nat \<Rightarrow> simd16 \<Rightarrow> (usize \<Rightarrow> usize \<Rightarrow> usize) \<Rightarrow> BlockBasedImage list \<Rightarrow> JpegHeader \<Rightarrow> ReconstructionInfo \<Rightarrow> nat
    \<Rightarrow> bytes result option"
where
  "jpeg_write_entire_scan i n V alloc images jf rinfo current_scan_index =
    bindF (Some (get_max_coded_heights (truncate_components rinfo))) (\<lambda>heights.
    bindF (write_rows i n V images jf heights 0
        (JpegIncrementalWriter_new (128 * 1024) alloc rinfo None jf current_scan_index)) (\<lambda>iw.
      Some (Ok (fst (inc_detach_buffer iw)))))"

end
