(* ===== verification/Scan_Code.thy ===== *)
theory Scan_Code
  imports Block_Decode Scan_Writer Row_Range
begin

unbundle bit_operations_syntax

text \<open>
  The code of a baseline scan, as the standard describes it: the blocks in the order of the scan, each with the
  difference of its DC to the one before, in restart intervals that are padded to whole bytes and end with a
  marker. \<open>recode_loop_writes\<close> shows that the encoder writes this code, a row of MCUs at a time.
\<close>

type_synonym place = "nat \<times> nat \<times> nat"

definition valid_place :: "JpegHeader \<Rightarrow> place \<Rightarrow> bool" where
  "valid_place jf p \<longleftrightarrow> (case p of (m, c, k) \<Rightarrow>
    m < unat (mcuc jf) \<and> c < cs_cmpc jf \<and> k < unat (mbs (cmp_info jf ! (cs_cmp jf ! c))))"

definition place_component :: "JpegHeader \<Rightarrow> place \<Rightarrow> usize" where
  "place_component jf p = cs_cmp jf ! fst (snd p)"

text \<open>The block at a place, in zigzag order, with the difference of its DC, and its code.\<close>

definition scan_block :: "JpegHeader \<Rightarrow> BlockBasedImage list \<Rightarrow> place \<Rightarrow> AlignedBlock" where
  "scan_block jf ims p =
    blocks_of (ims ! place_component jf p) (block_pos jf (place_component jf p) (fst p) (snd (snd p)))"

definition block_dc :: "JpegHeader \<Rightarrow> BlockBasedImage list \<Rightarrow> place \<Rightarrow> i16" where
  "block_dc jf ims p = get_block (zigzag_from_transposed (scan_block jf ims p)) ! 0"

definition diff_block :: "JpegHeader \<Rightarrow> BlockBasedImage list \<Rightarrow> i16 list \<Rightarrow> place \<Rightarrow> i16 list" where
  "diff_block jf ims dc p =
    (get_block (zigzag_from_transposed (scan_block jf ims p)))[0 := block_dc jf ims p - dc ! place_component jf p]"

definition place_bits :: "JpegHeader \<Rightarrow> BlockBasedImage list \<Rightarrow> i16 list \<Rightarrow> place \<Rightarrow> bool list" where
  "place_bits jf ims dc p =
    (let c = place_component jf p in block_bits (get_huff_dc_codes jf c) (get_huff_ac_codes jf c) (diff_block jf ims dc p))"

text \<open>The tables of the scan have the codes that the block needs.\<close>

definition place_codable :: "JpegHeader \<Rightarrow> BlockBasedImage list \<Rightarrow> i16 list \<Rightarrow> place \<Rightarrow> bool" where
  "place_codable jf ims dc p =
    (let c = place_component jf p in block_codable (get_huff_dc_codes jf c) (get_huff_ac_codes jf c) (diff_block jf ims dc p))"

definition dc_after :: "JpegHeader \<Rightarrow> BlockBasedImage list \<Rightarrow> i16 list \<Rightarrow> place \<Rightarrow> i16 list" where
  "dc_after jf ims dc p = dc[place_component jf p := block_dc jf ims p]"

definition place_status :: "JpegHeader \<Rightarrow> place \<Rightarrow> JpegDecodeStatus" where
  "place_status jf p = status_after jf (fst p) (fst (block_after jf p))"

definition rst_marker :: "JpegHeader \<Rightarrow> nat \<Rightarrow> bytes" where
  "rst_marker jf m = [0xFF, RST0 + (of_nat (m div unat (rsti jf)) AND 7)]"

text \<open>From the place \<open>p\<close> on, with \<open>bs\<close> coded before in the interval, the scan is \<open>out\<close> from the start of the
  interval.\<close>

inductive scan_code ::
  "JpegHeader \<Rightarrow> u8 \<Rightarrow> BlockBasedImage list \<Rightarrow> place \<Rightarrow> i16 list \<Rightarrow> bool list \<Rightarrow> bytes \<Rightarrow> bool"
  for jf fillbit ims
where
  in_interval: "place_status jf p = DecodeInProgress \<Longrightarrow> place_codable jf ims dc p \<Longrightarrow>
     scan_code jf fillbit ims (block_after jf p) (dc_after jf ims dc p) (bs @ place_bits jf ims dc p) out \<Longrightarrow>
     scan_code jf fillbit ims p dc bs out"
| interval_end: "place_status jf p = RestartIntervalExpired \<Longrightarrow> place_codable jf ims dc p \<Longrightarrow>
     bs' = bs @ place_bits jf ims dc p \<Longrightarrow> bytes_bits ys = bs' @ pad_bits fillbit (length bs') \<Longrightarrow>
     scan_code jf fillbit ims (block_after jf p) (replicate 4 0) [] out \<Longrightarrow>
     scan_code jf fillbit ims p dc bs (stuff ys @ rst_marker jf (fst p) @ out)"
| scan_end: "place_status jf p = ScanCompleted \<Longrightarrow> place_codable jf ims dc p \<Longrightarrow>
     bs' = bs @ place_bits jf ims dc p \<Longrightarrow> bytes_bits ys = bs' @ pad_bits fillbit (length bs') \<Longrightarrow>
     scan_code jf fillbit ims p dc bs (stuff ys)"

text \<open>The path of a coder through the scan: from a place, a DC and the bits of its interval to those of a later place, with
  the bytes of the intervals it has left.\<close>

inductive passes ::
  "JpegHeader \<Rightarrow> u8 \<Rightarrow> BlockBasedImage list \<Rightarrow> place \<Rightarrow> i16 list \<Rightarrow> bool list \<Rightarrow> place \<Rightarrow> i16 list \<Rightarrow> bool list \<Rightarrow> bytes \<Rightarrow> bool"
  for jf fillbit ims
where
  passes_refl: "passes jf fillbit ims p dc bs p dc bs []"
| passes_block: "place_status jf p = DecodeInProgress \<Longrightarrow> place_codable jf ims dc p \<Longrightarrow>
     passes jf fillbit ims (block_after jf p) (dc_after jf ims dc p) (bs @ place_bits jf ims dc p) q dc' bs' ws \<Longrightarrow>
     passes jf fillbit ims p dc bs q dc' bs' ws"
| passes_interval: "place_status jf p = RestartIntervalExpired \<Longrightarrow> place_codable jf ims dc p \<Longrightarrow>
     bs1 = bs @ place_bits jf ims dc p \<Longrightarrow> bytes_bits ys = bs1 @ pad_bits fillbit (length bs1) \<Longrightarrow>
     passes jf fillbit ims (block_after jf p) (replicate 4 0) [] q dc' bs' ws \<Longrightarrow>
     passes jf fillbit ims p dc bs q dc' bs' (stuff ys @ rst_marker jf (fst p) @ ws)"

lemma passes_trans:
  "passes jf fillbit ims p dc bs q dc1 bs1 ws \<Longrightarrow> passes jf fillbit ims q dc1 bs1 r dc2 bs2 vs \<Longrightarrow>
    passes jf fillbit ims p dc bs r dc2 bs2 (ws @ vs)"
proof (induction rule: passes.induct)
  case (passes_interval p dc bs1 bs ys q dc' bs' ws)
  from passes.passes_interval [OF passes_interval.hyps(1-4) passes_interval.IH [OF passes_interval.prems]] show ?case by simp
qed (auto intro: passes.intros)

lemma passes_code:
  "passes jf fillbit ims p dc bs q dc' bs' ws \<Longrightarrow> scan_code jf fillbit ims q dc' bs' out \<Longrightarrow> scan_code jf fillbit ims p dc bs (ws @ out)"
  by (induction rule: passes.induct) (auto intro: scan_code.intros)

section \<open>Places\<close>

definition at_place :: "JpegHeader \<Rightarrow> JpegPositionState \<Rightarrow> place \<Rightarrow> bool" where
  "at_place jf st p \<longleftrightarrow> (case p of (m, c, k) \<Rightarrow> at_block jf st m c k)"

lemma at_placeD:
  assumes "at_place jf st p"
  shows "valid_place jf p" "unat (mcu st) = fst p" "cmp st = place_component jf p"
    "unat (dpos st) = block_pos jf (place_component jf p) (fst p) (snd (snd p))"
  using assms by (auto simp: at_place_def at_block_def valid_place_def place_component_def split: prod.splits)

lemma next_place:
  assumes "header_ok a jf" "regular_scan jf" "at_place jf st p" "rst_synced jf st"
  shows "\<exists>st'. next_mcu_pos jf st = (place_status jf p, st') \<and> unat (mcu st') = fst (block_after jf p)
    \<and> (fst (block_after jf p) < unat (mcuc jf) \<longrightarrow> at_place jf st' (block_after jf p))
    \<and> (place_status jf p = DecodeInProgress \<longrightarrow> rst_synced jf st')
    \<and> (place_status jf p = RestartIntervalExpired \<longrightarrow> rst_synced jf (reset_rstw jf st'))"
proof -
  obtain m c k where p: "p = (m, c, k)" by (cases p)
  obtain m' c' k' where q: "block_after jf p = (m', c', k')" by (cases "block_after jf p")
  from next_mcu_pos_step [OF assms(1,2) _ assms(4) q [unfolded p]] assms(3) obtain st' where
    "next_mcu_pos jf st = (place_status jf p, st')" "unat (mcu st') = m'"
    "m' < unat (mcuc jf) \<longrightarrow> at_block jf st' m' c' k'" "place_status jf p = DecodeInProgress \<longrightarrow> rst_synced jf st'"
    using p q by (auto simp: at_place_def place_status_def)
  then show ?thesis using rst_synced_reset [of jf m st'] p q by (auto simp: at_place_def place_status_def)
qed

lemma place_status_cases:
  "place_status jf p = ScanCompleted \<longleftrightarrow> unat (mcuc jf) \<le> fst (block_after jf p)"
  "place_status jf p = RestartIntervalExpired \<longleftrightarrow> fst (block_after jf p) < unat (mcuc jf) \<and> fst (block_after jf p) \<noteq> fst p
    \<and> 0 < rsti jf \<and> fst (block_after jf p) mod unat (rsti jf) = 0"
  by (auto simp: place_status_def status_after_def)

lemma block_after_fst: "fst (block_after jf p) \<noteq> fst p \<Longrightarrow> block_after jf p = (Suc (fst p), 0, 0)"
  by (cases p) (auto split: if_splits)

lemma place_component_less:
  assumes "header_ok a jf" "valid_place jf p"
  shows "place_component jf p < cmpc jf" "cmpc jf \<le> 4"
  using header_component(13) [OF assms(1)] assms
  by (auto simp: valid_place_def place_component_def header_ok_def header_inv_def frame_ok_def)

text \<open>A block is stored in its transposed order.\<close>

lemma length_diff_block [simp]: "length (diff_block jf ims dc p) = 64"
  by (simp add: diff_block_def get_block_def zigzag_from_transposed_def)

lemma codable_bound: "place_codable jf ims dc p \<Longrightarrow> \<forall>c \<in> set (diff_block jf ims dc p). sint c \<noteq> - (2 ^ 15)"
proof
  fix c assume "place_codable jf ims dc p" "c \<in> set (diff_block jf ims dc p)"
  then have "magnitude (sint c) \<le> 15" by (simp add: place_codable_def block_codable_def small_coefs_def Let_def)
  then have "nat \<bar>sint c\<bar> < 2 ^ 15" unfolding magnitude_def bit_len_le_iff .
  then show "sint c \<noteq> - (2 ^ 15)" by auto
qed

section \<open>The encoder writes the code\<close>

definition scan_tables_ok :: "JpegHeader \<Rightarrow> bool" where
  "scan_tables_ok jf \<longleftrightarrow> (\<forall>c < cs_cmpc jf. let i = cs_cmp jf ! c
    in codes_ok (get_huff_dc_codes jf i) \<and> codes_ok (get_huff_ac_codes jf i))"

definition whole_images :: "JpegHeader \<Rightarrow> BlockBasedImage list \<Rightarrow> bool" where
  "whole_images jf ims \<longleftrightarrow> length ims = cmpc jf \<and>
    (\<forall>i < cmpc jf. dpos_offset (ims ! i) = 0 \<and> original_height (ims ! i) = bcv (cmp_info jf ! i))"

text \<open>The marker of the interval that a place is in, as the encoder counts it.\<close>

definition markers_at :: "JpegHeader \<Rightarrow> u32 \<Rightarrow> place \<Rightarrow> bool" where
  "markers_at jf markers p \<longleftrightarrow> 0 < rsti jf \<longrightarrow> markers = of_nat (fst p div unat (rsti jf))"

text \<open>All markers are written: the count of markers that is kept is not used for baseline files.\<close>

definition all_markers :: "ReconstructionInfo \<Rightarrow> bool" where
  "all_markers rinfo \<longleftrightarrow> rst_cnt rinfo = [] \<or> \<not> rst_cnt_set rinfo"

definition fill_byte :: "ReconstructionInfo \<Rightarrow> u8" where
  "fill_byte rinfo = (case pad_bit rinfo of None \<Rightarrow> 0 | Some b \<Rightarrow> b)"

lemma write_rst_wrote:
  assumes "all_markers rinfo" "current_bit w = 64" "data_buffer w = d" "wrote w pre bs"
  shows "\<exists>w'. write_rst jf rinfo scan markers w = Ok (markers + 1, w')
    \<and> wrote w' (d @ [0xFF, RST0 + ucast (markers AND 7)]) []"
proof -
  let ?w = "append_data [0xFF] w" and ?m = "[RST0 + ucast (markers AND 7)]"
  have "wrote ?w (d @ [0xFF]) []" using wrote_marker [OF assms(4,2), of "[0xFF]"] assms(3) by simp
  from wrote_marker [OF this, of ?m] have "wrote (append_data ?m ?w) (d @ [0xFF, RST0 + ucast (markers AND 7)]) []"
    using assms(2,3) by simp
  moreover have "rst_cnt rinfo = [] \<or> \<not> rst_cnt_set rinfo" using assms(1) by (simp add: all_markers_def)
  ultimately show ?thesis using assms(2) by (auto simp: write_rst_def write_byte_unescaped_def)
qed

lemma ucast_marker: "RST0 + ucast ((of_nat n :: u32) AND 7) = RST0 + (of_nat n AND 7)"
proof -
  have "ucast ((of_nat n :: u32) AND 7) = (ucast (of_nat n :: u32) AND 7 :: u8)"
    by (rule word_unat_eq_iff [THEN iffD2]) (simp add: unsigned_and_eq unsigned_ucast_eq take_bit_and)
  also have "ucast (of_nat n :: u32) = (of_nat n :: u8)"
    by (rule word_unat_eq_iff [THEN iffD2]) (simp add: unat_ucast unat_of_nat mod_mod_cancel)
  finally show ?thesis by simp
qed

text \<open>The state of the encoder when it leaves a row of MCUs: the scan is complete, or what remains of it is the
  code from the start of the next row on.\<close>

definition row_written ::
  "JpegHeader \<Rightarrow> u8 \<Rightarrow> BlockBasedImage list \<Rightarrow> place \<Rightarrow> i16 list \<Rightarrow> bool list \<Rightarrow> bytes \<Rightarrow> nat \<Rightarrow> bytes \<Rightarrow> bool \<Rightarrow> i16 list \<Rightarrow> BitWriter \<Rightarrow> bool"
where
  "row_written jf fillbit ims p dc bs pre row out finished dc' w \<longleftrightarrow>
    (if finished then Suc row * unat (mcuh jf) = unat (mcuc jf) \<and> data_buffer w = pre @ out \<and> current_bit w = 64 \<and> (\<exists>pre bs. wrote w pre bs)
     else Suc row * unat (mcuh jf) < unat (mcuc jf) \<and> length dc' = 4 \<and>
       (\<exists>ws bs' rest. passes jf fillbit ims p dc bs (Suc row * unat (mcuh jf), 0, 0) dc' bs' ws \<and>
         scan_code jf fillbit ims (Suc row * unat (mcuh jf), 0, 0) dc' bs' rest \<and> wrote w (pre @ ws) bs' \<and> ws @ rest = out))"

lemma row_writtenI:
  assumes "scan_code jf fillbit ims q dc' bs' out" "q = (Suc row * unat (mcuh jf), 0, 0)" "fst q < unat (mcuc jf)"
    and "length dc' = 4" "wrote w pre bs'"
  shows "row_written jf fillbit ims q dc' bs' pre row out False dc' w"
proof -
  have "wrote w (pre @ []) bs' \<and> [] @ out = out" using assms(5) by simp
  then show ?thesis using assms(1-4) passes_refl unfolding row_written_def by (simp, blast)
qed

lemma row_written_block:
  assumes "row_written jf fillbit ims (block_after jf p) (dc_after jf ims dc p) (bs @ place_bits jf ims dc p) pre row out finished dc' w"
    and "place_status jf p = DecodeInProgress" "place_codable jf ims dc p"
  shows "row_written jf fillbit ims p dc bs pre row out finished dc' w"
proof (cases finished)
  case False
  with assms(1) passes_block [OF assms(2,3)] show ?thesis unfolding row_written_def if_not_P [OF False] by blast
qed (use assms(1) in \<open>simp add: row_written_def\<close>)

lemma row_written_interval:
  assumes "row_written jf fillbit ims (block_after jf p) (replicate 4 0) [] (pre @ stuff ys @ rst_marker jf (fst p)) row out finished dc' w"
    and "place_status jf p = RestartIntervalExpired" "place_codable jf ims dc p" "bs1 = bs @ place_bits jf ims dc p" "bytes_bits ys = bs1 @ pad_bits fillbit (length bs1)"
  shows "row_written jf fillbit ims p dc bs pre row (stuff ys @ rst_marker jf (fst p) @ out) finished dc' w"
proof (cases finished)
  case False
  with assms(1) obtain ws bs' rest where "Suc row * unat (mcuh jf) < unat (mcuc jf)" "length dc' = 4"
    "passes jf fillbit ims (block_after jf p) (replicate 4 0) [] (Suc row * unat (mcuh jf), 0, 0) dc' bs' ws"
    "scan_code jf fillbit ims (Suc row * unat (mcuh jf), 0, 0) dc' bs' rest"
    "wrote w ((pre @ stuff ys @ rst_marker jf (fst p)) @ ws) bs'" "ws @ rest = out" unfolding row_written_def by auto
  with passes_interval [OF assms(2-5) this(3)] False show ?thesis unfolding row_written_def
    by (auto intro!: exI [of _ "stuff ys @ rst_marker jf (fst p) @ ws"])
qed (use assms(1) in \<open>simp add: row_written_def\<close>)

text \<open>Images that show a row of MCUs as others do.\<close>

definition shows_row :: "JpegHeader \<Rightarrow> BlockBasedImage list \<Rightarrow> nat \<Rightarrow> BlockBasedImage list \<Rightarrow> bool" where
  "shows_row jf ims row fb \<longleftrightarrow> length fb = length ims \<and>
    (\<forall>p st. at_place jf st p \<and> fst p div unat (mcuh jf) = row \<longrightarrow>
      get_block_at (fb ! place_component jf p) (dpos st) = get_block_at (ims ! place_component jf p) (dpos st))"

lemma shows_row_refl: "shows_row jf ims row ims"
  by (simp add: shows_row_def)

lemma padded_buffer:
  assumes "wrote w pre (bs @ pad_bits b (length bs))" "current_bit w = 64" "bytes_bits ys = bs @ pad_bits b (length bs)"
  shows "data_buffer w = pre @ stuff ys"
proof -
  from wrote_aligned [OF assms(1,2)] obtain zs where z: "data_buffer w = pre @ stuff zs"
    "bytes_bits zs = bs @ pad_bits b (length bs)" by blast
  then have "zs = ys" using assms(3) bytes_bits_inject by metis
  then show ?thesis using z(1) by simp
qed

text \<open>The ends of the rows of MCUs.\<close>

lemma row_last:
  fixes m v h :: nat
  assumes "Suc m = v * h" "0 < h"
  shows "Suc (m div h) * h = v * h"
proof -
  have "Suc m mod h = 0" using assms(1) by simp
  then have "Suc (m div h) = Suc m div h" by (simp add: div_Suc)
  then show ?thesis using assms by simp
qed

lemma row_boundary:
  assumes ok: "header_ok a jf" and m: "unat m = fst p" and n: "unat n = fst (block_after jf p)"
  defines "q \<equiv> block_after jf p" and "w \<equiv> unat (mcuh jf)"
  shows "(m \<noteq> n \<and> n mod mcuh jf = 0) \<longleftrightarrow> (fst q \<noteq> fst p \<and> fst q mod w = 0)"
    "fst q \<noteq> fst p \<Longrightarrow> fst q mod w = 0 \<Longrightarrow> fst q = Suc (fst p div w) * w"
    "\<not> (fst q \<noteq> fst p \<and> fst q mod w = 0) \<Longrightarrow> fst q div w = fst p div w"
proof -
  have mod0: "n mod mcuh jf = 0 \<longleftrightarrow> fst q mod w = 0"
    using n by (metis unat_eq_zero unat_mod_distrib q_def w_def)
  have "m \<noteq> n \<longleftrightarrow> fst q \<noteq> fst p" using m n by (metis word_unat_eq_iff q_def)
  then show "(m \<noteq> n \<and> n mod mcuh jf = 0) \<longleftrightarrow> (fst q \<noteq> fst p \<and> fst q mod w = 0)" using mod0 by simp
  have q: "fst q \<noteq> fst p \<Longrightarrow> fst q = Suc (fst p)" using block_after_fst [of jf p] by (simp add: q_def)
  have w: "0 < w" using ok by (simp add: w_def header_ok_def geometry_ok_def word_less_nat_alt)
  show "fst q = Suc (fst p div w) * w" if "fst q \<noteq> fst p" "fst q mod w = 0"
  proof -
    have *: "Suc (fst p) = (fst q div w) * w" using q [OF that(1)] div_mult_mod_eq [of "fst q" w] that(2) by linarith
    show ?thesis using row_last [OF * w] * q [OF that(1)] by metis
  qed
  show "fst q div w = fst p div w" if "\<not> (fst q \<noteq> fst p \<and> fst q mod w = 0)"
    using that q by (cases "fst q = fst p") (auto simp: div_Suc)
qed

text \<open>The rows of all components in an MCU row, in the order in which they are visited.\<close>

definition whole_scan :: "JpegHeader \<Rightarrow> ReconstructionInfo \<Rightarrow> bool" where
  "whole_scan jf rinfo \<longleftrightarrow> 0 < cmpc jf \<and> cmpc jf \<le> 3 \<and> all_markers rinfo \<and>
    get_max_coded_heights (truncate_components rinfo) = Ok (map bcv (take (cmpc jf) (cmp_info jf)))"

definition mcu_height :: "JpegHeader \<Rightarrow> nat" where
  "mcu_height jf = (\<Sum>i < cmpc jf. unat (sfh (cmp_info jf ! i)))"

lemma header_components:
  assumes "header_ok a jf" "i < cmpc jf"
  shows "0 < unat (sfh (cmp_info jf ! i))" "unat (sfh (cmp_info jf ! i)) \<le> 2" "0 < unat (mcuv jf)" "unat (mcuv jf) \<le> 8192"
    "bcv (cmp_info jf ! i) div mcuv jf = sfh (cmp_info jf ! i)" "i < length (cmp_info jf)"
    "unat (bcv (cmp_info jf ! i)) = unat (mcuv jf) * unat (sfh (cmp_info jf ! i))"
proof -
  have G: "geometry_ok jf" "frame_ok jf" "header_shape jf" using assms(1) by (simp_all add: header_ok_def header_inv_def)
  then have ok: "component_ok jf (cmp_info jf ! i)" using assms(2) by (simp add: geometry_ok_def)
  show v: "0 < unat (mcuv jf)" "unat (mcuv jf) \<le> 8192" using G(1) by (simp_all add: geometry_ok_def word_less_nat_alt word_le_nat_alt)
  show "0 < unat (sfh (cmp_info jf ! i))" using ok by (simp add: component_ok_def word_less_nat_alt)
  have "sfh (cmp_info jf ! i) \<le> 2" using G(2) assms(2) by (simp add: frame_ok_def)
  then show "unat (sfh (cmp_info jf ! i)) \<le> 2" by (simp add: word_le_nat_alt)
  show b: "unat (bcv (cmp_info jf ! i)) = unat (mcuv jf) * unat (sfh (cmp_info jf ! i))" using ok by (simp add: component_ok_def)
  show "bcv (cmp_info jf ! i) div mcuv jf = sfh (cmp_info jf ! i)" using b v by (simp add: word_unat_eq_iff unat_div)
  show "i < length (cmp_info jf)" using G(2,3) assms(2) by (simp add: frame_ok_def header_shape_def)
qed

lemma scan_row_spec:
  assumes ok: "header_ok a jf" and ims: "whole_images jf ims" and n: "0 < cmpc jf" "cmpc jf \<le> 3"
    and r: "r < unat (mcuv jf)" and j: "j < mcu_height jf"
  shows "\<exists>spec. get_row_spec_from_index (of_nat (r * mcu_height jf + j)) ims (mcuv jf) (map bcv (take (cmpc jf) (cmp_info jf))) = Ok spec
    \<and> \<not> skip spec \<and> \<not> done_rows spec \<and> mcu_row_index spec = of_nat r \<and> (last_row_to_complete_mcu spec \<longleftrightarrow> Suc j = mcu_height jf)"
proof -
  let ?n = "cmpc jf" and ?M = "mcu_height jf" and ?mult = "\<lambda>i. unat (sfh (cmp_info jf ! i))"
  from row_in_mcu [of j ?mult ?n] j obtain i p where ip: "i < ?n" "p < ?mult i" "j = rows_ahead ?mult ?n i + p"
    by (auto simp: mcu_height_def)
  note H = header_components [OF ok]
  define mw where "mw = map (\<lambda>im. original_height im div mcuv jf) ims"
  have len: "length ims = ?n" "length mw = ?n" using ims by (simp_all add: whole_images_def mw_def)
  have mwi: "mw ! k = sfh (cmp_info jf ! k)" if "k < ?n" for k
    using that ims H(5) [OF that] by (simp add: mw_def len(1) whole_images_def)
  have M: "?M = (\<Sum>x\<leftarrow>mw. unat x)"
    by (simp add: sum_list_sum_nth len mcu_height_def atLeast0LessThan mwi)
  have "?M \<le> (\<Sum>i < ?n. 2)" unfolding mcu_height_def by (intro sum_mono) (use H(2) in auto)
  then have M6: "?M \<le> 6" using n(2) by simp
  have rv: "r < 8192" using r H(4) [OF n(1)] by simp
  have "Suc r * ?M \<le> 8192 * 6" using M6 rv by (intro mult_le_mono) simp_all
  then have small: "(r + 1) * ?M < 2 ^ 32" by simp
  have ur: "unat (of_nat r :: u32) = r" using rv by (simp add: unat_of_nat_u32)
  have up: "unat (of_nat p :: u32) = p" using ip(2) H(2) [OF ip(1)] by (simp add: unat_of_nat_u32)
  have ud: "unat (of_nat (r * ?M + j) :: u32) = r * ?M + j" using small j by (intro unat_of_nat_u32) simp
  have mch: "length (map bcv (take ?n (cmp_info jf))) = ?n" using H(6) [of "?n - 1"] n(1) by simp
  have spec: "get_row_spec_from_index (of_nat (r * ?M + j)) ims (mcuv jf) (map bcv (take ?n (cmp_info jf))) =
    Ok (row_spec_for mw (map bcv (take ?n (cmp_info jf))) (of_nat r) i (of_nat p)
      \<lparr>luma_y = of_nat r * mw ! 0, rs_component = ?n, curr_y = 0, mcu_row_index = of_nat r,
       last_row_to_complete_mcu = False, skip = False, done_rows = False\<rparr>)"
  proof (rule get_row_spec_at [OF len(1) n _ mw_def M mch ip(1)])
    show "mcuv jf \<noteq> 0" using H(3) [OF n(1)] by auto
    show "of_nat p < mw ! i" using ip(2) by (simp add: mwi ip(1) word_less_nat_alt up)
    show "(unat (of_nat r :: u32) + 1) * ?M < 2 ^ 32" using small by (simp add: ur)
    show "unat (of_nat (r * ?M + j) :: u32) = unat (of_nat r :: u32) * ?M + ((\<Sum>j\<in>{i<..<?n}. unat (mw ! j)) + unat (of_nat p :: u32))"
      unfolding ud ur up by (simp add: ip(3) rows_ahead_def mwi)
  qed
  have y: "unat (of_nat r * mw ! i + of_nat p) = r * ?mult i + p"
  proof -
    have "r * ?mult i + p < 2 ^ 32"
      using H(2) [OF ip(1)] mult_le_mono [of r 8192 "?mult i" 2] rv ip(2) by simp
    then show ?thesis using mwi [OF ip(1)] by (simp add: unat_word_ariths ur up mod_simps)
  qed
  have "r * ?mult i + p < unat (mcuv jf) * ?mult i"
  proof -
    have "r * ?mult i + p < Suc r * ?mult i" using ip(2) by simp
    also have "\<dots> \<le> unat (mcuv jf) * ?mult i" using r by (intro mult_le_mono1) simp
    finally show ?thesis .
  qed
  then have "\<not> map bcv (take ?n (cmp_info jf)) ! i \<le> of_nat r * mw ! i + of_nat p"
    unfolding word_le_nat_alt y using ip(1) H(6,7) [OF ip(1)] by simp
  moreover have "of_nat p + 1 = mw ! i \<and> i = 0 \<longleftrightarrow> Suc j = ?M"
  proof -
    have "unat (of_nat p + 1 :: u32) = Suc p" using ip(2) H(2) [OF ip(1)] up by (simp add: unat_word_ariths)
    then have p: "of_nat p + 1 = mw ! i \<longleftrightarrow> Suc p = ?mult i" by (simp add: word_unat_eq_iff mwi ip(1))
    have 0: "rows_ahead ?mult ?n 0 + ?mult 0 = ?M"
    proof -
      have "{..<?n} = insert 0 {0<..<?n}" using n(1) by auto
      then show ?thesis by (simp add: rows_ahead_def mcu_height_def)
    qed
    show ?thesis
    proof (cases "i = 0")
      case True
      then show ?thesis using p 0 ip(3) by auto
    next
      case False
      then have "rows_ahead ?mult ?n i + ?mult i \<le> rows_ahead ?mult ?n 0" using rows_ahead_less ip(1) by blast
      moreover have "0 < ?mult 0" using H(1) [OF n(1)] .
      ultimately show ?thesis using False ip(2,3) 0 by simp
    qed
  qed
  ultimately show ?thesis unfolding spec by (auto simp: row_spec_for_def Let_def)
qed

lemma ensure_space_wrote [simp]: "wrote (ensure_space n w) pre bs \<longleftrightarrow> wrote w pre bs"
  by (simp add: ensure_space_def reserve_to_def wrote_def)

context simd16_laws
begin

lemma recode_block_wrote:
  assumes ok: "header_ok a jf" "regular_scan jf" and tbl: "scan_tables_ok jf" and ims: "whole_images jf ims"
    and at: "at_place jf st p" and dc: "length dc = 4" and codable: "place_codable jf ims dc p" and w: "wrote w pre bs"
    and fb: "shows_row jf ims (fst p div unat (mcuh jf)) fb"
  shows "\<exists>w'. recode_block V jf fb st dc cb w = Ok (next_mcu_pos jf st, dc_after jf ims dc p, cb, w')
    \<and> wrote w' pre (bs @ place_bits jf ims dc p)"
proof -
  note A = at_placeD [OF at]
  let ?c = "place_component jf p"
  have c: "?c < length ims" "dpos_offset (ims ! ?c) = 0"
    using ims place_component_less(1) [OF ok(1) A(1)] by (simp_all add: whole_images_def)
  have tables: "codes_ok (get_huff_dc_codes jf ?c)" "codes_ok (get_huff_ac_codes jf ?c)"
    using tbl A(1) by (auto simp: scan_tables_ok_def valid_place_def place_component_def Let_def split: prod.splits)
  have current: "get_block_at (fb ! ?c) (dpos st) = scan_block jf ims p" "?c < length fb"
  proof -
    have "get_block_at (fb ! ?c) (dpos st) = get_block_at (ims ! ?c) (dpos st)" using fb at unfolding shows_row_def by blast
    then show "get_block_at (fb ! ?c) (dpos st) = scan_block jf ims p"
      using c(2) A(4) by (simp add: get_block_at_blocks_of scan_block_def)
    show "?c < length fb" using c(1) fb by (simp add: shows_row_def)
  qed
  define b where "b = AlignedBlock_new (diff_block jf ims dc p)"
  have b: "get_block b = diff_block jf ims dc p" "block_ok b" by (simp_all add: b_def AlignedBlock_new_def get_block_def block_ok_def)
  from encode_block_seq_wrote [OF tables b(2) _ w] codable_bound [OF codable] obtain w' where
    "encode_block_seq V (get_huff_dc_codes jf ?c) (get_huff_ac_codes jf ?c) b w = Ok w'"
    "wrote w' pre (bs @ place_bits jf ims dc p)" unfolding b(1) place_bits_def Let_def by blast
  moreover have "jpeg_type jf = Sequential" using ok(2) by (simp add: regular_scan_def)
  ultimately show ?thesis
    using A(3) current
    by (simp add: recode_block_def sequential_block_def idx_in_range dc_after_def block_dc_def diff_block_def b_def Let_def)
qed

lemma recode_loop_writes:
  assumes ok: "header_ok a jf" "regular_scan jf" and tbl: "scan_tables_ok jf" and ims: "whole_images jf ims"
    and mk: "all_markers rinfo"
  shows "scan_code jf (fill_byte rinfo) ims p dc bs out \<Longrightarrow> at_place jf st p \<Longrightarrow> rst_synced jf st \<Longrightarrow>
    markers_at jf markers p \<Longrightarrow> length dc = 4 \<Longrightarrow> wrote w pre bs \<Longrightarrow> shows_row jf ims (fst p div unat (mcuh jf)) fb \<Longrightarrow>
    \<exists>n0 finished dc' w'. (\<forall>n \<ge> n0. recode_loop n V fb jf rinfo scan st markers cb dc w = Some (Ok (finished, dc', w')))
      \<and> row_written jf (fill_byte rinfo) ims p dc bs pre (fst p div unat (mcuh jf)) out finished dc' w'"
proof (induction arbitrary: st markers w pre rule: scan_code.induct)
  case (in_interval p dc bs out)
  let ?q = "block_after jf p"
  note A = at_placeD [OF in_interval.prems(1)]
  from recode_block_wrote [OF ok tbl ims in_interval.prems(1,4) in_interval.hyps(2) in_interval.prems(5,6)] obtain w1 where
    w1: "recode_block V jf fb st dc cb w = Ok (next_mcu_pos jf st, dc_after jf ims dc p, cb, w1)"
    "wrote w1 pre (bs @ place_bits jf ims dc p)" by blast
  from next_place [OF ok in_interval.prems(1,2)] in_interval.hyps(1) obtain st1 where
    st1: "next_mcu_pos jf st = (DecodeInProgress, st1)" "unat (mcu st1) = fst ?q"
    "fst ?q < unat (mcuc jf) \<longrightarrow> at_place jf st1 ?q" "rst_synced jf st1" by auto
  have q: "fst ?q < unat (mcuc jf)"
    using in_interval.hyps(1) place_status_cases(1) [of jf p] by auto
  have dc1: "length (dc_after jf ims dc p) = 4" using in_interval.prems(4) by (simp add: dc_after_def)
  note S = row_boundary [OF ok(1) A(2) st1(2)]
  have eor: "(mcu st \<noteq> mcu st1 \<and> mcu st1 mod mcuh jf = 0) \<longleftrightarrow> (fst ?q \<noteq> fst p \<and> fst ?q mod unat (mcuh jf) = 0)"
    using S(1) .
  show ?case
  proof (cases "fst ?q \<noteq> fst p \<and> fst ?q mod unat (mcuh jf) = 0")
    case True
    then have "?q = (Suc (fst p div unat (mcuh jf)) * unat (mcuh jf), 0, 0)" using S(2) block_after_fst by fastforce
    from row_written_block [OF row_writtenI [OF in_interval.hyps(3) this q dc1 w1(2)] in_interval.hyps(1,2)]
    have "row_written jf (fill_byte rinfo) ims p dc bs pre (fst p div unat (mcuh jf)) out False (dc_after jf ims dc p) w1" .
    moreover have "recode_loop n V fb jf rinfo scan st markers cb dc w = Some (Ok (False, dc_after jf ims dc p, w1))" if "Suc 0 \<le> n" for n
      using that w1(1) st1(1) eor True by (cases n) (simp_all add: Let_def)
    ultimately show ?thesis by blast
  next
    case False
    have same: "fst ?q div unat (mcuh jf) = fst p div unat (mcuh jf)" using S(3) False by blast
    have mk1: "markers_at jf markers ?q"
    proof (cases "fst ?q = fst p")
      case True
      then show ?thesis using in_interval.prems(3) by (simp add: markers_at_def)
    next
      case False
      then have "fst ?q = Suc (fst p)" using block_after_fst by fastforce
      moreover have "0 < rsti jf \<Longrightarrow> fst ?q mod unat (rsti jf) \<noteq> 0"
        using place_status_cases(2) [of jf p] in_interval.hyps(1) q False by auto
      ultimately show ?thesis using in_interval.prems(3) by (cases "0 < rsti jf") (simp_all add: markers_at_def div_Suc)
    qed
    from in_interval.IH [OF _ st1(4) mk1 dc1 w1(2)] st1(3) q in_interval.prems(6) obtain n0 finished dc' w' where
      R: "\<forall>n \<ge> n0. recode_loop n V fb jf rinfo scan st1 markers cb (dc_after jf ims dc p) w1 = Some (Ok (finished, dc', w'))"
      "row_written jf (fill_byte rinfo) ims ?q (dc_after jf ims dc p) (bs @ place_bits jf ims dc p) pre (fst p div unat (mcuh jf)) out finished dc' w'"
      unfolding same by blast
    have "recode_loop n V fb jf rinfo scan st markers cb dc w = Some (Ok (finished, dc', w'))" if "Suc n0 \<le> n" for n
    proof -
      from that obtain j where "n = Suc j" "n0 \<le> j" by (metis Suc_le_D Suc_le_mono)
      moreover have "recode_loop (Suc j) V fb jf rinfo scan st markers cb dc w =
        (if mcu st \<noteq> mcu st1 \<and> mcu st1 mod mcuh jf = 0 then Some (Ok (False, dc_after jf ims dc p, w1))
         else recode_loop j V fb jf rinfo scan st1 markers cb (dc_after jf ims dc p) w1)"
        using w1(1) st1(1) by (simp add: Let_def)
      ultimately show ?thesis using R(1) unfolding eor if_not_P [OF False] by simp
    qed
    then show ?thesis using row_written_block [OF R(2) in_interval.hyps(1,2)] by blast
  qed
next
  case (interval_end p dc bs' bs ys out)
  let ?q = "block_after jf p"
  note A = at_placeD [OF interval_end.prems(1)]
  from recode_block_wrote [OF ok tbl ims interval_end.prems(1,4) interval_end.hyps(2) interval_end.prems(5,6)] obtain w1 where
    w1: "recode_block V jf fb st dc cb w = Ok (next_mcu_pos jf st, dc_after jf ims dc p, cb, w1)" "wrote w1 pre bs'"
    using interval_end.hyps(3) by blast
  from next_place [OF ok interval_end.prems(1,2)] interval_end.hyps(1) obtain st1 where
    st1: "next_mcu_pos jf st = (RestartIntervalExpired, st1)" "unat (mcu st1) = fst ?q"
    "fst ?q < unat (mcuc jf) \<longrightarrow> at_place jf st1 ?q" "rst_synced jf (reset_rstw jf st1)" by auto
  from interval_end.hyps(1) have q: "fst ?q < unat (mcuc jf)" "fst ?q \<noteq> fst p" "0 < rsti jf" "fst ?q mod unat (rsti jf) = 0"
    by (simp_all add: place_status_cases(2))
  then have q': "?q = (Suc (fst p), 0, 0)" using block_after_fst by blast
  define w2 where "w2 = pad (fill_byte rinfo) w1"
  note P = pad_wrote [OF w1(2), of "fill_byte rinfo", folded w2_def]
  have d2: "data_buffer w2 = pre @ stuff ys" using padded_buffer [OF P interval_end.hyps(4)] .
  from write_rst_wrote [OF mk P(2) d2 P(1)] obtain w3 where w3: "write_rst jf rinfo scan markers w2 = Ok (markers + 1, w3)"
    "wrote w3 ((pre @ stuff ys) @ rst_marker jf (fst p)) []"
    using interval_end.prems(3) q(3) ucast_marker by (force simp: markers_at_def rst_marker_def)
  have mk1: "markers_at jf (markers + 1) ?q"
    using interval_end.prems(3) q(3,4) q' by (simp add: markers_at_def div_Suc)
  note S = row_boundary [OF ok(1) A(2) st1(2)]
  have run: "recode_loop (Suc n) V fb jf rinfo scan st markers cb dc w =
    (if fst ?q mod unat (mcuh jf) = 0 then Some (Ok (False, replicate 4 0, w3))
     else recode_loop n V fb jf rinfo scan (reset_rstw jf st1) (markers + 1) cb (replicate 4 0) w3)" for n
    using w1(1) st1(1) w3(1) P(2) q(2,3) S(1) interval_end.prems(4)
    by (simp add: Let_def fill_byte_def [symmetric] w2_def [symmetric] has_no_remainder_def dc_after_def)
  show ?case
  proof (cases "fst ?q mod unat (mcuh jf) = 0")
    case True
    then have "?q = (Suc (fst p div unat (mcuh jf)) * unat (mcuh jf), 0, 0)" using S(2) q(2) q' by simp
    from row_writtenI [OF interval_end.hyps(5) this q(1) _ w3(2)]
    have "row_written jf (fill_byte rinfo) ims ?q (replicate 4 0) [] (pre @ stuff ys @ rst_marker jf (fst p)) (fst p div unat (mcuh jf))
      out False (replicate 4 0) w3" by simp
    from row_written_interval [OF this interval_end.hyps(1-4)]
    have "row_written jf (fill_byte rinfo) ims p dc bs pre (fst p div unat (mcuh jf))
      (stuff ys @ rst_marker jf (fst p) @ out) False (replicate 4 0) w3" .
    moreover have "recode_loop n V fb jf rinfo scan st markers cb dc w = Some (Ok (False, replicate 4 0, w3))" if "Suc 0 \<le> n" for n
      using that run [of "n - 1"] True by (cases n) (simp_all del: recode_loop.simps)
    ultimately show ?thesis by blast
  next
    case False
    have at: "at_place jf (reset_rstw jf st1) ?q" using st1(3) q(1) by (simp add: at_place_def split: prod.splits)
    have "shows_row jf ims (fst ?q div unat (mcuh jf)) fb" using interval_end.prems(6) S(3) False by auto
    from interval_end.IH [OF at st1(4) mk1 _ w3(2) this] obtain n0 finished dc' w' where
      R: "\<forall>n \<ge> n0. recode_loop n V fb jf rinfo scan (reset_rstw jf st1) (markers + 1) cb (replicate 4 0) w3 = Some (Ok (finished, dc', w'))"
      "row_written jf (fill_byte rinfo) ims ?q (replicate 4 0) [] (pre @ stuff ys @ rst_marker jf (fst p)) (fst p div unat (mcuh jf)) out finished dc' w'"
      using S(3) False by auto
    have "recode_loop n V fb jf rinfo scan st markers cb dc w = Some (Ok (finished, dc', w'))" if "Suc n0 \<le> n" for n
    proof -
      from that obtain j where "n = Suc j" "n0 \<le> j" by (metis Suc_le_D Suc_le_mono)
      then show ?thesis using run [of j] False R(1) by simp
    qed
    then show ?thesis using row_written_interval [OF R(2) interval_end.hyps(1-4)] by blast
  qed
next
  case (scan_end p dc bs' bs ys)
  let ?q = "block_after jf p"
  note A = at_placeD [OF scan_end.prems(1)]
  from recode_block_wrote [OF ok tbl ims scan_end.prems(1,4) scan_end.hyps(2) scan_end.prems(5,6)] obtain w1 where
    w1: "recode_block V jf fb st dc cb w = Ok (next_mcu_pos jf st, dc_after jf ims dc p, cb, w1)" "wrote w1 pre bs'"
    using scan_end.hyps(3) by blast
  from next_place [OF ok scan_end.prems(1,2)] scan_end.hyps(1) obtain st1 where
    st1: "next_mcu_pos jf st = (ScanCompleted, st1)" by auto
  define w2 where "w2 = pad (fill_byte rinfo) w1"
  note P = pad_wrote [OF w1(2), of "fill_byte rinfo", folded w2_def]
  have d2: "data_buffer w2 = pre @ stuff ys" using padded_buffer [OF P scan_end.hyps(4)] .
  have run: "recode_loop n V fb jf rinfo scan st markers cb dc w = Some (Ok (True, dc_after jf ims dc p, w2))" if "Suc 0 \<le> n" for n
    using that w1(1) st1 P(2) by (cases n) (simp_all add: Let_def fill_byte_def [symmetric] w2_def [symmetric] has_no_remainder_def)
  moreover have "Suc (fst p div unat (mcuh jf)) * unat (mcuh jf) = unat (mcuc jf)"
  proof -
    have le: "unat (mcuc jf) \<le> fst ?q" using scan_end.hyps(1) by (simp add: place_status_cases(1))
    have less: "fst p < unat (mcuc jf)" using A(1) by (auto simp: valid_place_def)
    have "?q = (Suc (fst p), 0, 0)" using block_after_fst [of jf p] le less by fastforce
    then have "Suc (fst p) = unat (mcuv jf) * unat (mcuh jf)" "0 < unat (mcuh jf)"
      using le less ok(1) by (auto simp: header_ok_def geometry_ok_def word_less_nat_alt)
    then show ?thesis using ok(1) row_last [of "fst p" "unat (mcuv jf)" "unat (mcuh jf)"] by (simp add: header_ok_def geometry_ok_def)
  qed
  ultimately show ?case using d2 P by (auto simp: row_written_def)
qed

text \<open>One row of MCUs, from its start.\<close>

lemma recode_row_writes:
  assumes ok: "header_ok a jf" "regular_scan jf" and tbl: "scan_tables_ok jf" and ims: "whole_images jf ims"
    and mk: "all_markers rinfo" and row: "row * unat (mcuh jf) < unat (mcuc jf)"
    and code: "scan_code jf (fill_byte rinfo) ims (row * unat (mcuh jf), 0, 0) dc bs rest" "length dc = 4" "wrote w pre bs"
    and fb: "shows_row jf ims row fb"
  shows "\<exists>n0 finished dc' w'. (\<forall>n \<ge> n0. recode_one_mcu_row n V (of_nat row * mcuh jf) dc fb jf rinfo scan w = Some (Ok (finished, dc', w')))
      \<and> row_written jf (fill_byte rinfo) ims (row * unat (mcuh jf), 0, 0) dc bs pre row rest finished dc' w'"
proof -
  let ?m = "of_nat row * mcuh jf" and ?p = "(row * unat (mcuh jf), 0, 0)"
  have w: "0 < unat (mcuh jf)" using ok(1) by (simp add: header_ok_def geometry_ok_def word_less_nat_alt)
  have "row \<le> row * unat (mcuh jf)" using w by simp
  also note row
  also have "unat (mcuc jf) < 2 ^ 32" using unat_lt2p [of "mcuc jf"] by simp
  finally have "row < 2 ^ 32" .
  then have m: "unat ?m = row * unat (mcuh jf)"
    using row unat_lt2p [of "mcuc jf"] by (simp add: unat_word_ariths unat_of_nat_u32)
  have "unat ?m < unat (mcuc jf)" "unat ?m mod unat (mcuh jf) = 0" using row by (simp_all add: m)
  note N = at_block_new [OF ok(1) this]
  have at: "at_place jf (JpegPositionState_new jf ?m) ?p" using N(1) by (simp add: at_place_def m)
  have "markers_at jf (get_cumulative_reset_markers jf (JpegPositionState_new jf ?m)) ?p"
  proof -
    have "?m div rsti jf = of_nat (row * unat (mcuh jf) div unat (rsti jf))" unfolding m [symmetric] unat_div [symmetric] by simp
    moreover have "rstw (JpegPositionState_new jf ?m) \<noteq> 0" if "0 < rsti jf"
    proof -
      have "unat (rstw (JpegPositionState_new jf ?m)) = unat (rsti jf) - unat (mcu (JpegPositionState_new jf ?m)) mod unat (rsti jf)"
        using N(2) that by (simp add: rst_synced_def)
      moreover have "unat (mcu (JpegPositionState_new jf ?m)) mod unat (rsti jf) < unat (rsti jf)" using that by (simp add: word_less_nat_alt)
      ultimately show ?thesis by auto
    qed
    ultimately show ?thesis
      by (simp add: markers_at_def get_cumulative_reset_markers_def JpegPositionState_new_def Let_def)
  qed
  moreover have "shows_row jf ims (fst ?p div unat (mcuh jf)) fb" using fb w by simp
  ultimately show ?thesis using recode_loop_writes [OF ok tbl ims mk code(1) at N(2) _ code(2,3), of _ fb scan "[]"] w
    by (simp add: recode_one_mcu_row_def Let_def)
qed

text \<open>The rows of a scan. The last row of an MCU row writes it.\<close>

lemma write_rows_to_last:
  assumes ok: "header_ok a jf" and ims: "whole_images jf ims" and n: "0 < cmpc jf" "cmpc jf \<le> 3"
    and r: "r < unat (mcuv jf)"
  shows "j + d + 1 = mcu_height jf \<Longrightarrow> write_rows (i + Suc d) n V ims jf (map bcv (take (cmpc jf) (cmp_info jf))) (of_nat (r * mcu_height jf + j)) iw =
    bindF (inc_process_row n V \<lparr>luma_y = 0, rs_component = 0, curr_y = 0, mcu_row_index = of_nat r, last_row_to_complete_mcu = True,
        skip = False, done_rows = False\<rparr> ims iw) (\<lambda>(finished, iw).
      if finished then Some (Ok iw)
      else write_rows i n V ims jf (map bcv (take (cmpc jf) (cmp_info jf))) (of_nat (Suc r * mcu_height jf)) iw)"
proof (induction d arbitrary: j)
  case 0
  from scan_row_spec [OF ok ims n r, of j] 0 obtain spec where spec:
    "get_row_spec_from_index (of_nat (r * mcu_height jf + j)) ims (mcuv jf) (map bcv (take (cmpc jf) (cmp_info jf))) = Ok spec"
    "\<not> skip spec" "\<not> done_rows spec" "mcu_row_index spec = of_nat r" "last_row_to_complete_mcu spec" by auto
  have "of_nat (r * mcu_height jf + j) + 1 = (of_nat (Suc r * mcu_height jf) :: u32)"
    using 0 by (simp flip: of_nat_Suc add: add.commute)
  then show ?case using spec
    by (simp add: inc_process_row_def Let_def del: of_nat_add of_nat_mult of_nat_Suc mult_Suc)
next
  case (Suc d)
  from scan_row_spec [OF ok ims n r, of j] Suc.prems obtain spec where spec:
    "get_row_spec_from_index (of_nat (r * mcu_height jf + j)) ims (mcuv jf) (map bcv (take (cmpc jf) (cmp_info jf))) = Ok spec"
    "\<not> skip spec" "\<not> done_rows spec" "\<not> last_row_to_complete_mcu spec" by auto
  have "of_nat (r * mcu_height jf + j) + 1 = (of_nat (r * mcu_height jf + Suc j) :: u32)" by simp
  then show ?case using spec Suc.IH [of "Suc j"] Suc.prems
    by (simp add: inc_process_row_def Let_def del: of_nat_add of_nat_mult of_nat_Suc mult_Suc)
qed

definition scan_written :: "JpegIncrementalWriter \<Rightarrow> bytes \<Rightarrow> bool" where
  "scan_written iw out \<longleftrightarrow> data_buffer (huffw iw) = out \<and> current_bit (huffw iw) = 64"

lemma write_rows_writes:
  assumes ok: "header_ok a jf" "regular_scan jf" and tbl: "scan_tables_ok jf" and ims: "whole_images jf ims"
    and whole: "whole_scan jf rinfo"
  shows "r + d = unat (mcuv jf) \<Longrightarrow> 0 < d \<Longrightarrow> inc_header iw = jf \<Longrightarrow> inc_rinfo iw = rinfo \<Longrightarrow>
    scan_code jf (fill_byte rinfo) ims (r * unat (mcuh jf), 0, 0) (inc_last_dc iw) bs rest \<Longrightarrow> length (inc_last_dc iw) = 4 \<Longrightarrow>
    wrote (huffw iw) pre bs \<Longrightarrow>
    \<exists>N iw'. (\<forall>i \<ge> N. \<forall>n \<ge> N. write_rows i n V ims jf (map bcv (take (cmpc jf) (cmp_info jf))) (of_nat (r * mcu_height jf)) iw = Some (Ok iw'))
      \<and> scan_written iw' (pre @ rest)"
proof (induction d arbitrary: r iw bs rest pre)
  case (Suc d)
  let ?h = "map bcv (take (cmpc jf) (cmp_info jf))"
  have n: "0 < cmpc jf" "cmpc jf \<le> 3" "all_markers rinfo" using whole by (simp_all add: whole_scan_def)
  have mcuc: "unat (mcuc jf) = unat (mcuv jf) * unat (mcuh jf)" "0 < unat (mcuh jf)"
    using ok(1) by (simp_all add: header_ok_def geometry_ok_def word_less_nat_alt)
  have r: "r < unat (mcuv jf)" using Suc.prems(1) by simp
  then have row: "r * unat (mcuh jf) < unat (mcuc jf)" using mcuc by simp
  have w: "wrote (ensure_space (inc_capacity iw) (huffw iw)) pre bs" using Suc.prems(7) by simp
  from recode_row_writes [OF ok tbl ims n(3) row Suc.prems(5,6) w shows_row_refl] obtain n0 finished dc' w' where
    R: "\<And>n. n0 \<le> n \<Longrightarrow> recode_one_mcu_row n V (of_nat r * mcuh jf) (inc_last_dc iw) ims jf rinfo (inc_scan_index iw)
          (ensure_space (inc_capacity iw) (huffw iw)) = Some (Ok (finished, dc', w'))"
    "row_written jf (fill_byte rinfo) ims (r * unat (mcuh jf), 0, 0) (inc_last_dc iw) bs pre r rest finished dc' w'" by blast
  have "0 < mcu_height jf"
    using header_components(1) [OF ok(1) n(1)] n(1) by (auto simp: mcu_height_def sum_pos2)
  then have M: "0 + (mcu_height jf - 1) + 1 = mcu_height jf" by simp
  note L = write_rows_to_last [OF ok(1) ims n(1,2) r M]
  define iw1 where "iw1 = iw\<lparr>inc_last_dc := dc', huffw := w'\<rparr>"
  have step: "write_rows (i + Suc (mcu_height jf - 1)) n V ims jf ?h (of_nat (r * mcu_height jf)) iw =
    (if finished then Some (Ok iw1) else write_rows i n V ims jf ?h (of_nat (Suc r * mcu_height jf)) iw1)" if "n0 \<le> n" for i n
    using L [of i n iw] R(1) [OF that] Suc.prems(3,4) by (simp add: inc_process_row_def iw1_def del: mult_Suc of_nat_mult)
  show ?case
  proof (cases finished)
    case True
    then have "scan_written iw1 (pre @ rest)" using R(2) by (simp add: row_written_def scan_written_def iw1_def)
    moreover have "write_rows i n V ims jf ?h (of_nat (r * mcu_height jf)) iw = Some (Ok iw1)"
      if "n0 + Suc (mcu_height jf - 1) \<le> i" "n0 + Suc (mcu_height jf - 1) \<le> n" for i n
      using step [of n "i - Suc (mcu_height jf - 1)"] that True by simp
    ultimately show ?thesis by blast
  next
    case False
    from R(2) False obtain pre1 bs1 rest1 where S: "Suc r * unat (mcuh jf) < unat (mcuc jf)" "length dc' = 4"
      "scan_code jf (fill_byte rinfo) ims (Suc r * unat (mcuh jf), 0, 0) dc' bs1 rest1" "wrote w' pre1 bs1" "pre1 @ rest1 = pre @ rest"
      unfolding row_written_def if_not_P [OF False] by force
    have "Suc r < unat (mcuv jf)" using S(1) unfolding mcuc(1) by (metis mult_less_cancel2)
    then have d: "Suc r + d = unat (mcuv jf)" "0 < d" using Suc.prems(1) by simp_all
    have iw1: "inc_header iw1 = jf" "inc_rinfo iw1 = rinfo" "inc_last_dc iw1 = dc'" "huffw iw1 = w'"
      using Suc.prems(3,4) by (simp_all add: iw1_def)
    from Suc.IH [OF d iw1(1,2), of bs1 rest1 pre1] S(2-4) iw1(3,4) obtain N iw' where
      N: "\<forall>i \<ge> N. \<forall>n \<ge> N. write_rows i n V ims jf ?h (of_nat (Suc r * mcu_height jf)) iw1 = Some (Ok iw')"
      "scan_written iw' (pre1 @ rest1)" by auto
    have "write_rows i n V ims jf ?h (of_nat (r * mcu_height jf)) iw = Some (Ok iw')"
      if "N + n0 + Suc (mcu_height jf - 1) \<le> i" "N + n0 + Suc (mcu_height jf - 1) \<le> n" for i n
      using step [of n "i - Suc (mcu_height jf - 1)"] that False N(1) by (simp del: mult_Suc of_nat_mult)
    then show ?thesis using N(2) S(5) by metis
  qed
qed simp

text \<open>The whole scan.\<close>

lemma write_scan:
  assumes ok: "header_ok a jf" "regular_scan jf" and tbl: "scan_tables_ok jf" and ims: "whole_images jf ims"
    and whole: "whole_scan jf rinfo" and code: "scan_code jf (fill_byte rinfo) ims (0, 0, 0) (replicate 4 0) [] out"
  shows "\<exists>N. \<forall>i \<ge> N. \<forall>n \<ge> N. jpeg_write_entire_scan i n V alloc ims jf rinfo scan = Some (Ok out)"
proof -
  define iw where "iw = JpegIncrementalWriter_new (128 * 1024) alloc rinfo None jf scan"
  have iw: "inc_header iw = jf" "inc_rinfo iw = rinfo" "inc_last_dc iw = replicate 4 0" "wrote (huffw iw) [] []"
    by (simp_all add: iw_def JpegIncrementalWriter_new_def Let_def wrote_new)
  have v: "0 + unat (mcuv jf) = unat (mcuv jf)" "0 < unat (mcuv jf)"
    using ok(1) by (simp_all add: header_ok_def geometry_ok_def word_less_nat_alt)
  from write_rows_writes [OF ok tbl ims whole v iw(1,2) _ _ iw(4), of out] code iw(3) obtain N iw' where
    N: "\<forall>i \<ge> N. \<forall>n \<ge> N. write_rows i n V ims jf (map bcv (take (cmpc jf) (cmp_info jf))) 0 iw = Some (Ok iw')" "scan_written iw' out"
    by auto
  have "fst (inc_detach_buffer iw') = out"
    using N(2) by (simp add: scan_written_def inc_detach_buffer_def detach_buffer_def Let_def flush_whole_bytes.simps [of "huffw iw'"])
  moreover have "get_max_coded_heights (truncate_components rinfo) = Ok (map bcv (take (cmpc jf) (cmp_info jf)))"
    using whole by (simp add: whole_scan_def)
  ultimately show ?thesis
    using N(1) by (intro exI [of _ N]) (simp add: jpeg_write_entire_scan_def iw_def)
qed

end

end
