(* ===== verification/Scan_Reader.thy ===== *)
theory Scan_Reader
  imports Prog_Block Header_Inv
begin

unbundle bit_operations_syntax

text \<open>
  Reading the scans of a JPEG file (\<open>jpeg/jpeg_read.rs\<close>): the blocks of a restart interval, the intervals of a
  scan, and the file: the header, the first scan, further scans of a progressive file, and what is kept to write
  the file again. The variables the functions share are the record \<open>ScanState\<close>.
\<close>

record ScanState =
  scan_position :: JpegPositionState
  bit_reader :: BitReader
  scan_images :: "BlockBasedImage list"
  do_handoff :: bool
  reconstruct_info :: ReconstructionInfo
  partitions :: "(u64 \<times> RestartSegmentCodingInfo) list"

text \<open>A change of the block at the position of the scan.\<close>

definition modify_block :: "(AlignedBlock \<Rightarrow> AlignedBlock) \<Rightarrow> ScanState \<Rightarrow> ScanState result" where
  "modify_block f s =
    (let c = cmp (scan_position s)
     in bindR (idx (scan_images s) c) (\<lambda>im.
        bindR (get_block_mut (dpos (scan_position s)) f im) (\<lambda>im.
          Ok (s\<lparr>scan_images := (scan_images s)[c := im]\<rparr>))))"

text \<open>The block there, which \<open>get_block_mut\<close> creates if need be.\<close>

definition current_block :: "ScanState \<Rightarrow> (AlignedBlock \<times> ScanState) result" where
  "current_block s =
    bindR (modify_block id s) (\<lambda>s. Ok (get_block_at (scan_images s ! cmp (scan_position s)) (dpos (scan_position s)), s))"

definition next_position :: "JpegHeader \<Rightarrow> ScanState \<Rightarrow> JpegDecodeStatus \<times> ScanState" where
  "next_position jf s = (let (sta, p) = next_mcu_pos jf (scan_position s) in (sta, s\<lparr>scan_position := p\<rparr>))"

text \<open>The next position; a handoff is due at the start of a row of MCUs.\<close>

definition next_with_handoff :: "JpegHeader \<Rightarrow> ScanState \<Rightarrow> JpegDecodeStatus \<times> ScanState" where
  "next_with_handoff jf s =
    (let old_mcu = mcu (scan_position s);
         (sta, s) = next_position jf s
     in (sta, if mcu (scan_position s) mod mcuh jf = 0 \<and> old_mcu \<noteq> mcu (scan_position s) then s\<lparr>do_handoff := True\<rparr> else s))"

section \<open>Baseline scans\<close>

text \<open>One block: the difference to the last DC, the place of the block, and the end of the file.\<close>

definition baseline_handoff :: "JpegHeader \<Rightarrow> i16 list \<Rightarrow> ScanState \<Rightarrow> ScanState" where
  "baseline_handoff jf lastdc s =
    (if do_handoff s
     then let ((bits_already_read, byte_being_read), r) = overhang (bit_reader s);
              (p, r) = stream_position r
          in s\<lparr>bit_reader := r, do_handoff := False,
               partitions := partitions s @
                 [(p, RestartSegmentCodingInfo_new byte_being_read bits_already_read lastdc (mcu (scan_position s)) jf)]\<rparr>
     else s)"

definition record_max_dpos :: "ScanState \<Rightarrow> ScanState" where
  "record_max_dpos s =
    (if \<not> is_eof (bit_reader s)
     then let c = cmp (scan_position s); ri = reconstruct_info s
          in s\<lparr>reconstruct_info := ri\<lparr>max_dpos := (max_dpos ri)[c := max (dpos (scan_position s)) (max_dpos ri ! c)]\<rparr>\<rparr>
     else s)"

definition baseline_block ::
  "nat \<Rightarrow> JpegHeader \<Rightarrow> i16 list \<Rightarrow> ScanState \<Rightarrow> ((JpegDecodeStatus \<times> i16 list) \<times> ScanState) result option"
where
  "baseline_block k jf lastdc s =
    (let s = record_max_dpos (baseline_handoff jf lastdc s);
         c = cmp (scan_position s)
     in bindF (decode_block_seq k (get_huff_dc_tree jf c) (get_huff_ac_tree jf c) (replicate 64 0) (bit_reader s)) (\<lambda>((eob, block), r).
        if 1 < eob \<and> block ! (eob - 1) = 0 then Some (err_exit_code UnsupportedJpeg)
        else
          let dc = block ! 0 + lastdc ! c;
              lastdc = lastdc[c := dc];
              block_tr = zigzag_to_transposed (block[0 := dc])
          in bindF (Some (idx (scan_images s) c)) (\<lambda>im.
             bindF (Some (set_block_data (dpos (scan_position s)) block_tr im)) (\<lambda>im.
             let (sta, s) = next_with_handoff jf (s\<lparr>bit_reader := r, scan_images := (scan_images s)[c := im]\<rparr>)
             in Some (Ok (if is_eof r
                then ((ScanCompleted, lastdc), s\<lparr>reconstruct_info := (reconstruct_info s)\<lparr>early_eof_encountered := True\<rparr>\<rparr>)
                else ((sta, lastdc), s)))))))"

fun baseline_loop ::
  "nat \<Rightarrow> nat \<Rightarrow> JpegHeader \<Rightarrow> i16 list \<Rightarrow> ScanState \<Rightarrow> (JpegDecodeStatus \<times> ScanState) result option"
where
  "baseline_loop 0 k jf lastdc s = None"
| "baseline_loop (Suc n) k jf lastdc s =
    bindF (baseline_block k jf lastdc s) (\<lambda>((sta, lastdc), s).
      if sta = DecodeInProgress then baseline_loop n k jf lastdc s else Some (Ok (sta, s)))"

definition decode_baseline_rst ::
  "nat \<Rightarrow> nat \<Rightarrow> JpegHeader \<Rightarrow> ScanState \<Rightarrow> (JpegDecodeStatus \<times> ScanState) result option"
where
  "decode_baseline_rst n k jf s =
    bindF (Some (verify_huffman_table True True jf)) (\<lambda>_. baseline_loop n k jf (replicate 4 0) s)"

section \<open>The first scan\<close>

text \<open>Progressive files start with the DC coefficients.\<close>

definition dc_first_block :: "nat \<Rightarrow> JpegHeader \<Rightarrow> i16 list \<Rightarrow> ScanState \<Rightarrow> ((JpegDecodeStatus \<times> i16 list) \<times> ScanState) result option"
where
  "dc_first_block k jf lastdc s =
    bindF (Some (current_block s)) (\<lambda>(_, s).
      let c = cmp (scan_position s);
          s = (if do_handoff s
               then s\<lparr>do_handoff := False,
                      partitions := partitions s @ [(0, RestartSegmentCodingInfo_new 0 0 (replicate 4 0) (mcu (scan_position s)) jf)]\<rparr>
               else s)
      in bindF (read_dc_huff k (get_huff_dc_tree jf c) (bit_reader s)) (\<lambda>(coef, r).
         let v = coef + lastdc ! c
         in bindF (Some (modify_block (set_transposed_from_zigzag 0 (push_bit (unat (cs_sal jf) mod 16) v)) (s\<lparr>bit_reader := r\<rparr>))) (\<lambda>s.
            let (sta, s) = next_with_handoff jf s in Some (Ok ((sta, lastdc[c := v]), s)))))"

fun dc_first_loop ::
  "nat \<Rightarrow> nat \<Rightarrow> JpegHeader \<Rightarrow> i16 list \<Rightarrow> ScanState \<Rightarrow> (JpegDecodeStatus \<times> ScanState) result option"
where
  "dc_first_loop 0 k jf lastdc s = None"
| "dc_first_loop (Suc n) k jf lastdc s =
    bindF (dc_first_block k jf lastdc s) (\<lambda>((sta, lastdc), s).
      if sta = DecodeInProgress then dc_first_loop n k jf lastdc s else Some (Ok (sta, s)))"

text \<open>The padding behind an interval and the marker between two intervals.\<close>

definition finish_interval :: "JpegDecodeStatus \<Rightarrow> ScanState \<Rightarrow> ScanState result" where
  "finish_interval sta s =
    bindR (read_and_verify_fill_bits (pad_bit (reconstruct_info s)) (bit_reader s)) (\<lambda>(pad, r).
      let s = s\<lparr>bit_reader := r, reconstruct_info := (reconstruct_info s)\<lparr>pad_bit := pad\<rparr>\<rparr>
      in if sta = RestartIntervalExpired
         then bindR (verify_reset_code r) (\<lambda>r. Ok (s\<lparr>bit_reader := r\<rparr>))
         else Ok s)"

definition first_scan_interval :: "nat \<Rightarrow> nat \<Rightarrow> JpegHeader \<Rightarrow> ScanState \<Rightarrow> (JpegDecodeStatus \<times> ScanState) result option" where
  "first_scan_interval n k jf s =
    (let s = s\<lparr>scan_position := reset_rstw jf (scan_position s)\<rparr>
     in bindF (if jpeg_type jf = Sequential then decode_baseline_rst n k jf s
               else if cs_to jf = 0 \<and> cs_sah jf = 0
               then bindF (Some (verify_huffman_table True False jf)) (\<lambda>_. dc_first_loop n k jf (replicate 4 0) s)
               else Some (err_exit_code UnsupportedJpeg)) (\<lambda>(sta, s).
        bindF (Some (finish_interval sta s)) (\<lambda>s. Some (Ok (sta, s)))))"

fun first_scan_loop :: "nat \<Rightarrow> nat \<Rightarrow> nat \<Rightarrow> JpegHeader \<Rightarrow> ScanState \<Rightarrow> ScanState result option" where
  "first_scan_loop 0 n k jf s = None"
| "first_scan_loop (Suc i) n k jf s =
    bindF (first_scan_interval n k jf s) (\<lambda>(sta, s).
      if sta = ScanCompleted then Some (Ok s) else first_scan_loop i n k jf s)"

text \<open>\<open>n\<close> bounds the blocks of an interval and the intervals, \<open>k\<close> the loops that read a block.\<close>

definition read_first_scan ::
  "nat \<Rightarrow> nat \<Rightarrow> JpegHeader \<Rightarrow> BufRead \<Rightarrow> (u64 \<times> RestartSegmentCodingInfo) list \<Rightarrow> BlockBasedImage list \<Rightarrow> ReconstructionInfo
    \<Rightarrow> ScanState result option"
where
  "read_first_scan n k jf i parts images rinfo =
    first_scan_loop n n k jf
      \<lparr>scan_position = JpegPositionState_new jf 0, bit_reader = BitReader_new i, scan_images = images,
       do_handoff = True, reconstruct_info = rinfo, partitions = parts\<rparr>"

section \<open>Further scans\<close>

text \<open>The DC is refined by a bit.\<close>

definition dc_later_block :: "JpegHeader \<Rightarrow> ScanState \<Rightarrow> (JpegDecodeStatus \<times> ScanState) result" where
  "dc_later_block jf s =
    bindR (current_block s) (\<lambda>(b, s).
    bindR (read 1 (bit_reader s)) (\<lambda>(v, r).
    bindR (modify_block (set_transposed_from_zigzag 0
             (get_transposed_from_zigzag b 0 + push_bit (unat (cs_sal jf) mod 16) (ucast v))) (s\<lparr>bit_reader := r\<rparr>)) (\<lambda>s.
      Ok (next_position jf s))))"

text \<open>\<open>block\<close> is shared by all blocks of an interval.\<close>

definition ac_first_block ::
  "nat \<Rightarrow> JpegHeader \<Rightarrow> i16 list \<Rightarrow> ScanState \<Rightarrow> ((JpegDecodeStatus \<times> i16 list) \<times> ScanState) result option"
where
  "ac_first_block k jf block s =
    bindF (Some (current_block s)) (\<lambda>(_, s).
    let c = cmp (scan_position s)
    in bindF (if eobrun (scan_position s) = 0
              then bindF (decode_ac_prg_fs k (get_huff_ac_tree jf c) block (scan_position s) (cs_from jf) (cs_to jf) (bit_reader s)) (\<lambda>((eob, block, p), r).
                   bindF (Some (check_optimal_eobrun (eob = cs_from jf) (get_huff_ac_codes jf c) p)) (\<lambda>p.
                   bindF (Some (modify_block
                       (fold (\<lambda>bpos. set_transposed_from_zigzag bpos (push_bit (unat (cs_sal jf) mod 16) (block ! bpos)))
                             [unat (cs_from jf)..<unat eob]) (s\<lparr>bit_reader := r, scan_position := p\<rparr>))) (\<lambda>s.
                     Some (Ok (block, s)))))
              else Some (Ok (block, s))) (\<lambda>(block, s).
       bindF (Some (skip_eobrun jf (scan_position s))) (\<lambda>(sta, p).
         let s = s\<lparr>scan_position := p\<rparr>
         in if sta = DecodeInProgress then let (sta, s) = next_position jf s in Some (Ok ((sta, block), s))
            else Some (Ok ((sta, block), s)))))"

definition ac_later_block ::
  "nat \<Rightarrow> JpegHeader \<Rightarrow> i16 list \<Rightarrow> ScanState \<Rightarrow> ((JpegDecodeStatus \<times> i16 list) \<times> ScanState) result option"
where
  "ac_later_block k jf block s =
    bindF (Some (current_block s)) (\<lambda>(b, s).
    let c = cmp (scan_position s);
        band = [unat (cs_from jf)..<unat (cs_to jf + 1)];
        block = fold (\<lambda>bpos block. block[bpos := get_transposed_from_zigzag b bpos]) band block
    in bindF (if eobrun (scan_position s) = 0
              then bindF (decode_ac_prg_sa k (get_huff_ac_tree jf c) block (scan_position s) (cs_from jf) (cs_to jf) (bit_reader s)) (\<lambda>((eob, block, p), r).
                   bindF (Some (check_optimal_eobrun (eob = cs_from jf) (get_huff_ac_codes jf c) p)) (\<lambda>p.
                     Some (Ok ((block, p), r))))
              else Some (decode_eobrun_sa block (scan_position s) (cs_from jf) (cs_to jf) (bit_reader s))) (\<lambda>((block, p), r).
       bindF (Some (modify_block
           (fold (\<lambda>bpos b. set_transposed_from_zigzag bpos
                    (get_transposed_from_zigzag b bpos + push_bit (unat (cs_sal jf) mod 16) (block ! bpos)) b) band)
           (s\<lparr>bit_reader := r, scan_position := p\<rparr>))) (\<lambda>s.
         let (sta, s) = next_position jf s in Some (Ok ((sta, block), s)))))"

text \<open>The loop over the blocks of an interval; the pass is an argument.\<close>

fun pass_loop ::
  "nat \<Rightarrow> (i16 list \<Rightarrow> ScanState \<Rightarrow> ((JpegDecodeStatus \<times> i16 list) \<times> ScanState) result option) \<Rightarrow> i16 list \<Rightarrow> ScanState
    \<Rightarrow> (JpegDecodeStatus \<times> ScanState) result option"
where
  "pass_loop 0 f block s = None"
| "pass_loop (Suc n) f block s =
    bindF (f block s) (\<lambda>((sta, block), s). if sta = DecodeInProgress then pass_loop n f block s else Some (Ok (sta, s)))"

definition progressive_interval :: "nat \<Rightarrow> nat \<Rightarrow> JpegHeader \<Rightarrow> ScanState \<Rightarrow> (JpegDecodeStatus \<times> ScanState) result option" where
  "progressive_interval n k jf s =
    (let s = s\<lparr>scan_position := reset_rstw jf (scan_position s)\<rparr>
     in bindF (if cs_to jf = 0
               then if cs_sah jf = 0 then Some (err_exit_code UnsupportedJpeg)
                    else bindF (Some (verify_huffman_table True False jf)) (\<lambda>_.
                      pass_loop n (\<lambda>block s. Some (bindR (dc_later_block jf s) (\<lambda>(sta, s). Ok ((sta, block), s)))) [] s)
               else if cs_from jf = 0 \<or> 64 \<le> cs_to jf \<or> cs_to jf \<le> cs_from jf then Some (err_exit_code UnsupportedJpeg)
               else bindF (Some (verify_huffman_table False True jf)) (\<lambda>_.
                 if cs_sah jf = 0
                 then if cs_cmpc jf \<noteq> 1 then Some (err_exit_code UnsupportedJpeg)
                      else pass_loop n (ac_first_block k jf) (replicate 64 0) s
                 else pass_loop n (ac_later_block k jf) (replicate 64 0) s)) (\<lambda>(sta, s).
        bindF (Some (finish_interval sta s)) (\<lambda>s. Some (Ok (sta, s)))))"

fun progressive_scan_loop :: "nat \<Rightarrow> nat \<Rightarrow> nat \<Rightarrow> JpegHeader \<Rightarrow> ScanState \<Rightarrow> ScanState result option" where
  "progressive_scan_loop 0 n k jf s = None"
| "progressive_scan_loop (Suc i) n k jf s =
    bindF (progressive_interval n k jf s) (\<lambda>(sta, s).
      if sta = ScanCompleted then Some (Ok s) else progressive_scan_loop i n k jf s)"

definition read_progressive_scan ::
  "nat \<Rightarrow> nat \<Rightarrow> JpegHeader \<Rightarrow> BufRead \<Rightarrow> BlockBasedImage list \<Rightarrow> ReconstructionInfo \<Rightarrow> ScanState result option"
where
  "read_progressive_scan n k jf i images rinfo =
    progressive_scan_loop n n k jf
      \<lparr>scan_position = JpegPositionState_new jf 0, bit_reader = BitReader_new i, scan_images = images,
       do_handoff = False, reconstruct_info = rinfo\<lparr>max_sah := max (max_sah rinfo) (max (cs_sal jf) (cs_sah jf))\<rparr>,
       partitions = []\<rparr>"

end
