(* ===== verification/Scan_Interval.thy ===== *)
theory Scan_Interval
  imports Scan_Code Scan_Reader
begin

unbundle bit_operations_syntax

text \<open>
  The baseline decoder in one restart interval: where it stands, what it has read, the block it stores. What it has read
  at the end of the interval is the code of the blocks of the interval (\<open>baseline_loop_reads\<close>).
\<close>

section \<open>Places and images\<close>

lemma header_scan_length: "header_ok a jf \<Longrightarrow> cs_cmpc jf \<le> length (cs_cmp jf)"
  by (auto simp: header_ok_def header_inv_def header_shape_def scan_ok_def frame_ok_def)

lemma place_inject:
  assumes ok: "header_ok a jf" "regular_scan jf" and p: "valid_place jf p" and q: "valid_place jf q"
    and same: "place_component jf p = place_component jf q"
      "block_pos jf (place_component jf p) (fst p) (snd (snd p)) = block_pos jf (place_component jf q) (fst q) (snd (snd q))"
  shows "p = q"
proof -
  obtain m c k m' c' k' where pq: "p = (m, c, k)" "q = (m', c', k')" by (metis prod_cases3)
  have c: "c < cs_cmpc jf" "c' < cs_cmpc jf" using p q by (simp_all add: pq valid_place_def)
  note len = header_scan_length [OF ok(1)]
  have "take (cs_cmpc jf) (cs_cmp jf) ! c = take (cs_cmpc jf) (cs_cmp jf) ! c'" using same(1) c by (simp add: pq place_component_def)
  moreover have "distinct (take (cs_cmpc jf) (cs_cmp jf))" using ok(2) by (simp add: regular_scan_def)
  ultimately have "c = c'" using c len nth_eq_iff_index_eq [of "take (cs_cmpc jf) (cs_cmp jf)" c c'] by simp
  moreover have "m = m' \<and> k = k'"
    using block_pos_inject [OF ok(1) c(1), of m k m' k'] p q same(2) \<open>c = c'\<close> by (simp add: pq valid_place_def place_component_def)
  ultimately show ?thesis by (simp add: pq)
qed

lemma set_block_data_height: "set_block_data d b im = Ok im' \<Longrightarrow> original_height im' = original_height im"
  by (auto simp: set_block_data_def fill_up_to_dpos_def Let_def split: if_splits)

text \<open>Storing a block changes the block of its place and of no other.\<close>

lemma store_block:
  assumes ok: "header_ok a jf" "regular_scan jf" and ims: "whole_images jf ims" and at: "at_place jf st p"
    and set: "set_block_data (dpos st) b (ims ! cmp st) = Ok im" and ims': "ims' = ims[cmp st := im]"
  shows "whole_images jf ims'" "scan_block jf ims' p = b"
    "\<And>q. valid_place jf q \<Longrightarrow> q \<noteq> p \<Longrightarrow> scan_block jf ims' q = scan_block jf ims q"
proof -
  note A = at_placeD [OF at]
  let ?c = "place_component jf p"
  have c: "?c < cmpc jf" using place_component_less(1) [OF ok(1) A(1)] .
  then have l: "length ims = cmpc jf" "dpos_offset (ims ! ?c) = 0" using ims by (simp_all add: whole_images_def)
  note S = set_block_data_blocks_of [OF set] set_block_data_height [OF set]
  show "whole_images jf ims'" using ims S(2,6) c by (auto simp: whole_images_def ims' A(3) nth_list_update)
  show "scan_block jf ims' p = b" using c l S(1) by (simp add: scan_block_def ims' A(3,4))
  show "scan_block jf ims' q = scan_block jf ims q" if "valid_place jf q" "q \<noteq> p" for q
  proof (cases "place_component jf q = ?c")
    case True
    then have "block_pos jf ?c (fst q) (snd (snd q)) \<noteq> block_pos jf ?c (fst p) (snd (snd p))"
      using place_inject [OF ok A(1) that(1)] that(2) by auto
    then show ?thesis using True c l S(1) by (simp add: scan_block_def ims' A(3,4))
  qed (simp add: scan_block_def ims' A(3))
qed

section \<open>The tables of a scan\<close>

definition scan_trees_ok :: "JpegHeader \<Rightarrow> bool" where
  "scan_trees_ok jf \<longleftrightarrow> (\<forall>c < cs_cmpc jf. let i = cs_cmp jf ! c
    in tree_for (get_huff_dc_codes jf i) (get_huff_dc_tree jf i) \<and> tree_for (get_huff_ac_codes jf i) (get_huff_ac_tree jf i)
     \<and> no_short_runs (get_huff_ac_codes jf i))"

text \<open>The decoder accepts codes for runs of zeros without a coefficient, which the encoder never writes.\<close>

definition no_short_run_codes :: "JpegHeader \<Rightarrow> bool" where
  "no_short_run_codes jf \<longleftrightarrow> (\<forall>c < cs_cmpc jf. no_short_runs (get_huff_ac_codes jf (cs_cmp jf ! c)))"

lemma verify_tables_set:
  "verify_tables d a jf cs = Ok () \<Longrightarrow> c \<in> set cs \<Longrightarrow>
    (d \<longrightarrow> ht_set jf ! 0 ! unat (huff_dc (cmp_info jf ! c)) \<noteq> 0) \<and> (a \<longrightarrow> ht_set jf ! 1 ! unat (huff_ac (cmp_info jf ! c)) \<noteq> 0)"
  by (induction cs) (auto split: if_splits)

lemma scan_component_tables:
  assumes ok: "header_ok False jf" and v: "verify_huffman_table True True jf = Ok ()" and c: "c < cs_cmpc jf" "i = cs_cmp jf ! c"
  shows "codes_ok (get_huff_dc_codes jf i) \<and> construct_hufftree (get_huff_dc_codes jf i) False = Ok (get_huff_dc_tree jf i)
    \<and> codes_ok (get_huff_ac_codes jf i) \<and> construct_hufftree (get_huff_ac_codes jf i) False = Ok (get_huff_ac_tree jf i)"
proof -
  have S: "scan_ok jf" "header_shape jf" "tables_belong False jf" using ok by (simp_all add: header_ok_def header_inv_def)
  have "i \<in> set (take (cs_cmpc jf) (cs_cmp jf))"
    using c header_scan_length [OF ok] by (simp add: in_set_conv_nth) (metis min.absorb2 nth_take)
  with v have h: "ht_set jf ! 0 ! unat (huff_dc (cmp_info jf ! i)) \<noteq> 0" "ht_set jf ! 1 ! unat (huff_ac (cmp_info jf ! i)) \<noteq> 0"
    using verify_tables_set [of True True jf] by (auto simp: verify_huffman_table_def)
  have small: "unat (huff_dc (cmp_info jf ! i)) < 4" "unat (huff_ac (cmp_info jf ! i)) < 4"
    using S(1) c by (auto simp: scan_ok_def scan_components_ok_def word_less_nat_alt)
  show ?thesis
    using S(3) h small
    by (auto simp: tables_belong_def get_huff_dc_codes_def get_huff_ac_codes_def get_huff_dc_tree_def get_huff_ac_tree_def
        numeral_2_eq_2 less_Suc_eq)
qed

lemma verified_tables:
  assumes ok: "header_ok False jf" and v: "verify_huffman_table True True jf = Ok ()" and short: "no_short_run_codes jf"
  shows "scan_tables_ok jf" "scan_trees_ok jf"
proof -
  have "codes_ok (get_huff_dc_codes jf i) \<and> codes_ok (get_huff_ac_codes jf i)
    \<and> tree_for (get_huff_dc_codes jf i) (get_huff_dc_tree jf i) \<and> tree_for (get_huff_ac_codes jf i) (get_huff_ac_tree jf i)"
    if c: "c < cs_cmpc jf" "i = cs_cmp jf ! c" for c i
    using scan_component_tables [OF ok v c] tree_for_construct by (auto simp: codes_ok_def)
  then show "scan_tables_ok jf" "scan_trees_ok jf"
    using short by (simp_all add: scan_tables_ok_def scan_trees_ok_def no_short_run_codes_def Let_def)
qed

section \<open>One block\<close>

definition interval_no :: "JpegHeader \<Rightarrow> place \<Rightarrow> nat" where
  "interval_no jf p = (if 0 < rsti jf then fst p div unat (rsti jf) else 0)"

text \<open>Of the interval with the bytes \<open>xs\<close> the bits \<open>bs\<close> have been read.\<close>

definition has_read :: "JpegHeader \<Rightarrow> u64 \<Rightarrow> bytes \<Rightarrow> bytes \<Rightarrow> place \<Rightarrow> bool list \<Rightarrow> BitReader \<Rightarrow> bool" where
  "has_read jf base xs tail p bs r \<longleftrightarrow>
    (\<exists>rest. rd base xs tail (of_nat (interval_no jf p)) 0 r rest \<and> bytes_bits xs = bs @ rest)"

lemma has_readD:
  assumes "has_read jf base xs tail p bs r"
  shows "reads r base xs tail (length bs)" "settled r" "cpos r = of_nat (interval_no jf p)"
    "bytes_bits xs = bs @ drop (length bs) (bytes_bits xs)" "\<not> eof r"
proof -
  from assms obtain rest d where R: "reads r base xs tail d" "slack 0 r" "rest = drop d (bytes_bits xs)"
    "cpos r = of_nat (interval_no jf p)" "bytes_bits xs = bs @ rest" unfolding has_read_def rd_def by blast
  have "length (bytes_bits xs) = length bs + length rest" using R(5) by simp
  then have "d = length bs" using R(3) reads_length [OF R(1)] by simp
  then show "reads r base xs tail (length bs)" "settled r" "cpos r = of_nat (interval_no jf p)"
    "bytes_bits xs = bs @ drop (length bs) (bytes_bits xs)"
    using R by (simp_all add: settled_slack)
  from R(1) show "\<not> eof r" by (auto simp: reads_def reads_at_def Let_def)
qed

lemma has_readI:
  assumes "reads r base xs tail (length bs)" "settled r" "cpos r = of_nat (interval_no jf p)" "bytes_bits xs = bs @ rest"
  shows "has_read jf base xs tail p bs r"
proof -
  have "rest = drop (length bs) (bytes_bits xs)" using assms(4) by simp
  then show ?thesis using assms by (auto simp: has_read_def rd_def settled_slack)
qed

lemma has_read_undo:
  assumes "has_read jf base xs tail p bs r"
  shows "has_read jf base xs tail p bs (undo_read_ahead r)"
proof -
  note D = has_readD [OF assms]
  note U = undo_reads [OF D(1,2)]
  have "reads (undo_read_ahead r) base xs tail (length bs)" using U(1) by (auto simp: reads_def)
  then show ?thesis using has_readI U(4,5) D(3,4) by metis
qed

lemma handoff_reading:
  assumes "has_read jf base xs tail p bs (bit_reader s)"
  shows "has_read jf base xs tail p bs (bit_reader (baseline_handoff jf dc s))"
    "scan_position (baseline_handoff jf dc s) = scan_position s" "scan_images (baseline_handoff jf dc s) = scan_images s"
    "reconstruct_info (baseline_handoff jf dc s) = reconstruct_info s"
proof -
  obtain a b where o: "overhang (bit_reader s) = ((a, b), undo_read_ahead (bit_reader s))"
    by (simp add: overhang_def Let_def)
  obtain q where q: "stream_position (undo_read_ahead (bit_reader s)) = (q, undo_read_ahead (undo_read_ahead (bit_reader s)))"
    by (simp add: stream_position_def Let_def)
  show "has_read jf base xs tail p bs (bit_reader (baseline_handoff jf dc s))"
    "scan_position (baseline_handoff jf dc s) = scan_position s" "scan_images (baseline_handoff jf dc s) = scan_images s"
    "reconstruct_info (baseline_handoff jf dc s) = reconstruct_info s"
    using assms has_read_undo by (simp_all add: baseline_handoff_def o q)
qed

text \<open>Only the positions that have been reached and the pad bit change in what is kept.\<close>

definition same_info :: "ReconstructionInfo \<Rightarrow> ReconstructionInfo \<Rightarrow> bool" where
  "same_info ri ri' \<longleftrightarrow> (\<exists>d p. ri' = ri\<lparr>max_dpos := d, pad_bit := p\<rparr>)"

lemma same_infoI [intro]: "ri' = ri\<lparr>max_dpos := d, pad_bit := p\<rparr> \<Longrightarrow> same_info ri ri'"
  by (auto simp: same_info_def)

lemma same_info_refl [simp]: "same_info ri ri"
  by (rule same_infoI [where d = "max_dpos ri" and p = "pad_bit ri"]) simp

lemma same_infoD:
  assumes "same_info ri ri'"
  shows "truncate_components ri' = truncate_components ri" "rst_cnt ri' = rst_cnt ri" "rst_cnt_set ri' = rst_cnt_set ri"
    "early_eof_encountered ri' = early_eof_encountered ri" "raw_jpeg_header ri' = raw_jpeg_header ri" "garbage_data ri' = garbage_data ri"
  using assms by (auto simp: same_info_def)

lemma same_info_trans: "same_info a b \<Longrightarrow> same_info b c \<Longrightarrow> same_info a c"
  by (force simp: same_info_def)

lemma same_info_max_dpos: "same_info ri (ri\<lparr>max_dpos := d\<rparr>)"
  by (rule same_infoI [where d = d and p = "pad_bit ri"]) simp

lemma same_info_pad_bit: "same_info ri (ri\<lparr>pad_bit := p\<rparr>)"
  by (rule same_infoI [where d = "max_dpos ri" and p = p]) simp

lemma record_max_dpos_simps [simp]:
  "bit_reader (record_max_dpos s) = bit_reader s" "scan_position (record_max_dpos s) = scan_position s"
  "scan_images (record_max_dpos s) = scan_images s" "pad_bit (reconstruct_info (record_max_dpos s)) = pad_bit (reconstruct_info s)"
  "same_info (reconstruct_info s) (reconstruct_info (record_max_dpos s))"
  by (simp_all add: record_max_dpos_def Let_def same_info_max_dpos)

definition reading :: "JpegHeader \<Rightarrow> u64 \<Rightarrow> bytes \<Rightarrow> bytes \<Rightarrow> place \<Rightarrow> i16 list \<Rightarrow> bool list \<Rightarrow> ScanState \<Rightarrow> bool" where
  "reading jf base xs tail p dc bs s \<longleftrightarrow> at_place jf (scan_position s) p \<and> rst_synced jf (scan_position s) \<and> length dc = 4
    \<and> whole_images jf (scan_images s) \<and> has_read jf base xs tail p bs (bit_reader s)"

lemma next_with_handoff_simps:
  "fst (next_with_handoff jf s) = fst (next_mcu_pos jf (scan_position s))"
  "scan_position (snd (next_with_handoff jf s)) = snd (next_mcu_pos jf (scan_position s))"
  "scan_images (snd (next_with_handoff jf s)) = scan_images s" "bit_reader (snd (next_with_handoff jf s)) = bit_reader s"
  "reconstruct_info (snd (next_with_handoff jf s)) = reconstruct_info s"
  by (auto simp: next_with_handoff_def next_position_def Let_def split: prod.splits)

lemma baseline_block_reads:
  assumes ok: "header_ok a jf" "regular_scan jf" and trees: "scan_trees_ok jf" and m: "marker tail" and k: "81 < k"
    and reading: "reading jf base xs tail p dc bs s"
    and run: "baseline_block k jf dc s = Some (Ok ((sta, dc'), s'))"
  shows "sta = place_status jf p" "dc' = dc_after jf (scan_images s') dc p" "place_codable jf (scan_images s') dc p"
    "whole_images jf (scan_images s')" "scan_position s' = snd (next_mcu_pos jf (scan_position s))"
    "has_read jf base xs tail p (bs @ place_bits jf (scan_images s') dc p) (bit_reader s')"
    "\<And>q. valid_place jf q \<Longrightarrow> q \<noteq> p \<Longrightarrow> scan_block jf (scan_images s') q = scan_block jf (scan_images s) q"
    "same_info (reconstruct_info s) (reconstruct_info s')" "pad_bit (reconstruct_info s') = pad_bit (reconstruct_info s)"
proof -
  note R = reading [unfolded reading_def]
  note A = at_placeD [OF R [THEN conjunct1]]
  define s1 where "s1 = record_max_dpos (baseline_handoff jf dc s)"
  have s1: "scan_position s1 = scan_position s" "scan_images s1 = scan_images s" "has_read jf base xs tail p bs (bit_reader s1)"
    "pad_bit (reconstruct_info s1) = pad_bit (reconstruct_info s)" "same_info (reconstruct_info s) (reconstruct_info s1)"
    using handoff_reading [of jf base xs tail p bs s dc] R record_max_dpos_simps(5) [of "baseline_handoff jf dc s"] by (simp_all add: s1_def)
  let ?c = "place_component jf p"
  have c4: "?c < 4" "?c < length (scan_images s)"
    using place_component_less [OF ok(1) A(1)] R by (auto simp: whole_images_def)
  have "tree_for (get_huff_dc_codes jf ?c) (get_huff_dc_tree jf ?c)" "tree_for (get_huff_ac_codes jf ?c) (get_huff_ac_tree jf ?c)"
    "no_short_runs (get_huff_ac_codes jf ?c)"
    using trees A(1) by (auto simp: scan_trees_ok_def valid_place_def place_component_def Let_def)
  note tables = this
  from run obtain eob block r where dec: "decode_block_seq k (get_huff_dc_tree jf ?c) (get_huff_ac_tree jf ?c) (replicate 64 0) (bit_reader s1)
      = Some (Ok ((eob, block), r))" "\<not> (1 < eob \<and> block ! (eob - 1) = 0)"
    unfolding baseline_block_def s1_def [symmetric] Let_def s1(1) A(3) by (auto simp: bindF_eq_Inr split: if_splits)
  define d b where "d = block ! 0 + dc ! ?c" and "b = zigzag_to_transposed (block[0 := d])"
  from run dec obtain im where set: "set_block_data (dpos (scan_position s)) b (scan_images s ! cmp (scan_position s)) = Ok im"
    and step: "(let (sta, s) = next_with_handoff jf (s1\<lparr>bit_reader := r, scan_images := (scan_images s)[cmp (scan_position s) := im]\<rparr>)
          in Some (Ok (if is_eof r
             then ((ScanCompleted, dc[?c := d]), s\<lparr>reconstruct_info := (reconstruct_info s)\<lparr>early_eof_encountered := True\<rparr>\<rparr>)
             else ((sta, dc[?c := d]), s)))) = Some (Ok ((sta, dc'), s'))"
    unfolding baseline_block_def s1_def [symmetric] Let_def s1(1,2) A(3) d_def b_def by (auto simp: bindF_eq_Inr)
  from s1(3) obtain rest where rest: "rd base xs tail (of_nat (interval_no jf p)) 0 (bit_reader s1) rest" "bytes_bits xs = bs @ rest"
    by (auto simp: has_read_def)
  have "eob \<le> 1 \<or> block ! (eob - 1) \<noteq> 0" using dec(2) by auto
  from decode_block_sound [OF tables(1,2) m tables(3) k rest(1) dec(1) this] obtain rest' where
    B: "rest = block_bits (get_huff_dc_codes jf ?c) (get_huff_ac_codes jf ?c) block @ rest'"
    "rd base xs tail (of_nat (interval_no jf p)) 0 r rest'" "length block = 64" "block_codable (get_huff_dc_codes jf ?c) (get_huff_ac_codes jf ?c) block"
    by (metis block_codable_def)
  from B(2) have "\<not> is_eof r" by (auto simp: is_eof_def rd_def reads_def reads_at_def Let_def)
  then have N: "(sta, s') = next_with_handoff jf (s1\<lparr>bit_reader := r, scan_images := (scan_images s)[cmp (scan_position s) := im]\<rparr>)"
    "dc' = dc[?c := d]" using step by (auto split: prod.splits)
  note N' = next_with_handoff_simps [of jf "s1\<lparr>bit_reader := r, scan_images := (scan_images s)[cmp (scan_position s) := im]\<rparr>", folded N(1)]
  have ims': "scan_images s' = (scan_images s)[cmp (scan_position s) := im]" using N'(3) by simp
  note S = store_block [OF ok _ _ set ims'] 
  have S': "whole_images jf (scan_images s')" "scan_block jf (scan_images s') p = b"
    "\<And>q. valid_place jf q \<Longrightarrow> q \<noteq> p \<Longrightarrow> scan_block jf (scan_images s') q = scan_block jf (scan_images s) q"
    using S R by blast+
  then show "whole_images jf (scan_images s')"
    "\<And>q. valid_place jf q \<Longrightarrow> q \<noteq> p \<Longrightarrow> scan_block jf (scan_images s') q = scan_block jf (scan_images s) q" by blast+
  have z: "get_block (zigzag_from_transposed b) = block[0 := d]"
    using zigzag_from_to [of "block[0 := d]"] B(3) by (simp add: b_def get_block_def)
  then have dc: "block_dc jf (scan_images s') p = d" using S'(2) B(3) by (simp add: block_dc_def)
  have diff: "diff_block jf (scan_images s') dc p = block"
    using z dc S'(2) B(3) by (simp add: diff_block_def d_def)
  show "dc' = dc_after jf (scan_images s') dc p" using N(2) dc by (simp add: dc_after_def)
  show "place_codable jf (scan_images s') dc p" using B(4) diff by (simp add: place_codable_def)
  show "has_read jf base xs tail p (bs @ place_bits jf (scan_images s') dc p) (bit_reader s')"
    using B(1,2) rest(2) N'(4) by (auto simp: has_read_def place_bits_def diff Let_def)
  show "scan_position s' = snd (next_mcu_pos jf (scan_position s))" using N'(2) s1(1) by simp
  show "sta = place_status jf p" using N'(1) s1(1) next_place [OF ok, of "scan_position s" p] R by auto
  show "same_info (reconstruct_info s) (reconstruct_info s')" "pad_bit (reconstruct_info s') = pad_bit (reconstruct_info s)"
    using N'(5) s1(4,5) by simp_all
qed

section \<open>The blocks of an interval\<close>

fun before :: "place \<Rightarrow> place \<Rightarrow> bool" where
  "before (m, c, k) (m', c', k') \<longleftrightarrow> m < m' \<or> m = m' \<and> (c < c' \<or> c = c' \<and> k < k')"

lemma before_trans: "before p q \<Longrightarrow> before q r \<Longrightarrow> before p r"
  by (cases p; cases q; cases r) auto

lemma before_after: "before p (block_after jf p)"
  by (cases p) auto

lemma not_before_self: "\<not> before p p"
  by (cases p) auto

text \<open>What a block contributes to the code depends on the block only.\<close>

lemma scan_block_cong:
  assumes "scan_block jf ims p = scan_block jf ims' p"
  shows "diff_block jf ims dc p = diff_block jf ims' dc p" "dc_after jf ims dc p = dc_after jf ims' dc p"
    "place_bits jf ims dc p = place_bits jf ims' dc p" "place_codable jf ims dc p = place_codable jf ims' dc p"
  using assms by (simp_all add: diff_block_def dc_after_def place_bits_def place_codable_def block_dc_def)

text \<open>The code from the end of an interval on.\<close>

definition interval_tail :: "JpegHeader \<Rightarrow> u8 \<Rightarrow> BlockBasedImage list \<Rightarrow> place \<Rightarrow> bool list \<Rightarrow> bytes \<Rightarrow> bool" where
  "interval_tail jf fillbit ims p bs out \<longleftrightarrow> (\<exists>ys. bytes_bits ys = bs @ pad_bits fillbit (length bs) \<and>
    (if place_status jf p = ScanCompleted then out = stuff ys
     else \<exists>rest. scan_code jf fillbit ims (block_after jf p) (replicate 4 0) [] rest \<and> out = stuff ys @ rst_marker jf (fst p) @ rest))"

lemma scan_code_last:
  assumes "interval_tail jf fillbit ims p (bs @ place_bits jf ims dc p) out" "place_status jf p \<noteq> DecodeInProgress"
    and "place_codable jf ims dc p"
  shows "scan_code jf fillbit ims p dc bs out"
proof (cases "place_status jf p = ScanCompleted")
  case True
  then show ?thesis using assms by (auto simp: interval_tail_def intro: scan_code.scan_end)
next
  case False
  then have "place_status jf p = RestartIntervalExpired" using assms(2) by (cases "place_status jf p") auto
  then show ?thesis using assms False by (auto simp: interval_tail_def intro: scan_code.interval_end)
qed

text \<open>The loop ends at the last place \<open>p'\<close> of the interval. Any images that have the blocks read so far have the
  bits that have been read.\<close>

definition interval_read ::
  "JpegHeader \<Rightarrow> u64 \<Rightarrow> bytes \<Rightarrow> bytes \<Rightarrow> place \<Rightarrow> i16 list \<Rightarrow> bool list \<Rightarrow> ScanState \<Rightarrow> place \<Rightarrow> bool list \<Rightarrow> ScanState \<Rightarrow> bool"
where
  "interval_read jf base xs tail p dc bs s p' bs' f \<longleftrightarrow>
    place_status jf p' \<noteq> DecodeInProgress \<and> valid_place jf p' \<and> interval_no jf p' = interval_no jf p \<and> (p' = p \<or> before p p') \<and>
    whole_images jf (scan_images f) \<and> has_read jf base xs tail p' bs' (bit_reader f) \<and>
    (place_status jf p' = RestartIntervalExpired \<longrightarrow>
      at_place jf (scan_position f) (block_after jf p') \<and> rst_synced jf (reset_rstw jf (scan_position f))) \<and>
    (\<forall>q. valid_place jf q \<and> before q p \<longrightarrow> scan_block jf (scan_images f) q = scan_block jf (scan_images s) q) \<and>
    same_info (reconstruct_info s) (reconstruct_info f) \<and> pad_bit (reconstruct_info f) = pad_bit (reconstruct_info s) \<and>
    (\<forall>fillbit ims. (\<forall>q. valid_place jf q \<and> before q (block_after jf p') \<longrightarrow> scan_block jf ims q = scan_block jf (scan_images f) q) \<longrightarrow>
      (\<exists>dcl bsl. passes jf fillbit ims p dc bs p' dcl bsl [] \<and> place_codable jf ims dcl p' \<and> bs' = bsl @ place_bits jf ims dcl p'))"

lemma next_reading:
  assumes ok: "header_ok a jf" "regular_scan jf" and trees: "scan_trees_ok jf" and m: "marker tail" and k: "81 < k"
    and reading: "reading jf base xs tail p dc bs s"
    and run: "baseline_block k jf dc s = Some (Ok ((sta, dc'), s'))" and sta: "sta = DecodeInProgress"
  shows "interval_no jf (block_after jf p) = interval_no jf p"
    "reading jf base xs tail (block_after jf p) dc' (bs @ place_bits jf (scan_images s') dc p) s'"
proof -
  let ?q = "block_after jf p"
  note B = baseline_block_reads [OF ok trees m k reading run]
  have at: "at_place jf (scan_position s) p" "rst_synced jf (scan_position s)" "length dc = 4"
    using reading [unfolded reading_def] by blast+
  have st: "place_status jf p = DecodeInProgress" using B(1) sta by simp
  then have q: "fst ?q < unat (mcuc jf)" using place_status_cases(1) [of jf p] by auto
  show no: "interval_no jf ?q = interval_no jf p"
  proof (cases "fst ?q = fst p")
    case False
    then have "fst ?q = Suc (fst p)" using block_after_fst by fastforce
    moreover have "0 < rsti jf \<Longrightarrow> fst ?q mod unat (rsti jf) \<noteq> 0"
      using place_status_cases(2) [of jf p] st q False by auto
    ultimately show ?thesis by (cases "0 < rsti jf") (simp_all add: interval_no_def div_Suc)
  qed (simp add: interval_no_def)
  then have "has_read jf base xs tail ?q (bs @ place_bits jf (scan_images s') dc p) (bit_reader s')"
    using B(6) by (simp add: has_read_def)
  then show "reading jf base xs tail ?q dc' (bs @ place_bits jf (scan_images s') dc p) s'"
    using next_place [OF ok at(1,2)] q st B(2,4,5) at(3) by (auto simp: reading_def dc_after_def)
qed

lemma baseline_loop_reads:
  assumes ok: "header_ok a jf" "regular_scan jf" and trees: "scan_trees_ok jf" and m: "marker tail" and k: "81 < k"
  shows "baseline_loop n k jf dc s = Some (Ok (sta, f)) \<Longrightarrow> reading jf base xs tail p dc bs s \<Longrightarrow>
    \<exists>p' bs'. interval_read jf base xs tail p dc bs s p' bs' f \<and> sta = place_status jf p'"
proof (induction n arbitrary: dc s p bs)
  case (Suc n)
  let ?q = "block_after jf p"
  from Suc.prems(1) obtain sta1 dc1 s1 where blk: "baseline_block k jf dc s = Some (Ok ((sta1, dc1), s1))"
    and rest: "(if sta1 = DecodeInProgress then baseline_loop n k jf dc1 s1 else Some (Ok (sta1, s1))) = Some (Ok (sta, f))"
    by (auto simp: bindF_eq_Inr)
  note B = baseline_block_reads [OF ok trees m k Suc.prems(2) blk]
  note R = Suc.prems(2) [unfolded reading_def]
  have at: "at_place jf (scan_position s) p" "rst_synced jf (scan_position s)" "length dc = 4" using R by blast+
  have valid: "valid_place jf p" using at_placeD(1) [OF at(1)] .
  from next_place [OF ok at(1,2)] have N: "fst ?q < unat (mcuc jf) \<longrightarrow> at_place jf (scan_position s1) ?q"
    "place_status jf p = DecodeInProgress \<longrightarrow> rst_synced jf (scan_position s1)"
    "place_status jf p = RestartIntervalExpired \<longrightarrow> rst_synced jf (reset_rstw jf (scan_position s1))"
    unfolding B(5) by auto
  show ?case
  proof (cases "sta1 = DecodeInProgress")
    case True
    then have st: "place_status jf p = DecodeInProgress" using B(1) by simp
    note N' = next_reading [OF ok trees m k Suc.prems(2) blk True]
    note no = N'(1)
    from Suc.IH [OF _ N'(2)] rest True obtain p' bs' where
      I: "interval_read jf base xs tail ?q dc1 (bs @ place_bits jf (scan_images s1) dc p) s1 p' bs' f" "sta = place_status jf p'"
      by auto
    note I' = I(1) [unfolded interval_read_def]
    have last: "before p p'" "before p (block_after jf p')"
      using I' before_after [of p jf] before_after [of p' jf] before_trans by blast+
    have keep: "scan_block jf (scan_images f) r = scan_block jf (scan_images s) r" if "valid_place jf r" "before r p" for r
    proof -
      have "before r ?q" using that(2) before_after before_trans by blast
      moreover have "r \<noteq> p" using that(2) not_before_self [of p] by auto
      ultimately show ?thesis using I' that(1) B(7) by metis
    qed
    have code: "\<exists>dcl bsl. passes jf fillbit ims p dc bs p' dcl bsl [] \<and> place_codable jf ims dcl p' \<and> bs' = bsl @ place_bits jf ims dcl p'"
      if agree: "\<forall>r. valid_place jf r \<and> before r (block_after jf p') \<longrightarrow> scan_block jf ims r = scan_block jf (scan_images f) r" for fillbit ims
    proof -
      have "scan_block jf ims p = scan_block jf (scan_images s1) p"
        using agree valid last(2) I' before_after [of p jf] by metis
      note C = scan_block_cong [OF this]
      from I' agree obtain dcl bsl where "passes jf fillbit ims ?q dc1 (bs @ place_bits jf (scan_images s1) dc p) p' dcl bsl []"
        "place_codable jf ims dcl p'" "bs' = bsl @ place_bits jf ims dcl p'" by metis
      moreover from this(1) have "passes jf fillbit ims p dc bs p' dcl bsl []" by (intro passes_block [OF st]) (use B(2,3) C in simp_all)
      ultimately show ?thesis by blast
    qed
    have "interval_read jf base xs tail p dc bs s p' bs' f"
      unfolding interval_read_def using I' no last(1) keep code same_info_trans [OF B(8)] B(9) by metis
    then show ?thesis using I(2) by blast
  next
    case False
    then have f: "f = s1" "sta = sta1" using rest by auto
    have st: "place_status jf p \<noteq> DecodeInProgress" using False B(1) by simp
    have "interval_read jf base xs tail p dc bs s p (bs @ place_bits jf (scan_images f) dc p) f"
      unfolding interval_read_def
    proof (intro conjI allI impI)
      fix fillbit ims
      assume agree: "\<forall>q. valid_place jf q \<and> before q (block_after jf p) \<longrightarrow> scan_block jf ims q = scan_block jf (scan_images f) q"
      have "scan_block jf ims p = scan_block jf (scan_images f) p" using agree valid before_after by blast
      note C = scan_block_cong [OF this]
      show "\<exists>dcl bsl. passes jf fillbit ims p dc bs p dcl bsl [] \<and> place_codable jf ims dcl p
          \<and> bs @ place_bits jf (scan_images f) dc p = bsl @ place_bits jf ims dcl p"
        using passes_refl [of jf fillbit ims p dc bs] B(3) C f(1) by auto
    next
      fix q assume "valid_place jf q \<and> before q p"
      then show "scan_block jf (scan_images f) q = scan_block jf (scan_images s) q" using B(7) not_before_self f(1) by blast
    qed (use st valid B N f(1) place_status_cases(2) [of jf p] in auto)
    then show ?thesis using B(1) f(2) by blast
  qed
qed simp

end
