(* ===== verification/Scan_Path.thy ===== *)
theory Scan_Path
  imports Scan_Interval
begin

unbundle bit_operations_syntax

text \<open>
  The paths of \<open>Scan_Code\<close> through a scan: there is one only, it goes forward, and the whole bytes of the bits that are
  pending at its start can be left out. So a coder that starts in the middle of a scan, with the bits of an
  unfinished byte, is on the path of the scan, and the bytes it has ready at a place are those between.
\<close>

section \<open>The path\<close>

text \<open>Of a state the next one is known.\<close>

lemma passes_cases:
  assumes "passes jf fillbit ims p dc bs q dc' bs' ws"
  obtains (here) "q = p" "dc' = dc" "bs' = bs" "ws = []"
  | (block) "place_status jf p = DecodeInProgress" "place_codable jf ims dc p"
      "passes jf fillbit ims (block_after jf p) (dc_after jf ims dc p) (bs @ place_bits jf ims dc p) q dc' bs' ws"
  | (interval) ys ws' where "place_status jf p = RestartIntervalExpired" "place_codable jf ims dc p" "ws = stuff ys @ rst_marker jf (fst p) @ ws'"
      "bytes_bits ys = (bs @ place_bits jf ims dc p) @ pad_bits fillbit (length (bs @ place_bits jf ims dc p))"
      "passes jf fillbit ims (block_after jf p) (replicate 4 0) [] q dc' bs' ws'"
  using assms by (cases rule: passes.cases) blast+

lemma passes_forward: "passes jf fillbit ims p dc bs q dc' bs' ws \<Longrightarrow> q = p \<or> before p q"
proof (induction rule: passes.induct)
  case (passes_block p dc bs q dc' bs' ws)
  then show ?case using before_after before_trans by metis
next
  case (passes_interval p dc bs1 bs ys q dc' bs' ws)
  then show ?case using before_after before_trans by metis
qed simp

lemma before_asym: "before p q \<Longrightarrow> \<not> before q p"
  using before_trans not_before_self by blast

lemma passes_same_place:
  assumes "passes jf fillbit ims p dc bs p dc' bs' ws"
  shows "dc' = dc \<and> bs' = bs \<and> ws = []"
  using assms
proof (cases rule: passes_cases)
  case block
  then show ?thesis using passes_forward before_after [of p jf] before_asym not_before_self by metis
next
  case interval
  then show ?thesis using passes_forward before_after [of p jf] before_asym not_before_self by metis
qed simp

text \<open>Two states that are passed: one is on the way to the other.\<close>

lemma passes_linear:
  "passes jf fillbit ims p dc bs q dc1 bs1 ws \<Longrightarrow> passes jf fillbit ims p dc bs r dc2 bs2 vs \<Longrightarrow>
    (\<exists>us. passes jf fillbit ims q dc1 bs1 r dc2 bs2 us \<and> vs = ws @ us)
    \<or> (\<exists>us. passes jf fillbit ims r dc2 bs2 q dc1 bs1 us \<and> ws = vs @ us)"
proof (induction arbitrary: vs rule: passes.induct)
  case (passes_refl p dc bs)
  then show ?case by auto
next
  case (passes_block p dc bs q dc' bs' ws)
  from passes_block.prems show ?case
  proof (cases rule: passes_cases)
    case here
    then show ?thesis using passes.passes_block [OF passes_block.hyps(1-3)] by auto
  qed (use passes_block in auto)
next
  case (passes_interval p dc bs1 bs ys q dc' bs' ws)
  from passes_interval.prems show ?case
  proof (cases rule: passes_cases)
    case here
    then show ?thesis using passes.passes_interval [OF passes_interval.hyps(1-5)] by auto
  next
    case (interval ys' vs')
    then have "ys' = ys" using passes_interval.hyps(3,4) by (simp add: bytes_bits_inject [symmetric])
    then show ?thesis using passes_interval.IH [OF interval(5)] interval(3) by auto
  qed (use passes_interval.hyps(1) in auto)
qed

lemma passes_ahead:
  assumes "passes jf fillbit ims p dc bs q dc1 bs1 ws" "passes jf fillbit ims p dc bs r dc2 bs2 vs" "q = r \<or> before q r"
  obtains us where "passes jf fillbit ims q dc1 bs1 r dc2 bs2 us" "vs = ws @ us"
proof -
  from passes_linear [OF assms(1,2)] show ?thesis
  proof (elim disjE exE conjE)
    fix us assume u: "passes jf fillbit ims r dc2 bs2 q dc1 bs1 us" "ws = vs @ us"
    then have "q = r" using passes_forward [OF u(1)] assms(3) before_asym by blast
    with u passes_same_place [of jf fillbit ims r dc2 bs2 dc1 bs1 us] that [of "[]"] passes_refl show ?thesis by auto
  qed (use that in blast)
qed

section \<open>The code along the path\<close>

lemma code_passed:
  "passes jf fillbit ims p dc bs q dc' bs' ws \<Longrightarrow> scan_code jf fillbit ims p dc bs out \<Longrightarrow>
    \<exists>rest. out = ws @ rest \<and> scan_code jf fillbit ims q dc' bs' rest"
proof (induction arbitrary: out rule: passes.induct)
  case (passes_block p dc bs q dc' bs' ws)
  from passes_block.prems have "scan_code jf fillbit ims (block_after jf p) (dc_after jf ims dc p) (bs @ place_bits jf ims dc p) out"
    using passes_block.hyps(1) by (cases rule: scan_code.cases) simp_all
  then show ?case by (rule passes_block.IH)
next
  case (passes_interval p dc bs1 bs ys q dc' bs' ws)
  from passes_interval.prems obtain ys' out' where o: "bytes_bits ys' = bs1 @ pad_bits fillbit (length bs1)"
    "scan_code jf fillbit ims (block_after jf p) (replicate 4 0) [] out'" "out = stuff ys' @ rst_marker jf (fst p) @ out'"
    using passes_interval.hyps(1,3) by (cases rule: scan_code.cases) auto
  then have "ys' = ys" using passes_interval.hyps(4) by (simp add: bytes_bits_inject [symmetric])
  then show ?case using passes_interval.IH [OF o(2)] o(3) by auto
qed auto

text \<open>Whole bytes in front.\<close>

lemma pad_bits_bytes [simp]: "pad_bits fillbit (8 * k + n) = pad_bits fillbit n"
  by (simp add: pad_bits_def)

lemma bytes_bits_prefix: "bytes_bits ys = bytes_bits zs @ bs \<Longrightarrow> \<exists>vs. ys = zs @ vs \<and> bytes_bits vs = bs"
proof -
  assume a: "bytes_bits ys = bytes_bits zs @ bs"
  then have "bytes_bits (take (length zs) ys) = bytes_bits zs" "bytes_bits (drop (length zs) ys) = bs"
    by (simp_all add: bytes_bits_take bytes_bits_drop)
  then show ?thesis using append_take_drop_id [of "length zs" ys] by (metis bytes_bits_inject)
qed

lemma padded_prefix:
  assumes "bytes_bits ys = (bytes_bits zs @ bs) @ pad_bits fillbit (length (bytes_bits zs @ bs))"
  obtains vs where "ys = zs @ vs" "bytes_bits vs = bs @ pad_bits fillbit (length bs)"
  using bytes_bits_prefix [of ys zs "bs @ pad_bits fillbit (length bs)"] assms that by auto

lemma code_bytes:
  "scan_code jf fillbit ims p dc bs out \<Longrightarrow> bs = bytes_bits zs @ bs1 \<Longrightarrow>
    \<exists>out'. out = stuff zs @ out' \<and> scan_code jf fillbit ims p dc bs1 out'"
proof (induction arbitrary: bs1 zs rule: scan_code.induct)
  case (in_interval p dc bs out)
  from in_interval.IH [of zs "bs1 @ place_bits jf ims dc p"] in_interval.prems
  show ?case using scan_code.in_interval [OF in_interval.hyps(1,2)] by auto
next
  case (interval_end p dc bs' bs ys out)
  from interval_end.hyps(3,4) interval_end.prems
  have "bytes_bits ys = (bytes_bits zs @ (bs1 @ place_bits jf ims dc p)) @ pad_bits fillbit (length (bytes_bits zs @ (bs1 @ place_bits jf ims dc p)))"
    by simp
  then obtain vs where "ys = zs @ vs" "bytes_bits vs = (bs1 @ place_bits jf ims dc p) @ pad_bits fillbit (length (bs1 @ place_bits jf ims dc p))"
    by (rule padded_prefix)
  with scan_code.interval_end [OF interval_end.hyps(1,2) refl this(2) interval_end.hyps(5)] show ?case by auto
next
  case (scan_end p dc bs' bs ys)
  from scan_end.hyps(3,4) scan_end.prems
  have "bytes_bits ys = (bytes_bits zs @ (bs1 @ place_bits jf ims dc p)) @ pad_bits fillbit (length (bytes_bits zs @ (bs1 @ place_bits jf ims dc p)))"
    by simp
  then obtain vs where "ys = zs @ vs" "bytes_bits vs = (bs1 @ place_bits jf ims dc p) @ pad_bits fillbit (length (bs1 @ place_bits jf ims dc p))"
    by (rule padded_prefix)
  with scan_code.scan_end [OF scan_end.hyps(1,2) refl this(2)] show ?case by auto
qed

lemma passes_bytes:
  "passes jf fillbit ims p dc bs q dc' bs' ws \<Longrightarrow> bs = bytes_bits zs @ bs1 \<Longrightarrow>
    (ws = [] \<and> (\<exists>bs2. bs' = bytes_bits zs @ bs2 \<and> passes jf fillbit ims p dc bs1 q dc' bs2 []))
    \<or> (\<exists>vs. ws = stuff zs @ vs \<and> passes jf fillbit ims p dc bs1 q dc' bs' vs)"
proof (induction arbitrary: bs1 zs rule: passes.induct)
  case (passes_refl p dc bs)
  then show ?case using passes.passes_refl by blast
next
  case (passes_block p dc bs q dc' bs' ws)
  from passes_block.IH [of zs "bs1 @ place_bits jf ims dc p"] passes_block.prems have
    "(ws = [] \<and> (\<exists>bs2. bs' = bytes_bits zs @ bs2 \<and> passes jf fillbit ims (block_after jf p) (dc_after jf ims dc p) (bs1 @ place_bits jf ims dc p) q dc' bs2 []))
    \<or> (\<exists>vs. ws = stuff zs @ vs \<and> passes jf fillbit ims (block_after jf p) (dc_after jf ims dc p) (bs1 @ place_bits jf ims dc p) q dc' bs' vs)"
    by simp
  with passes.passes_block [OF passes_block.hyps(1,2)] show ?case by blast
next
  case (passes_interval p dc b1 bs ys q dc' bs' ws)
  from passes_interval.hyps(3,4) passes_interval.prems
  have "bytes_bits ys = (bytes_bits zs @ (bs1 @ place_bits jf ims dc p)) @ pad_bits fillbit (length (bytes_bits zs @ (bs1 @ place_bits jf ims dc p)))"
    by simp
  then obtain vs where "ys = zs @ vs" "bytes_bits vs = (bs1 @ place_bits jf ims dc p) @ pad_bits fillbit (length (bs1 @ place_bits jf ims dc p))"
    by (rule padded_prefix)
  with passes.passes_interval [OF passes_interval.hyps(1,2) refl this(2) passes_interval.hyps(5)] show ?case by auto
qed

section \<open>The bytes that are ready\<close>

text \<open>The whole bytes of a coder's path: the intervals that are left, and what is complete of the current one. The
  other bits are \<open>fr\<close>.\<close>

definition ready_bytes :: "bytes \<Rightarrow> bool list \<Rightarrow> bytes \<Rightarrow> bool list \<Rightarrow> bool" where
  "ready_bytes ws bs em fr \<longleftrightarrow> (\<exists>zs. bs = bytes_bits zs @ fr \<and> length fr < 8 \<and> em = ws @ stuff zs)"

lemma bytes_split:
  assumes "bytes_bits zs @ fr = bytes_bits zs' @ fr'" "length fr < 8" "length fr' < 8"
  shows "zs = zs' \<and> fr = fr'"
proof -
  have "8 * length zs + length fr = 8 * length zs' + length fr'" using arg_cong [OF assms(1), of length] by simp
  then have "length zs = length zs'" using assms(2,3) by linarith
  then have "bytes_bits zs = bytes_bits zs'" "fr = fr'" using assms(1) by (simp_all add: append_eq_append_conv)
  then show ?thesis by (simp add: bytes_bits_inject)
qed

lemma ready_bytes_unique: "ready_bytes ws bs em fr \<Longrightarrow> ready_bytes ws bs em' fr' \<Longrightarrow> em' = em \<and> fr' = fr"
  using bytes_split by (metis ready_bytes_def)

text \<open>A coder that starts with the last bits of an unfinished byte has at a later place the bytes that have become ready
  since, and the same bits pending.\<close>

lemma passes_from_tail:
  assumes "passes jf fillbit ims p dc bs q dc1 bs1 ws" "ready_bytes [] bs em fr" "ready_bytes ws bs1 em1 fr1"
    and "passes jf fillbit ims p dc fr q dc2 bs2 vs" "ready_bytes vs bs2 em2 fr2"
  shows "em1 = em @ em2 \<and> fr2 = fr1 \<and> dc2 = dc1"
proof -
  from assms(2) obtain zs where zs: "bs = bytes_bits zs @ fr" "em = stuff zs" by (auto simp: ready_bytes_def)
  from passes_bytes [OF assms(1) zs(1)] show ?thesis
  proof (elim disjE conjE exE)
    fix b assume a: "ws = []" "bs1 = bytes_bits zs @ b" "passes jf fillbit ims p dc fr q dc1 b []"
    from passes_ahead [OF a(3) assms(4)] obtain us where "passes jf fillbit ims q dc1 b q dc2 bs2 us" "vs = us" by auto
    from passes_same_place [OF this(1)] this(2) have same: "dc2 = dc1" "bs2 = b" "vs = []" by auto
    from assms(5) same obtain ys where y: "b = bytes_bits ys @ fr2" "length fr2 < 8" "em2 = stuff ys" by (auto simp: ready_bytes_def)
    then have "ready_bytes ws bs1 (stuff (zs @ ys)) fr2" using a by (auto simp: ready_bytes_def intro!: exI [of _ "zs @ ys"])
    from ready_bytes_unique [OF assms(3) this] y(3) zs(2) same show ?thesis by simp
  next
    fix us assume a: "ws = stuff zs @ us" "passes jf fillbit ims p dc fr q dc1 bs1 us"
    from passes_ahead [OF a(2) assms(4)] obtain vs' where "passes jf fillbit ims q dc1 bs1 q dc2 bs2 vs'" "vs = us @ vs'" by auto
    from passes_same_place [OF this(1)] this(2) have same: "dc2 = dc1" "bs2 = bs1" "vs = us" by auto
    from assms(5) same obtain ys where y: "bs1 = bytes_bits ys @ fr2" "length fr2 < 8" "em2 = us @ stuff ys" by (auto simp: ready_bytes_def)
    then have "ready_bytes ws bs1 (ws @ stuff ys) fr2" by (auto simp: ready_bytes_def)
    from ready_bytes_unique [OF assms(3) this] y(3) zs(2) a(1) same show ?thesis by simp
  qed
qed

lemma ready_bytes_prepend: "ready_bytes vs bs em fr \<Longrightarrow> ready_bytes (ws @ vs) bs (ws @ em) fr"
  by (auto simp: ready_bytes_def)

end
