(* ===== verification/Scan_Handoff.thy ===== *)
theory Scan_Handoff
  imports Scan_Path
begin

unbundle bit_operations_syntax

text \<open>
  The partitions of a scan: in front of each row of MCUs the reader records where it stands, the bits of the byte it is
  in, and the last DCs. They are those of the path through the scan (\<open>all_rows_recorded\<close>), so a coder can start there.
\<close>

section \<open>One partition\<close>

lemma partitions_kept:
  "partitions (record_max_dpos s) = partitions s" "partitions (snd (next_with_handoff jf s)) = partitions s"
  "finish_interval sta s = Ok s' \<Longrightarrow> partitions s' = partitions s"
  by (auto simp: record_max_dpos_def next_with_handoff_def next_position_def finish_interval_def Let_def split: prod.splits if_splits)

lemma next_handoff_due:
  "do_handoff (snd (next_with_handoff jf s)) \<longleftrightarrow> do_handoff s \<or>
    (mcu (snd (next_mcu_pos jf (scan_position s))) mod mcuh jf = 0 \<and> mcu (scan_position s) \<noteq> mcu (snd (next_mcu_pos jf (scan_position s))))"
  by (cases "next_mcu_pos jf (scan_position s)") (simp add: next_with_handoff_def next_position_def Let_def del: mod_0_imp_dvd, argo)

lemma baseline_block_end:
  assumes "baseline_block k jf dc s = Some (Ok ((sta, dc'), s'))"
  shows "\<exists>r im ri. s' = (snd (next_with_handoff jf ((record_max_dpos (baseline_handoff jf dc s))\<lparr>bit_reader := r, scan_images := im\<rparr>)))
    \<lparr>reconstruct_info := ri\<rparr>"
proof -
  let ?s = "record_max_dpos (baseline_handoff jf dc s)"
  have same: "\<exists>ri. t = t\<lparr>reconstruct_info := ri\<rparr>" for t :: ScanState by (rule exI [of _ "reconstruct_info t"]) simp
  from assms obtain r im d where "(let (sta, s) = next_with_handoff jf (?s\<lparr>bit_reader := r, scan_images := im\<rparr>)
      in Some (Ok (if is_eof r
         then ((ScanCompleted, d), s\<lparr>reconstruct_info := (reconstruct_info s)\<lparr>early_eof_encountered := True\<rparr>\<rparr>)
         else ((sta, d), s)))) = Some (Ok ((sta, dc'), s'))"
    by (auto simp: baseline_block_def Let_def bindF_eq_Inr split: if_splits)
  then have "\<exists>ri. s' = (snd (next_with_handoff jf (?s\<lparr>bit_reader := r, scan_images := im\<rparr>)))\<lparr>reconstruct_info := ri\<rparr>"
    using same by (cases "is_eof r") (auto simp: case_prod_unfold Let_def)
  then show ?thesis by blast
qed

lemma baseline_block_partitions:
  assumes "baseline_block k jf dc s = Some (Ok ((sta, dc'), s'))"
  shows "partitions s' = partitions (baseline_handoff jf dc s)"
proof -
  obtain r im ri where "s' = (snd (next_with_handoff jf ((record_max_dpos (baseline_handoff jf dc s))\<lparr>bit_reader := r, scan_images := im\<rparr>)))
    \<lparr>reconstruct_info := ri\<rparr>" using baseline_block_end [OF assms] by blast
  then show ?thesis by (simp add: partitions_kept)
qed

lemma handoff_not_due: "\<not> do_handoff (baseline_handoff jf dc s)"
  by (simp add: baseline_handoff_def Let_def split: prod.splits)

lemma record_handoff_due [simp]: "do_handoff (record_max_dpos s) = do_handoff s"
  by (simp add: record_max_dpos_def Let_def)

text \<open>A coder that has the code from \<open>p\<close> on ready up to a row of MCUs: the partition of the row has the number of bytes that are
  ready, the last DCs, and the bits that are pending.\<close>

definition pending_in :: "u8 \<Rightarrow> bool list \<Rightarrow> bool" where
  "pending_in b fr \<longleftrightarrow> take (length fr) (byte_bits b) = fr \<and> unat b mod 2 ^ (8 - length fr) = 0"

definition starts_row ::
  "JpegHeader \<Rightarrow> u8 \<Rightarrow> BlockBasedImage list \<Rightarrow> u64 \<Rightarrow> place \<Rightarrow> i16 list \<Rightarrow> bool list \<Rightarrow> nat \<Rightarrow> u64 \<times> RestartSegmentCodingInfo \<Rightarrow> bool"
where
  "starts_row jf fillbit ims base p dc bs j part \<longleftrightarrow> (\<exists>dc' bs' ws em fr b.
    passes jf fillbit ims p dc bs (j * unat (mcuh jf), 0, 0) dc' bs' ws \<and> ready_bytes ws bs' em fr \<and> pending_in b fr \<and>
    part = (base + of_nat (length em), RestartSegmentCodingInfo_new b (of_nat (length fr)) dc' (of_nat (j * unat (mcuh jf))) jf))"

lemma handoff_recorded:
  assumes "has_read jf base xs tail p bs (bit_reader s)" "do_handoff s"
  shows "\<exists>em fr b. ready_bytes [] bs em fr \<and> pending_in b fr \<and> partitions (baseline_handoff jf dc s) = partitions s @
    [(base + of_nat (length em), RestartSegmentCodingInfo_new b (of_nat (length fr)) dc (mcu (scan_position s)) jf)]"
proof -
  note H = has_readD [OF assms(1)]
  define zs fr where "zs = take (length bs div 8) xs" and "fr = drop (8 * (length bs div 8)) bs"
  have bs: "take (length bs) (bytes_bits xs) = bs" using H(4) by (metis append_eq_conv_conj)
  then have bits: "bs = bytes_bits zs @ fr" using append_take_drop_id [of "8 * (length bs div 8)" bs]
    by (metis (no_types, lifting) bytes_bits_take fr_def min.absorb1 take_take times_div_less_eq_dividend zs_def)
  have len: "length fr = length bs mod 8" "length fr < 8" by (simp_all add: fr_def minus_mult_div_eq_mod)
  from overhang_reads [OF H(1,2)] obtain b where
    o: "overhang (bit_reader s) = ((of_nat (length bs mod 8), b), undo_read_ahead (bit_reader s))"
      "take (length bs mod 8) (byte_bits b) = drop (8 * (length bs div 8)) (take (length bs) (bytes_bits xs))"
      "unat b mod 2 ^ (8 - length bs mod 8) = 0" by auto
  note U = has_readD [OF has_read_undo [OF assms(1)]]
  obtain q r where q: "stream_position (undo_read_ahead (bit_reader s)) = (q, r)" by fastforce
  then have "q = base + of_nat (length (stuff zs))" using stream_position_reads [OF U(1,2)] by (simp add: zs_def)
  then have "partitions (baseline_handoff jf dc s) = partitions s @
    [(base + of_nat (length (stuff zs)), RestartSegmentCodingInfo_new b (of_nat (length fr)) dc (mcu (scan_position s)) jf)]"
    using assms(2) o q len(1) by (simp add: baseline_handoff_def)
  moreover have "pending_in b fr" using o(2,3) bs by (simp add: pending_in_def len(1)) (simp add: fr_def)
  moreover have "ready_bytes [] bs (stuff zs) fr" using bits len(2) by (auto simp: ready_bytes_def)
  ultimately show ?thesis by blast
qed

section \<open>When it is due\<close>

definition row_start :: "JpegHeader \<Rightarrow> place \<Rightarrow> bool" where
  "row_start jf p \<longleftrightarrow> fst p mod unat (mcuh jf) = 0 \<and> snd p = (0, 0)"

text \<open>The rows of MCUs that start before a place.\<close>

definition rows_before :: "JpegHeader \<Rightarrow> place \<Rightarrow> nat" where
  "rows_before jf p = (if row_start jf p then fst p div unat (mcuh jf) else Suc (fst p div unat (mcuh jf)))"

definition handoffs_due :: "JpegHeader \<Rightarrow> place \<Rightarrow> ScanState \<Rightarrow> bool" where
  "handoffs_due jf p s \<longleftrightarrow> (do_handoff s \<longleftrightarrow> row_start jf p) \<and> length (partitions s) = rows_before jf p"

lemma block_after_snd: "snd (block_after jf p) = (0, 0) \<longleftrightarrow> fst (block_after jf p) \<noteq> fst p"
  by (cases p) auto

lemma row_start_after: "row_start jf (block_after jf p) \<longleftrightarrow> fst (block_after jf p) \<noteq> fst p \<and> fst (block_after jf p) mod unat (mcuh jf) = 0"
  using block_after_snd by (auto simp: row_start_def)

lemma rows_before_after:
  assumes "0 < unat (mcuh jf)"
  shows "rows_before jf (block_after jf p) = rows_before jf p + (if row_start jf p then 1 else 0)"
proof (cases "fst (block_after jf p) = fst p")
  case True
  then have "\<not> row_start jf (block_after jf p)" by (simp add: row_start_after)
  then show ?thesis using True by (simp add: rows_before_def)
next
  case False
  then have "fst (block_after jf p) = Suc (fst p)" using block_after_fst by fastforce
  then show ?thesis using False by (simp add: rows_before_def row_start_after div_Suc)
qed

lemma handoffs_due_after:
  assumes ok: "header_ok a jf" "regular_scan jf" and at: "at_place jf (scan_position s) p" "rst_synced jf (scan_position s)"
    and due: "handoffs_due jf p s" and read: "has_read jf base xs tail p bs (bit_reader s)"
    and run: "baseline_block k jf dc s = Some (Ok ((sta, dc'), s'))"
  shows "handoffs_due jf (block_after jf p) s'"
    "\<exists>ps. partitions s' = partitions s @ ps \<and> length ps = (if row_start jf p then 1 else 0)
      \<and> (\<forall>part \<in> set ps. \<forall>fillbit ims. starts_row jf fillbit ims base p dc bs (length (partitions s)) part)"
proof -
  note A = at_placeD [OF at(1)]
  obtain r im ri where s': "s' = (snd (next_with_handoff jf ((record_max_dpos (baseline_handoff jf dc s))\<lparr>bit_reader := r, scan_images := im\<rparr>)))
    \<lparr>reconstruct_info := ri\<rparr>" using baseline_block_end [OF run] by blast
  have m: "mcu (scan_position s) = of_nat (fst p)" using A(2) by (metis of_nat_unat ucast_id)
  show parts: "\<exists>ps. partitions s' = partitions s @ ps \<and> length ps = (if row_start jf p then 1 else 0)
      \<and> (\<forall>part \<in> set ps. \<forall>fillbit ims. starts_row jf fillbit ims base p dc bs (length (partitions s)) part)"
  proof (cases "row_start jf p")
    case True
    then have "do_handoff s" and j: "p = (length (partitions s) * unat (mcuh jf), 0, 0)"
      using due by (cases p; auto simp: handoffs_due_def row_start_def rows_before_def)+
    from handoff_recorded [OF read this(1), of dc] obtain em fr b where
      h: "ready_bytes [] bs em fr" "pending_in b fr" "partitions (baseline_handoff jf dc s) = partitions s @
        [(base + of_nat (length em), RestartSegmentCodingInfo_new b (of_nat (length fr)) dc (of_nat (fst p)) jf)]"
      unfolding m by blast
    have "starts_row jf fillbit ims base p dc bs (length (partitions s))
      (base + of_nat (length em), RestartSegmentCodingInfo_new b (of_nat (length fr)) dc (of_nat (fst p)) jf)" for fillbit ims
      unfolding starts_row_def using h(1,2) passes_refl [of jf fillbit ims p dc bs] by (subst (asm) (2) j, subst j) (simp, blast)
    then show ?thesis using True h(3) by (auto simp: baseline_block_partitions [OF run])
  next
    case False
    then show ?thesis using due by (simp add: baseline_block_partitions [OF run] handoffs_due_def baseline_handoff_def)
  qed
  obtain st1 where st1: "snd (next_mcu_pos jf (scan_position s)) = st1" "unat (mcu st1) = fst (block_after jf p)"
    using next_place [OF ok at] by auto
  have "do_handoff s' \<longleftrightarrow> mcu st1 mod mcuh jf = 0 \<and> mcu (scan_position s) \<noteq> mcu st1"
    by (simp add: s' next_handoff_due handoff_not_due handoff_reading(2) [OF read] st1(1))
  also have "\<dots> \<longleftrightarrow> row_start jf (block_after jf p)"
    using row_boundary(1) [OF ok(1) A(2) st1(2)] unfolding row_start_after by argo
  finally have "do_handoff s' \<longleftrightarrow> row_start jf (block_after jf p)" .
  moreover have "length (partitions s') = rows_before jf (block_after jf p)"
  proof -
    have "0 < unat (mcuh jf)" using ok(1) by (simp add: header_ok_def geometry_ok_def word_less_nat_alt)
    then show ?thesis using parts due by (auto simp: rows_before_after handoffs_due_def)
  qed
  ultimately show "handoffs_due jf (block_after jf p) s'" by (simp add: handoffs_due_def)
qed

section \<open>The partitions of an interval\<close>

primrec recorded :: "(nat \<Rightarrow> 'a \<Rightarrow> bool) \<Rightarrow> nat \<Rightarrow> 'a list \<Rightarrow> bool" where
  "recorded P j [] \<longleftrightarrow> True"
| "recorded P j (x # xs) \<longleftrightarrow> P j x \<and> recorded P (Suc j) xs"

lemma recorded_append [simp]: "recorded P j (xs @ ys) \<longleftrightarrow> recorded P j xs \<and> recorded P (j + length xs) ys"
  by (induction xs arbitrary: j) auto

lemma recorded_mono: "recorded P j xs \<Longrightarrow> (\<And>i x. P i x \<Longrightarrow> Q i x) \<Longrightarrow> recorded Q j xs"
  by (induction xs arbitrary: j) auto

lemma recorded_nth: "recorded P j xs \<Longrightarrow> i < length xs \<Longrightarrow> P (j + i) (xs ! i)"
proof (induction xs arbitrary: i j)
  case (Cons x xs)
  then show ?case by (cases i) (auto dest: Cons.IH [of "Suc j"])
qed simp

lemma recorded_one: "length xs = (if b then 1 else 0) \<Longrightarrow> \<forall>x \<in> set xs. P j x \<Longrightarrow> recorded P j xs"
  by (cases xs) (auto split: if_splits)

text \<open>A row that starts later in the scan.\<close>

lemma starts_row_from:
  assumes "passes jf fillbit ims p dc bs q dc' bs' ws"
    and "starts_row jf fillbit ims (base + of_nat (length ws)) q dc' bs' j part"
  shows "starts_row jf fillbit ims base p dc bs j part"
proof -
  from assms(2) obtain d b2 vs em fr b where
    r: "passes jf fillbit ims q dc' bs' (j * unat (mcuh jf), 0, 0) d b2 vs" "ready_bytes vs b2 em fr" "pending_in b fr"
      "part = (base + of_nat (length ws) + of_nat (length em),
        RestartSegmentCodingInfo_new b (of_nat (length fr)) d (of_nat (j * unat (mcuh jf))) jf)"
    unfolding starts_row_def by blast
  have "part = (base + of_nat (length (ws @ em)), RestartSegmentCodingInfo_new b (of_nat (length fr)) d (of_nat (j * unat (mcuh jf))) jf)"
    using r(4) by simp
  with passes_trans [OF assms(1) r(1)] ready_bytes_prepend [OF r(2), of ws] r(3) show ?thesis unfolding starts_row_def by blast
qed

lemma starts_row_block:
  assumes "place_status jf p = DecodeInProgress" "place_codable jf ims dc p"
    and "starts_row jf fillbit ims base (block_after jf p) (dc_after jf ims dc p) (bs @ place_bits jf ims dc p) j part"
  shows "starts_row jf fillbit ims base p dc bs j part"
  using starts_row_from [OF passes_block [OF assms(1,2) passes_refl]] assms(3) by simp

definition rows_recorded ::
  "JpegHeader \<Rightarrow> u8 \<Rightarrow> BlockBasedImage list \<Rightarrow> u64 \<Rightarrow> place \<Rightarrow> i16 list \<Rightarrow> bool list \<Rightarrow> ScanState \<Rightarrow> ScanState \<Rightarrow> bool"
where
  "rows_recorded jf fillbit ims base p dc bs s f \<longleftrightarrow>
    (\<exists>ps. partitions f = partitions s @ ps \<and> recorded (starts_row jf fillbit ims base p dc bs) (length (partitions s)) ps)"

lemma rows_recorded_trans:
  assumes "rows_recorded jf fillbit ims base p dc bs s s1" "rows_recorded jf fillbit ims base' q dc' bs' s1 f"
    and "\<And>j part. starts_row jf fillbit ims base' q dc' bs' j part \<Longrightarrow> starts_row jf fillbit ims base p dc bs j part"
  shows "rows_recorded jf fillbit ims base p dc bs s f"
proof -
  from assms(1,2) obtain ps qs where ps: "partitions s1 = partitions s @ ps"
    "recorded (starts_row jf fillbit ims base p dc bs) (length (partitions s)) ps" "partitions f = partitions s1 @ qs"
    "recorded (starts_row jf fillbit ims base' q dc' bs') (length (partitions s1)) qs" unfolding rows_recorded_def by blast
  then show ?thesis using recorded_mono [OF ps(4) assms(3)] by (auto simp: rows_recorded_def intro!: exI [of _ "ps @ qs"])
qed

lemma block_rows_recorded:
  assumes ok: "header_ok a jf" "regular_scan jf" and reading: "reading jf base xs tail p dc bs s" and due: "handoffs_due jf p s"
    and run: "baseline_block k jf dc s = Some (Ok ((sta, dc'), s'))"
  shows "rows_recorded jf fillbit ims base p dc bs s s'" "handoffs_due jf (block_after jf p) s'"
proof -
  note R = reading [unfolded reading_def]
  have at: "at_place jf (scan_position s) p" "rst_synced jf (scan_position s)" "has_read jf base xs tail p bs (bit_reader s)"
    using R by blast+
  note H = handoffs_due_after [OF ok at(1,2) due at(3) run]
  show "handoffs_due jf (block_after jf p) s'" by (rule H(1))
  from H(2) show "rows_recorded jf fillbit ims base p dc bs s s'" unfolding rows_recorded_def using recorded_one by blast
qed

text \<open>Where the interval ends is known from the status.\<close>

lemma interval_last_unique:
  assumes "passes jf fillbit ims p dc bs q dcq bsq []" "passes jf fillbit ims p dc bs r dcr bsr []"
    and "place_status jf q \<noteq> DecodeInProgress" "place_status jf r \<noteq> DecodeInProgress"
  shows "q = r"
proof -
  have stop: "x = y" if "passes jf fillbit ims x d b y d' b' []" "place_status jf x \<noteq> DecodeInProgress" for x d b y d' b'
    using that(1) by (cases rule: passes_cases) (use that(2) in \<open>auto simp: rst_marker_def\<close>)
  from passes_linear [OF assms(1,2)] show ?thesis using stop assms(3,4) by fastforce
qed

lemma loop_rows_recorded:
  assumes ok: "header_ok a jf" "regular_scan jf" and trees: "scan_trees_ok jf" and m: "marker tail" and k: "81 < k"
  shows "baseline_loop n k jf dc s = Some (Ok (sta, f)) \<Longrightarrow> reading jf base xs tail p dc bs s \<Longrightarrow> handoffs_due jf p s \<Longrightarrow>
    \<exists>p'. place_status jf p' \<noteq> DecodeInProgress \<and> (p' = p \<or> before p p') \<and> handoffs_due jf (block_after jf p') f \<and>
      (\<forall>fillbit ims. (\<forall>r. valid_place jf r \<and> before r (block_after jf p') \<longrightarrow> scan_block jf ims r = scan_block jf (scan_images f) r) \<longrightarrow>
        (\<exists>dcl bsl. passes jf fillbit ims p dc bs p' dcl bsl []) \<and> rows_recorded jf fillbit ims base p dc bs s f)"
proof (induction n arbitrary: dc s p bs)
  case (Suc n)
  let ?q = "block_after jf p"
  from Suc.prems(1) obtain sta1 dc1 s1 where blk: "baseline_block k jf dc s = Some (Ok ((sta1, dc1), s1))"
    and rest: "(if sta1 = DecodeInProgress then baseline_loop n k jf dc1 s1 else Some (Ok (sta1, s1))) = Some (Ok (sta, f))"
    by (auto simp: bindF_eq_Inr)
  note B = baseline_block_reads [OF ok trees m k Suc.prems(2) blk]
  note D = block_rows_recorded [OF ok Suc.prems(2,3) blk]
  show ?case
  proof (cases "sta1 = DecodeInProgress")
    case True
    then have st: "place_status jf p = DecodeInProgress" and loop: "baseline_loop n k jf dc1 s1 = Some (Ok (sta, f))"
      using B(1) rest by simp_all
    note N = next_reading(2) [OF ok trees m k Suc.prems(2) blk True]
    from baseline_loop_reads [OF ok trees m k loop N] have stored: "scan_block jf (scan_images f) p = scan_block jf (scan_images s1) p"
      using at_placeD(1) [of jf "scan_position s" p] Suc.prems(2) before_after [of p jf] unfolding interval_read_def reading_def by blast
    from Suc.IH [OF loop N D(2)] obtain p' where
      I: "place_status jf p' \<noteq> DecodeInProgress" "p' = ?q \<or> before ?q p'" "handoffs_due jf (block_after jf p') f"
        "\<And>fillbit ims. \<forall>r. valid_place jf r \<and> before r (block_after jf p') \<longrightarrow> scan_block jf ims r = scan_block jf (scan_images f) r \<Longrightarrow>
          (\<exists>dcl bsl. passes jf fillbit ims ?q dc1 (bs @ place_bits jf (scan_images s1) dc p) p' dcl bsl [])
          \<and> rows_recorded jf fillbit ims base ?q dc1 (bs @ place_bits jf (scan_images s1) dc p) s1 f"
      by blast
    have last: "before p p'" "before p (block_after jf p')"
      using I(2) before_after [of p jf] before_after [of p' jf] before_trans by blast+
    have "(\<exists>dcl bsl. passes jf fillbit ims p dc bs p' dcl bsl []) \<and> rows_recorded jf fillbit ims base p dc bs s f"
      if agree: "\<forall>r. valid_place jf r \<and> before r (block_after jf p') \<longrightarrow> scan_block jf ims r = scan_block jf (scan_images f) r" for fillbit ims
    proof -
      have "scan_block jf ims p = scan_block jf (scan_images s1) p"
        using agree last(2) stored at_placeD(1) [of jf "scan_position s" p] Suc.prems(2) unfolding reading_def by metis
      note C = scan_block_cong [OF this]
      from I(4) [OF agree] obtain dcl bsl where
        P: "passes jf fillbit ims ?q (dc_after jf ims dc p) (bs @ place_bits jf ims dc p) p' dcl bsl []"
          "rows_recorded jf fillbit ims base ?q (dc_after jf ims dc p) (bs @ place_bits jf ims dc p) s1 f"
        unfolding C(3) B(2) C(2) by blast
      have code: "place_codable jf ims dc p" using B(3) C(4) by simp
      show ?thesis
        using passes_block [OF st code P(1)] rows_recorded_trans [OF D(1) P(2) starts_row_block [OF st code]] by blast
    qed
    then show ?thesis using I(1,3) last(1) by blast
  next
    case False
    then have f: "f = s1" using rest by simp
    then show ?thesis using False B(1) D passes_refl by blast
  qed
qed simp

lemma interval_rows_recorded:
  assumes ok: "header_ok a jf" "regular_scan jf" and trees: "scan_trees_ok jf" and m: "marker tail" and k: "81 < k"
    and run: "baseline_loop n k jf dc s = Some (Ok (sta, f))" and reading: "reading jf base xs tail p dc bs s"
    and due: "handoffs_due jf p s" and last: "interval_read jf base xs tail p dc bs s p' bs' f"
  shows "handoffs_due jf (block_after jf p') f"
    "\<And>fillbit ims. \<forall>r. valid_place jf r \<and> before r (block_after jf p') \<longrightarrow> scan_block jf ims r = scan_block jf (scan_images f) r \<Longrightarrow>
      rows_recorded jf fillbit ims base p dc bs s f"
proof -
  from loop_rows_recorded [OF ok trees m k run reading due] obtain r where
    r: "place_status jf r \<noteq> DecodeInProgress" "handoffs_due jf (block_after jf r) f"
      "\<And>fillbit ims. \<forall>q. valid_place jf q \<and> before q (block_after jf r) \<longrightarrow> scan_block jf ims q = scan_block jf (scan_images f) q \<Longrightarrow>
        (\<exists>dcl bsl. passes jf fillbit ims p dc bs r dcl bsl []) \<and> rows_recorded jf fillbit ims base p dc bs s f"
    by blast
  have "r = p'"
    using interval_last_unique [of jf 0 "scan_images f" p dc bs r _ _ p'] r(1) r(3) [of "scan_images f" 0] last
    unfolding interval_read_def by metis
  then show "handoffs_due jf (block_after jf p') f"
    "\<And>fillbit ims. \<forall>r. valid_place jf r \<and> before r (block_after jf p') \<longrightarrow> scan_block jf ims r = scan_block jf (scan_images f) r \<Longrightarrow>
      rows_recorded jf fillbit ims base p dc bs s f" using r(2,3) by blast+
qed

text \<open>When the scan is complete there is a partition for each row.\<close>

lemma all_rows_recorded:
  assumes "header_ok a jf" "handoffs_due jf (block_after jf p) s" "place_status jf p = ScanCompleted" "valid_place jf p"
  shows "length (partitions s) = unat (mcuv jf)"
proof -
  have G: "0 < unat (mcuh jf)" "unat (mcuc jf) = unat (mcuv jf) * unat (mcuh jf)"
    using assms(1) by (simp_all add: header_ok_def geometry_ok_def word_less_nat_alt)
  have "fst p < unat (mcuc jf)" using assms(4) by (auto simp: valid_place_def)
  moreover have "unat (mcuc jf) \<le> fst (block_after jf p)" using assms(3) by (simp add: place_status_cases)
  ultimately have "block_after jf p = (unat (mcuc jf), 0, 0)" using block_after_fst [of jf p] by fastforce
  then show ?thesis using assms(2) G by (simp add: handoffs_due_def rows_before_def row_start_def)
qed

lemma handoff_kept:
  "handoffs_due jf p (s\<lparr>scan_position := st\<rparr>) = handoffs_due jf p s"
  "finish_interval sta s = Ok s' \<Longrightarrow> handoffs_due jf p s' = handoffs_due jf p s"
  "rows_recorded jf fillbit ims base p dc bs (s\<lparr>scan_position := st\<rparr>) f = rows_recorded jf fillbit ims base p dc bs s f"
  "finish_interval sta f = Ok f' \<Longrightarrow> rows_recorded jf fillbit ims base p dc bs s f' = rows_recorded jf fillbit ims base p dc bs s f"
  using partitions_kept(3) [of sta s s'] partitions_kept(3) [of sta f f']
  by (auto simp: handoffs_due_def rows_recorded_def finish_interval_def Let_def split: if_splits)

end
