(* ===== verification/Scan_Lossless.thy ===== *)
theory Scan_Lossless
  imports Scan_Handoff
begin

unbundle bit_operations_syntax

text \<open>
  Reading a baseline scan and writing it again gives the same bytes. What the decoder has read is the code of the
  blocks it has stored (\<open>first_scan_code\<close>), whatever the stream, as long as a marker follows somewhere; and
  \<open>write_scan\<close> shows that the encoder writes this code. The partitions the decoder records on the way are those of a
  coder at the start of each row of MCUs.
\<close>

section \<open>The intervals of a scan\<close>

text \<open>A file that is complete has the end marker behind the scan.\<close>

definition eoi_ahead :: "bytes \<Rightarrow> bool" where
  "eoi_ahead bs \<longleftrightarrow> (\<exists>a b. bs = a @ 0xFF # 0xD9 # b)"

lemma eoi_ahead_Cons: "eoi_ahead (x # bs) \<longleftrightarrow> x = 0xFF \<and> (\<exists>b. bs = 0xD9 # b) \<or> eoi_ahead bs"
proof
  assume "eoi_ahead (x # bs)"
  then obtain a b where "x # bs = a @ 0xFF # 0xD9 # b" by (auto simp: eoi_ahead_def)
  then show "x = 0xFF \<and> (\<exists>b. bs = 0xD9 # b) \<or> eoi_ahead bs" by (cases a) (auto simp: eoi_ahead_def)
next
  assume "x = 0xFF \<and> (\<exists>b. bs = 0xD9 # b) \<or> eoi_ahead bs"
  then show "eoi_ahead (x # bs)"
  proof
    assume "x = 0xFF \<and> (\<exists>b. bs = 0xD9 # b)"
    then obtain b where "x # bs = [] @ 0xFF # 0xD9 # b" by auto
    then show ?thesis unfolding eoi_ahead_def by blast
  next
    assume "eoi_ahead bs"
    then show ?thesis unfolding eoi_ahead_def by (metis append_Cons)
  qed
qed

lemma eoi_ahead_tail: "eoi_ahead (stuff xs @ tail) \<Longrightarrow> eoi_ahead tail"
  by (induction xs) (auto simp: eoi_ahead_Cons split: if_splits)

lemma eoi_ahead_marker: "eoi_ahead tail \<Longrightarrow> scan_end tail \<Longrightarrow> marker tail"
  by (auto simp: scan_end_def marker_def eoi_ahead_Cons) (auto simp: eoi_ahead_def)

text \<open>Both values of the pad byte give one bit.\<close>

definition pad_ok :: "u8 option \<Rightarrow> bool" where
  "pad_ok b \<longleftrightarrow> b = None \<or> b = Some 0 \<or> b = Some 0xFF"

lemma pad_bits_bits_of:
  assumes "x = 0 \<or> x = (0xFF :: u8)"
  shows "pad_bits x d = bits_of (8 * ((d + 7) div 8) - d) (unat x)"
proof -
  have l: "8 * ((d + 7) div 8) - d = (8 - d mod 8) mod 8"
  proof -
    define q r where "q = d div 8" and "r = d mod 8"
    have d: "d = 8 * q + r" and r: "r < 8" by (simp_all add: q_def r_def)
    have "(8 * q + r + 7) div 8 = q + (r + 7) div 8" by (simp add: add.assoc)
    then have "8 * ((d + 7) div 8) - d = 8 * ((r + 7) div 8) - r" unfolding d by simp
    moreover have "list_all (\<lambda>r. 8 * ((r + 7) div 8) - r = (8 - r mod 8) mod 8) [0..<8]" by code_simp
    then have "8 * ((r + 7) div 8) - r = (8 - r mod 8) mod 8" using r unfolding list_all_iff by simp
    ultimately show ?thesis by (simp add: r_def)
  qed
  have "list_all (\<lambda>n. map (bit (0 :: u8)) [0..<n] = bits_of n 0 \<and> map (bit (0xFF :: u8)) [0..<n] = bits_of n 255) [0..<8]" by code_simp
  moreover have "(8 - d mod 8) mod 8 \<in> set [0..<8]" by simp
  ultimately have "map (bit (0 :: u8)) [0..<(8 - d mod 8) mod 8] = bits_of ((8 - d mod 8) mod 8) 0
    \<and> map (bit (0xFF :: u8)) [0..<(8 - d mod 8) mod 8] = bits_of ((8 - d mod 8) mod 8) 255"
    unfolding list_all_iff by (rule bspec)
  then show ?thesis using assms unfolding l pad_bits_def by auto
qed

text \<open>The end of an interval: the padding, and the marker if there is one.\<close>

lemma finish_interval_reads:
  assumes read: "has_read jf base xs tail p bs (bit_reader s)" and pad: "pad_ok (pad_bit (reconstruct_info s))"
    and run: "finish_interval sta s = Ok s'"
  defines "n \<equiv> (length bs + 7) div 8"
  shows "scan_position s' = scan_position s" "scan_images s' = scan_images s" "same_info (reconstruct_info s) (reconstruct_info s')"
    "pad_ok (pad_bit (reconstruct_info s'))"
    "\<And>x. pad_bit (reconstruct_info s) = Some x \<Longrightarrow> pad_bit (reconstruct_info s') = Some x"
    "\<And>ri. (\<And>x. pad_bit (reconstruct_info s') = Some x \<Longrightarrow> pad_bit ri = Some x) \<Longrightarrow>
      bytes_bits (take n xs) = bs @ pad_bits (fill_byte ri) (length bs)"
    "sta \<noteq> RestartIntervalExpired \<Longrightarrow> unread (inner (bit_reader s')) = stuff (drop n xs) @ tail"
    "sta \<noteq> RestartIntervalExpired \<Longrightarrow> position (inner (bit_reader s')) = base + of_nat (length (stuff (take n xs)))"
    "sta = RestartIntervalExpired \<Longrightarrow> n = length xs \<and> (\<exists>r. reads r base xs tail (8 * length xs) \<and> settled r
      \<and> cpos r = of_nat (interval_no jf p) \<and> verify_reset_code r = Ok (bit_reader s'))"
proof -
  note H = has_readD [OF read]
  from run obtain pb r where fill: "read_and_verify_fill_bits (pad_bit (reconstruct_info s)) (bit_reader s) = Ok (pb, r)"
    and rest: "(let s = s\<lparr>bit_reader := r, reconstruct_info := (reconstruct_info s)\<lparr>pad_bit := pb\<rparr>\<rparr>
      in if sta = RestartIntervalExpired then bindR (verify_reset_code r) (\<lambda>r. Ok (s\<lparr>bit_reader := r\<rparr>)) else Ok s) = Ok s'"
    by (auto simp: finish_interval_def)
  from fill_bits_reads [OF H(1,2) refl fill] have F: "reads r base xs tail (8 * n)" "settled r" "cpos r = cpos (bit_reader s)"
    "read_ahead_bytes r = 0" "n \<le> length xs"
    "length bs = 8 * n \<and> pb = pad_bit (reconstruct_info s) \<or>
      (\<exists>x. pb = Some x \<and> (pad_bit (reconstruct_info s) = None \<and> (x = 0 \<or> x = 0xFF) \<or> pad_bit (reconstruct_info s) = Some x)
        \<and> take (8 * n - length bs) (drop (length bs) (bytes_bits xs)) = bits_of (8 * n - length bs) (unat x))"
    unfolding n_def by blast+
  have s': "scan_position s' = scan_position s" "scan_images s' = scan_images s"
    "reconstruct_info s' = (reconstruct_info s)\<lparr>pad_bit := pb\<rparr>"
    using rest by (auto simp: Let_def split: if_splits)
  then show "scan_position s' = scan_position s" "scan_images s' = scan_images s" by simp_all
  show "same_info (reconstruct_info s) (reconstruct_info s')" using s'(3) by (simp add: same_info_pad_bit)
  show "pad_ok (pad_bit (reconstruct_info s'))" using F(6) pad s'(3) by (auto simp: pad_ok_def)
  show "pad_bit (reconstruct_info s') = Some x" if "pad_bit (reconstruct_info s) = Some x" for x using that F(6) s'(3) by auto
  show "bytes_bits (take n xs) = bs @ pad_bits (fill_byte ri) (length bs)"
    if ri: "\<And>x. pad_bit (reconstruct_info s') = Some x \<Longrightarrow> pad_bit ri = Some x" for ri
  proof -
    have nb: "length bs \<le> 8 * n" unfolding n_def by presburger
    have "bytes_bits (take n xs) = take (8 * n) (bs @ drop (length bs) (bytes_bits xs))"
      using H(4) by (simp only: bytes_bits_take)
    also have "\<dots> = bs @ take (8 * n - length bs) (drop (length bs) (bytes_bits xs))" using nb by simp
    also have "take (8 * n - length bs) (drop (length bs) (bytes_bits xs)) = pad_bits (fill_byte ri) (length bs)"
      using F(6)
    proof
      assume "length bs = 8 * n \<and> pb = pad_bit (reconstruct_info s)"
      then show ?thesis by (simp add: pad_bits_def)
    next
      assume "\<exists>x. pb = Some x \<and> (pad_bit (reconstruct_info s) = None \<and> (x = 0 \<or> x = 0xFF) \<or> pad_bit (reconstruct_info s) = Some x)
        \<and> take (8 * n - length bs) (drop (length bs) (bytes_bits xs)) = bits_of (8 * n - length bs) (unat x)"
      then obtain x where x: "pb = Some x" "x = 0 \<or> x = 0xFF"
        "take (8 * n - length bs) (drop (length bs) (bytes_bits xs)) = bits_of (8 * n - length bs) (unat x)"
        using pad by (auto simp: pad_ok_def)
      have "fill_byte ri = x" using ri [of x] x(1) s'(3) by (simp add: fill_byte_def)
      then show ?thesis using pad_bits_bits_of [OF x(2), of "length bs"] x(3) by (simp add: n_def)
    qed
    finally show ?thesis .
  qed
  note B = reads_behind [OF F(1,2,4)]
  show "unread (inner (bit_reader s')) = stuff (drop n xs) @ tail" "position (inner (bit_reader s')) = base + of_nat (length (stuff (take n xs)))"
    if "sta \<noteq> RestartIntervalExpired" using B rest that by (auto simp: Let_def)
  show "n = length xs \<and> (\<exists>r. reads r base xs tail (8 * length xs) \<and> settled r
      \<and> cpos r = of_nat (interval_no jf p) \<and> verify_reset_code r = Ok (bit_reader s'))" if "sta = RestartIntervalExpired"
  proof -
    from rest that obtain r' where r': "verify_reset_code r = Ok r'" "bit_reader s' = r'" by (auto simp: Let_def)
    have "n = length xs" by (rule reset_code_at_end [OF F(1,2) r'(1)])
    then show ?thesis using F(1-3) H(3) r' by auto
  qed
qed

lemma marker_byte:
  assumes "0 < rsti jf" "cpos r = of_nat (interval_no jf p)"
  shows "[0xFF, RST0 + (ucast (cpos r) AND 7)] = rst_marker jf (fst p)"
proof -
  have "ucast (of_nat n :: u32) = (of_nat n :: u8)" for n
    by (rule word_unat_eq_iff [THEN iffD2]) (simp add: unat_ucast unat_of_nat mod_mod_cancel)
  then show ?thesis using assms by (simp add: rst_marker_def interval_no_def)
qed

lemma rst_byte: "RST0 + (x AND 7) \<noteq> 0xFF" "RST0 + (x AND 7) \<noteq> 0xD9"
proof -
  have "x AND 7 \<le> 7" by (rule word_and_le1)
  then have "unat (x AND 7) \<le> 7" by (simp add: word_le_nat_alt)
  then have "unat (RST0 + (x AND 7)) \<le> 215" by (simp add: RST0_def unat_word_ariths)
  then show "RST0 + (x AND 7) \<noteq> 0xFF" "RST0 + (x AND 7) \<noteq> 0xD9" by auto
qed

definition scan_read ::
  "JpegHeader \<Rightarrow> u64 \<Rightarrow> bytes \<Rightarrow> place \<Rightarrow> ScanState \<Rightarrow> ScanState \<Rightarrow> bytes \<Rightarrow> bool"
where
  "scan_read jf base data p s f out \<longleftrightarrow>
    scan_code jf (fill_byte (reconstruct_info f)) (scan_images f) p (replicate 4 0) [] out \<and>
    data = out @ unread (inner (bit_reader f)) \<and> position (inner (bit_reader f)) = base + of_nat (length out) \<and>
    (\<forall>q. valid_place jf q \<and> before q p \<longrightarrow> scan_block jf (scan_images f) q = scan_block jf (scan_images s) q) \<and>
    same_info (reconstruct_info s) (reconstruct_info f) \<and> whole_images jf (scan_images f) \<and>
    pad_ok (pad_bit (reconstruct_info f)) \<and> (\<forall>x. pad_bit (reconstruct_info s) = Some x \<longrightarrow> pad_bit (reconstruct_info f) = Some x) \<and>
    (handoffs_due jf p s \<longrightarrow> length (partitions f) = unat (mcuv jf) \<and>
      rows_recorded jf (fill_byte (reconstruct_info f)) (scan_images f) base p (replicate 4 0) [] s f)"

lemma first_scan_loop_reads:
  assumes ok: "header_ok a jf" "regular_scan jf" and trees: "scan_trees_ok jf" and k: "81 < k"
  shows "first_scan_loop i n k jf s = Some (Ok f) \<Longrightarrow> at_place jf (scan_position s) p \<Longrightarrow>
    rst_synced jf (reset_rstw jf (scan_position s)) \<Longrightarrow> whole_images jf (scan_images s) \<Longrightarrow>
    reads (bit_reader s) base xs tail 0 \<Longrightarrow> settled (bit_reader s) \<Longrightarrow> cpos (bit_reader s) = of_nat (interval_no jf p) \<Longrightarrow>
    eoi_ahead tail \<Longrightarrow> scan_end tail \<Longrightarrow> pad_ok (pad_bit (reconstruct_info s)) \<Longrightarrow>
    \<exists>out. scan_read jf base (stuff xs @ tail) p s f out"
proof (induction i arbitrary: s p base xs tail)
  case (Suc i)
  define s0 where "s0 = s\<lparr>scan_position := reset_rstw jf (scan_position s)\<rparr>"
  have seq: "jpeg_type jf = Sequential" using ok(2) by (simp add: regular_scan_def)
  from Suc.prems(1) obtain sta s1 s2 where dec: "decode_baseline_rst n k jf s0 = Some (Ok (sta, s1))"
    and fin: "finish_interval sta s1 = Ok s2"
    and rest: "(if sta = ScanCompleted then Some (Ok s2) else first_scan_loop i n k jf s2) = Some (Ok f)"
    by (auto simp: bindF_eq_Inr first_scan_interval_def seq s0_def)
  from dec have loop: "baseline_loop n k jf (replicate 4 0) s0 = Some (Ok (sta, s1))"
    by (auto simp: decode_baseline_rst_def bindF_eq_Inr)
  have m: "marker tail" using eoi_ahead_marker Suc.prems(8,9) by blast
  have "has_read jf base xs tail p [] (bit_reader s)" using has_readI [of _ base xs tail "[]"] Suc.prems(5-7) by simp
  then have R: "reading jf base xs tail p (replicate 4 0) [] s0"
    using Suc.prems(2-4) by (simp add: reading_def s0_def at_place_def split: prod.splits)
  from baseline_loop_reads [OF ok trees m k loop R] obtain p' bs where
    I: "interval_read jf base xs tail p (replicate 4 0) [] s0 p' bs s1" "sta = place_status jf p'" by blast
  note I' = I(1) [unfolded interval_read_def]
  have read1: "has_read jf base xs tail p' bs (bit_reader s1)" using I' by blast
  have pad1: "pad_ok (pad_bit (reconstruct_info s1))" using I' Suc.prems(10) by (simp add: s0_def)
  note F = finish_interval_reads [OF read1 pad1 fin]
  have due2: "handoffs_due jf (block_after jf p') s2"
    and rows: "\<And>fillbit ims. \<forall>q. valid_place jf q \<and> before q (block_after jf p') \<longrightarrow> scan_block jf ims q = scan_block jf (scan_images s1) q \<Longrightarrow>
      rows_recorded jf fillbit ims base p (replicate 4 0) [] s s2" if due: "handoffs_due jf p s"
  proof -
    have "handoffs_due jf p s0" using due by (simp add: s0_def handoff_kept)
    note H = interval_rows_recorded [OF ok trees m k loop R this I(1)]
    show "handoffs_due jf (block_after jf p') s2" using H(1) by (simp add: handoff_kept(2) [OF fin])
    fix fillbit ims
    assume "\<forall>q. valid_place jf q \<and> before q (block_after jf p') \<longrightarrow> scan_block jf ims q = scan_block jf (scan_images s1) q"
    from H(2) [OF this] show "rows_recorded jf fillbit ims base p (replicate 4 0) [] s s2"
      unfolding handoff_kept(4) [OF fin] s0_def handoff_kept(3) .
  qed
  define nb where "nb = (length bs + 7) div 8"
  have info: "same_info (reconstruct_info s) (reconstruct_info s2)"
    using I' F(3) same_info_trans by (auto simp: s0_def)
  have padk: "pad_bit (reconstruct_info s2) = Some x" if "pad_bit (reconstruct_info s) = Some x" for x
    using that F(5) I' by (simp add: s0_def)
  have keep1: "scan_block jf (scan_images s2) q = scan_block jf (scan_images s) q" if "valid_place jf q" "before q p" for q
  proof -
    have "scan_images s0 = scan_images s" by (simp add: s0_def)
    then show ?thesis unfolding F(2) using that I' by metis
  qed
  have p_last: "before p (block_after jf p')" using I' before_after before_trans by metis
  have code: "scan_code jf fillbit ims p (replicate 4 0) [] out"
    if "\<forall>q. valid_place jf q \<and> before q (block_after jf p') \<longrightarrow> scan_block jf ims q = scan_block jf (scan_images s1) q"
      and "interval_tail jf fillbit ims p' bs out" for fillbit ims out
  proof -
    from I' that(1) obtain dcl bsl where l: "passes jf fillbit ims p (replicate 4 0) [] p' dcl bsl []"
      "place_codable jf ims dcl p'" "bs = bsl @ place_bits jf ims dcl p'" by blast
    have "place_status jf p' \<noteq> DecodeInProgress" using I' by blast
    from passes_code [OF l(1) scan_code_last [OF _ this l(2)]] that(2) l(3) show ?thesis by simp
  qed
  show ?case
  proof (cases "sta = ScanCompleted")
    case True
    then have f: "f = s2" using rest by simp
    have "interval_tail jf (fill_byte (reconstruct_info f)) (scan_images f) p' bs (stuff (take nb xs))"
      using F(6) [of "reconstruct_info s2"] True I(2) f unfolding interval_tail_def nb_def by auto
    from code [OF _ this] have "scan_code jf (fill_byte (reconstruct_info f)) (scan_images f) p (replicate 4 0) [] (stuff (take nb xs))"
      using f F(2) by simp
    moreover have "stuff xs @ tail = stuff (take nb xs) @ unread (inner (bit_reader f))"
      using F(7) True f by (simp add: nb_def flip: stuff_append)
    moreover have "position (inner (bit_reader f)) = base + of_nat (length (stuff (take nb xs)))"
      using F(8) True f by (simp add: nb_def)
    moreover have "rows_recorded jf (fill_byte (reconstruct_info f)) (scan_images f) base p (replicate 4 0) [] s f" if "handoffs_due jf p s"
      unfolding f F(2) by (rule rows [OF that]) simp
    moreover have "length (partitions f) = unat (mcuv jf)" if "handoffs_due jf p s"
      unfolding f by (rule all_rows_recorded [OF ok(1) due2 [OF that]]) (use True I(2) I' in auto)
    ultimately show ?thesis
      using info padk keep1 I' F(2,4) f unfolding scan_read_def by (intro exI [of _ "stuff (take nb xs)"]) auto
  next
    case False
    then have st: "sta = RestartIntervalExpired" using I' I(2) by (cases sta) auto
    from F(9) [OF st] obtain r where r: "reads r base xs tail (8 * length xs)" "settled r" "cpos r = of_nat (interval_no jf p')"
      "verify_reset_code r = Ok (bit_reader s2)" and nx: "nb = length xs" by (auto simp: nb_def)
    from m obtain b rest0 where tail: "tail = 0xFF # b # rest0" by (auto simp: marker_def)
    obtain ys tail' where ys: "rest0 = stuff ys @ tail'" "scan_end tail'" using scan_split by blast
    note V = reset_code_reads [OF r(1,2,4) tail [unfolded ys(1)] ys(2)]
    have q: "fst (block_after jf p') < unat (mcuc jf)" "fst (block_after jf p') \<noteq> fst p'" "0 < rsti jf"
      "fst (block_after jf p') mod unat (rsti jf) = 0"
      using st I(2) by (simp_all add: place_status_cases(2) [symmetric, of jf p']) (simp_all add: place_status_cases(2))
    have no: "interval_no jf (block_after jf p') = interval_no jf p' + 1"
      using q block_after_fst [OF q(2)] by (simp add: interval_no_def div_Suc)
    have mb: "[0xFF, b] = rst_marker jf (fst p')" using marker_byte [OF q(3) r(3)] V(1) by simp
    have "eoi_ahead (b # rest0)" using Suc.prems(8) rst_byte(2) [of "ucast (cpos r)"] V(1) unfolding tail eoi_ahead_Cons by auto
    then have "eoi_ahead rest0" using rst_byte(1) [of "ucast (cpos r)"] V(1) unfolding eoi_ahead_Cons by auto
    then have eoi: "eoi_ahead tail'" unfolding ys(1) by (rule eoi_ahead_tail)
    have at: "at_place jf (scan_position s2) (block_after jf p')" "rst_synced jf (reset_rstw jf (scan_position s2))"
      using I' I(2) st F(1) by auto
    have ims: "whole_images jf (scan_images s2)" using I' F(2) by simp
    have cp: "cpos (bit_reader s2) = of_nat (interval_no jf (block_after jf p'))" using V(4) r(3) no by simp
    from Suc.IH [OF _ at ims V(2,3) cp eoi ys(2) F(4)] rest False obtain out where
      O: "scan_read jf (base + of_nat (length (stuff xs)) + 2) (stuff ys @ tail') (block_after jf p') s2 f out" by auto
    note O' = O [unfolded scan_read_def]
    let ?out = "stuff xs @ rst_marker jf (fst p') @ out"
    have stored: "\<forall>q. valid_place jf q \<and> before q (block_after jf p') \<longrightarrow> scan_block jf (scan_images f) q = scan_block jf (scan_images s1) q"
      using O' F(2) by auto
    have "bytes_bits (take nb xs) = bs @ pad_bits (fill_byte (reconstruct_info f)) (length bs)"
      unfolding nb_def by (rule F(6)) (use O' in blast)
    then have coded: "bytes_bits xs = bs @ pad_bits (fill_byte (reconstruct_info f)) (length bs)" by (simp add: nx)
    then have tail_code: "interval_tail jf (fill_byte (reconstruct_info f)) (scan_images f) p' bs ?out"
      unfolding interval_tail_def using O' I(2) False by auto
    have rows_f: "rows_recorded jf (fill_byte (reconstruct_info f)) (scan_images f) base p (replicate 4 0) [] s f" if due: "handoffs_due jf p s"
    proof (rule rows_recorded_trans [OF rows [OF due stored]])
      show "rows_recorded jf (fill_byte (reconstruct_info f)) (scan_images f) (base + of_nat (length (stuff xs)) + 2)
        (block_after jf p') (replicate 4 0) [] s2 f" using O' due2 [OF due] by blast
      from I' stored obtain dcl bsl where l: "passes jf (fill_byte (reconstruct_info f)) (scan_images f) p (replicate 4 0) [] p' dcl bsl []"
        "place_codable jf (scan_images f) dcl p'" "bs = bsl @ place_bits jf (scan_images f) dcl p'" by blast
      have "place_status jf p' = RestartIntervalExpired" using st I(2) by simp
      note P = passes_trans [OF l(1) passes_interval [OF this l(2) l(3) coded passes_refl]]
      fix j part
      assume "starts_row jf (fill_byte (reconstruct_info f)) (scan_images f) (base + of_nat (length (stuff xs)) + 2)
        (block_after jf p') (replicate 4 0) [] j part"
      then show "starts_row jf (fill_byte (reconstruct_info f)) (scan_images f) base p (replicate 4 0) [] j part"
        by (intro starts_row_from [OF P]) (simp add: rst_marker_def ac_simps)
    qed
    from code [OF stored tail_code] have "scan_code jf (fill_byte (reconstruct_info f)) (scan_images f) p (replicate 4 0) [] ?out" .
    moreover have "stuff xs @ tail = ?out @ unread (inner (bit_reader f))"
      using O' by (simp add: tail ys(1) flip: mb)
    moreover have "position (inner (bit_reader f)) = base + of_nat (length ?out)"
      using O' by (simp flip: mb)
    moreover have "scan_block jf (scan_images f) q = scan_block jf (scan_images s) q" if "valid_place jf q" "before q p" for q
    proof -
      have "before q (block_after jf p')" using that(2) p_last before_trans by blast
      then show ?thesis using O' that keep1 by metis
    qed
    moreover have "same_info (reconstruct_info s) (reconstruct_info f)" using info O' same_info_trans by blast
    ultimately show ?thesis using O' padk rows_f due2 unfolding scan_read_def by (intro exI [of _ ?out]) blast
  qed
qed simp

section \<open>A scan, read and written\<close>

lemma read_first_scan_verified:
  assumes "read_first_scan n k jf i parts images rinfo = Some (Ok f)" "regular_scan jf"
  shows "verify_huffman_table True True jf = Ok ()"
proof (cases n)
  case (Suc j)
  have "jpeg_type jf = Sequential" using assms(2) by (simp add: regular_scan_def)
  then show ?thesis
    using assms(1) Suc by (auto simp: read_first_scan_def bindF_eq_Inr first_scan_interval_def decode_baseline_rst_def Let_def)
qed (use assms in \<open>simp add: read_first_scan_def\<close>)

text \<open>What the decoder has read is the code of the blocks it has stored.\<close>

lemma first_scan_code:
  assumes ok: "header_ok False jf" "regular_scan jf" and short: "no_short_run_codes jf" and k: "81 < k"
    and ims: "whole_images jf images" and eoi: "eoi_ahead (unread i)" and pad: "pad_ok (pad_bit rinfo)"
    and run: "read_first_scan n k jf i parts images rinfo = Some (Ok f)"
  shows "scan_tables_ok jf \<and> (\<exists>out. unread i = out @ unread (inner (bit_reader f))
    \<and> position (inner (bit_reader f)) = position i + of_nat (length out)
    \<and> scan_code jf (fill_byte (reconstruct_info f)) (scan_images f) (0, 0, 0) (replicate 4 0) [] out
    \<and> whole_images jf (scan_images f) \<and> same_info rinfo (reconstruct_info f)
    \<and> (parts = [] \<longrightarrow> length (partitions f) = unat (mcuv jf) \<and> recorded (starts_row jf (fill_byte (reconstruct_info f)) (scan_images f)
        (position i) (0, 0, 0) (replicate 4 0) []) 0 (partitions f)))"
proof -
  note T = verified_tables [OF ok(1) read_first_scan_verified [OF run ok(2)] short]
  obtain xs tail where st: "unread i = stuff xs @ tail" "scan_end tail" using scan_split by blast
  have eoi': "eoi_ahead tail" using eoi unfolding st(1) by (rule eoi_ahead_tail)
  define s where "s = \<lparr>scan_position = JpegPositionState_new jf 0, bit_reader = BitReader_new i, scan_images = images,
       do_handoff = True, reconstruct_info = rinfo, partitions = parts\<rparr>"
  have loop: "first_scan_loop n n k jf s = Some (Ok f)" using run by (simp add: read_first_scan_def s_def)
  have "0 < unat (mcuc jf)" using ok(1) by (simp add: header_ok_def geometry_ok_def word_less_nat_alt)
  with at_block_new [OF ok(1), of 0] have at: "at_place jf (scan_position s) (0, 0, 0)" by (simp add: at_place_def s_def)
  have rst: "rst_synced jf (reset_rstw jf (scan_position s))"
    by (simp add: rst_synced_def reset_rstw_def s_def JpegPositionState_new_def Let_def)
  have R: "reads (bit_reader s) (position i) xs tail 0" "settled (bit_reader s)" "cpos (bit_reader s) = of_nat (interval_no jf (0, 0, 0))"
    using reads_new [OF st] by (simp_all add: s_def BitReader_new_def interval_no_def)
  have "whole_images jf (scan_images s)" "pad_ok (pad_bit (reconstruct_info s))" using ims pad by (simp_all add: s_def)
  from first_scan_loop_reads [OF ok T(2) k loop at rst this(1) R eoi' st(2) this(2)] obtain out where
    O: "scan_read jf (position i) (stuff xs @ tail) (0, 0, 0) s f out" by blast
  have "reconstruct_info s = rinfo" by (simp add: s_def)
  moreover have "handoffs_due jf (0, 0, 0) s" "partitions s = []" if "parts = []"
    using that by (simp_all add: s_def handoffs_due_def row_start_def rows_before_def)
  ultimately show ?thesis using O T(1) unfolding scan_read_def st(1) rows_recorded_def by auto
qed

context simd16_laws
begin

lemma scan_lossless:
  assumes ok: "header_ok False jf" "regular_scan jf" and short: "no_short_run_codes jf" and k: "81 < k"
    and ims: "whole_images jf images" and whole: "whole_scan jf rinfo" and eoi: "eoi_ahead (unread i)" and pad: "pad_ok (pad_bit rinfo)"
    and run: "read_first_scan n k jf i parts images rinfo = Some (Ok f)"
  shows "\<exists>out N. unread i = out @ unread (inner (bit_reader f)) \<and>
    (\<forall>a \<ge> N. \<forall>b \<ge> N. jpeg_write_entire_scan a b V alloc (scan_images f) jf (reconstruct_info f) scan = Some (Ok out))"
proof -
  from first_scan_code [OF ok short k ims eoi pad run] obtain out where
    R: "scan_tables_ok jf" "unread i = out @ unread (inner (bit_reader f))"
    "scan_code jf (fill_byte (reconstruct_info f)) (scan_images f) (0, 0, 0) (replicate 4 0) [] out"
    "whole_images jf (scan_images f)" "same_info rinfo (reconstruct_info f)" by blast
  have "whole_scan jf (reconstruct_info f)"
    using whole same_infoD [OF R(5)] by (simp add: whole_scan_def all_markers_def)
  from write_scan [OF ok R(1,4) this R(3)] R(2) show ?thesis by blast
qed

end

end
