(* ===== verification/Scan_Restored.thy ===== *)
theory Scan_Restored
  imports Scan_Lossless
begin

unbundle bit_operations_syntax

text \<open>
  The converse of \<open>Scan_Lossless\<close>: the decoder accepts every code of a scan and restores the blocks it was written
  from (\<open>scan_restored\<close>), if the fuel suffices, the tables have distinct codes and the images have room.
\<close>

section \<open>The end of an interval\<close>

lemma fill_bits_accepted:
  assumes R: "reads r p xs tail d" and s: "settled r" and pad: "bytes_bits xs = bs @ pad_bits x d" "length bs = d"
    and x: "x = 0 \<or> x = 0xFF" and before: "pb = None \<or> pb = Some x"
  shows "\<exists>pb' r'. read_and_verify_fill_bits pb r = Ok (pb', r') \<and> (pb' = None \<or> pb' = Some x)"
proof -
  note U = undo_reads [OF R s]
  note D = reads_atD [OF U(1)]
  let ?r = "undo_read_ahead r"
  let ?l = "unat (bits_left ?r)"
  define n where "n = (d + 7) div 8"
  have Ru: "reads ?r p xs tail d" using U(1) by (auto simp: reads_def)
  have dl: "d + ?l = 8 * n" using D(7) U(2) n_def by simp
  have l8: "?l < 8" unfolding U(3) by simp
  show ?thesis
  proof (cases "?l = 0")
    case True
    then show ?thesis using before by (simp add: read_and_verify_fill_bits_def Let_def word_less_nat_alt)
  next
    case False
    have rest: "drop d (bytes_bits xs) = pad_bits x d" using pad by simp
    have plen: "length (pad_bits x d) = ?l" unfolding U(3) by (simp add: pad_bits_def)
    have "d + length (pad_bits x d) = 8 * length xs" using pad by (metis length_append length_bytes_bits)
    then have le: "d + ?l \<le> 8 * length xs" by (simp add: plen)
    have "?l \<le> 16" using l8 by simp
    from read_reads [OF Ru U(4) [unfolded settled_slack] this le] obtain v r1 where r1: "read (bits_left ?r) ?r = Ok (v, r1)"
      "unat v = of_bits (take ?l (pad_bits x d))" unfolding rest by blast
    have "8 * ((d + 7) div 8) - d = ?l" using dl by (simp add: n_def)
    then have "pad_bits x d = bits_of ?l (unat x)" using pad_bits_bits_of [OF x, of d] by simp
    then have v: "unat v = unat x mod 2 ^ ?l" using r1(2) by (simp add: of_bits_bits_of)
    define A where "A = (push_bit (?l mod 16) 1 - 1 :: u16)"
    have A: "A = mask ?l" using l8 by (simp add: A_def mask_eq_exp_minus_1 push_bit_eq_mult)
    have vA: "v = ucast x AND A" using unat_lt2p [of x] by (simp add: word_unat_eq_iff A unat_and_mask unat_ucast v)
    have ones: "ucast (0xFF :: u8) AND A = A"
    proof -
      have "list_all (\<lambda>l. ucast (0xFF :: u8) AND (mask l :: u16) = mask l) [0..<8]" by code_simp
      then show ?thesis using l8 unfolding list_all_iff by (simp add: A)
    qed
    have "read_and_verify_fill_bits pb r = (case pb of
          None \<Rightarrow> if v = 0 then Ok (Some 0, r1) else if v = A then Ok (Some 0xFF, r1) else err_exit_code InvalidPadding
        | Some x \<Rightarrow> if v \<noteq> ucast x AND A then err_exit_code InvalidPadding else Ok (pb, r1))"
      using False D(9) unfolding read_and_verify_fill_bits_def Let_def A_def [symmetric]
      by (simp add: word_less_nat_alt r1(1))
    moreover have "v = (if x = 0 then 0 else A)" using x vA ones by auto
    moreover have "A \<noteq> 0"
    proof
      assume "A = 0"
      then have "bit A 0 = bit (0 :: u16) 0" by simp
      then show False using False l8 by (simp add: A bit_mask_iff)
    qed
    ultimately show ?thesis using before vA x by auto
  qed
qed

lemma reset_code_accepted:
  assumes R: "reads r p xs tail (8 * length xs)" and s: "settled r"
    and tail: "tail = 0xFF # (RST0 + (ucast (cpos r) AND 7)) # rest"
  shows "\<exists>r'. verify_reset_code r = Ok r'"
proof -
  note U = undo_reads [OF R s]
  note D = reads_atD [OF U(1)]
  let ?r = "undo_read_ahead r"
  have "unread (inner ?r) = 0xFF # (RST0 + (ucast (cpos r) AND 7)) # rest" using D(1) tail(1) by simp
  then obtain i j where "read_byte (inner ?r) = (Some 0xFF, i)" "read_byte i = (Some (RST0 + (ucast (cpos r) AND 7)), j)"
    using read_byte_Cons by metis
  then have "read_exact 2 (inner ?r) = Ok ([0xFF, RST0 + (ucast (cpos r) AND 7)], j)" by (simp add: numeral_2_eq_2)
  then show ?thesis using U(5) by (simp add: verify_reset_code_def Let_def)
qed

text \<open>A stream has one way to be stuffed bytes in front of a marker.\<close>

lemma stuff_unique:
  "stuff xs @ tail = stuff ys @ tail' \<Longrightarrow> scan_end tail \<Longrightarrow> scan_end tail' \<Longrightarrow> xs = ys \<and> tail = tail'"
proof (induction xs arbitrary: ys)
  case Nil
  then show ?case by (cases ys) (auto simp: scan_end_def split: if_splits)
next
  case (Cons x xs)
  then show ?case by (cases ys) (auto simp: scan_end_def split: if_splits)
qed

section \<open>One block\<close>

definition scan_prefix_free :: "JpegHeader \<Rightarrow> bool" where
  "scan_prefix_free jf \<longleftrightarrow> (\<forall>c < cs_cmpc jf. let i = cs_cmp jf ! c
    in prefix_free (get_huff_dc_codes jf i) \<and> prefix_free (get_huff_ac_codes jf i))"

definition full_trees :: "JpegHeader \<Rightarrow> bool" where
  "full_trees jf \<longleftrightarrow> (\<forall>c < cs_cmpc jf. let i = cs_cmp jf ! c
    in tree_for (get_huff_dc_codes jf i) (get_huff_dc_tree jf i) \<and> all_codes (get_huff_dc_codes jf i) (get_huff_dc_tree jf i)
     \<and> tree_for (get_huff_ac_codes jf i) (get_huff_ac_tree jf i) \<and> all_codes (get_huff_ac_codes jf i) (get_huff_ac_tree jf i))"

definition images_room :: "JpegHeader \<Rightarrow> BlockBasedImage list \<Rightarrow> bool" where
  "images_room jf ims \<longleftrightarrow> (\<forall>i < cmpc jf. unat (bc (cmp_info jf ! i)) \<le> capacity (ims ! i))"

text \<open>The images have the block of \<open>ims\<close> at the place \<open>p\<close>, and those of \<open>before\<close> elsewhere.\<close>

definition block_restored ::
  "JpegHeader \<Rightarrow> BlockBasedImage list \<Rightarrow> place \<Rightarrow> BlockBasedImage list \<Rightarrow> BlockBasedImage list \<Rightarrow> bool"
where
  "block_restored jf ims p old new \<longleftrightarrow> scan_block jf new p = scan_block jf ims p \<and> whole_images jf new \<and> images_room jf new
    \<and> (\<forall>q. valid_place jf q \<and> q \<noteq> p \<longrightarrow> scan_block jf new q = scan_block jf old q)"

lemma undiff_block:
  assumes "block_ok (scan_block jf ims p)"
  shows "zigzag_to_transposed ((diff_block jf ims dc p)[0 := diff_block jf ims dc p ! 0 + dc ! place_component jf p]) = scan_block jf ims p"
    "diff_block jf ims dc p ! 0 + dc ! place_component jf p = block_dc jf ims p"
proof -
  let ?z = "get_block (zigzag_from_transposed (scan_block jf ims p))"
  have len: "length ?z = 64" by (simp add: get_block_def zigzag_from_transposed_def)
  then show dc: "diff_block jf ims dc p ! 0 + dc ! place_component jf p = block_dc jf ims p" by (simp add: diff_block_def)
  have "(diff_block jf ims dc p)[0 := block_dc jf ims p] = ?z"
    by (simp add: diff_block_def block_dc_def)
  then show "zigzag_to_transposed ((diff_block jf ims dc p)[0 := diff_block jf ims dc p ! 0 + dc ! place_component jf p]) = scan_block jf ims p"
    using zigzag_to_from [OF assms] by (simp add: dc get_block_def)
qed

lemma store_accepted:
  assumes ok: "header_ok a jf" and ims: "whole_images jf ims" "images_room jf ims" and at: "at_place jf st p"
  shows "\<exists>im. idx ims (cmp st) = Ok (ims ! cmp st) \<and> set_block_data (dpos st) b (ims ! cmp st) = Ok im"
proof -
  note A = at_placeD [OF at]
  obtain m c k where p: "p = (m, c, k)" by (cases p)
  have v: "m < unat (mcuc jf)" "c < cs_cmpc jf" "k < unat (mbs (cmp_info jf ! (cs_cmp jf ! c)))" "place_component jf p = cs_cmp jf ! c"
    using A(1) by (simp_all add: p valid_place_def place_component_def)
  have pos: "unat (dpos st) < unat (bc (cmp_info jf ! (cs_cmp jf ! c)))"
    using block_pos_less [OF ok v(2,1,3)] A(4) v(4) by (simp add: p)
  have c: "cs_cmp jf ! c < cmpc jf" using place_component_less(1) [OF ok A(1)] v(4) by simp
  then have "dpos_offset (ims ! (cs_cmp jf ! c)) = 0" "unat (bc (cmp_info jf ! (cs_cmp jf ! c))) \<le> capacity (ims ! (cs_cmp jf ! c))"
    "cs_cmp jf ! c < length ims"
    using ims by (simp_all add: whole_images_def images_room_def)
  then show ?thesis
    using set_block_data_total [of "ims ! cmp st" "dpos st" b] pos A(3) v(4) by (simp add: idx_in_range)
qed

lemma set_block_data_room: "set_block_data d b im = Ok im' \<Longrightarrow> capacity im' = capacity im"
  by (rule set_block_data_blocks_of(4))

lemma baseline_block_restores:
  assumes ok: "header_ok a jf" "regular_scan jf" and trees: "full_trees jf" and k: "81 < k"
    and reading: "reading jf base xs tail p dc bs s" and room: "images_room jf (scan_images s)"
    and target: "place_codable jf ims dc p" "block_ok (scan_block jf ims p)"
    and bits: "bytes_bits xs = bs @ place_bits jf ims dc p @ rest"
  shows "\<exists>s'. baseline_block k jf dc s = Some (Ok ((place_status jf p, dc_after jf ims dc p), s'))
    \<and> block_restored jf ims p (scan_images s) (scan_images s') \<and> scan_position s' = snd (next_mcu_pos jf (scan_position s))
    \<and> has_read jf base xs tail p (bs @ place_bits jf ims dc p) (bit_reader s')
    \<and> pad_bit (reconstruct_info s') = pad_bit (reconstruct_info s)"
proof -
  note R = reading [unfolded reading_def]
  note A = at_placeD [OF R [THEN conjunct1]]
  let ?c = "place_component jf p"
  define s1 where "s1 = record_max_dpos (baseline_handoff jf dc s)"
  have s1: "scan_position s1 = scan_position s" "scan_images s1 = scan_images s" "has_read jf base xs tail p bs (bit_reader s1)"
    "pad_bit (reconstruct_info s1) = pad_bit (reconstruct_info s)"
    using handoff_reading [of jf base xs tail p bs s dc] R by (simp_all add: s1_def)
  have tables: "tree_for (get_huff_dc_codes jf ?c) (get_huff_dc_tree jf ?c)" "all_codes (get_huff_dc_codes jf ?c) (get_huff_dc_tree jf ?c)"
    "tree_for (get_huff_ac_codes jf ?c) (get_huff_ac_tree jf ?c)" "all_codes (get_huff_ac_codes jf ?c) (get_huff_ac_tree jf ?c)"
    using trees A(1) by (auto simp: full_trees_def valid_place_def place_component_def Let_def)
  have codable: "block_codable (get_huff_dc_codes jf ?c) (get_huff_ac_codes jf ?c) (diff_block jf ims dc p)"
    using target(1) by (simp add: place_codable_def Let_def)
  have pb: "place_bits jf ims dc p = block_bits (get_huff_dc_codes jf ?c) (get_huff_ac_codes jf ?c) (diff_block jf ims dc p)"
    by (simp add: place_bits_def Let_def)
  from s1(3) obtain rest' where rd: "rd base xs tail (of_nat (interval_no jf p)) 0 (bit_reader s1) rest'" "bytes_bits xs = bs @ rest'"
    by (auto simp: has_read_def)
  then have "rest' = place_bits jf ims dc p @ rest" using bits by simp
  from decode_block_complete [OF tables k codable rd(1) [unfolded this pb]] obtain eob r where
    D: "decode_block_seq k (get_huff_dc_tree jf ?c) (get_huff_ac_tree jf ?c) (replicate 64 0) (bit_reader s1)
      = Some (Ok ((eob, diff_block jf ims dc p), r))" "rd base xs tail (of_nat (interval_no jf p)) 0 r rest"
      "eob \<le> 1 \<or> diff_block jf ims dc p ! (eob - 1) \<noteq> 0" by blast
  note U = undiff_block [OF target(2), of dc]
  from store_accepted [OF ok(1) _ room, of "scan_position s" p "scan_block jf ims p"] R obtain im where
    im: "idx (scan_images s) ?c = Ok (scan_images s ! ?c)" "set_block_data (dpos (scan_position s)) (scan_block jf ims p) (scan_images s ! ?c) = Ok im"
    unfolding A(3) by blast
  define s2 where "s2 = s1\<lparr>bit_reader := r, scan_images := (scan_images s)[?c := im]\<rparr>"
  obtain sta s' where N: "next_with_handoff jf s2 = (sta, s')" by (cases "next_with_handoff jf s2")
  note N' = next_with_handoff_simps [of jf s2, unfolded N fst_conv snd_conv]
  have "sta = place_status jf p"
    using N'(1) next_place [OF ok, of "scan_position s" p] R s1(1) by (auto simp: s2_def)
  moreover have "\<not> is_eof r" using not_eof D(2) by blast
  moreover have c: "?c < length (scan_images s)" using im(1) by simp
  moreover have "\<not> (1 < eob \<and> diff_block jf ims dc p ! (eob - 1) = 0)" using D(3) by auto
  ultimately have run: "baseline_block k jf dc s = Some (Ok ((place_status jf p, dc_after jf ims dc p), s'))"
    using D(1) im(2) unfolding baseline_block_def s1_def [symmetric] Let_def s1(1,2) A(3)
    by (simp add: U(2) U(1) [unfolded U(2)] N [unfolded s2_def] dc_after_def idx_in_range)
  have S: "whole_images jf (scan_images s')" "scan_block jf (scan_images s') p = scan_block jf ims p"
    "\<And>q. valid_place jf q \<Longrightarrow> q \<noteq> p \<Longrightarrow> scan_block jf (scan_images s') q = scan_block jf (scan_images s) q"
    using store_block [OF ok _ _ im(2) [folded A(3)], of p "scan_images s'"] R N'(3) by (auto simp: s2_def A(3))
  have "images_room jf (scan_images s')"
    using room set_block_data_room [OF im(2)] R place_component_less(1) [OF ok(1) A(1)]
    by (auto simp: images_room_def N'(3) s2_def nth_list_update whole_images_def)
  then have "block_restored jf ims p (scan_images s) (scan_images s')" using S by (simp add: block_restored_def)
  moreover have "has_read jf base xs tail p (bs @ place_bits jf ims dc p) (bit_reader s')"
    using D(2) bits N'(4) by (auto simp: has_read_def s2_def)
  moreover have "pad_bit (reconstruct_info s') = pad_bit (reconstruct_info s)" "scan_position s' = snd (next_mcu_pos jf (scan_position s))"
    using N'(2,5) s1(1,4) by (simp_all add: s2_def)
  ultimately show ?thesis using run by blast
qed

section \<open>The rest of a scan\<close>

text \<open>What the decoder does from the middle of an interval on.\<close>

definition rest_of_scan ::
  "nat \<Rightarrow> nat \<Rightarrow> nat \<Rightarrow> nat \<Rightarrow> JpegHeader \<Rightarrow> i16 list \<Rightarrow> ScanState \<Rightarrow> ScanState result option"
where
  "rest_of_scan i j n k jf dc s = bindF (baseline_loop j k jf dc s) (\<lambda>(sta, s).
    bindF (Some (finish_interval sta s)) (\<lambda>s. if sta = ScanCompleted then Some (Ok s) else first_scan_loop i n k jf s))"

lemma rest_of_scan_step:
  assumes "baseline_block k jf dc s = Some (Ok ((DecodeInProgress, dc'), s'))"
  shows "rest_of_scan i (Suc j) n k jf dc s = rest_of_scan i j n k jf dc' s'"
  using assms by (simp add: rest_of_scan_def)

lemma rest_of_scan_last:
  assumes "baseline_block k jf dc s = Some (Ok ((sta, dc'), s'))" "sta \<noteq> DecodeInProgress" "finish_interval sta s' = Ok s''"
  shows "rest_of_scan i (Suc j) n k jf dc s = (if sta = ScanCompleted then Some (Ok s'') else first_scan_loop i n k jf s'')"
  using assms by (simp add: rest_of_scan_def)

lemma first_scan_loop_rest:
  assumes "jpeg_type jf = Sequential" "verify_huffman_table True True jf = Ok ()"
  shows "first_scan_loop (Suc i) n k jf s = rest_of_scan i n n k jf (replicate 4 0) (s\<lparr>scan_position := reset_rstw jf (scan_position s)\<rparr>)"
proof -
  have assoc: "bindF (bindF m (\<lambda>(a, b). bindF (Some (f a b)) (\<lambda>c. Some (Ok (a, c))))) g = bindF m (\<lambda>(a, b). bindF (Some (f a b)) (\<lambda>c. g (a, c)))"
    for m :: "('a \<times> 'b) result option" and f :: "'a \<Rightarrow> 'b \<Rightarrow> 'c result" and g :: "'a \<times> 'c \<Rightarrow> 'd result option"
    by (auto simp: bindF_def split: option.splits sum.splits)
  show ?thesis
    using assms by (simp add: first_scan_interval_def decode_baseline_rst_def Let_def assoc rest_of_scan_def)
qed

text \<open>The images at the end: the blocks from \<open>p\<close> on are those of \<open>ims\<close>.\<close>

definition scan_restored_from ::
  "JpegHeader \<Rightarrow> BlockBasedImage list \<Rightarrow> place \<Rightarrow> bytes \<Rightarrow> ScanState \<Rightarrow> ScanState \<Rightarrow> bool"
where
  "scan_restored_from jf ims p rest s f \<longleftrightarrow> unread (inner (bit_reader f)) = rest \<and> whole_images jf (scan_images f) \<and>
    (\<forall>q. valid_place jf q \<longrightarrow> scan_block jf (scan_images f) q = (if before q p then scan_block jf (scan_images s) q else scan_block jf ims q))"

lemma before_block_after:
  assumes "valid_place jf p" "valid_place jf q" "before q (block_after jf p)"
  shows "before q p \<or> q = p"
proof -
  obtain m c k m' c' k' where pq: "p = (m, c, k)" "q = (m', c', k')" by (metis prod_cases3)
  have "c' = c \<or> c' < c \<or> c < c'" "m' = m \<or> m' < m \<or> m < m'" by auto
  then show ?thesis using assms by (elim disjE) (auto simp: pq valid_place_def split: if_splits)
qed

lemma scan_restored_step:
  assumes "block_restored jf ims p (scan_images s) (scan_images s')" "scan_restored_from jf ims (block_after jf p) rest s' f"
    "valid_place jf p"
  shows "scan_restored_from jf ims p rest s f"
proof -
  have "scan_block jf (scan_images f) q = (if before q p then scan_block jf (scan_images s) q else scan_block jf ims q)"
    if q: "valid_place jf q" for q
  proof (cases "before q p")
    case True
    then have "before q (block_after jf p)" "q \<noteq> p" using before_after before_trans not_before_self by blast+
    then show ?thesis using True assms(1,2) q by (simp add: scan_restored_from_def block_restored_def del: split_paired_All)
  next
    case False
    show ?thesis
    proof (cases "q = p")
      case True
      moreover from this have "before q (block_after jf p)" by (simp add: before_after)
      ultimately show ?thesis using False assms by (simp add: scan_restored_from_def block_restored_def del: split_paired_All)
    next
      case other: False
      then have "\<not> before q (block_after jf p)" using before_block_after [OF assms(3) q] False by blast
      then show ?thesis using False assms(2) q by (simp add: scan_restored_from_def del: split_paired_All)
    qed
  qed
  then show ?thesis using assms(2) by (simp add: scan_restored_from_def)
qed

lemma scan_restored_last:
  assumes "block_restored jf ims p (scan_images s) (scan_images f)" "unread (inner (bit_reader f)) = rest"
    "valid_place jf p" "place_status jf p = ScanCompleted"
  shows "scan_restored_from jf ims p rest s f"
proof -
  have "before q (block_after jf p)" if "valid_place jf q" for q
  proof -
    obtain m c k where q: "q = (m, c, k)" by (cases q)
    have "m < fst (block_after jf p)" using that assms(4) by (simp add: place_status_cases(1) valid_place_def q)
    then show ?thesis by (cases "block_after jf p") (simp add: q)
  qed
  then have "before q p \<or> q = p" if "valid_place jf q" for q using before_block_after [OF assms(3) that] that by blast
  then show ?thesis using assms not_before_self [of p]
    by (auto simp: scan_restored_from_def block_restored_def simp del: split_paired_All)
qed

text \<open>The end of an interval is accepted.\<close>

lemma padded_length:
  assumes "bytes_bits xs = bs @ pad_bits x (length bs)"
  shows "(length bs + 7) div 8 = length xs"
proof -
  have "8 * length xs = length bs + (8 - length bs mod 8) mod 8"
    using arg_cong [OF assms, of length] by (simp add: pad_bits_def)
  moreover have "a = (b + 7) div 8" if "8 * a = b + (8 - b mod 8) mod 8" for a b :: nat
  proof -
    have "b mod 8 < 8" by simp
    then have "(8 - b mod 8) mod 8 < 8" "(8 - b mod 8) mod 8 = 8 * a - b" using that by simp_all
    then have "b + 7 < 8 * a + 8" "8 * a \<le> b + 7" using that by linarith+
    then show ?thesis by (simp add: div_nat_eqI mult.commute [of _ 8])
  qed
  ultimately show ?thesis by simp
  qed

lemma finish_interval_accepted:
  assumes read: "has_read jf base xs tail p bs (bit_reader s)" and pad: "bytes_bits xs = bs @ pad_bits x (length bs)"
    and x: "x = 0 \<or> x = 0xFF" "pad_bit (reconstruct_info s) = None \<or> pad_bit (reconstruct_info s) = Some x"
    and next_marker: "sta = RestartIntervalExpired \<Longrightarrow> 0 < rsti jf \<and> tail = rst_marker jf (fst p) @ rest"
  shows "\<exists>s'. finish_interval sta s = Ok s' \<and> (pad_bit (reconstruct_info s') = None \<or> pad_bit (reconstruct_info s') = Some x)"
proof -
  note H = has_readD [OF read]
  from fill_bits_accepted [OF H(1,2) pad refl x] obtain pb r where
    fill: "read_and_verify_fill_bits (pad_bit (reconstruct_info s)) (bit_reader s) = Ok (pb, r)" "pb = None \<or> pb = Some x" by blast
  have n: "(length bs + 7) div 8 = length xs" by (rule padded_length [OF pad])
  show ?thesis
  proof (cases "sta = RestartIntervalExpired")
    case True
    from fill_bits_reads [OF H(1,2) refl fill(1)] have r: "reads r base xs tail (8 * length xs)" "settled r" "cpos r = of_nat (interval_no jf p)"
      unfolding n using H(3) by simp_all
    have "tail = 0xFF # (RST0 + (ucast (cpos r) AND 7)) # rest"
      using next_marker [OF True] marker_byte [of jf r p] r(3) by simp
    from reset_code_accepted [OF r(1,2) this] fill show ?thesis by (auto simp: finish_interval_def Let_def)
  qed (use fill in \<open>auto simp: finish_interval_def Let_def\<close>)
qed

section \<open>The code of a scan is read\<close>

lemma rst_scan_end: "scan_end (rst_marker jf m @ bs)"
proof -
  have "unat (RST0 + (x AND 7)) = 208 + unat (x AND 7)" for x :: u8
  proof -
    have "x AND 7 \<le> 7" by (rule word_and_le1)
    then have "unat (x AND 7) \<le> 7" by (simp add: word_le_nat_alt)
    then show ?thesis by (simp add: RST0_def unat_word_ariths)
  qed
  then have "RST0 + (x AND 7) \<noteq> 0" for x by (metis add_is_0 unat_0 zero_neq_numeral)
  then show ?thesis by (simp add: scan_end_def rst_marker_def)
qed

lemma reading_valid: "reading jf base xs tail p dc bs s \<Longrightarrow> valid_place jf p"
  unfolding reading_def using at_placeD(1) by blast

lemma reading_scan_end: "reading jf base xs tail p dc bs s \<Longrightarrow> scan_end tail"
  by (auto simp: reading_def has_read_def rd_def reads_def reads_at_def Let_def)

lemma scan_code_start:
  "scan_code jf x ims p dc bs out \<Longrightarrow> scan_end rest \<Longrightarrow>
    \<exists>ys t more. out @ rest = stuff ys @ t \<and> scan_end t \<and> bytes_bits ys = bs @ place_bits jf ims dc p @ more"
proof (induction rule: scan_code.induct)
  case (in_interval p dc bs out)
  then obtain ys t more where "out @ rest = stuff ys @ t" "scan_end t"
    "bytes_bits ys = (bs @ place_bits jf ims dc p) @ place_bits jf ims (dc_after jf ims dc p) (block_after jf p) @ more" by blast
  then show ?case by auto
next
  case (interval_end p dc bs' bs ys out)
  have "scan_end (rst_marker jf (fst p) @ out @ rest)" by (rule rst_scan_end)
  then show ?case using interval_end by (intro exI [of _ ys] exI [of _ "rst_marker jf (fst p) @ out @ rest"]) auto
next
  case (scan_end p dc bs' bs ys)
  then show ?case by (intro exI [of _ ys] exI [of _ rest]) auto
qed

lemma scan_code_codable: "scan_code jf x ims p dc bs out \<Longrightarrow> place_codable jf ims dc p"
  by (induction rule: scan_code.induct) auto

lemma reading_bits:
  assumes "scan_code jf x ims p dc bs out" "scan_end rest" "reading jf base xs tail p dc bs s" "stuff xs @ tail = out @ rest"
  shows "\<exists>more. bytes_bits xs = bs @ place_bits jf ims dc p @ more"
proof -
  from scan_code_start [OF assms(1,2)] obtain ys t more where
    y: "out @ rest = stuff ys @ t" "scan_end t" "bytes_bits ys = bs @ place_bits jf ims dc p @ more" by blast
  have "scan_end tail" using assms(3) by (auto simp: reading_def has_read_def rd_def reads_def reads_at_def Let_def)
  then show ?thesis using stuff_unique [of xs tail ys t] assms(4) y by auto
qed

lemma interval_no_next:
  assumes "place_status jf p = DecodeInProgress"
  shows "interval_no jf (block_after jf p) = interval_no jf p"
proof (cases "fst (block_after jf p) = fst p")
  case False
  then have "fst (block_after jf p) = Suc (fst p)" using block_after_fst by fastforce
  moreover have "0 < rsti jf \<Longrightarrow> fst (block_after jf p) mod unat (rsti jf) \<noteq> 0"
    using place_status_cases(1,2) [of jf p] assms False by auto
  ultimately show ?thesis by (cases "0 < rsti jf") (simp_all add: interval_no_def div_Suc)
qed (simp add: interval_no_def)

lemma rest_of_scan_restores:
  assumes ok: "header_ok a jf" "regular_scan jf" and trees: "full_trees jf" and k: "81 < k"
    and verified: "verify_huffman_table True True jf = Ok ()" and x: "x = 0 \<or> x = 0xFF"
    and blocks: "\<forall>q. valid_place jf q \<longrightarrow> block_ok (scan_block jf ims q)" and rest: "scan_end rest"
  shows "scan_code jf x ims p dc bs out \<Longrightarrow> reading jf base xs tail p dc bs s \<Longrightarrow> images_room jf (scan_images s) \<Longrightarrow>
    pad_bit (reconstruct_info s) = None \<or> pad_bit (reconstruct_info s) = Some x \<Longrightarrow> stuff xs @ tail = out @ rest \<Longrightarrow>
    \<exists>N f. (\<forall>i \<ge> N. \<forall>j \<ge> N. \<forall>n \<ge> N. rest_of_scan i j n k jf dc s = Some (Ok f)) \<and> scan_restored_from jf ims p rest s f"
proof (induction arbitrary: base xs tail s rule: scan_code.induct)
  case (in_interval p dc bs out)
  let ?q = "block_after jf p"
  have valid: "valid_place jf p" by (rule reading_valid [OF in_interval.prems(1)])
  from reading_bits [OF scan_code.in_interval [OF in_interval.hyps] rest in_interval.prems(1,4)] obtain more where
    more: "bytes_bits xs = bs @ place_bits jf ims dc p @ more" by blast
  have "block_ok (scan_block jf ims p)" using blocks valid by blast
  from baseline_block_restores [OF ok trees k in_interval.prems(1,2) in_interval.hyps(2) this more] obtain s1 where
    B: "baseline_block k jf dc s = Some (Ok ((DecodeInProgress, dc_after jf ims dc p), s1))"
    "block_restored jf ims p (scan_images s) (scan_images s1)" "scan_position s1 = snd (next_mcu_pos jf (scan_position s))"
    "has_read jf base xs tail p (bs @ place_bits jf ims dc p) (bit_reader s1)"
    "pad_bit (reconstruct_info s1) = pad_bit (reconstruct_info s)" unfolding in_interval.hyps(1) by blast
  have R: "at_place jf (scan_position s) p" "rst_synced jf (scan_position s)" "length dc = 4"
    using in_interval.prems(1) by (simp_all add: reading_def)
  have q: "fst ?q < unat (mcuc jf)" using in_interval.hyps(1) place_status_cases(1) [of jf p] by auto
  have at: "at_place jf (scan_position s1) ?q" "rst_synced jf (scan_position s1)"
    using next_place [OF ok R(1,2)] q in_interval.hyps(1) unfolding B(3) by auto
  have "reading jf base xs tail ?q (dc_after jf ims dc p) (bs @ place_bits jf ims dc p) s1"
    using at B(2,4) R(3) interval_no_next [OF in_interval.hyps(1)]
    by (simp add: reading_def has_read_def dc_after_def block_restored_def)
  from in_interval.IH [OF this _ _ in_interval.prems(4)] B(2,5) in_interval.prems(3) obtain N f where
    N: "\<forall>i \<ge> N. \<forall>j \<ge> N. \<forall>n \<ge> N. rest_of_scan i j n k jf (dc_after jf ims dc p) s1 = Some (Ok f)"
    "scan_restored_from jf ims ?q rest s1 f" by (auto simp: block_restored_def)
  have "rest_of_scan i j n k jf dc s = Some (Ok f)" if "Suc N \<le> i" "Suc N \<le> j" "Suc N \<le> n" for i j n
    using N(1) that rest_of_scan_step [OF B(1)] by (cases j) auto
  then show ?case using scan_restored_step [OF B(2) N(2) valid] by blast
next
  case (interval_end p dc bs' bs ys out)
  let ?q = "block_after jf p"
  have valid: "valid_place jf p" by (rule reading_valid [OF interval_end.prems(1)])
  note code = scan_code.interval_end [OF interval_end.hyps]
  from reading_bits [OF code rest interval_end.prems(1,4)] obtain more where
    more: "bytes_bits xs = bs @ place_bits jf ims dc p @ more" by blast
  have "block_ok (scan_block jf ims p)" using blocks valid by blast
  from baseline_block_restores [OF ok trees k interval_end.prems(1,2) interval_end.hyps(2) this more] obtain s1 where
    B: "baseline_block k jf dc s = Some (Ok ((RestartIntervalExpired, dc_after jf ims dc p), s1))"
    "block_restored jf ims p (scan_images s) (scan_images s1)" "scan_position s1 = snd (next_mcu_pos jf (scan_position s))"
    "has_read jf base xs tail p bs' (bit_reader s1)"
    "pad_bit (reconstruct_info s1) = pad_bit (reconstruct_info s)" unfolding interval_end.hyps(1,3) by blast
  have R: "at_place jf (scan_position s) p" "rst_synced jf (scan_position s)" "scan_end tail"
    using interval_end.prems(1) by (auto simp: reading_def has_read_def rd_def reads_def reads_at_def Let_def)
  have q: "fst ?q < unat (mcuc jf)" "fst ?q \<noteq> fst p" "0 < rsti jf" "fst ?q mod unat (rsti jf) = 0"
    using interval_end.hyps(1) by (simp_all add: place_status_cases(2))
  have "scan_end (rst_marker jf (fst p) @ out @ rest)" by (rule rst_scan_end)
  then have tail: "xs = ys" "tail = rst_marker jf (fst p) @ out @ rest"
    using stuff_unique [of xs tail ys] interval_end.prems(4) R(3) by auto
  from finish_interval_accepted [OF B(4) _ x, of RestartIntervalExpired "out @ rest"] interval_end.hyps(4) interval_end.prems(3) q(3) tail B(5)
  obtain s2 where fin: "finish_interval RestartIntervalExpired s1 = Ok s2"
    "pad_bit (reconstruct_info s2) = None \<or> pad_bit (reconstruct_info s2) = Some x" by auto
  have "pad_ok (pad_bit (reconstruct_info s1))" using interval_end.prems(3) x B(5) by (auto simp: pad_ok_def)
  note F = finish_interval_reads [OF B(4) this fin(1)]
  from F(9) obtain r where r: "reads r base xs tail (8 * length xs)" "settled r" "cpos r = of_nat (interval_no jf p)"
    "verify_reset_code r = Ok (bit_reader s2)" by blast
  obtain zs tail' where zs: "out @ rest = stuff zs @ tail'" "scan_end tail'" using scan_split by blast
  have "tail = 0xFF # (RST0 + (of_nat (fst p div unat (rsti jf)) AND 7)) # stuff zs @ tail'" using tail(2) zs(1) by (simp add: rst_marker_def)
  note V = reset_code_reads [OF r(1,2,4) this zs(2)]
  have no: "interval_no jf ?q = interval_no jf p + 1"
    using q block_after_fst [OF q(2)] by (simp add: interval_no_def div_Suc)
  define s3 where "s3 = s2\<lparr>scan_position := reset_rstw jf (scan_position s2)\<rparr>"
  have "at_place jf (scan_position s2) ?q \<and> rst_synced jf (reset_rstw jf (scan_position s2))"
    unfolding F(1) B(3) using next_place [OF ok R(1,2)] q(1) interval_end.hyps(1) by auto
  then have at: "at_place jf (scan_position s3) ?q" "rst_synced jf (scan_position s3)"
    by (auto simp: s3_def at_place_def split: prod.splits)
  have "has_read jf (base + of_nat (length (stuff xs)) + 2) zs tail' ?q [] (bit_reader s3)"
    using has_readI [of "bit_reader s3" "base + of_nat (length (stuff xs)) + 2" zs tail' "[]" jf ?q] V(2-4) r(3) no by (simp add: s3_def)
  then have reading3: "reading jf (base + of_nat (length (stuff xs)) + 2) zs tail' ?q (replicate 4 0) [] s3"
    using at B(2) F(2) by (simp add: reading_def s3_def block_restored_def)
  from interval_end.IH [OF reading3 _ _ zs(1) [symmetric]] B(2) F(2) fin(2) obtain N f where
    N: "\<forall>i \<ge> N. \<forall>j \<ge> N. \<forall>n \<ge> N. rest_of_scan i j n k jf (replicate 4 0) s3 = Some (Ok f)"
    "scan_restored_from jf ims ?q rest s3 f" by (auto simp: block_restored_def s3_def)
  have "jpeg_type jf = Sequential" using ok(2) by (simp add: regular_scan_def)
  note loop = first_scan_loop_rest [OF this verified]
  have "rest_of_scan i j n k jf dc s = Some (Ok f)" if "Suc N \<le> i" "Suc N \<le> j" "Suc N \<le> n" for i j n
  proof -
    obtain i' j' where ij: "i = Suc i'" "j = Suc j'" using \<open>Suc N \<le> i\<close> \<open>Suc N \<le> j\<close> Suc_le_D by blast
    then show ?thesis
      using N(1) that rest_of_scan_last [OF B(1) _ fin(1), of i j' n] loop [of i' n k s2] by (simp add: s3_def)
  qed
  moreover have "block_restored jf ims p (scan_images s) (scan_images s3)" using B(2) F(2) by (simp add: s3_def)
  ultimately show ?case using scan_restored_step [OF _ N(2) valid] by blast
next
  case (scan_end p dc bs' bs ys)
  have valid: "valid_place jf p" by (rule reading_valid [OF scan_end.prems(1)])
  note code = scan_code.scan_end [OF scan_end.hyps]
  from reading_bits [OF code rest scan_end.prems(1,4)] obtain more where
    more: "bytes_bits xs = bs @ place_bits jf ims dc p @ more" by blast
  have "block_ok (scan_block jf ims p)" using blocks valid by blast
  from baseline_block_restores [OF ok trees k scan_end.prems(1,2) scan_end.hyps(2) this more] obtain s1 where
    B: "baseline_block k jf dc s = Some (Ok ((ScanCompleted, dc_after jf ims dc p), s1))"
    "block_restored jf ims p (scan_images s) (scan_images s1)"
    "has_read jf base xs tail p bs' (bit_reader s1)"
    "pad_bit (reconstruct_info s1) = pad_bit (reconstruct_info s)" unfolding scan_end.hyps(1,3) by blast
  have tail: "xs = ys" "tail = rest" using stuff_unique [OF scan_end.prems(4) reading_scan_end [OF scan_end.prems(1)] rest] by auto
  from finish_interval_accepted [OF B(3) _ x, of ScanCompleted] scan_end.hyps(4) scan_end.prems(3) tail B(4)
  obtain s2 where fin: "finish_interval ScanCompleted s1 = Ok s2" by auto
  have "pad_ok (pad_bit (reconstruct_info s1))" using scan_end.prems(3) x B(4) by (auto simp: pad_ok_def)
  note F = finish_interval_reads [OF B(3) this fin]
  have "unread (inner (bit_reader s2)) = rest"
    using F(7) padded_length [OF scan_end.hyps(4)] tail by simp
  moreover have "block_restored jf ims p (scan_images s) (scan_images s2)" using B(2) F(2) by simp
  ultimately have "scan_restored_from jf ims p rest s s2" using scan_restored_last valid scan_end.hyps(1) by blast
  moreover have "rest_of_scan i j n k jf dc s = Some (Ok s2)" if "Suc 0 \<le> j" for i j n
    using that rest_of_scan_last [OF B(1) _ fin, of i _ n] by (cases j) auto
  ultimately show ?case by blast
qed

section \<open>A scan, written and read\<close>

lemma full_treesI:
  assumes ok: "header_ok False jf" and v: "verify_huffman_table True True jf = Ok ()" and pf: "scan_prefix_free jf"
  shows "full_trees jf"
proof -
  have S: "scan_ok jf" "header_shape jf" "tables_belong False jf" using ok by (simp_all add: header_ok_def header_inv_def)
  have "tree_for (get_huff_dc_codes jf i) (get_huff_dc_tree jf i) \<and> all_codes (get_huff_dc_codes jf i) (get_huff_dc_tree jf i)
     \<and> tree_for (get_huff_ac_codes jf i) (get_huff_ac_tree jf i) \<and> all_codes (get_huff_ac_codes jf i) (get_huff_ac_tree jf i)"
    if c: "c < cs_cmpc jf" "i = cs_cmp jf ! c" for c i
  proof -
    note T = scan_component_tables [OF ok v c]
    have "prefix_free (get_huff_dc_codes jf i)" "prefix_free (get_huff_ac_codes jf i)"
      using pf c by (auto simp: scan_prefix_free_def Let_def)
    then show ?thesis using T tree_for_construct all_codes_construct by (auto simp: codes_ok_def)
  qed
  then show ?thesis by (simp add: full_trees_def Let_def)
qed

lemma scan_restored:
  assumes ok: "header_ok False jf" "regular_scan jf" and v: "verify_huffman_table True True jf = Ok ()" and pf: "scan_prefix_free jf"
    and k: "81 < k" and images: "whole_images jf images" "images_room jf images"
    and code: "scan_code jf x ims (0, 0, 0) (replicate 4 0) [] out" and x: "x = 0 \<or> x = 0xFF"
    and blocks: "\<forall>q. valid_place jf q \<longrightarrow> block_ok (scan_block jf ims q)"
    and pad: "pad_bit rinfo = None \<or> pad_bit rinfo = Some x" and i: "unread i = out @ rest" "scan_end rest"
  shows "\<exists>N f. (\<forall>n \<ge> N. read_first_scan n k jf i parts images rinfo = Some (Ok f)) \<and> unread (inner (bit_reader f)) = rest
    \<and> whole_images jf (scan_images f) \<and> (\<forall>q. valid_place jf q \<longrightarrow> scan_block jf (scan_images f) q = scan_block jf ims q)"
proof -
  define s where "s = \<lparr>scan_position = JpegPositionState_new jf 0, bit_reader = BitReader_new i, scan_images = images,
       do_handoff = True, reconstruct_info = rinfo, partitions = parts\<rparr>"
  define s0 where "s0 = s\<lparr>scan_position := reset_rstw jf (scan_position s)\<rparr>"
  obtain xs tail where st: "unread i = stuff xs @ tail" "scan_end tail" using scan_split by blast
  have "0 < unat (mcuc jf)" using ok(1) by (simp add: header_ok_def geometry_ok_def word_less_nat_alt)
  with at_block_new [OF ok(1), of 0] have at: "at_place jf (scan_position s0) (0, 0, 0)"
    by (simp add: at_place_def s_def s0_def)
  have rst: "rst_synced jf (scan_position s0)"
    by (simp add: rst_synced_def reset_rstw_def s_def s0_def JpegPositionState_new_def Let_def)
  have "has_read jf (position i) xs tail (0, 0, 0) [] (bit_reader s0)"
    using has_readI [of "bit_reader s0" "position i" xs tail "[]"] reads_new [OF st]
    by (simp add: s_def s0_def BitReader_new_def interval_no_def)
  then have reading: "reading jf (position i) xs tail (0, 0, 0) (replicate 4 0) [] s0"
    using at rst images(1) by (simp add: reading_def s_def s0_def)
  have s0: "scan_images s0 = images" "reconstruct_info s0 = rinfo" by (simp_all add: s_def s0_def)
  have "stuff xs @ tail = out @ rest" using st(1) i(1) by simp
  from rest_of_scan_restores [OF ok full_treesI [OF ok(1) v pf] k v x blocks i(2) code reading _ _ this] images(2) pad obtain N f where
    N: "\<forall>i \<ge> N. \<forall>j \<ge> N. \<forall>n \<ge> N. rest_of_scan i j n k jf (replicate 4 0) s0 = Some (Ok f)"
    "scan_restored_from jf ims (0, 0, 0) rest s0 f" unfolding s0 by blast
  have "jpeg_type jf = Sequential" using ok(2) by (simp add: regular_scan_def)
  note loop = first_scan_loop_rest [OF this v, of _ _ k s, folded s0_def]
  have "read_first_scan n k jf i parts images rinfo = Some (Ok f)" if n: "Suc N \<le> n" for n
  proof -
    obtain j where "n = Suc j" using n Suc_le_D by blast
    then show ?thesis using N(1) n loop [of j n] by (simp add: read_first_scan_def s_def)
  qed
  moreover have "\<not> before q (0, 0, 0)" for q by (cases q) simp
  then have "unread (inner (bit_reader f)) = rest" "whole_images jf (scan_images f)"
    "valid_place jf q \<Longrightarrow> scan_block jf (scan_images f) q = scan_block jf ims q" for q
    using N(2) unfolding scan_restored_from_def by meson+
  ultimately show ?thesis by (intro exI [of _ "Suc N"] exI [of _ f]) (simp del: split_paired_All)
qed

end
