(* ===== verification/Jpeg_Reader.thy ===== *)
theory Jpeg_Reader
  imports Scan_Reader Row_Range
begin

text \<open>
  Reading a JPEG file (\<open>read_jpeg_file\<close> of \<open>jpeg/jpeg_read.rs\<close>): the header, the first scan, for a baseline file
  the bytes behind the scan, and for a progressive file the further scans. The file is an argument, as the
  reader seeks backwards in it when a baseline file is cut off. The callback only observes the headers. The reader
  is returned where it stands in the end.
\<close>

definition SOI :: u8 where
  "SOI = 0xD8"

definition EOI :: bytes where
  "EOI = [0xFF, 0xD9]"

definition COLOR_CHANNEL_NUM_BLOCK_TYPES :: nat where
  "COLOR_CHANNEL_NUM_BLOCK_TYPES = 3"

definition prepare_to_decode_next_scan ::
  "EnabledFeatures \<Rightarrow> JpegHeader \<Rightarrow> ReconstructionInfo \<Rightarrow> BufRead \<Rightarrow> (bool \<times> JpegHeader \<times> ReconstructionInfo \<times> BufRead) result"
where
  "prepare_to_decode_next_scan features jf rinfo i =
    bindR (parse_jpeg_header features jf rinfo (unread i)) (\<lambda>(sos, jf, rinfo, rest).
      let i = consume (length (unread i) - length rest) i
      in if sos
         then Ok (True, jf,
           rinfo\<lparr>max_bpos := max (max_bpos rinfo) (ucast (cs_to jf)),
                 max_sah := max (max_sah rinfo) (max (cs_sal jf) (cs_sah jf)),
                 max_cmp := fold (\<lambda>k x. max x (of_nat (cs_cmp jf ! k))) [0..<cs_cmpc jf] (max_cmp rinfo)\<rparr>, i)
         else Ok (False, jf, rinfo, i))"

definition seek_back :: "bytes \<Rightarrow> nat \<Rightarrow> BufRead \<Rightarrow> BufRead result" where
  "seek_back file n i =
    (if unat (position i) < n then err_exit_code OsError
     else Ok (i\<lparr>position := position i - of_nat n, unread := drop (unat (position i) - n) file, buffered := 0\<rparr>))"

text \<open>What follows the scan of a baseline file is kept as it is. A file that is cut off keeps its last two bytes too.\<close>

definition finish_baseline ::
  "EnabledFeatures \<Rightarrow> bytes \<Rightarrow> JpegHeader \<Rightarrow> (u64 \<times> RestartSegmentCodingInfo) list \<Rightarrow> ReconstructionInfo \<Rightarrow> BufRead
    \<Rightarrow> (ReconstructionInfo \<times> u64 \<times> BufRead) result"
where
  "finish_baseline features file jf parts rinfo i =
    bindR (if early_eof_encountered rinfo
           then if stop_reading_at_eoi features then err_exit_code ShortRead
                else bindR (set_truncation_bounds (cmp_info jf) (max_dpos rinfo) (truncate_components rinfo)) (\<lambda>t.
                     bindR (seek_back file 2 i) (\<lambda>i.
                     let end_scan = position i
                     in if list_ex (\<lambda>(p, _). end_scan \<le> p) parts then err_exit_code UnsupportedJpeg
                        else bindR (read_exact 2 i) (\<lambda>(g, i).
                          Ok (rinfo\<lparr>truncate_components := t, garbage_data := g\<rparr>, i, end_scan))))
           else Ok (rinfo, i, position i)) (\<lambda>(rinfo, i, end_scan).
      if stop_reading_at_eoi features
      then bindR (read_exact 2 i) (\<lambda>(e, i).
             if e \<noteq> EOI then err_exit_code UnsupportedJpeg else Ok (rinfo\<lparr>garbage_data := e\<rparr>, end_scan, i))
      else Ok (rinfo\<lparr>garbage_data := garbage_data rinfo @ unread i\<rparr>, end_scan, consume (length (unread i)) i))"

text \<open>The further scans; the loop ends with the EOI marker or the end of the file.\<close>

fun further_scans ::
  "nat \<Rightarrow> nat \<Rightarrow> nat \<Rightarrow> EnabledFeatures \<Rightarrow> (JpegHeader \<Rightarrow> bytes \<Rightarrow> 'u \<Rightarrow> 'u) \<Rightarrow> nat \<Rightarrow> JpegHeader \<Rightarrow> BlockBasedImage list
    \<Rightarrow> ReconstructionInfo \<Rightarrow> BufRead \<Rightarrow> 'u \<Rightarrow> (JpegHeader \<times> BlockBasedImage list \<times> ReconstructionInfo \<times> BufRead \<times> 'u) result option"
where
  "further_scans 0 n k features callback prev jf images rinfo i u = None"
| "further_scans (Suc j) n k features callback prev jf images rinfo i u =
    bindF (Some (prepare_to_decode_next_scan features jf rinfo i)) (\<lambda>(more, jf, rinfo, i).
      if \<not> more then Some (Ok (jf, images, rinfo, i, u))
      else
        let u = callback jf (drop prev (raw_jpeg_header rinfo)) u;
            prev = length (raw_jpeg_header rinfo)
        in bindF (read_progressive_scan n k jf i images rinfo) (\<lambda>s.
           if early_eof_encountered (reconstruct_info s) then Some (err_exit_code UnsupportedJpeg)
           else further_scans j n k features callback prev jf (scan_images s) (reconstruct_info s) (inner (bit_reader s)) u))"

text \<open>The scans, behind the first header.\<close>

definition read_scans ::
  "nat \<Rightarrow> nat \<Rightarrow> (nat \<Rightarrow> bool) \<Rightarrow> EnabledFeatures \<Rightarrow> (JpegHeader \<Rightarrow> bytes \<Rightarrow> 'u \<Rightarrow> 'u) \<Rightarrow> bytes \<Rightarrow> JpegHeader
    \<Rightarrow> ReconstructionInfo \<Rightarrow> BufRead \<Rightarrow> 'u
    \<Rightarrow> (BlockBasedImage list \<times> (u64 \<times> RestartSegmentCodingInfo) list \<times> u64 \<times> JpegHeader \<times> ReconstructionInfo \<times> 'u \<times> BufRead) result option"
where
  "read_scans n k alloc features callback file jf rinfo i u =
    bindF (Some (TruncateComponents_init (mcuh jf) (mcuv jf) (cmp_info jf) (cmpc jf) (truncate_components rinfo))) (\<lambda>t.
    bindF (Some (new_images alloc (cmp_info jf) [0..<cmpc jf] 0 (bcv (cmp_info jf ! 0)))) (\<lambda>images.
    bindF (read_first_scan n k jf i [] images (rinfo\<lparr>truncate_components := t\<rparr>)) (\<lambda>s.
      let start_scan = position i; i = inner (bit_reader s); rinfo = reconstruct_info s; images = scan_images s; parts = partitions s
      in if unat (position i) < unat start_scan + 2 then Some (err_exit_code UnsupportedJpeg)
         else if parts = [] then Some (err_exit_code UnsupportedJpeg)
         else if jpeg_type jf = Sequential
         then bindF (Some (finish_baseline features file jf parts rinfo i)) (\<lambda>(rinfo, end_scan, i).
                Some (Ok (images, parts, end_scan, jf, rinfo, u, i)))
         else if jpeg_type jf \<noteq> Progressive then Some panic
         else if early_eof_encountered rinfo then Some (err_exit_code UnsupportedJpeg)
         else bindF (further_scans n n k features callback (length (raw_jpeg_header rinfo)) jf images rinfo i u)
                (\<lambda>(jf, images, rinfo, i, u).
                let n = (if stop_reading_at_eoi features then 0 else length (unread i))
                in Some (Ok (images, parts, position i, jf, rinfo\<lparr>garbage_data := EOI @ take n (unread i)\<rparr>, u, consume n i))))))"

definition read_jpeg_file ::
  "nat \<Rightarrow> nat \<Rightarrow> (nat \<Rightarrow> bool) \<Rightarrow> EnabledFeatures \<Rightarrow> (JpegHeader \<Rightarrow> bytes \<Rightarrow> 'u \<Rightarrow> 'u) \<Rightarrow> bytes \<Rightarrow> JpegHeader
    \<Rightarrow> ReconstructionInfo \<Rightarrow> BufRead \<Rightarrow> 'u
    \<Rightarrow> (BlockBasedImage list \<times> (u64 \<times> RestartSegmentCodingInfo) list \<times> u64 \<times> JpegHeader \<times> ReconstructionInfo \<times> 'u \<times> BufRead) result option"
where
  "read_jpeg_file n k alloc features callback file jf rinfo i u =
    (let startheader = take 2 (unread i)
     in if startheader \<noteq> [0xFF, SOI] then Some (err_exit_code UnsupportedJpeg)
        else bindF (Some (prepare_to_decode_next_scan features jf rinfo (consume (length startheader) i))) (\<lambda>(more, jf, rinfo, i).
          if \<not> more then Some (err_exit_code UnsupportedJpeg)
          else
            let u = callback jf (raw_jpeg_header rinfo) u
            in if \<not> progressive features \<and> jpeg_type jf = Progressive then Some (err_exit_code ProgressiveUnsupported)
               else if COLOR_CHANNEL_NUM_BLOCK_TYPES < cmpc jf then Some (err_exit_code Unsupported4Colors)
               else read_scans n k alloc features callback file jf rinfo i u))"

end
