(* ===== verification/Jpeg_Lossless.thy ===== *)
theory Jpeg_Lossless
  imports Jpeg_Reader Scan_Lossless
begin

text \<open>
  A baseline file is its header, the code of its blocks, and what follows: \<open>read_jpeg_file\<close> splits the file into
  these parts (\<open>read_baseline_file\<close>, \<open>finish_baseline_parts\<close>).
\<close>

lemma new_images_whole:
  "new_images alloc infos ks 0 h = Ok ims \<Longrightarrow>
    length ims = length ks \<and> (\<forall>j < length ks. ks ! j < length infos \<and> dpos_offset (ims ! j) = 0
      \<and> original_height (ims ! j) = bcv (infos ! (ks ! j)) \<and> block_width (ims ! j) = bch (infos ! (ks ! j)) \<and> image (ims ! j) = [])"
proof (induction ks arbitrary: ims)
  case (Cons i ks)
  from Cons.prems obtain im ims1 where im: "BlockBasedImage_new alloc infos i 0 h = Ok im" "new_images alloc infos ks 0 h = Ok ims1"
    "ims = im # ims1" by auto
  have "i < length infos \<and> dpos_offset im = 0 \<and> original_height im = bcv (infos ! i) \<and> block_width im = bch (infos ! i) \<and> image im = []"
    using im(1) by (auto simp: BlockBasedImage_new_def Let_def split: if_splits)
  then show ?case using Cons.IH [OF im(2)] im(3) by (auto simp: nth_Cons split: nat.splits)
qed simp

lemma new_images_whole_images:
  assumes "new_images alloc (cmp_info jf) [0..<cmpc jf] 0 h = Ok ims"
  shows "whole_images jf ims"
  using new_images_whole [OF assms] by (simp add: whole_images_def)

lemma truncate_init_heights:
  assumes "TruncateComponents_init w v infos n TruncateComponents_default = Ok t"
  shows "get_max_coded_heights t = Ok (map bcv (take n infos))"
proof -
  have "trunc_info t = map (\<lambda>ci. \<lparr>trunc_bcv = bcv ci, trunc_bc = bc ci\<rparr>) (take n infos)" "components_count t = n" "n \<le> length infos"
    using assms by (auto simp: TruncateComponents_init_def TruncateComponents_default_def split: if_splits)
  then show ?thesis by (simp add: get_max_coded_heights_def o_def)
qed

text \<open>The type of a file is set once.\<close>

lemma parse_dht_type: "parse_dht a segment hpos h = Ok (p, h') \<Longrightarrow> jpeg_type h' = jpeg_type h"
proof (induction "length segment - hpos" arbitrary: hpos h rule: less_induct)
  case less
  show ?case
    using less(2) by (subst (asm) parse_dht.simps) (auto simp: Let_def dest!: less(1) [rotated] split: if_splits)
qed

lemma parse_dqt_type: "parse_dqt r segment hpos h = Ok (p, h') \<Longrightarrow> jpeg_type h' = jpeg_type h"
proof (induction "length segment - hpos" arbitrary: hpos h rule: less_induct)
  case less
  show ?case
    using less(2) by (subst (asm) parse_dqt.simps)
      (auto simp: Let_def dest!: less(1) [rotated] simp del: upt_Suc upt_rec_numeral split: if_splits)
qed

lemma sos_components_type: "sos_components ks segment hpos h = Ok (p, h') \<Longrightarrow> jpeg_type h' = jpeg_type h"
  by (induction ks segment hpos h rule: sos_components.induct) (auto simp: Let_def split: if_splits)

lemma parse_segment_type:
  "parse_segment features b segment h = Ok (res, h') \<Longrightarrow> jpeg_type h \<noteq> Unknown \<Longrightarrow> jpeg_type h' = jpeg_type h"
  by (auto simp: parse_segment_def parse_other_segment_def segment_done_def parse_dri_def parse_sos_def parse_sof_def Let_def split: if_splits
      dest: parse_dht_type parse_dqt_type sos_components_type)

lemma parse_segments_type:
  "parse_segments features h m = Ok ((sos, h'), m') \<Longrightarrow> jpeg_type h \<noteq> Unknown \<Longrightarrow> jpeg_type h' = jpeg_type h"
proof (induction features h m rule: parse_segments.induct)
  case (1 features h m)
  obtain res h1 m1 where n: "parse_next_segment features h m = Ok ((res, h1), m1)"
    using "1.prems"(1) by (subst (asm) parse_segments.simps) (cases "parse_next_segment features h m"; force)
  have "h1 = h \<or> (\<exists>b segment. parse_segment features b segment h = Ok (res, h1))"
    using parse_next_segment_bytes [OF n] by blast
  then have step: "jpeg_type h1 = jpeg_type h" using parse_segment_type "1.prems"(2) by blast
  show ?case
  proof (cases res)
    case ParseContinue
    then have "parse_segments features h1 m1 = Ok ((sos, h'), m')"
      using "1.prems"(1) n by (subst (asm) parse_segments.simps) simp
    from "1.IH" [OF n refl refl ParseContinue this] step "1.prems"(2) show ?thesis by simp
  qed (use "1.prems"(1) n step in \<open>subst (asm) parse_segments.simps, simp\<close>)+
qed

lemma parse_jpeg_header_type:
  assumes "parse_jpeg_header features h rinfo reader = Ok (sos, h', rinfo', rest)" "jpeg_type h \<noteq> Unknown"
  shows "jpeg_type h' = jpeg_type h"
proof -
  from assms(1) obtain m where "parse features h (Mirror_new reader) = Ok ((sos, h'), m)"
    by (auto simp: parse_jpeg_header_def Let_def split: if_splits)
  then obtain h1 sos1 m1 where "parse_segments features h (Mirror_new reader) = Ok ((sos1, h1), m1)" "h' = h1 \<or> finish_header h1 = Ok h'"
    by (auto simp: parse_def split: if_splits)
  then show ?thesis using parse_segments_type assms(2) by (auto simp: finish_header_def Let_def split: if_splits)
qed

lemma further_scans_type:
  "further_scans j n k features callback prev jf images rinfo i u = Some (Ok (jf', images', rinfo', i', u')) \<Longrightarrow>
    jpeg_type jf \<noteq> Unknown \<Longrightarrow> jpeg_type jf' = jpeg_type jf"
proof (induction j arbitrary: prev jf images rinfo i u)
  case (Suc j)
  from Suc.prems(1) obtain more jf1 ri1 i1 where prep: "prepare_to_decode_next_scan features jf rinfo i = Ok (more, jf1, ri1, i1)"
    by (auto simp: bindF_eq_Inr)
  have "jpeg_type jf1 = jpeg_type jf"
    using prep parse_jpeg_header_type Suc.prems(2) by (auto simp: prepare_to_decode_next_scan_def Let_def split: if_splits)
  then show ?case
    using Suc.prems prep Suc.IH by (auto simp: bindF_eq_Inr Let_def split: if_splits)
qed simp

lemma prepare_header:
  assumes run: "prepare_to_decode_next_scan features h rinfo i = Ok (True, jf, rinfo', i')"
    and inv: "header_inv (accept_invalid_dht features) h"
  shows "header_ok (accept_invalid_dht features) jf"
    "\<exists>hd. unread i = hd @ unread i' \<and> raw_jpeg_header rinfo' = raw_jpeg_header rinfo @ hd \<and> position i' = position i + of_nat (length hd)"
    "pad_bit rinfo' = pad_bit rinfo" "rst_cnt rinfo' = rst_cnt rinfo" "truncate_components rinfo' = truncate_components rinfo"
    "early_eof_encountered rinfo' = early_eof_encountered rinfo" "garbage_data rinfo' = garbage_data rinfo"
    "rst_err rinfo' = rst_err rinfo" "max_dpos rinfo' = max_dpos rinfo"
proof -
  from run obtain ri rest where P: "parse_jpeg_header features h rinfo (unread i) = Ok (True, jf, ri, rest)"
    and i': "i' = consume (length (unread i) - length rest) i"
    and ri': "rinfo' = ri\<lparr>max_bpos := max (max_bpos ri) (ucast (cs_to jf)),
                 max_sah := max (max_sah ri) (max (cs_sal jf) (cs_sah jf)),
                 max_cmp := fold (\<lambda>k x. max x (of_nat (cs_cmp jf ! k))) [0..<cs_cmpc jf] (max_cmp ri)\<rparr>"
    by (auto simp: prepare_to_decode_next_scan_def Let_def split: if_splits)
  from P obtain m where "parse features h (Mirror_new (unread i)) = Ok ((True, jf), m)"
    by (auto simp: parse_jpeg_header_def Let_def split: if_splits)
  from parse_ok [OF this inv] show "header_ok (accept_invalid_dht features) jf" .
  from parse_jpeg_header_bytes [OF P] obtain hd where hd: "unread i = hd @ rest" "raw_jpeg_header ri = raw_jpeg_header rinfo @ hd" by auto
  then have "unread i' = rest" "position i' = position i + of_nat (length hd)" by (simp_all add: i' consume_def)
  then show "\<exists>hd. unread i = hd @ unread i' \<and> raw_jpeg_header rinfo' = raw_jpeg_header rinfo @ hd \<and> position i' = position i + of_nat (length hd)"
    using hd ri' by (intro exI [of _ hd]) simp
  have "\<exists>raw. ri = rinfo\<lparr>raw_jpeg_header := raw\<rparr>"
    using P by (auto simp: parse_jpeg_header_def Let_def split: if_splits)
  then show "pad_bit rinfo' = pad_bit rinfo" "rst_cnt rinfo' = rst_cnt rinfo" "truncate_components rinfo' = truncate_components rinfo"
    "early_eof_encountered rinfo' = early_eof_encountered rinfo" "garbage_data rinfo' = garbage_data rinfo"
    "rst_err rinfo' = rst_err rinfo" "max_dpos rinfo' = max_dpos rinfo"
    using ri' by auto
qed

lemma read_baseline_file:
  assumes run: "read_jpeg_file n k alloc features callback file JpegHeader_default ReconstructionInfo_default i u
      = Some (Ok (images, parts, end_scan, jf, rinfo, u', i'))"
    and seq: "jpeg_type jf = Sequential"
  obtains i2 hd ims ri f h where
    "unread i = [0xFF, SOI] @ hd @ unread i2" "position i2 = position i + 2 + of_nat (length hd)"
    "header_ok (accept_invalid_dht features) jf" "cmpc jf \<le> 3" "raw_jpeg_header ri = hd" "pad_bit ri = None" "rst_cnt ri = []"
    "\<not> early_eof_encountered ri" "garbage_data ri = []"
    "get_max_coded_heights (truncate_components ri) = Ok (map bcv (take (cmpc jf) (cmp_info jf)))"
    "whole_images jf ims" "read_first_scan n k jf i2 [] ims ri = Some (Ok f)" "images = scan_images f" "parts = partitions f"
    "finish_baseline features file jf parts (reconstruct_info f) (inner (bit_reader f)) = Ok (rinfo, end_scan, i')"
    "new_images alloc (cmp_info jf) [0..<cmpc jf] 0 h = Ok ims" "rst_err ri = []" "length (max_dpos ri) = 4"
    "TruncateComponents_init (mcuh jf) (mcuv jf) (cmp_info jf) (cmpc jf) TruncateComponents_default = Ok (truncate_components ri)"
    "\<And>f'. same_limits features f' \<Longrightarrow> parse f' JpegHeader_default (Mirror_new hd) = Ok ((True, jf), mirror_at hd [])"
proof -
  have start: "take 2 (unread i) = [0xFF, SOI]"
    using run by (auto simp: read_jpeg_file_def Let_def split: if_splits)
  have len: "length (take 2 (unread i)) = 2" by (simp only: start) simp
  define i1 where "i1 = consume 2 i"
  have i1: "unread i = [0xFF, SOI] @ unread i1" "position i1 = position i + 2"
    using start append_take_drop_id [of 2 "unread i"] by (simp_all add: i1_def consume_def)
  from run start obtain jf0 ri0 i2 where prep: "prepare_to_decode_next_scan features JpegHeader_default ReconstructionInfo_default i1 = Ok (True, jf0, ri0, i2)"
    and cm: "cmpc jf0 \<le> 3"
    and scans: "read_scans n k alloc features callback file jf0 ri0 i2 (callback jf0 (raw_jpeg_header ri0) u) = Some (Ok (images, parts, end_scan, jf, rinfo, u', i'))"
    unfolding read_jpeg_file_def Let_def len i1_def [symmetric]
    by (auto simp: bindF_eq_Inr COLOR_CHANNEL_NUM_BLOCK_TYPES_def split: if_splits)
  note P = prepare_header [OF prep header_inv_default]
  from scans obtain t ims f where S: "TruncateComponents_init (mcuh jf0) (mcuv jf0) (cmp_info jf0) (cmpc jf0) (truncate_components ri0) = Ok t"
    "new_images alloc (cmp_info jf0) [0..<cmpc jf0] 0 (bcv (cmp_info jf0 ! 0)) = Ok ims"
    "read_first_scan n k jf0 i2 [] ims (ri0\<lparr>truncate_components := t\<rparr>) = Some (Ok f)"
    by (auto simp: read_scans_def bindF_eq_Inr)
  have "jpeg_type jf0 \<noteq> Unknown" using P(1) by (simp add: header_ok_def)
  have "jpeg_type jf0 = Sequential"
  proof (rule ccontr)
    assume "jpeg_type jf0 \<noteq> Sequential"
    then obtain prev ri i3 im i4 r4 u4 u5 where "further_scans n n k features callback prev jf0 (scan_images f) ri i3 u4 = Some (Ok (jf, im, r4, i4, u5))"
      using scans S unfolding read_scans_def by (auto simp: bindF_eq_Inr Let_def split: if_splits)
    from further_scans_type [OF this \<open>jpeg_type jf0 \<noteq> Unknown\<close>] seq \<open>jpeg_type jf0 \<noteq> Sequential\<close> show False by simp
  qed
  with scans S have F: "images = scan_images f" "parts = partitions f" "jf = jf0"
    "finish_baseline features file jf parts (reconstruct_info f) (inner (bit_reader f)) = Ok (rinfo, end_scan, i')"
    by (auto simp: read_scans_def bindF_eq_Inr Let_def split: if_splits)
  obtain hd where hd: "unread i1 = hd @ unread i2" "raw_jpeg_header ri0 = hd" "position i2 = position i1 + of_nat (length hd)"
    using P(2) by (auto simp: ReconstructionInfo_default_def)
  show ?thesis
  proof (rule that [of hd i2 "ri0\<lparr>truncate_components := t\<rparr>" ims f "bcv (cmp_info jf0 ! 0)"])
    show "get_max_coded_heights (truncate_components (ri0\<lparr>truncate_components := t\<rparr>)) = Ok (map bcv (take (cmpc jf) (cmp_info jf)))"
      using truncate_init_heights [of "mcuh jf0" "mcuv jf0"] S(1) P(5) F(3) by (simp add: ReconstructionInfo_default_def)
    show "parse f' JpegHeader_default (Mirror_new hd) = Ok ((True, jf), mirror_at hd [])" if "same_limits features f'" for f'
    proof -
      from prep obtain ri rest where p: "parse_jpeg_header features JpegHeader_default ReconstructionInfo_default (unread i1) = Ok (True, jf0, ri, rest)"
        and i2: "i2 = consume (length (unread i1) - length rest) i1" by (auto simp: prepare_to_decode_next_scan_def Let_def split: if_splits)
      from parse_alone [OF p that] obtain hd' where hd': "unread i1 = hd' @ rest"
        "\<And>more. parse f' JpegHeader_default (Mirror_new (hd' @ more)) = Ok ((True, jf0), mirror_at hd' more)" by metis
      have "hd' = hd" using hd(1) hd'(1) by (simp add: i2 consume_def)
      then show ?thesis using hd'(2) [of "[]"] F(3) by simp
    qed
  qed (use i1 hd P F S cm new_images_whole_images [OF S(2)] in \<open>simp_all add: ReconstructionInfo_default_def\<close>)
qed

text \<open>The header that is kept does not change while the scan is read.\<close>

abbreviation kept_header :: "ScanState \<Rightarrow> bytes" where
  "kept_header s \<equiv> raw_jpeg_header (reconstruct_info s)"

lemma kept_header_handoff [simp]:
  "kept_header (baseline_handoff jf dc s) = kept_header s" "kept_header (record_max_dpos s) = kept_header s"
  "kept_header (snd (next_with_handoff jf s)) = kept_header s"
  by (simp_all add: next_with_handoff_simps baseline_handoff_def record_max_dpos_def Let_def split: prod.splits)

lemma kept_header_next: "next_with_handoff jf s = (sta, s') \<Longrightarrow> kept_header s' = kept_header s"
  using kept_header_handoff(3) [of jf s] by simp

lemma kept_header_baseline_block:
  assumes "baseline_block k jf dc s = Some (Ok ((sta, dc'), s'))"
  shows "kept_header s' = kept_header s"
proof -
  let ?s = "record_max_dpos (baseline_handoff jf dc s)"
  from assms obtain r im d where "(let (sta, s) = next_with_handoff jf (?s\<lparr>bit_reader := r, scan_images := im\<rparr>)
      in Some (Ok (if is_eof r
         then ((ScanCompleted, d), s\<lparr>reconstruct_info := (reconstruct_info s)\<lparr>early_eof_encountered := True\<rparr>\<rparr>)
         else ((sta, d), s)))) = Some (Ok ((sta, dc'), s'))"
    by (auto simp: baseline_block_def Let_def bindF_eq_Inr split: if_splits)
  then show ?thesis by (auto split: prod.splits if_splits dest!: kept_header_next)
qed

lemma kept_header_baseline_loop: "baseline_loop n k jf dc s = Some (Ok (sta, s')) \<Longrightarrow> kept_header s' = kept_header s"
  by (induction n arbitrary: dc s) (auto simp: bindF_eq_Inr split: if_splits dest!: kept_header_baseline_block)

lemma kept_header_finish: "finish_interval sta s = Ok s' \<Longrightarrow> kept_header s' = kept_header s"
  by (auto simp: finish_interval_def Let_def split: if_splits)

lemma kept_header_scan:
  assumes seq: "jpeg_type jf = Sequential"
  shows "first_scan_loop j n k jf s = Some (Ok s') \<Longrightarrow> kept_header s' = kept_header s"
proof (induction j arbitrary: s)
  case (Suc j)
  let ?s = "s\<lparr>scan_position := reset_rstw jf (scan_position s)\<rparr>"
  from Suc.prems obtain sta s1 s2 where dec: "decode_baseline_rst n k jf ?s = Some (Ok (sta, s1))"
    and fin: "finish_interval sta s1 = Ok s2"
    and rest: "(if sta = ScanCompleted then Some (Ok s2) else first_scan_loop j n k jf s2) = Some (Ok s')"
    by (auto simp: bindF_eq_Inr first_scan_interval_def seq)
  from dec obtain dc where "baseline_loop n k jf dc ?s = Some (Ok (sta, s1))" by (auto simp: decode_baseline_rst_def bindF_eq_Inr)
  from kept_header_baseline_loop [OF this] kept_header_finish [OF fin] have "kept_header s2 = kept_header s" by simp
  then show ?case using rest Suc.IH by (auto split: if_splits)
qed simp

lemma read_byte_unread: "read_byte i = (Some b, j) \<Longrightarrow> unread i = b # unread j \<and> position j = position i + 1"
proof (cases "unread i")
  case Nil
  moreover assume "read_byte i = (Some b, j)"
  ultimately show ?thesis using read_byte_Nil [of i] by auto
next
  case (Cons c cs)
  moreover assume "read_byte i = (Some b, j)"
  ultimately show ?thesis using read_byte_Cons [of i c cs] by auto
qed

lemma read_exact_unread: "read_exact n i = Ok (bs, j) \<Longrightarrow> unread i = bs @ unread j \<and> position j = position i + of_nat (length bs)"
  by (induction n arbitrary: i bs) (auto split: prod.splits option.splits dest!: read_byte_unread)

lemma finish_baseline_parts:
  assumes "finish_baseline features file jf parts ri i = Ok (rinfo, end_scan, i')" "\<not> early_eof_encountered ri" "garbage_data ri = []"
  shows "\<exists>g rest. unread i = g @ rest \<and> (\<not> stop_reading_at_eoi features \<longrightarrow> rest = [])
    \<and> end_scan = position i \<and> rinfo = ri\<lparr>garbage_data := g\<rparr> \<and> unread i' = rest \<and> position i' = position i + of_nat (length g)"
  using assms by (auto simp: finish_baseline_def consume_def split: if_splits dest!: read_exact_unread)

end
