(* ===== verification/Stored_Images.thy ===== *)
theory Stored_Images
  imports Jpeg_Lossless
begin

text \<open>
  What the first scan of a baseline file leaves besides the blocks: images with the width of their components and blocks of 64
  coefficients, and the information about the file in the shape in which it was (\<open>first_scan_shape\<close>).
\<close>

definition fitted_images :: "JpegHeader \<Rightarrow> BlockBasedImage list \<Rightarrow> bool" where
  "fitted_images jf ims \<longleftrightarrow> (\<forall>i < length ims. block_width (ims ! i) = bch (cmp_info jf ! i) \<and> image_ok (ims ! i))"

lemma set_block_data_fitted:
  assumes "set_block_data d b im = Ok im'" "block_ok b" "image_ok im"
  shows "image_ok im' \<and> block_width im' = block_width im"
  using assms by (auto simp: set_block_data_def fill_up_to_dpos_def Let_def image_ok_def split: if_splits
    dest!: set_update_subset_insert [THEN subsetD])

lemma fitted_update:
  "fitted_images jf ims \<Longrightarrow> set_block_data d b (ims ! c) = Ok im \<Longrightarrow> block_ok b \<Longrightarrow> c < length ims \<Longrightarrow> fitted_images jf (ims[c := im])"
  using set_block_data_fitted by (auto simp: fitted_images_def nth_list_update)

lemma new_images_fitted: "new_images alloc (cmp_info jf) [0..<cmpc jf] 0 h = Ok ims \<Longrightarrow> fitted_images jf ims"
  using new_images_whole [of alloc "cmp_info jf" "[0..<cmpc jf]" h ims] by (simp add: fitted_images_def image_ok_def)

definition scan_shape :: "JpegHeader \<Rightarrow> ScanState \<Rightarrow> bool" where
  "scan_shape jf s \<longleftrightarrow> fitted_images jf (scan_images s) \<and> length (max_dpos (reconstruct_info s)) = 4"

lemma scan_shape_handoff [simp]:
  "scan_shape jf (baseline_handoff jf' dc s) = scan_shape jf s" "scan_shape jf (record_max_dpos s) = scan_shape jf s"
  "scan_shape jf (snd (next_with_handoff jf' s)) = scan_shape jf s" "scan_shape jf (s\<lparr>scan_position := p\<rparr>) = scan_shape jf s"
  by (auto simp: scan_shape_def next_with_handoff_simps baseline_handoff_def record_max_dpos_def Let_def split: prod.splits)

lemma scan_shape_next: "next_with_handoff jf' s = (sta, s') \<Longrightarrow> scan_shape jf s' = scan_shape jf s"
  using scan_shape_handoff(3) [of jf jf' s] by simp

lemma scan_shape_block:
  assumes "baseline_block k jf dc s = Some (Ok ((sta, dc'), s'))" "scan_shape jf s"
  shows "scan_shape jf s'"
proof -
  let ?s = "record_max_dpos (baseline_handoff jf dc s)"
  have s: "scan_shape jf ?s" using assms(2) by simp
  from assms(1) obtain d b im r where im: "set_block_data (dpos (scan_position ?s)) (zigzag_to_transposed b) (scan_images ?s ! cmp (scan_position ?s)) = Ok im"
    "cmp (scan_position ?s) < length (scan_images ?s)"
    and fin: "(let (sta, s) = next_with_handoff jf (?s\<lparr>bit_reader := r, scan_images := (scan_images ?s)[cmp (scan_position ?s) := im]\<rparr>)
      in Some (Ok (if is_eof r
         then ((ScanCompleted, d), s\<lparr>reconstruct_info := (reconstruct_info s)\<lparr>early_eof_encountered := True\<rparr>\<rparr>)
         else ((sta, d), s)))) = Some (Ok ((sta, dc'), s'))"
    unfolding baseline_block_def Let_def by (fastforce simp: bindF_eq_Inr idx_eq_Inr split: if_splits)
  have "scan_shape jf (?s\<lparr>bit_reader := r, scan_images := (scan_images ?s)[cmp (scan_position ?s) := im]\<rparr>)"
    using s fitted_update [OF _ im(1) _ im(2), of jf] by (simp add: scan_shape_def)
  then show ?thesis using fin by (auto simp: scan_shape_def split: prod.splits if_splits dest!: scan_shape_next [where jf = jf])
qed

lemma scan_shape_loop: "baseline_loop n k jf dc s = Some (Ok (sta, s')) \<Longrightarrow> scan_shape jf s \<Longrightarrow> scan_shape jf s'"
  by (induction n arbitrary: dc s) (auto simp: bindF_eq_Inr split: if_splits dest: scan_shape_block)

lemma scan_shape_finish: "finish_interval sta s = Ok s' \<Longrightarrow> scan_shape jf s' = scan_shape jf s"
  by (auto simp: finish_interval_def scan_shape_def Let_def split: if_splits)

lemma first_scan_shape:
  assumes seq: "jpeg_type jf = Sequential"
  shows "first_scan_loop j n k jf s = Some (Ok s') \<Longrightarrow> scan_shape jf s \<Longrightarrow> scan_shape jf s'"
proof (induction j arbitrary: s)
  case (Suc j)
  let ?s = "s\<lparr>scan_position := reset_rstw jf (scan_position s)\<rparr>"
  from Suc.prems obtain sta s1 s2 where dec: "decode_baseline_rst n k jf ?s = Some (Ok (sta, s1))"
    and fin: "finish_interval sta s1 = Ok s2"
    and rest: "(if sta = ScanCompleted then Some (Ok s2) else first_scan_loop j n k jf s2) = Some (Ok s')"
    by (auto simp: bindF_eq_Inr first_scan_interval_def seq)
  from dec obtain dc where "baseline_loop n k jf dc ?s = Some (Ok (sta, s1))" by (auto simp: decode_baseline_rst_def bindF_eq_Inr)
  from scan_shape_loop [OF this] scan_shape_finish [OF fin] Suc.prems(2) have "scan_shape jf s2" by simp
  then show ?case using rest Suc.IH by (auto split: if_splits)
qed simp

section \<open>The file\<close>

text \<open>A baseline file is its header, the code of its blocks, and what follows; and what is kept of it.\<close>

definition baseline_parts ::
  "EnabledFeatures \<Rightarrow> u64 \<Rightarrow> bytes \<Rightarrow> BlockBasedImage list \<Rightarrow> (u64 \<times> RestartSegmentCodingInfo) list \<Rightarrow> JpegHeader \<Rightarrow> ReconstructionInfo
    \<Rightarrow> bytes \<Rightarrow> bytes \<Rightarrow> bool"
where
  "baseline_parts features base file images parts jf rinfo scan rest \<longleftrightarrow>
    file = [0xFF, SOI] @ raw_jpeg_header rinfo @ scan @ garbage_data rinfo @ rest \<and>
    header_ok False jf \<and> scan_tables_ok jf \<and> whole_images jf images \<and> fitted_images jf images \<and> whole_scan jf rinfo \<and>
    scan_code jf (fill_byte rinfo) images (0, 0, 0) (replicate 4 0) [] scan \<and> length parts = unat (mcuv jf) \<and>
    recorded (starts_row jf (fill_byte rinfo) images (base + of_nat (2 + length (raw_jpeg_header rinfo))) (0, 0, 0) (replicate 4 0) []) 0 parts \<and>
    rst_err rinfo = [] \<and> rst_cnt rinfo = [] \<and> length (max_dpos rinfo) = 4 \<and> \<not> early_eof_encountered rinfo \<and>
    TruncateComponents_init (mcuh jf) (mcuv jf) (cmp_info jf) (cmpc jf) TruncateComponents_default = Ok (truncate_components rinfo) \<and>
    (\<forall>f'. same_limits features f' \<longrightarrow> parse f' JpegHeader_default (Mirror_new (raw_jpeg_header rinfo))
      = Ok ((True, jf), mirror_at (raw_jpeg_header rinfo) []))"

lemma baseline_file_parts:
  assumes run: "read_jpeg_file n k alloc features callback file JpegHeader_default ReconstructionInfo_default i u
      = Some (Ok (images, parts, end_scan, jf, rinfo, u', i'))"
    and input: "unread i = file" and valid: "\<not> accept_invalid_dht features" and k: "81 < k"
    and reg: "regular_scan jf" and short: "no_short_run_codes jf"
    and eoi: "eoi_ahead (drop (2 + length (raw_jpeg_header rinfo)) file)"
  shows "\<exists>scan rest. baseline_parts features (position i) file images parts jf rinfo scan rest
    \<and> (\<not> stop_reading_at_eoi features \<longrightarrow> rest = [])
    \<and> end_scan = position i + of_nat (2 + length (raw_jpeg_header rinfo) + length scan)
    \<and> unread i' = rest \<and> position i' = position i + of_nat (length file - length rest)"
proof -
  have seq: "jpeg_type jf = Sequential" using reg by (simp add: regular_scan_def)
  obtain i2 hd ims ri f h where R:
    "unread i = [0xFF, SOI] @ hd @ unread i2" "position i2 = position i + 2 + of_nat (length hd)"
    "header_ok (accept_invalid_dht features) jf" "cmpc jf \<le> 3" "raw_jpeg_header ri = hd" "pad_bit ri = None" "rst_cnt ri = []"
    "\<not> early_eof_encountered ri" "garbage_data ri = []"
    "get_max_coded_heights (truncate_components ri) = Ok (map bcv (take (cmpc jf) (cmp_info jf)))"
    "whole_images jf ims" "read_first_scan n k jf i2 [] ims ri = Some (Ok f)" "images = scan_images f" "parts = partitions f"
    "finish_baseline features file jf parts (reconstruct_info f) (inner (bit_reader f)) = Ok (rinfo, end_scan, i')"
    and R': "new_images alloc (cmp_info jf) [0..<cmpc jf] 0 h = Ok ims" "rst_err ri = []" "length (max_dpos ri) = 4"
    "TruncateComponents_init (mcuh jf) (mcuv jf) (cmp_info jf) (cmpc jf) TruncateComponents_default = Ok (truncate_components ri)"
    "\<And>f'. same_limits features f' \<Longrightarrow> parse f' JpegHeader_default (Mirror_new hd) = Ok ((True, jf), mirror_at hd [])"
    by (rule read_baseline_file [OF run seq]) (rule that)
  have ok: "header_ok False jf" using R(3) valid by simp
  have cmpc: "0 < cmpc jf" using ok by (auto simp: header_ok_def scan_ok_def)
  have "kept_header f = hd" using kept_header_scan [OF seq] R(5,12) by (auto simp: read_first_scan_def)
  moreover have "raw_jpeg_header rinfo = kept_header f"
    using R(15) by (auto simp: finish_baseline_def Let_def split: if_splits)
  ultimately have raw: "raw_jpeg_header rinfo = hd" by simp
  have shape: "scan_shape jf f"
    using first_scan_shape [OF seq] R(12) R'(3) new_images_fitted [OF R'(1)] by (fastforce simp: read_first_scan_def scan_shape_def)
  have rest: "unread i2 = drop (2 + length (raw_jpeg_header rinfo)) file" using R(1) input raw by simp
  have "eoi_ahead (unread i2)" "pad_ok (pad_bit ri)" using eoi rest R(6) by (simp_all add: pad_ok_def)
  note hyps = ok reg short k R(11) this(1,2) R(12)
  from first_scan_code [OF hyps] obtain out where C: "unread i2 = out @ unread (inner (bit_reader f))"
    "position (inner (bit_reader f)) = position i2 + of_nat (length out)" "same_info ri (reconstruct_info f)"
    "scan_tables_ok jf" "scan_code jf (fill_byte (reconstruct_info f)) (scan_images f) (0, 0, 0) (replicate 4 0) [] out"
    "whole_images jf (scan_images f)" "length (partitions f) = unat (mcuv jf)"
    "recorded (starts_row jf (fill_byte (reconstruct_info f)) (scan_images f) (position i2) (0, 0, 0) (replicate 4 0) []) 0 (partitions f)"
    by blast
  note D = same_infoD [OF C(3)]
  have E: "rst_err (reconstruct_info f) = rst_err ri" using C(3) by (auto simp: same_info_def)
  have "\<not> early_eof_encountered (reconstruct_info f)" "garbage_data (reconstruct_info f) = []" using D R(8,9) by simp_all
  from finish_baseline_parts [OF R(15) this] obtain g rest where P: "unread (inner (bit_reader f)) = g @ rest"
    "\<not> stop_reading_at_eoi features \<longrightarrow> rest = []" "end_scan = position (inner (bit_reader f))"
    "rinfo = (reconstruct_info f)\<lparr>garbage_data := g\<rparr>" "unread i' = rest"
    "position i' = position (inner (bit_reader f)) + of_nat (length g)" by blast
  have same: "fill_byte rinfo = fill_byte (reconstruct_info f)" "whole_scan jf rinfo = whole_scan jf (reconstruct_info f)"
    "garbage_data rinfo = g"
    by (simp_all add: P(4) fill_byte_def whole_scan_def all_markers_def)
  have whole: "whole_scan jf rinfo"
    unfolding same(2) using D R(4,7,10) cmpc by (simp add: whole_scan_def all_markers_def)
  have content: "file = [0xFF, SOI] @ raw_jpeg_header rinfo @ out @ garbage_data rinfo @ rest"
    using R(1) input raw C(1) P(1) same(3) by simp
  have base: "position i + of_nat (2 + length (raw_jpeg_header rinfo)) = position i2" using R(2) raw by simp
  have info: "rst_err rinfo = []" "rst_cnt rinfo = []" "length (max_dpos rinfo) = 4" "\<not> early_eof_encountered rinfo"
    "truncate_components rinfo = truncate_components ri"
    using E D R(7,8) R'(2) shape P(4) by (simp_all add: scan_shape_def)
  have "baseline_parts features (position i) file images parts jf rinfo out rest"
    unfolding baseline_parts_def base same(1) info(5)
    using content ok C(4-8) shape whole info(1-4) R'(4,5) R(13,14) raw by (simp add: scan_shape_def)
  moreover have "end_scan = position i + of_nat (2 + length (raw_jpeg_header rinfo) + length out)"
    using P(3) C(2) R(2) raw by simp
  moreover have "position i' = position i + of_nat (length file - length rest)"
    using P(6) C(2) R(1,2) C(1) P(1) input by simp
  ultimately show ?thesis using P(2,5) by blast
qed

context simd16_laws
begin

lemma baseline_file:
  assumes run: "read_jpeg_file n k alloc features callback file JpegHeader_default ReconstructionInfo_default i u
      = Some (Ok (images, parts, end_scan, jf, rinfo, u', i'))"
    and input: "unread i = file" and valid: "\<not> accept_invalid_dht features" and k: "81 < k"
    and reg: "regular_scan jf" and short: "no_short_run_codes jf"
    and eoi: "eoi_ahead (drop (2 + length (raw_jpeg_header rinfo)) file)"
  shows "\<exists>scan rest N. file = [0xFF, SOI] @ raw_jpeg_header rinfo @ scan @ garbage_data rinfo @ rest
    \<and> (\<not> stop_reading_at_eoi features \<longrightarrow> rest = [])
    \<and> end_scan = position i + of_nat (2 + length (raw_jpeg_header rinfo) + length scan)
    \<and> unread i' = rest \<and> position i' = position i + of_nat (length file - length rest)
    \<and> (\<forall>a \<ge> N. \<forall>b \<ge> N. jpeg_write_entire_scan a b V galloc images jf rinfo 0 = Some (Ok scan))"
proof -
  from baseline_file_parts [OF assms] obtain scan rest where B: "baseline_parts features (position i) file images parts jf rinfo scan rest"
    "\<not> stop_reading_at_eoi features \<longrightarrow> rest = []" "end_scan = position i + of_nat (2 + length (raw_jpeg_header rinfo) + length scan)"
    "unread i' = rest" "position i' = position i + of_nat (length file - length rest)" by blast
  note P = B(1) [unfolded baseline_parts_def]
  have "header_ok False jf" "scan_tables_ok jf" "whole_images jf images" "whole_scan jf rinfo"
    "scan_code jf (fill_byte rinfo) images (0, 0, 0) (replicate 4 0) [] scan" using P by blast+
  from write_scan [OF this(1) reg this(2-5)] obtain N where
    "\<forall>a \<ge> N. \<forall>b \<ge> N. jpeg_write_entire_scan a b V galloc images jf rinfo 0 = Some (Ok scan)" by blast
  then show ?thesis using P B(2-5) by blast
qed

end

end
