(* ===== verification/Sample_Scan.thy ===== *)
theory Sample_Scan
  imports Scan_Restored Stored_Images Sample_Tables Sample_Inputs
begin

unbundle bit_operations_syntax

text \<open>
  A JPEG file of one block, on which the witnesses of the properties of scans and files rest: two tables with the
  symbols 0, 1, 2 and \<open>0xF0\<close>, a quantization table of ones, and 14 bits of code with two bits of padding.
\<close>

section \<open>The file\<close>

definition sample_header_bytes :: bytes where
  "sample_header_bytes = [0xFF, 0xC4, 0, 23, 0x00] @ sample_segment @ [0xFF, 0xC4, 0, 23, 0x10] @ sample_segment
    @ [0xFF, 0xDB, 0, 67, 0] @ replicate 64 1 @ [0xFF, 0xC0, 0, 11, 8, 0, 8, 0, 8, 1, 1, 0x11, 0]
    @ [0xFF, 0xDA, 0, 8, 1, 1, 0, 0, 63, 0]"

definition sample_tree :: HuffTree where
  "sample_tree = (case construct_hufftree sample_codes False of Inl e \<Rightarrow> HuffTree_default | Inr t \<Rightarrow> t)"

lemma sample_tree: "construct_hufftree sample_codes False = Ok sample_tree"
  using construct_sample_tree by (auto simp: sample_tree_def)

definition sample_component :: ComponentInfo where
  "sample_component = ComponentInfo_default\<lparr>q_table_index := 0, huff_dc := 0, huff_ac := 0, sfv := 1, sfh := 1, mbs := 1,
     bcv := 1, bch := 1, bc := 1, ncv := 1, nch := 1, nc := 1, sid := 0, jid := 1\<rparr>"

definition sample_header :: JpegHeader where
  "sample_header = JpegHeader_default
    \<lparr>q_tables := (q_tables JpegHeader_default)[0 := replicate 64 1],
     h_codes := [(replicate 4 HuffCodes_default)[0 := sample_codes], (replicate 4 HuffCodes_default)[0 := sample_codes]],
     h_trees := [(replicate 4 HuffTree_default)[0 := sample_tree], (replicate 4 HuffTree_default)[0 := sample_tree]],
     ht_set := [[1, 0, 0, 0], [1, 0, 0, 0]],
     cmp_info := (replicate 4 ComponentInfo_default)[0 := sample_component], cmpc := 1, img_width := 8, img_height := 8,
     jpeg_type := Sequential, sfhm := 1, sfvm := 1, mcuv := 1, mcuh := 1, mcuc := 1, cs_cmpc := 1, cs_to := 63\<rparr>"

text \<open>The segments, one after the other.\<close>

lemma dht_table:
  assumes "lval < 2" "\<not> accept_invalid_dht features" "segment = of_nat (16 * lval) # sample_segment"
  shows "parse_segment features 0xC4 segment h =
    Ok (ParseContinue, h\<lparr>h_codes := update_table lval 0 sample_codes (h_codes h),
      h_trees := update_table lval 0 sample_tree (h_trees h),
      ht_set := update_table lval 0 1 (ht_set h)\<rparr>)"
proof -
  let ?h = "h\<lparr>h_codes := update_table lval 0 sample_codes (h_codes h),
      h_trees := update_table lval 0 sample_tree (h_trees h), ht_set := update_table lval 0 1 (ht_set h)\<rparr>"
  have len: "length segment = 21" "drop (Suc 0) segment = sample_segment" "segment ! 0 = of_nat (16 * lval)"
    by (simp_all add: assms(3) sample_segment_def)
  have nib: "unat (lbits (segment ! 0) 4) = lval" "unat (rbits (segment ! 0) 4) = 0"
    using assms(1) by (auto simp: len(3) lbits_def rbits_def less_2_cases_iff)
  have skip: "(\<Sum>i\<leftarrow>[0..<16]. unat (segment ! Suc i)) = 4"
    by (simp add: assms(3) sample_segment_def upt_rec)
  have "parse_dht (accept_invalid_dht features) segment 0 h = parse_dht (accept_invalid_dht features) segment 21 ?h"
    using assms(1,2) len nib skip
    by (subst parse_dht.simps) (simp add: construct_sample_codes sample_tree ensure_segment_space_def Let_def)
  also have "\<dots> = Ok (21, ?h)" by (subst parse_dht.simps) (simp add: len(1))
  finally show ?thesis by (simp add: parse_segment_def segment_done_def len(1))
qed

lemma dqt_ones:
  "\<forall>i \<in> set is. entry i = 1 \<and> i < length q \<Longrightarrow> dqt_entries reject entry is q = Ok (foldl (\<lambda>q i. q[i := 1]) q is)"
  by (induction "is" arbitrary: q) (simp_all add: Let_def)

lemma foldl_update_all: "n \<le> length q \<Longrightarrow> foldl (\<lambda>q i. q[i := x]) q [0..<n] = replicate n x @ drop n q"
proof (induction n)
  case (Suc n)
  then have "drop n q = q ! n # drop (Suc n) q" by (simp add: Cons_nth_drop_Suc)
  then show ?case using Suc by (simp add: list_update_append replicate_append_same)
qed simp

lemma sample_dqt:
  assumes "0 < length (q_tables h)" "length (q_tables h ! 0) = 64" "segment = 0 # replicate 64 1"
  shows "parse_segment features 0xDB segment h = Ok (ParseContinue, h\<lparr>q_tables := (q_tables h)[0 := replicate 64 1]\<rparr>)"
proof -
  let ?h = "h\<lparr>q_tables := (q_tables h)[0 := replicate 64 1]\<rparr>" and ?r = "reject_dqts_with_zeros features"
  have nib: "unat (lbits (segment ! 0) 4) = 0" "unat (rbits (segment ! 0) 4) = 0" by (simp_all add: assms(3) lbits_def rbits_def)
  have len: "length segment = 65" by (simp add: assms(3))
  have "dqt_entries ?r (\<lambda>i. ucast (segment ! Suc i)) [0..<64] (q_tables h ! 0) = Ok (foldl (\<lambda>q i. q[i := 1]) (q_tables h ! 0) [0..<64])"
    by (rule dqt_ones) (simp add: assms(2,3))
  also have "\<dots> = Ok (replicate 64 1)" using foldl_update_all [of 64 "q_tables h ! 0" 1] by (simp add: assms(2) del: upt_Suc)
  finally have "parse_dqt ?r segment 0 h = parse_dqt ?r segment 65 ?h"
    by (subst parse_dqt.simps) (simp add: nib len ensure_segment_space_def Let_def del: upt_rec_numeral)
  also have "\<dots> = Ok (65, ?h)" by (subst parse_dqt.simps) (simp add: len)
  finally show ?thesis by (simp add: parse_segment_def segment_done_def len)
qed

lemma sample_sof:
  "max_jpeg_height features \<ge> 8 \<Longrightarrow> max_jpeg_width features \<ge> 8 \<Longrightarrow> jpeg_type h = Unknown \<Longrightarrow> length (q_tables h) = 4 \<Longrightarrow>
    parse_segment features 0xC0 [8, 0, 8, 0, 8, 1, 1, 0x11, 0] h = Ok (ParseContinue,
      h\<lparr>jpeg_type := Sequential, img_height := 8, img_width := 8, cmpc := 1,
        cmp_info := (cmp_info h)[0 := (cmp_info h ! 0)\<lparr>jid := 1, sfv := 1, sfh := 1, q_table_index := 0\<rparr>]\<rparr>)"
  by (simp add: parse_segment_def parse_sof_def ensure_segment_space_def b_short_def lbits_def rbits_def Let_def not_less)

lemma sample_sos:
  "cmpc h = 1 \<Longrightarrow> 0 < length (cmp_info h) \<Longrightarrow> jid (cmp_info h ! 0) = 1 \<Longrightarrow>
    parse_segment features 0xDA [1, 1, 0, 0, 63, 0] h = Ok (ParseSOS,
      h\<lparr>cs_cmpc := 1, cs_cmp := (cs_cmp h)[0 := 0], cmp_info := (cmp_info h)[0 := (cmp_info h ! 0)\<lparr>huff_dc := 0, huff_ac := 0\<rparr>],
        cs_from := 0, cs_to := 63, cs_sah := 0, cs_sal := 0\<rparr>)"
  by (cases "cmp_info h") (simp_all add: parse_segment_def parse_sos_def ensure_segment_space_def find_jid_def lbits_def rbits_def Let_def)

text \<open>The whole header.\<close>

definition sample_features :: EnabledFeatures where
  "sample_features = compat_lepton_vector_write"

lemma parse_sample:
  "parse sample_features JpegHeader_default (Mirror_new (sample_header_bytes @ rest)) =
    Ok ((True, sample_header), \<lparr>mirrored = rest, mirror_output = sample_header_bytes, amount_written = length sample_header_bytes\<rparr>)"
proof -
  have f: "\<not> accept_invalid_dht sample_features" "8 \<le> max_jpeg_height sample_features" "8 \<le> max_jpeg_width sample_features"
    by (simp_all add: sample_features_def compat_lepton_vector_write_def)
  define d0 d1 q where "d0 = 0 # sample_segment" and "d1 = 0x10 # sample_segment" and "q = (0 :: u8) # replicate 64 1"
  have len: "length d0 = 21" "length d1 = 21" "length q = 65" by (simp_all add: d0_def d1_def q_def sample_segment_def)
  have bytes: "sample_header_bytes = [0xFF, 0xC4, 0, 23] @ d0 @ [0xFF, 0xC4, 0, 23] @ d1 @ [0xFF, 0xDB, 0, 67] @ q
    @ [0xFF, 0xC0, 0, 11] @ [8, 0, 8, 0, 8, 1, 1, 0x11, 0] @ [0xFF, 0xDA, 0, 8] @ [1, 1, 0, 0, 63, 0]"
    by (simp add: sample_header_bytes_def d0_def d1_def q_def)
  have size: "unat (b_short 0 23) = 23" "unat (b_short 0 67) = 67" "unat (b_short 0 11) = 11" "unat (b_short 0 8) = 8"
    by (simp_all add: b_short_def)
  define h1 where "h1 = JpegHeader_default\<lparr>h_codes := update_table 0 0 sample_codes (h_codes JpegHeader_default),
      h_trees := update_table 0 0 sample_tree (h_trees JpegHeader_default), ht_set := update_table 0 0 1 (ht_set JpegHeader_default)\<rparr>"
  define h2 where "h2 = h1\<lparr>h_codes := update_table 1 0 sample_codes (h_codes h1),
      h_trees := update_table 1 0 sample_tree (h_trees h1), ht_set := update_table 1 0 1 (ht_set h1)\<rparr>"
  define h3 where "h3 = h2\<lparr>q_tables := (q_tables h2)[0 := replicate 64 1]\<rparr>"
  define h4 where "h4 = h3\<lparr>jpeg_type := Sequential, img_height := 8, img_width := 8, cmpc := 1,
        cmp_info := (cmp_info h3)[0 := (cmp_info h3 ! 0)\<lparr>jid := 1, sfv := 1, sfh := 1, q_table_index := 0\<rparr>]\<rparr>"
  define h5 where "h5 = h4\<lparr>cs_cmpc := 1, cs_cmp := (cs_cmp h4)[0 := 0],
        cmp_info := (cmp_info h4)[0 := (cmp_info h4 ! 0)\<lparr>huff_dc := 0, huff_ac := 0\<rparr>],
        cs_from := 0, cs_to := 63, cs_sah := 0, cs_sal := 0\<rparr>"
  note hs = h1_def h2_def h3_def h4_def h5_def JpegHeader_default_def update_table_def
  have s1: "parse_segment sample_features 0xC4 d0 JpegHeader_default = Ok (ParseContinue, h1)"
    using dht_table [of 0 sample_features d0 JpegHeader_default] f(1) by (simp add: h1_def d0_def)
  have s2: "parse_segment sample_features 0xC4 d1 h1 = Ok (ParseContinue, h2)"
    using dht_table [of 1 sample_features d1 h1] f(1) by (simp add: h2_def d1_def)
  have s3: "parse_segment sample_features 0xDB q h2 = Ok (ParseContinue, h3)"
    using sample_dqt [of h2 q sample_features] by (simp add: h3_def) (simp add: hs q_def)
  have s4: "parse_segment sample_features 0xC0 [8, 0, 8, 0, 8, 1, 1, 0x11, 0] h3 = Ok (ParseContinue, h4)"
    using sample_sof [of sample_features h3] f by (simp add: h4_def) (simp add: hs)
  have s5: "parse_segment sample_features 0xDA [1, 1, 0, 0, 63, 0] h4 = Ok (ParseSOS, h5)"
    using sample_sos [of h4 sample_features] by (simp add: h5_def) (simp add: hs)
  have step: "parse_segments sample_features h (mirror_at out ([0xFF, b, 0, s] @ segment @ more)) =
      parse_segments sample_features h' (mirror_at (out @ [0xFF, b, 0, s] @ segment) more)"
    if "parse_segment sample_features b segment h = Ok (ParseContinue, h')" "b \<noteq> 0xD9" "unat (b_short 0 s) = length segment + 2"
    for h h' b s segment out more
    by (rule parse_continue [OF next_segment [OF that]])
  have last: "parse_segments sample_features h4 (mirror_at out ([0xFF, 0xDA, 0, 8] @ [1, 1, 0, 0, 63, 0] @ rest)) =
      Ok ((True, h5), mirror_at (out @ [0xFF, 0xDA, 0, 8] @ [1, 1, 0, 0, 63, 0]) rest)" for out
    by (rule parse_scan_found [OF next_segment [OF s5]]) (simp_all add: size)
  have segs: "parse_segments sample_features JpegHeader_default (mirror_at [] (sample_header_bytes @ rest)) = Ok ((True, h5), mirror_at sample_header_bytes rest)"
    unfolding bytes append_assoc
    by (simp add: step [OF s1] step [OF s2] step [OF s3] step [OF s4] last len size del: append.simps) simp
  have r4: "replicate 4 x = [x, x, x, x]" for x :: 'b by (simp add: numeral_eq_Suc)
  have default_lists: "cmp_info JpegHeader_default = replicate 4 ComponentInfo_default" "q_tables JpegHeader_default = replicate 4 (replicate 64 0)"
    by (simp_all add: JpegHeader_default_def)
  have h5: "h5 = sample_header\<lparr>sfhm := 0, sfvm := 0, mcuc := 0, cmp_info := (cmp_info JpegHeader_default)[0 :=
      ComponentInfo_default\<lparr>q_table_index := 0, huff_dc := 0, huff_ac := 0, sfv := 1, sfh := 1, jid := 1\<rparr>]\<rparr>"
    by (simp add: hs sample_header_def r4 numeral_2_eq_2)
  have fin: "finish_header h5 = Ok sample_header"
    by (simp add: finish_header_def component_incomplete_def component_geometry_def ceil_div_def Let_def h5 sample_header_def
        default_lists r4) (simp add: sample_component_def ComponentInfo_default_def)
  have "Mirror_new (sample_header_bytes @ rest) = mirror_at [] (sample_header_bytes @ rest)" by (simp add: Mirror_new_def mirror_at_def)
  then show ?thesis using segs fin by (simp add: parse_def) (simp add: mirror_at_def)
qed

lemma sample_header_ok: "header_ok False sample_header"
  using parse_ok [OF parse_sample [of "[]"] header_inv_default] by (simp add: sample_features_def compat_lepton_vector_write_def)

section \<open>Its tables\<close>

lemma sample_header_fields:
  "cmpc sample_header = 1" "cs_cmpc sample_header = 1" "cs_cmp sample_header = replicate 4 0" "cmp_info sample_header ! 0 = sample_component"
  "rsti sample_header = 0" "mcuc sample_header = 1" "mcuh sample_header = 1" "mcuv sample_header = 1" "jpeg_type sample_header = Sequential"
  "get_huff_dc_codes sample_header 0 = sample_codes" "get_huff_ac_codes sample_header 0 = sample_codes"
  by (simp_all add: sample_header_def JpegHeader_default_def get_huff_dc_codes_def get_huff_ac_codes_def sample_component_def)

lemma sample_regular: "regular_scan sample_header"
  by (simp add: regular_scan_def sample_header_fields sample_component_def)

lemma sample_verified: "verify_huffman_table True True sample_header = Ok ()"
  by (simp add: verify_huffman_table_def sample_header_fields sample_component_def) (simp add: sample_header_def)

text \<open>The symbols that have a code.\<close>

lemma sample_has_code: "has_code sample_codes i \<longleftrightarrow> i \<in> {0, 1, 2, 0xF0}"
  by (auto simp: has_code_def sample_codes_def post_initialize_def HuffCodes_default_def nth_list_update)

lemma sample_no_short: "no_short_run_codes sample_header"
  by (auto simp: no_short_run_codes_def sample_header_fields no_short_runs_def sample_has_code)

lemma sample_code_bits:
  "code_bits sample_codes 0 = [False, False]" "code_bits sample_codes (Suc 0) = [False, True]" "code_bits sample_codes 2 = [True, False]"
  "code_bits sample_codes 0xF0 = [True, True, False]"
  by (simp_all add: code_bits_def sample_codes_def post_initialize_def HuffCodes_default_def bits_of_def) (simp_all add: upt_rec)

lemma sample_prefix_free: "scan_prefix_free sample_header"
  by (auto simp: scan_prefix_free_def sample_header_fields prefix_free_def sample_has_code sample_code_bits)

section \<open>Its scan\<close>

definition sample_coefs :: "i16 list" where
  "sample_coefs = [1, 1, 1, 1] @ replicate 60 0"

definition sample_images :: "BlockBasedImage list" where
  "sample_images = [empty_image\<lparr>image := [zigzag_to_transposed sample_coefs]\<rparr>]"

lemma sample_place: "valid_place sample_header q \<longleftrightarrow> q = (0, 0, 0)"
  by (cases q) (auto simp: valid_place_def sample_header_fields sample_component_def)

lemma sample_scan_block:
  "place_component sample_header (0, 0, 0) = 0" "scan_block sample_header sample_images (0, 0, 0) = zigzag_to_transposed sample_coefs"
  by (simp_all add: place_component_def sample_header_fields scan_block_def block_pos_def blocks_of_def sample_images_def)

lemma sample_diff: "diff_block sample_header sample_images (replicate 4 0) (0, 0, 0) = sample_coefs"
proof -
  have "get_block (zigzag_from_transposed (zigzag_to_transposed sample_coefs)) = sample_coefs"
    using zigzag_from_to [of sample_coefs] by (simp add: sample_coefs_def get_block_def)
  then show ?thesis by (simp add: diff_block_def block_dc_def sample_scan_block)
qed

lemma bit_len_1: "magnitude 1 = 1"
  using bit_len.simps [of 1] bit_len.simps [of 0] by (simp add: magnitude_def)

lemma sample_items: "ac_items 0 (tl sample_coefs) = [(0, 1), (0, 1), (0, 1), (0, 0)]"
  using ac_items_zeros [of 0 60 "[]"] by (simp add: sample_coefs_def)

lemma sample_codable: "place_codable sample_header sample_images (replicate 4 0) (0, 0, 0)"
proof -
  have "small_coefs sample_coefs" by (auto simp: small_coefs_def sample_coefs_def bit_len_1)
  moreover have "items_coded sample_codes (tl sample_coefs)"
    by (simp add: items_coded_def sample_items sample_has_code bit_len_1)
  ultimately show ?thesis
    by (simp add: place_codable_def sample_scan_block sample_header_fields block_codable_def sample_diff)
       (simp add: sample_coefs_def sample_has_code bit_len_1)
qed

lemma sample_bits:
  "place_bits sample_header sample_images (replicate 4 0) (0, 0, 0) =
    [False, True, True, False, True, True, False, True, True, False, True, True, False, False]"
proof -
  have "tl sample_coefs = [1, 1, 1] @ replicate 60 0" "sample_coefs ! 0 = 1" by (simp_all add: sample_coefs_def)
  moreover have "bits_of 1 1 = [True]" by (simp add: bits_of_def)
  ultimately show ?thesis
    using ac_bits_zeros [of sample_codes 0 60 "[]"]
    by (simp add: place_bits_def sample_scan_block sample_header_fields sample_diff block_bits_def coef_bits_def bit_len_1 sample_code_bits
        literal_def)
qed

lemma sample_scan_code:
  "scan_code sample_header 0xFF sample_images (0, 0, 0) (replicate 4 0) [] [0x6D, 0xB3]"
proof -
  have "place_status sample_header (0, 0, 0) = ScanCompleted"
    by (simp add: place_status_cases(1) sample_header_fields sample_component_def)
  moreover have "bytes_bits [0x6D, 0xB3] = ([] @ place_bits sample_header sample_images (replicate 4 0) (0, 0, 0)) @
      pad_bits 0xFF (length ([] @ place_bits sample_header sample_images (replicate 4 0) (0, 0, 0)))"
    by (simp add: sample_bits pad_bits_def byte_bits_def bits_of_def) (simp add: upt_rec)
  ultimately have "scan_code sample_header 0xFF sample_images (0, 0, 0) (replicate 4 0) [] (stuff [0x6D, 0xB3])"
    by (intro scan_code.scan_end sample_codable) auto
  then show ?thesis by simp
qed

definition sample_input :: "bytes \<Rightarrow> u64 \<Rightarrow> BufRead" where
  "sample_input bs p = \<lparr>position = p, unread = bs, buffered = 0, refill = (\<lambda>_. 0)\<rparr>"

text \<open>The scan is read, with any fuel from some number on.\<close>

lemma sample_block_ok: "\<forall>q. valid_place sample_header q \<longrightarrow> block_ok (scan_block sample_header sample_images q)"
  by (simp add: sample_place sample_scan_block del: split_paired_All)

lemma sample_images_whole:
  "whole_images sample_header [empty_image]" "images_room sample_header [empty_image]"
  by (simp_all add: whole_images_def images_room_def sample_header_fields sample_component_def empty_image_def)

lemma sample_scan_read:
  assumes "pad_bit rinfo = None" "whole_images sample_header images" "images_room sample_header images" "unread i = [0x6D, 0xB3, 0xFF, 0xD9]"
  shows "\<exists>N f. (\<forall>n \<ge> N. read_first_scan n 82 sample_header i parts images rinfo = Some (Ok f))
    \<and> unread (inner (bit_reader f)) = [0xFF, 0xD9] \<and> whole_images sample_header (scan_images f)
    \<and> scan_block sample_header (scan_images f) (0, 0, 0) = zigzag_to_transposed sample_coefs"
proof -
  have "scan_end [0xFF, 0xD9]" "unread i = [0x6D, 0xB3] @ [0xFF, 0xD9]" using assms(4) by (simp_all add: scan_end_def)
  with scan_restored [OF sample_header_ok sample_regular sample_verified sample_prefix_free _ assms(2,3) sample_scan_code _ sample_block_ok,
      of 82 rinfo i "[0xFF, 0xD9]" parts] assms(1)
  show ?thesis by (simp add: sample_place sample_scan_block del: split_paired_All)
qed

definition sample_info :: ReconstructionInfo where
  "sample_info = ReconstructionInfo_default\<lparr>pad_bit := Some 0xFF, truncate_components := TruncateComponents_default
     \<lparr>components_count := 1, trunc_info := [\<lparr>trunc_bcv = 1, trunc_bc = 1\<rparr>]\<rparr>\<rparr>"

lemma sample_info_whole: "whole_scan sample_header sample_info"
  by (simp add: whole_scan_def all_markers_def sample_info_def get_max_coded_heights_def sample_header_fields)
     (simp add: sample_header_def sample_component_def ReconstructionInfo_default_def take_update_swap numeral_eq_Suc)

section \<open>The file is read\<close>

text \<open>The first block of a scan starts a partition.\<close>

definition has_partition :: "ScanState \<Rightarrow> bool" where
  "has_partition s \<longleftrightarrow> do_handoff s \<or> partitions s \<noteq> []"

lemma baseline_loop_partitions:
  "baseline_loop n k jf dc s = Some (Ok (sta, s')) \<Longrightarrow> has_partition s \<Longrightarrow> partitions s' \<noteq> []"
proof (induction n arbitrary: dc s)
  case (Suc n)
  from Suc.prems(1) obtain sta1 dc1 s1 where b: "baseline_block k jf dc s = Some (Ok ((sta1, dc1), s1))"
    "(if sta1 = DecodeInProgress then baseline_loop n k jf dc1 s1 else Some (Ok (sta1, s1))) = Some (Ok (sta, s'))"
    by (auto simp: bindF_eq_Inr)
  have "partitions (baseline_handoff jf dc s) \<noteq> []"
    using Suc.prems(2) by (auto simp: has_partition_def baseline_handoff_def Let_def split: prod.splits)
  then have p: "partitions s1 \<noteq> []" using baseline_block_partitions [OF b(1)] by simp
  then show ?case using b(2) Suc.IH [of dc1 s1] by (auto simp: has_partition_def split: if_splits)
qed simp

lemma first_scan_partitions:
  assumes seq: "jpeg_type jf = Sequential"
  shows "first_scan_loop j n k jf s = Some (Ok s') \<Longrightarrow> has_partition s \<Longrightarrow> partitions s' \<noteq> []"
proof (induction j arbitrary: s)
  case (Suc j)
  let ?s = "s\<lparr>scan_position := reset_rstw jf (scan_position s)\<rparr>"
  from Suc.prems obtain sta s1 s2 where dec: "decode_baseline_rst n k jf ?s = Some (Ok (sta, s1))"
    and fin: "finish_interval sta s1 = Ok s2"
    and rest: "(if sta = ScanCompleted then Some (Ok s2) else first_scan_loop j n k jf s2) = Some (Ok s')"
    by (auto simp: bindF_eq_Inr first_scan_interval_def seq)
  from dec obtain dc where "baseline_loop n k jf dc ?s = Some (Ok (sta, s1))" by (auto simp: decode_baseline_rst_def bindF_eq_Inr)
  from baseline_loop_partitions [OF this] Suc.prems(2) have "partitions s2 \<noteq> []"
    using partitions_kept(3) [OF fin] by (simp add: has_partition_def)
  then show ?case using rest Suc.IH [of s2] by (auto simp: has_partition_def split: if_splits)
qed simp

definition sample_file :: bytes where
  "sample_file = [0xFF, SOI] @ sample_header_bytes @ [0x6D, 0xB3] @ [0xFF, 0xD9]"

lemma sample_file_reads:
  "\<exists>N images parts rinfo i'. (\<forall>n \<ge> N. read_jpeg_file n 82 (\<lambda>_. True) sample_features (\<lambda>jf hd u. u) sample_file
      JpegHeader_default ReconstructionInfo_default (sample_input sample_file 0) ()
    = Some (Ok (images, parts, of_nat (length sample_file - 2), sample_header, rinfo, (), i')))
    \<and> raw_jpeg_header rinfo = sample_header_bytes \<and> scan_block sample_header images (0, 0, 0) = zigzag_to_transposed sample_coefs"
proof -
  let ?i1 = "sample_input (sample_header_bytes @ [0x6D, 0xB3, 0xFF, 0xD9]) 2"
  let ?i2 = "sample_input [0x6D, 0xB3, 0xFF, 0xD9] (2 + of_nat (length sample_header_bytes))"
  have start: "take 2 (unread (sample_input sample_file 0)) = [0xFF, SOI]" "consume 2 (sample_input sample_file 0) = ?i1"
    by (simp_all add: sample_input_def sample_file_def consume_def)
  have "parse_jpeg_header sample_features JpegHeader_default ReconstructionInfo_default (unread ?i1)
    = Ok (True, sample_header, ReconstructionInfo_default\<lparr>raw_jpeg_header := sample_header_bytes\<rparr>, [0x6D, 0xB3, 0xFF, 0xD9])"
    by (simp add: parse_jpeg_header_def sample_input_def parse_sample) (simp add: ReconstructionInfo_default_def)
  then obtain ri where prep: "prepare_to_decode_next_scan sample_features JpegHeader_default ReconstructionInfo_default ?i1 = Ok (True, sample_header, ri, ?i2)"
    "raw_jpeg_header ri = sample_header_bytes" "pad_bit ri = None" "\<not> early_eof_encountered ri"
    by (simp add: prepare_to_decode_next_scan_def Let_def) (simp add: sample_input_def consume_def ReconstructionInfo_default_def)
  obtain t where t: "TruncateComponents_init (mcuh sample_header) (mcuv sample_header) (cmp_info sample_header) (cmpc sample_header) (truncate_components ri) = Ok t"
    by (simp add: TruncateComponents_init_def sample_header_fields) (simp add: sample_header_def JpegHeader_default_def)
  have images: "new_images (\<lambda>_. True) (cmp_info sample_header) [0..<cmpc sample_header] 0 (bcv (cmp_info sample_header ! 0)) = Ok [empty_image]"
    by (simp add: sample_header_fields BlockBasedImage_new_def idx_in_range sample_component_def empty_image_def)
       (simp add: sample_header_def JpegHeader_default_def)
  define ri1 where "ri1 = ri\<lparr>truncate_components := t\<rparr>"
  have ri1: "pad_bit ri1 = None" "raw_jpeg_header ri1 = sample_header_bytes" "\<not> early_eof_encountered ri1" using prep by (simp_all add: ri1_def)
  have unread: "unread ?i2 = [0x6D, 0xB3, 0xFF, 0xD9]" by (simp add: sample_input_def)
  from sample_scan_read [OF ri1(1) sample_images_whole unread] obtain N f where
    reads: "\<And>n. N \<le> n \<Longrightarrow> read_first_scan n 82 sample_header ?i2 [] [empty_image] ri1 = Some (Ok f)"
    and left_over: "unread (inner (bit_reader f)) = [0xFF, 0xD9]"
    and block: "scan_block sample_header (scan_images f) (0, 0, 0) = zigzag_to_transposed sample_coefs" by blast
  note f = reads [OF order_refl] left_over
  have "eoi_ahead (unread ?i2)" unfolding eoi_ahead_def unread by (intro exI [of _ "[0x6D, 0xB3]"] exI [of _ "[]"]) simp
  moreover have "pad_ok (pad_bit ri1)" using ri1(1) by (simp add: pad_ok_def)
  ultimately obtain out where out: "unread ?i2 = out @ unread (inner (bit_reader f))"
    "position (inner (bit_reader f)) = position ?i2 + of_nat (length out)" "same_info ri1 (reconstruct_info f)"
    using first_scan_code [OF sample_header_ok sample_regular sample_no_short _ sample_images_whole(1) _ _ f(1)] by auto
  have "out = [0x6D, 0xB3]" using out(1) f(2) unread by (simp add: append_eq_Cons_conv)
  then have pos: "position (inner (bit_reader f)) = of_nat (length sample_file - 2)" "unat (position ?i2) = 144" "unat (position (inner (bit_reader f))) = 146"
    using out(2) by (simp_all add: sample_input_def sample_file_def sample_header_bytes_def sample_segment_def)
  have "kept_header f = sample_header_bytes"
    using kept_header_scan [OF sample_header_fields(9), of N N 82] f(1) ri1(2) by (auto simp: read_first_scan_def)
  moreover have "\<not> early_eof_encountered (reconstruct_info f)" using same_infoD(4) [OF out(3)] ri1(3) by simp
  moreover have parts: "partitions f \<noteq> []"
    using first_scan_partitions [OF sample_header_fields(9), of N N 82] f(1) by (auto simp: read_first_scan_def has_partition_def)
  ultimately obtain rinfo i' where fin: "finish_baseline sample_features sample_file sample_header (partitions f) (reconstruct_info f)
      (inner (bit_reader f)) = Ok (rinfo, of_nat (length sample_file - 2), i')" "raw_jpeg_header rinfo = sample_header_bytes"
    using pos by (simp add: finish_baseline_def Let_def) (simp add: sample_features_def compat_lepton_vector_write_def)
  have "read_scans n 82 (\<lambda>_. True) sample_features (\<lambda>jf hd u. u) sample_file sample_header ri ?i2 ()
      = Some (Ok (scan_images f, partitions f, of_nat (length sample_file - 2), sample_header, rinfo, (), i'))" if "N \<le> n" for n
    using t images reads [OF that] fin pos(2,3) parts by (simp add: read_scans_def ri1_def Let_def sample_header_fields(9))
  then have "read_jpeg_file n 82 (\<lambda>_. True) sample_features (\<lambda>jf hd u. u) sample_file JpegHeader_default ReconstructionInfo_default
      (sample_input sample_file 0) () = Some (Ok (scan_images f, partitions f, of_nat (length sample_file - 2), sample_header, rinfo, (), i'))"
    if "N \<le> n" for n
    using prep(1) start that by (simp add: read_jpeg_file_def Let_def COLOR_CHANNEL_NUM_BLOCK_TYPES_def sample_header_fields numeral_2_eq_2)
  then show ?thesis using fin(2) block by blast
qed

lemma sample_file_read:
  "\<exists>n images parts rinfo u i'. read_jpeg_file n 82 (\<lambda>_. True) sample_features (\<lambda>jf hd u. u) sample_file
      JpegHeader_default ReconstructionInfo_default (sample_input sample_file 0) ()
    = Some (Ok (images, parts, of_nat (length sample_file - 2), sample_header, rinfo, u, i'))
    \<and> raw_jpeg_header rinfo = sample_header_bytes"
  using sample_file_reads by blast

end
