(* ===== verification/Scan_Ends.thy ===== *)
theory Scan_Ends
  imports Scan_Restored
begin

unbundle bit_operations_syntax

text \<open>
  The decoder of a baseline scan ends on every input: the walk through a Huffman tree, the blocks and the intervals
  of a scan need a fuel that depends on the header only. So its result is never \<open>None\<close>.
\<close>

section \<open>One block\<close>

definition deeper :: "nat \<Rightarrow> (nat \<Rightarrow> bool list) \<Rightarrow> nat \<Rightarrow> nat set" where
  "deeper nf pth v = {u. u < nf \<and> length (pth v) \<le> length (pth u)}"

lemma finite_deeper [simp]: "finite (deeper nf pth v)"
  by (simp add: deeper_def)

lemma huff_walk_ends:
  assumes tree: "tree_inv 0xFFFF hc (node tree) nf pth"
  shows "unat v < nf \<Longrightarrow> card (deeper nf pth (unat v)) < n \<Longrightarrow> huff_walk n tree v r \<noteq> None"
proof (induction n arbitrary: v r)
  case (Suc n)
  have nf: "nf \<le> 256" using tree by (simp add: tree_inv_def)
  have pos: "0 < n"
  proof -
    have "unat v \<in> deeper nf pth (unat v)" using Suc.prems(1) by (simp add: deeper_def)
    then have "0 < card (deeper nf pth (unat v))" by (auto simp: card_gt_0_iff)
    then show ?thesis using Suc.prems(2) by simp
  qed
  have "huff_walk n tree (child (node tree) (unat v) b) r1 \<noteq> None" for b r1
  proof -
    let ?c = "child (node tree) (unat v) b"
    consider "256 \<le> unat ?c" | "unat ?c < nf" "pth (unat ?c) = pth (unat v) @ [b]"
      using tree_invD [OF tree Suc.prems(1), of b] by force
    then show ?thesis
    proof cases
      case 1
      then show ?thesis using pos by (cases n) (simp_all add: word_less_nat_alt)
    next
      case 2
      then have "deeper nf pth (unat ?c) \<subseteq> deeper nf pth (unat v) - {unat v}" by (auto simp: deeper_def)
      then have "card (deeper nf pth (unat ?c)) \<le> card (deeper nf pth (unat v) - {unat v})" by (intro card_mono) simp_all
      also have "\<dots> < card (deeper nf pth (unat v))" using Suc.prems(1) by (intro psubset_card_mono) (auto simp: deeper_def)
      finally show ?thesis using Suc.prems(2) by (intro Suc.IH [OF 2(1)]) simp
    qed
  qed
  then show ?case by (auto simp: bindF_def split: option.splits sum.splits prod.splits)
qed simp

lemma next_huff_code_ends:
  assumes "tree_for hc tree" "256 < n"
  shows "next_huff_code n tree r \<noteq> None"
proof -
  from assms(1) obtain nf pth where tree: "tree_inv 0xFFFF hc (node tree) nf pth" by (auto simp: tree_for_def tree_ok_def)
  have nf: "0 < nf" "nf \<le> 256" using tree by (simp_all add: tree_inv_def)
  have "card (deeper nf pth 0) \<le> card {..<nf}" by (intro card_mono) (auto simp: deeper_def)
  then have "card (deeper nf pth (unat (0 :: u16))) < n" using nf assms(2) by simp
  with huff_walk_ends [OF tree, of 0 n r] nf(1) have "huff_walk n tree 0 r \<noteq> None" by simp
  then show ?thesis by (auto simp: next_huff_code_def bindF_def split: option.splits sum.splits)
qed

lemma slow_loop_enough: "slow_loop n b r = Ok r' \<Longrightarrow> b \<le> bits_left r'"
  by (induction n arbitrary: r) (auto split: if_splits)

lemma fill_enough:
  assumes "reader_fill_register 8 r = Ok r'" "bits_left r < 8"
  shows "8 \<le> bits_left r'"
proof -
  have l: "unat (bits_left r) < 8" using assms(2) by (simp add: word_less_nat_alt)
  then have "unat (63 - bits_left r) = 63 - unat (bits_left r)" by (simp add: unat_sub word_le_nat_alt)
  moreover have "(63 - unat (bits_left r)) div 8 = 7"
  proof -
    have "list_all (\<lambda>l. (63 - l) div 8 = (7 :: nat)) [0..<8]" by code_simp
    then show ?thesis using l unfolding list_all_iff by simp
  qed
  ultimately have "(63 - bits_left r) div 8 = 7" by (simp add: word_unat_eq_iff unat_div)
  then have "unat (bits_left r + (63 - bits_left r) div 8 * 8) = unat (bits_left r) + 56" using l by (simp add: unat_word_ariths)
  then have "8 \<le> bits_left r + (63 - bits_left r) div 8 * 8" by (simp add: word_le_nat_alt)
  then show ?thesis using assms(1) slow_loop_enough
    by (auto simp: reader_fill_register_def fill_register_slow_def Let_def split: prod.splits if_splits)
qed

lemma coef_code_filled:
  assumes "tree_for hc tree" "257 < n" "8 \<le> bits_left r"
  shows "coef_code n tree r \<noteq> None"
proof (cases n)
  case (Suc m)
  have "snd (peek r) = bits_left r" by (simp add: peek_def)
  then have "\<not> snd (peek r) < 8" using assms(3) by (simp add: not_less)
  then show ?thesis using next_huff_code_ends [OF assms(1), of m r] assms(2) Suc
    by (auto simp: Let_def split: prod.splits)
qed (use assms in simp)

lemma coef_code_ends:
  assumes "tree_for hc tree" "258 < n"
  shows "coef_code n tree r \<noteq> None"
proof (cases n)
  case (Suc m)
  have "bindF (Some (reader_fill_register 8 r)) (coef_code m tree) \<noteq> None" if "bits_left r < 8"
    using coef_code_filled [OF assms(1), of m] fill_enough that assms(2) Suc
    by (auto simp: bindF_def split: sum.splits)
  moreover have "snd (peek r) = bits_left r" by (simp add: peek_def)
  ultimately show ?thesis using next_huff_code_ends [OF assms(1), of m r] assms(2) Suc
    by (auto simp: Let_def split: prod.splits)
qed (use assms in simp)

lemma read_coef_ends: "tree_for hc tree \<Longrightarrow> 258 < n \<Longrightarrow> read_coef_huff n tree r \<noteq> None"
  using coef_code_ends [of hc tree n r]
  by (auto simp: read_coef_huff_def bindF_def Let_def split: option.splits sum.splits prod.splits)

lemma ac_loop_ends: "tree_for hc tree \<Longrightarrow> 259 + (64 - bpos) < n \<Longrightarrow> ac_loop n tree bpos block r \<noteq> None"
proof (induction n arbitrary: bpos block r)
  case (Suc n)
  show ?case
  proof (cases "bpos < 64")
    case True
    have later: "ac_loop n tree (bpos + z + 1) block' r' \<noteq> None" for z block' r'
      using Suc.prems True by (intro Suc.IH) auto
    have "258 < n" using Suc.prems(2) True by simp
    then have "read_coef_huff n tree r \<noteq> None" by (rule read_coef_ends [OF Suc.prems(1)])
    then show ?thesis using True later by (auto simp: bindF_eq_None split: option.splits)
  qed simp
qed simp

lemma decode_block_ends:
  assumes "tree_for dctbl dctree" "tree_for actbl actree" "322 < n"
  shows "decode_block_seq n dctree actree block r \<noteq> None"
proof -
  have "read_dc_huff n dctree r \<noteq> None"
    using read_coef_ends [OF assms(1), of n r] assms(3)
    by (auto simp: read_dc_huff_def bindF_def split: option.splits sum.splits prod.splits)
  moreover have "ac_loop n actree 1 b r1 \<noteq> None" for b r1 using assms(3) by (intro ac_loop_ends [OF assms(2)]) simp
  ultimately show ?thesis
    unfolding decode_block_seq_def by (auto simp: bindF_eq_None simp del: not_None_eq)
qed

section \<open>The scan\<close>

text \<open>The places from \<open>p\<close> on; a block leaves one less.\<close>

definition places_from :: "JpegHeader \<Rightarrow> place \<Rightarrow> place set" where
  "places_from jf p = {q. valid_place jf q \<and> \<not> before q p}"

definition scan_places :: "JpegHeader \<Rightarrow> nat" where
  "scan_places jf = card (places_from jf (0, 0, 0))"

lemma finite_places: "finite {q. valid_place jf q}"
proof -
  let ?S = "SIGMA m : {..<unat (mcuc jf)}. SIGMA c : {..<cs_cmpc jf}. {..<unat (mbs (cmp_info jf ! (cs_cmp jf ! c)))}"
  have "{q. valid_place jf q} \<subseteq> ?S" by (auto simp: valid_place_def)
  then show ?thesis by (rule finite_subset) (intro finite_SigmaI, simp_all)
qed

lemma finite_places_from [simp]: "finite (places_from jf p)"
  by (rule finite_subset [OF _ finite_places]) (auto simp: places_from_def)

lemma places_less: "valid_place jf p \<Longrightarrow> before p q \<Longrightarrow> card (places_from jf q) < card (places_from jf p)"
proof (rule psubset_card_mono)
  assume p: "valid_place jf p" "before p q"
  then have "p \<in> places_from jf p" "p \<notin> places_from jf q" using not_before_self by (auto simp: places_from_def)
  moreover have "places_from jf q \<subseteq> places_from jf p" 
    using before_trans [of _ p q] p(2) by (auto simp: places_from_def simp del: split_paired_All)
  ultimately show "places_from jf q \<subset> places_from jf p" by auto
qed simp

lemma places_from_start: "card (places_from jf p) \<le> scan_places jf"
proof -
  have "\<not> before q (0, 0, 0)" for q by (cases q) simp
  then have "places_from jf p \<subseteq> places_from jf (0, 0, 0)" by (auto simp: places_from_def)
  then show ?thesis unfolding scan_places_def by (rule card_mono [OF finite_places_from])
qed

definition scan_tree_pairs :: "JpegHeader \<Rightarrow> bool" where
  "scan_tree_pairs jf \<longleftrightarrow> (\<forall>c < cs_cmpc jf. let i = cs_cmp jf ! c
    in tree_for (get_huff_dc_codes jf i) (get_huff_dc_tree jf i) \<and> tree_for (get_huff_ac_codes jf i) (get_huff_ac_tree jf i))"

lemma handoff_position [simp]: "scan_position (baseline_handoff jf dc s) = scan_position s"
  by (simp add: baseline_handoff_def split: prod.splits)

lemma baseline_block_step:
  assumes "baseline_block k jf dc s = Some (Ok ((sta, dc'), s'))"
  shows "(sta = ScanCompleted \<or> sta = fst (next_mcu_pos jf (scan_position s))) \<and> scan_position s' = snd (next_mcu_pos jf (scan_position s))"
proof -
  let ?s = "record_max_dpos (baseline_handoff jf dc s)"
  obtain r im d where "(let (sta, s) = next_with_handoff jf (?s\<lparr>bit_reader := r, scan_images := im\<rparr>)
      in Some (Ok (if is_eof r
         then ((ScanCompleted, d), s\<lparr>reconstruct_info := (reconstruct_info s)\<lparr>early_eof_encountered := True\<rparr>\<rparr>)
         else ((sta, d), s)))) = Some (Ok ((sta, dc'), s'))"
    using assms by (auto simp: baseline_block_def Let_def bindF_eq_Inr split: if_splits)
  moreover note next_with_handoff_simps(1,2) [of jf "?s\<lparr>bit_reader := r, scan_images := im\<rparr>"]
  ultimately show ?thesis by (auto split: prod.splits if_splits)
qed

lemma baseline_block_ends:
  assumes trees: "scan_tree_pairs jf" and k: "322 < k" and p: "at_place jf (scan_position s) p"
  shows "baseline_block k jf dc s \<noteq> None"
proof -
  note A = at_placeD [OF p]
  have "tree_for (get_huff_dc_codes jf (place_component jf p)) (get_huff_dc_tree jf (place_component jf p))"
    "tree_for (get_huff_ac_codes jf (place_component jf p)) (get_huff_ac_tree jf (place_component jf p))"
    using trees A(1) by (auto simp: scan_tree_pairs_def valid_place_def place_component_def Let_def)
  from decode_block_ends [OF this k] A(3) show ?thesis
    by (auto simp: baseline_block_def Let_def bindF_eq_None split: prod.splits if_splits simp del: not_None_eq)
qed

text \<open>An interval ends at the end of the scan or in front of a block behind the one it started with.\<close>

definition interval_ends :: "JpegHeader \<Rightarrow> place \<Rightarrow> JpegDecodeStatus \<Rightarrow> ScanState \<Rightarrow> bool" where
  "interval_ends jf p sta s \<longleftrightarrow> sta = ScanCompleted
    \<or> (\<exists>q. at_place jf (scan_position s) q \<and> rst_synced jf (reset_rstw jf (scan_position s)) \<and> card (places_from jf q) < card (places_from jf p))"

lemma baseline_loop_ends:
  assumes ok: "header_ok a jf" "regular_scan jf" and trees: "scan_tree_pairs jf" and k: "322 < k"
  shows "at_place jf (scan_position s) p \<Longrightarrow> rst_synced jf (scan_position s) \<Longrightarrow> card (places_from jf p) < n \<Longrightarrow>
    baseline_loop n k jf dc s \<noteq> None \<and> (\<forall>sta s'. baseline_loop n k jf dc s = Some (Ok (sta, s')) \<longrightarrow> interval_ends jf p sta s')"
proof (induction n arbitrary: dc s p)
  case (Suc n)
  let ?q = "block_after jf p"
  note valid = at_placeD(1) [OF Suc.prems(1)]
  have less: "card (places_from jf ?q) < card (places_from jf p)" by (rule places_less [OF valid before_after])
  have block: "baseline_block k jf dc s \<noteq> None" by (rule baseline_block_ends [OF trees k Suc.prems(1)])
  from next_place [OF ok Suc.prems(1,2)] obtain st where st: "next_mcu_pos jf (scan_position s) = (place_status jf p, st)"
    "fst ?q < unat (mcuc jf) \<longrightarrow> at_place jf st ?q" "place_status jf p = DecodeInProgress \<longrightarrow> rst_synced jf st"
    "place_status jf p = RestartIntervalExpired \<longrightarrow> rst_synced jf (reset_rstw jf st)" by blast
  have rest: "(if sta = DecodeInProgress then baseline_loop n k jf dc' s' else Some (Ok (sta, s'))) \<noteq> None
      \<and> (\<forall>sta' s''. (if sta = DecodeInProgress then baseline_loop n k jf dc' s' else Some (Ok (sta, s'))) = Some (Ok (sta', s''))
          \<longrightarrow> interval_ends jf p sta' s'')"
    if run: "baseline_block k jf dc s = Some (Ok ((sta, dc'), s'))" for sta dc' s'
  proof -
    note B = baseline_block_step [OF run]
    then have pos: "scan_position s' = st" using st(1) by simp
    show ?thesis
    proof (cases sta)
      case DecodeInProgress
      then have "place_status jf p = DecodeInProgress" using B st(1) by simp
      then have "at_place jf (scan_position s') ?q" "rst_synced jf (scan_position s')"
        using st pos place_status_cases(1) [of jf p] by auto
      from Suc.IH [OF this] less Suc.prems(3) DecodeInProgress show ?thesis by (fastforce simp: interval_ends_def)
    next
      case RestartIntervalExpired
      then have "place_status jf p = RestartIntervalExpired" using B st(1) by simp
      then have "at_place jf (scan_position s') ?q" "rst_synced jf (reset_rstw jf (scan_position s'))"
        using st pos place_status_cases(2) [of jf p] by auto
      then have "interval_ends jf p sta s'" using less unfolding interval_ends_def by blast
      then show ?thesis using RestartIntervalExpired by simp
    next
      case ScanCompleted
      then show ?thesis by (simp add: interval_ends_def)
    qed
  qed
  show ?case
  proof (cases "baseline_block k jf dc s")
    case (Some x)
    then show ?thesis using rest by (cases x) auto
  qed (use block in simp)
qed simp

lemma finish_interval_position: "finish_interval sta s = Ok s' \<Longrightarrow> scan_position s' = scan_position s"
  by (auto simp: finish_interval_def bindR_eq_Inr Let_def split: prod.splits if_splits)

lemma first_scan_loop_ends:
  assumes ok: "header_ok a jf" "regular_scan jf" and trees: "scan_tree_pairs jf" and k: "322 < k" and n: "scan_places jf < n"
  shows "at_place jf (scan_position s) p \<Longrightarrow> rst_synced jf (reset_rstw jf (scan_position s)) \<Longrightarrow>
    card (places_from jf p) < i \<Longrightarrow> first_scan_loop i n k jf s \<noteq> None"
proof (induction i arbitrary: s p)
  case (Suc i)
  define s0 where "s0 = s\<lparr>scan_position := reset_rstw jf (scan_position s)\<rparr>"
  have seq: "jpeg_type jf = Sequential" using ok(2) by (simp add: regular_scan_def)
  have "at_place jf (scan_position s0) p" using Suc.prems(1) by (simp add: s0_def at_place_def split: prod.splits)
  moreover have "rst_synced jf (scan_position s0)" using Suc.prems(2) by (simp add: s0_def)
  moreover have "card (places_from jf p) < n" using places_from_start n le_less_trans by blast
  ultimately have loop: "baseline_loop n k jf (replicate 4 0) s0 \<noteq> None"
    "baseline_loop n k jf (replicate 4 0) s0 = Some (Ok (sta, s1)) \<Longrightarrow> interval_ends jf p sta s1" for sta s1
    using baseline_loop_ends [OF ok trees k] by blast+
  have interval: "first_scan_interval n k jf s = bindF (decode_baseline_rst n k jf s0)
      (\<lambda>(sta, s). bindF (Some (finish_interval sta s)) (\<lambda>s. Some (Ok (sta, s))))"
    by (simp add: first_scan_interval_def seq s0_def)
  have "decode_baseline_rst n k jf s0 \<noteq> None" using loop(1) by (auto simp: decode_baseline_rst_def bindF_eq_None)
  then have "first_scan_interval n k jf s \<noteq> None" unfolding interval by (auto simp: bindF_eq_None split: prod.splits)
  moreover have "(if sta = ScanCompleted then Some (Ok s2) else first_scan_loop i n k jf s2) \<noteq> None"
    if run: "first_scan_interval n k jf s = Some (Ok (sta, s2))" for sta s2
  proof (cases "sta = ScanCompleted")
    case False
    from run obtain s1 where dec: "decode_baseline_rst n k jf s0 = Some (Ok (sta, s1))" and fin: "finish_interval sta s1 = Ok s2"
      unfolding interval by (auto simp: bindF_eq_Inr)
    from dec have "baseline_loop n k jf (replicate 4 0) s0 = Some (Ok (sta, s1))"
      by (auto simp: decode_baseline_rst_def bindF_eq_Inr)
    from loop(2) [OF this] False obtain q where "at_place jf (scan_position s2) q"
      "rst_synced jf (reset_rstw jf (scan_position s2))" "card (places_from jf q) < card (places_from jf p)"
      unfolding interval_ends_def finish_interval_position [OF fin] by blast
    then show ?thesis using Suc.IH Suc.prems(3) False by simp
  qed simp
  ultimately show ?case by (auto simp: bindF_eq_None simp del: not_None_eq)
qed simp

lemma verified_tree_pairs:
  assumes ok: "header_ok False jf" and v: "verify_huffman_table True True jf = Ok ()"
  shows "scan_tree_pairs jf"
  using scan_component_tables [OF ok v] tree_for_construct by (auto simp: scan_tree_pairs_def codes_ok_def Let_def)

text \<open>The first interval checks the tables, so a scan without them ends at once.\<close>

lemma read_first_scan_ends:
  assumes ok: "header_ok False jf" "regular_scan jf" and k: "322 < k" and n: "scan_places jf < n"
  shows "read_first_scan n k jf i parts images rinfo \<noteq> None"
proof (cases "verify_huffman_table True True jf")
  case (Inl e)
  have "jpeg_type jf = Sequential" using ok(2) by (simp add: regular_scan_def)
  moreover obtain m where "n = Suc m" using n Suc_le_D by (cases n) auto
  ultimately show ?thesis
    by (simp add: read_first_scan_def first_scan_interval_def decode_baseline_rst_def bindF_def Inl)
next
  case (Inr u)
  then have trees: "scan_tree_pairs jf" using verified_tree_pairs ok(1) by simp
  have "0 < unat (mcuc jf)" using ok(1) by (simp add: header_ok_def geometry_ok_def word_less_nat_alt)
  with at_block_new [OF ok(1), of 0] have at: "at_place jf (JpegPositionState_new jf 0) (0, 0, 0)" by (simp add: at_place_def)
  have rst: "rst_synced jf (reset_rstw jf (JpegPositionState_new jf 0))"
    by (simp add: rst_synced_def reset_rstw_def JpegPositionState_new_def Let_def)
  have "card (places_from jf (0, 0, 0)) < n" using n by (simp add: scan_places_def)
  with first_scan_loop_ends [OF ok trees k n] at rst show ?thesis by (simp add: read_first_scan_def)
qed

end
