(* ===== verification/Jpeg_Properties.thy ===== *)
theory Jpeg_Properties
  imports Sample_Scan Scan_Ends
begin

unbundle bit_operations_syntax

text \<open>
  The properties of the JPEG layer: files, scans, blocks, tables, positions and bit streams, each with a witness at
  the sample file of \<open>Sample_Scan\<close>.
\<close>

section \<open>Files\<close>

text \<open>C1: A baseline file that has been read is the start marker, the header that is kept, the scan that
  \<open>jpeg_write_entire_scan\<close> writes from the stored blocks and what is kept behind the scan, byte by byte; and the end of
  the scan is where \<open>read_jpeg_file\<close> says it is. The file has an end marker behind its header, the scan covers the MCUs
  of the frame, and its tables have no codes for short runs without a coefficient.\<close>

theorem baseline_file_lossless:
  assumes "simd16_laws V"
    and "read_jpeg_file n k alloc features callback file JpegHeader_default ReconstructionInfo_default i u
      = Some (Ok (images, parts, end_scan, jf, rinfo, u', i'))"
    and "unread i = file" "\<not> accept_invalid_dht features" "81 < k" "regular_scan jf" "no_short_run_codes jf"
    and "eoi_ahead (drop (2 + length (raw_jpeg_header rinfo)) file)"
  shows "\<exists>scan rest N. file = [0xFF, SOI] @ raw_jpeg_header rinfo @ scan @ garbage_data rinfo @ rest
    \<and> (\<not> stop_reading_at_eoi features \<longrightarrow> rest = [])
    \<and> end_scan = position i + of_nat (2 + length (raw_jpeg_header rinfo) + length scan)
    \<and> unread i' = rest \<and> position i' = position i + of_nat (length file - length rest)
    \<and> (\<forall>a \<ge> N. \<forall>b \<ge> N. jpeg_write_entire_scan a b V galloc images jf rinfo 0 = Some (Ok scan))"
  by (rule simd16_laws.baseline_file [OF assms])

theorem baseline_file_lossless_witness:
  "\<exists>n images parts end_scan rinfo u i' scan rest N.
    read_jpeg_file n 82 (\<lambda>_. True) sample_features (\<lambda>jf hd u. u) sample_file
      JpegHeader_default ReconstructionInfo_default (sample_input sample_file 0) ()
      = Some (Ok (images, parts, end_scan, sample_header, rinfo, u, i'))
    \<and> sample_file = [0xFF, SOI] @ raw_jpeg_header rinfo @ scan @ garbage_data rinfo @ rest
    \<and> jpeg_write_entire_scan N N lane_ops16 (\<lambda>a b. a) images sample_header rinfo 0 = Some (Ok scan)"
proof -
  from sample_file_read obtain n images parts rinfo u i' where
    read: "read_jpeg_file n 82 (\<lambda>_. True) sample_features (\<lambda>jf hd u. u) sample_file
      JpegHeader_default ReconstructionInfo_default (sample_input sample_file 0) ()
      = Some (Ok (images, parts, of_nat (length sample_file - 2), sample_header, rinfo, u, i'))"
    and raw: "raw_jpeg_header rinfo = sample_header_bytes" by blast
  have "drop (2 + length (raw_jpeg_header rinfo)) sample_file = [0x6D, 0xB3, 0xFF, 0xD9]" by (simp add: raw sample_file_def)
  then have "eoi_ahead (drop (2 + length (raw_jpeg_header rinfo)) sample_file)"
    unfolding eoi_ahead_def by (intro exI [of _ "[0x6D, 0xB3]"] exI [of _ "[]"]) simp
  moreover have "\<not> accept_invalid_dht sample_features" "unread (sample_input sample_file 0) = sample_file"
    by (simp_all add: sample_features_def compat_lepton_vector_write_def sample_input_def)
  ultimately obtain scan rest N where
    "sample_file = [0xFF, SOI] @ raw_jpeg_header rinfo @ scan @ garbage_data rinfo @ rest"
    "\<forall>a \<ge> N. \<forall>b \<ge> N. jpeg_write_entire_scan a b lane_ops16 (\<lambda>a b. a) images sample_header rinfo 0 = Some (Ok scan)"
    using baseline_file_lossless [OF lane_ops16.simd16_laws_axioms read _ _ _ sample_regular sample_no_short, where galloc = "\<lambda>a b. a"]
    by auto
  then show ?thesis using read by blast
qed

section \<open>Scans\<close>

text \<open>C4: What \<open>read_first_scan\<close> has consumed of a baseline scan is exactly the code of the blocks it has stored
  (\<open>scan_code\<close>): the blocks in the order of the scan, the differences of the DCs, the padding and the markers.\<close>

theorem scan_read_is_code:
  assumes "header_ok False jf" "regular_scan jf" "no_short_run_codes jf" "81 < k" "whole_images jf images"
    and "eoi_ahead (unread i)" "pad_ok (pad_bit rinfo)"
    and "read_first_scan n k jf i parts images rinfo = Some (Ok f)"
  shows "\<exists>out. unread i = out @ unread (inner (bit_reader f))
    \<and> position (inner (bit_reader f)) = position i + of_nat (length out)
    \<and> scan_code jf (fill_byte (reconstruct_info f)) (scan_images f) (0, 0, 0) (replicate 4 0) [] out"
  using first_scan_code [OF assms] by blast

theorem scan_read_is_code_witness:
  "\<exists>n f out. read_first_scan n 82 sample_header (sample_input [0x6D, 0xB3, 0xFF, 0xD9] 0) [] [empty_image] ReconstructionInfo_default = Some (Ok f)
    \<and> [0x6D, 0xB3, 0xFF, 0xD9] = out @ unread (inner (bit_reader f))
    \<and> scan_code sample_header (fill_byte (reconstruct_info f)) (scan_images f) (0, 0, 0) (replicate 4 0) [] out"
proof -
  let ?i = "sample_input [0x6D, 0xB3, 0xFF, 0xD9] 0"
  have u: "unread ?i = [0x6D, 0xB3, 0xFF, 0xD9]" by (simp add: sample_input_def)
  have p: "pad_bit ReconstructionInfo_default = None" by (simp add: ReconstructionInfo_default_def)
  from sample_scan_read [OF p sample_images_whole u, of "[]"] obtain n f where
    f: "read_first_scan n 82 sample_header ?i [] [empty_image] ReconstructionInfo_default = Some (Ok f)" by blast
  have "eoi_ahead (unread ?i)" unfolding eoi_ahead_def u by (intro exI [of _ "[0x6D, 0xB3]"] exI [of _ "[]"]) simp
  from scan_read_is_code [OF sample_header_ok sample_regular sample_no_short _ sample_images_whole(1) this _ f] p f
  show ?thesis by (auto simp: pad_ok_def u)
qed

text \<open>C5: \<open>jpeg_write_entire_scan\<close> writes this code from the blocks of whole images, row by row.\<close>

theorem scan_written_is_code:
  assumes "simd16_laws V" "header_ok a jf" "regular_scan jf" "scan_tables_ok jf" "whole_images jf ims" "whole_scan jf rinfo"
    and "scan_code jf (fill_byte rinfo) ims (0, 0, 0) (replicate 4 0) [] out"
  shows "\<exists>N. \<forall>i \<ge> N. \<forall>n \<ge> N. jpeg_write_entire_scan i n V alloc ims jf rinfo scan = Some (Ok out)"
  by (rule simd16_laws.write_scan [OF assms])

theorem scan_written_is_code_witness:
  "\<exists>N. jpeg_write_entire_scan N N lane_ops16 (\<lambda>a b. a) sample_images sample_header sample_info 0 = Some (Ok [0x6D, 0xB3])"
proof -
  have "scan_tables_ok sample_header" by (rule verified_tables [OF sample_header_ok sample_verified sample_no_short])
  moreover have "whole_images sample_header sample_images"
    by (simp add: whole_images_def sample_images_def sample_header_fields sample_component_def empty_image_def)
  moreover have "scan_code sample_header (fill_byte sample_info) sample_images (0, 0, 0) (replicate 4 0) [] [0x6D, 0xB3]"
    using sample_scan_code by (simp add: fill_byte_def sample_info_def)
  ultimately show ?thesis
    using scan_written_is_code [OF lane_ops16.simd16_laws_axioms sample_header_ok sample_regular _ _ sample_info_whole] by blast
qed

text \<open>C6: Conversely, \<open>read_first_scan\<close> reads the code of a scan to its end, with any fuel from some number on, and
  restores the blocks, when the tables have distinct codes and the images have room.\<close>

theorem scan_code_restored:
  assumes "header_ok False jf" "regular_scan jf" "verify_huffman_table True True jf = Ok ()" "scan_prefix_free jf"
    and "81 < k" "whole_images jf images" "images_room jf images"
    and "scan_code jf x ims (0, 0, 0) (replicate 4 0) [] out" "x = 0 \<or> x = 0xFF"
    and "\<forall>q. valid_place jf q \<longrightarrow> block_ok (scan_block jf ims q)"
    and "pad_bit rinfo = None \<or> pad_bit rinfo = Some x" "unread i = out @ rest" "scan_end rest"
  shows "\<exists>N f. (\<forall>n \<ge> N. read_first_scan n k jf i parts images rinfo = Some (Ok f)) \<and> unread (inner (bit_reader f)) = rest
    \<and> whole_images jf (scan_images f) \<and> (\<forall>q. valid_place jf q \<longrightarrow> scan_block jf (scan_images f) q = scan_block jf ims q)"
  by (rule scan_restored [OF assms])

theorem scan_code_restored_witness:
  "\<exists>N f. read_first_scan N 82 sample_header (sample_input [0x6D, 0xB3, 0xFF, 0xD9] 0) [] [empty_image] ReconstructionInfo_default = Some (Ok f)
    \<and> unread (inner (bit_reader f)) = [0xFF, 0xD9]
    \<and> scan_block sample_header (scan_images f) (0, 0, 0) = zigzag_to_transposed sample_coefs"
proof -
  have "scan_end [0xFF, 0xD9]" "unread (sample_input [0x6D, 0xB3, 0xFF, 0xD9] 0) = [0x6D, 0xB3] @ [0xFF, 0xD9]"
    "pad_bit ReconstructionInfo_default = None"
    by (simp_all add: scan_end_def sample_input_def ReconstructionInfo_default_def)
  with scan_code_restored [OF sample_header_ok sample_regular sample_verified sample_prefix_free _ sample_images_whole
      sample_scan_code _ sample_block_ok, of 82 ReconstructionInfo_default "sample_input [0x6D, 0xB3, 0xFF, 0xD9] 0" "[0xFF, 0xD9]" "[]"]
  show ?thesis by (force simp: sample_place sample_scan_block simp del: split_paired_All)
qed

text \<open>C7: Whatever the bytes of the scan, the decoder ends with a result or an error: fuel for one more than the
  blocks of the scan and for 322 steps in a block is enough.\<close>

theorem first_scan_ends:
  assumes "header_ok False jf" "regular_scan jf" "scan_places jf < n" "322 < k"
  shows "read_first_scan n k jf i parts images rinfo \<noteq> None"
  using read_first_scan_ends assms by blast

theorem first_scan_ends_witness: "read_first_scan 2 323 sample_header (sample_input [0x13] 0) [] [empty_image] ReconstructionInfo_default \<noteq> None"
proof -
  have "places_from sample_header (0, 0, 0) \<subseteq> {(0, 0, 0)}" by (auto simp: places_from_def sample_place)
  then have "scan_places sample_header < 2" unfolding scan_places_def
    using card_mono [of "{(0, 0, 0)}" "places_from sample_header (0, 0, 0)"] by simp
  then show ?thesis by (rule first_scan_ends [OF sample_header_ok sample_regular]) simp
qed

section \<open>Blocks\<close>

text \<open>C17: When the decoder accepts a block, with a coefficient in front of its end, it has consumed exactly the bits of
  the block as the standard codes it, and the tables have the codes.\<close>

theorem block_code_read:
  assumes "tree_for dctbl dctree" "tree_for actbl actree" "marker tail" "no_short_runs actbl" "81 < n" "rd p xs tail k 0 r bs"
    and "decode_block_seq n dctree actree (replicate 64 0) r = Some (Ok ((eob, block), r'))" "eob \<le> 1 \<or> block ! (eob - 1) \<noteq> 0"
  shows "(\<exists>bs'. bs = block_bits dctbl actbl block @ bs' \<and> rd p xs tail k 0 r' bs') \<and> block_codable dctbl actbl block
    \<and> eob \<le> 64 \<and> (\<forall>i. eob \<le> i \<and> i < 64 \<longrightarrow> block ! i = 0)"
  using decode_block_sound [OF assms] by blast

lemma sample_rd: "rd 0 [0x6D, 0xB3] [0xFF, 0xD9] 0 0 (BitReader_new (sample_input [0x6D, 0xB3, 0xFF, 0xD9] 0))
    (block_bits sample_codes sample_codes sample_coefs @ [True, True])"
proof -
  have "unread (sample_input [0x6D, 0xB3, 0xFF, 0xD9] 0) = stuff [0x6D, 0xB3] @ [0xFF, 0xD9]" by (simp add: sample_input_def)
  from reads_new [OF this] have "rd 0 [0x6D, 0xB3] [0xFF, 0xD9] 0 0 (BitReader_new (sample_input [0x6D, 0xB3, 0xFF, 0xD9] 0)) (bytes_bits [0x6D, 0xB3])"
    by (auto simp: rd_def scan_end_def settled_slack sample_input_def BitReader_new_def)
  moreover have "bytes_bits [0x6D, 0xB3] = block_bits sample_codes sample_codes sample_coefs @ [True, True]"
    using sample_bits by (simp add: place_bits_def sample_scan_block sample_header_fields sample_diff)
      (simp add: byte_bits_def bits_of_def, simp add: upt_rec)
  ultimately show ?thesis by simp
qed

lemma sample_tree_for: "tree_for sample_codes sample_tree" "all_codes sample_codes sample_tree" "codes_ok sample_codes" "no_short_runs sample_codes"
proof -
  show c: "codes_ok sample_codes" by (rule construct_codes_ok [OF construct_sample_codes])
  have "prefix_free sample_codes" using sample_prefix_free by (simp add: scan_prefix_free_def sample_header_fields)
  then show "tree_for sample_codes sample_tree" "all_codes sample_codes sample_tree"
    using tree_for_construct all_codes_construct sample_tree c by (auto simp: codes_ok_def)
  show "no_short_runs sample_codes" using sample_no_short by (simp add: no_short_run_codes_def sample_header_fields)
qed

lemma sample_block_codable: "block_codable sample_codes sample_codes sample_coefs"
  using sample_codable by (simp add: place_codable_def sample_scan_block sample_header_fields sample_diff)

text \<open>C18: The decoder accepts every block whose codes the tables have, when its bits are in front of the reader, and
  stops behind them.\<close>

theorem block_code_accepted:
  assumes "tree_for dctbl dctree" "all_codes dctbl dctree" "tree_for actbl actree" "all_codes actbl actree"
    and "81 < n" "block_codable dctbl actbl block" "rd p xs tail k 0 r (block_bits dctbl actbl block @ bs')"
  shows "\<exists>eob r'. decode_block_seq n dctree actree (replicate 64 0) r = Some (Ok ((eob, block), r')) \<and> rd p xs tail k 0 r' bs'
    \<and> eob \<le> 64 \<and> (\<forall>i. eob \<le> i \<and> i < 64 \<longrightarrow> block ! i = 0) \<and> (eob \<le> 1 \<or> block ! (eob - 1) \<noteq> 0)"
  by (rule decode_block_complete [OF assms])

theorem block_code_accepted_witness:
  "\<exists>eob r'. decode_block_seq 82 sample_tree sample_tree (replicate 64 0) (BitReader_new (sample_input [0x6D, 0xB3, 0xFF, 0xD9] 0))
      = Some (Ok ((eob, sample_coefs), r'))"
  using block_code_accepted [OF sample_tree_for(1,2,1,2) _ sample_block_codable sample_rd, of 82] by auto

theorem block_code_read_witness:
  "\<exists>eob r' bs'. decode_block_seq 82 sample_tree sample_tree (replicate 64 0) (BitReader_new (sample_input [0x6D, 0xB3, 0xFF, 0xD9] 0))
      = Some (Ok ((eob, sample_coefs), r'))
    \<and> rd 0 [0x6D, 0xB3] [0xFF, 0xD9] 0 0 r' bs'"
proof -
  from decode_block_complete [OF sample_tree_for(1,2,1,2) _ sample_block_codable sample_rd, of 82] obtain eob r' where
    d: "decode_block_seq 82 sample_tree sample_tree (replicate 64 0) (BitReader_new (sample_input [0x6D, 0xB3, 0xFF, 0xD9] 0))
      = Some (Ok ((eob, sample_coefs), r'))" "eob \<le> 1 \<or> sample_coefs ! (eob - 1) \<noteq> 0" by auto
  have "marker [0xFF, 0xD9]" by (simp add: marker_def)
  from block_code_read [OF sample_tree_for(1,1) this sample_tree_for(4) _ sample_rd d] d(1) show ?thesis by auto
qed

text \<open>C19: The encoder with its vector operations writes the bits of the block.\<close>

theorem block_code_written:
  assumes "simd16_laws V" "codes_ok dctbl" "codes_ok actbl" "block_ok b" "\<forall>c \<in> set (get_block b). sint c \<noteq> - (2 ^ 15)" "wrote w pre bs"
  shows "\<exists>w'. encode_block_seq V dctbl actbl b w = Ok w' \<and> wrote w' pre (bs @ block_bits dctbl actbl (get_block b))"
  by (rule simd16_laws.encode_block_seq_wrote [OF assms])

theorem block_code_written_witness:
  "\<exists>w'. encode_block_seq lane_ops16 sample_codes sample_codes (AlignedBlock_new sample_coefs) (BitWriter_new [] 0 (\<lambda>a b. a)) = Ok w'
    \<and> wrote w' [] [False, True, True, False, True, True, False, True, True, False, True, True, False, False]"
proof -
  have b: "block_ok (AlignedBlock_new sample_coefs)" "get_block (AlignedBlock_new sample_coefs) = sample_coefs"
    by (simp_all add: AlignedBlock_new_def get_block_def block_ok_def sample_coefs_def)
  have "\<forall>c \<in> set (get_block (AlignedBlock_new sample_coefs)). sint c \<noteq> - (2 ^ 15)"
    unfolding b(2) by (auto simp: sample_coefs_def)
  from block_code_written [OF lane_ops16.simd16_laws_axioms sample_tree_for(3,3) b(1) this wrote_new] sample_bits
  show ?thesis by (simp add: b(2) place_bits_def sample_scan_block sample_header_fields sample_diff)
qed

section \<open>Headers\<close>

text \<open>C8: A header that has been accepted satisfies the invariant the code behind it relies on: the shapes of the
  tables, tables with valid codes and their trees, components in range, and the geometry that follows from the frame.\<close>

theorem header_accepted_ok:
  assumes "parse features h m = Ok ((True, h'), m')" "header_inv (accept_invalid_dht features) h"
  shows "header_ok (accept_invalid_dht features) h'"
  by (rule parse_ok [OF assms])

theorem header_accepted_ok_witness:
  "parse sample_features JpegHeader_default (Mirror_new sample_header_bytes) =
    Ok ((True, sample_header), \<lparr>mirrored = [], mirror_output = sample_header_bytes, amount_written = length sample_header_bytes\<rparr>)
    \<and> header_ok False sample_header"
proof -
  have p: "parse sample_features JpegHeader_default (Mirror_new sample_header_bytes) =
    Ok ((True, sample_header), \<lparr>mirrored = [], mirror_output = sample_header_bytes, amount_written = length sample_header_bytes\<rparr>)"
    using parse_sample [of "[]"] by simp
  from header_accepted_ok [OF this header_inv_default] p show ?thesis
    by (simp add: sample_features_def compat_lepton_vector_write_def)
qed

text \<open>C20: The header that is kept is what has been consumed; at the end of the image without the end marker, or
  without the last two bytes when the stream ends in front of the marker.\<close>

theorem header_bytes_kept:
  assumes "parse_jpeg_header features h rinfo reader = Ok (sos, h', rinfo', rest)"
  shows "\<exists>read. reader = read @ rest \<and>
    (if sos then raw_jpeg_header rinfo' = raw_jpeg_header rinfo @ read
     else (\<exists>hd. read = hd @ [0xFF, 0xD9] \<and> raw_jpeg_header rinfo' = raw_jpeg_header rinfo @ hd)
       \<or> (rest = [] \<and> raw_jpeg_header rinfo' = raw_jpeg_header rinfo @ take (length read - 2) read))"
  by (rule parse_jpeg_header_bytes [OF assms])

theorem header_bytes_kept_witness:
  "\<exists>h' rinfo' read. parse_jpeg_header sample_features JpegHeader_default ReconstructionInfo_default (sample_header_bytes @ [0x6D])
      = Ok (True, h', rinfo', [0x6D])
    \<and> sample_header_bytes @ [0x6D] = read @ [0x6D] \<and> raw_jpeg_header rinfo' = read"
proof -
  have p: "parse_jpeg_header sample_features JpegHeader_default ReconstructionInfo_default (sample_header_bytes @ [0x6D])
    = Ok (True, sample_header, ReconstructionInfo_default\<lparr>raw_jpeg_header := sample_header_bytes\<rparr>, [0x6D])"
    by (simp add: parse_jpeg_header_def parse_sample) (simp add: ReconstructionInfo_default_def)
  from header_bytes_kept [OF this] p show ?thesis by (force simp: ReconstructionInfo_default_def)
qed

section \<open>Positions\<close>

text \<open>C9: From the position of a block, \<open>next_mcu_pos\<close> goes to the block that follows it in the scan (the next of the
  component in the MCU, the next component, the next MCU), with the status of the scan and the restart interval.\<close>

theorem scan_order:
  assumes "header_ok a jf" "regular_scan jf" "at_block jf s m c k" "rst_synced jf s" "block_after jf (m, c, k) = (m', c', k')"
  shows "\<exists>s'. next_mcu_pos jf s = (status_after jf m m', s') \<and> unat (mcu s') = m'
    \<and> (m' < unat (mcuc jf) \<longrightarrow> at_block jf s' m' c' k')
    \<and> (status_after jf m m' = DecodeInProgress \<longrightarrow> rst_synced jf s')"
  by (rule next_mcu_pos_step [OF assms])

theorem scan_order_witness:
  "\<exists>s'. next_mcu_pos sample_header (JpegPositionState_new sample_header 0) = (ScanCompleted, s') \<and> unat (mcu s') = 1"
proof -
  have "unat 0 < unat (mcuc sample_header)" by (simp add: sample_header_fields)
  note N = at_block_new [OF sample_header_ok this]
  from scan_order [OF sample_header_ok sample_regular N, of 1 0 0] show ?thesis
    by (auto simp: sample_header_fields sample_component_def status_after_def)
qed

text \<open>C21: The three formulas of the source for the number of a block in its component are the raster position the
  standard gives it; it is inside of the component, and no two blocks of the scan share it.\<close>

theorem block_positions:
  assumes "header_ok a jf" "c < cs_cmpc jf" "unat m < unat (mcuc jf)" "unat sb < unat (mbs (cmp_info jf ! (cs_cmp jf ! c)))"
  shows "unat (mcu_dpos jf (cs_cmp jf ! c) m sb) = block_pos jf (cs_cmp jf ! c) (unat m) (unat sb)
    \<and> block_pos jf (cs_cmp jf ! c) (unat m) (unat sb) < unat (bc (cmp_info jf ! (cs_cmp jf ! c)))
    \<and> (\<forall>m' k'. m' < unat (mcuc jf) \<and> k' < unat (mbs (cmp_info jf ! (cs_cmp jf ! c)))
        \<and> block_pos jf (cs_cmp jf ! c) (unat m) (unat sb) = block_pos jf (cs_cmp jf ! c) m' k' \<longrightarrow> m' = unat m \<and> k' = unat sb)"
  using mcu_dpos_pos [OF assms] block_pos_less [OF assms] block_pos_inject [OF assms] by blast

theorem block_positions_witness:
  "unat (mcu_dpos sample_header (cs_cmp sample_header ! 0) 0 0) = block_pos sample_header 0 0 0
    \<and> block_pos sample_header 0 0 0 < 1"
  using block_positions [OF sample_header_ok, of 0 0 0] by (simp add: sample_header_fields sample_component_def)

section \<open>Tables\<close>

text \<open>C22: The tree built for the codes of a table segment decodes them: whatever code is in front of the reader, its
  symbol is read and the code is consumed. A segment that fills all codes of 15 bits and still has codes of 16 bits is
  accepted by the source too; it is excluded here.\<close>

theorem huffman_code_read:
  assumes "construct_from_segment segment = Ok hc" "construct_hufftree hc False = Ok tree"
    and "segment ! 15 = 0 \<or> code_space segment 15 < 2 ^ 15"
    and "has_code hc (unat (c :: u8))" "rd p xs tail k e r (code_bits hc (unat c) @ rest)" "16 < n"
  shows "\<exists>r'. next_huff_code n tree r = Some (Ok (c, r')) \<and> rd p xs tail k (e - length (code_bits hc (unat c))) r' rest"
proof -
  have fit: "codes_fit hc" using construct_codes_ok [OF assms(1)] by (simp add: codes_ok_def)
  then have "length (code_bits hc (unat c)) < n" using assms(4,6) by (auto simp: codes_fit_def has_code_def code_bits_def)
  then show ?thesis
    using next_huff_code_complete [OF construct_leads [OF assms(2) fit construct_prefix_free [OF assms(1,3)] assms(4)] assms(5)] by blast
qed

theorem huffman_code_read_witness:
  "\<exists>r'. next_huff_code 17 sample_tree (BitReader_new (sample_input [0x6D, 0xB3, 0xFF, 0xD9] 0)) = Some (Ok (1, r'))"
proof -
  have bits: "block_bits sample_codes sample_codes sample_coefs @ [True, True] =
      code_bits sample_codes (unat (1 :: u8)) @ [True, False, True, True, False, True, True, False, True, True, False, False, True, True]"
    using sample_bits by (simp add: sample_code_bits place_bits_def sample_scan_block sample_header_fields sample_diff)
  have "sample_segment ! 15 = 0" "has_code sample_codes (unat (1 :: u8))" by (simp_all add: sample_segment_def sample_has_code)
  with huffman_code_read [OF construct_sample_codes sample_tree _ _ sample_rd [unfolded bits], of 17] show ?thesis by auto
qed

section \<open>Bit streams\<close>

fun read_fields :: "u32 list \<Rightarrow> BitReader \<Rightarrow> (u16 list \<times> BitReader) result" where
  "read_fields [] r = Ok ([], r)"
| "read_fields (n # ns) r = bindR (read n r) (\<lambda>(v, r). bindR (read_fields ns r) (\<lambda>(vs, r). Ok (v # vs, r)))"

definition write_fields :: "(u32 \<times> u32) list \<Rightarrow> BitWriter \<Rightarrow> BitWriter" where
  "write_fields fs w = fold (\<lambda>(v, n). write_bits v n) fs w"

definition field_bits :: "(u32 \<times> u32) list \<Rightarrow> bool list" where
  "field_bits fs = concat (map (\<lambda>(v, n). bits_of (unat n) (unat v)) fs)"

lemma write_fields_wrote:
  "\<forall>(v, n) \<in> set fs. unat n \<le> 16 \<and> unat v < 2 ^ unat n \<Longrightarrow> wrote w pre bs \<Longrightarrow> wrote (write_fields fs w) pre (bs @ field_bits fs)"
proof (induction fs arbitrary: w bs)
  case (Cons f fs)
  obtain v n where f: "f = (v, n)" by (cases f)
  have "wrote (write_bits v n w) pre (bs @ bits_of (unat n) (unat v))" using Cons.prems f by (intro write_wrote) auto
  from Cons.IH [OF _ this] Cons.prems(1) show ?case by (simp add: write_fields_def field_bits_def f)
qed (simp add: write_fields_def field_bits_def)

lemma read_fields_rd:
  "\<forall>(v, n) \<in> set fs. unat n \<le> 16 \<and> unat v < 2 ^ unat n \<Longrightarrow> rd p xs tail k 0 r (field_bits fs @ rest) \<Longrightarrow>
    \<exists>r'. read_fields (map snd fs) r = Ok (map (\<lambda>f. ucast (fst f)) fs, r') \<and> rd p xs tail k 0 r' rest"
proof (induction fs arbitrary: r)
  case (Cons f fs)
  obtain v n where f: "f = (v, n)" by (cases f)
  have vn: "unat n \<le> 16" "unat v < 2 ^ unat n" using Cons.prems(1) f by auto
  have "rd p xs tail k 0 r (bits_of (unat n) (unat v) @ (field_bits fs @ rest))" using Cons.prems(2) by (simp add: field_bits_def f)
  from read_rd [OF this vn(1)] obtain v' r1 where r1: "read n r = Ok (v', r1)" "unat v' = unat v" "rd p xs tail k 0 r1 (field_bits fs @ rest)"
    using vn(2) by (auto simp: of_bits_bits_of)
  have "v' = ucast v" using r1(2) unat_lt2p [of v'] by (simp add: word_unat_eq_iff unat_ucast)
  then show ?case using Cons.IH [OF _ r1(3)] Cons.prems(1) r1(1) by (auto simp: f)
qed (simp add: field_bits_def)

text \<open>C23: Fields of at most 16 bits, written with the bit writer and padded to whole bytes, are read again by the bit
  reader, through the stuffing of \<open>0xFF\<close>, the registers and the refills, whatever follows behind a marker.\<close>

theorem bit_fields_roundtrip:
  assumes "\<forall>(v, n) \<in> set fs. unat n \<le> 16 \<and> unat v < 2 ^ unat n" "scan_end tail"
    and "unread i = data_buffer (pad fillbit (write_fields fs (BitWriter_new [] cap alloc))) @ tail"
  shows "\<exists>r'. read_fields (map snd fs) (BitReader_new i) = Ok (map (\<lambda>f. ucast (fst f)) fs, r')"
proof -
  note w = write_fields_wrote [OF assms(1) wrote_new [of "[]"], simplified]
  from wrote_aligned [OF pad_wrote [OF w]] obtain ys where ys: "data_buffer (pad fillbit (write_fields fs (BitWriter_new [] cap alloc))) = stuff ys"
    "bytes_bits ys = field_bits fs @ pad_bits fillbit (length (field_bits fs))" by (metis append_Nil)
  from assms(3) ys(1) have "unread i = stuff ys @ tail" by simp
  from reads_new [OF this assms(2)] have "rd (position i) ys tail 0 0 (BitReader_new i) (bytes_bits ys)"
    by (auto simp: rd_def settled_slack BitReader_new_def)
  from read_fields_rd [OF assms(1) this [unfolded ys(2)]] show ?thesis by blast
qed

theorem bit_fields_roundtrip_witness:
  "\<exists>r'. read_fields [8, 3] (BitReader_new (sample_input (data_buffer (pad 0 (write_fields [(255, 8), (5, 3)] (BitWriter_new [] 0 (\<lambda>a b. a))))) 0))
    = Ok ([255, 5], r')"
  using bit_fields_roundtrip [of "[(255, 8), (5, 3)]" "[]" "sample_input (data_buffer (pad 0 (write_fields [(255, 8), (5, 3)]
      (BitWriter_new [] 0 (\<lambda>a b. a))))) 0" 0 0 "\<lambda>a b. a"]
  by (simp add: sample_input_def scan_end_def)

end
