(* ===== verification/Partial_Buffer.thy ===== *)
theory Partial_Buffer
  imports Prelude
begin

text \<open>
  Input that arrives in pieces (\<open>structs/partial_buffer.rs\<close>): the current piece and what is left over from the ones
  before it. A request that cannot be served yet keeps everything for later and stops the processing of the piece.
\<close>

record PartialBuffer =
  slice :: bytes
  extra_buffer :: bytes
  continue_processing :: bool

definition PartialBuffer_new :: "bytes \<Rightarrow> bytes \<Rightarrow> PartialBuffer" where
  "PartialBuffer_new s extra = \<lparr>slice = s, extra_buffer = extra, continue_processing = True\<rparr>"

definition take_bytes :: "usize \<Rightarrow> usize \<Rightarrow> PartialBuffer \<Rightarrow> bytes option \<times> PartialBuffer" where
  "take_bytes n retention_bytes pb =
    (if length (extra_buffer pb) + length (slice pb) < n + retention_bytes
     then (None, pb\<lparr>extra_buffer := extra_buffer pb @ slice pb, slice := [], continue_processing := False\<rparr>)
     else
       let amount_from_extra = min (length (extra_buffer pb)) n;
           retval = take amount_from_extra (extra_buffer pb);
           amount_from_slice = n - amount_from_extra
       in (Some (retval @ take amount_from_slice (slice pb)),
           pb\<lparr>extra_buffer := drop amount_from_extra (extra_buffer pb), slice := drop amount_from_slice (slice pb)\<rparr>))"

text \<open>The same for arrays of a fixed size.\<close>

definition take_n :: "usize \<Rightarrow> usize \<Rightarrow> PartialBuffer \<Rightarrow> bytes option \<times> PartialBuffer" where
  "take_n n retention_bytes pb =
    (if length (extra_buffer pb) + length (slice pb) < n + retention_bytes
     then (None, pb\<lparr>extra_buffer := extra_buffer pb @ slice pb, slice := [], continue_processing := False\<rparr>)
     else
       let amount_from_extra = min (length (extra_buffer pb)) n;
           amount_from_slice = n - amount_from_extra
       in (Some (take amount_from_extra (extra_buffer pb) @ take amount_from_slice (slice pb)),
           pb\<lparr>extra_buffer := drop amount_from_extra (extra_buffer pb), slice := drop amount_from_slice (slice pb)\<rparr>))"

section \<open>What is still to come\<close>

definition input_left :: "PartialBuffer \<Rightarrow> bytes" where
  "input_left pb = extra_buffer pb @ slice pb"

lemma take_n_is_take_bytes: "take_n = take_bytes"
  by (intro ext) (simp add: take_n_def take_bytes_def Let_def)

lemma input_left_new [simp]: "input_left (PartialBuffer_new s extra) = extra @ s" "continue_processing (PartialBuffer_new s extra)"
  by (simp_all add: input_left_def PartialBuffer_new_def)

text \<open>A request is served from the front of what is left, or everything is kept.\<close>

lemma take_bytes_some:
  "n + retention_bytes \<le> length (input_left pb) \<Longrightarrow> \<exists>pb'. take_bytes n retention_bytes pb = (Some (take n (input_left pb)), pb')
    \<and> input_left pb' = drop n (input_left pb) \<and> continue_processing pb' = continue_processing pb"
  by (auto simp: take_bytes_def input_left_def Let_def min_def)

lemma take_bytes_none:
  "length (input_left pb) < n + retention_bytes \<Longrightarrow> \<exists>pb'. take_bytes n retention_bytes pb = (None, pb')
    \<and> input_left pb' = input_left pb \<and> slice pb' = [] \<and> \<not> continue_processing pb'"
  by (auto simp: take_bytes_def input_left_def)

lemma take_bytes_cases:
  obtains bs pb' where "take_bytes n retention_bytes pb = (Some bs, pb')" "input_left pb = bs @ input_left pb'" "length bs = n"
      "retention_bytes \<le> length (input_left pb')" "continue_processing pb' = continue_processing pb"
  | pb' where "take_bytes n retention_bytes pb = (None, pb')" "input_left pb' = input_left pb" "slice pb' = []"
      "\<not> continue_processing pb'" "length (input_left pb) < n + retention_bytes"
proof (cases "n + retention_bytes \<le> length (input_left pb)")
  case True
  with take_bytes_some [OF this] that(1) show ?thesis by (metis append_take_drop_id length_drop length_take min.absorb2 add_leD1 add_le_imp_le_diff add.commute)
next
  case False
  with take_bytes_none [of pb n retention_bytes] that(2) show ?thesis by force
qed

end
