(* ===== verification/Byte_Stream.thy ===== *)
theory Byte_Stream
  imports Prelude
begin

text \<open>
  The readers of the standard library and of \<open>byteorder\<close> the container format is parsed with. A reader is what is
  still to come: bytes, and then the end of the stream or an error of the reader (\<open>flate2\<close> reports corrupt data
  this way). Writers into a vector do not fail; what they write is a list of bytes.
\<close>

datatype ErrorKind = UnexpectedEof | OtherKind

text \<open>\<open>From<std::io::Error> for LeptonError\<close>\<close>

fun get_io_error_exit_code :: "ErrorKind \<Rightarrow> ExitCode" where
  "get_io_error_exit_code UnexpectedEof = ShortRead"
| "get_io_error_exit_code OtherKind = OsError"

record ByteStream =
  stream_bytes :: bytes
  stream_error :: "ErrorKind option"

definition stream_of :: "bytes \<Rightarrow> ByteStream" where
  "stream_of bs = \<lparr>stream_bytes = bs, stream_error = None\<rparr>"

definition io_read_exact :: "nat \<Rightarrow> ByteStream \<Rightarrow> ErrorKind + (bytes \<times> ByteStream)" where
  "io_read_exact n s =
    (if n \<le> length (stream_bytes s) then Inr (take n (stream_bytes s), s\<lparr>stream_bytes := drop n (stream_bytes s)\<rparr>)
     else Inl (case stream_error s of None \<Rightarrow> UnexpectedEof | Some k \<Rightarrow> k))"

definition stream_exact :: "nat \<Rightarrow> ByteStream \<Rightarrow> (bytes \<times> ByteStream) result" where
  "stream_exact n s = (case io_read_exact n s of Inl k \<Rightarrow> err_exit_code (get_io_error_exit_code k) | Inr r \<Rightarrow> Ok r)"

definition stream_to_end :: "ByteStream \<Rightarrow> bytes result" where
  "stream_to_end s = (case stream_error s of None \<Rightarrow> Ok (stream_bytes s) | Some k \<Rightarrow> err_exit_code (get_io_error_exit_code k))"

lemma stream_to_end_of [simp]: "stream_to_end (stream_of bs) = Ok bs"
  by (simp add: stream_to_end_def stream_of_def)

text \<open>\<open>read_u8\<close>, and \<open>read_u16\<close>, \<open>read_i16\<close>, \<open>read_u32\<close> with \<open>LittleEndian\<close>\<close>

definition stream_u8 :: "ByteStream \<Rightarrow> (u8 \<times> ByteStream) result" where
  "stream_u8 s = bindR (stream_exact 1 s) (\<lambda>(bs, s). Ok (bs ! 0, s))"

definition stream_le :: "nat \<Rightarrow> ByteStream \<Rightarrow> ('a::len word \<times> ByteStream) result" where
  "stream_le n s = bindR (stream_exact n s) (\<lambda>(bs, s). Ok (of_nat (from_le_bytes bs), s))"

definition read_u16_le :: "ByteStream \<Rightarrow> (u16 \<times> ByteStream) result" where
  "read_u16_le s = stream_le 2 s"

definition read_u32_le :: "ByteStream \<Rightarrow> (u32 \<times> ByteStream) result" where
  "read_u32_le s = stream_le 4 s"

text \<open>What has been written is read again, and the rest stays.\<close>

definition pushed :: "bytes \<Rightarrow> ByteStream \<Rightarrow> ByteStream" where
  "pushed bs s = s\<lparr>stream_bytes := bs @ stream_bytes s\<rparr>"

lemma pushed_Nil [simp]: "pushed [] s = s"
  by (simp add: pushed_def)

lemma pushed_append: "pushed (as @ bs) s = pushed as (pushed bs s)"
  by (simp add: pushed_def)

lemma stream_of_pushed: "stream_of bs = pushed bs (stream_of [])"
  by (simp add: stream_of_def pushed_def)

lemma io_read_exact_pushed [simp]: "length bs = n \<Longrightarrow> io_read_exact n (pushed bs s) = Inr (bs, s)"
  by (auto simp: io_read_exact_def pushed_def)

lemma stream_exact_pushed [simp]: "length bs = n \<Longrightarrow> stream_exact n (pushed bs s) = Ok (bs, s)"
  by (simp add: stream_exact_def)

lemma stream_u8_pushed [simp]: "stream_u8 (pushed [b] s) = Ok (b, s)"
  by (simp add: stream_u8_def)

lemma from_le_bytes_le_bytes: "from_le_bytes (le_bytes n w) = unat w mod 256 ^ n"
proof (induction n arbitrary: w)
  case (Suc n)
  have "le_bytes (Suc n) w = ucast w # le_bytes n (drop_bit 8 w)" by (rule le_bytes_Suc)
  then have "from_le_bytes (le_bytes (Suc n) w) = unat (ucast w :: u8) + 256 * (unat w div 256 mod 256 ^ n)"
    by (simp add: Suc unat_drop_bit)
  also have "unat (ucast w :: u8) = unat w mod 256" by (simp add: unat_ucast)
  also have "unat w mod 256 + 256 * (unat w div 256 mod 256 ^ n) = unat w mod (256 * 256 ^ n)"
    by (simp add: mod_mult2_eq)
  finally show ?case by simp
qed (simp add: le_bytes_def)

lemma from_le_bytes_small: "unat w < 256 ^ n \<Longrightarrow> from_le_bytes (le_bytes n w) = unat w"
  by (simp add: from_le_bytes_le_bytes)

lemma stream_le_pushed: "length bs = n \<Longrightarrow> stream_le n (pushed bs s) = Ok (of_nat (from_le_bytes bs), s)"
  by (simp add: stream_le_def)

lemma read_u16_le_pushed [simp]: "read_u16_le (pushed (le_bytes 2 (w :: u16)) s) = Ok (w, s)"
  using unat_lt2p [of w] by (simp add: read_u16_le_def stream_le_pushed from_le_bytes_small)

lemma read_u32_le_pushed [simp]: "read_u32_le (pushed (le_bytes 4 (w :: u32)) s) = Ok (w, s)"
  using unat_lt2p [of w] by (simp add: read_u32_le_def stream_le_pushed from_le_bytes_small)

end
