(* ===== verification/Multiplexer.thy ===== *)
theory Multiplexer
  imports Partial_Buffer Byte_Stream
begin

unbundle bit_operations_syntax

text \<open>
  The multiplexer (\<open>structs/multiplexer.rs\<close>): the output of the threads as one stream of blocks, in turns, and the
  state machine that hands the blocks of such a stream to the threads that decode them.

  A channel has one sender and one receiver and keeps the order: it is the list of the messages that have been sent
  and not received. A thread is a function of what it is given, so its messages do not depend on when it runs. What
  does depend on it is how much of them has arrived when a channel is polled.
\<close>

datatype Message = Eof usize | WriteBlock usize bytes

section \<open>The writer of a thread\<close>

record MultiplexWriter =
  mw_partition_id :: usize
  mw_sent :: "Message list"
  mw_buffer :: bytes

definition WRITE_BUFFER_SIZE :: usize where
  "WRITE_BUFFER_SIZE = 65536"

definition mw_flush :: "MultiplexWriter \<Rightarrow> MultiplexWriter" where
  "mw_flush w =
    (if 0 < length (mw_buffer w)
     then w\<lparr>mw_sent := mw_sent w @ [WriteBlock (mw_partition_id w) (mw_buffer w)], mw_buffer := []\<rparr> else w)"

text \<open>The loop of \<open>write\<close>. The difference \<open>WRITE_BUFFER_SIZE - self.buffer.len()\<close> wraps, so that a buffer that is too
  long takes everything; it is never longer than the size.\<close>

definition amount_to_copy :: "bytes \<Rightarrow> MultiplexWriter \<Rightarrow> nat" where
  "amount_to_copy buf w =
    (if WRITE_BUFFER_SIZE < length (mw_buffer w) then length buf
     else min (WRITE_BUFFER_SIZE - length (mw_buffer w)) (length buf))"

definition mw_step :: "bytes \<Rightarrow> MultiplexWriter \<Rightarrow> MultiplexWriter" where
  "mw_step buf w =
    (let w = w\<lparr>mw_buffer := mw_buffer w @ take (amount_to_copy buf w) buf\<rparr>
     in if length (mw_buffer w) = WRITE_BUFFER_SIZE then mw_flush w else w)"

function mw_write :: "bytes \<Rightarrow> MultiplexWriter \<Rightarrow> MultiplexWriter" where
  "mw_write buf w = (if buf = [] then w else mw_write (drop (amount_to_copy buf w) buf) (mw_step buf w))"
  by pat_completeness auto

termination mw_write
  by (relation "measures [\<lambda>(buf, w). length buf, \<lambda>(buf, w). if length (mw_buffer w) = WRITE_BUFFER_SIZE then 1 else 0]")
    (auto simp: amount_to_copy_def mw_step_def mw_flush_def Let_def WRITE_BUFFER_SIZE_def)

declare mw_write.simps [simp del]

section \<open>The results of the threads\<close>

text \<open>The results in the order of the threads, or the error of the last thread that failed.\<close>

fun receive_loop :: "'r result list \<Rightarrow> 'r list \<Rightarrow> failure option \<Rightarrow> 'r list result" where
  "receive_loop [] final_results error_found = (case error_found of Some e \<Rightarrow> Inl e | None \<Rightarrow> Ok final_results)"
| "receive_loop (Inr r # rs) final_results error_found = receive_loop rs (final_results @ [r]) error_found"
| "receive_loop (Inl e # rs) final_results error_found = receive_loop rs final_results (Some e)"

definition receive_results :: "'r result list \<Rightarrow> 'r list result" where
  "receive_results results = receive_loop results [] None"

section \<open>Writing\<close>

text \<open>A thread: the processor, what is left in the buffer, and the end mark, unless the processor failed. The messages
  are what the thread has sent when it is done.\<close>

definition run_processor :: "(MultiplexWriter \<Rightarrow> usize \<Rightarrow> 'r result \<times> MultiplexWriter) \<Rightarrow> usize \<Rightarrow> 'r result \<times> Message list" where
  "run_processor processor partition_id =
    (let (r, w) = processor \<lparr>mw_partition_id = partition_id, mw_sent = [], mw_buffer = []\<rparr> partition_id
     in case r of
          Inl e \<Rightarrow> (catch_unwind_result (Inl e), mw_sent w)
        | Inr r \<Rightarrow> (Ok r, mw_sent (mw_flush w) @ [Eof partition_id]))"

text \<open>A block has a header of one byte if its length is one of three, and of three bytes otherwise.\<close>

definition block_header :: "usize \<Rightarrow> bytes \<Rightarrow> bytes" where
  "block_header partition_id b =
    (let tid = of_nat partition_id :: u8; l = length b - 1
     in if l = 4095 \<or> l = 16383 \<or> l = 65535
        then [tid OR push_bit 4 (drop_bit 1 (of_nat (bit_len l - 1)) - 4)]
        else [tid, of_nat l AND 0xff, of_nat (l div 256) AND 0xff])"

text \<open>The turns: the next message of the current thread is awaited; a thread that has ended leaves the circle.\<close>

function write_turns :: "Message list list \<Rightarrow> nat \<Rightarrow> bytes result" where
  "write_turns receivers current =
    (if length receivers \<le> current then panic
     else case receivers ! current of
       WriteBlock partition_id b # ms \<Rightarrow>
         bindR (write_turns (receivers[current := ms]) ((current + 1) mod length receivers)) (\<lambda>out.
           Ok (block_header partition_id b @ b @ out))
     | _ \<Rightarrow>
         let receivers = take current receivers @ drop (current + 1) receivers
         in if length receivers = 0 then Ok [] else write_turns receivers (current mod length receivers))"
  by pat_completeness auto

definition turns_left :: "Message list list \<Rightarrow> nat" where
  "turns_left rs = (\<Sum>r\<leftarrow>rs. length r + 1)"

lemma turns_left_removed: "i < length rs \<Longrightarrow> turns_left (take i rs @ drop (Suc i) rs) < turns_left rs"
  unfolding turns_left_def by (subst (3) id_take_nth_drop [of i rs]) simp_all

lemma turns_left_received: "i < length rs \<Longrightarrow> rs ! i = m # ms \<Longrightarrow> turns_left (rs[i := ms]) < turns_left rs"
  unfolding turns_left_def upd_conv_take_nth_drop by (subst (3) id_take_nth_drop [of i rs]) simp_all

termination write_turns
proof (relation "measure (\<lambda>(rs, _). turns_left rs)", goal_cases)
  case (2 receivers current x)
  then show ?case using turns_left_removed [of current receivers] by simp
next
  case (3 receivers current m ms k x)
  then show ?case using turns_left_removed [of current receivers] by simp
next
  case (4 receivers current m ms k b)
  then show ?case using turns_left_received [of current receivers m ms] by simp
qed simp

declare write_turns.simps [simp del]

text \<open>\<open>spawn_processor_threads\<close>: up to \<open>max_processor_threads\<close> workers take the work from the queue until it is empty. One
  worker does all of it; without a worker the work is dropped, and its ends of the channels with it. A pool without
  parallelism is not used: the caller does the work.\<close>

definition work_is_done :: "usize \<Rightarrow> usize \<Rightarrow> bool" where
  "work_is_done max_processor_threads max_parallelism \<longleftrightarrow> max_parallelism \<le> 1 \<or> 0 < max_processor_threads"

text \<open>\<open>multiplex_write\<close>: how the threads are scheduled does not show, as the receivers wait for them.\<close>

definition multiplex_write ::
  "usize \<Rightarrow> usize \<Rightarrow> usize \<Rightarrow> (MultiplexWriter \<Rightarrow> usize \<Rightarrow> 'r result \<times> MultiplexWriter) \<Rightarrow> ('r list \<times> bytes) result"
where
  "multiplex_write num_partitions max_processor_threads max_parallelism processor =
    (let runs = (if work_is_done max_processor_threads max_parallelism then map (run_processor processor) [0..<num_partitions]
                 else replicate num_partitions (err_exit_code ChannelFailure, []))
     in bindR (write_turns (map snd runs) 0) (\<lambda>out.
        bindR (receive_results (map fst runs)) (\<lambda>rs. Ok (rs, out))))"

section \<open>The reader of a thread\<close>

record MultiplexReader =
  mr_channel :: "Message list"
  mr_current :: bytes
  mr_eof :: bool

definition MultiplexReader_new :: "Message list \<Rightarrow> MultiplexReader" where
  "MultiplexReader_new ms = \<lparr>mr_channel = ms, mr_current = [], mr_eof = False\<rparr>"

text \<open>\<open>read_slow\<close>, over the messages that are awaited; \<open>n\<close> is the length of the buffer to read into.\<close>

definition read_buffered :: "Message list \<Rightarrow> nat \<Rightarrow> bytes \<Rightarrow> bytes \<times> MultiplexReader" where
  "read_buffered ms n current = (take n current, \<lparr>mr_channel = ms, mr_current = drop n current, mr_eof = False\<rparr>)"

fun read_slow :: "Message list \<Rightarrow> nat \<Rightarrow> bytes \<Rightarrow> ErrorKind + (bytes \<times> MultiplexReader)" where
  "read_slow [] n current =
    (if 0 < length (take n current) then Inr (read_buffered [] n current) else Inl OtherKind)"
| "read_slow (m # ms) n current =
    (if 0 < length (take n current) then Inr (read_buffered (m # ms) n current)
     else case m of
       Eof tid \<Rightarrow> Inr ([], \<lparr>mr_channel = ms, mr_current = current, mr_eof = True\<rparr>)
     | WriteBlock tid block \<Rightarrow> read_slow ms n block)"

definition mr_read :: "nat \<Rightarrow> MultiplexReader \<Rightarrow> ErrorKind + (bytes \<times> MultiplexReader)" where
  "mr_read n r =
    (let bs = take n (mr_current r)
     in if 0 < length bs then Inr (bs, r\<lparr>mr_current := drop n (mr_current r)\<rparr>)
        else if mr_eof r then Inr ([], r)
        else read_slow (mr_channel r) n (mr_current r))"

section \<open>The state machine\<close>

datatype State = StartBlock | U16Length u8 | Block u8 usize

datatype 'r MultiplexReadResult = Result 'r | Error ExitCode | Complete

text \<open>The channels to the threads with all that has been sent on them, until they are closed; what each thread sends
  and has not been received; the threads that are still to be run when there is only one; and the number of polls so
  far. \<open>ready\<close> says of each poll whether the next message of the channel, or its end, has arrived.\<close>

record 'r MultiplexReaderState =
  mrs_sent :: "Message list list"
  mrs_closed :: bool
  mrs_receivers :: "'r MultiplexReadResult list list"
  mrs_retention :: usize
  mrs_state :: State
  mrs_work :: "nat option"
  mrs_polls :: nat

definition sender_count :: "'r MultiplexReaderState \<Rightarrow> nat" where
  "sender_count s = (if mrs_closed s then 0 else length (mrs_sent s))"

text \<open>\<open>multiplex_read\<close>: what the threads send is a function of what they are sent in the end.\<close>

definition multiplex_read ::
  "usize \<Rightarrow> usize \<Rightarrow> usize \<Rightarrow> usize \<Rightarrow> (nat \<Rightarrow> 'r MultiplexReadResult list) \<Rightarrow> 'r MultiplexReaderState"
where
  "multiplex_read num_partitions max_processor_threads max_parallelism retention_bytes outputs =
    \<lparr>mrs_sent = replicate num_partitions [], mrs_closed = False,
     mrs_receivers = (if work_is_done max_processor_threads max_parallelism then map outputs [0..<num_partitions]
                      else replicate num_partitions []),
     mrs_retention = retention_bytes, mrs_state = StartBlock,
     mrs_work = (if 1 < max_parallelism then None else Some num_partitions), mrs_polls = 0\<rparr>"

text \<open>A thread of the reader: what the processor has sent, and its error or panic.\<close>

definition thread_outputs ::
  "(usize \<Rightarrow> MultiplexReader \<Rightarrow> unit result \<times> 'r MultiplexReadResult list) \<Rightarrow> usize \<Rightarrow> Message list \<Rightarrow> 'r MultiplexReadResult list"
where
  "thread_outputs processor partition_id ms =
    (let (r, sent) = processor partition_id (MultiplexReader_new ms)
     in case catch_unwind_result r of Inl (LeptonError e) \<Rightarrow> sent @ [Error e] | Inl Panic \<Rightarrow> sent | Inr _ \<Rightarrow> sent)"

definition after_marker :: "u8 \<Rightarrow> State" where
  "after_marker thread_marker =
    (let partition_id = thread_marker AND 0xf
     in if thread_marker < 16 then U16Length partition_id
        else let flags = drop_bit 4 thread_marker AND 3 in Block partition_id (1024 * 2 ^ (2 * unat flags)))"

definition after_length :: "u8 \<Rightarrow> bytes \<Rightarrow> State" where
  "after_length partition_id a = Block partition_id (unat (a ! 1) * 256 + unat (a ! 0) + 1)"

function process_input :: "'r MultiplexReaderState \<Rightarrow> PartialBuffer \<Rightarrow> ('r MultiplexReaderState \<times> PartialBuffer) result" where
  "process_input s source =
    (if \<not> continue_processing source then Ok (s, source)
     else case mrs_state s of
       StartBlock \<Rightarrow>
         (case take_n 1 (mrs_retention s) source of
            (None, source) \<Rightarrow> Ok (s, source)
          | (Some a, source) \<Rightarrow>
              if sender_count s \<le> unat (a ! 0 AND 0xf) then err_exit_code BadLeptonFile
              else process_input (s\<lparr>mrs_state := after_marker (a ! 0)\<rparr>) source)
     | U16Length partition_id \<Rightarrow>
         (case take_n 2 (mrs_retention s) source of
            (None, source) \<Rightarrow> Ok (s, source)
          | (Some a, source) \<Rightarrow> process_input (s\<lparr>mrs_state := after_length partition_id a\<rparr>) source)
     | Block partition_id data_length \<Rightarrow>
         (case take_bytes data_length (mrs_retention s) source of
            (None, source) \<Rightarrow> Ok (s, source)
          | (Some a, source) \<Rightarrow>
              let tid = unat partition_id
              in if sender_count s \<le> tid then panic
                 else process_input (s\<lparr>mrs_sent := (mrs_sent s)[tid := mrs_sent s ! tid @ [WriteBlock tid a]],
                                        mrs_state := StartBlock\<rparr>) source))"
  by pat_completeness auto

lemma take_bytes_shorter: "take_bytes n k pb = (Some a, pb') \<Longrightarrow> length (input_left pb') + n = length (input_left pb)"
  using take_bytes_cases [of n k pb] by (metis Pair_inject length_append option.distinct(1) option.inject add.commute)

termination process_input
  by (relation "measures [\<lambda>(s, source). length (input_left source), \<lambda>(s, source). case mrs_state s of Block _ _ \<Rightarrow> 1 | _ \<Rightarrow> 0]")
    (auto simp: take_n_is_take_bytes dest!: sym [of "(Some _, _)"] take_bytes_shorter)

declare process_input.simps [simp del]

text \<open>\<open>try_get_result\<close>: only the first of the channels is polled.\<close>

fun poll_receivers ::
  "(nat \<Rightarrow> bool) \<Rightarrow> nat \<Rightarrow> 'r MultiplexReadResult list list \<Rightarrow> ('r option \<times> nat \<times> 'r MultiplexReadResult list list) result"
where
  "poll_receivers ready polls [] = Ok (None, polls, [])"
| "poll_receivers ready polls (r # rs) =
    (if \<not> ready polls then Ok (None, polls + 1, r # rs)
     else case r of
       Result v # ms \<Rightarrow> Ok (Some v, polls + 1, ms # rs)
     | Error e # ms \<Rightarrow> err_exit_code e
     | Complete # ms \<Rightarrow> poll_receivers ready (polls + 1) rs
     | [] \<Rightarrow> err_exit_code AssertionFailure)"

definition try_get_result :: "(nat \<Rightarrow> bool) \<Rightarrow> 'r MultiplexReaderState \<Rightarrow> ('r option \<times> 'r MultiplexReaderState) result" where
  "try_get_result ready s =
    bindR (poll_receivers ready (mrs_polls s) (mrs_receivers s)) (\<lambda>(v, polls, rs).
      Ok (v, s\<lparr>mrs_polls := polls, mrs_receivers := rs\<rparr>))"

text \<open>The work of a single thread is done here, thread by thread; it fills the channels.\<close>

fun run_single_threaded :: "(nat \<Rightarrow> bool) \<Rightarrow> nat \<Rightarrow> 'r MultiplexReaderState \<Rightarrow> ('r option \<times> 'r MultiplexReaderState) result" where
  "run_single_threaded ready 0 s = Ok (None, s)"
| "run_single_threaded ready (Suc k) s =
    bindR (try_get_result ready (s\<lparr>mrs_work := Some k\<rparr>)) (\<lambda>(v, s).
      case v of Some v \<Rightarrow> Ok (Some v, s) | None \<Rightarrow> run_single_threaded ready k s)"

text \<open>The blocking receipts at the end.\<close>

fun await_receivers :: "'r MultiplexReadResult list list \<Rightarrow> ('r option \<times> 'r MultiplexReadResult list list) result" where
  "await_receivers [] = Ok (None, [])"
| "await_receivers (r # rs) =
    (case r of
       Result v # ms \<Rightarrow> Ok (Some v, ms # rs)
     | Error e # ms \<Rightarrow> err_exit_code e
     | Complete # ms \<Rightarrow> await_receivers rs
     | [] \<Rightarrow> err_exit_code ChannelFailure)"

definition close_senders :: "'r MultiplexReaderState \<Rightarrow> 'r MultiplexReaderState" where
  "close_senders s =
    (if mrs_closed s then s
     else s\<lparr>mrs_sent := map (\<lambda>i. mrs_sent s ! i @ [Eof i]) [0..<length (mrs_sent s)], mrs_closed := True\<rparr>)"

definition retrieve_result ::
  "(nat \<Rightarrow> bool) \<Rightarrow> bool \<Rightarrow> 'r MultiplexReaderState \<Rightarrow> ('r option \<times> 'r MultiplexReaderState) result"
where
  "retrieve_result ready complete s =
    bindR (try_get_result ready s) (\<lambda>(v, s).
      case v of
        Some v \<Rightarrow> Ok (Some v, s)
      | None \<Rightarrow>
          if complete
          then bindR (case mrs_work s of None \<Rightarrow> Ok (None, close_senders s)
                      | Some k \<Rightarrow> run_single_threaded ready k (close_senders s)) (\<lambda>(v, s).
               case v of
                 Some v \<Rightarrow> Ok (Some v, s)
               | None \<Rightarrow> bindR (await_receivers (mrs_receivers s)) (\<lambda>(v, rs). Ok (v, s\<lparr>mrs_receivers := rs\<rparr>)))
          else Ok (None, s))"

end
