(* ===== verification/Multiplex_Stream.thy ===== *)
theory Multiplex_Stream
  imports Multiplexer
begin

unbundle bit_operations_syntax

text \<open>
  The multiplexer as streams: what a thread writes is cut to blocks, the turns interleave the blocks of the threads,
  the state machine takes such a stream apart again, whatever pieces it arrives in, and the reader of a thread is the
  stream of its blocks.
\<close>

section \<open>The blocks of a thread\<close>

text \<open>Blocks of the full size, and one with what is left.\<close>

function blocks_of_bytes :: "bytes \<Rightarrow> bytes list" where
  "blocks_of_bytes bs = (if bs = [] then [] else take WRITE_BUFFER_SIZE bs # blocks_of_bytes (drop WRITE_BUFFER_SIZE bs))"
  by pat_completeness auto

termination blocks_of_bytes
  by (relation "measure length") (auto simp: WRITE_BUFFER_SIZE_def)

declare blocks_of_bytes.simps [simp del]

lemma blocks_of_bytes_Nil [simp]: "blocks_of_bytes [] = []"
  by (simp add: blocks_of_bytes.simps)

lemma concat_blocks [simp]: "concat (blocks_of_bytes bs) = bs"
  by (induction bs rule: blocks_of_bytes.induct) (subst blocks_of_bytes.simps, simp)

lemma blocks_full: "length b = WRITE_BUFFER_SIZE \<Longrightarrow> blocks_of_bytes (b @ bs) = b # blocks_of_bytes bs"
  by (subst blocks_of_bytes.simps) (auto simp: WRITE_BUFFER_SIZE_def)

lemma blocks_short: "bs \<noteq> [] \<Longrightarrow> length bs \<le> WRITE_BUFFER_SIZE \<Longrightarrow> blocks_of_bytes bs = [bs]"
  by (subst blocks_of_bytes.simps) simp

lemma blocks_of_bytes_length: "b \<in> set (blocks_of_bytes bs) \<Longrightarrow> 0 < length b \<and> length b \<le> WRITE_BUFFER_SIZE"
proof (induction bs rule: blocks_of_bytes.induct)
  case (1 bs)
  then show ?case by (subst (asm) (2) blocks_of_bytes.simps) (auto simp: WRITE_BUFFER_SIZE_def split: if_splits)
qed

text \<open>A writer has sent the full blocks of what it has been given, and holds the rest.\<close>

definition mw_holds :: "bytes \<Rightarrow> MultiplexWriter \<Rightarrow> bool" where
  "mw_holds out w \<longleftrightarrow> length (mw_buffer w) < WRITE_BUFFER_SIZE
    \<and> (\<exists>bs. mw_sent w = map (WriteBlock (mw_partition_id w)) bs \<and> (\<forall>b \<in> set bs. length b = WRITE_BUFFER_SIZE) \<and> out = concat bs @ mw_buffer w)"

lemma mw_step_holds:
  assumes "mw_holds out w"
  shows "mw_holds (out @ take (amount_to_copy buf w) buf) (mw_step buf w)" "mw_partition_id (mw_step buf w) = mw_partition_id w"
proof -
  from assms obtain bs where bs: "mw_sent w = map (WriteBlock (mw_partition_id w)) bs" "\<forall>b \<in> set bs. length b = WRITE_BUFFER_SIZE"
    "out = concat bs @ mw_buffer w" and len: "length (mw_buffer w) < WRITE_BUFFER_SIZE" by (auto simp: mw_holds_def)
  let ?b = "mw_buffer w @ take (amount_to_copy buf w) buf"
  have "length ?b \<le> WRITE_BUFFER_SIZE" using len by (simp add: amount_to_copy_def)
  then consider "length ?b = WRITE_BUFFER_SIZE" | "length ?b < WRITE_BUFFER_SIZE" by linarith
  then show "mw_holds (out @ take (amount_to_copy buf w) buf) (mw_step buf w)"
  proof cases
    case 1
    then have "?b \<noteq> []" by (auto simp: WRITE_BUFFER_SIZE_def)
    with 1 bs show ?thesis unfolding mw_holds_def
      by (intro conjI exI [of _ "bs @ [?b]"]) (auto simp: mw_step_def mw_flush_def Let_def WRITE_BUFFER_SIZE_def)
  next
    case 2
    with bs show ?thesis unfolding mw_holds_def
      by (intro conjI exI [of _ bs]) (auto simp: mw_step_def Let_def)
  qed
  show "mw_partition_id (mw_step buf w) = mw_partition_id w" by (simp add: mw_step_def mw_flush_def Let_def)
qed

lemma mw_write_holds:
  "mw_holds out w \<Longrightarrow> mw_holds (out @ buf) (mw_write buf w) \<and> mw_partition_id (mw_write buf w) = mw_partition_id w"
proof (induction buf w arbitrary: out rule: mw_write.induct)
  case (1 buf w)
  show ?case
  proof (cases "buf = []")
    case False
    from "1.IH" [OF False mw_step_holds(1) [OF "1.prems"]] mw_step_holds(2) [OF "1.prems"] False
    show ?thesis by (subst (1 2) mw_write.simps) simp
  qed (use "1.prems" in \<open>simp add: mw_write.simps\<close>)
qed

lemma mw_holds_new: "mw_holds [] \<lparr>mw_partition_id = i, mw_sent = [], mw_buffer = []\<rparr>"
  by (simp add: mw_holds_def WRITE_BUFFER_SIZE_def)

lemma blocks_of_full: "\<forall>b \<in> set bs. length b = WRITE_BUFFER_SIZE \<Longrightarrow> blocks_of_bytes (concat bs @ rest) = bs @ blocks_of_bytes rest"
  by (induction bs) (simp_all add: blocks_full)

lemma blocks_of_concat: "\<forall>b \<in> set bs. length b = WRITE_BUFFER_SIZE \<Longrightarrow> blocks_of_bytes (concat bs) = bs"
  using blocks_of_full [of bs "[]"] by simp

lemma mw_flush_sent: "mw_holds out w \<Longrightarrow> mw_sent (mw_flush w) = map (WriteBlock (mw_partition_id w)) (blocks_of_bytes out)"
  by (auto simp: mw_holds_def mw_flush_def blocks_of_full blocks_of_concat blocks_short)

text \<open>However the bytes are written, the messages are the same.\<close>

lemma mw_writes_sent:
  "mw_sent (mw_flush (fold mw_write parts \<lparr>mw_partition_id = i, mw_sent = [], mw_buffer = []\<rparr>)) = map (WriteBlock i) (blocks_of_bytes (concat parts))"
proof -
  have "mw_holds out w \<Longrightarrow> mw_holds (out @ concat parts) (fold mw_write parts w) \<and> mw_partition_id (fold mw_write parts w) = mw_partition_id w" for out w
  proof (induction parts arbitrary: out w)
    case (Cons p parts)
    from mw_write_holds [OF Cons.prems, of p] Cons.IH show ?case by fastforce
  qed simp
  from this [OF mw_holds_new, of i] mw_flush_sent show ?thesis by fastforce
qed

section \<open>The reader of a thread\<close>

text \<open>What is still to come from a channel: the blocks up to the end mark. A channel that is closed without one is an
  error.\<close>

fun channel_stream :: "Message list \<Rightarrow> ByteStream" where
  "channel_stream [] = \<lparr>stream_bytes = [], stream_error = Some OtherKind\<rparr>"
| "channel_stream (Eof tid # ms) = stream_of []"
| "channel_stream (WriteBlock tid b # ms) = pushed b (channel_stream ms)"

definition reader_stream :: "MultiplexReader \<Rightarrow> ByteStream" where
  "reader_stream r = pushed (mr_current r) (if mr_eof r then stream_of [] else channel_stream (mr_channel r))"

lemma reader_stream_new: "reader_stream (MultiplexReader_new ms) = channel_stream ms"
  by (simp add: reader_stream_def MultiplexReader_new_def)

lemma channel_stream_blocks: "channel_stream (map (WriteBlock i) bs @ [Eof j]) = stream_of (concat bs)"
  by (induction bs) (simp_all add: pushed_def stream_of_def)

text \<open>A read returns some of what is next, and nothing only at the end.\<close>

definition reads_from :: "nat \<Rightarrow> ByteStream \<Rightarrow> ErrorKind + (bytes \<times> MultiplexReader) \<Rightarrow> bool" where
  "reads_from n s res \<longleftrightarrow> (case res of
      Inr (bs, r) \<Rightarrow> s = pushed bs (reader_stream r) \<and> length bs \<le> n \<and> (bs = [] \<longrightarrow> stream_bytes s = [] \<and> stream_error s = None)
    | Inl e \<Rightarrow> stream_bytes s = [] \<and> stream_error s = Some e)"

lemma reads_buffered:
  "0 < n \<Longrightarrow> current \<noteq> [] \<Longrightarrow> reads_from n (pushed current (channel_stream ms)) (Inr (read_buffered ms n current))"
  by (simp add: reads_from_def read_buffered_def reader_stream_def pushed_append [symmetric])

lemma read_slow_stream: "0 < n \<Longrightarrow> reads_from n (pushed current (channel_stream ms)) (read_slow ms n current)"
proof (induction ms arbitrary: current)
  case Nil
  then show ?case using reads_buffered [OF Nil, of current "[]"] by (cases "current = []") (simp_all, simp add: reads_from_def)
next
  case (Cons m ms)
  show ?case
  proof (cases "current = []")
    case True
    show ?thesis
    proof (cases m)
      case (WriteBlock tid block)
      then show ?thesis using Cons True by simp
    qed (simp add: True reads_from_def reader_stream_def pushed_def stream_of_def)
  qed (use Cons.prems in \<open>simp add: reads_buffered\<close>)
qed

lemma mr_read_stream:
  assumes "0 < n"
  shows "reads_from n (reader_stream r) (mr_read n r)"
proof (cases "mr_current r = []")
  case True
  then show ?thesis
    using read_slow_stream [OF assms, where ms = "mr_channel r" and current = "[]"]
    by (cases "mr_eof r") (simp_all add: mr_read_def reader_stream_def, simp add: reads_from_def reader_stream_def stream_of_def)
next
  case False
  then show ?thesis using assms by (simp add: mr_read_def reads_from_def reader_stream_def Let_def pushed_append [symmetric])
qed

section \<open>The state machine\<close>

text \<open>The same machine on all that has arrived: it returns what it has left over.\<close>

function demultiplex :: "'r MultiplexReaderState \<Rightarrow> bytes \<Rightarrow> ('r MultiplexReaderState \<times> bytes) result" where
  "demultiplex s left =
    (case mrs_state s of
       StartBlock \<Rightarrow>
         if length left < 1 + mrs_retention s then Ok (s, left)
         else if sender_count s \<le> unat (left ! 0 AND 0xf) then err_exit_code BadLeptonFile
         else demultiplex (s\<lparr>mrs_state := after_marker (left ! 0)\<rparr>) (drop 1 left)
     | U16Length partition_id \<Rightarrow>
         if length left < 2 + mrs_retention s then Ok (s, left)
         else demultiplex (s\<lparr>mrs_state := after_length partition_id (take 2 left)\<rparr>) (drop 2 left)
     | Block partition_id data_length \<Rightarrow>
         if length left < data_length + mrs_retention s then Ok (s, left)
         else if sender_count s \<le> unat partition_id then panic
         else demultiplex (s\<lparr>mrs_sent := (mrs_sent s)[unat partition_id :=
             mrs_sent s ! unat partition_id @ [WriteBlock (unat partition_id) (take data_length left)]], mrs_state := StartBlock\<rparr>)
           (drop data_length left))"
  by pat_completeness auto

termination demultiplex
  by (relation "measures [\<lambda>(s, left). length left, \<lambda>(s, left). case mrs_state s of Block _ _ \<Rightarrow> 1 | _ \<Rightarrow> 0]") auto

declare demultiplex.simps [simp del]

definition stopped :: "bytes \<Rightarrow> PartialBuffer" where
  "stopped left = \<lparr>slice = [], extra_buffer = left, continue_processing = False\<rparr>"

lemma stopped_eq: "slice pb = [] \<Longrightarrow> \<not> continue_processing pb \<Longrightarrow> pb = stopped (input_left pb)"
  by (cases pb) (simp add: stopped_def input_left_def)

lemma process_demultiplex:
  "continue_processing source \<Longrightarrow> process_input s source = bindR (demultiplex s (input_left source)) (\<lambda>(s, left). Ok (s, stopped left))"
proof (induction s source rule: process_input.induct)
  case (1 s source)
  note cont = "1.prems"
  show ?case
  proof (cases "mrs_state s")
    case StartBlock
    show ?thesis
    proof (cases rule: take_bytes_cases [of 1 "mrs_retention s" source])
      case (1 bs pb')
      obtain b where b: "bs = [b]" using 1(3) by (cases bs) auto
      have "process_input s source = (if sender_count s \<le> unat (b AND 0xf) then err_exit_code BadLeptonFile
          else process_input (s\<lparr>mrs_state := after_marker b\<rparr>) pb')"
        using cont StartBlock 1(1) b by (subst process_input.simps) (simp add: take_n_is_take_bytes)
      moreover have "demultiplex s (input_left source) = (if sender_count s \<le> unat (b AND 0xf) then err_exit_code BadLeptonFile
          else demultiplex (s\<lparr>mrs_state := after_marker b\<rparr>) (input_left pb'))"
        using StartBlock 1(2,4) b by (subst demultiplex.simps) simp
      moreover note "1.IH"(1) [of "Some bs" pb' bs]
      ultimately show ?thesis using cont StartBlock 1 b by (simp add: take_n_is_take_bytes)
    next
      case (2 pb')
      have "process_input s source = Ok (s, pb')" using cont StartBlock 2(1)
        by (subst process_input.simps) (simp add: take_n_is_take_bytes)
      moreover have "demultiplex s (input_left source) = Ok (s, input_left source)"
        using StartBlock 2(5) by (subst demultiplex.simps) simp
      ultimately show ?thesis using stopped_eq [of pb'] 2(2-4) by simp
    qed
  next
    case (U16Length p)
    show ?thesis
    proof (cases rule: take_bytes_cases [of 2 "mrs_retention s" source])
      case (1 bs pb')
      have "process_input s source = process_input (s\<lparr>mrs_state := after_length p bs\<rparr>) pb'"
        using cont U16Length 1(1) by (subst process_input.simps) (simp add: take_n_is_take_bytes)
      moreover have "demultiplex s (input_left source) = demultiplex (s\<lparr>mrs_state := after_length p bs\<rparr>) (input_left pb')"
        using U16Length 1(2,3,4) by (subst demultiplex.simps) simp
      moreover note "1.IH"(2) [of p "Some bs" pb' bs]
      ultimately show ?thesis using cont U16Length 1 by (simp add: take_n_is_take_bytes)
    next
      case (2 pb')
      have "process_input s source = Ok (s, pb')" using cont U16Length 2(1)
        by (subst process_input.simps) (simp add: take_n_is_take_bytes)
      moreover have "demultiplex s (input_left source) = Ok (s, input_left source)"
        using U16Length 2(5) by (subst demultiplex.simps) simp
      ultimately show ?thesis using stopped_eq [of pb'] 2(2-4) by simp
    qed
  next
    case (Block p n)
    show ?thesis
    proof (cases rule: take_bytes_cases [of n "mrs_retention s" source])
      case (1 bs pb')
      let ?s = "s\<lparr>mrs_sent := (mrs_sent s)[unat p := mrs_sent s ! unat p @ [WriteBlock (unat p) bs]], mrs_state := StartBlock\<rparr>"
      have "process_input s source = (if sender_count s \<le> unat p then panic else process_input ?s pb')"
        using cont Block 1(1) by (subst process_input.simps) (simp add: Let_def)
      moreover have "demultiplex s (input_left source) = (if sender_count s \<le> unat p then panic else demultiplex ?s (input_left pb'))"
        using Block 1(2,3,4) by (subst demultiplex.simps) simp
      moreover note "1.IH"(3) [of p n "Some bs" pb' bs "unat p"]
      ultimately show ?thesis using cont Block 1 by (simp add: Let_def)
    next
      case (2 pb')
      have "process_input s source = Ok (s, pb')" using cont Block 2(1) by (subst process_input.simps) simp
      moreover have "demultiplex s (input_left source) = Ok (s, input_left source)"
        using Block 2(5) by (subst demultiplex.simps) simp
      ultimately show ?thesis using stopped_eq [of pb'] 2(2-4) by simp
    qed
  qed
qed

text \<open>Pieces do not matter: what is left over from one is put in front of the next.\<close>

lemma demultiplex_append:
  "demultiplex s (a @ b) = bindR (demultiplex s a) (\<lambda>(s, left). demultiplex s (left @ b))"
proof (induction s a rule: demultiplex.induct)
  case (1 s a)
  show ?case
  proof (cases "mrs_state s")
    case StartBlock
    show ?thesis
    proof (cases "length a < 1 + mrs_retention s")
      case True
      then have "demultiplex s a = Ok (s, a)" using StartBlock by (subst demultiplex.simps) simp
      then show ?thesis by simp
    next
      case False
      let ?s = "s\<lparr>mrs_state := after_marker (a ! 0)\<rparr>"
      have "a \<noteq> []" "\<not> length (a @ b) < 1 + mrs_retention s" using False by auto
      then have "demultiplex s (a @ b) = (if sender_count s \<le> unat (a ! 0 AND 0xf) then err_exit_code BadLeptonFile else demultiplex ?s (drop 1 a @ b))"
        "demultiplex s a = (if sender_count s \<le> unat (a ! 0 AND 0xf) then err_exit_code BadLeptonFile else demultiplex ?s (drop 1 a))"
        using StartBlock False by (subst demultiplex.simps, simp add: nth_append neq_Nil_conv)+
      then show ?thesis using "1.IH"(1) [OF StartBlock False] by auto
    qed
  next
    case (U16Length p)
    show ?thesis
    proof (cases "length a < 2 + mrs_retention s")
      case True
      then have "demultiplex s a = Ok (s, a)" using U16Length by (subst demultiplex.simps) simp
      then show ?thesis by simp
    next
      case False
      let ?s = "s\<lparr>mrs_state := after_length p (take 2 a)\<rparr>"
      have "demultiplex s (a @ b) = demultiplex ?s (drop 2 a @ b)" "demultiplex s a = demultiplex ?s (drop 2 a)"
        using U16Length False by (subst demultiplex.simps, simp)+
      then show ?thesis using "1.IH"(2) [OF U16Length False] by simp
    qed
  next
    case (Block p n)
    show ?thesis
    proof (cases "length a < n + mrs_retention s")
      case True
      then have "demultiplex s a = Ok (s, a)" using Block by (subst demultiplex.simps) simp
      then show ?thesis by simp
    next
      case False
      let ?s = "s\<lparr>mrs_sent := (mrs_sent s)[unat p := mrs_sent s ! unat p @ [WriteBlock (unat p) (take n a)]], mrs_state := StartBlock\<rparr>"
      have "demultiplex s (a @ b) = (if sender_count s \<le> unat p then panic else demultiplex ?s (drop n a @ b))"
        "demultiplex s a = (if sender_count s \<le> unat p then panic else demultiplex ?s (drop n a))"
        using Block False by (subst demultiplex.simps, simp)+
      then show ?thesis using "1.IH"(3) [OF Block False] by auto
    qed
  qed
qed

section \<open>The turns\<close>

lemma marker_facts:
  assumes "i < 16"
  shows "unat (of_nat i AND 0xf :: u8) = i" "(of_nat i :: u8) < 16" "unat (of_nat i :: u8) = i"
    "k \<in> {1, 2, 3 :: u8} \<Longrightarrow> unat ((of_nat i OR push_bit 4 k) AND 0xf) = i \<and> \<not> of_nat i OR push_bit 4 k < 16
      \<and> drop_bit 4 (of_nat i OR push_bit 4 k) AND 3 = k"
proof -
  have "list_all (\<lambda>i. unat (of_nat i AND 0xf :: u8) = i \<and> (of_nat i :: u8) < 16 \<and> unat (of_nat i :: u8) = i
    \<and> list_all (\<lambda>k. unat ((of_nat i OR push_bit 4 k) AND 0xf) = i \<and> \<not> of_nat i OR push_bit 4 k < 16
      \<and> drop_bit 4 (of_nat i OR push_bit 4 k) AND 3 = k) [1, 2, 3 :: u8]) [0..<16]" by code_simp
  with assms show "unat (of_nat i AND 0xf :: u8) = i" "(of_nat i :: u8) < 16" "unat (of_nat i :: u8) = i"
    "k \<in> {1, 2, 3 :: u8} \<Longrightarrow> unat ((of_nat i OR push_bit 4 k) AND 0xf) = i \<and> \<not> of_nat i OR push_bit 4 k < 16
      \<and> drop_bit 4 (of_nat i OR push_bit 4 k) AND 3 = k"
    unfolding list_all_iff by auto
qed

text \<open>The length of a block, by its header.\<close>

lemma header_special:
  assumes "length b - 1 \<in> {4095, 16383, 65535}" "i < 16"
  shows "\<exists>k \<in> {1, 2, 3 :: u8}. block_header i b = [of_nat i OR push_bit 4 k] \<and> 1024 * 2 ^ (2 * unat k) = length b"
proof -
  have "bit_len 4095 = 12" "bit_len 16383 = 14" "bit_len 65535 = 16" by (simp_all add: bit_len_pos)
  with assms(1) show ?thesis by (auto simp: block_header_def Let_def)
qed

lemma header_general:
  assumes "length b - 1 \<notin> {4095, 16383, 65535}" "0 < length b" "length b \<le> WRITE_BUFFER_SIZE"
  shows "\<exists>lo hi. block_header i b = [of_nat i, lo, hi] \<and> unat hi * 256 + unat lo + 1 = length b"
proof -
  let ?l = "length b - 1"
  have "?l < 65536" using assms(2,3) by (simp add: WRITE_BUFFER_SIZE_def)
  then have "?l div 256 < 256" by linarith
  have "(0xff :: u8) = - 1" by simp
  then have low: "of_nat n AND 0xff = (of_nat n :: u8)" for n by (simp only: and.right_neutral)
  have "unat (of_nat (?l div 256) :: u8) * 256 + unat (of_nat ?l :: u8) = ?l div 256 * 256 + ?l mod 256"
    using \<open>?l div 256 < 256\<close> by (simp add: unat_of_nat take_bit_eq_mod)
  moreover have "?l div 256 * 256 + ?l mod 256 + 1 = length b" using assms(2) by simp
  moreover have "block_header i b = [of_nat i, of_nat ?l, of_nat (?l div 256)]"
    using assms(1) by (simp only: block_header_def Let_def low) simp
  ultimately show ?thesis by (metis (no_types))
qed

definition send_block :: "nat \<Rightarrow> bytes \<Rightarrow> 'r MultiplexReaderState \<Rightarrow> 'r MultiplexReaderState" where
  "send_block i b s = s\<lparr>mrs_sent := (mrs_sent s)[i := mrs_sent s ! i @ [WriteBlock i b]]\<rparr>"

lemma demultiplex_block:
  assumes "mrs_state s = StartBlock" "i < sender_count s" "i < 16" "0 < length b" "length b \<le> WRITE_BUFFER_SIZE"
    and "mrs_retention s \<le> length rest"
  shows "demultiplex s (block_header i b @ b @ rest) = demultiplex (send_block i b s) rest"
proof -
  note M = marker_facts [OF assms(3)]
  let ?p = "of_nat i AND 0xf :: u8"
  have p: "unat ?p = i" by (rule M(1))
  have block: "demultiplex (s\<lparr>mrs_state := Block q (length b)\<rparr>) (b @ rest) = demultiplex (send_block i b s) rest" if "unat q = i" for q
  proof -
    have same: "s\<lparr>mrs_sent := x, mrs_state := StartBlock\<rparr> = s\<lparr>mrs_sent := x\<rparr>" for x using assms(1) by (cases s) simp
    have "sender_count (s\<lparr>mrs_state := Block q (length b)\<rparr>) = sender_count s" by (simp add: sender_count_def)
    then show ?thesis using assms(2,6) that
      by (subst demultiplex.simps) (simp add: send_block_def same)
  qed
  show ?thesis
  proof (cases "length b - 1 \<in> {4095, 16383, 65535}")
    case True
    from header_special [OF True assms(3)] obtain k where k: "k \<in> {1, 2, 3 :: u8}" "block_header i b = [of_nat i OR push_bit 4 k]"
      "1024 * 2 ^ (2 * unat k) = length b" by blast
    note K = M(4) [OF k(1)]
    let ?m = "of_nat i OR push_bit 4 k :: u8"
    have "after_marker ?m = Block (?m AND 0xf) (length b)"
      unfolding after_marker_def Let_def using K k(3) by simp
    moreover have "demultiplex s (?m # b @ rest) = demultiplex (s\<lparr>mrs_state := after_marker ?m\<rparr>) (b @ rest)"
      using assms K by (subst demultiplex.simps) simp
    ultimately show ?thesis using block [of "?m AND 0xf"] K k(2) by simp
  next
    case False
    from header_general [OF False assms(4,5), of i] obtain lo hi where h: "block_header i b = [of_nat i, lo, hi]"
      "unat hi * 256 + unat lo + 1 = length b" by blast
    have "after_marker (of_nat i) = U16Length ?p" using M(2) by (simp add: after_marker_def Let_def)
    then have "demultiplex s ([of_nat i, lo, hi] @ b @ rest) = demultiplex (s\<lparr>mrs_state := U16Length ?p\<rparr>) ([lo, hi] @ b @ rest)"
      using assms(1,2,6) p by (subst demultiplex.simps) simp
    also have "\<dots> = demultiplex (s\<lparr>mrs_state := after_length ?p [lo, hi]\<rparr>) (b @ rest)"
      using assms(6) by (subst demultiplex.simps) simp
    also have "after_length ?p [lo, hi] = Block ?p (length b)" using h(2) by (simp add: after_length_def)
    finally show ?thesis using block [OF p] h(1) by simp
  qed
qed

text \<open>The blocks of the threads: \<open>L\<close> is the circle, each thread with the blocks it has not yet written.\<close>

definition thread_messages :: "nat \<times> bytes list \<Rightarrow> Message list" where
  "thread_messages t = map (WriteBlock (fst t)) (snd t) @ [Eof (fst t)]"

definition deliver :: "(nat \<times> bytes list) list \<Rightarrow> 'r MultiplexReaderState \<Rightarrow> 'r MultiplexReaderState" where
  "deliver L s = s\<lparr>mrs_sent := map (\<lambda>j. mrs_sent s ! j @ (case map_of L j of None \<Rightarrow> [] | Some bs \<Rightarrow> map (WriteBlock j) bs))
    [0..<length (mrs_sent s)]\<rparr>"

definition circle_ok :: "(nat \<times> bytes list) list \<Rightarrow> nat \<Rightarrow> bool" where
  "circle_ok L n \<longleftrightarrow> distinct (map fst L) \<and> n \<le> 16
    \<and> (\<forall>(i, bs) \<in> set L. i < n \<and> (\<forall>b \<in> set bs. 0 < length b \<and> length b \<le> WRITE_BUFFER_SIZE))"

lemma send_block_simps [simp]:
  "mrs_state (send_block i b s) = mrs_state s" "sender_count (send_block i b s) = sender_count s"
  "mrs_retention (send_block i b s) = mrs_retention s" "length (mrs_sent (send_block i b s)) = length (mrs_sent s)"
  by (simp_all add: send_block_def sender_count_def)

lemma deliver_step:
  assumes "distinct (map fst (xs @ (i, b # bs) # ys))" "i < length (mrs_sent s)"
  shows "deliver (xs @ (i, bs) # ys) (send_block i b s) = deliver (xs @ (i, b # bs) # ys) s"
proof -
  have "map_of (xs @ (i, c) # ys) j = (if j = i then Some c else map_of (xs @ ys) j)" for c j
  proof (cases "j = i")
    case True
    then have "map_of xs j = None" using assms(1) by (auto simp: map_of_eq_None_iff)
    then show ?thesis using True by (simp add: map_add_def)
  qed (simp add: map_add_def split: option.splits)
  then show ?thesis using assms(2)
    by (auto simp: deliver_def send_block_def nth_list_update)
qed

lemma deliver_ended:
  assumes "distinct (map fst (xs @ (i, []) # ys))"
  shows "deliver (xs @ ys) s = deliver (xs @ (i, []) # ys) s"
proof -
  have "map_of xs i = None" "map_of ys i = None" using assms by (auto simp: map_of_eq_None_iff)
  then have "(case map_of (xs @ ys) j of None \<Rightarrow> [] | Some bs \<Rightarrow> map (WriteBlock j) bs)
      = (case map_of (xs @ (i, []) # ys) j of None \<Rightarrow> [] | Some bs \<Rightarrow> map (WriteBlock j) bs)" for j
    by (auto simp: map_add_def split: option.splits)
  then show ?thesis by (simp add: deliver_def)
qed

lemma write_turns_demultiplexed:
  "circle_ok L n \<Longrightarrow> c < length L \<Longrightarrow> \<exists>out. write_turns (map thread_messages L) c = Ok out
    \<and> (\<forall>s :: 'r MultiplexReaderState. \<forall>rest. mrs_state s = StartBlock \<and> sender_count s = n \<and> mrs_retention s \<le> length rest
        \<longrightarrow> demultiplex s (out @ rest) = demultiplex (deliver L s) rest)"
proof (induction "turns_left (map thread_messages L)" arbitrary: L c rule: less_induct)
  case less
  obtain xs i bs0 ys where L: "L = xs @ (i, bs0) # ys" and c: "c = length xs"
    using id_take_nth_drop [OF less.prems(2)] less.prems(2) by (metis length_take min.absorb2 nat_less_le prod.exhaust)
  have dist: "distinct (map fst L)" and i: "i < n" "i < 16" using less.prems(1) L by (auto simp: circle_ok_def)
  show ?case
  proof (cases bs0)
    case (Cons b bs)
    let ?L = "xs @ (i, bs) # ys"
    have b: "0 < length b" "length b \<le> WRITE_BUFFER_SIZE" using less.prems(1) L Cons by (auto simp: circle_ok_def)
    have ok: "circle_ok ?L n" using less.prems(1) L Cons by (auto simp: circle_ok_def)
    have "turns_left (map thread_messages ?L) < turns_left (map thread_messages L)"
      by (simp add: L Cons turns_left_def thread_messages_def)
    from less.hyps [OF this ok, of "(c + 1) mod length L"] L obtain out where
      out: "write_turns (map thread_messages ?L) ((c + 1) mod length L) = Ok out"
      "\<And>s :: 'r MultiplexReaderState. \<And>rest. mrs_state s = StartBlock \<Longrightarrow> sender_count s = n \<Longrightarrow> mrs_retention s \<le> length rest
        \<Longrightarrow> demultiplex s (out @ rest) = demultiplex (deliver ?L s) rest" by auto
    have "write_turns (map thread_messages L) c = Ok (block_header i b @ b @ out)"
      using out(1) by (subst write_turns.simps) (simp add: L c Cons thread_messages_def nth_append list_update_append)
    moreover have "demultiplex s ((block_header i b @ b @ out) @ rest) = demultiplex (deliver L s) rest"
      if s: "mrs_state s = StartBlock" "sender_count s = n" "mrs_retention s \<le> length rest" for s :: "'r MultiplexReaderState" and rest
    proof -
      have "i < length (mrs_sent s)" using i s(2) by (simp add: sender_count_def split: if_splits)
      then show ?thesis
        using demultiplex_block [of s i b "out @ rest"] out(2) [of "send_block i b s" rest] s i b dist
          deliver_step [of xs i b bs ys s] by (simp add: L Cons)
    qed
    ultimately show ?thesis by blast
  next
    case Nil
    let ?L = "xs @ ys"
    have ok: "circle_ok ?L n" using less.prems(1) L by (auto simp: circle_ok_def)
    define R where "R = map thread_messages L"
    have R: "c < length R" "R ! c = [Eof i]" "take c R @ drop (Suc c) R = map thread_messages ?L"
      by (simp_all add: R_def L c Nil thread_messages_def nth_append)
    have step: "write_turns R c = (if ?L = [] then Ok [] else write_turns (map thread_messages ?L) (c mod length ?L))"
      using R(1) by (subst write_turns.simps) (simp add: R(2,3) Let_def del: map_append length_append)
    have same: "deliver ?L s = deliver L s" for s :: "'r MultiplexReaderState" using deliver_ended [of xs i ys s] dist L Nil by simp
    show ?thesis
    proof (cases "?L = []")
      case True
      then have "deliver L s = s" if "mrs_state s = StartBlock" for s :: "'r MultiplexReaderState"
        unfolding same [symmetric] by (simp add: deliver_def map_nth)
      then show ?thesis using step True by (simp add: R_def)
    next
      case False
      have "turns_left (map thread_messages ?L) < turns_left (map thread_messages L)"
        by (simp add: L turns_left_def thread_messages_def)
      from less.hyps [OF this ok, of "c mod length ?L"] False step show ?thesis unfolding same R_def by auto
    qed
  qed
qed

section \<open>From the writers to the readers\<close>

lemma receive_results_Ok: "receive_results (map Inr rs) = Ok rs"
proof -
  have "receive_loop (map Inr rs) acc None = Ok (acc @ rs)" for acc by (induction rs arbitrary: acc) simp_all
  then show ?thesis by (simp add: receive_results_def)
qed

text \<open>The processor of a thread returns \<open>res i\<close> and writes \<open>parts i\<close>, one write after the other.\<close>

definition writes_parts :: "(MultiplexWriter \<Rightarrow> usize \<Rightarrow> 'a result \<times> MultiplexWriter) \<Rightarrow> nat \<Rightarrow> (nat \<Rightarrow> 'a) \<Rightarrow> (nat \<Rightarrow> bytes list) \<Rightarrow> bool" where
  "writes_parts processor n res parts \<longleftrightarrow> (\<forall>i < n. \<forall>w. processor w i = (Ok (res i), fold mw_write (parts i) w))"

lemma demultiplex_rest:
  "mrs_state s = StartBlock \<Longrightarrow> length rest = mrs_retention s \<Longrightarrow> demultiplex s rest = Ok (s, rest)"
  by (subst demultiplex.simps) simp

lemma multiplexed:
  assumes "writes_parts processor n res parts" "0 < n" "n \<le> 16" "work_is_done workers pool"
  obtains out where "multiplex_write n workers pool processor = Ok (map res [0..<n], out)"
    "\<And>ws par (outputs :: nat \<Rightarrow> 'v MultiplexReadResult list) rest. demultiplex (multiplex_read n ws par (length rest) outputs) (out @ rest) =
      Ok ((multiplex_read n ws par (length rest) outputs)\<lparr>mrs_sent := map (\<lambda>i. map (WriteBlock i) (blocks_of_bytes (concat (parts i)))) [0..<n]\<rparr>, rest)"
proof -
  define L where "L = map (\<lambda>i. (i, blocks_of_bytes (concat (parts i)))) [0..<n]"
  have ok: "circle_ok L n" using assms(3) blocks_of_bytes_length by (auto simp: circle_ok_def L_def o_def)
  have run: "run_processor processor i = (Ok (res i), thread_messages (i, blocks_of_bytes (concat (parts i))))" if "i < n" for i
    using assms(1) that mw_writes_sent [of "parts i" i] by (simp add: writes_parts_def run_processor_def thread_messages_def)
  have "map (run_processor processor) [0..<n] = map (\<lambda>i. (Ok (res i), thread_messages (i, blocks_of_bytes (concat (parts i))))) [0..<n]"
    using run by simp
  then have runs: "map snd (map (run_processor processor) [0..<n]) = map thread_messages L"
    "map fst (map (run_processor processor) [0..<n]) = map Inr (map res [0..<n])" by (simp_all add: L_def)
  have "0 < length L" using assms(2) by (simp add: L_def)
  from write_turns_demultiplexed [OF ok this] obtain out where
    out: "write_turns (map thread_messages L) 0 = Ok out" by blast
  have "demultiplex s (out @ rest) = Ok (s\<lparr>mrs_sent := map (\<lambda>i. map (WriteBlock i) (blocks_of_bytes (concat (parts i)))) [0..<n]\<rparr>, rest)"
    if s: "s = multiplex_read n ws par (length rest) outputs" for s :: "'v MultiplexReaderState" and ws par outputs rest
  proof -
    have f: "mrs_state s = StartBlock" "sender_count s = n" "mrs_retention s = length rest" "mrs_sent s = replicate n []"
      by (simp_all add: s multiplex_read_def sender_count_def)
    have lookup: "map_of L i = (if i < n then Some (blocks_of_bytes (concat (parts i))) else None)" for i
    proof -
      have "map_of (map (\<lambda>i. (i, f i)) [0..<n]) i = (if i < n then Some (f i) else None)" for f :: "nat \<Rightarrow> bytes list"
        by (auto simp: map_of_map_restrict restrict_map_def)
      then show ?thesis by (simp add: L_def)
    qed
    have "deliver L s = s\<lparr>mrs_sent := map (\<lambda>i. map (WriteBlock i) (blocks_of_bytes (concat (parts i)))) [0..<n]\<rparr>"
      unfolding deliver_def using f(4) by (auto simp: lookup intro!: arg_cong [where f = "\<lambda>x. s\<lparr>mrs_sent := x\<rparr>"])
    moreover have "demultiplex s (out @ rest) = demultiplex (deliver L s) rest"
      using write_turns_demultiplexed [OF ok \<open>0 < length L\<close>, where 'r = 'v] out f by auto
    ultimately show ?thesis using f demultiplex_rest [of "deliver L s" rest] by simp
  qed
  note stream = this
  have "multiplex_write n workers pool processor = Ok (map res [0..<n], out)"
    unfolding multiplex_write_def Let_def if_P [OF assms(4)] runs using out by (simp add: receive_results_Ok del: map_map)
  then show ?thesis using stream by (intro that) auto
qed

section \<open>The results of the readers\<close>

text \<open>Threads that do not fail send results and the end mark. Whatever has arrived at a poll, the results are received
  in the order of the threads.\<close>

definition thread_done :: "'r MultiplexReadResult list \<Rightarrow> bool" where
  "thread_done r \<longleftrightarrow> (\<exists>vs. r = map Result vs @ [Complete])"

fun thread_values :: "'r MultiplexReadResult list \<Rightarrow> 'r list" where
  "thread_values [] = []"
| "thread_values (Result v # ms) = v # thread_values ms"
| "thread_values (_ # ms) = thread_values ms"

definition values_of :: "'r MultiplexReadResult list list \<Rightarrow> 'r list" where
  "values_of rs = concat (map thread_values rs)"

lemma thread_values_done [simp]: "thread_values (map Result vs @ [Complete]) = vs"
  by (induction vs) simp_all

lemma thread_done_cases:
  assumes "thread_done r"
  obtains v ms where "r = Result v # ms" "thread_done ms" "thread_values r = v # thread_values ms" | "r = [Complete]"
proof -
  from assms obtain vs where vs: "r = map Result vs @ [Complete]" by (auto simp: thread_done_def)
  show ?thesis
  proof (cases vs)
    case (Cons v vs')
    then show ?thesis using that(1) [of v "map Result vs' @ [Complete]"] vs by (auto simp: thread_done_def)
  qed (use vs that(2) in simp)
qed

definition received :: "'r option \<Rightarrow> 'r list" where
  "received v = (case v of None \<Rightarrow> [] | Some v \<Rightarrow> [v])"

lemma poll_receivers_done:
  "list_all thread_done rs \<Longrightarrow> \<exists>v p rs'. poll_receivers ready polls rs = Ok (v, p, rs') \<and> list_all thread_done rs'
    \<and> values_of rs = received v @ values_of rs'"
proof (induction ready polls rs rule: poll_receivers.induct)
  case (2 ready polls r rs)
  show ?case
  proof (cases "ready polls")
    case True
    have "thread_done r" using "2.prems" by simp
    then show ?thesis
    proof (cases rule: thread_done_cases)
      case (1 v ms)
      then show ?thesis using True "2.prems" by (simp add: values_of_def received_def)
    next
      case 2
      then show ?thesis using True "2.prems" "2.IH" by (simp add: values_of_def)
    qed
  qed (use "2.prems" in \<open>simp add: received_def\<close>)
qed (simp add: values_of_def received_def)

lemma await_receivers_done:
  "list_all thread_done rs \<Longrightarrow> \<exists>v rs'. await_receivers rs = Ok (v, rs') \<and> list_all thread_done rs'
    \<and> values_of rs = received v @ values_of rs' \<and> (v = None \<longrightarrow> rs' = [])"
proof (induction rs rule: await_receivers.induct)
  case (2 r rs)
  have "thread_done r" using "2.prems" by simp
  then show ?case
  proof (cases rule: thread_done_cases)
    case (1 v ms)
    then show ?thesis using "2.prems" by (simp add: values_of_def received_def)
  next
    case 2
    then show ?thesis using "2.prems" "2.IH" by (simp add: values_of_def)
  qed
qed (simp add: values_of_def received_def)

definition receives :: "'r MultiplexReaderState \<Rightarrow> 'r option \<Rightarrow> 'r MultiplexReaderState \<Rightarrow> bool" where
  "receives s v s' \<longleftrightarrow> list_all thread_done (mrs_receivers s')
    \<and> values_of (mrs_receivers s) = received v @ values_of (mrs_receivers s')"

lemma try_get_result_done:
  assumes "list_all thread_done (mrs_receivers s)"
  shows "\<exists>v s'. try_get_result ready s = Ok (v, s') \<and> receives s v s'"
  using poll_receivers_done [OF assms, of ready "mrs_polls s"] by (auto simp: try_get_result_def receives_def)

lemma receives_trans: "receives s None s1 \<Longrightarrow> receives s1 v s2 \<Longrightarrow> receives s v s2"
  by (simp add: receives_def received_def)

lemma run_single_threaded_done:
  "list_all thread_done (mrs_receivers s) \<Longrightarrow> \<exists>v s'. run_single_threaded ready k s = Ok (v, s') \<and> receives s v s'"
proof (induction k arbitrary: s)
  case (Suc k)
  let ?s = "s\<lparr>mrs_work := Some k\<rparr>"
  from try_get_result_done [of ?s ready] Suc.prems obtain v s1 where
    1: "try_get_result ready ?s = Ok (v, s1)" "receives ?s v s1" by auto
  have s: "receives s v' s' \<longleftrightarrow> receives ?s v' s'" for v' s' by (simp add: receives_def)
  show ?case
  proof (cases v)
    case None
    then have "list_all thread_done (mrs_receivers s1)" using 1(2) by (simp add: receives_def)
    from Suc.IH [OF this] 1 None receives_trans [of ?s s1] show ?thesis by (auto simp: s)
  qed (use 1 s in auto)
qed (simp add: receives_def received_def)

text \<open>A result that is retrieved is the next one; at the end, none means that there are none.\<close>

lemma retrieve_result_done:
  assumes "list_all thread_done (mrs_receivers s)"
  shows "\<exists>v s'. retrieve_result ready complete s = Ok (v, s') \<and> receives s v s'
    \<and> (complete \<and> v = None \<longrightarrow> values_of (mrs_receivers s) = [] \<and> mrs_receivers s' = [])"
proof -
  from try_get_result_done [OF assms, of ready] obtain v s1 where 1: "try_get_result ready s = Ok (v, s1)" "receives s v s1" by blast
  show ?thesis
  proof (cases "v = None \<and> complete")
    case False
    then show ?thesis using 1 by (auto simp: retrieve_result_def split: option.splits)
  next
    case True
    have d1: "list_all thread_done (mrs_receivers s1)" using 1(2) by (simp add: receives_def)
    have c: "mrs_receivers (close_senders s1) = mrs_receivers s1" by (simp add: close_senders_def)
    obtain v2 s2 where 2: "(case mrs_work s1 of None \<Rightarrow> Ok (None, close_senders s1)
        | Some k \<Rightarrow> run_single_threaded ready k (close_senders s1)) = Ok (v2, s2)" "receives s1 v2 s2"
    proof (cases "mrs_work s1")
      case None
      then show ?thesis using that [of None "close_senders s1"] d1 c by (simp add: receives_def received_def)
    next
      case (Some k)
      from run_single_threaded_done [of "close_senders s1" ready k] d1 c obtain v2 s2 where
        "run_single_threaded ready k (close_senders s1) = Ok (v2, s2)" "receives (close_senders s1) v2 s2" by auto
      then show ?thesis using that Some c by (simp add: receives_def)
    qed
    show ?thesis
    proof (cases v2)
      case (Some r)
      then show ?thesis using True 1 2 receives_trans [of s s1 v2 s2] by (auto simp: retrieve_result_def)
    next
      case None
      have d2: "list_all thread_done (mrs_receivers s2)" using 2(2) by (simp add: receives_def)
      from await_receivers_done [OF d2] obtain v3 rs' where 3: "await_receivers (mrs_receivers s2) = Ok (v3, rs')"
        "list_all thread_done rs'" "values_of (mrs_receivers s2) = received v3 @ values_of rs'" "v3 = None \<longrightarrow> rs' = []" by blast
      have "retrieve_result ready complete s = Ok (v3, s2\<lparr>mrs_receivers := rs'\<rparr>)"
        using True 1 2(1) None 3(1) by (simp add: retrieve_result_def)
      moreover have "values_of (mrs_receivers s) = values_of (mrs_receivers s2)"
        using 1(2) 2(2) True None by (simp add: receives_def received_def)
      ultimately show ?thesis using 3(2-4) by (auto simp: receives_def received_def values_of_def)
    qed
  qed
qed

end
