(* ===== verification/Thread_Handoff.thy ===== *)
theory Thread_Handoff
  imports Byte_Stream Jpeg_Header
begin

text \<open>
  The segments of the threads (\<open>structs/thread_handoff.rs\<close>): the state of the JPEG writer at the start of a segment
  and the rows and the part of the file it covers, the bytes it is stored as, and segments that are joined. The
  fields a segment shares with \<open>RestartSegmentCodingInfo\<close> are those of that record.
\<close>

record ThreadHandoff = RestartSegmentCodingInfo +
  segment_offset_in_file :: u32
  segment_size :: u32

section \<open>Storing\<close>

definition serialize_handoff :: "ThreadHandoff \<Rightarrow> bytes" where
  "serialize_handoff th =
    le_bytes 2 (ucast (luma_y_start th) :: u16) @ le_bytes 4 (segment_size th) @ [overhang_byte th] @ [num_overhang_bits th]
      @ concat (map (\<lambda>i. le_bytes 2 (last_dc th ! i)) [0..<3]) @ concat (map (\<lambda>_. le_bytes 2 (0 :: u16)) [3..<4])"

definition serialize :: "ThreadHandoff list \<Rightarrow> bytes" where
  "serialize hs = [of_nat (length hs)] @ concat (map serialize_handoff hs)"

fun read_dcs :: "nat \<Rightarrow> ByteStream \<Rightarrow> (i16 list \<times> ByteStream) result" where
  "read_dcs 0 s = Ok ([], s)"
| "read_dcs (Suc n) s = bindR (read_u16_le s) (\<lambda>(v, s). bindR (read_dcs n s) (\<lambda>(vs, s). Ok (v # vs, s)))"

definition deserialize_handoff :: "ByteStream \<Rightarrow> (ThreadHandoff \<times> ByteStream) result" where
  "deserialize_handoff s =
    bindR (read_u16_le s) (\<lambda>(y, s).
    bindR (read_u32_le s) (\<lambda>(size, s).
    bindR (stream_u8 s) (\<lambda>(b, s).
    bindR (stream_u8 s) (\<lambda>(n, s).
    bindR (read_dcs 3 s) (\<lambda>(dcs, s).
    bindR (read_u16_le s) (\<lambda>(_, s).
      Ok (\<lparr>overhang_byte = b, num_overhang_bits = n, luma_y_start = ucast y, luma_y_end = 0, last_dc = dcs @ [0],
           segment_offset_in_file = 0, segment_size = size\<rparr>, s)))))))"

fun deserialize_loop :: "nat \<Rightarrow> ByteStream \<Rightarrow> (ThreadHandoff list \<times> ByteStream) result" where
  "deserialize_loop 0 s = Ok ([], s)"
| "deserialize_loop (Suc n) s =
    bindR (deserialize_handoff s) (\<lambda>(th, s). bindR (deserialize_loop n s) (\<lambda>(hs, s). Ok (th # hs, s)))"

text \<open>A segment ends where the next one starts.\<close>

definition fill_luma_ends :: "ThreadHandoff list \<Rightarrow> ThreadHandoff list" where
  "fill_luma_ends hs = fold (\<lambda>i hs. hs[i - 1 := (hs ! (i - 1))\<lparr>luma_y_end := luma_y_start (hs ! i)\<rparr>]) [1..<length hs] hs"

definition deserialize :: "u8 \<Rightarrow> ByteStream \<Rightarrow> (ThreadHandoff list \<times> ByteStream) result" where
  "deserialize num_threads s =
    bindR (deserialize_loop (unat num_threads) s) (\<lambda>(hs, s). Ok (fill_luma_ends hs, s))"

section \<open>Joining\<close>

definition get_combine_thread_range_segment_size :: "ThreadHandoff \<Rightarrow> ThreadHandoff \<Rightarrow> usize" where
  "get_combine_thread_range_segment_size a b =
    unat (segment_offset_in_file b - segment_offset_in_file a + segment_size b)"

definition combine_thread_ranges :: "ThreadHandoff \<Rightarrow> ThreadHandoff \<Rightarrow> ThreadHandoff" where
  "combine_thread_ranges a b =
    \<lparr>overhang_byte = overhang_byte a, num_overhang_bits = num_overhang_bits a, luma_y_start = luma_y_start a,
     luma_y_end = luma_y_end b, last_dc = last_dc a, segment_offset_in_file = segment_offset_in_file a,
     segment_size = of_nat (get_combine_thread_range_segment_size a b)\<rparr>"

section \<open>What is restored\<close>

definition handoff_ok :: "ThreadHandoff \<Rightarrow> bool" where
  "handoff_ok th \<longleftrightarrow> unat (luma_y_start th) < 2 ^ 16 \<and> length (last_dc th) = 4"

text \<open>The offset, the end of the last segment and the DC of a fourth component are not stored.\<close>

definition stored_handoff :: "ThreadHandoff \<Rightarrow> ThreadHandoff" where
  "stored_handoff th = th\<lparr>luma_y_end := 0, last_dc := (last_dc th)[3 := 0], segment_offset_in_file := 0\<rparr>"

definition stored_handoffs :: "ThreadHandoff list \<Rightarrow> ThreadHandoff list" where
  "stored_handoffs hs = map (\<lambda>i. (stored_handoff (hs ! i))
    \<lparr>luma_y_end := (if i + 1 < length hs then luma_y_start (hs ! (i + 1)) else 0)\<rparr>) [0..<length hs]"

lemma ucast_u16_u32: "unat (w :: u32) < 2 ^ 16 \<Longrightarrow> ucast (ucast w :: u16) = w"
  by (simp add: word_unat_eq_iff unat_ucast)

lemma deserialize_serialized_handoff:
  "handoff_ok th \<Longrightarrow> deserialize_handoff (pushed (serialize_handoff th) s) = Ok (stored_handoff th, s)"
proof -
  assume ok: "handoff_ok th"
  then have "length (last_dc th) = 4" by (simp add: handoff_ok_def)
  then obtain a b c d where dc: "last_dc th = [a, b, c, d]" by (auto simp: numeral_eq_Suc length_Suc_conv)
  have "[0..<3] = [0, 1, 2 :: nat]" "[3..<4] = [3 :: nat]" by (simp_all add: upt_rec)
  then have bytes: "serialize_handoff th = le_bytes 2 (ucast (luma_y_start th) :: u16) @ le_bytes 4 (segment_size th) @ [overhang_byte th]
    @ [num_overhang_bits th] @ le_bytes 2 a @ le_bytes 2 b @ le_bytes 2 c @ le_bytes 2 (0 :: u16)"
    by (simp add: serialize_handoff_def dc)
  show ?thesis
    unfolding bytes pushed_append deserialize_handoff_def numeral_3_eq_3 using ok
    by (simp add: stored_handoff_def dc ucast_u16_u32 handoff_ok_def)
qed

lemma deserialize_loop_serialized:
  "list_all handoff_ok hs \<Longrightarrow> deserialize_loop (length hs) (pushed (concat (map serialize_handoff hs)) s) = Ok (map stored_handoff hs, s)"
  by (induction hs) (simp_all add: pushed_append deserialize_serialized_handoff)

lemma fill_luma_ends_upto:
  fixes hs :: "ThreadHandoff list"
  defines "step \<equiv> \<lambda>i hs :: ThreadHandoff list. hs[i - 1 := (hs ! (i - 1))\<lparr>luma_y_end := luma_y_start (hs ! i)\<rparr>]"
  shows "k \<le> length hs \<Longrightarrow> length (fold step [1..<k] hs) = length hs
    \<and> (\<forall>i < length hs. fold step [1..<k] hs ! i = (if i + 1 < k then (hs ! i)\<lparr>luma_y_end := luma_y_start (hs ! (i + 1))\<rparr> else hs ! i))"
proof (induction k)
  case (Suc k)
  show ?case
  proof (cases "k = 0")
    case False
    then have "fold step [1..<Suc k] hs = step k (fold step [1..<k] hs)" by simp
    then show ?thesis using Suc False unfolding step_def by (auto simp: nth_list_update)
  qed simp
qed simp

lemma fill_luma_ends_stored: "fill_luma_ends (map stored_handoff hs) = stored_handoffs hs"
proof -
  note F = fill_luma_ends_upto [of "length hs" "map stored_handoff hs", folded fill_luma_ends_def, simplified]
  show ?thesis
  proof (rule nth_equalityI)
    show "length (fill_luma_ends (map stored_handoff hs)) = length (stored_handoffs hs)"
      using F by (simp add: fill_luma_ends_def stored_handoffs_def)
    fix i assume "i < length (fill_luma_ends (map stored_handoff hs))"
    then have "i < length hs" using F by (simp add: fill_luma_ends_def)
    then show "fill_luma_ends (map stored_handoff hs) ! i = stored_handoffs hs ! i"
      using F by (simp add: fill_luma_ends_def stored_handoffs_def stored_handoff_def)
  qed
qed

lemma deserialize_serialized:
  "length hs < 256 \<Longrightarrow> list_all handoff_ok hs \<Longrightarrow>
    \<exists>n. serialize hs = [n] @ concat (map serialize_handoff hs) \<and> unat n = length hs
      \<and> deserialize n (pushed (concat (map serialize_handoff hs)) s) = Ok (stored_handoffs hs, s)"
  by (simp add: serialize_def deserialize_def unat_of_nat take_bit_eq_mod deserialize_loop_serialized fill_luma_ends_stored)

end
