(* ===== verification/Lepton_Header.thy ===== *)
theory Lepton_Header
  imports Thread_Handoff Header_Inv Row_Spec
begin

unbundle bit_operations_syntax

text \<open>
  The header of a Lepton file (\<open>structs/lepton_header.rs\<close>): 28 bytes of fixed layout, the compressed header with
  what is needed to restore the JPEG file, and the marker behind it. Zlib is a parameter: \<open>compress\<close> is the
  encoder's result, and \<open>inflate\<close> the stream the decoder reads from the compressed bytes, which may end in an error.
\<close>

definition FIXED_HEADER_SIZE :: usize where
  "FIXED_HEADER_SIZE = 28"

definition LEPTON_VERSION :: u8 where
  "LEPTON_VERSION = 1"

definition LEPTON_FILE_HEADER :: bytes where
  "LEPTON_FILE_HEADER = [0xcf, 0x84]"

definition LEPTON_HEADER_BASELINE_JPEG_TYPE :: bytes where
  "LEPTON_HEADER_BASELINE_JPEG_TYPE = [0x5A]"

definition LEPTON_HEADER_PROGRESSIVE_JPEG_TYPE :: bytes where
  "LEPTON_HEADER_PROGRESSIVE_JPEG_TYPE = [0x58]"

definition LEPTON_HEADER_MARKER :: bytes where
  "LEPTON_HEADER_MARKER = [0x48, 0x44, 0x52]"

definition LEPTON_HEADER_PAD_MARKER :: bytes where
  "LEPTON_HEADER_PAD_MARKER = [0x50, 0x30, 0x44]"

definition LEPTON_HEADER_JPG_RESTARTS_MARKER :: bytes where
  "LEPTON_HEADER_JPG_RESTARTS_MARKER = [0x43, 0x52, 0x53]"

definition LEPTON_HEADER_JPG_RESTART_ERRORS_MARKER :: bytes where
  "LEPTON_HEADER_JPG_RESTART_ERRORS_MARKER = [0x46, 0x52, 0x53]"

definition LEPTON_HEADER_LUMA_SPLIT_MARKER :: bytes where
  "LEPTON_HEADER_LUMA_SPLIT_MARKER = [0x48, 0x48]"

definition LEPTON_HEADER_EARLY_EOF_MARKER :: bytes where
  "LEPTON_HEADER_EARLY_EOF_MARKER = [0x45, 0x45, 0x45]"

definition LEPTON_HEADER_PREFIX_GARBAGE_MARKER :: bytes where
  "LEPTON_HEADER_PREFIX_GARBAGE_MARKER = [0x50, 0x47, 0x52]"

definition LEPTON_HEADER_GARBAGE_MARKER :: bytes where
  "LEPTON_HEADER_GARBAGE_MARKER = [0x47, 0x52, 0x42]"

definition LEPTON_HEADER_COMPLETION_MARKER :: bytes where
  "LEPTON_HEADER_COMPLETION_MARKER = [0x43, 0x4D, 0x50]"

record LeptonHeader =
  lh_read_index :: usize
  lh_thread_handoff :: "ThreadHandoff list"
  lh_jpeg_header :: JpegHeader
  lh_rinfo :: ReconstructionInfo
  lh_jpeg_file_size :: u32
  lh_uncompressed_size :: "u32 option"
  lh_git_revision_prefix :: bytes
  lh_encoder_version :: u8

definition LeptonHeader_default :: LeptonHeader where
  "LeptonHeader_default =
    \<lparr>lh_read_index = 0, lh_thread_handoff = [], lh_jpeg_header = JpegHeader_default, lh_rinfo = ReconstructionInfo_default,
     lh_jpeg_file_size = 0, lh_uncompressed_size = None, lh_git_revision_prefix = [0, 0, 0, 0], lh_encoder_version = 0\<rparr>"

definition u32_at :: "bytes \<Rightarrow> nat \<Rightarrow> u32" where
  "u32_at header i = of_nat (from_le_bytes (take 4 (drop i header)))"

section \<open>Reading\<close>

text \<open>The argument is an array of \<open>FIXED_HEADER_SIZE\<close> bytes.\<close>

definition read_lepton_fixed_header ::
  "bytes \<Rightarrow> EnabledFeatures \<Rightarrow> LeptonHeader \<Rightarrow> (usize \<times> EnabledFeatures \<times> LeptonHeader) result"
where
  "read_lepton_fixed_header header features lh =
    (if take 2 header \<noteq> take 2 LEPTON_FILE_HEADER then err_exit_code BadLeptonFile
     else if header ! 2 \<noteq> LEPTON_VERSION then err_exit_code VersionUnsupported
     else if header ! 3 \<noteq> LEPTON_HEADER_BASELINE_JPEG_TYPE ! 0 \<and> header ! 3 \<noteq> LEPTON_HEADER_PROGRESSIVE_JPEG_TYPE ! 0
     then err_exit_code BadLeptonFile
     else
       let (features, lh) =
         (if header ! 8 = 0x4D \<and> header ! 9 = 0x53
          then let flags = header ! 14
               in (if flags AND 0x80 \<noteq> 0
                   then features\<lparr>use_16bit_dc_estimate := flags AND 0x01 \<noteq> 0, use_16bit_adv_predict := flags AND 0x02 \<noteq> 0\<rparr>
                   else features,
                   lh\<lparr>lh_uncompressed_size := Some (u32_at header 10), lh_encoder_version := header ! 15,
                      lh_git_revision_prefix := take 4 (drop 16 header)\<rparr>)
          else (features, lh\<lparr>lh_git_revision_prefix := take 4 (drop 8 header)\<rparr>))
       in Ok (unat (u32_at header 24), features, lh\<lparr>lh_jpeg_file_size := u32_at header 20\<rparr>))"

fun read_u32s :: "nat \<Rightarrow> ByteStream \<Rightarrow> (u32 list \<times> ByteStream) result" where
  "read_u32s 0 s = Ok ([], s)"
| "read_u32s (Suc n) s = bindR (read_u32_le s) (\<lambda>(v, s). bindR (read_u32s n s) (\<lambda>(vs, s). Ok (v # vs, s)))"

text \<open>A length in front of the bytes.\<close>

definition read_counted :: "ByteStream \<Rightarrow> (bytes \<times> ByteStream) result" where
  "read_counted s = bindR (read_u32_le s) (\<lambda>(n, s). stream_exact (unat n) s)"

definition u8_try_from :: "u32 \<Rightarrow> u8 result" where
  "u8_try_from v = (if unat v < 256 then Ok (ucast v) else err_exit_code IntegerCastOverflow)"

text \<open>A section of the compressed header, by its marker.\<close>

definition read_section :: "bytes \<Rightarrow> ByteStream \<Rightarrow> LeptonHeader \<Rightarrow> (LeptonHeader \<times> ByteStream) result" where
  "read_section marker s lh =
    (let ri = lh_rinfo lh
     in bindR (buffer_prefix_matches_marker marker LEPTON_HEADER_PAD_MARKER) (\<lambda>pad.
        if pad then bindR (stream_u8 s) (\<lambda>(b, s). Ok (lh\<lparr>lh_rinfo := ri\<lparr>pad_bit := Some b\<rparr>\<rparr>, s))
        else bindR (buffer_prefix_matches_marker marker LEPTON_HEADER_JPG_RESTARTS_MARKER) (\<lambda>crs.
        if crs then bindR (read_u32_le s) (\<lambda>(n, s). bindR (read_u32s (unat n) s) (\<lambda>(vs, s).
          Ok (lh\<lparr>lh_rinfo := ri\<lparr>rst_cnt_set := True, rst_cnt := rst_cnt ri @ vs\<rparr>\<rparr>, s)))
        else bindR (buffer_prefix_matches_marker marker LEPTON_HEADER_LUMA_SPLIT_MARKER) (\<lambda>hh.
        if hh then bindR (idx marker 2) (\<lambda>n. bindR (deserialize n s) (\<lambda>(hs, s).
          Ok (lh\<lparr>lh_thread_handoff := lh_thread_handoff lh @ hs\<rparr>, s)))
        else bindR (buffer_prefix_matches_marker marker LEPTON_HEADER_JPG_RESTART_ERRORS_MARKER) (\<lambda>frs.
        if frs then bindR (read_counted s) (\<lambda>(bs, s). Ok (lh\<lparr>lh_rinfo := ri\<lparr>rst_err := rst_err ri @ bs\<rparr>\<rparr>, s))
        else bindR (buffer_prefix_matches_marker marker LEPTON_HEADER_GARBAGE_MARKER) (\<lambda>grb.
        if grb then bindR (read_counted s) (\<lambda>(bs, s). Ok (lh\<lparr>lh_rinfo := ri\<lparr>garbage_data := bs\<rparr>\<rparr>, s))
        else bindR (buffer_prefix_matches_marker marker LEPTON_HEADER_EARLY_EOF_MARKER) (\<lambda>eee.
        if eee then
          bindR (read_u32_le s) (\<lambda>(mc, s). bindR (read_u32_le s) (\<lambda>(mb, s). bindR (read_u32_le s) (\<lambda>(ms, s).
          bindR (u8_try_from ms) (\<lambda>ms. bindR (read_u32s 4 s) (\<lambda>(md, s).
            Ok (lh\<lparr>lh_rinfo := ri\<lparr>max_cmp := mc, max_bpos := mb, max_sah := ms, max_dpos := md,
              early_eof_encountered := True\<rparr>\<rparr>, s))))))
        else err_exit_code BadLeptonFile)))))))"

text \<open>A section does not put anything back.\<close>

lemma io_read_exact_shorter: "io_read_exact n s = Inr (bs, s') \<Longrightarrow> length (stream_bytes s') + n = length (stream_bytes s) \<and> length bs = n"
  by (auto simp: io_read_exact_def split: if_splits)

lemma stream_exact_shorter: "stream_exact n s = Ok (bs, s') \<Longrightarrow> length (stream_bytes s') \<le> length (stream_bytes s)"
  using io_read_exact_shorter [of n s bs s'] by (auto simp: stream_exact_def split: sum.splits)

lemma read_word_shorter:
  "stream_u8 s = Ok (b, s') \<Longrightarrow> length (stream_bytes s') \<le> length (stream_bytes s)"
  "read_u16_le s = Ok (v, s') \<Longrightarrow> length (stream_bytes s') \<le> length (stream_bytes s)"
  "read_u32_le s = Ok (w, s') \<Longrightarrow> length (stream_bytes s') \<le> length (stream_bytes s)"
  using stream_exact_shorter by (fastforce simp: stream_u8_def read_u16_le_def read_u32_le_def stream_le_def)+

lemma read_counted_shorter: "read_counted s = Ok (bs, s') \<Longrightarrow> length (stream_bytes s') \<le> length (stream_bytes s)"
  using read_word_shorter(3) stream_exact_shorter by (fastforce simp: read_counted_def dest: le_trans)

lemma read_u32s_shorter: "read_u32s n s = Ok (vs, s') \<Longrightarrow> length (stream_bytes s') \<le> length (stream_bytes s)"
proof (induction n arbitrary: s vs)
  case (Suc n)
  then obtain v s1 vs' where 1: "read_u32_le s = Ok (v, s1)" and 2: "read_u32s n s1 = Ok (vs', s')" by auto
  from read_word_shorter(3) [OF 1] Suc.IH [OF 2] show ?case by simp
qed simp

lemma read_dcs_shorter: "read_dcs n s = Ok (vs, s') \<Longrightarrow> length (stream_bytes s') \<le> length (stream_bytes s)"
proof (induction n arbitrary: s vs)
  case (Suc n)
  then obtain v s1 vs' where 1: "read_u16_le s = Ok (v, s1)" and 2: "read_dcs n s1 = Ok (vs', s')" by auto
  from read_word_shorter(2) [OF 1] Suc.IH [OF 2] show ?case by simp
qed simp

lemma deserialize_handoff_shorter: "deserialize_handoff s = Ok (th, s') \<Longrightarrow> length (stream_bytes s') \<le> length (stream_bytes s)"
  unfolding deserialize_handoff_def
  by (auto dest!: read_word_shorter read_dcs_shorter)

lemma deserialize_loop_shorter: "deserialize_loop n s = Ok (hs, s') \<Longrightarrow> length (stream_bytes s') \<le> length (stream_bytes s)"
proof (induction n arbitrary: s hs)
  case (Suc n)
  then obtain th s1 hs' where 1: "deserialize_handoff s = Ok (th, s1)" and 2: "deserialize_loop n s1 = Ok (hs', s')" by auto
  from deserialize_handoff_shorter [OF 1] Suc.IH [OF 2] show ?case by simp
qed simp

lemma deserialize_shorter: "deserialize n s = Ok (hs, s') \<Longrightarrow> length (stream_bytes s') \<le> length (stream_bytes s)"
  by (auto simp: deserialize_def dest!: deserialize_loop_shorter)

lemma read_section_shorter: "read_section marker s lh = Ok (lh', s') \<Longrightarrow> length (stream_bytes s') \<le> length (stream_bytes s)"
  unfolding read_section_def Let_def bindR_eq_Inr
  by (elim exE conjE)
    (auto split: if_splits dest!: read_word_shorter read_counted_shorter read_u32s_shorter deserialize_shorter)

function read_sections :: "ByteStream \<Rightarrow> LeptonHeader \<Rightarrow> (LeptonHeader \<times> ByteStream) result" where
  "read_sections s lh =
    (case io_read_exact 3 s of
       Inl UnexpectedEof \<Rightarrow> Ok (lh, s\<lparr>stream_bytes := []\<rparr>)
     | Inl k \<Rightarrow> err_exit_code (get_io_error_exit_code k)
     | Inr (marker, s) \<Rightarrow> (case read_section marker s lh of Inl e \<Rightarrow> Inl e | Inr (lh, s) \<Rightarrow> read_sections s lh))"
  by pat_completeness auto

termination read_sections
  by (relation "measure (\<lambda>(s, _). length (stream_bytes s))")
    (auto dest!: io_read_exact_shorter read_section_shorter)

declare read_sections.simps [simp del]

definition read_lepton_compressed_header :: "ByteStream \<Rightarrow> LeptonHeader \<Rightarrow> (bytes \<times> LeptonHeader) result" where
  "read_lepton_compressed_header s lh =
    bindR (stream_exact 3 s) (\<lambda>(hdr_buf, s).
    bindR (buffer_prefix_matches_marker hdr_buf LEPTON_HEADER_MARKER) (\<lambda>ok.
      if \<not> ok then err_exit_code BadLeptonFile
      else bindR (read_counted s) (\<lambda>(hdr_data, s).
        let ri = lh_rinfo lh;
            lh = (if garbage_data ri = [] then lh\<lparr>lh_rinfo := ri\<lparr>garbage_data := [0xFF, 0xD9]\<rparr>\<rparr> else lh)
        in bindR (read_sections s lh) (\<lambda>(lh, s).
           bindR (stream_to_end s) (\<lambda>remaining.
           bindR (assertR (remaining = [])) (\<lambda>_. Ok (hdr_data, lh)))))))"

text \<open>The ends of the segments, and the size of the last one when the file was cut off.\<close>

definition clamp_handoffs :: "u32 \<Rightarrow> ThreadHandoff list \<Rightarrow> ThreadHandoff list result" where
  "clamp_handoffs max_luma hs =
    (let hs = map (\<lambda>th. th\<lparr>luma_y_start := min (luma_y_start th) max_luma, luma_y_end := min (luma_y_end th) max_luma\<rparr>) hs
     in if hs = [] then panic
        else Ok (hs[length hs - 1 := (hs ! (length hs - 1))\<lparr>luma_y_end := max_luma\<rparr>]))"

definition u32_try_from :: "usize \<Rightarrow> u32 result" where
  "u32_try_from n = (if n < 2 ^ 32 then Ok (of_nat n) else err_exit_code IntegerCastOverflow)"

definition shorten_last :: "LeptonHeader \<Rightarrow> LeptonHeader result" where
  "shorten_last lh =
    bindR (u32_try_from (length (garbage_data (lh_rinfo lh)))) (\<lambda>g.
    bindR (u32_try_from (lh_read_index lh)) (\<lambda>r.
      let hs = lh_thread_handoff lh;
          max_last = foldl (\<lambda>m th. m - segment_size th) (lh_jpeg_file_size lh - g - r - 2) (take (length hs - 1) hs);
          last = hs ! (length hs - 1)
      in Ok (if max_last < segment_size last
             then lh\<lparr>lh_thread_handoff := hs[length hs - 1 := last\<lparr>segment_size := max_last\<rparr>]\<rparr> else lh)))"

definition read_compressed_lepton_header ::
  "(bytes \<Rightarrow> ByteStream) \<Rightarrow> bytes \<Rightarrow> EnabledFeatures \<Rightarrow> usize \<Rightarrow> LeptonHeader \<Rightarrow> LeptonHeader result"
where
  "read_compressed_lepton_header inflate reader features compressed_header_size lh =
    (if unat (max_jpeg_file_size features) < compressed_header_size then err_exit_code BadLeptonFile
     else if max_jpeg_file_size features < lh_jpeg_file_size lh then err_exit_code BadLeptonFile
     else
       bindR (read_lepton_compressed_header (inflate (take compressed_header_size reader)) lh) (\<lambda>(raw, lh).
       bindR (parse features (lh_jpeg_header lh) (Mirror_new raw)) (\<lambda>((_, jf), m).
       bindR (TruncateComponents_init (mcuh jf) (mcuv jf) (cmp_info jf) (cmpc jf) (truncate_components (lh_rinfo lh))) (\<lambda>t.
       bindR (if early_eof_encountered (lh_rinfo lh)
              then set_truncation_bounds (cmp_info jf) (max_dpos (lh_rinfo lh)) t else Ok t) (\<lambda>t.
       let lh = lh\<lparr>lh_rinfo := (lh_rinfo lh)\<lparr>raw_jpeg_header := raw, truncate_components := t\<rparr>,
                   lh_read_index := amount_written m, lh_jpeg_header := jf\<rparr>
       in bindR (get_block_height t 0) (\<lambda>max_luma.
          bindR (clamp_handoffs max_luma (lh_thread_handoff lh)) (\<lambda>hs.
          let lh = lh\<lparr>lh_thread_handoff := hs\<rparr>
          in if early_eof_encountered (lh_rinfo lh) then shorten_last lh else Ok lh)))))))"

definition advance_next_header_segment :: "EnabledFeatures \<Rightarrow> LeptonHeader \<Rightarrow> (bool \<times> LeptonHeader) result" where
  "advance_next_header_segment features lh =
    (let raw = raw_jpeg_header (lh_rinfo lh)
     in if length raw < lh_read_index lh then panic
        else bindR (parse features (lh_jpeg_header lh) (Mirror_new (drop (lh_read_index lh) raw))) (\<lambda>((res, jf), m).
          Ok (res, lh\<lparr>lh_jpeg_header := jf, lh_read_index := lh_read_index lh + amount_written m\<rparr>)))"

section \<open>Writing\<close>

definition write_lepton_jpeg_header :: "LeptonHeader \<Rightarrow> bytes" where
  "write_lepton_jpeg_header lh =
    (let raw = raw_jpeg_header (lh_rinfo lh) in LEPTON_HEADER_MARKER @ le_bytes 4 (of_nat (length raw) :: u32) @ raw)"

definition write_lepton_pad_bit :: "LeptonHeader \<Rightarrow> bytes" where
  "write_lepton_pad_bit lh = LEPTON_HEADER_PAD_MARKER @ [case pad_bit (lh_rinfo lh) of None \<Rightarrow> 0 | Some b \<Rightarrow> b]"

definition write_lepton_luma_splits :: "LeptonHeader \<Rightarrow> bytes" where
  "write_lepton_luma_splits lh = LEPTON_HEADER_LUMA_SPLIT_MARKER @ serialize (lh_thread_handoff lh)"

definition write_lepton_jpeg_restarts_if_needed :: "LeptonHeader \<Rightarrow> bytes" where
  "write_lepton_jpeg_restarts_if_needed lh =
    (let cnt = rst_cnt (lh_rinfo lh)
     in if 0 < length cnt
        then LEPTON_HEADER_JPG_RESTARTS_MARKER @ le_bytes 4 (of_nat (length cnt) :: u32) @ concat (map (le_bytes 4) cnt)
        else [])"

definition write_lepton_jpeg_restart_errors_if_needed :: "LeptonHeader \<Rightarrow> bytes" where
  "write_lepton_jpeg_restart_errors_if_needed lh =
    (let e = rst_err (lh_rinfo lh)
     in if 0 < length e then LEPTON_HEADER_JPG_RESTART_ERRORS_MARKER @ le_bytes 4 (of_nat (length e) :: u32) @ e else [])"

definition write_lepton_early_eof_truncation_data_if_needed :: "LeptonHeader \<Rightarrow> bytes" where
  "write_lepton_early_eof_truncation_data_if_needed lh =
    (let ri = lh_rinfo lh
     in if early_eof_encountered ri
        then LEPTON_HEADER_EARLY_EOF_MARKER @ le_bytes 4 (max_cmp ri) @ le_bytes 4 (max_bpos ri)
          @ le_bytes 4 (ucast (max_sah ri) :: u32) @ concat (map (\<lambda>i. le_bytes 4 (max_dpos ri ! i)) [0..<4])
        else [])"

definition write_lepton_jpeg_garbage_if_needed :: "LeptonHeader \<Rightarrow> bool \<Rightarrow> bytes" where
  "write_lepton_jpeg_garbage_if_needed lh prefix_garbage =
    (let g = garbage_data (lh_rinfo lh)
     in if 0 < length g
        then (if prefix_garbage then LEPTON_HEADER_PREFIX_GARBAGE_MARKER else LEPTON_HEADER_GARBAGE_MARKER)
          @ le_bytes 4 (of_nat (length g) :: u32) @ g
        else [])"

definition lepton_header_contents :: "LeptonHeader \<Rightarrow> bytes" where
  "lepton_header_contents lh =
    write_lepton_jpeg_header lh @ write_lepton_pad_bit lh @ write_lepton_luma_splits lh
      @ write_lepton_jpeg_restarts_if_needed lh @ write_lepton_jpeg_restart_errors_if_needed lh
      @ write_lepton_early_eof_truncation_data_if_needed lh @ write_lepton_jpeg_garbage_if_needed lh False"

definition fixed_header :: "LeptonHeader \<Rightarrow> EnabledFeatures \<Rightarrow> nat \<Rightarrow> nat \<Rightarrow> bytes" where
  "fixed_header lh features contents_size compressed_size =
    LEPTON_FILE_HEADER @ [LEPTON_VERSION]
      @ (if jpeg_type (lh_jpeg_header lh) = Progressive then LEPTON_HEADER_PROGRESSIVE_JPEG_TYPE else LEPTON_HEADER_BASELINE_JPEG_TYPE)
      @ [of_nat (length (lh_thread_handoff lh))] @ [0, 0, 0] @ [0x4D] @ [0x53] @ le_bytes 4 (of_nat contents_size :: u32)
      @ [0x80 OR (if use_16bit_dc_estimate features then 1 else 0) OR (if use_16bit_adv_predict features then 2 else 0)]
      @ [lh_encoder_version lh] @ lh_git_revision_prefix lh @ le_bytes 4 (lh_jpeg_file_size lh)
      @ le_bytes 4 (of_nat compressed_size :: u32)"

definition write_lepton_header :: "(bytes \<Rightarrow> bytes) \<Rightarrow> EnabledFeatures \<Rightarrow> LeptonHeader \<Rightarrow> bytes" where
  "write_lepton_header compress features lh =
    (let lepton_header = lepton_header_contents lh; compressed_header = compress lepton_header
     in fixed_header lh features (length lepton_header) (length compressed_header) @ compressed_header @ LEPTON_HEADER_COMPLETION_MARKER)"

end
