(* ===== verification/Header_Roundtrip.thy ===== *)
theory Header_Roundtrip
  imports Lepton_Header
begin

unbundle bit_operations_syntax

text \<open>
  The header of a Lepton file that has been written is read again: the fixed part, each section of the compressed
  part, and what the JPEG header in it says.
\<close>

section \<open>The fixed part\<close>

lemma u32_at_prefix: "length a = i \<Longrightarrow> u32_at (a @ le_bytes 4 (w :: u32) @ b) i = w"
  using unat_lt2p [of w] by (simp add: u32_at_def from_le_bytes_small)

lemma simd_flags:
  "(0x80 OR (if a then 1 else 0) OR (if b then 2 else 0) :: u8) AND 0x80 \<noteq> 0"
  "((0x80 OR (if a then 1 else 0) OR (if b then 2 else 0) :: u8) AND 1 \<noteq> 0) = a"
  "((0x80 OR (if a then 1 else 0) OR (if b then 2 else 0) :: u8) AND 2 \<noteq> 0) = b"
  by (cases a; cases b; simp)+

lemma fixed_header_read:
  assumes "length (lh_git_revision_prefix lh) = 4" "zs < 2 ^ 32"
  shows "length (fixed_header lh features cs zs) = FIXED_HEADER_SIZE"
    and "read_lepton_fixed_header (fixed_header lh features cs zs) features0 lh0 =
      Ok (zs, features0\<lparr>use_16bit_dc_estimate := use_16bit_dc_estimate features, use_16bit_adv_predict := use_16bit_adv_predict features\<rparr>,
        lh0\<lparr>lh_uncompressed_size := Some (of_nat cs), lh_encoder_version := lh_encoder_version lh,
            lh_git_revision_prefix := lh_git_revision_prefix lh, lh_jpeg_file_size := lh_jpeg_file_size lh\<rparr>)"
proof -
  define t where "t = (if jpeg_type (lh_jpeg_header lh) = Progressive then 0x58 else 0x5A :: u8)"
  define fl where "fl = (0x80 OR (if use_16bit_dc_estimate features then 1 else 0) OR (if use_16bit_adv_predict features then 2 else 0) :: u8)"
  obtain g0 g1 g2 g3 where g: "lh_git_revision_prefix lh = [g0, g1, g2, g3]"
    using assms(1) by (auto simp: numeral_eq_Suc length_Suc_conv)
  define hd where "hd = fixed_header lh features cs zs"
  let ?cs = "of_nat cs :: u32" and ?zs = "of_nat zs :: u32"
  have hd: "hd = [0xcf, 0x84, 1, t, of_nat (length (lh_thread_handoff lh)), 0, 0, 0, 0x4D, 0x53] @ le_bytes 4 ?cs
      @ [fl, lh_encoder_version lh, g0, g1, g2, g3] @ le_bytes 4 (lh_jpeg_file_size lh) @ le_bytes 4 ?zs"
    by (simp add: hd_def fixed_header_def LEPTON_FILE_HEADER_def LEPTON_VERSION_def t_def fl_def g
        LEPTON_HEADER_PROGRESSIVE_JPEG_TYPE_def LEPTON_HEADER_BASELINE_JPEG_TYPE_def)
  show "length (fixed_header lh features cs zs) = FIXED_HEADER_SIZE"
    unfolding hd_def [symmetric] hd by (simp add: FIXED_HEADER_SIZE_def)
  have cs: "u32_at hd 10 = ?cs" and size: "u32_at hd 20 = lh_jpeg_file_size lh" and zs: "u32_at hd 24 = ?zs"
    unfolding hd
    using u32_at_prefix [of "[0xcf, 0x84, 1, t, of_nat (length (lh_thread_handoff lh)), 0, 0, 0, 0x4D, 0x53]" 10 ?cs]
      u32_at_prefix [of "[0xcf, 0x84, 1, t, of_nat (length (lh_thread_handoff lh)), 0, 0, 0, 0x4D, 0x53] @ le_bytes 4 ?cs
        @ [fl, lh_encoder_version lh, g0, g1, g2, g3]" 20 "lh_jpeg_file_size lh"]
      u32_at_prefix [of "[0xcf, 0x84, 1, t, of_nat (length (lh_thread_handoff lh)), 0, 0, 0, 0x4D, 0x53] @ le_bytes 4 ?cs
        @ [fl, lh_encoder_version lh, g0, g1, g2, g3] @ le_bytes 4 (lh_jpeg_file_size lh)" 24 ?zs "[]"] by simp_all
  have nth: "hd ! 2 = 1" "hd ! 3 = t" "hd ! 8 = 0x4D" "hd ! 9 = 0x53" "hd ! 14 = fl" "hd ! 15 = lh_encoder_version lh"
    "take 2 hd = [0xcf, 0x84]" "take 4 (drop 16 hd) = [g0, g1, g2, g3]"
    unfolding hd by (simp_all add: nth_append)
  have t: "t = 0x58 \<or> t = 0x5A" by (simp add: t_def)
  have "unat ?zs = zs" using assms(2) by (simp add: unat_of_nat take_bit_eq_mod)
  moreover note simd_flags [of "use_16bit_dc_estimate features" "use_16bit_adv_predict features", folded fl_def]
  ultimately show "read_lepton_fixed_header (fixed_header lh features cs zs) features0 lh0 =
      Ok (zs, features0\<lparr>use_16bit_dc_estimate := use_16bit_dc_estimate features, use_16bit_adv_predict := use_16bit_adv_predict features\<rparr>,
        lh0\<lparr>lh_uncompressed_size := Some (of_nat cs), lh_encoder_version := lh_encoder_version lh,
            lh_git_revision_prefix := lh_git_revision_prefix lh, lh_jpeg_file_size := lh_jpeg_file_size lh\<rparr>)"
    unfolding hd_def [symmetric] read_lepton_fixed_header_def nth cs size zs Let_def
    using t by (auto simp: LEPTON_FILE_HEADER_def LEPTON_VERSION_def LEPTON_HEADER_PROGRESSIVE_JPEG_TYPE_def
        LEPTON_HEADER_BASELINE_JPEG_TYPE_def g)
qed

section \<open>The sections\<close>

lemma section_step:
  assumes "length marker = 3" "read_section marker (pushed body s) lh = Ok (lh', s)"
  shows "read_sections (pushed (marker @ body) s) lh = read_sections s lh'"
  unfolding pushed_append using assms by (subst read_sections.simps) simp

lemma sections_end: "read_sections (stream_of []) lh = Ok (lh, stream_of [])"
  by (subst read_sections.simps) (simp add: io_read_exact_def stream_of_def)

lemmas marker_defs = LEPTON_HEADER_MARKER_def LEPTON_HEADER_PAD_MARKER_def LEPTON_HEADER_JPG_RESTARTS_MARKER_def
  LEPTON_HEADER_JPG_RESTART_ERRORS_MARKER_def LEPTON_HEADER_LUMA_SPLIT_MARKER_def LEPTON_HEADER_EARLY_EOF_MARKER_def
  LEPTON_HEADER_PREFIX_GARBAGE_MARKER_def LEPTON_HEADER_GARBAGE_MARKER_def

lemma read_counted_pushed:
  "length bs < 2 ^ 32 \<Longrightarrow> read_counted (pushed (le_bytes 4 (of_nat (length bs) :: u32) @ bs) s) = Ok (bs, s)"
  by (simp add: read_counted_def pushed_append unat_of_nat take_bit_eq_mod)

lemma read_u32s_pushed: "read_u32s (length vs) (pushed (concat (map (le_bytes 4) vs)) s) = Ok (vs, s)"
  by (induction vs) (simp_all add: pushed_append)

lemma section_pad:
  "read_sections (pushed (write_lepton_pad_bit lh) s) lh0 =
    read_sections s (lh0\<lparr>lh_rinfo := (lh_rinfo lh0)\<lparr>pad_bit := Some (case pad_bit (lh_rinfo lh) of None \<Rightarrow> 0 | Some b \<Rightarrow> b)\<rparr>\<rparr>)"
  unfolding write_lepton_pad_bit_def by (rule section_step) (simp_all add: read_section_def Let_def marker_defs)

lemma section_luma:
  assumes "length (lh_thread_handoff lh) < 256" "list_all handoff_ok (lh_thread_handoff lh)"
  shows "read_sections (pushed (write_lepton_luma_splits lh) s) lh0 =
    read_sections s (lh0\<lparr>lh_thread_handoff := lh_thread_handoff lh0 @ stored_handoffs (lh_thread_handoff lh)\<rparr>)"
proof -
  obtain n where n: "serialize (lh_thread_handoff lh) = [n] @ concat (map serialize_handoff (lh_thread_handoff lh))"
    "deserialize n (pushed (concat (map serialize_handoff (lh_thread_handoff lh))) s) = Ok (stored_handoffs (lh_thread_handoff lh), s)"
    using deserialize_serialized [OF assms] by metis
  have "write_lepton_luma_splits lh = [0x48, 0x48, n] @ concat (map serialize_handoff (lh_thread_handoff lh))"
    by (simp add: write_lepton_luma_splits_def n(1) marker_defs)
  moreover have "read_section [0x48, 0x48, n] (pushed (concat (map serialize_handoff (lh_thread_handoff lh))) s) lh0
      = Ok (lh0\<lparr>lh_thread_handoff := lh_thread_handoff lh0 @ stored_handoffs (lh_thread_handoff lh)\<rparr>, s)"
    using n(2) by (simp add: read_section_def Let_def marker_defs idx_def)
  ultimately show ?thesis using section_step [of "[0x48, 0x48, n]"] by (metis length_Cons list.size(3) numeral_3_eq_3)
qed

lemma section_restarts:
  assumes "length (rst_cnt (lh_rinfo lh)) < 2 ^ 32"
  shows "read_sections (pushed (write_lepton_jpeg_restarts_if_needed lh) s) lh0 =
    read_sections s (if rst_cnt (lh_rinfo lh) = [] then lh0
      else lh0\<lparr>lh_rinfo := (lh_rinfo lh0)\<lparr>rst_cnt_set := True, rst_cnt := rst_cnt (lh_rinfo lh0) @ rst_cnt (lh_rinfo lh)\<rparr>\<rparr>)"
proof (cases "rst_cnt (lh_rinfo lh) = []")
  case False
  let ?c = "rst_cnt (lh_rinfo lh)"
  have "read_section LEPTON_HEADER_JPG_RESTARTS_MARKER (pushed (le_bytes 4 (of_nat (length ?c) :: u32) @ concat (map (le_bytes 4) ?c)) s) lh0
    = Ok (lh0\<lparr>lh_rinfo := (lh_rinfo lh0)\<lparr>rst_cnt_set := True, rst_cnt := rst_cnt (lh_rinfo lh0) @ ?c\<rparr>\<rparr>, s)"
    using assms by (simp add: read_section_def Let_def marker_defs pushed_append unat_of_nat take_bit_eq_mod read_u32s_pushed)
  from section_step [OF _ this] False show ?thesis
    by (simp add: write_lepton_jpeg_restarts_if_needed_def Let_def) (simp add: marker_defs)
qed (simp add: write_lepton_jpeg_restarts_if_needed_def)

lemma section_restart_errors:
  assumes "length (rst_err (lh_rinfo lh)) < 2 ^ 32"
  shows "read_sections (pushed (write_lepton_jpeg_restart_errors_if_needed lh) s) lh0 =
    read_sections s (lh0\<lparr>lh_rinfo := (lh_rinfo lh0)\<lparr>rst_err := rst_err (lh_rinfo lh0) @ rst_err (lh_rinfo lh)\<rparr>\<rparr>)"
proof (cases "rst_err (lh_rinfo lh) = []")
  case False
  let ?e = "rst_err (lh_rinfo lh)"
  have "read_section LEPTON_HEADER_JPG_RESTART_ERRORS_MARKER (pushed (le_bytes 4 (of_nat (length ?e) :: u32) @ ?e) s) lh0
    = Ok (lh0\<lparr>lh_rinfo := (lh_rinfo lh0)\<lparr>rst_err := rst_err (lh_rinfo lh0) @ ?e\<rparr>\<rparr>, s)"
    using read_counted_pushed [OF assms] by (simp add: read_section_def Let_def marker_defs)
  from section_step [OF _ this] False show ?thesis
    by (simp add: write_lepton_jpeg_restart_errors_if_needed_def Let_def) (simp add: marker_defs)
qed (simp add: write_lepton_jpeg_restart_errors_if_needed_def)

lemma section_garbage:
  assumes "length (garbage_data (lh_rinfo lh)) < 2 ^ 32"
  shows "read_sections (pushed (write_lepton_jpeg_garbage_if_needed lh False) s) lh0 =
    read_sections s (if garbage_data (lh_rinfo lh) = [] then lh0
      else lh0\<lparr>lh_rinfo := (lh_rinfo lh0)\<lparr>garbage_data := garbage_data (lh_rinfo lh)\<rparr>\<rparr>)"
proof (cases "garbage_data (lh_rinfo lh) = []")
  case False
  let ?g = "garbage_data (lh_rinfo lh)"
  have "read_section LEPTON_HEADER_GARBAGE_MARKER (pushed (le_bytes 4 (of_nat (length ?g) :: u32) @ ?g) s) lh0
    = Ok (lh0\<lparr>lh_rinfo := (lh_rinfo lh0)\<lparr>garbage_data := ?g\<rparr>\<rparr>, s)"
    using read_counted_pushed [OF assms] by (simp add: read_section_def Let_def marker_defs)
  from section_step [OF _ this] False show ?thesis
    by (simp add: write_lepton_jpeg_garbage_if_needed_def Let_def) (simp add: marker_defs)
qed (simp add: write_lepton_jpeg_garbage_if_needed_def)

lemma section_early_eof:
  assumes "length (max_dpos (lh_rinfo lh)) = 4"
  shows "read_sections (pushed (write_lepton_early_eof_truncation_data_if_needed lh) s) lh0 =
    read_sections s (if early_eof_encountered (lh_rinfo lh)
      then lh0\<lparr>lh_rinfo := (lh_rinfo lh0)\<lparr>max_cmp := max_cmp (lh_rinfo lh), max_bpos := max_bpos (lh_rinfo lh),
        max_sah := max_sah (lh_rinfo lh), max_dpos := max_dpos (lh_rinfo lh), early_eof_encountered := True\<rparr>\<rparr>
      else lh0)"
proof (cases "early_eof_encountered (lh_rinfo lh)")
  case True
  let ?r = "lh_rinfo lh"
  have "map (\<lambda>i. le_bytes 4 (max_dpos ?r ! i)) [0..<4] = map (le_bytes 4) (max_dpos ?r)"
    using assms by (simp add: list_eq_iff_nth_eq)
  then have md: "read_u32s 4 (pushed (concat (map (\<lambda>i. le_bytes 4 (max_dpos ?r ! i)) [0..<4])) s) = Ok (max_dpos ?r, s)"
    using read_u32s_pushed [of "max_dpos ?r" s] assms by simp
  have sah: "u8_try_from (ucast (max_sah ?r)) = Ok (max_sah ?r)"
    using unat_lt2p [of "max_sah ?r"] by (simp add: u8_try_from_def unat_ucast word_unat_eq_iff)
  have "read_section LEPTON_HEADER_EARLY_EOF_MARKER (pushed (le_bytes 4 (max_cmp ?r) @ le_bytes 4 (max_bpos ?r)
          @ le_bytes 4 (ucast (max_sah ?r) :: u32) @ concat (map (\<lambda>i. le_bytes 4 (max_dpos ?r ! i)) [0..<4])) s) lh0
    = Ok (lh0\<lparr>lh_rinfo := (lh_rinfo lh0)\<lparr>max_cmp := max_cmp ?r, max_bpos := max_bpos ?r,
        max_sah := max_sah ?r, max_dpos := max_dpos ?r, early_eof_encountered := True\<rparr>\<rparr>, s)"
    unfolding pushed_append read_section_def using md sah by (simp add: marker_defs del: upt_rec_numeral)
  from section_step [OF _ this] True show ?thesis
    by (simp add: write_lepton_early_eof_truncation_data_if_needed_def Let_def del: upt_rec_numeral) (simp add: marker_defs del: upt_rec_numeral)
qed (simp add: write_lepton_early_eof_truncation_data_if_needed_def)


section \<open>The compressed part\<close>

text \<open>What can be stored: lengths of 32 bits and at most 255 segments.\<close>

definition storable :: "LeptonHeader \<Rightarrow> bool" where
  "storable lh \<longleftrightarrow> length (lh_thread_handoff lh) < 256 \<and> list_all handoff_ok (lh_thread_handoff lh)
    \<and> length (raw_jpeg_header (lh_rinfo lh)) < 2 ^ 32 \<and> length (rst_cnt (lh_rinfo lh)) < 2 ^ 32
    \<and> length (rst_err (lh_rinfo lh)) < 2 ^ 32 \<and> length (garbage_data (lh_rinfo lh)) < 2 ^ 32
    \<and> length (max_dpos (lh_rinfo lh)) = 4"

text \<open>The information about the JPEG file as a decoder that starts with \<open>r0\<close> has it.\<close>

definition restored_info :: "ReconstructionInfo \<Rightarrow> ReconstructionInfo \<Rightarrow> ReconstructionInfo" where
  "restored_info r r0 =
    (let g = (if garbage_data r = [] then [0xFF, 0xD9] else garbage_data r);
         ri = r0\<lparr>garbage_data := g, pad_bit := Some (case pad_bit r of None \<Rightarrow> 0 | Some b \<Rightarrow> b),
                rst_cnt := rst_cnt r, rst_cnt_set := rst_cnt r \<noteq> [], rst_err := rst_err r\<rparr>
     in if early_eof_encountered r
        then ri\<lparr>max_cmp := max_cmp r, max_bpos := max_bpos r, max_sah := max_sah r, max_dpos := max_dpos r,
               early_eof_encountered := True\<rparr>
        else ri)"

definition fresh_header :: "LeptonHeader \<Rightarrow> bool" where
  "fresh_header lh \<longleftrightarrow> lh_thread_handoff lh = [] \<and> lh_jpeg_header lh = JpegHeader_default \<and> lh_rinfo lh = ReconstructionInfo_default"

lemma contents_read:
  assumes ok: "storable lh" and fresh: "fresh_header lh0"
  shows "read_lepton_compressed_header (stream_of (lepton_header_contents lh)) lh0 =
    Ok (raw_jpeg_header (lh_rinfo lh), lh0\<lparr>lh_thread_handoff := stored_handoffs (lh_thread_handoff lh),
      lh_rinfo := restored_info (lh_rinfo lh) (lh_rinfo lh0)\<rparr>)"
proof -
  note F = fresh [unfolded fresh_header_def]
  define raw where "raw = raw_jpeg_header (lh_rinfo lh)"
  define lh1 where "lh1 = lh0\<lparr>lh_rinfo := (lh_rinfo lh0)\<lparr>garbage_data := [0xFF, 0xD9]\<rparr>\<rparr>"
  define tl where "tl = write_lepton_pad_bit lh @ write_lepton_luma_splits lh
      @ write_lepton_jpeg_restarts_if_needed lh @ write_lepton_jpeg_restart_errors_if_needed lh
      @ write_lepton_early_eof_truncation_data_if_needed lh @ write_lepton_jpeg_garbage_if_needed lh False"
  have bytes: "lepton_header_contents lh = LEPTON_HEADER_MARKER @ (le_bytes 4 (of_nat (length raw) :: u32) @ raw) @ tl"
    by (simp add: lepton_header_contents_def tl_def write_lepton_jpeg_header_def raw_def Let_def)
  have hdr: "stream_exact 3 (stream_of (lepton_header_contents lh))
      = Ok (LEPTON_HEADER_MARKER, pushed (le_bytes 4 (of_nat (length raw) :: u32) @ raw) (stream_of tl))"
    unfolding bytes stream_of_pushed [of "LEPTON_HEADER_MARKER @ _"] pushed_append
    by (simp add: marker_defs pushed_append stream_of_pushed [of tl])
  have raw: "read_counted (pushed (le_bytes 4 (of_nat (length raw) :: u32) @ raw) (stream_of tl)) = Ok (raw, stream_of tl)"
    using ok by (intro read_counted_pushed) (simp add: storable_def raw_def)
  have "read_sections (stream_of tl) lh1 = Ok (lh0\<lparr>lh_thread_handoff := stored_handoffs (lh_thread_handoff lh),
      lh_rinfo := restored_info (lh_rinfo lh) (lh_rinfo lh0)\<rparr>, stream_of [])"
    unfolding stream_of_pushed [of tl] unfolding tl_def pushed_append
    using ok F by (simp add: storable_def section_pad section_luma section_restarts section_restart_errors section_early_eof
        section_garbage sections_end lh1_def restored_info_def Let_def ReconstructionInfo_default_def)
  then show ?thesis unfolding read_lepton_compressed_header_def raw_def [symmetric]
    using F by (simp add: hdr raw lh1_def Let_def marker_defs ReconstructionInfo_default_def)
qed

text \<open>Segments that cover the rows from one to the next, the last one up to the end.\<close>

definition contiguous :: "u32 \<Rightarrow> ThreadHandoff list \<Rightarrow> bool" where
  "contiguous max_luma hs \<longleftrightarrow> hs \<noteq> [] \<and> luma_y_end (last hs) = max_luma
    \<and> (\<forall>i < length hs. luma_y_start (hs ! i) \<le> max_luma)
    \<and> (\<forall>i. i + 1 < length hs \<longrightarrow> luma_y_end (hs ! i) = luma_y_start (hs ! (i + 1)))"

text \<open>They come back but for the offset and the DC of a fourth component.\<close>

definition kept_handoff :: "ThreadHandoff \<Rightarrow> ThreadHandoff" where
  "kept_handoff th = th\<lparr>last_dc := (last_dc th)[3 := 0], segment_offset_in_file := 0\<rparr>"

lemma clamp_stored:
  assumes "contiguous max_luma hs"
  shows "clamp_handoffs max_luma (stored_handoffs hs) = Ok (map kept_handoff hs)"
proof -
  note C = assms [unfolded contiguous_def]
  let ?cl = "map (\<lambda>th. th\<lparr>luma_y_start := min (luma_y_start th) max_luma, luma_y_end := min (luma_y_end th) max_luma\<rparr>) (stored_handoffs hs)"
  let ?l = "length hs - 1"
  have len: "length ?cl = length hs" "0 < length hs" using C by (simp_all add: stored_handoffs_def)
  have "?cl[?l := (?cl ! ?l)\<lparr>luma_y_end := max_luma\<rparr>] = map kept_handoff hs"
  proof (rule nth_equalityI)
    fix i assume "i < length (?cl[?l := (?cl ! ?l)\<lparr>luma_y_end := max_luma\<rparr>])"
    then have i: "i < length hs" using len by simp
    have start: "luma_y_start (hs ! i) \<le> max_luma" using C i by simp
    show "?cl[?l := (?cl ! ?l)\<lparr>luma_y_end := max_luma\<rparr>] ! i = map kept_handoff hs ! i"
    proof (cases "i = ?l")
      case True
      then have "luma_y_end (hs ! i) = max_luma" using C last_conv_nth [of hs] by force
      then show ?thesis using i start True len by (simp add: stored_handoffs_def stored_handoff_def kept_handoff_def min_def)
    next
      case False
      then have j: "i + 1 < length hs" using i by simp
      then have "luma_y_start (hs ! (i + 1)) = luma_y_end (hs ! i)" "luma_y_start (hs ! (i + 1)) \<le> max_luma" using C by simp_all
      then show ?thesis using i j start False len
        by (simp add: stored_handoffs_def stored_handoff_def kept_handoff_def min_def)
    qed
  qed (use len in simp)
  then show ?thesis using len by (simp add: clamp_handoffs_def Let_def) (simp add: stored_handoffs_def)
qed

text \<open>What the mirror has read and what is left are the whole.\<close>

definition mirror_total :: "Mirror \<Rightarrow> nat" where
  "mirror_total m = amount_written m + length (mirrored m)"

lemma mirror_read_total: "mirror_read n m = (buf, m') \<Longrightarrow> mirror_total m' = mirror_total m"
  by (auto simp: mirror_read_def mirror_total_def Let_def)

lemma mirror_read_exact_total: "mirror_read_exact n m = Ok (buf, m') \<Longrightarrow> mirror_total m' = mirror_total m"
  by (auto simp: mirror_read_exact_def mirror_read_total split: if_splits prod.splits)

lemma parse_next_segment_total: "parse_next_segment features h m = Ok (r, m') \<Longrightarrow> mirror_total m' = mirror_total m"
proof -
  assume a: "parse_next_segment features h m = Ok (r, m')"
  obtain b0 m0 where 0: "mirror_read 1 m = (b0, m0)" by fastforce
  note total = mirror_read_total [OF 0] mirror_read_exact_total
  from a total(1) show ?thesis
    unfolding parse_next_segment_def 0 Let_def
    by (auto split: if_splits) (metis total(2))+
qed

lemma parse_segments_total: "parse_segments features h m = Ok (r, m') \<Longrightarrow> mirror_total m' = mirror_total m"
proof (induction features h m rule: parse_segments.induct)
  case (1 features h m)
  from "1.prems" obtain res h1 m1 where n: "parse_next_segment features h m = Ok ((res, h1), m1)"
    by (subst (asm) parse_segments.simps) (auto split: sum.splits)
  from "1.prems" n have "m' = m1 \<or> parse_segments features h1 m1 = Ok (r, m') \<and> res = ParseContinue"
    by (subst (asm) parse_segments.simps) (auto split: ParseSegmentResult.splits)
  then show ?case using parse_next_segment_total [OF n] "1.IH" [OF n refl refl] by auto
qed

lemma parse_written: "parse features h (Mirror_new raw) = Ok (r, m) \<Longrightarrow> amount_written m \<le> length raw"
  by (auto simp: parse_def split: if_splits dest!: parse_segments_total) (auto simp: mirror_total_def Mirror_new_def)

text \<open>A file that was cut off ends within its last segment, which is then no longer than what the file has left
  for it behind the other segments: the marker at its start, the header and what follows the scan are not part of them.\<close>

definition room_of_last :: "LeptonHeader \<Rightarrow> u32" where
  "room_of_last lh = lh_jpeg_file_size lh - (2 + of_nat (lh_read_index lh) + sum_list (map segment_size (butlast (lh_thread_handoff lh)))
     + of_nat (length (garbage_data (lh_rinfo lh))))"

definition last_fitted :: "LeptonHeader \<Rightarrow> LeptonHeader" where
  "last_fitted lh = (let hs = lh_thread_handoff lh
     in lh\<lparr>lh_thread_handoff := butlast hs @ [(last hs)\<lparr>segment_size := min (segment_size (last hs)) (room_of_last lh)\<rparr>]\<rparr>)"

lemma shorten_last_eq:
  assumes "lh_thread_handoff lh \<noteq> []" "length (garbage_data (lh_rinfo lh)) < 2 ^ 32" "lh_read_index lh < 2 ^ 32"
  shows "shorten_last lh = Ok (last_fitted lh)"
proof -
  obtain hs th where hs: "lh_thread_handoff lh = hs @ [th]" using assms(1) by (metis rev_exhaust)
  have minus: "foldl (\<lambda>m th. m - segment_size th) x ts = x - sum_list (map segment_size ts)" for x :: u32 and ts
    by (induction ts arbitrary: x) (simp_all add: algebra_simps)
  have same: "lh\<lparr>lh_thread_handoff := hs @ [th]\<rparr> = lh" using hs by (cases lh) simp
  show ?thesis
    using assms(2,3) same
    by (cases "room_of_last lh < segment_size th")
      (simp_all add: shorten_last_def last_fitted_def room_of_last_def u32_try_from_def hs minus min_def Let_def algebra_simps not_less)
qed

lemma compressed_header_read:
  assumes ok: "storable lh" and fresh: "fresh_header lh0"
    and zlib: "inflate (compress (lepton_header_contents lh)) = stream_of (lepton_header_contents lh)"
    and size: "length (compress (lepton_header_contents lh)) \<le> unat (max_jpeg_file_size features)"
      "lh_jpeg_file_size lh0 \<le> max_jpeg_file_size features"
    and parsed: "parse features JpegHeader_default (Mirror_new (raw_jpeg_header (lh_rinfo lh))) = Ok ((res, jf), m)"
    and init: "TruncateComponents_init (mcuh jf) (mcuv jf) (cmp_info jf) (cmpc jf) TruncateComponents_default = Ok t0"
    and bounds: "(if early_eof_encountered (lh_rinfo lh) then set_truncation_bounds (cmp_info jf) (max_dpos (lh_rinfo lh)) t0 else Ok t0) = Ok t"
    and rows: "get_block_height t 0 = Ok max_luma" "contiguous max_luma (lh_thread_handoff lh)"
    and restored: "restored = lh0\<lparr>lh_thread_handoff := map kept_handoff (lh_thread_handoff lh), lh_jpeg_header := jf, lh_read_index := amount_written m,
      lh_rinfo := (restored_info (lh_rinfo lh) ReconstructionInfo_default)
        \<lparr>raw_jpeg_header := raw_jpeg_header (lh_rinfo lh), truncate_components := t\<rparr>\<rparr>"
  shows "read_compressed_lepton_header inflate (compress (lepton_header_contents lh)) features
      (length (compress (lepton_header_contents lh))) lh0 =
    Ok (if early_eof_encountered (lh_rinfo lh) then last_fitted restored else restored)"
proof -
  let ?r = "restored_info (lh_rinfo lh) ReconstructionInfo_default"
  have r: "truncate_components ?r = TruncateComponents_default" "early_eof_encountered ?r = early_eof_encountered (lh_rinfo lh)"
    "early_eof_encountered (lh_rinfo lh) \<Longrightarrow> max_dpos ?r = max_dpos (lh_rinfo lh)"
    by (simp_all add: restored_info_def Let_def ReconstructionInfo_default_def)
  have lh0: "lh_jpeg_header lh0 = JpegHeader_default" "lh_rinfo lh0 = ReconstructionInfo_default"
    using fresh by (simp_all add: fresh_header_def)
  have "lh_thread_handoff lh \<noteq> []" using rows(2) by (simp add: contiguous_def)
  moreover have "length (garbage_data ?r) < 2 ^ 32" using ok by (simp add: restored_info_def storable_def Let_def)
  moreover have "amount_written m < 2 ^ 32" using parse_written [OF parsed] ok by (simp add: storable_def)
  ultimately have last: "shorten_last restored = Ok (last_fitted restored)" by (intro shorten_last_eq) (simp_all add: restored)
  have order: "restored = lh0\<lparr>lh_rinfo := ?r\<lparr>raw_jpeg_header := raw_jpeg_header (lh_rinfo lh), truncate_components := t\<rparr>,
      lh_read_index := amount_written m, lh_jpeg_header := jf, lh_thread_handoff := map kept_handoff (lh_thread_handoff lh)\<rparr>"
    by (simp add: restored)
  have fits: "\<not> max_jpeg_file_size features < lh_jpeg_file_size lh0" using size(2) by (simp add: not_less)
  show ?thesis
  proof (cases "early_eof_encountered (lh_rinfo lh)")
    case True
    then show ?thesis
      unfolding read_compressed_lepton_header_def take_all [OF order_refl] zlib contents_read [OF ok fresh]
      using size fits r parsed init bounds rows clamp_stored [OF rows(2)] last by (simp add: lh0 Let_def order)
  next
    case False
    then show ?thesis
      unfolding read_compressed_lepton_header_def take_all [OF order_refl] zlib contents_read [OF ok fresh]
      using size fits r parsed init bounds rows clamp_stored [OF rows(2)] by (simp add: lh0 Let_def order)
  qed
qed

section \<open>Accepted headers\<close>

lemma clamped_handoffs:
  "clamp_handoffs max_luma hs = Ok hs' \<Longrightarrow> hs' \<noteq> [] \<and> luma_y_end (last hs') = max_luma
    \<and> (\<forall>th \<in> set hs'. luma_y_start th \<le> max_luma \<and> luma_y_end th \<le> max_luma)"
  by (cases hs rule: rev_cases) (auto simp: clamp_handoffs_def Let_def nth_append list_update_append split: if_splits)

lemma shortened_handoffs:
  assumes "shorten_last lh = Ok lh'" "lh_thread_handoff lh \<noteq> []"
  shows "\<exists>hs. lh' = lh\<lparr>lh_thread_handoff := hs\<rparr> \<and> map luma_y_start hs = map luma_y_start (lh_thread_handoff lh)
    \<and> map luma_y_end hs = map luma_y_end (lh_thread_handoff lh)"
proof -
  have same: "map f (hs[i := (hs ! i)\<lparr>segment_size := v\<rparr>]) = map f hs"
    if "\<And>th v. f (th\<lparr>segment_size := v\<rparr>) = f th" for f :: "ThreadHandoff \<Rightarrow> 'c" and hs i v
    by (cases "i < length hs") (simp_all add: map_update that list_update_same_conv list_update_beyond)
  from assms(1) show ?thesis
    by (auto simp: shorten_last_def Let_def same intro: exI [of _ "lh_thread_handoff lh"] split: if_splits)
qed

text \<open>The header of an accepted file, whatever its bytes.\<close>

lemma parse_inv:
  assumes "parse features h m = Ok ((res, h'), m')" "header_inv (accept_invalid_dht features) h"
  shows "header_inv (accept_invalid_dht features) h'"
proof (cases res)
  case True
  then show ?thesis using parse_ok assms by (simp add: header_ok_def)
next
  case False
  then have "parse_segments features h m = Ok ((False, h'), m')" using assms(1) by (auto simp: parse_def split: if_splits)
  from parse_segments_inv [OF this assms(2)] show ?thesis by simp
qed

lemma read_section_header: "read_section marker s lh = Ok (lh', s') \<Longrightarrow> lh_jpeg_header lh' = lh_jpeg_header lh \<and> lh_jpeg_file_size lh' = lh_jpeg_file_size lh"
  unfolding read_section_def Let_def bindR_eq_Inr by (elim exE conjE) (auto split: if_splits)

lemma read_sections_header: "read_sections s lh = Ok (lh', s') \<Longrightarrow> lh_jpeg_header lh' = lh_jpeg_header lh \<and> lh_jpeg_file_size lh' = lh_jpeg_file_size lh"
proof (induction s lh rule: read_sections.induct)
  case (1 s lh)
  show ?case
  proof (cases "io_read_exact 3 s")
    case (Inl k)
    then show ?thesis using "1.prems" by (subst (asm) read_sections.simps) (cases k, auto)
  next
    case (Inr r)
    obtain marker s1 where r: "r = (marker, s1)" by fastforce
    from "1.prems" Inr r obtain lh2 s2 where 2: "read_section marker s1 lh = Ok (lh2, s2)" "read_sections s2 lh2 = Ok (lh', s')"
      by (subst (asm) read_sections.simps) (auto split: sum.splits)
    from read_section_header [OF 2(1)] "1.IH" [OF Inr r [symmetric] 2(1) refl 2(2)] show ?thesis by simp
  qed
qed

lemma read_lepton_compressed_header_header:
  "read_lepton_compressed_header s lh = Ok (raw, lh') \<Longrightarrow> lh_jpeg_header lh' = lh_jpeg_header lh \<and> lh_jpeg_file_size lh' = lh_jpeg_file_size lh"
  by (auto simp: read_lepton_compressed_header_def Let_def split: if_splits dest!: read_sections_header)

lemma read_compressed_shape:
  assumes "read_compressed_lepton_header inflate reader features n lh = Ok lh'"
    and "header_inv (accept_invalid_dht features) (lh_jpeg_header lh)"
  shows "header_inv (accept_invalid_dht features) (lh_jpeg_header lh') \<and> lh_read_index lh' \<le> length (raw_jpeg_header (lh_rinfo lh'))
    \<and> lh_thread_handoff lh' \<noteq> [] \<and> lh_jpeg_file_size lh' \<le> max_jpeg_file_size features
    \<and> (\<exists>max_luma. get_block_height (truncate_components (lh_rinfo lh')) 0 = Ok max_luma
        \<and> luma_y_end (last (lh_thread_handoff lh')) = max_luma
        \<and> (\<forall>th \<in> set (lh_thread_handoff lh'). luma_y_start th \<le> max_luma \<and> luma_y_end th \<le> max_luma))"
proof -
  note a = assms(1) [unfolded read_compressed_lepton_header_def Let_def]
  have small: "lh_jpeg_file_size lh \<le> max_jpeg_file_size features" using a by (auto split: if_splits)
  from a obtain raw lh1 res jf m t max_luma hs ri where
    h: "read_lepton_compressed_header (inflate (take n reader)) lh = Ok (raw, lh1)" and
    p: "parse features (lh_jpeg_header lh1) (Mirror_new raw) = Ok ((res, jf), m)" and
    b: "get_block_height t 0 = Ok max_luma" and
    c: "clamp_handoffs max_luma (lh_thread_handoff lh1) = Ok hs" and
    r: "(if early_eof_encountered (lh_rinfo lh1)
         then shorten_last (lh1\<lparr>lh_rinfo := (lh_rinfo lh1)\<lparr>raw_jpeg_header := raw, truncate_components := t\<rparr>,
           lh_read_index := amount_written m, lh_jpeg_header := jf, lh_thread_handoff := hs\<rparr>)
         else Ok (lh1\<lparr>lh_rinfo := (lh_rinfo lh1)\<lparr>raw_jpeg_header := raw, truncate_components := t\<rparr>,
           lh_read_index := amount_written m, lh_jpeg_header := jf, lh_thread_handoff := hs\<rparr>)) = Ok lh'"
    by (auto split: if_splits)
  note H = read_lepton_compressed_header_header [OF h] parse_inv [OF p] parse_written [OF p] clamped_handoffs [OF c]
  let ?lh = "lh1\<lparr>lh_rinfo := (lh_rinfo lh1)\<lparr>raw_jpeg_header := raw, truncate_components := t\<rparr>,
           lh_read_index := amount_written m, lh_jpeg_header := jf, lh_thread_handoff := hs\<rparr>"
  obtain hs' where hs': "lh' = ?lh\<lparr>lh_thread_handoff := hs'\<rparr>" "map luma_y_start hs' = map luma_y_start hs" "map luma_y_end hs' = map luma_y_end hs"
    using r shortened_handoffs [of ?lh lh'] H(4) by (cases "early_eof_encountered (lh_rinfo lh1)") auto
  have len: "length hs' = length hs" using map_eq_imp_length_eq [OF hs'(2)] .
  have nth: "luma_y_start (hs' ! i) = luma_y_start (hs ! i) \<and> luma_y_end (hs' ! i) = luma_y_end (hs ! i)" if "i < length hs" for i
    using that len hs'(2,3) by (metis nth_map)
  have "hs' \<noteq> []" using H(4) len by auto
  moreover from this have "luma_y_end (last hs') = max_luma" using H(4) len nth [of "length hs - 1"] by (cases "hs = []") (simp_all add: last_conv_nth)
  moreover have "luma_y_start th \<le> max_luma \<and> luma_y_end th \<le> max_luma" if "th \<in> set hs'" for th
    using that H(4) len nth by (metis in_set_conv_nth)
  ultimately show ?thesis using H(1-3) assms(2) small b by (simp add: hs'(1))
qed

end
