(* ===== verification/File_Reader.thy ===== *)
theory File_Reader
  imports Multiplex_Stream Lepton_Header Jpeg_Reader Scan_Writer
begin

unbundle bit_operations_syntax

text \<open>
  Decoding a Lepton file (\<open>structs/lepton_file_reader.rs\<close>): the threads that decode the segments, and the state
  machine that is fed the file in pieces and writes the JPEG file, piece by piece for a baseline file and at the
  end for a progressive one.

  What the threads send is a function of what they are sent until their channels are closed, \<open>final\<close> for each of
  them; \<open>ready\<close> says of each poll of a channel whether the next message has arrived. A thread that fails is modelled by
  its error only, without what it has sent before. The fuel \<open>n\<close> bounds the rows of a segment, the blocks of a row of
  MCUs, and the scans.
\<close>

text \<open>What the code runs on: the vectors, the allocator, the growth of the output buffer, the parallelism of the thread
  pool, and Zlib.\<close>

record Platform =
  pf_simd :: simd
  pf_simd16 :: simd16
  pf_alloc :: "nat \<Rightarrow> bool"
  pf_grow :: "usize \<Rightarrow> usize \<Rightarrow> usize"
  pf_max_parallelism :: usize
  pf_inflate :: "bytes \<Rightarrow> ByteStream"
  pf_compress :: "bytes \<Rightarrow> bytes"

text \<open>\<open>QuantizationTables::new\<close> and \<open>construct_quantization_tables\<close>, of all components\<close>

definition QuantizationTables_new :: "JpegHeader \<Rightarrow> nat \<Rightarrow> QuantizationTables result" where
  "QuantizationTables_new jf component =
    bindR (idx (cmp_info jf) component) (\<lambda>ci. bindR (idx (q_tables jf) (unat (q_table_index ci))) (\<lambda>q. Ok (new_from_table q)))"

fun quantization_tables_of :: "JpegHeader \<Rightarrow> nat list \<Rightarrow> QuantizationTables list result" where
  "quantization_tables_of jf [] = Ok []"
| "quantization_tables_of jf (i # is) =
    bindR (QuantizationTables_new jf i) (\<lambda>qt. bindR (quantization_tables_of jf is) (\<lambda>qts. Ok (qt # qts)))"

definition construct_quantization_tables :: "JpegHeader \<Rightarrow> QuantizationTables list result" where
  "construct_quantization_tables jf = quantization_tables_of jf [0..<cmpc jf]"

section \<open>The threads\<close>

definition BUFFER_SIZE :: usize where
  "BUFFER_SIZE = 128 * 1024"

text \<open>The writer of the segment, what may still be sent of its size, and what has been sent. Without fuel for a row of MCUs
  the state is lost.\<close>

type_synonym segment_output = "JpegIncrementalWriter \<times> usize \<times> bytes MultiplexReadResult list"

definition send_buffer :: "segment_output \<Rightarrow> segment_output" where
  "send_buffer = (\<lambda>(inc_writer, amount_left, sent).
    let (buf, inc_writer) = inc_detach_buffer inc_writer; buf = take amount_left buf
    in (inc_writer, amount_left - length buf, sent @ [Result buf]))"

fun baseline_row ::
  "nat \<Rightarrow> simd16 \<Rightarrow> RowSpec \<Rightarrow> BlockBasedImage list \<Rightarrow> segment_output option \<Rightarrow> segment_output option result"
where
  "baseline_row n V row_spec image_data None = Ok None"
| "baseline_row n V row_spec image_data (Some (inc_writer, amount_left, sent)) =
    (case inc_process_row n V row_spec image_data inc_writer of
       None \<Rightarrow> Ok None
     | Some r \<Rightarrow> bindR r (\<lambda>(_, inc_writer).
         Ok (Some (if BUFFER_SIZE \<le> inc_amount_buffered inc_writer then send_buffer (inc_writer, amount_left, sent)
                   else (inc_writer, amount_left, sent)))))"

definition baseline_decoding_thread ::
  "nat \<Rightarrow> Platform \<Rightarrow> bytes \<Rightarrow> EnabledFeatures \<Rightarrow> QuantizationTables list \<Rightarrow> ThreadHandoff \<Rightarrow> JpegHeader \<Rightarrow> ReconstructionInfo
    \<Rightarrow> bool \<Rightarrow> (unit result \<times> bytes MultiplexReadResult list) option"
where
  "baseline_decoding_thread n P reader features qt th jf rinfo is_last_thread =
    (let restart_info = \<lparr>overhang_byte = overhang_byte th, num_overhang_bits = num_overhang_bits th,
           luma_y_start = luma_y_start th, luma_y_end = luma_y_end th, last_dc = last_dc th\<rparr>;
         inc_writer = JpegIncrementalWriter_new BUFFER_SIZE (pf_grow P) rinfo (Some restart_info) jf 0
     in case lepton_decode_row_range n (pf_simd P) (pf_alloc P) qt (cmp_info jf) (cmpc jf) (truncate_components rinfo) reader
            (luma_y_start th) (luma_y_end th) is_last_thread True features
            (baseline_row n (pf_simd16 P)) (Some (inc_writer, unat (segment_size th), [])) of
          None \<Rightarrow> None
        | Some (Inl e) \<Rightarrow> Some (Inl e, [])
        | Some (Inr (_, None)) \<Rightarrow> None
        | Some (Inr (_, Some (inc_writer, amount_left, sent))) \<Rightarrow>
            Some (Ok (), sent @ [Result (take amount_left (fst (inc_detach_buffer inc_writer))), Complete]))"

definition progressive_decoding_thread ::
  "nat \<Rightarrow> Platform \<Rightarrow> bytes \<Rightarrow> EnabledFeatures \<Rightarrow> QuantizationTables list \<Rightarrow> ThreadHandoff \<Rightarrow> JpegHeader \<Rightarrow> ReconstructionInfo
    \<Rightarrow> bool \<Rightarrow> (unit result \<times> BlockBasedImage list MultiplexReadResult list) option"
where
  "progressive_decoding_thread n P reader features qt th jf rinfo is_last_thread =
    (case lepton_decode_row_range n (pf_simd P) (pf_alloc P) qt (cmp_info jf) (cmpc jf) (truncate_components rinfo) reader
            (luma_y_start th) (luma_y_end th) is_last_thread True features (\<lambda>_ _. Ok) () of
       None \<Rightarrow> None
     | Some (Inl e) \<Rightarrow> Some (Inl e, [])
     | Some (Inr (image_data, _)) \<Rightarrow> Some (Ok (), [Result image_data, Complete]))"

text \<open>A thread reads from its channel, as \<open>Multiplex_Stream\<close> has it. A channel without an end mark belongs to
  a run that has failed.\<close>

definition run_lepton_decoder_threads ::
  "LeptonHeader \<Rightarrow> EnabledFeatures \<Rightarrow> usize \<Rightarrow> usize \<Rightarrow> (nat \<Rightarrow> Message list)
    \<Rightarrow> (bytes \<Rightarrow> EnabledFeatures \<Rightarrow> QuantizationTables list \<Rightarrow> ThreadHandoff \<Rightarrow> JpegHeader \<Rightarrow> ReconstructionInfo
        \<Rightarrow> bool \<Rightarrow> (unit result \<times> 'r MultiplexReadResult list) option)
    \<Rightarrow> 'r MultiplexReaderState result option"
where
  "run_lepton_decoder_threads lh features retention_bytes max_parallelism final process =
    bindF (Some (construct_quantization_tables (lh_jpeg_header lh))) (\<lambda>qt.
      let hs = lh_thread_handoff lh;
          run = (\<lambda>thread_id reader. process (stream_bytes (reader_stream reader)) features qt (hs ! thread_id) (lh_jpeg_header lh)
                  (lh_rinfo lh) (thread_id = length hs - 1))
      in if list_ex (\<lambda>i. run i (MultiplexReader_new (final i)) = None) [0..<length hs] then None
         else Some (Ok (multiplex_read (length hs) (unat (max_processor_threads features)) max_parallelism retention_bytes
                (\<lambda>i. thread_outputs (\<lambda>i reader. the (run i reader)) i (final i)))))"

section \<open>Output\<close>

text \<open>\<open>LimitedOutputWriter\<close>: what may still be written, and what has been, one write after the other. The rest of
  a write is dropped.\<close>

definition limited_write :: "bytes \<Rightarrow> nat \<times> bytes list \<Rightarrow> nat \<times> bytes list" where
  "limited_write buf = (\<lambda>(amount_left, written).
    let to_write = min (length buf) amount_left in (amount_left - to_write, written @ [take to_write buf]))"

text \<open>\<open>FixedBufferOuputWriter\<close>: what is in the output buffer, its size, and the queue of the rest.\<close>

definition fixed_buffer_write :: "usize \<Rightarrow> bytes \<Rightarrow> bytes \<times> bytes \<Rightarrow> bytes \<times> bytes" where
  "fixed_buffer_write room buf = (\<lambda>(output_buffer, extra_queue).
    let amount_for_output = min (length buf) (room - length output_buffer)
    in (output_buffer @ take amount_for_output buf,
        if amount_for_output < length buf then extra_queue @ drop amount_for_output buf else extra_queue))"

section \<open>The state machine\<close>

datatype DecoderState = FixedHeader | CompressedHeader usize | CMP
  | ScanProgressive "BlockBasedImage list MultiplexReaderState" | ScanBaseline "bytes MultiplexReaderState" | Eoi

record LeptonFileReader =
  fr_state :: DecoderState
  fr_lh :: LeptonHeader
  fr_features :: EnabledFeatures
  fr_extra_buffer :: bytes
  fr_total_read_size :: nat
  fr_jpeg_file_size_left :: nat
  fr_input_complete :: bool

definition LeptonFileReader_new :: "EnabledFeatures \<Rightarrow> LeptonFileReader" where
  "LeptonFileReader_new features =
    \<lparr>fr_state = FixedHeader, fr_lh = LeptonHeader_default, fr_features = features, fr_extra_buffer = [],
     fr_total_read_size = 0, fr_jpeg_file_size_left = 0, fr_input_complete = False\<rparr>"

definition write_tail :: "LeptonHeader \<Rightarrow> nat \<times> bytes list \<Rightarrow> (nat \<times> bytes list) result" where
  "write_tail lh out =
    (let raw = raw_jpeg_header (lh_rinfo lh)
     in if length raw < lh_read_index lh then panic
        else Ok (limited_write (garbage_data (lh_rinfo lh)) (limited_write (drop (lh_read_index lh) raw) out)))"

definition write_start :: "LeptonHeader \<Rightarrow> nat \<times> bytes list \<Rightarrow> (nat \<times> bytes list) result" where
  "write_start lh out =
    (let raw = raw_jpeg_header (lh_rinfo lh)
     in if length raw < lh_read_index lh then panic
        else Ok (limited_write (take (lh_read_index lh) raw) (limited_write [0xFF, SOI] out)))"

text \<open>The images of one component in all segments, and the images of all components.\<close>

fun component_segments :: "BlockBasedImage list list \<Rightarrow> nat \<Rightarrow> BlockBasedImage list result" where
  "component_segments [] i = Ok []"
| "component_segments (s # ss) i = bindR (idx s i) (\<lambda>im. bindR (component_segments ss i) (\<lambda>ims. Ok (im # ims)))"

fun merge_components :: "(nat \<Rightarrow> bool) \<Rightarrow> BlockBasedImage list list \<Rightarrow> nat list \<Rightarrow> BlockBasedImage list result" where
  "merge_components alloc segments [] = Ok []"
| "merge_components alloc segments (i # is) =
    bindR (component_segments segments i) (\<lambda>ims. bindR (merge alloc ims) (\<lambda>im.
    bindR (merge_components alloc segments is) (\<lambda>ims. Ok (im # ims))))"

text \<open>The scans of a progressive file, each with the headers behind it.\<close>

fun progressive_scans ::
  "nat \<Rightarrow> nat \<Rightarrow> Platform \<Rightarrow> EnabledFeatures \<Rightarrow> BlockBasedImage list \<Rightarrow> nat \<Rightarrow> LeptonHeader \<Rightarrow> nat \<times> bytes list
    \<Rightarrow> (LeptonHeader \<times> nat \<times> bytes list) result option"
where
  "progressive_scans 0 n P features merged scnc lh out = None"
| "progressive_scans (Suc j) n P features merged scnc lh out =
    bindF (jpeg_write_entire_scan n n (pf_simd16 P) (pf_grow P) merged (lh_jpeg_header lh) (lh_rinfo lh) scnc) (\<lambda>scan.
      let out = limited_write scan out; old_pos = lh_read_index lh
      in bindF (Some (advance_next_header_segment features lh)) (\<lambda>(more, lh).
           let out = limited_write (take (lh_read_index lh - old_pos) (drop old_pos (raw_jpeg_header (lh_rinfo lh)))) out
           in if \<not> more then Some (Ok (lh, out)) else progressive_scans j n P features merged (scnc + 1) lh out))"

definition process_progressive ::
  "nat \<Rightarrow> Platform \<Rightarrow> EnabledFeatures \<Rightarrow> LeptonHeader \<Rightarrow> BlockBasedImage list list \<Rightarrow> nat \<times> bytes list
    \<Rightarrow> (LeptonHeader \<times> nat \<times> bytes list) result option"
where
  "process_progressive n P features lh image_segments out =
    bindF (Some (idx image_segments 0)) (\<lambda>first.
    bindF (Some (merge_components (pf_alloc P) image_segments [0..<length first])) (\<lambda>merged.
    bindF (Some (write_start lh out)) (\<lambda>out.
    bindF (progressive_scans n n P features merged 0 lh out) (\<lambda>(lh, out).
    bindF (Some (write_tail lh out)) (\<lambda>out. Some (Ok (lh, out)))))))"

definition process_cmp ::
  "nat \<Rightarrow> Platform \<Rightarrow> (nat \<Rightarrow> Message list) \<Rightarrow> bytes \<Rightarrow> LeptonHeader \<Rightarrow> EnabledFeatures \<Rightarrow> nat \<times> bytes list
    \<Rightarrow> (DecoderState \<times> nat \<times> bytes list) result option"
where
  "process_cmp n P final v lh features out =
    (if v \<noteq> LEPTON_HEADER_COMPLETION_MARKER then Some (err_exit_code BadLeptonFile)
     else if jpeg_type (lh_jpeg_header lh) = Progressive
     then bindF (run_lepton_decoder_threads lh features 4 (pf_max_parallelism P) final (progressive_decoding_thread n P)) (\<lambda>mux.
            Some (Ok (ScanProgressive mux, out)))
     else bindF (Some (write_start lh out)) (\<lambda>out.
          bindF (run_lepton_decoder_threads lh features 4 (pf_max_parallelism P) final (baseline_decoding_thread n P)) (\<lambda>mux.
            Some (Ok (ScanBaseline mux, out)))))"

definition verify_eof_file_size :: "nat \<Rightarrow> PartialBuffer \<Rightarrow> PartialBuffer result" where
  "verify_eof_file_size total_read_size in_buffer =
    (case take_n 4 0 in_buffer of
       (Some bs, in_buffer) \<Rightarrow>
         if from_le_bytes bs \<noteq> total_read_size then err_exit_code VerificationLengthMismatch else Ok in_buffer
     | (None, in_buffer) \<Rightarrow> err_exit_code VerificationLengthMismatch)"

text \<open>The loops over the results that are there, or over all that are still to come: a result that is retrieved is off
  its channel.\<close>

abbreviation messages_left :: "'r MultiplexReadResult list list \<Rightarrow> nat" where
  "messages_left rs \<equiv> sum_list (map length rs)"

lemma poll_receivers_left: "poll_receivers ready polls rs = Ok (v, p, rs') \<Longrightarrow>
    messages_left rs' + (if v = None then 0 else 1) \<le> messages_left rs"
  by (induction ready polls rs rule: poll_receivers.induct) (auto split: if_splits list.splits MultiplexReadResult.splits)

lemma await_receivers_left: "await_receivers rs = Ok (v, rs') \<Longrightarrow>
    messages_left rs' + (if v = None then 0 else 1) \<le> messages_left rs"
  by (induction rs rule: await_receivers.induct) (auto split: if_splits list.splits MultiplexReadResult.splits)

lemma try_get_result_left: "try_get_result ready s = Ok (v, s') \<Longrightarrow>
    messages_left (mrs_receivers s') + (if v = None then 0 else 1) \<le> messages_left (mrs_receivers s)"
  by (auto simp: try_get_result_def dest!: poll_receivers_left)

lemma run_single_threaded_left: "run_single_threaded ready k s = Ok (v, s') \<Longrightarrow>
    messages_left (mrs_receivers s') + (if v = None then 0 else 1) \<le> messages_left (mrs_receivers s)"
proof (induction ready k s rule: run_single_threaded.induct)
  case (2 ready k s)
  from "2.prems" obtain v1 s1 where 1: "try_get_result ready (s\<lparr>mrs_work := Some k\<rparr>) = Ok (v1, s1)"
    and 3: "(case v1 of Some v \<Rightarrow> Ok (Some v, s1) | None \<Rightarrow> run_single_threaded ready k s1) = Ok (v, s')" by auto
  show ?case
  proof (cases v1)
    case None
    from "2.IH" [OF 1 refl None] 3 try_get_result_left [OF 1] show ?thesis by (simp add: None)
  qed (use try_get_result_left [OF 1] 3 in auto)
qed simp

lemma close_senders_receivers [simp]: "mrs_receivers (close_senders s) = mrs_receivers s" "mrs_work (close_senders s) = mrs_work s"
  by (simp_all add: close_senders_def)

lemma retrieve_result_left:
  assumes "retrieve_result ready complete s = Ok (v, s')"
  shows "messages_left (mrs_receivers s') + (if v = None then 0 else 1) \<le> messages_left (mrs_receivers s)"
proof -
  from assms obtain v1 s1 where 1: "try_get_result ready s = Ok (v1, s1)" by (auto simp: retrieve_result_def)
  note L1 = try_get_result_left [OF 1]
  show ?thesis
  proof (cases "v1 = None \<and> complete")
    case False
    then have "v = v1" "s' = s1" using assms 1 by (auto simp: retrieve_result_def split: option.splits)
    then show ?thesis using L1 by simp
  next
    case True
    with assms 1 obtain v2 s2 where 2: "(case mrs_work s1 of None \<Rightarrow> Ok (None, close_senders s1)
        | Some k \<Rightarrow> run_single_threaded ready k (close_senders s1)) = Ok (v2, s2)"
      and 3: "(case v2 of Some v \<Rightarrow> Ok (Some v, s2)
        | None \<Rightarrow> bindR (await_receivers (mrs_receivers s2)) (\<lambda>(v, rs). Ok (v, s2\<lparr>mrs_receivers := rs\<rparr>))) = Ok (v, s')"
      by (auto simp: retrieve_result_def)
    have "messages_left (mrs_receivers s2) + (if v2 = None then 0 else 1) \<le> messages_left (mrs_receivers s1)"
      using 2 run_single_threaded_left [of ready _ "close_senders s1"] by (fastforce split: option.splits)
    then show ?thesis using 3 L1 True by (fastforce split: option.splits dest!: await_receivers_left)
  qed
qed

function retrieve_results ::
  "(nat \<Rightarrow> bool) \<Rightarrow> bool \<Rightarrow> 'r MultiplexReaderState \<Rightarrow> ('r list \<times> 'r MultiplexReaderState) result"
where
  "retrieve_results ready complete s =
    (case retrieve_result ready complete s of
       Inl e \<Rightarrow> Inl e
     | Inr (None, s) \<Rightarrow> Ok ([], s)
     | Inr (Some r, s) \<Rightarrow> bindR (retrieve_results ready complete s) (\<lambda>(rs, s). Ok (r # rs, s)))"
  by pat_completeness auto

termination retrieve_results
  by (relation "measure (\<lambda>(ready, complete, s). messages_left (mrs_receivers s))") (auto dest!: retrieve_result_left)

declare retrieve_results.simps [simp del]

text \<open>The restart markers behind the last interval, as the original implementation stores them.\<close>

definition rst_errors :: "LeptonHeader \<Rightarrow> nat \<times> bytes list \<Rightarrow> nat \<times> bytes list" where
  "rst_errors lh out =
    (if 0 < length (rst_err (lh_rinfo lh))
     then let jf = lh_jpeg_header lh;
              cumulative_reset_markers = ucast (if rsti jf \<noteq> 0 then (mcuc jf - 1) div rsti jf else 0) :: u8
          in fold (\<lambda>i. limited_write [0xFF, RST0 + ((cumulative_reset_markers + of_nat i) AND 7)])
               [0..<unat (rst_err (lh_rinfo lh) ! 0)] out
     else out)"

text \<open>One turn of the loop of \<open>process_buffer\<close>, in each state\<close>

type_synonym turn = "LeptonFileReader \<times> PartialBuffer \<times> nat \<times> bytes list"

definition fixed_header_turn :: "LeptonFileReader \<Rightarrow> PartialBuffer \<Rightarrow> nat \<times> bytes list \<Rightarrow> turn result" where
  "fixed_header_turn r in_buffer out =
    (case take_bytes FIXED_HEADER_SIZE 0 in_buffer of
       (None, in_buffer) \<Rightarrow> Ok (r, in_buffer, out)
     | (Some v, in_buffer) \<Rightarrow>
         bindR (read_lepton_fixed_header v (fr_features r) (fr_lh r)) (\<lambda>(compressed_header_size, features, lh).
           Ok (r\<lparr>fr_state := CompressedHeader compressed_header_size, fr_features := features, fr_lh := lh\<rparr>, in_buffer,
               unat (lh_jpeg_file_size lh), snd out)))"

definition compressed_header_turn ::
  "Platform \<Rightarrow> usize \<Rightarrow> LeptonFileReader \<Rightarrow> PartialBuffer \<Rightarrow> nat \<times> bytes list \<Rightarrow> turn result"
where
  "compressed_header_turn P compressed_length r in_buffer out =
    (case take_bytes compressed_length 0 in_buffer of
       (None, in_buffer) \<Rightarrow> Ok (r, in_buffer, out)
     | (Some v, in_buffer) \<Rightarrow>
         bindR (read_compressed_lepton_header (pf_inflate P) v (fr_features r) compressed_length (fr_lh r)) (\<lambda>lh.
           Ok (r\<lparr>fr_state := CMP, fr_lh := lh\<rparr>, in_buffer, out)))"

definition cmp_turn ::
  "nat \<Rightarrow> Platform \<Rightarrow> (nat \<Rightarrow> Message list) \<Rightarrow> LeptonFileReader \<Rightarrow> PartialBuffer \<Rightarrow> nat \<times> bytes list \<Rightarrow> turn result option"
where
  "cmp_turn n P final r in_buffer out =
    (case take_bytes 3 0 in_buffer of
       (None, in_buffer) \<Rightarrow> Some (Ok (r, in_buffer, out))
     | (Some v, in_buffer) \<Rightarrow>
         bindF (process_cmp n P final v (fr_lh r) (fr_features r) out) (\<lambda>(state, out).
           Some (Ok (r\<lparr>fr_state := state\<rparr>, in_buffer, out))))"

definition progressive_turn ::
  "nat \<Rightarrow> Platform \<Rightarrow> (nat \<Rightarrow> bool) \<Rightarrow> bool \<Rightarrow> BlockBasedImage list MultiplexReaderState \<Rightarrow> LeptonFileReader \<Rightarrow> PartialBuffer
    \<Rightarrow> nat \<times> bytes list \<Rightarrow> turn result option"
where
  "progressive_turn n P ready input_complete state r in_buffer out =
    bindF (Some (process_input state in_buffer)) (\<lambda>(state, in_buffer).
      if \<not> input_complete then Some (Ok (r\<lparr>fr_state := ScanProgressive state\<rparr>, in_buffer, out))
      else
        bindF (Some (verify_eof_file_size (fr_total_read_size r) in_buffer)) (\<lambda>in_buffer.
        bindF (Some (retrieve_results ready True state)) (\<lambda>(results, state).
        bindF (process_progressive n P (fr_features r) (fr_lh r) results out) (\<lambda>(lh, out).
          Some (Ok (r\<lparr>fr_state := Eoi, fr_lh := lh\<rparr>, in_buffer, out))))))"

definition baseline_turn ::
  "(nat \<Rightarrow> bool) \<Rightarrow> bool \<Rightarrow> bytes MultiplexReaderState \<Rightarrow> LeptonFileReader \<Rightarrow> PartialBuffer \<Rightarrow> nat \<times> bytes list \<Rightarrow> turn result"
where
  "baseline_turn ready input_complete state r in_buffer out =
    bindR (process_input state in_buffer) (\<lambda>(state, in_buffer).
    bindR (retrieve_results ready False state) (\<lambda>(results, state).
    let out = fold limited_write results out
    in if \<not> input_complete then Ok (r\<lparr>fr_state := ScanBaseline state\<rparr>, in_buffer, out)
       else
         bindR (verify_eof_file_size (fr_total_read_size r) in_buffer) (\<lambda>in_buffer.
         bindR (retrieve_results ready True state) (\<lambda>(results, state).
         bindR (write_tail (fr_lh r) (rst_errors (fr_lh r) (fold limited_write results out))) (\<lambda>out.
           Ok (r\<lparr>fr_state := Eoi\<rparr>, in_buffer, out))))))"

definition process_turn ::
  "nat \<Rightarrow> Platform \<Rightarrow> (nat \<Rightarrow> bool) \<Rightarrow> (nat \<Rightarrow> Message list) \<Rightarrow> bool \<Rightarrow> LeptonFileReader \<Rightarrow> PartialBuffer \<Rightarrow> nat \<times> bytes list
    \<Rightarrow> turn result option"
where
  "process_turn n P ready final input_complete r in_buffer out =
    (case fr_state r of
       FixedHeader \<Rightarrow> Some (fixed_header_turn r in_buffer out)
     | CompressedHeader compressed_length \<Rightarrow> Some (compressed_header_turn P compressed_length r in_buffer out)
     | CMP \<Rightarrow> cmp_turn n P final r in_buffer out
     | ScanProgressive state \<Rightarrow> progressive_turn n P ready input_complete state r in_buffer out
     | ScanBaseline state \<Rightarrow> Some (baseline_turn ready input_complete state r in_buffer out)
     | Eoi \<Rightarrow> Some (Ok (r, in_buffer, out)))"

text \<open>A turn goes on to another state or uses up the piece.\<close>

lemma process_input_stops: "process_input s source = Ok (s', source') \<Longrightarrow> \<not> continue_processing source'"
  by (cases "continue_processing source") (auto simp: process_demultiplex stopped_def, simp add: process_input.simps)

lemma verify_eof_continues: "verify_eof_file_size k pb = Ok pb' \<Longrightarrow> \<not> continue_processing pb \<Longrightarrow> \<not> continue_processing pb'"
  by (rule take_bytes_cases [of 4 0 pb]) (auto simp: verify_eof_file_size_def take_n_is_take_bytes split: if_splits)

fun state_rank :: "DecoderState \<Rightarrow> nat" where
  "state_rank FixedHeader = 4"
| "state_rank (CompressedHeader n) = 3"
| "state_rank CMP = 2"
| "state_rank (ScanProgressive s) = 1"
| "state_rank (ScanBaseline s) = 1"
| "state_rank Eoi = 0"

definition turn_rank :: "LeptonFileReader \<Rightarrow> PartialBuffer \<Rightarrow> nat" where
  "turn_rank r pb = 2 * state_rank (fr_state r) + (if continue_processing pb then 1 else 0)"

lemma turn_rank_cases:
  "continue_processing pb \<Longrightarrow> state_rank (fr_state r') < state_rank (fr_state r) \<or>
    (state_rank (fr_state r') = state_rank (fr_state r) \<and> \<not> continue_processing pb') \<Longrightarrow> turn_rank r' pb' < turn_rank r pb"
  by (auto simp: turn_rank_def)

lemma process_cmp_rank: "process_cmp n P final v lh features out = Some (Ok (state, out')) \<Longrightarrow> state_rank state = 1"
  by (auto simp: process_cmp_def bindF_eq_Inr split: if_splits)

lemma process_turn_decreases:
  assumes "continue_processing pb" "fr_state r \<noteq> Eoi"
    and "process_turn n P ready final complete r pb out = Some (Ok (r', pb', out'))"
  shows "turn_rank r' pb' < turn_rank r pb"
proof (rule turn_rank_cases [OF assms(1)])
  show "state_rank (fr_state r') < state_rank (fr_state r) \<or> (state_rank (fr_state r') = state_rank (fr_state r) \<and> \<not> continue_processing pb')"
  proof (cases "fr_state r")
    case FixedHeader
    then show ?thesis using assms(3)
      by (cases rule: take_bytes_cases [of FIXED_HEADER_SIZE 0 pb]) (auto simp: process_turn_def fixed_header_turn_def)
  next
    case (CompressedHeader k)
    then show ?thesis using assms(3)
      by (cases rule: take_bytes_cases [of k 0 pb]) (auto simp: process_turn_def compressed_header_turn_def)
  next
    case CMP
    then show ?thesis using assms(3)
      by (cases rule: take_bytes_cases [of 3 0 pb]) (auto simp: process_turn_def cmp_turn_def bindF_eq_Inr dest!: process_cmp_rank)
  next
    case (ScanProgressive s)
    then show ?thesis using assms(3)
      by (auto simp: process_turn_def progressive_turn_def bindF_eq_Inr split: if_splits dest!: process_input_stops)
  next
    case (ScanBaseline s)
    then show ?thesis using assms(3)
      by (auto simp: process_turn_def baseline_turn_def Let_def split: if_splits dest!: process_input_stops)
  qed (use assms(2) in simp)
qed

function process_loop ::
  "nat \<Rightarrow> Platform \<Rightarrow> (nat \<Rightarrow> bool) \<Rightarrow> (nat \<Rightarrow> Message list) \<Rightarrow> bool \<Rightarrow> LeptonFileReader \<Rightarrow> PartialBuffer \<Rightarrow> nat \<times> bytes list
    \<Rightarrow> turn result option"
where
  "process_loop n P ready final input_complete r in_buffer out =
    (if \<not> continue_processing in_buffer \<or> fr_state r = Eoi then Some (Ok (r, in_buffer, out))
     else case process_turn n P ready final input_complete r in_buffer out of
       None \<Rightarrow> None
     | Some (Inl e) \<Rightarrow> Some (Inl e)
     | Some (Inr (r, in_buffer, out)) \<Rightarrow> process_loop n P ready final input_complete r in_buffer out)"
  by pat_completeness auto

termination process_loop
  by (relation "measure (\<lambda>(n, P, ready, final, c, r, pb, out). turn_rank r pb)") (auto dest: process_turn_decreases)

declare process_loop.simps [simp del]

text \<open>\<open>process_buffer\<close>: what is written, and the reader after the piece\<close>

definition process_buffer ::
  "nat \<Rightarrow> Platform \<Rightarrow> (nat \<Rightarrow> bool) \<Rightarrow> (nat \<Rightarrow> Message list) \<Rightarrow> bytes \<Rightarrow> bool \<Rightarrow> LeptonFileReader
    \<Rightarrow> (bytes list \<times> LeptonFileReader) result option"
where
  "process_buffer n P ready final in_buffer input_complete r =
    (if fr_input_complete r \<and> 0 < length in_buffer then Some (err_exit_code SyntaxError)
     else
       let r = r\<lparr>fr_total_read_size := fr_total_read_size r + length in_buffer\<rparr>
       in bindF (process_loop n P ready final input_complete r (PartialBuffer_new in_buffer (fr_extra_buffer r))
                   (fr_jpeg_file_size_left r, [])) (\<lambda>(r, in_buffer, amount_left, written).
            let r = r\<lparr>fr_extra_buffer := extra_buffer in_buffer, fr_jpeg_file_size_left := amount_left\<rparr>
            in if input_complete
               then let r = r\<lparr>fr_input_complete := True\<rparr>
                    in if fr_state r = Eoi then Some (Ok (written, r)) else Some (err_exit_code SyntaxError)
               else Some (Ok (written, r))))"

text \<open>\<open>process_limited_buffer\<close> with an output buffer of \<open>room\<close> bytes: whether all is done, what has been put into
  the buffer, and what is queued\<close>

definition process_limited_buffer ::
  "nat \<Rightarrow> Platform \<Rightarrow> (nat \<Rightarrow> bool) \<Rightarrow> (nat \<Rightarrow> Message list) \<Rightarrow> bytes \<Rightarrow> bool \<Rightarrow> usize \<Rightarrow> bytes \<Rightarrow> LeptonFileReader
    \<Rightarrow> (bool \<times> bytes \<times> bytes \<times> LeptonFileReader) result option"
where
  "process_limited_buffer n P ready final input input_complete room output_extra r =
    (let w = (take room output_extra, drop room output_extra)
     in bindF (process_buffer n P ready final input input_complete r) (\<lambda>(written, r).
          let (output_buffer, extra_queue) = fold (fixed_buffer_write room) written w
          in Some (Ok (input_complete \<and> extra_queue = [], output_buffer, extra_queue, r))))"

text \<open>\<open>decode_lepton\<close>: the pieces are those of the reader's buffer, until there is an empty one.\<close>

fun decode_pieces ::
  "nat \<Rightarrow> Platform \<Rightarrow> (nat \<Rightarrow> bool) \<Rightarrow> (nat \<Rightarrow> Message list) \<Rightarrow> bytes list \<Rightarrow> LeptonFileReader \<Rightarrow> bytes result option"
where
  "decode_pieces n P ready final [] r =
    bindF (process_buffer n P ready final [] True r) (\<lambda>(written, r). Some (Ok (concat written)))"
| "decode_pieces n P ready final (b # bs) r =
    bindF (process_buffer n P ready final b (length b = 0) r) (\<lambda>(written, r).
      if length b = 0 then Some (Ok (concat written))
      else bindF (decode_pieces n P ready final bs r) (\<lambda>out. Some (Ok (concat written @ out))))"

text \<open>What will have been sent to the threads: the blocks behind the header.\<close>

definition final_channels :: "Platform \<Rightarrow> EnabledFeatures \<Rightarrow> bytes \<Rightarrow> nat \<Rightarrow> Message list" where
  "final_channels P features input =
    (case bindR (read_lepton_fixed_header (take FIXED_HEADER_SIZE input) features LeptonHeader_default) (\<lambda>(k, features, lh).
          let input = drop FIXED_HEADER_SIZE input
          in bindR (read_compressed_lepton_header (pf_inflate P) (take k input) features k lh) (\<lambda>lh.
             bindR (demultiplex (multiplex_read (length (lh_thread_handoff lh)) (unat (max_processor_threads features)) (pf_max_parallelism P) 4
                 (\<lambda>_. [] :: unit MultiplexReadResult list)) (drop (k + 3) input)) (\<lambda>(s, left).
               Ok (mrs_sent (close_senders s))))) of
       Inl e \<Rightarrow> (\<lambda>_. [])
     | Inr sent \<Rightarrow> (\<lambda>i. sent ! i))"

definition decode_lepton ::
  "nat \<Rightarrow> Platform \<Rightarrow> (nat \<Rightarrow> bool) \<Rightarrow> bytes list \<Rightarrow> EnabledFeatures \<Rightarrow> bytes result option"
where
  "decode_lepton n P ready pieces features =
    decode_pieces n P ready (final_channels P features (concat pieces)) pieces (LeptonFileReader_new features)"

end
