(* ===== verification/File_Writer.thy ===== *)
theory File_Writer
  imports File_Reader
begin

unbundle bit_operations_syntax

text \<open>
  Writing a Lepton file (\<open>structs/lepton_file_writer.rs\<close>): the segments of a JPEG file that has been read, joined to as
  many as there are threads, the threads that encode them, and the file, with its size at the end. What the build sets
  is a parameter: the version control revision and the numbers of the package version.
\<close>

section \<open>Versions\<close>

fun string_to_int_loop :: "u8 \<Rightarrow> bytes \<Rightarrow> u8" where
  "string_to_int_loop r [] = r"
| "string_to_int_loop r (c # cs) = string_to_int_loop (r * 10 + c - 0x30) cs"

definition string_to_int :: "bytes \<Rightarrow> u8" where
  "string_to_int s = string_to_int_loop 0 s"

record Build =
  git_version :: bytes
  version_major :: bytes
  version_minor :: bytes
  version_patch :: bytes

definition get_cargo_pkg_version :: "Build \<Rightarrow> u8" where
  "get_cargo_pkg_version B =
    string_to_int (version_major B) * 100 + string_to_int (version_minor B) * 10 + string_to_int (version_patch B)"

text \<open>\<open>u32::from_str_radix\<close> with radix 16: an optional plus sign and digits, in 32 bits\<close>

definition hex_digit :: "u8 \<Rightarrow> nat option" where
  "hex_digit c =
    (if 0x30 \<le> c \<and> c \<le> 0x39 then Some (unat (c - 0x30))
     else if 0x61 \<le> c \<and> c \<le> 0x66 then Some (unat (c - 0x61) + 10)
     else if 0x41 \<le> c \<and> c \<le> 0x46 then Some (unat (c - 0x41) + 10) else None)"

fun hex_loop :: "nat \<Rightarrow> bytes \<Rightarrow> nat option" where
  "hex_loop v [] = Some v"
| "hex_loop v (c # cs) =
    (case hex_digit c of None \<Rightarrow> None | Some d \<Rightarrow> if 2 ^ 32 \<le> v * 16 + d then None else hex_loop (v * 16 + d) cs)"

definition u32_from_hex :: "bytes \<Rightarrow> u32 option" where
  "u32_from_hex s =
    (let digits = (if s \<noteq> [] \<and> hd s = 0x2B then tl s else s)
     in if digits = [] then None else map_option of_nat (hex_loop 0 digits))"

definition get_git_revision :: "Build \<Rightarrow> LeptonHeader \<Rightarrow> LeptonHeader" where
  "get_git_revision B lp =
    (let lp = (case u32_from_hex (git_version B) of
                 Some v \<Rightarrow> lp\<lparr>lh_git_revision_prefix := rev (le_bytes 4 v)\<rparr> | None \<Rightarrow> lp)
     in lp\<lparr>lh_encoder_version := get_cargo_pkg_version B\<rparr>)"

section \<open>Segments for the threads\<close>

definition MAX_THREADS_SUPPORTED_BY_LEPTON_FORMAT :: usize where
  "MAX_THREADS_SUPPORTED_BY_LEPTON_FORMAT = 16"

definition SMALL_FILE_BYTES_PER_ENCDOING_THREAD :: usize where
  "SMALL_FILE_BYTES_PER_ENCDOING_THREAD = 125000"

definition get_number_of_threads_for_encoding :: "usize \<Rightarrow> usize \<Rightarrow> usize \<Rightarrow> usize" where
  "get_number_of_threads_for_encoding num_rows framebuffer_byte_size max_threads_to_use =
    (let num_threads = min max_threads_to_use MAX_THREADS_SUPPORTED_BY_LEPTON_FORMAT;
         num_threads = (if num_rows div 2 < num_threads then max (num_rows div 2) 1 else num_threads)
     in if framebuffer_byte_size < SMALL_FILE_BYTES_PER_ENCDOING_THREAD then 1
        else if framebuffer_byte_size < SMALL_FILE_BYTES_PER_ENCDOING_THREAD * 2 then min 2 num_threads
        else if framebuffer_byte_size < SMALL_FILE_BYTES_PER_ENCDOING_THREAD * 4 then min 4 num_threads
        else num_threads)"

text \<open>Numbers of type \<open>f32\<close> that are not negative, as fractions: the result of an operation is the nearest fraction whose
  numerator has 24 bits, the even one of two. (Results below one half would have more bits; there are none.)\<close>

type_synonym f32 = "nat \<times> nat"

definition round_half_even :: "nat \<Rightarrow> nat \<Rightarrow> nat" where
  "round_half_even a b =
    (let q = a div b; r = a mod b in if 2 * r > b \<or> (2 * r = b \<and> odd q) then q + 1 else q)"

definition f32_round :: "nat \<Rightarrow> nat \<Rightarrow> f32" where
  "f32_round a b =
    (let l = bit_len (a div b)
     in if l \<le> 24 then (round_half_even (a * 2 ^ (24 - l)) b, 2 ^ (24 - l))
        else (round_half_even a (b * 2 ^ (l - 24)) * 2 ^ (l - 24), 1))"

definition f32_of :: "nat \<Rightarrow> f32" where
  "f32_of a = f32_round a 1"

definition f32_div :: "f32 \<Rightarrow> f32 \<Rightarrow> f32" where
  "f32_div x y = f32_round (fst x * snd y) (snd x * fst y)"

definition f32_mult :: "f32 \<Rightarrow> f32 \<Rightarrow> f32" where
  "f32_mult x y = f32_round (fst x * fst y) (snd x * snd y)"

definition f32_add :: "f32 \<Rightarrow> f32 \<Rightarrow> f32" where
  "f32_add x y = f32_round (fst x * snd y + fst y * snd x) (snd x * snd y)"

definition f32_to_usize :: "f32 \<Rightarrow> nat" where
  "f32_to_usize x = fst x div snd x"

definition split_indices :: "nat \<Rightarrow> nat \<Rightarrow> nat list" where
  "split_indices num_rows num_threads =
    (let rows_per_thread = f32_div (f32_of num_rows) (f32_of num_threads)
     in map (\<lambda>i. f32_to_usize (f32_mult rows_per_thread (f32_add (f32_of i) (1, 1)))) [0..<num_threads - 1])"

text \<open>The first and the last row of each segment.\<close>

definition split_range :: "nat \<Rightarrow> nat \<Rightarrow> nat \<Rightarrow> nat \<times> nat" where
  "split_range num_rows num_threads i =
    (if i = 0 then 0 else split_indices num_rows num_threads ! (i - 1) + 1,
     if i = num_threads - 1 then num_rows - 1 else split_indices num_rows num_threads ! i)"

fun select_splits :: "ThreadHandoff list \<Rightarrow> nat \<Rightarrow> nat list \<Rightarrow> ThreadHandoff list result" where
  "select_splits hs num_threads [] = Ok []"
| "select_splits hs num_threads (i # is) =
    (let (beginning_of_range, end_of_range) = split_range (length hs) num_threads i
     in bindR (assertR (end_of_range < length hs)) (\<lambda>_.
        bindR (idx hs beginning_of_range) (\<lambda>a. bindR (idx hs end_of_range) (\<lambda>b.
        bindR (select_splits hs num_threads is) (\<lambda>rest. Ok (combine_thread_ranges a b # rest))))))"

text \<open>Without threads the loop over them runs from 0 to the largest number, \<open>num_threads - 1\<close>, and adds to a vector; it ends
  with its memory.\<close>

definition split_row_handoffs_to_threads :: "ThreadHandoff list \<Rightarrow> usize \<Rightarrow> ThreadHandoff list result" where
  "split_row_handoffs_to_threads thread_handoffs max_threads_to_use =
    (if thread_handoffs = [] then panic
     else
       let first = thread_handoffs ! 0; last = thread_handoffs ! (length thread_handoffs - 1);
           framebuffer_byte_size = get_combine_thread_range_segment_size first last;
           num_rows = length thread_handoffs;
           num_threads = get_number_of_threads_for_encoding num_rows framebuffer_byte_size max_threads_to_use
       in if num_threads = 1 then Ok [combine_thread_ranges first last]
          else if num_threads = 0 then panic
          else
            let rows_per_thread = f32_div (f32_of num_rows) (f32_of num_threads)
            in bindR (assertR (snd rows_per_thread \<le> fst rows_per_thread)) (\<lambda>_.
                 select_splits thread_handoffs num_threads [0..<num_threads]))"

section \<open>Reading a JPEG file\<close>

text \<open>\<open>try_into().unwrap()\<close> from 64 to 32 bits\<close>

definition u32_of_u64 :: "u64 \<Rightarrow> u32 result" where
  "u32_of_u64 v = (if unat v < 2 ^ 32 then Ok (ucast v) else panic)"

fun segment_handoffs :: "u64 \<Rightarrow> u64 \<Rightarrow> (u64 \<times> RestartSegmentCodingInfo) list \<Rightarrow> ThreadHandoff list result" where
  "segment_handoffs stream_start end_scan [] = Ok []"
| "segment_handoffs stream_start end_scan ((segment_offset, r) # ps) =
    (let size = (case ps of [] \<Rightarrow> end_scan | (p, _) # _ \<Rightarrow> p) - segment_offset
     in bindR (u32_of_u64 (segment_offset - stream_start)) (\<lambda>offset.
        bindR (u32_of_u64 size) (\<lambda>size.
        bindR (segment_handoffs stream_start end_scan ps) (\<lambda>hs.
          Ok (\<lparr>overhang_byte = overhang_byte r, num_overhang_bits = num_overhang_bits r, luma_y_start = luma_y_start r,
               luma_y_end = luma_y_end r, last_dc = last_dc r, segment_offset_in_file = offset, segment_size = size\<rparr> # hs)))))"

text \<open>\<open>read_jpeg\<close> of a file that is read from where \<open>i\<close> stands\<close>

definition read_jpeg ::
  "nat \<Rightarrow> nat \<Rightarrow> Platform \<Rightarrow> Build \<Rightarrow> EnabledFeatures \<Rightarrow> (JpegHeader \<Rightarrow> bytes \<Rightarrow> 'u \<Rightarrow> 'u) \<Rightarrow> bytes \<Rightarrow> BufRead \<Rightarrow> 'u
    \<Rightarrow> (LeptonHeader \<times> BlockBasedImage list) result option"
where
  "read_jpeg n k P B features callback file i u =
    (let lp = get_git_revision B LeptonHeader_default; stream_start = position i
     in bindF (read_jpeg_file n k (pf_alloc P) features callback file (lh_jpeg_header lp) (lh_rinfo lp) i u)
          (\<lambda>(image_data, partitions, end_scan, jf, rinfo, u, i).
        bindF (Some (segment_handoffs stream_start end_scan partitions)) (\<lambda>thread_handoff.
        bindF (Some (split_row_handoffs_to_threads thread_handoff (unat (max_partitions features)))) (\<lambda>merged_handoffs.
          let lp = lp\<lparr>lh_jpeg_header := jf, lh_rinfo := rinfo, lh_thread_handoff := merged_handoffs,
                      lh_jpeg_file_size := ucast (position i - stream_start)\<rparr>
          in if max_jpeg_file_size features < lh_jpeg_file_size lp then Some (err_exit_code UnsupportedJpeg)
             else Some (Ok (lp, image_data))))))"

section \<open>Encoding\<close>

text \<open>The threads: what a segment is encoded to goes to the writer of its thread. (The encoder writes it in several
  parts; \<open>Multiplex_Stream\<close> shows that this makes no difference. Of a thread that fails nothing is written; then nothing of
  the whole is used.)\<close>

definition encoder_thread ::
  "nat \<Rightarrow> Platform \<Rightarrow> QuantizationTables list \<Rightarrow> BlockBasedImage list \<Rightarrow> TruncateComponents \<Rightarrow> ThreadHandoff list \<Rightarrow> EnabledFeatures
    \<Rightarrow> nat \<Rightarrow> bytes result option"
where
  "encoder_thread n P qts image_data colldata hs features thread_id =
    lepton_encode_row_range n (pf_simd P) qts image_data colldata (luma_y_start (hs ! thread_id)) (luma_y_end (hs ! thread_id))
      (thread_id = length hs - 1) True features"

definition run_lepton_encoder_threads ::
  "nat \<Rightarrow> Platform \<Rightarrow> JpegHeader \<Rightarrow> TruncateComponents \<Rightarrow> ThreadHandoff list \<Rightarrow> BlockBasedImage list \<Rightarrow> EnabledFeatures
    \<Rightarrow> bytes result option"
where
  "run_lepton_encoder_threads n P jf colldata hs image_data features =
    bindF (Some (assertR (length hs \<le> MAX_THREADS_SUPPORTED_BY_LEPTON_FORMAT))) (\<lambda>_.
    bindF (Some (construct_quantization_tables jf)) (\<lambda>qts.
      let run = encoder_thread n P qts image_data colldata hs features
      in if list_ex (\<lambda>i. run i = None) [0..<length hs] then None
         else bindF (Some (multiplex_write (length hs) (unat (max_processor_threads features)) (pf_max_parallelism P) (\<lambda>thread_writer thread_id.
                case the (run thread_id) of
                  Inl e \<Rightarrow> (Inl e, thread_writer)
                | Inr c \<Rightarrow> (Ok (), mw_write c thread_writer)))) (\<lambda>(rs, out). Some (Ok out))))"

text \<open>\<open>encode_lepton\<close>: what is written\<close>

definition encode_lepton ::
  "nat \<Rightarrow> nat \<Rightarrow> Platform \<Rightarrow> Build \<Rightarrow> EnabledFeatures \<Rightarrow> bytes \<Rightarrow> BufRead \<Rightarrow> bytes result option"
where
  "encode_lepton n k P B features file i =
    bindF (read_jpeg n k P B features (\<lambda>_ _ u. u) file i ()) (\<lambda>(lp, image_data).
      let header = write_lepton_header (pf_compress P) features lp
      in bindF (run_lepton_encoder_threads n P (lh_jpeg_header lp) (truncate_components (lh_rinfo lp)) (lh_thread_handoff lp)
                  image_data features) (\<lambda>out.
           let final_file_size = length (header @ out) + 4
           in Some (Ok (header @ out @ le_bytes 4 (of_nat final_file_size :: u32)))))"

text \<open>\<open>encode_lepton_verify\<close>: a cursor hands out the whole file at once, both ways.\<close>

definition encode_lepton_verify ::
  "nat \<Rightarrow> nat \<Rightarrow> Platform \<Rightarrow> (nat \<Rightarrow> bool) \<Rightarrow> Build \<Rightarrow> EnabledFeatures \<Rightarrow> bytes \<Rightarrow> bytes result option"
where
  "encode_lepton_verify n k P ready B features input_data =
    bindF (encode_lepton n k P B features input_data
        \<lparr>position = 0, unread = input_data, buffered = 0, refill = (\<lambda>_. length input_data)\<rparr>) (\<lambda>output_data.
    bindF (decode_lepton n P ready [output_data] features) (\<lambda>verify_buffer.
      if length input_data \<noteq> length verify_buffer then Some (err_exit_code VerificationLengthMismatch)
      else if input_data \<noteq> verify_buffer then Some (err_exit_code VerificationContentMismatch)
      else Some (Ok output_data)))"

end
