(* ===== verification/Thread_Splits.thy ===== *)
theory Thread_Splits
  imports Complex_Main File_Writer
begin

text \<open>
  The segments of the threads: the rows are split where the rounded multiples of the rows per thread are, and the segments
  that come out follow on each other from the first row to the last.
\<close>

section \<open>Rounding\<close>

lemma round_half_even_error: "0 < b \<Longrightarrow> \<bar>real (round_half_even a b) - real a / real b\<bar> \<le> 1 / 2"
proof -
  assume b: "0 < b"
  define q r where "q = a div b" and "r = a mod b"
  have a: "real a / real b = real q + real r / real b"
    using b by (simp add: q_def r_def real_of_nat_div field_simps flip: of_nat_mult of_nat_add)
  have r: "r < b" using b by (simp add: r_def)
  show ?thesis
  proof (cases "2 * r > b \<or> (2 * r = b \<and> odd q)")
    case True
    then have "real b \<le> 2 * real r" by linarith
    then have "1 / 2 \<le> real r / real b" "real r / real b < 1" using b r by (simp_all add: field_simps)
    then show ?thesis using True by (simp add: round_half_even_def Let_def q_def [symmetric] r_def [symmetric] a)
  next
    case False
    then have "2 * real r \<le> real b" by linarith
    then have "real r / real b \<le> 1 / 2" using b by (simp add: field_simps)
    moreover have "round_half_even a b = q"
      using False unfolding round_half_even_def Let_def q_def [symmetric] r_def [symmetric] by (rule if_not_P)
    ultimately show ?thesis by (simp add: a)
  qed
qed

lemma round_half_even_exact: "0 < b \<Longrightarrow> b dvd a \<Longrightarrow> round_half_even a b = a div b"
  by (auto simp: round_half_even_def)

definition f32_val :: "f32 \<Rightarrow> real" where
  "f32_val x = real (fst x) / real (snd x)"

lemma bit_len_least: "n < 2 ^ k \<Longrightarrow> bit_len n \<le> k"
proof (induction k arbitrary: n)
  case (Suc k)
  then have "n div 2 < 2 ^ k" by (simp add: less_mult_imp_div_less mult.commute)
  then show ?case using Suc.IH [of "n div 2"] by (cases "n = 0") (simp_all add: bit_len_pos)
qed simp

lemma f32_round_error:
  assumes "0 < b" "a div b < 2 ^ k" "k \<le> 24"
  shows "\<bar>f32_val (f32_round a b) - real a / real b\<bar> \<le> 2 ^ k / 2 ^ 25" "0 < snd (f32_round a b)"
proof -
  define l where "l = bit_len (a div b)"
  have l: "l \<le> k" unfolding l_def by (rule bit_len_least [OF assms(2)])
  then have r: "f32_round a b = (round_half_even (a * 2 ^ (24 - l)) b, 2 ^ (24 - l))"
    using assms(3) by (simp add: f32_round_def Let_def l_def [symmetric])
  show "0 < snd (f32_round a b)" by (simp add: r)
  let ?s = "2 ^ (24 - l) :: real"
  have "\<bar>real (round_half_even (a * 2 ^ (24 - l)) b) - real a * ?s / real b\<bar> \<le> 1 / 2"
    using round_half_even_error [OF assms(1), of "a * 2 ^ (24 - l)"] by simp
  then have "\<bar>real (round_half_even (a * 2 ^ (24 - l)) b) / ?s - real a / real b\<bar> \<le> 1 / 2 / ?s"
    by (simp add: field_simps abs_le_iff)
  also have "1 / 2 / ?s \<le> 2 ^ k / 2 ^ 25"
  proof -
    have "(2 :: real) ^ 25 = 2 * ?s * 2 ^ l" using l assms(3) by (simp add: power_add [symmetric] flip: power_Suc)
    also have "2 * ?s * 2 ^ l \<le> 2 * ?s * 2 ^ k" using l by (intro mult_left_mono) simp_all
    finally have "(2 :: real) ^ 25 \<le> 2 * ?s * 2 ^ k" .
    then show ?thesis by (simp add: field_simps)
  qed
  finally show "\<bar>f32_val (f32_round a b) - real a / real b\<bar> \<le> 2 ^ k / 2 ^ 25" by (simp add: f32_val_def r)
qed

lemma f32_round_exact:
  assumes "0 < b" "b dvd a" "a div b < 2 ^ 24"
  shows "f32_val (f32_round a b) = real a / real b"
proof -
  define l where "l = bit_len (a div b)"
  have "l \<le> 24" unfolding l_def by (rule bit_len_least [OF assms(3)])
  moreover have "round_half_even (a * 2 ^ (24 - l)) b = a div b * 2 ^ (24 - l)"
    using round_half_even_exact [OF assms(1), of "a * 2 ^ (24 - l)"] assms(1,2) by (auto elim!: dvdE)
  moreover have "real (a div b) = real a / real b" using assms(2) by (simp add: real_of_nat_div)
  ultimately show ?thesis by (simp add: f32_round_def Let_def l_def [symmetric] f32_val_def)
qed

lemma f32_of_exact: "a < 2 ^ 24 \<Longrightarrow> f32_val (f32_of a) = real a" "0 < snd (f32_of a)"
  using f32_round_exact [of 1 a] by (simp_all add: f32_of_def f32_round_def Let_def)

section \<open>Where the rows are split\<close>

text \<open>The multiple of the rows per thread, before it is cut off.\<close>

definition row_point :: "nat \<Rightarrow> nat \<Rightarrow> nat \<Rightarrow> f32" where
  "row_point num_rows num_threads i =
    f32_mult (f32_div (f32_of num_rows) (f32_of num_threads)) (f32_add (f32_of i) (1, 1))"

lemma f32_val_mult: "f32_val (a, b) * f32_val (c, d) = real (a * c) / real (b * d)"
  by (simp add: f32_val_def)

lemma floor_val: "0 < snd x \<Longrightarrow> real (f32_to_usize x) \<le> f32_val x \<and> f32_val x < real (f32_to_usize x) + 1"
proof -
  assume b: "0 < snd x"
  have "f32_val x = real (fst x div snd x) + real (fst x mod snd x) / real (snd x)"
    using b by (simp add: f32_val_def real_of_nat_div field_simps flip: of_nat_mult of_nat_add)
  moreover have "real (fst x mod snd x) / real (snd x) < 1" using b by simp
  ultimately show ?thesis by (simp add: f32_to_usize_def)
qed

lemma row_point_near:
  assumes "2 \<le> t" "t \<le> 16" "n < 2 ^ 16" "i < 15"
  shows "\<bar>f32_val (row_point n t i) - real n / real t * real (i + 1)\<bar> < 1 / 16" "0 < snd (row_point n t i)"
proof -
  define x y where "x = f32_div (f32_of n) (f32_of t)" and "y = f32_add (f32_of i) (1, 1)"
  note n = f32_of_exact [of n] and t = f32_of_exact [of t] and i = f32_of_exact [of i]
  have pos: "0 < fst (f32_of t)" using t assms(1,2) by (cases "fst (f32_of t) = 0") (simp_all add: f32_val_def)
  have q: "real (fst (f32_of n) * snd (f32_of t)) / real (snd (f32_of n) * fst (f32_of t)) = real n / real t"
    using n t assms(2,3) by (simp add: f32_val_def) (metis (no_types, opaque_lifting) divide_divide_eq_left divide_divide_eq_right times_divide_eq_left)
  have d: "0 < snd (f32_of n) * fst (f32_of t)" using n(2) pos by simp
  have below: "a div b < k" if "0 < b" "real a / real b < real k" for a b k :: nat
    using that by (simp add: field_simps less_mult_imp_div_less flip: of_nat_mult)
  have nt: "real n / real t < 2 ^ 16" using assms(1,3) by (simp add: field_simps)
  have "(fst (f32_of n) * snd (f32_of t)) div (snd (f32_of n) * fst (f32_of t)) < 2 ^ 16"
    by (rule below [OF d]) (use nt q in simp)
  from f32_round_error [OF d this] q have x: "\<bar>f32_val x - real n / real t\<bar> \<le> 1 / 512" "0 < snd x"
    by (simp_all add: x_def f32_div_def)
  have y: "f32_val y = real (i + 1)" "0 < snd y"
  proof -
    have fi: "fst (f32_of i) = i * snd (f32_of i)"
      using i assms(4) by (simp add: f32_val_def field_simps flip: of_nat_mult)
    have "fst (f32_of i) * 1 + 1 * snd (f32_of i) = (i + 1) * snd (f32_of i)" by (simp add: fi)
    then have "y = f32_round ((i + 1) * snd (f32_of i)) (snd (f32_of i))" by (simp add: y_def f32_add_def add.commute)
    then show "f32_val y = real (i + 1)" "0 < snd y"
      using f32_round_exact [of "snd (f32_of i)" "(i + 1) * snd (f32_of i)"] f32_round_error(2) [of "snd (f32_of i)" "(i + 1) * snd (f32_of i)" 24]
        i(2) assms(4) by (simp_all add: add_divide_distrib)
  qed
  define p where "p = f32_val x * f32_val y"
  have p: "real (fst x * fst y) / real (snd x * snd y) = p" by (simp add: p_def f32_val_def)
  have "real n < 2 ^ 16" using assms(3) by simp
  also have "(2 :: real) ^ 16 \<le> 2 ^ 15 * real t" using assms(1) by simp
  finally have "real n / real t < 2 ^ 15" using assms(1) by (simp add: field_simps)
  then have "real n / real t < 32768" by simp
  with x(1) have "f32_val x < 65536" by linarith
  then have "f32_val x < 2 ^ 16" by simp
  then have "p < 2 ^ 16 * 16" unfolding p_def y using assms(4) x(2) by (intro mult_strict_mono) (simp_all add: f32_val_def)
  then have "(fst x * fst y) div (snd x * snd y) < 2 ^ 20" by (intro below) (use p x(2) y(2) in simp_all)
  from f32_round_error [OF _ this] p x(2) y(2) have r: "\<bar>f32_val (row_point n t i) - p\<bar> \<le> 1 / 32" "0 < snd (row_point n t i)"
    unfolding row_point_def x_def [symmetric] y_def [symmetric] f32_mult_def by simp_all
  have "\<bar>p - real n / real t * real (i + 1)\<bar> = \<bar>f32_val x - real n / real t\<bar> * real (i + 1)"
    unfolding p_def y left_diff_distrib [symmetric] abs_mult by simp
  also have "\<dots> \<le> 1 / 512 * 15" using x(1) assms(4) by (intro mult_mono) simp_all
  finally have d: "\<bar>p - real n / real t * real (i + 1)\<bar> \<le> 1 / 512 * 15" .
  have "\<bar>v - c\<bar> < 1 / 16" if "\<bar>p - c\<bar> \<le> 1 / 512 * 15" "\<bar>v - p\<bar> \<le> 1 / 32" for v c :: real using that by linarith
  from this [OF d r(1)] show "\<bar>f32_val (row_point n t i) - real n / real t * real (i + 1)\<bar> < 1 / 16" .
  show "0 < snd (row_point n t i)" by (rule r(2))
qed

lemma split_indices_nth: "i < t - 1 \<Longrightarrow> split_indices n t ! i = f32_to_usize (row_point n t i)"
  by (simp add: split_indices_def row_point_def Let_def)

lemma split_indices_increase:
  assumes "2 \<le> t" "t \<le> 16" "n < 2 ^ 16" "2 * t \<le> n"
  shows "i + 1 < t - 1 \<Longrightarrow> split_indices n t ! i < split_indices n t ! (i + 1)" "i < t - 1 \<Longrightarrow> split_indices n t ! i + 1 < n"
proof -
  have q: "2 \<le> real n / real t" using assms(1,4) by (simp add: field_simps flip: of_nat_mult)
  show "split_indices n t ! i < split_indices n t ! (i + 1)" if "i + 1 < t - 1"
  proof -
    have i: "i < 15" "i + 1 < 15" using that assms(2) by simp_all
    note a = row_point_near [OF assms(1-3) i(1)] and b = row_point_near [OF assms(1-3) i(2)]
    define d p where "d = real n / real t" and "p = real n / real t * real (i + 1)"
    have "real n / real t * real (i + 1 + 1) = p + d" by (simp add: p_def d_def add_divide_distrib algebra_simps)
    then have "\<bar>f32_val (row_point n t (i + 1)) - (p + d)\<bar> < 1 / 16" using b(1) by (simp only:)
    then have "real (f32_to_usize (row_point n t i)) < real (f32_to_usize (row_point n t (i + 1)))"
      using floor_val [OF a(2)] floor_val [OF b(2)] a(1) [folded p_def] q [folded d_def] by linarith
    then show ?thesis using that by (simp add: split_indices_nth)
  qed
  show "split_indices n t ! i + 1 < n" if "i < t - 1"
  proof -
    have i: "i < 15" using that assms(2) by simp
    note a = row_point_near [OF assms(1-3) i]
    have "real (i + 1) \<le> real t - 1" using that by linarith
    then have "real n / real t * real (i + 1) \<le> real n / real t * (real t - 1)" using q by (intro mult_left_mono) simp_all
    also have "\<dots> = real n - real n / real t" using assms(1) by (simp add: field_simps)
    finally have "real n / real t * real (i + 1) \<le> real n - real n / real t" .
    then have "real (f32_to_usize (row_point n t i)) + 1 < real n"
      using floor_val [OF a(2)] a(1) q by linarith
    then show ?thesis using that by (simp add: split_indices_nth)
  qed
qed

section \<open>The segments\<close>

text \<open>Segments that follow on each other, in rows and in the file.\<close>

definition chained :: "ThreadHandoff list \<Rightarrow> bool" where
  "chained hs \<longleftrightarrow> hs \<noteq> [] \<and> (\<forall>i. i + 1 < length hs \<longrightarrow> luma_y_end (hs ! i) = luma_y_start (hs ! (i + 1))
    \<and> segment_offset_in_file (hs ! (i + 1)) = segment_offset_in_file (hs ! i) + segment_size (hs ! i))"

text \<open>The same rows and the same part of the file.\<close>

definition same_extent :: "ThreadHandoff list \<Rightarrow> ThreadHandoff list \<Rightarrow> bool" where
  "same_extent hs hs' \<longleftrightarrow> luma_y_start (hs' ! 0) = luma_y_start (hs ! 0) \<and> luma_y_end (last hs') = luma_y_end (last hs)
    \<and> segment_offset_in_file (hs' ! 0) = segment_offset_in_file (hs ! 0)
    \<and> segment_offset_in_file (last hs') + segment_size (last hs') = segment_offset_in_file (last hs) + segment_size (last hs)"

lemma combine_simps [simp]:
  "luma_y_start (combine_thread_ranges a b) = luma_y_start a" "luma_y_end (combine_thread_ranges a b) = luma_y_end b"
  "segment_offset_in_file (combine_thread_ranges a b) = segment_offset_in_file a"
  "segment_offset_in_file a + segment_size (combine_thread_ranges a b) = segment_offset_in_file b + segment_size b"
  by (simp_all add: combine_thread_ranges_def get_combine_thread_range_segment_size_def)

text \<open>The number of threads: at most 16, and at least two rows for each.\<close>

lemma number_of_threads:
  assumes "0 < m" and t_def: "t = get_number_of_threads_for_encoding rows k m"
  shows "t = 1 \<or> (2 \<le> t \<and> t \<le> 16 \<and> t \<le> m \<and> 2 * t \<le> rows)"
proof -
  let ?a = "min m 16"
  let ?b = "if rows div 2 < ?a then max (rows div 2) 1 else ?a"
  have b: "?b = 1 \<or> (2 \<le> ?b \<and> ?b \<le> 16 \<and> ?b \<le> m \<and> 2 * ?b \<le> rows)" using assms(1) by auto
  have t: "t = 1 \<or> t = min 2 ?b \<or> t = min 4 ?b \<or> t = ?b"
    unfolding t_def get_number_of_threads_for_encoding_def Let_def MAX_THREADS_SUPPORTED_BY_LEPTON_FORMAT_def by (simp split: if_splits)
  have min: "min c ?b = 1 \<or> (2 \<le> min c ?b \<and> min c ?b \<le> 16 \<and> min c ?b \<le> m \<and> 2 * min c ?b \<le> rows)" if "2 \<le> c" for c
    using b that by (cases "c \<le> ?b") (auto simp: min_def simp del: split_paired_All)
  from t b min [of 2] min [of 4] show ?thesis by (elim disjE) (simp_all only:, simp_all)
qed

lemma split_range_facts:
  assumes "2 \<le> t" "t \<le> 16" "n < 2 ^ 16" "2 * t \<le> n" "i < t"
  shows "fst (split_range n t i) \<le> snd (split_range n t i)" "snd (split_range n t i) < n"
    "i + 1 < t \<Longrightarrow> fst (split_range n t (i + 1)) = snd (split_range n t i) + 1"
    "fst (split_range n t 0) = 0" "snd (split_range n t (t - 1)) = n - 1"
proof -
  note inc = split_indices_increase [OF assms(1-4)]
  show "snd (split_range n t i) < n" using inc(2) [of i] assms(4,5) by (auto simp: split_range_def Suc_lessD)
  show "fst (split_range n t i) \<le> snd (split_range n t i)"
  proof (cases "i = 0")
    case False
    then have "i - 1 < t - 1" using assms(5) by simp
    with False have "split_indices n t ! (i - 1) < (if i = t - 1 then n - 1 else split_indices n t ! i)"
      using inc(1) [of "i - 1"] inc(2) [of "i - 1"] assms(1,5) by (cases "i = t - 1") auto
    then show ?thesis using False by (auto simp: split_range_def)
  qed (simp add: split_range_def)
qed (auto simp: split_range_def)

lemma select_splits_ok:
  assumes "\<forall>i \<in> set is. fst (split_range (length hs) t i) \<le> snd (split_range (length hs) t i) \<and> snd (split_range (length hs) t i) < length hs"
  shows "select_splits hs t is = Ok (map (\<lambda>i. combine_thread_ranges (hs ! fst (split_range (length hs) t i)) (hs ! snd (split_range (length hs) t i))) is)"
  using assms
proof (induction "is")
  case (Cons i "is")
  then show ?case by (auto simp: Let_def idx_in_range assertR_def split: prod.splits)
qed simp

lemma splits_chained:
  assumes ch: "chained hs" and n: "length hs < 2 ^ 16" and m: "0 < m"
  shows "\<exists>hs'. split_row_handoffs_to_threads hs m = Ok hs' \<and> chained hs' \<and> same_extent hs hs' \<and> length hs' \<le> 16 \<and> length hs' \<le> m"
proof -
  let ?n = "length hs"
  have ne: "hs \<noteq> []" using ch by (simp add: chained_def)
  define t where "t = get_number_of_threads_for_encoding ?n (get_combine_thread_range_segment_size (hs ! 0) (hs ! (?n - 1))) m"
  have last: "last hs = hs ! (?n - 1)" using ne by (rule last_conv_nth)
  from number_of_threads [OF m t_def] show ?thesis
  proof
    assume "t = 1"
    then have "split_row_handoffs_to_threads hs m = Ok [combine_thread_ranges (hs ! 0) (hs ! (?n - 1))]"
      using ne unfolding split_row_handoffs_to_threads_def Let_def t_def [symmetric] by simp
    moreover have "chained [combine_thread_ranges (hs ! 0) (hs ! (?n - 1))]" by (simp add: chained_def)
    moreover have "same_extent hs [combine_thread_ranges (hs ! 0) (hs ! (?n - 1))]" by (simp add: same_extent_def last)
    ultimately show ?thesis using m by auto
  next
    assume t: "2 \<le> t \<and> t \<le> 16 \<and> t \<le> m \<and> 2 * t \<le> ?n"
    let ?r = "split_range ?n t" and ?f = "\<lambda>i. combine_thread_ranges (hs ! fst (split_range ?n t i)) (hs ! snd (split_range ?n t i))"
    have F: "fst (?r i) \<le> snd (?r i)" "snd (?r i) < ?n" "i + 1 < t \<Longrightarrow> fst (?r (i + 1)) = snd (?r i) + 1" if "i < t" for i
      using split_range_facts(1-3) [of t ?n i] t n that by simp_all
    have E: "fst (?r 0) = 0" "snd (?r (t - 1)) = ?n - 1" using split_range_facts(4,5) [of t ?n 0] t n by simp_all
    have sel: "select_splits hs t [0..<t] = Ok (map ?f [0..<t])" by (rule select_splits_ok) (use F in simp)
    define x where "x = f32_div (f32_of ?n) (f32_of t)"
    have "snd x \<le> fst x"
    proof -
      note a = f32_of_exact [of ?n] and b = f32_of_exact [of t]
      have fn: "fst (f32_of ?n) = ?n * snd (f32_of ?n)" and ft: "fst (f32_of t) = t * snd (f32_of t)"
        using a b n t by (simp_all add: f32_val_def field_simps flip: of_nat_mult)
      define A B where "A = snd (f32_of ?n) * snd (f32_of t)" and "B = A * t"
      have AB: "0 < A" "0 < B" using a(2) b(2) t by (simp_all add: A_def B_def)
      have x: "x = f32_round (?n * A) B" by (simp add: x_def f32_div_def fn ft A_def B_def ac_simps)
      have "?n * A div B = ?n div t" using AB(1) by (simp add: B_def mult.commute [of ?n])
      then have "?n * A div B < 2 ^ 16" using n by (metis div_le_dividend le_less_trans)
      from f32_round_error [OF AB(2) this] have "\<bar>f32_val x - real ?n / real t\<bar> \<le> 1 / 512" "0 < snd x" using AB by (simp_all add: x B_def)
      moreover have "2 \<le> real ?n / real t" using t by (simp add: field_simps flip: of_nat_mult)
      ultimately have "1 < f32_val x" "0 < snd x" by linarith+
      then show ?thesis by (simp add: f32_val_def)
    qed
    then have run: "split_row_handoffs_to_threads hs m = Ok (map ?f [0..<t])"
      using ne t sel unfolding split_row_handoffs_to_threads_def Let_def t_def [symmetric] x_def [symmetric] by (simp add: assertR_def)
    have follow: "luma_y_end (hs ! snd (?r i)) = luma_y_start (hs ! (snd (?r i) + 1))
        \<and> segment_offset_in_file (hs ! (snd (?r i) + 1)) = segment_offset_in_file (hs ! snd (?r i)) + segment_size (hs ! snd (?r i))"
      if "i + 1 < t" for i
      using ch F(2) [of "i + 1"] F(1) [of "i + 1"] F(3) [of i] that by (simp add: chained_def)
    have "chained (map ?f [0..<t])"
      using t follow F(3) by (auto simp: chained_def)
    moreover have "same_extent hs (map ?f [0..<t])" using t E by (simp add: same_extent_def last last_map)
    ultimately show ?thesis using run t by auto
  qed
qed

end
