(* ===== verification/Reader_Runs.thy ===== *)
theory Reader_Runs
  imports File_Reader
begin

unbundle bit_operations_syntax

text \<open>
  The runs of the decoder: whatever the pieces the file arrives in and whatever has arrived when the channels
  are polled, a run that succeeds writes the same bytes. They are described on the whole file: the header, the blocks
  for the threads, the results of the threads in order, and the tail, up to the size of the JPEG file.
\<close>

section \<open>Limited output\<close>

text \<open>All writes together are cut off where the limit is.\<close>

lemma limited_writes:
  "fst (fold limited_write bufs out) = fst out - length (concat bufs)
    \<and> concat (snd (fold limited_write bufs out)) = concat (snd out) @ take (fst out) (concat bufs)"
  by (induction bufs arbitrary: out) (auto simp: limited_write_def Let_def min_def split: prod.splits)

lemmas limited_write_left = limited_writes [THEN conjunct1]
lemmas limited_write_concat = limited_writes [THEN conjunct2]

text \<open>An output buffer of a fixed size and the queue behind it, after all that has been given.\<close>

definition filled :: "nat \<Rightarrow> bytes \<Rightarrow> bytes \<times> bytes \<Rightarrow> bool" where
  "filled room given w \<longleftrightarrow> fst w @ snd w = given \<and> length (fst w) \<le> room \<and> (snd w \<noteq> [] \<longrightarrow> length (fst w) = room)"

lemma fixed_buffer_write_filled: "filled room given w \<Longrightarrow> filled room (given @ buf) (fixed_buffer_write room buf w)"
  by (cases w) (auto simp: filled_def fixed_buffer_write_def Let_def min_def split: if_splits)

lemma fixed_buffer_writes: "filled room given w \<Longrightarrow> filled room (given @ concat bufs) (fold (fixed_buffer_write room) bufs w)"
proof (induction bufs arbitrary: given w)
  case (Cons b bufs)
  from Cons.IH [OF fixed_buffer_write_filled [OF Cons.prems]] show ?case by simp
qed simp

section \<open>Results\<close>

text \<open>A thread sends results and ends with the end mark or an error. A thread that is never run sends nothing.\<close>

definition thread_ends :: "'r MultiplexReadResult list \<Rightarrow> bool" where
  "thread_ends r \<longleftrightarrow> r = [] \<or> (\<exists>vs m. r = map Result vs @ [m] \<and> (m = Complete \<or> (\<exists>e. m = Error e)))"

lemma thread_ends_cases:
  assumes "thread_ends r"
  obtains v ms where "r = Result v # ms" "thread_ends ms" "thread_done r \<longleftrightarrow> thread_done ms" | "r = [Complete]" | e where "r = [Error e]" | "r = []"
proof (cases "r = []")
  case False
  with assms obtain vs m where r: "r = map Result vs @ [m]" "m = Complete \<or> (\<exists>e. m = Error e)" by (auto simp: thread_ends_def)
  show ?thesis
  proof (cases vs)
    case Nil
    then show ?thesis using r that(2,3) by auto
  next
    case (Cons v vs')
    have "thread_done (Result v # ms) \<longleftrightarrow> thread_done ms" if "ms \<noteq> []" for ms :: "'a MultiplexReadResult list"
      using that by (auto simp: thread_done_def Cons_eq_append_conv Cons_eq_map_conv)
    then show ?thesis using r Cons that(1) [of v "map Result vs' @ [m]"] by (auto simp: thread_ends_def)
  qed
qed (rule that(4))

lemma thread_done_simps [simp]: "thread_done [Complete]" "\<not> thread_done [Error e]"
  by (auto simp: thread_done_def Cons_eq_append_conv intro: exI [of _ "[]"])

lemma thread_done_ends: "thread_done r \<Longrightarrow> thread_ends r"
  by (auto simp: thread_done_def thread_ends_def)

text \<open>The channels before and after a value has been received.\<close>

definition receipt :: "'r MultiplexReadResult list list \<Rightarrow> 'r option \<Rightarrow> 'r MultiplexReadResult list list \<Rightarrow> bool" where
  "receipt rs v rs' \<longleftrightarrow> list_all thread_ends rs' \<and> (list_all thread_done rs' \<longleftrightarrow> list_all thread_done rs)
    \<and> values_of rs = received v @ values_of rs'"

lemma receipt_trans: "receipt a None b \<Longrightarrow> receipt b v c \<Longrightarrow> receipt a v c"
  by (simp add: receipt_def received_def)

lemma receipt_complete: "receipt rs v rs' \<Longrightarrow> receipt ([Complete] # rs) v rs'"
  by (simp add: receipt_def values_of_def)

lemma receipt_value: "thread_ends ms \<Longrightarrow> thread_done (Result v # ms) \<longleftrightarrow> thread_done ms \<Longrightarrow> list_all thread_ends rs \<Longrightarrow>
    receipt ((Result v # ms) # rs) (Some v) (ms # rs)"
  by (simp add: receipt_def values_of_def received_def)

lemma receipt_none: "list_all thread_ends rs \<Longrightarrow> receipt rs None rs"
  by (simp add: receipt_def received_def)

lemma poll_receipt: "list_all thread_ends rs \<Longrightarrow> poll_receivers ready polls rs = Ok (v, p, rs') \<Longrightarrow> receipt rs v rs'"
proof (induction ready polls rs rule: poll_receivers.induct)
  case (2 ready polls r rs)
  show ?case
  proof (cases "ready polls")
    case True
    have "thread_ends r" using "2.prems"(1) by simp
    then show ?thesis
    proof (cases rule: thread_ends_cases)
      case (1 w ms)
      then show ?thesis using True "2.prems" by (auto intro!: receipt_value)
    next
      case 2
      then have "receipt rs v rs'" using True "2.prems" "2.IH" by simp
      then show ?thesis using 2 receipt_complete by blast
    qed (use True "2.prems" in simp_all)
  next
    case False
    then show ?thesis using "2.prems" receipt_none [OF "2.prems"(1)] by auto
  qed
qed (simp add: receipt_none)

lemma await_receipt: "list_all thread_ends rs \<Longrightarrow> await_receivers rs = Ok (v, rs') \<Longrightarrow> receipt rs v rs' \<and> (v = None \<longrightarrow> rs' = [])"
proof (induction rs rule: await_receivers.induct)
  case (2 r rs)
  have "thread_ends r" using "2.prems"(1) by simp
  then show ?case
  proof (cases rule: thread_ends_cases)
    case (1 w ms)
    then show ?thesis using "2.prems" by (auto intro!: receipt_value)
  next
    case 2
    then have "receipt rs v rs' \<and> (v = None \<longrightarrow> rs' = [])" using "2.prems" "2.IH" by simp
    then show ?thesis using 2 receipt_complete by blast
  qed (use "2.prems" in simp_all)
qed (simp add: receipt_none)

text \<open>What a retrieval leaves as it is.\<close>

definition same_streams :: "'r MultiplexReaderState \<Rightarrow> 's MultiplexReaderState \<Rightarrow> bool" where
  "same_streams s s' \<longleftrightarrow> mrs_sent s' = mrs_sent s \<and> mrs_closed s' = mrs_closed s \<and> mrs_retention s' = mrs_retention s
    \<and> mrs_state s' = mrs_state s"

lemma try_get_receipt:
  "list_all thread_ends (mrs_receivers s) \<Longrightarrow> try_get_result ready s = Ok (v, s') \<Longrightarrow>
    receipt (mrs_receivers s) v (mrs_receivers s') \<and> same_streams s s'"
  using poll_receipt by (auto simp: try_get_result_def same_streams_def)

lemma run_single_receipt:
  "run_single_threaded ready k s = Ok (v, s') \<Longrightarrow> list_all thread_ends (mrs_receivers s) \<Longrightarrow>
    receipt (mrs_receivers s) v (mrs_receivers s')"
proof (induction ready k s rule: run_single_threaded.induct)
  case (2 ready k s)
  from "2.prems"(1) obtain v1 s1 where 1: "try_get_result ready (s\<lparr>mrs_work := Some k\<rparr>) = Ok (v1, s1)"
    and 3: "(case v1 of Some v \<Rightarrow> Ok (Some v, s1) | None \<Rightarrow> run_single_threaded ready k s1) = Ok (v, s')" by auto
  have r1: "receipt (mrs_receivers s) v1 (mrs_receivers s1)" using try_get_receipt [OF _ 1] "2.prems"(2) by simp
  show ?case
  proof (cases v1)
    case None
    from "2.IH" [OF 1 refl None] 3 r1 None show ?thesis by (auto simp: receipt_def received_def)
  qed (use r1 3 in auto)
qed (simp add: receipt_none)

lemma retrieve_receipt:
  assumes "list_all thread_ends (mrs_receivers s)" "retrieve_result ready complete s = Ok (v, s')"
  shows "receipt (mrs_receivers s) v (mrs_receivers s')" "complete \<Longrightarrow> v = None \<Longrightarrow> mrs_receivers s' = []"
    "\<not> complete \<Longrightarrow> same_streams s s'"
proof -
  from assms(2) obtain v1 s1 where 1: "try_get_result ready s = Ok (v1, s1)" by (auto simp: retrieve_result_def)
  note R1 = try_get_receipt [OF assms(1) 1]
  have "receipt (mrs_receivers s) v (mrs_receivers s') \<and> (complete \<longrightarrow> v = None \<longrightarrow> mrs_receivers s' = []) \<and> (\<not> complete \<longrightarrow> same_streams s s')"
  proof (cases "v1 = None \<and> complete")
    case False
    then have "v = v1" "s' = s1" using assms(2) 1 by (auto simp: retrieve_result_def split: option.splits)
    then show ?thesis using R1 False by auto
  next
    case True
    with assms(2) 1 obtain v2 s2 where 2: "(case mrs_work s1 of None \<Rightarrow> Ok (None, close_senders s1)
        | Some k \<Rightarrow> run_single_threaded ready k (close_senders s1)) = Ok (v2, s2)"
      and 3: "(case v2 of Some v \<Rightarrow> Ok (Some v, s2)
        | None \<Rightarrow> bindR (await_receivers (mrs_receivers s2)) (\<lambda>(v, rs). Ok (v, s2\<lparr>mrs_receivers := rs\<rparr>))) = Ok (v, s')"
      by (auto simp: retrieve_result_def)
    have ends: "list_all thread_ends (mrs_receivers s1)" using R1 by (simp add: receipt_def)
    then have R2: "receipt (mrs_receivers s1) v2 (mrs_receivers s2)"
      using 2 run_single_receipt [of ready _ "close_senders s1"] by (fastforce split: option.splits simp: receipt_none)
    show ?thesis
    proof (cases v2)
      case None
      from 3 None obtain rs where a: "await_receivers (mrs_receivers s2) = Ok (v, rs)" "s' = s2\<lparr>mrs_receivers := rs\<rparr>" by auto
      have "list_all thread_ends (mrs_receivers s2)" using R2 by (simp add: receipt_def)
      from await_receipt [OF this a(1)] show ?thesis
        using R1 R2 True None receipt_trans a(2) by (metis MultiplexReaderState.select_convs(3) MultiplexReaderState.surjective MultiplexReaderState.update_convs(3))
    qed (use R1 R2 3 True receipt_trans in fastforce)
  qed
  then show "receipt (mrs_receivers s) v (mrs_receivers s')" "complete \<Longrightarrow> v = None \<Longrightarrow> mrs_receivers s' = []"
    "\<not> complete \<Longrightarrow> same_streams s s'" by auto
qed

lemma retrieve_results_receipts:
  "retrieve_results ready complete s = Ok (vs, s') \<Longrightarrow> list_all thread_ends (mrs_receivers s) \<Longrightarrow>
    list_all thread_ends (mrs_receivers s') \<and> (list_all thread_done (mrs_receivers s') \<longleftrightarrow> list_all thread_done (mrs_receivers s))
    \<and> values_of (mrs_receivers s) = vs @ values_of (mrs_receivers s') \<and> (complete \<longrightarrow> mrs_receivers s' = [])
    \<and> (\<not> complete \<longrightarrow> same_streams s s')"
proof (induction ready complete s arbitrary: vs rule: retrieve_results.induct)
  case (1 ready complete s)
  from "1.prems"(1) obtain v s1 where r: "retrieve_result ready complete s = Ok (v, s1)"
    by (subst (asm) retrieve_results.simps) (auto split: sum.splits)
  note R = retrieve_receipt [OF "1.prems"(2) r]
  show ?case
  proof (cases v)
    case None
    then have "vs = []" "s' = s1" using "1.prems"(1) r by (subst (asm) retrieve_results.simps, simp)+
    then show ?thesis using R None by (auto simp: receipt_def received_def)
  next
    case (Some x)
    with "1.prems"(1) r obtain vs' where vs: "retrieve_results ready complete s1 = Ok (vs', s')" "vs = x # vs'"
      by (subst (asm) retrieve_results.simps) auto
    have "list_all thread_ends (mrs_receivers s1)" using R(1) by (simp add: receipt_def)
    from "1.IH" [OF r _ _ vs(1) this] Some R vs(2) show ?thesis by (auto simp: receipt_def received_def same_streams_def)
  qed
qed

lemma retrieve_results_done:
  "list_all thread_done (mrs_receivers s) \<Longrightarrow> \<exists>vs s'. retrieve_results ready complete s = Ok (vs, s')"
proof (induction ready complete s rule: retrieve_results.induct)
  case (1 ready complete s)
  from retrieve_result_done [OF "1.prems", of ready complete] obtain v s1 where
    r: "retrieve_result ready complete s = Ok (v, s1)" "receives s v s1" by blast
  show ?case
  proof (cases v)
    case None
    then show ?thesis using r by (subst retrieve_results.simps) simp
  next
    case (Some x)
    have "list_all thread_done (mrs_receivers s1)" using r(2) by (simp add: receives_def)
    from "1.IH" [OF r(1) _ _ this] Some r(1) show ?thesis by (subst retrieve_results.simps) auto
  qed
qed

section \<open>Blocks for the threads\<close>

text \<open>What is sent to the threads does not depend on what they send.\<close>

definition same_demultiplexed ::
  "'r MultiplexReaderState \<Rightarrow> 's MultiplexReaderState \<Rightarrow> ('r MultiplexReaderState \<times> bytes) result
    \<Rightarrow> ('s MultiplexReaderState \<times> bytes) result \<Rightarrow> bool"
where
  "same_demultiplexed s t res res' \<longleftrightarrow> (\<exists>e. res = Inl e \<and> res' = Inl e)
    \<or> (\<exists>s' t' rest. res = Inr (s', rest) \<and> res' = Inr (t', rest) \<and> same_streams s' t'
        \<and> mrs_receivers s' = mrs_receivers s \<and> mrs_receivers t' = mrs_receivers t)"

lemma demultiplex_same: "same_streams s t \<Longrightarrow> same_demultiplexed s t (demultiplex s x) (demultiplex t x)"
proof (induction s x arbitrary: t rule: demultiplex.induct)
  case (1 s x)
  note S = "1.prems" [unfolded same_streams_def]
  have n: "sender_count t = sender_count s" using S by (simp add: sender_count_def)
  have keep: "same_demultiplexed s t (Inr (s, x)) (Inr (t, x))" using "1.prems" by (auto simp: same_demultiplexed_def)
  have fail: "same_demultiplexed s t (Inl e) (Inl e)" for e by (simp add: same_demultiplexed_def)
  show ?case
  proof (cases "mrs_state s")
    case StartBlock
    let ?f = "\<lambda>s. s\<lparr>mrs_state := after_marker (x ! 0)\<rparr>"
    show ?thesis
    proof (cases "length x < 1 + mrs_retention s \<or> sender_count s \<le> unat (x ! 0 AND 0xf)")
      case True
      then show ?thesis using StartBlock S n keep fail by (subst (1 2) demultiplex.simps) auto
    next
      case False
      then have "same_demultiplexed (?f s) (?f t) (demultiplex (?f s) (drop 1 x)) (demultiplex (?f t) (drop 1 x))"
        using S StartBlock by (intro "1.IH"(1)) (auto simp: same_streams_def)
      then show ?thesis using False StartBlock S n by (subst (1 2) demultiplex.simps) (auto simp: same_demultiplexed_def)
    qed
  next
    case (U16Length p)
    let ?f = "\<lambda>s. s\<lparr>mrs_state := after_length p (take 2 x)\<rparr>"
    show ?thesis
    proof (cases "length x < 2 + mrs_retention s")
      case True
      then show ?thesis using U16Length S keep by (subst (1 2) demultiplex.simps) simp
    next
      case False
      then have "same_demultiplexed (?f s) (?f t) (demultiplex (?f s) (drop 2 x)) (demultiplex (?f t) (drop 2 x))"
        using S U16Length by (intro "1.IH"(2)) (auto simp: same_streams_def)
      then show ?thesis using False U16Length S by (subst (1 2) demultiplex.simps) (auto simp: same_demultiplexed_def)
    qed
  next
    case (Block p k)
    let ?f = "\<lambda>s. s\<lparr>mrs_sent := (mrs_sent s)[unat p := mrs_sent s ! unat p @ [WriteBlock (unat p) (take k x)]], mrs_state := StartBlock\<rparr>"
    show ?thesis
    proof (cases "length x < k + mrs_retention s \<or> sender_count s \<le> unat p")
      case True
      then show ?thesis using Block S n keep fail by (subst (1 2) demultiplex.simps) auto
    next
      case False
      then have "same_demultiplexed (?f s) (?f t) (demultiplex (?f s) (drop k x)) (demultiplex (?f t) (drop k x))"
        using S Block by (intro "1.IH"(3)) (auto simp: same_streams_def)
      then show ?thesis using False Block S n by (subst (1 2) demultiplex.simps) (auto simp: same_demultiplexed_def)
    qed
  qed
qed

lemma demultiplex_receivers: "demultiplex s x = Ok (s', rest) \<Longrightarrow> mrs_receivers s' = mrs_receivers s"
  using demultiplex_same [of s s x] by (auto simp: same_demultiplexed_def same_streams_def)

section \<open>The header\<close>

text \<open>What a turn works on: the state, the header and the features.\<close>

type_synonym core = "DecoderState \<times> LeptonHeader \<times> EnabledFeatures"

definition core_of :: "LeptonFileReader \<Rightarrow> core" where
  "core_of r = (fr_state r, fr_lh r, fr_features r)"

fun with_core :: "core \<Rightarrow> LeptonFileReader \<Rightarrow> LeptonFileReader" where
  "with_core (st, lh, f) r = r\<lparr>fr_state := st, fr_lh := lh, fr_features := f\<rparr>"

lemma with_core_same [simp]: "with_core (core_of r) r = r"
  by (simp add: core_of_def)

lemma core_of_with [simp]: "core_of (with_core c r) = c"
  by (cases c) (simp add: core_of_def)

abbreviation in_header :: "core \<Rightarrow> bool" where
  "in_header c \<equiv> 2 \<le> state_rank (fst c)"

fun needed :: "DecoderState \<Rightarrow> nat" where
  "needed FixedHeader = FIXED_HEADER_SIZE"
| "needed (CompressedHeader k) = k"
| "needed CMP = 3"
| "needed _ = 0"

definition header_step ::
  "nat \<Rightarrow> Platform \<Rightarrow> (nat \<Rightarrow> Message list) \<Rightarrow> core \<Rightarrow> bytes \<Rightarrow> nat \<times> bytes list \<Rightarrow> (core \<times> nat \<times> bytes list) result option"
where
  "header_step n P final = (\<lambda>(st, lh, f) v out.
    case st of
      FixedHeader \<Rightarrow> Some (bindR (read_lepton_fixed_header v f lh) (\<lambda>(k, f, lh).
        Ok ((CompressedHeader k, lh, f), unat (lh_jpeg_file_size lh), snd out)))
    | CompressedHeader k \<Rightarrow> Some (bindR (read_compressed_lepton_header (pf_inflate P) v f k lh) (\<lambda>lh. Ok ((CMP, lh, f), out)))
    | CMP \<Rightarrow> bindF (process_cmp n P final v lh f out) (\<lambda>(st, out). Some (Ok ((st, lh, f), out)))
    | _ \<Rightarrow> Some (Ok ((st, lh, f), out)))"

lemma header_step_decreases:
  "in_header c \<Longrightarrow> header_step n P final c v out = Some (Ok (c', out')) \<Longrightarrow> state_rank (fst c') < state_rank (fst c)"
  by (cases c; cases "fst c") (auto simp: header_step_def bindF_eq_Inr dest!: process_cmp_rank)

function header_run ::
  "nat \<Rightarrow> Platform \<Rightarrow> (nat \<Rightarrow> Message list) \<Rightarrow> core \<Rightarrow> nat \<times> bytes list \<Rightarrow> bytes \<Rightarrow> (core \<times> (nat \<times> bytes list) \<times> bytes) result option"
where
  "header_run n P final c out x =
    (if in_header c \<and> needed (fst c) \<le> length x
     then (case header_step n P final c (take (needed (fst c)) x) out of
         None \<Rightarrow> None
       | Some (Inl e) \<Rightarrow> Some (Inl e)
       | Some (Inr (c', out')) \<Rightarrow> header_run n P final c' out' (drop (needed (fst c)) x))
     else Some (Ok (c, out, x)))"
  by pat_completeness auto

termination header_run
  by (relation "measure (\<lambda>(n, P, final, c, out, x). state_rank (fst c))") (auto dest: header_step_decreases)

declare header_run.simps [simp del]

lemma header_run_stays: "\<not> in_header c \<Longrightarrow> header_run n P final c out x = Some (Ok (c, out, x))"
  by (simp add: header_run.simps)

lemma header_run_needs: "header_run n P final c out x = Some (Ok (c', out', x')) \<Longrightarrow> in_header c' \<Longrightarrow> length x' < needed (fst c')"
proof (induction n P final c out x rule: header_run.induct)
  case (1 n P final c out x)
  show ?case
  proof (cases "in_header c \<and> needed (fst c) \<le> length x")
    case True
    with "1.prems"(1) obtain c1 out1 where 2: "header_step n P final c (take (needed (fst c)) x) out = Some (Inr (c1, out1))"
      "header_run n P final c1 out1 (drop (needed (fst c)) x) = Some (Ok (c', out', x'))"
      by (subst (asm) header_run.simps) (auto split: option.splits sum.splits)
    from "1.IH" [OF True 2(1) _ refl 2(2) "1.prems"(2)] show ?thesis by simp
  next
    case False
    then show ?thesis using "1.prems" by (auto simp: header_run.simps [of n P final c])
  qed
qed

lemma header_run_append:
  "header_run n P final c out (x @ y) = bindF (header_run n P final c out x) (\<lambda>(c, out, x). header_run n P final c out (x @ y))"
proof (induction n P final c out x rule: header_run.induct)
  case (1 n P final c out x)
  show ?case
  proof (cases "in_header c \<and> needed (fst c) \<le> length x")
    case True
    let ?s = "header_step n P final c (take (needed (fst c)) x) out"
    consider (none) "?s = None" | (err) e where "?s = Some (Inl e)" | (ok) c1 out1 where "?s = Some (Inr (c1, out1))"
      by (metis not_None_eq sum.exhaust surj_pair)
    then show ?thesis
    proof cases
      case ok
      then show ?thesis using True "1.IH" [OF True ok refl refl] by (subst (1 2) header_run.simps) simp
    qed (use True in \<open>subst (1 2) header_run.simps, simp\<close>)+
  next
    case False
    then have "header_run n P final c out x = Some (Ok (c, out, x))" unfolding header_run.simps [of n P final c out x] by (rule if_not_P)
    then show ?thesis by simp
  qed
qed

text \<open>The header writes only for a baseline file, and only at its end.\<close>

lemma header_run_silent:
  assumes "header_run n P final c out x = Some (Ok (c', out', x'))" "in_header c" "snd out = []" "\<forall>s. fst c' \<noteq> ScanBaseline s"
  shows "snd out' = []"
  using assms
proof (induction n P final c out x rule: header_run.induct)
  case (1 n P final c out x)
  show ?case
  proof (cases "needed (fst c) \<le> length x")
    case True
    with "1.prems"(1,2) obtain c1 out1 where 2: "header_step n P final c (take (needed (fst c)) x) out = Some (Inr (c1, out1))"
      "header_run n P final c1 out1 (drop (needed (fst c)) x) = Some (Ok (c', out', x'))"
      by (subst (asm) header_run.simps) (auto split: option.splits sum.splits)
    show ?thesis
    proof (cases "in_header c1")
      case True
      then have "snd out1 = []" using 2(1) "1.prems"(2,3)
        by (cases c; cases "fst c") (auto simp: header_step_def bindF_eq_Inr dest!: process_cmp_rank)
      from "1.IH" [OF _ 2(1) _ refl 2(2) True this "1.prems"(4)] "1.prems"(2) \<open>needed (fst c) \<le> length x\<close> show ?thesis by simp
    next
      case False
      then have c1: "c' = c1" "out' = out1" using 2(2) by (simp_all add: header_run_stays)
      then show ?thesis using 2(1) "1.prems"(2-4) False
        by (cases c; cases "fst c") (auto simp: header_step_def bindF_eq_Inr process_cmp_def split: if_splits)
    qed
  next
    case False
    then show ?thesis using "1.prems" by (simp add: header_run.simps [of n P final c])
  qed
qed

section \<open>What the threads send\<close>

definition callback_keeps :: "('u \<Rightarrow> bool) \<Rightarrow> (RowSpec \<Rightarrow> BlockBasedImage list \<Rightarrow> 'u \<Rightarrow> 'u result) \<Rightarrow> bool" where
  "callback_keeps I cb \<longleftrightarrow> (\<forall>row images u u'. I u \<longrightarrow> cb row images u = Ok u' \<longrightarrow> I u')"

lemma decode_row_step_callback:
  assumes "callback_keeps I cb" "I u" "decode_row_step S qts sizes features cb row (images, u) s r = Ok ((images', u'), s', r')"
  shows "I u'"
proof -
  obtain tops caches m where s: "s = (tops, caches, m)" by (cases s)
  from assms(3) obtain ims where "(if last_row_to_complete_mcu row then cb row ims u else Ok u) = Ok u'"
    unfolding decode_row_step_def s prod.case Let_def bindR_eq_Inr
    by (elim exE conjE) (auto split: prod.splits)
  then show ?thesis using assms(1,2) by (auto simp: callback_keeps_def split: if_splits)
qed

lemma decode_rows_callback:
  assumes "callback_keeps I cb"
  shows "I u \<Longrightarrow> decode_rows n S qts mv sizes heights min_y max_y whole features cb k (images, u) s r = Some (Ok ((images', u'), t)) \<Longrightarrow> I u'"
proof (induction n arbitrary: k images u s r)
  case (Suc n)
  from Suc.prems(2) obtain row where row: "get_row_spec_from_index k images mv heights = Ok row"
    by (auto simp: bindF_eq_Inr)
  show ?case
  proof (cases "done_rows row \<or> max_y \<le> luma_y row \<and> \<not> whole")
    case False
    have step: "I u1" if "decode_row_step S qts sizes features cb row (images, u) s r = Ok ((images1, u1), s1, r1)" for images1 u1 s1 r1
      by (rule decode_row_step_callback [OF assms Suc.prems(1) that])
    from False show ?thesis using Suc.prems row Suc.IH
      by (auto simp: Let_def bindF_eq_Inr split: if_splits dest: step)
  qed (use Suc.prems row in auto)
qed simp

lemma decode_row_range_callback:
  assumes "callback_keeps I cb" "I u"
    and "lepton_decode_row_range n S alloc qts infos cm trunc reader min_y max_y is_last full features cb u = Some (Ok (images, u'))"
  shows "I u'"
  using assms(3) by (auto simp: lepton_decode_row_range_def bindF_eq_Inr dest: decode_rows_callback [OF assms(1,2)])

definition sends_results :: "segment_output option \<Rightarrow> bool" where
  "sends_results u \<longleftrightarrow> (case u of None \<Rightarrow> True | Some (_, _, sent) \<Rightarrow> \<exists>vs. sent = map Result vs)"

lemma baseline_row_sends: "sends_results u \<Longrightarrow> baseline_row n V row images u = Ok u' \<Longrightarrow> sends_results u'"
proof (cases u)
  case (Some a)
  assume u: "sends_results u" "baseline_row n V row images u = Ok u'"
  obtain iw k sent where a: "a = (iw, k, sent)" by (cases a)
  from u(1) Some a obtain vs where vs: "sent = map Result vs" by (auto simp: sends_results_def)
  have "\<exists>ws. sent @ [Result w] = map Result ws" for w using vs by (intro exI [of _ "vs @ [w]"]) simp
  then show ?thesis using u(2) Some a vs
    by (auto simp: sends_results_def send_buffer_def Let_def split: option.splits prod.splits if_splits)
qed (auto simp: sends_results_def)

lemma baseline_thread_sends:
  assumes "baseline_decoding_thread n P reader features qt th jf rinfo is_last = Some (res, sent)"
  shows "(\<exists>e. res = Inl e \<and> sent = []) \<or> (\<exists>vs. res = Ok () \<and> sent = map Result vs @ [Complete])"
proof -
  note D = assms [unfolded baseline_decoding_thread_def Let_def]
  show ?thesis
  proof (cases "\<exists>e. res = Inl e \<and> sent = []")
    case False
    with D obtain images iw k sent' where
      r: "lepton_decode_row_range n (pf_simd P) (pf_alloc P) qt (cmp_info jf) (cmpc jf) (truncate_components rinfo) reader
            (luma_y_start th) (luma_y_end th) is_last True features (baseline_row n (pf_simd16 P))
            (Some (JpegIncrementalWriter_new BUFFER_SIZE (pf_grow P) rinfo (Some \<lparr>overhang_byte = overhang_byte th,
              num_overhang_bits = num_overhang_bits th, luma_y_start = luma_y_start th, luma_y_end = luma_y_end th, last_dc = last_dc th\<rparr>) jf 0,
              unat (segment_size th), [])) = Some (Ok (images, Some (iw, k, sent')))"
      "res = Ok ()" "sent = sent' @ [Result (take k (fst (inc_detach_buffer iw))), Complete]"
      by (auto split: option.splits sum.splits)
    have "sends_results (Some (iw, k, sent'))"
      by (rule decode_row_range_callback [OF _ _ r(1)])
        (auto simp: callback_keeps_def sends_results_def [of "Some _"] dest: baseline_row_sends)
    then obtain vs where "sent' = map Result vs" by (auto simp: sends_results_def)
    then have "sent = map Result (vs @ [take k (fst (inc_detach_buffer iw))]) @ [Complete]" using r(3) by simp
    then show ?thesis using r(2) by blast
  qed simp
qed

lemma sends_one: "\<exists>vs. [Result a] = map Result vs"
  by (rule exI [of _ "[a]"]) simp

lemma progressive_thread_sends:
  "progressive_decoding_thread n P reader features qt th jf rinfo is_last = Some (res, sent) \<Longrightarrow>
    (\<exists>e. res = Inl e \<and> sent = []) \<or> (\<exists>vs. res = Ok () \<and> sent = map Result vs @ [Complete])"
  by (auto simp: progressive_decoding_thread_def sends_one split: option.splits sum.splits)

lemma run_threads_end:
  assumes "run_lepton_decoder_threads lh features k par final process = Some (Ok mux)"
    and "\<And>reader features qt th jf rinfo is_last res sent. process reader features qt th jf rinfo is_last = Some (res, sent) \<Longrightarrow>
      (\<exists>e. res = Inl e \<and> sent = []) \<or> (\<exists>vs. res = Ok () \<and> sent = map Result vs @ [Complete])"
  shows "list_all thread_ends (mrs_receivers mux) \<and> mrs_state mux = StartBlock"
proof -
  have out: "thread_ends (thread_outputs (\<lambda>i reader. the (run i reader)) i ms)"
    if "run i (MultiplexReader_new ms) \<noteq> None"
      "\<And>res sent. run i (MultiplexReader_new ms) = Some (res, sent) \<Longrightarrow>
        (\<exists>e. res = Inl e \<and> sent = []) \<or> (\<exists>vs. res = Ok () \<and> sent = map Result vs @ [Complete])"
    for run :: "nat \<Rightarrow> MultiplexReader \<Rightarrow> (unit result \<times> 'a MultiplexReadResult list) option" and i ms
  proof -
    from that(1) obtain res sent where r: "run i (MultiplexReader_new ms) = Some (res, sent)" by auto
    have e: "catch_unwind_result (Inl e) = (case e of Panic \<Rightarrow> err_exit_code AssertionFailure | LeptonError e \<Rightarrow> err_exit_code e)" for e :: failure
      by (cases e) simp_all
    from that(2) [OF r] r show ?thesis
      by (auto simp: thread_outputs_def thread_ends_def e intro: exI [of _ "[]"] split: failure.splits)
  qed
  from assms(1) obtain qt where qt:
    "\<not> list_ex (\<lambda>i. process (stream_bytes (reader_stream (MultiplexReader_new (final i)))) features qt
        (lh_thread_handoff lh ! i) (lh_jpeg_header lh) (lh_rinfo lh) (i = length (lh_thread_handoff lh) - 1) = None) [0..<length (lh_thread_handoff lh)]"
    "mux = multiplex_read (length (lh_thread_handoff lh)) (unat (max_processor_threads features)) par k
      (\<lambda>i. thread_outputs (\<lambda>i reader. the (process (stream_bytes (reader_stream reader)) features qt (lh_thread_handoff lh ! i)
        (lh_jpeg_header lh) (lh_rinfo lh) (i = length (lh_thread_handoff lh) - 1))) i (final i))"
    by (auto simp: run_lepton_decoder_threads_def bindF_eq_Inr Let_def simp del: list_ex_iff split: if_splits)
  have "thread_ends (thread_outputs (\<lambda>i reader. the (process (stream_bytes (reader_stream reader)) features qt (lh_thread_handoff lh ! i)
        (lh_jpeg_header lh) (lh_rinfo lh) (i = length (lh_thread_handoff lh) - 1))) i (final i))" if "i < length (lh_thread_handoff lh)" for i
    by (rule out) (use qt(1) that assms(2) in \<open>auto simp: list_ex_iff\<close>)
  then show ?thesis unfolding qt(2) by (simp add: multiplex_read_def list_all_iff thread_ends_def [of "[]"])
qed

section \<open>A piece\<close>

lemma header_turn:
  assumes c: "continue_processing pb" and h: "in_header (core_of r)"
  shows "(length (input_left pb) < needed (fr_state r) \<and> process_turn n P ready final complete r pb out = Some (Ok (r, stopped (input_left pb), out)))
    \<or> (needed (fr_state r) \<le> length (input_left pb) \<and> (\<exists>pb'. continue_processing pb' \<and> input_left pb' = drop (needed (fr_state r)) (input_left pb)
        \<and> process_turn n P ready final complete r pb out =
          bindF (header_step n P final (core_of r) (take (needed (fr_state r)) (input_left pb)) out) (\<lambda>(c, out). Some (Ok (with_core c r, pb', out)))))"
proof -
  let ?k = "needed (fr_state r)" and ?x = "input_left pb"
  note defs = process_turn_def fixed_header_turn_def compressed_header_turn_def cmp_turn_def header_step_def core_of_def
  show ?thesis
  proof (cases rule: take_bytes_cases [of ?k 0 pb])
    case (1 bs pb')
    then have bs: "take ?k ?x = bs" "drop ?k ?x = input_left pb'" "?k \<le> length ?x" by simp_all
    have "process_turn n P ready final complete r pb out =
        bindF (header_step n P final (core_of r) bs out) (\<lambda>(c, out). Some (Ok (with_core c r, pb', out)))"
    proof (cases "fr_state r")
      case FixedHeader
      then show ?thesis using 1(1)
        by (cases "read_lepton_fixed_header bs (fr_features r) (fr_lh r)") (auto simp: defs)
    next
      case (CompressedHeader k)
      then show ?thesis using 1(1)
        by (cases "read_compressed_lepton_header (pf_inflate P) bs (fr_features r) k (fr_lh r)") (auto simp: defs)
    next
      case CMP
      then show ?thesis using 1(1)
        by (auto simp: defs bindF_def split: option.splits sum.splits)
    qed (use h in \<open>simp_all add: core_of_def\<close>)
    then show ?thesis using bs 1(5) c by auto
  next
    case (2 pb')
    have pb': "pb' = stopped ?x" using stopped_eq [OF 2(3,4)] 2(2) by simp
    have "process_turn n P ready final complete r pb out = Some (Ok (r, pb', out))"
    proof (cases "fr_state r")
      case FixedHeader
      then show ?thesis using 2(1) by (simp add: defs)
    next
      case (CompressedHeader k)
      then show ?thesis using 2(1) by (simp add: defs)
    next
      case CMP
      then show ?thesis using 2(1) by (simp add: defs)
    qed (use h in \<open>simp_all add: core_of_def\<close>)
    then show ?thesis using 2(5) pb' by simp
  qed
qed

lemma state_rank_0: "state_rank st = 0 \<longleftrightarrow> st = Eoi"
  by (cases st) simp_all

lemma header_step_rank: "in_header c \<Longrightarrow> header_step n P final c v out = Some (Ok (c', out')) \<Longrightarrow> 1 \<le> state_rank (fst c')"
  by (cases c; cases "fst c") (auto simp: header_step_def bindF_eq_Inr dest!: process_cmp_rank)

lemma scan_turn_bytes:
  assumes "continue_processing pb" "state_rank (fr_state r) = 1"
  shows "process_turn n P ready final complete r pb out = process_turn n P ready final complete r (PartialBuffer_new [] (input_left pb)) out"
  using assms by (cases "fr_state r") (simp_all add: process_turn_def progressive_turn_def baseline_turn_def process_demultiplex)

lemma scan_loop:
  assumes "continue_processing pb" "state_rank (fr_state r) = 1"
  shows "process_loop n P ready final complete r pb out = process_turn n P ready final complete r (PartialBuffer_new [] (input_left pb)) out"
proof -
  let ?t = "process_turn n P ready final complete r pb out"
  have ne: "fr_state r \<noteq> Eoi" using assms(2) by auto
  have "process_loop n P ready final complete r' pb' out' = Some (Ok (r', pb', out'))" if "?t = Some (Ok (r', pb', out'))" for r' pb' out'
  proof -
    from process_turn_decreases [OF assms(1) ne that] assms(1,2) have "turn_rank r' pb' < 3" by (simp add: turn_rank_def)
    then have "\<not> continue_processing pb' \<or> fr_state r' = Eoi"
      by (cases "continue_processing pb'") (auto simp: turn_rank_def state_rank_0 [symmetric])
    then show ?thesis by (simp add: process_loop.simps)
  qed
  then have "process_loop n P ready final complete r pb out = ?t"
    using ne assms(1) by (subst process_loop.simps) (auto split: option.splits sum.splits)
  then show ?thesis using scan_turn_bytes [OF assms] by metis
qed

lemma loop_run:
  "continue_processing pb \<Longrightarrow> 1 \<le> state_rank (fr_state r) \<Longrightarrow> process_loop n P ready final complete r pb out =
    bindF (header_run n P final (core_of r) out (input_left pb)) (\<lambda>(c, out, x).
      if in_header c then Some (Ok (with_core c r, stopped x, out))
      else process_turn n P ready final complete (with_core c r) (PartialBuffer_new [] x) out)"
proof (induction "state_rank (fr_state r)" arbitrary: r pb out rule: less_induct)
  case less
  have ne: "fr_state r \<noteq> Eoi" using less.prems(2) by auto
  show ?case
  proof (cases "in_header (core_of r)")
    case False
    then have "state_rank (fr_state r) = 1" using less.prems(2) by (simp add: core_of_def)
    from scan_loop [OF less.prems(1) this] False show ?thesis by (simp add: header_run_stays)
  next
    case True
    let ?k = "needed (fr_state r)" and ?x = "input_left pb"
    have fst: "fst (core_of r) = fr_state r" by (simp add: core_of_def)
    from header_turn [OF less.prems(1) True, of n P ready final complete out] show ?thesis
    proof (elim disjE conjE exE)
      assume l: "length ?x < ?k" and t: "process_turn n P ready final complete r pb out = Some (Ok (r, stopped ?x, out))"
      have "header_run n P final (core_of r) out ?x = Some (Ok (core_of r, out, ?x))"
        using l by (subst header_run.simps) (simp add: fst)
      moreover have "process_loop n P ready final complete r pb out = Some (Ok (r, stopped ?x, out))"
        using ne less.prems(1) t by (subst process_loop.simps) (simp, subst process_loop.simps, simp add: stopped_def)
      ultimately show ?thesis using True by simp
    next
      fix pb'
      assume l: "?k \<le> length ?x" and pb': "continue_processing pb'" "input_left pb' = drop ?k ?x"
        and t: "process_turn n P ready final complete r pb out =
          bindF (header_step n P final (core_of r) (take ?k ?x) out) (\<lambda>(c, out). Some (Ok (with_core c r, pb', out)))"
      let ?s = "header_step n P final (core_of r) (take ?k ?x) out"
      consider (none) "?s = None" | (err) e where "?s = Some (Inl e)" | (ok) c1 out1 where "?s = Some (Ok (c1, out1))"
        by (metis not_None_eq sum.exhaust surj_pair)
      then show ?thesis
      proof cases
        case ok
        have rank: "state_rank (fst c1) < state_rank (fr_state r)" "1 \<le> state_rank (fst c1)"
          using header_step_decreases [OF True ok] header_step_rank [OF True ok] by (simp_all add: fst)
        have st: "fr_state (with_core c1 r) = fst c1" by (cases c1) simp
        have twice: "with_core c (with_core c1 r) = with_core c r" for c by (cases c; cases c1) simp
        note IH = less.hyps [of "with_core c1 r" pb' out1, unfolded st twice, OF rank(1) pb'(1) rank(2)]
        have "process_loop n P ready final complete r pb out = process_loop n P ready final complete (with_core c1 r) pb' out1"
          using ne less.prems(1) t ok by (subst process_loop.simps) simp
        moreover have "header_run n P final (core_of r) out ?x = header_run n P final c1 out1 (drop ?k ?x)"
          using True l ok by (subst header_run.simps) (simp add: fst)
        ultimately show ?thesis using IH pb'(2) by simp
      qed (use ne less.prems(1) t l True in \<open>subst process_loop.simps, subst header_run.simps, simp add: fst\<close>)+
    qed
  qed
qed

section \<open>Runs\<close>

fun threads_end :: "DecoderState \<Rightarrow> bool" where
  "threads_end (ScanProgressive s) \<longleftrightarrow> list_all thread_ends (mrs_receivers s) \<and> mrs_state s = StartBlock"
| "threads_end (ScanBaseline s) \<longleftrightarrow> list_all thread_ends (mrs_receivers s) \<and> mrs_state s = StartBlock"
| "threads_end _ = True"

lemma process_cmp_ends: "process_cmp n P final v lh f out = Some (Ok (st, out')) \<Longrightarrow> threads_end st"
  using run_threads_end [OF _ progressive_thread_sends] run_threads_end [OF _ baseline_thread_sends]
  by (fastforce simp: process_cmp_def bindF_eq_Inr split: if_splits)

lemma header_run_ends:
  "header_run n P final c out x = Some (Ok (c', out', x')) \<Longrightarrow> in_header c \<Longrightarrow> threads_end (fst c')"
proof (induction n P final c out x rule: header_run.induct)
  case (1 n P final c out x)
  show ?case
  proof (cases "needed (fst c) \<le> length x")
    case True
    with "1.prems" obtain c1 out1 where 2: "header_step n P final c (take (needed (fst c)) x) out = Some (Inr (c1, out1))"
      "header_run n P final c1 out1 (drop (needed (fst c)) x) = Some (Ok (c', out', x'))"
      by (subst (asm) header_run.simps) (auto split: option.splits sum.splits)
    show ?thesis
    proof (cases "in_header c1")
      case True
      with "1.IH" [OF _ 2(1) _ refl 2(2) True] "1.prems"(2) \<open>needed (fst c) \<le> length x\<close> show ?thesis by simp
    next
      case False
      then have "c' = c1" using 2(2) by (simp add: header_run_stays)
      then show ?thesis using 2(1) "1.prems"(2)
        by (cases c; cases "fst c") (auto simp: header_step_def bindF_eq_Inr dest: process_cmp_ends)
    qed
  next
    case False
    then show ?thesis using "1.prems" by (cases "fst c") (auto simp: header_run.simps [of n P final c])
  qed
qed

text \<open>The reader after a piece that follows the header: how far the blocks have been taken apart, and what has been
  received and written.\<close>

fun scanning :: "core \<Rightarrow> nat \<times> bytes list \<Rightarrow> bytes \<Rightarrow> LeptonFileReader \<Rightarrow> bytes \<Rightarrow> bool" where
  "scanning (ScanBaseline s0, lh, f) out x r W \<longleftrightarrow> fr_lh r = lh \<and> fr_features r = f \<and> (\<exists>s1 s vs.
    demultiplex s0 x = Ok (s1, fr_extra_buffer r) \<and> fr_state r = ScanBaseline s \<and> same_streams s1 s
    \<and> list_all thread_ends (mrs_receivers s) \<and> (list_all thread_done (mrs_receivers s) \<longleftrightarrow> list_all thread_done (mrs_receivers s0))
    \<and> values_of (mrs_receivers s0) = vs @ values_of (mrs_receivers s)
    \<and> fr_jpeg_file_size_left r = fst out - length (concat vs) \<and> W = concat (snd out) @ take (fst out) (concat vs))"
| "scanning (ScanProgressive s0, lh, f) out x r W \<longleftrightarrow> fr_lh r = lh \<and> fr_features r = f \<and> (\<exists>s.
    demultiplex s0 x = Ok (s, fr_extra_buffer r) \<and> fr_state r = ScanProgressive s
    \<and> fr_jpeg_file_size_left r = fst out \<and> W = concat (snd out))"
| "scanning (_, lh, f) out x r W \<longleftrightarrow> False"

definition start_core :: "EnabledFeatures \<Rightarrow> core" where
  "start_core features = (FixedHeader, LeptonHeader_default, features)"

definition header_of :: "nat \<Rightarrow> Platform \<Rightarrow> (nat \<Rightarrow> Message list) \<Rightarrow> EnabledFeatures \<Rightarrow> bytes
    \<Rightarrow> (core \<times> (nat \<times> bytes list) \<times> bytes) result option" where
  "header_of n P final features a = header_run n P final (start_core features) (0, []) a"

text \<open>The reader after the prefix \<open>a\<close> of the file, which has written \<open>W\<close>.\<close>

definition reading ::
  "nat \<Rightarrow> Platform \<Rightarrow> (nat \<Rightarrow> Message list) \<Rightarrow> EnabledFeatures \<Rightarrow> bytes \<Rightarrow> LeptonFileReader \<Rightarrow> bytes \<Rightarrow> bool"
where
  "reading n P final features a r W \<longleftrightarrow> \<not> fr_input_complete r \<and> fr_total_read_size r = length a \<and> (\<exists>c out x.
    header_of n P final features a = Some (Ok (c, out, x)) \<and>
    (if in_header c then core_of r = c \<and> fr_extra_buffer r = x \<and> fr_jpeg_file_size_left r = fst out \<and> W = []
     else scanning c out x r W))"

lemma reading_new: "reading n P final features [] (LeptonFileReader_new features) []"
proof -
  have "header_of n P final features [] = Some (Ok (start_core features, (0, []), []))"
    unfolding header_of_def by (subst header_run.simps) (simp add: start_core_def FIXED_HEADER_SIZE_def)
  then show ?thesis by (simp add: reading_def start_core_def core_of_def LeptonFileReader_new_def)
qed

text \<open>What the blocks of the first part leave over is in front of the second part.\<close>

lemma demultiplex_more:
  assumes "demultiplex s0 x = Ok (s1, e)" "same_streams s1 s"
  shows "same_demultiplexed s1 s (demultiplex s0 (x @ b)) (demultiplex s (e @ b))"
  using demultiplex_same [OF assms(2), of "e @ b"] assms(1) unfolding demultiplex_append [of s0 x b] by simp

text \<open>One piece more.\<close>

lemma scanning_baseline_turn:
  assumes sc: "scanning (ScanBaseline s0, lh, f) out x (r\<lparr>fr_extra_buffer := e, fr_jpeg_file_size_left := k0\<rparr>) (W @ concat ws0)"
    and st: "fr_state r = ScanBaseline s" and pb: "continue_processing pb" "input_left pb = e @ b"
    and t: "baseline_turn ready False s r pb (k0, ws0) = Ok (r', pb', (k, ws))"
  shows "scanning (ScanBaseline s0, lh, f) out (x @ b) (r'\<lparr>fr_extra_buffer := extra_buffer pb', fr_jpeg_file_size_left := k\<rparr>) (W @ concat ws)"
    "fr_total_read_size r' = fr_total_read_size r" "fr_input_complete r' = fr_input_complete r"
proof -
  from sc st obtain s1 vs where S: "fr_lh r = lh" "fr_features r = f" "demultiplex s0 x = Ok (s1, e)" "same_streams s1 s"
    "list_all thread_ends (mrs_receivers s)" "list_all thread_done (mrs_receivers s) \<longleftrightarrow> list_all thread_done (mrs_receivers s0)"
    "values_of (mrs_receivers s0) = vs @ values_of (mrs_receivers s)"
    "k0 = fst out - length (concat vs)" "W @ concat ws0 = concat (snd out) @ take (fst out) (concat vs)" by auto
  from t obtain s2 e2 vs2 s3 where T: "demultiplex s (e @ b) = Ok (s2, e2)" "pb' = stopped e2"
    "retrieve_results ready False s2 = Ok (vs2, s3)" "r' = r\<lparr>fr_state := ScanBaseline s3\<rparr>"
    "(k, ws) = fold limited_write vs2 (k0, ws0)"
    by (auto simp: baseline_turn_def process_demultiplex pb)
  from demultiplex_more [OF S(3,4), of b] T(1) obtain s4 where D: "demultiplex s0 (x @ b) = Ok (s4, e2)" "same_streams s4 s2"
    "mrs_receivers s2 = mrs_receivers s" by (auto simp: same_demultiplexed_def)
  from retrieve_results_receipts [OF T(3)] D(3) S(5)
  have R: "list_all thread_ends (mrs_receivers s3)" "list_all thread_done (mrs_receivers s3) \<longleftrightarrow> list_all thread_done (mrs_receivers s)"
    "values_of (mrs_receivers s) = vs2 @ values_of (mrs_receivers s3)" "same_streams s2 s3" by simp_all
  have w: "k = k0 - length (concat vs2)" "concat ws = concat ws0 @ take k0 (concat vs2)"
    using limited_writes [of vs2 "(k0, ws0)"] T(5) [symmetric] by simp_all
  have "W @ concat ws = (W @ concat ws0) @ take k0 (concat vs2)" by (simp add: w(2))
  also have "\<dots> = concat (snd out) @ take (fst out) (concat (vs @ vs2))" unfolding S(9) by (simp add: S(8))
  finally have "W @ concat ws = concat (snd out) @ take (fst out) (concat (vs @ vs2))" .
  moreover have "same_streams s4 s3" using D(2) R(4) by (simp add: same_streams_def)
  moreover have "k = fst out - length (concat (vs @ vs2))" by (simp add: w(1) S(8))
  ultimately show "scanning (ScanBaseline s0, lh, f) out (x @ b) (r'\<lparr>fr_extra_buffer := extra_buffer pb', fr_jpeg_file_size_left := k\<rparr>) (W @ concat ws)"
    using S R D T by (simp add: stopped_def)
  show "fr_total_read_size r' = fr_total_read_size r" "fr_input_complete r' = fr_input_complete r" by (simp_all add: T(4))
qed

lemma scanning_progressive_turn:
  assumes sc: "scanning (ScanProgressive s0, lh, f) out x (r\<lparr>fr_extra_buffer := e, fr_jpeg_file_size_left := k0\<rparr>) (W @ concat ws0)"
    and st: "fr_state r = ScanProgressive s" and pb: "continue_processing pb" "input_left pb = e @ b"
    and t: "progressive_turn n P ready False s r pb (k0, ws0) = Some (Ok (r', pb', (k, ws)))"
  shows "scanning (ScanProgressive s0, lh, f) out (x @ b) (r'\<lparr>fr_extra_buffer := extra_buffer pb', fr_jpeg_file_size_left := k\<rparr>) (W @ concat ws)"
    "fr_total_read_size r' = fr_total_read_size r" "fr_input_complete r' = fr_input_complete r"
proof -
  from t obtain s2 e2 where T: "demultiplex s (e @ b) = Ok (s2, e2)" "pb' = stopped e2"
    "r' = r\<lparr>fr_state := ScanProgressive s2\<rparr>" "k = k0" "ws = ws0"
    by (auto simp: progressive_turn_def process_demultiplex bindF_eq_Inr pb)
  have "demultiplex s0 (x @ b) = Ok (s2, e2)" unfolding demultiplex_append [of s0] using sc st T(1) by auto
  then show "scanning (ScanProgressive s0, lh, f) out (x @ b) (r'\<lparr>fr_extra_buffer := extra_buffer pb', fr_jpeg_file_size_left := k\<rparr>) (W @ concat ws)"
    using sc st T by (auto simp: stopped_def)
  show "fr_total_read_size r' = fr_total_read_size r" "fr_input_complete r' = fr_input_complete r" by (simp_all add: T(3))
qed

lemma scanning_turn:
  assumes sc: "scanning c out x (r\<lparr>fr_extra_buffer := e, fr_jpeg_file_size_left := k0\<rparr>) (W @ concat ws0)"
    and pb: "continue_processing pb" "input_left pb = e @ b"
    and t: "process_turn n P ready final False r pb (k0, ws0) = Some (Ok (r', pb', (k, ws)))"
  shows "scanning c out (x @ b) (r'\<lparr>fr_extra_buffer := extra_buffer pb', fr_jpeg_file_size_left := k\<rparr>) (W @ concat ws)
    \<and> fr_total_read_size r' = fr_total_read_size r \<and> fr_input_complete r' = fr_input_complete r"
proof -
  obtain st lh f where c: "c = (st, lh, f)" by (cases c)
  show ?thesis
  proof (cases st)
    case (ScanProgressive s0)
    then obtain s where st: "fr_state r = ScanProgressive s" using sc c by auto
    have "progressive_turn n P ready False s r pb (k0, ws0) = Some (Ok (r', pb', (k, ws)))" using t by (simp add: process_turn_def st)
    from scanning_progressive_turn [OF sc [unfolded c ScanProgressive] st pb this] show ?thesis by (simp add: c ScanProgressive)
  next
    case (ScanBaseline s0)
    then obtain s where st: "fr_state r = ScanBaseline s" using sc c by auto
    have "baseline_turn ready False s r pb (k0, ws0) = Ok (r', pb', (k, ws))" using t by (simp add: process_turn_def st)
    from scanning_baseline_turn [OF sc [unfolded c ScanBaseline] st pb this] show ?thesis by (simp add: c ScanBaseline)
  qed (use sc c in simp_all)
qed

text \<open>The first turn behind the header\<close>

lemma demultiplex_nothing: "mrs_state s = StartBlock \<Longrightarrow> demultiplex s [] = Ok (s, [])"
  by (subst demultiplex.simps) simp

lemma scanning_start:
  assumes "\<not> in_header c" "state_rank (fst c) \<noteq> 0" "threads_end (fst c)"
  shows "scanning c out [] ((with_core c r)\<lparr>fr_extra_buffer := [], fr_jpeg_file_size_left := fst out\<rparr>) ([] @ concat (snd out))"
proof -
  obtain st lh f where c: "c = (st, lh, f)" by (cases c)
  show ?thesis using assms by (cases st) (auto simp: c same_streams_def demultiplex_nothing)
qed

lemma header_run_rank:
  "header_run n P final c out x = Some (Ok (c', out', x')) \<Longrightarrow> 1 \<le> state_rank (fst c) \<Longrightarrow> 1 \<le> state_rank (fst c')"
proof (induction n P final c out x rule: header_run.induct)
  case (1 n P final c out x)
  show ?case
  proof (cases "in_header c \<and> needed (fst c) \<le> length x")
    case True
    with "1.prems"(1) obtain c1 out1 where 2: "header_step n P final c (take (needed (fst c)) x) out = Some (Inr (c1, out1))"
      "header_run n P final c1 out1 (drop (needed (fst c)) x) = Some (Ok (c', out', x'))"
      by (subst (asm) header_run.simps) (auto split: option.splits sum.splits)
    from "1.IH" [OF True 2(1) _ refl 2(2)] header_step_rank [OF _ 2(1)] True show ?thesis by simp
  next
    case False
    then show ?thesis using "1.prems" by (auto simp: header_run.simps [of n P final c])
  qed
qed

lemma header_of_facts:
  assumes "header_of n P final features a = Some (Ok (c, out, x))"
  shows "1 \<le> state_rank (fst c)" "threads_end (fst c)" "\<forall>s. fst c \<noteq> ScanBaseline s \<Longrightarrow> snd out = []"
    "header_of n P final features (a @ b) = header_run n P final c out (x @ b)" "header_run n P final c out x = Some (Ok (c, out, x))"
proof -
  note H = assms [unfolded header_of_def]
  have h: "in_header (start_core features)" by (simp add: start_core_def)
  show "1 \<le> state_rank (fst c)" using header_run_rank [OF H] h by simp
  show "threads_end (fst c)" using header_run_ends [OF H h] .
  show "\<forall>s. fst c \<noteq> ScanBaseline s \<Longrightarrow> snd out = []" using header_run_silent [OF H h] by simp
  show "header_of n P final features (a @ b) = header_run n P final c out (x @ b)"
    unfolding header_of_def header_run_append [of n P final _ _ a] using H by simp
  show "header_run n P final c out x = Some (Ok (c, out, x))"
    using header_run_append [of n P final "start_core features" "(0, [])" a "[]"] H by simp
qed

lemma scanning_other_fields [simp]:
  "scanning c out x (r\<lparr>fr_total_read_size := t\<rparr>) W = scanning c out x r W"
  "scanning c out x (r\<lparr>fr_input_complete := v\<rparr>) W = scanning c out x r W"
  by (cases c; cases "fst c"; auto)+

lemma scanning_rank: "scanning c out x r W \<Longrightarrow> state_rank (fr_state r) = 1"
  by (cases c; cases "fst c") auto

lemma process_buffer_loop:
  assumes "process_buffer n P ready final b complete r = Some (Ok (ws, r'))" "\<not> fr_input_complete r"
  obtains r1 pb k where "process_loop n P ready final complete (r\<lparr>fr_total_read_size := fr_total_read_size r + length b\<rparr>)
      (PartialBuffer_new b (fr_extra_buffer r)) (fr_jpeg_file_size_left r, []) = Some (Ok (r1, pb, (k, ws)))"
    "\<not> complete \<longrightarrow> r' = r1\<lparr>fr_extra_buffer := extra_buffer pb, fr_jpeg_file_size_left := k\<rparr>"
    "complete \<longrightarrow> fr_state r1 = Eoi"
  using assms by (auto simp: process_buffer_def Let_def bindF_eq_Inr split: if_splits)

lemma reading_step:
  assumes R: "reading n P final features a r W" and p: "process_buffer n P ready final b False r = Some (Ok (ws, r'))"
  shows "reading n P final features (a @ b) r' (W @ concat ws)"
proof -
  let ?r = "r\<lparr>fr_total_read_size := fr_total_read_size r + length b\<rparr>" and ?pb = "PartialBuffer_new b (fr_extra_buffer r)"
  from R obtain c out x where h: "header_of n P final features a = Some (Ok (c, out, x))"
    and R1: "\<not> fr_input_complete r" "fr_total_read_size r = length a"
      "if in_header c then core_of r = c \<and> fr_extra_buffer r = x \<and> fr_jpeg_file_size_left r = fst out \<and> W = [] else scanning c out x r W"
    by (auto simp: reading_def)
  note H = header_of_facts [OF h]
  obtain r1 pb k where l: "process_loop n P ready final False ?r ?pb (fr_jpeg_file_size_left r, []) = Some (Ok (r1, pb, (k, ws)))"
    and r': "r' = r1\<lparr>fr_extra_buffer := extra_buffer pb, fr_jpeg_file_size_left := k\<rparr>"
    using process_buffer_loop [OF p R1(1)] by (metis (no_types))
  have core: "core_of ?r = core_of r" by (simp add: core_of_def)
  show ?thesis
  proof (cases "in_header c")
    case True
    then have c: "core_of r = c" "fr_extra_buffer r = x" "fr_jpeg_file_size_left r = fst out" "W = []" using R1(3) by simp_all
    have "snd out = []" by (rule H(3)) (use True in auto)
    then have out: "(fr_jpeg_file_size_left r, []) = out" by (simp add: c prod_eq_iff)
    have "1 \<le> state_rank (fr_state ?r)" using c(1) H(1) by (auto simp: core_of_def)
    from l [unfolded loop_run [OF _ this, of ?pb, simplified] core c(1) out] obtain c2 out2 x2 where
      h2: "header_of n P final features (a @ b) = Some (Ok (c2, out2, x2))"
      and l2: "(if in_header c2 then Some (Ok (with_core c2 ?r, stopped x2, out2))
        else process_turn n P ready final False (with_core c2 ?r) (PartialBuffer_new [] x2) out2) = Some (Ok (r1, pb, (k, ws)))"
      by (auto simp: bindF_eq_Inr c H(4))
    note H2 = header_of_facts [OF h2]
    have keep: "fr_total_read_size (with_core c2 ?r) = length (a @ b)" "\<not> fr_input_complete (with_core c2 ?r)"
      using R1 by (cases c2, simp)+
    show ?thesis
    proof (cases "in_header c2")
      case True
      have "snd out2 = []" by (rule H2(3)) (use True in auto)
      then show ?thesis using l2 True h2 keep r' c(4) using core_of_with [of c2 ?r] by (auto simp: reading_def stopped_def core_of_def simp del: core_of_with)
    next
      case False
      have t: "process_turn n P ready final False (with_core c2 ?r) (PartialBuffer_new [] x2) (fst out2, snd out2) = Some (Ok (r1, pb, (k, ws)))"
        using l2 False by simp
      have "state_rank (fst c2) \<noteq> 0" using H2(1) by simp
      from scanning_turn [OF scanning_start [OF False this H2(2)] _ _ t, where b = x2] have
        "scanning c2 out2 x2 r' (concat ws)" "fr_total_read_size r1 = length (a @ b)" "\<not> fr_input_complete r1"
        using keep by (simp_all add: r')
      then show ?thesis using h2 False c(4) by (auto simp: reading_def r')
    qed
  next
    case False
    then have sc: "scanning c out x r W" using R1(3) by simp
    have "state_rank (fr_state ?r) = 1" using scanning_rank [OF sc] by simp
    then have nh: "\<not> in_header (core_of ?r)" "1 \<le> state_rank (fr_state ?r)" by (simp_all add: core_of_def)
    have t: "process_turn n P ready final False ?r (PartialBuffer_new [] (fr_extra_buffer r @ b)) (fr_jpeg_file_size_left r, []) = Some (Ok (r1, pb, (k, ws)))"
      using l loop_run [OF _ nh(2), of ?pb n P ready final False "(fr_jpeg_file_size_left r, [])"] nh(1) by (simp add: header_run_stays)
    have "scanning c out x (?r\<lparr>fr_extra_buffer := fr_extra_buffer r, fr_jpeg_file_size_left := fr_jpeg_file_size_left r\<rparr>) (W @ concat [])"
      using sc by simp
    from scanning_turn [OF this _ _ t, where b = b] have
      "scanning c out (x @ b) r' (W @ concat ws)" "fr_total_read_size r1 = length (a @ b)" "\<not> fr_input_complete r1"
      using R1 by (simp_all add: r')
    moreover have "header_of n P final features (a @ b) = Some (Ok (c, out, x @ b))"
      unfolding H(4) by (rule header_run_stays [OF False])
    ultimately show ?thesis using False by (auto simp: reading_def r')
  qed
qed

section \<open>The end of a run\<close>

definition eof_ok :: "bytes \<Rightarrow> bytes \<Rightarrow> bool" where
  "eof_ok input rest \<longleftrightarrow> 4 \<le> length rest \<and> from_le_bytes (take 4 rest) = length input"

lemma verify_eof: "(\<exists>pb. verify_eof_file_size (length input) (stopped e) = Ok pb) \<longleftrightarrow> eof_ok input e"
  by (auto simp: verify_eof_file_size_def take_n_def stopped_def eof_ok_def Let_def)

definition rst_writes :: "LeptonHeader \<Rightarrow> bytes list" where
  "rst_writes lh =
    (if 0 < length (rst_err (lh_rinfo lh))
     then let jf = lh_jpeg_header lh; k = ucast (if rsti jf \<noteq> 0 then (mcuc jf - 1) div rsti jf else 0) :: u8
          in map (\<lambda>i. [0xFF, RST0 + ((k + of_nat i) AND 7)]) [0..<unat (rst_err (lh_rinfo lh) ! 0)]
     else [])"

lemma rst_errors_writes: "rst_errors lh out = fold limited_write (rst_writes lh) out"
  by (simp add: rst_errors_def rst_writes_def Let_def fold_map o_def)

definition tail_writes :: "LeptonHeader \<Rightarrow> bytes list" where
  "tail_writes lh = [drop (lh_read_index lh) (raw_jpeg_header (lh_rinfo lh)), garbage_data (lh_rinfo lh)]"

lemma write_tail_writes: "write_tail lh out = Ok out' \<longleftrightarrow>
    lh_read_index lh \<le> length (raw_jpeg_header (lh_rinfo lh)) \<and> out' = fold limited_write (tail_writes lh) out"
  by (auto simp: write_tail_def tail_writes_def Let_def)

text \<open>What a whole file decodes to: a baseline file to the start, the results of the threads in order, the restart
  markers and the tail, a progressive one to what is written from the merged images.\<close>

fun decoded_core :: "nat \<Rightarrow> Platform \<Rightarrow> bytes \<Rightarrow> core \<Rightarrow> nat \<times> bytes list \<Rightarrow> bytes \<Rightarrow> bytes \<Rightarrow> bool" where
  "decoded_core n P input (ScanBaseline s0, lh, f) out x result \<longleftrightarrow> (\<exists>s1 rest.
    demultiplex s0 x = Ok (s1, rest) \<and> eof_ok input rest \<and> list_all thread_done (mrs_receivers s0)
    \<and> lh_read_index lh \<le> length (raw_jpeg_header (lh_rinfo lh))
    \<and> result = concat (snd out) @ take (fst out) (concat (values_of (mrs_receivers s0) @ rst_writes lh @ tail_writes lh)))"
| "decoded_core n P input (ScanProgressive s0, lh, f) out x result \<longleftrightarrow> (\<exists>s1 rest lh' out'.
    demultiplex s0 x = Ok (s1, rest) \<and> eof_ok input rest \<and> list_all thread_done (mrs_receivers s0)
    \<and> process_progressive n P f lh (values_of (mrs_receivers s0)) out = Some (Ok (lh', out')) \<and> result = concat (snd out'))"
| "decoded_core n P input (_, lh, f) out x result \<longleftrightarrow> False"

definition decoded :: "nat \<Rightarrow> Platform \<Rightarrow> (nat \<Rightarrow> Message list) \<Rightarrow> EnabledFeatures \<Rightarrow> bytes \<Rightarrow> bytes \<Rightarrow> bool" where
  "decoded n P final features input result \<longleftrightarrow> (\<exists>c out x.
    header_of n P final features input = Some (Ok (c, out, x)) \<and> decoded_core n P input c out x result)"

lemma decoded_core_unique: "decoded_core n P input c out x r1 \<Longrightarrow> decoded_core n P input c out x r2 \<Longrightarrow> r1 = r2"
  by (cases c; cases "fst c") auto

lemma baseline_finish:
  assumes sc: "scanning (ScanBaseline s0, lh, f) out x r W" and st: "fr_state r = ScanBaseline s"
    and size: "fr_total_read_size r = length input"
  shows "baseline_turn ready True s r (PartialBuffer_new [] (fr_extra_buffer r)) (fr_jpeg_file_size_left r, []) = Ok (r', pb', (k, ws)) \<Longrightarrow>
      decoded_core n P input (ScanBaseline s0, lh, f) out x (W @ concat ws) \<and> fr_state r' = Eoi"
    "decoded_core n P input (ScanBaseline s0, lh, f) out x result \<Longrightarrow> \<exists>r' pb' k ws.
      baseline_turn ready True s r (PartialBuffer_new [] (fr_extra_buffer r)) (fr_jpeg_file_size_left r, []) = Ok (r', pb', (k, ws)) \<and> fr_state r' = Eoi"
proof -
  let ?e = "fr_extra_buffer r" and ?k = "fr_jpeg_file_size_left r"
  from sc st obtain s1 vs where S: "fr_lh r = lh" "fr_features r = f" "demultiplex s0 x = Ok (s1, ?e)" "same_streams s1 s"
    "list_all thread_ends (mrs_receivers s)" "list_all thread_done (mrs_receivers s) \<longleftrightarrow> list_all thread_done (mrs_receivers s0)"
    "values_of (mrs_receivers s0) = vs @ values_of (mrs_receivers s)"
    "?k = fst out - length (concat vs)" "W = concat (snd out) @ take (fst out) (concat vs)" by auto
  from demultiplex_more [OF S(3,4), of "[]"] S(3) obtain s2 where D: "demultiplex s ?e = Ok (s2, ?e)" "mrs_receivers s2 = mrs_receivers s"
    by (auto simp: same_demultiplexed_def)
  have turn: "baseline_turn ready True s r (PartialBuffer_new [] ?e) (?k, []) =
      bindR (retrieve_results ready False s2) (\<lambda>(vs2, s3). bindR (verify_eof_file_size (length input) (stopped ?e)) (\<lambda>pb.
      bindR (retrieve_results ready True s3) (\<lambda>(vs3, s4).
      bindR (write_tail lh (rst_errors lh (fold limited_write vs3 (fold limited_write vs2 (?k, []))))) (\<lambda>out. Ok (r\<lparr>fr_state := Eoi\<rparr>, pb, out)))))"
    by (simp add: baseline_turn_def process_demultiplex D S(1) size)
  {
    assume "baseline_turn ready True s r (PartialBuffer_new [] ?e) (?k, []) = Ok (r', pb', (k, ws))"
    then obtain vs2 s3 vs3 s4 where T: "retrieve_results ready False s2 = Ok (vs2, s3)" "verify_eof_file_size (length input) (stopped ?e) = Ok pb'"
      "retrieve_results ready True s3 = Ok (vs3, s4)"
      "write_tail lh (rst_errors lh (fold limited_write vs3 (fold limited_write vs2 (?k, [])))) = Ok (k, ws)" "r' = r\<lparr>fr_state := Eoi\<rparr>"
      unfolding turn by auto
    have eof: "eof_ok input ?e" using T(2) verify_eof by blast
    from retrieve_results_receipts [OF T(1)] D(2) S(5) have R1: "list_all thread_ends (mrs_receivers s3)"
      "list_all thread_done (mrs_receivers s3) \<longleftrightarrow> list_all thread_done (mrs_receivers s)" "values_of (mrs_receivers s) = vs2 @ values_of (mrs_receivers s3)"
      by simp_all
    from retrieve_results_receipts [OF T(3) R1(1)] have R2: "list_all thread_done (mrs_receivers s3)" "values_of (mrs_receivers s3) = vs3"
      by (auto simp: values_of_def)
    let ?all = "vs2 @ vs3 @ rst_writes lh @ tail_writes lh"
    have "lh_read_index lh \<le> length (raw_jpeg_header (lh_rinfo lh))" "(k, ws) = fold limited_write ?all (?k, [])"
      using T(4) by (simp_all add: write_tail_writes rst_errors_writes)
    then have w: "concat ws = take ?k (concat ?all)" using limited_write_concat [of ?all "(?k, [])"] by (metis append_Nil concat.simps(1) fst_conv snd_conv)
    have "W @ concat ws = concat (snd out) @ take (fst out) (concat (values_of (mrs_receivers s0) @ rst_writes lh @ tail_writes lh))"
      unfolding w S(8,9) using S(7) R1(3) R2(2) by simp
    then show "decoded_core n P input (ScanBaseline s0, lh, f) out x (W @ concat ws) \<and> fr_state r' = Eoi"
      using S(3,6) R1(2) R2(1) eof T(5) \<open>lh_read_index lh \<le> _\<close> by simp
  }
  {
    assume "decoded_core n P input (ScanBaseline s0, lh, f) out x result"
    then have G: "eof_ok input ?e" "list_all thread_done (mrs_receivers s)" "lh_read_index lh \<le> length (raw_jpeg_header (lh_rinfo lh))"
      using S(3,6) by simp_all
    from retrieve_results_done [of s2 ready False] G(2) D(2) obtain vs2 s3 where r1: "retrieve_results ready False s2 = Ok (vs2, s3)" by auto
    from retrieve_results_receipts [OF r1] D(2) S(5) G(2) have "list_all thread_done (mrs_receivers s3)" by simp
    from retrieve_results_done [OF this, of ready True] obtain vs3 s4 where r2: "retrieve_results ready True s3 = Ok (vs3, s4)" by blast
    from G(1) obtain pb where "verify_eof_file_size (length input) (stopped ?e) = Ok pb" using verify_eof by blast
    with r1 r2 G(3) show "\<exists>r' pb' k ws. baseline_turn ready True s r (PartialBuffer_new [] ?e) (?k, []) = Ok (r', pb', (k, ws)) \<and> fr_state r' = Eoi"
      unfolding turn by (simp add: write_tail_def Let_def)
  }
qed

text \<open>A progressive file is written at the end, behind nothing.\<close>

lemma progressive_finish:
  assumes sc: "scanning (ScanProgressive s0, lh, f) out x r W" and st: "fr_state r = ScanProgressive s"
    and size: "fr_total_read_size r = length input" and silent: "snd out = []" and ends: "list_all thread_ends (mrs_receivers s0)"
  shows "progressive_turn n P ready True s r (PartialBuffer_new [] (fr_extra_buffer r)) (fr_jpeg_file_size_left r, []) = Some (Ok (r', pb', (k, ws))) \<Longrightarrow>
      decoded_core n P input (ScanProgressive s0, lh, f) out x (W @ concat ws) \<and> fr_state r' = Eoi"
    "decoded_core n P input (ScanProgressive s0, lh, f) out x result \<Longrightarrow> \<exists>r' pb' k ws.
      progressive_turn n P ready True s r (PartialBuffer_new [] (fr_extra_buffer r)) (fr_jpeg_file_size_left r, []) = Some (Ok (r', pb', (k, ws)))
      \<and> fr_state r' = Eoi"
proof -
  let ?e = "fr_extra_buffer r" and ?k = "fr_jpeg_file_size_left r"
  from sc st have S: "fr_lh r = lh" "fr_features r = f" "demultiplex s0 x = Ok (s, ?e)" "?k = fst out" "W = []" using silent by auto
  have out: "(?k, []) = out" using S(4) silent by (simp add: prod_eq_iff)
  have rs: "mrs_receivers s = mrs_receivers s0" by (rule demultiplex_receivers [OF S(3)])
  have "demultiplex s0 (x @ []) = Ok (s, ?e)" using S(3) by simp
  then have D: "demultiplex s ?e = Ok (s, ?e)" unfolding demultiplex_append [of s0 x] S(3) by simp
  have turn: "progressive_turn n P ready True s r (PartialBuffer_new [] ?e) (?k, []) =
      bindF (Some (verify_eof_file_size (length input) (stopped ?e))) (\<lambda>pb. bindF (Some (retrieve_results ready True s)) (\<lambda>(vs, s').
      bindF (process_progressive n P f lh vs out) (\<lambda>(lh, out). Some (Ok (r\<lparr>fr_state := Eoi, fr_lh := lh\<rparr>, pb, out)))))"
    unfolding out by (simp add: progressive_turn_def process_demultiplex D S(1,2) size)
  {
    assume "progressive_turn n P ready True s r (PartialBuffer_new [] ?e) (?k, []) = Some (Ok (r', pb', (k, ws)))"
    then obtain vs s' lh' where T: "verify_eof_file_size (length input) (stopped ?e) = Ok pb'" "retrieve_results ready True s = Ok (vs, s')"
      "process_progressive n P f lh vs out = Some (Ok (lh', k, ws))" "r' = r\<lparr>fr_state := Eoi, fr_lh := lh'\<rparr>"
      unfolding turn by (auto simp: bindF_eq_Inr)
    have eof: "eof_ok input ?e" using T(1) verify_eof by blast
    from retrieve_results_receipts [OF T(2)] ends have "list_all thread_done (mrs_receivers s0)" "values_of (mrs_receivers s0) = vs"
      by (auto simp: values_of_def rs)
    then show "decoded_core n P input (ScanProgressive s0, lh, f) out x (W @ concat ws) \<and> fr_state r' = Eoi"
      using S eof T(3,4) by auto
  }
  {
    assume "decoded_core n P input (ScanProgressive s0, lh, f) out x result"
    then obtain lh' out' where G: "eof_ok input ?e" "list_all thread_done (mrs_receivers s0)"
      "process_progressive n P f lh (values_of (mrs_receivers s0)) out = Some (Ok (lh', out'))" using S(3) by auto
    from retrieve_results_done [of s ready True] G(2) rs obtain vs s' where r: "retrieve_results ready True s = Ok (vs, s')" by auto
    from retrieve_results_receipts [OF r] ends have "values_of (mrs_receivers s0) = vs" by (auto simp: values_of_def rs)
    moreover from G(1) obtain pb where "verify_eof_file_size (length input) (stopped ?e) = Ok pb" using verify_eof by blast
    ultimately show "\<exists>r' pb' k ws. progressive_turn n P ready True s r (PartialBuffer_new [] ?e) (?k, []) = Some (Ok (r', pb', (k, ws))) \<and> fr_state r' = Eoi"
      unfolding turn using r G(3) by (cases out') simp
  }
qed

lemma scan_finish:
  assumes sc: "scanning c out x r W" and size: "fr_total_read_size r = length input"
    and c: "\<forall>s. fst c \<noteq> ScanBaseline s \<Longrightarrow> snd out = []" "threads_end (fst c)"
  shows "process_turn n P ready final True r (PartialBuffer_new [] (fr_extra_buffer r)) (fr_jpeg_file_size_left r, []) = Some (Ok (r', pb', (k, ws))) \<Longrightarrow>
      decoded_core n P input c out x (W @ concat ws) \<and> fr_state r' = Eoi"
    "decoded_core n P input c out x result \<Longrightarrow> \<exists>r' pb' k ws.
      process_turn n P ready final True r (PartialBuffer_new [] (fr_extra_buffer r)) (fr_jpeg_file_size_left r, []) = Some (Ok (r', pb', (k, ws)))
      \<and> fr_state r' = Eoi"
proof -
  obtain st lh f where cs: "c = (st, lh, f)" by (cases c)
  consider (b) s0 s where "st = ScanBaseline s0" "fr_state r = ScanBaseline s" | (p) s0 s where "st = ScanProgressive s0" "fr_state r = ScanProgressive s"
    using sc cs by (cases st) auto
  note cases = this
  show "decoded_core n P input c out x (W @ concat ws) \<and> fr_state r' = Eoi"
    if "process_turn n P ready final True r (PartialBuffer_new [] (fr_extra_buffer r)) (fr_jpeg_file_size_left r, []) = Some (Ok (r', pb', (k, ws)))"
    using cases
  proof cases
    case b
    from baseline_finish(1) [OF sc [unfolded cs b(1)] b(2) size] that show ?thesis by (simp add: process_turn_def b cs)
  next
    case p
    from progressive_finish(1) [OF sc [unfolded cs p(1)] p(2) size] c that show ?thesis by (simp add: process_turn_def p cs)
  qed
  show "\<exists>r' pb' k ws. process_turn n P ready final True r (PartialBuffer_new [] (fr_extra_buffer r)) (fr_jpeg_file_size_left r, []) = Some (Ok (r', pb', (k, ws)))
      \<and> fr_state r' = Eoi" if "decoded_core n P input c out x result"
    using cases
  proof cases
    case b
    from baseline_finish(2) [OF sc [unfolded cs b(1)] b(2) size] that show ?thesis by (simp add: process_turn_def b cs)
  next
    case p
    from progressive_finish(2) [OF sc [unfolded cs p(1)] p(2) size] c that show ?thesis by (simp add: process_turn_def p cs)
  qed
qed

text \<open>The last call, without any input\<close>

lemma reading_end_loop:
  assumes R: "reading n P final features a r W" and h: "header_of n P final features a = Some (Ok (c, out, x))" and nh: "\<not> in_header c"
  shows "process_loop n P ready final True (r\<lparr>fr_total_read_size := fr_total_read_size r + length []\<rparr>) (PartialBuffer_new [] (fr_extra_buffer r))
      (fr_jpeg_file_size_left r, []) = process_turn n P ready final True r (PartialBuffer_new [] (fr_extra_buffer r)) (fr_jpeg_file_size_left r, [])"
    "scanning c out x r W" "fr_total_read_size r = length a" "\<not> fr_input_complete r"
proof -
  show sc: "scanning c out x r W" and "fr_total_read_size r = length a" "\<not> fr_input_complete r" using R h nh by (auto simp: reading_def)
  have "state_rank (fr_state r) = 1" using scanning_rank [OF sc] by simp
  then have "\<not> in_header (core_of r)" "1 \<le> state_rank (fr_state r)" by (simp_all add: core_of_def)
  then show "process_loop n P ready final True (r\<lparr>fr_total_read_size := fr_total_read_size r + length []\<rparr>) (PartialBuffer_new [] (fr_extra_buffer r))
      (fr_jpeg_file_size_left r, []) = process_turn n P ready final True r (PartialBuffer_new [] (fr_extra_buffer r)) (fr_jpeg_file_size_left r, [])"
    using loop_run [of "PartialBuffer_new [] (fr_extra_buffer r)" r n P ready final True "(fr_jpeg_file_size_left r, [])"]
    by (simp add: header_run_stays)
qed

lemma reading_end:
  assumes R: "reading n P final features a r W"
  shows "process_buffer n P ready final [] True r = Some (Ok (ws, r')) \<Longrightarrow> decoded n P final features a (W @ concat ws)"
    "decoded n P final features a result \<Longrightarrow> \<exists>ws r'. process_buffer n P ready final [] True r = Some (Ok (ws, r'))"
proof -
  from R obtain c out x where h: "header_of n P final features a = Some (Ok (c, out, x))" by (auto simp: reading_def)
  note H = header_of_facts [OF h]
  {
    assume p: "process_buffer n P ready final [] True r = Some (Ok (ws, r'))"
    have fresh: "\<not> fr_input_complete r" using R by (auto simp: reading_def)
    from process_buffer_loop [OF p fresh] obtain r1 pb k where
      l: "process_loop n P ready final True (r\<lparr>fr_total_read_size := fr_total_read_size r + length ([] :: bytes)\<rparr>)
        (PartialBuffer_new [] (fr_extra_buffer r)) (fr_jpeg_file_size_left r, []) = Some (Ok (r1, pb, (k, ws)))" and eoi: "fr_state r1 = Eoi"
      by (metis (no_types))
    show "decoded n P final features a (W @ concat ws)"
    proof (cases "in_header c")
      case True
      then have c: "core_of r = c" "fr_extra_buffer r = x" "fr_jpeg_file_size_left r = fst out" using R h by (auto simp: reading_def)
      have "snd out = []" by (rule H(3)) (use True in auto)
      then have out: "(fr_jpeg_file_size_left r, []) = out" by (simp add: c prod_eq_iff)
      have "1 \<le> state_rank (fr_state r)" using c(1) H(1) by (auto simp: core_of_def)
      from loop_run [of "PartialBuffer_new [] x" r n P ready final True out, OF _ this] l have "r1 = with_core c r"
        using H(5) True c(1) unfolding c(2) out by simp
      then show ?thesis using eoi H(1) True by (cases c) auto
    next
      case False
      note E = reading_end_loop [OF R h False]
      from scan_finish(1) [OF E(2,3) H(3,2) l [unfolded E(1)]] h show ?thesis by (auto simp: decoded_def)
    qed
  }
  {
    assume d: "decoded n P final features a result"
    then have dc: "decoded_core n P a c out x result" using h by (auto simp: decoded_def)
    then have nh: "\<not> in_header c" by (cases c; cases "fst c") auto
    note E = reading_end_loop [OF R h nh]
    from scan_finish(2) [OF E(2,3) H(3,2) dc] obtain r1 pb k ws where
      "process_turn n P ready final True r (PartialBuffer_new [] (fr_extra_buffer r)) (fr_jpeg_file_size_left r, []) = Some (Ok (r1, pb, (k, ws)))"
      "fr_state r1 = Eoi" by blast
    then show "\<exists>ws r'. process_buffer n P ready final [] True r = Some (Ok (ws, r'))"
      using E(1,4) by (simp add: process_buffer_def)
  }
qed

section \<open>Progress\<close>

text \<open>The parts of a file that can be decoded.\<close>

fun taken_apart :: "DecoderState \<Rightarrow> bytes \<Rightarrow> bool" where
  "taken_apart (ScanBaseline s0) x \<longleftrightarrow> (\<exists>t. demultiplex s0 x = Ok t) \<and> list_all thread_done (mrs_receivers s0)"
| "taken_apart (ScanProgressive s0) x \<longleftrightarrow> (\<exists>t. demultiplex s0 x = Ok t)"
| "taken_apart _ x \<longleftrightarrow> True"

definition readable :: "nat \<Rightarrow> Platform \<Rightarrow> (nat \<Rightarrow> Message list) \<Rightarrow> EnabledFeatures \<Rightarrow> bytes \<Rightarrow> bool" where
  "readable n P final features a \<longleftrightarrow> (\<exists>c out x. header_of n P final features a = Some (Ok (c, out, x)) \<and> taken_apart (fst c) x)"

lemma decoded_readable: "decoded n P final features a result \<Longrightarrow> readable n P final features a"
proof -
  assume "decoded n P final features a result"
  then obtain c out x where h: "header_of n P final features a = Some (Ok (c, out, x))" "decoded_core n P a c out x result"
    by (auto simp: decoded_def)
  have "taken_apart (fst c) x" using h(2) by (cases c; cases "fst c") auto
  with h(1) show ?thesis by (auto simp: readable_def)
qed

lemma taken_apart_prefix: "taken_apart st (x @ b) \<Longrightarrow> taken_apart st x"
proof (cases st)
  case (ScanBaseline s0)
  assume "taken_apart st (x @ b)"
  then show ?thesis unfolding ScanBaseline taken_apart.simps demultiplex_append [of s0 x] by auto
next
  case (ScanProgressive s0)
  assume "taken_apart st (x @ b)"
  then show ?thesis unfolding ScanProgressive taken_apart.simps demultiplex_append [of s0 x] by auto
qed simp_all

lemma readable_prefix: "readable n P final features (a @ b) \<Longrightarrow> readable n P final features a"
proof -
  assume "readable n P final features (a @ b)"
  then obtain c2 out2 x2 where h2: "header_of n P final features (a @ b) = Some (Ok (c2, out2, x2))" "taken_apart (fst c2) x2"
    by (auto simp: readable_def)
  from h2(1) obtain c out x where h: "header_of n P final features a = Some (Ok (c, out, x))"
    unfolding header_of_def header_run_append [of n P final _ _ a] by (auto simp: bindF_eq_Inr)
  note H = header_of_facts [OF h]
  have "taken_apart (fst c) x"
  proof (cases "in_header c")
    case True
    then show ?thesis by (cases "fst c") auto
  next
    case False
    then have "c2 = c" "x2 = x @ b" using h2(1) H(4) by (simp_all add: header_run_stays)
    then show ?thesis using h2(2) taken_apart_prefix by simp
  qed
  then show ?thesis using h by (auto simp: readable_def)
qed

lemma scanning_progress:
  assumes sc: "scanning c out x (r\<lparr>fr_extra_buffer := e, fr_jpeg_file_size_left := k0\<rparr>) W"
    and ok: "taken_apart (fst c) (x @ b)"
  shows "\<exists>r' pb' k ws. process_turn n P ready final False r (PartialBuffer_new [] (e @ b)) (k0, ws0) = Some (Ok (r', pb', (k, ws)))"
proof -
  obtain st lh f where c: "c = (st, lh, f)" by (cases c)
  show ?thesis
  proof (cases st)
    case (ScanProgressive s0)
    then obtain s where st: "fr_state r = ScanProgressive s" "demultiplex s0 x = Ok (s, e)" using sc c by auto
    have "\<exists>t. demultiplex s (e @ b) = Ok t"
      using ok unfolding c fst_conv ScanProgressive taken_apart.simps demultiplex_append [of s0 x] by (auto simp: st(2))
    then show ?thesis by (auto simp: process_turn_def st(1) progressive_turn_def process_demultiplex)
  next
    case (ScanBaseline s0)
    then obtain s s1 where st: "fr_state r = ScanBaseline s" "demultiplex s0 x = Ok (s1, e)" "same_streams s1 s"
      "list_all thread_done (mrs_receivers s) \<longleftrightarrow> list_all thread_done (mrs_receivers s0)" using sc c by auto
    have ok: "\<exists>t. demultiplex s0 (x @ b) = Ok t" "list_all thread_done (mrs_receivers s)" using ok st(4) by (simp_all add: c ScanBaseline)
    from ok(1) demultiplex_more [OF st(2,3), of b] obtain s2 e2 where D: "demultiplex s (e @ b) = Ok (s2, e2)" "mrs_receivers s2 = mrs_receivers s"
      by (auto simp: same_demultiplexed_def)
    from retrieve_results_done [of s2 ready False] ok(2) D(2) obtain vs s3 where "retrieve_results ready False s2 = Ok (vs, s3)" by auto
    then show ?thesis using D(1) by (cases "fold limited_write vs (k0, ws0)") (simp add: process_turn_def st(1) baseline_turn_def process_demultiplex)
  qed (use sc c in simp_all)
qed

lemma reading_progress:
  assumes R: "reading n P final features a r W" and ok: "readable n P final features (a @ b)"
  shows "\<exists>ws r'. process_buffer n P ready final b False r = Some (Ok (ws, r'))"
proof -
  let ?r = "r\<lparr>fr_total_read_size := fr_total_read_size r + length b\<rparr>" and ?pb = "PartialBuffer_new b (fr_extra_buffer r)"
  from R obtain c out x where h: "header_of n P final features a = Some (Ok (c, out, x))"
    and R1: "\<not> fr_input_complete r"
      "if in_header c then core_of r = c \<and> fr_extra_buffer r = x \<and> fr_jpeg_file_size_left r = fst out \<and> W = [] else scanning c out x r W"
    by (auto simp: reading_def)
  note H = header_of_facts [OF h]
  from ok obtain c2 out2 x2 where h2: "header_of n P final features (a @ b) = Some (Ok (c2, out2, x2))" "taken_apart (fst c2) x2"
    by (auto simp: readable_def)
  note H2 = header_of_facts [OF h2(1)]
  have core: "core_of ?r = core_of r" by (simp add: core_of_def)
  have "\<exists>r1 pb k ws. process_loop n P ready final False ?r ?pb (fr_jpeg_file_size_left r, []) = Some (Ok (r1, pb, (k, ws)))"
  proof (cases "in_header c")
    case True
    then have c: "core_of r = c" "fr_extra_buffer r = x" "fr_jpeg_file_size_left r = fst out" using R1(2) by simp_all
    have "snd out = []" by (rule H(3)) (use True in auto)
    then have out: "(fr_jpeg_file_size_left r, []) = out" by (simp add: c prod_eq_iff)
    have "1 \<le> state_rank (fr_state ?r)" using c(1) H(1) by (auto simp: core_of_def)
    note L = loop_run [OF _ this, of ?pb, simplified, unfolded core c(1,2)]
    have hr: "header_run n P final c out (x @ b) = Some (Ok (c2, out2, x2))" using h2(1) H(4) by simp
    show ?thesis
    proof (cases "in_header c2")
      case True
      then show ?thesis unfolding out by (cases out2) (simp add: L hr c(2))
    next
      case False
      have "state_rank (fst c2) \<noteq> 0" using H2(1) by simp
      from scanning_progress [where b = x2 and ?ws0.0 = "snd out2", OF scanning_start [OF False this H2(2), where out = out2 and r = ?r]] h2(2)
      have "\<exists>r' pb' k ws. process_turn n P ready final False (with_core c2 ?r) (PartialBuffer_new [] x2) out2 = Some (Ok (r', pb', (k, ws)))" by simp
      then show ?thesis unfolding out using False by (simp add: L hr c(2))
    qed
  next
    case False
    then have sc: "scanning c out x r W" using R1(2) by simp
    have "state_rank (fr_state ?r) = 1" using scanning_rank [OF sc] by simp
    then have nh: "\<not> in_header (core_of ?r)" "1 \<le> state_rank (fr_state ?r)" by (simp_all add: core_of_def)
    have c2: "c2 = c" "x2 = x @ b" using h2(1) H(4) False by (simp_all add: header_run_stays)
    have "scanning c out x (?r\<lparr>fr_extra_buffer := fr_extra_buffer r, fr_jpeg_file_size_left := fr_jpeg_file_size_left r\<rparr>) W"
      using sc by simp
    from scanning_progress [OF this h2(2) [unfolded c2]] show ?thesis
      using loop_run [OF _ nh(2), of ?pb n P ready final False "(fr_jpeg_file_size_left r, [])"] nh(1) by (simp add: header_run_stays)
  qed
  then show ?thesis using R1(1) by (auto simp: process_buffer_def Let_def)
qed

section \<open>All pieces\<close>

lemma pieces_decoded:
  "[] \<notin> set ps \<Longrightarrow> reading n P final features a r W \<Longrightarrow> decode_pieces n P ready final ps r = Some (Ok out) \<Longrightarrow>
    decoded n P final features (a @ concat ps) (W @ out)"
proof (induction ps arbitrary: a r W out)
  case Nil
  then show ?case using reading_end(1) [OF Nil.prems(2)] by (auto simp: bindF_eq_Inr)
next
  case (Cons b ps)
  from Cons.prems(1,3) obtain ws r' out' where p: "process_buffer n P ready final b False r = Some (Ok (ws, r'))"
    "decode_pieces n P ready final ps r' = Some (Ok out')" "out = concat ws @ out'" by (auto simp: bindF_eq_Inr)
  from Cons.IH [OF _ reading_step [OF Cons.prems(2) p(1)] p(2)] Cons.prems(1) p(3) show ?case by simp
qed

lemma pieces_succeed:
  "[] \<notin> set ps \<Longrightarrow> reading n P final features a r W \<Longrightarrow> decoded n P final features (a @ concat ps) result \<Longrightarrow>
    \<exists>out. decode_pieces n P ready final ps r = Some (Ok out)"
proof (induction ps arbitrary: a r W)
  case Nil
  then have "decoded n P final features a result" by simp
  from reading_end(2) [OF Nil.prems(2) this, of ready] show ?case by (auto simp: bindF_eq_Inr)
next
  case (Cons b ps)
  have "readable n P final features ((a @ b) @ concat ps)" using decoded_readable [OF Cons.prems(3)] by simp
  from reading_progress [OF Cons.prems(2) readable_prefix [OF this]] obtain ws r' where
    p: "process_buffer n P ready final b False r = Some (Ok (ws, r'))" by blast
  from Cons.IH [OF _ reading_step [OF Cons.prems(2) p]] Cons.prems(1,3) p show ?case by (auto simp: bindF_eq_Inr)
qed

lemma decode_pieces_iff:
  assumes "[] \<notin> set ps"
  shows "decode_pieces n P ready final ps (LeptonFileReader_new features) = Some (Ok out) \<longleftrightarrow> decoded n P final features (concat ps) out"
proof
  assume "decode_pieces n P ready final ps (LeptonFileReader_new features) = Some (Ok out)"
  from pieces_decoded [OF assms reading_new this] show "decoded n P final features (concat ps) out" by simp
next
  assume d: "decoded n P final features (concat ps) out"
  from pieces_succeed [OF assms reading_new] d obtain out' where
    p: "decode_pieces n P ready final ps (LeptonFileReader_new features) = Some (Ok out')" by fastforce
  from pieces_decoded [OF assms reading_new p] d have "out' = out"
    by (auto simp: decoded_def dest: decoded_core_unique)
  with p show "decode_pieces n P ready final ps (LeptonFileReader_new features) = Some (Ok out)" by simp
qed

end
