(* ===== verification/Container_Properties.thy ===== *)
theory Container_Properties
  imports Multiplex_Stream Header_Roundtrip Thread_Splits Reader_Runs Sample_Scan
begin

unbundle bit_operations_syntax

text \<open>
  The properties of the container: the header of a Lepton file, the segments of the threads, the stream of their
  blocks, and the state machine that takes it apart, each with a witness at a concrete input.
\<close>

section \<open>The header\<close>

text \<open>C10: A header that has been written is read again. The fixed part is 28 bytes and gives the version, the size of the
  JPEG file and the size of the compressed part, behind which only the marker follows; the compressed part gives the segments,
  what is kept of the JPEG file, the header of its first scan, and where a file that was cut off ends: the heights are
  bounded as it says, and the last segment is no longer than what the file has left for it. Of a segment the offset in the
  file and the DC of a fourth component are lost. Zlib restores what it has compressed; lengths fit 32 bits, and the segments
  cover all rows.\<close>

theorem lepton_header_roundtrip:
  fixes compress :: "bytes \<Rightarrow> bytes" and inflate :: "bytes \<Rightarrow> ByteStream" and written :: EnabledFeatures
  assumes "\<forall>x. inflate (compress x) = stream_of x"
    and "storable lh" "length (lh_git_revision_prefix lh) = 4"
    and "zs = length (compress (lepton_header_contents lh))" "zs \<le> unat (max_jpeg_file_size features)"
    and "lh_jpeg_file_size lh \<le> max_jpeg_file_size features"
    and "read_features = features\<lparr>use_16bit_dc_estimate := use_16bit_dc_estimate written, use_16bit_adv_predict := use_16bit_adv_predict written\<rparr>"
    and "parse read_features JpegHeader_default (Mirror_new (raw_jpeg_header (lh_rinfo lh))) = Ok ((res, jf), m)"
    and "TruncateComponents_init (mcuh jf) (mcuv jf) (cmp_info jf) (cmpc jf) TruncateComponents_default = Ok t0"
    and "(if early_eof_encountered (lh_rinfo lh) then set_truncation_bounds (cmp_info jf) (max_dpos (lh_rinfo lh)) t0 else Ok t0) = Ok t"
    and "get_block_height t 0 = Ok max_luma" "contiguous max_luma (lh_thread_handoff lh)"
    and "out = write_lepton_header compress written lh"
    and "opened = LeptonHeader_default\<lparr>lh_uncompressed_size := Some (of_nat (length (lepton_header_contents lh))),
      lh_encoder_version := lh_encoder_version lh, lh_git_revision_prefix := lh_git_revision_prefix lh,
      lh_jpeg_file_size := lh_jpeg_file_size lh\<rparr>"
    and "restored = opened\<lparr>lh_thread_handoff := map kept_handoff (lh_thread_handoff lh), lh_jpeg_header := jf, lh_read_index := amount_written m,
      lh_rinfo := (restored_info (lh_rinfo lh) ReconstructionInfo_default)
        \<lparr>raw_jpeg_header := raw_jpeg_header (lh_rinfo lh), truncate_components := t\<rparr>\<rparr>"
  shows "read_lepton_fixed_header (take FIXED_HEADER_SIZE out) features LeptonHeader_default = Ok (zs, read_features, opened)
    \<and> read_compressed_lepton_header inflate (take zs (drop FIXED_HEADER_SIZE out)) read_features zs opened =
        Ok (if early_eof_encountered (lh_rinfo lh) then last_fitted restored else restored)
    \<and> drop (FIXED_HEADER_SIZE + zs) out = LEPTON_HEADER_COMPLETION_MARKER"
proof -
  let ?c = "lepton_header_contents lh"
  have zs: "zs < 2 ^ 32" using assms(5) unat_lt2p [of "max_jpeg_file_size features"] by simp
  note fixed = fixed_header_read [OF assms(3) zs, of written "length ?c"]
  have out: "out = fixed_header lh written (length ?c) zs @ compress ?c @ LEPTON_HEADER_COMPLETION_MARKER"
    by (simp add: assms(4,13) write_lepton_header_def Let_def)
  have fresh: "fresh_header opened" and size: "lh_jpeg_file_size opened = lh_jpeg_file_size lh"
    by (simp_all add: assms(14) fresh_header_def LeptonHeader_default_def)
  have most: "max_jpeg_file_size read_features = max_jpeg_file_size features" by (simp add: assms(7))
  have "take FIXED_HEADER_SIZE out = fixed_header lh written (length ?c) zs" "take zs (drop FIXED_HEADER_SIZE out) = compress ?c"
    "drop (FIXED_HEADER_SIZE + zs) out = LEPTON_HEADER_COMPLETION_MARKER" using fixed(1) by (simp_all add: out assms(4))
  moreover note compressed_header_read [OF assms(2) fresh, of inflate compress read_features res jf m t0 t max_luma restored]
  ultimately show ?thesis
    using fixed(2) [of features LeptonHeader_default, folded assms(14) assms(7)] assms(1,5,6,8-12,15) size most
    by (simp add: assms(4))
qed

text \<open>A platform with the operations on lists, two threads and no compression.\<close>

definition sample_platform :: Platform where
  "sample_platform = \<lparr>pf_simd = lane_ops, pf_simd16 = lane_ops16, pf_alloc = (\<lambda>_. True), pf_grow = (\<lambda>a b. a), pf_max_parallelism = 2,
     pf_inflate = stream_of, pf_compress = (\<lambda>x. x)\<rparr>"

text \<open>A header with the JPEG header of the sample file and one segment.\<close>

definition sample_handoff :: ThreadHandoff where
  "sample_handoff = \<lparr>overhang_byte = 0, num_overhang_bits = 0, luma_y_start = 0, luma_y_end = 1, last_dc = [0, 0, 0, 0],
     segment_offset_in_file = 144, segment_size = 2\<rparr>"

definition sample_lepton_header :: LeptonHeader where
  "sample_lepton_header = LeptonHeader_default
     \<lparr>lh_thread_handoff := [sample_handoff], lh_jpeg_header := sample_header, lh_jpeg_file_size := 148,
      lh_rinfo := ReconstructionInfo_default\<lparr>raw_jpeg_header := sample_header_bytes, garbage_data := [0xFF, 0xD9]\<rparr>\<rparr>"

text \<open>The same file cut off in its last block, and a segment that is too long for what is left of it.\<close>

definition cut_handoff :: ThreadHandoff where
  "cut_handoff = sample_handoff\<lparr>segment_size := 5\<rparr>"

definition cut_lepton_header :: LeptonHeader where
  "cut_lepton_header = sample_lepton_header
     \<lparr>lh_thread_handoff := [cut_handoff], lh_encoder_version := 93, lh_git_revision_prefix := [1, 2, 3, 4],
      lh_rinfo := (lh_rinfo sample_lepton_header)
        \<lparr>early_eof_encountered := True, max_cmp := 0, max_bpos := 7, max_sah := 1, max_dpos := [0, 0, 0, 0]\<rparr>\<rparr>"

theorem lepton_header_roundtrip_witness:
  "\<exists>n lh1 lh2. read_lepton_fixed_header (take FIXED_HEADER_SIZE (write_lepton_header (\<lambda>x. x) sample_features cut_lepton_header))
      sample_features LeptonHeader_default = Ok (n, sample_features, lh1)
    \<and> read_compressed_lepton_header stream_of
        (take n (drop FIXED_HEADER_SIZE (write_lepton_header (\<lambda>x. x) sample_features cut_lepton_header))) sample_features n lh1 = Ok lh2
    \<and> lh_encoder_version lh2 = 93 \<and> lh_git_revision_prefix lh2 = [1, 2, 3, 4] \<and> lh_jpeg_file_size lh2 = 148
    \<and> lh_jpeg_header lh2 = sample_header \<and> raw_jpeg_header (lh_rinfo lh2) = sample_header_bytes
    \<and> early_eof_encountered (lh_rinfo lh2) \<and> max_bpos (lh_rinfo lh2) = 7 \<and> max_sah (lh_rinfo lh2) = 1
    \<and> max_dpos (lh_rinfo lh2) = [0, 0, 0, 0] \<and> lh_thread_handoff lh2 = [sample_handoff\<lparr>segment_offset_in_file := 0\<rparr>]"
proof -
  let ?lh = cut_lepton_header
  note defs = cut_lepton_header_def cut_handoff_def sample_lepton_header_def LeptonHeader_default_def ReconstructionInfo_default_def
  have st: "storable ?lh" "length (lh_git_revision_prefix ?lh) = 4"
    by (simp_all add: storable_def defs handoff_ok_def sample_handoff_def sample_header_bytes_def sample_segment_def)
  have raw: "raw_jpeg_header (lh_rinfo ?lh) = sample_header_bytes" by (simp add: defs)
  have hs: "lh_thread_handoff ?lh = [cut_handoff]" by (simp add: defs)
  have most: "unat (max_jpeg_file_size sample_features) = 128 * 1024 * 1024"
    by (simp add: sample_features_def compat_lepton_vector_write_def)
  have "length (lepton_header_contents ?lh) \<le> 1000"
    by (simp add: lepton_header_contents_def write_lepton_jpeg_header_def write_lepton_pad_bit_def write_lepton_luma_splits_def
        write_lepton_jpeg_restarts_if_needed_def write_lepton_jpeg_restart_errors_if_needed_def
        write_lepton_early_eof_truncation_data_if_needed_def write_lepton_jpeg_garbage_if_needed_def serialize_def
        serialize_handoff_def length_concat o_def sum_list_triv marker_defs defs sample_header_bytes_def sample_segment_def)
  then have len: "length (lepton_header_contents ?lh) \<le> unat (max_jpeg_file_size sample_features)" by (simp add: most)
  have fs: "lh_jpeg_file_size ?lh \<le> max_jpeg_file_size sample_features"
    by (simp add: word_le_nat_alt most) (simp add: defs)
  have parsed: "parse sample_features JpegHeader_default (Mirror_new (raw_jpeg_header (lh_rinfo ?lh)))
      = Ok ((True, sample_header), \<lparr>mirrored = [], mirror_output = sample_header_bytes, amount_written = length sample_header_bytes\<rparr>)"
    using parse_sample [of "[]"] by (simp add: raw)
  define t where "t = \<lparr>trunc_info = [\<lparr>trunc_bcv = 1, trunc_bc = 1\<rparr>], components_count = 1, mcu_count_horizontal = 1, mcu_count_vertical = 1\<rparr>"
  have init: "TruncateComponents_init (mcuh sample_header) (mcuv sample_header) (cmp_info sample_header) (cmpc sample_header)
      TruncateComponents_default = Ok t"
    by (simp add: TruncateComponents_init_def sample_header_fields TruncateComponents_default_def t_def)
       (simp add: sample_header_def JpegHeader_default_def sample_component_def numeral_eq_Suc)
  have cut: "(if early_eof_encountered (lh_rinfo ?lh) then set_truncation_bounds (cmp_info sample_header) (max_dpos (lh_rinfo ?lh)) t else Ok t) = Ok t"
    by (simp add: defs sample_header_def JpegHeader_default_def sample_component_def set_truncation_bounds_def set_block_count_d_pos_def
         get_min_vertical_extcmp_multiple_def round_up_lines.simps t_def numeral_eq_Suc)
  have seg: "contiguous 1 (lh_thread_handoff ?lh)"
    by (simp add: hs contiguous_def cut_handoff_def sample_handoff_def)
  have rows: "get_block_height t 0 = Ok 1" by (simp add: get_block_height_def t_def idx_def)
  have eof: "early_eof_encountered (lh_rinfo ?lh) = True" by (simp add: defs)
  define n where "n = length (lepton_header_contents ?lh)"
  define lh1 where "lh1 = LeptonHeader_default\<lparr>lh_uncompressed_size := Some (of_nat (length (lepton_header_contents ?lh))),
      lh_encoder_version := lh_encoder_version ?lh, lh_git_revision_prefix := lh_git_revision_prefix ?lh,
      lh_jpeg_file_size := lh_jpeg_file_size ?lh\<rparr>"
  define r where "r = lh1\<lparr>lh_thread_handoff := map kept_handoff (lh_thread_handoff ?lh), lh_jpeg_header := sample_header,
      lh_read_index := amount_written \<lparr>mirrored = [], mirror_output = sample_header_bytes, amount_written = length sample_header_bytes\<rparr>,
      lh_rinfo := (restored_info (lh_rinfo ?lh) ReconstructionInfo_default)
        \<lparr>raw_jpeg_header := raw_jpeg_header (lh_rinfo ?lh), truncate_components := t\<rparr>\<rparr>"
  note R = lepton_header_roundtrip [where inflate = stream_of and compress = "\<lambda>x. x" and written = sample_features,
      OF _ st n_def len [folded n_def] fs _ parsed init cut rows seg refl lh1_def r_def, simplified eof if_True]
  have same: "lh_encoder_version r = 93" "lh_git_revision_prefix r = [1, 2, 3, 4]" "lh_jpeg_file_size r = 148"
    "lh_jpeg_header r = sample_header" "lh_thread_handoff r = [kept_handoff cut_handoff]" "lh_read_index r = length sample_header_bytes"
    by (simp_all add: r_def lh1_def defs)
  have info: "raw_jpeg_header (lh_rinfo r) = sample_header_bytes" "early_eof_encountered (lh_rinfo r)" "max_bpos (lh_rinfo r) = 7"
    "max_sah (lh_rinfo r) = 1" "max_dpos (lh_rinfo r) = [0, 0, 0, 0]" "garbage_data (lh_rinfo r) = [0xFF, 0xD9]"
    by (simp_all add: r_def defs restored_info_def Let_def)
  have "lh_thread_handoff (last_fitted r) = [sample_handoff\<lparr>segment_offset_in_file := 0\<rparr>]"
    by (simp add: last_fitted_def room_of_last_def same info kept_handoff_def cut_handoff_def)
       (simp add: sample_handoff_def sample_header_bytes_def sample_segment_def)
  with R same info show ?thesis by (intro exI [of _ n] exI [of _ lh1] exI [of _ "last_fitted r"]) (simp add: last_fitted_def Let_def)
qed

section \<open>Segments\<close>

text \<open>C16: The segments that have been stored come back, up to 255 of them: the rows they start at, the state of the writer
  there and their sizes; a segment ends where the next one starts.\<close>

theorem handoffs_roundtrip:
  assumes "length hs < 256" "list_all handoff_ok hs" "serialize hs = n # bs"
  shows "deserialize n (pushed bs s) = Ok (stored_handoffs hs, s)"
  using deserialize_serialized [OF assms(1,2), of s] assms(3) by (auto simp: serialize_def)

theorem handoffs_roundtrip_witness:
  "\<exists>n bs. serialize [sample_handoff, sample_handoff\<lparr>luma_y_start := 1, luma_y_end := 2\<rparr>] = n # bs
    \<and> deserialize n (stream_of bs) =
        Ok (stored_handoffs [sample_handoff, sample_handoff\<lparr>luma_y_start := 1, luma_y_end := 2\<rparr>], stream_of [])"
proof -
  let ?hs = "[sample_handoff, sample_handoff\<lparr>luma_y_start := 1, luma_y_end := 2\<rparr>]"
  obtain n bs where s: "serialize ?hs = n # bs" by (simp add: serialize_def)
  have "list_all handoff_ok ?hs" by (simp add: handoff_ok_def sample_handoff_def)
  from handoffs_roundtrip [OF _ this s, of "stream_of []"] s show ?thesis
    by (intro exI [of _ n] exI [of _ bs]) (simp add: stream_of_pushed [of bs, symmetric])
qed

text \<open>C12: The rows of a file are joined to the segments of up to 16 threads: from segments that follow on each other,
  in rows and in the file, come segments that follow on each other and cover the same rows and the same part of the file.
  The rows are split at rounded multiples of a number of type \<open>f32\<close>; none is lost or used twice.\<close>

theorem segments_split:
  assumes "chained hs" "length hs < 2 ^ 16" "0 < m"
  shows "\<exists>hs'. split_row_handoffs_to_threads hs m = Ok hs' \<and> chained hs' \<and> same_extent hs hs' \<and> length hs' \<le> min 16 m"
  using splits_chained [OF assms] by auto

theorem segments_split_witness:
  "\<exists>hs'. split_row_handoffs_to_threads
      [sample_handoff, sample_handoff\<lparr>luma_y_start := 1, luma_y_end := 2, segment_offset_in_file := 146\<rparr>] 8 = Ok hs'
    \<and> chained hs' \<and> length hs' \<le> 8 \<and> luma_y_start (hs' ! 0) = 0 \<and> luma_y_end (last hs') = 2"
proof -
  let ?hs = "[sample_handoff, sample_handoff\<lparr>luma_y_start := 1, luma_y_end := 2, segment_offset_in_file := 146\<rparr>]"
  have "chained ?hs" by (simp add: chained_def sample_handoff_def)
  from segments_split [OF this, of 8] show ?thesis by (force simp: same_extent_def sample_handoff_def)
qed

text \<open>C15: Whatever bytes it is made of, a Lepton header that is accepted has the shape the decoder relies on: the
  invariant of the JPEG header in it; at least one segment, none of them beyond the height that is coded, and the last
  one up to it; the position in the kept header inside of it; and a file size within the limit.\<close>

theorem accepted_header_shape:
  assumes "read_compressed_lepton_header inflate reader features n lh = Ok lh'"
    and "header_inv (accept_invalid_dht features) (lh_jpeg_header lh)"
  shows "header_inv (accept_invalid_dht features) (lh_jpeg_header lh') \<and> lh_read_index lh' \<le> length (raw_jpeg_header (lh_rinfo lh'))
    \<and> lh_thread_handoff lh' \<noteq> [] \<and> lh_jpeg_file_size lh' \<le> max_jpeg_file_size features
    \<and> (\<exists>max_luma. get_block_height (truncate_components (lh_rinfo lh')) 0 = Ok max_luma
        \<and> luma_y_end (last (lh_thread_handoff lh')) = max_luma
        \<and> (\<forall>th \<in> set (lh_thread_handoff lh'). luma_y_start th \<le> max_luma \<and> luma_y_end th \<le> max_luma))"
  by (rule read_compressed_shape [OF assms])

text \<open>A header with one segment that starts behind the height: it is cut.\<close>

definition long_lepton_header :: LeptonHeader where
  "long_lepton_header = sample_lepton_header\<lparr>lh_thread_handoff := [sample_handoff\<lparr>luma_y_start := 9\<rparr>]\<rparr>"

theorem accepted_header_shape_witness:
  "\<exists>lh. read_compressed_lepton_header (\<lambda>_. stream_of (lepton_header_contents long_lepton_header)) [] sample_features 0
      LeptonHeader_default = Ok lh
    \<and> luma_y_start (lh_thread_handoff lh ! 0) = 1 \<and> header_inv False (lh_jpeg_header lh)"
proof -
  let ?inflate = "\<lambda>_. stream_of (lepton_header_contents long_lepton_header)"
  note defs = long_lepton_header_def sample_lepton_header_def LeptonHeader_default_def ReconstructionInfo_default_def
  have st: "storable long_lepton_header"
    by (simp_all add: storable_def defs handoff_ok_def sample_handoff_def sample_header_bytes_def sample_segment_def)
  have fresh: "fresh_header LeptonHeader_default" by (simp add: fresh_header_def LeptonHeader_default_def)
  have raw: "raw_jpeg_header (lh_rinfo long_lepton_header) = sample_header_bytes" by (simp add: defs)
  have parsed: "parse sample_features JpegHeader_default (Mirror_new sample_header_bytes)
      = Ok ((True, sample_header), \<lparr>mirrored = [], mirror_output = sample_header_bytes, amount_written = length sample_header_bytes\<rparr>)"
    using parse_sample [of "[]"] by simp
  obtain t where t: "TruncateComponents_init (mcuh sample_header) (mcuv sample_header) (cmp_info sample_header) (cmpc sample_header)
      TruncateComponents_default = Ok t" "get_block_height t 0 = Ok 1"
    by (simp add: TruncateComponents_init_def sample_header_fields get_block_height_def TruncateComponents_default_def)
       (simp add: sample_header_def JpegHeader_default_def sample_component_def)
  have hs: "stored_handoffs (lh_thread_handoff long_lepton_header) = [stored_handoff (sample_handoff\<lparr>luma_y_start := 9\<rparr>)]"
    by (simp add: stored_handoffs_def stored_handoff_def fill_luma_ends_def long_lepton_header_def)
  have ri: "early_eof_encountered (restored_info (lh_rinfo long_lepton_header) (lh_rinfo LeptonHeader_default)) = False"
    "truncate_components (restored_info (lh_rinfo long_lepton_header) (lh_rinfo LeptonHeader_default)) = TruncateComponents_default"
    by (simp_all add: restored_info_def defs Let_def)
  have j: "lh_jpeg_header LeptonHeader_default = JpegHeader_default" "lh_jpeg_file_size LeptonHeader_default = 0"
    by (simp_all add: LeptonHeader_default_def)
  obtain lh where lh: "read_compressed_lepton_header ?inflate [] sample_features 0 LeptonHeader_default = Ok lh"
      "luma_y_start (lh_thread_handoff lh ! 0) = 1"
    by (simp add: read_compressed_lepton_header_def contents_read [OF st fresh] raw parsed t hs ri j clamp_handoffs_def
        stored_handoff_def sample_handoff_def)
  from accepted_header_shape [OF lh(1)] header_inv_default lh show ?thesis
    by (auto simp: j sample_features_def compat_lepton_vector_write_def)
qed

section \<open>The stream of the blocks\<close>

text \<open>C11: What up to 16 threads write is one stream, and the state machine takes it apart again: the channel of each
  thread gives, once it is closed, the bytes the thread has written, however they were cut to writes and to blocks,
  and what follows the stream is left over.\<close>

theorem multiplexed_roundtrip:
  assumes "writes_parts processor n res parts" "0 < n" "n \<le> 16" "work_is_done workers pool"
  shows "\<exists>out. multiplex_write n workers pool processor = Ok (map res [0..<n], out) \<and> (\<forall>ws par (outputs :: nat \<Rightarrow> 'v MultiplexReadResult list) rest. \<exists>s.
    process_input (multiplex_read n ws par (length rest) outputs) (PartialBuffer_new (out @ rest) []) = Ok (s, stopped rest)
    \<and> (\<forall>i < n. channel_stream (mrs_sent (close_senders s) ! i) = stream_of (concat (parts i))))"
proof -
  from multiplexed [OF assms] obtain out where
    w: "multiplex_write n workers pool processor = Ok (map res [0..<n], out)" and
    r: "\<And>ws par (outputs :: nat \<Rightarrow> 'v MultiplexReadResult list) rest. demultiplex (multiplex_read n ws par (length rest) outputs) (out @ rest) =
      Ok ((multiplex_read n ws par (length rest) outputs)\<lparr>mrs_sent := map (\<lambda>i. map (WriteBlock i) (blocks_of_bytes (concat (parts i)))) [0..<n]\<rparr>, rest)"
    by metis
  have c: "channel_stream (mrs_sent (close_senders (s\<lparr>mrs_sent := map (\<lambda>i. map (WriteBlock i) (blocks_of_bytes (concat (parts i)))) [0..<n]\<rparr>)) ! i)
      = stream_of (concat (parts i))" if "i < n" "\<not> mrs_closed s" for s :: "'v MultiplexReaderState" and i
    using that by (simp add: close_senders_def channel_stream_blocks)
  have o: "\<not> mrs_closed (multiplex_read n ws par k outputs)" for ws par k and outputs :: "nat \<Rightarrow> 'v MultiplexReadResult list"
    by (simp add: multiplex_read_def)
  show ?thesis
  proof (intro exI [of _ out] conjI w allI)
    fix ws par and rest :: bytes and outputs :: "nat \<Rightarrow> 'v MultiplexReadResult list"
    let ?s = "multiplex_read n ws par (length rest) outputs"
    let ?s' = "?s\<lparr>mrs_sent := map (\<lambda>i. map (WriteBlock i) (blocks_of_bytes (concat (parts i)))) [0..<n]\<rparr>"
    have "process_input ?s (PartialBuffer_new (out @ rest) []) = Ok (?s', stopped rest)" by (simp add: process_demultiplex r)
    then show "\<exists>s. process_input ?s (PartialBuffer_new (out @ rest) []) = Ok (s, stopped rest)
      \<and> (\<forall>i < n. channel_stream (mrs_sent (close_senders s) ! i) = stream_of (concat (parts i)))"
      using c [OF _ o] by blast
  qed
qed

theorem multiplexed_roundtrip_witness:
  "\<exists>out s. multiplex_write 2 8 4 (\<lambda>w i. (Ok i, mw_write [of_nat i, 7] w)) = Ok ([0, 1], out)
    \<and> process_input (multiplex_read 2 8 4 4 (\<lambda>i. [Result i, Complete])) (PartialBuffer_new (out @ [1, 2, 3, 4]) []) = Ok (s, stopped [1, 2, 3, 4])
    \<and> channel_stream (mrs_sent (close_senders s) ! 1) = stream_of [1, 7]"
proof -
  have p: "writes_parts (\<lambda>w i. (Ok i, mw_write [of_nat i, 7] w)) 2 (\<lambda>i. i) (\<lambda>i. [[of_nat i, 7]])" by (simp add: writes_parts_def)
  have "work_is_done 8 4" by (simp add: work_is_done_def)
  from multiplexed_roundtrip [OF p _ _ this, where 'v = nat] obtain out where
    w: "multiplex_write 2 8 4 (\<lambda>w i. (Ok i, mw_write [of_nat i, 7] w)) = Ok (map (\<lambda>i. i) [0..<2], out)" and
    r: "\<And>ws par (outputs :: nat \<Rightarrow> nat MultiplexReadResult list) rest. \<exists>s. process_input (multiplex_read 2 ws par (length rest) outputs)
        (PartialBuffer_new (out @ rest) []) = Ok (s, stopped rest)
      \<and> (\<forall>i < 2. channel_stream (mrs_sent (close_senders s) ! i) = stream_of (concat [[of_nat i, 7]]))"
    by auto
  have l: "length [1, 2, 3, 4 :: u8] = 4" by simp
  from r [where rest = "[1, 2, 3, 4]" and ws = 8 and par = 4 and outputs = "\<lambda>i. [Result i, Complete]"] obtain s where
    "process_input (multiplex_read 2 8 4 4 (\<lambda>i. [Result i, Complete])) (PartialBuffer_new (out @ [1, 2, 3, 4]) []) = Ok (s, stopped [1, 2, 3, 4])"
    "\<forall>i < 2. channel_stream (mrs_sent (close_senders s) ! i) = stream_of (concat [[of_nat i, 7]])" unfolding l by blast
  with w show ?thesis by (intro exI [of _ out] exI [of _ s]) (simp add: upt_rec)
qed

text \<open>C14: A read from the channel of a thread returns the next bytes of its stream, at most as many as there is room for, and
  none only at the end mark; it fails only when the channel has been closed without one.\<close>

theorem thread_reads_stream:
  assumes "0 < n" "mr_read n r = res"
  shows "case res of
      Inr (bs, r') \<Rightarrow> reader_stream r = pushed bs (reader_stream r') \<and> length bs \<le> n
        \<and> (bs = [] \<longrightarrow> reader_stream r = stream_of [])
    | Inl e \<Rightarrow> reader_stream r = \<lparr>stream_bytes = [], stream_error = Some e\<rparr>"
  using mr_read_stream [OF assms(1), of r] assms(2)
  by (cases "reader_stream r") (auto simp: reads_from_def stream_of_def split: sum.splits)

theorem thread_reads_stream_witness:
  "mr_read 2 (MultiplexReader_new [WriteBlock 0 [1, 2, 3], Eof 0]) = Inr ([1, 2], \<lparr>mr_channel = [Eof 0], mr_current = [3], mr_eof = False\<rparr>)
    \<and> channel_stream [WriteBlock 0 [1, 2, 3], Eof 0] = pushed [1, 2] (pushed [3] (stream_of []))"
proof -
  have r: "mr_read 2 (MultiplexReader_new [WriteBlock 0 [1, 2, 3], Eof 0]) = Inr ([1, 2], \<lparr>mr_channel = [Eof 0], mr_current = [3], mr_eof = False\<rparr>)"
    by (simp add: mr_read_def MultiplexReader_new_def read_buffered_def)
  from thread_reads_stream [OF _ this] show ?thesis using r by (simp add: reader_stream_new) (simp add: reader_stream_def)
qed

section \<open>The state machine\<close>

text \<open>C13: With an output buffer of a fixed size nothing is lost and the order is kept: what was queued and what is decoded
  now go to the buffer first and then to the queue, which is empty unless the buffer is full, and the caller is told that
  all is done only when the input is complete and the queue is empty.\<close>

theorem limited_buffer_keeps_order:
  assumes "process_limited_buffer n P ready final input is_end room extra r = Some (Ok (finished, out, extra', r'))"
  shows "\<exists>written. process_buffer n P ready final input is_end r = Some (Ok (written, r'))
    \<and> out @ extra' = extra @ concat written \<and> length out \<le> room \<and> (extra' \<noteq> [] \<longrightarrow> length out = room)
    \<and> (finished \<longleftrightarrow> is_end \<and> extra' = [])"
proof -
  from assms obtain written where w: "process_buffer n P ready final input is_end r = Some (Ok (written, r'))"
    "out = fst (fold (fixed_buffer_write room) written (take room extra, drop room extra))"
    "extra' = snd (fold (fixed_buffer_write room) written (take room extra, drop room extra))" "finished \<longleftrightarrow> is_end \<and> extra' = []"
    by (auto simp: process_limited_buffer_def Let_def bindF_eq_Inr case_prod_unfold)
  from fixed_buffer_writes [of room extra "(take room extra, drop room extra)" written] w(2,3)
  have "filled room (extra @ concat written) (out, extra')" by (simp add: filled_def)
  with w show ?thesis by (auto simp: filled_def)
qed

theorem limited_buffer_keeps_order_witness:
  "\<exists>r'. process_limited_buffer 1 sample_platform (\<lambda>_. True) (\<lambda>_. []) [1, 2, 3] False 2 [9, 8, 7] (LeptonFileReader_new sample_features) =
    Some (Ok (False, [9, 8], [7], r'))"
proof -
  define n P ready final features where "n = (1 :: nat)" and "P = sample_platform" and "ready = (\<lambda>_ :: nat. True)"
    and "final = (\<lambda>_ :: nat. [] :: Message list)" and "features = sample_features"
  note fold = n_def [symmetric] P_def [symmetric] ready_def [symmetric] final_def [symmetric] features_def [symmetric]
  have "header_of n P final features [1, 2, 3] = Some (Ok (start_core features, (0, []), [1, 2, 3]))"
    unfolding header_of_def by (subst header_run.simps) (simp add: start_core_def FIXED_HEADER_SIZE_def)
  then have h: "readable n P final features ([] @ [1, 2, 3])" by (auto simp: readable_def start_core_def)
  from reading_progress [OF reading_new h] obtain ws r' where
    p: "process_buffer n P ready final [1, 2, 3] False (LeptonFileReader_new features) = Some (Ok (ws, r'))" by blast
  define w where "w = fold (fixed_buffer_write 2) ws ([9, 8], [7])"
  have run: "process_limited_buffer n P ready final [1, 2, 3] False 2 [9, 8, 7] (LeptonFileReader_new features) = Some (Ok (False, fst w, snd w, r'))"
    by (simp add: process_limited_buffer_def p w_def case_prod_unfold Let_def)
  from reading_step [OF reading_new p] \<open>header_of n P final features [1, 2, 3] = _\<close> have "concat ws = []"
    by (auto simp: Reader_Runs.reading_def start_core_def simp del: concat_eq_Nil_conv)
  with limited_buffer_keeps_order [OF run] p have o: "fst w @ snd w = [9, 8, 7]" "length (fst w) \<le> 2" "snd w \<noteq> [] \<longrightarrow> length (fst w) = 2" by auto
  have "snd w \<noteq> []" using o(1,2) by (cases "snd w") auto
  with o have "fst w = [9, 8]" "snd w = [7]" by (auto simp: append_eq_conv_conj)
  then show ?thesis unfolding fold using run by auto
qed

end
