(* ===== verification/Segment_Writer.thy ===== *)
theory Segment_Writer
  imports Scan_Lossless File_Reader
begin

unbundle bit_operations_syntax

text \<open>
  What a decoding thread writes: it starts in the middle of a scan, with the bits of an unfinished byte, takes the rows of MCUs
  of its segment and sends its buffer whenever it is large. The bytes it has sent at the end are those of the scan between the
  partitions of its first row and of the row behind its last one (\<open>segment_bytes\<close>).
\<close>

section \<open>Detaching the buffer\<close>

lemma detach_wrote:
  assumes "wrote w pre bs"
  obtains zs fr where "fst (detach_buffer w) = pre @ stuff zs" "bs = bytes_bits zs @ fr" "length fr < 8"
    "wrote (snd (detach_buffer w)) [] fr"
proof -
  let ?w = "flush_whole_bytes w"
  have f: "wrote ?w pre bs" "56 < unat (current_bit ?w)" using flush_wrote [OF assms] by blast+
  from f(1) obtain ys :: bytes and k a :: nat where y: "data_buffer ?w = pre @ stuff ys" "unat (current_bit ?w) = k" "k \<le> 64"
    "unat (fill_register ?w) = a * 2 ^ k" "bs = bytes_bits ys @ bits_of (64 - k) a" by (rule wroteE)
  show ?thesis
  proof (rule that [of ys "bits_of (64 - k) a"])
    show "wrote (snd (detach_buffer w)) [] (bits_of (64 - k) a)"
      using y by (intro wroteI [of _ _ "[]" k a]) (simp_all add: detach_buffer_def Let_def)
  qed (use y f in \<open>simp_all add: detach_buffer_def Let_def\<close>)
qed

text \<open>Whole bytes in front of the bits that are pending.\<close>

lemma passes_bytes_front:
  "passes jf fillbit ims p dc bs q dc' bs' ws \<Longrightarrow>
    ws = [] \<and> passes jf fillbit ims p dc (bytes_bits zs @ bs) q dc' (bytes_bits zs @ bs') []
    \<or> passes jf fillbit ims p dc (bytes_bits zs @ bs) q dc' bs' (stuff zs @ ws)"
proof (induction rule: passes.induct)
  case (passes_refl p dc bs)
  then show ?case using passes.passes_refl by blast
next
  case (passes_block p dc bs q dc' bs' ws)
  note step = passes.passes_block [OF passes_block.hyps(1,2), of fillbit "bytes_bits zs @ bs" q dc', unfolded append_assoc]
  from passes_block.IH step [of "bytes_bits zs @ bs'" "[]"] step [of bs' "stuff zs @ ws"] show ?case by blast
next
  case (passes_interval p dc bs1 bs ys q dc' bs' ws)
  have b: "bytes_bits zs @ bs1 = (bytes_bits zs @ bs) @ place_bits jf ims dc p" using passes_interval.hyps(3) by simp
  have "bytes_bits (zs @ ys) = (bytes_bits zs @ bs1) @ pad_bits fillbit (length (bytes_bits zs @ bs1))"
    using passes_interval.hyps(4) by simp
  from passes.passes_interval [OF passes_interval.hyps(1,2) b this passes_interval.hyps(5)] show ?case by simp
qed

section \<open>The writer of a segment\<close>

text \<open>The writer at the start of row \<open>r\<close> of a segment that started at \<open>p0\<close> and whose rest of the scan is \<open>out\<close>; the bytes
  \<open>full\<close> have been detached.\<close>

definition writer_at ::
  "JpegHeader \<Rightarrow> ReconstructionInfo \<Rightarrow> BlockBasedImage list \<Rightarrow> place \<Rightarrow> i16 list \<Rightarrow> bool list \<Rightarrow> bytes \<Rightarrow> nat \<Rightarrow> bytes
    \<Rightarrow> JpegIncrementalWriter \<Rightarrow> bool"
where
  "writer_at jf rinfo ims p0 dc0 bs0 out r full iw \<longleftrightarrow> inc_header iw = jf \<and> inc_rinfo iw = rinfo \<and>
    (if r < unat (mcuv jf)
     then \<exists>bs' ws zs bs pre. passes jf (fill_byte rinfo) ims p0 dc0 bs0 (r * unat (mcuh jf), 0, 0) (inc_last_dc iw) bs' ws \<and>
       length (inc_last_dc iw) = 4 \<and> bs' = bytes_bits zs @ bs \<and> wrote (huffw iw) pre bs \<and> full @ pre = ws @ stuff zs
     else full @ data_buffer (huffw iw) = out \<and> current_bit (huffw iw) = 64 \<and> (\<exists>pre bs. wrote (huffw iw) pre bs))"

lemma flush_aligned: "current_bit w = 64 \<Longrightarrow> flush_whole_bytes w = w"
  by (simp add: flush_whole_bytes.simps [of w])

lemma detach_simps:
  "inc_header (snd (inc_detach_buffer iw)) = inc_header iw" "inc_rinfo (snd (inc_detach_buffer iw)) = inc_rinfo iw"
  "inc_last_dc (snd (inc_detach_buffer iw)) = inc_last_dc iw" "huffw (snd (inc_detach_buffer iw)) = snd (detach_buffer (huffw iw))"
  "fst (inc_detach_buffer iw) = fst (detach_buffer (huffw iw))"
  by (simp_all add: inc_detach_buffer_def split: prod.splits)

lemma writer_at_detach:
  assumes "writer_at jf rinfo ims p0 dc0 bs0 out r full iw"
  shows "writer_at jf rinfo ims p0 dc0 bs0 out r (full @ fst (inc_detach_buffer iw)) (snd (inc_detach_buffer iw))"
proof (cases "r < unat (mcuv jf)")
  case True
  then obtain bs' ws zs bs pre where A: "passes jf (fill_byte rinfo) ims p0 dc0 bs0 (r * unat (mcuh jf), 0, 0) (inc_last_dc iw) bs' ws"
    "length (inc_last_dc iw) = 4" "bs' = bytes_bits zs @ bs" "wrote (huffw iw) pre bs" "full @ pre = ws @ stuff zs"
    using assms unfolding writer_at_def by auto
  obtain ys fr where D: "fst (detach_buffer (huffw iw)) = pre @ stuff ys" "bs = bytes_bits ys @ fr"
    "wrote (snd (detach_buffer (huffw iw))) [] fr" using detach_wrote [OF A(4)] by blast
  have "bs' = bytes_bits (zs @ ys) @ fr" "(full @ pre @ stuff ys) @ [] = ws @ stuff (zs @ ys)" using A(3,5) D(2) by simp_all
  with A(1,2) D(1,3) have "\<exists>b v y c e. passes jf (fill_byte rinfo) ims p0 dc0 bs0 (r * unat (mcuh jf), 0, 0) (inc_last_dc iw) b v
      \<and> length (inc_last_dc iw) = 4 \<and> b = bytes_bits y @ c \<and> wrote (snd (detach_buffer (huffw iw))) e c
      \<and> (full @ fst (detach_buffer (huffw iw))) @ e = v @ stuff y" by metis
  then show ?thesis using assms True unfolding writer_at_def detach_simps by simp
next
  case False
  then have A: "full @ data_buffer (huffw iw) = out" "current_bit (huffw iw) = 64" using assms unfolding writer_at_def by simp_all
  obtain pre bs where w: "wrote (huffw iw) pre bs" using assms False unfolding writer_at_def by auto
  obtain fr where "wrote (snd (detach_buffer (huffw iw))) [] fr" using detach_wrote [OF w] by blast
  then show ?thesis using assms False A flush_aligned [OF A(2)]
    unfolding writer_at_def detach_simps by (auto simp: detach_buffer_def Let_def)
qed

lemma detached_ready:
  assumes "writer_at jf rinfo ims p0 dc0 bs0 out r full iw"
  shows "if r < unat (mcuv jf)
    then \<exists>dc bs' ws fr. passes jf (fill_byte rinfo) ims p0 dc0 bs0 (r * unat (mcuh jf), 0, 0) dc bs' ws
      \<and> ready_bytes ws bs' (full @ fst (inc_detach_buffer iw)) fr
    else full @ fst (inc_detach_buffer iw) = out"
proof (cases "r < unat (mcuv jf)")
  case True
  then obtain bs' ws zs bs pre where A: "passes jf (fill_byte rinfo) ims p0 dc0 bs0 (r * unat (mcuh jf), 0, 0) (inc_last_dc iw) bs' ws"
    "bs' = bytes_bits zs @ bs" "wrote (huffw iw) pre bs" "full @ pre = ws @ stuff zs"
    using assms unfolding writer_at_def by auto
  obtain ys fr where D: "fst (detach_buffer (huffw iw)) = pre @ stuff ys" "bs = bytes_bits ys @ fr" "length fr < 8"
    using detach_wrote [OF A(3)] by blast
  have "full @ pre @ stuff ys = ws @ stuff (zs @ ys)" using A(4) by simp
  then have "ready_bytes ws bs' (full @ pre @ stuff ys) fr"
    using A(2) D(2,3) unfolding ready_bytes_def by (intro exI [of _ "zs @ ys"]) simp
  then show ?thesis using A(1) D(1) True by (auto simp: detach_simps)
next
  case False
  then have "full @ data_buffer (huffw iw) = out" "current_bit (huffw iw) = 64" using assms unfolding writer_at_def by simp_all
  then show ?thesis using False by (simp add: detach_simps detach_buffer_def Let_def flush_aligned)
qed

context simd16_laws
begin

text \<open>A row.\<close>

lemma writer_at_row:
  assumes ok: "header_ok a jf" "regular_scan jf" and tbl: "scan_tables_ok jf" and ims: "whole_images jf ims" and mk: "all_markers rinfo"
    and code: "scan_code jf (fill_byte rinfo) ims p0 dc0 bs0 out"
    and at: "writer_at jf rinfo ims p0 dc0 bs0 out r full iw" and r: "r < unat (mcuv jf)"
    and fb: "shows_row jf ims r fb" and spec: "last_row_to_complete_mcu spec" "mcu_row_index spec = of_nat r"
  shows "\<exists>n0 finished iw'. (\<forall>n \<ge> n0. inc_process_row n V spec fb iw = Some (Ok (finished, iw')))
    \<and> writer_at jf rinfo ims p0 dc0 bs0 out (Suc r) full iw'"
proof -
  let ?fb = "fill_byte rinfo" and ?p = "(r * unat (mcuh jf), 0, 0)" and ?q = "(Suc r * unat (mcuh jf), 0, 0)"
  have mcuc: "unat (mcuc jf) = unat (mcuv jf) * unat (mcuh jf)" "0 < unat (mcuh jf)"
    using ok(1) by (simp_all add: header_ok_def geometry_ok_def word_less_nat_alt)
  have inc: "inc_header iw = jf" "inc_rinfo iw = rinfo" using at unfolding writer_at_def by blast+
  from at r obtain bs' ws zs bs pre where A: "passes jf ?fb ims p0 dc0 bs0 ?p (inc_last_dc iw) bs' ws"
    "length (inc_last_dc iw) = 4" "bs' = bytes_bits zs @ bs" "wrote (huffw iw) pre bs" "full @ pre = ws @ stuff zs"
    unfolding writer_at_def by auto
  from code_passed [OF A(1) code] obtain rest where "out = ws @ rest" "scan_code jf ?fb ims ?p (inc_last_dc iw) bs' rest" by blast
  with code_bytes [OF _ A(3)] obtain rest' where C: "out = ws @ stuff zs @ rest'" "scan_code jf ?fb ims ?p (inc_last_dc iw) bs rest'"
    by blast
  have row: "r * unat (mcuh jf) < unat (mcuc jf)" using r mcuc by simp
  have "wrote (ensure_space (inc_capacity iw) (huffw iw)) pre bs" using A(4) by simp
  from recode_row_writes [OF ok tbl ims mk row C(2) A(2) this fb] obtain n0 finished dc' w' where
    R: "\<And>n. n0 \<le> n \<Longrightarrow> recode_one_mcu_row n V (of_nat r * mcuh jf) (inc_last_dc iw) fb jf rinfo (inc_scan_index iw)
        (ensure_space (inc_capacity iw) (huffw iw)) = Some (Ok (finished, dc', w'))"
    "row_written jf ?fb ims ?p (inc_last_dc iw) bs pre r rest' finished dc' w'" by blast
  define iw' where "iw' = iw\<lparr>inc_last_dc := dc', huffw := w'\<rparr>"
  have "inc_process_row n V spec fb iw = Some (Ok (finished, iw'))" if "n0 \<le> n" for n
    using R(1) [OF that] inc spec by (simp add: inc_process_row_def iw'_def)
  moreover have "writer_at jf rinfo ims p0 dc0 bs0 out (Suc r) full iw'"
  proof (cases finished)
    case True
    then have f: "Suc r * unat (mcuh jf) = unat (mcuc jf)" "data_buffer w' = pre @ rest'" "current_bit w' = 64" "\<exists>pre bs. wrote w' pre bs"
      using R(2) unfolding row_written_def by simp_all
    then have "Suc r = unat (mcuv jf)" using mcuc by (metis mult_cancel2 neq0_conv)
    then have "\<not> Suc r < unat (mcuv jf)" by simp
    moreover have "full @ data_buffer w' = out" using A(5) C(1) f(2) by (metis append_assoc)
    ultimately show ?thesis using inc f(3,4) unfolding writer_at_def iw'_def by simp
  next
    case False
    then obtain vs bs2 where f: "Suc r * unat (mcuh jf) < unat (mcuc jf)" "length dc' = 4"
      "passes jf ?fb ims ?p (inc_last_dc iw) bs ?q dc' bs2 vs" "wrote w' (pre @ vs) bs2"
      using R(2) unfolding row_written_def by auto
    then have less: "Suc r < unat (mcuv jf)" using mcuc by (metis mult_less_cancel2)
    from passes_bytes_front [OF f(3), of zs, folded A(3)] have
      "\<exists>bs'' vs' zs'. passes jf ?fb ims ?p (inc_last_dc iw) bs' ?q dc' bs'' vs' \<and> bs'' = bytes_bits zs' @ bs2 \<and> stuff zs @ vs = vs' @ stuff zs'"
    proof
      assume "vs = [] \<and> passes jf ?fb ims ?p (inc_last_dc iw) bs' ?q dc' (bytes_bits zs @ bs2) []"
      then show ?thesis by (intro exI [of _ "bytes_bits zs @ bs2"] exI [of _ "[]"] exI [of _ zs]) simp
    next
      assume "passes jf ?fb ims ?p (inc_last_dc iw) bs' ?q dc' bs2 (stuff zs @ vs)"
      then show ?thesis by (intro exI [of _ bs2] exI [of _ "stuff zs @ vs"] exI [of _ "[]"]) simp
    qed
    then obtain bs'' vs' zs' where g: "passes jf ?fb ims ?p (inc_last_dc iw) bs' ?q dc' bs'' vs'" "bs'' = bytes_bits zs' @ bs2"
      "stuff zs @ vs = vs' @ stuff zs'" by blast
    have "full @ pre @ vs = (ws @ vs') @ stuff zs'" using A(5) g(3) by (metis append_assoc)
    from passes_trans [OF A(1) g(1)] f(2,4) g(2) this
    have "\<exists>b v y c e. passes jf ?fb ims p0 dc0 bs0 ?q dc' b v \<and> length dc' = 4 \<and> b = bytes_bits y @ c \<and> wrote w' e c
      \<and> full @ e = v @ stuff y" by (metis (no_types))
    moreover have "inc_header iw' = jf" "inc_rinfo iw' = rinfo" "inc_last_dc iw' = dc'" "huffw iw' = w'" by (simp_all add: iw'_def inc)
    ultimately show ?thesis using less unfolding writer_at_def if_P [OF less] by simp
  qed
  ultimately show ?thesis by blast
qed

text \<open>Sending: the size of the segment limits what is sent.\<close>

end

definition segment_sent :: "nat \<Rightarrow> bytes \<Rightarrow> segment_output \<Rightarrow> bool" where
  "segment_sent amount full = (\<lambda>(iw, amount_left, sent). amount_left = amount - length full \<and>
    (\<exists>vs. sent = map Result vs \<and> concat vs = take amount full))"

lemma send_buffer_sent:
  assumes "segment_sent amount full (iw, k, sent)"
  shows "segment_sent amount (full @ fst (inc_detach_buffer iw)) (send_buffer (iw, k, sent))"
    "fst (send_buffer (iw, k, sent)) = snd (inc_detach_buffer iw)"
proof -
  from assms obtain vs where v: "sent = map Result vs" "concat vs = take amount full" "k = amount - length full"
    by (auto simp: segment_sent_def)
  have "sent @ [Result (take k (fst (inc_detach_buffer iw)))] = map Result (vs @ [take k (fst (inc_detach_buffer iw))])" using v(1) by simp
  moreover have "concat (vs @ [take k (fst (inc_detach_buffer iw))]) = take amount (full @ fst (inc_detach_buffer iw))" using v(2,3) by simp
  moreover have "k - length (take k (fst (inc_detach_buffer iw))) = amount - length (full @ fst (inc_detach_buffer iw))" using v(3) by simp
  ultimately show "segment_sent amount (full @ fst (inc_detach_buffer iw)) (send_buffer (iw, k, sent))"
    unfolding send_buffer_def segment_sent_def by (auto simp: Let_def split: prod.splits simp del: map_append concat_append)
  show "fst (send_buffer (iw, k, sent)) = snd (inc_detach_buffer iw)" by (simp add: send_buffer_def Let_def split: prod.splits)
qed

definition segment_at ::
  "JpegHeader \<Rightarrow> ReconstructionInfo \<Rightarrow> BlockBasedImage list \<Rightarrow> place \<Rightarrow> i16 list \<Rightarrow> bool list \<Rightarrow> bytes \<Rightarrow> nat \<Rightarrow> nat
    \<Rightarrow> segment_output \<Rightarrow> bool"
where
  "segment_at jf rinfo ims p0 dc0 bs0 out amount r st \<longleftrightarrow>
    (\<exists>full. writer_at jf rinfo ims p0 dc0 bs0 out r full (fst st) \<and> segment_sent amount full st)"

context simd16_laws
begin

lemma baseline_row_writes:
  assumes ok: "header_ok a jf" "regular_scan jf" and tbl: "scan_tables_ok jf" and ims: "whole_images jf ims" and mk: "all_markers rinfo"
    and code: "scan_code jf (fill_byte rinfo) ims p0 dc0 bs0 out"
    and at: "segment_at jf rinfo ims p0 dc0 bs0 out amount r st" and r: "r < unat (mcuv jf)"
    and fb: "shows_row jf ims r fb" and spec: "last_row_to_complete_mcu spec" "mcu_row_index spec = of_nat r"
  shows "\<exists>n0 st'. (\<forall>n \<ge> n0. baseline_row n V spec fb (Some st) = Ok (Some st'))
    \<and> segment_at jf rinfo ims p0 dc0 bs0 out amount (Suc r) st'"
proof -
  obtain iw k sent where st: "st = (iw, k, sent)" by (cases st)
  from at obtain full where F: "writer_at jf rinfo ims p0 dc0 bs0 out r full iw" "segment_sent amount full (iw, k, sent)"
    unfolding segment_at_def st by auto
  from writer_at_row [OF ok tbl ims mk code F(1) r fb spec] obtain n0 finished iw' where
    R: "\<And>n. n0 \<le> n \<Longrightarrow> inc_process_row n V spec fb iw = Some (Ok (finished, iw'))"
    "writer_at jf rinfo ims p0 dc0 bs0 out (Suc r) full iw'" by blast
  have sent: "segment_sent amount full (iw', k, sent)" using F(2) by (simp add: segment_sent_def)
  define st' where "st' = (if BUFFER_SIZE \<le> inc_amount_buffered iw' then send_buffer (iw', k, sent) else (iw', k, sent))"
  have "segment_at jf rinfo ims p0 dc0 bs0 out amount (Suc r) st'"
  proof (cases "BUFFER_SIZE \<le> inc_amount_buffered iw'")
    case True
    then show ?thesis using writer_at_detach [OF R(2)] send_buffer_sent [OF sent] unfolding segment_at_def st'_def by auto
  next
    case False
    then show ?thesis using R(2) sent unfolding segment_at_def st'_def by auto
  qed
  moreover have "baseline_row n V spec fb (Some st) = Ok (Some st')" if "n0 \<le> n" for n
    using R(1) [OF that] by (simp add: st st'_def)
  ultimately show ?thesis by blast
qed

lemma callbacks_write:
  assumes ok: "header_ok a jf" "regular_scan jf" and tbl: "scan_tables_ok jf" and ims: "whole_images jf ims" and mk: "all_markers rinfo"
    and code: "scan_code jf (fill_byte rinfo) ims p0 dc0 bs0 out" and mult: "0 < mult 0" and r1: "r1 \<le> unat (mcuv jf)"
    and rows: "\<And>r. r0 \<le> r \<Longrightarrow> r < r1 \<Longrightarrow> shows_row jf ims r (segment_images ims mult r0 caps (Suc r * (\<Sum>j<length ims. mult j)))"
  shows "r + d = r1 \<Longrightarrow> r0 \<le> r \<Longrightarrow> segment_at jf rinfo ims p0 dc0 bs0 out amount r st \<Longrightarrow>
    \<exists>n0 st'. (\<forall>n \<ge> n0. run_callbacks (baseline_row n V) ims mult r0 caps [r..<r1] (Some st) = Ok (Some st'))
      \<and> segment_at jf rinfo ims p0 dc0 bs0 out amount r1 st'"
proof (induction d arbitrary: r st)
  case (Suc d)
  then have r: "r < unat (mcuv jf)" "r < r1" using r1 by simp_all
  let ?s = "mcu_row_spec mult r 0 (mult 0 - 1)"
  have spec: "last_row_to_complete_mcu ?s" "mcu_row_index ?s = of_nat r" using mult by (simp_all add: mcu_row_spec_def)
  from baseline_row_writes [OF ok tbl ims mk code Suc.prems(3) r(1) rows [OF Suc.prems(2) r(2)] spec] obtain n0 st1 where
    A: "\<And>n. n0 \<le> n \<Longrightarrow> baseline_row n V ?s (segment_images ims mult r0 caps (Suc r * (\<Sum>j<length ims. mult j))) (Some st) = Ok (Some st1)"
    "segment_at jf rinfo ims p0 dc0 bs0 out amount (Suc r) st1" by blast
  from Suc.IH [OF _ _ A(2)] Suc.prems(1,2) obtain n1 st' where
    B: "\<And>n. n1 \<le> n \<Longrightarrow> run_callbacks (baseline_row n V) ims mult r0 caps [Suc r..<r1] (Some st1) = Ok (Some st')"
    "segment_at jf rinfo ims p0 dc0 bs0 out amount r1 st'" by auto
  have "run_callbacks (baseline_row n V) ims mult r0 caps [r..<r1] (Some st) = Ok (Some st')" if "n0 + n1 \<le> n" for n
    using A(1) [of n] B(1) [of n] that r(2) by (simp only: upt_conv_Cons run_callbacks.simps) simp
  then show ?case using B(2) by blast
qed auto

end

section \<open>From partition to partition\<close>

text \<open>The code of the scan up to a row: the whole bytes, the bits that are left, and the last DCs. Behind the last row it is all of it.\<close>

definition row_reached ::
  "JpegHeader \<Rightarrow> u8 \<Rightarrow> BlockBasedImage list \<Rightarrow> bytes \<Rightarrow> nat \<Rightarrow> i16 list \<Rightarrow> bool list \<Rightarrow> bytes \<Rightarrow> bool"
where
  "row_reached jf fillbit ims out r dc fr em \<longleftrightarrow>
    (if r < unat (mcuv jf)
     then \<exists>bs ws. passes jf fillbit ims (0, 0, 0) (replicate 4 0) [] (r * unat (mcuh jf), 0, 0) dc bs ws \<and> ready_bytes ws bs em fr
     else em = out)"

lemma row_reached_code:
  assumes "row_reached jf fillbit ims out r dc fr em" "r < unat (mcuv jf)"
    and "scan_code jf fillbit ims (0, 0, 0) (replicate 4 0) [] out"
  shows "\<exists>rest. out = em @ rest \<and> scan_code jf fillbit ims (r * unat (mcuh jf), 0, 0) dc fr rest" "length fr < 8"
proof -
  from assms(1,2) obtain bs ws zs where P: "passes jf fillbit ims (0, 0, 0) (replicate 4 0) [] (r * unat (mcuh jf), 0, 0) dc bs ws"
    "bs = bytes_bits zs @ fr" "length fr < 8" "em = ws @ stuff zs" by (auto simp: row_reached_def ready_bytes_def)
  show "length fr < 8" by (rule P(3))
  from code_passed [OF P(1) assms(3)] obtain rest where "out = ws @ rest" "scan_code jf fillbit ims (r * unat (mcuh jf), 0, 0) dc bs rest" by blast
  with code_bytes [OF _ P(2)] P(4) show "\<exists>rest. out = em @ rest \<and> scan_code jf fillbit ims (r * unat (mcuh jf), 0, 0) dc fr rest" by fastforce
qed

lemma segment_bytes:
  assumes r: "row_reached jf (fill_byte rinfo) ims out r dc fr em" "r < unat (mcuv jf)"
    and q: "row_reached jf (fill_byte rinfo) ims out q dc' fr' em'" "r \<le> q"
    and w: "writer_at jf rinfo ims (r * unat (mcuh jf), 0, 0) dc fr rest q full iw" "out = em @ rest" "0 < unat (mcuh jf)"
  shows "em' = em @ full @ fst (inc_detach_buffer iw)"
proof (cases "q < unat (mcuv jf)")
  case True
  let ?fb = "fill_byte rinfo" and ?p = "(r * unat (mcuh jf), 0, 0)" and ?q = "(q * unat (mcuh jf), 0, 0)"
  from r obtain bs ws zs where P: "passes jf ?fb ims (0, 0, 0) (replicate 4 0) [] ?p dc bs ws"
    "bs = bytes_bits zs @ fr" "length fr < 8" "em = ws @ stuff zs" by (auto simp: row_reached_def ready_bytes_def)
  from q(1) True obtain bs1 ws1 where Q: "passes jf ?fb ims (0, 0, 0) (replicate 4 0) [] ?q dc' bs1 ws1"
    "ready_bytes ws1 bs1 em' fr'" by (auto simp: row_reached_def)
  have le: "r * unat (mcuh jf) \<le> q * unat (mcuh jf)" using q(2) by (rule mult_le_mono1)
  have "?p = ?q \<or> before ?p ?q" using le by auto
  from passes_ahead [OF P(1) Q(1) this] obtain us where U: "passes jf ?fb ims ?p dc bs ?q dc' bs1 us" "ws1 = ws @ us" .
  from Q(2) U(2) obtain ys where y: "bs1 = bytes_bits ys @ fr'" "length fr' < 8" "em' = ws @ us @ stuff ys" by (auto simp: ready_bytes_def)
  have ready: "ready_bytes [] bs (stuff zs) fr" "ready_bytes us bs1 (us @ stuff ys) fr'"
    using P(2,3) y(1,2) by (auto simp: ready_bytes_def)
  from detached_ready [OF w(1)] True obtain dc2 bs2 vs fr2 where
    D: "passes jf ?fb ims ?p dc fr ?q dc2 bs2 vs" "ready_bytes vs bs2 (full @ fst (inc_detach_buffer iw)) fr2" by auto
  from passes_from_tail [OF U(1) ready D] y(3) P(4) show ?thesis by simp
next
  case False
  then show ?thesis using detached_ready [OF w(1)] q(1) w(2) by (simp add: row_reached_def)
qed

text \<open>The start of a segment.\<close>

lemma pending_overhang:
  assumes "pending_in b fr" "length fr < 8"
  shows "wrote (reset_from_overhang_byte_and_num_bits b (ucast (of_nat (length fr) :: u8)) w) [] fr"
proof -
  have n: "unat (ucast (of_nat (length fr) :: u8) :: u32) = length fr"
    using assms(2) by (simp add: unat_ucast unat_of_nat)
  show ?thesis using wrote_reset [of "ucast (of_nat (length fr) :: u8)" b w] assms unfolding n pending_in_def by simp
qed

lemma segment_starts:
  assumes "pending_in (overhang_byte ri) fr" "length fr < 8" "num_overhang_bits ri = of_nat (length fr)" "length (last_dc ri) = 4"
    and "r < unat (mcuv jf)"
  shows "segment_at jf rinfo ims (r * unat (mcuh jf), 0, 0) (last_dc ri) fr out amount r
    (JpegIncrementalWriter_new cap alloc rinfo (Some ri) jf k, amount, [])"
proof -
  let ?iw = "JpegIncrementalWriter_new cap alloc rinfo (Some ri) jf k"
  have iw: "inc_header ?iw = jf" "inc_rinfo ?iw = rinfo" "inc_last_dc ?iw = last_dc ri" "wrote (huffw ?iw) [] fr"
    using pending_overhang [OF assms(1,2)] assms(3) by (simp_all add: JpegIncrementalWriter_new_def Let_def)
  have "\<exists>b v y c e. passes jf (fill_byte rinfo) ims (r * unat (mcuh jf), 0, 0) (last_dc ri) fr (r * unat (mcuh jf), 0, 0) (last_dc ri) b v
      \<and> length (last_dc ri) = 4 \<and> b = bytes_bits y @ c \<and> wrote (huffw ?iw) e c \<and> [] @ e = v @ stuff y"
    using passes_refl iw(4) assms(4) by (intro exI [of _ fr] exI [of _ "[]"]) auto
  then have "writer_at jf rinfo ims (r * unat (mcuh jf), 0, 0) (last_dc ri) fr out r [] ?iw"
    unfolding writer_at_def if_P [OF assms(5)] iw(1-3) by blast
  then show ?thesis by (auto simp: segment_at_def segment_sent_def intro!: exI [of _ "[]"])
qed

text \<open>The images of the decoder show the rows of its segment.\<close>

lemma shows_segment_row:
  assumes ok: "header_ok a jf" and ims: "whole_images jf ims" and wide: "\<forall>i < cmpc jf. block_width (ims ! i) = bch (cmp_info jf ! i)"
    and mult: "\<forall>i < cmpc jf. mult i = unat (sfh (cmp_info jf ! i))" and r: "r0 \<le> r" and M: "0 < (\<Sum>j<length ims. mult j)"
  shows "shows_row jf ims r (segment_images ims mult r0 caps (Suc r * (\<Sum>j<length ims. mult j)))"
  unfolding shows_row_def
proof (intro conjI allI impI)
  fix p st
  assume "at_place jf st p \<and> fst p div unat (mcuh jf) = r"
  then have at: "at_place jf st p" and row: "fst p div unat (mcuh jf) = r" by blast+
  note A = at_placeD [OF at]
  obtain m c k where p: "p = (m, c, k)" by (cases p)
  let ?c = "place_component jf p" and ?ci = "cmp_info jf ! (place_component jf p)"
  have c: "c < cs_cmpc jf" "k < unat (mbs ?ci)" "m < unat (mcuc jf)" using A(1) by (simp_all add: p valid_place_def place_component_def)
  note H = header_component [OF ok c(1), folded place_component_def [of jf p, unfolded p fst_conv snd_conv, folded p]]
  have i: "?c < cmpc jf" "?c < length ims" using H(13) ims by (simp_all add: whole_images_def)
  let ?e = "ims ! ?c"
  have e: "dpos_offset ?e = 0" "unat (block_width ?e) = unat (mcuh jf) * unat (sfv ?ci)" "mult ?c = unat (sfh ?ci)"
    using ims wide mult i H(8) by (simp_all add: whole_images_def)
  note C = block_cell [OF H(5) c(2) [unfolded H(7)] c(3) [unfolded H(6)]]
  let ?y = "m div unat (mcuh jf) * unat (sfh ?ci) + k div unat (sfv ?ci)" and ?x = "m mod unat (mcuh jf) * unat (sfv ?ci) + k mod unat (sfv ?ci)"
  have pos: "unat (dpos st) = ?y * unat (block_width ?e) + ?x" using A(4) unfolding e(2) by (simp add: p block_pos_def Let_def)
  have y: "r * mult ?c \<le> ?y" "?y < Suc r * mult ?c"
  proof -
    have d: "m div unat (mcuh jf) = r" using row by (simp add: p)
    show "r * mult ?c \<le> ?y" by (simp add: d e(3))
    have "k div unat (sfv ?ci) < unat (sfh ?ci)" using c(2) unfolding H(7) by (rule less_mult_imp_div_less)
    then show "?y < Suc r * mult ?c" by (simp add: d e(3))
  qed
  have lo: "r0 * mult ?c * unat (block_width ?e) \<le> unat (dpos st)"
    using le_trans [OF mult_le_mono1 [OF r, of "mult ?c"] y(1)] mult_le_mono1 [of "r0 * mult ?c" ?y "unat (block_width ?e)"] pos by linarith
  have "?y * unat (block_width ?e) + ?x < Suc ?y * unat (block_width ?e)" using C(1) by (simp add: e(2))
  also have "\<dots> \<le> Suc r * mult ?c * unat (block_width ?e)" using y(2) by (intro mult_le_mono1) simp
  finally have hi: "unat (dpos st) < Suc r * mult ?c * unat (block_width ?e)" using pos by simp
  define f where "f = segment_image ?e (r0 * mult ?c) (Suc r * mult ?c) (caps ?c)"
  have le: "r0 * mult ?c \<le> Suc r * mult ?c" using r by (intro mult_le_mono1) simp
  have f: "segment_images ims mult r0 caps (Suc r * (\<Sum>j<length ims. mult j)) ! ?c = f"
    unfolding f_def segment_images_nth [OF i(2)] rows_done_mcu [OF i(2) M] using le by (simp only: max_absorb2)
  have small: "unat (block_width ?e) * (r0 * mult ?c) < 2 ^ 32" using lo unat_lt2p [of "dpos st"] by (simp add: mult.commute)
  note off = segment_image_end(1) [OF le small, of "caps ?c", folded f_def]
  have "get_block_at f (dpos st) = blocks_of f (unat (dpos st) - unat (dpos_offset f))"
    by (rule get_block_at_blocks_of) (use lo in \<open>simp only: off mult.commute [of "unat (block_width ?e)"]\<close>)
  also have "\<dots> = image f ! (unat (dpos st) - r0 * mult ?c * unat (block_width ?e))"
  proof -
    have "length (image f) = Suc r * mult ?c * unat (block_width ?e) - r0 * mult ?c * unat (block_width ?e)"
      unfolding f_def segment_image_simps(3) by (simp only: mult.commute)
    then show ?thesis
      using diff_less_mono [OF hi lo] unfolding blocks_of_def off mult.commute [of "unat (block_width ?e)"] by simp
  qed
  also have "\<dots> = block_no ?e (unat (dpos st))"
    using lo hi unfolding f_def segment_image_def by (simp add: mult.commute [of "unat (block_width ?e)"] del: mult_Suc)
  finally have "get_block_at f (dpos st) = block_no ?e (unat (dpos st))" .
  moreover have "get_block_at ?e (dpos st) = block_no ?e (unat (dpos st))" by (rule get_block_at_block_no) (simp add: e(1))
  ultimately show "get_block_at (segment_images ims mult r0 caps (Suc r * (\<Sum>j<length ims. mult j)) ! ?c) (dpos st) = get_block_at (ims ! ?c) (dpos st)"
    unfolding f by simp
qed (simp add: segment_images_def)

end
