(* ===== verification/Segment_Threads.thy ===== *)
theory Segment_Threads
  imports Segment_Writer Stored_Images Thread_Splits
begin

unbundle bit_operations_syntax

text \<open>
  The segments of the threads of a baseline file: a segment starts at a partition the reader has recorded, and what its
  header says is the state of the coder there and the length of the scan up to the segment behind it (\<open>combined_segment\<close>).
\<close>

section \<open>The state at a partition\<close>

lemma block_after_valid:
  assumes "header_ok a jf" "valid_place jf p" "fst (block_after jf p) < unat (mcuc jf)"
  shows "valid_place jf (block_after jf p)"
proof -
  obtain m c k where p: "p = (m, c, k)" by (cases p)
  have c: "c < cs_cmpc jf" using assms(2) by (simp add: p valid_place_def)
  have "0 < unat (mbs (cmp_info jf ! (cs_cmp jf ! c')))" if "c' < cs_cmpc jf" for c'
    using header_component(1,2,7) [OF assms(1) that] by simp
  moreover have "0 < cs_cmpc jf" using c by simp
  ultimately show ?thesis using assms(2,3) by (auto simp: p valid_place_def)
qed

text \<open>There are DCs for four components, and there is no fourth one.\<close>

lemma passes_dc:
  assumes ok: "header_ok a jf" and three: "cmpc jf \<le> 3"
  shows "passes jf fillbit ims p dc bs q dc' bs' ws \<Longrightarrow> valid_place jf p \<Longrightarrow> length dc = 4 \<Longrightarrow> dc ! 3 = 0 \<Longrightarrow> length dc' = 4 \<and> dc' ! 3 = 0"
proof (induction rule: passes.induct)
  case (passes_block p dc bs q dc' bs' ws)
  have "fst (block_after jf p) < unat (mcuc jf)" using passes_block.hyps(1) place_status_cases(1) [of jf p] by auto
  from block_after_valid [OF ok passes_block.prems(1) this] have v: "valid_place jf (block_after jf p)" .
  have "place_component jf p \<noteq> 3" using place_component_less(1) [OF ok passes_block.prems(1)] three by auto
  then show ?case using passes_block.IH [OF v] passes_block.prems(2,3) by (simp add: dc_after_def)
next
  case (passes_interval p dc bs1 bs ys q dc' bs' ws)
  have "fst (block_after jf p) < unat (mcuc jf)" using passes_interval.hyps(1) place_status_cases(2) [of jf p] by auto
  from block_after_valid [OF ok passes_interval.prems(1) this] have v: "valid_place jf (block_after jf p)" .
  then show ?case using passes_interval.IH by simp
qed simp

lemma row_reached_more:
  assumes ok: "0 < unat (mcuh jf)" and r: "row_reached jf fillbit ims out r dc fr em" "r < unat (mcuv jf)"
    and q: "row_reached jf fillbit ims out q dc' fr' em'" "r \<le> q"
    and code: "scan_code jf fillbit ims (0, 0, 0) (replicate 4 0) [] out"
  shows "\<exists>x. em' = em @ x"
proof (cases "q < unat (mcuv jf)")
  case True
  let ?p = "(r * unat (mcuh jf), 0, 0)" and ?q = "(q * unat (mcuh jf), 0, 0)"
  from r obtain bs ws zs where P: "passes jf fillbit ims (0, 0, 0) (replicate 4 0) [] ?p dc bs ws"
    "bs = bytes_bits zs @ fr" "em = ws @ stuff zs" by (auto simp: row_reached_def ready_bytes_def)
  from q(1) True obtain bs1 ws1 where Q: "passes jf fillbit ims (0, 0, 0) (replicate 4 0) [] ?q dc' bs1 ws1"
    "ready_bytes ws1 bs1 em' fr'" by (auto simp: row_reached_def)
  have le: "r * unat (mcuh jf) \<le> q * unat (mcuh jf)" using q(2) by (rule mult_le_mono1)
  have "?p = ?q \<or> before ?p ?q" using le by auto
  from passes_ahead [OF P(1) Q(1) this] obtain us where U: "passes jf fillbit ims ?p dc bs ?q dc' bs1 us" "ws1 = ws @ us" .
  from passes_bytes [OF U(1) P(2)] show ?thesis
  proof
    assume "us = [] \<and> (\<exists>bs2. bs1 = bytes_bits zs @ bs2 \<and> passes jf fillbit ims ?p dc fr ?q dc' bs2 [])"
    then obtain bs2 where b: "us = []" "bs1 = bytes_bits zs @ bs2" by blast
    from Q(2) obtain ys where y: "bs1 = bytes_bits ys @ fr'" "length fr' < 8" "em' = ws1 @ stuff ys" by (auto simp: ready_bytes_def)
    have e: "bytes_bits zs @ bs2 = bytes_bits ys @ fr'" using y(1) b(2) by simp
    have "8 * length zs + length bs2 = 8 * length ys + length fr'" using arg_cong [OF e, of length] by simp
    then have le: "length zs \<le> length ys" using y(2) by linarith
    have "take (8 * length zs) (bytes_bits zs @ bs2) = bytes_bits zs" by simp
    moreover have "take (8 * length zs) (bytes_bits ys @ fr') = bytes_bits (take (length zs) ys)" using le by (simp add: bytes_bits_take)
    ultimately have "bytes_bits (take (length zs) ys) = bytes_bits zs" using e by simp
    then have "take (length zs) ys = zs" by (simp add: bytes_bits_inject)
    then have "ys = zs @ drop (length zs) ys" by (metis append_take_drop_id)
    then have "stuff ys = stuff zs @ stuff (drop (length zs) ys)" by (metis stuff_append)
    then have "em' = em @ stuff (drop (length zs) ys)" using y(3) U(2) b(1) P(3) by simp
    then show ?thesis by blast
  next
    assume "\<exists>vs. us = stuff zs @ vs \<and> passes jf fillbit ims ?p dc fr ?q dc' bs1 vs"
    then show ?thesis using Q(2) U(2) P(3) by (auto simp: ready_bytes_def)
  qed
next
  case False
  then show ?thesis using row_reached_code(1) [OF r code] q(1) by (auto simp: row_reached_def)
qed

section \<open>The partitions of a file\<close>

text \<open>How many bytes of the scan are in front of a row.\<close>

definition row_cut :: "u64 \<Rightarrow> (u64 \<times> RestartSegmentCodingInfo) list \<Rightarrow> bytes \<Rightarrow> nat \<Rightarrow> nat" where
  "row_cut start parts scan j = (if j < length parts then unat (fst (parts ! j) - start) else length scan)"

definition luma_multiple :: "JpegHeader \<Rightarrow> u32" where
  "luma_multiple jf = bcv (cmp_info jf ! 0) div mcuv jf"

lemma luma_multiple:
  assumes "header_ok a jf"
  shows "unat (luma_multiple jf) = unat (sfh (cmp_info jf ! 0))" "0 < unat (luma_multiple jf)" "unat (luma_multiple jf) \<le> 2" "0 < cmpc jf"
proof -
  show c: "0 < cmpc jf" using assms by (auto simp: header_ok_def scan_ok_def)
  then have g: "component_ok jf (cmp_info jf ! 0)" "0 < unat (mcuv jf)" "sfh (cmp_info jf ! 0) \<le> 2"
    using assms by (auto simp: header_ok_def geometry_ok_def header_inv_def frame_ok_def word_less_nat_alt)
  then show "unat (luma_multiple jf) = unat (sfh (cmp_info jf ! 0))" "0 < unat (luma_multiple jf)" "unat (luma_multiple jf) \<le> 2"
    by (simp_all add: luma_multiple_def unat_div component_ok_def word_less_nat_alt word_le_nat_alt)
qed

lemma handoff_rows:
  fixes b n dc
  assumes ok: "header_ok a jf" and j: "j < unat (mcuv jf)"
  defines "r \<equiv> RestartSegmentCodingInfo_new b n dc (of_nat (j * unat (mcuh jf))) jf"
  shows "luma_y_start r = luma_multiple jf * of_nat j" "luma_y_end r = luma_multiple jf * of_nat (Suc j)"
proof -
  have w: "0 < unat (mcuh jf)" "unat (mcuc jf) = unat (mcuv jf) * unat (mcuh jf)"
    using ok by (simp_all add: header_ok_def geometry_ok_def word_less_nat_alt)
  have "j * unat (mcuh jf) < unat (mcuc jf)" unfolding w(2) using j w(1) by (rule mult_less_mono1)
  also have "\<dots> < 2 ^ 32" using unat_lt2p [of "mcuc jf"] by simp
  finally have "j * unat (mcuh jf) < 2 ^ 32" .
  then have "unat (of_nat (j * unat (mcuh jf)) :: u32) = j * unat (mcuh jf)" by (rule unat_of_nat_u32)
  then have "unat (of_nat (j * unat (mcuh jf)) div mcuh jf) = j" using w(1) by (simp add: unat_div)
  then have "of_nat (j * unat (mcuh jf)) div mcuh jf = of_nat j" by (metis of_nat_unat ucast_id)
  then show "luma_y_start r = luma_multiple jf * of_nat j" "luma_y_end r = luma_multiple jf * of_nat (Suc j)"
    by (simp_all add: r_def RestartSegmentCodingInfo_new_def Let_def luma_multiple_def add.commute)
qed

text \<open>What a partition is good for.\<close>

definition partition_ok ::
  "JpegHeader \<Rightarrow> ReconstructionInfo \<Rightarrow> BlockBasedImage list \<Rightarrow> bytes \<Rightarrow> nat \<Rightarrow> nat \<Rightarrow> RestartSegmentCodingInfo \<Rightarrow> bool"
where
  "partition_ok jf rinfo ims scan j amount r \<longleftrightarrow>
    (\<exists>fr. row_reached jf (fill_byte rinfo) ims scan j (last_dc r) fr (take amount scan) \<and> pending_in (overhang_byte r) fr
      \<and> length fr < 8 \<and> num_overhang_bits r = of_nat (length fr)) \<and>
    length (last_dc r) = 4 \<and> last_dc r ! 3 = 0 \<and> amount \<le> length scan \<and>
    luma_y_start r = luma_multiple jf * of_nat j \<and> luma_y_end r = luma_multiple jf * of_nat (Suc j)"

lemma partition_reached:
  assumes parts: "baseline_parts features base file images parts jf rinfo scan rest" and three: "cmpc jf \<le> 3"
    and size: "length scan < 2 ^ 64" and start: "start = base + of_nat (2 + length (raw_jpeg_header rinfo))" and j: "j < unat (mcuv jf)"
  shows "partition_ok jf rinfo images scan j (row_cut start parts scan j) (snd (parts ! j))"
    "fst (parts ! j) = start + of_nat (row_cut start parts scan j)"
proof -
  note P = parts [unfolded baseline_parts_def]
  have len: "j < length parts" and ok: "header_ok False jf"
    and code: "scan_code jf (fill_byte rinfo) images (0, 0, 0) (replicate 4 0) [] scan" using P j by simp_all
  have "recorded (starts_row jf (fill_byte rinfo) images start (0, 0, 0) (replicate 4 0) []) 0 parts" using P start by simp
  from recorded_nth [OF this len] obtain dc bs ws em fr b where
    S: "passes jf (fill_byte rinfo) images (0, 0, 0) (replicate 4 0) [] (j * unat (mcuh jf), 0, 0) dc bs ws" "ready_bytes ws bs em fr"
      "pending_in b fr" "parts ! j = (start + of_nat (length em), RestartSegmentCodingInfo_new b (of_nat (length fr)) dc (of_nat (j * unat (mcuh jf))) jf)"
    by (auto simp: starts_row_def)
  have reached: "row_reached jf (fill_byte rinfo) images scan j dc fr em" using S(1,2) j by (auto simp: row_reached_def)
  from row_reached_code [OF this j code] obtain x where x: "scan = em @ x" "length fr < 8" by blast
  have amount: "row_cut start parts scan j = length em" using len S(4) x(1) size by (simp add: row_cut_def unat_of_nat)
  have "valid_place jf (0, 0, 0)"
  proof -
    have c: "0 < cs_cmpc jf" using ok by (simp add: header_ok_def scan_ok_def)
    then have "0 < unat (mbs (cmp_info jf ! (cs_cmp jf ! 0)))" using header_component(1,2,7) [OF ok c] by simp
    moreover have "0 < unat (mcuc jf)" using ok by (simp add: header_ok_def geometry_ok_def word_less_nat_alt)
    ultimately show ?thesis using c by (simp add: valid_place_def)
  qed
  from passes_dc [OF ok three S(1) this] have "length dc = 4" "dc ! 3 = 0" by simp_all
  then show "partition_ok jf rinfo images scan j (row_cut start parts scan j) (snd (parts ! j))"
    unfolding partition_ok_def amount using reached S(3,4) x handoff_rows [OF ok j, of b "of_nat (length fr)" dc]
    by (auto simp: RestartSegmentCodingInfo_new_def Let_def)
  show "fst (parts ! j) = start + of_nat (row_cut start parts scan j)" by (simp add: amount S(4))
qed

lemma row_reached_end: "row_reached jf fillbit ims scan (unat (mcuv jf)) dc fr scan"
  by (simp add: row_reached_def)

lemma row_amount_mono:
  assumes parts: "baseline_parts features base file images parts jf rinfo scan rest" and three: "cmpc jf \<le> 3"
    and size: "length scan < 2 ^ 64" and start: "start = base + of_nat (2 + length (raw_jpeg_header rinfo))"
    and ab: "a \<le> b" "b \<le> unat (mcuv jf)"
  shows "row_cut start parts scan a \<le> row_cut start parts scan b" "row_cut start parts scan b \<le> length scan"
proof -
  note P = parts [unfolded baseline_parts_def]
  have code: "scan_code jf (fill_byte rinfo) images (0, 0, 0) (replicate 4 0) [] scan" and len: "length parts = unat (mcuv jf)"
    and ok: "header_ok False jf" using P by simp_all
  have w: "0 < unat (mcuh jf)" using ok by (simp add: header_ok_def geometry_ok_def word_less_nat_alt)
  note R = partition_reached(1) [OF parts three size start]
  show le: "row_cut start parts scan b \<le> length scan"
    using R [of b] ab(2) by (cases "b < unat (mcuv jf)") (auto simp: partition_ok_def row_cut_def len)
  show "row_cut start parts scan a \<le> row_cut start parts scan b"
  proof (cases "b < unat (mcuv jf)")
    case True
    then have a: "a < unat (mcuv jf)" using ab(1) by simp
    from R [OF a] R [OF True] obtain fr fr' where
      "row_reached jf (fill_byte rinfo) images scan a (last_dc (snd (parts ! a))) fr (take (row_cut start parts scan a) scan)"
      "row_reached jf (fill_byte rinfo) images scan b (last_dc (snd (parts ! b))) fr' (take (row_cut start parts scan b) scan)"
      unfolding partition_ok_def by blast
    from row_reached_more [OF w this(1) a this(2) ab(1) code] obtain x where
      "take (row_cut start parts scan b) scan = take (row_cut start parts scan a) scan @ x" by blast
    from arg_cong [OF this, of length] R [OF a] le show ?thesis by (simp add: partition_ok_def)
  next
    case False
    then have "row_cut start parts scan b = length scan" by (simp add: row_cut_def len)
    then show ?thesis using R [of a] ab False by (cases "a < unat (mcuv jf)") (auto simp: partition_ok_def row_cut_def len)
  qed
qed

section \<open>The segments\<close>

lemma segment_handoffs_nth:
  "segment_handoffs s e parts = Ok hs \<Longrightarrow> length hs = length parts \<and> (\<forall>j < length parts.
    overhang_byte (hs ! j) = overhang_byte (snd (parts ! j)) \<and> num_overhang_bits (hs ! j) = num_overhang_bits (snd (parts ! j))
    \<and> luma_y_start (hs ! j) = luma_y_start (snd (parts ! j)) \<and> luma_y_end (hs ! j) = luma_y_end (snd (parts ! j))
    \<and> last_dc (hs ! j) = last_dc (snd (parts ! j)) \<and> segment_offset_in_file (hs ! j) = ucast (fst (parts ! j) - s)
    \<and> segment_size (hs ! j) = ucast ((if Suc j < length parts then fst (parts ! Suc j) else e) - fst (parts ! j)))"
proof (induction parts arbitrary: hs)
  case (Cons part parts)
  obtain p r where part: "part = (p, r)" by (cases part)
  define h where "h = \<lparr>overhang_byte = overhang_byte r, num_overhang_bits = num_overhang_bits r,
      luma_y_start = luma_y_start r, luma_y_end = luma_y_end r, last_dc = last_dc r, segment_offset_in_file = ucast (p - s) :: u32,
      segment_size = ucast ((case parts of [] \<Rightarrow> e | (q, _) # _ \<Rightarrow> q) - p) :: u32\<rparr>"
  from Cons.prems obtain hs' where hs: "hs = h # hs'" "segment_handoffs s e parts = Ok hs'"
    by (auto simp: part u32_of_u64_def Let_def h_def split: if_splits)
  have h: "overhang_byte h = overhang_byte r" "num_overhang_bits h = num_overhang_bits r" "luma_y_start h = luma_y_start r"
      "luma_y_end h = luma_y_end r" "last_dc h = last_dc r" "segment_offset_in_file h = ucast (p - s)"
      "segment_size h = ucast ((case parts of [] \<Rightarrow> e | (q, _) # _ \<Rightarrow> q) - p)"
    by (simp_all add: h_def)
  note IH = Cons.IH [OF hs(2)]
  have n: "(case parts of [] \<Rightarrow> e | (q, _) # _ \<Rightarrow> q) = (if parts = [] then e else fst (parts ! 0))" by (cases parts) auto
  show ?case using IH h by (auto simp: hs(1) part n nth_Cons split: nat.splits)
qed simp

lemma ucast_of_nat_u32: "ucast (of_nat n :: u64) = (of_nat n :: u32)"
  by (simp add: word_unat_eq_iff unat_ucast unat_of_nat mod_mod_cancel)

text \<open>The rows from \<open>a\<close> up to \<open>b\<close> as one segment.\<close>

definition segment_of ::
  "JpegHeader \<Rightarrow> (u64 \<times> RestartSegmentCodingInfo) list \<Rightarrow> u64 \<Rightarrow> bytes \<Rightarrow> nat \<Rightarrow> nat \<Rightarrow> ThreadHandoff \<Rightarrow> bool"
where
  "segment_of jf parts start scan a b th \<longleftrightarrow> a < b \<and> b \<le> unat (mcuv jf) \<and>
    (let r = snd (parts ! a) in overhang_byte th = overhang_byte r \<and> num_overhang_bits th = num_overhang_bits r \<and> last_dc th = last_dc r) \<and>
    luma_y_start th = luma_multiple jf * of_nat a \<and> luma_y_end th = luma_multiple jf * of_nat b \<and>
    unat (segment_size th) = row_cut start parts scan b - row_cut start parts scan a"

lemma combined_segment:
  assumes parts: "baseline_parts features base file images parts jf rinfo scan rest" and three: "cmpc jf \<le> 3"
    and size: "length scan < 2 ^ 32" and start: "start = base + of_nat (2 + length (raw_jpeg_header rinfo))"
    and hs: "segment_handoffs base (start + of_nat (length scan)) parts = Ok hs" and ab: "a \<le> b" "b < unat (mcuv jf)"
  shows "segment_of jf parts start scan a (Suc b) (combine_thread_ranges (hs ! a) (hs ! b))"
proof -
  let ?cut = "row_cut start parts scan" and ?d = "2 + length (raw_jpeg_header rinfo)"
  have size': "length scan < 2 ^ 64" using size by simp
  have len: "length parts = unat (mcuv jf)" using parts by (simp add: baseline_parts_def)
  note R = partition_reached [OF parts three size' start] and M = row_amount_mono [OF parts three size' start]
  note N = segment_handoffs_nth [OF hs, THEN conjunct2, rule_format, unfolded len]
  have a: "a < unat (mcuv jf)" using ab by simp
  have off: "segment_offset_in_file (hs ! j) = of_nat (?d + ?cut j)" if "j < unat (mcuv jf)" for j
  proof -
    have "fst (parts ! j) - base = of_nat (?d + ?cut j)" using R(2) [OF that] start by simp
    then show ?thesis using N [OF that] ucast_of_nat_u32 [of "?d + ?cut j"] by simp
  qed
  have next_at: "(if Suc b < unat (mcuv jf) then fst (parts ! Suc b) else start + of_nat (length scan)) = start + of_nat (?cut (Suc b))"
    using R(2) [of "Suc b"] by (simp add: row_cut_def len)
  have le: "?cut a \<le> ?cut b" "?cut b \<le> ?cut (Suc b)" "?cut (Suc b) \<le> length scan"
    using M(1) [of a b] M(1) [of b "Suc b"] M(2) [of "Suc b" "Suc b"] ab by simp_all
  have "(start + of_nat (?cut (Suc b))) - fst (parts ! b) = of_nat (?cut (Suc b) - ?cut b)"
    using R(2) [OF ab(2)] le(2) by (simp add: of_nat_diff)
  then have sz: "segment_size (hs ! b) = of_nat (?cut (Suc b) - ?cut b)"
    using N [OF ab(2)] ucast_of_nat_u32 [of "?cut (Suc b) - ?cut b"] by (simp add: next_at)
  have "segment_offset_in_file (hs ! b) - segment_offset_in_file (hs ! a) + segment_size (hs ! b) = of_nat (?cut (Suc b) - ?cut a)"
    using le unfolding off [OF a] off [OF ab(2)] sz by (simp add: of_nat_diff)
  moreover have "unat (of_nat (?cut (Suc b) - ?cut a) :: u32) = ?cut (Suc b) - ?cut a"
    by (rule unat_of_nat_u32) (use le size in simp)
  ultimately have "unat (segment_size (combine_thread_ranges (hs ! a) (hs ! b))) = ?cut (Suc b) - ?cut a"
    by (simp only: combine_thread_ranges_def get_combine_thread_range_segment_size_def ThreadHandoff.simps of_nat_unat ucast_id)
  then show ?thesis
    unfolding segment_of_def using ab N [OF a] N [OF ab(2)] R(1) [OF a] R(1) [OF ab(2)]
    by (simp add: combine_thread_ranges_def partition_ok_def Let_def)
qed

end
