(* ===== verification/Segment_Decode.thy ===== *)
theory Segment_Decode
  imports Segment_Threads Header_Roundtrip
begin

unbundle bit_operations_syntax

text \<open>
  A segment that a thread has encoded, decoded by another: the rows of a baseline file are a segment the coder of the rows
  restores, and the thread of the decoder writes the part of the scan that the segment is (\<open>segment_decoded\<close>).
\<close>

section \<open>The rows of a baseline file\<close>

lemma quantization_tables_of_ok:
  "quantization_tables_of jf ks = Ok qts \<Longrightarrow> length qts = length ks \<and> (\<forall>q \<in> set qts. tables_ok q)"
  by (induction ks arbitrary: qts) (auto simp: QuantizationTables_new_def tables_ok_new)

lemma component_numbers:
  assumes ok: "header_ok a jf" and i: "i < cmpc jf"
  defines "ci \<equiv> cmp_info jf ! i"
  shows "unat (bcv ci) = unat (sfh ci) * unat (mcuv jf)" "unat (bch ci) = unat (mcuh jf) * unat (sfv ci)"
    "unat (bc ci) = unat (bcv ci) * unat (bch ci)" "0 < unat (sfh ci)" "unat (sfh ci) \<le> 2" "unat (bch ci) \<le> 16384" "unat (bcv ci) \<le> 16384"
    "unat (bcv ci div mcuv jf) = unat (sfh ci)"
proof -
  have g: "component_ok jf ci" "sfh ci \<le> 2" "sfv ci \<le> 2" "mcuv jf \<le> 8192" "mcuh jf \<le> 8192" "0 < mcuv jf"
    using ok i by (auto simp: header_ok_def header_inv_def frame_ok_def geometry_ok_def ci_def)
  then have n: "unat (sfh ci) \<le> 2" "unat (sfv ci) \<le> 2" "unat (mcuv jf) \<le> 8192" "unat (mcuh jf) \<le> 8192" "0 < unat (mcuv jf)"
    by (simp_all add: word_le_nat_alt word_less_nat_alt)
  show e: "unat (bcv ci) = unat (sfh ci) * unat (mcuv jf)" "unat (bch ci) = unat (mcuh jf) * unat (sfv ci)"
    "unat (bc ci) = unat (bcv ci) * unat (bch ci)" "0 < unat (sfh ci)" "unat (sfh ci) \<le> 2"
    using g(1) n by (simp_all add: component_ok_def word_less_nat_alt)
  show "unat (bch ci) \<le> 16384" unfolding e using mult_le_mono [OF n(4) n(2)] by simp
  show "unat (bcv ci) \<le> 16384" unfolding e using mult_le_mono [OF n(1) n(3)] by simp
  show "unat (bcv ci div mcuv jf) = unat (sfh ci)" using n(5) by (simp add: unat_div e(1))
qed

lemma baseline_segment:
  assumes parts: "baseline_parts features base file images parts jf rinfo scan rest" and three: "cmpc jf \<le> 3"
    and qts: "construct_quantization_tables jf = Ok qts"
    and rows: "r0 \<le> r1" "r1 \<le> unat (mcuv jf)" "whole \<Longrightarrow> r1 = unat (mcuv jf)"
  shows "segment_ok images qts (truncate_components rinfo) (unat (mcuv jf)) r0 r1
      (luma_multiple jf * of_nat r0) (luma_multiple jf * of_nat r1) whole"
    "same_layout images (cmp_info jf)" "length images = cmpc jf"
    "i < cmpc jf \<Longrightarrow> mcu_rows images (mcu_count_vertical (truncate_components rinfo)) i = unat (sfh (cmp_info jf ! i))"
proof -
  let ?t = "truncate_components rinfo" and ?m = "\<lambda>i. unat (sfh (cmp_info jf ! i))"
  note P = parts [unfolded baseline_parts_def]
  have ok: "header_ok False jf" and whole: "whole_images jf images" and fit: "fitted_images jf images"
    and init: "TruncateComponents_init (mcuh jf) (mcuv jf) (cmp_info jf) (cmpc jf) TruncateComponents_default = Ok ?t"
    using P by blast+
  note C = component_numbers [OF ok] and L = luma_multiple [OF ok]
  show n: "length images = cmpc jf" using whole by (simp add: whole_images_def)
  have im: "dpos_offset (images ! i) = 0" "original_height (images ! i) = bcv (cmp_info jf ! i)" "block_width (images ! i) = bch (cmp_info jf ! i)"
    "image_ok (images ! i)" if "i < cmpc jf" for i
    using whole fit that n by (simp_all add: whole_images_def fitted_images_def)
  have info: "length (cmp_info jf) = 4" "cmpc jf \<le> 4" using ok by (simp_all add: header_ok_def header_inv_def header_shape_def frame_ok_def)
  show "same_layout images (cmp_info jf)" using im n info by (simp add: same_layout_def)
  have t: "mcu_count_vertical ?t = mcuv jf" "components_count ?t = cmpc jf"
    "trunc_info ?t = map (\<lambda>ci. \<lparr>trunc_bcv = bcv ci, trunc_bc = bc ci\<rparr>) (take (cmpc jf) (cmp_info jf))"
  proof -
    have "?t = \<lparr>trunc_info = map (\<lambda>ci. \<lparr>trunc_bcv = bcv ci, trunc_bc = bc ci\<rparr>) (take (cmpc jf) (cmp_info jf)),
        components_count = cmpc jf, mcu_count_horizontal = mcuh jf, mcu_count_vertical = mcuv jf\<rparr>"
      using init by (auto simp: TruncateComponents_init_def TruncateComponents_default_def split: if_splits)
    then show "mcu_count_vertical ?t = mcuv jf" "components_count ?t = cmpc jf"
      "trunc_info ?t = map (\<lambda>ci. \<lparr>trunc_bcv = bcv ci, trunc_bc = bc ci\<rparr>) (take (cmpc jf) (cmp_info jf))" by simp_all
  qed
  show mult: "mcu_rows images (mcu_count_vertical ?t) i = ?m i" if "i < cmpc jf" for i
    using im(2) [OF that] C(8) [OF that] by (simp add: mcu_rows_def t(1))
  have q: "length qts = cmpc jf" "\<And>i. i < cmpc jf \<Longrightarrow> tables_ok (qts ! i)"
    using quantization_tables_of_ok [OF qts [unfolded construct_quantization_tables_def]] by auto
  have v: "0 < unat (mcuv jf)" "unat (mcuv jf) \<le> 8192"
    using ok by (simp_all add: header_ok_def geometry_ok_def word_less_nat_alt word_le_nat_alt)
  have sum: "(\<Sum>i<cmpc jf. ?m i) \<le> 6" using sum_bounded_above [of "{..<cmpc jf}" ?m 2] C(5) three by fastforce
  have m0: "unat (luma_multiple jf) = ?m 0" by (rule L(1))
  have y: "unat (luma_multiple jf * of_nat r) = r * ?m 0" if "r \<le> unat (mcuv jf)" for r
  proof -
    have r: "r * ?m 0 \<le> 8192 * 2" using that v(2) L(3) m0 by (intro mult_le_mono) simp_all
    have "unat (of_nat r :: u32) = r" using that v(2) by (simp add: unat_of_nat)
    then show ?thesis using r by (simp add: unat_word_ariths m0 mult.commute)
  qed
  have fits: "component_fits (images ! i) (qts ! i) (trunc_info ?t ! i) (mcuv jf) (?m i) (unat (mcuv jf)) r0" if i: "i < cmpc jf" for i
  proof -
    have info_i: "trunc_info ?t ! i = \<lparr>trunc_bcv = bcv (cmp_info jf ! i), trunc_bc = bc (cmp_info jf ! i)\<rparr>" using i info by (simp add: t(3))
    have "unat (bch (cmp_info jf ! i)) * unat (bcv (cmp_info jf ! i)) \<le> 16384 * 16384" using C(6,7) [OF i] by (rule mult_le_mono)
    then show ?thesis using im [OF i] C(1,3,6) [OF i] q(2) [OF i] unfolding component_fits_def info_i by (simp add: mult.commute)
  qed
  have sums: "(\<Sum>i<cmpc jf. mcu_rows images (mcuv jf) i) = (\<Sum>i<cmpc jf. ?m i)" using mult t(1) by simp
  have "(unat (mcuv jf) + 3) * (\<Sum>i<cmpc jf. ?m i) \<le> 8195 * 6" using v(2) sum by (intro mult_le_mono) simp_all
  then have bound: "(unat (mcuv jf) + 3) * (\<Sum>i<cmpc jf. ?m i) < 2 ^ 32" by simp
  show "segment_ok images qts ?t (unat (mcuv jf)) r0 r1 (luma_multiple jf * of_nat r0) (luma_multiple jf * of_nat r1) whole"
    unfolding segment_ok_def Let_def n t(1,2) sums
    using L(4) three info q(1) v bound rows y [of r0] y [of r1] mult [of 0] C(4) [of 0] fits mult by (auto simp: t)
qed

section \<open>More fuel\<close>

lemma encode_rows_more:
  "encode_rows n S qts images v sizes heights min_y max_y whole features i s w = Some r \<Longrightarrow> n \<le> n' \<Longrightarrow>
    encode_rows n' S qts images v sizes heights min_y max_y whole features i s w = Some r"
proof (induction n arbitrary: n' i s w)
  case (Suc n)
  then obtain m where m: "n' = Suc m" "n \<le> m" by (cases n') auto
  from Suc show ?case by (auto simp: m bindF_def Let_def split: sum.splits option.splits if_splits)
qed simp

lemma encode_range_more:
  assumes "lepton_encode_row_range n S qts images coll min_y max_y is_last full features = Some (Ok c)" "n \<le> n'"
  shows "lepton_encode_row_range n' S qts images coll min_y max_y is_last full features = Some (Ok c)"
proof -
  from assms(1) obtain w sizes heights where h: "VPXBoolWriter_new = Ok w" "get_component_sizes_in_blocks coll = Ok sizes"
    "get_max_coded_heights coll = Ok heights" by (auto simp: lepton_encode_row_range_def bindF_eq_Inr Let_def)
  then obtain r where "encode_rows n S qts images (mcu_count_vertical coll) sizes heights min_y max_y (is_last \<and> full)
      features 0 (initial_row_state images) w = Some r"
    using assms(1) by (auto simp: lepton_encode_row_range_def bindF_eq_Inr Let_def h)
  from encode_rows_more [OF this assms(2)] this show ?thesis
    using assms(1) unfolding lepton_encode_row_range_def Let_def h by simp
qed

section \<open>The thread of a segment\<close>

text \<open>The information that is read back is that of the file as far as the scan goes.\<close>

definition restores_info :: "ReconstructionInfo \<Rightarrow> ReconstructionInfo \<Rightarrow> bool" where
  "restores_info rinfo rinfo' \<longleftrightarrow> truncate_components rinfo' = truncate_components rinfo \<and> fill_byte rinfo' = fill_byte rinfo \<and> all_markers rinfo'"

lemma segment_written:
  assumes V: "simd16_laws V" and parts: "baseline_parts features base file images parts jf rinfo scan rest"
    and reg: "regular_scan jf" and three: "cmpc jf \<le> 3" and size: "length scan < 2 ^ 32" and start: "start = base + of_nat (2 + length (raw_jpeg_header rinfo))"
    and th: "segment_of jf parts start scan a b th" and info: "restores_info rinfo rinfo'"
    and qts: "construct_quantization_tables jf = Ok qts" and mult: "mult = mcu_rows images (mcu_count_vertical (truncate_components rinfo))"
    and ri: "overhang_byte ri = overhang_byte th" "num_overhang_bits ri = num_overhang_bits th" "last_dc ri = last_dc th"
  shows "\<exists>n0 iw k sent. (\<forall>n \<ge> n0. run_callbacks (baseline_row n V) images mult a caps [a..<b]
      (Some (JpegIncrementalWriter_new room alloc rinfo' (Some ri) jf 0, unat (segment_size th), [])) = Ok (Some (iw, k, sent)))
    \<and> (\<exists>vs. sent @ [Result (take k (fst (inc_detach_buffer iw)))] = map Result vs
      \<and> concat vs = drop (row_cut start parts scan a) (take (row_cut start parts scan b) scan))"
proof -
  let ?cut = "row_cut start parts scan" and ?w = "unat (mcuh jf)"
  note T = th [unfolded segment_of_def Let_def]
  have ab: "a < b" "b \<le> unat (mcuv jf)" "a < unat (mcuv jf)" using T by simp_all
  have ok: "header_ok False jf" and tbl: "scan_tables_ok jf" and whole: "whole_images jf images" and fit: "fitted_images jf images"
    and code: "scan_code jf (fill_byte rinfo') images (0, 0, 0) (replicate 4 0) [] scan" and len: "length parts = unat (mcuv jf)"
    using parts info by (simp_all add: baseline_parts_def restores_info_def)
  have w: "0 < ?w" using ok by (simp add: header_ok_def geometry_ok_def word_less_nat_alt)
  have size': "length scan < 2 ^ 64" using size by simp
  have fb: "fill_byte rinfo = fill_byte rinfo'" and mk: "all_markers rinfo'" using info by (simp_all add: restores_info_def)
  note reached = partition_reached(1) [OF parts three size' start]
  note mono = row_amount_mono [OF parts three size' start]
  let ?r = "snd (parts ! a)"
  from reached [OF ab(3), unfolded partition_ok_def] obtain fr where
    A: "row_reached jf (fill_byte rinfo') images scan a (last_dc ?r) fr (take (?cut a) scan)" "pending_in (overhang_byte ?r) fr"
      "length fr < 8" "num_overhang_bits ?r = of_nat (length fr)" "length (last_dc ?r) = 4" "?cut a \<le> length scan"
    unfolding fb by blast
  obtain dcb frb where B: "row_reached jf (fill_byte rinfo') images scan b dcb frb (take (?cut b) scan)"
  proof (cases "b < unat (mcuv jf)")
    case True
    then show ?thesis using that reached [OF True, unfolded partition_ok_def] unfolding fb by blast
  next
    case False
    then have "b = unat (mcuv jf)" "?cut b = length scan" using ab by (simp_all add: row_cut_def len)
    then show ?thesis using that row_reached_end by force
  qed
  from row_reached_code(1) [OF A(1) ab(3) code] obtain tl where
    tl: "scan = take (?cut a) scan @ tl" "scan_code jf (fill_byte rinfo') images (a * ?w, 0, 0) (last_dc ri) fr tl"
    using T ri by auto
  have S: "segment_at jf rinfo' images (a * ?w, 0, 0) (last_dc ri) fr tl (unat (segment_size th)) a
      (JpegIncrementalWriter_new room alloc rinfo' (Some ri) jf 0, unat (segment_size th), [])"
    by (rule segment_starts) (use A T ri ab in simp_all)
  note seg = baseline_segment [OF parts three qts order_less_imp_le [OF ab(1)] ab(2), of False]
  have m: "mult i = unat (sfh (cmp_info jf ! i))" if "i < cmpc jf" for i using seg(4) [OF _ that] by (simp add: mult)
  have m0: "0 < mult 0" using m component_numbers(4) [OF ok] luma_multiple(4) [OF ok] by simp
  have M: "0 < (\<Sum>j<length images. mult j)"
    using m0 member_le_sum [of 0 "{..<length images}" mult] seg(3) luma_multiple(4) [OF ok] by auto
  have seen: "shows_row jf images r (segment_images images mult a caps (Suc r * (\<Sum>j<length images. mult j)))" if "a \<le> r" "r < b" for r
    using shows_segment_row [OF ok whole _ _ that(1) M] fit m seg(3) by (simp add: fitted_images_def)
  have d: "a + (b - a) = b" using ab(1) by simp
  from simd16_laws.callbacks_write [OF V ok reg tbl whole mk tl(2) m0 ab(2) seen d order_refl S] obtain n0 st' where
    run: "\<forall>n \<ge> n0. run_callbacks (baseline_row n V) images mult a caps [a..<b]
      (Some (JpegIncrementalWriter_new room alloc rinfo' (Some ri) jf 0, unat (segment_size th), [])) = Ok (Some st')"
    and at: "segment_at jf rinfo' images (a * ?w, 0, 0) (last_dc ri) fr tl (unat (segment_size th)) b st'" by blast
  obtain iw k sent where st': "st' = (iw, k, sent)" by (cases st')
  from at obtain full where F: "writer_at jf rinfo' images (a * ?w, 0, 0) (last_dc ri) fr tl b full iw"
    "segment_sent (unat (segment_size th)) full (iw, k, sent)" by (auto simp: segment_at_def st')
  have dc: "last_dc ?r = last_dc ri" using T ri by simp
  from segment_bytes [OF A(1) ab(3) B _ F(1) [folded dc] tl(1) w] ab(1) have
    bytes: "take (?cut b) scan = take (?cut a) scan @ full @ fst (inc_detach_buffer iw)" by simp
  have out: "full @ fst (inc_detach_buffer iw) = drop (?cut a) (take (?cut b) scan)"
    using arg_cong [OF bytes, of "drop (?cut a)"] A(6) by simp
  have "length (full @ fst (inc_detach_buffer iw)) = unat (segment_size th)"
    using mono(2) [of b b] ab T by (simp add: out)
  then have all: "take (unat (segment_size th)) (full @ fst (inc_detach_buffer iw)) = full @ fst (inc_detach_buffer iw)" by simp
  from send_buffer_sent(1) [OF F(2)] obtain vs where "sent @ [Result (take k (fst (inc_detach_buffer iw)))] = map Result vs"
    "concat vs = full @ fst (inc_detach_buffer iw)"
    unfolding segment_sent_def send_buffer_def all by (auto simp: Let_def split: prod.splits)
  then show ?thesis using run unfolding st' out by blast
qed

text \<open>What the reader of a Lepton file knows of a segment.\<close>

definition restores_segment :: "ThreadHandoff \<Rightarrow> ThreadHandoff \<Rightarrow> bool" where
  "restores_segment th th' \<longleftrightarrow> overhang_byte th' = overhang_byte th \<and> num_overhang_bits th' = num_overhang_bits th \<and> last_dc th' = last_dc th
    \<and> luma_y_start th' = luma_y_start th \<and> luma_y_end th' = luma_y_end th \<and> segment_size th' = segment_size th"

lemma segment_decoded:
  assumes S: "simd_laws (pf_simd P)" and V: "simd16_laws (pf_simd16 P)" and alloc: "\<forall>k. pf_alloc P k"
    and parts: "baseline_parts features base file images parts jf rinfo scan rest"
    and reg: "regular_scan jf" and three: "cmpc jf \<le> 3" and size: "length scan < 2 ^ 32" and start: "start = base + of_nat (2 + length (raw_jpeg_header rinfo))"
    and th: "segment_of jf parts start scan a b th" "restores_segment th th'" and info: "restores_info rinfo rinfo'"
    and qts: "construct_quantization_tables jf = Ok qts" and last: "is_last \<Longrightarrow> b = unat (mcuv jf)"
    and enc: "lepton_encode_row_range n (pf_simd P) qts images (truncate_components rinfo) (luma_y_start th) (luma_y_end th) is_last True features'
      = Some (Ok c)"
  shows "\<exists>n0 vs. (\<forall>n \<ge> n0. baseline_decoding_thread n P c features' qts th' jf rinfo' is_last = Some (Ok (), map Result vs @ [Complete]))
    \<and> concat vs = drop (row_cut start parts scan a) (take (row_cut start parts scan b) scan)"
proof -
  let ?t = "truncate_components rinfo"
  note T = th(1) [unfolded segment_of_def Let_def] and T' = th(2) [unfolded restores_segment_def]
  define mult where "mult = mcu_rows images (mcu_count_vertical ?t)"
  define caps where "caps = segment_caps (pf_alloc P) (cmp_info jf) (luma_y_start th) (if is_last then bcv (cmp_info jf ! 0) else luma_y_end th)"
  define ri where "ri = \<lparr>overhang_byte = overhang_byte th', num_overhang_bits = num_overhang_bits th',
    luma_y_start = luma_y_start th', luma_y_end = luma_y_end th', last_dc = last_dc th'\<rparr>"
  have ri: "overhang_byte ri = overhang_byte th" "num_overhang_bits ri = num_overhang_bits th" "last_dc ri = last_dc th"
    using T' by (simp_all add: ri_def)
  have t: "truncate_components rinfo' = ?t" using info by (simp add: restores_info_def)
  have ab: "a \<le> b" "b \<le> unat (mcuv jf)" using T by simp_all
  note B = baseline_segment [OF parts three qts ab last, of "is_last"]
  have seg: "segment_ok images qts ?t (unat (mcuv jf)) a b (luma_y_start th) (luma_y_end th) (is_last \<and> True)"
    using B(1) T by simp
  from segment_written [OF V parts reg three size start th(1) info qts mult_def ri, where caps = caps and room = BUFFER_SIZE and alloc = "pf_grow P"]
  obtain n0 iw k sent vs where
    W: "\<And>n. n0 \<le> n \<Longrightarrow> run_callbacks (baseline_row n (pf_simd16 P)) images mult a caps [a..<b]
      (Some (JpegIncrementalWriter_new BUFFER_SIZE (pf_grow P) rinfo' (Some ri) jf 0, unat (segment_size th), [])) = Ok (Some (iw, k, sent))"
    "sent @ [Result (take k (fst (inc_detach_buffer iw)))] = map Result vs"
    "concat vs = drop (row_cut start parts scan a) (take (row_cut start parts scan b) scan)" by blast
  have "baseline_decoding_thread m P c features' qts th' jf rinfo' is_last = Some (Ok (), map Result vs @ [Complete])" if "n0 + n \<le> m" for m
  proof -
    have "lepton_encode_row_range m (pf_simd P) qts images ?t (luma_y_start th) (luma_y_end th) is_last True features' = Some (Ok c)"
      by (rule encode_range_more [OF enc]) (use that in simp)
    from simd_laws.range_decodes [OF S seg B(2) alloc mult_def caps_def W(1) this] that
    have "lepton_decode_row_range m (pf_simd P) (pf_alloc P) qts (cmp_info jf) (length images) ?t c (luma_y_start th) (luma_y_end th) is_last True features'
      (baseline_row m (pf_simd16 P)) (Some (JpegIncrementalWriter_new BUFFER_SIZE (pf_grow P) rinfo' (Some ri) jf 0, unat (segment_size th), []))
      = Some (Ok (segment_images images mult a caps (b * (\<Sum>j<length images. mult j)), Some (iw, k, sent)))" by simp
    moreover have "sent @ [Result (take k (fst (inc_detach_buffer iw))), Complete] = map Result vs @ [Complete]" using W(2) by simp
    ultimately show ?thesis
      using T' unfolding baseline_decoding_thread_def Let_def ri_def [symmetric] t by (simp add: B(3))
  qed
  then show ?thesis using W(3) by blast
qed

end
