(* ===== verification/File_Lossless.thy ===== *)
theory File_Lossless
  imports Segment_Decode Reader_Runs
begin

unbundle bit_operations_syntax

text \<open>
  A whole file: what \<open>encode_lepton\<close> makes of a baseline file, with any number of threads, \<open>decode_lepton\<close> turns into the
  file again, in any pieces and any order in which the results of the threads arrive (\<open>file_restored\<close>).
\<close>

section \<open>The segments of the threads\<close>

text \<open>The rows at which the segments start, and the row behind the last one.\<close>

definition splits_at :: "(nat \<Rightarrow> nat) \<Rightarrow> nat \<Rightarrow> nat \<Rightarrow> bool" where
  "splits_at f n rows \<longleftrightarrow> 0 < n \<and> n \<le> 16 \<and> f 0 = 0 \<and> f n = rows \<and> (\<forall>i < n. f i < f (Suc i))"

lemma splits_at_less: "splits_at f n rows \<Longrightarrow> i < n \<Longrightarrow> f i < f (Suc i) \<and> f (Suc i) \<le> rows"
proof -
  assume s: "splits_at f n rows" and i: "i < n"
  have "f (Suc i) \<le> f n"
  proof (rule dec_induct [of "Suc i" n])
    fix j assume "Suc i \<le> j" "j < n" "f (Suc i) \<le> f j"
    moreover have "f j < f (Suc j)" using s \<open>j < n\<close> by (simp add: splits_at_def)
    ultimately show "f (Suc i) \<le> f (Suc j)" by simp
  qed (use i in simp_all)
  then show ?thesis using s i by (simp add: splits_at_def)
qed

lemma segments_of_rows:
  assumes run: "split_row_handoffs_to_threads hs m = Ok hs'" and n: "length hs < 2 ^ 16"
  shows "\<exists>f n. splits_at f n (length hs) \<and> hs' = map (\<lambda>i. combine_thread_ranges (hs ! f i) (hs ! (f (Suc i) - 1))) [0..<n]"
proof -
  let ?n = "length hs"
  have ne: "hs \<noteq> []" using run by (auto simp: split_row_handoffs_to_threads_def)
  define t where "t = get_number_of_threads_for_encoding ?n (get_combine_thread_range_segment_size (hs ! 0) (hs ! (?n - 1))) m"
  have t: "t = 1 \<or> (t \<noteq> 0 \<and> t \<noteq> 1 \<and> select_splits hs t [0..<t] = Ok hs')" "t = 1 \<longrightarrow> hs' = [combine_thread_ranges (hs ! 0) (hs ! (?n - 1))]"
    using run ne unfolding split_row_handoffs_to_threads_def Let_def t_def [symmetric] by (auto simp: bindR_eq_Inr split: if_splits)
  show ?thesis
  proof (cases "t = 1")
    case True
    then show ?thesis using t(2) ne by (intro exI [of _ "\<lambda>i. if i = 0 then 0 else ?n"] exI [of _ 1]) (simp add: splits_at_def)
  next
    case False
    have "m \<noteq> 0"
    proof
      assume "m = 0"
      then have "t = 0 \<or> t = 1" by (simp add: t_def get_number_of_threads_for_encoding_def Let_def)
      then show False using t(1) False by simp
    qed
    with number_of_threads [of m t ?n] t_def False have g: "2 \<le> t" "t \<le> 16" "2 * t \<le> ?n" by auto
    note F = split_range_facts [OF g(1,2) n g(3)]
    define f where "f = (\<lambda>i. if i < t then fst (split_range ?n t i) else ?n)"
    have step: "f (Suc i) = snd (split_range ?n t i) + 1" "f i = fst (split_range ?n t i)" if "i < t" for i
    proof -
      show "f i = fst (split_range ?n t i)" using that by (simp add: f_def)
      show "f (Suc i) = snd (split_range ?n t i) + 1"
      proof (cases "Suc i < t")
        case True
        then show ?thesis using F(3) [of i] by (simp add: f_def)
      next
        case False
        then have "i = t - 1" using that by simp
        then show ?thesis using F(5) [of 0] g ne False by (simp add: f_def)
      qed
    qed
    have "splits_at f t ?n" using g step F(1) F(4) [of 0] by (auto simp: splits_at_def f_def less_Suc_eq_le)
    moreover have "select_splits hs t [0..<t] = Ok (map (\<lambda>i. combine_thread_ranges (hs ! fst (split_range ?n t i)) (hs ! snd (split_range ?n t i))) [0..<t])"
      by (rule select_splits_ok) (use F(1,2) in simp)
    then have "hs' = map (\<lambda>i. combine_thread_ranges (hs ! fst (split_range ?n t i)) (hs ! snd (split_range ?n t i))) [0..<t]"
      using t(1) False by simp
    then have "hs' = map (\<lambda>i. combine_thread_ranges (hs ! f i) (hs ! (f (Suc i) - 1))) [0..<t]" using step by simp
    ultimately show ?thesis by blast
  qed
qed

text \<open>The parts of the scan that the segments are.\<close>

lemma concat_cuts:
  assumes "\<And>i. i < n \<Longrightarrow> c i \<le> c (Suc i)"
  shows "concat (map (\<lambda>i. drop (c i) (take (c (Suc i)) xs)) [0..<n]) = drop (c 0) (take (c n) xs)"
  using assms
proof (induction n)
  case (Suc n)
  have le: "c 0 \<le> c n"
    by (rule dec_induct [of 0 n]) (use Suc.prems in \<open>auto intro: order_trans\<close>)
  have "drop (c 0) (take (c (Suc n)) xs) = drop (c 0) (take (c n) xs) @ drop (c n) (take (c (Suc n)) xs)"
  proof -
    have "take (c (Suc n)) xs = take (c n) xs @ drop (c n) (take (c (Suc n)) xs)"
      using Suc.prems [of n] append_take_drop_id [of "c n" "take (c (Suc n)) xs"] by (simp add: min_absorb1)
    moreover have "c 0 - length (take (c n) xs) = 0 \<or> drop (c n) (take (c (Suc n)) xs) = []" using le by (cases "c n \<le> length xs") auto
    ultimately show ?thesis by (metis append_Nil2 drop0 drop_append drop_Nil)
  qed
  then show ?case using Suc by simp
qed simp

section \<open>The encoder\<close>

lemma receive_results_all:
  assumes "receive_results rs = Ok vs"
  shows "list_all (\<lambda>r. \<exists>v. r = Inr v) rs"
proof -
  have "receive_loop rs acc e = Ok vs \<Longrightarrow> e = None \<and> list_all (\<lambda>r. \<exists>v. r = Inr v) rs" for acc e
    by (induction rs acc e rule: receive_loop.induct) (auto split: option.splits)
  then show ?thesis using assms by (auto simp: receive_results_def)
qed

lemma multiplex_write_runs:
  assumes "multiplex_write n workers pool processor = Ok (rs, out)" "0 < n"
  shows "work_is_done workers pool" "i < n \<Longrightarrow> \<exists>r. fst (run_processor processor i) = Ok r"
proof -
  define runs where "runs = (if work_is_done workers pool then map (run_processor processor) [0..<n]
    else replicate n (err_exit_code ChannelFailure, []))"
  have all: "list_all (\<lambda>r. \<exists>v. r = Inr v) (map fst runs)"
    using assms(1) receive_results_all by (auto simp: multiplex_write_def runs_def [symmetric] Let_def)
  show busy: "work_is_done workers pool"
  proof (rule ccontr)
    assume "\<not> work_is_done workers pool"
    then show False using all assms(2) by (simp add: runs_def list_all_iff)
  qed
  show "\<exists>r. fst (run_processor processor i) = Ok r" if "i < n"
    using all busy that by (auto simp: runs_def list_all_iff)
qed

text \<open>What each thread of the encoder writes, and that the file has it for the threads of the decoder.\<close>

definition segment_code ::
  "nat \<Rightarrow> Platform \<Rightarrow> QuantizationTables list \<Rightarrow> BlockBasedImage list \<Rightarrow> TruncateComponents \<Rightarrow> ThreadHandoff list \<Rightarrow> EnabledFeatures
    \<Rightarrow> nat \<Rightarrow> bytes"
where
  "segment_code n P qts images coll hs features i =
    (case encoder_thread n P qts images coll hs features i of Some (Inr c) \<Rightarrow> c | _ \<Rightarrow> [])"

lemma encoder_threads:
  assumes run: "run_lepton_encoder_threads n P jf coll hs images features = Some (Ok out)" and ne: "hs \<noteq> []"
    and qts: "construct_quantization_tables jf = Ok qts"
  defines "code \<equiv> segment_code n P qts images coll hs features"
  shows "length hs \<le> 16" "work_is_done (unat (max_processor_threads features)) (pf_max_parallelism P)"
    "i < length hs \<Longrightarrow> encoder_thread n P qts images coll hs features i = Some (Ok (code i))"
    "demultiplex (multiplex_read (length hs) ws par (length rest) (outputs :: nat \<Rightarrow> 'v MultiplexReadResult list)) (out @ rest)
      = Ok ((multiplex_read (length hs) ws par (length rest) outputs)
          \<lparr>mrs_sent := map (\<lambda>i. map (WriteBlock i) (blocks_of_bytes (code i))) [0..<length hs]\<rparr>, rest)"
proof -
  let ?run = "encoder_thread n P qts images coll hs features"
  define proc where "proc = (\<lambda>thread_writer thread_id. case the (?run thread_id) of
      Inl e \<Rightarrow> (Inl e, thread_writer) | Inr c \<Rightarrow> (Ok (), mw_write c thread_writer))"
  from run obtain rs where
    16: "length hs \<le> MAX_THREADS_SUPPORTED_BY_LEPTON_FORMAT" and
    some: "\<And>i. i < length hs \<Longrightarrow> ?run i \<noteq> None" and
    mw: "multiplex_write (length hs) (unat (max_processor_threads features)) (pf_max_parallelism P) proc = Ok (rs, out)"
    unfolding run_lepton_encoder_threads_def proc_def
    by (auto simp: qts bindF_eq_Inr Let_def list_ex_iff split: if_splits)
  show len: "length hs \<le> 16" using 16 by (simp add: MAX_THREADS_SUPPORTED_BY_LEPTON_FORMAT_def)
  have pos: "0 < length hs" using ne by simp
  note W = multiplex_write_runs [OF mw pos]
  show "work_is_done (unat (max_processor_threads features)) (pf_max_parallelism P)" by (rule W(1))
  have ok: "?run i = Some (Ok (code i))" if "i < length hs" for i
  proof -
    from some [OF that] obtain r where r: "?run i = Some r" by blast
    have "\<exists>c. r = Inr c"
    proof (cases r)
      case (Inl e)
      then have "fst (run_processor proc i) = catch_unwind_result (Inl e)" by (simp add: run_processor_def proc_def r)
      then show ?thesis using W(2) [OF that] by (cases e) simp_all
    qed simp
    then show ?thesis using r by (auto simp: code_def segment_code_def)
  qed
  show "i < length hs \<Longrightarrow> ?run i = Some (Ok (code i))" by (rule ok)
  have parts: "writes_parts proc (length hs) (\<lambda>_. ()) (\<lambda>i. [code i])"
    using ok by (simp add: writes_parts_def proc_def)
  obtain out' where
    o: "multiplex_write (length hs) (unat (max_processor_threads features)) (pf_max_parallelism P) proc = Ok (map (\<lambda>_. ()) [0..<length hs], out')"
    and d: "\<And>ws par (outputs :: nat \<Rightarrow> 'v MultiplexReadResult list) rest. demultiplex (multiplex_read (length hs) ws par (length rest) outputs) (out' @ rest)
      = Ok ((multiplex_read (length hs) ws par (length rest) outputs)
          \<lparr>mrs_sent := map (\<lambda>i. map (WriteBlock i) (blocks_of_bytes (concat [code i]))) [0..<length hs]\<rparr>, rest)"
    by (rule multiplexed [OF parts pos len W(1), where 'v = 'v]) (rule that)
  have "out' = out" using mw o by simp
  then show "demultiplex (multiplex_read (length hs) ws par (length rest) outputs) (out @ rest)
      = Ok ((multiplex_read (length hs) ws par (length rest) outputs)
          \<lparr>mrs_sent := map (\<lambda>i. map (WriteBlock i) (blocks_of_bytes (code i))) [0..<length hs]\<rparr>, rest)"
    using d [of ws par rest outputs] by simp
qed

section \<open>What is read\<close>

text \<open>Segments that are the rows from one split to the next.\<close>

definition stored_segments ::
  "JpegHeader \<Rightarrow> (u64 \<times> RestartSegmentCodingInfo) list \<Rightarrow> u64 \<Rightarrow> bytes \<Rightarrow> (nat \<Rightarrow> nat) \<Rightarrow> ThreadHandoff list \<Rightarrow> bool"
where
  "stored_segments jf parts start scan f hs \<longleftrightarrow> splits_at f (length hs) (unat (mcuv jf))
    \<and> (\<forall>i < length hs. segment_of jf parts start scan (f i) (f (Suc i)) (hs ! i))"

lemma read_jpeg_parts:
  assumes run: "read_jpeg n k P B features (\<lambda>_ _ u. u) file i () = Some (Ok (lp, images))"
    and input: "unread i = file" "length file < 2 ^ 32" and features: "\<not> accept_invalid_dht features" "\<not> stop_reading_at_eoi features" and k: "81 < k"
    and reg: "regular_scan (lh_jpeg_header lp)" and short: "no_short_run_codes (lh_jpeg_header lp)"
    and eoi: "eoi_ahead (drop (2 + length (raw_jpeg_header (lh_rinfo lp))) file)"
  shows "\<exists>base parts scan start f. baseline_parts features base file images parts (lh_jpeg_header lp) (lh_rinfo lp) scan []
    \<and> start = base + of_nat (2 + length (raw_jpeg_header (lh_rinfo lp))) \<and> length scan < 2 ^ 32 \<and> cmpc (lh_jpeg_header lp) \<le> 3
    \<and> stored_segments (lh_jpeg_header lp) parts start scan f (lh_thread_handoff lp) \<and> length (lh_git_revision_prefix lp) = 4
    \<and> lh_jpeg_file_size lp = of_nat (length file) \<and> lh_jpeg_file_size lp \<le> max_jpeg_file_size features"
proof -
  let ?git = "get_git_revision B LeptonHeader_default"
  have git: "lh_jpeg_header ?git = JpegHeader_default" "lh_rinfo ?git = ReconstructionInfo_default" "length (lh_git_revision_prefix ?git) = 4"
    by (simp_all add: get_git_revision_def LeptonHeader_default_def Let_def split: option.splits)
  from run obtain parts end_scan jf rinfo i' hs merged where
    r: "read_jpeg_file n k (pf_alloc P) features (\<lambda>_ _ u. u) file JpegHeader_default ReconstructionInfo_default i ()
      = Some (Ok (images, parts, end_scan, jf, rinfo, (), i'))"
    and hs: "segment_handoffs (position i) end_scan parts = Ok hs" "split_row_handoffs_to_threads hs (unat (max_partitions features)) = Ok merged"
    and lp: "lp = ?git\<lparr>lh_jpeg_header := jf, lh_rinfo := rinfo, lh_thread_handoff := merged, lh_jpeg_file_size := ucast (position i' - position i)\<rparr>"
    and small: "\<not> max_jpeg_file_size features < lh_jpeg_file_size lp"
    by (auto simp: read_jpeg_def bindF_eq_Inr Let_def git split: if_splits)
  have l: "lh_jpeg_header lp = jf" "lh_rinfo lp = rinfo" "lh_thread_handoff lp = merged" "lh_git_revision_prefix lp = lh_git_revision_prefix ?git"
    "lh_jpeg_file_size lp = ucast (position i' - position i)"
    by (simp_all add: lp)
  from baseline_file_parts [OF r input(1) features(1) k reg [unfolded l] short [unfolded l] eoi [unfolded l]] features(2) obtain scan where
    parts: "baseline_parts features (position i) file images parts jf rinfo scan []"
    and ends: "end_scan = position i + of_nat (2 + length (raw_jpeg_header rinfo) + length scan)"
    and at: "position i' = position i + of_nat (length file)" by auto
  note P = parts [unfolded baseline_parts_def]
  define start where "start = position i + of_nat (2 + length (raw_jpeg_header rinfo))"
  have content: "file = [0xFF, SOI] @ raw_jpeg_header rinfo @ scan @ garbage_data rinfo @ []" using P by blast
  have scan: "length scan < 2 ^ 32" using input(2) unfolding content by simp
  have ok: "header_ok False jf" and three: "cmpc jf \<le> 3" and len: "length parts = unat (mcuv jf)" using P by (simp_all add: whole_scan_def)
  have "end_scan = start + of_nat (length scan)" by (simp add: ends start_def)
  then have hs1: "segment_handoffs (position i) (start + of_nat (length scan)) parts = Ok hs" using hs(1) by simp
  have "length hs = unat (mcuv jf)" using segment_handoffs_nth [OF hs1] len by simp
  moreover have "unat (mcuv jf) \<le> 8192" using ok by (simp add: header_ok_def geometry_ok_def word_le_nat_alt)
  ultimately have n: "length hs < 2 ^ 16" "length hs = unat (mcuv jf)" by simp_all
  from segments_of_rows [OF hs(2) n(1)] obtain f t where
    f: "splits_at f t (length hs)" "merged = map (\<lambda>i. combine_thread_ranges (hs ! f i) (hs ! (f (Suc i) - 1))) [0..<t]" by blast
  have "segment_of jf parts start scan (f i) (f (Suc i)) (merged ! i)" if "i < t" for i
  proof -
    note s = splits_at_less [OF f(1) that, unfolded n(2)]
    then have "f i \<le> f (Suc i) - 1" "f (Suc i) - 1 < unat (mcuv jf)" "Suc (f (Suc i) - 1) = f (Suc i)" by arith+
    with combined_segment [OF parts three scan start_def hs1 this(1,2)] show ?thesis by (simp add: f(2) that)
  qed
  then have "stored_segments jf parts start scan f merged" using f n(2) by (simp add: stored_segments_def)
  moreover have "ucast (position i' - position i) = (of_nat (length file) :: u32)" by (simp add: at ucast_of_nat_u32)
  ultimately show ?thesis
    using parts start_def scan three git(3) small unfolding l by (intro exI [of _ "position i"] exI [of _ parts] exI [of _ scan] exI [of _ start] exI [of _ f]) (simp add: l(5))
qed

text \<open>The header of the file can be stored, and its segments cover the rows.\<close>

lemma luma_rows:
  assumes ok: "header_ok a jf" and r: "r \<le> unat (mcuv jf)"
  shows "unat (luma_multiple jf * of_nat r) = r * unat (luma_multiple jf)" "unat (luma_multiple jf * of_nat r) \<le> 16384"
proof -
  have v: "unat (mcuv jf) \<le> 8192" using ok by (simp add: header_ok_def geometry_ok_def word_le_nat_alt)
  have le: "r * unat (luma_multiple jf) \<le> 8192 * 2" using r v luma_multiple(3) [OF ok] by (intro mult_le_mono) simp_all
  have "unat (of_nat r :: u32) = r" using r v by (simp add: unat_of_nat)
  then show eq: "unat (luma_multiple jf * of_nat r) = r * unat (luma_multiple jf)" using le by (simp add: unat_word_ariths mult.commute)
  show "unat (luma_multiple jf * of_nat r) \<le> 16384" using le unfolding eq by simp
qed

lemma luma_total:
  assumes ok: "header_ok a jf"
  shows "luma_multiple jf * of_nat (unat (mcuv jf)) = bcv (cmp_info jf ! 0)"
proof -
  note c = luma_multiple(1,4) [OF ok]
  have "unat (luma_multiple jf * of_nat (unat (mcuv jf))) = unat (bcv (cmp_info jf ! 0))"
    using luma_rows(1) [OF ok order_refl] component_numbers(1) [OF ok c(2)] c(1) by simp
  then show ?thesis by (simp only: word_unat_eq_iff)
qed

lemma baseline_header_stored:
  assumes parts: "baseline_parts features base file images parts jf rinfo scan rest" and size: "length file < 2 ^ 32" and three: "cmpc jf \<le> 3"
    and start: "start = base + of_nat (2 + length (raw_jpeg_header rinfo))"
    and segs: "stored_segments jf parts start scan f (lh_thread_handoff lp)" and lp: "lh_rinfo lp = rinfo"
  shows "storable lp" "contiguous (bcv (cmp_info jf ! 0)) (lh_thread_handoff lp)"
    "i < length (lh_thread_handoff lp) \<Longrightarrow> restores_segment (lh_thread_handoff lp ! i) (kept_handoff (lh_thread_handoff lp ! i))"
    "get_block_height (truncate_components rinfo) 0 = Ok (bcv (cmp_info jf ! 0))"
proof -
  let ?hs = "lh_thread_handoff lp"
  note P = parts [unfolded baseline_parts_def] and S = segs [unfolded stored_segments_def]
  have ok: "header_ok False jf" using P by blast
  have content: "file = [0xFF, SOI] @ raw_jpeg_header rinfo @ scan @ garbage_data rinfo @ rest" using P by blast
  have scan: "length scan < 2 ^ 64" using size unfolding content by simp
  have spl: "splits_at f (length ?hs) (unat (mcuv jf))" using S by blast
  note less = splits_at_less [OF spl]
  have seg: "segment_of jf parts start scan (f i) (f (Suc i)) (?hs ! i)" if "i < length ?hs" for i using S that by blast
  note T = seg [unfolded segment_of_def Let_def]
  have dc: "length (last_dc (?hs ! i)) = 4 \<and> last_dc (?hs ! i) ! 3 = 0" if i: "i < length ?hs" for i
  proof -
    have "f i < unat (mcuv jf)" using less [OF i] by simp
    from partition_reached(1) [OF parts three scan start this] T [OF i] show ?thesis by (simp add: partition_ok_def)
  qed
  have "handoff_ok (?hs ! i)" if i: "i < length ?hs" for i
  proof -
    have "f i \<le> unat (mcuv jf)" using less [OF i] by simp
    from luma_rows(2) [OF ok this] T [OF i] dc [OF i] show ?thesis by (simp add: handoff_ok_def)
  qed
  then have "list_all handoff_ok ?hs" by (simp add: list_all_length)
  moreover have "length (raw_jpeg_header rinfo) < 2 ^ 32" "length (garbage_data rinfo) < 2 ^ 32" using size unfolding content by simp_all
  ultimately show "storable lp" using P spl by (simp add: storable_def lp splits_at_def)
  show "restores_segment (?hs ! i) (kept_handoff (?hs ! i))" if i: "i < length ?hs"
  proof -
    have "(last_dc (?hs ! i))[3 := 0] = last_dc (?hs ! i)" using dc [OF i] by (metis list_update_id)
    then show ?thesis by (simp add: restores_segment_def kept_handoff_def)
  qed
  show "contiguous (bcv (cmp_info jf ! 0)) ?hs"
  proof -
    have ne: "?hs \<noteq> []" using spl by (auto simp: splits_at_def)
    then have l: "length ?hs - 1 < length ?hs" "Suc (length ?hs - 1) = length ?hs" by simp_all
    have "luma_y_end (?hs ! (length ?hs - 1)) = luma_multiple jf * of_nat (f (length ?hs))" using T [OF l(1)] unfolding l(2) by blast
    moreover have "f (length ?hs) = unat (mcuv jf)" using spl by (simp add: splits_at_def)
    ultimately have "luma_y_end (last ?hs) = bcv (cmp_info jf ! 0)" using luma_total [OF ok] by (simp only: last_conv_nth [OF ne])
    moreover have "luma_y_start (?hs ! i) \<le> bcv (cmp_info jf ! 0)" if i: "i < length ?hs" for i
    proof -
      have m: "f i \<le> unat (mcuv jf)" using less [OF i] by simp
      have "unat (luma_multiple jf * of_nat (f i)) \<le> unat (luma_multiple jf * of_nat (unat (mcuv jf)))"
        unfolding luma_rows(1) [OF ok m] luma_rows(1) [OF ok order_refl] by (rule mult_le_mono1 [OF m])
      then show ?thesis using T [OF i] unfolding luma_total [OF ok] word_le_nat_alt by metis
    qed
    moreover have "luma_y_end (?hs ! i) = luma_y_start (?hs ! (i + 1))" if "i + 1 < length ?hs" for i
      using T [of i] T [of "i + 1"] that by simp
    ultimately show ?thesis using ne by (simp add: contiguous_def)
  qed
  have "TruncateComponents_init (mcuh jf) (mcuv jf) (cmp_info jf) (cmpc jf) TruncateComponents_default = Ok (truncate_components rinfo)"
    using P by blast
  moreover have "0 < cmpc jf" by (rule luma_multiple(4) [OF ok])
  moreover have "length (cmp_info jf) = 4" using ok by (simp add: header_ok_def header_inv_def header_shape_def)
  moreover have "trunc_info (truncate_components rinfo) = map (\<lambda>ci. \<lparr>trunc_bcv = bcv ci, trunc_bc = bc ci\<rparr>) (take (cmpc jf) (cmp_info jf))"
  proof -
    have "truncate_components rinfo = \<lparr>trunc_info = map (\<lambda>ci. \<lparr>trunc_bcv = bcv ci, trunc_bc = bc ci\<rparr>) (take (cmpc jf) (cmp_info jf)),
        components_count = cmpc jf, mcu_count_horizontal = mcuh jf, mcu_count_vertical = mcuv jf\<rparr>"
      using calculation(1) by (auto simp: TruncateComponents_init_def TruncateComponents_default_def split: if_splits)
    then show ?thesis by simp
  qed
  ultimately show "get_block_height (truncate_components rinfo) 0 = Ok (bcv (cmp_info jf ! 0))"
    by (simp add: get_block_height_def idx_def)
qed

section \<open>The decoder\<close>

text \<open>The header as it is read back.\<close>

definition reread_header :: "LeptonHeader \<Rightarrow> LeptonHeader" where
  "reread_header lp = LeptonHeader_default
    \<lparr>lh_uncompressed_size := Some (of_nat (length (lepton_header_contents lp))), lh_encoder_version := lh_encoder_version lp,
     lh_git_revision_prefix := lh_git_revision_prefix lp, lh_jpeg_file_size := lh_jpeg_file_size lp,
     lh_thread_handoff := map kept_handoff (lh_thread_handoff lp), lh_jpeg_header := lh_jpeg_header lp,
     lh_read_index := length (raw_jpeg_header (lh_rinfo lp)),
     lh_rinfo := (restored_info (lh_rinfo lp) ReconstructionInfo_default)
       \<lparr>raw_jpeg_header := raw_jpeg_header (lh_rinfo lp), truncate_components := truncate_components (lh_rinfo lp)\<rparr>\<rparr>"

lemma file_header_read:
  assumes parts: "baseline_parts features base file images parts (lh_jpeg_header lp) (lh_rinfo lp) scan rest" and size: "length file < 2 ^ 32"
    and three: "cmpc (lh_jpeg_header lp) \<le> 3" and start: "start = base + of_nat (2 + length (raw_jpeg_header (lh_rinfo lp)))"
    and segs: "stored_segments (lh_jpeg_header lp) parts start scan f (lh_thread_handoff lp)" and git: "length (lh_git_revision_prefix lp) = 4"
    and small: "lh_jpeg_file_size lp \<le> max_jpeg_file_size features"
    and zlib: "\<And>x. inflate (compress x) = stream_of x" and zs: "zs = length (compress (lepton_header_contents lp))" "zs \<le> unat (max_jpeg_file_size features)"
    and input: "input = write_lepton_header compress features lp @ tail"
  shows "\<exists>opened. read_lepton_fixed_header (take FIXED_HEADER_SIZE input) features LeptonHeader_default = Ok (zs, features, opened)
      \<and> lh_jpeg_file_size opened = lh_jpeg_file_size lp
      \<and> read_compressed_lepton_header inflate (take zs (drop FIXED_HEADER_SIZE input)) features zs opened = Ok (reread_header lp)
      \<and> take 3 (drop zs (drop FIXED_HEADER_SIZE input)) = LEPTON_HEADER_COMPLETION_MARKER
      \<and> drop (zs + 3) (drop FIXED_HEADER_SIZE input) = tail \<and> FIXED_HEADER_SIZE + zs + 3 \<le> length input"
proof -
  let ?c = "lepton_header_contents lp" and ?jf = "lh_jpeg_header lp" and ?ri = "lh_rinfo lp"
  define opened where "opened = LeptonHeader_default\<lparr>lh_uncompressed_size := Some (of_nat (length ?c)), lh_encoder_version := lh_encoder_version lp,
      lh_git_revision_prefix := lh_git_revision_prefix lp, lh_jpeg_file_size := lh_jpeg_file_size lp\<rparr>"
  note P = parts [unfolded baseline_parts_def] and H = baseline_header_stored [OF parts size three start segs refl]
  have z: "zs < 2 ^ 32" using zs(2) unat_lt2p [of "max_jpeg_file_size features"] by simp
  note fixed = fixed_header_read [OF git z, of features "length ?c"]
  have same: "features\<lparr>use_16bit_dc_estimate := use_16bit_dc_estimate features, use_16bit_adv_predict := use_16bit_adv_predict features\<rparr> = features"
    by simp
  have fresh: "fresh_header opened" and fs: "lh_jpeg_file_size opened = lh_jpeg_file_size lp"
    by (simp_all add: opened_def fresh_header_def LeptonHeader_default_def)
  have out: "input = fixed_header lp features (length ?c) zs @ compress ?c @ LEPTON_HEADER_COMPLETION_MARKER @ tail"
    by (simp add: input zs(1) write_lepton_header_def Let_def)
  have m: "length LEPTON_HEADER_COMPLETION_MARKER = 3" by (simp add: LEPTON_HEADER_COMPLETION_MARKER_def)
  have cut: "take FIXED_HEADER_SIZE input = fixed_header lp features (length ?c) zs" "drop FIXED_HEADER_SIZE input = compress ?c @ LEPTON_HEADER_COMPLETION_MARKER @ tail"
    using fixed(1) by (simp_all add: out)
  have parsed: "parse features JpegHeader_default (Mirror_new (raw_jpeg_header ?ri)) = Ok ((True, ?jf), mirror_at (raw_jpeg_header ?ri) [])"
    using P by (simp add: same_limits_def)
  have init: "TruncateComponents_init (mcuh ?jf) (mcuv ?jf) (cmp_info ?jf) (cmpc ?jf) TruncateComponents_default = Ok (truncate_components ?ri)"
    and eof: "\<not> early_eof_encountered ?ri" using P by blast+
  have "read_compressed_lepton_header inflate (compress ?c) features (length (compress ?c)) opened = Ok (reread_header lp)"
    using compressed_header_read [where inflate = inflate and compress = compress and t = "truncate_components ?ri" and restored = "reread_header lp",
        OF H(1) fresh zlib zs(2) [unfolded zs(1)] _ parsed init _ H(4,2)] eof fs small
    by (simp add: reread_header_def opened_def mirror_at_def)
  then show ?thesis using fixed(2) [of features LeptonHeader_default, folded opened_def] fs m fixed(1) unfolding cut same
    by (intro exI [of _ opened]) (simp add: zs(1) out)
qed

text \<open>The first segment starts with the scan.\<close>

lemma first_cut:
  assumes parts: "baseline_parts features base file images parts jf rinfo scan rest" and three: "cmpc jf \<le> 3"
    and size: "length scan < 2 ^ 64" and start: "start = base + of_nat (2 + length (raw_jpeg_header rinfo))"
  shows "row_cut start parts scan 0 = 0"
proof -
  have "header_ok False jf" using parts unfolding baseline_parts_def by blast
  then have v: "0 < unat (mcuv jf)" by (simp add: header_ok_def geometry_ok_def word_less_nat_alt)
  let ?dc = "last_dc (snd (parts ! 0))"
  from partition_reached(1) [OF parts three size start v] obtain fr where
    r: "row_reached jf (fill_byte rinfo) images scan 0 ?dc fr (take (row_cut start parts scan 0) scan)" "row_cut start parts scan 0 \<le> length scan"
    by (auto simp: partition_ok_def)
  then obtain bs ws where "passes jf (fill_byte rinfo) images (0, 0, 0) (replicate 4 0) [] (0, 0, 0) ?dc bs ws"
    and ready: "ready_bytes ws bs (take (row_cut start parts scan 0) scan) fr" using v by (auto simp: row_reached_def)
  then have "bs = [] \<and> ws = []" using passes_same_place by blast
  with ready obtain zs where z: "bytes_bits zs @ fr = []" "take (row_cut start parts scan 0) scan = stuff zs" by (auto simp: ready_bytes_def)
  from arg_cong [OF z(1), of length] have "zs = []" by simp
  with z(2) have "take (row_cut start parts scan 0) scan = []" by simp
  then show ?thesis using r(2) by auto
qed

lemma concat_concats: "concat (concat (map g is)) = concat (map (\<lambda>i. concat (g i)) is)"
  by (induction "is") simp_all

text \<open>The threads of the decoder write the scan.\<close>

lemma file_segments_decoded:
  fixes lp :: LeptonHeader
  assumes S: "simd_laws (pf_simd P)" and V: "simd16_laws (pf_simd16 P)" and alloc: "\<forall>k. pf_alloc P k"
    and parts: "baseline_parts features base file images parts jf rinfo scan rest" and reg: "regular_scan jf" and three: "cmpc jf \<le> 3"
    and size: "length file < 2 ^ 32" and start: "start = base + of_nat (2 + length (raw_jpeg_header rinfo))"
    and segs: "stored_segments jf parts start scan f (lh_thread_handoff lp)" and lp: "lh_rinfo lp = rinfo"
    and info: "restores_info rinfo rinfo'" and qts: "construct_quantization_tables jf = Ok qts"
    and enc: "\<And>i. i < length (lh_thread_handoff lp) \<Longrightarrow>
      encoder_thread n P qts images (truncate_components rinfo) (lh_thread_handoff lp) features' i = Some (Ok (code i))"
  shows "\<exists>N vs. (\<forall>i < length (lh_thread_handoff lp). \<forall>m \<ge> N. baseline_decoding_thread m P (code i) features' qts
        (kept_handoff (lh_thread_handoff lp ! i)) jf rinfo' (i = length (lh_thread_handoff lp) - 1) = Some (Ok (), map Result (vs i) @ [Complete]))
    \<and> concat (concat (map vs [0..<length (lh_thread_handoff lp)])) = scan"
proof -
  let ?hs = "lh_thread_handoff lp" and ?cut = "row_cut start parts scan"
  note P = parts [unfolded baseline_parts_def] and G = segs [unfolded stored_segments_def]
  have content: "file = [0xFF, SOI] @ raw_jpeg_header rinfo @ scan @ garbage_data rinfo @ rest" using P by blast
  have scan: "length scan < 2 ^ 32" "length scan < 2 ^ 64" using size unfolding content by simp_all
  have spl: "splits_at f (length ?hs) (unat (mcuv jf))" using G by blast
  note less = splits_at_less [OF spl]
  have "\<exists>n0 vs. (\<forall>m \<ge> n0. baseline_decoding_thread m P (code i) features' qts (kept_handoff (?hs ! i)) jf rinfo' (i = length ?hs - 1)
      = Some (Ok (), map Result vs @ [Complete])) \<and> concat vs = drop (?cut (f i)) (take (?cut (f (Suc i))) scan)" if i: "i < length ?hs" for i
  proof (rule segment_decoded [OF S V alloc parts reg three scan(1) start _ baseline_header_stored(3) [OF parts size three start segs lp i] info qts])
    show "segment_of jf parts start scan (f i) (f (Suc i)) (?hs ! i)" using G i by blast
    show "f (Suc i) = unat (mcuv jf)" if "i = length ?hs - 1"
      using that i spl by (simp add: splits_at_def)
    show "lepton_encode_row_range n (pf_simd P) qts images (truncate_components rinfo) (luma_y_start (?hs ! i)) (luma_y_end (?hs ! i))
        (i = length ?hs - 1) True features' = Some (Ok (code i))" using enc [OF i] by (simp add: encoder_thread_def)
  qed
  then obtain n0 vs where T: "\<And>i m. i < length ?hs \<Longrightarrow> n0 i \<le> m \<Longrightarrow>
      baseline_decoding_thread m P (code i) features' qts (kept_handoff (?hs ! i)) jf rinfo' (i = length ?hs - 1) = Some (Ok (), map Result (vs i) @ [Complete])"
    and B: "\<And>i. i < length ?hs \<Longrightarrow> concat (vs i) = drop (?cut (f i)) (take (?cut (f (Suc i))) scan)" by metis
  have most: "n0 i \<le> (\<Sum>i<length ?hs. n0 i)" if "i < length ?hs" for i
    using that by (intro member_le_sum) simp_all
  have up: "?cut (f i) \<le> ?cut (f (Suc i))" if "i < length ?hs" for i
    by (rule row_amount_mono(1) [OF parts three scan(2) start]) (use less [OF that] in simp_all)
  have "concat (concat (map vs [0..<length ?hs])) = concat (map (\<lambda>i. concat (vs i)) [0..<length ?hs])" by (rule concat_concats)
  also have "\<dots> = concat (map (\<lambda>i. drop (?cut (f i)) (take (?cut (f (Suc i))) scan)) [0..<length ?hs])"
    using B by (intro arg_cong [where f = concat] map_cong) simp_all
  also have "\<dots> = drop (?cut (f 0)) (take (?cut (f (length ?hs))) scan)" by (rule concat_cuts [where c = "\<lambda>i. ?cut (f i)", OF up])
  also have "\<dots> = scan"
  proof -
    have "f 0 = 0" "f (length ?hs) = unat (mcuv jf)" using spl by (simp_all add: splits_at_def)
    moreover have "?cut (unat (mcuv jf)) = length scan" using P by (simp add: row_cut_def)
    ultimately show ?thesis using first_cut [OF parts three scan(2) start] by simp
  qed
  finally have "concat (concat (map vs [0..<length ?hs])) = scan" .
  moreover have "baseline_decoding_thread m P (code i) features' qts (kept_handoff (?hs ! i)) jf rinfo' (i = length ?hs - 1) = Some (Ok (), map Result (vs i) @ [Complete])"
    if "i < length ?hs" "(\<Sum>i<length ?hs. n0 i) \<le> m" for i m
    using T [OF that(1)] most [OF that(1)] that(2) by (meson order_trans)
  ultimately show ?thesis by blast
qed

text \<open>What is sent to the threads of the decoder is what the threads of the encoder have written.\<close>

lemma file_channels:
  assumes fixed: "read_lepton_fixed_header (take FIXED_HEADER_SIZE input) features LeptonHeader_default = Ok (zs, features, opened)"
    and header: "read_compressed_lepton_header (pf_inflate P) (take zs (drop FIXED_HEADER_SIZE input)) features zs opened = Ok lh"
    and tail: "drop (zs + 3) (drop FIXED_HEADER_SIZE input) = out @ trailer" "length trailer = 4"
    and code: "\<And>(outputs :: nat \<Rightarrow> unit MultiplexReadResult list) ws par. demultiplex (multiplex_read (length (lh_thread_handoff lh)) ws par (length trailer) outputs) (out @ trailer)
      = Ok ((multiplex_read (length (lh_thread_handoff lh)) ws par (length trailer) outputs)
          \<lparr>mrs_sent := map (\<lambda>i. map (WriteBlock i) (blocks_of_bytes (code i))) [0..<length (lh_thread_handoff lh)]\<rparr>, trailer)"
    and i: "i < length (lh_thread_handoff lh)"
  shows "stream_bytes (reader_stream (MultiplexReader_new (final_channels P features input i))) = code i"
proof -
  let ?s = "multiplex_read (length (lh_thread_handoff lh)) (unat (max_processor_threads features)) (pf_max_parallelism P) 4 (\<lambda>_. [] :: unit MultiplexReadResult list)"
  have d: "demultiplex ?s (out @ trailer) = Ok (?s\<lparr>mrs_sent := map (\<lambda>i. map (WriteBlock i) (blocks_of_bytes (code i)))
      [0..<length (lh_thread_handoff lh)]\<rparr>, trailer)"
    by (rule code [unfolded tail(2)])
  have "\<not> mrs_closed ?s" by (simp add: multiplex_read_def)
  then have "final_channels P features input i = map (WriteBlock i) (blocks_of_bytes (code i)) @ [Eof i]"
    using i unfolding final_channels_def fixed Let_def bindR.simps prod.case header tail(1) d sum.case by (simp add: close_senders_def)
  then show ?thesis by (simp add: reader_stream_new channel_stream_blocks stream_of_def)
qed

lemma file_threads:
  assumes qts: "construct_quantization_tables (lh_jpeg_header lh) = Ok qts"
    and busy: "work_is_done (unat (max_processor_threads features)) (pf_max_parallelism P)"
    and bytes: "\<And>i. i < length (lh_thread_handoff lh) \<Longrightarrow> stream_bytes (reader_stream (MultiplexReader_new (final i))) = code i"
    and runs: "\<And>i. i < length (lh_thread_handoff lh) \<Longrightarrow> process (code i) features qts (lh_thread_handoff lh ! i) (lh_jpeg_header lh) (lh_rinfo lh)
        (i = length (lh_thread_handoff lh) - 1) = Some (Ok (), map Result (vs i) @ [Complete])"
  shows "\<exists>outputs. run_lepton_decoder_threads lh features k (pf_max_parallelism P) final process =
      Some (Ok (multiplex_read (length (lh_thread_handoff lh)) (unat (max_processor_threads features)) (pf_max_parallelism P) k outputs))
    \<and> mrs_receivers (multiplex_read (length (lh_thread_handoff lh)) (unat (max_processor_threads features)) (pf_max_parallelism P) k outputs)
      = map (\<lambda>i. map Result (vs i) @ [Complete]) [0..<length (lh_thread_handoff lh)]"
proof -
  let ?hs = "lh_thread_handoff lh"
  let ?run = "\<lambda>i reader. process (stream_bytes (reader_stream reader)) features qts (?hs ! i) (lh_jpeg_header lh) (lh_rinfo lh) (i = length ?hs - 1)"
  let ?out = "\<lambda>i. thread_outputs (\<lambda>i reader. the (?run i reader)) i (final i)"
  have r: "?run i (MultiplexReader_new (final i)) = Some (Ok (), map Result (vs i) @ [Complete])" if "i < length ?hs" for i
    using bytes [OF that] runs [OF that] by simp
  then have o: "?out i = map Result (vs i) @ [Complete]" if "i < length ?hs" for i
    using that by (simp add: thread_outputs_def)
  have "\<not> list_ex (\<lambda>i. ?run i (MultiplexReader_new (final i)) = None) [0..<length ?hs]" using r by (auto simp: list_ex_iff)
  then have "run_lepton_decoder_threads lh features k (pf_max_parallelism P) final process =
      Some (Ok (multiplex_read (length ?hs) (unat (max_processor_threads features)) (pf_max_parallelism P) k ?out))"
    by (simp add: run_lepton_decoder_threads_def qts Let_def)
  moreover have "mrs_receivers (multiplex_read (length ?hs) (unat (max_processor_threads features)) (pf_max_parallelism P) k ?out)
      = map (\<lambda>i. map Result (vs i) @ [Complete]) [0..<length ?hs]"
    using busy o by (simp add: multiplex_read_def)
  ultimately show ?thesis by blast
qed

text \<open>A file whose header is read, whose blocks are for the threads, and whose threads all end is decoded.\<close>

lemma baseline_decoded:
  assumes fixed: "read_lepton_fixed_header (take FIXED_HEADER_SIZE input) features LeptonHeader_default = Ok (zs, features, opened)"
    and header: "read_compressed_lepton_header (pf_inflate P) (take zs (drop FIXED_HEADER_SIZE input)) features zs opened = Ok lh"
    and marker: "take 3 (drop zs (drop FIXED_HEADER_SIZE input)) = LEPTON_HEADER_COMPLETION_MARKER"
    and tail: "drop (zs + 3) (drop FIXED_HEADER_SIZE input) = x" and size: "FIXED_HEADER_SIZE + zs + 3 \<le> length input"
    and seq: "jpeg_type (lh_jpeg_header lh) = Sequential" and all: "lh_read_index lh = length (raw_jpeg_header (lh_rinfo lh))"
    and threads: "run_lepton_decoder_threads lh features 4 (pf_max_parallelism P) final (baseline_decoding_thread n P) = Some (Ok mux)"
    and blocks: "demultiplex mux x = Ok (s, trailer)" and eof: "eof_ok input trailer"
    and ended: "mrs_receivers mux = map (\<lambda>i. map Result (vs i) @ [Complete]) ks"
    and rst: "rst_err (lh_rinfo lh) = []"
  shows "decoded n P final features input (take (unat (lh_jpeg_file_size opened))
      ([0xFF, SOI] @ raw_jpeg_header (lh_rinfo lh) @ concat (concat (map vs ks)) @ garbage_data (lh_rinfo lh)))"
proof -
  let ?raw = "raw_jpeg_header (lh_rinfo lh)" and ?k = "unat (lh_jpeg_file_size opened)"
  define out where "out = fold limited_write [[0xFF, SOI], ?raw] (?k, [])"
  have start: "write_start lh (?k, []) = Ok out" by (simp add: write_start_def out_def all Let_def)
  have cmp: "process_cmp n P final LEPTON_HEADER_COMPLETION_MARKER lh features (?k, []) = Some (Ok (ScanBaseline mux, out))"
    by (simp add: process_cmp_def seq start threads)
  have run: "header_of n P final features input = Some (Ok ((ScanBaseline mux, lh, features), out, x))"
  proof -
    define i1 where "i1 = drop FIXED_HEADER_SIZE input"
    define i2 where "i2 = drop zs i1"
    have i1: "zs \<le> length i1" "take zs i1 = take zs (drop FIXED_HEADER_SIZE input)" using size by (simp_all add: i1_def)
    have i2: "3 \<le> length i2" "take 3 i2 = LEPTON_HEADER_COMPLETION_MARKER" "drop 3 i2 = x"
      using size marker tail by (simp_all add: i1_def i2_def ac_simps)
    have last: "header_run n P final (CMP, lh, features) (?k, []) i2 = Some (Ok ((ScanBaseline mux, lh, features), out, x))"
      using i2 by (subst header_run.simps) (simp add: header_step_def cmp header_run_stays)
    have middle: "header_run n P final (CompressedHeader zs, opened, features) (?k, []) i1 = header_run n P final (CMP, lh, features) (?k, []) i2"
      using i1(1) header [folded i1(2)] by (subst header_run.simps) (simp add: header_step_def i2_def)
    have "header_run n P final (start_core features) (0, []) input = header_run n P final (CompressedHeader zs, opened, features) (?k, []) i1"
      using size fixed by (subst header_run.simps) (simp add: header_step_def start_core_def i1_def)
    then show ?thesis unfolding header_of_def middle last by simp
  qed
  have vals: "values_of (mrs_receivers mux) = concat (map vs ks)" unfolding ended values_of_def by (simp add: o_def)
  have finished: "list_all thread_done (mrs_receivers mux)" unfolding ended by (auto simp: list_all_iff thread_done_def)
  have core: "decoded_core n P input (ScanBaseline mux, lh, features) out x
      (concat (snd out) @ take (fst out) (concat (concat (map vs ks)) @ garbage_data (lh_rinfo lh)))"
    using blocks eof finished by (simp add: all vals rst_writes_def rst tail_writes_def)
  have bytes: "concat (snd out) @ take (fst out) y = take ?k ([0xFF, SOI] @ ?raw @ y)" for y
    unfolding out_def limited_write_left limited_write_concat by (simp add: take_Cons' numeral_2_eq_2)
  show ?thesis unfolding decoded_def bytes [symmetric] using run core by blast
qed

lemma file_restored:
  assumes S: "simd_laws (pf_simd P)" and V: "simd16_laws (pf_simd16 P)" and alloc: "\<forall>k. pf_alloc P k"
    and zlib: "\<forall>x. pf_inflate P (pf_compress P x) = stream_of x"
    and read: "read_jpeg n k P B features (\<lambda>_ _ u. u) file i () = Some (Ok (lp, images))"
    and written: "encode_lepton n k P B features file i = Some (Ok lep)"
    and input: "unread i = file" "length file < 2 ^ 32" "length lep < 2 ^ 32" and k: "81 < k"
    and features: "\<not> accept_invalid_dht features" "\<not> stop_reading_at_eoi features"
    and zs: "length (pf_compress P (lepton_header_contents lp)) \<le> unat (max_jpeg_file_size features)"
    and reg: "regular_scan (lh_jpeg_header lp)" and short: "no_short_run_codes (lh_jpeg_header lp)"
    and eoi: "eoi_ahead (drop (2 + length (raw_jpeg_header (lh_rinfo lp))) file)"
    and pieces: "concat pieces = lep" "[] \<notin> set pieces"
  shows "\<exists>N. \<forall>m \<ge> N. decode_lepton m P ready pieces features = Some (Ok file)"
proof -
  let ?jf = "lh_jpeg_header lp" and ?ri = "lh_rinfo lp" and ?hs = "lh_thread_handoff lp"
  from read_jpeg_parts [OF read input(1,2) features k reg short eoi] obtain base parts scan start f where
    parts: "baseline_parts features base file images parts ?jf ?ri scan []"
    and start: "start = base + of_nat (2 + length (raw_jpeg_header ?ri))" and three: "cmpc ?jf \<le> 3"
    and segs: "stored_segments ?jf parts start scan f ?hs" and git: "length (lh_git_revision_prefix lp) = 4"
    and fs: "lh_jpeg_file_size lp = of_nat (length file)" "lh_jpeg_file_size lp \<le> max_jpeg_file_size features" by blast
  note P = parts [unfolded baseline_parts_def]
  from written read obtain out where
    enc: "run_lepton_encoder_threads n P ?jf (truncate_components ?ri) ?hs images features = Some (Ok out)"
    and lep: "lep = write_lepton_header (pf_compress P) features lp @ out
      @ le_bytes 4 (of_nat (length (write_lepton_header (pf_compress P) features lp @ out) + 4) :: u32)"
    by (auto simp: encode_lepton_def bindF_eq_Inr Let_def)
  define trailer where "trailer = le_bytes 4 (of_nat (length (write_lepton_header (pf_compress P) features lp @ out) + 4) :: u32)"
  have t4: "length trailer = 4" by (simp add: trailer_def)
  obtain qts where qts: "construct_quantization_tables ?jf = Ok qts"
    using enc by (auto simp: run_lepton_encoder_threads_def bindF_eq_Inr)
  have ne: "?hs \<noteq> []" using segs by (auto simp: stored_segments_def splits_at_def)
  note E = encoder_threads [OF enc ne qts]
  define lh where "lh = reread_header lp"
  define zsize where "zsize = length (pf_compress P (lepton_header_contents lp))"
  from file_header_read [OF parts input(2) three start segs git fs(2) _ zsize_def zs [folded zsize_def] lep [folded trailer_def]] zlib obtain opened where
    fixed: "read_lepton_fixed_header (take FIXED_HEADER_SIZE lep) features LeptonHeader_default = Ok (zsize, features, opened)"
    and size: "lh_jpeg_file_size opened = lh_jpeg_file_size lp"
    and header: "read_compressed_lepton_header (pf_inflate P) (take zsize (drop FIXED_HEADER_SIZE lep)) features zsize opened = Ok lh"
    and marker: "take 3 (drop zsize (drop FIXED_HEADER_SIZE lep)) = LEPTON_HEADER_COMPLETION_MARKER"
    and tail: "drop (zsize + 3) (drop FIXED_HEADER_SIZE lep) = out @ trailer" and long: "FIXED_HEADER_SIZE + zsize + 3 \<le> length lep"
    unfolding lh_def by blast
  have hs: "length (lh_thread_handoff lh) = length ?hs" "\<And>j. j < length ?hs \<Longrightarrow> lh_thread_handoff lh ! j = kept_handoff (?hs ! j)"
    "lh_jpeg_header lh = ?jf" "lh_read_index lh = length (raw_jpeg_header (lh_rinfo lh))" "raw_jpeg_header (lh_rinfo lh) = raw_jpeg_header ?ri"
    by (simp_all add: lh_def reread_header_def)
  have info: "restores_info ?ri (lh_rinfo lh)" "rst_err (lh_rinfo lh) = []"
    "garbage_data (lh_rinfo lh) = (if garbage_data ?ri = [] then [0xFF, 0xD9] else garbage_data ?ri)"
    using P by (simp_all add: lh_def reread_header_def restored_info_def restores_info_def fill_byte_def all_markers_def Let_def)
  from file_segments_decoded [OF S V alloc parts reg three input(2) start segs refl info(1) qts E(3)] obtain N vs where
    T: "\<And>j m. j < length ?hs \<Longrightarrow> N \<le> m \<Longrightarrow> baseline_decoding_thread m P (segment_code n P qts images (truncate_components ?ri) ?hs features j) features qts
        (kept_handoff (?hs ! j)) ?jf (lh_rinfo lh) (j = length ?hs - 1) = Some (Ok (), map Result (vs j) @ [Complete])"
    and scan: "concat (concat (map vs [0..<length ?hs])) = scan" by blast
  let ?final = "final_channels P features lep"
  have bytes: "stream_bytes (reader_stream (MultiplexReader_new (?final j))) = segment_code n P qts images (truncate_components ?ri) ?hs features j"
    if "j < length (lh_thread_handoff lh)" for j
    by (rule file_channels [OF fixed header tail t4 _ that]) (unfold hs(1), rule E(4))
  have "decode_lepton m P ready pieces features = Some (Ok file)" if m: "N \<le> m" for m
  proof -
    have runs: "baseline_decoding_thread m P (segment_code n P qts images (truncate_components ?ri) ?hs features j) features qts
        (lh_thread_handoff lh ! j) (lh_jpeg_header lh) (lh_rinfo lh) (j = length (lh_thread_handoff lh) - 1) = Some (Ok (), map Result (vs j) @ [Complete])"
      if "j < length (lh_thread_handoff lh)" for j
      using that T [OF _ m, of j] by (simp add: hs)
    from file_threads [where process = "baseline_decoding_thread m P" and k = 4 and vs = vs and final = ?final
        and code = "segment_code n P qts images (truncate_components ?ri) ?hs features", OF qts [folded hs(3)] E(2) bytes runs, unfolded hs(1)] obtain outputs where
      mux: "run_lepton_decoder_threads lh features 4 (pf_max_parallelism P) ?final (baseline_decoding_thread m P)
        = Some (Ok (multiplex_read (length ?hs) (unat (max_processor_threads features)) (pf_max_parallelism P) 4 outputs))"
      "mrs_receivers (multiplex_read (length ?hs) (unat (max_processor_threads features)) (pf_max_parallelism P) 4 outputs)
        = map (\<lambda>i. map Result (vs i) @ [Complete]) [0..<length ?hs]" by blast
    have seq: "jpeg_type (lh_jpeg_header lh) = Sequential" using reg hs(3) by (simp add: regular_scan_def)
    have "length (write_lepton_header (pf_compress P) features lp @ out) + 4 = length lep" by (simp add: lep)
    then have "trailer = le_bytes 4 (of_nat (length lep) :: u32)" unfolding trailer_def by (rule arg_cong)
    then have eof: "eof_ok lep trailer" using input(3) t4 by (simp add: eof_ok_def from_le_bytes_small unat_of_nat take_bit_eq_mod)
    from baseline_decoded [OF fixed header marker tail long seq hs(4) mux(1) E(4) [where rest = trailer, unfolded t4] eof mux(2) info(2)]
    have D: "decoded m P ?final features lep (take (unat (lh_jpeg_file_size opened))
      ([0xFF, SOI] @ raw_jpeg_header ?ri @ scan @ garbage_data (lh_rinfo lh)))" by (simp only: scan hs(5))
    have "file = [0xFF, SOI] @ raw_jpeg_header ?ri @ scan @ garbage_data ?ri @ []" using P by blast
    moreover have "unat (lh_jpeg_file_size opened) = length file" using input(2) by (simp add: size fs(1) unat_of_nat take_bit_eq_mod)
    ultimately have "take (unat (lh_jpeg_file_size opened)) ([0xFF, SOI] @ raw_jpeg_header ?ri @ scan @ garbage_data (lh_rinfo lh)) = file"
      by (simp add: info(3))
    then show ?thesis using D decode_pieces_iff [OF pieces(2)] by (simp add: decode_lepton_def pieces(1))
  qed
  then show ?thesis by blast
qed

end
