(* ===== verification/File_Properties.thy ===== *)
theory File_Properties
  imports File_Lossless Container_Properties
begin

unbundle bit_operations_syntax

text \<open>
  The property of whole files: a baseline file that \<open>encode_lepton\<close> accepts is what \<open>decode_lepton\<close> makes of the
  result, with its witness, the sample file of \<open>Sample_Scan\<close> from the first byte to the last.
\<close>

section \<open>The sample file as a Lepton file\<close>

definition sample_build :: Build where
  "sample_build = \<lparr>git_version = [], version_major = [0x30], version_minor = [0x35], version_patch = [0x31]\<rparr>"

lemma sample_features_simps [simp]:
  "\<not> accept_invalid_dht sample_features" "\<not> stop_reading_at_eoi sample_features" "unat (max_jpeg_file_size sample_features) = 128 * 1024 * 1024"
  by (simp_all add: sample_features_def compat_lepton_vector_write_def)

lemma length_sample_header: "length sample_header_bytes = 142"
  by (simp add: sample_header_bytes_def sample_segment_def)

text \<open>What is read: one image of one block, one partition, two bytes of scan and the end marker.\<close>

definition sample_read :: "nat \<Rightarrow> BlockBasedImage \<Rightarrow> RestartSegmentCodingInfo \<Rightarrow> ReconstructionInfo \<Rightarrow> BufRead \<Rightarrow> bool" where
  "sample_read N im r rinfo i' \<longleftrightarrow> (\<forall>n \<ge> N. read_jpeg_file n 82 (\<lambda>_. True) sample_features (\<lambda>_ _ u. u) sample_file
      JpegHeader_default ReconstructionInfo_default (sample_input sample_file 0) ()
    = Some (Ok ([im], [(144, r)], 146, sample_header, rinfo, (), i'))) \<and> position i' = 148
    \<and> raw_jpeg_header rinfo = sample_header_bytes \<and> single_image im \<and> length (garbage_data rinfo) = 2
    \<and> rst_err rinfo = [] \<and> rst_cnt rinfo = [] \<and> \<not> early_eof_encountered rinfo
    \<and> truncate_components rinfo = one_block_truncation"

lemma sample_block_single: "ac_ok (zigzag_to_transposed sample_coefs)" "\<bar>sint (get_dc (zigzag_to_transposed sample_coefs))\<bar> \<le> 1024"
proof -
  have s: "sample_coefs ! i \<in> {0, 1}" if "i < 64" for i
  proof -
    have "sample_coefs ! i \<in> set sample_coefs" using that by (intro nth_mem) (simp add: sample_coefs_def)
    then show ?thesis by (auto simp: sample_coefs_def)
  qed
  have all: "\<forall>x \<in> set (raw_data (zigzag_to_transposed sample_coefs)). x \<in> {0, 1}"
    using s by (simp add: zigzag_to_transposed_def del: insert_iff)
  then have b: "raw_data (zigzag_to_transposed sample_coefs) ! i \<in> {0, 1}" if "i < 64" for i
  proof -
    have "length (raw_data (zigzag_to_transposed sample_coefs)) = 64" using block_ok_simps by (simp add: zigzag_to_transposed_def)
    then show ?thesis using bspec [OF all nth_mem] that by metis
  qed
  have "\<bar>sint (raw_data (zigzag_to_transposed sample_coefs) ! i)\<bar> \<le> 1" if "i < 64" for i using b [OF that] by auto
  then show "ac_ok (zigzag_to_transposed sample_coefs)" "\<bar>sint (get_dc (zigzag_to_transposed sample_coefs))\<bar> \<le> 1024"
    by (fastforce simp: ac_ok_def get_dc_def)+
qed

lemma sample_eoi_ahead: "raw_jpeg_header rinfo = sample_header_bytes \<Longrightarrow> eoi_ahead (drop (2 + length (raw_jpeg_header rinfo)) sample_file)"
  unfolding eoi_ahead_def by (intro exI [of _ "[0x6D, 0xB3]"] exI [of _ "[]"]) (simp add: sample_file_def)

lemma sample_file_is_read: "\<exists>N im r rinfo i'. sample_read N im r rinfo i'"
proof -
  from sample_file_reads obtain N images parts rinfo i' where
    reads: "\<And>n. N \<le> n \<Longrightarrow> read_jpeg_file n 82 (\<lambda>_. True) sample_features (\<lambda>jf hd u. u) sample_file
      JpegHeader_default ReconstructionInfo_default (sample_input sample_file 0) ()
      = Some (Ok (images, parts, of_nat (length sample_file - 2), sample_header, rinfo, (), i'))"
    and raw: "raw_jpeg_header rinfo = sample_header_bytes"
    and block: "scan_block sample_header images (0, 0, 0) = zigzag_to_transposed sample_coefs" by blast
  note eoi = sample_eoi_ahead [OF raw]
  have input: "unread (sample_input sample_file 0) = sample_file" "position (sample_input sample_file 0) = 0" by (simp_all add: sample_input_def)
  have len: "length sample_file = 148" by (simp add: sample_file_def length_sample_header)
  from baseline_file_parts [OF reads [OF order_refl] input(1) _ _ sample_regular sample_no_short eoi] obtain scan where
    parts: "baseline_parts sample_features 0 sample_file images parts sample_header rinfo scan []"
    and ends: "(of_nat (length sample_file - 2) :: u64) = of_nat (2 + length (raw_jpeg_header rinfo) + length scan)"
    and at: "position i' = of_nat (length sample_file)" using input(2) by auto
  note P = parts [unfolded baseline_parts_def]
  have "sample_file = [0xFF, SOI] @ sample_header_bytes @ scan @ garbage_data rinfo @ []" using P raw by simp
  then have content: "scan @ garbage_data rinfo = [0x6D, 0xB3, 0xFF, 0xD9]" by (simp add: sample_file_def)
  from arg_cong [OF this, of length] have l: "length scan + length (garbage_data rinfo) = 4" by simp
  have small: "unat (of_nat m :: u64) = m" if "m < 2 ^ 64" for m using that by (simp add: unat_of_nat take_bit_eq_mod)
  have "length scan \<le> 4" using l by simp
  then have "unat (of_nat (2 + length (raw_jpeg_header rinfo) + length scan) :: u64) = 2 + length (raw_jpeg_header rinfo) + length scan"
    by (intro small) (simp add: raw length_sample_header)
  then have scan: "length scan = 2" using arg_cong [OF ends, of unat] by (simp add: len raw length_sample_header)
  obtain im where im: "images = [im]" using P by (auto simp: whole_images_def sample_header_fields length_Suc_conv)
  have "block_width im = 1" "original_height im = 1" "dpos_offset im = 0"
    using P by (simp_all add: whole_images_def fitted_images_def im sample_header_fields sample_component_def)
  moreover have "blocks_of im 0 = zigzag_to_transposed sample_coefs"
    using block by (simp add: im scan_block_def place_component_def sample_header_fields block_pos_def)
  ultimately have single: "single_image im" using sample_block_single by (simp add: single_image_def)
  obtain p r where pr: "parts = [(p, r)]" using P by (auto simp: sample_header_fields length_Suc_conv)
  have "row_cut 144 parts scan 0 = 0"
    by (rule first_cut [OF parts]) (simp_all add: sample_header_fields raw length_sample_header scan)
  then have "unat (p - 144) = 0" by (simp add: row_cut_def pr)
  then have "p = 144" by (simp add: unat_eq_0)
  moreover have "truncate_components rinfo = one_block_truncation"
  proof -
    have "TruncateComponents_init (mcuh sample_header) (mcuv sample_header) (cmp_info sample_header) (cmpc sample_header)
        TruncateComponents_default = Ok (truncate_components rinfo)" using P by blast
    moreover have "TruncateComponents_init (mcuh sample_header) (mcuv sample_header) (cmp_info sample_header) (cmpc sample_header)
        TruncateComponents_default = Ok one_block_truncation"
      by (simp add: TruncateComponents_init_def sample_header_fields TruncateComponents_default_def one_block_truncation_def)
        (simp add: sample_header_def JpegHeader_default_def sample_component_def take_update_swap numeral_eq_Suc)
    ultimately show ?thesis by simp
  qed
  ultimately have "sample_read N im r rinfo i'"
    using reads P raw single l scan at by (simp add: sample_read_def im pr len)
  then show ?thesis by blast
qed

lemma sample_is_read:
  assumes s: "sample_read N im r rinfo i'" and n: "N \<le> n"
  shows "\<exists>lp. read_jpeg n 82 sample_platform sample_build sample_features (\<lambda>_ _ u. u) sample_file (sample_input sample_file 0) ()
      = Some (Ok (lp, [im]))
    \<and> lh_jpeg_header lp = sample_header \<and> lh_rinfo lp = rinfo \<and> length (lh_thread_handoff lp) = 1
    \<and> luma_y_start (lh_thread_handoff lp ! 0) = 0 \<and> luma_y_end (lh_thread_handoff lp ! 0) = 1
    \<and> length (lh_git_revision_prefix lp) = 4"
proof -
  note S = s [unfolded sample_read_def]
  let ?git = "get_git_revision sample_build LeptonHeader_default"
  have git: "lh_jpeg_header ?git = JpegHeader_default" "lh_rinfo ?git = ReconstructionInfo_default" "length (lh_git_revision_prefix ?git) = 4"
    by (simp_all add: get_git_revision_def LeptonHeader_default_def Let_def split: option.splits)
  obtain h where h: "segment_handoffs 0 146 [(144, r)] = Ok [h]" by (simp add: u32_of_u64_def Let_def)
  have threads: "get_number_of_threads_for_encoding (Suc 0) b 8 = 1" for b
    by (simp add: get_number_of_threads_for_encoding_def MAX_THREADS_SUPPORTED_BY_LEPTON_FORMAT_def Let_def)
  have split: "split_row_handoffs_to_threads [h] (unat (max_partitions sample_features)) = Ok [combine_thread_ranges h h]"
    by (simp add: split_row_handoffs_to_threads_def Let_def threads sample_features_def compat_lepton_vector_write_def)
  define lp where "lp = ?git\<lparr>lh_jpeg_header := sample_header, lh_rinfo := rinfo, lh_thread_handoff := [combine_thread_ranges h h],
      lh_jpeg_file_size := 148\<rparr>"
  have most: "\<not> max_jpeg_file_size sample_features < 148" by (simp add: word_less_nat_alt)
  have pos: "position (sample_input sample_file 0) = 0" by (simp add: sample_input_def)
  have read: "read_jpeg n 82 sample_platform sample_build sample_features (\<lambda>_ _ u. u) sample_file (sample_input sample_file 0) ()
      = Some (Ok (lp, [im]))"
    using S n most by (simp add: read_jpeg_def Let_def git pos h split lp_def sample_platform_def del: segment_handoffs.simps)
  have l: "lh_jpeg_header lp = sample_header" "lh_rinfo lp = rinfo" "lh_thread_handoff lp = [combine_thread_ranges h h]"
    "length (lh_git_revision_prefix lp) = 4"
    by (simp_all add: lp_def git)
  have "unread (sample_input sample_file 0) = sample_file" "length sample_file < 2 ^ 32"
    by (simp_all add: sample_input_def sample_file_def length_sample_header)
  moreover have "eoi_ahead (drop (2 + length (raw_jpeg_header (lh_rinfo lp))) sample_file)" unfolding l(2) using S by (intro sample_eoi_ahead) blast
  ultimately obtain parts scan start f where "stored_segments sample_header parts start scan f (lh_thread_handoff lp)"
    using read_jpeg_parts [OF read, unfolded l(1), OF _ _ _ _ _ sample_regular sample_no_short] by auto
  then have "f 0 = 0" "f 1 = 1" "segment_of sample_header parts start scan (f 0) (f 1) (lh_thread_handoff lp ! 0)"
    by (auto simp: stored_segments_def l(3) splits_at_def sample_header_fields)
  then have "luma_y_start (lh_thread_handoff lp ! 0) = 0" "luma_y_end (lh_thread_handoff lp ! 0) = 1"
    by (simp_all add: segment_of_def luma_multiple_def sample_header_fields sample_component_def)
  then show ?thesis using read l by auto
qed

text \<open>What is written is short: at most 13008 bytes of code, and a header.\<close>

lemma sample_quantization: "construct_quantization_tables sample_header = Ok [tables_of_ones]"
  by (simp add: construct_quantization_tables_def sample_header_fields QuantizationTables_new_def tables_of_ones_def)
    (simp add: sample_header_def JpegHeader_default_def sample_component_def)

lemma sample_segment_coded:
  assumes "single_image im" "luma_y_start h = 0" "luma_y_end h = 1" "2 \<le> n"
  shows "\<exists>out. run_lepton_encoder_threads n sample_platform sample_header one_block_truncation [h] [im] sample_features = Some (Ok out)
    \<and> length out \<le> 13100"
proof -
  from single_image_encoded [OF assms(1), of one_block_truncation sample_features] obtain c where
    "lepton_encode_row_range 2 lane_ops [tables_of_ones] [im] one_block_truncation 0 1 True True sample_features = Some (Ok c)"
    and short: "length c \<le> 13008"
    by (auto simp: one_block_truncation_def get_component_sizes_in_blocks_def get_max_coded_heights_def)
  from encode_range_more [OF this(1) assms(4)]
  have run: "encoder_thread n sample_platform [tables_of_ones] [im] one_block_truncation [h] sample_features 0 = Some (Ok c)"
    by (simp add: encoder_thread_def assms(2,3) sample_platform_def)
  have sent: "mw_sent (mw_flush (mw_write c \<lparr>mw_partition_id = 0, mw_sent = [], mw_buffer = []\<rparr>)) = map (WriteBlock 0) (blocks_of_bytes c)"
    using mw_writes_sent [of "[c]" 0] by simp
  have blocks: "blocks_of_bytes c = (if c = [] then [] else [c])" using short by (simp add: blocks_short WRITE_BUFFER_SIZE_def)
  have "\<exists>out. write_turns [map (WriteBlock 0) (blocks_of_bytes c) @ [Eof 0]] 0 = Ok out \<and> length out \<le> 13100"
    using short by (simp add: blocks write_turns.simps block_header_def Let_def)
  then show ?thesis
    by (auto simp: run_lepton_encoder_threads_def sample_quantization run multiplex_write_def work_is_done_def run_processor_def sent
        receive_results_def MAX_THREADS_SUPPORTED_BY_LEPTON_FORMAT_def) (simp add: sample_features_def compat_lepton_vector_write_def sample_platform_def)
qed

lemma sample_header_short:
  assumes "lh_rinfo lp = rinfo" "raw_jpeg_header rinfo = sample_header_bytes" "length (garbage_data rinfo) = 2" "rst_err rinfo = []"
    "rst_cnt rinfo = []" "\<not> early_eof_encountered rinfo" "length (lh_thread_handoff lp) = 1"
  shows "length (lepton_header_contents lp) \<le> 1000"
proof -
  obtain h where h: "lh_thread_handoff lp = [h]" using assms(7) by (auto simp: length_Suc_conv)
  have "length (serialize_handoff h) \<le> 100" by (simp add: serialize_handoff_def length_concat o_def sum_list_triv)
  then show ?thesis
    using assms by (simp add: lepton_header_contents_def write_lepton_jpeg_header_def write_lepton_pad_bit_def write_lepton_luma_splits_def
        write_lepton_jpeg_restarts_if_needed_def write_lepton_jpeg_restart_errors_if_needed_def
        write_lepton_early_eof_truncation_data_if_needed_def write_lepton_jpeg_garbage_if_needed_def serialize_def h marker_defs length_sample_header Let_def)
qed

section \<open>Whole files\<close>

text \<open>C40: A baseline JPEG file that \<open>encode_lepton\<close> turns into a Lepton file is what \<open>decode_lepton\<close> makes of that file:
  from some fuel on it ends, without an error, with the very bytes of the JPEG file, whatever pieces the Lepton file arrives
  in, whichever results of the threads are ready first, and with any number of segments. The lanes, the allocator and Zlib
  do what they document; both files are below 4 GB and the stored header within the limit; and the file is one that
  \<open>baseline_file_lossless\<close> covers: a scan of the whole frame, an end marker behind the header, no codes for short runs.\<close>

theorem lepton_file_restored:
  assumes "simd_laws (pf_simd P)" "simd16_laws (pf_simd16 P)" "\<forall>k. pf_alloc P k" "\<forall>x. pf_inflate P (pf_compress P x) = stream_of x"
    and "read_jpeg n k P B features (\<lambda>_ _ u. u) file i () = Some (Ok (lp, images))"
    and "encode_lepton n k P B features file i = Some (Ok lep)"
    and "unread i = file" "length file < 2 ^ 32" "length lep < 2 ^ 32" "81 < k"
    and "\<not> accept_invalid_dht features" "\<not> stop_reading_at_eoi features"
    and "length (pf_compress P (lepton_header_contents lp)) \<le> unat (max_jpeg_file_size features)"
    and "regular_scan (lh_jpeg_header lp)" "no_short_run_codes (lh_jpeg_header lp)"
    and "eoi_ahead (drop (2 + length (raw_jpeg_header (lh_rinfo lp))) file)"
    and "concat pieces = lep" "[] \<notin> set pieces"
  shows "\<exists>N. \<forall>m \<ge> N. decode_lepton m P ready pieces features = Some (Ok file)"
  by (rule file_restored [OF assms])

theorem lepton_file_restored_witness:
  "\<exists>n lep N. encode_lepton n 82 sample_platform sample_build sample_features sample_file (sample_input sample_file 0) = Some (Ok lep)
    \<and> (\<forall>m \<ge> N. decode_lepton m sample_platform (\<lambda>_. True) [take 40 lep, drop 40 lep] sample_features = Some (Ok sample_file))"
proof -
  from sample_file_is_read obtain N im r rinfo i' where s: "sample_read N im r rinfo i'" by blast
  note S = s [unfolded sample_read_def]
  define n where "n = max N 2"
  have n: "N \<le> n" "2 \<le> n" by (simp_all add: n_def)
  from sample_is_read [OF s n(1)] obtain lp where
    read: "read_jpeg n 82 sample_platform sample_build sample_features (\<lambda>_ _ u. u) sample_file (sample_input sample_file 0) ()
      = Some (Ok (lp, [im]))"
    and lp: "lh_jpeg_header lp = sample_header" "lh_rinfo lp = rinfo" "length (lh_thread_handoff lp) = 1"
    "luma_y_start (lh_thread_handoff lp ! 0) = 0" "luma_y_end (lh_thread_handoff lp ! 0) = 1" "length (lh_git_revision_prefix lp) = 4" by blast
  obtain h where h: "lh_thread_handoff lp = [h]" using lp(3) by (auto simp: length_Suc_conv)
  have single: "single_image im" and coll: "truncate_components rinfo = one_block_truncation" using S by blast+
  from sample_segment_coded [OF single _ _ n(2)] lp(4,5) obtain out where
    out: "run_lepton_encoder_threads n sample_platform sample_header one_block_truncation [h] [im] sample_features = Some (Ok out)"
    "length out \<le> 13100" by (auto simp: h)
  have contents: "length (lepton_header_contents lp) \<le> 1000" using sample_header_short [OF lp(2)] S lp(3) by blast
  have compress: "pf_compress sample_platform = (\<lambda>x. x)" by (simp add: sample_platform_def)
  define lep where "lep = write_lepton_header (\<lambda>x. x) sample_features lp @ out
    @ le_bytes 4 (of_nat (length (write_lepton_header (\<lambda>x. x) sample_features lp @ out) + 4) :: u32)"
  have written: "encode_lepton n 82 sample_platform sample_build sample_features sample_file (sample_input sample_file 0) = Some (Ok lep)"
    unfolding encode_lepton_def read by (simp add: lp(1,2) coll h out(1) compress lep_def Let_def)
  have "length (write_lepton_header (\<lambda>x. x) sample_features lp) \<le> 1031"
    using contents lp(6) by (simp add: write_lepton_header_def fixed_header_def LEPTON_FILE_HEADER_def LEPTON_HEADER_PROGRESSIVE_JPEG_TYPE_def
        LEPTON_HEADER_BASELINE_JPEG_TYPE_def LEPTON_HEADER_COMPLETION_MARKER_def Let_def)
  moreover have "40 < length (write_lepton_header (\<lambda>x. x) sample_features lp)"
    using S by (simp add: write_lepton_header_def lepton_header_contents_def write_lepton_jpeg_header_def lp(2) length_sample_header Let_def)
  ultimately have short: "length lep < 2 ^ 32" "40 < length lep" using out(2) by (simp_all add: lep_def)
  have "simd_laws (pf_simd sample_platform)" "simd16_laws (pf_simd16 sample_platform)"
    by (simp_all add: sample_platform_def lane_ops.simd_laws_axioms lane_ops16.simd16_laws_axioms)
  moreover have "length sample_file < 2 ^ 32" by (simp add: sample_file_def length_sample_header)
  moreover have "\<forall>k. pf_alloc sample_platform k" "\<forall>x. pf_inflate sample_platform (pf_compress sample_platform x) = stream_of x"
    by (simp_all add: sample_platform_def)
  moreover have "length (pf_compress sample_platform (lepton_header_contents lp)) \<le> unat (max_jpeg_file_size sample_features)"
    using contents by (simp add: compress)
  moreover have "eoi_ahead (drop (2 + length (raw_jpeg_header (lh_rinfo lp))) sample_file)"
    unfolding lp(2) using S by (intro sample_eoi_ahead) blast
  moreover have "concat [take 40 lep, drop 40 lep] = lep" "[] \<notin> set [take 40 lep, drop 40 lep]" "unread (sample_input sample_file 0) = sample_file"
    using short(2) by (auto simp: sample_input_def)
  ultimately have "\<exists>M. \<forall>m \<ge> M. decode_lepton m sample_platform (\<lambda>_. True) [take 40 lep, drop 40 lep] sample_features = Some (Ok sample_file)"
    using read written short(1) by (intro lepton_file_restored [where lp = lp and lep = lep and k = 82]) (simp_all add: lp(1) sample_regular sample_no_short)
  with written show ?thesis by blast
qed

end
