(* ===== verification/Spec2Isabelle.thy ===== *)
theory Spec2Isabelle
  imports Helpers Branch Arith_Coder Bool_Coder Quantization Coef_Model Block_Codec Row_Codec Row_Spec
    Row_Range Sample_Inputs Sample_Tables Jpeg_Properties Container_Properties File_Properties
begin

text \<open>
Lepton recompresses JPEG files: it decodes the Huffman codes of a JPEG to blocks of quantized
  coefficients and codes the blocks again with an adaptive arithmetic coder, and decompression
  restores the JPEG bit by bit. This development models the Rust library under \<open>src/rust/lib/src\<close>.

  \<^bold>\<open>The parts of the program and the theories that model them\<close>

  \<^item> \<open>lepton_error.rs\<close>, \<open>helpers.rs\<close>: theory \<open>Prelude\<close> has the exit codes and the result type.
    A result is \<open>Ok v\<close>, an exit code, or \<open>Panic\<close>, which stands for every failed assertion, index out
    of range and division by zero of the source. Theory \<open>Helpers\<close> has the bit functions. Machine
    integers are words of their width, and arithmetic wraps as it does in a release build.
  \<^item> \<open>structs/branch.rs\<close>: theory \<open>Branch\<close>, an adaptive bit probability in 16 bits.
  \<^item> \<open>structs/vpx_bool_writer.rs\<close>, \<open>structs/vpx_bool_reader.rs\<close>: theories \<open>Bool_Writer\<close> and
    \<open>Bool_Reader\<close>, the binary arithmetic coder with its 64-bit registers, carries and refills.
    Theory \<open>Arith_Coder\<close> is the coder they implement, intervals of natural numbers that are narrowed
    and shifted; \<open>represents\<close> and \<open>in_step\<close> are the refinement relations. Theory \<open>Bool_Coder\<close> puts
    the writer and the reader together: \<open>codes\<close> relates an encoding routine to the decoding
    routine that undoes it, with rules for sequences of routines, and the locale \<open>value_codec\<close>
    carries a pair of routines to sequences of values and whole streams. Every codec of the model is
    an interpretation of it.
  \<^item> \<open>consts.rs\<close>, \<open>structs/quantization_tables.rs\<close>: theory \<open>Quantization\<close>.
  \<^item> \<open>structs/model.rs\<close>: theory \<open>Coef_Model\<close>, the branches of the probability model and the coding of
    coefficients, counts and residuals.
  \<^item> the \<open>wide\<close> crate: theory \<open>Simd\<close>. Its operations on vectors of 8 lanes are a parameter, the record
    \<open>simd\<close>; the locale \<open>simd_laws\<close> states the laws of single lanes the code relies on, and \<open>lane_ops\<close>
    is the interpretation by operations on lists.
  \<^item> \<open>jpeg/block_based_image.rs\<close>: theories \<open>Aligned_Block\<close> (one block) and \<open>Block_Image\<close> (the blocks of
    a component, with \<open>structs/block_context.rs\<close> and \<open>jpeg/component_info.rs\<close>).
  \<^item> \<open>structs/probability_tables.rs\<close>, \<open>structs/idct.rs\<close>, \<open>structs/neighbor_summary.rs\<close>,
    \<open>enabled_features.rs\<close>: theory \<open>Predict\<close>, what the coder predicts from neighboring blocks.
  \<^item> \<open>structs/lepton_encoder.rs\<close>, \<open>structs/lepton_decoder.rs\<close>: theories \<open>Block_Codec\<close> (a block) and
    \<open>Row_Codec\<close> (a row of blocks).
  \<^item> \<open>jpeg/row_spec.rs\<close>, \<open>jpeg/truncate_components.rs\<close>: theory \<open>Row_Spec\<close>.
  \<^item> \<open>lepton_encode_row_range\<close> and \<open>lepton_decode_row_range\<close>: theory \<open>Row_Range\<close>, the loops over the
    rows of the segment of one thread. The callback of the decoder is a parameter that threads a state
    of its own.
  \<^item> \<open>jpeg/bit_writer.rs\<close>, \<open>jpeg/bit_reader.rs\<close>: theories \<open>Bit_Writer\<close> and \<open>Bit_Reader\<close>, the bit streams of
    a scan with their registers, refills and the stuffing of \<open>0xFF\<close>. Theory \<open>Bits\<close> has the lists of bits
    both are compared with: \<open>wrote\<close> says which bits a writer has taken, \<open>rd\<close> which bits are in front of a
    reader. A \<open>BufRead\<close> is its unread bytes and how many of them it shows at once; the refill is a parameter.
  \<^item> \<open>jpeg/jpeg_header.rs\<close>: theory \<open>Huffman\<close> has the code tables and the trees built from them, theory
    \<open>Jpeg_Header\<close> the parser of the segments, theory \<open>Header_Inv\<close> the invariant \<open>header_ok\<close> of every header it
    accepts.
  \<^item> \<open>jpeg/jpeg_position_state.rs\<close>: theory \<open>Scan_Position\<close>, the place of a block in a scan.
  \<^item> \<open>jpeg/jpeg_read.rs\<close> and \<open>jpeg/jpeg_write.rs\<close>: theories \<open>Scan_Block\<close> (a sequential block), \<open>Prog_Block\<close> (the
    blocks of progressive scans), \<open>Scan_Reader\<close>, \<open>Scan_Writer\<close> (a scan) and \<open>Jpeg_Reader\<close> (a file).
  \<^item> What they are compared with: \<open>Block_Decode\<close> has the code of a block as the standard defines it and the
    decoder's two directions, \<open>Scan_Code\<close> the code of a scan (\<open>scan_code\<close>: the blocks in order, the padding and
    the markers) and the writer, \<open>Scan_Path\<close> the places on the way through it, \<open>Scan_Interval\<close> and \<open>Scan_Lossless\<close> the
    reader, \<open>Scan_Handoff\<close> the partitions it records, \<open>Scan_Restored\<close> the reader on the code of given
    blocks, \<open>Scan_Ends\<close> its termination, \<open>Jpeg_Lossless\<close> and \<open>Stored_Images\<close> whole files, \<open>Jpeg_Properties\<close> the properties.
  \<^item> \<open>structs/thread_handoff.rs\<close>, \<open>structs/lepton_header.rs\<close>: theories \<open>Thread_Handoff\<close> (the segments of the threads) and
    \<open>Lepton_Header\<close>, over the streams of \<open>Byte_Stream\<close>; \<open>Header_Roundtrip\<close> has both directions together. Zlib is a
    parameter, a function to a stream that may end with an error.
  \<^item> \<open>structs/partial_buffer.rs\<close>, \<open>structs/multiplexer.rs\<close>: theories \<open>Partial_Buffer\<close> and \<open>Multiplexer\<close>. A channel is the list of
    the messages that have been sent and not received, a thread a function of what it is sent. What depends on the
    schedule is how much has arrived when a channel is polled: \<open>ready\<close>, an arbitrary answer to each poll. Theory
    \<open>Multiplex_Stream\<close> compares the channels with streams of bytes.
  \<^item> \<open>structs/lepton_file_reader.rs\<close>: theory \<open>File_Reader\<close>, the state machine that is fed a file in pieces and its threads. What
    the threads will have been sent in the end, \<open>final\<close>, is a parameter of the machine that \<open>decode_lepton\<close> computes from
    the file. Theory \<open>Reader_Runs\<close> describes a run by the whole input, \<open>decoded\<close>.
  \<^item> \<open>structs/lepton_file_writer.rs\<close>: theory \<open>File_Writer\<close>, with the arithmetic of \<open>f32\<close> that splits the rows to threads;
    theory \<open>Thread_Splits\<close> shows that the splits are in order. The versions the build writes into a file are a
    parameter, \<open>Build\<close>. Theory \<open>Container_Properties\<close> has the properties of these parts.
  \<^item> All parts together: \<open>Segment_Writer\<close>, \<open>Segment_Threads\<close> and \<open>Segment_Decode\<close> follow one segment from the encoder
    thread to the bytes of the scan that its decoder thread writes, \<open>File_Lossless\<close> a whole file from \<open>encode_lepton\<close> to
    \<open>decode_lepton\<close>, and \<open>File_Properties\<close> has the property with a file of one block.
  \<^item> Theory \<open>Coded_Length\<close> bounds how many bytes the code of a row can take.
  \<^item> Theories \<open>Sample_Inputs\<close>, \<open>Sample_Tables\<close> and \<open>Sample_Scan\<close> have the small inputs on which the properties are
    evaluated, among them a JPEG file of one block.

  \<^bold>\<open>State\<close>

  A mutable reference of the source is a value that is passed in and returned: the writer and the
  reader, the model, the cache of summaries, the image. A mutable borrow of branches inside the model is
  a getter and a setter. Loops are recursion on the list or the counter they run over; \<open>round_up_lines\<close>, a
  loop without a bound in its head, has a termination proof. The two loops over rows leave only at a row
  behind the segment: they take fuel, and \<open>range_ends\<close> shows that one unit more than the number of rows
  up to the end of the segment is enough. The loops of the JPEG reader take fuel for the blocks of a scan and for the
  steps in a block; \<open>first_scan_ends\<close> shows how much is enough on every input (one more than the blocks of the
  scan, and 322: 64 coefficients, 256 nodes of a tree, and the refills), and on an accepted block 81 steps do.
  The stream of the reader of the arithmetic code is a list of bytes that ends, after which the source reads
  zeros. Parameters stand for what is not under \<open>src\<close>: the lane operations, how much of the stream a
  \<open>BufRead\<close> shows, how much a vector allocates, Zlib, the parallelism of the thread pool (the record \<open>Platform\<close>), and the
  callbacks of the caller.

  \<^bold>\<open>What the properties show\<close>

  Blocks and rows that are encoded are decoded again, with the model, the
  summaries and the cache on both sides equal, so that the next block can be decoded. The same for every
  code the blocks consist of. The arithmetic coder refines intervals, its writer never loses a
  carry, what \<open>flush_non_final_data\<close> writes early is final, the bytes after \<open>finish\<close> denote a number in
  the interval whatever follows them, and the reader follows the writer. Branch
  counters never reach 0. Indices into the model stay in range, and coefficients out of range are
  refused with the error of the source. The order of rows is that of the MCU layout, and a component is cut to
  the least height of whole MCU rows that holds the blocks that are there.

  A baseline file that is read is restored byte by byte from what is stored (\<open>baseline_file_lossless\<close>). Between
  the reader and the writer stands \<open>scan_code\<close>, a description of the scan that mentions neither: what the reader
  consumes is the code of the blocks it stores, what the writer writes is the code of the blocks it is given, and
  the reader restores the blocks of every code. Accepted headers satisfy the invariant the loops need, the
  positions are those of the standard, and the decoder ends on every input.

  The header of a Lepton file is read back as it was written, also of a file that was cut off; the segments of the threads cover the rows without a
  gap; what the threads write is one stream that is taken apart again; and an accepted header has the shape the
  decoding threads rely on, whatever bytes it was made of. The sum of all of it: a baseline JPEG file that
  \<open>encode_lepton\<close> accepts comes out of \<open>decode_lepton\<close> again, byte by byte, with enough fuel
  (\<open>lepton_file_restored\<close>). That is the contract of the program.

  \<^bold>\<open>Not modelled\<close>

  The operating system: threads and their pool, files, the command line tool, the bindings. The features \<open>detailed_tracing\<close>
  and \<open>compression_stats\<close> only observe, as do the metrics of CPU time. \<open>decode_lepton_file_image\<close> dumps a file for the
  command line tool. Zlib and the hash of the standard library are not under \<open>src\<close>. The progressive scans are
  modelled; the properties of whole scans are about baseline files.
\<close>

section \<open>Segments\<close>

text \<open>C2: What a thread encodes is decoded again. For a segment of whole MCU rows of an image with up to
  three components: if the encoder accepts the segment, the decoder returns, for each component, the
  blocks of its rows in the segment, and it calls back once for every MCU row, in order, with the images
  that are complete up to that row.\<close>

theorem range_roundtrip:
  assumes "simd_laws S" "segment_ok es qts coll rows r0 r1 min_y max_y (is_last \<and> full)"
    and "same_layout es infos" "\<forall>k. alloc k" "mult = mcu_rows es (mcu_count_vertical coll)"
    and "caps = segment_caps alloc infos min_y (if is_last then bcv (infos ! 0) else max_y)"
    and "run_callbacks cb es mult r0 caps [r0..<r1] u = Ok u'"
    and "lepton_encode_row_range fuel S qts es coll min_y max_y is_last full features = Some (Ok c)"
  shows "\<exists>images. lepton_decode_row_range fuel S alloc qts infos (length es) coll c min_y max_y is_last full
      features cb u = Some (Ok (images, u')) \<and> length images = length es \<and>
    (\<forall>i<length es. image (images ! i) = map (block_no (es ! i))
      [unat (block_width (es ! i)) * (r0 * mult i)..<unat (block_width (es ! i)) * (r1 * mult i)])"
proof -
  let ?M = "\<Sum>j<length es. mult j"
  note S = assms(2) [unfolded segment_ok_def Let_def, folded assms(5)]
  have pos: "0 < ?M" using S member_le_sum [of 0 "{..<length es}" mult] by auto
  have "r0 * mult i \<le> r1 * mult i" for i using S by simp
  then have "image (segment_images es mult r0 caps (r1 * ?M) ! i) = map (block_no (es ! i))
      [unat (block_width (es ! i)) * (r0 * mult i)..<unat (block_width (es ! i)) * (r1 * mult i)]" if "i < length es" for i
    using that by (simp add: segment_images_nth segment_image_def rows_done_mcu pos max_absorb2)
  with simd_laws.range_decodes [OF assms] show ?thesis by (auto simp: segment_images_def)
qed

theorem range_roundtrip_witness:
  "\<exists>c images. lepton_encode_row_range 2 lane_ops [tables_of_ones] [empty_image] one_block_truncation 0 1 True True
      compat_lepton_vector_write = Some (Ok c)
    \<and> lepton_decode_row_range 2 lane_ops (\<lambda>_. True) [tables_of_ones] [one_block_component] (length [empty_image])
        one_block_truncation c 0 1 True True compat_lepton_vector_write
        (\<lambda>row _ rows. Ok (rows @ [mcu_row_index row])) [] = Some (Ok (images, [0]))
    \<and> image (images ! 0) = [EMPTY_BLOCK]"
proof -
  obtain c where c: "lepton_encode_row_range 2 lane_ops [tables_of_ones] [empty_image] one_block_truncation 0 1 True True
      compat_lepton_vector_write = Some (Ok c)" using one_block_encoded by blast
  have seg: "segment_ok [empty_image] [tables_of_ones] one_block_truncation 1 0 1 0 1 (True \<and> True)"
    using one_block_segment by simp
  have call: "run_callbacks (\<lambda>row _ rows. Ok (rows @ [mcu_row_index row])) [empty_image] mult 0 caps [0..<1] [] = Ok [0]"
    for mult caps by (simp add: mcu_row_spec_def)
  from range_roundtrip [OF lane_ops.simd_laws_axioms seg one_block_layout _ refl refl call c, of "\<lambda>_. True"] c
  show ?thesis
    by (fastforce simp: mcu_rows_def empty_image_def one_block_truncation_def block_no_def blocks_of_def)
qed

text \<open>C3: Both row loops end. With more fuel than there are rows up to the end of the segment, neither of
  them runs out of fuel: the encoder for every content of the images, the decoder for every stream
  of bytes and every callback.\<close>

theorem range_ends:
  assumes "segment_ok es qts coll rows r0 r1 min_y max_y (is_last \<and> full)" "same_layout es infos"
    and "r1 * (\<Sum>j<length es. mcu_rows es (mcu_count_vertical coll) j) < fuel"
  shows "lepton_encode_row_range fuel S qts es coll min_y max_y is_last full features \<noteq> None
    \<and> lepton_decode_row_range fuel S alloc qts' infos (length es) coll c min_y max_y is_last full features cb u \<noteq> None"
  by (rule conjI [OF range_ends_enc [OF assms(1,3)] range_ends_dec [OF assms]])

theorem range_ends_witness:
  "lepton_decode_row_range 2 lane_ops (\<lambda>_. True) [tables_of_ones] [one_block_component] (length [empty_image])
      one_block_truncation [1, 2, 3] 0 1 True True compat_lepton_vector_write (\<lambda>row images n. Ok (n + 1)) (0 :: nat) \<noteq> None"
proof -
  have seg: "segment_ok [empty_image] [tables_of_ones] one_block_truncation 1 0 1 0 1 (True \<and> True)"
    using one_block_segment by simp
  have "1 * (\<Sum>j<length [empty_image]. mcu_rows [empty_image] (mcu_count_vertical one_block_truncation) j) < 2"
    by (simp add: mcu_rows_def empty_image_def one_block_truncation_def)
  show ?thesis by (rule conjunct2 [OF range_ends [OF seg one_block_layout \<open>_ < 2\<close>]])
qed

section \<open>Blocks and rows\<close>

text \<open>C24: A block the encoder accepts is restored. For every neighborhood, prediction tables, model
  and quantization tables: if coding the block into a fresh stream succeeds, then decoding the bytes
  of the stream returns the same block, the same summary for the blocks below and to the right, and
  the same updated model; and the block was in the range of the model.\<close>

theorem block_roundtrip:
  assumes "simd_laws S" "model_ok m" "color_index < 2" "neighbors_ok nd" "block_ok b" "tables_ok qt"
    and "encode_stream (write_coefficient_block S all_p pt color_index nd b qt features m) = Ok ((ns, m'), c)"
  shows "decode_stream (read_coefficient_block S all_p pt color_index nd qt features m) c = Ok (b, (ns, m'))
    \<and> summary_ok ns \<and> model_ok m' \<and> ac_ok b"
  using codes_if_stream(1) [OF simd_laws.codes_coefficient_block [OF assms(1-6), where g = False] assms(7)] by auto

theorem block_roundtrip_witness:
  "\<exists>ns m' c. encode_stream (write_coefficient_block lane_ops False NO_NEIGHBORS 0 no_neighbors EMPTY_BLOCK
      tables_of_ones compat_lepton_vector_write Model_default) = Ok ((ns, m'), c)
    \<and> decode_stream (read_coefficient_block lane_ops False NO_NEIGHBORS 0 no_neighbors
      tables_of_ones compat_lepton_vector_write Model_default) c = Ok (EMPTY_BLOCK, (ns, m'))"
proof -
  obtain ns m' c where e: "encode_stream (write_coefficient_block lane_ops False NO_NEIGHBORS 0 no_neighbors EMPTY_BLOCK
      tables_of_ones compat_lepton_vector_write Model_default) = Ok ((ns, m'), c)"
    using codes_if_stream(2) [OF codes_empty_block] by fastforce
  have qt: "tables_ok tables_of_ones" by (simp add: tables_of_ones_def tables_ok_new)
  from block_roundtrip [OF lane_ops.simd_laws_axioms model_ok_default _ no_neighbors_ok _ qt e] e
  show ?thesis by auto
qed

text \<open>C25: The encoder accepts a block whose coefficients have at most 11 bits, when no quantization
  factor is 0 and the residual of the DC is in range.\<close>

theorem block_accepted:
  assumes "simd_laws S" "model_ok m" "color_index < 2" "neighbors_ok nd" "tables_ok qt" "ac_ok b"
    and "\<forall>c. 0 < c \<and> c < 64 \<longrightarrow> quantization_table_transposed qt ! c \<noteq> 0"
    and "dc_codable S all_p pt nd b qt features"
  shows "\<exists>s c. encode_stream (write_coefficient_block S all_p pt color_index nd b qt features m) = Ok (s, c)"
proof -
  have b: "block_ok b" using assms(6) by (simp add: ac_ok_def)
  show ?thesis
    using codes_if_stream(2) [OF simd_laws.codes_coefficient_block [OF assms(1-4) b assms(5), where g = True]]
      assms(6-8) by blast
qed

theorem block_accepted_witness:
  "\<exists>s c. encode_stream (write_coefficient_block lane_ops False NO_NEIGHBORS 0 no_neighbors EMPTY_BLOCK
    tables_of_ones compat_lepton_vector_write Model_default) = Ok (s, c)"
  by (rule block_accepted [OF lane_ops.simd_laws_axioms model_ok_default _ no_neighbors_ok _ ac_ok_empty _ empty_block_codable])
    (simp_all add: tables_of_ones_transposed tables_ok_new tables_of_ones_def [THEN arg_cong [of _ _ tables_ok]])

text \<open>C26: A row the encoder accepts is restored: the decoder, whose image holds the blocks before the
  row, appends the blocks of the row, up to the size of the component; the cache of summaries and the
  model are those of the encoder.\<close>

theorem row_roundtrip:
  assumes "simd_laws S" "image_ok e" "models_for is_top l md" "tables_ok qt" "color_index < 2" "decoded_of e d"
    and "length (image d) + unat (block_width e) \<le> capacity d"
    and "end_pos d = unat (block_width e) * unat y"
    and "\<not> is_top \<Longrightarrow> unat (block_width e) \<le> length (image d)"
    and "2 * unat (block_width e) < 2 ^ 32" "unat (block_width e) * (unat y + 1) < 2 ^ 32"
    and "cache_ok (unat (block_width e)) cache" "model_ok m"
    and "encode_stream (process_row S l md color_index e qt y limit features (cache, m)) = Ok (s, c)"
  shows "decode_stream (decode_row_wrapper S l md color_index qt y limit features d (cache, m)) c =
    Ok (append_blocks d (map (block_no e) [unat (block_width e) * unat y..<unat (block_width e) * unat y
          + row_count (unat (block_width e)) (unat (block_width e) * unat y) (unat limit)]), s)"
  using codes_if_stream(1) [OF simd_laws.codes_row [OF assms(1-8) _ assms(10-13) refl] assms(14)] assms(9) by blast

theorem row_roundtrip_witness:
  "\<exists>s c. encode_stream (process_row lane_ops NO_NEIGHBORS LEFT_ONLY 0 empty_image tables_of_ones 0 1
      compat_lepton_vector_write ([NEIGHBOR_DATA_EMPTY, NEIGHBOR_DATA_EMPTY], Model_default)) = Ok (s, c)
    \<and> decode_stream (decode_row_wrapper lane_ops NO_NEIGHBORS LEFT_ONLY 0 tables_of_ones 0 1
      compat_lepton_vector_write empty_image ([NEIGHBOR_DATA_EMPTY, NEIGHBOR_DATA_EMPTY], Model_default)) c =
      Ok (append_blocks empty_image [EMPTY_BLOCK], s)"
proof -
  obtain s c where e: "encode_stream (process_row lane_ops NO_NEIGHBORS LEFT_ONLY 0 empty_image tables_of_ones 0 1
      compat_lepton_vector_write ([NEIGHBOR_DATA_EMPTY, NEIGHBOR_DATA_EMPTY], Model_default)) = Ok (s, c)"
    using empty_row_accepted by blast
  have "decode_stream (decode_row_wrapper lane_ops NO_NEIGHBORS LEFT_ONLY 0 tables_of_ones 0 1
      compat_lepton_vector_write empty_image ([NEIGHBOR_DATA_EMPTY, NEIGHBOR_DATA_EMPTY], Model_default)) c =
    Ok (append_blocks empty_image (map (block_no empty_image) [unat (block_width empty_image) * unat (0 :: u32)..<
      unat (block_width empty_image) * unat (0 :: u32)
        + row_count (unat (block_width empty_image)) (unat (block_width empty_image) * unat (0 :: u32)) (unat (1 :: u32))]), s)"
    by (rule row_roundtrip [where is_top = True, OF lane_ops.simd_laws_axioms _ _ _ _ _ _ _ _ _ _ _ model_ok_default e])
      (simp_all add: image_ok_def empty_image_def models_for_def tables_of_ones_def tables_ok_new decoded_of_def
        end_pos_def cache_ok_def summary_ok_empty)
  then show ?thesis using e by (auto simp: empty_image_def block_no_def blocks_of_def)
qed

section \<open>Coefficients\<close>

text \<open>The coefficients of the 7x7 block coded one after the other in one context come back, with
  the same update of the model.\<close>

theorem coef_roundtrip:
  assumes "per_color_ok m" "zig49 < 49" "bin < 9" "len < 12" "list_all (\<lambda>coef. \<bar>sint coef\<bar> < 2 ^ 11) coefs"
  shows "\<exists>m' c. encode_stream (encode_all (\<lambda>coef. write_coef coef zig49 bin len) coefs m) = Ok (m', c)
    \<and> decode_stream (decode_all (read_coef zig49 bin len) (length coefs) m) c = Ok (coefs, m') \<and> per_color_ok m'"
  using coef_codec.stream [of coefs m zig49 bin len] assms by auto

theorem coef_roundtrip_witness:
  "\<exists>m' c. encode_stream (encode_all (\<lambda>coef. write_coef coef 3 2 5) [17, 0, -1] ModelPerColor_default) = Ok (m', c)
    \<and> decode_stream (decode_all (read_coef 3 2 5) (length [17, 0, -1 :: i16]) ModelPerColor_default) c
      = Ok ([17, 0, -1], m') \<and> per_color_ok m'"
  by (rule coef_roundtrip [OF per_color_ok_default]) simp_all

text \<open>The edge coefficients come back, whatever the prediction and the noise thresholds.\<close>

theorem edge_coefficient_roundtrip:
  assumes "per_color_ok m" "tables_ok qt" "zig15offset < 14" "n \<noteq> 0" "unat n \<le> 7"
    and "list_all (\<lambda>coef. \<bar>sint coef\<bar> < 2 ^ 11) coefs"
  shows "\<exists>m' c. encode_stream (encode_all (\<lambda>coef. write_edge_coefficient qt coef zig15offset n best_prior) coefs m) = Ok (m', c)
    \<and> decode_stream (decode_all (read_edge_coefficient qt zig15offset n best_prior) (length coefs) m) c = Ok (coefs, m')
    \<and> per_color_ok m'"
  using edge_codec.stream [of coefs m qt zig15offset n best_prior] assms by auto

theorem edge_coefficient_roundtrip_witness:
  "\<exists>m' c. encode_stream (encode_all (\<lambda>coef. write_edge_coefficient tables_of_ones coef 2 3 (- 40)) [700, - 3] ModelPerColor_default) = Ok (m', c)
    \<and> decode_stream (decode_all (read_edge_coefficient tables_of_ones 2 3 (- 40)) (length [700, - 3 :: i16]) ModelPerColor_default) c
      = Ok ([700, - 3], m') \<and> per_color_ok m'"
  by (rule edge_coefficient_roundtrip [OF per_color_ok_default])
    (simp_all add: tables_ok_new tables_of_ones_def)

text \<open>The DC residuals come back.\<close>

theorem dc_residual_roundtrip:
  assumes "model_ok m" "color_index < 2" "list_all (\<lambda>coef. \<bar>sint coef\<bar> < 2 ^ 11) coefs"
  shows "\<exists>m' c. encode_stream (encode_all (\<lambda>coef. write_dc color_index coef u u2) coefs m) = Ok (m', c)
    \<and> decode_stream (decode_all (read_dc color_index u u2) (length coefs) m) c = Ok (coefs, m') \<and> model_ok m'"
  using dc_codec.stream [of coefs m color_index u u2] assms by auto

theorem dc_residual_roundtrip_witness:
  "\<exists>m' c. encode_stream (encode_all (\<lambda>coef. write_dc 1 coef (- 9) 300) [1024, - 5, 0] Model_default) = Ok (m', c)
    \<and> decode_stream (decode_all (read_dc 1 (- 9) 300) (length [1024, - 5, 0 :: i16]) Model_default) c
      = Ok ([1024, - 5, 0], m') \<and> model_ok m'"
  by (rule dc_residual_roundtrip [OF model_ok_default]) simp_all

text \<open>The number of nonzero coefficients of the 7x7 block comes back.\<close>

theorem count_7x7_roundtrip:
  assumes "per_color_ok m" "unat context_bin < 9" "list_all (\<lambda>n. unat n < 64) ns"
  shows "\<exists>m' c. encode_stream (encode_all (\<lambda>n. write_non_zero_7x7_count context_bin n) ns m) = Ok (m', c)
    \<and> decode_stream (decode_all (read_non_zero_7x7_count context_bin) (length ns) m) c = Ok (ns, m')
    \<and> per_color_ok m'"
  using count7x7_codec.stream [of ns m context_bin] assms by auto

theorem count_7x7_roundtrip_witness:
  "\<exists>m' c. encode_stream (encode_all (\<lambda>n. write_non_zero_7x7_count 4 n) [49, 0] ModelPerColor_default) = Ok (m', c)
    \<and> decode_stream (decode_all (read_non_zero_7x7_count 4) (length [49, 0 :: u8]) ModelPerColor_default) c
      = Ok ([49, 0], m') \<and> per_color_ok m'"
  by (rule count_7x7_roundtrip [OF per_color_ok_default]) simp_all

text \<open>So do the numbers of nonzero coefficients of the edges.\<close>

theorem count_edge_roundtrip:
  assumes "per_color_ok m" "unat est_eob < 8" "unat bin < 8" "list_all (\<lambda>n. unat n < 8) ns"
  shows "\<exists>m' c. encode_stream (encode_all (\<lambda>n. write_non_zero_edge_count horizontal est_eob bin n) ns m) = Ok (m', c)
    \<and> decode_stream (decode_all (read_non_zero_edge_count horizontal est_eob bin) (length ns) m) c = Ok (ns, m')
    \<and> per_color_ok m'"
  using edge_count_codec.stream [of ns m est_eob bin horizontal] assms by auto

theorem count_edge_roundtrip_witness:
  "\<exists>m' c. encode_stream (encode_all (\<lambda>n. write_non_zero_edge_count True 7 1 n) [7, 3] ModelPerColor_default) = Ok (m', c)
    \<and> decode_stream (decode_all (read_non_zero_edge_count True 7 1) (length [7, 3 :: u8]) ModelPerColor_default) c
      = Ok ([7, 3], m') \<and> per_color_ok m'"
  by (rule count_edge_roundtrip [OF per_color_ok_default]) simp_all

text \<open>C27: An edge coefficient of more than 11 bits is refused with the error the code names, and
  nothing of the model is looked up out of range.\<close>

theorem edge_coefficient_refused:
  assumes "per_color_ok m" "zig15offset < 14" "n \<noteq> 0" "unat n \<le> 7" "2 ^ 11 \<le> \<bar>sint coef\<bar>"
  shows "write_edge_coefficient qt coef zig15offset n best_prior m w = err_exit_code CoefficientOutOfRange"
  by (rule write_edge_coefficient_error [OF assms])

theorem edge_coefficient_refused_witness:
  "\<exists>w. VPXBoolWriter_new = Ok w \<and>
    write_edge_coefficient tables_of_ones (- 2048) 0 1 0 ModelPerColor_default w = err_exit_code CoefficientOutOfRange"
proof -
  obtain w where "VPXBoolWriter_new = Ok w" using VPXBoolWriter_new by blast
  moreover have "write_edge_coefficient tables_of_ones (- 2048) 0 1 0 ModelPerColor_default w
      = err_exit_code CoefficientOutOfRange"
    by (rule edge_coefficient_refused [OF per_color_ok_default]) simp_all
  ultimately show ?thesis by blast
qed

section \<open>The arithmetic coder\<close>

text \<open>C28: A sequence of bits, coded with one adaptive branch from the first byte of a stream to
  its end, is decoded again, and the branch is the same on both sides.\<close>

theorem bits_roundtrip:
  assumes "branch_ok b"
  shows "\<exists>b' c. encode_stream (encode_all put_bit xs b) = Ok (b', c)
    \<and> decode_stream (decode_all get_bit (length xs) b) c = Ok (xs, b') \<and> branch_ok b'"
  using bit_codec.stream [of xs b] assms by (simp add: list.pred_True)

theorem bits_roundtrip_witness:
  "\<exists>b' c. encode_stream (encode_all put_bit [True, False, False, True] Branch_new) = Ok (b', c)
    \<and> decode_stream (decode_all get_bit (length [True, False, False, True]) Branch_new) c
      = Ok ([True, False, False, True], b') \<and> branch_ok b'"
  by (rule bits_roundtrip) simp

text \<open>Values coded by a grid of branches come back (\<open>put_grid\<close>, \<open>get_grid\<close>).\<close>

theorem grid_roundtrip:
  assumes "list_all (\<lambda>v. unat v < 2 ^ n) vs" "length bs = 2 ^ n" "1 \<le> n" "n \<le> 7" "branches_ok bs"
  shows "\<exists>bs' c. encode_stream (encode_all put_grid vs bs) = Ok (bs', c)
    \<and> decode_stream (decode_all (\<lambda>bs r. bindR (get_grid bs r) (\<lambda>(v, bs, r). Ok (of_nat v, bs, r))) (length vs) bs) c
      = Ok (vs, bs')"
  using grid_codec.stream [of n vs bs] assms by auto

theorem grid_roundtrip_witness:
  "\<exists>bs' c. encode_stream (encode_all put_grid [5, 0, 7] (replicate 8 Branch_new)) = Ok (bs', c)
    \<and> decode_stream (decode_all (\<lambda>bs r. bindR (get_grid bs r) (\<lambda>(v, bs, r). Ok (of_nat v, bs, r)))
        (length [5, 0, 7 :: u8]) (replicate 8 Branch_new)) c = Ok ([5, 0, 7 :: u8], bs')"
  by (rule grid_roundtrip [where n = 3]) (simp_all add: branches_ok_def)

text \<open>Values coded in unary come back, the longest code, which has no end mark, included.\<close>

theorem unary_roundtrip:
  assumes "list_all (\<lambda>v. v \<le> length bs) vs" "length bs \<le> 14" "branches_ok bs"
  shows "\<exists>bs' c. encode_stream (encode_all put_unary_encoded vs bs) = Ok (bs', c)
    \<and> decode_stream (decode_all get_unary_encoded (length vs) bs) c = Ok (vs, bs')"
  using unary_codec.stream [of "length bs" vs bs] assms by auto

theorem unary_roundtrip_witness:
  "\<exists>bs' c. encode_stream (encode_all put_unary_encoded [11, 0, 4] (replicate 11 Branch_new)) = Ok (bs', c)
    \<and> decode_stream (decode_all get_unary_encoded (length [11, 0, 4 :: nat]) (replicate 11 Branch_new)) c
      = Ok ([11, 0, 4], bs')"
  by (rule unary_roundtrip) (simp_all add: branches_ok_def)

text \<open>Values coded by their \<open>n\<close> bits come back (\<open>put_n_bits\<close>, \<open>get_n_bits\<close>).\<close>

theorem n_bits_roundtrip:
  assumes "list_all (\<lambda>v. v < 2 ^ n) vs" "n \<le> length bs" "branches_ok bs"
  shows "\<exists>bs' c. encode_stream (encode_all (\<lambda>v. put_n_bits v n) vs bs) = Ok (bs', c)
    \<and> decode_stream (decode_all (get_n_bits n) (length vs) bs) c = Ok (vs, bs')"
  using n_bits_codec.stream [of n vs bs] assms by auto

theorem n_bits_roundtrip_witness:
  "\<exists>bs' c. encode_stream (encode_all (\<lambda>v. put_n_bits v 3) [6, 1] (replicate 10 Branch_new)) = Ok (bs', c)
    \<and> decode_stream (decode_all (get_n_bits 3) (length [6, 1 :: nat]) (replicate 10 Branch_new)) c = Ok ([6, 1], bs')"
  by (rule n_bits_roundtrip) (simp_all add: branches_ok_def)

text \<open>C29: A writer always stands for an interval of code strings, and \<open>put_bit\<close> never fails: it
  narrows the interval to the part of the bit, as the abstract coder does, carries included.\<close>

theorem put_bit_narrows:
  assumes "writer_rep w i" "branch_ok b"
  shows "\<exists>w'. put_bit d b w = Ok (record_and_update_bit d b, w')
    \<and> writer_rep w' (narrow d (unat (get_probability b)) i)"
  using emits_put_bit [OF assms(2), of d] assms(1) by (auto simp: emits_def)

theorem put_bit_narrows_witness:
  "\<exists>w w'. VPXBoolWriter_new = Ok w \<and> put_bit True Branch_new w = Ok (record_and_update_bit True Branch_new, w')
    \<and> writer_rep w' (narrow True (unat (get_probability Branch_new)) start_interval)"
proof -
  obtain w where w: "VPXBoolWriter_new = Ok w" "writer_rep w start_interval" using VPXBoolWriter_new by blast
  from put_bit_narrows [OF w(2) branch_ok_new, of True] w(1) show ?thesis by blast
qed

text \<open>C30: Flushing the buffer between the rows changes neither the bytes produced so far nor the
  interval, so later carries still reach their byte.\<close>

theorem flush_keeps_interval:
  assumes "writer_rep w i"
  shows "\<exists>w'. flush_non_final_data w = Ok w' \<and> writer_rep w' i \<and> writer w' @ buffer w' = writer w @ buffer w"
  by (rule flush_represents_same [OF assms])

theorem flush_keeps_interval_witness:
  "\<exists>w w'. VPXBoolWriter_new = Ok w \<and> flush_non_final_data w = Ok w' \<and> writer_rep w' start_interval
    \<and> writer w' @ buffer w' = writer w @ buffer w"
proof -
  obtain w where w: "VPXBoolWriter_new = Ok w" "writer_rep w start_interval" using VPXBoolWriter_new by blast
  from flush_keeps_interval [OF w(2)] w(1) show ?thesis by blast
qed

text \<open>C31: \<open>finish\<close> adds bytes to those written before, and whatever bytes follow them, all of them together denote
  a number inside the writer's interval.\<close>

theorem finish_inside:
  assumes "writer_rep w i"
  shows "\<exists>w' added. finish w = Ok w' \<and> writer w' = writer w @ added \<and> (\<forall>more. inside i (writer w' @ more))"
  by (rule finish_inside_any [OF assms])

theorem finish_inside_witness:
  "\<exists>w w'. VPXBoolWriter_new = Ok w \<and> finish w = Ok w' \<and> inside start_interval (writer w')
    \<and> inside start_interval (writer w' @ [0xFF, 0x01])"
proof -
  obtain w where w: "VPXBoolWriter_new = Ok w" "writer_rep w start_interval" using VPXBoolWriter_new by blast
  from finish_inside [OF w(2)] w(1) show ?thesis by (metis append_Nil2)
qed

text \<open>C32: A reader of a code string inside the interval of a bit decodes that bit, and then stands
  for the narrowed interval, refilling its value from the stream when needed.\<close>

theorem get_bit_decides:
  assumes "reader_rep c r i" "interval_ok i" "branch_ok b" "inside (narrow d (unat (get_probability b)) i) c"
  shows "\<exists>r'. get_bit b r = Ok (d, record_and_update_bit d b, r')
    \<and> reader_rep c r' (narrow d (unat (get_probability b)) i)"
  using absorbs_get_bit [OF assms(3), of d] assms by (auto simp: absorbs_def)

theorem get_bit_decides_witness:
  "\<exists>c r r'. VPXBoolReader_new c = Ok r \<and> get_bit Branch_new r = Ok (True, record_and_update_bit True Branch_new, r')"
proof -
  obtain w where w: "VPXBoolWriter_new = Ok w" "writer_rep w start_interval" using VPXBoolWriter_new by blast
  obtain w1 where w1: "writer_rep w1 (narrow True (unat (get_probability Branch_new)) start_interval)"
    using emits_put_bit [OF branch_ok_new, of True] w(2) by (auto simp: emits_def)
  obtain w2 :: VPXBoolWriter where w2: "inside (narrow True (unat (get_probability Branch_new)) start_interval) (writer w2)"
    using finish_value [OF w1] by blast
  have "inside start_interval (writer w2)"
    using inside_narrow(1) [OF interval_ok_start _ _ w2] get_probability_bounds [OF branch_ok_new] by simp
  then obtain r where r: "VPXBoolReader_new (writer w2) = Ok r" "reader_rep (writer w2) r start_interval"
    using VPXBoolReader_new unfolding start_interval_def by blast
  from get_bit_decides [OF r(2) interval_ok_start branch_ok_new w2] r(1) show ?thesis by blast
qed

text \<open>The reader's 64-bit multiplication by a probability is the 8-bit split of the writer,
  in the top byte.\<close>

theorem mul_prob_is_split:
  assumes "unat r = w * 2 ^ 56" "2 \<le> w" "w \<le> 255" "1 \<le> unat (p :: u8)" "unat p \<le> 255"
  shows "unat (mul_prob r (ucast p)) = split_point w (unat p) * 2 ^ 56"
  by (rule mul_prob_split [OF assms])

theorem mul_prob_is_split_witness:
  "unat (mul_prob (200 * 2 ^ 56) (ucast (77 :: u8))) = split_point 200 (unat (77 :: u8)) * 2 ^ 56"
  by (rule mul_prob_is_split) simp_all

section \<open>Adaptive branches\<close>

text \<open>C33: The packed 16-bit update, with its rotations and carries, is the update of two counters
  that are halved, rounding up, when one overflows.\<close>

theorem branch_update_refines: "branch_abs (record_and_update_bit bt b) = ref_update bt (branch_abs b)"
  by (rule record_and_update_bit_refines)

text \<open>C34: From the initial branch on, no counter is ever 0 and the probability is between 1 and 255,
  so both bits keep a part of every interval.\<close>

theorem branch_always_ok:
  "let b = fold record_and_update_bit xs Branch_new
   in branch_ok b \<and> 1 \<le> unat (get_probability b) \<and> unat (get_probability b) \<le> 255"
proof -
  have "branch_ok (fold record_and_update_bit xs b)" if "branch_ok b" for b
    using that by (induction xs arbitrary: b) simp_all
  then show ?thesis using get_probability_bounds branch_ok_new by (simp add: Let_def)
qed

text \<open>Against the routine of the original implementation, on two counters with an
  unclamped probability: the counters agree, and although the probability may differ (0 against 1) the
  split of every interval is the same, so the streams are compatible.\<close>

theorem branch_like_original:
  assumes "1 \<le> f" "1 \<le> t" "f < 256" "t < 256" "r \<le> 256"
  shows "fst (record_obs_and_update obs (f, t)) = ref_update obs (f, t)
    \<and> split_point r (snd (record_obs_and_update obs (f, t))) =
      (let (f', t') = ref_update obs (f, t) in split_point r (f' * 256 div (f' + t')))"
proof -
  obtain f' t' where u: "ref_update obs (f, t) = (f', t')" by fastforce
  show ?thesis
    using record_obs_counts [OF assms(3,4)] record_obs_probability [OF assms(1-4) u assms(5)] by (simp add: u)
qed

theorem branch_like_original_witness:
  "fst (record_obs_and_update True (1, 255)) = ref_update True (1, 255) \<and>
   split_point 255 (snd (record_obs_and_update True (1, 255))) =
     (let (f', t') = ref_update True (1, 255) in split_point 255 (f' * 256 div (f' + t')))"
  using branch_like_original [of 1 255 255 True] by simp

section \<open>Helpers and tables\<close>

text \<open>The word trick of \<open>has_ff\<close> finds exactly the values with a byte 0xFF.\<close>

theorem has_ff_correct: "has_ff v \<longleftrightarrow> 0xFF \<in> set (be_bytes 8 v)"
  by (rule has_ff_iff)

text \<open>\<open>devli\<close> is the sign extension of JPEG: the lower half of the values of \<open>s\<close> bits are the
  negative coefficients.\<close>

theorem devli_correct:
  assumes "unat s \<le> 15" "unat value < 2 ^ unat s"
  shows "sint (devli s value) =
    (if unat s = 0 then int (unat value)
     else if unat value < 2 ^ (unat s - 1) then int (unat value) - 2 ^ unat s + 1
     else int (unat value))"
  by (rule devli_signed [OF assms])

theorem devli_correct_witness: "sint (devli 4 3) = - 12"
  using devli_correct [of 4 3] by simp

text \<open>Whatever the quantization table, an edge coefficient has at most 3 noise bits, for which
  the model has branches, and the tables have their sizes.\<close>

theorem tables_ok_from_table: "tables_ok (new_from_table table)"
  by (rule tables_ok_new)

text \<open>The transposed table holds the factor of row \<open>r\<close> and column \<open>c\<close> at \<open>8 * c + r\<close>.\<close>

theorem table_transposed:
  assumes "r < 8" "c < 8"
  shows "quantization_table_transposed (new_from_table table) ! (c * 8 + r)
    = quantization_table (new_from_table table) ! (r * 8 + c)"
  by (rule transposed_entry [OF assms])

theorem table_transposed_witness:
  "quantization_table_transposed (new_from_table (map of_nat [1..<65])) ! (5 * 8 + 2)
    = quantization_table (new_from_table (map of_nat [1..<65])) ! (2 * 8 + 5)"
  by (rule table_transposed) simp_all

text \<open>The initial model has the sizes and counters its invariant asks for.\<close>

theorem default_model_ok: "model_ok Model_default"
  by (rule model_ok_default)

section \<open>Blocks and predictions\<close>

text \<open>C34: The vectorised count of nonzero coefficients counts the 49 inner positions the coder
  visits.\<close>

theorem count_of_non_zeros:
  assumes "simd_laws S" "block_ok b"
  shows "unat (get_count_of_non_zeros_7x7 S b) = length (filter (\<lambda>c. raw_data b ! c \<noteq> 0) UNZIGZAG_49_TR)"
  using simd_laws.get_count_of_non_zeros_7x7 [OF assms] by (simp add: nonzeros_at_def)

theorem count_of_non_zeros_witness:
  "unat (get_count_of_non_zeros_7x7 lane_ops (set_coefficient 9 7 EMPTY_BLOCK))
    = length (filter (\<lambda>c. raw_data (set_coefficient 9 7 EMPTY_BLOCK) ! c \<noteq> 0) UNZIGZAG_49_TR)"
  by (rule count_of_non_zeros [OF lane_ops.simd_laws_axioms]) simp

text \<open>The conversions between zigzag order and transposed raster are inverse to each other.\<close>

theorem zigzag_inverse:
  assumes "length a = 64" "block_ok b"
  shows "raw_data (zigzag_from_transposed (zigzag_to_transposed a)) = a
    \<and> zigzag_to_transposed (raw_data (zigzag_from_transposed b)) = b"
  using zigzag_from_to [OF assms(1)] zigzag_to_from [OF assms(2)] by simp_all

theorem zigzag_inverse_witness:
  "raw_data (zigzag_from_transposed (zigzag_to_transposed (map of_nat [0..<64]))) = map of_nat [0..<64]
    \<and> zigzag_to_transposed (raw_data (zigzag_from_transposed EMPTY_BLOCK)) = EMPTY_BLOCK"
  using zigzag_inverse [of "map of_nat [0..<64]" EMPTY_BLOCK] by simp

text \<open>C35: A DC in the range of JPEG, predicted by a value in this range, has a residual in this range
  again, and adding the prediction gives the DC back; so the encoder accepts it.\<close>

theorem dc_prediction_roundtrip:
  assumes "\<bar>sint dc\<bar> \<le> 1024" "\<bar>sint p\<bar> \<le> 1024"
  shows "\<bar>sint (adv_predict_or_unpredict_dc dc False p)\<bar> \<le> 1024
    \<and> adv_predict_or_unpredict_dc (ucast (adv_predict_or_unpredict_dc dc False p)) True p = scast dc"
  using adv_predict_roundtrip [OF assms] by simp

theorem dc_prediction_roundtrip_witness:
  "\<bar>sint (adv_predict_or_unpredict_dc 1000 False (- 900))\<bar> \<le> 1024
    \<and> adv_predict_or_unpredict_dc (ucast (adv_predict_or_unpredict_dc 1000 False (- 900))) True (- 900) = scast (1000 :: i16)"
  using dc_prediction_roundtrip [of 1000 "- 900"] by simp

text \<open>C36: The predictions of the edges that the coder uses depend on the inner coefficients only, so
  that the decoder, which does not have the edges yet, predicts what the encoder predicted.\<close>

theorem edge_prediction_from_inner:
  assumes "simd_laws S" "length r = 64" "length r' = 64"
    and "\<And>c. c < 64 \<Longrightarrow> 0 < c mod 8 \<Longrightarrow> 0 < c div 8 \<Longrightarrow> r ! c = r' ! c"
    and "length (edge_coefs_v (neighbor_context_left nd)) = 8"
  shows "fst (predict_current_edges S nd (rows8 r)) = fst (predict_current_edges S nd (rows8 r'))
    \<and> (\<forall>j. 1 \<le> j \<and> j < 8 \<longrightarrow>
        snd (predict_current_edges S nd (rows8 r)) ! j = snd (predict_current_edges S nd (rows8 r')) ! j)"
  by (rule simd_laws.predict_current_edges_cong [OF assms(1-3) _ assms(5)]) (rule assms(4))

theorem edge_prediction_from_inner_witness:
  "fst (predict_current_edges lane_ops no_neighbors (rows8 ((replicate 64 3)[16 := 100])))
    = fst (predict_current_edges lane_ops no_neighbors (rows8 (replicate 64 3)))"
proof -
  have "\<And>c :: nat. c < 64 \<Longrightarrow> 0 < c mod 8 \<Longrightarrow> 0 < c div 8 \<Longrightarrow> ((replicate 64 3)[16 := 100]) ! c = (replicate 64 3 ! c :: i32)"
    by (auto simp: nth_list_update)
  from edge_prediction_from_inner [OF lane_ops.simd_laws_axioms _ _ this, of no_neighbors]
  show ?thesis by (simp add: no_neighbors_def NEIGHBOR_DATA_EMPTY_def splat_def)
qed

text \<open>The weighted average of three neighboring coefficients fits into 16 bits and stays below
  2048, so its bit length is an index of the model.\<close>

theorem best_prior_in_range:
  assumes "simd_laws S" "ac_ok l" "ac_ok a" "ac_ok al" "c < 64"
  shows "unat (calc_coefficient_context_7x7_aavg_block S all_p pt l a al ! c) \<le> 2047"
  by (rule simd_laws.best_priors_bound [OF assms])

theorem best_prior_in_range_witness:
  "unat (calc_coefficient_context_7x7_aavg_block lane_ops True ALL_NEIGHBORS EMPTY_BLOCK EMPTY_BLOCK EMPTY_BLOCK ! 9) \<le> 2047"
  by (rule best_prior_in_range [OF lane_ops.simd_laws_axioms ac_ok_empty ac_ok_empty ac_ok_empty]) simp

text \<open>Writing a block changes what is read at its position and nowhere else, also when the vector
  is extended with empty blocks, and never beyond the capacity.\<close>

theorem set_block_data_correct:
  assumes "set_block_data pos b im = Ok im'"
  shows "blocks_of im' = (blocks_of im)(unat pos - unat (dpos_offset im) := b)
    \<and> dpos_offset im' = dpos_offset im
    \<and> (length (image im) \<le> capacity im \<longrightarrow> length (image im') \<le> capacity im')"
  using set_block_data_blocks_of [OF assms] by simp_all

theorem set_block_data_correct_witness:
  "\<exists>im'. set_block_data 0 EMPTY_BLOCK empty_image = Ok im'
    \<and> blocks_of im' = (blocks_of empty_image)(unat (0 :: u32) - unat (dpos_offset empty_image) := EMPTY_BLOCK)"
proof -
  obtain im' where "set_block_data 0 EMPTY_BLOCK empty_image = Ok im'"
    using set_block_data_total [of empty_image 0] by (auto simp: empty_image_def)
  with set_block_data_correct [OF this] show ?thesis by blast
qed

text \<open>C37: Merging the images of the threads concatenates their blocks, and succeeds only if every
  part starts where the previous one ended.\<close>

theorem merge_concatenates:
  assumes "merge alloc images = Ok im"
  shows "image im = concat (map image images)
    \<and> (\<forall>k < length images. dpos_offset (images ! k) = of_nat (length (concat (map image (take k images)))))"
proof -
  obtain d where d: "merge_parts images [] None = Ok (image im, d)"
    using assms by (auto simp: merge_def Let_def split: if_splits option.splits)
  show ?thesis using merge_parts_contents(1) [OF d] merge_parts_contents(2) [OF d] by simp
qed

theorem merge_concatenates_witness:
  "\<exists>im. merge (\<lambda>_. True) [empty_image, empty_image] = Ok im \<and> image im = concat (map image [empty_image, empty_image])"
proof -
  have "merge (\<lambda>_. True) [empty_image, empty_image] = Ok \<lparr>block_width = 1, original_height = 1, dpos_offset = 0, image = [], capacity = 0\<rparr>"
    by (simp add: merge_def empty_image_def)
  from merge_concatenates [OF this] this show ?thesis by blast
qed

section \<open>Order of the rows\<close>

text \<open>C38: Row number \<open>d\<close> of the image is the row the MCU order asks for: within an MCU row the rows
  of the last component come first and those of the first component last.\<close>

theorem row_order:
  assumes "length image_data = n" "0 < n" "n \<le> 3" "rows_v \<noteq> 0"
    and "mult = map (\<lambda>im. original_height im div rows_v) image_data" "rows = (\<Sum>x\<leftarrow>mult. unat x)"
    and "length mch = n" "i < n" "p < mult ! i" "(unat mcu_row + 1) * rows < 2 ^ 32"
    and "unat d = unat mcu_row * rows + ((\<Sum>j\<in>{i<..<n}. unat (mult ! j)) + unat p)"
  shows "\<exists>r. get_row_spec_from_index d image_data rows_v mch = Ok r \<and> rs_component r = i
    \<and> mcu_row_index r = mcu_row \<and> curr_y r = mcu_row * mult ! i + p
    \<and> (skip r \<longleftrightarrow> mch ! i \<le> curr_y r) \<and> (last_row_to_complete_mcu r \<longleftrightarrow> i = 0 \<and> p + 1 = mult ! 0)"
  using get_row_spec_at [OF assms] by (auto simp: row_spec_for_def Let_def)

theorem row_order_witness:
  "\<exists>r. get_row_spec_from_index 4 [empty_image\<lparr>original_height := 4\<rparr>, empty_image\<lparr>original_height := 2\<rparr>] 2 [4, 2] = Ok r
    \<and> rs_component r = 0 \<and> mcu_row_index r = 1 \<and> curr_y r = 1 * [2, 1] ! 0 + 0
    \<and> (skip r \<longleftrightarrow> [4, 2] ! 0 \<le> curr_y r) \<and> (last_row_to_complete_mcu r \<longleftrightarrow> 0 = (0 :: nat) \<and> 0 + 1 = [2, 1 :: u32] ! 0)"
  by (rule row_order [where rows = 3 and n = 2]) simp_all

text \<open>C39: The height to which a component is cut when its first \<open>n\<close> blocks are there is the least one that
  is a whole number of MCU rows and holds all of these blocks, and the whole component when no smaller one does.\<close>

theorem truncation_height_least:
  assumes "bch ci \<noteq> 0" "bcv ci = bc ci div bch ci + (if bc ci mod bch ci \<noteq> 0 then 1 else 0)"
    and "mcu_count \<noteq> 0" "mcu_count \<le> bcv ci" "bcv ci \<noteq> - 1"
    and "per_mcu = unat (bcv ci) div unat mcu_count"
  shows "\<exists>h. set_block_count_d_pos ti ci n mcu_count = Ok (ti\<lparr>trunc_bcv := h, trunc_bc := n\<rparr>)
    \<and> height_fits (unat (bcv ci)) (unat (bch ci)) per_mcu (unat n) (unat h)
    \<and> (\<forall>h'. height_fits (unat (bcv ci)) (unat (bch ci)) per_mcu (unat n) h' \<longrightarrow> unat h \<le> h')"
  unfolding assms(6) by (rule set_block_count_least [OF assms(1-5)])

theorem truncation_height_least_witness:
  "\<exists>h. set_block_count_d_pos \<lparr>trunc_bcv = 0, trunc_bc = 0\<rparr>
      (ComponentInfo_default\<lparr>bcv := 6, bch := 3, bc := 18\<rparr>) 7 3 = Ok \<lparr>trunc_bcv = h, trunc_bc = 7\<rparr>
    \<and> 7 \<le> unat h * 3 \<and> unat h \<le> 4"
proof -
  let ?ci = "ComponentInfo_default\<lparr>bcv := 6, bch := 3, bc := 18\<rparr>"
  have ok: "bch ?ci \<noteq> 0" "bcv ?ci = bc ?ci div bch ?ci + (if bc ?ci mod bch ?ci \<noteq> 0 then 1 else 0)"
    "(3 :: u32) \<noteq> 0" "3 \<le> bcv ?ci" "bcv ?ci \<noteq> - 1" "2 = unat (bcv ?ci) div unat (3 :: u32)" by simp_all
  have n: "unat (bcv ?ci) = 6" "unat (bch ?ci) = 3" "unat (7 :: u32) = 7" by simp_all
  obtain h where h: "set_block_count_d_pos \<lparr>trunc_bcv = 0, trunc_bc = 0\<rparr> ?ci 7 3 = Ok \<lparr>trunc_bcv = h, trunc_bc = 7\<rparr>"
    "height_fits 6 3 2 7 (unat h)" "\<forall>h'. height_fits 6 3 2 7 h' \<longrightarrow> unat h \<le> h'"
    using truncation_height_least [OF ok, where ti = "\<lparr>trunc_bcv = 0, trunc_bc = 0\<rparr>" and n = 7, unfolded n TrucateComponentsInfo.update_convs]
    by blast
  moreover have "height_fits 6 3 2 7 4" by (simp add: height_fits_def)
  ultimately have "unat h \<le> 4" by blast
  moreover have "7 \<le> unat h * 3" using h(2) by (auto simp: height_fits_def)
  ultimately show ?thesis using h(1) by blast
qed

end
